(* ===== verification/Kernel_Prelude.thy ===== *)
theory Kernel_Prelude
  imports Main "HOL-Library.Word"
begin

text \<open>
  Shared vocabulary of the development: the machine types of the C sources, the result type
  in which the kernel's crash macro is an explicit error value, and the generic lemmas on
  results, words, lists and bytes that the component theories use.

  \<^item> \<open>u8\<close> to \<open>u64\<close> are the fixed-width integers of \<open>uapi/stdint.h\<close>; \<open>+\<close>, \<open>-\<close>, \<open>*\<close> wrap
    around exactly as the unsigned C operators do.
  \<^item> \<open>fault\<close> has one constructor for every way the modelled code stops: \<open>HCF\<close> is the
    halt-and-catch-fire macro of \<open>stuos/src/debugging.h\<close> (also what a failing \<open>assert\<close> runs),
    \<open>WildAccess\<close> is a read or write outside the array or object the code owns (undefined
    behaviour in C), \<open>SignedOverflow\<close> is a signed value leaving its range (undefined
    behaviour as well), \<open>DivideByZero\<close> a division by zero, \<open>Diverged\<close> is a loop that never ends.
  \<^item> \<open>rbind\<close> sequences two fallible statements, \<open>sbind\<close> two statements that also pass on a state.
\<close>

section \<open>Machine types and results\<close>

unbundle bit_operations_syntax

type_synonym u8 = "8 word"
type_synonym u16 = "16 word"
type_synonym u32 = "32 word"
type_synonym u64 = "64 word"

text \<open>\<open>abi/uapi/page_size.h\<close>\<close>

abbreviation PAGE_SIZE :: u64 where "PAGE_SIZE \<equiv> 4096"

datatype fault = HCF | WildAccess | SignedOverflow | DivideByZero | Diverged

type_synonym 'a result = "fault + 'a"

definition rbind :: "'a result \<Rightarrow> ('a \<Rightarrow> 'b result) \<Rightarrow> 'b result" where
  "rbind m f = (case m of Inl e \<Rightarrow> Inl e | Inr x \<Rightarrow> f x)"

text \<open>The macro \<open>assert(c)\<close> of \<open>debugging.h\<close> followed by the rest of the statement list.\<close>

definition hcf_unless :: "bool \<Rightarrow> 'a result \<Rightarrow> 'a result" where
  "hcf_unless c k = (if c then k else Inl HCF)"

definition is_ok :: "'a result \<Rightarrow> bool" where
  "is_ok m = (case m of Inl _ \<Rightarrow> False | Inr _ \<Rightarrow> True)"

named_theorems result_simps \<open>rewrite rules for fallible statements\<close>

text \<open>A \<open>for\<close> loop over the listed values of its variable, whose body may fault.\<close>

fun rfold :: "('a \<Rightarrow> 's \<Rightarrow> 's result) \<Rightarrow> 'a list \<Rightarrow> 's \<Rightarrow> 's result" where
  "rfold body [] s = Inr s"
| "rfold body (x # xs) s = rbind (body x s) (rfold body xs)"

lemma rbind_Inl [simp, result_simps]: "rbind (Inl e) f = Inl e"
  by (simp add: rbind_def)

lemma rbind_Inr [simp, result_simps]: "rbind (Inr x) f = f x"
  by (simp add: rbind_def)

lemma rbind_eq_Inr_iff [result_simps]:
  "rbind m f = Inr y \<longleftrightarrow> (\<exists>x. m = Inr x \<and> f x = Inr y)"
  by (cases m) simp_all

lemma rbind_eq_Inl_iff:
  "rbind m f = Inl e \<longleftrightarrow> m = Inl e \<or> (\<exists>x. m = Inr x \<and> f x = Inl e)"
  by (cases m) auto

lemma rbind_assoc: "rbind (rbind m f) g = rbind m (\<lambda>x. rbind (f x) g)"
  by (cases m) simp_all

lemma rbind_cong [fundef_cong]:
  "m = m' \<Longrightarrow> (\<And>x. m' = Inr x \<Longrightarrow> f x = f' x) \<Longrightarrow> rbind m f = rbind m' f'"
  by (cases m') simp_all

lemma hcf_unless_True [simp, result_simps]: "hcf_unless True k = k"
  by (simp add: hcf_unless_def)

lemma hcf_unless_False [simp, result_simps]: "hcf_unless False k = Inl HCF"
  by (simp add: hcf_unless_def)

lemma hcf_unless_eq_Inr_iff [result_simps]:
  "hcf_unless c k = Inr y \<longleftrightarrow> c \<and> k = Inr y"
  by (simp add: hcf_unless_def)

lemma hcf_unless_cong [fundef_cong]:
  "c = c' \<Longrightarrow> (c' \<Longrightarrow> k = k') \<Longrightarrow> hcf_unless c k = hcf_unless c' k'"
  by (simp add: hcf_unless_def)

lemma is_ok_simps [simp, result_simps]: "is_ok (Inr x)" "\<not> is_ok (Inl e)"
  by (simp_all add: is_ok_def)

section \<open>Statements on a state\<close>

definition sbind :: "('s \<Rightarrow> ('a \<times> 's) result) \<Rightarrow> ('a \<Rightarrow> 's \<Rightarrow> ('b \<times> 's) result) \<Rightarrow> 's \<Rightarrow> ('b \<times> 's) result" where
  "sbind m k s = rbind (m s) (\<lambda>(x, s'). k x s')"

definition sret :: "'a \<Rightarrow> 's \<Rightarrow> ('a \<times> 's) result" where
  "sret x s = Inr (x, s)"

definition sfail :: "fault \<Rightarrow> 's \<Rightarrow> ('a \<times> 's) result" where
  "sfail e s = Inl e"

definition slift :: "'a result \<Rightarrow> 's \<Rightarrow> ('a \<times> 's) result" where
  "slift r s = rbind r (\<lambda>x. Inr (x, s))"

lemma sbind_Inr: "m s = Inr (x, s') \<Longrightarrow> sbind m k s = k x s'"
  by (simp add: sbind_def)

lemma sbind_Inl: "m s = Inl e \<Longrightarrow> sbind m k s = Inl e"
  by (simp add: sbind_def)

lemma sbind_eq_Inr_iff: "sbind m k s = Inr (y, s'') \<longleftrightarrow> (\<exists>x s'. m s = Inr (x, s') \<and> k x s' = Inr (y, s''))"
  by (auto simp: sbind_def rbind_eq_Inr_iff split: prod.splits)

lemma sret_apply [simp]: "sret x s = Inr (x, s)"
  by (simp add: sret_def)

lemma sfail_apply [simp]: "sfail e s = Inl e"
  by (simp add: sfail_def)

lemma slift_simps [simp]: "slift (Inr x) s = Inr (x, s)" "slift (Inl e) s = Inl e"
  by (simp_all add: slift_def)

lemma sbind_simps [simp]: "sbind (sret x) k = k x" "sbind (sfail e) k = sfail e" "sbind (slift (Inr x)) k = k x"
  "sbind (slift (Inl e)) k = sfail e"
  by (simp_all add: sbind_def fun_eq_iff)

section \<open>Words\<close>

text \<open>A C loop counter that is below its bound does not wrap when it is incremented.\<close>

lemma unat_plus1_less: "(i :: 'a::len word) < n \<Longrightarrow> unat (i + 1) = Suc (unat i)"
  by unat_arith

lemma plus1_less_measure:
  "(i :: 'a::len word) < n \<Longrightarrow> unat n - unat (i + 1) < unat n - unat i"
  using unat_plus1_less [of i n] by (simp add: word_less_nat_alt)

lemma minus1_less_measure: "0 < (i :: 'a::len word) \<Longrightarrow> unat (i - 1) < unat i"
  by unat_arith

lemma word_less_plus1_iff: "(i :: 'a::len word) < n \<Longrightarrow> x < i + 1 \<longleftrightarrow> x < i \<or> x = i"
  by unat_arith

lemma unat_add64: "unat (a :: u64) + unat b < 2 ^ 64 \<Longrightarrow> unat (a + b) = unat a + unat b"
  by (simp add: unat_word_ariths)

lemma unat_sub64: "b \<le> (a :: u64) \<Longrightarrow> unat (a - b) = unat a - unat b"
  by (rule unat_sub)

lemma unat_sub64_wrap: "(a :: u64) < b \<Longrightarrow> unat (a - b) = 2 ^ 64 + unat a - unat b"
  by (simp add: unat_sub_if' word_less_nat_alt)

text \<open>Two fields packed into one word are recovered by masking and shifting.\<close>

lemma packed_fields:
  fixes a b :: "'a::len word"
  assumes "take_bit k b = b" and "take_bit m a = a" and "k + m \<le> LENGTH('a)"
  shows "take_bit m (drop_bit k (push_bit k a OR b)) = a" and "take_bit k (push_bit k a OR b) = b"
proof -
  have B: "bit b i \<Longrightarrow> i < k" for i using arg_cong [OF assms(1), of "\<lambda>w. bit w i"] by (auto simp: bit_simps)
  have A: "bit a i \<Longrightarrow> i < m" for i using arg_cong [OF assms(2), of "\<lambda>w. bit w i"] by (auto simp: bit_simps)
  show "take_bit m (drop_bit k (push_bit k a OR b)) = a"
    by (rule bit_word_eqI) (use assms(3) in \<open>auto simp: bit_simps dest: A B\<close>)
  show "take_bit k (push_bit k a OR b) = b"
    by (rule bit_word_eqI) (use assms(3) in \<open>auto simp: bit_simps dest: A B\<close>)
qed

lemma and_0xFFFF: "(w :: u64) AND 0xFFFF = take_bit 16 w"
proof -
  have "(0xFFFF :: u64) = mask 16" by (simp add: mask_eq_exp_minus_1)
  then show ?thesis by (simp add: take_bit_eq_mask)
qed

lemma take_bit_of_nat_small: "n < 2 ^ k \<Longrightarrow> take_bit k (of_nat n :: 'a::len word) = of_nat n"
  by (metis of_nat_take_bit take_bit_nat_eq_self)

lemma rfold_append: "rfold f (xs @ ys) s = rbind (rfold f xs s) (rfold f ys)"
  by (induction xs arbitrary: s) (simp_all add: rbind_def split: sum.splits)

lemma rfold_pure: "rfold (\<lambda>x s. Inr (f x s)) xs s = Inr (fold f xs s)"
  by (induction xs arbitrary: s) simp_all

lemma rfold_check:
  "rfold (\<lambda>x s. if P x s then Inl HCF else Inr s) xs s =
     (if \<exists>x \<in> set xs. P x s then Inl HCF else Inr s)"
  by (induction xs) auto

lemma rfold_invariant:
  assumes "\<And>x s s'. x \<in> set xs \<Longrightarrow> I s \<Longrightarrow> f x s = Inr s' \<Longrightarrow> I s'"
    and "I s" and "rfold f xs s = Inr s'"
  shows "I s'"
  using assms by (induction xs arbitrary: s) (auto simp: result_simps)

text \<open>The only possible fault is a deliberate halt, and a result satisfies \<open>P\<close>.\<close>

definition halts_or :: "('a \<Rightarrow> bool) \<Rightarrow> 'a result \<Rightarrow> bool" where
  "halts_or P r = (case r of Inl e \<Rightarrow> e = HCF | Inr x \<Rightarrow> P x)"

lemma halts_or_simps [simp]: "halts_or P (Inl e) \<longleftrightarrow> e = HCF" "halts_or P (Inr x) \<longleftrightarrow> P x"
  by (simp_all add: halts_or_def)

lemma halts_or_rbind:
  "halts_or Q m \<Longrightarrow> (\<And>x. Q x \<Longrightarrow> halts_or P (f x)) \<Longrightarrow> halts_or P (rbind m f)"
  by (cases m) simp_all

lemma halts_or_rfold:
  "(\<And>x s. x \<in> set xs \<Longrightarrow> P s \<Longrightarrow> halts_or P (f x s)) \<Longrightarrow> P s \<Longrightarrow> halts_or P (rfold f xs s)"
  by (induction xs arbitrary: s) (auto intro!: halts_or_rbind [of P])

lemma halts_orD: "halts_or P r \<Longrightarrow> r = Inl e \<Longrightarrow> e = HCF" "halts_or P r \<Longrightarrow> r = Inr x \<Longrightarrow> P x"
  by simp_all

text \<open>No fault at all, and the result satisfies \<open>P\<close>.\<close>

definition returns :: "('a \<Rightarrow> bool) \<Rightarrow> 'a result \<Rightarrow> bool" where
  "returns P r = (case r of Inl e \<Rightarrow> False | Inr x \<Rightarrow> P x)"

lemma returns_simps [simp]: "\<not> returns P (Inl e)" "returns P (Inr x) \<longleftrightarrow> P x"
  by (simp_all add: returns_def)

lemma returns_rbind:
  "returns Q m \<Longrightarrow> (\<And>x. Q x \<Longrightarrow> returns P (f x)) \<Longrightarrow> returns P (rbind m f)"
  by (cases m) simp_all

lemma returns_rfold:
  "(\<And>x s. x \<in> set xs \<Longrightarrow> P s \<Longrightarrow> returns P (f x s)) \<Longrightarrow> P s \<Longrightarrow> returns P (rfold f xs s)"
  by (induction xs arbitrary: s) (auto intro!: returns_rbind [of P])

lemma returns_mono: "returns P r \<Longrightarrow> (\<And>x. P x \<Longrightarrow> Q x) \<Longrightarrow> returns Q r"
  by (cases r) simp_all

lemma returnsE: "returns P r \<Longrightarrow> (\<And>x. r = Inr x \<Longrightarrow> P x \<Longrightarrow> thesis) \<Longrightarrow> thesis"
  by (cases r) simp_all

end
