(* ===== verification/Kern_Libc.thy ===== *)
theory Kern_Libc
  imports Kernel_Prelude
begin

text \<open>
  The memory and string routines of \<open>stuos/src/kern_libc.c\<close> over a flat byte memory
  \<open>u64 \<Rightarrow> u8\<close>. Each C loop is one recursive function with the same counter; pointer arithmetic
  wraps at 64 bits. The second part relates them to reference definitions: block copy \<open>copied\<close>, C
  strings \<open>cstr\<close> and string comparison \<open>scmp\<close>.
\<close>

section \<open>Memory and string routines (\<open>stuos/src/kern_libc.c\<close>)\<close>

type_synonym mem = "u64 \<Rightarrow> u8"

function memcpy_loop :: "u64 \<Rightarrow> u64 \<Rightarrow> u64 \<Rightarrow> u64 \<Rightarrow> mem \<Rightarrow> mem" where
  "memcpy_loop i n pdest psrc m =
     (if i < n then memcpy_loop (i + 1) n pdest psrc (m(pdest + i := m (psrc + i))) else m)"
  by pat_completeness auto
termination
  by (relation "measure (\<lambda>(i, n, _). unat n - unat i)") (auto intro: plus1_less_measure)

definition memcpy :: "u64 \<Rightarrow> u64 \<Rightarrow> u64 \<Rightarrow> mem \<Rightarrow> u64 \<times> mem" where
  "memcpy dest src n m = (dest, memcpy_loop 0 n dest src m)"

function memset_loop :: "u64 \<Rightarrow> u64 \<Rightarrow> u64 \<Rightarrow> u8 \<Rightarrow> mem \<Rightarrow> mem" where
  "memset_loop i n p c m = (if i < n then memset_loop (i + 1) n p c (m(p + i := c)) else m)"
  by pat_completeness auto
termination
  by (relation "measure (\<lambda>(i, n, _). unat n - unat i)") (auto intro: plus1_less_measure)

text \<open>In \<open>memset\<close> and \<open>volatile_memset\<close>, which have the same body, \<open>c\<close> is an \<open>int\<close> cut to a byte.\<close>

definition memset :: "u64 \<Rightarrow> u32 \<Rightarrow> u64 \<Rightarrow> mem \<Rightarrow> u64 \<times> mem" where
  "memset s c n m = (s, memset_loop 0 n s (ucast c) m)"

definition volatile_memset :: "u64 \<Rightarrow> u32 \<Rightarrow> u64 \<Rightarrow> mem \<Rightarrow> u64 \<times> mem" where
  "volatile_memset s c n m = (s, memset_loop 0 n s (ucast c) m)"

function memmove_down :: "u64 \<Rightarrow> u64 \<Rightarrow> u64 \<Rightarrow> mem \<Rightarrow> mem" where
  "memmove_down i pdest psrc m =
     (if 0 < i then memmove_down (i - 1) pdest psrc (m(pdest + (i - 1) := m (psrc + (i - 1)))) else m)"
  by pat_completeness auto
termination
  by (relation "measure (\<lambda>(i, _). unat i)") (auto intro: minus1_less_measure)

definition memmove :: "u64 \<Rightarrow> u64 \<Rightarrow> u64 \<Rightarrow> mem \<Rightarrow> u64 \<times> mem" where
  "memmove dest src n m =
     (dest, if dest < src then memcpy_loop 0 n dest src m
            else if src < dest then memmove_down n dest src m
            else m)"

function memcmp_loop :: "u64 \<Rightarrow> u64 \<Rightarrow> u64 \<Rightarrow> u64 \<Rightarrow> mem \<Rightarrow> int" where
  "memcmp_loop i n p1 p2 m =
     (if i < n then
        (if m (p1 + i) \<noteq> m (p2 + i) then (if m (p1 + i) < m (p2 + i) then -1 else 1)
         else memcmp_loop (i + 1) n p1 p2 m)
      else 0)"
  by pat_completeness auto
termination
  by (relation "measure (\<lambda>(i, n, _). unat n - unat i)") (auto intro: plus1_less_measure)

definition memcmp :: "u64 \<Rightarrow> u64 \<Rightarrow> u64 \<Rightarrow> mem \<Rightarrow> int" where
  "memcmp s1 s2 n m = memcmp_loop 0 n s1 s2 m"

definition bcmp :: "u64 \<Rightarrow> u64 \<Rightarrow> u64 \<Rightarrow> mem \<Rightarrow> int" where
  "bcmp a b n m = memcmp a b n m"

text \<open>
  \<open>strlen\<close> and \<open>strcpy\<close> walk until they meet a zero byte; without one they never return, which
  is \<open>None\<close>.
\<close>

partial_function (option) strlen_loop :: "u64 \<Rightarrow> u64 \<Rightarrow> mem \<Rightarrow> u64 option" where
  "strlen_loop str result m =
     (if m str \<noteq> 0 then strlen_loop (str + 1) (result + 1) m else Some result)"

definition strlen :: "u64 \<Rightarrow> mem \<Rightarrow> u64 option" where
  "strlen str m = strlen_loop str 0 m"

partial_function (option) strcpy_loop :: "u64 \<Rightarrow> u64 \<Rightarrow> mem \<Rightarrow> mem option" where
  "strcpy_loop dest src m =
     (let m' = m(dest := m src) in
      if m src \<noteq> 0 then strcpy_loop (dest + 1) (src + 1) m' else Some m')"

definition strcpy :: "u64 \<Rightarrow> u64 \<Rightarrow> mem \<Rightarrow> (u64 \<times> mem) option" where
  "strcpy dest src m = map_option (\<lambda>m'. (dest, m')) (strcpy_loop dest src m)"

text \<open>
  \<open>strcmp\<close> counts with an \<open>int\<close>, so the counter may not pass \<open>INT_MAX\<close>. Plain \<open>char\<close> is signed
  on x86-64, and the result is the difference of the two signed characters as an \<open>int\<close>.
\<close>

abbreviation INT_MAX :: nat where "INT_MAX \<equiv> 2147483647"

function strcmp_loop :: "nat \<Rightarrow> u64 \<Rightarrow> u64 \<Rightarrow> mem \<Rightarrow> int result" where
  "strcmp_loop i str1 str2 m =
     (if m (str1 + of_nat i) = m (str2 + of_nat i) \<and>
         \<not> (m (str1 + of_nat i) = 0 \<or> m (str2 + of_nat i) = 0) then
        (if i < INT_MAX then strcmp_loop (Suc i) str1 str2 m else Inl SignedOverflow)
      else if m (str1 + of_nat i) = 0 \<and> m (str2 + of_nat i) = 0 then Inr 0
      else Inr (sint (m (str1 + of_nat i)) - sint (m (str2 + of_nat i))))"
  by pat_completeness auto
termination by (relation "measure (\<lambda>(i, _). INT_MAX - i)") auto

definition strcmp :: "u64 \<Rightarrow> u64 \<Rightarrow> mem \<Rightarrow> int result" where
  "strcmp str1 str2 m = strcmp_loop 0 str1 str2 m"

function strncmp :: "u64 \<Rightarrow> u64 \<Rightarrow> u64 \<Rightarrow> mem \<Rightarrow> int" where
  "strncmp s1 s2 n m =
     (if n > 0 then
        (if m s1 \<noteq> m s2 then sint (m s1) - sint (m s2)
         else if m s1 = 0 then 0
         else strncmp (s1 + 1) (s2 + 1) (n - 1) m)
      else 0)"
  by pat_completeness auto
termination
  by (relation "measure (\<lambda>(_, _, n, _). unat n)") (auto intro: minus1_less_measure)

definition toupper :: "int \<Rightarrow> int" where
  "toupper c = (if 97 \<le> c \<and> c \<le> 122 then c + (65 - 97) else c)"

definition tolower :: "int \<Rightarrow> int" where
  "tolower c = (let uc = c mod 256 in if 65 \<le> uc \<and> uc \<le> 90 then uc + 32 else c)"

lemmas loop_simps [simp del] = memcpy_loop.simps memset_loop.simps memmove_down.simps
  memcmp_loop.simps strcmp_loop.simps strncmp.simps

section \<open>What the routines compute\<close>

text \<open>A range of memory as a list of bytes, and a list of bytes stored in memory.\<close>

definition mem_bytes :: "mem \<Rightarrow> u64 \<Rightarrow> nat \<Rightarrow> u8 list" where
  "mem_bytes m p n = map (\<lambda>i. m (p + of_nat i)) [0..<n]"

definition store_bytes :: "u64 \<Rightarrow> u8 list \<Rightarrow> mem \<Rightarrow> mem" where
  "store_bytes p bs m = (\<lambda>a. if unat (a - p) < length bs then bs ! unat (a - p) else m a)"

lemma length_mem_bytes [simp]: "length (mem_bytes m p n) = n"
  by (simp add: mem_bytes_def)

lemma mem_bytes_store [simp]: "length bs < 2 ^ 64 \<Longrightarrow> n = length bs \<Longrightarrow> mem_bytes (store_bytes p bs m) p n = bs"
  by (auto intro!: nth_equalityI simp: mem_bytes_def store_bytes_def unat_of_nat take_bit_nat_eq_self)

text \<open>\<open>copied m d s n\<close>: the memory \<open>m\<close> with the \<open>n\<close> bytes at \<open>d\<close> replaced by the bytes that were
  at \<open>s\<close>, addresses taken modulo the size of the address space.\<close>

definition copied :: "mem \<Rightarrow> u64 \<Rightarrow> u64 \<Rightarrow> u64 \<Rightarrow> mem" where
  "copied m d s n = (\<lambda>a. if a - d < n then m (s + (a - d)) else m a)"

lemma copied_0 [simp]: "copied m d s 0 = m"
  by (simp add: copied_def)

lemma copied_step:
  assumes "i < n" and "\<not> (s + i - d < i)"
  shows "(copied m d s i)(d + i := copied m d s i (s + i)) = copied m d s (i + 1)"
proof
  fix a
  have "a = d + i \<longleftrightarrow> a - d = i" by auto
  then show "((copied m d s i)(d + i := copied m d s i (s + i))) a = copied m d s (i + 1) a"
    using assms(2) by (auto simp: copied_def word_less_plus1_iff [OF assms(1)])
qed

lemma memcpy_loop_copied:
  assumes "\<And>k. k < n \<Longrightarrow> \<not> (s + k - d < k)" and "i \<le> n"
  shows "memcpy_loop i n d s (copied m d s i) = copied m d s n"
  using assms(2)
proof (induction "unat n - unat i" arbitrary: i)
  case 0
  then have "i = n" by (simp add: word_le_nat_alt word_unat_eq_iff)
  then show ?case by (simp add: memcpy_loop.simps)
next
  case (Suc k)
  then have i: "i < n" by (simp add: word_less_nat_alt)
  have "i + 1 \<le> n" using i by unat_arith
  moreover have "k = unat n - unat (i + 1)" using Suc.hyps(2) unat_plus1_less [OF i] by simp
  ultimately have "memcpy_loop (i + 1) n d s (copied m d s (i + 1)) = copied m d s n" using Suc.hyps(1) by blast
  with i assms(1) [OF i] show ?case by (subst memcpy_loop.simps) (simp add: copied_step)
qed

definition no_overlap :: "u64 \<Rightarrow> u64 \<Rightarrow> u64 \<Rightarrow> bool" where
  "no_overlap d s n \<longleftrightarrow> (\<forall>j k. j < n \<and> k < n \<longrightarrow> d + j \<noteq> s + k)"

lemma memcpy_eq_copied: "no_overlap d s n \<Longrightarrow> memcpy d s n m = (d, copied m d s n)"
proof -
  assume a: "no_overlap d s n"
  have "\<not> (s + k - d < k)" if "k < n" for k
  proof
    assume l: "s + k - d < k"
    then have "s + k - d < n" using that by (rule less_trans)
    with a that have "d + (s + k - d) \<noteq> s + k" unfolding no_overlap_def by blast
    then show False by simp
  qed
  with memcpy_loop_copied [of n s d 0 m] show ?thesis by (simp add: memcpy_def)
qed

definition copied_from :: "mem \<Rightarrow> u64 \<Rightarrow> u64 \<Rightarrow> u64 \<Rightarrow> u64 \<Rightarrow> mem" where
  "copied_from m d s i n = (\<lambda>a. if i \<le> a - d \<and> a - d < n then m (s + (a - d)) else m a)"

lemma memmove_down_copied:
  assumes "s < d" and "unat d + unat n \<le> 2 ^ 64" and "i \<le> n"
  shows "memmove_down i d s (copied_from m d s i n) = copied m d s n"
  using assms(3)
proof (induction "unat i" arbitrary: i)
  case 0
  then have "i = 0" by (simp add: unat_eq_zero)
  then show ?case by (simp add: memmove_down.simps copied_from_def copied_def fun_eq_iff)
next
  case (Suc k)
  then have i: "0 < i" by (simp add: word_less_nat_alt)
  let ?j = "i - 1"
  have j: "?j < n" "?j \<le> n" "k = unat ?j" "?j + 1 = i" using i Suc.prems Suc.hyps(2) by unat_arith+
  have src: "\<not> (i \<le> s + ?j - d \<and> s + ?j - d < n)"
  proof (cases "d - s \<le> ?j")
    case True
    have "unat (?j - (d - s)) = unat ?j - unat (d - s)" by (rule unat_sub64 [OF True])
    moreover have "0 < unat (d - s)" using assms(1) by (simp add: unat_gt_0)
    moreover have eq: "s + ?j - d = ?j - (d - s)" by simp
    ultimately show ?thesis unfolding eq using j(3) Suc.hyps(2) by (auto simp: word_le_nat_alt)
  next
    case False
    then have "unat (?j - (d - s)) = 2 ^ 64 + unat ?j - unat (d - s)" by (intro unat_sub64_wrap) simp
    moreover have "unat (d - s) = unat d - unat s" using assms(1) by (intro unat_sub64) simp
    moreover have eq: "s + ?j - d = ?j - (d - s)" by simp
    ultimately show ?thesis unfolding eq using assms(1,2) by (auto simp: word_less_nat_alt)
  qed
  have "(copied_from m d s i n)(d + ?j := copied_from m d s i n (s + ?j)) = copied_from m d s ?j n"
  proof
    fix a
    have "a = d + ?j \<longleftrightarrow> a - d = ?j" by (auto simp: diff_eq_eq algebra_simps)
    moreover have "?j \<le> a - d \<longleftrightarrow> i \<le> a - d \<or> a - d = ?j" using i by unat_arith
    ultimately show "((copied_from m d s i n)(d + ?j := copied_from m d s i n (s + ?j))) a = copied_from m d s ?j n a"
      using src j(1) by (auto simp: copied_from_def)
  qed
  with i Suc.hyps(1) [OF j(3,2)] show ?case by (subst memmove_down.simps) simp
qed

lemma memmove_eq_copied:
  assumes "unat src + unat n \<le> 2 ^ 64" and "unat dest + unat n \<le> 2 ^ 64"
  shows "memmove dest src n m = (dest, copied m dest src n)"
proof -
  consider "dest < src" | "src < dest" | "src = dest" by (metis linorder_neqE)
  then show ?thesis
  proof cases
    case 1
    have "\<not> (src + k - dest < k)" if "k < n" for k
    proof -
      have "unat (src - dest) = unat src - unat dest" using 1 by (intro unat_sub64) simp
      then have "unat (src - dest + k) = unat src - unat dest + unat k"
        using that 1 assms(1) by (subst unat_add64) (auto simp: word_less_nat_alt)
      moreover have eq: "src + k - dest = src - dest + k" by simp
      ultimately show ?thesis unfolding eq by (simp add: word_less_nat_alt)
    qed
    with 1 memcpy_loop_copied [of n src dest 0 m] show ?thesis by (simp add: memmove_def)
  next
    case 2
    have "copied_from m dest src n n = m" by (auto simp: copied_from_def fun_eq_iff)
    with 2 memmove_down_copied [OF 2 assms(2) order_refl, of m] show ?thesis by (auto simp: memmove_def)
  next
    case 3
    then show ?thesis by (auto simp: memmove_def copied_def)
  qed
qed

lemma memset_loop_eq:
  assumes "i \<le> n"
  shows "memset_loop i n p c (\<lambda>a. if a - p < i then c else m a) = (\<lambda>a. if a - p < n then c else m a)"
  using assms
proof (induction "unat n - unat i" arbitrary: i)
  case 0
  then have "i = n" by (simp add: word_le_nat_alt word_unat_eq_iff)
  then show ?case by (simp add: memset_loop.simps)
next
  case (Suc k)
  then have i: "i < n" by (simp add: word_less_nat_alt)
  have "i + 1 \<le> n" using i by unat_arith
  moreover have "k = unat n - unat (i + 1)" using Suc.hyps(2) unat_plus1_less [OF i] by simp
  moreover have "(\<lambda>a. if a - p < i then c else m a)(p + i := c) = (\<lambda>a. if a - p < i + 1 then c else m a)"
  proof
    fix a
    have "a = p + i \<longleftrightarrow> a - p = i" by auto
    then show "((\<lambda>a. if a - p < i then c else m a)(p + i := c)) a = (if a - p < i + 1 then c else m a)"
      by (auto simp: word_less_plus1_iff [OF i])
  qed
  ultimately show ?case using i Suc.hyps(1) by (subst memset_loop.simps) simp
qed

lemma memset_eq: "memset p c n m = (p, \<lambda>a. if a - p < n then ucast c else m a)"
  using memset_loop_eq [of 0 n p "ucast c" m] by (simp add: memset_def)


text \<open>\<open>cstr m p xs\<close>: at \<open>p\<close> there is the C string with the non-zero characters \<open>xs\<close>.\<close>

fun cstr :: "mem \<Rightarrow> u64 \<Rightarrow> u8 list \<Rightarrow> bool" where
  "cstr m p [] \<longleftrightarrow> m p = 0"
| "cstr m p (c # cs) \<longleftrightarrow> m p = c \<and> c \<noteq> 0 \<and> cstr m (p + 1) cs"

lemma strlen_loop_cstr: "cstr m p xs \<Longrightarrow> strlen_loop p r m = Some (r + of_nat (length xs))"
  by (induction xs arbitrary: p r) (simp_all add: strlen_loop.simps algebra_simps)

lemma strlen_cstr: "cstr m p xs \<Longrightarrow> strlen p m = Some (of_nat (length xs))"
  by (simp add: strlen_def strlen_loop_cstr)

lemma cstr_nth: "cstr m p xs \<Longrightarrow> i < length xs \<Longrightarrow> m (p + of_nat i) = xs ! i \<and> xs ! i \<noteq> 0"
  by (induction xs arbitrary: p i) (auto simp: less_Suc_eq_0_disj simp flip: add.assoc)

lemma cstr_end: "cstr m p xs \<Longrightarrow> m (p + of_nat (length xs)) = 0"
  by (induction xs arbitrary: p) (auto simp flip: add.assoc)

lemma cstr_length: "cstr m p xs \<Longrightarrow> length xs < 2 ^ 64"
proof (rule ccontr)
  assume c: "cstr m p xs" and "\<not> length xs < 2 ^ 64"
  then have "length xs mod 2 ^ 64 < length xs" by (simp add: less_le_trans [OF mod_less_divisor])
  from cstr_nth [OF c this] have "m (p + of_nat (length xs mod 2 ^ 64)) \<noteq> 0" by simp
  moreover have "(of_nat (length xs mod 2 ^ 64) :: u64) = of_nat (length xs)"
    by (simp add: word_unat_eq_iff unat_of_nat)
  ultimately show False using cstr_end [OF c] by simp
qed

lemma cstr_upd:
  "(\<And>k. k \<le> length xs \<Longrightarrow> p + of_nat k \<noteq> a) \<Longrightarrow> cstr m p xs \<Longrightarrow> cstr (m(a := v)) p xs"
proof (induction xs arbitrary: p)
  case Nil
  then show ?case by force
next
  case (Cons x xs)
  have "p + 1 + of_nat k \<noteq> a" if "k \<le> length xs" for k
    using Cons.prems(1) [of "Suc k"] that by (simp add: algebra_simps)
  with Cons.IH [of "p + 1"] Cons.prems(1) [of 0] Cons.prems(2) show ?case by auto
qed

definition str_apart :: "u64 \<Rightarrow> u64 \<Rightarrow> nat \<Rightarrow> bool" where
  "str_apart d s n \<longleftrightarrow> (\<forall>j k. j \<le> n \<and> k \<le> n \<longrightarrow> d + of_nat j \<noteq> s + of_nat k)"

lemma strcpy_loop_cstr:
  assumes "cstr m s xs" and "str_apart d s (length xs)"
  shows "\<exists>m'. strcpy_loop d s m = Some m' \<and> cstr m' d xs \<and>
    (\<forall>a. (\<forall>k \<le> length xs. a \<noteq> d + of_nat k) \<longrightarrow> m' a = m a)"
  using assms
proof (induction xs arbitrary: d s m)
  case Nil
  then show ?case by (subst strcpy_loop.simps) (auto simp: Let_def dest: spec [of _ 0])
next
  case (Cons x xs)
  let ?m = "m(d := m s)"
  have apart: "str_apart (d + 1) (s + 1) (length xs)"
    unfolding str_apart_def
  proof (intro allI impI)
    fix j k assume "j \<le> length xs \<and> k \<le> length xs"
    then show "d + 1 + of_nat j \<noteq> s + 1 + of_nat k"
      using Cons.prems(2)[unfolded str_apart_def, rule_format, of "Suc j" "Suc k"]
      by (simp add: algebra_simps)
  qed
  have "cstr ?m (s + 1) xs"
  proof (rule cstr_upd)
    fix k assume "k \<le> length xs"
    then show "s + 1 + of_nat k \<noteq> d"
      using Cons.prems(2)[unfolded str_apart_def, rule_format, of 0 "Suc k"] by (auto simp: algebra_simps)
  qed (use Cons.prems in auto)
  from Cons.IH [OF this apart] obtain m' where m': "strcpy_loop (d + 1) (s + 1) ?m = Some m'"
    "cstr m' (d + 1) xs" "\<forall>a. (\<forall>k \<le> length xs. a \<noteq> d + 1 + of_nat k) \<longrightarrow> m' a = ?m a" by blast
  have "d \<noteq> d + 1 + of_nat k" if "k \<le> length xs" for k
  proof
    assume "d = d + 1 + of_nat k"
    then have "(of_nat (Suc k) :: u64) = 0" by (simp add: add.assoc)
    then have "2 ^ 64 dvd Suc k" unfolding word_of_nat_eq_0_iff by simp
    then have "2 ^ 64 \<le> Suc k" by (rule dvd_imp_le) simp
    with that cstr_length [OF Cons.prems(1)] show False by simp
  qed
  then have "m' d = m s" using m'(3) by auto
  moreover have "m' a = m a" if "\<forall>k \<le> length (x # xs). a \<noteq> d + of_nat k" for a
  proof -
    have "a \<noteq> d" using that by (auto dest: spec [of _ 0])
    moreover have "a \<noteq> d + 1 + of_nat k" if "k \<le> length xs" for k
      using \<open>\<forall>k \<le> length (x # xs). a \<noteq> d + of_nat k\<close> [rule_format, of "Suc k"] that by (simp add: algebra_simps)
    ultimately show ?thesis using m'(3) by auto
  qed
  ultimately show ?case using m' Cons.prems(1) by (subst strcpy_loop.simps) (auto simp: Let_def)
qed

text \<open>Comparison of two C strings by the difference of the first differing signed characters.\<close>

fun scmp :: "u8 list \<Rightarrow> u8 list \<Rightarrow> int" where
  "scmp [] [] = 0"
| "scmp (x # xs) [] = sint x"
| "scmp [] (y # ys) = - sint y"
| "scmp (x # xs) (y # ys) = (if x = y then scmp xs ys else sint x - sint y)"

lemma strcmp_loop_cstr:
  assumes "cstr m (a + of_nat i) xs" and "cstr m (b + of_nat i) ys" and "i + length xs \<le> INT_MAX"
  shows "strcmp_loop i a b m = Inr (scmp xs ys)"
  using assms
proof (induction xs ys arbitrary: i rule: scmp.induct)
  case (4 x xs y ys)
  show ?case
  proof (cases "x = y")
    case True
    have "strcmp_loop (Suc i) a b m = Inr (scmp xs ys)"
      using 4 True by (intro "4.IH") (simp_all add: algebra_simps)
    with True 4 show ?thesis by (subst strcmp_loop.simps) simp
  next
    case False
    with 4 show ?thesis by (subst strcmp_loop.simps) simp
  qed
qed (subst strcmp_loop.simps, simp add: Let_def)+

lemma strcmp_cstr:
  "cstr m a xs \<Longrightarrow> cstr m b ys \<Longrightarrow> length xs \<le> INT_MAX \<Longrightarrow> strcmp a b m = Inr (scmp xs ys)"
  using strcmp_loop_cstr [of m a 0 xs b ys] by (simp add: strcmp_def)

lemma sint_eq_0 [simp]: "sint (x :: u8) = 0 \<longleftrightarrow> x = 0"
  by (metis signed_0 signed_word_eqI)

lemma sint_eq_iff [simp]: "sint (x :: u8) = sint y \<longleftrightarrow> x = y"
  by (metis signed_word_eqI)

lemma scmp_eq_0: "0 \<notin> set xs \<Longrightarrow> 0 \<notin> set ys \<Longrightarrow> scmp xs ys = 0 \<longleftrightarrow> xs = ys"
  by (induction xs ys rule: scmp.induct) auto

lemma cstr_nonzero: "cstr m p xs \<Longrightarrow> 0 \<notin> set xs"
  by (induction xs arbitrary: p) auto

lemma strncmp_cstr:
  "cstr m a xs \<Longrightarrow> cstr m b ys \<Longrightarrow> strncmp a b n m = scmp (take (unat n) xs) (take (unat n) ys)"
proof (induction "unat n" arbitrary: a b n xs ys)
  case 0
  then have "n = 0" by (simp add: unat_eq_zero)
  then show ?case by (subst strncmp.simps) simp
next
  case (Suc k)
  then have n: "0 < n" by (simp add: word_less_nat_alt)
  have k: "k = unat (n - 1)" "unat n = Suc (unat (n - 1))" using n Suc.hyps(2) by unat_arith+
  show ?case
  proof (cases "\<exists>c xs' ys'. xs = c # xs' \<and> ys = c # ys'")
    case True
    then obtain c xs' ys' where "xs = c # xs'" "ys = c # ys'" by blast
    with n k Suc show ?thesis by (subst strncmp.simps) auto
  next
    case False
    with n k Suc.prems show ?thesis
      by (subst strncmp.simps) (cases xs; cases ys; auto)
  qed
qed

lemma cstr_frame:
  "(\<And>k. k \<le> length xs \<Longrightarrow> m' (p + of_nat k) = m (p + of_nat k)) \<Longrightarrow> cstr m p xs \<Longrightarrow> cstr m' p xs"
proof (induction xs arbitrary: p)
  case Nil
  then show ?case by force
next
  case (Cons x xs)
  have "m' (p + 1 + of_nat k) = m (p + 1 + of_nat k)" if "k \<le> length xs" for k
    using Cons.prems(1) [of "Suc k"] that by (simp add: algebra_simps)
  with Cons.IH [of "p + 1"] Cons.prems(1) [of 0] Cons.prems(2) show ?case by auto
qed

lemma memcmp_loop_eq_0:
  "i \<le> n \<Longrightarrow> memcmp_loop i n a b m = 0 \<longleftrightarrow> (\<forall>k. i \<le> k \<and> k < n \<longrightarrow> m (a + k) = m (b + k))"
proof (induction "unat n - unat i" arbitrary: i)
  case 0
  then have "i = n" by (simp add: word_le_nat_alt word_unat_eq_iff)
  then show ?case by (auto simp: memcmp_loop.simps)
next
  case (Suc k)
  then have i: "i < n" by (simp add: word_less_nat_alt)
  have "i + 1 \<le> n" using i by unat_arith
  moreover have "k = unat n - unat (i + 1)" using Suc.hyps(2) unat_plus1_less [OF i] by simp
  ultimately have IH: "memcmp_loop (i + 1) n a b m = 0 \<longleftrightarrow>
      (\<forall>k. i + 1 \<le> k \<and> k < n \<longrightarrow> m (a + k) = m (b + k))" using Suc.hyps(1) by blast
  have "i \<le> k \<longleftrightarrow> i = k \<or> i + 1 \<le> k" for k using i by unat_arith
  then show ?case using i IH by (subst memcmp_loop.simps) auto
qed

section \<open>Properties\<close>

text \<open>C35. \<open>memmove\<close> is correct for overlapping blocks. For two blocks of \<open>n\<close> bytes that do not run
  past the end of the address space, the destination afterwards holds the bytes the source held
  before the call, whatever the overlap, and no other byte changes.\<close>

theorem memmove_correct:
  assumes "unat src + unat n \<le> 2 ^ 64" and "unat dest + unat n \<le> 2 ^ 64"
  shows "memmove dest src n m = (dest, copied m dest src n)"
  using assms by (rule memmove_eq_copied)

theorem memmove_correct_witness:
  "let m = (\<lambda>a. ucast a) :: mem in
   memmove 11 10 4 m = (11, copied m 11 10 4) \<and> map (snd (memmove 11 10 4 m)) [10, 11, 12, 13, 14, 15] = [10, 10, 11, 12, 13, 15]"
  using memmove_correct [of 10 4 11 "\<lambda>a. ucast a"] by (simp add: Let_def copied_def)

text \<open>\<open>strcpy\<close> round trip. Copying a C string to a place that does not overlap it terminates,
  produces the same C string there, leaves every byte outside the copy alone, and afterwards
  \<open>strlen\<close> of the copy is the length of the string and \<open>strcmp\<close> finds copy and original equal.\<close>

theorem strcpy_roundtrip:
  assumes "cstr m s xs" and "str_apart d s (length xs)" and "length xs \<le> INT_MAX"
  shows "\<exists>m'. strcpy d s m = Some (d, m') \<and> cstr m' d xs \<and>
    (\<forall>a. (\<forall>k \<le> length xs. a \<noteq> d + of_nat k) \<longrightarrow> m' a = m a) \<and>
    strlen d m' = Some (of_nat (length xs)) \<and> strcmp d s m' = Inr 0"
proof -
  from strcpy_loop_cstr [OF assms(1,2)] obtain m' where m': "strcpy_loop d s m = Some m'" "cstr m' d xs"
    "\<forall>a. (\<forall>k \<le> length xs. a \<noteq> d + of_nat k) \<longrightarrow> m' a = m a" by blast
  have "m' (s + of_nat k) = m (s + of_nat k)" if "k \<le> length xs" for k
    using m'(3) [rule_format, of "s + of_nat k"] assms(2) that by (metis str_apart_def)
  then have "cstr m' s xs" using assms(1) by (rule cstr_frame)
  then have "strcmp d s m' = Inr (scmp xs xs)" using m'(2) assms(3) by (intro strcmp_cstr)
  moreover have "scmp xs xs = 0" using scmp_eq_0 [of xs xs] cstr_nonzero [OF m'(2)] by simp
  ultimately show ?thesis using m' strlen_cstr [OF m'(2)] by (auto simp: strcpy_def)
qed

theorem strcpy_roundtrip_witness:
  "let m = (\<lambda>a. if a = 100 then 104 else if a = 101 then 105 else 0) :: mem in
   cstr m 100 [104, 105] \<and> str_apart 200 100 2 \<and> (\<exists>m'. strcpy 200 100 m = Some (200, m') \<and> cstr m' 200 [104, 105])"
proof -
  let ?m = "(\<lambda>a. if a = 100 then 104 else if a = 101 then 105 else 0) :: mem"
  have a: "cstr ?m 100 [104, 105]" by simp
  have b: "str_apart 200 100 (length [104 :: u8, 105])"
    unfolding str_apart_def by (auto simp: le_Suc_eq)
  from strcpy_roundtrip [OF a b] a b show ?thesis by (auto simp: Let_def numeral_2_eq_2)
qed

text \<open>\<open>strncmp\<close> decides equality of prefixes. On two C strings it returns zero exactly when
  their first \<open>n\<close> characters agree.\<close>

theorem strncmp_zero_iff:
  assumes "cstr m a xs" and "cstr m b ys"
  shows "strncmp a b n m = 0 \<longleftrightarrow> take (unat n) xs = take (unat n) ys"
proof -
  have "0 \<notin> set (take (unat n) xs)" "0 \<notin> set (take (unat n) ys)"
    using cstr_nonzero [OF assms(1)] cstr_nonzero [OF assms(2)] by (auto dest: in_set_takeD)
  with scmp_eq_0 show ?thesis by (simp add: strncmp_cstr [OF assms])
qed

theorem strncmp_zero_iff_witness:
  "let m = (\<lambda>a. if a = 0 \<or> a = 8 then 97 else if a = 1 then 98 else if a = 9 then 99 else 0) :: mem in
   cstr m 0 [97, 98] \<and> cstr m 8 [97, 99] \<and> strncmp 0 8 1 m = 0 \<and> strncmp 0 8 2 m \<noteq> 0"
proof -
  let ?m = "(\<lambda>a. if a = 0 \<or> a = 8 then 97 else if a = 1 then 98 else if a = 9 then 99 else 0) :: mem"
  have c: "cstr ?m 0 [97, 98]" "cstr ?m 8 [97, 99]" by simp_all
  from strncmp_zero_iff [OF c, of 1] strncmp_zero_iff [OF c, of 2] c show ?thesis by (simp add: Let_def)
qed

end
