(* ===== verification/Heap_Malloc.thy ===== *)
theory Heap_Malloc
  imports Kern_Libc
begin

text \<open>
  The heap allocator that the kernel and the user-space C library share
  (\<open>custom_malloc/linked_list_item.c\<close> and \<open>custom_malloc/library.c\<close>).

  A heap is a singly linked list of headers inside the memory it manages. The headers are a map
  from addresses to \<open>lli\<close> records (an address that holds no header is a wild access), the bytes
  that the clients store are a separate \<open>mem\<close>; \<open>live_geometry\<close> and \<open>live_disjoint\<close> below show that
  the two never share an address. The static variable \<open>allocator\<close> is the record \<open>allocator\<close>,
  threaded through every operation. \<open>_malloc_expand_heap\<close> is not part of the library (the kernel
  and the C library each supply one): it is the parameter \<open>malloc_expand_heap\<close> with its own state,
  and the locale \<open>heap_provider\<close> says what the allocator relies on.
\<close>

section \<open>The block list (\<open>custom_malloc/linked_list_item.c\<close>)\<close>

record lli =
  lli_next :: u64
  lli_free :: bool
  lli_canary :: u32

type_synonym items = "u64 \<Rightarrow> lli option"

abbreviation LLI_SIZE :: u64 where "LLI_SIZE \<equiv> 16"
abbreviation LL_CANARY :: u32 where "LL_CANARY \<equiv> 0xDEADBEEF"

definition deref :: "items \<Rightarrow> u64 \<Rightarrow> lli result" where
  "deref N self = (case N self of None \<Rightarrow> Inl WildAccess | Some it \<Rightarrow> Inr it)"

definition assert_invariant :: "items \<Rightarrow> u64 \<Rightarrow> lli result" where
  "assert_invariant N self =
     rbind (deref N self) (\<lambda>it. if lli_canary it \<noteq> LL_CANARY then Inl HCF else Inr it)"

definition get_next :: "items \<Rightarrow> u64 \<Rightarrow> u64 result" where
  "get_next N self = rbind (assert_invariant N self) (\<lambda>it. Inr (lli_next it))"

definition lli_new :: "u64 \<Rightarrow> u64 \<Rightarrow> items \<Rightarrow> items" where
  "lli_new nxt output N = N(output \<mapsto> \<lparr>lli_next = nxt, lli_free = True, lli_canary = LL_CANARY\<rparr>)"

definition destroy :: "u64 \<Rightarrow> items \<Rightarrow> items result" where
  "destroy self N = rbind (deref N self) (\<lambda>it.
     Inr (N(self \<mapsto> it\<lparr>lli_canary := 0xABABABAB, lli_next := 0xCAFECAFECAFECAFE\<rparr>)))"

definition lli_is_free :: "items \<Rightarrow> u64 \<Rightarrow> bool result" where
  "lli_is_free N self = rbind (assert_invariant N self) (\<lambda>it. Inr (lli_free it))"

definition lli_mark_as :: "u64 \<Rightarrow> bool \<Rightarrow> items \<Rightarrow> items result" where
  "lli_mark_as self is_free N = rbind (assert_invariant N self) (\<lambda>it.
     Inr (N(self \<mapsto> it\<lparr>lli_free := is_free\<rparr>)))"

definition lli_region_start :: "items \<Rightarrow> u64 \<Rightarrow> u64 result" where
  "lli_region_start N self = rbind (assert_invariant N self) (\<lambda>it. Inr (self + LLI_SIZE))"

text \<open>The size is computed as a signed 64-bit difference; a negative one halts.\<close>

definition lli_region_size :: "items \<Rightarrow> u64 \<Rightarrow> u64 \<Rightarrow> u64 result" where
  "lli_region_size N self heap_end =
     rbind (assert_invariant N self) (\<lambda>it.
     rbind (lli_region_start N self) (\<lambda>region_start_ptr.
       let region_end_ptr = (if lli_next it \<noteq> 0 then lli_next it else heap_end);
           region_size_bytes = region_end_ptr - region_start_ptr
       in if sint region_size_bytes < 0 then Inl HCF else Inr region_size_bytes))"

definition lli_insert_after :: "u64 \<Rightarrow> u64 \<Rightarrow> items \<Rightarrow> u64 \<Rightarrow> (items \<times> u64) result" where
  "lli_insert_after self to_insert_addr N last_item =
     rbind (get_next N self) (\<lambda>after_addr.
     if to_insert_addr = 0 then Inl HCF else
     rbind (lli_region_start N self) (\<lambda>rs.
     if rs > to_insert_addr then Inl HCF else
     rbind (deref N self) (\<lambda>it.
       let N1 = N(self \<mapsto> it\<lparr>lli_next := to_insert_addr\<rparr>);
           N2 = lli_new after_addr to_insert_addr N1
       in if after_addr = 0 then Inr (N2, to_insert_addr)
          else rbind (lli_region_start N2 to_insert_addr) (\<lambda>rs2.
            if rs2 > after_addr then Inl HCF else Inr (N2, last_item)))))"

definition lli_try_merge_after :: "u64 \<Rightarrow> items \<Rightarrow> u64 \<Rightarrow> (bool \<times> items \<times> u64) result" where
  "lli_try_merge_after self N last_item =
     rbind (get_next N self) (\<lambda>to_destroy.
     if to_destroy = 0 then Inr (False, N, last_item) else
     rbind (deref N self) (\<lambda>it.
     if \<not> lli_free it then Inr (False, N, last_item) else
     rbind (deref N to_destroy) (\<lambda>dt.
     if \<not> lli_free dt then Inr (False, N, last_item) else
     rbind (get_next N to_destroy) (\<lambda>after_removed_addr.
       let N1 = N(self \<mapsto> it\<lparr>lli_next := after_removed_addr\<rparr>);
           last_item' = (if to_destroy = last_item then self else last_item)
       in rbind (destroy to_destroy N1) (\<lambda>N2. Inr (True, N2, last_item'))))))"

section \<open>The allocator (\<open>custom_malloc/library.c\<close>)\<close>

record 'e allocator =
  al_head :: u64
  al_tail :: u64
  al_heap_end :: u64
  al_items :: items
  al_bytes :: mem
  al_env :: 'e

type_synonym 'e expander = "u64 \<Rightarrow> u64 \<Rightarrow> 'e \<Rightarrow> (u64 \<times> 'e) result"

definition good_items :: "items \<Rightarrow> u64 set" where
  "good_items N = {p. \<exists>it. N p = Some it \<and> lli_canary it = LL_CANARY}"

lemma deref_Inr_iff [result_simps]: "deref N p = Inr it \<longleftrightarrow> N p = Some it"
  by (simp add: deref_def split: option.splits)

lemma assert_invariant_Inr_iff [result_simps]:
  "assert_invariant N p = Inr it \<longleftrightarrow> N p = Some it \<and> lli_canary it = LL_CANARY"
  by (auto simp: assert_invariant_def result_simps)

lemma get_next_Inr_iff [result_simps]:
  "get_next N p = Inr nx \<longleftrightarrow> (\<exists>it. N p = Some it \<and> lli_canary it = LL_CANARY \<and> nx = lli_next it)"
  by (auto simp: get_next_def result_simps)

lemma merge_decreases:
  assumes "lli_try_merge_after self N t = Inr (True, N', t')"
  shows "card (good_items N') < card (good_items N)"
proof (rule psubset_card_mono)
  show "finite (good_items N)" by (rule finite_subset [OF subset_UNIV]) simp
  from assms obtain it q dt where d: "N self = Some it" "lli_canary it = LL_CANARY"
      "N q = Some dt" "lli_canary dt = LL_CANARY" "q \<in> good_items N" "q \<notin> good_items N'"
      "\<And>p. p \<noteq> self \<Longrightarrow> p \<noteq> q \<Longrightarrow> N' p = N p"
    by (auto simp: lli_try_merge_after_def result_simps Let_def destroy_def good_items_def
        split: if_splits)
  then show "good_items N' \<subset> good_items N"
    by (fastforce simp: good_items_def)
qed

text \<open>The loop \<open>while(lli_try_merge_after(cursor, &allocator.tail)) {}\<close>: every merge destroys a
  canary, so it ends.\<close>

function merge_all :: "u64 \<Rightarrow> items \<Rightarrow> u64 \<Rightarrow> (items \<times> u64) result" where
  "merge_all self N t =
     rbind (lli_try_merge_after self N t) (\<lambda>(merged, N', t').
       if merged then merge_all self N' t' else Inr (N', t'))"
  by pat_completeness auto
termination
  by (relation "measure (\<lambda>(self, N, t). card (good_items N))") (auto intro: merge_decreases)

declare merge_all.simps [simp del]

definition expand_heap :: "'e expander \<Rightarrow> u64 \<Rightarrow> 'e allocator \<Rightarrow> (bool \<times> 'e allocator) result" where
  "expand_heap malloc_expand_heap requested_bytes h =
     (let actual_needed_bytes = requested_bytes + LLI_SIZE in
      rbind (malloc_expand_heap (al_heap_end h) actual_needed_bytes (al_env h)) (\<lambda>(allocated, e').
        let old_heap_end = al_heap_end h;
            h1 = h\<lparr>al_heap_end := old_heap_end + allocated, al_env := e'\<rparr>
        in if allocated < actual_needed_bytes then Inr (False, h1)
           else rbind (lli_insert_after (al_tail h1) old_heap_end (al_items h1) (al_tail h1)) (\<lambda>(N, t).
             Inr (True, h1\<lparr>al_items := N, al_tail := t\<rparr>))))"

text \<open>
  The search loop of \<open>find_or_make_free\<close>. \<open>Some (Inr (Some c, h))\<close>: the region \<open>c\<close> is free and big
  enough; \<open>Some (Inr (None, h))\<close>: the list was exhausted; \<open>None\<close>: the loop does not end.
\<close>

partial_function (option) find_free_loop ::
  "u64 \<Rightarrow> u64 \<Rightarrow> 'e allocator \<Rightarrow> (u64 option \<times> 'e allocator) result option" where
  "find_free_loop cursor req_size h =
     (if cursor = 0 then Some (Inr (None, h)) else
      case merge_all cursor (al_items h) (al_tail h) of
        Inl e \<Rightarrow> Some (Inl e)
      | Inr nt \<Rightarrow>
          let h' = h\<lparr>al_items := fst nt, al_tail := snd nt\<rparr> in
          (case lli_region_size (al_items h') cursor (al_heap_end h') of
             Inl e \<Rightarrow> Some (Inl e)
           | Inr sz \<Rightarrow>
               (case (if sz \<ge> req_size then lli_is_free (al_items h') cursor else Inr False) of
                  Inl e \<Rightarrow> Some (Inl e)
                | Inr fits \<Rightarrow>
                    if fits then Some (Inr (Some cursor, h')) else
                    (case deref (al_items h') cursor of
                       Inl e \<Rightarrow> Some (Inl e)
                     | Inr it \<Rightarrow> find_free_loop (lli_next it) req_size h'))))"

text \<open>The part of \<open>find_or_make_free\<close> after the search loop, and its checks on the new tail.\<close>

definition claim_tail :: "u64 \<Rightarrow> u64 \<Rightarrow> bool \<times> 'e allocator \<Rightarrow> (u64 \<times> 'e allocator) result" where
  "claim_tail req_size old_last_item_ptr = (\<lambda>(ok, h1).
     if \<not> ok then Inr (0, h1) else
     rbind (lli_try_merge_after old_last_item_ptr (al_items h1) (al_tail h1)) (\<lambda>(_, N, t).
       let h2 = h1\<lparr>al_items := N, al_tail := t\<rparr> in
       rbind (deref N t) (\<lambda>it.
       if \<not> lli_free it then Inl HCF else
       rbind (lli_region_size N t (al_heap_end h2)) (\<lambda>sz.
       if sz < req_size then Inl HCF else Inr (t, h2)))))"

definition make_free :: "'e expander \<Rightarrow> u64 \<Rightarrow> 'e allocator \<Rightarrow> (u64 \<times> 'e allocator) result" where
  "make_free malloc_expand_heap req_size h =
     rbind (lli_is_free (al_items h) (al_tail h)) (\<lambda>last_free.
     rbind (if last_free then lli_region_size (al_items h) (al_tail h) (al_heap_end h) else Inr 0)
       (\<lambda>last_size. rbind (expand_heap malloc_expand_heap (req_size - last_size) h)
         (claim_tail req_size (al_tail h))))"

definition find_or_make_free :: "'e expander \<Rightarrow> u64 \<Rightarrow> 'e allocator \<Rightarrow> (u64 \<times> 'e allocator) result" where
  "find_or_make_free malloc_expand_heap req_size h =
     (case find_free_loop (al_head h) req_size h of
        None \<Rightarrow> Inl Diverged
      | Some (Inl e) \<Rightarrow> Inl e
      | Some (Inr (Some cursor, h')) \<Rightarrow> Inr (cursor, h')
      | Some (Inr (None, h')) \<Rightarrow> make_free malloc_expand_heap req_size h')"

definition init_memory_allocator :: "'e expander \<Rightarrow> u64 \<Rightarrow> mem \<Rightarrow> 'e \<Rightarrow> 'e allocator result" where
  "init_memory_allocator malloc_expand_heap heap_start m e =
     rbind (malloc_expand_heap heap_start LLI_SIZE e) (\<lambda>(allocated_initial_memory, e').
       let heap_end = heap_start + allocated_initial_memory in
       if allocated_initial_memory < LLI_SIZE then Inl HCF
       else Inr \<lparr>al_head = heap_start, al_tail = heap_start, al_heap_end = heap_end,
                 al_items = lli_new 0 heap_start (\<lambda>_. None), al_bytes = m, al_env = e'\<rparr>)"

text \<open>The part of \<open>malloc\<close> after the search: mark the region as used and split off what is left.\<close>

definition carve :: "u64 \<Rightarrow> u64 \<times> 'e allocator \<Rightarrow> (u64 \<times> 'e allocator) result" where
  "carve req_size = (\<lambda>(reserved, h1).
     if reserved = 0 then Inr (0, h1) else
     rbind (lli_mark_as reserved False (al_items h1)) (\<lambda>N1.
     rbind (lli_region_size N1 reserved (al_heap_end h1)) (\<lambda>reserved_size.
     rbind (lli_region_start N1 reserved) (\<lambda>reserved_data.
     if reserved_size \<ge> req_size + LLI_SIZE then
       rbind (lli_insert_after reserved (reserved_data + req_size) N1 (al_tail h1)) (\<lambda>(N2, t2).
         Inr (reserved_data, h1\<lparr>al_items := N2, al_tail := t2\<rparr>))
     else Inr (reserved_data, h1\<lparr>al_items := N1\<rparr>)))))"

definition malloc :: "'e expander \<Rightarrow> u64 \<Rightarrow> 'e allocator \<Rightarrow> (u64 \<times> 'e allocator) result" where
  "malloc malloc_expand_heap bytes h =
     (if bytes = 0 then Inr (0, h) else
      let req_size = ((bytes + 16 - 1) div 16) * 16 in
      rbind (find_or_make_free malloc_expand_heap req_size h) (carve req_size))"

definition free :: "u64 \<Rightarrow> 'e allocator \<Rightarrow> 'e allocator result" where
  "free ptr h =
     (if ptr = 0 then Inr h
      else rbind (lli_mark_as (ptr - LLI_SIZE) True (al_items h)) (\<lambda>N. Inr (h\<lparr>al_items := N\<rparr>)))"

definition realloc :: "'e expander \<Rightarrow> u64 \<Rightarrow> u64 \<Rightarrow> 'e allocator \<Rightarrow> (u64 \<times> 'e allocator) result" where
  "realloc malloc_expand_heap ptr req_size h =
     rbind (malloc malloc_expand_heap req_size h) (\<lambda>(region, h1).
     if ptr = 0 \<or> region = 0 then Inr (region, h1) else
     rbind (lli_region_size (al_items h1) (ptr - LLI_SIZE) (al_heap_end h1)) (\<lambda>curr_size.
       let smallest = (if curr_size > req_size then req_size else curr_size);
           h2 = h1\<lparr>al_bytes := snd (memcpy region ptr smallest (al_bytes h1))\<rparr>
       in rbind (free ptr h2) (\<lambda>h3. Inr (region, h3))))"

section \<open>The list invariant\<close>

definition nextp :: "items \<Rightarrow> u64 \<Rightarrow> u64" where
  "nextp N p = (case N p of None \<Rightarrow> 0 | Some it \<Rightarrow> lli_next it)"
definition freep :: "items \<Rightarrow> u64 \<Rightarrow> bool" where
  "freep N p = (case N p of None \<Rightarrow> False | Some it \<Rightarrow> lli_free it)"
definition goodp :: "items \<Rightarrow> u64 \<Rightarrow> bool" where
  "goodp N p = (case N p of None \<Rightarrow> False | Some it \<Rightarrow> lli_canary it = LL_CANARY)"

fun seg :: "items \<Rightarrow> u64 \<Rightarrow> u64 list \<Rightarrow> u64 \<Rightarrow> bool" where
  "seg N p [] q \<longleftrightarrow> p = q"
| "seg N p (a # as) q \<longleftrightarrow> p = a \<and> goodp N a \<and> seg N (nextp N a) as q"

lemma seg_append: "seg N p (as @ bs) q \<longleftrightarrow> (\<exists>r. seg N p as r \<and> seg N r bs q)"
  by (induction as arbitrary: p) auto

lemma seg_frame: "(\<And>a. a \<in> set as \<Longrightarrow> N' a = N a) \<Longrightarrow> seg N' p as q = seg N p as q"
  by (induction as arbitrary: p) (auto simp: goodp_def nextp_def)

definition gap :: "u64 \<Rightarrow> u64 \<Rightarrow> bool" where
  "gap a b \<longleftrightarrow> unat a + 16 \<le> unat b"

definition wfl :: "items \<Rightarrow> u64 \<Rightarrow> u64 \<Rightarrow> u64 \<Rightarrow> u64 list \<Rightarrow> bool" where
  "wfl N h0 t e ps \<longleftrightarrow> seg N h0 ps 0 \<and> ps \<noteq> [] \<and> t = last ps \<and> sorted_wrt gap ps \<and>
     (\<forall>p \<in> set ps. p \<noteq> 0 \<and> unat p mod 16 = 0 \<and> gap p e) \<and>
     unat e mod 16 = 0 \<and> unat e - unat h0 < 2 ^ 63 \<and> good_items N = set ps"

definition region_end :: "items \<Rightarrow> u64 \<Rightarrow> u64 \<Rightarrow> u64" where
  "region_end N e p = (if nextp N p = 0 then e else nextp N p)"

definition rsize :: "items \<Rightarrow> u64 \<Rightarrow> u64 \<Rightarrow> nat" where
  "rsize N e p = unat (region_end N e p) - (unat p + 16)"

definition live :: "items \<Rightarrow> u64 \<Rightarrow> (u64 \<times> nat) set" where
  "live N e = {(p, rsize N e p) | p. p \<in> good_items N \<and> \<not> freep N p}"

lemma good_items_iff: "p \<in> good_items N \<longleftrightarrow> goodp N p"
  by (auto simp: good_items_def goodp_def split: option.splits)

lemma gap_distinct: "sorted_wrt gap ps \<Longrightarrow> distinct ps"
  by (induction ps) (auto simp: gap_def)

lemma wfl_hd: "wfl N h0 t e ps \<Longrightarrow> h0 = hd ps"
  by (cases ps) (auto simp: wfl_def)

lemma wfl_good: "wfl N h0 t e ps \<Longrightarrow> p \<in> set ps \<Longrightarrow> goodp N p"
  by (auto simp: wfl_def in_set_conv_decomp seg_append)

lemma wfl_item:
  assumes "wfl N h0 t e ps" and "p \<in> set ps"
  obtains it where "N p = Some it" "lli_canary it = LL_CANARY" "nextp N p = lli_next it" "freep N p = lli_free it"
  using wfl_good [OF assms] by (auto simp: goodp_def nextp_def freep_def split: option.splits)

lemma wfl_next: "wfl N h0 t e (as @ p # bs) \<Longrightarrow> nextp N p = (case bs of [] \<Rightarrow> 0 | q # _ \<Rightarrow> q)"
  by (auto simp: wfl_def seg_append split: list.splits)

lemma wfl_head_le: "wfl N h0 t e ps \<Longrightarrow> p \<in> set ps \<Longrightarrow> unat h0 \<le> unat p"
  by (cases ps) (auto simp: wfl_def gap_def)

lemma wfl_region_end:
  assumes "wfl N h0 t e (as @ p # bs)"
  shows "region_end N e p = (case bs of [] \<Rightarrow> e | q # _ \<Rightarrow> q)" and "gap p (region_end N e p)"
    and "unat (region_end N e p) \<le> unat e" and "unat (region_end N e p) mod 16 = 0"
  using assms wfl_next [OF assms]
  by (auto simp: region_end_def wfl_def sorted_wrt_append gap_def split: list.splits)

lemma sint_nonneg_small:
  assumes "unat (x :: u64) < 2 ^ 63"
  shows "\<not> sint x < 0"
proof -
  have "uint x = int (unat x)" by simp
  also have "\<dots> < 2 ^ 63" using assms by (metis of_nat_less_iff of_nat_numeral of_nat_power)
  finally have "signed_take_bit 63 (uint x) = uint x"
    using uint_ge_0 [of x] by (intro signed_take_bit_int_eq_self) linarith+
  then show ?thesis by (simp add: sint_uint)
qed

lemma region_size_ok:
  assumes "wfl N h0 t e (as @ p # bs)"
  shows "lli_region_size N p e = Inr (region_end N e p - (p + 16))"
    and "unat (region_end N e p - (p + 16)) = rsize N e p"
proof -
  from assms have pin: "p \<in> set (as @ p # bs)" by simp
  from wfl_item [OF assms pin] obtain it where it: "N p = Some it" "lli_canary it = LL_CANARY"
    "nextp N p = lli_next it" by blast
  note re = wfl_region_end [OF assms]
  have "unat p + 16 < 2 ^ 64" using re(2) unsigned_less [of "region_end N e p", where ?'a = nat] by (simp add: gap_def)
  then have p16: "unat (p + 16) = unat p + 16" by (subst unat_add64) auto
  show sz: "unat (region_end N e p - (p + 16)) = rsize N e p"
    using re(2) by (subst unat_sub64) (auto simp: rsize_def gap_def p16 word_le_nat_alt)
  have "rsize N e p < 2 ^ 63"
    using re(3) wfl_head_le [OF assms pin] assms by (auto simp: rsize_def wfl_def)
  then have "\<not> sint (region_end N e p - (p + 16)) < 0"
    using sint_nonneg_small [of "region_end N e p - (p + 16)"] sz by simp
  then show "lli_region_size N p e = Inr (region_end N e p - (p + 16))"
    using it
    by (cases "lli_next it = 0")
      (simp_all add: lli_region_size_def lli_region_start_def assert_invariant_def deref_def Let_def region_end_def)
qed

lemma merge_not:
  assumes "wfl N h0 t e (as @ p # bs)" and "\<not> freep N p \<or> bs = [] \<or> \<not> freep N (hd bs)"
  shows "lli_try_merge_after p N t = Inr (False, N, t)"
proof -
  have pin: "p \<in> set (as @ p # bs)" by simp
  from wfl_item [OF assms(1) pin] obtain it where it: "N p = Some it" "lli_canary it = LL_CANARY"
    "nextp N p = lli_next it" "freep N p = lli_free it" by blast
  show ?thesis
  proof (cases bs)
    case Nil
    with it wfl_next [OF assms(1)] show ?thesis
      by (simp add: lli_try_merge_after_def get_next_def assert_invariant_def deref_def)
  next
    case (Cons q cs)
    have qin: "q \<in> set (as @ p # bs)" by (simp add: Cons)
    from wfl_item [OF assms(1) qin] obtain dt where dt: "N q = Some dt" "lli_canary dt = LL_CANARY"
      "freep N q = lli_free dt" by blast
    from Cons it dt wfl_next [OF assms(1)] assms(2) show ?thesis
      by (auto simp: lli_try_merge_after_def get_next_def assert_invariant_def deref_def)
  qed
qed

lemma live_eqI:
  assumes "\<And>p. goodp N p \<and> \<not> freep N p \<longleftrightarrow> goodp N' p \<and> \<not> freep N' p"
    and "\<And>p. goodp N p \<Longrightarrow> \<not> freep N p \<Longrightarrow> rsize N' e' p = rsize N e p"
  shows "live N' e' = live N e"
  using assms unfolding live_def good_items_iff by (fastforce simp: good_items_iff)

lemma good_items_cong: "(\<And>x. goodp N' x = goodp N x) \<Longrightarrow> good_items N' = good_items N"
  by (auto simp: good_items_iff)

lemma merge_ok:
  assumes wf: "wfl N h0 t e (as @ p # q # bs)" and "freep N p" and "freep N q"
  obtains N' t' where "lli_try_merge_after p N t = Inr (True, N', t')" "wfl N' h0 t' e (as @ p # bs)"
    "freep N' p" "live N' e = live N e"
    "\<And>x. x \<noteq> p \<Longrightarrow> x \<noteq> q \<Longrightarrow> N' x = N x"
proof -
  have pin: "p \<in> set (as @ p # q # bs)" and qin: "q \<in> set (as @ p # q # bs)" by auto
  from wfl_item [OF wf pin] obtain it where it: "N p = Some it" "lli_canary it = LL_CANARY"
    "nextp N p = lli_next it" "freep N p = lli_free it" by blast
  from wfl_item [OF wf qin] obtain dt where dt: "N q = Some dt" "lli_canary dt = LL_CANARY"
    "nextp N q = lli_next dt" "freep N q = lli_free dt" by blast
  have nq: "lli_next it = q" using wfl_next [OF wf] it by simp
  have dist: "distinct (as @ p # q # bs)" using wf unfolding wfl_def by (blast intro: gap_distinct)
  have q0: "q \<noteq> 0" using wf by (auto simp: wfl_def)
  define N' where "N' = N(p \<mapsto> it\<lparr>lli_next := lli_next dt\<rparr>,
    q \<mapsto> dt\<lparr>lli_canary := 0xABABABAB, lli_next := 0xCAFECAFECAFECAFE\<rparr>)"
  define t' where "t' = (if q = t then p else t)"
  have step: "lli_try_merge_after p N t = Inr (True, N', t')"
    using it dt nq q0 dist assms(2,3)
    by (auto simp: lli_try_merge_after_def get_next_def assert_invariant_def deref_def destroy_def N'_def t'_def Let_def)
  have other: "N' x = N x" if "x \<noteq> p" "x \<noteq> q" for x using that by (simp add: N'_def)
  have N'p: "N' p = Some (it\<lparr>lli_next := lli_next dt\<rparr>)" using dist by (simp add: N'_def)
  have "seg N' h0 (as @ p # bs) 0"
  proof -
    from wf have "seg N h0 as p" "seg N (lli_next dt) bs 0"
      using dt(3) by (auto simp: wfl_def seg_append)
    moreover have "seg N' h0 as p = seg N h0 as p" "seg N' (lli_next dt) bs 0 = seg N (lli_next dt) bs 0"
      by (intro seg_frame other; use dist in auto)+
    ultimately show ?thesis using N'p it(2) by (auto simp: seg_append goodp_def nextp_def)
  qed
  moreover have "t' = last (as @ p # bs)"
    using wf dist by (cases bs) (auto simp: wfl_def t'_def)
  moreover have "sorted_wrt gap (as @ p # bs)"
    using wf by (auto simp: wfl_def sorted_wrt_append)
  moreover have "good_items N' = set (as @ p # bs)"
  proof -
    have "good_items N' = good_items N - {q}"
      using dist it dt by (auto simp: good_items_iff goodp_def N'_def split: if_splits)
    then show ?thesis using wf dist by (auto simp: wfl_def)
  qed
  ultimately have wf': "wfl N' h0 t' e (as @ p # bs)"
    using wf by (auto simp: wfl_def)
  have fp: "freep N' p" using N'p it assms(2) by (simp add: freep_def)
  have "live N' e = live N e"
  proof (rule live_eqI)
    fix x
    show "goodp N x \<and> \<not> freep N x \<longleftrightarrow> goodp N' x \<and> \<not> freep N' x"
      using other fp assms(2,3) dist by (cases "x = p"; cases "x = q") (auto simp: freep_def goodp_def N'_def)
  next
    fix x assume "\<not> freep N x"
    then have "x \<noteq> p" "x \<noteq> q" using assms(2,3) by auto
    then show "rsize N' e x = rsize N e x" by (simp add: rsize_def region_end_def nextp_def other)
  qed
  with step wf' fp other that show thesis by blast
qed

lemma seg_insert:
  assumes "seg N h0 (as @ p # bs) 0" and "a \<notin> set (as @ p # bs)" and "distinct (as @ p # bs)"
    and "N p = Some it"
  shows "seg (N(p \<mapsto> it\<lparr>lli_next := a\<rparr>, a \<mapsto> \<lparr>lli_next = lli_next it, lli_free = f, lli_canary = LL_CANARY\<rparr>))
           h0 (as @ p # a # bs) 0"
    (is "seg ?N' _ _ _")
proof -
  from assms(1,4) have "seg N h0 as p" "seg N (lli_next it) bs 0" "lli_canary it = LL_CANARY"
    by (auto simp: seg_append nextp_def goodp_def)
  moreover have "seg ?N' h0 as p = seg N h0 as p" "seg ?N' (lli_next it) bs 0 = seg N (lli_next it) bs 0"
    using assms(2,3) by (auto intro!: seg_frame)
  ultimately show ?thesis using assms(2) by (auto simp: seg_append goodp_def nextp_def)
qed

lemma insert_ok:
  assumes wf: "wfl N h0 t e (as @ p # bs)" and a: "gap p a" "unat a mod 16 = 0" "gap a (region_end N e p)"
  obtains N' t' where "lli_insert_after p a N t = Inr (N', t')" "wfl N' h0 t' e (as @ p # a # bs)"
    "freep N' a" "freep N' p = freep N p" "\<And>x. x \<noteq> p \<Longrightarrow> x \<noteq> a \<Longrightarrow> N' x = N x"
    "nextp N' p = a" "nextp N' a = nextp N p" "a \<notin> set (as @ p # bs)"
proof -
  have pin: "p \<in> set (as @ p # bs)" by simp
  from wfl_item [OF wf pin] obtain it where it: "N p = Some it" "lli_canary it = LL_CANARY"
    "nextp N p = lli_next it" "freep N p = lli_free it" by blast
  note re = wfl_region_end [OF wf]
  have dist: "distinct (as @ p # bs)" using wf unfolding wfl_def by (blast intro: gap_distinct)
  have srt: "sorted_wrt gap (as @ p # a # bs)"
    using wf a re(1) by (cases bs) (fastforce simp: wfl_def sorted_wrt_append gap_def)+
  then have dist': "distinct (as @ p # a # bs)" by (rule gap_distinct)
  have a0: "a \<noteq> 0" using a(1) by (auto simp: gap_def)
  have "unat a + 16 < 2 ^ 64"
    using a(3) unsigned_less [of "region_end N e p", where ?'a = nat] by (simp add: gap_def)
  then have u: "unat (p + 16) = unat p + 16" "unat (a + 16) = unat a + 16"
    using a(1) by (subst unat_add64; simp add: gap_def)+
  define N' where "N' = N(p \<mapsto> it\<lparr>lli_next := a\<rparr>,
    a \<mapsto> \<lparr>lli_next = lli_next it, lli_free = True, lli_canary = LL_CANARY\<rparr>)"
  define t' where "t' = (if lli_next it = 0 then a else t)"
  have le: "\<not> a < p + 16" using a(1) u by (simp add: word_less_nat_alt gap_def)
  have le2: "lli_next it \<noteq> 0 \<Longrightarrow> \<not> lli_next it < a + 16"
    using a(3) u it by (simp add: word_less_nat_alt gap_def region_end_def)
  have step: "lli_insert_after p a N t = Inr (N', t')"
    using it a0 dist' le le2
    by (simp add: lli_insert_after_def get_next_def assert_invariant_def deref_def lli_region_start_def
        lli_new_def Let_def N'_def t'_def fun_upd_twist)
  have last': "t' = last (as @ p # a # bs)"
    using wf wfl_next [OF wf] it by (cases bs) (auto simp: t'_def wfl_def)
  have "seg N' h0 (as @ p # a # bs) 0"
    unfolding N'_def using wf dist dist' it by (intro seg_insert) (auto simp: wfl_def)
  moreover have "unat a + 16 \<le> unat e" using a(3) re(3) by (simp add: gap_def)
  moreover have "good_items N' = insert a (good_items N)"
    using it by (auto simp: good_items_iff goodp_def N'_def split: if_splits)
  ultimately have wf': "wfl N' h0 t' e (as @ p # a # bs)"
    using wf srt last' a0 a(2) by (auto simp: wfl_def gap_def)
  show thesis
    by (rule that [OF step wf']) (use it dist' in \<open>auto simp: N'_def freep_def nextp_def\<close>)
qed

lemma merge_all_ok:
  assumes "wfl N h0 t e (as @ p # bs)"
  shows "\<exists>N' t' bs'. merge_all p N t = Inr (N', t') \<and> wfl N' h0 t' e (as @ p # bs') \<and>
    freep N' p = freep N p \<and> live N' e = live N e \<and>
    (freep N p \<longrightarrow> bs' = [] \<or> \<not> freep N' (hd bs')) \<and> length bs' \<le> length bs"
  using assms
proof (induction bs arbitrary: N t)
  case Nil
  then show ?case using merge_not [OF Nil] by (subst merge_all.simps) simp
next
  case (Cons q bs)
  show ?case
  proof (cases "freep N p \<and> freep N q")
    case True
    then obtain N1 t1 where s: "lli_try_merge_after p N t = Inr (True, N1, t1)" "wfl N1 h0 t1 e (as @ p # bs)"
      "freep N1 p" "live N1 e = live N e"
      using merge_ok [OF Cons.prems] by metis
    from Cons.IH [OF s(2)] s True show ?thesis
      by (subst merge_all.simps) (force)
  next
    case False
    with merge_not [OF Cons.prems] show ?thesis
      using Cons.prems by (subst merge_all.simps) (auto intro!: exI [of _ "q # bs"])
  qed
qed

section \<open>The search loop\<close>

abbreviation wfh :: "'e allocator \<Rightarrow> u64 list \<Rightarrow> bool" where
  "wfh h ps \<equiv> wfl (al_items h) (al_head h) (al_tail h) (al_heap_end h) ps"

lemma rsize_lt: "wfl N h0 t e (as @ p # bs) \<Longrightarrow> rsize N e p < 2 ^ 63"
  using wfl_region_end(3) [of N h0 t e as p bs] wfl_head_le [of N h0 t e "as @ p # bs" p]
  by (auto simp: rsize_def wfl_def)

lemma is_free_ok: "wfl N h0 t e ps \<Longrightarrow> p \<in> set ps \<Longrightarrow> lli_is_free N p = Inr (freep N p)"
  by (erule (1) wfl_item) (simp add: lli_is_free_def assert_invariant_def deref_def)

lemma find_free_loop_ok:
  assumes "wfh h (as @ p # bs)"
  shows "\<exists>N' t' ps' r. find_free_loop p req h = Some (Inr (r, h\<lparr>al_items := N', al_tail := t'\<rparr>)) \<and>
    wfl N' (al_head h) t' (al_heap_end h) ps' \<and>
    live N' (al_heap_end h) = live (al_items h) (al_heap_end h) \<and>
    (\<forall>c. r = Some c \<longrightarrow> c \<in> set ps' \<and> freep N' c \<and> unat req \<le> rsize N' (al_heap_end h) c) \<and>
    (r = None \<longrightarrow> freep N' t' \<longrightarrow> rsize N' (al_heap_end h) t' < unat req)"
  using assms
proof (induction "length bs" arbitrary: as p bs h rule: less_induct)
  case less
  let ?e = "al_heap_end h"
  from merge_all_ok [OF less.prems] obtain N1 t1 bs1 where
    m: "merge_all p (al_items h) (al_tail h) = Inr (N1, t1)"
       "wfl N1 (al_head h) t1 ?e (as @ p # bs1)"
       "live N1 ?e = live (al_items h) ?e" "length bs1 \<le> length bs"
    by blast
  have p: "p \<noteq> 0" "p \<in> set (as @ p # bs1)" using m(2) by (auto simp: wfl_def)
  note rs = region_size_ok [OF m(2)]
  from wfl_item [OF m(2) p(2)] obtain it where it: "N1 p = Some it" "nextp N1 p = lli_next it"
    by blast
  let ?h1 = "h\<lparr>al_items := N1, al_tail := t1\<rparr>"
  let ?fits = "unat req \<le> rsize N1 ?e p \<and> freep N1 p"
  have unf: "find_free_loop p req h =
      (if ?fits then Some (Inr (Some p, ?h1)) else find_free_loop (nextp N1 p) req ?h1)"
    using p(1) m(1) rs is_free_ok [OF m(2) p(2)] it
    by (subst find_free_loop.simps) (auto simp: deref_def word_le_nat_alt Let_def)
  show ?case
  proof (cases ?fits)
    case True
    then show ?thesis using unf m p(2) by (intro exI [of _ N1] exI [of _ t1] exI [of _ "as @ p # bs1"] exI [of _ "Some p"]) simp
  next
    case False
    show ?thesis
    proof (cases bs1)
      case Nil
      then have "nextp N1 p = 0" using wfl_next [OF m(2)] by simp
      moreover have "t1 = p" using m(2) Nil by (simp add: wfl_def)
      moreover have "find_free_loop 0 req ?h1 = Some (Inr (None, ?h1))" by (subst find_free_loop.simps) simp
      ultimately show ?thesis using unf False m
        by (intro exI [of _ N1] exI [of _ t1] exI [of _ "as @ p # bs1"] exI [of _ None]) auto
    next
      case (Cons q cs)
      then have "nextp N1 p = q" using wfl_next [OF m(2)] by simp
      moreover have "wfh ?h1 ((as @ [p]) @ q # cs)" using m(2) Cons by simp
      moreover have "length cs < length bs" using m(4) Cons by simp
      ultimately show ?thesis
        using unf False less.hyps [of cs ?h1 "as @ [p]" q] m(3) by simp
    qed
  qed
qed

text \<open>After the heap has grown at its end.\<close>

lemma wfl_grow:
  assumes "wfl N h0 t e ps" "unat e' mod 16 = 0" "unat e \<le> unat e'" "unat e' - unat h0 < 2 ^ 63"
  shows "wfl N h0 t e' ps"
  using assms by (auto simp: wfl_def gap_def intro: order_trans)

section \<open>Growing the heap\<close>

definition heap_inv :: "('e \<Rightarrow> nat) \<Rightarrow> ('e \<Rightarrow> bool) \<Rightarrow> nat \<Rightarrow> nat \<Rightarrow> 'e allocator \<Rightarrow> bool" where
  "heap_inv avail okay lo hi h \<longleftrightarrow> (\<exists>ps. wfh h ps) \<and> okay (al_env h) \<and> unat (al_heap_end h) mod 4096 = 0 \<and>
     lo \<le> unat (al_head h) \<and> unat (al_heap_end h) + avail (al_env h) \<le> hi \<and> hi < 2 ^ 64 \<and> hi - lo < 2 ^ 63"

definition grown :: "(u64 \<times> nat) set \<Rightarrow> (u64 \<times> nat) set \<Rightarrow> bool" where
  "grown A B \<longleftrightarrow> fst ` A = fst ` B \<and> (\<forall>(p, s) \<in> A. \<exists>s' \<ge> s. (p, s') \<in> B)"

lemma mod16_of_mod4096: "(n :: nat) mod 4096 = 0 \<Longrightarrow> n mod 16 = 0"
  using mod_mod_cancel [of 16 4096 n] by simp

lemma append_at_end:
  assumes wf: "wfl N h0 t e ps" and e': "unat e + 16 \<le> unat e'" "unat e' mod 16 = 0" "unat e' - unat h0 < 2 ^ 63"
  obtains N' where "lli_insert_after t e N t = Inr (N', e)" "wfl N' h0 e e' (ps @ [e])" "freep N' e"
    "freep N' t = freep N t" "live N' e' = live N e" "rsize N' e' e = unat e' - (unat e + 16)"
proof -
  obtain as where ps: "ps = as @ [t]" using wf by (metis append_butlast_last_id wfl_def)
  have wf2: "wfl N h0 t e' (as @ t # [])" using wfl_grow [OF wf e'(2) _ e'(3)] e'(1) ps by simp
  have te: "gap t e" "unat e mod 16 = 0" using wf ps by (auto simp: wfl_def)
  have n0: "nextp N t = 0" using wfl_next [OF wf2] by simp
  have "gap e (region_end N e' t)" using n0 e'(1) by (simp add: region_end_def gap_def)
  from insert_ok [OF wf2 te this] obtain N' t' where
    i: "lli_insert_after t e N t = Inr (N', t')" "wfl N' h0 t' e' (as @ t # e # [])"
    "freep N' e" "freep N' t = freep N t" "\<And>x. x \<noteq> t \<Longrightarrow> x \<noteq> e \<Longrightarrow> N' x = N x"
    "nextp N' t = e" "nextp N' e = nextp N t" "e \<notin> set (as @ t # [])" by metis
  have t': "t' = e" using i(2) by (simp add: wfl_def)
  have e0: "e \<noteq> 0" using te by (auto simp: gap_def)
  have ng: "\<not> goodp N e" using wf i(8) ps by (auto simp: wfl_def simp flip: good_items_iff)
  have gt: "goodp N t" "goodp N' t" using wfl_good [OF wf2] wfl_good [OF i(2)] by auto
  have "live N' e' = live N e"
  proof (rule live_eqI)
    fix x show "goodp N x \<and> \<not> freep N x \<longleftrightarrow> goodp N' x \<and> \<not> freep N' x"
      using i(3-5) gt ng by (cases "x = t"; cases "x = e") (auto simp: goodp_def freep_def)
  next
    fix x assume "goodp N x"
    then have xin: "x \<in> set ps" using wf by (auto simp: wfl_def simp flip: good_items_iff)
    show "rsize N' e' x = rsize N e x"
    proof (cases "x = t")
      case True
      then show ?thesis using n0 i(6) e0 by (simp add: rsize_def region_end_def)
    next
      case False
      then have "nextp N x \<noteq> 0"
      proof -
        from False xin ps obtain as1 bs1 where "as = as1 @ x # bs1" by (auto simp: in_set_conv_decomp)
        then have "wfl N h0 t e (as1 @ x # (bs1 @ [t]))" using wf ps by simp
        from wfl_next [OF this] wf ps show ?thesis by (cases bs1) (auto simp: wfl_def \<open>as = _\<close>)
      qed
      moreover have "nextp N' x = nextp N x" using False i(5) [of x] i(8) xin ps by (cases "x = e") (auto simp: nextp_def)
      ultimately show ?thesis by (simp add: rsize_def region_end_def)
    qed
  qed
  moreover have "rsize N' e' e = unat e' - (unat e + 16)" using i(7) n0 by (simp add: rsize_def region_end_def)
  ultimately show thesis using that i(1-4) t' ps by simp
qed

lemma extend_and_merge:
  assumes wf: "wfl N h0 t e ps" and e': "unat e + 16 \<le> unat e'" "unat e' mod 16 = 0" "unat e' - unat h0 < 2 ^ 63"
  obtains N1 b N2 t2 ps2 where "lli_insert_after t e N t = Inr (N1, e)"
    "lli_try_merge_after t N1 e = Inr (b, N2, t2)" "wfl N2 h0 t2 e' ps2" "freep N2 t2" "live N2 e' = live N e"
    "rsize N2 e' t2 = (if freep N t then rsize N e t + (unat e' - unat e) else unat e' - unat e - 16)"
proof -
  obtain as where ps: "ps = as @ [t]" using wf by (metis append_butlast_last_id wfl_def)
  from append_at_end [OF wf e'] obtain N1 where
    i: "lli_insert_after t e N t = Inr (N1, e)" "wfl N1 h0 e e' (as @ t # [e])" "freep N1 e"
    "freep N1 t = freep N t" "live N1 e' = live N e" "rsize N1 e' e = unat e' - (unat e + 16)"
    unfolding ps by auto
  have rt: "rsize N e t = unat e - (unat t + 16)"
    using wfl_region_end(1) [of N h0 t e as t "[]"] wf ps by (simp add: rsize_def)
  have te: "unat t + 16 \<le> unat e" using wf ps by (auto simp: wfl_def gap_def)
  show thesis
  proof (cases "freep N t")
    case True
    with merge_ok [OF i(2)] i(3,4) obtain N2 t2 where
      m: "lli_try_merge_after t N1 e = Inr (True, N2, t2)" "wfl N2 h0 t2 e' (as @ t # [])"
      "freep N2 t" "live N2 e' = live N1 e'" by metis
    have t2: "t2 = t" using m(2) by (simp add: wfl_def)
    have "rsize N2 e' t = unat e' - (unat t + 16)"
      using wfl_region_end(1) [OF m(2)] by (simp add: rsize_def)
    then show ?thesis using that [OF i(1) m(1,2)] True m t2 i(5) rt te e'(1) by simp
  next
    case False
    then have "lli_try_merge_after t N1 e = Inr (False, N1, e)" using merge_not [OF i(2)] i(4) by simp
    then show ?thesis using that [OF i(1) _ i(2)] i False by simp
  qed
qed

lemma live_grown:
  assumes "wfl N h0 t e ps" and "unat e \<le> unat e'"
  shows "grown (live N e) (live N e')"
  unfolding grown_def
proof (intro conjI ballI)
  have m: "rsize N e p \<le> rsize N e' p" for p
    using assms(2) by (simp add: rsize_def region_end_def diff_le_mono)
  show "fst ` live N e = fst ` live N e'" by (force simp: live_def image_iff)
  fix x assume "x \<in> live N e"
  then show "case x of (p, s) \<Rightarrow> \<exists>s' \<ge> s. (p, s') \<in> live N e'" using m by (auto simp: live_def)
qed

lemma claim_tail_ok:
  assumes m: "lli_try_merge_after old N1 t1 = Inr (b, N, t)" and wf: "wfl N h0 t e ps" and fr: "freep N t"
    and big: "unat req \<le> rsize N e t"
  shows "al_items h = N1 \<Longrightarrow> al_tail h = t1 \<Longrightarrow> al_heap_end h = e \<Longrightarrow>
    claim_tail req old (True, h) = Inr (t, h\<lparr>al_items := N, al_tail := t\<rparr>)"
proof -
  obtain as where as: "ps = as @ [t]" using wf by (metis append_butlast_last_id wfl_def)
  have tin: "t \<in> set ps" by (simp add: as)
  note rs = region_size_ok [of N h0 t e as t "[]", folded as, OF wf]
  from wfl_item [OF wf tin] obtain it where it: "N t = Some it" "freep N t = lli_free it" by blast
  have "\<not> region_end N e t - (t + 16) < req" using rs(2) big by (simp add: word_less_nat_alt)
  then show "al_items h = N1 \<Longrightarrow> al_tail h = t1 \<Longrightarrow> al_heap_end h = e \<Longrightarrow>
    claim_tail req old (True, h) = Inr (t, h\<lparr>al_items := N, al_tail := t\<rparr>)"
    using m it fr rs(1) by (simp add: claim_tail_def deref_def Let_def)
qed

definition fits :: "('e \<Rightarrow> nat) \<Rightarrow> ('e \<Rightarrow> bool) \<Rightarrow> nat \<Rightarrow> nat \<Rightarrow> u64 \<Rightarrow> 'e allocator \<Rightarrow> u64 \<Rightarrow> 'e allocator \<Rightarrow> bool" where
  "fits avail okay lo hi req h c h' \<longleftrightarrow> heap_inv avail okay lo hi h' \<and>
     live (al_items h') (al_heap_end h') = live (al_items h) (al_heap_end h) \<and>
     al_bytes h' = al_bytes h \<and> c \<in> good_items (al_items h') \<and> freep (al_items h') c \<and>
     unat req \<le> rsize (al_items h') (al_heap_end h') c"

locale heap_provider =
  fixes expand :: "'e expander" and avail :: "'e \<Rightarrow> nat" and okay :: "'e \<Rightarrow> bool"
    and lo hi :: nat
  assumes expand_ok:
    "\<lbrakk>okay e; unat he mod 4096 = 0; lo \<le> unat he; unat he + avail e \<le> hi; expand he n e = Inr (m, e')\<rbrakk>
     \<Longrightarrow> okay e' \<and> unat m mod 4096 = 0 \<and> unat m + avail e' \<le> avail e"
begin

text \<open>
  What a request of at most \<open>k\<close> bytes to the provider, made at the end of the heap, came to: it was refused with a
  fault, it gave too little, or the allocation needed no request or was served by one.
\<close>

definition refused :: "nat \<Rightarrow> 'e allocator \<Rightarrow> fault \<Rightarrow> bool" where
  "refused k h f \<longleftrightarrow> okay (al_env h) \<and> (\<exists>n. unat n \<le> k \<and> expand (al_heap_end h) n (al_env h) = Inl f)"

definition short :: "nat \<Rightarrow> 'e allocator \<Rightarrow> bool" where
  "short k h \<longleftrightarrow> okay (al_env h) \<and> (\<exists>n m e'. unat n \<le> k \<and> expand (al_heap_end h) n (al_env h) = Inr (m, e') \<and> m < n)"

definition served :: "nat \<Rightarrow> 'e allocator \<Rightarrow> 'e allocator \<Rightarrow> bool" where
  "served k h h' \<longleftrightarrow> al_env h' = al_env h \<and> al_heap_end h' = al_heap_end h \<or>
     (\<exists>n m. unat n \<le> k \<and> expand (al_heap_end h) n (al_env h) = Inr (m, al_env h') \<and>
       al_heap_end h' = al_heap_end h + m \<and> unat (al_heap_end h') = unat (al_heap_end h) + unat m)"

lemma grow_cases:
  assumes inv: "heap_inv avail okay lo hi h" and wf: "wfh h ps"
  obtains f where "expand (al_heap_end h) n (al_env h) = Inl f" "okay (al_env h)"
  | m e' where "expand (al_heap_end h) n (al_env h) = Inr (m, e')"
      "unat (al_heap_end h + m) = unat (al_heap_end h) + unat m" "okay e'"
      "heap_inv avail okay lo hi (h\<lparr>al_heap_end := al_heap_end h + m, al_env := e'\<rparr>)"
proof (cases "expand (al_heap_end h) n (al_env h)")
  case (Inl f)
  with inv show thesis by (intro that(1) [OF Inl]) (auto simp: heap_inv_def)
next
  case (Inr r)
  obtain m e' where r: "r = (m, e')" by (cases r)
  have le: "unat (al_head h) \<le> unat (al_heap_end h)" using wf by (cases ps) (auto simp: wfl_def gap_def)
  from expand_ok [of "al_env h" "al_heap_end h" n m e'] inv Inr r le
  have x: "okay e'" "unat m mod 4096 = 0" "unat m + avail e' \<le> avail (al_env h)"
    by (auto simp: heap_inv_def)
  have bnd: "unat (al_heap_end h) + avail (al_env h) \<le> hi" "unat (al_heap_end h) mod 4096 = 0"
    "lo \<le> unat (al_head h)" "hi < 2 ^ 64" "hi - lo < 2 ^ 63"
    using inv by (auto simp: heap_inv_def)
  have u: "unat (al_heap_end h + m) = unat (al_heap_end h) + unat m"
    using x(3) bnd by (subst unat_add64) linarith+
  have md: "unat (al_heap_end h + m) mod 4096 = 0" using u x(2) bnd(2) by (simp add: mod_add_eq [symmetric])
  have "wfl (al_items h) (al_head h) (al_tail h) (al_heap_end h + m) ps"
    using u x(3) bnd by (intro wfl_grow [OF wf] mod16_of_mod4096 md) linarith+
  then have "heap_inv avail okay lo hi (h\<lparr>al_heap_end := al_heap_end h + m, al_env := e'\<rparr>)"
    using x u bnd md by (auto simp: heap_inv_def)
  with Inr r u x show thesis by (auto intro: that(2))
qed

lemma make_free_ok:
  assumes inv: "heap_inv avail okay lo hi h" and wf: "wfh h ps" and req: "unat req \<le> 2 ^ 63"
    and sm: "freep (al_items h) (al_tail h) \<Longrightarrow> rsize (al_items h) (al_heap_end h) (al_tail h) < unat req"
  obtains f where "make_free expand req h = Inl f" "refused (unat req + 16) h f"
  | h' where "make_free expand req h = Inr (0, h')" "heap_inv avail okay lo hi h'"
      "grown (live (al_items h) (al_heap_end h)) (live (al_items h') (al_heap_end h'))"
      "al_bytes h' = al_bytes h" "short (unat req + 16) h" "served (unat req + 16) h h'"
  | c h' where "make_free expand req h = Inr (c, h')" "fits avail okay lo hi req h c h'" "served (unat req + 16) h h'"
proof -
  let ?e = "al_heap_end h" let ?t = "al_tail h" let ?N = "al_items h"
  obtain as where as: "ps = as @ [?t]" using wf by (metis append_butlast_last_id wfl_def)
  have tin: "?t \<in> set ps" using as by simp
  note rs = region_size_ok [of ?N "al_head h" ?t ?e as ?t "[]", folded as, OF wf]
  define lastsz where "lastsz = (if freep ?N ?t then region_end ?N ?e ?t - (?t + 16) else 0)"
  define n where "n = req - lastsz + 16"
  have ul: "unat lastsz = (if freep ?N ?t then rsize ?N ?e ?t else 0)" "unat lastsz \<le> unat req"
    using rs(2) sm by (auto simp: lastsz_def)
  have un: "unat n = unat req - unat lastsz + 16"
    unfolding n_def using ul(2) req by (subst unat_add64) (auto simp: unat_sub64 word_le_nat_alt)
  have nk: "unat n \<le> unat req + 16" using un by simp
  have pre: "make_free expand req h = rbind (expand_heap expand (req - lastsz) h) (claim_tail req ?t)"
    using rs(1) is_free_ok [OF wf tin] by (simp add: make_free_def lastsz_def)
  show ?thesis
  proof (rule grow_cases [OF inv wf, of n])
    fix f assume f: "expand ?e n (al_env h) = Inl f" "okay (al_env h)"
    then have "refused (unat req + 16) h f" using nk by (auto simp: refused_def)
    then show ?thesis using pre f(1) by (intro that(1)) (simp_all add: expand_heap_def n_def Let_def)
  next
    fix m e'
    let ?e' = "?e + m" let ?h2 = "h\<lparr>al_heap_end := ?e', al_env := e'\<rparr>"
    assume g: "expand ?e n (al_env h) = Inr (m, e')" "unat ?e' = unat ?e + unat m" "heap_inv avail okay lo hi ?h2"
    show ?thesis
    proof (cases "m < n")
      case True
      then have "short (unat req + 16) h" using g(1) nk inv by (auto simp: short_def heap_inv_def)
      moreover have "served (unat req + 16) h ?h2" using g(1,2) nk by (auto simp: served_def)
      ultimately show ?thesis
        using True pre g live_grown [OF wf, of ?e']
        by (intro that(2) [of ?h2]) (simp_all add: expand_heap_def n_def Let_def claim_tail_def)
    next
      case False
      then have mn: "unat n \<le> unat m" by (simp add: word_less_nat_alt)
      have bnd: "unat ?e + 16 \<le> unat ?e'" "unat ?e' mod 16 = 0" "unat ?e' - unat (al_head h) < 2 ^ 63"
        using mn un g(2,3) by (auto simp: heap_inv_def intro: mod16_of_mod4096)
      from extend_and_merge [OF wf bnd] obtain N2 b N3 t3 ps3 where
        x: "lli_insert_after ?t ?e ?N ?t = Inr (N2, ?e)" "lli_try_merge_after ?t N2 ?e = Inr (b, N3, t3)"
        "wfl N3 (al_head h) t3 ?e' ps3" "freep N3 t3" "live N3 ?e' = live ?N ?e"
        "rsize N3 ?e' t3 = (if freep ?N ?t then rsize ?N ?e ?t + (unat ?e' - unat ?e) else unat ?e' - unat ?e - 16)"
        by metis
      have big: "unat req \<le> rsize N3 ?e' t3" using x(6) mn un ul g(2) by (auto split: if_splits)
      let ?h3 = "?h2\<lparr>al_items := N3, al_tail := t3\<rparr>"
      have "claim_tail req ?t (True, ?h2\<lparr>al_items := N2, al_tail := ?e\<rparr>) = Inr (t3, ?h3)"
        by (subst claim_tail_ok [OF x(2-4) big]) simp_all
      moreover have "heap_inv avail okay lo hi ?h3" using g(3) x(3) by (auto simp: heap_inv_def)
      moreover have "t3 \<in> good_items N3" using x(3) by (auto simp: wfl_def)
      moreover have "served (unat req + 16) h ?h3" using g(1,2) nk by (auto simp: served_def)
      ultimately show ?thesis
        using pre g(1) False x big
        by (intro that(3) [of t3 ?h3]) (simp_all add: expand_heap_def n_def Let_def fits_def)
    qed
  qed
qed

lemma find_or_make_free_ok:
  assumes inv: "heap_inv avail okay lo hi h" and req: "unat req \<le> 2 ^ 63"
  obtains f where "find_or_make_free expand req h = Inl f" "refused (unat req + 16) h f"
  | h' where "find_or_make_free expand req h = Inr (0, h')" "heap_inv avail okay lo hi h'"
      "grown (live (al_items h) (al_heap_end h)) (live (al_items h') (al_heap_end h'))"
      "al_bytes h' = al_bytes h" "short (unat req + 16) h" "served (unat req + 16) h h'"
  | c h' where "find_or_make_free expand req h = Inr (c, h')" "fits avail okay lo hi req h c h'" "served (unat req + 16) h h'"
proof -
  let ?e = "al_heap_end h"
  from inv obtain ps where ps: "wfh h ps" by (auto simp: heap_inv_def)
  then obtain p bs where "ps = [] @ p # bs" "al_head h = p" by (cases ps) (auto simp: wfl_def)
  with find_free_loop_ok [of h "[]" p bs req] ps obtain N1 t1 ps1 r where
    l: "find_free_loop (al_head h) req h = Some (Inr (r, h\<lparr>al_items := N1, al_tail := t1\<rparr>))"
       "wfl N1 (al_head h) t1 ?e ps1" "live N1 ?e = live (al_items h) ?e"
       "\<And>c. r = Some c \<Longrightarrow> c \<in> set ps1 \<and> freep N1 c \<and> unat req \<le> rsize N1 ?e c"
       "r = None \<Longrightarrow> freep N1 t1 \<Longrightarrow> rsize N1 ?e t1 < unat req"
    by auto
  let ?h1 = "h\<lparr>al_items := N1, al_tail := t1\<rparr>"
  have inv1: "heap_inv avail okay lo hi ?h1" using inv l(2) by (auto simp: heap_inv_def)
  show thesis
  proof (cases r)
    case (Some c)
    with l(1) have "find_or_make_free expand req h = Inr (c, ?h1)" by (simp add: find_or_make_free_def)
    moreover have "fits avail okay lo hi req h c ?h1" using l(2-4) inv1 Some by (auto simp: fits_def wfl_def)
    moreover have "served (unat req + 16) h ?h1" by (simp add: served_def)
    ultimately show ?thesis by (rule that(3))
  next
    case None
    with l(1) have eq: "find_or_make_free expand req h = make_free expand req ?h1"
      by (simp add: find_or_make_free_def)
    show ?thesis
      using make_free_ok [OF inv1 _ req, of ps1] l(2,3,5) None that unfolding eq
      by (auto simp: fits_def refused_def short_def served_def)
  qed
qed

end

section \<open>Carving a region\<close>

lemma freep_upd: "freep (N(p \<mapsto> it)) x = (if x = p then lli_free it else freep N x)"
  and goodp_upd: "goodp (N(p \<mapsto> it)) x = (if x = p then lli_canary it = LL_CANARY else goodp N x)"
  and nextp_upd: "nextp (N(p \<mapsto> it)) x = (if x = p then lli_next it else nextp N x)"
  by (simp_all add: freep_def goodp_def nextp_def)

lemma seg_cong: "(\<And>x. goodp N' x = goodp N x) \<Longrightarrow> (\<And>x. nextp N' x = nextp N x) \<Longrightarrow> seg N' p as q = seg N p as q"
  by (induction as arbitrary: p) auto

lemma mark_ok:
  assumes wf: "wfl N h0 t e ps" and p: "p \<in> set ps"
  obtains N' where "lli_mark_as p b N = Inr N'" "wfl N' h0 t e ps"
    "\<And>x. rsize N' e x = rsize N e x" "\<And>x. region_end N' e x = region_end N e x"
    "\<And>x. freep N' x = (if x = p then b else freep N x)" "good_items N' = good_items N"
proof -
  from wfl_item [OF wf p] obtain it where it: "N p = Some it" "lli_canary it = LL_CANARY" by blast
  let ?N = "N(p \<mapsto> it\<lparr>lli_free := b\<rparr>)"
  have g: "goodp ?N x = goodp N x" and n: "nextp ?N x = nextp N x" for x
    using it by (auto simp: goodp_def nextp_def)
  have step: "lli_mark_as p b N = Inr ?N" using it by (simp add: lli_mark_as_def assert_invariant_def deref_def)
  have gi: "good_items ?N = good_items N" using g by (rule good_items_cong)
  then have wf': "wfl ?N h0 t e ps" using wf seg_cong [of ?N N, OF g n] unfolding wfl_def by simp
  show thesis by (rule that [OF step wf' _ _ _ gi]) (simp_all add: n rsize_def region_end_def freep_upd)
qed

lemma live_unique: "(p, s) \<in> live N e \<Longrightarrow> s = rsize N e p"
  by (auto simp: live_def)

lemma live_mark_used:
  assumes "\<And>x. rsize N' e x = rsize N e x" "\<And>x. freep N' x = (if x = p then False else freep N x)"
    "good_items N' = good_items N" "p \<in> good_items N"
  shows "live N' e = insert (p, rsize N e p) (live N e)"
  using assms by (auto simp: live_def)

lemma live_mark_free:
  assumes "\<And>x. rsize N' e x = rsize N e x" "\<And>x. freep N' x = (if x = p then True else freep N x)"
    "good_items N' = good_items N"
  shows "live N' e = live N e - {(p, rsize N e p)}"
proof (rule set_eqI)
  fix y :: "u64 \<times> nat" obtain x s where y: "y = (x, s)" by (cases y)
  show "y \<in> live N' e \<longleftrightarrow> y \<in> live N e - {(p, rsize N e p)}"
    using assms by (cases "x = p") (auto simp: y live_def)
qed

lemma split_ok:
  assumes wf: "wfl N h0 t e ps" and p: "p \<in> set ps" and np: "\<not> freep N p"
    and a: "gap p a" "unat a mod 16 = 0" "gap a (region_end N e p)"
  obtains N' t' ps' where "lli_insert_after p a N t = Inr (N', t')" "wfl N' h0 t' e ps'"
    "live N' e = insert (p, unat a - (unat p + 16)) (live N e - {(p, rsize N e p)})"
proof -
  obtain as bs where ps: "ps = as @ p # bs" using p by (auto simp: in_set_conv_decomp)
  from insert_ok [OF wf [unfolded ps] a] obtain N' t' where
    i: "lli_insert_after p a N t = Inr (N', t')" "wfl N' h0 t' e (as @ p # a # bs)"
    "freep N' a" "freep N' p = freep N p" "\<And>x. x \<noteq> p \<Longrightarrow> x \<noteq> a \<Longrightarrow> N' x = N x"
    "nextp N' p = a" "nextp N' a = nextp N p" "a \<notin> set (as @ p # bs)" by metis
  have gi: "good_items N' = insert a (good_items N)" "a \<notin> good_items N" "p \<in> good_items N"
    using i(2,8) wf ps by (auto simp: wfl_def)
  have a0: "a \<noteq> 0" using a(1) by (auto simp: gap_def)
  have rp: "rsize N' e p = unat a - (unat p + 16)" using i(6) a0 by (simp add: rsize_def region_end_def)
  have rx: "rsize N' e x = rsize N e x" "freep N' x = freep N x" if "x \<noteq> p" "x \<noteq> a" for x
    using i(5) [OF that] by (simp_all add: rsize_def region_end_def nextp_def freep_def)
  have "live N' e = insert (p, unat a - (unat p + 16)) (live N e - {(p, rsize N e p)})" (is "_ = ?R")
  proof (rule set_eqI)
    fix y :: "u64 \<times> nat" obtain x s where y: "y = (x, s)" by (cases y)
    show "y \<in> live N' e \<longleftrightarrow> y \<in> ?R"
      using gi i(3,4) np rp rx [of x] by (cases "x = p"; cases "x = a") (auto simp: y live_def)
  qed
  with i(1,2) show thesis by (rule that)
qed

lemma round16:
  assumes "unat bytes \<le> 2 ^ 63" "bytes \<noteq> 0"
  defines "req \<equiv> ((bytes + 16 - 1) div 16) * (16 :: u64)"
  shows "unat req \<le> 2 ^ 63" "unat req mod 16 = 0" "unat bytes \<le> unat req" "unat req < unat bytes + 16"
proof -
  have b: "unat (bytes + 15) = unat bytes + 15" using assms(1) by (subst unat_add64) auto
  have "unat req = ((unat bytes + 15) div 16) * 16"
    using assms(1) b unfolding req_def by (simp add: unat_word_ariths unat_div)
  moreover have "(unat bytes + 15) div 16 * 16 \<le> unat bytes + 15" "unat bytes \<le> (unat bytes + 15) div 16 * 16"
    by linarith+
  ultimately show "unat req mod 16 = 0" "unat bytes \<le> unat req" "unat req < unat bytes + 16" "unat req \<le> 2 ^ 63"
    using assms(1) by auto
qed

lemma carve_ok:
  assumes wf: "wfh h ps" and c: "c \<in> set ps" "freep (al_items h) c"
    and big: "unat req \<le> rsize (al_items h) (al_heap_end h) c" and r: "unat req \<le> 2 ^ 63" "unat req mod 16 = 0"
  obtains N2 t2 ps2 s where "carve req (c, h) = Inr (c + 16, h\<lparr>al_items := N2, al_tail := t2\<rparr>)"
    "wfl N2 (al_head h) t2 (al_heap_end h) ps2" "unat req \<le> s" "c + 16 \<noteq> 0"
    "live N2 (al_heap_end h) = insert (c, s) (live (al_items h) (al_heap_end h))"
proof -
  let ?N = "al_items h" let ?e = "al_heap_end h"
  from mark_ok [OF wf c(1), of False] obtain N1 where
    m: "lli_mark_as c False ?N = Inr N1" "wfl N1 (al_head h) (al_tail h) ?e ps"
    "\<And>x. rsize N1 ?e x = rsize ?N ?e x" "\<And>x. region_end N1 ?e x = region_end ?N ?e x"
    "\<And>x. freep N1 x = (if x = c then False else freep ?N x)" "good_items N1 = good_items ?N" by blast
  obtain as bs where ps: "ps = as @ c # bs" using c(1) by (auto simp: in_set_conv_decomp)
  note rs = region_size_ok [OF m(2) [unfolded ps]] and re = wfl_region_end [OF m(2) [unfolded ps]]
  have cg: "c \<in> good_items ?N" "c \<noteq> 0" using wf c by (auto simp: wfl_def)
  have lv: "live N1 ?e = insert (c, rsize ?N ?e c) (live ?N ?e)" by (rule live_mark_used [OF m(3,5,6) cg(1)])
  have c16: "unat (c + 16) = unat c + 16"
    using re(2) unsigned_less [of "region_end N1 ?e c", where ?'a = nat] by (subst unat_add64) (auto simp: gap_def)
  then have c0: "c + 16 \<noteq> 0" by (auto simp: word_unat_eq_iff)
  have r16: "unat (req + 16) = unat req + 16" using r by (subst unat_add64) auto
  have start: "lli_region_start N1 c = Inr (c + 16)"
    by (rule wfl_item [OF m(2) c(1)]) (simp add: lli_region_start_def assert_invariant_def deref_def)
  have pre: "carve req (c, h) = (if unat req + 16 \<le> rsize ?N ?e c
      then rbind (lli_insert_after c (c + 16 + req) N1 (al_tail h))
        (\<lambda>(N2, t2). Inr (c + 16, h\<lparr>al_items := N2, al_tail := t2\<rparr>))
      else Inr (c + 16, h\<lparr>al_items := N1\<rparr>))"
    using cg m(1,3) rs start r16 by (simp add: carve_def word_le_nat_alt)
  show thesis
  proof (cases "unat req + 16 \<le> rsize ?N ?e c")
    case False
    then show ?thesis using pre m(2) big c0 lv by (intro that [of "al_tail h" N1 ps]) simp_all
  next
    case True
    have le: "unat c + 16 + unat req + 16 \<le> unat (region_end N1 ?e c)"
      using True re(2) m(3) [of c] by (simp add: rsize_def gap_def)
    then have ua: "unat (c + 16 + req) = unat c + 16 + unat req"
      using c16 unsigned_less [of "region_end N1 ?e c", where ?'a = nat] by (subst unat_add64) auto
    have "unat c mod 16 = 0" using wf c by (auto simp: wfl_def)
    then have a: "gap c (c + 16 + req)" "unat (c + 16 + req) mod 16 = 0" "gap (c + 16 + req) (region_end N1 ?e c)"
      using ua le r(2) by (auto simp: gap_def)
    from split_ok [OF m(2) c(1) _ a] m(5) obtain N2 t2 ps2 where
      s: "lli_insert_after c (c + 16 + req) N1 (al_tail h) = Inr (N2, t2)" "wfl N2 (al_head h) t2 ?e ps2"
      "live N2 ?e = insert (c, unat (c + 16 + req) - (unat c + 16)) (live N1 ?e - {(c, rsize N1 ?e c)})"
      by metis
    have "(c, rsize ?N ?e c) \<notin> live ?N ?e" using c(2) by (auto simp: live_def)
    then have "live N2 ?e = insert (c, unat req) (live ?N ?e)" using s(3) lv m(3) ua by auto
    with s pre True c0 show ?thesis by (intro that [of t2 N2 ps2 "unat req"]) simp_all
  qed
qed

definition claimed :: "('e \<Rightarrow> nat) \<Rightarrow> ('e \<Rightarrow> bool) \<Rightarrow> nat \<Rightarrow> nat \<Rightarrow> nat \<Rightarrow> 'e allocator \<Rightarrow> u64 \<Rightarrow> 'e allocator \<Rightarrow> bool" where
  "claimed avail okay lo hi n h ptr h' \<longleftrightarrow> heap_inv avail okay lo hi h' \<and> al_bytes h' = al_bytes h \<and> ptr \<noteq> 0 \<and>
     (\<exists>c s. ptr = c + 16 \<and> n \<le> s \<and> c \<notin> fst ` live (al_items h) (al_heap_end h) \<and>
       live (al_items h') (al_heap_end h') = insert (c, s) (live (al_items h) (al_heap_end h)))"

context heap_provider
begin

lemma malloc_ok:
  assumes inv: "heap_inv avail okay lo hi h" and b: "bytes \<noteq> 0" "unat bytes \<le> 2 ^ 63"
  obtains f where "malloc expand bytes h = Inl f" "refused (unat bytes + 31) h f"
  | h' where "malloc expand bytes h = Inr (0, h')" "heap_inv avail okay lo hi h'"
      "grown (live (al_items h) (al_heap_end h)) (live (al_items h') (al_heap_end h'))"
      "al_bytes h' = al_bytes h" "short (unat bytes + 31) h" "served (unat bytes + 31) h h'"
  | ptr h' where "malloc expand bytes h = Inr (ptr, h')" "claimed avail okay lo hi (unat bytes) h ptr h'"
      "served (unat bytes + 31) h h'"
proof -
  define req where "req = ((bytes + 16 - 1) div 16) * (16 :: u64)"
  note r = round16 [OF b(2,1), folded req_def]
  have pre: "malloc expand bytes h = rbind (find_or_make_free expand req h) (carve req)"
    using b(1) by (simp add: malloc_def req_def Let_def)
  have le: "unat req + 16 \<le> unat bytes + 31" using r(4) by simp
  show thesis
  proof (rule find_or_make_free_ok [OF inv r(1)])
    fix c h1 assume f: "find_or_make_free expand req h = Inr (c, h1)" "fits avail okay lo hi req h c h1"
      "served (unat req + 16) h h1"
    from f(2) obtain ps where wf: "wfh h1 ps" and c: "c \<in> set ps" by (auto simp: fits_def heap_inv_def wfl_def)
    from f(2) have "freep (al_items h1) c" "unat req \<le> rsize (al_items h1) (al_heap_end h1) c"
      by (auto simp: fits_def)
    from carve_ok [OF wf c this r(1,2)] obtain N2 t2 ps2 s where
      k: "carve req (c, h1) = Inr (c + 16, h1\<lparr>al_items := N2, al_tail := t2\<rparr>)"
      "wfl N2 (al_head h1) t2 (al_heap_end h1) ps2" "unat req \<le> s" "c + 16 \<noteq> 0"
      "live N2 (al_heap_end h1) = insert (c, s) (live (al_items h1) (al_heap_end h1))"
      by metis
    let ?h2 = "h1\<lparr>al_items := N2, al_tail := t2\<rparr>"
    have "c \<notin> fst ` live (al_items h) (al_heap_end h)" using f(2) by (auto simp: fits_def live_def)
    moreover have "heap_inv avail okay lo hi ?h2" using f(2) k(2) by (auto simp: fits_def heap_inv_def)
    ultimately have "claimed avail okay lo hi (unat bytes) h (c + 16) ?h2"
      using f(2) k r(3) unfolding claimed_def by (intro conjI exI [of _ c] exI [of _ s]) (auto simp: fits_def)
    moreover have "served (unat bytes + 31) h ?h2" using f(3) le unfolding served_def by force
    ultimately show thesis using pre f(1) k(1) by (intro that(3) [of "c + 16" ?h2]) simp_all
  next
    fix f assume "find_or_make_free expand req h = Inl f" "refused (unat req + 16) h f"
    then show thesis using pre le by (intro that(1) [of f]) (force simp: refused_def)+
  next
    fix h' assume "find_or_make_free expand req h = Inr (0, h')" "heap_inv avail okay lo hi h'"
      "grown (live (al_items h) (al_heap_end h)) (live (al_items h') (al_heap_end h'))" "al_bytes h' = al_bytes h"
      "short (unat req + 16) h" "served (unat req + 16) h h'"
    then show thesis using pre le by (intro that(2) [of h']) (force simp: carve_def short_def served_def)+
  qed
qed

end

section \<open>Live regions, \<open>free\<close>, \<open>realloc\<close> and initialisation\<close>

lemma live_geometry:
  assumes inv: "heap_inv avail okay lo hi h" and c: "(c, s) \<in> live (al_items h) (al_heap_end h)"
  shows "unat (c + 16) = unat c + 16" "unat c mod 16 = 0" "unat (al_head h) \<le> unat c"
    "unat c + 16 + s \<le> unat (al_heap_end h)"
proof -
  from inv obtain ps where wf: "wfh h ps" by (auto simp: heap_inv_def)
  from c have s: "s = rsize (al_items h) (al_heap_end h) c" "c \<in> good_items (al_items h)" by (auto simp: live_def)
  with wf have cp: "c \<in> set ps" by (simp add: wfl_def)
  then obtain as bs where ps: "ps = as @ c # bs" by (auto simp: in_set_conv_decomp)
  note re = wfl_region_end [OF wf [unfolded ps]]
  show "unat (c + 16) = unat c + 16"
    using re(2) unsigned_less [of "region_end (al_items h) (al_heap_end h) c", where ?'a = nat]
    by (subst unat_add64) (auto simp: gap_def)
  show "unat c mod 16 = 0" using wf cp by (auto simp: wfl_def)
  show "unat (al_head h) \<le> unat c" using wfl_head_le [OF wf cp] .
  show "unat c + 16 + s \<le> unat (al_heap_end h)" using re(2,3) s by (simp add: rsize_def gap_def)
qed

lemma live_disjoint:
  assumes inv: "heap_inv avail okay lo hi h" and c: "(c, s) \<in> live (al_items h) (al_heap_end h)"
    and d: "(d, r) \<in> live (al_items h) (al_heap_end h)" and "c \<noteq> d"
  shows "unat c + 16 + s \<le> unat d \<or> unat d + 16 + r \<le> unat c"
proof -
  have key: "unat x + 16 + rsize N e x \<le> unat y"
    if wf: "wfl N h0 t e (as @ x # bs)" and y: "y \<in> set bs" for N h0 t e as x bs y
  proof -
    obtain z zs where bs: "bs = z # zs" using y by (cases bs) auto
    have "unat z \<le> unat y" using wf y bs by (auto simp: wfl_def sorted_wrt_append gap_def)
    with wfl_region_end(1,2) [OF wf] bs show ?thesis by (simp add: rsize_def gap_def)
  qed
  from inv obtain ps where wf: "wfh h ps" by (auto simp: heap_inv_def)
  from c d wf have s: "s = rsize (al_items h) (al_heap_end h) c" "c \<in> set ps"
    "r = rsize (al_items h) (al_heap_end h) d" "d \<in> set ps" by (auto simp: live_def wfl_def)
  from s(2) obtain as bs where ps: "ps = as @ c # bs" by (auto simp: in_set_conv_decomp)
  from s(4) \<open>c \<noteq> d\<close> consider "d \<in> set bs" | "d \<in> set as" by (auto simp: ps)
  then show ?thesis
  proof cases
    case 1
    with key [OF wf [unfolded ps]] s show ?thesis by simp
  next
    case 2
    then obtain as1 as2 where "as = as1 @ d # as2" by (auto simp: in_set_conv_decomp)
    then have "wfh h (as1 @ d # (as2 @ c # bs))" using wf ps by simp
    from key [OF this, of c] s show ?thesis by simp
  qed
qed

lemma free_ok:
  assumes inv: "heap_inv avail okay lo hi h" and c: "(c, s) \<in> live (al_items h) (al_heap_end h)"
  obtains N' where "free (c + 16) h = Inr (h\<lparr>al_items := N'\<rparr>)" "heap_inv avail okay lo hi (h\<lparr>al_items := N'\<rparr>)"
    "live N' (al_heap_end h) = live (al_items h) (al_heap_end h) - {(c, s)}"
proof -
  from inv obtain ps where wf: "wfh h ps" by (auto simp: heap_inv_def)
  from c wf have s: "s = rsize (al_items h) (al_heap_end h) c" "c \<in> set ps" by (auto simp: live_def wfl_def)
  from mark_ok [OF wf s(2), of True] obtain N' where
    m: "lli_mark_as c True (al_items h) = Inr N'" "wfl N' (al_head h) (al_tail h) (al_heap_end h) ps"
    "\<And>x. rsize N' (al_heap_end h) x = rsize (al_items h) (al_heap_end h) x"
    "\<And>x. freep N' x = (if x = c then True else freep (al_items h) x)"
    "good_items N' = good_items (al_items h)" by metis
  have "c + 16 \<noteq> 0" using live_geometry(1) [OF inv c] by (auto simp: word_unat_eq_iff)
  then have "free (c + 16) h = Inr (h\<lparr>al_items := N'\<rparr>)" using m(1) by (simp add: free_def)
  moreover have "heap_inv avail okay lo hi (h\<lparr>al_items := N'\<rparr>)" using inv m(2) by (auto simp: heap_inv_def)
  moreover have "live N' (al_heap_end h) = live (al_items h) (al_heap_end h) - {(c, s)}"
    unfolding s(1) by (rule live_mark_free [OF m(3-5)])
  ultimately show thesis by (rule that)
qed

lemma apart_no_overlap:
  assumes "unat a + unat n \<le> unat b \<or> unat b + unat n \<le> unat a" "unat a + unat n \<le> 2 ^ 64" "unat b + unat n \<le> 2 ^ 64"
  shows "no_overlap a b n"
  unfolding no_overlap_def
proof (intro allI impI notI)
  fix j k assume jk: "j < n \<and> k < n" and eq: "a + j = b + k"
  have "unat (a + j) = unat a + unat j" "unat (b + k) = unat b + unat k"
    using jk assms(2,3) by (subst unat_add64; simp add: word_less_nat_alt)+
  with eq jk assms(1) show False by (simp add: word_less_nat_alt)
qed

definition moved :: "('e \<Rightarrow> nat) \<Rightarrow> ('e \<Rightarrow> bool) \<Rightarrow> nat \<Rightarrow> nat \<Rightarrow> u64 \<Rightarrow> 'e allocator \<Rightarrow> u64 \<times> nat \<Rightarrow> u64 \<Rightarrow> 'e allocator \<Rightarrow> bool" where
  "moved avail okay lo hi bytes h old ptr h' \<longleftrightarrow> heap_inv avail okay lo hi h' \<and> ptr \<noteq> 0 \<and>
     (\<exists>c s. ptr = c + 16 \<and> unat bytes \<le> s \<and> c \<notin> fst ` live (al_items h) (al_heap_end h) \<and>
       live (al_items h') (al_heap_end h') = insert (c, s) (live (al_items h) (al_heap_end h) - {old})) \<and>
     (\<forall>a. al_bytes h' a = (if unat (a - ptr) < min (snd old) (unat bytes) then al_bytes h (fst old + 16 + (a - ptr)) else al_bytes h a))"

context heap_provider
begin

lemma realloc_ok:
  assumes inv: "heap_inv avail okay lo hi h" and b: "bytes \<noteq> 0" "unat bytes \<le> 2 ^ 63"
    and old: "(c, s) \<in> live (al_items h) (al_heap_end h)" and m: "malloc expand bytes h = Inr (ptr, h1)" "ptr \<noteq> 0"
  obtains h' where "realloc expand (c + 16) bytes h = Inr (ptr, h')" "moved avail okay lo hi bytes h (c, s) ptr h'"
proof -
  from malloc_ok [OF inv b] m have cl: "claimed avail okay lo hi (unat bytes) h ptr h1" by (cases) auto
  let ?N = "al_items h1" let ?e = "al_heap_end h1"
  from cl obtain d r where d: "ptr = d + 16" "unat bytes \<le> r" "d \<notin> fst ` live (al_items h) (al_heap_end h)"
    "live ?N ?e = insert (d, r) (live (al_items h) (al_heap_end h))" "heap_inv avail okay lo hi h1" "al_bytes h1 = al_bytes h"
    by (auto simp: claimed_def)
  have c1: "(c, s) \<in> live ?N ?e" and d1: "(d, r) \<in> live ?N ?e" and cd: "c \<noteq> d" using d(3,4) old by force+
  note gc = live_geometry [OF d(5) c1] and gd = live_geometry [OF d(5) d1]
  from d(5) obtain ps where wf: "wfh h1 ps" by (auto simp: heap_inv_def)
  from c1 wf have s: "s = rsize ?N ?e c" "c \<in> set ps" by (auto simp: live_def wfl_def)
  from s(2) obtain as bs where ps: "ps = as @ c # bs" by (auto simp: in_set_conv_decomp)
  note rs = region_size_ok [OF wf [unfolded ps]]
  define sz where "sz = region_end ?N ?e c - (c + 16)"
  define k where "k = (if sz > bytes then bytes else sz)"
  have uk: "unat k = min s (unat bytes)" using rs(2) s(1) by (auto simp: k_def sz_def word_less_nat_alt)
  have c0: "c + 16 \<noteq> 0" using gc(1) by (auto simp: word_unat_eq_iff)
  have bnd: "unat ?e < 2 ^ 64" using unsigned_less [of ?e, where ?'a = nat] by simp
  have no: "no_overlap ptr (c + 16) k"
    using live_disjoint [OF d(5) c1 d1 cd] gc gd uk d(2) bnd unfolding d(1)
    by (intro apart_no_overlap) auto
  let ?h2 = "h1\<lparr>al_bytes := copied (al_bytes h1) ptr (c + 16) k\<rparr>"
  have inv2: "heap_inv avail okay lo hi ?h2" and c2: "(c, s) \<in> live (al_items ?h2) (al_heap_end ?h2)"
    using d(5) c1 by (auto simp: heap_inv_def)
  from free_ok [OF inv2 c2] obtain N' where
    f: "free (c + 16) ?h2 = Inr (?h2\<lparr>al_items := N'\<rparr>)" "heap_inv avail okay lo hi (?h2\<lparr>al_items := N'\<rparr>)"
    "live N' ?e = live ?N ?e - {(c, s)}" by auto
  have "realloc expand (c + 16) bytes h = Inr (ptr, ?h2\<lparr>al_items := N'\<rparr>)"
    using m c0 rs(1) [folded sz_def] f(1) memcpy_eq_copied [OF no, of "al_bytes h1"]
    by (simp add: realloc_def Let_def split del: if_split flip: k_def)
  moreover have "moved avail okay lo hi bytes h (c, s) ptr (?h2\<lparr>al_items := N'\<rparr>)"
    using f d m(2) uk cd unfolding moved_def
    by (intro conjI exI [of _ d] exI [of _ r]) (auto simp: copied_def word_less_nat_alt)
  ultimately show thesis by (rule that)
qed

lemma init_ok:
  assumes "okay e" and hs: "heap_start \<noteq> 0" "unat heap_start mod 4096 = 0"
      "lo \<le> unat heap_start" "unat heap_start + avail e \<le> hi" "hi < 2 ^ 64" "hi - lo < 2 ^ 63"
    and i: "init_memory_allocator expand heap_start m e = Inr h"
  shows "heap_inv avail okay lo hi h \<and> live (al_items h) (al_heap_end h) = {} \<and> al_head h = heap_start"
proof -
  from i obtain a e' where x: "expand heap_start 16 e = Inr (a, e')" "16 \<le> a"
    "h = \<lparr>al_head = heap_start, al_tail = heap_start, al_heap_end = heap_start + a,
          al_items = lli_new 0 heap_start (\<lambda>_. None), al_bytes = m, al_env = e'\<rparr>"
    by (auto simp: init_memory_allocator_def result_simps Let_def split: if_splits)
  from expand_ok [OF assms(1) hs(2-4) x(1)]
  have y: "okay e'" "unat a mod 4096 = 0" "unat a + avail e' \<le> avail e" by auto
  have u: "unat (heap_start + a) = unat heap_start + unat a" using hs y(3) by (subst unat_add64) linarith+
  have md: "unat (heap_start + a) mod 4096 = 0" using u hs(2) y(2) by (simp add: mod_add_eq [symmetric])
  have "16 \<le> unat a" using x(2) by (simp add: word_le_nat_alt)
  then have "wfh h [heap_start]"
    using hs u mod16_of_mod4096 [OF hs(2)] mod16_of_mod4096 [OF md] y(3)
    by (auto simp: x(3) wfl_def lli_new_def goodp_def nextp_def gap_def good_items_iff split: if_splits)
  then show ?thesis
    using y u md hs by (auto simp: heap_inv_def x(3) live_def lli_new_def freep_def good_items_iff goodp_def split: if_splits)
qed

end

section \<open>Mapped memory\<close>

text \<open>A provider that maps what it hands out, and takes no mapping away.\<close>

definition heap_mapped :: "('e \<Rightarrow> u64 \<Rightarrow> bool) \<Rightarrow> nat \<Rightarrow> 'e allocator \<Rightarrow> bool" where
  "heap_mapped present lo h \<longleftrightarrow> (\<forall>v. lo \<le> unat v \<and> unat v < unat (al_heap_end h) \<longrightarrow> present (al_env h) v)"

locale mapping_provider = heap_provider expand avail okay lo hi
  for expand :: "'e expander" and avail :: "'e \<Rightarrow> nat" and okay :: "'e \<Rightarrow> bool" and lo hi :: nat +
  fixes present :: "'e \<Rightarrow> u64 \<Rightarrow> bool"
  assumes expand_maps:
    "\<lbrakk>okay e; unat he mod 4096 = 0; lo \<le> unat he; unat he + avail e \<le> hi; expand he n e = Inr (m, e')\<rbrakk>
     \<Longrightarrow> (\<forall>v. present e v \<longrightarrow> present e' v) \<and> (\<forall>v. unat he \<le> unat v \<and> unat v < unat he + unat m \<longrightarrow> present e' v)"
begin

lemma served_mapped:
  assumes inv: "heap_inv avail okay lo hi h" and m: "heap_mapped present lo h" and s: "served k h h'"
  shows "heap_mapped present lo h'"
  using s unfolding served_def
proof (elim disjE exE conjE)
  assume "al_env h' = al_env h" "al_heap_end h' = al_heap_end h"
  then show ?thesis using m by (simp add: heap_mapped_def)
next
  fix n a assume e: "expand (al_heap_end h) n (al_env h) = Inr (a, al_env h')" "unat (al_heap_end h') = unat (al_heap_end h) + unat a"
  obtain ps where "wfh h ps" using inv by (auto simp: heap_inv_def)
  then have "unat (al_head h) \<le> unat (al_heap_end h)" by (cases ps) (auto simp: wfl_def gap_def)
  then have "lo \<le> unat (al_heap_end h)" using inv by (simp add: heap_inv_def)
  from expand_maps [OF _ _ this _ e(1)] inv
  have x: "\<And>v. present (al_env h) v \<Longrightarrow> present (al_env h') v"
    "\<And>v. unat (al_heap_end h) \<le> unat v \<Longrightarrow> unat v < unat (al_heap_end h') \<Longrightarrow> present (al_env h') v"
    unfolding e(2) by (auto simp: heap_inv_def)
  show ?thesis unfolding heap_mapped_def
  proof (intro allI impI)
    fix v :: u64 assume v: "lo \<le> unat v \<and> unat v < unat (al_heap_end h')"
    show "present (al_env h') v"
      using x(1) [of v] x(2) [of v] v m by (cases "unat v < unat (al_heap_end h)") (simp_all add: heap_mapped_def)
  qed
qed

lemma malloc_mapped:
  assumes "heap_inv avail okay lo hi h" "bytes \<noteq> 0" "unat bytes \<le> 2 ^ 63" "heap_mapped present lo h" "malloc expand bytes h = Inr (ptr, h')"
  shows "heap_mapped present lo h'"
  using malloc_ok [OF assms(1-3)] assms(5) served_mapped [OF assms(1,4)] by (cases) auto

lemma block_mapped:
  assumes "heap_inv avail okay lo hi h" "heap_mapped present lo h" "(c, s) \<in> live (al_items h) (al_heap_end h)" "unat i < s"
  shows "present (al_env h) (c + 16 + i)"
proof -
  note g = live_geometry [OF assms(1,3)]
  have "unat (al_heap_end h) < 2 ^ 64" using unsigned_less [of "al_heap_end h", where ?'a = nat] by simp
  then have "unat (c + 16 + i) = unat c + 16 + unat i" using g(1,4) assms(4) by (subst unat_add64) simp_all
  moreover have "lo \<le> unat (al_head h)" using assms(1) by (simp add: heap_inv_def)
  ultimately show ?thesis using assms(2,4) g(3,4) by (simp add: heap_mapped_def)
qed

lemma init_mapped:
  assumes "okay e" "unat heap_start mod 4096 = 0" "unat heap_start = lo" "lo + avail e \<le> hi" "hi < 2 ^ 64"
    and "init_memory_allocator expand heap_start m e = Inr h"
  shows "heap_mapped present lo h"
proof -
  from assms(6) obtain a e' where x: "expand heap_start 16 e = Inr (a, e')" "al_heap_end h = heap_start + a" "al_env h = e'"
    by (auto simp: init_memory_allocator_def result_simps Let_def split: if_splits)
  have "unat a + avail e' \<le> avail e" using expand_ok [OF assms(1,2) _ _ x(1)] assms(3,4) by simp
  then have "unat (heap_start + a) = lo + unat a" using assms(3-5) by (subst unat_add64) linarith+
  then show ?thesis using expand_maps [OF assms(1,2) _ _ x(1)] assms(3,4) x(2,3) by (simp add: heap_mapped_def)
qed

end

end
