(* ===== verification/Phys_Slab.thy ===== *)
theory Phys_Slab
  imports Kernel_Prelude
begin

text \<open>
  The physical page allocator of \<open>stuos/src/physical_slab_allocation.c\<close>: one byte flag for each
  4 KiB page, a linear scan for a free page (\<open>malloc4k_phys\<close>) or for a run of free pages
  (\<open>malloc_contiguous_phys\<close>), and the two operations that clear the flags again.

  The static variables are the record \<open>slab\<close>; \<open>slab_flags\<close> is the array behind
  \<open>slab_flags_base\<close>, and an access outside it is the fault \<open>WildAccess\<close>. Loop counters are
  \<open>u64\<close> as in the code, and every loop is shown to terminate. The locale \<open>page_allocator\<close> is the
  contract the rest of the kernel relies on; \<open>slab\<close> is its interpretation on this model. The
  step relations at the end state the refinement of the flag array to a set of live pages.
\<close>

section \<open>The allocator (\<open>stuos/src/physical_slab_allocation.c\<close>)\<close>

record slab =
  physical_memory_base :: u64
  physical_memory_pages :: u64
  slab_flags :: "bool list"

definition round_up_pages :: "u64 \<Rightarrow> u64" where
  "round_up_pages num_bytes = (num_bytes + PAGE_SIZE - 1) div PAGE_SIZE"

definition ram_size_bytes :: "slab \<Rightarrow> u64" where
  "ram_size_bytes s = physical_memory_pages s * PAGE_SIZE"

text \<open>Reading and writing \<open>slab_flags_base[i]\<close>; outside the array the access is wild.\<close>

definition flag_read :: "slab \<Rightarrow> u64 \<Rightarrow> bool result" where
  "flag_read s i = (if unat i < length (slab_flags s) then Inr (slab_flags s ! unat i) else Inl WildAccess)"

definition flag_write :: "slab \<Rightarrow> u64 \<Rightarrow> bool \<Rightarrow> slab result" where
  "flag_write s i b =
     (if unat i < length (slab_flags s)
      then Inr (s\<lparr>slab_flags := (slab_flags s)[unat i := b]\<rparr>) else Inl WildAccess)"

function malloc4k_loop :: "u64 \<Rightarrow> slab \<Rightarrow> (u64 \<times> slab) result" where
  "malloc4k_loop page_num s =
     (if page_num < physical_memory_pages s then
        rbind (flag_read s page_num) (\<lambda>used.
          if \<not> used then
            rbind (flag_write s page_num True) (\<lambda>s'.
              Inr (physical_memory_base s + page_num * PAGE_SIZE, s'))
          else malloc4k_loop (page_num + 1) s)
      else Inl HCF)"
  by pat_completeness auto
termination
  by (relation "measure (\<lambda>(i, s). unat (physical_memory_pages s) - unat i)")
     (auto intro: plus1_less_measure)

declare malloc4k_loop.simps [simp del]

definition malloc4k_phys :: "slab \<Rightarrow> (u64 \<times> slab) result" where
  "malloc4k_phys s = malloc4k_loop 0 s"

text \<open>The inner loop of \<open>malloc_contiguous_phys\<close> that marks \<open>[i, stop)\<close> as used.\<close>

function mark_run :: "u64 \<Rightarrow> u64 \<Rightarrow> slab \<Rightarrow> slab result" where
  "mark_run i stop s =
     (if i < stop then rbind (flag_write s i True) (\<lambda>s'. mark_run (i + 1) stop s') else Inr s)"
  by pat_completeness auto
termination
  by (relation "measure (\<lambda>(i, stop, s). unat stop - unat i)") (auto intro: plus1_less_measure)

declare mark_run.simps [simp del]

abbreviation UINT64_MAX :: u64 where "UINT64_MAX \<equiv> - 1"

function contiguous_loop ::
  "u64 \<Rightarrow> u64 \<Rightarrow> u64 \<Rightarrow> u64 \<Rightarrow> slab \<Rightarrow> (u64 \<times> slab) result" where
  "contiguous_loop num_pages page_num run_start run_length s =
     (if page_num < physical_memory_pages s then
        rbind (flag_read s page_num) (\<lambda>used.
          let (run_start', run_length') =
            (if \<not> used then
               (if run_start = UINT64_MAX then (page_num, 1) else (run_start, run_length + 1))
             else (UINT64_MAX, 0))
          in if run_length' = num_pages then
               rbind (mark_run run_start' (run_start' + run_length') s) (\<lambda>s'.
                 Inr (physical_memory_base s + run_start' * PAGE_SIZE, s'))
             else contiguous_loop num_pages (page_num + 1) run_start' run_length' s)
      else Inl HCF)"
  by pat_completeness auto
termination
  by (relation "measure (\<lambda>(n, i, rs, rl, s). unat (physical_memory_pages s) - unat i)")
     (auto intro: plus1_less_measure)

declare contiguous_loop.simps [simp del]

definition malloc_contiguous_phys :: "u64 \<Rightarrow> slab \<Rightarrow> (u64 \<times> slab) result" where
  "malloc_contiguous_phys num_pages s =
     hcf_unless (num_pages > 0) (contiguous_loop num_pages 0 UINT64_MAX 0 s)"

definition free4k_phys :: "u64 \<Rightarrow> slab \<Rightarrow> slab result" where
  "free4k_phys phys_addr s =
     (if phys_addr mod PAGE_SIZE \<noteq> 0 then Inl HCF
      else flag_write s ((phys_addr - physical_memory_base s) div PAGE_SIZE) False)"

function free_contiguous_loop :: "u64 \<Rightarrow> u64 \<Rightarrow> u64 \<Rightarrow> slab \<Rightarrow> slab result" where
  "free_contiguous_loop i num_pages phys_addr s =
     (if i < num_pages then
        rbind (free4k_phys (phys_addr + PAGE_SIZE * i) s) (\<lambda>s'.
          free_contiguous_loop (i + 1) num_pages phys_addr s')
      else Inr s)"
  by pat_completeness auto
termination
  by (relation "measure (\<lambda>(i, n, a, s). unat n - unat i)") (auto intro: plus1_less_measure)

declare free_contiguous_loop.simps [simp del]

definition free_contiguous_phys :: "u64 \<Rightarrow> u64 \<Rightarrow> slab \<Rightarrow> slab result" where
  "free_contiguous_phys phys_addr num_pages s =
     hcf_unless (num_pages > 0) (free_contiguous_loop 0 num_pages phys_addr s)"

text \<open>
  \<open>init_physical_memory\<close>: the flags live at the start of the region (\<open>base_virt_hhdm\<close>, its
  virtual alias), one byte for each page, and the allocatable pages follow them.
\<close>

definition init_physical_memory :: "u64 \<Rightarrow> u64 \<Rightarrow> slab" where
  "init_physical_memory base_phys mem_size_bytes =
     (let total_page_count = mem_size_bytes div PAGE_SIZE;
          pages_required_for_slab_flag_data = round_up_pages total_page_count;
          pages = total_page_count - pages_required_for_slab_flag_data
      in \<lparr>physical_memory_base = base_phys + pages_required_for_slab_flag_data * PAGE_SIZE,
          physical_memory_pages = pages,
          slab_flags = replicate (unat pages) False\<rparr>)"


section \<open>Page addresses, runs, and what the loops compute\<close>

definition page_addr :: "slab \<Rightarrow> nat \<Rightarrow> u64" where
  "page_addr s i = physical_memory_base s + of_nat i * PAGE_SIZE"

definition slab_wf :: "slab \<Rightarrow> bool" where
  "slab_wf s \<longleftrightarrow> length (slab_flags s) = unat (physical_memory_pages s) \<and>
     unat (physical_memory_base s) mod 4096 = 0 \<and>
     unat (physical_memory_base s) + unat (physical_memory_pages s) * 4096 < 2 ^ 64"

lemma malloc4k_loop_finds:
  assumes "length (slab_flags s) = unat (physical_memory_pages s)"
    and "unat k \<le> i" and "i < length (slab_flags s)" and "\<not> slab_flags s ! i"
    and "\<And>j. unat k \<le> j \<Longrightarrow> j < i \<Longrightarrow> slab_flags s ! j"
  shows "malloc4k_loop k s = Inr (page_addr s i, s\<lparr>slab_flags := (slab_flags s)[i := True]\<rparr>)"
  using assms
proof (induction k s rule: malloc4k_loop.induct)
  case (1 k s)
  then have k: "k < physical_memory_pages s" "unat k < length (slab_flags s)"
    by (simp_all add: word_less_nat_alt)
  show ?case
  proof (cases "unat k = i")
    case True
    with 1 k show ?thesis
      by (auto simp: malloc4k_loop.simps [of k] flag_read_def flag_write_def page_addr_def)
  next
    case False
    with 1 k have used: "slab_flags s ! unat k" by simp
    then have "malloc4k_loop (k + 1) s = Inr (page_addr s i, s\<lparr>slab_flags := (slab_flags s)[i := True]\<rparr>)"
      using 1 k False unat_plus1_less [OF k(1)]
      by (intro "1.IH" [OF k(1)]) (auto simp: flag_read_def)
    with used k show ?thesis
      by (simp add: malloc4k_loop.simps [of k] flag_read_def)
  qed
qed

lemma malloc4k_loop_HCF:
  assumes "length (slab_flags s) = unat (physical_memory_pages s)"
    and "\<And>j. unat k \<le> j \<Longrightarrow> j < length (slab_flags s) \<Longrightarrow> slab_flags s ! j"
  shows "malloc4k_loop k s = Inl HCF"
  using assms
proof (induction k s rule: malloc4k_loop.induct)
  case (1 k s)
  show ?case
  proof (cases "k < physical_memory_pages s")
    case True
    then have len: "unat k < length (slab_flags s)" using 1 by (simp add: word_less_nat_alt)
    with 1 True unat_plus1_less [OF True] have "malloc4k_loop (k + 1) s = Inl HCF"
      by (intro "1.IH" [OF True]) (auto simp: flag_read_def)
    with True len 1 show ?thesis by (simp add: malloc4k_loop.simps [of k] flag_read_def)
  next
    case False
    then show ?thesis by (simp add: malloc4k_loop.simps [of k])
  qed
qed

text \<open>\<open>free_run s i n\<close>: the \<open>n\<close> pages from index \<open>i\<close> on exist and are all free.\<close>

definition free_run :: "slab \<Rightarrow> nat \<Rightarrow> nat \<Rightarrow> bool" where
  "free_run s i n \<longleftrightarrow> i + n \<le> length (slab_flags s) \<and> (\<forall>j. i \<le> j \<and> j < i + n \<longrightarrow> \<not> slab_flags s ! j)"

definition mark_pages :: "slab \<Rightarrow> nat \<Rightarrow> nat \<Rightarrow> bool \<Rightarrow> slab" where
  "mark_pages s i n b = s\<lparr>slab_flags := take i (slab_flags s) @ replicate n b @ drop (i + n) (slab_flags s)\<rparr>"

lemma mark_run_eq:
  assumes "i \<le> stop" and "unat stop \<le> length (slab_flags s)"
  shows "mark_run i stop s = Inr (mark_pages s (unat i) (unat stop - unat i) True)"
  using assms
proof (induction i stop s rule: mark_run.induct)
  case (1 i stop s)
  show ?case
  proof (cases "i < stop")
    case False
    with 1 have "i = stop" by simp
    then show ?thesis by (simp add: mark_run.simps [of stop] mark_pages_def)
  next
    case True
    let ?s = "s\<lparr>slab_flags := (slab_flags s)[unat i := True]\<rparr>"
    from True 1 have len: "unat i < length (slab_flags s)" by (simp add: word_less_nat_alt)
    have u: "unat (i + 1) = Suc (unat i)" by (rule unat_plus1_less [OF True])
    have "mark_run (i + 1) stop ?s = Inr (mark_pages ?s (unat (i + 1)) (unat stop - unat (i + 1)) True)"
      using True len 1 u by (intro "1.IH" [OF True]) (auto simp: flag_write_def word_le_nat_alt word_less_nat_alt)
    moreover have "mark_pages ?s (unat (i + 1)) (unat stop - unat (i + 1)) True = mark_pages s (unat i) (unat stop - unat i) True"
      using True len u Suc_diff_Suc [of "unat i" "unat stop"]
      by (simp add: mark_pages_def word_less_nat_alt take_Suc_conv_app_nth replicate_Suc [symmetric] del: replicate_Suc)
    ultimately show ?thesis using True len by (simp add: mark_run.simps [of i] flag_write_def)
  qed
qed


text \<open>
  Loop invariant of \<open>contiguous_loop\<close>: the current run is exactly the maximal block of free
  pages that ends before page \<open>k\<close>, it is still too short, and no long enough run ends before
  \<open>k\<close>. The sentinel \<open>UINT64_MAX\<close> in \<open>run_start\<close> says that the current run is empty.
\<close>

definition run_inv :: "slab \<Rightarrow> nat \<Rightarrow> u64 \<Rightarrow> u64 \<Rightarrow> u64 \<Rightarrow> bool" where
  "run_inv s N k rs rl \<longleftrightarrow>
     unat rl < N \<and> unat rl \<le> unat k \<and> (rl = 0 \<longleftrightarrow> rs = UINT64_MAX) \<and>
     (rl \<noteq> 0 \<longrightarrow> unat rs = unat k - unat rl) \<and>
     (\<forall>j. unat k - unat rl \<le> j \<and> j < unat k \<longrightarrow> \<not> slab_flags s ! j) \<and>
     (unat k = unat rl \<or> slab_flags s ! (unat k - unat rl - 1)) \<and>
     (\<forall>i. i + N \<le> unat k \<longrightarrow> \<not> free_run s i N)"

lemma run_inv_used:
  assumes "run_inv s N k rs rl" and "k < m" and "slab_flags s ! unat k"
  shows "run_inv s N (k + 1) UINT64_MAX 0"
proof -
  have u: "unat (k + 1) = Suc (unat k)" by (rule unat_plus1_less [OF assms(2)])
  have "\<not> free_run s i N" if "i + N \<le> Suc (unat k)" for i
  proof (cases "i + N \<le> unat k")
    case True
    then show ?thesis using assms(1) by (simp add: run_inv_def)
  next
    case False
    with that assms show ?thesis by (auto simp: free_run_def run_inv_def intro!: exI [of _ "unat k"])
  qed
  with assms(1,3) u show ?thesis by (auto simp: run_inv_def)
qed

lemma run_inv_free:
  assumes inv: "run_inv s N k rs rl" and k: "k < m" and free: "\<not> slab_flags s ! unat k"
    and len: "unat k < length (slab_flags s)"
    and rs': "rs' = (if rs = UINT64_MAX then k else rs)"
    and rl': "rl' = (if rs = UINT64_MAX then 1 else rl + 1)"
  shows "unat rl' = Suc (unat rl)" and "unat rs' = unat k - unat rl"
    and "unat rl' < N \<Longrightarrow> run_inv s N (k + 1) rs' rl'"
    and "unat rl' = N \<Longrightarrow> free_run s (unat rs') N \<and> unat rs' = (LEAST i. free_run s i N)"
proof -
  have u: "unat (k + 1) = Suc (unat k)" by (rule unat_plus1_less [OF k])
  have "unat (rl + 1) = Suc (unat rl)"
    using inv k by (intro unat_plus1_less [of _ m]) (auto simp: run_inv_def word_less_nat_alt)
  then show l: "unat rl' = Suc (unat rl)" using inv rl' by (auto simp: run_inv_def)
  show st: "unat rs' = unat k - unat rl" using inv rs' by (auto simp: run_inv_def)
  have open_run: "\<not> slab_flags s ! j" if "unat k - unat rl \<le> j" "j < Suc (unat k)" for j
    using that inv free by (cases "j = unat k") (auto simp: run_inv_def)
  {
    assume less: "unat rl' < N"
    have "\<not> free_run s i N" if i: "i + N \<le> Suc (unat k)" for i
    proof (cases "i + N \<le> unat k")
      case True
      then show ?thesis using inv by (simp add: run_inv_def)
    next
      case False
      with i less l inv have "slab_flags s ! (unat k - unat rl - 1)" "i \<le> unat k - unat rl - 1"
        by (auto simp: run_inv_def)
      with False i less l show ?thesis
        by (auto simp: free_run_def intro!: exI [of _ "unat k - unat rl - 1"])
    qed
    moreover have "rs' \<noteq> UINT64_MAX" 
      using rs' k leD [OF word_n1_ge, of m] by auto
    ultimately show "run_inv s N (k + 1) rs' rl'"
      using less u l st inv open_run unfolding run_inv_def
      by (auto simp: unat_eq_zero [symmetric])
  next
    assume N: "unat rl' = N"
    have "unat rs' + N = Suc (unat k)" using N l st inv by (simp add: run_inv_def)
    then have "free_run s (unat rs') N"
      using st len open_run by (auto simp: free_run_def)
    moreover have "unat rs' \<le> i" if "free_run s i N" for i
    proof (rule ccontr)
      assume "\<not> unat rs' \<le> i"
      with N l st inv have "i + N \<le> unat k" by (auto simp: run_inv_def)
      with that inv show False by (auto simp: run_inv_def)
    qed
    ultimately show "free_run s (unat rs') N \<and> unat rs' = (LEAST i. free_run s i N)"
      by (simp add: Least_equality)
  }
qed


text \<open>First fit, as a specification: the lowest free run of the wanted length.\<close>

definition first_run :: "slab \<Rightarrow> nat \<Rightarrow> (u64 \<times> slab) result" where
  "first_run s n =
     (if \<exists>i. free_run s i n
      then let i = LEAST i. free_run s i n in Inr (page_addr s i, mark_pages s i n True)
      else Inl HCF)"

lemma contiguous_loop_eq:
  assumes "length (slab_flags s) = unat (physical_memory_pages s)"
    and "k \<le> physical_memory_pages s" and "run_inv s (unat n) k rs rl"
  shows "contiguous_loop n k rs rl s = first_run s (unat n)"
  using assms
proof (induction n k rs rl s rule: contiguous_loop.induct)
  case (1 n k rs rl s)
  show ?case
  proof (cases "k < physical_memory_pages s")
    case False
    with 1 have "unat k = length (slab_flags s)" by simp
    with "1.prems" have "\<not> (\<exists>i. free_run s i (unat n))"
      by (auto simp: run_inv_def free_run_def)
    with False show ?thesis by (simp add: contiguous_loop.simps [of n k] first_run_def)
  next
    case True
    with 1 have len: "unat k < length (slab_flags s)" by (simp add: word_less_nat_alt)
    then have rd: "flag_read s k = Inr (slab_flags s ! unat k)" by (simp add: flag_read_def)
    have k1: "k + 1 \<le> physical_memory_pages s"
      using True unat_plus1_less [OF True] by (simp add: word_le_nat_alt word_less_nat_alt)
    note IH = "1.IH" [OF True rd, OF refl _ _ "1.prems"(1) k1]
    show ?thesis
    proof (cases "slab_flags s ! unat k")
      case used: True
      with True rd IH run_inv_used [OF "1.prems"(3) True] "1.prems"(3) show ?thesis
        by (auto simp: contiguous_loop.simps [of n k] run_inv_def)
    next
      case False
      define rs' where "rs' = (if rs = UINT64_MAX then k else rs)"
      define rl' where "rl' = (if rs = UINT64_MAX then 1 else rl + 1)"
      note run = run_inv_free [OF "1.prems"(3) True False len rs'_def rl'_def]
      have step: "contiguous_loop n k rs rl s =
        (if rl' = n then rbind (mark_run rs' (rs' + rl') s) (\<lambda>s'.
            Inr (physical_memory_base s + rs' * PAGE_SIZE, s'))
         else contiguous_loop n (k + 1) rs' rl' s)"
        using True False rd by (simp add: contiguous_loop.simps [of n k] rs'_def rl'_def)
      show ?thesis
      proof (cases "rl' = n")
        case eq: True
        have "unat rs' + unat rl' = Suc (unat k)"
          using run(1,2) "1.prems"(3) by (simp add: run_inv_def)
        then have sum: "unat (rs' + rl') = unat rs' + unat rl'"
          using unat_plus1_less [OF True] unsigned_less [of "k + 1"] by (simp add: unat_word_ariths)
        then have "mark_run rs' (rs' + rl') s = Inr (mark_pages s (unat rs') (unat n) True)"
          using eq len \<open>unat rs' + unat rl' = Suc (unat k)\<close>
          by (subst mark_run_eq) (auto simp: word_le_nat_alt intro!: arg_cong2 [of _ _ _ _ "mark_pages s (unat rs')"])
        moreover have first: "free_run s (unat rs') (unat n)" "unat rs' = (LEAST i. free_run s i (unat n))"
          using run(4) eq by auto
        ultimately show ?thesis
          using eq step unfolding first_run_def first(2) [symmetric]
          by (auto simp: page_addr_def Let_def)
      next
        case neq: False
        with run(1) "1.prems"(3) have "unat rl' < unat n"
          by (metis run_inv_def Suc_lessI word_unat_eq_iff)
        from run(3) [OF this] neq False IH step show ?thesis
          by (simp add: rs'_def rl'_def split: if_splits)
      qed
    qed
  qed
qed

lemma malloc_contiguous_phys_eq:
  assumes "length (slab_flags s) = unat (physical_memory_pages s)"
  shows "malloc_contiguous_phys n s = (if n = 0 then Inl HCF else first_run s (unat n))"
  using contiguous_loop_eq [OF assms, of 0 n UINT64_MAX 0]
  by (auto simp: malloc_contiguous_phys_def run_inv_def free_run_def word_gt_0 unat_gt_0)

section \<open>The set of live pages\<close>

definition pool :: "slab \<Rightarrow> u64 set" where
  "pool s = page_addr s ` {..<length (slab_flags s)}"

definition owned :: "slab \<Rightarrow> u64 set" where
  "owned s = page_addr s ` {i. i < length (slab_flags s) \<and> slab_flags s ! i}"

lemma page_addr_upd [simp]: "page_addr (s\<lparr>slab_flags := f\<rparr>) i = page_addr s i"
  by (simp add: page_addr_def)

lemma page_addr_mark [simp]: "page_addr (mark_pages s i n b) j = page_addr s j"
  by (simp add: page_addr_def mark_pages_def)

lemma slab_wf_upd: "slab_wf s \<Longrightarrow> length f = length (slab_flags s) \<Longrightarrow> slab_wf (s\<lparr>slab_flags := f\<rparr>)"
  by (simp add: slab_wf_def)

lemma unat_page_addr:
  assumes "slab_wf s" and "i \<le> length (slab_flags s)"
  shows "unat (page_addr s i) = unat (physical_memory_base s) + i * 4096"
proof -
  have b: "unat (physical_memory_base s) + i * 4096 < 2 ^ 64"
    using assms mult_le_mono1 [of i "length (slab_flags s)" 4096] by (simp add: slab_wf_def)
  then have "unat (of_nat i * PAGE_SIZE) = i * 4096"
    by (simp add: unat_word_ariths unat_of_nat)
  with b show ?thesis by (simp add: page_addr_def unat_word_ariths)
qed

lemma page_addr_inj:
  "slab_wf s \<Longrightarrow> i \<le> length (slab_flags s) \<Longrightarrow> j \<le> length (slab_flags s) \<Longrightarrow>
   page_addr s i = page_addr s j \<longleftrightarrow> i = j"
  using unat_page_addr [of s i] unat_page_addr [of s j]
  by (metis add_left_cancel mult_cancel2 zero_neq_numeral)

lemma page_addr_in_owned [simp]:
  "slab_wf s \<Longrightarrow> i < length (slab_flags s) \<Longrightarrow> page_addr s i \<in> owned s \<longleftrightarrow> slab_flags s ! i"
  by (auto simp: owned_def page_addr_inj)

lemma page_addr_aligned:
  assumes "slab_wf s" and "i < length (slab_flags s)"
  shows "page_addr s i mod PAGE_SIZE = 0"
proof -
  have "unat (page_addr s i) mod 4096 = 0"
    using assms unat_page_addr [OF assms(1) less_imp_le [OF assms(2)]] by (auto simp: slab_wf_def)
  then show ?thesis by (simp add: unat_arith_simps unat_mod)
qed

lemma page_index:
  assumes "slab_wf s" and "i < length (slab_flags s)"
  shows "unat ((page_addr s i - physical_memory_base s) div PAGE_SIZE) = i"
proof -
  have "page_addr s i - physical_memory_base s = of_nat i * PAGE_SIZE" by (simp add: page_addr_def)
  moreover have "unat (of_nat i * PAGE_SIZE) = i * 4096"
    using assms by (auto simp: slab_wf_def unat_word_ariths unat_of_nat)
  ultimately show ?thesis by (simp add: unat_div)
qed

lemma free4k_phys_page:
  assumes "slab_wf s" and "i < length (slab_flags s)"
  shows "free4k_phys (page_addr s i) s = Inr (s\<lparr>slab_flags := (slab_flags s)[i := False]\<rparr>)"
  using assms page_addr_aligned [OF assms] page_index [OF assms]
  by (simp add: free4k_phys_def flag_write_def)

lemma owned_update:
  assumes "slab_wf s" and "i < length (slab_flags s)"
  shows "owned (s\<lparr>slab_flags := (slab_flags s)[i := b]\<rparr>) =
         (if b then insert (page_addr s i) (owned s) else owned s - {page_addr s i})"
  using assms by (auto simp: owned_def nth_list_update page_addr_inj split: if_splits)

lemma pool_upd [simp]: "length f = length (slab_flags s) \<Longrightarrow> pool (s\<lparr>slab_flags := f\<rparr>) = pool s"
  by (simp add: pool_def)

lemma malloc4k_phys_cases:
  assumes "slab_wf s"
  obtains (found) i where "i < length (slab_flags s)" "\<not> slab_flags s ! i" "\<And>j. j < i \<Longrightarrow> slab_flags s ! j"
      "malloc4k_phys s = Inr (page_addr s i, s\<lparr>slab_flags := (slab_flags s)[i := True]\<rparr>)"
    | (full) "\<And>j. j < length (slab_flags s) \<Longrightarrow> slab_flags s ! j" "malloc4k_phys s = Inl HCF"
proof (cases "\<exists>i < length (slab_flags s). \<not> slab_flags s ! i")
  case True
  define i where "i = (LEAST i. i < length (slab_flags s) \<and> \<not> slab_flags s ! i)"
  from True have i: "i < length (slab_flags s)" "\<not> slab_flags s ! i"
    unfolding i_def by (metis (mono_tags, lifting) LeastI_ex)+
  moreover have before: "slab_flags s ! j" if "j < i" for j
    using that i(1) not_less_Least [of j] unfolding i_def by fastforce
  ultimately show ?thesis
    using assms by (intro found [of i]) (auto simp: malloc4k_phys_def slab_wf_def intro!: malloc4k_loop_finds)
next
  case False
  then show ?thesis
    using assms by (intro full) (auto simp: malloc4k_phys_def slab_wf_def intro!: malloc4k_loop_HCF)
qed

section \<open>The allocator contract\<close>

text \<open>
  What a client of a page allocator relies on: a page it receives was not handed out before,
  allocation fails (with \<open>HCF\<close>) only when every page is taken, and releasing a page it owns
  succeeds and returns exactly that page.
\<close>

locale page_allocator =
  fixes alloc :: "'s \<Rightarrow> (u64 \<times> 's) result"
    and release :: "u64 \<Rightarrow> 's \<Rightarrow> 's result"
    and handed_out :: "'s \<Rightarrow> u64 set"
    and pages :: "'s \<Rightarrow> u64 set"
    and good :: "'s \<Rightarrow> bool"
  assumes alloc_fresh: "good s \<Longrightarrow> alloc s = Inr (p, s') \<Longrightarrow>
      good s' \<and> p \<in> pages s - handed_out s \<and> handed_out s' = insert p (handed_out s) \<and> pages s' = pages s"
    and alloc_exhausted: "good s \<Longrightarrow> alloc s = Inl e \<Longrightarrow> e = HCF \<and> handed_out s = pages s"
    and release_ok: "good s \<Longrightarrow> p \<in> handed_out s \<Longrightarrow>
      \<exists>s'. release p s = Inr s' \<and> good s' \<and> handed_out s' = handed_out s - {p} \<and> pages s' = pages s"
begin

lemma alloc_succeeds:
  assumes "good s" and "handed_out s \<subset> pages s"
  obtains p s' where "alloc s = Inr (p, s')"
  using alloc_exhausted [OF assms(1)] assms(2) by (cases "alloc s") auto

lemma alloc_then_release:
  assumes "good s" and "alloc s = Inr (p, s1)"
  obtains s2 where "release p s1 = Inr s2" "good s2" "handed_out s2 = handed_out s" "pages s2 = pages s"
proof -
  from alloc_fresh [OF assms] have a: "good s1" "p \<notin> handed_out s" "handed_out s1 = insert p (handed_out s)"
    "pages s1 = pages s" by auto
  with release_ok [of s1 p] that show thesis by auto
qed

end

interpretation slab: page_allocator malloc4k_phys free4k_phys owned pool slab_wf
proof unfold_locales
  fix s p s'
  assume wf: "slab_wf s" and m: "malloc4k_phys s = Inr (p, s')"
  from wf show "slab_wf s' \<and> p \<in> pool s - owned s \<and> owned s' = insert p (owned s) \<and> pool s' = pool s"
  proof (cases rule: malloc4k_phys_cases)
    case (found i)
    with m wf show ?thesis
      by (auto simp: slab_wf_upd owned_update pool_def)
  next
    case full
    with m show ?thesis by simp
  qed
next
  fix s e
  assume wf: "slab_wf s" and m: "malloc4k_phys s = Inl e"
  from wf show "e = HCF \<and> owned s = pool s"
  proof (cases rule: malloc4k_phys_cases)
    case (found i)
    with m show ?thesis by simp
  next
    case full
    with m show ?thesis by (auto simp: owned_def pool_def)
  qed
next
  fix s p
  assume wf: "slab_wf s" and p: "p \<in> owned s"
  then obtain i where "i < length (slab_flags s)" "p = page_addr s i" by (auto simp: owned_def)
  with wf show "\<exists>s'. free4k_phys p s = Inr s' \<and> slab_wf s' \<and> owned s' = owned s - {p} \<and> pool s' = pool s"
    by (auto simp: free4k_phys_page slab_wf_upd owned_update)
qed

section \<open>Runs of pages\<close>

definition run_pages :: "u64 \<Rightarrow> nat \<Rightarrow> u64 set" where
  "run_pages p n = (\<lambda>k. p + of_nat k * PAGE_SIZE) ` {..<n}"

lemma run_pages_page_addr: "run_pages (page_addr s i) n = page_addr s ` {i..<i + n}"
proof -
  have "page_addr s i + of_nat k * PAGE_SIZE = page_addr s (i + k)" for k
    by (simp add: page_addr_def algebra_simps)
  then have "run_pages (page_addr s i) n = page_addr s ` ((+) i ` {..<n})"
    by (simp add: run_pages_def image_image)
  then show ?thesis by (simp add: lessThan_atLeast0 add.commute)
qed

lemma nth_mark_pages:
  assumes "i + n \<le> length (slab_flags s)" and "j < length (slab_flags s)"
  shows "slab_flags (mark_pages s i n b) ! j = (if i \<le> j \<and> j < i + n then b else slab_flags s ! j)"
  using assms by (auto simp: mark_pages_def nth_append min_def)

lemma length_mark_pages:
  "i + n \<le> length (slab_flags s) \<Longrightarrow> length (slab_flags (mark_pages s i n b)) = length (slab_flags s)"
  by (simp add: mark_pages_def)

lemma mark_pages_wf: "slab_wf s \<Longrightarrow> i + n \<le> length (slab_flags s) \<Longrightarrow> slab_wf (mark_pages s i n b)"
  by (simp add: slab_wf_def mark_pages_def)

lemma owned_mark_pages:
  assumes "slab_wf s" and "i + n \<le> length (slab_flags s)"
  shows "owned (mark_pages s i n b) =
     (if b then owned s \<union> run_pages (page_addr s i) n else owned s - run_pages (page_addr s i) n)"
proof (rule set_eqI)
  fix x
  have "x \<in> owned (mark_pages s i n b) \<longleftrightarrow>
    (\<exists>j < length (slab_flags s). x = page_addr s j \<and> (if i \<le> j \<and> j < i + n then b else slab_flags s ! j))"
    using nth_mark_pages [OF assms(2)] by (auto simp: owned_def length_mark_pages [OF assms(2)] image_iff)
  moreover have "x \<in> run_pages (page_addr s i) n \<longleftrightarrow>
    (\<exists>j < length (slab_flags s). x = page_addr s j \<and> i \<le> j \<and> j < i + n)"
    unfolding run_pages_page_addr image_iff Bex_def atLeastLessThan_iff
    using assms(2) order.strict_trans2 by blast
  moreover have "x \<in> owned s \<longleftrightarrow> (\<exists>j < length (slab_flags s). x = page_addr s j \<and> slab_flags s ! j)"
    by (auto simp: owned_def)
  ultimately show "x \<in> owned (mark_pages s i n b) \<longleftrightarrow>
    x \<in> (if b then owned s \<union> run_pages (page_addr s i) n else owned s - run_pages (page_addr s i) n)"
    using page_addr_inj [OF assms(1)] by (cases b) (auto split: if_splits dest: less_imp_le)
qed

lemma free_contiguous_loop_eq:
  assumes "slab_wf s" and "i + unat n \<le> length (slab_flags s)" and "k \<le> n"
  shows "free_contiguous_loop k n (page_addr s i) s =
    Inr (mark_pages s (i + unat k) (unat n - unat k) False)"
  using assms
proof (induction "unat n - unat k" arbitrary: k s)
  case 0
  then have "k = n" by (simp add: word_le_nat_alt word_unat_eq_iff)
  then show ?case by (simp add: free_contiguous_loop.simps [of n] mark_pages_def)
next
  case (Suc m)
  then have k: "k < n" by (simp add: word_less_nat_alt)
  have u: "unat (k + 1) = Suc (unat k)" by (rule unat_plus1_less [OF k])
  let ?j = "i + unat k"
  let ?s = "s\<lparr>slab_flags := (slab_flags s)[?j := False]\<rparr>"
  have j: "?j < length (slab_flags s)" using Suc.prems k by (simp add: word_less_nat_alt)
  have "page_addr s i + PAGE_SIZE * k = page_addr s ?j"
    by (simp add: page_addr_def algebra_simps)
  then have "free4k_phys (page_addr s i + PAGE_SIZE * k) s = Inr ?s"
    using free4k_phys_page [OF Suc.prems(1) j] by simp
  moreover have "free_contiguous_loop (k + 1) n (page_addr ?s i) ?s =
      Inr (mark_pages ?s (i + unat (k + 1)) (unat n - unat (k + 1)) False)"
    using Suc.prems Suc.hyps(2) u k
    by (intro Suc.hyps(1)) (auto simp: slab_wf_upd word_le_nat_alt word_less_nat_alt)
  moreover have "mark_pages ?s (i + unat (k + 1)) (unat n - unat (k + 1)) False =
      mark_pages s ?j (unat n - unat k) False"
    using k j u Suc_diff_Suc [of "unat k" "unat n"]
    by (simp add: mark_pages_def word_less_nat_alt take_Suc_conv_app_nth replicate_Suc [symmetric]
          del: replicate_Suc)
  ultimately show ?case using k by (simp add: free_contiguous_loop.simps [of k])
qed


lemma free_contiguous_phys_eq:
  assumes "slab_wf s" and "i + unat n \<le> length (slab_flags s)" and "n \<noteq> 0"
  shows "free_contiguous_phys (page_addr s i) n s = Inr (mark_pages s i (unat n) False)"
  using free_contiguous_loop_eq [OF assms(1,2), of 0] assms(3)
  by (simp add: free_contiguous_phys_def word_gt_0)

lemma first_run_found:
  assumes "first_run s n = Inr (p, s')"
  obtains i where "free_run s i n" "\<And>j. free_run s j n \<Longrightarrow> i \<le> j" "p = page_addr s i" "s' = mark_pages s i n True"
  using assms LeastI_ex [of "\<lambda>i. free_run s i n"] Least_le [of "\<lambda>i. free_run s i n"]
  by (auto simp: first_run_def Let_def split: if_splits)

section \<open>Executions of the allocator and their specification\<close>

text \<open>
  \<open>spec_step\<close> is the abstract allocator over the set of live pages; \<open>slab_step\<close> is one call of
  the code, where a caller frees only what it owns.
\<close>

datatype page_event = EvAlloc u64 | EvAllocRun u64 nat | EvFree u64 | EvFreeRun u64 nat

inductive spec_step :: "u64 set \<Rightarrow> page_event \<Rightarrow> u64 set \<Rightarrow> bool" where
  spec_alloc: "p \<notin> A \<Longrightarrow> spec_step A (EvAlloc p) (insert p A)"
| spec_alloc_run: "run_pages p n \<inter> A = {} \<Longrightarrow> spec_step A (EvAllocRun p n) (A \<union> run_pages p n)"
| spec_free: "p \<in> A \<Longrightarrow> spec_step A (EvFree p) (A - {p})"
| spec_free_run: "run_pages p n \<subseteq> A \<Longrightarrow> spec_step A (EvFreeRun p n) (A - run_pages p n)"

inductive slab_step :: "slab \<Rightarrow> page_event \<Rightarrow> slab \<Rightarrow> bool" where
  do_malloc4k: "malloc4k_phys s = Inr (p, s') \<Longrightarrow> slab_step s (EvAlloc p) s'"
| do_malloc_contiguous: "malloc_contiguous_phys n s = Inr (p, s') \<Longrightarrow> slab_step s (EvAllocRun p (unat n)) s'"
| do_free4k: "p \<in> owned s \<Longrightarrow> free4k_phys p s = Inr s' \<Longrightarrow> slab_step s (EvFree p) s'"
| do_free_contiguous: "run_pages p (unat n) \<subseteq> owned s \<Longrightarrow> n \<noteq> 0 \<Longrightarrow>
     free_contiguous_phys p n s = Inr s' \<Longrightarrow> slab_step s (EvFreeRun p (unat n)) s'"

lemma owned_run_index:
  assumes wf: "slab_wf s" and sub: "run_pages p n \<subseteq> owned s" and n: "0 < n"
  obtains i where "p = page_addr s i" "i + n \<le> length (slab_flags s)"
proof -
  let ?L = "length (slab_flags s)"
  from n have "p \<in> run_pages p n" by (force simp: run_pages_def intro: image_eqI [of _ _ 0])
  with sub obtain i where i: "i < ?L" "p = page_addr s i" by (auto simp: owned_def)
  have "i + k < ?L" if "k < n" for k
    using that
  proof (induction k)
    case 0
    with i show ?case by simp
  next
    case (Suc k)
    then have less: "i + k < ?L" by simp
    from Suc.prems have "page_addr s (i + Suc k) \<in> run_pages p n"
      unfolding i(2) run_pages_page_addr by auto
    with sub obtain j where j: "j < ?L" "page_addr s (i + Suc k) = page_addr s j" by (auto simp: owned_def)
    with page_addr_inj [OF wf, of "i + Suc k" j] less show ?case by auto
  qed
  from this [of "n - 1"] n i that show thesis by auto
qed


inductive_cases spec_allocE: "spec_step A (EvAlloc p) B"
inductive_cases spec_alloc_runE: "spec_step A (EvAllocRun p n) B"

lemma slab_step_refines:
  assumes "slab_step s e s'" and "slab_wf s"
  shows "slab_wf s' \<and> spec_step (owned s) e (owned s')"
  using assms
proof (induction rule: slab_step.induct)
  case (do_malloc4k s p s')
  then show ?case using slab.alloc_fresh [of s p s'] by (auto intro: spec_alloc)
next
  case (do_malloc_contiguous n s p s')
  then have "first_run s (unat n) = Inr (p, s')"
    by (auto simp: malloc_contiguous_phys_eq slab_wf_def split: if_splits)
  then obtain i where i: "free_run s i (unat n)" "p = page_addr s i" "s' = mark_pages s i (unat n) True"
    by (rule first_run_found)
  then have "run_pages p (unat n) \<inter> owned s = {}"
    using do_malloc_contiguous.prems by (auto simp: run_pages_page_addr free_run_def)
  with i do_malloc_contiguous.prems show ?case
    by (auto simp: mark_pages_wf owned_mark_pages free_run_def intro: spec_alloc_run)
next
  case (do_free4k p s s')
  then show ?case using slab.release_ok [of s p] by (auto intro: spec_free)
next
  case (do_free_contiguous p n s s')
  then obtain i where "p = page_addr s i" "i + unat n \<le> length (slab_flags s)"
    using owned_run_index [of s p "unat n"] by (auto simp: unat_gt_0)
  with do_free_contiguous show ?case
    by (auto simp: free_contiguous_phys_eq mark_pages_wf owned_mark_pages intro: spec_free_run)
qed

inductive slab_exec :: "slab \<Rightarrow> page_event list \<Rightarrow> slab \<Rightarrow> bool" where
  exec_nil: "slab_exec s [] s"
| exec_snoc: "slab_exec s es s' \<Longrightarrow> slab_step s' e s'' \<Longrightarrow> slab_exec s (es @ [e]) s''"

inductive spec_exec :: "u64 set \<Rightarrow> page_event list \<Rightarrow> u64 set \<Rightarrow> bool" where
  sexec_nil: "spec_exec A [] A"
| sexec_snoc: "spec_exec A es A' \<Longrightarrow> spec_step A' e A'' \<Longrightarrow> spec_exec A (es @ [e]) A''"

lemma slab_exec_refines_from:
  "slab_exec s es s' \<Longrightarrow> slab_wf s \<Longrightarrow> slab_wf s' \<and> spec_exec (owned s) es (owned s')"
proof (induction rule: slab_exec.induct)
  case (exec_nil s)
  then show ?case by (auto intro: spec_exec.intros)
next
  case (exec_snoc s es s' e s'')
  with slab_step_refines [of s' e s''] show ?case by (auto intro: spec_exec.intros)
qed

lemma round_up_pages_unat:
  "unat n + 4095 < 2 ^ 64 \<Longrightarrow> unat (round_up_pages n) = (unat n + 4095) div 4096"
  by (simp add: round_up_pages_def unat_div unat_word_ariths)

lemma init_physical_memory_facts:
  assumes "unat base_phys mod 4096 = 0" and "unat base_phys + unat mem_size < 2 ^ 64"
  defines "s \<equiv> init_physical_memory base_phys mem_size"
  shows "slab_wf s" and "owned s = {}"
    and "unat (physical_memory_base s) + unat (physical_memory_pages s) * 4096 \<le> unat base_phys + unat mem_size"
    and "unat base_phys + length (slab_flags s) \<le> unat (physical_memory_base s)"
proof -
  define T where "T = unat mem_size div 4096"
  define R where "R = (T + 4095) div 4096"
  have t: "unat (mem_size div PAGE_SIZE) = T" by (simp add: unat_div T_def)
  have T: "T < 2 ^ 52" using unsigned_less [of mem_size, where ?'a = nat] by (simp add: T_def)
  have r: "unat (round_up_pages (mem_size div PAGE_SIZE)) = R"
    using T by (subst round_up_pages_unat) (simp_all add: t R_def)
  have R: "R \<le> T" "T \<le> R * 4096" by (simp_all add: R_def)
  have fit: "R * 4096 + (T - R) * 4096 \<le> unat mem_size"
    using R(1) by (simp add: T_def flip: add_mult_distrib)
  have pages: "physical_memory_pages s = mem_size div PAGE_SIZE - round_up_pages (mem_size div PAGE_SIZE)"
    and base: "physical_memory_base s = base_phys + round_up_pages (mem_size div PAGE_SIZE) * PAGE_SIZE"
    and flags: "slab_flags s = replicate (unat (physical_memory_pages s)) False"
    by (simp_all add: s_def init_physical_memory_def Let_def)
  have p: "unat (physical_memory_pages s) = T - R"
    unfolding pages by (subst unat_sub) (simp_all add: word_le_nat_alt t r R)
  have b: "unat (physical_memory_base s) = unat base_phys + R * 4096"
    using assms(2) fit by (simp add: base unat_word_ariths r)
  show "slab_wf s" using assms(1,2) fit by (simp add: slab_wf_def flags p b)
  show "owned s = {}" by (simp add: owned_def flags)
  show "unat (physical_memory_base s) + unat (physical_memory_pages s) * 4096 \<le> unat base_phys + unat mem_size"
    using fit by (simp add: p b)
  show "unat base_phys + length (slab_flags s) \<le> unat (physical_memory_base s)"
    using R by (simp add: flags p b)
qed


section \<open>Properties\<close>

text \<open>C33. First fit. On a well-formed allocator \<open>malloc_contiguous_phys\<close> halts on a request of zero
  pages and otherwise returns the lowest run of free pages of the requested length, marking
  exactly those pages as used; it halts exactly when no such run exists.\<close>

theorem malloc_contiguous_first_fit:
  assumes "slab_wf s"
  shows "malloc_contiguous_phys n s = (if n = 0 then Inl HCF else first_run s (unat n))"
  using assms by (intro malloc_contiguous_phys_eq) (simp add: slab_wf_def)

theorem malloc_contiguous_first_fit_witness:
  "let s = \<lparr>physical_memory_base = 8192, physical_memory_pages = 4, slab_flags = [False, True, False, False]\<rparr>
   in slab_wf s \<and> malloc_contiguous_phys 2 s = first_run s 2 \<and>
      malloc_contiguous_phys 2 s = Inr (16384, s\<lparr>slab_flags := [False, True, True, True]\<rparr>)"
proof -
  let ?s = "\<lparr>physical_memory_base = 8192, physical_memory_pages = 4, slab_flags = [False, True, False, False]\<rparr>"
  have wf: "slab_wf ?s" by (simp add: slab_wf_def)
  have "malloc_contiguous_phys 2 ?s = Inr (16384, ?s\<lparr>slab_flags := [False, True, True, True]\<rparr>)"
    by (simp add: malloc_contiguous_phys_def contiguous_loop.simps mark_run.simps flag_read_def flag_write_def)
  with wf malloc_contiguous_first_fit [OF wf, of 2] show ?thesis by (simp add: Let_def)
qed

text \<open>C8. Live pages are never handed out twice. From the state \<open>init_physical_memory\<close> builds, every
  sequence of allocations and of frees by the owner is an execution of the abstract allocator
  over the set of live pages: each page returned by \<open>malloc4k_phys\<close> or inside a run returned by
  \<open>malloc_contiguous_phys\<close> was not live, and frees remove exactly the freed pages.\<close>

theorem slab_exec_refines:
  assumes "unat base_phys mod 4096 = 0" and "unat base_phys + unat mem_size < 2 ^ 64"
    and "slab_exec (init_physical_memory base_phys mem_size) es s'"
  shows "slab_wf s' \<and> spec_exec {} es (owned s')"
  using slab_exec_refines_from [OF assms(3)] init_physical_memory_facts(1,2) [OF assms(1,2)] by simp

theorem slab_exec_refines_witness:
  "\<exists>s'. slab_exec (init_physical_memory 4096 16384) [EvAlloc 8192, EvAlloc 12288, EvFree 8192] s' \<and>
     slab_wf s' \<and> spec_exec {} [EvAlloc 8192, EvAlloc 12288, EvFree 8192] (owned s')"
proof -
  let ?s = "\<lambda>f. \<lparr>physical_memory_base = 8192, physical_memory_pages = 3, slab_flags = f\<rparr>"
  let ?i = "init_physical_memory 4096 16384"
  have i: "?i = ?s [False, False, False]"
    by (simp add: init_physical_memory_def round_up_pages_def Let_def) (simp add: numeral_3_eq_3)
  have 1: "slab_step ?i (EvAlloc 8192) (?s [True, False, False])"
    unfolding i by (rule do_malloc4k)
      (simp add: malloc4k_phys_def malloc4k_loop.simps flag_read_def flag_write_def)
  have 2: "slab_step (?s [True, False, False]) (EvAlloc 12288) (?s [True, True, False])"
    by (rule do_malloc4k) (simp add: malloc4k_phys_def malloc4k_loop.simps flag_read_def flag_write_def)
  have 3: "slab_step (?s [True, True, False]) (EvFree 8192) (?s [False, True, False])"
  proof (rule do_free4k)
    show "8192 \<in> owned (?s [True, True, False])"
      by (force simp: owned_def page_addr_def intro: image_eqI [of _ _ 0])
  qed (simp add: free4k_phys_def flag_write_def)
  have "slab_exec ?i ((([] @ [EvAlloc 8192]) @ [EvAlloc 12288]) @ [EvFree 8192]) (?s [False, True, False])"
    by (intro exec_snoc [OF exec_snoc [OF exec_snoc [OF exec_nil 1] 2] 3])
  then have e: "slab_exec ?i [EvAlloc 8192, EvAlloc 12288, EvFree 8192] (?s [False, True, False])" by simp
  from slab_exec_refines [OF _ _ e] e show ?thesis by auto
qed

text \<open>Initialisation. For a page-aligned region below the end of the address space the
  allocator starts well formed with no live page, its pages stay inside the region, and the flag
  bytes end before the first allocatable page.\<close>

theorem init_physical_memory_ok:
  assumes "unat base_phys mod 4096 = 0" and "unat base_phys + unat mem_size < 2 ^ 64"
  shows "let s = init_physical_memory base_phys mem_size in
    slab_wf s \<and> owned s = {} \<and>
    unat (physical_memory_base s) + unat (physical_memory_pages s) * 4096 \<le> unat base_phys + unat mem_size \<and>
    unat base_phys + length (slab_flags s) \<le> unat (physical_memory_base s)"
  using init_physical_memory_facts [OF assms] by (simp add: Let_def)

theorem init_physical_memory_ok_witness:
  "let s = init_physical_memory 4096 16384 in slab_wf s \<and> owned s = {} \<and> length (slab_flags s) = 3"
  using init_physical_memory_ok [of 4096 16384]
  by (simp add: Let_def) (simp add: init_physical_memory_def round_up_pages_def Let_def)

end
