(* ===== verification/Paging.thy ===== *)
theory Paging
  imports Phys_Slab "HOL-Library.Sublist"
begin

text \<open>
  Four-level paging (\<open>stuos/src/memory.c\<close>).

  Physical memory is viewed as a function from the physical address of an aligned 64-bit unit to
  the \<open>PageTableEntry\<close> that the unit encodes; the record lists every bit field of the structure, so
  the view loses nothing. The kernel reaches physical memory through the higher-half direct map:
  a pointer is a physical address plus \<open>hhdm_offset\<close>. The registers and static variables that the
  routines use (\<open>CR3\<close>, \<open>hhdm_offset\<close>, \<open>mmio_start\<close>, \<open>original_kernel_page_table\<close> and the page allocator)
  are the record \<open>mmu\<close>. The \<open>invlpg\<close> instruction issued by \<open>invalidate_page\<close> has no effect on this
  state, which has no translation cache.
\<close>

section \<open>Data\<close>

record PageTableEntry =
  pte_present :: bool
  pte_read_write :: bool
  pte_user :: bool
  pte_pwt :: bool
  pte_pcd :: bool
  pte_accessed :: bool
  pte_dirty :: bool
  pte_huge :: bool
  pte_global :: bool
  pte_ignored1 :: "3 word"
  pte_addr :: "40 word"
  pte_ignored2 :: "11 word"
  pte_nx :: bool

record PointerBitmap =
  pb_page_offset :: "12 word"
  pb_pt_index :: "9 word"
  pb_pd_index :: "9 word"
  pb_pdpt_index :: "9 word"
  pb_pml4_index :: "9 word"
  pb_sign_extension :: "16 word"

definition pointer_bitmap :: "u64 \<Rightarrow> PointerBitmap" where
  "pointer_bitmap raw_ptr = \<lparr>pb_page_offset = ucast raw_ptr, pb_pt_index = ucast (drop_bit 12 raw_ptr),
     pb_pd_index = ucast (drop_bit 21 raw_ptr), pb_pdpt_index = ucast (drop_bit 30 raw_ptr),
     pb_pml4_index = ucast (drop_bit 39 raw_ptr), pb_sign_extension = ucast (drop_bit 48 raw_ptr)\<rparr>"

definition raw_ptr :: "PointerBitmap \<Rightarrow> u64" where
  "raw_ptr b = ucast (pb_page_offset b) OR push_bit 12 (ucast (pb_pt_index b)) OR
     push_bit 21 (ucast (pb_pd_index b)) OR push_bit 30 (ucast (pb_pdpt_index b)) OR
     push_bit 39 (ucast (pb_pml4_index b)) OR push_bit 48 (ucast (pb_sign_extension b))"

record mmu =
  mm_pm :: "u64 \<Rightarrow> PageTableEntry"
  mm_cr3 :: u64
  mm_hhdm_offset :: u64
  mm_mmio_start :: u64
  mm_original_kernel_page_table :: u64
  mm_slab :: slab

section \<open>Operations\<close>

definition phys_to_hhdm :: "mmu \<Rightarrow> u64 \<Rightarrow> u64" where
  "phys_to_hhdm st phys = phys + mm_hhdm_offset st"

text \<open>Access to an entry through a direct-map pointer.\<close>

definition load_pte :: "mmu \<Rightarrow> u64 \<Rightarrow> PageTableEntry" where
  "load_pte st p = mm_pm st (p - mm_hhdm_offset st)"

definition store_pte :: "u64 \<Rightarrow> PageTableEntry \<Rightarrow> mmu \<Rightarrow> mmu" where
  "store_pte p e st = st\<lparr>mm_pm := (mm_pm st)(p - mm_hhdm_offset st := e)\<rparr>"

text \<open>
  The expression \<open>e->addr << 12\<close>. The shift is taken at the width of \<open>uint64_t\<close>, the declared type of the
  bit field; a compiler that computes it at the 40 bits of the field gives the same value for every
  physical address below \<open>2 ^ 40\<close>.
\<close>

definition frame :: "PageTableEntry \<Rightarrow> u64" where
  "frame e = push_bit 12 (ucast (pte_addr e))"

definition elem :: "u64 \<Rightarrow> 9 word \<Rightarrow> u64" where
  "elem base i = base + 8 * ucast i"

definition get_pml4_virt :: "mmu \<Rightarrow> u64" where
  "get_pml4_virt st = phys_to_hhdm st (mm_cr3 st)"

definition get_page_table_child :: "mmu \<Rightarrow> u64 \<Rightarrow> int \<Rightarrow> u64 result" where
  "get_page_table_child st parent n =
     (let child_arr_phys = frame (load_pte st parent) in
      if \<not> pte_present (load_pte st parent) then Inl HCF
      else if n < 0 \<or> n \<ge> 512 then Inl HCF
      else Inr (phys_to_hhdm st child_arr_phys + 8 * of_int n))"

definition clear_entry :: "u64 \<Rightarrow> nat \<Rightarrow> mmu \<Rightarrow> mmu" where
  "clear_entry base i st = store_pte (base + 8 * of_nat i)
     ((load_pte st (base + 8 * of_nat i))\<lparr>pte_present := False, pte_addr := 0\<rparr>) st"

definition setup_page_table_entry :: "u64 \<Rightarrow> mmu \<Rightarrow> mmu result" where
  "setup_page_table_entry parent st =
     (if pte_present (load_pte st parent) then Inl HCF else
      rbind (malloc4k_phys (mm_slab st)) (\<lambda>(new_entry_phys, sl).
        let st1 = st\<lparr>mm_slab := sl\<rparr>;
            st2 = fold (clear_entry (phys_to_hhdm st1 new_entry_phys)) [0..<512] st1
        in Inr (store_pte parent ((load_pte st2 parent)\<lparr>pte_global := False,
             pte_addr := ucast (drop_bit 12 new_entry_phys), pte_huge := False, pte_pcd := False,
             pte_pwt := True, pte_user := True, pte_read_write := True, pte_present := True,
             pte_nx := False\<rparr>) st2)))"

definition fill_kernel_pml4 :: "mmu \<Rightarrow> mmu result" where
  "fill_kernel_pml4 st =
     (let pml4_base = mm_cr3 st + mm_hhdm_offset st in
      rfold (\<lambda>i st. let my_pml4 = pml4_base + 8 * of_nat i in
         if pte_present (load_pte st my_pml4) then Inr st
         else setup_page_table_entry my_pml4 st) [256..<512] st)"

text \<open>
  \<open>map_page\<close> descends three levels the same way: take the entry with the level's index in the table,
  and give it a table if it has none.
\<close>

definition descend :: "u64 \<Rightarrow> 9 word \<Rightarrow> mmu \<Rightarrow> (u64 \<times> mmu) result" where
  "descend base i st =
     (let my_entry = elem (phys_to_hhdm st base) i in
      rbind (if \<not> pte_present (load_pte st my_entry) then setup_page_table_entry my_entry st else Inr st)
        (\<lambda>st. Inr (frame (load_pte st my_entry), st)))"

definition map_page :: "u64 \<Rightarrow> u64 \<Rightarrow> bool \<Rightarrow> bool \<Rightarrow> mmu \<Rightarrow> mmu result" where
  "map_page physical_addr virtual_addr can_cache can_execute st =
     (let b = pointer_bitmap virtual_addr in
      if pb_page_offset b \<noteq> 0 then Inl HCF else
      rbind (descend (mm_cr3 st) (pb_pml4_index b) st) (\<lambda>(pdpt_base, st).
      rbind (descend pdpt_base (pb_pdpt_index b) st) (\<lambda>(pd_base, st).
      rbind (descend pd_base (pb_pd_index b) st) (\<lambda>(pt_base, st).
      let my_pt = elem (phys_to_hhdm st pt_base) (pb_pt_index b) in
      if pte_present (load_pte st my_pt) then Inl HCF
      else if physical_addr AND 0xFFF \<noteq> 0 then Inl HCF
      else Inr (store_pte my_pt ((load_pte st my_pt)\<lparr>pte_global := False,
             pte_addr := ucast (drop_bit 12 physical_addr), pte_huge := False, pte_pcd := \<not> can_cache,
             pte_pwt := True, pte_user := True, pte_read_write := True, pte_present := True,
             pte_nx := \<not> can_execute\<rparr>) st)))))"

text \<open>
  The loop of \<open>setup_mmio\<close> compares \<open>i\<close> with \<open>phys_addr + size\<close>, both modulo \<open>2 ^ 64\<close>; \<open>None\<close> would be a
  loop that never ends.
\<close>

partial_function (option) setup_mmio_loop :: "u64 \<Rightarrow> u64 \<Rightarrow> mmu \<Rightarrow> mmu result option" where
  "setup_mmio_loop i stop st =
     (if i < stop then
        (case map_page i (mm_mmio_start st) False False st of
           Inl f \<Rightarrow> Some (Inl f)
         | Inr st' \<Rightarrow> setup_mmio_loop (i + PAGE_SIZE) stop (st'\<lparr>mm_mmio_start := mm_mmio_start st' + PAGE_SIZE\<rparr>))
      else Some (Inr st))"

definition setup_mmio :: "u64 \<Rightarrow> u64 \<Rightarrow> mmu \<Rightarrow> (u64 \<times> mmu) result" where
  "setup_mmio phys_addr len st =
     (if phys_addr AND 0xFFF \<noteq> 0 then Inl HCF
      else if mm_mmio_start st AND 0xFFF \<noteq> 0 then Inl HCF
      else case setup_mmio_loop phys_addr (phys_addr + len) st of
             None \<Rightarrow> Inl Diverged
           | Some r \<Rightarrow> rbind r (\<lambda>st'. Inr (mm_mmio_start st, st')))"

definition allocate_ram_page :: "u64 \<Rightarrow> bool \<Rightarrow> mmu \<Rightarrow> mmu result" where
  "allocate_ram_page virtual_addr can_execute st =
     rbind (malloc4k_phys (mm_slab st)) (\<lambda>(new_page_phys, sl).
       map_page new_page_phys virtual_addr True can_execute (st\<lparr>mm_slab := sl\<rparr>))"

definition present_child :: "u64 \<Rightarrow> 9 word \<Rightarrow> mmu \<Rightarrow> u64 result" where
  "present_child base i st =
     (let my_entry = elem (phys_to_hhdm st base) i in
      if \<not> pte_present (load_pte st my_entry) then Inl HCF else Inr (frame (load_pte st my_entry)))"

definition deallocate_page :: "u64 \<Rightarrow> mmu \<Rightarrow> mmu result" where
  "deallocate_page virtual_addr st =
     (let b = pointer_bitmap virtual_addr in
      if pb_page_offset b \<noteq> 0 then Inl HCF else
      rbind (present_child (mm_cr3 st) (pb_pml4_index b) st) (\<lambda>pdpt_base.
      rbind (present_child pdpt_base (pb_pdpt_index b) st) (\<lambda>pd_base.
      rbind (present_child pd_base (pb_pd_index b) st) (\<lambda>pt_base.
      rbind (present_child pt_base (pb_pt_index b) st) (\<lambda>page_phys.
      let my_pt = elem (phys_to_hhdm st pt_base) (pb_pt_index b) in
      rbind (free4k_phys page_phys (mm_slab st)) (\<lambda>sl.
      Inr (store_pte my_pt ((load_pte st my_pt)\<lparr>pte_present := False\<rparr>) (st\<lparr>mm_slab := sl\<rparr>))))))))"

section \<open>Address translation\<close>

text \<open>
  What the processor does with a virtual address: follow the present, non-huge entries of three
  levels (\<open>twalk\<close>) and read the fourth (\<open>leaf\<close>).
\<close>

type_synonym pmem = "u64 \<Rightarrow> PageTableEntry"

definition links :: "PageTableEntry \<Rightarrow> bool" where
  "links e \<longleftrightarrow> pte_present e \<and> \<not> pte_huge e"

fun twalk :: "pmem \<Rightarrow> u64 \<Rightarrow> 9 word list \<Rightarrow> u64 option" where
  "twalk pm t [] = Some t"
| "twalk pm t (i # is) = (if links (pm (elem t i)) then twalk pm (frame (pm (elem t i))) is else None)"

definition leaf :: "pmem \<Rightarrow> u64 \<Rightarrow> 9 word list \<Rightarrow> 9 word \<Rightarrow> u64 option" where
  "leaf pm t p i = (case twalk pm t p of None \<Rightarrow> None
     | Some pt \<Rightarrow> if pte_present (pm (elem pt i)) then Some (frame (pm (elem pt i))) else None)"

definition translate :: "mmu \<Rightarrow> u64 \<Rightarrow> u64 option" where
  "translate st v = (let b = pointer_bitmap v in
     leaf (mm_pm st) (mm_cr3 st) [pb_pml4_index b, pb_pdpt_index b, pb_pd_index b] (pb_pt_index b))"

section \<open>Address spaces\<close>

definition copy_page :: "u64 \<Rightarrow> u64 \<Rightarrow> mmu \<Rightarrow> mmu" where
  "copy_page dst src st = st\<lparr>mm_pm := \<lambda>a. if a - dst < PAGE_SIZE then mm_pm st (src + (a - dst)) else mm_pm st a\<rparr>"

definition generate_clean_virtual_addressing :: "mmu \<Rightarrow> (u64 \<times> mmu) result" where
  "generate_clean_virtual_addressing st =
     rbind (malloc4k_phys (mm_slab st)) (\<lambda>(pml4_phys, sl).
       let st1 = st\<lparr>mm_slab := sl\<rparr>;
           pml4_hhdm = phys_to_hhdm st1 pml4_phys;
           st2 = copy_page pml4_phys (mm_original_kernel_page_table st1 - mm_hhdm_offset st1) st1
       in rbind (rfold (\<lambda>i st. if pte_present (load_pte st pml4_hhdm) then Inl HCF else Inr st) [0..<256] st2)
            (\<lambda>st3. Inr (pml4_phys, st3)))"

type_synonym leaf_callback = "u64 \<Rightarrow> u64 \<Rightarrow> bool \<Rightarrow> mmu \<Rightarrow> mmu result"
type_synonym table_callback = "u64 \<Rightarrow> mmu \<Rightarrow> mmu result"

definition user_ptr :: "nat \<Rightarrow> nat \<Rightarrow> nat \<Rightarrow> nat \<Rightarrow> u64" where
  "user_ptr pml4_idx pdpt_idx pd_idx pt_idx = raw_ptr \<lparr>pb_page_offset = 0, pb_pt_index = of_nat pt_idx,
     pb_pd_index = of_nat pd_idx, pb_pdpt_index = of_nat pdpt_idx, pb_pml4_index = of_nat pml4_idx,
     pb_sign_extension = 0\<rparr>"

text \<open>One level of the walk: the children of the table that \<open>parent\<close> points to.\<close>

definition for_children :: "u64 \<Rightarrow> (nat \<Rightarrow> u64 \<Rightarrow> mmu \<Rightarrow> mmu result) \<Rightarrow> mmu \<Rightarrow> mmu result" where
  "for_children parent body = rfold (\<lambda>idx st.
     rbind (get_page_table_child st parent (int idx)) (\<lambda>child.
       if \<not> pte_present (load_pte st child) then Inr st else body idx child st)) [0..<512]"

definition walk_virtual_tree :: "u64 \<Rightarrow> leaf_callback \<Rightarrow> table_callback \<Rightarrow> mmu \<Rightarrow> mmu result" where
  "walk_virtual_tree page_table_phys leaf_callback table_entry_callback st0 =
     (let pml4_table = phys_to_hhdm st0 page_table_phys in
      rbind (rfold (\<lambda>pml4_idx st.
        let pml4 = pml4_table + 8 * of_nat pml4_idx in
        if \<not> pte_present (load_pte st pml4) then Inr st else
        rbind (for_children pml4 (\<lambda>pdpt_idx pdpt st.
          rbind (for_children pdpt (\<lambda>pd_idx pd st.
            rbind (for_children pd (\<lambda>pt_idx pt st.
              leaf_callback (user_ptr pml4_idx pdpt_idx pd_idx pt_idx) (frame (load_pte st pt))
                (\<not> pte_nx (load_pte st pt)) st) st)
              (\<lambda>st. table_entry_callback (frame (load_pte st pd)) st)) st)
            (\<lambda>st. table_entry_callback (frame (load_pte st pdpt)) st)) st)
          (\<lambda>st. table_entry_callback (frame (load_pte st pml4)) st)) [0..<256] st0)
        (table_entry_callback page_table_phys))"

text \<open>The 64-bit unit that \<open>memset(virt, 0xEE, PAGE_SIZE)\<close> leaves everywhere in a page.\<close>

definition pte_EE :: PageTableEntry where
  "pte_EE = \<lparr>pte_present = False, pte_read_write = True, pte_user = True, pte_pwt = True, pte_pcd = False,
     pte_accessed = True, pte_dirty = True, pte_huge = True, pte_global = False, pte_ignored1 = 7,
     pte_addr = 0xEEEEEEEEEE, pte_ignored2 = 0x6EE, pte_nx = True\<rparr>"

definition leaf_callback_remove_page :: leaf_callback where
  "leaf_callback_remove_page virt phys can_execute st =
     rbind (free4k_phys phys (mm_slab st)) (\<lambda>sl.
       Inr (st\<lparr>mm_slab := sl, mm_pm := \<lambda>a. if a - phys < PAGE_SIZE then pte_EE else mm_pm st a\<rparr>))"

definition table_entry_callback_remove_page :: table_callback where
  "table_entry_callback_remove_page phys st =
     rbind (free4k_phys phys (mm_slab st)) (\<lambda>sl. Inr (st\<lparr>mm_slab := sl\<rparr>))"

definition remove_virtual_addressing :: "mmu \<Rightarrow> mmu result" where
  "remove_virtual_addressing st =
     (let tree_root_phys = mm_cr3 st in
      walk_virtual_tree tree_root_phys leaf_callback_remove_page table_entry_callback_remove_page
        (st\<lparr>mm_cr3 := mm_original_kernel_page_table st - mm_hhdm_offset st\<rparr>))"

definition leaf_callback_clone_page :: leaf_callback where
  "leaf_callback_clone_page virt phys can_execute st =
     rbind (allocate_ram_page virt can_execute st) (\<lambda>st1.
       case translate st1 virt of None \<Rightarrow> Inl WildAccess | Some dst \<Rightarrow> Inr (copy_page dst phys st1))"

definition table_entry_callback_do_nothing :: table_callback where
  "table_entry_callback_do_nothing phys st = Inr st"

definition clone_virtual_addressing :: "u64 \<Rightarrow> mmu \<Rightarrow> (u64 \<times> mmu) result" where
  "clone_virtual_addressing original_root_phys st =
     rbind (generate_clean_virtual_addressing st) (\<lambda>(result, st1).
     rbind (walk_virtual_tree original_root_phys leaf_callback_clone_page table_entry_callback_do_nothing
              (st1\<lparr>mm_cr3 := result\<rparr>)) (\<lambda>st2.
       Inr (result, st2\<lparr>mm_cr3 := original_root_phys\<rparr>)))"

section \<open>Segment descriptors\<close>

record GdtEntry =
  gdt_limit_low :: "16 word"
  gdt_base_low :: "24 word"
  gdt_accessed :: bool
  gdt_read_write :: bool
  gdt_conforming_expand_down :: bool
  gdt_code :: bool
  gdt_code_data_segment :: bool
  gdt_DPL :: "2 word"
  gdt_present :: bool
  gdt_limit_high :: "4 word"
  gdt_available :: bool
  gdt_long_mode :: bool
  gdt_big :: bool
  gdt_gran :: bool
  gdt_base_high :: "8 word"

definition generate_gdt_entry :: "bool \<Rightarrow> u32 \<Rightarrow> GdtEntry" where
  "generate_gdt_entry is_code privilege_level = \<lparr>gdt_limit_low = 0, gdt_base_low = 0, gdt_accessed = False,
     gdt_read_write = True, gdt_conforming_expand_down = False, gdt_code = is_code,
     gdt_code_data_segment = True, gdt_DPL = ucast privilege_level, gdt_present = True,
     gdt_limit_high = 0, gdt_available = False, gdt_long_mode = is_code, gdt_big = \<not> is_code,
     gdt_gran = True, gdt_base_high = 0\<rparr>"

record TssEntry =
  tss_reserved0 :: u32
  tss_rsp0 :: u64
  tss_rsp1 :: u64
  tss_rsp2 :: u64
  tss_reserved1 :: u64
  tss_ist1 :: u64
  tss_ist2 :: u64
  tss_ist3 :: u64
  tss_ist4 :: u64
  tss_ist5 :: u64
  tss_ist6 :: u64
  tss_ist7 :: u64
  tss_reserved2 :: u64
  tss_reserved3 :: u16
  tss_iomap_base :: u16

record TssDescriptor =
  td_limit_low :: u16
  td_base_low :: u16
  td_base_middle :: u8
  td_type :: "4 word"
  td_zero :: bool
  td_dpl :: "2 word"
  td_present :: bool
  td_limit_high :: "4 word"
  td_available :: bool
  td_zero2 :: "2 word"
  td_granularity :: bool
  td_base_high :: u8
  td_base_upper :: u32
  td_reserved :: u32

abbreviation sizeof_TssEntry :: u32 where "sizeof_TssEntry \<equiv> 104"

definition init_tss_descriptor :: "u64 \<Rightarrow> TssDescriptor" where
  "init_tss_descriptor tss_base = (let tss_limit = sizeof_TssEntry - 1 in
     \<lparr>td_limit_low = ucast (tss_limit AND 0xFFFF), td_base_low = ucast (tss_base AND 0xFFFF),
      td_base_middle = ucast (drop_bit 16 tss_base AND 0xFF), td_type = 9, td_zero = False, td_dpl = 0,
      td_present = True, td_limit_high = ucast (drop_bit 16 tss_limit AND 0xF), td_available = False,
      td_zero2 = 0, td_granularity = False, td_base_high = ucast (drop_bit 24 tss_base AND 0xFF),
      td_base_upper = ucast (drop_bit 32 tss_base AND 0xFFFFFFFF), td_reserved = 0\<rparr>)"

text \<open>The 64-bit base that the processor reads back from a descriptor.\<close>

definition td_base :: "TssDescriptor \<Rightarrow> u64" where
  "td_base d = ucast (td_base_low d) OR push_bit 16 (ucast (td_base_middle d)) OR
     push_bit 24 (ucast (td_base_high d)) OR push_bit 32 (ucast (td_base_upper d))"

section \<open>Page-table trees\<close>

lemma twalk_append:
  "twalk pm t (p @ q) = (case twalk pm t p of None \<Rightarrow> None | Some u \<Rightarrow> twalk pm u q)"
  by (induction p arbitrary: t) auto

lemma twalk_snoc:
  "twalk pm t (p @ [i]) = (case twalk pm t p of None \<Rightarrow> None
     | Some u \<Rightarrow> if links (pm (elem u i)) then Some (frame (pm (elem u i))) else None)"
  by (auto simp: twalk_append split: option.splits)

definition page_aligned :: "u64 \<Rightarrow> bool" where
  "page_aligned a \<longleftrightarrow> unat a mod 4096 = 0"

lemma page_aligned_take_bit: "page_aligned a \<longleftrightarrow> take_bit 12 a = 0"
proof -
  have "unat (take_bit 12 a) = unat a mod 4096" by (simp add: unsigned_take_bit_eq) (simp add: take_bit_eq_mod)
  then show ?thesis by (metis page_aligned_def unsigned_0 unsigned_eq_0_iff)
qed

lemma frame_aligned [simp]: "page_aligned (frame e)"
  by (simp add: page_aligned_take_bit frame_def take_bit_push_bit)

lemma twalk_aligned: "page_aligned t \<Longrightarrow> twalk pm t p = Some u \<Longrightarrow> page_aligned u"
  by (induction p arbitrary: t) (auto split: if_splits intro: frame_aligned)

lemma frame_roundtrip:
  assumes "phys < 2 ^ 52" "page_aligned phys"
  shows "push_bit 12 (ucast (ucast (drop_bit 12 phys) :: 40 word)) = phys"
proof -
  have t: "take_bit 12 phys = 0" using assms(2) by (simp add: page_aligned_take_bit)
  have h: "take_bit 52 phys = phys" using assms(1) by (simp add: take_bit_eq_mask less_mask_eq)
  have hi: "bit phys n \<Longrightarrow> n < 52" for n using bit_take_bit_iff [of 52 phys n] h by simp
  have lo: "bit phys n \<Longrightarrow> 12 \<le> n" for n using bit_take_bit_iff [of 12 phys n] t by (auto simp: not_less)
  show ?thesis
  proof (rule bit_word_eqI)
    fix n assume "n < LENGTH(64)"
    then show "bit (push_bit 12 (ucast (ucast (drop_bit 12 phys) :: 40 word)) :: u64) n = bit phys n"
      using hi [of n] lo [of n] by (auto simp: bit_simps)
  qed
qed

text \<open>Entries of different tables, and different entries of a table, have different addresses.\<close>

lemma unat_elem:
  assumes "page_aligned t"
  shows "unat (elem t i) = unat t + 8 * unat i"
proof -
  have i: "unat i < 512" using unsigned_less [of i, where ?'a = nat] by simp
  have u: "unat (8 * ucast i :: u64) = 8 * unat i"
    using i by (simp add: unat_word_ariths unsigned_ucast_eq take_bit_nat_eq_self)
  obtain k where k: "unat t = 4096 * k" using assms by (auto simp: page_aligned_def)
  have "4096 * k < 4096 * 2 ^ 52" using unsigned_less [of t, where ?'a = nat] k by simp
  then have "k + 1 \<le> 2 ^ 52" by simp
  then have "unat t + 4096 \<le> 2 ^ 64" using k by simp
  then show ?thesis unfolding elem_def using u i by (subst unat_add64) auto
qed

lemma same_page:
  fixes a b x y :: nat
  assumes "4096 * a + x = 4096 * b + y" "x < 4096" "y < 4096"
  shows "a = b"
  using assms by (cases a b rule: linorder_cases) (auto dest!: less_imp_Suc_add)

lemma elem_eq_iff:
  assumes "page_aligned t" "page_aligned u"
  shows "elem t i = elem u j \<longleftrightarrow> t = u \<and> i = j"
proof
  assume eq: "elem t i = elem u j"
  have "4096 dvd unat t" "4096 dvd unat u" using assms by (simp_all add: page_aligned_def dvd_eq_mod_eq_0)
  then obtain a b where ab: "unat t = 4096 * a" "unat u = 4096 * b" by (elim dvdE)
  have ij: "8 * unat i < 4096" "8 * unat j < 4096"
    using unsigned_less [of i, where ?'a = nat] unsigned_less [of j, where ?'a = nat] by simp_all
  have s: "4096 * a + 8 * unat i = 4096 * b + 8 * unat j"
    using unat_elem [OF assms(1), of i] unat_elem [OF assms(2), of j] eq ab by simp
  from same_page [OF s ij] s ab show "t = u \<and> i = j" by (simp add: word_unat_eq_iff)
qed simp

definition in_page :: "u64 \<Rightarrow> u64 \<Rightarrow> bool" where
  "in_page f a \<longleftrightarrow> (\<exists>i. a = elem f i)"

lemma elem_in_page [simp]:
  "page_aligned t \<Longrightarrow> page_aligned f \<Longrightarrow> in_page f (elem t i) \<longleftrightarrow> t = f"
  by (auto simp: in_page_def elem_eq_iff)


lemma elem_0: "elem f 0 = f"
  by (simp add: elem_def)

text \<open>Memory that agrees with \<open>pm\<close> on every table reachable through \<open>q\<close> gives the same walk.\<close>

lemma twalk_cong:
  assumes "\<And>r j u. prefix (r @ [j]) q \<Longrightarrow> twalk pm t r = Some u \<Longrightarrow> pm' (elem u j) = pm (elem u j)"
  shows "twalk pm' t q = twalk pm t q"
  using assms
proof (induction q rule: rev_induct)
  case (snoc j q)
  have "twalk pm' t q = twalk pm t q"
    using snoc.prems by (intro snoc.IH) (auto intro: prefix_order.trans)
  moreover have "pm' (elem u j) = pm (elem u j)" if "twalk pm t q = Some u" for u
    using snoc.prems [of q j u] that by simp
  ultimately show ?case by (auto simp: twalk_snoc split: option.splits)
qed simp

definition tree_ok :: "pmem \<Rightarrow> u64 \<Rightarrow> slab \<Rightarrow> bool" where
  "tree_ok pm t s \<longleftrightarrow> page_aligned t \<and>
     (\<forall>p q u. length p \<le> 3 \<and> length q \<le> 3 \<and> twalk pm t p = Some u \<and> twalk pm t q = Some u \<longrightarrow> p = q) \<and>
     (\<forall>p u. length p \<le> 3 \<and> twalk pm t p = Some u \<and> u \<in> pool s \<longrightarrow> u \<in> owned s) \<and>
     (\<forall>p i f. length p = 3 \<and> leaf pm t p i = Some f \<longrightarrow>
        (f \<in> pool s \<longrightarrow> f \<in> owned s) \<and> (\<forall>q. length q \<le> 3 \<longrightarrow> twalk pm t q \<noteq> Some f)) \<and>
     (\<forall>p i q j f. length p = 3 \<and> length q = 3 \<and> leaf pm t p i = Some f \<and> leaf pm t q j = Some f \<and> f \<in> pool s
        \<longrightarrow> p = q \<and> i = j)"

lemma tree_okD:
  assumes "tree_ok pm t s"
  shows "page_aligned t"
    "\<lbrakk>length p \<le> 3; length q \<le> 3; twalk pm t p = Some u; twalk pm t q = Some u\<rbrakk> \<Longrightarrow> p = q"
    "\<lbrakk>length p \<le> 3; twalk pm t p = Some u; u \<in> pool s\<rbrakk> \<Longrightarrow> u \<in> owned s"
    "\<lbrakk>length p = 3; leaf pm t p i = Some f; f \<in> pool s\<rbrakk> \<Longrightarrow> f \<in> owned s"
    "\<lbrakk>length p = 3; leaf pm t p i = Some f; length q \<le> 3\<rbrakk> \<Longrightarrow> twalk pm t q \<noteq> Some f"
    "\<lbrakk>length p = 3; length q = 3; leaf pm t p i = Some f; leaf pm t q j = Some f; f \<in> pool s\<rbrakk> \<Longrightarrow> p = q \<and> i = j"
  using assms unfolding tree_ok_def by blast+

text \<open>One entry of a table changes.\<close>

lemma twalk_upd_other:
  assumes ok: "tree_ok pm t s" and u: "twalk pm t p = Some u" "length p \<le> 3" and q: "length q \<le> 3"
    "\<not> prefix (p @ [i]) q"
  shows "twalk (pm(elem u i := e)) t q = twalk pm t q"
proof (rule twalk_cong)
  fix r j w assume r: "prefix (r @ [j]) q" "twalk pm t r = Some w"
  have "length r \<le> 3" using q(1) r(1) by (auto dest!: prefix_length_le)
  then have "elem w j \<noteq> elem u i"
    using elem_eq_iff [OF twalk_aligned [OF tree_okD(1) [OF ok] r(2)] twalk_aligned [OF tree_okD(1) [OF ok] u(1)]]
      tree_okD(2) [OF ok _ u(2) r(2), of] u r q by auto
  then show "(pm(elem u i := e)) (elem w j) = pm (elem w j)" by simp
qed

lemma twalk_upd_same:
  assumes ok: "tree_ok pm t s" and u: "twalk pm t p = Some u" "length p \<le> 3"
  shows "twalk (pm(elem u i := e)) t (p @ i # q) =
    (if links e then twalk (pm(elem u i := e)) (frame e) q else None)"
proof -
  have "\<not> prefix (p @ [i]) p" by (auto dest: prefix_length_le)
  then have "twalk (pm(elem u i := e)) t p = Some u" using twalk_upd_other [OF ok u u(2)] u(1) by simp
  then show ?thesis by (simp add: twalk_append)
qed

text \<open>Memory changes inside one page that is not a table.\<close>

lemma twalk_page_upd:
  assumes ok: "tree_ok pm t s" and f: "page_aligned f" "\<And>q. length q \<le> 3 \<Longrightarrow> twalk pm t q \<noteq> Some f"
    and pm': "\<And>a. \<not> in_page f a \<Longrightarrow> pm' a = pm a"
  shows "length q \<le> 3 \<Longrightarrow> twalk pm' t q = twalk pm t q" and "length q = 3 \<Longrightarrow> leaf pm' t q i = leaf pm t q i"
proof -
  have same: "pm' (elem w j) = pm (elem w j)" if "twalk pm t r = Some w" "length r \<le> 3" for r w j
    using that f(2) [of r] twalk_aligned [OF tree_okD(1) [OF ok] that(1)] f(1) by (intro pm') auto
  show tw: "twalk pm' t q = twalk pm t q" if "length q \<le> 3" for q
  proof (rule twalk_cong)
    fix r j u assume "prefix (r @ [j]) q" "twalk pm t r = Some u"
    with that show "pm' (elem u j) = pm (elem u j)" by (intro same [of r]) (auto dest!: prefix_length_le)
  qed
  show "leaf pm' t q i = leaf pm t q i" if "length q = 3"
    using that tw [of q] same [of q] by (auto simp: leaf_def split: option.splits)
qed

lemma hhdm_cancel [simp]:
  "elem (phys_to_hhdm st u) i - mm_hhdm_offset st = elem u i"
  "phys_to_hhdm st u + x - mm_hhdm_offset st = u + x"
  "phys_to_hhdm st u - mm_hhdm_offset st = u"
  by (simp_all add: elem_def phys_to_hhdm_def)

lemma phys_to_hhdm_upd [simp]:
  "phys_to_hhdm (st\<lparr>mm_pm := x\<rparr>) u = phys_to_hhdm st u" "phys_to_hhdm (st\<lparr>mm_slab := y\<rparr>) u = phys_to_hhdm st u"
  by (simp_all add: phys_to_hhdm_def)

definition clear_page :: "u64 \<Rightarrow> pmem \<Rightarrow> pmem" where
  "clear_page f pm = (\<lambda>a. if in_page f a then (pm a)\<lparr>pte_present := False, pte_addr := 0\<rparr> else pm a)"

lemma in_page_nat: "in_page f a \<longleftrightarrow> (\<exists>n < 512. a = f + 8 * of_nat n)"
proof
  assume "in_page f a"
  then obtain i where "a = elem f i" by (auto simp: in_page_def)
  then have "a = f + 8 * of_nat (unat i)" by (simp add: elem_def)
  moreover have "unat i < 512" using unsigned_less [of i, where ?'a = nat] by simp
  ultimately show "\<exists>n < 512. a = f + 8 * of_nat n" by blast
next
  assume "\<exists>n < 512. a = f + 8 * of_nat n"
  then obtain n :: nat where n: "n < 512" "a = f + 8 * of_nat n" by blast
  have "ucast (of_nat n :: 9 word) = (of_nat n :: u64)"
    using n(1) by (simp add: word_unat_eq_iff unsigned_ucast_eq unat_of_nat take_bit_nat_eq_self)
  then show "in_page f a" using n(2) by (auto simp: in_page_def elem_def intro!: exI [of _ "of_nat n"])
qed

lemma fold_clear_entry:
  "fold (clear_entry (phys_to_hhdm st f)) ns st =
     st\<lparr>mm_pm := \<lambda>a. if \<exists>n \<in> set ns. a = f + 8 * of_nat n
        then (mm_pm st a)\<lparr>pte_present := False, pte_addr := 0\<rparr> else mm_pm st a\<rparr>"
proof (induction ns rule: rev_induct)
  case (snoc n ns)
  then show ?case by (auto simp: clear_entry_def store_pte_def load_pte_def fun_eq_iff)
qed simp

lemma clear_page_loop: "fold (clear_entry (phys_to_hhdm st f)) [0..<512] st = st\<lparr>mm_pm := clear_page f (mm_pm st)\<rparr>"
proof -
  have "(\<exists>n \<in> set [0..<512]. a = f + 8 * of_nat n) \<longleftrightarrow> in_page f a" for a
    by (auto simp: in_page_nat simp del: upt_conv_Cons_Cons)
  then show ?thesis by (simp only: fold_clear_entry clear_page_def)
qed

definition paging_ok :: "mmu \<Rightarrow> bool" where
  "paging_ok st \<longleftrightarrow> slab_wf (mm_slab st) \<and> tree_ok (mm_pm st) (mm_cr3 st) (mm_slab st) \<and>
     (\<forall>f \<in> pool (mm_slab st). f < 2 ^ 40)"

definition new_table :: "u64 \<Rightarrow> PageTableEntry \<Rightarrow> PageTableEntry" where
  "new_table f e = e\<lparr>pte_global := False, pte_addr := ucast (drop_bit 12 f), pte_huge := False, pte_pcd := False,
     pte_pwt := True, pte_user := True, pte_read_write := True, pte_present := True, pte_nx := False\<rparr>"

lemma frame_new_table: "f < 2 ^ 52 \<Longrightarrow> page_aligned f \<Longrightarrow> frame (new_table f e) = f"
  by (simp add: frame_def new_table_def frame_roundtrip)

lemma links_new_table [simp]: "links (new_table f e)"
  by (simp add: links_def new_table_def)

lemma pool_aligned: "slab_wf s \<Longrightarrow> f \<in> pool s \<Longrightarrow> page_aligned f"
  by (auto simp: pool_def page_aligned_def slab_wf_def unat_page_addr)

lemma setup_cases:
  assumes "paging_ok st" "\<not> pte_present (mm_pm st (elem u i))" "page_aligned u"
  obtains "setup_page_table_entry (elem (phys_to_hhdm st u) i) st = Inl HCF" "owned (mm_slab st) = pool (mm_slab st)"
  | f sl where "malloc4k_phys (mm_slab st) = Inr (f, sl)" "slab_wf sl" "f \<in> pool (mm_slab st) - owned (mm_slab st)"
      "owned sl = insert f (owned (mm_slab st))" "pool sl = pool (mm_slab st)"
      "setup_page_table_entry (elem (phys_to_hhdm st u) i) st =
         Inr (st\<lparr>mm_slab := sl, mm_pm := (clear_page f (mm_pm st))
           (elem u i := new_table f (clear_page f (mm_pm st) (elem u i)))\<rparr>)"
proof (cases "malloc4k_phys (mm_slab st)")
  case (Inl e)
  with assms slab.alloc_exhausted [OF _ Inl] show thesis
    by (intro that(1)) (auto simp: setup_page_table_entry_def load_pte_def paging_ok_def)
next
  case (Inr r)
  obtain f sl where r: "r = (f, sl)" by (cases r)
  have wf: "slab_wf (mm_slab st)" using assms(1) by (simp add: paging_ok_def)
  note a = slab.alloc_fresh [OF wf Inr [unfolded r]]
  have "setup_page_table_entry (elem (phys_to_hhdm st u) i) st =
      Inr (st\<lparr>mm_slab := sl, mm_pm := (clear_page f (mm_pm st))
           (elem u i := new_table f (clear_page f (mm_pm st) (elem u i)))\<rparr>)"
    using assms(2) Inr r clear_page_loop [of "st\<lparr>mm_slab := sl\<rparr>" f]
    by (simp add: setup_page_table_entry_def load_pte_def store_pte_def new_table_def Let_def)
  then show thesis using a Inr r by (intro that(2)) auto
qed

lemma leaf_eqI:
  assumes "twalk pm' t q = twalk pm t q" "\<And>x. twalk pm t q = Some x \<Longrightarrow> pm' (elem x j) = pm (elem x j)"
  shows "leaf pm' t q j = leaf pm t q j"
  using assms by (auto simp: leaf_def split: option.splits)

definition link_table :: "u64 \<Rightarrow> u64 \<Rightarrow> 9 word \<Rightarrow> pmem \<Rightarrow> pmem" where
  "link_table f u i pm = (clear_page f pm)(elem u i := new_table f (clear_page f pm (elem u i)))"

lemma link_table_facts:
  assumes ok: "tree_ok pm t s" and u: "twalk pm t p = Some u" "length p \<le> 2" and np: "\<not> pte_present (pm (elem u i))"
    and f: "f \<in> pool s" "f \<notin> owned s" "page_aligned f" "f < 2 ^ 52"
  shows link_entry: "length q \<le> 3 \<Longrightarrow> twalk pm t q = Some x \<Longrightarrow> elem x j \<noteq> elem u i \<Longrightarrow>
      link_table f u i pm (elem x j) = pm (elem x j)"
    and link_new: "\<not> pte_present (link_table f u i pm (elem f j))"
    and link_twalk: "length q \<le> 3 \<Longrightarrow>
      twalk (link_table f u i pm) t q = (if q = p @ [i] then Some f else twalk pm t q)"
    and link_leaf: "length q = 3 \<Longrightarrow> leaf (link_table f u i pm) t q j = leaf pm t q j"
proof -
  let ?pm1 = "clear_page f pm"
  have nt: "twalk pm t q \<noteq> Some f" if "length q \<le> 3" for q using tree_okD(3) [OF ok that] f by blast
  have al: "page_aligned x" if "twalk pm t q = Some x" for q x using twalk_aligned [OF tree_okD(1) [OF ok] that] .
  have uf: "u \<noteq> f" using nt [of p] u by auto
  note pu = twalk_page_upd [OF ok f(3) nt, of ?pm1]
  have tw1: "twalk ?pm1 t q = twalk pm t q" if "length q \<le> 3" for q
    using that by (intro pu(1)) (simp_all add: clear_page_def)
  have lf1: "leaf ?pm1 t q j = leaf pm t q j" if "length q = 3" for q j
    using that by (intro pu(2)) (simp_all add: clear_page_def)
  have ok1: "tree_ok ?pm1 t s"
    using ok unfolding tree_ok_def by (auto simp: tw1 lf1 cong: conj_cong imp_cong) (metis tw1 lf1)+
  have u1: "twalk ?pm1 t p = Some u" "length p \<le> 3" using tw1 [of p] u by auto
  show E: "link_table f u i pm (elem x j) = pm (elem x j)"
    if "length q \<le> 3" "twalk pm t q = Some x" "elem x j \<noteq> elem u i" for q x j
    using that nt [of q] al [of q x] f(3) by (auto simp: link_table_def clear_page_def)
  show N: "\<not> pte_present (link_table f u i pm (elem f j))" for j
    using uf al [OF u(1)] f(3) elem_eq_iff [of f u j i]
    by (auto simp: link_table_def clear_page_def in_page_def)
  have fr: "frame (new_table f e) = f" for e using f by (intro frame_new_table)
  have none: "twalk (link_table f u i pm) f (j # q) = None" for j q using N by (simp add: links_def)
  have noneo: "twalk pm t (p @ i # q) = None" for q using u np by (simp add: twalk_append links_def)
  show W: "twalk (link_table f u i pm) t q = (if q = p @ [i] then Some f else twalk pm t q)" if q: "length q \<le> 3" for q
  proof (cases "prefix (p @ [i]) q")
    case True
    then obtain r where r: "q = p @ i # r" by (auto simp: prefix_def)
    have "twalk (link_table f u i pm) t q = twalk (link_table f u i pm) f r"
      unfolding r link_table_def using twalk_upd_same [OF ok1 u1] fr by simp
    then show ?thesis using none noneo r by (cases r) auto
  next
    case False
    then show ?thesis using twalk_upd_other [OF ok1 u1 q False] tw1 [OF q] by (auto simp: link_table_def)
  qed
  show "leaf (link_table f u i pm) t q j = leaf pm t q j" if q: "length q = 3" for q
  proof (cases "q = p @ [i]")
    case True
    then show ?thesis using W [of q] q N noneo [of "[]"] by (simp add: leaf_def)
  next
    case False
    show ?thesis
    proof (rule leaf_eqI)
      show "twalk (link_table f u i pm) t q = twalk pm t q" using W [of q] q False by simp
      fix x assume x: "twalk pm t q = Some x"
      have "p \<noteq> q" using q u(2) by auto
      then have "x \<noteq> u" using tree_okD(2) [OF ok, of q p x] x u q by auto
      then show "link_table f u i pm (elem x j) = pm (elem x j)"
        using E [of q x j] x q elem_eq_iff [OF al [OF x] al [OF u(1)]] by simp
    qed
  qed
qed

lemma link_tree_ok:
  assumes ok: "tree_ok pm t s" and u: "twalk pm t p = Some u" "length p \<le> 2" and np: "\<not> pte_present (pm (elem u i))"
    and f: "f \<in> pool s" "f \<notin> owned s" "page_aligned f" "f < 2 ^ 52"
    and s': "pool s' = pool s" "owned s' = insert f (owned s)"
  shows "tree_ok (link_table f u i pm) t s'"
proof -
  note W = link_twalk [OF ok u np f] and L = link_leaf [OF ok u np f]
  have nt: "twalk pm t q \<noteq> Some f" if "length q \<le> 3" for q using tree_okD(3) [OF ok that] f by blast
  have lf: "leaf pm t q j \<noteq> Some f" if "length q = 3" for q j using tree_okD(4) [OF ok that] f by blast
  show ?thesis
    unfolding tree_ok_def
  proof (intro conjI allI impI)
    show "page_aligned t" by (rule tree_okD(1) [OF ok])
  next
    fix q r w assume a: "length q \<le> 3 \<and> length r \<le> 3 \<and> twalk (link_table f u i pm) t q = Some w \<and>
      twalk (link_table f u i pm) t r = Some w"
    then show "q = r" using W [of q] W [of r] nt [of q] nt [of r] tree_okD(2) [OF ok, of q r w]
      by (auto split: if_splits)
  next
    fix q w assume "length q \<le> 3 \<and> twalk (link_table f u i pm) t q = Some w \<and> w \<in> pool s'"
    then show "w \<in> owned s'" using W [of q] tree_okD(3) [OF ok, of q w] s' by (auto split: if_splits)
  next
    fix q j g assume "length q = 3 \<and> leaf (link_table f u i pm) t q j = Some g" "g \<in> pool s'"
    then show "g \<in> owned s'" using L [of q j] tree_okD(4) [OF ok, of q j g] s' by auto
  next
    fix q j g and r :: "9 word list"
    assume "length q = 3 \<and> leaf (link_table f u i pm) t q j = Some g" "length r \<le> 3"
    then have "length q = 3" "leaf pm t q j = Some g" "length r \<le> 3" using L [of q j] by simp_all
    from tree_okD(5) [OF ok this] lf [OF this(1)] this W [of r]
    show "twalk (link_table f u i pm) t r \<noteq> Some g" by (auto split: if_splits)
  next
    fix q j r k g
    assume "length q = 3 \<and> length r = 3 \<and> leaf (link_table f u i pm) t q j = Some g \<and>
      leaf (link_table f u i pm) t r k = Some g \<and> g \<in> pool s'"
    then have "length q = 3" "length r = 3" "leaf pm t q j = Some g" "leaf pm t r k = Some g" "g \<in> pool s"
      using L [of q j] L [of r k] s'(1) by simp_all
    from tree_okD(6) [OF ok this] show "q = r" "j = k" by simp_all
  qed
qed


section \<open>Descending a level\<close>

definition free_pages :: "slab \<Rightarrow> nat" where
  "free_pages s = card (pool s - owned s)"

lemma finite_pool [simp]: "finite (pool s)"
  by (simp add: pool_def)

lemma free_pages_insert:
  "pool s' = pool s \<Longrightarrow> owned s' = insert f (owned s) \<Longrightarrow> f \<in> pool s - owned s \<Longrightarrow>
   free_pages s = Suc (free_pages s')"
  unfolding free_pages_def by (subst card_Suc_Diff1 [symmetric, of _ f]) (auto intro: arg_cong [where f = card])

definition extends :: "mmu \<Rightarrow> mmu \<Rightarrow> bool" where
  "extends st st' \<longleftrightarrow> mm_cr3 st' = mm_cr3 st \<and> mm_hhdm_offset st' = mm_hhdm_offset st \<and>
     mm_mmio_start st' = mm_mmio_start st \<and>
     mm_original_kernel_page_table st' = mm_original_kernel_page_table st \<and>
     pool (mm_slab st') = pool (mm_slab st) \<and> owned (mm_slab st) \<subseteq> owned (mm_slab st') \<and>
     (\<forall>q x. length q \<le> 3 \<longrightarrow> twalk (mm_pm st') (mm_cr3 st) q = Some x \<longrightarrow>
        twalk (mm_pm st) (mm_cr3 st) q = Some x \<or> x \<in> pool (mm_slab st) - owned (mm_slab st)) \<and>
     (\<forall>q j. length q = 3 \<longrightarrow> leaf (mm_pm st') (mm_cr3 st) q j = leaf (mm_pm st) (mm_cr3 st) q j) \<and>
     (\<forall>q x j. length q \<le> 3 \<longrightarrow> twalk (mm_pm st') (mm_cr3 st) q = Some x \<longrightarrow>
        pte_present (mm_pm st' (elem x j)) \<longrightarrow> pte_huge (mm_pm st' (elem x j)) \<longrightarrow>
        twalk (mm_pm st) (mm_cr3 st) q = Some x \<and> mm_pm st' (elem x j) = mm_pm st (elem x j))"

lemma extends_refl [simp]: "extends st st"
  by (simp add: extends_def)

lemma extends_trans: "extends st st1 \<Longrightarrow> extends st1 st2 \<Longrightarrow> extends st st2"
  unfolding extends_def by (clarsimp, intro conjI allI impI; (blast | metis))

lemma descend_ok:
  assumes ok: "paging_ok st" and u: "twalk (mm_pm st) (mm_cr3 st) p = Some u" "length p \<le> 2"
    and nh: "\<not> (pte_present (mm_pm st (elem u i)) \<and> pte_huge (mm_pm st (elem u i)))"
  obtains "descend u i st = Inl HCF" "free_pages (mm_slab st) = 0"
  | u' st' where "descend u i st = Inr (u', st')" "paging_ok st'" "extends st st'"
      "twalk (mm_pm st') (mm_cr3 st') (p @ [i]) = Some u'"
      "free_pages (mm_slab st) \<le> free_pages (mm_slab st') + 1"
proof (cases "pte_present (mm_pm st (elem u i))")
  case True
  then have "descend u i st = Inr (frame (mm_pm st (elem u i)), st)"
    by (simp add: descend_def load_pte_def)
  moreover have "twalk (mm_pm st) (mm_cr3 st) (p @ [i]) = Some (frame (mm_pm st (elem u i)))"
    using True nh u by (simp add: twalk_snoc links_def)
  ultimately show thesis using that(2) ok by simp
next
  case False
  let ?pm = "mm_pm st" let ?t = "mm_cr3 st" let ?s = "mm_slab st"
  have tok: "tree_ok ?pm ?t ?s" using ok by (simp add: paging_ok_def)
  have al: "page_aligned u" using twalk_aligned [OF tree_okD(1) [OF tok] u(1)] .
  show thesis
  proof (rule setup_cases [OF ok False al])
    assume "setup_page_table_entry (elem (phys_to_hhdm st u) i) st = Inl HCF" "owned ?s = pool ?s"
    then show thesis using False by (intro that(1)) (simp_all add: descend_def load_pte_def free_pages_def)
  next
    fix f sl
    assume s: "malloc4k_phys ?s = Inr (f, sl)" "slab_wf sl" "f \<in> pool ?s - owned ?s" "owned sl = insert f (owned ?s)"
      "pool sl = pool ?s" "setup_page_table_entry (elem (phys_to_hhdm st u) i) st =
         Inr (st\<lparr>mm_slab := sl, mm_pm := (clear_page f ?pm)(elem u i := new_table f (clear_page f ?pm (elem u i)))\<rparr>)"
    let ?st' = "st\<lparr>mm_slab := sl, mm_pm := link_table f u i ?pm\<rparr>"
    have f: "f \<in> pool ?s" "f \<notin> owned ?s" "page_aligned f" "f < 2 ^ 52"
      using s(3) ok pool_aligned [of ?s f] by (auto simp: paging_ok_def intro: less_trans [of _ "2 ^ 40"])
    note W = link_twalk [OF tok u False f] and L = link_leaf [OF tok u False f]
      and E = link_entry [OF tok u False f] and N = link_new [OF tok u False f]
    have "frame (mm_pm ?st' (elem u i)) = f" using f by (simp add: link_table_def frame_new_table)
    then have d: "descend u i st = Inr (f, ?st')"
      using False s(6) by (simp add: descend_def load_pte_def link_table_def)
    have tok': "tree_ok (link_table f u i ?pm) ?t sl" by (rule link_tree_ok [OF tok u False f s(5,4)])
    then have ok': "paging_ok ?st'" using ok s(2,5) by (simp add: paging_ok_def)
    have W': "twalk (mm_pm ?st') ?t (p @ [i]) = Some f" using W [of "p @ [i]"] u(2) by simp
    have "extends st ?st'"
      unfolding extends_def
    proof (intro conjI allI impI)
      fix q x assume "length q \<le> 3" "twalk (mm_pm ?st') ?t q = Some x"
      then show "twalk ?pm ?t q = Some x \<or> x \<in> pool ?s - owned ?s" using W [of q] s(3) by (auto split: if_splits)
    next
      fix q :: "9 word list" and j assume "length q = 3"
      then show "leaf (mm_pm ?st') ?t q j = leaf ?pm ?t q j" using L by simp
    next
      fix q x j assume q: "length q \<le> 3" "twalk (mm_pm ?st') ?t q = Some x"
        and ph: "pte_present (mm_pm ?st' (elem x j))" "pte_huge (mm_pm ?st' (elem x j))"
      have ne: "q \<noteq> p @ [i]" using q W [of q] N [of j] ph by auto
      then have old: "twalk ?pm ?t q = Some x" using W [of q] q by simp
      moreover have "elem x j \<noteq> elem u i" using ph by (auto simp: link_table_def new_table_def)
      ultimately show "twalk ?pm ?t q = Some x" "mm_pm ?st' (elem x j) = ?pm (elem x j)"
        using E [OF q(1)] by auto
    qed (use s in auto)
    with d ok' W' free_pages_insert [OF s(5,4,3)] show thesis by (intro that(2)) auto
  qed
qed

section \<open>Mapping and unmapping a page\<close>

lemma page_offset_zero: "pb_page_offset (pointer_bitmap v) = 0 \<longleftrightarrow> page_aligned v"
proof -
  have "unat (ucast v :: 12 word) = unat v mod 4096" by (simp add: unsigned_ucast_eq) (simp add: take_bit_eq_mod)
  then show ?thesis by (simp add: pointer_bitmap_def page_aligned_def word_unat_eq_iff)
qed

lemma mask_zero: "a AND 0xFFF = 0 \<longleftrightarrow> page_aligned a"
proof -
  have "(0xFFF :: u64) = mask 12" by (simp add: mask_eq_exp_minus_1)
  then show ?thesis by (simp add: page_aligned_take_bit take_bit_eq_mask)
qed

definition vpath :: "u64 \<Rightarrow> 9 word list \<times> 9 word" where
  "vpath v = (let b = pointer_bitmap v in ([pb_pml4_index b, pb_pdpt_index b, pb_pd_index b], pb_pt_index b))"

lemma translate_vpath: "translate st v = leaf (mm_pm st) (mm_cr3 st) (fst (vpath v)) (snd (vpath v))"
  by (simp add: translate_def vpath_def Let_def)

lemma length_vpath [simp]: "length (fst (vpath v)) = 3"
  by (simp add: vpath_def Let_def)

definition no_huge :: "mmu \<Rightarrow> u64 \<Rightarrow> bool" where
  "no_huge st v \<longleftrightarrow> (\<forall>n < 3. \<forall>x. twalk (mm_pm st) (mm_cr3 st) (take n (fst (vpath v))) = Some x \<longrightarrow>
     \<not> (pte_present (mm_pm st (elem x (fst (vpath v) ! n))) \<and> pte_huge (mm_pm st (elem x (fst (vpath v) ! n)))))"

lemma no_huge_extends:
  assumes nh: "no_huge st v" and ext: "extends st st'" and n: "n < 3"
    and tw: "twalk (mm_pm st') (mm_cr3 st') (take n (fst (vpath v))) = Some x"
  shows "\<not> (pte_present (mm_pm st' (elem x (fst (vpath v) ! n))) \<and> pte_huge (mm_pm st' (elem x (fst (vpath v) ! n))))"
proof
  let ?q = "take n (fst (vpath v))"
  assume h: "pte_present (mm_pm st' (elem x (fst (vpath v) ! n))) \<and> pte_huge (mm_pm st' (elem x (fst (vpath v) ! n)))"
  have tw': "twalk (mm_pm st') (mm_cr3 st) ?q = Some x" using tw ext by (simp add: extends_def)
  have "length ?q \<le> 3" using n by simp
  with ext tw' h have "twalk (mm_pm st) (mm_cr3 st) ?q = Some x"
    "mm_pm st' (elem x (fst (vpath v) ! n)) = mm_pm st (elem x (fst (vpath v) ! n))"
    unfolding extends_def by blast+
  with nh n h show False unfolding no_huge_def by metis
qed

lemma store_leaf:
  fixes i :: "9 word"
  assumes ok: "tree_ok pm t s" and u: "twalk pm t p = Some u" "length p = 3"
    and e: "pte_present e" "\<And>q. length q \<le> 3 \<Longrightarrow> twalk pm t q \<noteq> Some (frame e)"
      "frame e \<in> pool s \<Longrightarrow> frame e \<in> owned s"
      "\<And>q j. frame e \<in> pool s \<Longrightarrow> length q = 3 \<Longrightarrow> leaf pm t q j \<noteq> Some (frame e)"
  defines "pm' \<equiv> pm(elem u i := e)"
  shows store_leaf_twalk: "length q \<le> 3 \<Longrightarrow> twalk pm' t q = twalk pm t q"
    and store_leaf_leaf: "length q = 3 \<Longrightarrow> leaf pm' t q j = (if q = p \<and> j = i then Some (frame e) else leaf pm t q j)"
    and store_leaf_ok: "tree_ok pm' t s"
proof -
  have p3: "length p \<le> 3" using u by simp
  show W: "twalk pm' t q = twalk pm t q" if "length q \<le> 3" for q
    unfolding pm'_def using that u(2) by (intro twalk_upd_other [OF ok u(1) p3]) (auto dest!: prefix_length_le)
  have al: "page_aligned x" if "twalk pm t q = Some x" for q x using twalk_aligned [OF tree_okD(1) [OF ok] that] .
  show L: "leaf pm' t q j = (if q = p \<and> j = i then Some (frame e) else leaf pm t q j)" if q: "length q = 3" for q j
  proof (cases "q = p \<and> j = i")
    case True
    then show ?thesis using W [of p] u e(1) by (simp add: leaf_def pm'_def)
  next
    case False
    have "leaf pm' t q j = leaf pm t q j"
    proof (rule leaf_eqI)
      show "twalk pm' t q = twalk pm t q" using W q by simp
      fix x assume x: "twalk pm t q = Some x"
      have "x \<noteq> u \<or> j \<noteq> i" using False tree_okD(2) [OF ok, of q p x] x u q by auto
      then show "pm' (elem x j) = pm (elem x j)"
        using elem_eq_iff [OF al [OF x] al [OF u(1)]] by (auto simp: pm'_def)
    qed
    then show ?thesis using False by auto
  qed
  show "tree_ok pm' t s"
    unfolding tree_ok_def
  proof (intro conjI allI impI)
    show "page_aligned t" by (rule tree_okD(1) [OF ok])
  next
    fix q r w assume a: "length q \<le> 3 \<and> length r \<le> 3 \<and> twalk pm' t q = Some w \<and> twalk pm' t r = Some w"
    then have l: "length q \<le> 3" "length r \<le> 3" by simp_all
    with a W [OF l(1)] W [OF l(2)] have "twalk pm t q = Some w" "twalk pm t r = Some w" by simp_all
    with tree_okD(2) [OF ok l] show "q = r" by blast
  next
    fix q w assume "length q \<le> 3 \<and> twalk pm' t q = Some w \<and> w \<in> pool s"
    then show "w \<in> owned s" using W tree_okD(3) [OF ok] by metis
  next
    fix q j g assume "length q = 3 \<and> leaf pm' t q j = Some g" "g \<in> pool s"
    then show "g \<in> owned s" using L [of q j] e(3) tree_okD(4) [OF ok, of q j g] by (auto split: if_splits)
  next
    fix q j g and r :: "9 word list" assume a: "length q = 3 \<and> leaf pm' t q j = Some g" "length r \<le> 3"
    then show "twalk pm' t r \<noteq> Some g"
      using W [OF a(2)] L [of q j] e(2) [OF a(2)] tree_okD(5) [OF ok, of q j g r] by (auto split: if_splits)
  next
    fix q j r k g
    assume a: "length q = 3 \<and> length r = 3 \<and> leaf pm' t q j = Some g \<and> leaf pm' t r k = Some g \<and> g \<in> pool s"
    then have l: "length q = 3" "length r = 3" by simp_all
    with a L [OF l(1), of j] L [OF l(2), of k]
    have "leaf pm t q j = Some g \<or> q = p \<and> j = i \<and> g = frame e"
      "leaf pm t r k = Some g \<or> r = p \<and> k = i \<and> g = frame e"
      by (metis option.inject)+
    with a tree_okD(6) [OF ok, of q r j g k] e(4) [of q j] e(4) [of r k] show "q = r" "j = k" by blast+
  qed
qed

definition mapped :: "mmu \<Rightarrow> u64 \<Rightarrow> u64 \<Rightarrow> mmu \<Rightarrow> bool" where
  "mapped st v phys st' \<longleftrightarrow> paging_ok st' \<and> translate st' v = Some phys \<and>
     (\<forall>v'. vpath v' \<noteq> vpath v \<longrightarrow> translate st' v' = translate st v') \<and>
     (\<forall>w. no_huge st w \<longrightarrow> no_huge st' w) \<and>
     pool (mm_slab st') = pool (mm_slab st) \<and> owned (mm_slab st) \<subseteq> owned (mm_slab st') \<and>
     mm_cr3 st' = mm_cr3 st \<and> mm_hhdm_offset st' = mm_hhdm_offset st \<and> mm_mmio_start st' = mm_mmio_start st \<and>
     mm_original_kernel_page_table st' = mm_original_kernel_page_table st"

definition mappable :: "mmu \<Rightarrow> u64 \<Rightarrow> bool" where
  "mappable st phys \<longleftrightarrow> page_aligned phys \<and> phys < 2 ^ 52 \<and>
     (\<forall>q. length q \<le> 3 \<longrightarrow> twalk (mm_pm st) (mm_cr3 st) q \<noteq> Some phys) \<and>
     (phys \<in> pool (mm_slab st) \<longrightarrow> phys \<in> owned (mm_slab st) \<and>
        (\<forall>q j. length q = 3 \<longrightarrow> leaf (mm_pm st) (mm_cr3 st) q j \<noteq> Some phys))"

lemma mappable_extends: "mappable st phys \<Longrightarrow> extends st st' \<Longrightarrow> mappable st' phys"
  unfolding mappable_def extends_def by (clarsimp, intro conjI allI impI; (blast | metis))


lemma leaf_entry_store:
  assumes ok: "paging_ok st" and tw: "twalk (mm_pm st) (mm_cr3 st) (fst (vpath v)) = Some pt"
    and m: "mappable st phys"
    and e: "pte_present e" "frame e = phys"
  shows "mapped st v phys (st\<lparr>mm_pm := (mm_pm st)(elem pt (snd (vpath v)) := e)\<rparr>)"
proof -
  have tok: "tree_ok (mm_pm st) (mm_cr3 st) (mm_slab st)" using ok by (simp add: paging_ok_def)
  have x: "\<And>q. length q \<le> 3 \<Longrightarrow> twalk (mm_pm st) (mm_cr3 st) q \<noteq> Some (frame e)"
    "frame e \<in> pool (mm_slab st) \<Longrightarrow> frame e \<in> owned (mm_slab st)"
    "\<And>q j. frame e \<in> pool (mm_slab st) \<Longrightarrow> length q = 3 \<Longrightarrow> leaf (mm_pm st) (mm_cr3 st) q j \<noteq> Some (frame e)"
    using m e(2) by (auto simp: mappable_def)
  have "leaf ((mm_pm st)(elem pt (snd (vpath v)) := e)) (mm_cr3 st) (fst (vpath w)) (snd (vpath w)) =
      (if vpath w = vpath v then Some phys else translate st w)" for w
    unfolding translate_vpath prod_eq_iff e(2) [symmetric]
    by (rule store_leaf_leaf [OF tok tw length_vpath e(1)]) (use x in \<open>blast | simp\<close>)+
  moreover have "tree_ok ((mm_pm st)(elem pt (snd (vpath v)) := e)) (mm_cr3 st) (mm_slab st)"
    by (rule store_leaf_ok [OF tok tw length_vpath e(1)]) (use x in \<open>blast | simp\<close>)+
  moreover have "no_huge (st\<lparr>mm_pm := (mm_pm st)(elem pt (snd (vpath v)) := e)\<rparr>) w" if nh: "no_huge st w" for w
    unfolding no_huge_def
  proof (intro allI impI)
    fix n x assume n: "n < 3" and "twalk (mm_pm (st\<lparr>mm_pm := (mm_pm st)(elem pt (snd (vpath v)) := e)\<rparr>))
      (mm_cr3 (st\<lparr>mm_pm := (mm_pm st)(elem pt (snd (vpath v)) := e)\<rparr>)) (take n (fst (vpath w))) = Some x"
    moreover have "twalk ((mm_pm st)(elem pt (snd (vpath v)) := e)) (mm_cr3 st) (take n (fst (vpath w))) =
        twalk (mm_pm st) (mm_cr3 st) (take n (fst (vpath w)))"
      by (rule store_leaf_twalk [OF tok tw length_vpath e(1)]) (use x n in \<open>blast | simp\<close>)+
    ultimately have tx: "twalk (mm_pm st) (mm_cr3 st) (take n (fst (vpath w))) = Some x" by simp
    have "take n (fst (vpath w)) \<noteq> fst (vpath v)" using n length_vpath [of v] by (metis length_take length_vpath min.absorb4 nat_neq_iff)
    then have "x \<noteq> pt" using tree_okD(2) [OF tok _ _ tx, of "fst (vpath v)"] tw n by auto
    then have "elem x (fst (vpath w) ! n) \<noteq> elem pt (snd (vpath v))"
      using elem_eq_iff twalk_aligned [OF tree_okD(1) [OF tok]] tx tw by metis
    then show "\<not> (pte_present (mm_pm (st\<lparr>mm_pm := (mm_pm st)(elem pt (snd (vpath v)) := e)\<rparr>) (elem x (fst (vpath w) ! n))) \<and>
        pte_huge (mm_pm (st\<lparr>mm_pm := (mm_pm st)(elem pt (snd (vpath v)) := e)\<rparr>) (elem x (fst (vpath w) ! n))))"
      using nh n tx by (simp add: no_huge_def)
  qed
  ultimately show ?thesis
    using ok by (simp add: mapped_def paging_ok_def translate_vpath)
qed

definition descend3 :: "9 word list \<Rightarrow> mmu \<Rightarrow> (u64 \<times> mmu) result" where
  "descend3 p st = rbind (descend (mm_cr3 st) (p ! 0) st) (\<lambda>(a, st).
     rbind (descend a (p ! 1) st) (\<lambda>(b, st). descend b (p ! 2) st))"

lemma map_page_unfold:
  "map_page phys v c x st = (if \<not> page_aligned v then Inl HCF else
     rbind (descend3 (fst (vpath v)) st) (\<lambda>(pt, st).
       let a = elem pt (snd (vpath v)); e = mm_pm st a in
       if pte_present e \<or> \<not> page_aligned phys then Inl HCF
       else Inr (st\<lparr>mm_pm := (mm_pm st)(a := e\<lparr>pte_global := False, pte_addr := ucast (drop_bit 12 phys),
             pte_huge := False, pte_pcd := \<not> c, pte_pwt := True, pte_user := True, pte_read_write := True,
             pte_present := True, pte_nx := \<not> x\<rparr>)\<rparr>)))"
  by (auto simp: map_page_def descend3_def vpath_def Let_def page_offset_zero mask_zero rbind_assoc split_def
      load_pte_def store_pte_def intro!: rbind_cong)

lemma descend3_cases:
  assumes ok: "paging_ok st" and nh: "no_huge st v"
  obtains "descend3 (fst (vpath v)) st = Inl HCF" "free_pages (mm_slab st) < 3"
  | pt st' where "descend3 (fst (vpath v)) st = Inr (pt, st')" "paging_ok st'" "extends st st'"
      "twalk (mm_pm st') (mm_cr3 st') (fst (vpath v)) = Some pt"
      "free_pages (mm_slab st) \<le> free_pages (mm_slab st') + 3"
proof -
  obtain i4 i3 i2 where vp: "fst (vpath v) = [i4, i3, i2]" by (simp add: vpath_def Let_def)
  note h = no_huge_extends [OF nh]
  have t0: "twalk (mm_pm st) (mm_cr3 st) [] = Some (mm_cr3 st)" by simp
  have n4: "\<not> (pte_present (mm_pm st (elem (mm_cr3 st) i4)) \<and> pte_huge (mm_pm st (elem (mm_cr3 st) i4)))"
    using h [of st 0 "mm_cr3 st"] vp by simp
  consider "descend (mm_cr3 st) i4 st = Inl HCF" "free_pages (mm_slab st) = 0"
    | u1 st1 where "descend (mm_cr3 st) i4 st = Inr (u1, st1)" "paging_ok st1" "extends st st1"
        "twalk (mm_pm st1) (mm_cr3 st1) [i4] = Some u1"
        "free_pages (mm_slab st) \<le> free_pages (mm_slab st1) + 1"
    by (rule descend_ok [OF ok t0 _ n4]) auto
  then show thesis
  proof cases
    case 1
    then show ?thesis using vp by (intro that(1)) (simp_all add: descend3_def)
  next
    case (2 u1 st1)
    then have n3: "\<not> (pte_present (mm_pm st1 (elem u1 i3)) \<and> pte_huge (mm_pm st1 (elem u1 i3)))"
      using h [of st1 1 u1] vp by simp
    consider "descend u1 i3 st1 = Inl HCF" "free_pages (mm_slab st1) = 0"
      | u2 st2 where "descend u1 i3 st1 = Inr (u2, st2)" "paging_ok st2" "extends st1 st2"
          "twalk (mm_pm st2) (mm_cr3 st2) [i4, i3] = Some u2"
          "free_pages (mm_slab st1) \<le> free_pages (mm_slab st2) + 1"
      by (rule descend_ok [OF 2(2,4) _ n3]) auto
    then show ?thesis
    proof cases
      case 1
      then show ?thesis using vp 2 by (intro that(1)) (simp_all add: descend3_def)
    next
      case d2: (2 u2 st2)
      have e2: "extends st st2" using extends_trans [OF 2(3) d2(3)] .
      then have n2: "\<not> (pte_present (mm_pm st2 (elem u2 i2)) \<and> pte_huge (mm_pm st2 (elem u2 i2)))"
        using h [of st2 2 u2] vp d2 by (simp add: numeral_2_eq_2)
      show ?thesis
      proof (rule descend_ok [OF d2(2,4) _ n2])
        assume "descend u2 i2 st2 = Inl HCF" "free_pages (mm_slab st2) = 0"
        then show ?thesis using vp 2 d2 by (intro that(1)) (simp_all add: descend3_def)
      next
        fix u3 st3 assume d3: "descend u2 i2 st2 = Inr (u3, st3)" "paging_ok st3" "extends st2 st3"
          "twalk (mm_pm st3) (mm_cr3 st3) ([i4, i3] @ [i2]) = Some u3"
          "free_pages (mm_slab st2) \<le> free_pages (mm_slab st3) + 1"
        then show ?thesis using vp 2 d2 extends_trans [OF e2 d3(3)]
          by (intro that(2) [of u3 st3]) (simp_all add: descend3_def)
      qed simp
    qed
  qed
qed

lemma mapped_extends:
  assumes "extends st st1" "mapped st1 v phys st'"
  shows "mapped st v phys st'"
proof -
  have "no_huge st1 w" if "no_huge st w" for w
    unfolding no_huge_def using no_huge_extends [OF that assms(1)] by blast
  then show ?thesis using assms unfolding mapped_def extends_def translate_vpath by (auto simp: translate_vpath)
qed

lemma map_page_cases:
  assumes ok: "paging_ok st" and v: "page_aligned v" "no_huge st v" "translate st v = None" and m: "mappable st phys"
  obtains "map_page phys v c x st = Inl HCF" "free_pages (mm_slab st) < 3"
  | st' where "map_page phys v c x st = Inr st'" "mapped st v phys st'"
      "free_pages (mm_slab st) \<le> free_pages (mm_slab st') + 3"
  using descend3_cases [OF ok v(2)]
proof (cases)
  case 1
  then show ?thesis using v(1) by (intro that(1)) (simp_all add: map_page_unfold)
next
  case (2 pt st1)
  have m1: "mappable st1 phys" using mappable_extends [OF m 2(3)] .
  have pa: "page_aligned phys" "phys < 2 ^ 52" using m by (simp_all add: mappable_def)
  have "leaf (mm_pm st1) (mm_cr3 st1) (fst (vpath v)) (snd (vpath v)) = None"
    using v(3) 2(3) by (simp add: translate_vpath extends_def)
  then have np: "\<not> pte_present (mm_pm st1 (elem pt (snd (vpath v))))"
    using 2(4) by (simp add: leaf_def split: if_splits)
  let ?e = "(mm_pm st1 (elem pt (snd (vpath v))))\<lparr>pte_global := False, pte_addr := ucast (drop_bit 12 phys),
             pte_huge := False, pte_pcd := \<not> c, pte_pwt := True, pte_user := True, pte_read_write := True,
             pte_present := True, pte_nx := \<not> x\<rparr>"
  have "frame ?e = phys" using frame_roundtrip [OF pa(2,1)] by (simp add: frame_def)
  let ?st' = "st1\<lparr>mm_pm := (mm_pm st1)(elem pt (snd (vpath v)) := ?e)\<rparr>"
  have "mapped st1 v phys ?st'" using \<open>frame ?e = phys\<close>
    by (intro leaf_entry_store [OF 2(2,4) m1]) simp_all
  from mapped_extends [OF 2(3) this] show ?thesis
    using 2(1,5) v(1) np pa by (intro that(2) [of ?st']) (simp_all add: map_page_unfold Let_def)
qed

lemma map_page_taken:
  assumes ok: "paging_ok st" and v: "no_huge st v" "translate st v \<noteq> None"
  shows "\<exists>e. map_page phys v c x st = Inl e"
proof (rule descend3_cases [OF ok v(1)])
  assume "descend3 (fst (vpath v)) st = Inl HCF"
  then show ?thesis by (simp add: map_page_unfold)
next
  fix pt st' assume d: "descend3 (fst (vpath v)) st = Inr (pt, st')" "extends st st'"
    "twalk (mm_pm st') (mm_cr3 st') (fst (vpath v)) = Some pt"
  then have "leaf (mm_pm st') (mm_cr3 st') (fst (vpath v)) (snd (vpath v)) \<noteq> None"
    using v(2) by (simp add: extends_def translate_vpath)
  then have "pte_present (mm_pm st' (elem pt (snd (vpath v))))"
    using d(3) by (simp add: leaf_def split: if_splits)
  then show ?thesis using d(1) by (simp add: map_page_unfold Let_def)
qed

lemma allocate_ram_page_cases:
  assumes ok: "paging_ok st" and v: "page_aligned v" "no_huge st v" "translate st v = None"
  obtains "allocate_ram_page v x st = Inl HCF" "free_pages (mm_slab st) < 4"
  | f st' where "allocate_ram_page v x st = Inr st'" "f \<in> pool (mm_slab st) - owned (mm_slab st)"
      "mapped st v f st'" "f \<in> owned (mm_slab st')"
      "free_pages (mm_slab st) \<le> free_pages (mm_slab st') + 4"
proof (cases "malloc4k_phys (mm_slab st)")
  case (Inl e)
  then have "e = HCF" "free_pages (mm_slab st) = 0"
    using ok slab.alloc_exhausted [OF _ Inl] by (simp_all add: paging_ok_def free_pages_def)
  with Inl show thesis by (intro that(1)) (simp_all add: allocate_ram_page_def)
next
  case (Inr r)
  obtain f sl where r: "r = (f, sl)" by (cases r)
  have wf: "slab_wf (mm_slab st)" and tok: "tree_ok (mm_pm st) (mm_cr3 st) (mm_slab st)"
    and b: "\<And>f. f \<in> pool (mm_slab st) \<Longrightarrow> f < 2 ^ 40"
    using ok by (auto simp: paging_ok_def)
  from slab.alloc_fresh [OF wf Inr [unfolded r]]
  have a: "slab_wf sl" "f \<in> pool (mm_slab st)" "f \<notin> owned (mm_slab st)" "owned sl = insert f (owned (mm_slab st))"
    "pool sl = pool (mm_slab st)" by auto
  have fp: "free_pages (mm_slab st) = Suc (free_pages sl)" by (rule free_pages_insert [OF a(5,4)]) (use a in simp)
  let ?st = "st\<lparr>mm_slab := sl\<rparr>"
  have "tree_ok (mm_pm st) (mm_cr3 st) sl" using tok unfolding tree_ok_def a(4,5) by blast
  then have ok1: "paging_ok ?st" using a b by (simp add: paging_ok_def)
  have m: "mappable ?st f"
    using a b [OF a(2)] pool_aligned [OF wf a(2)] tree_okD(3,4) [OF tok]
    by (auto simp: mappable_def intro: less_trans [of _ "2 ^ 40"])
  have v1: "no_huge ?st v" "translate ?st v = None" using v by (simp_all add: no_huge_def translate_vpath)
  from ok1 v(1) v1 m show thesis
  proof (cases rule: map_page_cases [of ?st v f True x])
    case 1
    then show ?thesis using Inr r fp by (intro that(1)) (simp_all add: allocate_ram_page_def)
  next
    case (2 st')
    then have "mapped st v f st'" "f \<in> owned (mm_slab st')"
      using a(4,5) by (auto simp: mapped_def translate_vpath no_huge_def)
    with 2 a fp show ?thesis using Inr r by (intro that(2)) (simp_all add: allocate_ram_page_def add.commute)
  qed
qed

lemma present_child_eq:
  "present_child u i st = (if pte_present (mm_pm st (elem u i)) then Inr (frame (mm_pm st (elem u i))) else Inl HCF)"
  by (simp add: present_child_def load_pte_def)

lemma clear_leaf:
  fixes i :: "9 word"
  assumes ok: "tree_ok pm t s" and u: "twalk pm t p = Some u" "length p = 3" and lf: "leaf pm t p i = Some f"
    and s': "pool s' = pool s" "owned s' = owned s - {f}" and f: "f \<in> pool s" and e: "\<not> pte_present e"
  defines "pm' \<equiv> pm(elem u i := e)"
  shows clear_leaf_leaf: "length q = 3 \<Longrightarrow> leaf pm' t q j = (if q = p \<and> j = i then None else leaf pm t q j)"
    and clear_leaf_ok: "tree_ok pm' t s'"
proof -
  have p3: "length p \<le> 3" using u by simp
  have W: "twalk pm' t q = twalk pm t q" if "length q \<le> 3" for q
    unfolding pm'_def using that u(2) by (intro twalk_upd_other [OF ok u(1) p3]) (auto dest!: prefix_length_le)
  have al: "page_aligned x" if "twalk pm t q = Some x" for q x using twalk_aligned [OF tree_okD(1) [OF ok] that] .
  show L: "leaf pm' t q j = (if q = p \<and> j = i then None else leaf pm t q j)" if q: "length q = 3" for q j
  proof (cases "q = p \<and> j = i")
    case True
    then show ?thesis using W [of p] u e(1) by (simp add: leaf_def pm'_def)
  next
    case False
    have "leaf pm' t q j = leaf pm t q j"
    proof (rule leaf_eqI)
      show "twalk pm' t q = twalk pm t q" using W q by simp
      fix x assume x: "twalk pm t q = Some x"
      have "x \<noteq> u \<or> j \<noteq> i" using False tree_okD(2) [OF ok, of q p x] x u q by auto
      then show "pm' (elem x j) = pm (elem x j)"
        using elem_eq_iff [OF al [OF x] al [OF u(1)]] by (auto simp: pm'_def)
    qed
    then show ?thesis using False by auto
  qed
  show "tree_ok pm' t s'"
    unfolding tree_ok_def s'
  proof (intro conjI allI impI)
    show "page_aligned t" by (rule tree_okD(1) [OF ok])
  next
    fix q r w assume a: "length q \<le> 3 \<and> length r \<le> 3 \<and> twalk pm' t q = Some w \<and> twalk pm' t r = Some w"
    then have l: "length q \<le> 3" "length r \<le> 3" by simp_all
    with a W [OF l(1)] W [OF l(2)] have "twalk pm t q = Some w" "twalk pm t r = Some w" by simp_all
    with tree_okD(2) [OF ok l] show "q = r" by blast
  next
    fix q w assume a: "length q \<le> 3 \<and> twalk pm' t q = Some w \<and> w \<in> pool s"
    then have w: "twalk pm t q = Some w" using W [of q] by simp
    with tree_okD(5) [OF ok u(2) lf, of q] a have "w \<noteq> f" by auto
    with a w tree_okD(3) [OF ok, of q w] show "w \<in> owned s - {f}" by simp
  next
    fix q j g assume a: "length q = 3 \<and> leaf pm' t q j = Some g" "g \<in> pool s"
    then have g: "leaf pm t q j = Some g" "\<not> (q = p \<and> j = i)" using L [of q j] by (auto split: if_splits)
    then have "g \<noteq> f" using tree_okD(6) [OF ok _ u(2) g(1), of i] lf f a by auto
    with a g tree_okD(4) [OF ok, of q j g] show "g \<in> owned s - {f}" by simp
  next
    fix q j g and r :: "9 word list" assume a: "length q = 3 \<and> leaf pm' t q j = Some g" "length r \<le> 3"
    then have "leaf pm t q j = Some g" using L [of q j] by (auto split: if_splits)
    then show "twalk pm' t r \<noteq> Some g" using W [OF a(2)] tree_okD(5) [OF ok, of q j g r] a by simp
  next
    fix q j r k g
    assume a: "length q = 3 \<and> length r = 3 \<and> leaf pm' t q j = Some g \<and> leaf pm' t r k = Some g \<and> g \<in> pool s"
    then have l: "length q = 3" "length r = 3" by simp_all
    with a L [OF l(1), of j] L [OF l(2), of k] have "leaf pm t q j = Some g" "leaf pm t r k = Some g"
      by (metis option.distinct(1))+
    from tree_okD(6) [OF ok l this] a show "q = r" "j = k" by simp_all
  qed
qed


lemma deallocate_page_ok:
  assumes ok: "paging_ok st" and v: "page_aligned v" "translate st v = Some f" and f: "f \<in> owned (mm_slab st)"
  obtains st' where "deallocate_page v st = Inr st'" "paging_ok st'" "translate st' v = None"
    "\<And>v'. vpath v' \<noteq> vpath v \<Longrightarrow> translate st' v' = translate st v'"
    "owned (mm_slab st') = owned (mm_slab st) - {f}" "pool (mm_slab st') = pool (mm_slab st)"
proof -
  have wf: "slab_wf (mm_slab st)" and tok: "tree_ok (mm_pm st) (mm_cr3 st) (mm_slab st)"
    using ok by (auto simp: paging_ok_def)
  obtain i4 i3 i2 i1 where vp: "vpath v = ([i4, i3, i2], i1)" by (simp add: vpath_def Let_def)
  then have ix: "pb_pml4_index (pointer_bitmap v) = i4" "pb_pdpt_index (pointer_bitmap v) = i3"
    "pb_pd_index (pointer_bitmap v) = i2" "pb_pt_index (pointer_bitmap v) = i1"
    by (auto simp: vpath_def Let_def)
  have lf: "leaf (mm_pm st) (mm_cr3 st) (fst (vpath v)) (snd (vpath v)) = Some f" using v(2) by (simp add: translate_vpath)
  then obtain pt where pt: "twalk (mm_pm st) (mm_cr3 st) (fst (vpath v)) = Some pt"
    "pte_present (mm_pm st (elem pt i1))" "frame (mm_pm st (elem pt i1)) = f"
    using vp by (auto simp: leaf_def split: option.splits if_splits)
  from slab.release_ok [OF wf f] obtain sl where
    sl: "free4k_phys f (mm_slab st) = Inr sl" "slab_wf sl" "owned sl = owned (mm_slab st) - {f}" "pool sl = pool (mm_slab st)"
    by blast
  define e where "e = (mm_pm st (elem pt i1))\<lparr>pte_present := False\<rparr>"
  let ?st' = "st\<lparr>mm_slab := sl, mm_pm := (mm_pm st)(elem pt (snd (vpath v)) := e)\<rparr>"
  have d: "deallocate_page v st = Inr ?st'"
    using v(1) pt vp sl(1) ix
    by (auto simp: deallocate_page_def Let_def page_offset_zero present_child_eq links_def load_pte_def store_pte_def
        e_def elem_def split: if_splits)
  have fp: "f \<in> pool (mm_slab st)" using f by (auto simp: owned_def pool_def)
  have ne: "\<not> pte_present e" by (simp add: e_def)
  have "leaf ((mm_pm st)(elem pt (snd (vpath v)) := e)) (mm_cr3 st) (fst (vpath w)) (snd (vpath w)) =
      (if vpath w = vpath v then None else translate st w)" for w
    unfolding translate_vpath prod_eq_iff
    by (rule clear_leaf_leaf [OF tok pt(1) length_vpath lf sl(4,3) fp ne length_vpath])
  moreover have "tree_ok ((mm_pm st)(elem pt (snd (vpath v)) := e)) (mm_cr3 st) sl"
    by (rule clear_leaf_ok [OF tok pt(1) length_vpath lf sl(4,3) fp ne])
  ultimately show thesis
    using ok sl by (intro that [OF d]) (simp_all add: paging_ok_def translate_vpath)
qed

lemma raw_ptr_bitmap: "raw_ptr (pointer_bitmap v) = v"
proof (rule bit_word_eqI)
  fix n assume n: "n < LENGTH(64)"
  then consider "n < 12" | "12 \<le> n" "n < 21" | "21 \<le> n" "n < 30" | "30 \<le> n" "n < 39" | "39 \<le> n" "n < 48"
    | "48 \<le> n" "n < 64" by fastforce
  then show "bit (raw_ptr (pointer_bitmap v)) n = bit v n"
    by cases (simp_all add: raw_ptr_def pointer_bitmap_def bit_simps less_diff_conv2)
qed

lemma tss_base: "td_base (init_tss_descriptor b) = b"
proof (rule bit_word_eqI)
  have m: "(0xFFFF :: u64) = mask 16" "(0xFF :: u64) = mask 8" "(0xFFFFFFFF :: u64) = mask 32"
    by (simp_all add: mask_eq_exp_minus_1)
  fix n assume n: "n < LENGTH(64)"
  then consider "n < 16" | "16 \<le> n" "n < 24" | "24 \<le> n" "n < 32" | "32 \<le> n" "n < 64" by fastforce
  then show "bit (td_base (init_tss_descriptor b)) n = bit b n"
    by cases (simp_all add: td_base_def init_tss_descriptor_def Let_def m bit_simps less_diff_conv2)
qed

section \<open>Properties\<close>

text \<open>A small machine for the witnesses: an empty root table and four free pages.\<close>

definition blank_pte :: PageTableEntry where
  "blank_pte = \<lparr>pte_present = False, pte_read_write = False, pte_user = False, pte_pwt = False, pte_pcd = False,
     pte_accessed = False, pte_dirty = False, pte_huge = False, pte_global = False, pte_ignored1 = 0, pte_addr = 0,
     pte_ignored2 = 0, pte_nx = False\<rparr>"

definition small_mmu :: mmu where
  "small_mmu = \<lparr>mm_pm = \<lambda>_. blank_pte, mm_cr3 = 0x1000, mm_hhdm_offset = 0xFFFF800000000000,
     mm_mmio_start = 0xFFFF810000000000, mm_original_kernel_page_table = 0xFFFF800000001000,
     mm_slab = \<lparr>physical_memory_base = 0x100000, physical_memory_pages = 4, slab_flags = [False, False, False, False]\<rparr>\<rparr>"

lemma small_fields [simp]: "mm_pm small_mmu = (\<lambda>_. blank_pte)" "mm_cr3 small_mmu = 0x1000" "\<not> pte_present blank_pte"
  by (simp_all add: small_mmu_def blank_pte_def)

lemma small_twalk: "twalk (\<lambda>_. blank_pte) t p = (if p = [] then Some t else None)"
  by (cases p) (simp_all add: links_def)

lemma small_pool: "pool (mm_slab small_mmu) = {0x100000, 0x101000, 0x102000, 0x103000}"
  by (auto simp: small_mmu_def pool_def page_addr_def lessThan_nat_numeral lessThan_Suc)

lemma small_owned: "owned (mm_slab small_mmu) = {}"
  by (auto simp: small_mmu_def owned_def nth_Cons' split: if_splits)

lemma small_ok: "paging_ok small_mmu" "no_huge small_mmu v" "translate small_mmu v = None"
  "free_pages (mm_slab small_mmu) = 4"
proof -
  show "paging_ok small_mmu"
    unfolding paging_ok_def small_pool
    by (auto simp: tree_ok_def leaf_def small_twalk small_pool small_owned page_aligned_def split: if_splits)
       (simp_all add: small_mmu_def slab_wf_def)
  show "no_huge small_mmu v" by (simp add: no_huge_def)
  show "translate small_mmu v = None" by (simp add: translate_vpath leaf_def small_twalk vpath_def Let_def)
  show "free_pages (mm_slab small_mmu) = 4" by (simp add: free_pages_def small_pool small_owned)
qed

text \<open>C1. Allocation of a page of virtual memory. In a well-formed address space, for a page-aligned
  address that is not mapped (nor inside a huge page) and with at least four free physical pages,
  \<open>allocate_ram_page\<close> succeeds; the address then translates to a page that was free and that no other
  address maps, every other address translates as before, and the address space stays well formed.\<close>

theorem allocate_ram_page_maps:
  assumes "paging_ok st" and "page_aligned v" and "no_huge st v" and "translate st v = None"
    and "4 \<le> free_pages (mm_slab st)"
  shows "\<exists>f st'. allocate_ram_page v can_execute st = Inr st' \<and> f \<in> pool (mm_slab st) - owned (mm_slab st) \<and>
    translate st' v = Some f \<and>
    (\<forall>v'. vpath v' \<noteq> vpath v \<longrightarrow> translate st' v' = translate st v' \<and> translate st' v' \<noteq> Some f) \<and>
    f \<in> owned (mm_slab st') \<and> paging_ok st'"
proof -
  have fresh: "translate st v' \<noteq> Some f" if "f \<in> pool (mm_slab st) - owned (mm_slab st)" for v' f
    using that assms(1) tree_okD(4) [of "mm_pm st" "mm_cr3 st" "mm_slab st" "fst (vpath v')"]
    by (auto simp: paging_ok_def translate_vpath)
  show ?thesis
    using allocate_ram_page_cases [OF assms(1-4), of can_execute] assms(5) fresh
    by (cases) (force simp: mapped_def)+
qed

theorem allocate_ram_page_maps_witness:
  "\<exists>f st'. allocate_ram_page 0x400000 True small_mmu = Inr st' \<and> f \<in> {0x100000, 0x101000, 0x102000, 0x103000} \<and>
     translate st' 0x400000 = Some f"
proof -
  have "page_aligned 0x400000" by (simp add: page_aligned_def)
  from allocate_ram_page_maps [OF small_ok(1) this small_ok(2,3), of True] show ?thesis
    unfolding small_ok(4) small_pool small_owned by auto
qed

text \<open>C9. Unmapping what was mapped. After \<open>allocate_ram_page\<close> succeeded, \<open>deallocate_page\<close> on the same
  address succeeds, every address translates as it did before the allocation, the page tables stay well formed, and
  every page that was in use before the allocation is still in use.\<close>

theorem allocate_deallocate_roundtrip:
  assumes "paging_ok st" and "page_aligned v" and "no_huge st v" and "translate st v = None"
    and "allocate_ram_page v can_execute st = Inr st1"
  shows "\<exists>f st2. translate st1 v = Some f \<and> deallocate_page v st1 = Inr st2 \<and> paging_ok st2 \<and>
    owned (mm_slab st) \<subseteq> owned (mm_slab st2) \<and>
    (\<forall>v'. translate st2 v' = translate st v')"
proof -
  from allocate_ram_page_cases [OF assms(1-4), of can_execute] assms(5) obtain f where
    f: "f \<in> pool (mm_slab st) - owned (mm_slab st)" "mapped st v f st1" "f \<in> owned (mm_slab st1)"
    by cases auto
  from f(2) have m: "paging_ok st1" "translate st1 v = Some f" "owned (mm_slab st) \<subseteq> owned (mm_slab st1)"
    "\<And>v'. vpath v' \<noteq> vpath v \<Longrightarrow> translate st1 v' = translate st v'"
    by (auto simp: mapped_def)
  from deallocate_page_ok [OF m(1) assms(2) m(2) f(3)] obtain st2 where
    d: "deallocate_page v st1 = Inr st2" "paging_ok st2" "translate st2 v = None"
    "\<And>v'. vpath v' \<noteq> vpath v \<Longrightarrow> translate st2 v' = translate st1 v'"
    "owned (mm_slab st2) = owned (mm_slab st1) - {f}" by metis
  have "translate st2 v' = translate st v'" for v'
    using d(3,4) m(4) assms(4) by (cases "vpath v' = vpath v") (auto simp: translate_vpath)
  with d m f show ?thesis by (intro exI [of _ f] exI [of _ st2]) auto
qed

theorem allocate_deallocate_roundtrip_witness:
  "\<exists>st1 st2. allocate_ram_page 0x400000 True small_mmu = Inr st1 \<and> deallocate_page 0x400000 st1 = Inr st2 \<and>
     translate st2 0x400000 = None"
proof -
  have al: "page_aligned 0x400000" by (simp add: page_aligned_def)
  have "\<exists>st1. allocate_ram_page 0x400000 True small_mmu = Inr st1"
    using allocate_ram_page_cases [OF small_ok(1) al small_ok(2,3), of True] small_ok(4) by cases auto
  then obtain st1 where st1: "allocate_ram_page 0x400000 True small_mmu = Inr st1" by blast
  from allocate_deallocate_roundtrip [OF small_ok(1) al small_ok(2,3) st1] small_ok(3) st1 show ?thesis by auto
qed

text \<open>The page index bit fields lose nothing: reassembling the fields of a pointer gives the
  pointer, and the base address that \<open>init_tss_descriptor\<close> splits over four fields reads back.\<close>

theorem address_fields_roundtrip:
  "raw_ptr (pointer_bitmap v) = v \<and> td_base (init_tss_descriptor tss) = tss"
  by (simp add: raw_ptr_bitmap tss_base)

text \<open>\<open>generate_clean_virtual_addressing\<close> inspects one entry only. Whenever a page is free and the
  first entry of the kernel's table is absent it succeeds and copies the table, whatever the
  other 255 user entries hold: the check that no user entry is present reads entry 0 each time.\<close>

theorem generate_clean_checks_one_entry:
  assumes "malloc4k_phys (mm_slab st) = Inr (pml4_phys, sl)"
    and "\<not> pte_present (load_pte st (mm_original_kernel_page_table st))"
  shows "\<exists>st'. generate_clean_virtual_addressing st = Inr (pml4_phys, st') \<and>
    (\<forall>i :: 9 word. mm_pm st' (elem pml4_phys i) = load_pte st (elem (mm_original_kernel_page_table st) i))"
proof -
  have i: "8 * ucast i < (4096 :: u64)" for i :: "9 word"
  proof -
    have "unat i < 512" using unsigned_less [of i, where ?'a = nat] by simp
    then show ?thesis by (simp add: word_less_nat_alt unat_word_ariths unsigned_ucast_eq take_bit_nat_eq_self)
  qed
  let ?root = "mm_original_kernel_page_table st"
  let ?st2 = "copy_page pml4_phys (?root - mm_hhdm_offset st) (st\<lparr>mm_slab := sl\<rparr>)"
  have np: "\<not> pte_present (load_pte ?st2 (phys_to_hhdm st pml4_phys))"
    using assms(2) by (simp add: copy_page_def load_pte_def phys_to_hhdm_def)
  have "generate_clean_virtual_addressing st = Inr (pml4_phys, ?st2)"
    using assms(1) np by (simp add: generate_clean_virtual_addressing_def Let_def rfold_check)
  moreover have "mm_pm ?st2 (elem pml4_phys i) = load_pte st (elem ?root i)" for i :: "9 word"
    using i [of i] by (simp add: copy_page_def load_pte_def elem_def diff_add_eq)
  ultimately show ?thesis by blast
qed

theorem generate_clean_checks_one_entry_witness:
  "\<exists>st'. generate_clean_virtual_addressing (small_mmu\<lparr>mm_pm := (\<lambda>_. blank_pte)(0x1008 := blank_pte\<lparr>pte_present := True\<rparr>)\<rparr>)
       = Inr (0x100000, st') \<and> pte_present (mm_pm st' 0x100008)"
proof -
  let ?st = "small_mmu\<lparr>mm_pm := (\<lambda>_. blank_pte)(0x1008 := blank_pte\<lparr>pte_present := True\<rparr>)\<rparr>"
  have m: "malloc4k_phys (mm_slab ?st) =
      Inr (0x100000, (mm_slab ?st)\<lparr>slab_flags := [True, False, False, False]\<rparr>)"
    by (simp add: malloc4k_phys_def malloc4k_loop.simps flag_read_def flag_write_def small_mmu_def)
  have np: "\<not> pte_present (load_pte ?st (mm_original_kernel_page_table ?st))"
    by (simp add: load_pte_def) (simp add: small_mmu_def)
  from generate_clean_checks_one_entry [OF m np] obtain st' where
    s: "generate_clean_virtual_addressing ?st = Inr (0x100000, st')"
    "\<And>i :: 9 word. mm_pm st' (elem 0x100000 i) = load_pte ?st (elem (mm_original_kernel_page_table ?st) i)" by blast
  from s(2) [of 1] have "pte_present (mm_pm st' 0x100008)"
    by (simp add: elem_def load_pte_def small_mmu_def)
  with s(1) show ?thesis by blast
qed

end
