(* ===== verification/Kernel_Heap.thy ===== *)
theory Kernel_Heap
  imports Heap_Malloc Paging
begin

text \<open>
  The kernel's heap: \<open>_malloc_expand_heap\<close> of \<open>stuos/src/kern_libc.c\<close> grows the heap by mapping fresh
  pages at its end with \<open>allocate_ram_page\<close>, and \<open>memory_init\<close> (\<open>stuos/src/memory.c\<close>) sets up the
  physical allocator, the kernel's page tables, the heap and the segment descriptors.
  The kernel's expander is an instance of \<open>heap_provider\<close>, so the heap's correctness theorems hold
  for \<open>malloc\<close>, \<open>free\<close> and \<open>realloc\<close> inside the kernel, down to the page tables.
\<close>

section \<open>Growing the kernel heap\<close>

definition malloc_expand_heap :: "mmu expander" where
  "malloc_expand_heap kheap_end bytes st =
     (if kheap_end AND 0xFFF \<noteq> 0 then Inl HCF else
      let rounded_up_pages = (bytes + PAGE_SIZE - 1) div PAGE_SIZE in
      rbind (rfold (\<lambda>i st. allocate_ram_page (kheap_end + PAGE_SIZE * of_nat i) False st)
               [0..<unat rounded_up_pages] st)
        (\<lambda>st'. Inr (PAGE_SIZE * rounded_up_pages, st')))"

definition kernel_avail :: "mmu \<Rightarrow> nat" where
  "kernel_avail st = 4096 * free_pages (mm_slab st)"

definition kernel_okay :: "nat \<Rightarrow> nat \<Rightarrow> mmu \<Rightarrow> bool" where
  "kernel_okay lo hi st \<longleftrightarrow> paging_ok st \<and> (\<forall>v. lo \<le> unat v \<and> unat v < hi \<longrightarrow> no_huge st v)"

definition page_no :: "u64 \<Rightarrow> nat" where
  "page_no v = unat v div 4096"

lemma page_no_drop_bit: "page_no v = page_no w \<longleftrightarrow> drop_bit 12 v = drop_bit 12 w"
  by (simp add: page_no_def word_unat_eq_iff drop_bit_eq_div unat_div)

lemma vpath_same_page: "page_no v = page_no w \<Longrightarrow> vpath v = vpath w"
proof -
  assume "page_no v = page_no w"
  then have d: "drop_bit k (drop_bit 12 v) = drop_bit k (drop_bit 12 w)" for k by (simp only: page_no_drop_bit)
  then have "drop_bit (k + 12) v = drop_bit (k + 12) w" for k by (simp only: drop_bit_drop_bit)
  from this [of 0] this [of 9] this [of 18] this [of 27] show ?thesis
    by (simp add: vpath_def pointer_bitmap_def Let_def)
qed

lemma tree_ok_alloc:
  assumes "tree_ok pm t s" "pool s' = pool s" "owned s' = insert f (owned s)"
  shows "tree_ok pm t s'"
  using assms(1) unfolding tree_ok_def assms(2,3) by blast

lemma allocate_ram_page_okay:
  assumes ok: "paging_ok st" and nh: "no_huge st v" and a: "allocate_ram_page v x st = Inr st'"
  shows "paging_ok st'" "\<And>w. no_huge st w \<Longrightarrow> no_huge st' w" "free_pages (mm_slab st') < free_pages (mm_slab st)"
    "free_pages (mm_slab st) \<le> free_pages (mm_slab st') + 4" "\<And>w. vpath w \<noteq> vpath v \<Longrightarrow> translate st' w = translate st w"
    "translate st' v \<noteq> None" "\<And>w. translate st w \<noteq> None \<Longrightarrow> translate st' w = translate st w"
proof -
  obtain f sl where m: "malloc4k_phys (mm_slab st) = Inr (f, sl)" "map_page f v True x (st\<lparr>mm_slab := sl\<rparr>) = Inr st'"
    using a by (auto simp: allocate_ram_page_def result_simps)
  have al: "page_aligned v" using m(2) by (auto simp: map_page_unfold split: if_splits)
  have wf: "slab_wf (mm_slab st)" and tok: "tree_ok (mm_pm st) (mm_cr3 st) (mm_slab st)"
    using ok by (auto simp: paging_ok_def)
  note s = slab.alloc_fresh [OF wf m(1)]
  have "tree_ok (mm_pm st) (mm_cr3 st) sl" using s by (intro tree_ok_alloc [OF tok]) auto
  then have ok1: "paging_ok (st\<lparr>mm_slab := sl\<rparr>)" using ok s by (simp add: paging_ok_def)
  have "no_huge (st\<lparr>mm_slab := sl\<rparr>) v" using nh by (simp add: no_huge_def)
  from map_page_taken [OF ok1 this, of f True x] m(2) have fresh: "translate st v = None"
    by (cases "translate st v") (auto simp: translate_vpath)
  from allocate_ram_page_cases [OF ok al nh this, of x] a obtain g where
    g: "g \<in> pool (mm_slab st) - owned (mm_slab st)" "mapped st v g st'" "g \<in> owned (mm_slab st')"
      "free_pages (mm_slab st) \<le> free_pages (mm_slab st') + 4"
    by cases auto
  show "paging_ok st'" "\<And>w. no_huge st w \<Longrightarrow> no_huge st' w" "\<And>w. vpath w \<noteq> vpath v \<Longrightarrow> translate st' w = translate st w"
    "translate st' v \<noteq> None" using g(2) by (auto simp: mapped_def)
  show "translate st' w = translate st w" if "translate st w \<noteq> None" for w
  proof -
    have "vpath w \<noteq> vpath v" using that fresh by (auto simp: translate_vpath)
    then show ?thesis using g(2) by (simp add: mapped_def)
  qed
  show "free_pages (mm_slab st') < free_pages (mm_slab st)"
    unfolding free_pages_def using g by (intro psubset_card_mono) (auto simp: mapped_def)
  show "free_pages (mm_slab st) \<le> free_pages (mm_slab st') + 4" by (rule g(4))
qed

lemma expand_loop_okay:
  assumes "kernel_okay lo hi st" "lo \<le> unat he" "unat he + 4096 * (i + free_pages (mm_slab st)) \<le> hi" "hi < 2 ^ 64"
    and "rfold (\<lambda>i st. allocate_ram_page (he + PAGE_SIZE * of_nat i) False st) [i..<i + n] st = Inr st'"
  shows "kernel_okay lo hi st' \<and> n + free_pages (mm_slab st') \<le> free_pages (mm_slab st) \<and>
    free_pages (mm_slab st) \<le> 4 * n + free_pages (mm_slab st') \<and> (\<forall>v. no_huge st v \<longrightarrow> no_huge st' v) \<and>
    (\<forall>v. (\<forall>k \<in> {i..<i + n}. vpath (he + PAGE_SIZE * of_nat k) \<noteq> vpath v) \<longrightarrow> translate st' v = translate st v) \<and>
    (\<forall>v. translate st v \<noteq> None \<longrightarrow> translate st' v = translate st v) \<and>
    (\<forall>k \<in> {i..<i + n}. translate st' (he + PAGE_SIZE * of_nat k) \<noteq> None)"
  using assms
proof (induction n arbitrary: i st)
  case (Suc n)
  have up: "[i..<i + Suc n] = i # [Suc i..<Suc i + n]" by (simp add: upt_conv_Cons)
  from Suc.prems(5) obtain st1 where s: "allocate_ram_page (he + PAGE_SIZE * of_nat i) False st = Inr st1"
    "rfold (\<lambda>i st. allocate_ram_page (he + PAGE_SIZE * of_nat i) False st) [Suc i..<Suc i + n] st1 = Inr st'"
    unfolding up by (auto simp: result_simps)
  have ok: "paging_ok st" using Suc.prems(1) by (simp add: kernel_okay_def)
  have "free_pages (mm_slab st) \<noteq> 0"
  proof
    assume "free_pages (mm_slab st) = 0"
    with s(1) slab.alloc_fresh [of "mm_slab st"] ok show False
      by (fastforce simp: allocate_ram_page_def result_simps free_pages_def paging_ok_def)
  qed
  then have lt: "unat he + 4096 * i < hi" using Suc.prems(3) by (simp add: algebra_simps)
  then have u: "unat (he + PAGE_SIZE * of_nat i) = unat he + 4096 * i"
    using Suc.prems(4) by (simp add: unat_word_ariths unat_of_nat)
  with lt Suc.prems(1,2) have nh: "no_huge st (he + PAGE_SIZE * of_nat i)" by (simp add: kernel_okay_def)
  note a = allocate_ram_page_okay [OF ok nh s(1)]
  have "kernel_okay lo hi st1" using Suc.prems(1) a by (simp add: kernel_okay_def)
  moreover have "4096 * (Suc i + free_pages (mm_slab st1)) \<le> 4096 * (i + free_pages (mm_slab st))"
    using a(3) by (intro mult_le_mono2) simp
  then have "unat he + 4096 * (Suc i + free_pages (mm_slab st1)) \<le> hi" using Suc.prems(3) by linarith
  ultimately have ih: "kernel_okay lo hi st' \<and> n + free_pages (mm_slab st') \<le> free_pages (mm_slab st1) \<and>
    free_pages (mm_slab st1) \<le> 4 * n + free_pages (mm_slab st') \<and> (\<forall>v. no_huge st1 v \<longrightarrow> no_huge st' v) \<and>
    (\<forall>v. (\<forall>k \<in> {Suc i..<Suc i + n}. vpath (he + PAGE_SIZE * of_nat k) \<noteq> vpath v) \<longrightarrow> translate st' v = translate st1 v) \<and>
    (\<forall>v. translate st1 v \<noteq> None \<longrightarrow> translate st' v = translate st1 v) \<and>
    (\<forall>k \<in> {Suc i..<Suc i + n}. translate st' (he + PAGE_SIZE * of_nat k) \<noteq> None)"
    using Suc.IH [OF _ Suc.prems(2) _ Suc.prems(4) s(2)] by blast
  have "translate st' v = translate st v" if "\<forall>k \<in> {i..<i + Suc n}. vpath (he + PAGE_SIZE * of_nat k) \<noteq> vpath v" for v
  proof -
    have "vpath v \<noteq> vpath (he + PAGE_SIZE * of_nat i)" using that by force
    moreover have "\<forall>k \<in> {Suc i..<Suc i + n}. vpath (he + PAGE_SIZE * of_nat k) \<noteq> vpath v" using that by auto
    ultimately show ?thesis using ih a(5) by simp
  qed
  moreover have "translate st' v = translate st v" if "translate st v \<noteq> None" for v
    using a(7) [OF that] that ih by simp
  moreover have "translate st' (he + PAGE_SIZE * of_nat k) \<noteq> None" if "k \<in> {i..<i + Suc n}" for k
  proof (cases "k = i")
    case True
    then show ?thesis using a(6) ih by metis
  next
    case False
    then have "k \<in> {Suc i..<Suc i + n}" using that by auto
    then show ?thesis using ih by blast
  qed
  ultimately show ?case using ih a(2,3,4) by auto
qed simp

lemma round_pages:
  defines "k n \<equiv> (n + PAGE_SIZE - 1) div PAGE_SIZE"
  shows "unat (PAGE_SIZE * k n) = 4096 * unat (k n)"
proof -
  have "unat (k n) \<le> (2 ^ 64 - 1) div 4096"
    unfolding k_def unat_div using unsigned_less [of "n + PAGE_SIZE - 1", where ?'a = nat]
    by (simp add: div_le_mono)
  then show ?thesis by (simp add: unat_word_ariths)
qed

interpretation kheap: heap_provider malloc_expand_heap kernel_avail
  "\<lambda>st. kernel_okay lo hi st \<and> hi < 2 ^ 64" lo hi for lo hi
proof
  fix e he n m e'
  assume a: "kernel_okay lo hi e \<and> hi < 2 ^ 64" "unat he mod 4096 = 0" "lo \<le> unat he"
    "unat he + kernel_avail e \<le> hi" "malloc_expand_heap he n e = Inr (m, e')"
  let ?k = "(n + PAGE_SIZE - 1) div PAGE_SIZE"
  from a(5) have r: "rfold (\<lambda>i st. allocate_ram_page (he + PAGE_SIZE * of_nat i) False st) [0..<0 + unat ?k] e = Inr e'"
    "m = PAGE_SIZE * ?k"
    by (auto simp: malloc_expand_heap_def result_simps Let_def split: if_splits)
  have "kernel_okay lo hi e'" "unat ?k + free_pages (mm_slab e') \<le> free_pages (mm_slab e)"
    using expand_loop_okay [OF _ a(3) _ _ r(1), of hi] a by (auto simp: kernel_avail_def)
  moreover have "unat m = 4096 * unat ?k" unfolding r(2) by (rule round_pages)
  ultimately show "(kernel_okay lo hi e' \<and> hi < 2 ^ 64) \<and> unat m mod 4096 = 0 \<and>
      unat m + kernel_avail e' \<le> kernel_avail e"
    using a(1) by (simp add: kernel_avail_def)
qed

text \<open>The provider maps what it hands out: every address of the new pages is translated, and no translation is lost.\<close>

lemma page_of_range:
  assumes he: "unat he mod 4096 = 0" and v: "unat he \<le> unat v" "unat v < unat he + 4096 * k"
  obtains i where "i < k" "vpath v = vpath (he + PAGE_SIZE * of_nat i)"
proof -
  define i where "i = (unat v - unat he) div 4096"
  have i: "i < k" "unat he + 4096 * i \<le> unat v" using v by (auto simp: i_def less_mult_imp_div_less mult.commute)
  have u: "unat (he + PAGE_SIZE * of_nat i) = unat he + 4096 * i"
    using i(2) unsigned_less [of v, where ?'a = nat] by (simp add: unat_word_ariths unat_of_nat)
  have "unat v = unat he + (unat v - unat he)" using v(1) by simp
  moreover have "(unat he + d) div 4096 = unat he div 4096 + d div 4096" for d using he by (intro div_plus_div_distrib_dvd_left) auto
  ultimately have "unat v div 4096 = unat he div 4096 + i" unfolding i_def by metis
  moreover have "(unat he + 4096 * i) div 4096 = unat he div 4096 + i" by simp
  ultimately have "page_no v = page_no (he + PAGE_SIZE * of_nat i)" unfolding page_no_def u by simp
  then show thesis using i(1) by (intro that vpath_same_page)
qed

interpretation kmap: mapping_provider malloc_expand_heap kernel_avail
  "\<lambda>st. kernel_okay lo hi st \<and> hi < 2 ^ 64" lo hi "\<lambda>st v. translate st v \<noteq> None" for lo hi
proof
  fix e he n m e'
  assume a: "kernel_okay lo hi e \<and> hi < 2 ^ 64" "unat he mod 4096 = 0" "lo \<le> unat he"
    "unat he + kernel_avail e \<le> hi" "malloc_expand_heap he n e = Inr (m, e')"
  let ?k = "(n + PAGE_SIZE - 1) div PAGE_SIZE"
  from a(5) have r: "rfold (\<lambda>i st. allocate_ram_page (he + PAGE_SIZE * of_nat i) False st) [0..<0 + unat ?k] e = Inr e'"
    "m = PAGE_SIZE * ?k"
    by (auto simp: malloc_expand_heap_def result_simps Let_def split: if_splits)
  have m: "unat m = 4096 * unat ?k" unfolding r(2) by (rule round_pages)
  have x: "\<And>v. translate e v \<noteq> None \<Longrightarrow> translate e' v \<noteq> None"
    "\<And>i. i < unat ?k \<Longrightarrow> translate e' (he + PAGE_SIZE * of_nat i) \<noteq> None"
    using expand_loop_okay [of lo hi e he 0, OF _ a(3) _ _ r(1)] a(1,4) by (simp_all add: kernel_avail_def)
  have "translate e' v \<noteq> None" if v: "unat he \<le> unat v" "unat v < unat he + unat m" for v
  proof -
    obtain i where "i < unat ?k" "vpath v = vpath (he + PAGE_SIZE * of_nat i)" using page_of_range [OF a(2) v(1)] v(2) m by auto
    then show ?thesis using x(2) [of i] by (simp add: translate_vpath)
  qed
  then show "(\<forall>v. translate e v \<noteq> None \<longrightarrow> translate e' v \<noteq> None) \<and>
      (\<forall>v. unat he \<le> unat v \<and> unat v < unat he + unat m \<longrightarrow> translate e' v \<noteq> None)" using x(1) by blast
qed

section \<open>Start-up\<close>

record limine_memmap_entry =
  me_base :: u64
  me_length :: u64
  me_type :: u64

abbreviation LIMINE_MEMMAP_USABLE :: u64 where "LIMINE_MEMMAP_USABLE \<equiv> 0"
abbreviation BIG_AMOUNT_OF_RAM :: u64 where "BIG_AMOUNT_OF_RAM \<equiv> 0x4000000000"

text \<open>The search for a usable range; \<open>result\<close> keeps the last entry looked at.\<close>

fun pick_range :: "limine_memmap_entry list \<Rightarrow> limine_memmap_entry option \<Rightarrow> limine_memmap_entry option" where
  "pick_range [] result = result"
| "pick_range (e # es) result =
     (if me_length e \<ge> 1000000000 \<and> me_type e = LIMINE_MEMMAP_USABLE then Some e else pick_range es (Some e))"

record GdtTable =
  gt_blank :: u64
  gt_kern_code :: GdtEntry
  gt_kern_data :: GdtEntry
  gt_user_code :: GdtEntry
  gt_user_data :: GdtEntry
  gt_tss_descriptor :: TssDescriptor

record kernel =
  k_heap :: "mmu allocator"
  k_tss :: TssEntry
  k_gdt :: GdtTable

definition zero_tss :: TssEntry where
  "zero_tss = \<lparr>tss_reserved0 = 0, tss_rsp0 = 0, tss_rsp1 = 0, tss_rsp2 = 0, tss_reserved1 = 0, tss_ist1 = 0,
     tss_ist2 = 0, tss_ist3 = 0, tss_ist4 = 0, tss_ist5 = 0, tss_ist6 = 0, tss_ist7 = 0, tss_reserved2 = 0,
     tss_reserved3 = 0, tss_iomap_base = 0\<rparr>"

text \<open>
  The boot loader's answers (\<open>entries\<close> and \<open>offset\<close>, \<open>None\<close> for a missing response), the contents of
  memory, \<open>CR3\<close> and the link-time addresses of the stack and the segment are arguments.
\<close>

definition memory_init ::
  "limine_memmap_entry list option \<Rightarrow> u64 option \<Rightarrow> u64 \<Rightarrow> (u64 \<Rightarrow> PageTableEntry) \<Rightarrow> mem \<Rightarrow> u64 \<Rightarrow> u64 \<Rightarrow>
   kernel result" where
  "memory_init memmap hhdm cr3 pm bytes interrupt_stack_top tss_entry_addr =
     (case memmap of None \<Rightarrow> Inl HCF | Some entries \<Rightarrow>
      case hhdm of None \<Rightarrow> Inl HCF | Some hhdm_offset \<Rightarrow>
      case pick_range entries None of None \<Rightarrow> Inl HCF | Some result \<Rightarrow>
      let base_virt_hhdm = me_base result + hhdm_offset;
          kheap_start = base_virt_hhdm + BIG_AMOUNT_OF_RAM;
          mmio_start = kheap_start + BIG_AMOUNT_OF_RAM;
          st = \<lparr>mm_pm = pm, mm_cr3 = cr3, mm_hhdm_offset = hhdm_offset, mm_mmio_start = mmio_start,
                mm_original_kernel_page_table = cr3 + hhdm_offset,
                mm_slab = init_physical_memory (me_base result) (me_length result)\<rparr>
      in if mmio_start + BIG_AMOUNT_OF_RAM \<ge> 0xffffffff80000000 then Inl HCF else
         rbind (fill_kernel_pml4 st) (\<lambda>st1.
         rbind (init_memory_allocator malloc_expand_heap kheap_start bytes st1) (\<lambda>heap.
         Inr \<lparr>k_heap = heap,
              k_tss = zero_tss\<lparr>tss_rsp0 := interrupt_stack_top, tss_iomap_base := ucast sizeof_TssEntry\<rparr>,
              k_gdt = \<lparr>gt_blank = 0, gt_kern_code = generate_gdt_entry True 0, gt_kern_data = generate_gdt_entry False 0,
                gt_user_code = generate_gdt_entry True 3, gt_user_data = generate_gdt_entry False 3,
                gt_tss_descriptor = init_tss_descriptor tss_entry_addr\<rparr>\<rparr>)))"

section \<open>Faults\<close>

text \<open>Every fault of the kernel's expander is a halt, and it keeps the page allocator well formed.\<close>

abbreviation good_slab :: "mmu \<Rightarrow> bool" where "good_slab st \<equiv> slab_wf (mm_slab st)"

lemma malloc4k_faults: "slab_wf s \<Longrightarrow> halts_or (\<lambda>(p, s'). slab_wf s') (malloc4k_phys s)"
  by (cases "malloc4k_phys s") (auto dest: slab.alloc_fresh slab.alloc_exhausted)

lemma setup_faults: "good_slab st \<Longrightarrow> halts_or good_slab (setup_page_table_entry p st)"
proof -
  have s: "mm_slab (fold (clear_entry b) ns s) = mm_slab s" for b ns s
    by (induction ns arbitrary: s) (simp_all add: clear_entry_def store_pte_def)
  assume "good_slab st"
  from malloc4k_faults [OF this] show ?thesis
    unfolding setup_page_table_entry_def
    by (auto simp: Let_def store_pte_def s simp del: upt_conv_Cons_Cons intro!: halts_or_rbind)
qed

lemma descend_faults: "good_slab st \<Longrightarrow> halts_or (\<lambda>(u, st'). good_slab st') (descend u i st)"
  unfolding descend_def Let_def by (rule halts_or_rbind [of good_slab]) (auto intro: setup_faults)

lemma map_page_faults: "good_slab st \<Longrightarrow> halts_or good_slab (map_page p v c x st)"
  unfolding map_page_unfold descend3_def
  by (auto simp: Let_def intro!: halts_or_rbind [of "\<lambda>(u, st'). good_slab st'"] descend_faults)

lemma allocate_faults: "good_slab st \<Longrightarrow> halts_or good_slab (allocate_ram_page v x st)"
  unfolding allocate_ram_page_def
  by (rule halts_or_rbind [OF malloc4k_faults]) (auto intro: map_page_faults)

lemma expand_faults: "good_slab st \<Longrightarrow> halts_or (\<lambda>_. True) (malloc_expand_heap he n st)"
  unfolding malloc_expand_heap_def Let_def
  by (auto intro!: halts_or_rbind [of good_slab] halts_or_rfold allocate_faults)

lemma kernel_refused: "kheap.refused lo hi k h f \<Longrightarrow> f = HCF"
  unfolding kheap.refused_def
  by (auto simp: kernel_okay_def paging_ok_def dest: expand_faults [THEN halts_orD(1), rotated])

text \<open>The expander rounds the request up to whole pages, so it never gives too little.\<close>

lemma expand_enough:
  assumes "malloc_expand_heap he n e = Inr (m, e')" and "unat n \<le> 2 ^ 63 + 31"
  shows "n \<le> m"
proof -
  have m: "m = PAGE_SIZE * ((n + PAGE_SIZE - 1) div PAGE_SIZE)"
    using assms(1) by (auto simp: malloc_expand_heap_def result_simps Let_def split: if_splits)
  have "unat (n + PAGE_SIZE - 1) = unat n + 4095" using assms(2) by (simp add: unat_word_ariths)
  then have "unat m = 4096 * ((unat n + 4095) div 4096)"
    unfolding m round_pages by (simp add: unat_div)
  then show ?thesis by (simp add: word_le_nat_alt)
qed

lemma kernel_not_short: "unat bytes \<le> 2 ^ 63 \<Longrightarrow> \<not> kheap.short lo hi (unat bytes + 31) h"
  unfolding kheap.short_def using expand_enough by (fastforce simp: word_less_nat_alt word_le_nat_alt)

section \<open>Properties\<close>

definition blocks :: "'e allocator \<Rightarrow> (u64 \<times> nat) set" where
  "blocks h = (\<lambda>(c, s). (c + LLI_SIZE, s)) ` live (al_items h) (al_heap_end h)"

definition kheap_inv :: "nat \<Rightarrow> nat \<Rightarrow> mmu allocator \<Rightarrow> bool" where
  "kheap_inv lo hi h \<longleftrightarrow> heap_inv kernel_avail (\<lambda>st. kernel_okay lo hi st \<and> hi < 2 ^ 64) lo hi h"

definition apart :: "u64 \<times> nat \<Rightarrow> u64 \<times> nat \<Rightarrow> bool" where
  "apart x y \<longleftrightarrow> unat (fst x) + snd x \<le> unat (fst y) \<or> unat (fst y) + snd y \<le> unat (fst x)"

lemma blocks_iff: "(p, s) \<in> blocks h \<longleftrightarrow> (p - LLI_SIZE, s) \<in> live (al_items h) (al_heap_end h)"
  by (force simp: blocks_def image_iff)

lemma fst_blocks: "fst ` blocks h = (\<lambda>c. c + LLI_SIZE) ` fst ` live (al_items h) (al_heap_end h)"
  by (simp add: blocks_def image_image split_beta)

lemma blocks_apart:
  assumes "heap_inv avail okay lo hi h" "(p, s) \<in> blocks h" "(q, r) \<in> blocks h" "p \<noteq> q"
  shows "apart (p, s) (q, r)"
proof -
  have l: "(p - 16, s) \<in> live (al_items h) (al_heap_end h)" "(q - 16, r) \<in> live (al_items h) (al_heap_end h)"
    using assms(2,3) by (simp_all add: blocks_iff)
  have u: "unat p = unat (p - 16) + 16" "unat q = unat (q - 16) + 16"
    using live_geometry(1) [OF assms(1) l(1)] live_geometry(1) [OF assms(1) l(2)] by simp_all
  have "p - 16 \<noteq> q - 16" using assms(4) by simp
  from live_disjoint [OF assms(1) l this] show ?thesis using u by (auto simp: apart_def)
qed

lemma blocks_geometry:
  assumes "heap_inv avail okay lo hi h" "(p, s) \<in> blocks h"
  shows "unat p mod 16 = 0" "unat p + s \<le> unat (al_heap_end h)" "p \<noteq> 0"
proof -
  have l: "(p - 16, s) \<in> live (al_items h) (al_heap_end h)" using assms(2) by (simp add: blocks_iff)
  note g = live_geometry [OF assms(1) l]
  show "unat p mod 16 = 0" "unat p + s \<le> unat (al_heap_end h)" using g by simp_all
  show "p \<noteq> 0" using g(1) by (auto simp: word_unat_eq_iff)
qed

lemma blocks_insert:
  assumes "live (al_items h') (al_heap_end h') = insert (c, s) A"
  shows "blocks h' = insert (c + 16, s) ((\<lambda>(c, s). (c + 16, s)) ` A)"
  by (simp add: blocks_def assms)

text \<open>A claimed region is a fresh block.\<close>

lemma claimed_blocks:
  assumes "claimed avail okay lo hi n h ptr h'"
  shows "heap_inv avail okay lo hi h' \<and> al_bytes h' = al_bytes h \<and> ptr \<noteq> 0 \<and> unat ptr mod 16 = 0 \<and>
    (\<exists>s \<ge> n. blocks h' = insert (ptr, s) (blocks h) \<and> unat ptr + s \<le> unat (al_heap_end h') \<and> (\<forall>b \<in> blocks h. apart (ptr, s) b))"
proof -
  from assms obtain c s where c: "ptr = c + 16" "n \<le> s" "c \<notin> fst ` live (al_items h) (al_heap_end h)"
    "live (al_items h') (al_heap_end h') = insert (c, s) (live (al_items h) (al_heap_end h))" "ptr \<noteq> 0"
    "heap_inv avail okay lo hi h'" "al_bytes h' = al_bytes h"
    by (auto simp: claimed_def)
  have b: "blocks h' = insert (ptr, s) (blocks h)" using blocks_insert [OF c(4)] c(1) by (simp add: blocks_def)
  have "apart (ptr, s) y" if "y \<in> blocks h" for y
  proof -
    obtain q r where y: "y = (q, r)" by (cases y)
    have "ptr \<noteq> q" using that c(1,3) y by (force simp: blocks_iff)
    with blocks_apart [OF c(6), of ptr s q r] that b y show ?thesis by simp
  qed
  then show ?thesis using b c blocks_geometry [OF c(6), of ptr s] by auto
qed

lemma grown_blocks: "grown (live (al_items h) (al_heap_end h)) (live (al_items h') (al_heap_end h')) \<Longrightarrow> grown (blocks h) (blocks h')"
  unfolding grown_def fst_blocks by (force simp: blocks_def)

text \<open>A kernel heap for the witnesses: one page at \<open>0x400000\<close>, with three physical pages left.\<close>

lemma small_heap:
  obtains h where "init_memory_allocator malloc_expand_heap 0x400000 (\<lambda>_. 0) small_mmu = Inr h"
    "kheap_inv 0x400000 0x404000 h" "blocks h = {}" "al_head h = 0x400000" "al_tail h = 0x400000"
    "al_heap_end h = 0x401000" "al_items h = lli_new 0 0x400000 (\<lambda>_. None)"
proof -
  have al: "page_aligned 0x400000" by (simp add: page_aligned_def)
  obtain st1 where st1: "allocate_ram_page 0x400000 False small_mmu = Inr st1"
    using allocate_ram_page_cases [OF small_ok(1) al small_ok(2,3), of False] small_ok(4) by cases auto
  have m: "(0x400000 :: u64) AND 0xFFF = 0" using al mask_zero by blast
  have "malloc_expand_heap 0x400000 16 small_mmu = Inr (4096, st1)"
    using st1 m by (simp add: malloc_expand_heap_def)
  then obtain h where i: "init_memory_allocator malloc_expand_heap 0x400000 (\<lambda>_. 0) small_mmu = Inr h"
      and f: "al_head h = 0x400000" "al_tail h = 0x400000" "al_heap_end h = 0x401000"
        "al_items h = lli_new 0 0x400000 (\<lambda>_. None)"
    by (simp add: init_memory_allocator_def)
  have ok: "kernel_okay 0x400000 0x404000 small_mmu \<and> (0x404000 :: nat) < 2 ^ 64"
    using small_ok by (simp add: kernel_okay_def)
  have "heap_inv kernel_avail (\<lambda>st. kernel_okay 0x400000 0x404000 st \<and> (0x404000 :: nat) < 2 ^ 64) 0x400000 0x404000 h \<and>
      live (al_items h) (al_heap_end h) = {} \<and> al_head h = 0x400000"
    by (rule kheap.init_ok [OF ok _ _ _ _ _ _ i]) (simp_all add: kernel_avail_def small_ok)
  then show thesis using i f by (intro that [OF i]) (simp_all add: kheap_inv_def blocks_def)
qed

lemma small_malloc:
  assumes "al_head h = 0x400000" "al_tail h = 0x400000" "al_heap_end h = 0x401000"
    "al_items h = lli_new 0 0x400000 (\<lambda>_. None)"
  shows "malloc x 100 h = Inr (0x400010, h\<lparr>al_items := [0x400000 \<mapsto> \<lparr>lli_next = 0x400080, lli_free = False, lli_canary = LL_CANARY\<rparr>,
     0x400080 \<mapsto> \<lparr>lli_next = 0, lli_free = True, lli_canary = LL_CANARY\<rparr>], al_tail := 0x400080\<rparr>)"
proof -
  have "find_free_loop 0x400000 112 h = Some (Inr (Some 0x400000, h\<lparr>al_items := lli_new 0 0x400000 (\<lambda>_. None), al_tail := 0x400000\<rparr>))"
    using assms
    by (subst find_free_loop.simps, subst merge_all.simps)
       (simp add: lli_new_def lli_try_merge_after_def get_next_def assert_invariant_def deref_def lli_region_size_def
         lli_region_start_def lli_is_free_def Let_def)
  then show ?thesis
    using assms
    by (simp add: malloc_def find_or_make_free_def carve_def lli_mark_as_def lli_new_def assert_invariant_def deref_def
        lli_region_size_def lli_region_start_def lli_insert_after_def get_next_def Let_def fun_upd_twist)
qed

lemma small_live:
  assumes "kheap_inv lo hi h" "blocks h = {}" "al_head h = 0x400000" "al_tail h = 0x400000" "al_heap_end h = 0x401000"
    "al_items h = lli_new 0 0x400000 (\<lambda>_. None)"
  shows "\<exists>h1. malloc malloc_expand_heap 100 h = Inr (0x400010, h1) \<and> kheap_inv lo hi h1 \<and>
    blocks h1 = {(0x400010, 112)} \<and> al_head h1 = 0x400000 \<and> al_tail h1 = 0x400080 \<and> al_heap_end h1 = 0x401000 \<and>
    al_items h1 = [0x400000 \<mapsto> \<lparr>lli_next = 0x400080, lli_free = False, lli_canary = LL_CANARY\<rparr>,
     0x400080 \<mapsto> \<lparr>lli_next = 0, lli_free = True, lli_canary = LL_CANARY\<rparr>]"
proof -
  note m = small_malloc [OF assms(3-6), of malloc_expand_heap]
  have "(100 :: u64) \<noteq> 0" "unat (100 :: u64) \<le> 2 ^ 63" by simp_all
  from kheap.malloc_ok [OF assms(1) [unfolded kheap_inv_def] this] m have
    "kheap_inv lo hi (h\<lparr>al_items := [0x400000 \<mapsto> \<lparr>lli_next = 0x400080, lli_free = False, lli_canary = LL_CANARY\<rparr>,
     0x400080 \<mapsto> \<lparr>lli_next = 0, lli_free = True, lli_canary = LL_CANARY\<rparr>], al_tail := 0x400080\<rparr>)"
    by cases (auto simp: kheap_inv_def claimed_def)
  moreover have "live [0x400000 \<mapsto> \<lparr>lli_next = 0x400080, lli_free = False, lli_canary = LL_CANARY\<rparr>,
     0x400080 \<mapsto> \<lparr>lli_next = 0, lli_free = True, lli_canary = LL_CANARY\<rparr>] (0x401000 :: u64) = {(0x400000, 112)}"
    by (auto simp: live_def good_items_iff goodp_def freep_def rsize_def region_end_def nextp_def split: if_splits)
  ultimately show ?thesis using m assms by (simp add: blocks_def)
qed


text \<open>C30. Kernel \<open>free\<close>. Freeing a live block succeeds and removes exactly that block from the live ones;
  the stored bytes and the heap's well-formedness are kept.\<close>

theorem kernel_free_sound:
  assumes "kheap_inv lo hi h" and "(ptr, s) \<in> blocks h"
  shows "\<exists>h'. free ptr h = Inr h' \<and> kheap_inv lo hi h' \<and> blocks h' = blocks h - {(ptr, s)} \<and> al_bytes h' = al_bytes h"
proof -
  have l: "(ptr - 16, s) \<in> live (al_items h) (al_heap_end h)" using assms(2) by (simp add: blocks_iff)
  from free_ok [OF assms(1) [unfolded kheap_inv_def] l] obtain N' where
    f: "free (ptr - 16 + 16) h = Inr (h\<lparr>al_items := N'\<rparr>)" "kheap_inv lo hi (h\<lparr>al_items := N'\<rparr>)"
    "live N' (al_heap_end h) = live (al_items h) (al_heap_end h) - {(ptr - 16, s)}"
    unfolding kheap_inv_def by metis
  have "blocks (h\<lparr>al_items := N'\<rparr>) = blocks h - {(ptr, s)}"
  proof (rule set_eqI)
    fix y :: "u64 \<times> nat" obtain q r where y: "y = (q, r)" by (cases y)
    show "y \<in> blocks (h\<lparr>al_items := N'\<rparr>) \<longleftrightarrow> y \<in> blocks h - {(ptr, s)}"
      by (auto simp: y blocks_iff f(3))
  qed
  with f show ?thesis by auto
qed

theorem kernel_free_sound_witness:
  "\<exists>h h1 h2 s. init_memory_allocator malloc_expand_heap 0x400000 (\<lambda>_. 0) small_mmu = Inr h \<and>
     malloc malloc_expand_heap 100 h = Inr (0x400010, h1) \<and> (0x400010, s) \<in> blocks h1 \<and>
     free 0x400010 h1 = Inr h2 \<and> blocks h2 = {}"
proof -
  obtain h where h: "init_memory_allocator malloc_expand_heap 0x400000 (\<lambda>_. 0) small_mmu = Inr h"
    "kheap_inv 0x400000 0x404000 h" "blocks h = {}" "al_head h = 0x400000" "al_tail h = 0x400000"
    "al_heap_end h = 0x401000" "al_items h = lli_new 0 0x400000 (\<lambda>_. None)" by (rule small_heap)
  from small_live [OF this(2-7)] obtain h1 where
    h1: "malloc malloc_expand_heap 100 h = Inr (0x400010, h1)" "kheap_inv 0x400000 0x404000 h1"
    "blocks h1 = {(0x400010, 112)}" by blast
  from kernel_free_sound [OF h1(2), of "0x400010" 112] h1 h(1) show ?thesis by auto
qed




text \<open>A size near \<open>2 ^ 64\<close> wraps. \<open>malloc\<close> rounds the size up to a multiple of 16 modulo \<open>2 ^ 64\<close>, so for
  the fifteen largest sizes it looks for a region of zero bytes: with a free first region it returns a
  non-null pointer to a block of zero bytes instead of null.\<close>

theorem malloc_huge_size_wraps:
  assumes "2 ^ 64 - 16 < unat bytes"
    and "al_head h = 0x400000" and "al_tail h = 0x400000" and "al_heap_end h = 0x401000"
    and "al_items h = lli_new 0 0x400000 (\<lambda>_. None)"
  shows "\<exists>h'. malloc x bytes h = Inr (0x400010, h') \<and> (0x400010, 0) \<in> blocks h'"
proof -
  have "unat (bytes + 15) = unat bytes + 15 - 2 ^ 64"
    using assms(1) unsigned_less [of bytes, where ?'a = nat] by (simp add: unat_word_ariths le_mod_geq)
  then have "unat (bytes + 15) < 16" using unsigned_less [of bytes, where ?'a = nat] by simp
  then have "(bytes + 15) div 16 = 0" by (simp add: word_unat_eq_iff unat_div)
  moreover have "bytes + 16 - 1 = bytes + 15" by simp
  ultimately have req: "(bytes + 16 - 1) div 16 = 0" by metis
  have b0: "bytes \<noteq> 0" using assms(1) by auto
  have "find_free_loop 0x400000 0 h = Some (Inr (Some 0x400000, h\<lparr>al_items := lli_new 0 0x400000 (\<lambda>_. None), al_tail := 0x400000\<rparr>))"
    using assms
    by (subst find_free_loop.simps, subst merge_all.simps)
       (simp add: lli_new_def lli_try_merge_after_def get_next_def assert_invariant_def deref_def lli_region_size_def
         lli_region_start_def lli_is_free_def Let_def)
  then show ?thesis
    using assms(2-5) b0 req
    by (simp add: malloc_def find_or_make_free_def carve_def lli_mark_as_def lli_new_def assert_invariant_def deref_def
        lli_region_size_def lli_region_start_def lli_insert_after_def get_next_def Let_def blocks_iff live_def
        good_items_iff goodp_def freep_def rsize_def region_end_def nextp_def del: One_nat_def)
qed

theorem malloc_huge_size_wraps_witness:
  "\<exists>h h'. init_memory_allocator malloc_expand_heap 0x400000 (\<lambda>_. 0) small_mmu = Inr h \<and>
     malloc malloc_expand_heap 0xFFFFFFFFFFFFFFFF h = Inr (0x400010, h') \<and> (0x400010, 0) \<in> blocks h'"
proof -
  obtain h where h: "init_memory_allocator malloc_expand_heap 0x400000 (\<lambda>_. 0) small_mmu = Inr h"
    "al_head h = 0x400000" "al_tail h = 0x400000" "al_heap_end h = 0x401000"
    "al_items h = lli_new 0 0x400000 (\<lambda>_. None)" by (rule small_heap)
  have "2 ^ 64 - 16 < unat (0xFFFFFFFFFFFFFFFF :: u64)" by simp
  from malloc_huge_size_wraps [OF this h(2-5), of malloc_expand_heap] h(1) show ?thesis by blast
qed

text \<open>Choice of the memory range. \<open>memory_init\<close> takes the first usable range of at least a billion bytes; when
  there is none it takes the last range of the map, whatever its type and size, and halts only on an
  empty map.\<close>

theorem pick_range_spec:
  "pick_range entries None =
     (case List.find (\<lambda>e. me_length e \<ge> 1000000000 \<and> me_type e = LIMINE_MEMMAP_USABLE) entries of
        Some e \<Rightarrow> Some e
      | None \<Rightarrow> if entries = [] then None else Some (last entries))"
proof -
  have "pick_range entries r =
     (case List.find (\<lambda>e. me_length e \<ge> 1000000000 \<and> me_type e = LIMINE_MEMMAP_USABLE) entries of
        Some e \<Rightarrow> Some e
      | None \<Rightarrow> if entries = [] then r else Some (last entries))" for r
    by (induction entries arbitrary: r) (auto split: option.splits)
  then show ?thesis by simp
qed

end
