(* ===== verification/Address_Space.thy ===== *)
theory Address_Space
  imports Kernel_Heap
begin

text \<open>
  The two halves of an address space. Every process has page tables of its own whose upper half is shared with
  the kernel: \<open>generate_clean_virtual_addressing\<close> (\<open>stuos/src/memory.c\<close>) copies the kernel's root table, entry by entry; that its
  lower half is empty is checked for the first entry only. This theory shows that user addresses and kernel addresses never share a page table entry,
  what a run of \<open>allocate_ram_page\<close> calls over consecutive pages does, that kernel \<open>malloc\<close> and \<open>free\<close> leave the user
  half as it is and succeed while there are free physical pages, that the new root is well formed, and that the blocks of the kernel's heap are mapped.
\<close>

section \<open>Pages and page table entries\<close>

definition user_addr :: "u64 \<Rightarrow> bool" where
  "user_addr v \<longleftrightarrow> unat v < 2 ^ 47"

abbreviation KERNEL_HALF :: nat where "KERNEL_HALF \<equiv> 0xFFFF800000000000"

lemma vpath_page_no:
  assumes "vpath v = vpath w" and top: "drop_bit 48 v = drop_bit 48 w"
  shows "page_no v = page_no w"
proof -
  have i: "(ucast (drop_bit k v) :: 9 word) = ucast (drop_bit k w)" if "k \<in> {12, 21, 30, 39}" for k
    using assms(1) that by (auto simp: vpath_def pointer_bitmap_def Let_def)
  have b: "bit v n = bit w n" if "k \<in> {12, 21, 30, 39}" "k \<le> n" "n < k + 9" for k n
  proof -
    have "n - k < 9" "k + (n - k) = n" "n < 64" using that by auto
    then show ?thesis using arg_cong [OF i [OF that(1)], of "\<lambda>x. bit x (n - k)"] by (simp add: bit_simps)
  qed
  have t: "bit v n = bit w n" if "48 \<le> n" for n
    using arg_cong [OF top, of "\<lambda>x. bit x (n - 48)"] that by (simp add: bit_simps)
  have "bit v n = bit w n" if "12 \<le> n" for n
  proof -
    consider "n < 12 + 9" | "21 \<le> n" "n < 21 + 9" | "30 \<le> n" "n < 30 + 9" | "39 \<le> n" "n < 39 + 9" | "48 \<le> n" by linarith
    then show ?thesis using b [of 12 n, OF _ that] b [of 21 n] b [of 30 n] b [of 39 n] t [of n] by cases blast+
  qed
  then have "drop_bit 12 v = drop_bit 12 w" by (intro bit_word_eqI) (simp add: bit_simps)
  then show ?thesis by (simp add: page_no_drop_bit)
qed

lemma user_top: "user_addr v \<Longrightarrow> drop_bit 48 v = 0"
  by (simp add: user_addr_def drop_bit_eq_div word_unat_eq_iff unat_div)

lemma kernel_bit: "KERNEL_HALF \<le> unat (w :: u64) \<Longrightarrow> unat w div 2 ^ 47 = 2 ^ 17 - 1"
  using unsigned_less [of w, where ?'a = nat] by (intro div_nat_eqI) simp_all

lemma kernel_top: "KERNEL_HALF \<le> unat (w :: u64) \<Longrightarrow> drop_bit 48 w = 0xFFFF"
proof -
  assume "KERNEL_HALF \<le> unat (w :: u64)"
  then have "unat w div 2 ^ 48 = 0xFFFF" using unsigned_less [of w, where ?'a = nat] by (intro div_nat_eqI) simp_all
  then show ?thesis by (simp add: drop_bit_eq_div word_unat_eq_iff unat_div)
qed

lemma user_vpath_iff: "user_addr v \<Longrightarrow> user_addr w \<Longrightarrow> vpath v = vpath w \<longleftrightarrow> page_no v = page_no w"
  using vpath_page_no [of v w] vpath_same_page [of v w] user_top [of v] user_top [of w] by auto

lemma kernel_vpath_iff: "KERNEL_HALF \<le> unat v \<Longrightarrow> KERNEL_HALF \<le> unat w \<Longrightarrow> vpath v = vpath w \<longleftrightarrow> page_no v = page_no w"
  using vpath_page_no [of v w] vpath_same_page [of v w] kernel_top [of v] kernel_top [of w] by auto

lemma halves_apart: "user_addr v \<Longrightarrow> KERNEL_HALF \<le> unat w \<Longrightarrow> vpath v \<noteq> vpath w"
proof
  assume v: "user_addr v" and w: "KERNEL_HALF \<le> unat w" and "vpath v = vpath w"
  then have "(ucast (drop_bit 39 v) :: 9 word) = ucast (drop_bit 39 w)" by (simp add: vpath_def pointer_bitmap_def Let_def)
  from arg_cong [OF this, of "\<lambda>x. bit x 8"] have "bit v 47 = bit w 47" by (simp add: bit_simps)
  moreover have "bit (unat w) 47" using kernel_bit [OF w] by (simp only: bit_iff_odd) simp
  then have "bit w 47" by (simp add: bit_unsigned_iff)
  moreover have "\<not> bit (unat v) 47" using v by (simp add: user_addr_def bit_iff_odd)
  then have "\<not> bit v 47" by (simp add: bit_unsigned_iff)
  ultimately show False by simp
qed

section \<open>Allocating consecutive pages\<close>

text \<open>What mapping more pages keeps of the address space.\<close>

definition keeps_space :: "mmu \<Rightarrow> mmu \<Rightarrow> bool" where
  "keeps_space st st' \<longleftrightarrow> paging_ok st' \<and> (\<forall>w. no_huge st w \<longrightarrow> no_huge st' w) \<and> pool (mm_slab st') = pool (mm_slab st) \<and>
     owned (mm_slab st) \<subseteq> owned (mm_slab st') \<and> mm_cr3 st' = mm_cr3 st \<and> mm_hhdm_offset st' = mm_hhdm_offset st \<and>
     mm_original_kernel_page_table st' = mm_original_kernel_page_table st"

lemma keeps_space_refl: "paging_ok st \<Longrightarrow> keeps_space st st"
  by (simp add: keeps_space_def)

lemma keeps_space_trans: "keeps_space st st1 \<Longrightarrow> keeps_space st1 st2 \<Longrightarrow> keeps_space st st2"
  by (auto simp: keeps_space_def)

lemma keeps_space_free: "keeps_space st st' \<Longrightarrow> free_pages (mm_slab st') \<le> free_pages (mm_slab st)"
  unfolding free_pages_def keeps_space_def by (intro card_mono) auto

abbreviation allocate_pages :: "u64 \<Rightarrow> bool \<Rightarrow> nat \<Rightarrow> mmu \<Rightarrow> mmu result" where
  "allocate_pages p x n \<equiv> rfold (\<lambda>i. allocate_ram_page (p + PAGE_SIZE * of_nat i) x) [0..<n]"

lemma page_aligned_step: "page_aligned p \<Longrightarrow> page_aligned (p + PAGE_SIZE * k)"
proof -
  assume p: "page_aligned p"
  have "unat (p + PAGE_SIZE * k) = (unat p + 4096 * unat k) mod 2 ^ 64" by (simp add: unat_word_ariths mod_simps)
  moreover have "(unat p + 4096 * unat k) mod 2 ^ 64 mod 4096 = (unat p + 4096 * unat k) mod 4096"
    by (rule mod_mod_cancel) simp
  ultimately show ?thesis using p by (simp add: page_aligned_def)
qed

definition pages_mapped :: "u64 \<Rightarrow> nat \<Rightarrow> mmu \<Rightarrow> mmu \<Rightarrow> bool" where
  "pages_mapped p n st st' \<longleftrightarrow> keeps_space st st' \<and> (\<forall>i < n. translate st' (p + PAGE_SIZE * of_nat i) \<noteq> None) \<and>
     (\<forall>v. (\<forall>i < n. vpath v \<noteq> vpath (p + PAGE_SIZE * of_nat i)) \<longrightarrow> translate st' v = translate st v) \<and>
     free_pages (mm_slab st) \<le> free_pages (mm_slab st') + 4 * n"

lemma allocate_pages_cases:
  assumes "paging_ok st" "page_aligned p" "\<forall>i < n. no_huge st (p + PAGE_SIZE * of_nat i)"
    "\<forall>i < n. translate st (p + PAGE_SIZE * of_nat i) = None" "inj_on (\<lambda>i. vpath (p + PAGE_SIZE * of_nat i)) {..<n}"
  shows "allocate_pages p x n st = Inl HCF \<and> free_pages (mm_slab st) < 4 * n \<or>
    (\<exists>st'. allocate_pages p x n st = Inr st' \<and> pages_mapped p n st st')"
  using assms
proof (induction n)
  case 0
  then show ?case by (simp add: pages_mapped_def keeps_space_refl)
next
  case (Suc n)
  let ?a = "\<lambda>i. p + PAGE_SIZE * of_nat i"
  have "inj_on (\<lambda>i. vpath (?a i)) {..<n}" by (rule inj_on_subset [OF Suc.prems(5)]) auto
  then consider "allocate_pages p x n st = Inl HCF" "free_pages (mm_slab st) < 4 * n"
    | st1 where "allocate_pages p x n st = Inr st1" "pages_mapped p n st st1"
    using Suc.IH [OF Suc.prems(1,2)] Suc.prems(3,4) by auto
  then show ?case
  proof cases
    case 1
    then show ?thesis by (simp add: rfold_append)
  next
    case (2 st1)
    have ne: "\<forall>i < n. vpath (?a n) \<noteq> vpath (?a i)"
    proof (intro allI impI notI)
      fix i assume "i < n" "vpath (?a n) = vpath (?a i)"
      with inj_onD [OF Suc.prems(5), of n i] show False by simp
    qed
    have same: "translate st1 v = translate st v" if "\<forall>i < n. vpath v \<noteq> vpath (?a i)" for v
      using 2(2) that unfolding pages_mapped_def by blast
    have pre: "paging_ok st1" "no_huge st1 (?a n)" "translate st1 (?a n) = None"
      using 2(2) Suc.prems(3,4) same [OF ne] by (simp_all add: keeps_space_def pages_mapped_def)
    show ?thesis
    proof (rule allocate_ram_page_cases [OF pre(1) page_aligned_step [OF Suc.prems(2)] pre(2,3), of x])
      assume "allocate_ram_page (?a n) x st1 = Inl HCF" "free_pages (mm_slab st1) < 4"
      then show ?thesis using 2 by (simp add: rfold_append pages_mapped_def)
    next
      fix f st' assume s: "allocate_ram_page (?a n) x st1 = Inr st'" "mapped st1 (?a n) f st'"
        "free_pages (mm_slab st1) \<le> free_pages (mm_slab st') + 4"
      have m: "translate st' v = translate st1 v" if "vpath v \<noteq> vpath (?a n)" for v using s(2) that by (simp add: mapped_def)
      have t: "translate st' (?a i) \<noteq> None" if "i < Suc n" for i
      proof (cases "i = n")
        case True
        then show ?thesis using s(2) by (simp add: mapped_def)
      next
        case False
        then have i: "i < n" using that by simp
        then have "vpath (?a i) \<noteq> vpath (?a n)" using ne by metis
        then show ?thesis using m i 2(2) by (simp add: pages_mapped_def)
      qed
      have "translate st' v = translate st v" if "\<forall>i < Suc n. vpath v \<noteq> vpath (?a i)" for v
        using that m [of v] same [of v] by simp
      moreover have "keeps_space st st'" using 2(2) s(2) by (auto simp: keeps_space_def mapped_def pages_mapped_def)
      ultimately have "pages_mapped p (Suc n) st st'"
        using t 2(2) s(3) unfolding pages_mapped_def by simp
      then show ?thesis using 2(1) s(1) by (simp add: rfold_append)
    qed
  qed
qed

section \<open>The kernel's heap inside an address space\<close>

text \<open>
  The heap is well formed, lives in the kernel's half, and no page above its end is mapped yet.
\<close>

definition kspace :: "nat \<Rightarrow> nat \<Rightarrow> mmu allocator \<Rightarrow> bool" where
  "kspace lo hi h \<longleftrightarrow> kheap_inv lo hi h \<and> KERNEL_HALF \<le> lo \<and>
     (\<forall>w. unat (al_heap_end h) \<le> unat w \<and> unat w < hi \<longrightarrow> translate (al_env h) w = None)"

text \<open>Blocks that the caller holds.\<close>

definition held :: "mmu allocator \<Rightarrow> u64 list \<Rightarrow> bool" where
  "held h ps \<longleftrightarrow> distinct ps \<and> set ps \<subseteq> fst ` blocks h"

definition pages_for :: "u64 \<Rightarrow> nat" where
  "pages_for bytes = (unat bytes + 31 + 4095) div 4096"

definition user_same :: "mmu \<Rightarrow> mmu \<Rightarrow> bool" where
  "user_same st st' \<longleftrightarrow> (\<forall>v. user_addr v \<longrightarrow> translate st' v = translate st v)"

lemma kspace_bounds:
  assumes "kspace lo hi h"
  shows "kernel_okay lo hi (al_env h)" "hi < 2 ^ 64" "unat (al_heap_end h) + 4096 * free_pages (mm_slab (al_env h)) \<le> hi"
    "lo \<le> unat (al_heap_end h)" "unat (al_heap_end h) mod 4096 = 0" "KERNEL_HALF \<le> lo" "paging_ok (al_env h)"
proof -
  have h: "kheap_inv lo hi h" using assms by (simp add: kspace_def)
  then obtain ps where wf: "wfh h ps" by (auto simp: kheap_inv_def heap_inv_def)
  have "unat (al_head h) \<le> unat (al_heap_end h)" using wf by (cases ps) (auto simp: wfl_def gap_def)
  then show "lo \<le> unat (al_heap_end h)" using h by (simp add: kheap_inv_def heap_inv_def)
  show "kernel_okay lo hi (al_env h)" "hi < 2 ^ 64" "unat (al_heap_end h) + 4096 * free_pages (mm_slab (al_env h)) \<le> hi"
    "unat (al_heap_end h) mod 4096 = 0" "KERNEL_HALF \<le> lo" "paging_ok (al_env h)"
    using h assms by (auto simp: kheap_inv_def heap_inv_def kernel_avail_def kspace_def kernel_okay_def)
qed

lemma kernel_page:
  assumes "unat he mod 4096 = 0" "KERNEL_HALF \<le> unat he" "unat he + 4096 * k \<le> hi" "hi < 2 ^ 64"
  shows "i < k \<Longrightarrow> unat (he + PAGE_SIZE * of_nat i) = unat he + 4096 * i"
    and "inj_on (\<lambda>i. vpath (he + PAGE_SIZE * of_nat i)) {..<k}"
    and "i < k \<Longrightarrow> unat he + 4096 * k \<le> unat w \<Longrightarrow> vpath w \<noteq> vpath (he + PAGE_SIZE * of_nat i)"
    and "i < k \<Longrightarrow> user_addr w \<Longrightarrow> vpath w \<noteq> vpath (he + PAGE_SIZE * of_nat i)"
proof -
  show u: "unat (he + PAGE_SIZE * of_nat i) = unat he + 4096 * i" if "i < k" for i
    using assms(3,4) that by (simp add: unat_word_ariths unat_of_nat)
  then have half: "KERNEL_HALF \<le> unat (he + PAGE_SIZE * of_nat i)" if "i < k" for i using assms(2) that by simp
  have no: "page_no (he + PAGE_SIZE * of_nat i) = unat he div 4096 + i" if "i < k" for i
    using u [OF that] by (simp add: page_no_def)
  show "inj_on (\<lambda>i. vpath (he + PAGE_SIZE * of_nat i)) {..<k}"
    by (rule inj_onI) (simp add: kernel_vpath_iff half no)
  show "vpath w \<noteq> vpath (he + PAGE_SIZE * of_nat i)" if "i < k" "unat he + 4096 * k \<le> unat w"
  proof -
    have "KERNEL_HALF \<le> unat w" using assms(2) that(2) by linarith
    moreover have "unat he div 4096 + k \<le> page_no w" using that(2) unfolding page_no_def by linarith
    ultimately show ?thesis using kernel_vpath_iff [OF _ half [OF that(1)], of w] no [OF that(1)] that(1) by auto
  qed
  show "vpath w \<noteq> vpath (he + PAGE_SIZE * of_nat i)" if "i < k" "user_addr w"
    using halves_apart [OF that(2) half [OF that(1)]] .
qed

lemma expand_cases:
  assumes ok: "kernel_okay lo hi e" "hi < 2 ^ 64" "KERNEL_HALF \<le> lo" "lo \<le> unat he" "unat he mod 4096 = 0"
      "unat he + 4096 * free_pages (mm_slab e) \<le> hi" "\<forall>w. unat he \<le> unat w \<and> unat w < hi \<longrightarrow> translate e w = None"
    and n: "unat n \<le> 2 ^ 63 + 31"
  defines "k \<equiv> (unat n + 4095) div 4096"
  shows "malloc_expand_heap he n e = Inl HCF \<and> free_pages (mm_slab e) < 4 * k \<or>
    (\<exists>m e'. malloc_expand_heap he n e = Inr (m, e') \<and> unat m = 4096 * k \<and> pages_mapped he k e e' \<and> unat he + 4096 * k \<le> hi)"
proof -
  have "unat (n + PAGE_SIZE - 1) = unat n + 4095" using n by (simp add: unat_word_ariths)
  then have k: "unat ((n + PAGE_SIZE - 1) div PAGE_SIZE) = k" unfolding k_def by (simp add: unat_div)
  have al: "page_aligned he" using ok(5) by (simp add: page_aligned_def)
  then have "he AND 0xFFF = 0" using mask_zero by blast
  then have x: "malloc_expand_heap he n e = rbind (allocate_pages he False k e)
      (\<lambda>st'. Inr (PAGE_SIZE * ((n + PAGE_SIZE - 1) div PAGE_SIZE), st'))"
    by (simp only: malloc_expand_heap_def Let_def k) simp
  have m: "unat (PAGE_SIZE * ((n + PAGE_SIZE - 1) div PAGE_SIZE)) = 4096 * k" unfolding round_pages k ..
  have half: "KERNEL_HALF \<le> unat he" using ok(3,4) by linarith
  have pok: "paging_ok e" using ok(1) by (simp add: kernel_okay_def)
  show ?thesis
  proof (cases "k \<le> free_pages (mm_slab e)")
    case True
    then have hi: "unat he + 4096 * k \<le> hi" using ok(6) mult_le_mono2 [OF True, of 4096] by linarith
    note pg = kernel_page [OF ok(5) half hi ok(2)]
    have w: "lo \<le> unat (he + PAGE_SIZE * of_nat i) \<and> unat he \<le> unat (he + PAGE_SIZE * of_nat i) \<and>
        unat (he + PAGE_SIZE * of_nat i) < hi" if "i < k" for i
    proof -
      have "4096 * i < 4096 * k" using that by simp
      then show ?thesis using pg(1) [OF that] ok(4) hi by linarith
    qed
    have "\<forall>i < k. no_huge e (he + PAGE_SIZE * of_nat i)" "\<forall>i < k. translate e (he + PAGE_SIZE * of_nat i) = None"
      using w ok(1,7) by (auto simp: kernel_okay_def)
    from allocate_pages_cases [OF pok al this pg(2), of False] show ?thesis
      using x m hi by auto
  next
    case False
    have "malloc_expand_heap he n e \<noteq> Inr (m, e')" for m e'
    proof
      assume "malloc_expand_heap he n e = Inr (m, e')"
      then have r: "allocate_pages he False (0 + k) e = Inr e'" unfolding x by (auto simp: result_simps)
      have "unat he + 4096 * (0 + free_pages (mm_slab e)) \<le> hi" using ok(6) by simp
      from expand_loop_okay [OF ok(1,4) this ok(2) r] False show False by simp
    qed
    then obtain f where f: "malloc_expand_heap he n e = Inl f" by (cases "malloc_expand_heap he n e") auto
    moreover have "f = HCF" using expand_faults [of e he n] pok f by (simp add: paging_ok_def)
    ultimately show ?thesis using False by simp
  qed
qed

definition malloced :: "nat \<Rightarrow> nat \<Rightarrow> u64 \<Rightarrow> mmu allocator \<Rightarrow> u64 \<Rightarrow> mmu allocator \<Rightarrow> bool" where
  "malloced lo hi bytes h p h' \<longleftrightarrow> p \<noteq> 0 \<and> kspace lo hi h' \<and> (\<forall>ps. held h ps \<longrightarrow> held h' (p # ps)) \<and> al_bytes h' = al_bytes h \<and>
     user_same (al_env h) (al_env h') \<and> keeps_space (al_env h) (al_env h') \<and>
     free_pages (mm_slab (al_env h)) \<le> free_pages (mm_slab (al_env h')) + 4 * pages_for bytes"

lemma kmalloc_cases:
  assumes ks: "kspace lo hi h" and b: "bytes \<noteq> 0" "unat bytes \<le> 2 ^ 63"
  shows "malloc malloc_expand_heap bytes h = Inl HCF \<and> free_pages (mm_slab (al_env h)) < 4 * pages_for bytes \<or>
    (\<exists>p h'. malloc malloc_expand_heap bytes h = Inr (p, h') \<and> malloced lo hi bytes h p h')"
proof -
  note kb = kspace_bounds [OF ks]
  have half: "KERNEL_HALF \<le> unat (al_heap_end h)" using kb(4,6) by linarith
  have fresh: "\<forall>w. unat (al_heap_end h) \<le> unat w \<and> unat w < hi \<longrightarrow> translate (al_env h) w = None"
    using ks by (simp add: kspace_def)
  have inv: "heap_inv kernel_avail (\<lambda>st. kernel_okay lo hi st \<and> hi < 2 ^ 64) lo hi h"
    using ks by (simp add: kspace_def kheap_inv_def)
  have mono: "(unat n + 4095) div 4096 \<le> pages_for bytes" if "unat (n :: u64) \<le> unat bytes + 31" for n
    using that unfolding pages_for_def by (intro div_le_mono) simp
  note ex = expand_cases [OF kb(1,2,6,4,5,3) fresh]
  from inv b show ?thesis
  proof (cases rule: kheap.malloc_ok)
    case (1 f)
    from 1(2) obtain n where n: "unat n \<le> unat bytes + 31" "malloc_expand_heap (al_heap_end h) n (al_env h) = Inl f"
      unfolding kheap.refused_def by blast
    have "unat n \<le> 2 ^ 63 + 31" using n(1) b(2) by simp
    from ex [OF this] n mono [OF n(1)] 1(1) show ?thesis by auto
  next
    case (2 h')
    then show ?thesis using kernel_not_short [OF b(2)] by blast
  next
    case (3 p h')
    then obtain c s where c: "p = c + 16" "p \<noteq> 0" "c \<notin> fst ` live (al_items h) (al_heap_end h)" "kheap_inv lo hi h'" "al_bytes h' = al_bytes h"
      "live (al_items h') (al_heap_end h') = insert (c, s) (live (al_items h) (al_heap_end h))"
      by (auto simp: claimed_def kheap_inv_def)
    have new: "p \<notin> fst ` blocks h"
    proof
      assume "p \<in> fst ` blocks h"
      then obtain r where "(p, r) \<in> blocks h" by force
      then have "(c, r) \<in> live (al_items h) (al_heap_end h)" using c(1) by (simp add: blocks_iff)
      then show False using c(3) by force
    qed
    have bl: "fst ` blocks h' = insert p (fst ` blocks h)" using c(1,6) by (simp add: fst_blocks)
    have env: "user_same (al_env h) (al_env h') \<and> keeps_space (al_env h) (al_env h') \<and>
        free_pages (mm_slab (al_env h)) \<le> free_pages (mm_slab (al_env h')) + 4 * pages_for bytes \<and>
        (\<forall>w. unat (al_heap_end h') \<le> unat w \<and> unat w < hi \<longrightarrow> translate (al_env h') w = None)"
      using 3(3) unfolding kheap.served_def
    proof (elim disjE exE conjE)
      assume "al_env h' = al_env h" "al_heap_end h' = al_heap_end h"
      then show ?thesis using fresh kb(7) by (simp add: user_same_def keeps_space_refl)
    next
      fix n m assume s: "unat n \<le> unat bytes + 31" "malloc_expand_heap (al_heap_end h) n (al_env h) = Inr (m, al_env h')"
        "unat (al_heap_end h') = unat (al_heap_end h) + unat m"
      let ?k = "(unat n + 4095) div 4096"
      have "unat n \<le> 2 ^ 63 + 31" using s(1) b(2) by simp
      from ex [OF this] s(2) have m: "unat m = 4096 * ?k" "pages_mapped (al_heap_end h) ?k (al_env h) (al_env h')"
        "unat (al_heap_end h) + 4096 * ?k \<le> hi" by auto
      note pg = kernel_page [OF kb(5) half m(3) kb(2)]
      have same: "translate (al_env h') v = translate (al_env h) v" if "\<forall>i < ?k. vpath v \<noteq> vpath (al_heap_end h + PAGE_SIZE * of_nat i)" for v
        using m(2) that unfolding pages_mapped_def by blast
      have "user_same (al_env h) (al_env h')" using same pg(4) by (simp add: user_same_def)
      moreover have "translate (al_env h') w = None" if "unat (al_heap_end h') \<le> unat w" "unat w < hi" for w
      proof -
        have w: "unat (al_heap_end h) + 4096 * ?k \<le> unat w" using that(1) s(3) m(1) by simp
        then have "translate (al_env h') w = translate (al_env h) w" using pg(3) by (intro same) blast
        then show ?thesis using fresh w that(2) by simp
      qed
      ultimately show ?thesis using m(2) mono [OF s(1)] by (auto simp: pages_mapped_def)
    qed
    then have "kspace lo hi h'" using c(4) kb(6) by (simp add: kspace_def)
    then have "malloced lo hi bytes h p h'" using env c(2,5) bl new by (auto simp: malloced_def held_def)
    then show ?thesis using 3(1) by blast
  qed
qed

lemma kfree_ok:
  assumes ks: "kspace lo hi h" and p: "held h ps" "p \<in> set ps"
  shows "\<exists>h'. free p h = Inr h' \<and> kspace lo hi h' \<and> held h' (remove1 p ps) \<and> al_bytes h' = al_bytes h \<and> al_env h' = al_env h"
proof -
  have inv: "heap_inv kernel_avail (\<lambda>st. kernel_okay lo hi st \<and> hi < 2 ^ 64) lo hi h"
    using ks by (simp add: kspace_def kheap_inv_def)
  from p obtain s where "(p, s) \<in> blocks h" by (force simp: held_def)
  then have l: "(p - 16, s) \<in> live (al_items h) (al_heap_end h)" by (simp add: blocks_iff)
  from free_ok [OF inv l] obtain N where N: "free (p - 16 + 16) h = Inr (h\<lparr>al_items := N\<rparr>)"
    "heap_inv kernel_avail (\<lambda>st. kernel_okay lo hi st \<and> hi < 2 ^ 64) lo hi (h\<lparr>al_items := N\<rparr>)"
    "live N (al_heap_end h) = live (al_items h) (al_heap_end h) - {(p - 16, s)}" by metis
  have "set (remove1 p ps) \<subseteq> fst ` blocks (h\<lparr>al_items := N\<rparr>)"
  proof
    fix q assume "q \<in> set (remove1 p ps)"
    then have q: "q \<in> set ps" "q \<noteq> p" using p(1) by (auto simp: held_def)
    then obtain r where "(q, r) \<in> blocks h" using p(1) by (force simp: held_def)
    then have "(q, r) \<in> blocks (h\<lparr>al_items := N\<rparr>)" using q(2) N(3) by (simp add: blocks_iff)
    then show "q \<in> fst ` blocks (h\<lparr>al_items := N\<rparr>)" by force
  qed
  then show ?thesis using N(1,2) ks p(1) by (auto simp: kspace_def kheap_inv_def held_def)
qed

section \<open>The address space of a new process\<close>

abbreviation kernel_root :: "mmu \<Rightarrow> u64" where
  "kernel_root st \<equiv> mm_original_kernel_page_table st - mm_hhdm_offset st"

text \<open>The kernel's own page table has nothing in its user half.\<close>

definition empty_user_half :: "mmu \<Rightarrow> bool" where
  "empty_user_half st \<longleftrightarrow> (\<forall>i. unat i < 256 \<longrightarrow> \<not> pte_present (mm_pm st (elem (kernel_root st) i)))"

lemma in_page_offset:
  assumes "page_aligned f"
  shows "a - f < PAGE_SIZE \<longleftrightarrow> page_no a = page_no f"
proof -
  have f: "unat f mod 4096 = 0" using assms by (simp add: page_aligned_def)
  have "unat a < 2 ^ 64" "unat f < 2 ^ 64" using unsigned_less [of a, where ?'a = nat] unsigned_less [of f, where ?'a = nat] by simp_all
  then show ?thesis using f
    by (cases "f \<le> a") (auto simp: page_no_def word_less_nat_alt word_le_nat_alt unat_sub64 unat_sub64_wrap dest: sym)
qed

lemma user_pml4: "user_addr v \<Longrightarrow> unat (fst (vpath v) ! 0) < 256"
proof -
  assume "user_addr v"
  then have "unat v div 2 ^ 39 < 256" by (simp add: user_addr_def div_less_iff_less_mult)
  then show ?thesis by (simp add: vpath_def pointer_bitmap_def Let_def unsigned_ucast_eq unat_div take_bit_nat_eq_self drop_bit_eq_div)
qed

text \<open>A fresh root table that repeats the entries of an existing one reaches the same tables and pages.\<close>

definition root_copy :: "u64 \<Rightarrow> u64 \<Rightarrow> pmem \<Rightarrow> pmem" where
  "root_copy f K pm = (\<lambda>a. if a - f < PAGE_SIZE then pm (K + (a - f)) else pm a)"

lemma copied_root:
  assumes ok: "tree_ok pm K s" and f: "page_aligned f" "f \<in> pool s" "f \<notin> owned s"
    and sl: "pool sl = pool s" "owned sl = insert f (owned s)"
  defines "pm' \<equiv> root_copy f K pm"
  shows copied_root_entry: "pm' (elem f i) = pm (elem K i)"
    and copied_root_same: "\<And>w r. twalk pm K r = Some w \<Longrightarrow> length r \<le> 3 \<Longrightarrow> pm' (elem w j) = pm (elem w j)"
    and copied_root_twalk: "length q \<le> 2 \<Longrightarrow> twalk pm' f (i # q) = twalk pm K (i # q)"
    and copied_root_leaf: "length q = 2 \<Longrightarrow> leaf pm' f (i # q) j = leaf pm K (i # q) j"
    and copied_root_ok: "tree_ok pm' f sl"
proof -
  have not_table: "twalk pm K q \<noteq> Some f" if "length q \<le> 3" for q
    using tree_okD(3) [OF ok that, of f] f(2,3) by auto
  have not_page: "leaf pm K q k \<noteq> Some f" if "length q = 3" for q k
    using tree_okD(4) [OF ok that, of k f] f(2,3) by auto
  have pn: "page_no (elem w k) = page_no w" if al: "page_aligned w" for w k
  proof -
    obtain m where m: "unat w = 4096 * m" using al by (auto simp: page_aligned_def)
    have "8 * unat k < 4096" using unsigned_less [of k, where ?'a = nat] by simp
    then have "(4096 * m + 8 * unat k) div 4096 = m" by (intro div_nat_eqI) simp_all
    then show ?thesis using unat_elem [OF that, of k] m by (simp add: page_no_def)
  qed
  show ent: "pm' (elem f i) = pm (elem K i)" for i
  proof -
    have "elem f i - f < PAGE_SIZE" using pn [OF f(1)] in_page_offset [OF f(1)] by simp
    then show ?thesis by (simp add: pm'_def root_copy_def elem_def)
  qed
  show same: "pm' (elem w j) = pm (elem w j)" if "twalk pm K r = Some w" "length r \<le> 3" for w r j
  proof -
    have w: "page_aligned w" using twalk_aligned [OF tree_okD(1) [OF ok] that(1)] .
    have "w \<noteq> f" using not_table that by blast
    then have "page_no w \<noteq> page_no f" using w f(1) unfolding page_no_def page_aligned_def word_unat_eq_iff by (metis div_mult_mod_eq)
    then show ?thesis using in_page_offset [OF f(1), of "elem w j"] pn [OF w] by (simp add: pm'_def root_copy_def)
  qed
  have tw: "twalk pm' K q = twalk pm K q" if "length q \<le> 3" for q
  proof (rule twalk_cong)
    fix r j u assume "prefix (r @ [j]) q" "twalk pm K r = Some u"
    with that show "pm' (elem u j) = pm (elem u j)" by (intro same [of r]) (auto dest!: prefix_length_le)
  qed
  show T: "twalk pm' f (i # q) = twalk pm K (i # q)" if "length q \<le> 2" for i q
  proof -
    have "pm' (elem K i) = pm (elem K i)" by (rule same [of "[]"]) simp_all
    then show ?thesis using tw [of "i # q"] that by (cases "links (pm (elem K i))") (simp_all add: ent)
  qed
  show L: "leaf pm' f (i # q) j = leaf pm K (i # q) j" if "length q = 2" for i q j
    using T [of q i] that same [of "i # q"] by (auto simp: leaf_def simp del: twalk.simps split: option.splits)
  have Tq: "twalk pm' f q = (if q = [] then Some f else twalk pm K q)" if "length q \<le> 3" for q
    using that T by (cases q) simp_all
  have Lq: "leaf pm' f q j = leaf pm K q j" if "length q = 3" for q j
    using that L by (cases q) simp_all
  show "tree_ok pm' f sl"
    unfolding tree_ok_def sl
  proof (intro conjI allI impI)
    show "page_aligned f" by (rule f(1))
  next
    fix p q u assume a: "length p \<le> 3 \<and> length q \<le> 3 \<and> twalk pm' f p = Some u \<and> twalk pm' f q = Some u"
    then show "p = q" using Tq [of p] Tq [of q] not_table [of p] not_table [of q] tree_okD(2) [OF ok, of p q u] by (auto split: if_splits)
  next
    fix p u assume "length p \<le> 3 \<and> twalk pm' f p = Some u \<and> u \<in> pool s"
    then show "u \<in> insert f (owned s)" using Tq [of p] tree_okD(3) [OF ok, of p u] by (auto split: if_splits)
  next
    fix p i g assume "length p = 3 \<and> leaf pm' f p i = Some g" "g \<in> pool s"
    then show "g \<in> insert f (owned s)" using Lq [of p i] tree_okD(4) [OF ok, of p i g] by simp
  next
    fix p i g and q :: "9 word list" assume a: "length p = 3 \<and> leaf pm' f p i = Some g" "length q \<le> 3"
    then show "twalk pm' f q \<noteq> Some g"
      using Tq [OF a(2)] Lq [of p i] not_page [of p i] tree_okD(5) [OF ok, of p i g q] by (auto split: if_splits)
  next
    fix p i q j g assume a: "length p = 3 \<and> length q = 3 \<and> leaf pm' f p i = Some g \<and> leaf pm' f q j = Some g \<and> g \<in> pool s"
    then have l: "length p = 3" "length q = 3" and g: "g \<in> pool s" by simp_all
    have "leaf pm K p i = Some g" "leaf pm K q j = Some g" using a Lq [OF l(1), of i] Lq [OF l(2), of j] by simp_all
    from tree_okD(6) [OF ok l this g] show "p = q" "i = j" by blast+
  qed
qed

definition clean_space :: "mmu \<Rightarrow> u64 \<Rightarrow> mmu \<Rightarrow> bool" where
  "clean_space st t st' \<longleftrightarrow> (let old = st\<lparr>mm_cr3 := kernel_root st\<rparr>; new = st'\<lparr>mm_cr3 := t\<rparr> in
     paging_ok new \<and> (\<forall>v. user_addr v \<longrightarrow> translate new v = None \<and> no_huge new v) \<and>
     (\<forall>w. KERNEL_HALF \<le> unat w \<longrightarrow> translate new w = translate old w \<and> (no_huge old w \<longrightarrow> no_huge new w)) \<and>
     free_pages (mm_slab st) = Suc (free_pages (mm_slab st')) \<and> mm_cr3 st' = mm_cr3 st \<and> mm_hhdm_offset st' = mm_hhdm_offset st \<and>
     mm_original_kernel_page_table st' = mm_original_kernel_page_table st)"

lemma vpath_Cons: "fst (vpath v) = i # q \<Longrightarrow> length q = 2"
  using length_vpath [of v] by simp

text \<open>What the new root shares with the kernel's: every entry, and with them every translation.\<close>

definition shares_space :: "mmu \<Rightarrow> u64 \<Rightarrow> mmu \<Rightarrow> bool" where
  "shares_space st t st' \<longleftrightarrow> (let old = st\<lparr>mm_cr3 := kernel_root st\<rparr>; new = st'\<lparr>mm_cr3 := t\<rparr> in
     paging_ok new \<and> t \<in> pool (mm_slab st) - owned (mm_slab st) \<and> owned (mm_slab st') = insert t (owned (mm_slab st)) \<and>
     (\<forall>i. mm_pm st' (elem t i) = mm_pm st (elem (kernel_root st) i)) \<and>
     (\<forall>v. translate new v = translate old v) \<and> (\<forall>w. no_huge old w \<longrightarrow> no_huge new w) \<and>
     free_pages (mm_slab st) = Suc (free_pages (mm_slab st')) \<and> mm_cr3 st' = mm_cr3 st \<and> mm_hhdm_offset st' = mm_hhdm_offset st \<and>
     mm_original_kernel_page_table st' = mm_original_kernel_page_table st)"

lemma generate_clean_exact:
  assumes ok: "paging_ok (st\<lparr>mm_cr3 := kernel_root st\<rparr>)"
  shows "generate_clean_virtual_addressing st = Inl HCF \<and> (free_pages (mm_slab st) = 0 \<or> pte_present (mm_pm st (kernel_root st))) \<or>
    (\<exists>t st'. generate_clean_virtual_addressing st = Inr (t, st') \<and> \<not> pte_present (mm_pm st (kernel_root st)) \<and> shares_space st t st')"
proof (cases "malloc4k_phys (mm_slab st)")
  case (Inl e)
  then have "e = HCF" "free_pages (mm_slab st) = 0"
    using ok slab.alloc_exhausted [OF _ Inl] by (simp_all add: paging_ok_def free_pages_def)
  then show ?thesis using Inl by (simp add: generate_clean_virtual_addressing_def)
next
  case (Inr r)
  obtain f sl where r: "r = (f, sl)" by (cases r)
  have wf: "slab_wf (mm_slab st)" and tok: "tree_ok (mm_pm st) (kernel_root st) (mm_slab st)" using ok by (auto simp: paging_ok_def)
  from slab.alloc_fresh [OF wf Inr [unfolded r]] have a: "slab_wf sl" "f \<in> pool (mm_slab st)" "f \<notin> owned (mm_slab st)"
    "pool sl = pool (mm_slab st)" "owned sl = insert f (owned (mm_slab st))" by auto
  have al: "page_aligned f" using pool_aligned [OF wf a(2)] .
  let ?K = "kernel_root st" and ?pm = "mm_pm st"
  define pm' where "pm' = root_copy f ?K ?pm"
  note E = copied_root_entry [OF tok al a(2-5), folded pm'_def] and S = copied_root_same [OF tok al a(2-5), folded pm'_def]
    and T = copied_root_twalk [OF tok al a(2-5), folded pm'_def] and L = copied_root_leaf [OF tok al a(2-5), folded pm'_def]
    and O = copied_root_ok [OF tok al a(2-5), folded pm'_def]
  let ?st = "st\<lparr>mm_slab := sl, mm_pm := pm'\<rparr>"
  have e0: "pm' f = ?pm ?K" using E [of 0] by (simp add: elem_0)
  have g: "generate_clean_virtual_addressing st = (if pte_present (?pm ?K) then Inl HCF else Inr (f, ?st))"
    using Inr r e0 by (simp add: generate_clean_virtual_addressing_def copy_page_def Let_def rfold_check load_pte_def root_copy_def [symmetric] pm'_def [symmetric] del: upt_conv_Cons_Cons)
      (metis zero_less_numeral)
  let ?new = "?st\<lparr>mm_cr3 := f\<rparr>" and ?old = "st\<lparr>mm_cr3 := ?K\<rparr>"
  have "paging_ok ?new" using O a(1,4) ok by (simp add: paging_ok_def)
  moreover have "translate ?new w = translate ?old w \<and> (no_huge ?old w \<longrightarrow> no_huge ?new w)" for w
  proof -
    obtain i q where w: "fst (vpath w) = i # q" using length_vpath [of w] by (cases "fst (vpath w)") auto
    have q: "length q = 2" using vpath_Cons [OF w] .
    have "no_huge ?new w" if nh: "no_huge ?old w"
      unfolding no_huge_def
    proof (intro allI impI)
      fix n x assume n: "n < 3" and x: "twalk (mm_pm ?new) (mm_cr3 ?new) (take n (fst (vpath w))) = Some x"
      show "\<not> (pte_present (mm_pm ?new (elem x (fst (vpath w) ! n))) \<and> pte_huge (mm_pm ?new (elem x (fst (vpath w) ! n))))"
      proof (cases n)
        case 0
        have "(0 :: nat) < 3" "twalk ?pm ?K (take 0 (fst (vpath w))) = Some ?K" by simp_all
        then have "\<not> (pte_present (?pm (elem ?K i)) \<and> pte_huge (?pm (elem ?K i)))" using nh w unfolding no_huge_def by fastforce
        then show ?thesis using x 0 E by (auto simp: w)
      next
        case (Suc m)
        then have t: "twalk ?pm ?K (take n (fst (vpath w))) = Some x" using x T [of "take m q" i] q by (simp add: w)
        then show ?thesis using nh n S [OF t] by (simp add: no_huge_def)
      qed
    qed
    then show ?thesis using L [OF q] by (simp add: translate_vpath w)
  qed
  moreover have "free_pages (mm_slab st) = Suc (free_pages sl)" by (rule free_pages_insert [OF a(4,5)]) (use a in simp)
  ultimately have "shares_space st f ?st" using a E by (simp add: shares_space_def Let_def)
  then show ?thesis using g by auto
qed

lemma generate_clean_cases:
  assumes ok: "paging_ok (st\<lparr>mm_cr3 := kernel_root st\<rparr>)" and em: "empty_user_half st"
  shows "generate_clean_virtual_addressing st = Inl HCF \<and> free_pages (mm_slab st) = 0 \<or>
    (\<exists>t st'. generate_clean_virtual_addressing st = Inr (t, st') \<and> clean_space st t st')"
proof -
  have np: "\<not> pte_present (mm_pm st (elem (kernel_root st) i))" if "unat i < 256" for i using em that by (simp add: empty_user_half_def)
  have "clean_space st t st'" if s: "shares_space st t st'" for t st'
  proof -
    let ?new = "st'\<lparr>mm_cr3 := t\<rparr>"
    have "translate ?new v = None \<and> no_huge ?new v" if "user_addr v" for v
    proof -
      obtain i q where v: "fst (vpath v) = i # q" using length_vpath [of v] by (cases "fst (vpath v)") auto
      have i: "\<not> pte_present (mm_pm st' (elem t i))" using user_pml4 [OF that] v np s by (simp add: shares_space_def Let_def)
      then have "twalk (mm_pm st') t (i # q') = None" for q' by (simp add: links_def)
      then show ?thesis using i by (auto simp: translate_vpath leaf_def no_huge_def v take_Cons' nth_Cons' split: if_splits)
    qed
    then show ?thesis using s by (simp add: clean_space_def shares_space_def Let_def)
  qed
  then show ?thesis using generate_clean_exact [OF ok] np [of 0] by (auto simp: elem_0)
qed

section \<open>Properties\<close>

text \<open>A machine for the witnesses: an empty kernel page table and 256 free pages.\<close>

definition exec_mmu :: mmu where
  "exec_mmu = small_mmu\<lparr>mm_slab := \<lparr>physical_memory_base = 0x100000, physical_memory_pages = 256, slab_flags = replicate 256 False\<rparr>\<rparr>"

lemma exec_mmu_ok: "paging_ok exec_mmu" "no_huge exec_mmu v" "translate exec_mmu v = None" "free_pages (mm_slab exec_mmu) = 256"
  "kernel_root exec_mmu = mm_cr3 exec_mmu" "empty_user_half exec_mmu"
proof -
  let ?s = "mm_slab exec_mmu"
  have f [simp]: "mm_pm exec_mmu = (\<lambda>_. blank_pte)" "mm_cr3 exec_mmu = 0x1000" "length (slab_flags ?s) = 256" "physical_memory_base ?s = 0x100000"
    by (simp_all add: exec_mmu_def)
  have wf: "slab_wf ?s" by (simp add: slab_wf_def exec_mmu_def)
  have u: "unat (page_addr ?s i) = 0x100000 + 4096 * i" if "i < 256" for i
    using that by (simp add: page_addr_def unat_word_ariths unat_of_nat take_bit_nat_eq_self)
  then have p: "0x100000 \<le> unat f \<and> unat f < 0x200000" if "f \<in> pool ?s" for f using that by (fastforce simp: pool_def)
  have o: "owned ?s = {}" by (simp add: owned_def exec_mmu_def)
  have "inj_on (page_addr ?s) {..<256}" by (rule inj_onI) (metis u lessThan_iff add_left_cancel mult_cancel1 zero_neq_numeral)
  then show "free_pages ?s = 256" by (simp add: free_pages_def o pool_def card_image)
  have "f < 2 ^ 40" if "f \<in> pool ?s" for f using p [OF that] by (simp add: word_less_nat_alt)
  moreover have "(0x1000 :: u64) \<notin> pool ?s" using p [of "0x1000"] by auto
  ultimately show "paging_ok exec_mmu"
    using wf by (auto simp: paging_ok_def tree_ok_def leaf_def small_twalk o page_aligned_def split: if_splits)
  show "no_huge exec_mmu v" by (simp add: no_huge_def)
  show "translate exec_mmu v = None" by (simp add: translate_vpath leaf_def small_twalk vpath_def Let_def)
  show "kernel_root exec_mmu = mm_cr3 exec_mmu" by (simp add: exec_mmu_def small_mmu_def)
  show "empty_user_half exec_mmu" by (simp add: empty_user_half_def)
qed

lemma exec_init:
  obtains h where "init_memory_allocator malloc_expand_heap 0xFFFFC00000000000 m exec_mmu = Inr h" "kspace 0xFFFFC00000000000 0xFFFFC00000200000 h"
    "heap_mapped (\<lambda>st v. translate st v \<noteq> None) 0xFFFFC00000000000 h" "blocks h = {}" "252 \<le> free_pages (mm_slab (al_env h))"
proof -
  let ?b = "0xFFFFC00000000000 :: u64" and ?lo = "0xFFFFC00000000000 :: nat" and ?hi = "0xFFFFC00000200000 :: nat"
  have ok: "kernel_okay ?lo ?hi exec_mmu" "?hi < 2 ^ 64" "KERNEL_HALF \<le> ?lo" "?lo \<le> unat ?b" "unat ?b mod 4096 = 0"
    "unat ?b + 4096 * free_pages (mm_slab exec_mmu) \<le> ?hi" "\<forall>w. unat ?b \<le> unat w \<and> unat w < ?hi \<longrightarrow> translate exec_mmu w = None"
    using exec_mmu_ok by (simp_all add: kernel_okay_def)
  from expand_cases [OF ok, of 16] exec_mmu_ok(4) obtain a e' where e: "malloc_expand_heap ?b 16 exec_mmu = Inr (a, e')" "unat a = 4096"
    "pages_mapped ?b 1 exec_mmu e'" by auto
  then have a: "a = 4096" by (simp add: word_unat_eq_iff)
  obtain h where i: "init_memory_allocator malloc_expand_heap ?b m exec_mmu = Inr h" and f: "al_heap_end h = ?b + 4096" "al_env h = e'"
    using e(1) a by (simp add: init_memory_allocator_def)
  have ok': "kernel_okay ?lo ?hi exec_mmu \<and> ?hi < 2 ^ 64" using ok by simp
  have inv: "heap_inv kernel_avail (\<lambda>st. kernel_okay ?lo ?hi st \<and> ?hi < 2 ^ 64) ?lo ?hi h \<and> live (al_items h) (al_heap_end h) = {} \<and> al_head h = ?b"
    by (rule kheap.init_ok [OF ok' _ _ _ _ _ _ i]) (simp_all add: kernel_avail_def exec_mmu_ok)
  have pg: "unat ?b + 4096 * 1 \<le> ?hi" "KERNEL_HALF \<le> unat ?b" by simp_all
  have "translate e' w = None" if "unat (al_heap_end h) \<le> unat w" for w
  proof -
    have "unat ?b + 4096 * 1 \<le> unat w" using that f(1) by simp
    then have "\<forall>i < 1. vpath w \<noteq> vpath (?b + PAGE_SIZE * of_nat i)" using kernel_page(3) [OF ok(5) pg(2,1) ok(2)] by blast
    then have "translate e' w = translate exec_mmu w" using e(3) unfolding pages_mapped_def by blast
    then show ?thesis using exec_mmu_ok(3) by simp
  qed
  then have "kspace ?lo ?hi h" using inv f(2) by (simp add: kspace_def kheap_inv_def)
  moreover have "heap_mapped (\<lambda>st v. translate st v \<noteq> None) ?lo h"
    by (rule kmap.init_mapped [OF ok' _ _ _ _ i]) (simp_all add: kernel_avail_def exec_mmu_ok)
  moreover have "252 \<le> free_pages (mm_slab (al_env h))" using e(3) exec_mmu_ok(4) f(2) by (simp add: pages_mapped_def)
  ultimately show thesis using i inv by (intro that) (simp_all add: blocks_def)
qed

text \<open>C2. Kernel \<open>malloc\<close>, down to the page tables. The heap is well formed, lies in the kernel's half, is mapped up to its end and not beyond.
  Then a request of at most \<open>2 ^ 63\<close> bytes either returns or halts the kernel, and it halts only when fewer than
  four free physical pages are left for each page that the request can need (the page and up to three page tables). When it returns, the pointer is not null and
  16-byte aligned, its block has at least the requested size, lies inside the heap, overlaps no live block, and every address of it is mapped by the
  page tables; no byte of memory and no other block changes, and the heap stays well formed and mapped.\<close>

theorem kernel_malloc_sound:
  assumes "kspace lo hi h" and "heap_mapped (\<lambda>st v. translate st v \<noteq> None) lo h" and "bytes \<noteq> 0" and "unat bytes \<le> 2 ^ 63"
  shows "case malloc malloc_expand_heap bytes h of
      Inl f \<Rightarrow> f = HCF \<and> free_pages (mm_slab (al_env h)) < 4 * pages_for bytes
    | Inr (ptr, h') \<Rightarrow> kspace lo hi h' \<and> heap_mapped (\<lambda>st v. translate st v \<noteq> None) lo h' \<and> al_bytes h' = al_bytes h \<and>
        ptr \<noteq> 0 \<and> unat ptr mod 16 = 0 \<and>
        (\<exists>s \<ge> unat bytes. blocks h' = insert (ptr, s) (blocks h) \<and> unat ptr + s \<le> unat (al_heap_end h') \<and>
           (\<forall>b \<in> blocks h. apart (ptr, s) b) \<and> (\<forall>i. unat i < s \<longrightarrow> translate (al_env h') (ptr + i) \<noteq> None))"
proof (cases "malloc malloc_expand_heap bytes h")
  case (Inl f)
  then show ?thesis using kmalloc_cases [OF assms(1,3,4)] by auto
next
  case (Inr r)
  obtain ptr h' where r: "r = (ptr, h')" by (cases r)
  have kh: "kheap_inv lo hi h" using assms(1) by (simp add: kspace_def)
  have k: "kspace lo hi h'" using kmalloc_cases [OF assms(1,3,4)] Inr r by (auto simp: malloced_def)
  then have inv': "heap_inv kernel_avail (\<lambda>st. kernel_okay lo hi st \<and> hi < 2 ^ 64) lo hi h'" by (simp add: kspace_def kheap_inv_def)
  have m: "heap_mapped (\<lambda>st v. translate st v \<noteq> None) lo h'"
    using kmap.malloc_mapped [OF kh [unfolded kheap_inv_def] assms(3,4,2) Inr [unfolded r]] .
  obtain s where s: "unat bytes \<le> s" "blocks h' = insert (ptr, s) (blocks h)" "unat ptr + s \<le> unat (al_heap_end h')" "\<forall>b \<in> blocks h. apart (ptr, s) b"
    "al_bytes h' = al_bytes h" "ptr \<noteq> 0" "unat ptr mod 16 = 0"
    using kheap.malloc_ok [OF kh [unfolded kheap_inv_def] assms(3,4)] Inr r kernel_not_short [OF assms(4)] by (cases) (auto dest!: claimed_blocks)
  have "(ptr - 16, s) \<in> live (al_items h') (al_heap_end h')" using s(2) by (simp add: blocks_iff [symmetric])
  then have "translate (al_env h') (ptr - 16 + 16 + i) \<noteq> None" if "unat i < s" for i using kmap.block_mapped [OF inv' m _ that] by blast
  then show ?thesis using Inr r k m s by auto
qed

theorem kernel_malloc_sound_witness:
  "\<exists>h ptr h' s. init_memory_allocator malloc_expand_heap 0xFFFFC00000000000 (\<lambda>_. 0) exec_mmu = Inr h \<and>
     malloc malloc_expand_heap 100 h = Inr (ptr, h') \<and> 100 \<le> s \<and> blocks h' = {(ptr, s)} \<and> translate (al_env h') (ptr + 99) \<noteq> None"
proof -
  obtain h where h: "init_memory_allocator malloc_expand_heap 0xFFFFC00000000000 (\<lambda>_. 0) exec_mmu = Inr h" "kspace 0xFFFFC00000000000 0xFFFFC00000200000 h"
    "heap_mapped (\<lambda>st v. translate st v \<noteq> None) 0xFFFFC00000000000 h" "blocks h = {}" "252 \<le> free_pages (mm_slab (al_env h))" by (rule exec_init)
  have b: "(100 :: u64) \<noteq> 0" "unat (100 :: u64) \<le> 2 ^ 63" by simp_all
  from kernel_malloc_sound [OF h(2,3) b] h(5) obtain ptr h' s where m: "malloc malloc_expand_heap 100 h = Inr (ptr, h')" "100 \<le> s"
    "blocks h' = insert (ptr, s) (blocks h)" "\<forall>i. unat i < s \<longrightarrow> translate (al_env h') (ptr + i) \<noteq> None"
    by (auto simp: pages_for_def split: sum.splits)
  have "unat (99 :: u64) < s" using m(2) by simp
  then have "translate (al_env h') (ptr + 99) \<noteq> None" using m(4) by metis
  moreover have "blocks h' = {(ptr, s)}" using m(3) h(4) by simp
  ultimately show ?thesis using h(1) m(1,2) by (intro exI conjI)
qed

text \<open>C31. A new page table. \<open>generate_clean_virtual_addressing\<close> halts exactly when no physical page is free or entry 0 of the kernel's root table is
  present: the loop over the 256 user entries tests the first one each time. Otherwise it takes one free page for a root table that repeats every entry of the
  kernel's; the new page table is well formed and translates every address as the kernel's own does, in the upper half and, when entries
  1 to 255 of the kernel's table are in use, in the user half too.\<close>

theorem new_page_table_copies_kernel:
  assumes "paging_ok (st\<lparr>mm_cr3 := kernel_root st\<rparr>)"
  shows "case generate_clean_virtual_addressing st of
      Inl f \<Rightarrow> f = HCF \<and> (free_pages (mm_slab st) = 0 \<or> pte_present (mm_pm st (kernel_root st)))
    | Inr (t, st') \<Rightarrow> free_pages (mm_slab st) \<noteq> 0 \<and> \<not> pte_present (mm_pm st (kernel_root st)) \<and> paging_ok (st'\<lparr>mm_cr3 := t\<rparr>) \<and>
        t \<notin> owned (mm_slab st) \<and> owned (mm_slab st') = insert t (owned (mm_slab st)) \<and> mm_cr3 st' = mm_cr3 st \<and>
        (\<forall>i. mm_pm st' (elem t i) = mm_pm st (elem (kernel_root st) i)) \<and>
        (\<forall>v. translate (st'\<lparr>mm_cr3 := t\<rparr>) v = translate (st\<lparr>mm_cr3 := kernel_root st\<rparr>) v)"
  using generate_clean_exact [OF assms] by (auto simp: shares_space_def Let_def)

theorem new_page_table_copies_kernel_witness:
  "(\<exists>t st'. generate_clean_virtual_addressing exec_mmu = Inr (t, st') \<and> owned (mm_slab st') = {t} \<and> translate (st'\<lparr>mm_cr3 := t\<rparr>) 0x400000 = None)"
proof -
  have e: "exec_mmu\<lparr>mm_cr3 := kernel_root exec_mmu\<rparr> = exec_mmu" using exec_mmu_ok(5) by (cases exec_mmu) simp
  then have "paging_ok (exec_mmu\<lparr>mm_cr3 := kernel_root exec_mmu\<rparr>)" using exec_mmu_ok(1) by simp
  from new_page_table_copies_kernel [OF this]
  have "case generate_clean_virtual_addressing exec_mmu of Inl f \<Rightarrow> free_pages (mm_slab exec_mmu) = 0 \<or> pte_present (mm_pm exec_mmu (kernel_root exec_mmu))
    | Inr (t, st') \<Rightarrow> owned (mm_slab st') = insert t (owned (mm_slab exec_mmu)) \<and> translate (st'\<lparr>mm_cr3 := t\<rparr>) 0x400000 = translate exec_mmu 0x400000"
    unfolding e by (simp split: sum.splits prod.splits)
  moreover have "owned (mm_slab exec_mmu) = {}" by (simp add: owned_def exec_mmu_def)
  moreover have "\<not> pte_present (mm_pm exec_mmu (kernel_root exec_mmu))" by (simp add: exec_mmu_def)
  ultimately show ?thesis unfolding exec_mmu_ok(3,4) by (simp split: sum.splits) blast
qed

end
