(* ===== verification/Tty.thy ===== *)
theory Tty
  imports Display
begin

text \<open>
  The terminal (\<open>stuos/src/tty.c\<close>): a wrapping buffer of characters that is drawn on the display, and
  the line buffer for keyboard input. The static variables are the record \<open>tty\<close>; \<open>next\<close> is kept as
  an index into \<open>input_buffer\<close>; \<open>buffer\<close> is \<open>None\<close> before \<open>initialise_tty\<close>. A \<open>char\<close> is a byte, negative
  from \<open>0x80\<close> on. Accesses outside an array are the fault \<open>WildAccess\<close>.
\<close>

section \<open>State\<close>

datatype dirty_status = ONLY_PREV_CHAR_AFFECTED | ALL_DIRTY

record tty =
  tt_chars_width :: u64
  tt_chars_height :: u64
  tt_cursor_x :: u32
  tt_cursor_y :: u32
  tt_buffer :: "u8 list option"
  tt_current_run :: u64
  tt_c_lflag :: u32
  tt_dirty :: dirty_status
  tt_input_buffer :: "u8 list"
  tt_next :: nat
  tt_display :: display

abbreviation ICANON :: u32 where "ICANON \<equiv> 2"
abbreviation CHAR_SCREEN_SIZE :: u64 where "CHAR_SCREEN_SIZE \<equiv> 16"
abbreviation INPUT_BUF_LENGTH :: nat where "INPUT_BUF_LENGTH \<equiv> 1000"
abbreviation NL :: u8 where "NL \<equiv> 10"
abbreviation BS :: u8 where "BS \<equiv> 8"
abbreviation SPACE :: u8 where "SPACE \<equiv> 32"

definition text_col :: Colour where
  "text_col = \<lparr>col_r = 255, col_g = 255, col_b = 255, col_a = 0\<rparr>"

definition background_col :: Colour where
  "background_col = \<lparr>col_r = 0, col_g = 0, col_b = 0, col_a = 0\<rparr>"

definition canonical :: "tty \<Rightarrow> bool" where
  "canonical t \<longleftrightarrow> tt_c_lflag t AND ICANON \<noteq> 0"

section \<open>Drawing\<close>

definition index_buffer :: "u64 \<Rightarrow> u64 \<Rightarrow> tty \<Rightarrow> u64 result" where
  "index_buffer x y t =
     (if y \<ge> tt_chars_height t then Inl HCF
      else if x \<ge> tt_chars_width t then Inl HCF
      else Inr (x + tt_chars_width t * y))"

definition blit_char :: "u8 \<Rightarrow> u64 \<Rightarrow> u64 \<Rightarrow> display \<Rightarrow> display result" where
  "blit_char c start_pixel_x start_pixel_y d =
     (if unat c \<ge> length font8x8_basic then Inl WildAccess else
      let bitmap = font8x8_basic ! unat c in
      rfold (\<lambda>y_offset d.
        let current_row = bitmap ! (y_offset div 2) in
        rfold (\<lambda>x_offset d.
          display_write_pixel (start_pixel_x + of_nat x_offset) (start_pixel_y + of_nat y_offset)
            (if bit current_row (x_offset div 2) then text_col else background_col) d)
          [0..<16] d)
        [0..<16] d)"

definition blit_row :: "u8 list \<Rightarrow> nat \<Rightarrow> u64 \<Rightarrow> u64 \<Rightarrow> display \<Rightarrow> display result" where
  "blit_row buf start chars_width char_y d =
     rbind (rfold (\<lambda>char_x (row_has_seen_newline, d).
       if start + char_x \<ge> length buf then Inl WildAccess else
       let curr = buf ! (start + char_x);
           seen = (row_has_seen_newline \<or> curr = NL);
           shown = (if seen then SPACE else curr)
       in rbind (blit_char shown (of_nat char_x * CHAR_SCREEN_SIZE) (char_y * CHAR_SCREEN_SIZE) d)
            (\<lambda>d. Inr (seen, d)))
       [0..<unat chars_width] (False, d)) (\<lambda>(_, d). Inr d)"

definition blit :: "tty \<Rightarrow> tty result" where
  "blit t = (case tt_dirty t of
        ONLY_PREV_CHAR_AFFECTED \<Rightarrow>
          rbind (index_buffer (ucast (tt_cursor_x t - 1)) (ucast (tt_cursor_y t)) t) (\<lambda>i.
            case tt_buffer t of None \<Rightarrow> Inl WildAccess | Some buf \<Rightarrow>
            if unat i \<ge> length buf then Inl WildAccess else
            rbind (blit_char (buf ! unat i) (ucast ((tt_cursor_x t - 1) * 16))
                     ((tt_chars_height t - 1) * CHAR_SCREEN_SIZE) (tt_display t))
              (\<lambda>d. Inr (t\<lparr>tt_display := d\<rparr>)))
      | ALL_DIRTY \<Rightarrow>
          rfold (\<lambda>line_num t.
            let buffer_y = (of_nat line_num + ucast (tt_cursor_y t) + 1) mod tt_chars_height t in
            rbind (index_buffer 0 buffer_y t) (\<lambda>i.
            case tt_buffer t of None \<Rightarrow> Inl WildAccess | Some buf \<Rightarrow>
            rbind (blit_row buf (unat i) (tt_chars_width t) (of_nat line_num) (tt_display t))
              (\<lambda>d. Inr (t\<lparr>tt_display := d\<rparr>))))
            [0..<unat (tt_chars_height t)] t)"

definition initialise_tty :: "tty \<Rightarrow> tty result" where
  "initialise_tty t =
     rbind (display_get_width (tt_display t)) (\<lambda>w.
     rbind (display_get_height (tt_display t)) (\<lambda>h.
       let cw = w div CHAR_SCREEN_SIZE; ch = h div CHAR_SCREEN_SIZE
       in blit (t\<lparr>tt_chars_width := cw, tt_chars_height := ch,
                 tt_buffer := (if cw * ch = 0 then None else Some (replicate (unat (cw * ch)) SPACE)), tt_dirty := ALL_DIRTY\<rparr>)))"

section \<open>Output\<close>

text \<open>\<open>memset(buffer + idx, ' ', chars_width)\<close> and \<open>buffer[idx] = c\<close>\<close>

definition clear_row :: "u64 \<Rightarrow> tty \<Rightarrow> tty result" where
  "clear_row idx t = (case tt_buffer t of None \<Rightarrow> Inl WildAccess | Some buf \<Rightarrow>
     if unat idx + unat (tt_chars_width t) > length buf then Inl WildAccess
     else Inr (t\<lparr>tt_buffer := Some (take (unat idx) buf @ replicate (unat (tt_chars_width t)) SPACE @
                 drop (unat idx + unat (tt_chars_width t)) buf)\<rparr>))"

definition put_char :: "u64 \<Rightarrow> u8 \<Rightarrow> tty \<Rightarrow> tty result" where
  "put_char idx c t = (case tt_buffer t of None \<Rightarrow> Inl WildAccess | Some buf \<Rightarrow>
     if unat idx \<ge> length buf then Inl WildAccess else Inr (t\<lparr>tt_buffer := Some (buf[unat idx := c])\<rparr>))"

definition do_newline :: "tty \<Rightarrow> tty result" where
  "do_newline t =
     (let t1 = t\<lparr>tt_cursor_y := ucast (ucast (tt_cursor_y t + 1) mod tt_chars_height t), tt_cursor_x := 0\<rparr> in
      rbind (index_buffer (ucast (tt_cursor_x t1)) (ucast (tt_cursor_y t1)) t1) (\<lambda>idx.
      rbind (clear_row idx t1) (\<lambda>t2. Inr (t2\<lparr>tt_dirty := ALL_DIRTY\<rparr>))))"

definition erase_char :: "tty \<Rightarrow> tty result" where
  "erase_char t =
     (if tt_current_run t = 0 then Inr t else
      let t1 = t\<lparr>tt_current_run := tt_current_run t - 1\<rparr>;
          t2 = (if tt_cursor_x t1 = 0
                then t1\<lparr>tt_cursor_y := (if tt_cursor_y t1 = 0 then ucast (tt_chars_height t1 - 1) else tt_cursor_y t1 - 1),
                        tt_cursor_x := ucast (tt_chars_width t1 - 1)\<rparr>
                else t1\<lparr>tt_cursor_x := tt_cursor_x t1 - 1\<rparr>)
      in rbind (index_buffer (ucast (tt_cursor_x t2)) (ucast (tt_cursor_y t2)) t2) (\<lambda>idx.
         rbind (put_char idx SPACE t2) (\<lambda>t3. blit (t3\<lparr>tt_dirty := ALL_DIRTY\<rparr>))))"

definition advance :: "u8 \<Rightarrow> bool \<Rightarrow> tty \<Rightarrow> tty result" where
  "advance c is_from_keyboard t =
     (let t1 = t\<lparr>tt_current_run := (if is_from_keyboard then tt_current_run t + 1 else 0)\<rparr> in
      if c = NL then do_newline (t1\<lparr>tt_current_run := 0\<rparr>)
      else Inr (t1\<lparr>tt_cursor_x := tt_cursor_x t1 + 1, tt_dirty := ONLY_PREV_CHAR_AFFECTED\<rparr>))"

definition write_from_multiple_sources :: "u8 \<Rightarrow> bool \<Rightarrow> tty \<Rightarrow> tty result" where
  "write_from_multiple_sources ch is_from_keyboard t =
     (if tt_buffer t = None then Inr t else
      let c = (if sint ch < 0 then 63 else ch) in
      if c = BS \<and> is_from_keyboard \<and> canonical t then erase_char t else
      rbind (if tt_cursor_x t = 0
             then rbind (index_buffer (ucast (tt_cursor_x t)) (ucast (tt_cursor_y t)) t) (\<lambda>i. clear_row i t)
             else Inr t) (\<lambda>t1.
      rbind (index_buffer (ucast (tt_cursor_x t1)) (ucast (tt_cursor_y t1)) t1) (\<lambda>idx.
      rbind (put_char idx c t1) (\<lambda>t2.
      rbind (advance c is_from_keyboard t2) (\<lambda>t3.
      rbind (if ucast (tt_cursor_x t3) = tt_chars_width t3 then do_newline t3 else Inr t3) (\<lambda>t4.
      blit (t4\<lparr>tt_cursor_y := ucast (ucast (tt_cursor_y t4) mod tt_chars_height t4)\<rparr>)))))))"

definition tty_write_char :: "u8 \<Rightarrow> tty \<Rightarrow> tty result" where
  "tty_write_char c t = write_from_multiple_sources c False t"

section \<open>Input\<close>

definition tty_provide_stdin :: "u8 \<Rightarrow> tty \<Rightarrow> tty result" where
  "tty_provide_stdin x t =
     (if x = 0 then Inr t else
      rbind (write_from_multiple_sources x True t) (\<lambda>t1.
      if x = BS \<and> canonical t1 then
        (if tt_next t1 = 0 then Inr t1 else Inr (t1\<lparr>tt_next := tt_next t1 - 1\<rparr>))
      else if tt_next t1 = INPUT_BUF_LENGTH then Inl HCF
      else Inr (t1\<lparr>tt_input_buffer := (tt_input_buffer t1)[tt_next t1 := x], tt_next := Suc (tt_next t1)\<rparr>)))"

fun newline_at :: "u8 list \<Rightarrow> nat" where
  "newline_at [] = 0"
| "newline_at (x # xs) = (if x = NL then 1 else if newline_at xs = 0 then 0 else Suc (newline_at xs))"

definition find_newline_in_input_buffer :: "tty \<Rightarrow> nat" where
  "find_newline_in_input_buffer t = newline_at (take (tt_next t) (tt_input_buffer t))"

text \<open>The loop that moves the remaining input down, one byte after the other.\<close>

definition shuffle_down :: "nat \<Rightarrow> nat \<Rightarrow> u8 list \<Rightarrow> u8 list" where
  "shuffle_down num remaining buf = fold (\<lambda>j b. b[j := b ! (j + num)]) [0..<remaining] buf"

definition tty_read :: "nat \<Rightarrow> tty \<Rightarrow> (u8 list \<times> tty) result" where
  "tty_read num t =
     (if canonical t then
        let end_position = find_newline_in_input_buffer t;
            n = (if end_position < num then end_position else num)
        in if n = 0 then Inr ([], t)
           else Inr (take n (tt_input_buffer t),
                     t\<lparr>tt_input_buffer := shuffle_down n (tt_next t - n) (tt_input_buffer t),
                       tt_next := tt_next t - n\<rparr>)
      else Inl HCF)"


section \<open>Well-formed terminals\<close>

definition tty_wf :: "tty \<Rightarrow> bool" where
  "tty_wf t \<longleftrightarrow> 0 < unat (tt_chars_width t) \<and> 0 < unat (tt_chars_height t) \<and>
     unat (tt_chars_width t) < 2 ^ 27 \<and> unat (tt_chars_height t) < 2 ^ 27 \<and>
     unat (tt_cursor_x t) < unat (tt_chars_width t) \<and> unat (tt_cursor_y t) < unat (tt_chars_height t) \<and>
     (\<exists>buf. tt_buffer t = Some buf \<and> length buf = unat (tt_chars_width t) * unat (tt_chars_height t) \<and>
        (\<forall>c \<in> set buf. c < 128)) \<and>
     dp_screen (tt_display t) \<and> 16 * unat (tt_chars_width t) \<le> unat (dp_width (tt_display t)) \<and>
     16 * unat (tt_chars_height t) \<le> unat (dp_height (tt_display t)) \<and>
     length (tt_input_buffer t) = INPUT_BUF_LENGTH \<and> tt_next t \<le> INPUT_BUF_LENGTH"

lemma unat_ucast_up: "unat (ucast (x :: u32) :: u64) = unat x"
  by (simp add: unsigned_ucast_eq take_bit_nat_eq_self_iff order_less_le_trans [OF unsigned_less])

lemma unat_ucast_down: "unat (x :: u64) < 2 ^ 32 \<Longrightarrow> unat (ucast x :: u32) = unat x"
  by (simp add: unsigned_ucast_eq take_bit_nat_eq_self)

lemma blit_char_returns:
  assumes c: "c < 128" and d: "dp_screen d" "unat sx + 16 \<le> unat (dp_width d)" "unat sy + 16 \<le> unat (dp_height d)"
  shows "returns (same_screen d) (blit_char c sx sy d)"
proof -
  have px: "returns (same_screen d) (display_write_pixel (sx + of_nat x) (sy + of_nat y) col d')"
    if "x < 16" "y < 16" "same_screen d d'" for x y col d'
  proof -
    have u: "unat (sx + of_nat x) = unat sx + x" "unat (sy + of_nat y) = unat sy + y"
      using d that unsigned_less [of "dp_width d", where ?'a = nat] unsigned_less [of "dp_height d", where ?'a = nat]
      by (simp_all add: unat_word_ariths unat_of_nat)
    have "sx + of_nat x < dp_width d" "sy + of_nat y < dp_height d" using u d that by (simp_all add: word_less_nat_alt)
    with d that show ?thesis by (simp add: display_write_pixel_eq same_screen_def)
  qed
  have "unat c < 128" using c by (simp add: word_less_nat_alt)
  then show ?thesis
    unfolding blit_char_def Let_def
    by (auto simp: length_font simp del: upt_conv_Cons_Cons intro!: returns_rfold px)
qed


lemma blit_row_returns:
  assumes d: "dp_screen d" "16 * unat cw \<le> unat (dp_width d)" "16 * unat cy + 16 \<le> unat (dp_height d)"
    and buf: "start + unat cw \<le> length buf" "\<forall>c \<in> set buf. c < 128"
  shows "returns (same_screen d) (blit_row buf start cw cy d)"
proof -
  have uy: "unat (cy * CHAR_SCREEN_SIZE) = 16 * unat cy"
    using d(3) unsigned_less [of "dp_height d", where ?'a = nat] by (simp add: unat_word_ariths)
  have step: "returns (\<lambda>(_, d'). same_screen d d') (if start + x \<ge> length buf then Inl WildAccess else
       let curr = buf ! (start + x); seen = (b \<or> curr = NL); shown = (if seen then SPACE else curr)
       in rbind (blit_char shown (of_nat x * CHAR_SCREEN_SIZE) (cy * CHAR_SCREEN_SIZE) d') (\<lambda>d. Inr (seen, d)))"
    if x: "x < unat cw" and s: "same_screen d d'" for x b d'
  proof -
    have ux: "unat (of_nat x * CHAR_SCREEN_SIZE) = 16 * x"
      using x d(2) unsigned_less [of "dp_width d", where ?'a = nat] by (simp add: unat_word_ariths unat_of_nat)
    have ss: "dp_screen d'" "dp_width d' = dp_width d" "dp_height d' = dp_height d" using s d(1) by (simp_all add: same_screen_def)
    have "start + x < length buf" using x buf(1) by linarith
    moreover from this have "buf ! (start + x) < 128" using buf(2) by simp
    moreover have "returns (same_screen d') (blit_char c (of_nat x * CHAR_SCREEN_SIZE) (cy * CHAR_SCREEN_SIZE) d')"
      if "c < 128" for c using that x ux uy ss d by (intro blit_char_returns) auto
    ultimately show ?thesis
      using s by (auto simp: Let_def intro!: returns_rbind [of "same_screen d'"] intro: same_screen_trans)
  qed
  show ?thesis
    unfolding blit_row_def
    by (rule returns_rbind [of "\<lambda>(_, d'). same_screen d d'"], rule returns_rfold) (use step in auto)
qed

lemma index_buffer_ok:
  assumes "unat x < unat (tt_chars_width t)" "unat y < unat (tt_chars_height t)"
    "unat (tt_chars_width t) < 2 ^ 27" "unat (tt_chars_height t) < 2 ^ 27"
  shows "index_buffer x y t = Inr (x + tt_chars_width t * y)"
    "unat (x + tt_chars_width t * y) = unat x + unat (tt_chars_width t) * unat y"
    "unat x + unat (tt_chars_width t) * unat y < unat (tt_chars_width t) * unat (tt_chars_height t)"
    "unat (tt_chars_width t) * unat y + unat (tt_chars_width t) \<le> unat (tt_chars_width t) * unat (tt_chars_height t)"
proof -
  let ?w = "unat (tt_chars_width t)" let ?h = "unat (tt_chars_height t)"
  show "index_buffer x y t = Inr (x + tt_chars_width t * y)"
    using assms(1,2) by (simp add: index_buffer_def word_le_nat_alt)
  have "?w * unat y + ?w = ?w * Suc (unat y)" by simp
  also have "\<dots> \<le> ?w * ?h" using assms(2) by (intro mult_le_mono2) simp
  finally show le: "?w * unat y + ?w \<le> ?w * ?h" .
  then show "unat x + ?w * unat y < ?w * ?h" using assms(1) by linarith
  moreover have "?w * ?h < 2 ^ 27 * 2 ^ 27" using assms(3,4) by (intro mult_strict_mono) auto
  ultimately have "unat x + ?w * unat y < 2 ^ 64" by simp
  then show "unat (x + tt_chars_width t * y) = unat x + ?w * unat y" by (simp add: unat_word_ariths)
qed

definition drawn :: "tty \<Rightarrow> tty \<Rightarrow> bool" where
  "drawn t t' \<longleftrightarrow> (\<exists>d'. same_screen (tt_display t) d' \<and> t' = t\<lparr>tt_display := d'\<rparr>)"

lemma tty_wf_drawn: "tty_wf t \<Longrightarrow> drawn t t' \<Longrightarrow> tty_wf t'"
  by (auto simp: drawn_def tty_wf_def same_screen_def)

lemma drawn_set: "same_screen (tt_display t) d \<Longrightarrow> drawn t (t\<lparr>tt_display := d\<rparr>)"
  by (auto simp: drawn_def)

lemma times16: "unat (z :: u32) < 2 ^ 27 \<Longrightarrow> unat (z * 16) = 16 * unat z"
  by (simp add: unat_word_ariths)

lemma blit_returns:
  assumes wf: "tty_wf t" and x: "tt_dirty t = ONLY_PREV_CHAR_AFFECTED \<Longrightarrow> 0 < unat (tt_cursor_x t)"
  shows "returns (drawn t) (blit t)"
proof -
  let ?w = "unat (tt_chars_width t)" let ?h = "unat (tt_chars_height t)"
  from wf obtain buf where buf: "tt_buffer t = Some buf" "length buf = ?w * ?h" "\<forall>c \<in> set buf. c < 128"
    by (auto simp: tty_wf_def)
  have d: "dp_screen (tt_display t)" "16 * ?w \<le> unat (dp_width (tt_display t))" "16 * ?h \<le> unat (dp_height (tt_display t))"
    and sz: "0 < ?w" "0 < ?h" "?w < 2 ^ 27" "?h < 2 ^ 27" and cur: "unat (tt_cursor_x t) < ?w" "unat (tt_cursor_y t) < ?h"
    using wf by (auto simp: tty_wf_def)
  show ?thesis
  proof (cases "tt_dirty t")
    case ONLY_PREV_CHAR_AFFECTED
    have ux: "unat (tt_cursor_x t - 1) = unat (tt_cursor_x t) - 1"
      using x [OF ONLY_PREV_CHAR_AFFECTED] by unat_arith
    have u16: "unat ((tt_cursor_x t - 1) * 16) = 16 * (unat (tt_cursor_x t) - 1)"
      using times16 [of "tt_cursor_x t - 1"] ux cur(1) sz(3) by linarith
    have uh: "unat ((tt_chars_height t - 1) * CHAR_SCREEN_SIZE) = 16 * (?h - 1)"
      using sz by (simp add: unat_word_ariths unat_sub64 word_le_nat_alt)
    note i = index_buffer_ok [of "ucast (tt_cursor_x t - 1)" t "ucast (tt_cursor_y t)"]
    have i': "unat (ucast (tt_cursor_x t - 1) :: u64) < ?w" "unat (ucast (tt_cursor_y t) :: u64) < ?h"
      using ux cur by (simp_all add: unat_ucast_up)
    note ix = i [OF i' sz(3,4)]
    have "returns (same_screen (tt_display t)) (blit_char (buf ! unat (ucast (tt_cursor_x t - 1) + tt_chars_width t * ucast (tt_cursor_y t)))
        (ucast ((tt_cursor_x t - 1) * 16)) ((tt_chars_height t - 1) * CHAR_SCREEN_SIZE) (tt_display t))"
      using d buf ix(2,3) uh u16 cur sz x [OF ONLY_PREV_CHAR_AFFECTED]
      by (intro blit_char_returns) (auto simp: unat_ucast_up)
    then show ?thesis
      using ONLY_PREV_CHAR_AFFECTED buf ix
      by (auto simp: blit_def drawn_def intro!: returns_rbind [of "same_screen (tt_display t)"])
  next
    case ALL_DIRTY
    have step: "returns (drawn t) (let buffer_y = (of_nat n + ucast (tt_cursor_y t') + 1) mod tt_chars_height t' in
            rbind (index_buffer 0 buffer_y t') (\<lambda>i.
            case tt_buffer t' of None \<Rightarrow> Inl WildAccess | Some buf \<Rightarrow>
            rbind (blit_row buf (unat i) (tt_chars_width t') (of_nat n) (tt_display t'))
              (\<lambda>d. Inr (t'\<lparr>tt_display := d\<rparr>))))"
      if n: "n < ?h" and t': "drawn t t'" for n t'
    proof -
      from t' obtain d' where d': "same_screen (tt_display t) d'" "t' = t\<lparr>tt_display := d'\<rparr>" by (auto simp: drawn_def)
      define y where "y = (of_nat n + ucast (tt_cursor_y t) + 1) mod tt_chars_height t"
      have y: "unat y < ?h" using sz(2) by (simp add: y_def unat_mod)
      have z: "unat (0 :: u64) < ?w" using sz by simp
      note ix = index_buffer_ok [OF z y sz(3,4)]
      have un: "unat (of_nat n :: u64) = n" using n sz(4) by (simp add: unat_of_nat)
      have "returns (same_screen d') (blit_row buf (unat (0 + tt_chars_width t * y)) (tt_chars_width t) (of_nat n) d')"
        using d d'(1) n un ix(2,4) buf by (intro blit_row_returns) (auto simp: same_screen_def)
      moreover have "index_buffer 0 y (t\<lparr>tt_display := d'\<rparr>) = index_buffer 0 y t" by (simp add: index_buffer_def)
      ultimately show ?thesis
        using ix(1) buf(1) d' same_screen_trans [OF d'(1)]
        by (auto simp: Let_def y_def [symmetric] intro!: returns_rbind [of "same_screen d'"] drawn_set)
    qed
    have "drawn t t" by (auto simp: drawn_def intro!: exI [of _ "tt_display t"])
    then show ?thesis
      using ALL_DIRTY step by (auto simp: blit_def intro!: returns_rfold)
  qed
qed


lemma tty_wf_upd [simp]:
  "tty_wf (t\<lparr>tt_dirty := x\<rparr>) = tty_wf t" "tty_wf (t\<lparr>tt_current_run := r\<rparr>) = tty_wf t"
  by (simp_all add: tty_wf_def)

text \<open>What every output routine keeps: the terminal is well formed and the input side is untouched.\<close>

definition keeps :: "tty \<Rightarrow> tty \<Rightarrow> bool" where
  "keeps t t' \<longleftrightarrow> tty_wf t' \<and> tt_input_buffer t' = tt_input_buffer t \<and> tt_next t' = tt_next t \<and>
     tt_c_lflag t' = tt_c_lflag t"

lemma keeps_trans: "keeps t t1 \<Longrightarrow> keeps t1 t2 \<Longrightarrow> keeps t t2"
  by (simp add: keeps_def)

lemma blit_keeps:
  "tty_wf t \<Longrightarrow> (tt_dirty t = ONLY_PREV_CHAR_AFFECTED \<Longrightarrow> 0 < unat (tt_cursor_x t)) \<Longrightarrow> returns (keeps t) (blit t)"
  by (rule returns_mono [OF blit_returns]) (auto simp: keeps_def intro: tty_wf_drawn, auto simp: drawn_def)

lemma put_char_returns:
  assumes wf: "tty_wf t" and i: "unat idx < unat (tt_chars_width t) * unat (tt_chars_height t)" and c: "c < 128"
  shows "returns (\<lambda>t'. tty_wf t' \<and> (\<exists>b. t' = t\<lparr>tt_buffer := b\<rparr>)) (put_char idx c t)"
proof -
  from wf obtain buf where buf: "tt_buffer t = Some buf" "length buf = unat (tt_chars_width t) * unat (tt_chars_height t)"
    "\<forall>c \<in> set buf. c < 128" by (auto simp: tty_wf_def)
  then have "put_char idx c t = Inr (t\<lparr>tt_buffer := Some (buf[unat idx := c])\<rparr>)" using i by (simp add: put_char_def)
  moreover have "tty_wf (t\<lparr>tt_buffer := Some (buf[unat idx := c])\<rparr>)"
    using wf buf c set_update_subset_insert [of buf "unat idx" c] by (auto simp: tty_wf_def)
  ultimately show ?thesis by auto
qed

lemma clear_row_returns:
  assumes wf: "tty_wf t" and i: "unat idx + unat (tt_chars_width t) \<le> unat (tt_chars_width t) * unat (tt_chars_height t)"
  shows "returns (\<lambda>t'. tty_wf t' \<and> (\<exists>b. t' = t\<lparr>tt_buffer := b\<rparr>)) (clear_row idx t)"
proof -
  from wf obtain buf where buf: "tt_buffer t = Some buf" "length buf = unat (tt_chars_width t) * unat (tt_chars_height t)"
    "\<forall>c \<in> set buf. c < 128" by (auto simp: tty_wf_def)
  let ?b = "take (unat idx) buf @ replicate (unat (tt_chars_width t)) SPACE @ drop (unat idx + unat (tt_chars_width t)) buf"
  have "clear_row idx t = Inr (t\<lparr>tt_buffer := Some ?b\<rparr>)" using i buf by (simp add: clear_row_def)
  moreover have "length ?b = length buf" using i buf(2) by simp
  moreover have "\<forall>c \<in> set ?b. c < 128" using buf(3) by (auto dest: in_set_takeD in_set_dropD)
  ultimately show ?thesis using wf buf(2) by (auto simp: tty_wf_def)
qed

lemma do_newline_returns:
  assumes wf: "tty_wf (t\<lparr>tt_cursor_x := 0\<rparr>)"
  shows "returns (\<lambda>t'. keeps t t' \<and> tt_dirty t' = ALL_DIRTY \<and> tt_cursor_x t' = 0 \<and> tt_chars_width t' = tt_chars_width t)
    (do_newline t)"
proof -
  define y where "y = (ucast (ucast (tt_cursor_y t + 1) mod tt_chars_height t) :: u32)"
  let ?t1 = "t\<lparr>tt_cursor_y := y, tt_cursor_x := 0\<rparr>"
  have h: "0 < unat (tt_chars_height t)" "unat (tt_chars_height t) < 2 ^ 27" using wf by (auto simp: tty_wf_def)
  have "unat (ucast (tt_cursor_y t + 1) mod tt_chars_height t) < unat (tt_chars_height t)" using h by (simp add: unat_mod)
  then have y: "unat y < unat (tt_chars_height t)" unfolding y_def using h by (subst unat_ucast_down) auto
  have wf1: "tty_wf ?t1" using wf y by (auto simp: tty_wf_def)
  have p: "unat (ucast (tt_cursor_x ?t1) :: u64) < unat (tt_chars_width ?t1)" "unat (ucast y :: u64) < unat (tt_chars_height ?t1)"
    using wf y by (auto simp: tty_wf_def unat_ucast_up)
  note ix = index_buffer_ok [OF p]
  have c: "returns (\<lambda>t'. tty_wf t' \<and> (\<exists>b. t' = ?t1\<lparr>tt_buffer := b\<rparr>)) (clear_row (ucast (tt_cursor_x ?t1) + tt_chars_width ?t1 * ucast y) ?t1)"
    using ix(2,4) wf by (intro clear_row_returns [OF wf1]) (auto simp: tty_wf_def)
  have "index_buffer (ucast (tt_cursor_x ?t1)) (ucast (tt_cursor_y ?t1)) ?t1 =
      Inr (ucast (tt_cursor_x ?t1) + tt_chars_width ?t1 * ucast y)"
    using ix(1) wf by (auto simp: tty_wf_def)
  then have "do_newline t = rbind (clear_row (ucast (tt_cursor_x ?t1) + tt_chars_width ?t1 * ucast y) ?t1)
      (\<lambda>t2. Inr (t2\<lparr>tt_dirty := ALL_DIRTY\<rparr>))"
    by (simp add: do_newline_def Let_def y_def)
  then show ?thesis by (simp only:) (rule returns_rbind [OF c], auto simp: keeps_def)
qed


definition cursor_index :: "tty \<Rightarrow> u64" where
  "cursor_index t = ucast (tt_cursor_x t) + tt_chars_width t * ucast (tt_cursor_y t)"

lemma put_at_cursor:
  assumes wf: "tty_wf t" and c: "c < 128"
  shows "index_buffer (ucast (tt_cursor_x t)) (ucast (tt_cursor_y t)) t = Inr (cursor_index t)"
    and "returns (\<lambda>t'. tty_wf t' \<and> (\<exists>b. t' = t\<lparr>tt_buffer := b\<rparr>)) (put_char (cursor_index t) c t)"
    and "tt_cursor_x t = 0 \<Longrightarrow> returns (\<lambda>t'. tty_wf t' \<and> (\<exists>b. t' = t\<lparr>tt_buffer := b\<rparr>)) (clear_row (cursor_index t) t)"
proof -
  have p: "unat (ucast (tt_cursor_x t) :: u64) < unat (tt_chars_width t)" "unat (ucast (tt_cursor_y t) :: u64) < unat (tt_chars_height t)"
    "unat (tt_chars_width t) < 2 ^ 27" "unat (tt_chars_height t) < 2 ^ 27"
    using wf by (auto simp: tty_wf_def unat_ucast_up)
  note ix = index_buffer_ok [OF p, folded cursor_index_def]
  show "index_buffer (ucast (tt_cursor_x t)) (ucast (tt_cursor_y t)) t = Inr (cursor_index t)" by (rule ix(1))
  show "returns (\<lambda>t'. tty_wf t' \<and> (\<exists>b. t' = t\<lparr>tt_buffer := b\<rparr>)) (put_char (cursor_index t) c t)"
    using ix(2,3) by (intro put_char_returns [OF wf _ c]) simp
  show "returns (\<lambda>t'. tty_wf t' \<and> (\<exists>b. t' = t\<lparr>tt_buffer := b\<rparr>)) (clear_row (cursor_index t) t)" if "tt_cursor_x t = 0"
    using ix(2,4) that by (intro clear_row_returns [OF wf]) simp
qed

lemma erase_char_returns:
  assumes wf: "tty_wf t"
  shows "returns (keeps t) (erase_char t)"
proof (cases "tt_current_run t = 0")
  case True
  then show ?thesis using wf by (simp add: erase_char_def keeps_def)
next
  case False
  let ?t1 = "t\<lparr>tt_current_run := tt_current_run t - 1\<rparr>"
  define t2 where "t2 = (if tt_cursor_x ?t1 = 0
                then ?t1\<lparr>tt_cursor_y := (if tt_cursor_y ?t1 = 0 then ucast (tt_chars_height ?t1 - 1) else tt_cursor_y ?t1 - 1),
                        tt_cursor_x := ucast (tt_chars_width ?t1 - 1)\<rparr>
                else ?t1\<lparr>tt_cursor_x := tt_cursor_x ?t1 - 1\<rparr>)"
  have sz: "0 < unat (tt_chars_width t)" "0 < unat (tt_chars_height t)" "unat (tt_chars_width t) < 2 ^ 27"
    "unat (tt_chars_height t) < 2 ^ 27" and cur: "unat (tt_cursor_x t) < unat (tt_chars_width t)"
    "unat (tt_cursor_y t) < unat (tt_chars_height t)"
    using wf by (auto simp: tty_wf_def)
  have m1: "unat (tt_chars_width t - 1) = unat (tt_chars_width t) - 1" "unat (tt_chars_height t - 1) = unat (tt_chars_height t) - 1"
    using sz by (simp_all add: unat_sub64 word_le_nat_alt)
  have d: "unat (ucast (tt_chars_width t - 1) :: u32) = unat (tt_chars_width t) - 1"
    "unat (ucast (tt_chars_height t - 1) :: u32) = unat (tt_chars_height t) - 1"
    using sz m1 by (simp_all add: unat_ucast_down)
  have dec: "z \<noteq> 0 \<Longrightarrow> unat (z - 1) < unat z" for z :: u32 by (simp add: minus1_less_measure word_gt_0)
  have wf2: "tty_wf t2"
    using wf d sz cur dec [of "tt_cursor_x t"] dec [of "tt_cursor_y t"] by (auto simp: t2_def tty_wf_def)
  have k2: "keeps t t2" using wf2 by (auto simp: keeps_def t2_def)
  have sp: "SPACE < 128" by simp
  note pc = put_at_cursor [OF wf2 sp]
  have "returns (keeps t2) (rbind (put_char (cursor_index t2) SPACE t2)
      (\<lambda>t3. blit (t3\<lparr>tt_dirty := ALL_DIRTY\<rparr>)))"
    by (rule returns_rbind [OF pc(2)], rule returns_mono [OF blit_keeps]) (auto simp: keeps_def)
  moreover have "erase_char t = rbind (put_char (cursor_index t2) SPACE t2)
      (\<lambda>t3. blit (t3\<lparr>tt_dirty := ALL_DIRTY\<rparr>))"
    using False pc(1) by (simp add: erase_char_def Let_def t2_def)
  ultimately show ?thesis using k2 by (auto elim!: returns_mono intro: keeps_trans)
qed

text \<open>The state between the character write and the line wrap: the cursor may stand one past the row.\<close>

definition mid :: "tty \<Rightarrow> tty \<Rightarrow> bool" where
  "mid t t' \<longleftrightarrow> keeps t (t'\<lparr>tt_cursor_x := 0\<rparr>) \<and> unat (tt_cursor_x t') \<le> unat (tt_chars_width t') \<and>
     (tt_dirty t' = ONLY_PREV_CHAR_AFFECTED \<longrightarrow> 0 < unat (tt_cursor_x t'))"

lemma tty_wf_cursor: "tty_wf t \<Longrightarrow> tty_wf (t\<lparr>tt_cursor_x := 0\<rparr>)"
  by (auto simp: tty_wf_def)

lemma advance_returns:
  assumes wf: "tty_wf t"
  shows "returns (mid t) (advance c kb t)"
proof (cases "c = NL")
  case True
  let ?t = "t\<lparr>tt_current_run := 0\<rparr>"
  have "tty_wf (?t\<lparr>tt_cursor_x := 0\<rparr>)" using tty_wf_cursor [of ?t] wf by simp
  from do_newline_returns [OF this] True show ?thesis
    by (auto simp: advance_def Let_def mid_def keeps_def tty_wf_cursor elim!: returns_mono)
next
  case False
  have "unat (tt_cursor_x t) < 2 ^ 27" using wf by (auto simp: tty_wf_def)
  then have "unat (tt_cursor_x t + 1) = unat (tt_cursor_x t) + 1" by (simp add: unat_word_ariths)
  then show ?thesis
    using False wf tty_wf_cursor [OF wf] by (auto simp: advance_def Let_def mid_def keeps_def tty_wf_def)
qed

lemma wrap_returns:
  assumes m: "mid t t3"
  shows "returns (\<lambda>t4. keeps t t4 \<and> (tt_dirty t4 = ONLY_PREV_CHAR_AFFECTED \<longrightarrow> 0 < unat (tt_cursor_x t4)))
    (if ucast (tt_cursor_x t3) = tt_chars_width t3 then do_newline t3 else Inr t3)"
proof (cases "ucast (tt_cursor_x t3) = tt_chars_width t3")
  case True
  from m have "tty_wf (t3\<lparr>tt_cursor_x := 0\<rparr>)" by (simp add: mid_def keeps_def)
  from do_newline_returns [OF this] True m show ?thesis
    by (auto simp: mid_def keeps_def elim!: returns_mono)
next
  case False
  then have "unat (tt_cursor_x t3) \<noteq> unat (tt_chars_width t3)" by (metis unat_ucast_up word_unat_eq_iff)
  then have "tty_wf t3" using m by (auto simp: mid_def keeps_def tty_wf_def)
  then show ?thesis using False m by (auto simp: mid_def keeps_def)
qed

lemma mod_row: "tty_wf t \<Longrightarrow> ucast (ucast (tt_cursor_y t) mod tt_chars_height t) = tt_cursor_y t"
proof -
  assume wf: "tty_wf t"
  then have "unat (ucast (tt_cursor_y t) mod tt_chars_height t :: u64) = unat (tt_cursor_y t)"
    by (auto simp: unat_mod unat_ucast_up tty_wf_def)
  moreover have "unat (tt_cursor_y t) < 2 ^ 32" using unsigned_less [of "tt_cursor_y t", where ?'a = nat] by simp
  ultimately show ?thesis by (simp add: word_unat_eq_iff unat_ucast_down)
qed

lemma write_returns:
  assumes wf: "tty_wf t"
  shows "returns (keeps t) (write_from_multiple_sources ch kb t)"
proof -
  define c where "c = (if sint ch < 0 then 63 else ch)"
  have c: "c < 128"
  proof (cases "sint ch < 0")
    case False
    have "\<not> bit ch 7" using False by (simp add: sint_uint signed_take_bit_negative_iff bit_simps not_less)
    then have "take_bit 7 ch = ch" by (intro bit_word_eqI) (auto simp: bit_simps less_Suc_eq numeral_eq_Suc)
    then have "unat (take_bit 7 ch) = unat ch" by simp
    then have "unat ch mod 128 = unat ch" by (simp add: unsigned_take_bit_eq) (simp add: take_bit_eq_mod)
    then have "unat ch < 128" by (metis mod_less_divisor zero_less_numeral)
    then show ?thesis using False by (simp add: c_def word_less_nat_alt)
  qed (simp add: c_def)
  obtain buf where buf: "tt_buffer t = Some buf" using wf by (auto simp: tty_wf_def)
  show ?thesis
  proof (cases "c = BS \<and> kb \<and> canonical t")
    case True
    then show ?thesis using erase_char_returns [OF wf] buf
      by (simp add: write_from_multiple_sources_def Let_def c_def [symmetric])
  next
    case False
    have k: "returns (\<lambda>t1. keeps t t1) (if tt_cursor_x t = 0
             then rbind (index_buffer (ucast (tt_cursor_x t)) (ucast (tt_cursor_y t)) t) (\<lambda>i. clear_row i t)
             else Inr t)"
      using put_at_cursor [OF wf c] wf by (auto simp: keeps_def elim!: returns_mono)
    have "write_from_multiple_sources ch kb t =
      rbind (if tt_cursor_x t = 0
             then rbind (index_buffer (ucast (tt_cursor_x t)) (ucast (tt_cursor_y t)) t) (\<lambda>i. clear_row i t)
             else Inr t) (\<lambda>t1.
      rbind (index_buffer (ucast (tt_cursor_x t1)) (ucast (tt_cursor_y t1)) t1) (\<lambda>idx.
      rbind (put_char idx c t1) (\<lambda>t2. rbind (advance c kb t2) (\<lambda>t3.
      rbind (if ucast (tt_cursor_x t3) = tt_chars_width t3 then do_newline t3 else Inr t3) (\<lambda>t4.
      blit (t4\<lparr>tt_cursor_y := ucast (ucast (tt_cursor_y t4) mod tt_chars_height t4)\<rparr>))))))"
      unfolding write_from_multiple_sources_def Let_def c_def [symmetric] using False buf by auto
    also have "returns (keeps t) \<dots>"
    proof (rule returns_rbind [OF k])
      fix t1 assume k1: "keeps t t1"
      then have wf1: "tty_wf t1" by (simp add: keeps_def)
      note p = put_at_cursor [OF wf1 c]
      have "returns (keeps t) (rbind (put_char (cursor_index t1) c t1) (\<lambda>t2. rbind (advance c kb t2) (\<lambda>t3.
        rbind (if ucast (tt_cursor_x t3) = tt_chars_width t3 then do_newline t3 else Inr t3) (\<lambda>t4.
        blit (t4\<lparr>tt_cursor_y := ucast (ucast (tt_cursor_y t4) mod tt_chars_height t4)\<rparr>)))))"
      proof (rule returns_rbind [OF p(2)], elim conjE exE, rule returns_rbind [OF advance_returns], assumption)
        fix t2 b t3 assume "tty_wf t2" "t2 = t1\<lparr>tt_buffer := b\<rparr>" and m: "mid t2 t3"
        then have k2: "keeps t t2" using k1 by (simp add: keeps_def)
        show "returns (keeps t) (rbind (if ucast (tt_cursor_x t3) = tt_chars_width t3 then do_newline t3 else Inr t3)
          (\<lambda>t4. blit (t4\<lparr>tt_cursor_y := ucast (ucast (tt_cursor_y t4) mod tt_chars_height t4)\<rparr>)))"
        proof (rule returns_rbind [OF wrap_returns [OF m]])
          fix t4 assume k4: "keeps t2 t4 \<and> (tt_dirty t4 = ONLY_PREV_CHAR_AFFECTED \<longrightarrow> 0 < unat (tt_cursor_x t4))"
          then have wf4: "tty_wf t4" by (simp add: keeps_def)
          from k4 have "returns (keeps t4) (blit t4)" by (intro blit_keeps [OF wf4]) simp
          with k4 k2 show "returns (keeps t) (blit (t4\<lparr>tt_cursor_y := ucast (ucast (tt_cursor_y t4) mod tt_chars_height t4)\<rparr>))"
            unfolding mod_row [OF wf4] by (auto elim!: returns_mono intro: keeps_trans)
        qed
      qed
      then show "returns (keeps t) (rbind (index_buffer (ucast (tt_cursor_x t1)) (ucast (tt_cursor_y t1)) t1) (\<lambda>idx.
        rbind (put_char idx c t1) (\<lambda>t2. rbind (advance c kb t2) (\<lambda>t3.
        rbind (if ucast (tt_cursor_x t3) = tt_chars_width t3 then do_newline t3 else Inr t3) (\<lambda>t4.
        blit (t4\<lparr>tt_cursor_y := ucast (ucast (tt_cursor_y t4) mod tt_chars_height t4)\<rparr>))))))"
        using p(1) by simp
    qed
    finally show ?thesis .
  qed
qed


section \<open>The line discipline\<close>

definition queue :: "tty \<Rightarrow> u8 list" where
  "queue t = take (tt_next t) (tt_input_buffer t)"

lemma length_queue [simp]: "tty_wf t \<Longrightarrow> length (queue t) = tt_next t"
  by (auto simp: queue_def tty_wf_def)

lemma keeps_queue: "keeps t t' \<Longrightarrow> queue t' = queue t \<and> canonical t' = canonical t"
  by (simp add: keeps_def queue_def canonical_def)

lemma shuffle_down_take:
  assumes "n + r \<le> length buf"
  shows "take r (shuffle_down n r buf) = take r (drop n buf) \<and> length (shuffle_down n r buf) = length buf \<and>
    (\<forall>i \<ge> r. i < length buf \<longrightarrow> shuffle_down n r buf ! i = buf ! i)"
  using assms
proof (induction r)
  case 0
  then show ?case by (simp add: shuffle_down_def)
next
  case (Suc r)
  let ?b = "shuffle_down n r buf"
  have IH: "take r ?b = take r (drop n buf)" "length ?b = length buf" "\<And>i. r \<le> i \<Longrightarrow> i < length buf \<Longrightarrow> ?b ! i = buf ! i"
    using Suc by auto
  have s: "shuffle_down n (Suc r) buf = ?b[r := ?b ! (r + n)]" by (simp add: shuffle_down_def)
  have v: "?b ! (r + n) = buf ! (n + r)" using IH(3) [of "r + n"] Suc.prems by (simp add: add.commute)
  have "take (Suc r) (?b[r := ?b ! (r + n)]) = take r ?b @ [buf ! (n + r)]"
    using Suc.prems IH(2) v by (simp add: take_Suc_conv_app_nth)
  also have "\<dots> = take (Suc r) (drop n buf)" using Suc.prems IH(1) by (simp add: take_Suc_conv_app_nth)
  finally show ?case using s IH by auto
qed

lemma provide_returns:
  assumes wf: "tty_wf t" and x: "x \<noteq> 0"
  shows "if x = BS \<and> canonical t
    then returns (\<lambda>t'. tty_wf t' \<and> queue t' = butlast (queue t) \<and> canonical t' = canonical t) (tty_provide_stdin x t)
    else if length (queue t) = INPUT_BUF_LENGTH then tty_provide_stdin x t = Inl HCF
    else returns (\<lambda>t'. tty_wf t' \<and> queue t' = queue t @ [x] \<and> canonical t' = canonical t) (tty_provide_stdin x t)"
proof (rule returnsE [OF write_returns [OF wf, of x True]])
  fix t1 assume w: "write_from_multiple_sources x True t = Inr t1" and k: "keeps t t1"
  have wf1: "tty_wf t1" and n1: "tt_next t1 = tt_next t" and b1: "tt_input_buffer t1 = tt_input_buffer t"
    and c1: "canonical t1 = canonical t" using k by (auto simp: keeps_def canonical_def)
  have len: "length (tt_input_buffer t) = INPUT_BUF_LENGTH" "tt_next t \<le> INPUT_BUF_LENGTH" using wf by (auto simp: tty_wf_def)
  have a: "tty_wf (t1\<lparr>tt_next := n\<rparr>)" if "n \<le> INPUT_BUF_LENGTH" for n using wf1 that by (simp add: tty_wf_def)
  have b: "tty_wf (t1\<lparr>tt_input_buffer := (tt_input_buffer t1)[m := x], tt_next := n\<rparr>)" if "n \<le> INPUT_BUF_LENGTH" for m n
    using wf1 that by (simp add: tty_wf_def)
  show ?thesis
  proof (cases "x = BS \<and> canonical t")
    case True
    then show ?thesis
      using w x c1 n1 b1 wf1 a len
      by (auto simp: tty_provide_stdin_def queue_def butlast_take canonical_def)
  next
    case False
    then show ?thesis
      using w x c1 n1 b1 b [of "Suc (tt_next t)"] len wf
      by (auto simp: tty_provide_stdin_def queue_def take_Suc_conv_app_nth canonical_def)
  qed
qed

lemma newline_at_le: "newline_at q \<le> length q"
  by (induction q) auto

lemma newline_at_eq:
  "newline_at q = (if NL \<in> set q then Suc (length (takeWhile (\<lambda>c. c \<noteq> NL) q)) else 0)"
  by (induction q) auto

lemma read_returns:
  fixes num :: nat
  assumes wf: "tty_wf t" and c: "canonical t"
  defines "n \<equiv> min num (newline_at (queue t))"
  shows "returns (\<lambda>(out, t'). out = take n (queue t) \<and> queue t' = drop n (queue t) \<and> tty_wf t' \<and> canonical t')
    (tty_read num t)"
proof -
  have le: "n \<le> tt_next t" using newline_at_le [of "queue t"] wf by (simp add: n_def)
  have len: "length (tt_input_buffer t) = INPUT_BUF_LENGTH" "tt_next t \<le> INPUT_BUF_LENGTH" using wf by (auto simp: tty_wf_def)
  have n: "n = (if find_newline_in_input_buffer t < num then find_newline_in_input_buffer t else num)"
    by (auto simp: n_def find_newline_in_input_buffer_def queue_def)
  show ?thesis
  proof (cases "n = 0")
    case True
    then show ?thesis using wf c unfolding tty_read_def Let_def n [symmetric] by simp
  next
    case False
    let ?r = "tt_next t - n"
    have "n + ?r \<le> length (tt_input_buffer t)" using le len by simp
    note s = shuffle_down_take [OF this]
    have "take ?r (shuffle_down n ?r (tt_input_buffer t)) = drop n (queue t)"
      using s by (simp add: queue_def drop_take)
    then show ?thesis
      using False wf c s le unfolding tty_read_def Let_def n [symmetric]
      by (auto simp: queue_def tty_wf_def canonical_def min_def)
  qed
qed


section \<open>Properties\<close>

text \<open>A terminal of 4 by 3 characters for the witnesses.\<close>

definition small_tty :: tty where
  "small_tty = \<lparr>tt_chars_width = 4, tt_chars_height = 3, tt_cursor_x = 3, tt_cursor_y = 2,
     tt_buffer = Some (replicate 12 SPACE), tt_current_run = 0, tt_c_lflag = ICANON, tt_dirty = ALL_DIRTY,
     tt_input_buffer = replicate 1000 0, tt_next = 0,
     tt_display = \<lparr>dp_screen = True, dp_bytes_per_pixel = 4, dp_pitch = 256, dp_width = 64, dp_height = 48,
       dp_pixels = \<lambda>_. background_col\<rparr>\<rparr>"

lemma small_tty_ok: "tty_wf small_tty" "canonical small_tty" "queue small_tty = []"
  by (simp_all add: small_tty_def tty_wf_def canonical_def queue_def)

text \<open>C34. Writing to the terminal is safe. On a well-formed terminal writing any byte, from a program or
  from the keyboard, never faults (no character or pixel access is out of bounds, whatever wraps or
  scrolls), keeps the terminal well formed and leaves the input buffer alone.\<close>

theorem tty_write_safe:
  assumes "tty_wf t"
  shows "\<exists>t'. write_from_multiple_sources c is_from_keyboard t = Inr t' \<and> tty_wf t' \<and> queue t' = queue t"
  using write_returns [OF assms, of c is_from_keyboard] by (elim returnsE) (auto simp: keeps_def queue_def)

theorem tty_write_safe_witness:
  "\<exists>t'. write_from_multiple_sources 65 False small_tty = Inr t' \<and> tty_wf t' \<and> queue t' = []"
  using tty_write_safe [OF small_tty_ok(1), of 65 False] by (simp add: small_tty_ok)

lemma provide_all:
  assumes "tty_wf t" "canonical t" "\<forall>x \<in> set xs. x \<noteq> 0 \<and> x \<noteq> BS" "length (queue t) + length xs \<le> INPUT_BUF_LENGTH"
  shows "returns (\<lambda>t'. tty_wf t' \<and> canonical t' \<and> queue t' = queue t @ xs) (rfold tty_provide_stdin xs t)"
  using assms
proof (induction xs arbitrary: t)
  case (Cons x xs)
  from provide_returns [OF Cons.prems(1), of x] Cons.prems
  have p: "returns (\<lambda>t'. tty_wf t' \<and> queue t' = queue t @ [x] \<and> canonical t') (tty_provide_stdin x t)"
    by (auto split: if_splits)
  show ?case
    unfolding rfold.simps
  proof (rule returns_rbind [OF p], elim conjE)
    fix t1 assume t1: "tty_wf t1" "queue t1 = queue t @ [x]" "canonical t1"
    have "length (queue t1) + length xs \<le> INPUT_BUF_LENGTH" using t1(2) Cons.prems(4) by simp
    with Cons.IH [OF t1(1,3)] Cons.prems(3) t1(2)
    show "returns (\<lambda>t'. tty_wf t' \<and> canonical t' \<and> queue t' = queue t @ x # xs) (rfold tty_provide_stdin xs t1)" by simp
  qed
qed simp

text \<open>C11. A typed line is read back. In canonical mode, with an empty input buffer, typing a line of at most
  999 characters (no backspace, newline or null) and a newline is accepted, and the next read with a
  large enough buffer returns exactly that line and leaves the input buffer empty.\<close>

theorem typed_line_is_read:
  assumes "tty_wf t" and "canonical t" and "queue t = []"
    and "\<forall>x \<in> set line. x \<noteq> 0 \<and> x \<noteq> BS \<and> x \<noteq> NL" and "length line \<le> 999" and "length line < num"
  shows "\<exists>t1 t2. rfold tty_provide_stdin (line @ [NL]) t = Inr t1 \<and> tty_read num t1 = Inr (line @ [NL], t2) \<and>
    queue t2 = [] \<and> tty_wf t2"
proof -
  have "\<forall>x \<in> set (line @ [NL]). x \<noteq> 0 \<and> x \<noteq> BS" using assms(4) by auto
  from provide_all [OF assms(1,2) this] assms(3,5)
  have "returns (\<lambda>t'. tty_wf t' \<and> canonical t' \<and> queue t' = line @ [NL]) (rfold tty_provide_stdin (line @ [NL]) t)" by simp
  then obtain t1 where t1: "rfold tty_provide_stdin (line @ [NL]) t = Inr t1" "tty_wf t1" "canonical t1" "queue t1 = line @ [NL]"
    by (elim returnsE) auto
  have "takeWhile (\<lambda>c. c \<noteq> NL) (line @ [NL]) = line" using assms(4) by (simp add: takeWhile_append2)
  then have "newline_at (queue t1) = length (line @ [NL])" using t1(4) by (simp add: newline_at_eq)
  then have "min num (newline_at (queue t1)) = length (line @ [NL])" using assms(6) by simp
  with read_returns [OF t1(2,3), of num] t1(4) obtain t2 where
    "tty_read num t1 = Inr (line @ [NL], t2)" "queue t2 = []" "tty_wf t2"
    by (elim returnsE) auto
  with t1(1) show ?thesis by blast
qed

theorem typed_line_is_read_witness:
  "\<exists>t1 t2. rfold tty_provide_stdin ([104, 105] @ [NL]) small_tty = Inr t1 \<and> tty_read 10 t1 = Inr ([104, 105, NL], t2) \<and> queue t2 = []"
proof -
  have "\<forall>x \<in> set [104, 105 :: u8]. x \<noteq> 0 \<and> x \<noteq> BS \<and> x \<noteq> NL" by simp
  from typed_line_is_read [OF small_tty_ok this, of 10] show ?thesis by auto
qed

text \<open>The terminal's read. In canonical mode a read returns the longest prefix of the queued input that
  fits and does not go past the first newline (nothing while no full line is queued), and removes
  exactly that prefix.\<close>

theorem tty_read_line:
  assumes "tty_wf t" and "canonical t"
  shows "\<exists>t'. let n = (if NL \<in> set (queue t) then min num (Suc (length (takeWhile (\<lambda>c. c \<noteq> NL) (queue t)))) else 0)
    in tty_read num t = Inr (take n (queue t), t') \<and> queue t' = drop n (queue t) \<and> tty_wf t'"
  using read_returns [OF assms, of num] by (elim returnsE) (auto simp: newline_at_eq Let_def)

theorem tty_read_line_witness:
  "\<exists>t'. tty_read 10 small_tty = Inr ([], t') \<and> queue t' = []"
  using tty_read_line [OF small_tty_ok(1,2), of 10] by (auto simp: small_tty_ok)

text \<open>A backspace can swallow a finished line. After a newline has been typed, backspace no longer changes
  the screen, but it still removes the newline from the input buffer, so the line is not delivered.\<close>

theorem backspace_erases_newline:
  assumes "tty_wf t" and "canonical t" and "queue t = line @ [NL]" and "tt_current_run t = 0" and "NL \<notin> set line"
  shows "\<exists>t'. tty_provide_stdin BS t = Inr t' \<and> tt_buffer t' = tt_buffer t \<and> queue t' = line \<and>
    (\<exists>t''. tty_read num t' = Inr ([], t''))"
proof -
  obtain buf where "tt_buffer t = Some buf" using assms(1) by (auto simp: tty_wf_def)
  then have w: "write_from_multiple_sources BS True t = Inr t"
    using assms(2,4) by (simp add: write_from_multiple_sources_def erase_char_def)
  have "tt_next t \<noteq> 0" using assms(1,3) length_queue [OF assms(1)] by auto
  then have p: "tty_provide_stdin BS t = Inr (t\<lparr>tt_next := tt_next t - 1\<rparr>)"
    using w assms(2) by (simp add: tty_provide_stdin_def)
  from provide_returns [OF assms(1), of BS] assms(2,3) p
  have t': "tty_wf (t\<lparr>tt_next := tt_next t - 1\<rparr>)" "queue (t\<lparr>tt_next := tt_next t - 1\<rparr>) = line" "canonical (t\<lparr>tt_next := tt_next t - 1\<rparr>)"
    by auto
  from read_returns [OF t'(1,3), of num] t'(2) assms(5)
  have "\<exists>t''. tty_read num (t\<lparr>tt_next := tt_next t - 1\<rparr>) = Inr ([], t'')"
    by (elim returnsE) (auto simp: newline_at_eq)
  then show ?thesis using p t'(2) by auto
qed

theorem backspace_erases_newline_witness:
  "\<exists>t'. tty_provide_stdin BS (small_tty\<lparr>tt_input_buffer := [104, NL] @ replicate 998 0, tt_next := 2\<rparr>) = Inr t' \<and> queue t' = [104]"
proof -
  let ?t = "small_tty\<lparr>tt_input_buffer := [104, NL] @ replicate 998 0, tt_next := 2\<rparr>"
  have "tty_wf ?t" "canonical ?t" "queue ?t = [104] @ [NL]" "tt_current_run ?t = 0" "NL \<notin> set [104]"
    by (simp_all add: small_tty_def tty_wf_def canonical_def queue_def)
  from backspace_erases_newline [OF this] show ?thesis by blast
qed

end
