(* ===== verification/Pipes.thy ===== *)
theory Pipes
  imports Tty
begin

text \<open>
  Pipes, terminal streams and open files (\<open>stuos/src/pipes_and_files.c\<close>).

  The objects that the code keeps on the kernel heap are a map from addresses to objects: the
  private data of a pipe end or of an open file, or a block of bytes. \<open>free\<close> removes an object, and a
  copy that leaves its block is a \<open>WildAccess\<close>. The address of a new object is chosen by the argument
  \<open>addr\<close>, a function of the store, which stands for \<open>malloc\<close>; \<open>allocates addr\<close> says that the address
  is not null and not in use. The code does no arithmetic on these pointers, so they are natural
  numbers, 0 the null pointer; running out of memory is not modelled here. The operations of a \<open>VNode\<close> work on the state \<open>'f\<close> of the file system they
  belong to.
\<close>

section \<open>Data\<close>

type_synonym ref = nat

record FopReadResult =
  fr_read_something :: bool
  fr_bytes_read :: nat

record VNodeData =
  vd_inode :: u64
  vd_mount_id :: u64

text \<open>The two operations of \<open>struct VNode\<close> that open files use; a read returns the bytes it copied.\<close>

record 'f VNode =
  vn_id :: VNodeData
  vn_write_file :: "VNodeData \<Rightarrow> u64 \<Rightarrow> u8 list \<Rightarrow> 'f \<Rightarrow> (nat \<times> 'f) result"
  vn_read_file :: "VNodeData \<Rightarrow> u64 \<Rightarrow> nat \<Rightarrow> 'f \<Rightarrow> (u8 list \<times> 'f) result"

record 'f OpenVnodeSpecialData =
  ov_file :: "'f VNode"
  ov_offset :: u64

record PipeSpecialData =
  pd_other_pipe_data :: ref
  pd_buffer :: ref
  pd_buffer_length :: nat
  pd_reader_next_byte :: nat

datatype 'f obj = PipeObj PipeSpecialData | FileObj "'f OpenVnodeSpecialData" | Block "u8 list"

record 'f world =
  w_objs :: "ref \<rightharpoonup> 'f obj"
  w_tty :: tty
  w_fs :: 'f

type_synonym 'f address = "(ref \<rightharpoonup> 'f obj) \<Rightarrow> ref"

definition allocates :: "'f address \<Rightarrow> bool" where
  "allocates addr \<longleftrightarrow> (\<forall>m. finite (dom m) \<longrightarrow> addr m \<noteq> 0 \<and> addr m \<notin> dom m)"

section \<open>Heap objects\<close>

text \<open>\<open>malloc\<close> of a structure, and of a block of \<open>n\<close> bytes (null for zero bytes).\<close>

definition new_obj :: "'f address \<Rightarrow> 'f obj \<Rightarrow> 'f world \<Rightarrow> ref \<times> 'f world" where
  "new_obj addr x w = (let p = addr (w_objs w) in (p, w\<lparr>w_objs := (w_objs w)(p \<mapsto> x)\<rparr>))"

definition new_block :: "'f address \<Rightarrow> nat \<Rightarrow> 'f world \<Rightarrow> ref \<times> 'f world" where
  "new_block addr n w = (if n = 0 then (0, w) else new_obj addr (Block (replicate n 0)) w)"

definition free_obj :: "ref \<Rightarrow> 'f world \<Rightarrow> 'f world result" where
  "free_obj p w =
     (if p = 0 then Inr w
      else if w_objs w p = None then Inl WildAccess
      else Inr (w\<lparr>w_objs := (w_objs w)(p := None)\<rparr>))"

definition block_read :: "ref \<Rightarrow> nat \<Rightarrow> 'f world \<Rightarrow> u8 list result" where
  "block_read p n w =
     (if n = 0 then Inr [] else if p = 0 then Inl WildAccess else
      case w_objs w p of
        Some (Block b) \<Rightarrow> if n \<le> length b then Inr (take n b) else Inl WildAccess
      | _ \<Rightarrow> Inl WildAccess)"

definition block_write :: "ref \<Rightarrow> nat \<Rightarrow> u8 list \<Rightarrow> 'f world \<Rightarrow> 'f world result" where
  "block_write p off xs w =
     (if xs = [] then Inr w else if p = 0 then Inl WildAccess else
      case w_objs w p of
        Some (Block b) \<Rightarrow>
          if off + length xs \<le> length b
          then Inr (w\<lparr>w_objs := (w_objs w)(p \<mapsto> Block (take off b @ xs @ drop (off + length xs) b))\<rparr>)
          else Inl WildAccess
      | _ \<Rightarrow> Inl WildAccess)"

definition get_pipe :: "ref \<Rightarrow> 'f world \<Rightarrow> PipeSpecialData result" where
  "get_pipe p w = (case w_objs w p of Some (PipeObj d) \<Rightarrow> Inr d | _ \<Rightarrow> Inl WildAccess)"

definition put_pipe :: "ref \<Rightarrow> PipeSpecialData \<Rightarrow> 'f world \<Rightarrow> 'f world" where
  "put_pipe p d w = w\<lparr>w_objs := (w_objs w)(p \<mapsto> PipeObj d)\<rparr>"

definition get_file :: "ref \<Rightarrow> 'f world \<Rightarrow> 'f OpenVnodeSpecialData result" where
  "get_file p w = (case w_objs w p of Some (FileObj d) \<Rightarrow> Inr d | _ \<Rightarrow> Inl WildAccess)"

definition put_file :: "ref \<Rightarrow> 'f OpenVnodeSpecialData \<Rightarrow> 'f world \<Rightarrow> 'f world" where
  "put_file p d w = w\<lparr>w_objs := (w_objs w)(p \<mapsto> FileObj d)\<rparr>"

section \<open>Operations\<close>

definition just_free_close :: "ref \<Rightarrow> 'f world \<Rightarrow> 'f world result" where
  "just_free_close special_data w = free_obj special_data w"

definition pipe_write :: "'f address \<Rightarrow> ref \<Rightarrow> u8 list \<Rightarrow> 'f world \<Rightarrow> (nat \<times> 'f world) result" where
  "pipe_write addr special_data output_buf w =
     (if special_data = 0 then Inl HCF else
      rbind (get_pipe special_data w) (\<lambda>me.
      let other = pd_other_pipe_data me in
      if other = 0 then Inl HCF else
      rbind (get_pipe other w) (\<lambda>data.
      let new_buffer_length = length output_buf + pd_buffer_length data - pd_reader_next_byte data;
          (new_buffer, w1) = new_block addr new_buffer_length w
      in
      rbind (if pd_buffer_length data \<noteq> 0
             then rbind (block_read (pd_buffer data) (pd_buffer_length data) w1) (\<lambda>old. block_write new_buffer 0 old w1)
             else Inr w1) (\<lambda>w2.
      rbind (block_write new_buffer (pd_buffer_length data) output_buf w2) (\<lambda>w3.
      rbind (free_obj (pd_buffer data) w3) (\<lambda>w4.
      Inr (length output_buf, put_pipe other
        (data\<lparr>pd_buffer := new_buffer, pd_buffer_length := new_buffer_length, pd_reader_next_byte := 0\<rparr>) w4)))))))"

text \<open>A read returns the result structure and the bytes that were copied to the caller's buffer.\<close>

definition pipe_read :: "ref \<Rightarrow> nat \<Rightarrow> 'f world \<Rightarrow> (FopReadResult \<times> u8 list \<times> 'f world) result" where
  "pipe_read special_data num w =
     (if special_data = 0 then Inl HCF else
      rbind (get_pipe special_data w) (\<lambda>data.
      if pd_other_pipe_data data = 0 \<or> num = 0
      then Inr (\<lparr>fr_read_something = True, fr_bytes_read = 0\<rparr>, [], w)
      else
        let available = pd_buffer_length data - pd_reader_next_byte data;
            max_bytes_to_read = (if num < available then num else available)
        in if max_bytes_to_read = 0 then Inr (\<lparr>fr_read_something = False, fr_bytes_read = 0\<rparr>, [], w)
           else rbind (block_read (pd_buffer data) max_bytes_to_read w) (\<lambda>out.
             Inr (\<lparr>fr_read_something = True, fr_bytes_read = max_bytes_to_read\<rparr>, out,
               put_pipe special_data (data\<lparr>pd_reader_next_byte := pd_reader_next_byte data + max_bytes_to_read\<rparr>) w))))"

definition pipe_close :: "ref \<Rightarrow> 'f world \<Rightarrow> 'f world result" where
  "pipe_close special_data w =
     (if special_data = 0 then Inl HCF else
      rbind (get_pipe special_data w) (\<lambda>data.
      let other = pd_other_pipe_data data in
      rbind (if other \<noteq> 0
             then rbind (get_pipe other w) (\<lambda>d. Inr (put_pipe other (d\<lparr>pd_other_pipe_data := 0\<rparr>) w))
             else Inr w) (\<lambda>w1.
      rbind (free_obj (pd_buffer data) w1) (free_obj special_data))))"

definition stdout_write :: "ref \<Rightarrow> u8 list \<Rightarrow> 'f world \<Rightarrow> (nat \<times> 'f world) result" where
  "stdout_write special_data output w =
     (if special_data \<noteq> 0 then Inl HCF
      else rbind (rfold tty_write_char output (w_tty w)) (\<lambda>t. Inr (length output, w\<lparr>w_tty := t\<rparr>)))"

definition stdin_read :: "ref \<Rightarrow> nat \<Rightarrow> 'f world \<Rightarrow> (FopReadResult \<times> u8 list \<times> 'f world) result" where
  "stdin_read special_data num w =
     (if special_data \<noteq> 0 then Inl HCF
      else rbind (tty_read num (w_tty w)) (\<lambda>(out, t).
        let bytes_read = length out in
        if bytes_read = 0 then Inr (\<lparr>fr_read_something = False, fr_bytes_read = 0\<rparr>, out, w\<lparr>w_tty := t\<rparr>)
        else Inr (\<lparr>fr_read_something = True, fr_bytes_read = bytes_read\<rparr>, out, w\<lparr>w_tty := t\<rparr>)))"

definition file_write :: "ref \<Rightarrow> u8 list \<Rightarrow> 'f world \<Rightarrow> (nat \<times> 'f world) result" where
  "file_write special_data input_buf w =
     rbind (get_file special_data w) (\<lambda>data.
     rbind (vn_write_file (ov_file data) (vn_id (ov_file data)) (ov_offset data) input_buf (w_fs w)) (\<lambda>(n, f).
       Inr (n, w\<lparr>w_fs := f\<rparr>)))"

definition file_read :: "ref \<Rightarrow> nat \<Rightarrow> 'f world \<Rightarrow> (FopReadResult \<times> u8 list \<times> 'f world) result" where
  "file_read special_data num w =
     rbind (get_file special_data w) (\<lambda>data.
     rbind (vn_read_file (ov_file data) (vn_id (ov_file data)) (ov_offset data) num (w_fs w)) (\<lambda>(out, f).
       Inr (\<lparr>fr_read_something = True, fr_bytes_read = length out\<rparr>, out,
         put_file special_data (data\<lparr>ov_offset := ov_offset data + of_nat (length out)\<rparr>) (w\<lparr>w_fs := f\<rparr>))))"

definition file_lseek :: "ref \<Rightarrow> u64 \<Rightarrow> int \<Rightarrow> 'f world \<Rightarrow> (u64 \<times> 'f world) result" where
  "file_lseek special_data off whence w =
     rbind (get_file special_data w) (\<lambda>data.
       if whence = 0 then Inr (off, put_file special_data (data\<lparr>ov_offset := off\<rparr>) w) else Inl HCF)"

section \<open>Open devices\<close>

record 'f FileOperations =
  fo_special_data :: ref
  fo_read_nonblocking :: "ref \<Rightarrow> nat \<Rightarrow> 'f world \<Rightarrow> (FopReadResult \<times> u8 list \<times> 'f world) result"
  fo_write :: "ref \<Rightarrow> u8 list \<Rightarrow> 'f world \<Rightarrow> (nat \<times> 'f world) result"
  fo_offset :: "(ref \<Rightarrow> u64 \<Rightarrow> int \<Rightarrow> 'f world \<Rightarrow> (u64 \<times> 'f world) result) option"
  fo_close :: "ref \<Rightarrow> 'f world \<Rightarrow> 'f world result"
  fo_is_a_tty :: bool

abbreviation O_APPEND :: u32 where "O_APPEND \<equiv> 4"

text \<open>\<open>vnode\<close> is what \<open>vfs_get\<close> returned for the path.\<close>

definition fop_generate_file :: "'f address \<Rightarrow> 'f VNode \<Rightarrow> u32 \<Rightarrow> 'f world \<Rightarrow> ('f FileOperations \<times> 'f world) result" where
  "fop_generate_file addr vnode open_flags w =
     (let (file, w1) = new_obj addr (FileObj \<lparr>ov_file = vnode, ov_offset = 0\<rparr>) w in
      if open_flags AND O_APPEND \<noteq> 0 then Inl HCF
      else Inr (\<lparr>fo_special_data = file, fo_read_nonblocking = file_read, fo_write = file_write,
                 fo_offset = Some file_lseek, fo_close = just_free_close, fo_is_a_tty = False\<rparr>, w1))"

definition pipe_fops :: "'f address \<Rightarrow> ref \<Rightarrow> 'f FileOperations" where
  "pipe_fops addr special_data =
     \<lparr>fo_special_data = special_data, fo_read_nonblocking = pipe_read, fo_write = pipe_write addr,
      fo_offset = None, fo_close = pipe_close, fo_is_a_tty = False\<rparr>"

definition empty_pipe :: "ref \<Rightarrow> PipeSpecialData" where
  "empty_pipe other =
     \<lparr>pd_other_pipe_data = other, pd_buffer = 0, pd_buffer_length = 0, pd_reader_next_byte = 0\<rparr>"

text \<open>Both structures are allocated (with contents that are not read) before either is filled in.\<close>

definition fop_generate_pipe :: "'f address \<Rightarrow> 'f world \<Rightarrow> 'f FileOperations \<times> 'f FileOperations \<times> 'f world" where
  "fop_generate_pipe addr w =
     (let (a, w1) = new_obj addr (PipeObj (empty_pipe 0)) w;
          (b, w2) = new_obj addr (PipeObj (empty_pipe 0)) w1
      in (pipe_fops addr a, pipe_fops addr b, put_pipe b (empty_pipe a) (put_pipe a (empty_pipe b) w2)))"

section \<open>Connected ends\<close>

text \<open>
  \<open>pipe_end m p other q\<close>: \<open>p\<close> is one end, connected to \<open>other\<close>, with the bytes \<open>q\<close> waiting and nothing
  read from them so far.
\<close>

definition pipe_end :: "(ref \<rightharpoonup> 'f obj) \<Rightarrow> ref \<Rightarrow> ref \<Rightarrow> ref \<Rightarrow> u8 list \<Rightarrow> bool" where
  "pipe_end m p other buf q \<longleftrightarrow> p \<noteq> 0 \<and>
     m p = Some (PipeObj \<lparr>pd_other_pipe_data = other, pd_buffer = buf, pd_buffer_length = length q, pd_reader_next_byte = 0\<rparr>) \<and>
     (if q = [] then buf = 0 else buf \<noteq> 0 \<and> m buf = Some (Block q))"

definition connected :: "'f world \<Rightarrow> ref \<Rightarrow> ref \<Rightarrow> u8 list \<Rightarrow> u8 list \<Rightarrow> bool" where
  "connected w a b qa qb \<longleftrightarrow> finite (dom (w_objs w)) \<and> a \<noteq> b \<and>
     (\<exists>ba bb. pipe_end (w_objs w) a b ba qa \<and> pipe_end (w_objs w) b a bb qb \<and> (ba \<noteq> 0 \<longrightarrow> ba \<noteq> bb))"

lemma connected_sym: "connected w a b qa qb \<longleftrightarrow> connected w b a qb qa"
  unfolding connected_def by (metis (no_types))

lemma allocatesD: "allocates addr \<Longrightarrow> finite (dom m) \<Longrightarrow> addr m \<noteq> 0 \<and> m (addr m) = None"
  by (auto simp: allocates_def dom_def)

lemma generate_pipe_connected:
  assumes "allocates addr" and "finite (dom (w_objs w))" and "fop_generate_pipe addr w = (A, B, w')"
  shows "\<exists>a b. A = pipe_fops addr a \<and> B = pipe_fops addr b \<and> connected w' a b [] []"
proof -
  let ?a = "addr (w_objs w)" let ?m1 = "(w_objs w)(?a \<mapsto> PipeObj (empty_pipe 0))"
  have a: "?a \<noteq> 0" "w_objs w ?a = None" using allocatesD [OF assms(1,2)] by auto
  have "finite (dom ?m1)" using assms(2) by simp
  from allocatesD [OF assms(1) this] have b: "addr ?m1 \<noteq> 0" "addr ?m1 \<noteq> ?a" by (auto split: if_splits)
  show ?thesis using assms(2,3) a b
    by (auto simp: fop_generate_pipe_def new_obj_def put_pipe_def connected_def pipe_end_def empty_pipe_def
        Let_def fun_upd_twist)
qed

lemma pipe_write_connected:
  assumes al: "allocates addr" and c: "connected w a b qa qb"
  shows "\<exists>w'. pipe_write addr a xs w = Inr (length xs, w') \<and> connected w' a b qa (qb @ xs)"
proof -
  let ?m = "w_objs w"
  obtain ba bb where A: "pipe_end ?m a b ba qa" and B: "pipe_end ?m b a bb qb" and d: "ba \<noteq> 0 \<longrightarrow> ba \<noteq> bb"
    and fin: "finite (dom ?m)" and ab: "a \<noteq> b" using c by (auto simp: connected_def)
  let ?n = "addr ?m"
  have n: "?n \<noteq> 0" "?m ?n = None" using allocatesD [OF al fin] by auto
  have ne: "?n \<noteq> a" "?n \<noteq> b" "qb \<noteq> [] \<Longrightarrow> ?n \<noteq> bb" "qa \<noteq> [] \<Longrightarrow> ?n \<noteq> ba" using n A B by (auto simp: pipe_end_def)
  have ds: "qb \<noteq> [] \<Longrightarrow> bb \<noteq> a" "qb \<noteq> [] \<Longrightarrow> bb \<noteq> b" "qa \<noteq> [] \<Longrightarrow> ba \<noteq> a" "qa \<noteq> [] \<Longrightarrow> ba \<noteq> b"
    using A B by (auto simp: pipe_end_def)
  note ops = pipe_write_def get_pipe_def put_pipe_def new_block_def new_obj_def block_write_def block_read_def free_obj_def Let_def
  have wa: "?m a = Some (PipeObj \<lparr>pd_other_pipe_data = b, pd_buffer = ba, pd_buffer_length = length qa, pd_reader_next_byte = 0\<rparr>)"
    "?m b = Some (PipeObj \<lparr>pd_other_pipe_data = a, pd_buffer = bb, pd_buffer_length = length qb, pd_reader_next_byte = 0\<rparr>)"
    "a \<noteq> 0" "b \<noteq> 0" using A B by (auto simp: pipe_end_def)
  consider "qb = []" "xs = []" | "qb = []" "xs \<noteq> []" | "qb \<noteq> []" by blast
  then show ?thesis
  proof cases
    case 1
    then show ?thesis using A B d fin ab wa
      by (auto simp: ops connected_def pipe_end_def fun_upd_idem)
  next
    case 2
    then have bb: "bb = 0" using B by (simp add: pipe_end_def)
    then show ?thesis using A B d fin ab n ne ds wa 2
      by (auto simp: ops connected_def pipe_end_def split: if_splits)
  next
    case 3
    then have "bb \<noteq> 0" "?m bb = Some (Block qb)" using B by (auto simp: pipe_end_def)
    then show ?thesis using A B d fin ab n ne ds wa 3
      by (auto simp: ops connected_def pipe_end_def split: if_splits)
  qed
qed

lemma pipe_writes_connected:
  assumes "allocates addr" and "connected w a b qa qb"
  shows "\<exists>w'. rfold (\<lambda>xs w. rbind (pipe_write addr a xs w) (\<lambda>(k, w'). if k = length xs then Inr w' else Inl HCF)) msgs w = Inr w' \<and>
    connected w' a b qa (qb @ concat msgs)"
  using assms(2)
proof (induction msgs arbitrary: w qb)
  case (Cons x xs)
  obtain w1 where w1: "pipe_write addr a x w = Inr (length x, w1)" "connected w1 a b qa (qb @ x)"
    using pipe_write_connected [OF assms(1) Cons.prems] by blast
  then show ?case using Cons.IH [OF w1(2)] by simp
qed simp

text \<open>\<open>half_read w b q n\<close>: end \<open>b\<close> has been given the bytes \<open>q\<close>, of which \<open>n\<close> have been read.\<close>

definition half_read :: "'f world \<Rightarrow> ref \<Rightarrow> ref \<Rightarrow> u8 list \<Rightarrow> nat \<Rightarrow> bool" where
  "half_read w a b q n \<longleftrightarrow> a \<noteq> 0 \<and> b \<noteq> 0 \<and> a \<noteq> b \<and> finite (dom (w_objs w)) \<and> n \<le> length q \<and>
     (\<exists>da buf. w_objs w a = Some (PipeObj da) \<and> pd_other_pipe_data da = b \<and>
        w_objs w b = Some (PipeObj \<lparr>pd_other_pipe_data = a, pd_buffer = buf, pd_buffer_length = length q, pd_reader_next_byte = n\<rparr>) \<and>
        (q = [] \<or> buf \<noteq> 0 \<and> w_objs w buf = Some (Block q)))"

lemma connected_half_read: "connected w a b qa qb \<Longrightarrow> half_read w a b qb 0"
  by (auto simp: connected_def pipe_end_def half_read_def split: if_splits)

lemma pipe_read_half:
  assumes "half_read w a b q n" and "0 < m" and "n < length q"
  defines "k \<equiv> min m (length q - n)"
  shows "\<exists>w'. pipe_read b m w = Inr (\<lparr>fr_read_something = True, fr_bytes_read = k\<rparr>, take k q, w') \<and> half_read w' a b q (n + k)"
proof -
  have q: "q \<noteq> []" using assms(3) by auto
  have k: "0 < k" "k \<le> length q" "n + k \<le> length q" "k = (if m < length q - n then m else length q - n)"
    using assms(2,3) by (auto simp: k_def)
  show ?thesis using assms(1) q k(1-3) assms(2)
    by (auto simp: pipe_read_def half_read_def get_pipe_def put_pipe_def block_read_def k(4) [symmetric] Let_def)
qed

lemma pipe_write_half_overflows:
  assumes "allocates addr" and "half_read w a b q n" and "0 < n"
  shows "pipe_write addr a xs w = Inl WildAccess"
proof -
  let ?m = "w_objs w"
  obtain da buf where h: "?m a = Some (PipeObj da)" "pd_other_pipe_data da = b"
    "?m b = Some (PipeObj \<lparr>pd_other_pipe_data = a, pd_buffer = buf, pd_buffer_length = length q, pd_reader_next_byte = n\<rparr>)"
    "?m buf = Some (Block q)" "buf \<noteq> 0" "a \<noteq> 0" "b \<noteq> 0" "finite (dom ?m)" "n \<le> length q" "q \<noteq> []"
    using assms(2,3) unfolding half_read_def by (metis le_zero_eq length_0_conv neq0_conv)
  have new: "addr ?m \<noteq> 0" "?m (addr ?m) = None" using allocatesD [OF assms(1) h(8)] by auto
  then have "addr ?m \<noteq> buf" using h by auto
  then show ?thesis using h new assms(3)
    by (auto simp: pipe_write_def get_pipe_def new_block_def new_obj_def block_read_def block_write_def Let_def)
qed

section \<open>Properties\<close>

text \<open>A machine with an empty store, and an allocator that hands out the first address above all used ones.\<close>

definition start_world :: "u8 list world" where
  "start_world = \<lparr>w_objs = (\<lambda>_. None), w_tty = small_tty, w_fs = []\<rparr>"

definition next_addr :: "'f address" where
  "next_addr m = Suc (Max (insert 0 (dom m)))"

lemma next_addr_allocates: "allocates next_addr"
  unfolding allocates_def
proof (intro allI impI conjI)
  fix m :: "ref \<rightharpoonup> 'f obj" assume f: "finite (dom m)"
  show "next_addr m \<noteq> 0" by (simp add: next_addr_def)
  show "next_addr m \<notin> dom m"
  proof
    assume "next_addr m \<in> dom m"
    then have "next_addr m \<le> Max (insert 0 (dom m))" using f by (intro Max_ge) auto
    then show False by (simp add: next_addr_def)
  qed
qed

definition pipe_world :: "u8 list \<Rightarrow> u8 list world" where
  "pipe_world q = start_world\<lparr>w_objs := [1 \<mapsto> PipeObj (empty_pipe 2),
     2 \<mapsto> PipeObj \<lparr>pd_other_pipe_data = 1, pd_buffer = 3, pd_buffer_length = length q, pd_reader_next_byte = 0\<rparr>,
     3 \<mapsto> Block q]\<rparr>"

lemma pipe_world_connected: "q \<noteq> [] \<Longrightarrow> connected (pipe_world q) 1 2 [] q"
  by (auto simp: connected_def pipe_world_def pipe_end_def empty_pipe_def)

text \<open>A sequence of reads at one end, with what each returns.\<close>

fun do_reads :: "'f FileOperations \<Rightarrow> nat list \<Rightarrow> 'f world \<Rightarrow> ((FopReadResult \<times> u8 list) list \<times> 'f world) result" where
  "do_reads F [] w = Inr ([], w)"
| "do_reads F (n # ns) w = rbind (fo_read_nonblocking F (fo_special_data F) n w) (\<lambda>(r, out, w1).
     rbind (do_reads F ns w1) (\<lambda>(rs, w2). Inr ((r, out) # rs, w2)))"

text \<open>What the reads return when the bytes \<open>q\<close> wait and \<open>p\<close> of them have been counted as read.\<close>

fun pipe_reads :: "u8 list \<Rightarrow> nat \<Rightarrow> nat list \<Rightarrow> (FopReadResult \<times> u8 list) list" where
  "pipe_reads q p [] = []"
| "pipe_reads q p (n # ns) = (let k = min n (length q - p) in
     (\<lparr>fr_read_something = (n = 0 \<or> p < length q), fr_bytes_read = k\<rparr>, take k q) # pipe_reads q (p + k) ns)"

lemma pipe_read_step:
  fixes n :: nat
  assumes "half_read w a b q p"
  defines "k \<equiv> min n (length q - p)"
  shows "\<exists>w'. pipe_read b n w = Inr (\<lparr>fr_read_something = (n = 0 \<or> p < length q), fr_bytes_read = k\<rparr>, take k q, w') \<and> half_read w' a b q (p + k)"
proof (cases "0 < n \<and> p < length q")
  case True
  then show ?thesis using pipe_read_half [OF assms(1), of n] by (auto simp: k_def)
next
  case False
  then have "k = 0" by (auto simp: k_def)
  then show ?thesis using False assms(1)
    by (intro exI [of _ w]) (auto simp: pipe_read_def half_read_def get_pipe_def Let_def)
qed

lemma do_reads_pipe:
  "half_read w a b q p \<Longrightarrow> \<exists>w'. do_reads (pipe_fops addr b) ns w = Inr (pipe_reads q p ns, w')"
proof (induction ns arbitrary: w p)
  case (Cons n ns)
  from pipe_read_step [OF Cons.prems, of n] obtain w1 where
    "pipe_read b n w = Inr (\<lparr>fr_read_something = (n = 0 \<or> p < length q), fr_bytes_read = min n (length q - p)\<rparr>, take (min n (length q - p)) q, w1)"
    "half_read w1 a b q (p + min n (length q - p))" by blast
  then show ?case using Cons.IH by (fastforce simp: pipe_fops_def Let_def)
qed simp

text \<open>C20. What passes through a pipe. After any sequence of writes to one end of a new pipe, each of which
  succeeds in full, the reads at the other end count the bytes exactly: each reports as many as it asked for or as are still
  uncounted, together they report as many as were written, and then there is nothing to read. The bytes that a read copies are the right ones for the
  first read only: every read copies from the start of the buffer, whatever has been counted before, although the comment on
  \<open>reader_next_byte\<close> calls it the index of the next byte. The writing end has nothing to read.\<close>

theorem pipe_transfers:
  assumes "allocates addr" and "finite (dom (w_objs w))" and "fop_generate_pipe addr w = (A, B, w1)"
  shows "\<exists>w2 w3. rfold (\<lambda>xs w. rbind (fo_write A (fo_special_data A) xs w) (\<lambda>(k, w'). if k = length xs then Inr w' else Inl HCF)) msgs w1 = Inr w2 \<and>
    do_reads B ns w2 = Inr (pipe_reads (concat msgs) 0 ns, w3) \<and>
    (\<forall>n > 0. fo_read_nonblocking A (fo_special_data A) n w2 = Inr (\<lparr>fr_read_something = False, fr_bytes_read = 0\<rparr>, [], w2))"
proof -
  obtain a b where ab: "A = pipe_fops addr a" "B = pipe_fops addr b" and c: "connected w1 a b [] []"
    using generate_pipe_connected [OF assms(1-3)] by blast
  obtain w2 where w2: "rfold (\<lambda>xs w. rbind (pipe_write addr a xs w) (\<lambda>(k, w'). if k = length xs then Inr w' else Inl HCF)) msgs w1 = Inr w2"
    "connected w2 a b [] (concat msgs)" using pipe_writes_connected [OF assms(1) c, of msgs] by auto
  have "pipe_read a n w2 = Inr (\<lparr>fr_read_something = False, fr_bytes_read = 0\<rparr>, [], w2)" if "0 < n" for n
    using w2(2) that by (auto simp: connected_def pipe_end_def pipe_read_def get_pipe_def)
  moreover obtain w3 where "do_reads B ns w2 = Inr (pipe_reads (concat msgs) 0 ns, w3)"
    using do_reads_pipe [OF connected_half_read [OF w2(2)]] ab(2) by blast
  ultimately show ?thesis using w2(1) by (auto simp: ab pipe_fops_def)
qed

theorem pipe_transfers_witness:
  "\<exists>A B w1 w2 w3. fop_generate_pipe next_addr start_world = (A, B, w1) \<and>
     rfold (\<lambda>xs w. rbind (fo_write A (fo_special_data A) xs w) (\<lambda>(k, w'). if k = length xs then Inr w' else Inl HCF)) [[104], [105, 10]] w1 = Inr w2 \<and>
     do_reads B [2, 5, 1] w2 = Inr ([(\<lparr>fr_read_something = True, fr_bytes_read = 2\<rparr>, [104, 105]),
       (\<lparr>fr_read_something = True, fr_bytes_read = 1\<rparr>, [104]), (\<lparr>fr_read_something = False, fr_bytes_read = 0\<rparr>, [])], w3)"
proof -
  obtain A B w1 where g: "fop_generate_pipe next_addr start_world = (A, B, w1)" by (metis prod_cases3)
  have "finite (dom (w_objs start_world))" by (simp add: start_world_def)
  from pipe_transfers [OF next_addr_allocates this g, of "[[104], [105, 10]]" "[2, 5, 1]"] g show ?thesis by (auto simp: Let_def)
qed

text \<open>A second read repeats the first bytes. When a read has taken only some of the waiting bytes, the next read
  returns bytes from the start of the buffer again instead of the ones that follow.\<close>

theorem pipe_second_read_repeats:
  assumes "connected w a b qa q" and "0 < n" and "n < length q" and "0 < m" and "m \<le> length q - n"
  shows "\<exists>w1 w2. pipe_read b n w = Inr (\<lparr>fr_read_something = True, fr_bytes_read = n\<rparr>, take n q, w1) \<and>
    pipe_read b m w1 = Inr (\<lparr>fr_read_something = True, fr_bytes_read = m\<rparr>, take m q, w2)"
proof -
  have "min n (length q - 0) = n" using assms(3) by simp
  then obtain w1 where w1: "pipe_read b n w = Inr (\<lparr>fr_read_something = True, fr_bytes_read = n\<rparr>, take n q, w1)"
    "half_read w1 a b q n"
    using pipe_read_half [OF connected_half_read [OF assms(1)] assms(2)] assms(3) by fastforce
  moreover have "min m (length q - n) = m" using assms(5) by simp
  ultimately show ?thesis using pipe_read_half [OF w1(2) assms(4,3)] by fastforce
qed

theorem pipe_second_read_repeats_witness:
  "\<exists>w1 w2. pipe_read 2 1 (pipe_world [104, 105, 10]) = Inr (\<lparr>fr_read_something = True, fr_bytes_read = 1\<rparr>, [104], w1) \<and>
     pipe_read 2 2 w1 = Inr (\<lparr>fr_read_something = True, fr_bytes_read = 2\<rparr>, [104, 105], w2)"
  using pipe_second_read_repeats [OF pipe_world_connected [of "[104, 105, 10]"], of 1 2] by simp

text \<open>Writing after a read leaves the new buffer. The size of the new buffer leaves out the bytes that were read,
  but all of the old bytes are copied: once anything has been read from one end, every write to the other
  end writes past the block it allocated.\<close>

theorem pipe_write_after_read_overflows:
  assumes "allocates addr" and "connected w a b qa q" and "0 < n" and "q \<noteq> []" and "pipe_read b n w = Inr (r, out, w1)"
  shows "pipe_write addr a xs w1 = Inl WildAccess"
proof -
  obtain w' where w': "pipe_read b n w = Inr (\<lparr>fr_read_something = True, fr_bytes_read = min n (length q)\<rparr>, take (min n (length q)) q, w')"
    "half_read w' a b q (0 + min n (length q))"
    using pipe_read_half [OF connected_half_read [OF assms(2)] assms(3)] assms(4) by auto
  then have "w' = w1" "0 < min n (length q)" using assms(3-5) by auto
  with w'(2) show ?thesis using pipe_write_half_overflows [OF assms(1)] by simp
qed

theorem pipe_write_after_read_overflows_witness:
  "\<exists>r out w1. pipe_read 2 1 (pipe_world [104, 105, 10]) = Inr (r, out, w1) \<and> pipe_write next_addr 1 [33] w1 = Inl WildAccess"
proof -
  have c: "connected (pipe_world [104, 105, 10]) 1 2 [] [104, 105, 10]" by (rule pipe_world_connected) simp
  obtain r out w1 where p: "pipe_read 2 1 (pipe_world [104, 105, 10]) = Inr (r, out, w1)"
    using pipe_read_half [OF connected_half_read [OF c], of 1] by auto
  from pipe_write_after_read_overflows [OF next_addr_allocates c _ _ p] p show ?thesis by auto
qed

text \<open>Closing one end. Closing succeeds and the other end then reads end-of-file and halts on a write; bytes that
  were still waiting to be read at the other end are not delivered.\<close>

theorem pipe_close_other_end:
  assumes "connected w a b qa qb"
  shows "\<exists>w1. pipe_close a w = Inr w1 \<and> w_objs w1 a = None \<and>
    pipe_read b n w1 = Inr (\<lparr>fr_read_something = True, fr_bytes_read = 0\<rparr>, [], w1) \<and>
    pipe_write addr b xs w1 = Inl HCF"
proof -
  obtain ba bb where A: "pipe_end (w_objs w) a b ba qa" and B: "pipe_end (w_objs w) b a bb qb" and d: "ba \<noteq> 0 \<longrightarrow> ba \<noteq> bb"
    and ab: "a \<noteq> b" using assms by (auto simp: connected_def)
  then have "ba \<noteq> a" "ba \<noteq> b" by (auto simp: pipe_end_def split: if_splits)
  with A B ab show ?thesis
    by (auto simp: pipe_close_def get_pipe_def put_pipe_def free_obj_def pipe_read_def pipe_write_def pipe_end_def Let_def split: if_splits)
qed

theorem pipe_close_other_end_witness:
  "\<exists>w1. pipe_close 1 (pipe_world [104]) = Inr w1 \<and>
     pipe_read 2 5 w1 = Inr (\<lparr>fr_read_something = True, fr_bytes_read = 0\<rparr>, [], w1)"
  using pipe_close_other_end [OF pipe_world_connected [of "[104]"], of 5] by auto

text \<open>What a regular file's vnode does on a file system that is the contents of that one file.\<close>

definition overwrite :: "nat \<Rightarrow> u8 list \<Rightarrow> u8 list \<Rightarrow> u8 list" where
  "overwrite off xs f = take off (f @ replicate (off - length f) 0) @ xs @ drop (off + length xs) f"

definition regular_file :: "u8 list VNode \<Rightarrow> bool" where
  "regular_file v \<longleftrightarrow>
     (\<forall>id off n f. vn_read_file v id off n f = Inr (take n (drop (unat off) f), f)) \<and>
     (\<forall>id off xs f. vn_write_file v id off xs f = Inr (length xs, overwrite (unat off) xs f))"

definition plain_vnode :: "u8 list VNode" where
  "plain_vnode = \<lparr>vn_id = \<lparr>vd_inode = 1, vd_mount_id = 1\<rparr>,
     vn_write_file = (\<lambda>id off xs f. Inr (length xs, overwrite (unat off) xs f)),
     vn_read_file = (\<lambda>id off n f. Inr (take n (drop (unat off) f), f))\<rparr>"

lemma plain_vnode_regular: "regular_file plain_vnode"
  by (simp add: regular_file_def plain_vnode_def)

text \<open>Reading an open file. On a vnode that behaves as a regular file, successive reads through a new file
  descriptor return the successive pieces of the file, whatever the sizes asked for.\<close>

theorem file_reads_are_sequential:
  assumes "regular_file v" and "length (w_fs w) < 2 ^ 64" and "fop_generate_file addr v flags w = Inr (F, w1)"
  shows "\<exists>w2. rfold (\<lambda>n (out, w). rbind (fo_read_nonblocking F (fo_special_data F) n w) (\<lambda>(r, xs, w'). Inr (out @ xs, w'))) sizes ([], w1)
    = Inr (take (sum_list sizes) (w_fs w), w2)"
proof -
  let ?body = "\<lambda>n (out, w). rbind (file_read (fo_special_data F) n w) (\<lambda>(r, xs, w'). Inr (out @ xs, w'))"
  have F: "fo_read_nonblocking F = file_read" and w1: "get_file (fo_special_data F) w1 = Inr \<lparr>ov_file = v, ov_offset = 0\<rparr>" "w_fs w1 = w_fs w"
    using assms(3) by (auto simp: fop_generate_file_def new_obj_def get_file_def Let_def split: if_splits)
  have "get_file (fo_special_data F) u = Inr \<lparr>ov_file = v, ov_offset = of_nat k\<rparr> \<Longrightarrow> w_fs u = w_fs w \<Longrightarrow> k \<le> length (w_fs w) \<Longrightarrow>
     \<exists>w2. rfold ?body sizes (take k (w_fs w), u) = Inr (take (k + sum_list sizes) (w_fs w), w2)" for u k
  proof (induction sizes arbitrary: u k)
    case (Cons n ns)
    let ?xs = "take n (drop k (w_fs w))" let ?j = "k + length ?xs"
    have k: "unat (of_nat k :: u64) = k" using Cons.prems(3) assms(2) by (simp add: unat_of_nat take_bit_nat_eq_self)
    have j: "take k (w_fs w) @ ?xs = take ?j (w_fs w)" "?j \<le> length (w_fs w)"
      using Cons.prems(3) by (auto simp: min_def take_add)
    let ?u = "put_file (fo_special_data F) \<lparr>ov_file = v, ov_offset = of_nat k + of_nat (length ?xs)\<rparr> (u\<lparr>w_fs := w_fs w\<rparr>)"
    have step: "?body n (take k (w_fs w), u) = Inr (take ?j (w_fs w), ?u)"
      using Cons.prems assms(1) k j(1) by (simp add: file_read_def regular_file_def)
    obtain w2 where "rfold ?body ns (take ?j (w_fs w), ?u) = Inr (take (?j + sum_list ns) (w_fs w), w2)"
      using Cons.IH [of ?u ?j] j(2) by (auto simp: put_file_def get_file_def)
    moreover have "take (?j + sum_list ns) (w_fs w) = take (k + sum_list (n # ns)) (w_fs w)"
      by (cases "n \<le> length (w_fs w) - k") (use Cons.prems(3) in \<open>auto simp: min_def add.assoc\<close>)
    ultimately show ?case using step by auto
  qed simp
  from this [of w1 0] w1 F show ?thesis by simp
qed

theorem file_reads_are_sequential_witness:
  "\<exists>F w1 w2. fop_generate_file next_addr plain_vnode 0 (start_world\<lparr>w_fs := [1, 2, 3, 4, 5]\<rparr>) = Inr (F, w1) \<and>
     rfold (\<lambda>n (out, w). rbind (fo_read_nonblocking F (fo_special_data F) n w) (\<lambda>(r, xs, w'). Inr (out @ xs, w'))) [2, 1] ([], w1)
       = Inr ([1, 2, 3], w2)"
proof -
  let ?w = "start_world\<lparr>w_fs := [1, 2, 3, 4, 5]\<rparr>"
  obtain F w1 where g: "fop_generate_file next_addr plain_vnode 0 ?w = Inr (F, w1)"
    by (auto simp: fop_generate_file_def new_obj_def Let_def)
  have "length (w_fs ?w) < 2 ^ 64" by (simp add: start_world_def)
  from file_reads_are_sequential [OF plain_vnode_regular this g, of "[2, 1]"] g show ?thesis
    by (auto simp: eval_nat_numeral)
qed

text \<open>Writing an open file does not advance it. A second write through the same descriptor replaces the bytes of
  the first one instead of following them.\<close>

theorem file_write_overwrites:
  assumes "regular_file v" and "get_file p w = Inr \<lparr>ov_file = v, ov_offset = off\<rparr>" and "length ys = length xs"
  shows "\<exists>w1 w2. file_write p xs w = Inr (length xs, w1) \<and> file_write p ys w1 = Inr (length ys, w2) \<and>
    get_file p w2 = get_file p w \<and> w_fs w2 = overwrite (unat off) ys (w_fs w)"
proof -
  have "overwrite (unat off) ys (overwrite (unat off) xs (w_fs w)) = overwrite (unat off) ys (w_fs w)"
    using assms(3) by (simp add: overwrite_def)
  then show ?thesis using assms by (simp add: file_write_def regular_file_def get_file_def)
qed

theorem file_write_overwrites_witness:
  "\<exists>w1 w2. file_write 1 [1, 2] (start_world\<lparr>w_objs := [1 \<mapsto> FileObj \<lparr>ov_file = plain_vnode, ov_offset = 0\<rparr>]\<rparr>) = Inr (2, w1) \<and>
     file_write 1 [3, 4] w1 = Inr (2, w2) \<and> w_fs w2 = [3, 4]"
  using file_write_overwrites [OF plain_vnode_regular, of 1 "start_world\<lparr>w_objs := [1 \<mapsto> FileObj \<lparr>ov_file = plain_vnode, ov_offset = 0\<rparr>]\<rparr>" 0 "[3, 4]" "[1, 2]"]
  by (auto simp: get_file_def overwrite_def start_world_def)

end
