(* ===== verification/Block_Dev.thy ===== *)
theory Block_Dev
  imports Pipes
begin

text \<open>
  Block devices and \<open>/dev\<close> (\<open>stuos/src/fs_dev.c\<close>): registration of a device with its partition table, byte
  access through 512-byte sectors with a one-sector cache, and the directory of devices.

  A driver is a pair of functions on the state \<open>'d\<close> of all drivers. The locale \<open>byte_device\<close> states what a
  file system needs of the device below it, an array of bytes that is read and written at any offset; the
  interpretation \<open>blk\<close> shows that the two access routines provide it whenever the driver keeps to
  \<open>sector_driver\<close>, for any position and length within the partition.
\<close>

section \<open>Data\<close>

abbreviation BLOCK_DEVICE_READ_SIZE :: nat where "BLOCK_DEVICE_READ_SIZE \<equiv> 512"
abbreviation DEV_ROOT_DIR_INODE_NUM :: u64 where "DEV_ROOT_DIR_INODE_NUM \<equiv> - 1"
abbreviation MAX_BLOCK_DEVICES :: nat where "MAX_BLOCK_DEVICES \<equiv> 26"
abbreviation MAX_PARTITIONS :: nat where "MAX_PARTITIONS \<equiv> 9"

record SectorCache =
  sc_data :: "u8 list"
  sc_sector_number :: u64
  sc_is_valid :: bool

record BlockDevicePartition =
  bp_byte_offset :: u64
  bp_byte_length :: u64

record 'd BlockDevice =
  bd_block_read :: "u64 \<Rightarrow> 'd \<Rightarrow> (u8 list \<times> 'd) result"
  bd_block_write :: "u64 \<Rightarrow> u8 list \<Rightarrow> 'd \<Rightarrow> 'd result"
  bd_cache :: SectorCache
  bd_partitions :: "BlockDevicePartition list"

text \<open>The list \<open>ds_block_devices\<close> holds the entries before \<open>next_free_block_device\<close>.\<close>

record 'd devfs =
  ds_block_devices :: "'d BlockDevice list"
  ds_drivers :: 'd

section \<open>Registration\<close>

definition le16 :: "u8 list \<Rightarrow> u16" where
  "le16 bs = ucast (bs ! 0) OR push_bit 8 (ucast (bs ! 1))"

definition le32 :: "u8 list \<Rightarrow> u32" where
  "le32 bs = ucast (bs ! 0) OR push_bit 8 (ucast (bs ! 1)) OR push_bit 16 (ucast (bs ! 2)) OR push_bit 24 (ucast (bs ! 3))"

text \<open>The fields of the master boot record that are used: the four entries start at byte 446.\<close>

definition lba_partition_start :: "u8 list \<Rightarrow> nat \<Rightarrow> u32" where
  "lba_partition_start mbr i = le32 (drop (446 + 16 * i + 8) mbr)"

definition partition_sector_count :: "u8 list \<Rightarrow> nat \<Rightarrow> u32" where
  "partition_sector_count mbr i = le32 (drop (446 + 16 * i + 12) mbr)"

definition bootsector_signature :: "u8 list \<Rightarrow> u16" where
  "bootsector_signature mbr = le16 (drop 510 mbr)"

text \<open>The products with the sector size are taken at 32 bits, the width of both operands.\<close>

fun read_partitions :: "u8 list \<Rightarrow> nat list \<Rightarrow> BlockDevicePartition list \<Rightarrow> BlockDevicePartition list result" where
  "read_partitions mbr [] ps = Inr ps"
| "read_partitions mbr (i # is) ps =
     (if length ps \<ge> MAX_PARTITIONS then Inl HCF
      else if partition_sector_count mbr i = 0 then Inr ps
      else read_partitions mbr is (ps @ [\<lparr>
        bp_byte_offset = ucast (lba_partition_start mbr i * 512 :: u32),
        bp_byte_length = ucast (partition_sector_count mbr i * 512 :: u32)\<rparr>]))"

definition fs_dev_add_block_device ::
  "(u64 \<Rightarrow> 'd \<Rightarrow> (u8 list \<times> 'd) result) \<Rightarrow> (u64 \<Rightarrow> u8 list \<Rightarrow> 'd \<Rightarrow> 'd result) \<Rightarrow> 'd devfs \<Rightarrow> 'd devfs result" where
  "fs_dev_add_block_device rd wr fs =
     (if length (ds_block_devices fs) = MAX_BLOCK_DEVICES then Inl HCF else
      rbind (rd 0 (ds_drivers fs)) (\<lambda>(mbr, d).
      let whole = [\<lparr>bp_byte_offset = 0, bp_byte_length = 0\<rparr>] in
      rbind (if bootsector_signature mbr = 0xAA55 then read_partitions mbr [0..<4] whole else Inr whole) (\<lambda>ps.
      Inr (fs\<lparr>ds_block_devices := ds_block_devices fs @ [\<lparr>
              bd_block_read = rd, bd_block_write = wr,
              bd_cache = \<lparr>sc_data = replicate 512 0, sc_sector_number = 0, sc_is_valid = False\<rparr>,
              bd_partitions = ps\<rparr>],
            ds_drivers := d\<rparr>))))"

section \<open>Access\<close>

definition get_block_device :: "VNodeData \<Rightarrow> 'd devfs \<Rightarrow> (nat \<times> BlockDevicePartition) result" where
  "get_block_device inode_num fs =
     (if vd_mount_id inode_num \<noteq> 0 then Inl HCF
      else if vd_inode inode_num = DEV_ROOT_DIR_INODE_NUM then Inl HCF
      else let dev_num = unat (drop_bit 16 (vd_inode inode_num) AND 0xFFFF) in
        if dev_num \<ge> length (ds_block_devices fs) then Inl HCF
        else let part_num = unat (vd_inode inode_num AND 0xFFFF);
                 parts = bd_partitions (ds_block_devices fs ! dev_num) in
          if part_num \<ge> length parts then Inl HCF else Inr (dev_num, parts ! part_num))"

definition set_cache :: "nat \<Rightarrow> SectorCache \<Rightarrow> 'd devfs \<Rightarrow> 'd devfs" where
  "set_cache n c fs = fs\<lparr>ds_block_devices := (ds_block_devices fs)[n := (ds_block_devices fs ! n)\<lparr>bd_cache := c\<rparr>]\<rparr>"

text \<open>The inner loop of a write: it stores bytes until the sector is full or no input is left.\<close>

fun overlay :: "nat \<Rightarrow> u8 list \<Rightarrow> u8 list \<Rightarrow> u8 list \<times> u8 list" where
  "overlay offset_in_sector [] sector = (sector, [])"
| "overlay offset_in_sector (x # input) sector =
     (if offset_in_sector < BLOCK_DEVICE_READ_SIZE then overlay (Suc offset_in_sector) input (sector[offset_in_sector := x])
      else (sector, x # input))"

definition write_sector :: "nat \<Rightarrow> nat \<Rightarrow> nat \<times> u8 list \<times> 'd devfs \<Rightarrow> (nat \<times> u8 list \<times> 'd devfs) result" where
  "write_sector n sector = (\<lambda>(offset_in_sector, input, fs).
     let dev = ds_block_devices fs ! n in
     rbind (bd_block_read dev (of_nat sector) (ds_drivers fs)) (\<lambda>(old, d1).
     let (new, rest) = overlay offset_in_sector input old in
     rbind (bd_block_write dev (of_nat sector) new d1) (\<lambda>d2.
     Inr (0, rest, set_cache n ((bd_cache dev)\<lparr>sc_is_valid := False\<rparr>) (fs\<lparr>ds_drivers := d2\<rparr>)))))"

definition sector_range :: "u64 \<Rightarrow> nat \<Rightarrow> nat list" where
  "sector_range offset num_bytes =
     [unat (offset div 512) ..< Suc (unat ((offset + of_nat num_bytes - 1) div 512))]"

definition blockdev_write_file :: "VNodeData \<Rightarrow> u64 \<Rightarrow> u8 list \<Rightarrow> 'd devfs \<Rightarrow> (nat \<times> 'd devfs) result" where
  "blockdev_write_file inode_num offset input_buf fs =
     rbind (get_block_device inode_num fs) (\<lambda>(n, part).
     let offset = offset + bp_byte_offset part in
     rbind (rfold (write_sector n) (sector_range offset (length input_buf)) (unat (offset mod 512), input_buf, fs)) (\<lambda>(_, _, fs').
     Inr (length input_buf, fs')))"

text \<open>The inner loop of a read: it takes bytes until the sector ends or enough have been taken.\<close>

function take_out :: "nat \<Rightarrow> nat \<Rightarrow> u8 list \<Rightarrow> u8 list" where
  "take_out offset_in_sector wanted sector =
     (if offset_in_sector < BLOCK_DEVICE_READ_SIZE \<and> 0 < wanted
      then sector ! offset_in_sector # take_out (Suc offset_in_sector) (wanted - 1) sector else [])"
  by pat_completeness auto
termination by (relation "measure (\<lambda>(_, w, _). w)") auto

declare take_out.simps [simp del]

definition load_sector :: "nat \<Rightarrow> nat \<Rightarrow> 'd devfs \<Rightarrow> (u8 list \<times> 'd devfs) result" where
  "load_sector n sector fs =
     (let dev = ds_block_devices fs ! n; cache = bd_cache dev in
      if sc_sector_number cache \<noteq> of_nat sector \<or> \<not> sc_is_valid cache then
        rbind (bd_block_read dev (of_nat sector) (ds_drivers fs)) (\<lambda>(data, d).
          Inr (data, set_cache n \<lparr>sc_data = data, sc_sector_number = of_nat sector, sc_is_valid = True\<rparr> (fs\<lparr>ds_drivers := d\<rparr>)))
      else Inr (sc_data cache, fs))"

definition read_sector :: "nat \<Rightarrow> nat \<Rightarrow> nat \<Rightarrow> nat \<times> u8 list \<times> 'd devfs \<Rightarrow> (nat \<times> u8 list \<times> 'd devfs) result" where
  "read_sector n num_bytes sector = (\<lambda>(offset_in_sector, out, fs).
     rbind (load_sector n sector fs) (\<lambda>(data, fs').
     Inr (0, out @ take_out offset_in_sector (num_bytes - length out) data, fs')))"

definition blockdev_read_file :: "VNodeData \<Rightarrow> u64 \<Rightarrow> nat \<Rightarrow> 'd devfs \<Rightarrow> (u8 list \<times> 'd devfs) result" where
  "blockdev_read_file inode_num offset num_bytes fs =
     rbind (get_block_device inode_num fs) (\<lambda>(n, part).
     let offset = offset + bp_byte_offset part in
     rbind (rfold (read_sector n num_bytes) (sector_range offset num_bytes) (unat (offset mod 512), [], fs)) (\<lambda>(_, out, fs').
     Inr (out, fs')))"

text \<open>User and group, which are always zero, are left out.\<close>

record stat =
  st_ino :: u64
  st_mode :: u32
  st_size :: u64

abbreviation S_IFMT :: u32 where "S_IFMT \<equiv> 0xF000"
abbreviation S_IFDIR :: u32 where "S_IFDIR \<equiv> 0x4000"
abbreviation S_IFBLK :: u32 where "S_IFBLK \<equiv> 0x6000"
abbreviation S_IFREG :: u32 where "S_IFREG \<equiv> 0x8000"

definition blockdev_stat :: "VNodeData \<Rightarrow> 'd devfs \<Rightarrow> stat result" where
  "blockdev_stat inode_num fs =
     rbind (get_block_device inode_num fs) (\<lambda>(n, part).
       Inr \<lparr>st_ino = vd_inode inode_num, st_mode = S_IFBLK, st_size = bp_byte_length part\<rparr>)"

text \<open>The directory of devices: the inode number, the name up to its terminator, and the vnode of each entry.\<close>

definition dev_name :: "nat \<Rightarrow> nat \<Rightarrow> u8 list" where
  "dev_name dev_num partition_num =
     [98, 108, 107, 65 + of_nat dev_num] @ (if partition_num = 0 then [] else [112, 48 + of_nat partition_num])"

definition dev_id :: "u64 \<Rightarrow> VNodeData" where
  "dev_id ino = \<lparr>vd_inode = ino, vd_mount_id = 0\<rparr>"

definition dev_vnode :: "u64 \<Rightarrow> 'd devfs VNode" where
  "dev_vnode ino = \<lparr>vn_id = dev_id ino,
     vn_write_file = blockdev_write_file, vn_read_file = blockdev_read_file\<rparr>"

definition dev_inode :: "nat \<Rightarrow> nat \<Rightarrow> u64" where
  "dev_inode dev_num partition_num = push_bit 16 (of_nat dev_num) OR of_nat partition_num"

text \<open>The two loops visit the pairs in this order; the first \<open>dirent_index\<close> are skipped and at most \<open>dirent_count\<close> are returned.\<close>

fun list_devices :: "(nat \<times> nat) list \<Rightarrow> nat \<Rightarrow> nat \<Rightarrow> (u64 \<times> u8 list \<times> 'd devfs VNode) list" where
  "list_devices [] dirent_index dirent_count = []"
| "list_devices ((d, p) # ps) dirent_index dirent_count =
     (if dirent_index \<noteq> 0 then list_devices ps (dirent_index - 1) dirent_count
      else if dirent_count = 0 then []
      else (dev_inode d p, dev_name d p, dev_vnode (dev_inode d p)) # list_devices ps 0 (dirent_count - 1))"

definition devroot_read_dirents :: "VNodeData \<Rightarrow> nat \<Rightarrow> nat \<Rightarrow> 'd devfs \<Rightarrow> (u64 \<times> u8 list \<times> 'd devfs VNode) list result" where
  "devroot_read_dirents inode_num dirent_index dirent_count fs =
     (if vd_inode inode_num \<noteq> DEV_ROOT_DIR_INODE_NUM \<or> vd_mount_id inode_num \<noteq> 0 then Inl HCF
      else Inr (list_devices
        (concat (map (\<lambda>d. map (Pair d) [0..<length (bd_partitions (ds_block_devices fs ! d))]) [0..<length (ds_block_devices fs)]))
        dirent_index dirent_count))"

definition devroot_stat :: "VNodeData \<Rightarrow> stat result" where
  "devroot_stat inode_num = Inl HCF"

section \<open>The interface of a byte device\<close>

definition patched :: "(nat \<Rightarrow> u8) \<Rightarrow> nat \<Rightarrow> u8 list \<Rightarrow> nat \<Rightarrow> u8" where
  "patched f off xs a = (if off \<le> a \<and> a < off + length xs then xs ! (a - off) else f a)"

locale byte_device =
  fixes dev_read :: "u64 \<Rightarrow> nat \<Rightarrow> 's \<Rightarrow> (u8 list \<times> 's) result"
    and dev_write :: "u64 \<Rightarrow> u8 list \<Rightarrow> 's \<Rightarrow> (nat \<times> 's) result"
    and okay :: "'s \<Rightarrow> bool"
    and content :: "'s \<Rightarrow> nat \<Rightarrow> u8"
    and cap :: nat
  assumes cap_small: "okay s \<Longrightarrow> cap < 2 ^ 64"
    and read_ok: "okay s \<Longrightarrow> 0 < n \<Longrightarrow> off + n \<le> cap \<Longrightarrow>
      \<exists>s'. dev_read (of_nat off) n s = Inr (map (content s) [off..<off + n], s') \<and> okay s' \<and> content s' = content s"
    and write_ok: "okay s \<Longrightarrow> xs \<noteq> [] \<Longrightarrow> off + length xs \<le> cap \<Longrightarrow>
      \<exists>s'. dev_write (of_nat off) xs s = Inr (length xs, s') \<and> okay s' \<and> content s' = patched (content s) off xs"
begin

text \<open>After any sequence of writes, a read returns the bytes that were there, with every write applied in order.\<close>

lemma read_after_writes:
  assumes "okay s" and "\<forall>(off, xs) \<in> set ws. xs \<noteq> [] \<and> off + length xs \<le> cap" and "0 < n" and "o2 + n \<le> cap"
  shows "\<exists>s' s''. rfold (\<lambda>(off, xs) s. rbind (dev_write (of_nat off) xs s) (\<lambda>(_, s'). Inr s')) ws s = Inr s' \<and>
    dev_read (of_nat o2) n s' = Inr (map (fold (\<lambda>(off, xs) f. patched f off xs) ws (content s)) [o2..<o2 + n], s'')"
  using assms(1,2)
proof (induction ws arbitrary: s)
  case Nil
  then show ?case using read_ok [OF Nil(1) assms(3,4)] by auto
next
  case (Cons w ws)
  obtain off xs where w: "w = (off, xs)" by (cases w)
  obtain s' where "dev_write (of_nat off) xs s = Inr (length xs, s')" "okay s'" "content s' = patched (content s) off xs"
    using write_ok [OF Cons.prems(1), of xs off] Cons.prems(2) w by auto
  with Cons.IH [of s'] Cons.prems(2) w show ?case by simp
qed

end

section \<open>Sectors\<close>

text \<open>What a driver promises: sector \<open>s\<close> of a disk of \<open>nsect\<close> sectors is read and written as a whole.\<close>

definition sector_driver ::
  "(u64 \<Rightarrow> 'd \<Rightarrow> (u8 list \<times> 'd) result) \<Rightarrow> (u64 \<Rightarrow> u8 list \<Rightarrow> 'd \<Rightarrow> 'd result) \<Rightarrow> ('d \<Rightarrow> bool) \<Rightarrow> ('d \<Rightarrow> nat \<Rightarrow> u8 list) \<Rightarrow> nat \<Rightarrow> bool" where
  "sector_driver rd wr ok disk nsect \<longleftrightarrow>
     (\<forall>d s. ok d \<and> s < nsect \<longrightarrow> length (disk d s) = 512 \<and> (\<exists>d'. rd (of_nat s) d = Inr (disk d s, d') \<and> ok d' \<and> disk d' = disk d)) \<and>
     (\<forall>d s xs. ok d \<and> s < nsect \<and> length xs = 512 \<longrightarrow> (\<exists>d'. wr (of_nat s) xs d = Inr d' \<and> ok d' \<and> disk d' = (disk d)(s := xs)))"

lemma sector_driverD:
  assumes "sector_driver rd wr ok disk nsect" and "ok d" and "s < nsect"
  shows "length (disk d s) = 512" and "\<exists>d'. rd (of_nat s) d = Inr (disk d s, d') \<and> ok d' \<and> disk d' = disk d"
    and "length xs = 512 \<Longrightarrow> \<exists>d'. wr (of_nat s) xs d = Inr d' \<and> ok d' \<and> disk d' = (disk d)(s := xs)"
  using assms unfolding sector_driver_def by blast+

definition disk_byte :: "('d \<Rightarrow> nat \<Rightarrow> u8 list) \<Rightarrow> 'd \<Rightarrow> nat \<Rightarrow> u8" where
  "disk_byte disk d a = disk d (a div 512) ! (a mod 512)"

text \<open>Device \<open>n\<close> has a working driver, and its cache, if valid, holds what is on the disk.\<close>

definition device_ok :: "('d \<Rightarrow> bool) \<Rightarrow> ('d \<Rightarrow> nat \<Rightarrow> u8 list) \<Rightarrow> nat \<Rightarrow> nat \<Rightarrow> 'd devfs \<Rightarrow> bool" where
  "device_ok ok disk nsect n fs \<longleftrightarrow> n < length (ds_block_devices fs) \<and> 512 * nsect < 2 ^ 64 \<and> ok (ds_drivers fs) \<and>
     (let dev = ds_block_devices fs ! n; c = bd_cache dev in
      sector_driver (bd_block_read dev) (bd_block_write dev) ok disk nsect \<and>
      (sc_is_valid c \<longrightarrow> unat (sc_sector_number c) < nsect \<longrightarrow> sc_data c = disk (ds_drivers fs) (unat (sc_sector_number c))))"

definition same_parts :: "'d devfs \<Rightarrow> 'd devfs \<Rightarrow> bool" where
  "same_parts fs fs' \<longleftrightarrow> map bd_partitions (ds_block_devices fs) = map bd_partitions (ds_block_devices fs')"

lemma same_parts_refl [simp]: "same_parts fs fs"
  by (simp add: same_parts_def)

lemma same_parts_trans: "same_parts a b \<Longrightarrow> same_parts b c \<Longrightarrow> same_parts a c"
  by (simp add: same_parts_def)

lemma same_parts_set_cache [simp]: "same_parts fs (set_cache n c (fs\<lparr>ds_drivers := d\<rparr>))"
proof (cases "n < length (ds_block_devices fs)")
  case True
  then show ?thesis unfolding same_parts_def set_cache_def by (intro nth_equalityI) (auto simp: nth_list_update)
qed (simp add: same_parts_def set_cache_def list_update_beyond)

lemma same_parts_get:
  assumes "same_parts fs fs'"
  shows "get_block_device v fs = get_block_device v fs'"
proof -
  have len: "length (ds_block_devices fs) = length (ds_block_devices fs')"
    using arg_cong [OF assms [unfolded same_parts_def], of length] by simp
  have "bd_partitions (ds_block_devices fs ! i) = bd_partitions (ds_block_devices fs' ! i)" if "i < length (ds_block_devices fs')" for i
    using arg_cong [OF assms [unfolded same_parts_def], of "\<lambda>xs. xs ! i"] that len by simp
  with len show ?thesis
    unfolding get_block_device_def Let_def by (intro if_cong refl) (simp_all add: not_le)
qed

lemma patched_Nil [simp]: "patched f p [] = f"
  by (rule ext) (auto simp: patched_def)

lemma patched_patched: "q = p + length xs \<Longrightarrow> patched (patched f p xs) q ys = patched f p (xs @ ys)"
  by (auto simp: patched_def nth_append fun_eq_iff)

lemma overlay_eq:
  "length sector = 512 \<Longrightarrow> o' \<le> 512 \<Longrightarrow> overlay o' input sector =
     (take o' sector @ take (512 - o') input @ drop (o' + length input) sector, drop (512 - o') input)"
proof (induction o' input sector rule: overlay.induct)
  case (2 o' x input sector)
  show ?case
  proof (cases "o' < 512")
    case True
    then have "512 - o' = Suc (511 - o')" "512 - Suc o' = 511 - o'" by auto
    with True 2 show ?thesis by (simp add: take_Suc_conv_app_nth)
  qed (use 2 in simp)
qed simp

lemma take_out_eq: "length sector = 512 \<Longrightarrow> take_out o' w sector = take w (drop o' sector)"
proof (induction o' w sector rule: take_out.induct)
  case (1 o' w sector)
  show ?case
  proof (cases "o' < 512 \<and> 0 < w")
    case True
    then have "drop o' sector = sector ! o' # drop (Suc o') sector" using 1(2) by (simp add: Cons_nth_drop_Suc)
    with True 1 show ?thesis by (subst take_out.simps) (auto simp: take_Cons')
  qed (use 1(2) in \<open>subst take_out.simps, auto\<close>)
qed

lemma sector_address: "m < 512 \<Longrightarrow> (512 * s + m) div 512 = (s :: nat)" "m < 512 \<Longrightarrow> (512 * s + m) mod 512 = m"
  by simp_all

lemma in_sector_iff:
  "k + n \<le> 512 \<Longrightarrow> 512 * s + k \<le> a \<and> a < 512 * s + k + n \<longleftrightarrow> a div 512 = (s :: nat) \<and> k \<le> a mod 512 \<and> a mod 512 < k + n"
proof -
  assume "k + n \<le> 512"
  moreover have a: "a = 512 * (a div 512) + a mod 512" "a mod 512 < 512" by simp_all
  ultimately show ?thesis
    by (cases "a div 512" s rule: linorder_cases) linarith+
qed

lemma disk_byte_update:
  assumes "length (disk d s) = 512" and "disk d' = (disk d)(s := take k (disk d s) @ xs @ drop (k + length xs) (disk d s))"
    and "k + length xs \<le> 512"
  shows "disk_byte disk d' = patched (disk_byte disk d) (512 * s + k) xs"
proof
  fix a :: nat
  define q m where "q = a div 512" and "m = a mod 512"
  have "m < 512" and a: "a = 512 * q + m" by (simp_all add: q_def m_def)
  have iff: "512 * s + k \<le> a \<and> a < 512 * s + k + length xs \<longleftrightarrow> q = s \<and> k \<le> m \<and> m < k + length xs"
    unfolding q_def m_def by (rule in_sector_iff [OF assms(3)])
  have sub: "a - (512 * s + k) = m - k" if "q = s" using that a by simp
  have new: "(take k (disk d s) @ xs @ drop (k + length xs) (disk d s)) ! m =
      (if k \<le> m \<and> m < k + length xs then xs ! (m - k) else disk d s ! m)"
    using assms(1,3) \<open>m < 512\<close> by (auto simp: nth_append)
  show "disk_byte disk d' a = patched (disk_byte disk d) (512 * s + k) xs a"
    unfolding disk_byte_def patched_def assms(2) iff q_def [symmetric] m_def [symmetric]
    by (cases "q = s") (simp_all add: new sub)
qed

lemma sector_slice: "length (disk d s) = 512 \<Longrightarrow> k + n \<le> 512 \<Longrightarrow>
  take n (drop k (disk d s)) = map (disk_byte disk d) [512 * s + k..<512 * s + k + n]"
proof (rule nth_equalityI)
  fix i assume len: "length (disk d s) = 512" "k + n \<le> 512" and "i < length (take n (drop k (disk d s)))"
  then have "i < n" by simp
  then have "(512 * s + k + i) div 512 = s" "(512 * s + k + i) mod 512 = k + i"
    using len(2) sector_address [of "k + i" s] by (simp_all add: add.assoc)
  then show "take n (drop k (disk d s)) ! i = map (disk_byte disk d) [512 * s + k..<512 * s + k + n] ! i"
    using len \<open>i < n\<close> by (simp add: disk_byte_def)
qed simp

lemma device_ok_step:
  assumes "device_ok ok disk nsect n fs" and "ok d"
    and "sc_is_valid c \<longrightarrow> unat (sc_sector_number c) < nsect \<longrightarrow> sc_data c = disk d (unat (sc_sector_number c))"
  shows "device_ok ok disk nsect n (set_cache n c (fs\<lparr>ds_drivers := d\<rparr>))"
  using assms by (simp add: device_ok_def set_cache_def Let_def)

lemma ds_drivers_set_cache [simp]: "ds_drivers (set_cache n c fs) = ds_drivers fs"
  by (simp add: set_cache_def)

lemma write_sector_ok:
  assumes "device_ok ok disk nsect n fs" and "s < nsect" and "k \<le> 512"
  shows "\<exists>fs'. write_sector n s (k, input, fs) = Inr (0, drop (512 - k) input, fs') \<and> device_ok ok disk nsect n fs' \<and>
    same_parts fs fs' \<and>
    disk_byte disk (ds_drivers fs') = patched (disk_byte disk (ds_drivers fs)) (512 * s + k) (take (512 - k) input)"
proof -
  let ?dev = "ds_block_devices fs ! n" and ?c = "bd_cache (ds_block_devices fs ! n)\<lparr>sc_is_valid := False\<rparr>"
  let ?old = "disk (ds_drivers fs) s"
  let ?new = "take k ?old @ take (512 - k) input @ drop (k + length (take (512 - k) input)) ?old"
  have drv: "sector_driver (bd_block_read ?dev) (bd_block_write ?dev) ok disk nsect" and ok: "ok (ds_drivers fs)"
    using assms(1) by (simp_all add: device_ok_def Let_def)
  have len: "length ?old = 512" by (rule sector_driverD(1) [OF drv ok assms(2)])
  obtain d1 where d1: "bd_block_read ?dev (of_nat s) (ds_drivers fs) = Inr (?old, d1)" "ok d1" "disk d1 = disk (ds_drivers fs)"
    using sector_driverD(2) [OF drv ok assms(2)] by blast
  have lnew: "length ?new = 512" using len assms(3) by simp
  obtain d2 where d2: "bd_block_write ?dev (of_nat s) ?new d1 = Inr d2" "ok d2" "disk d2 = (disk (ds_drivers fs))(s := ?new)"
    using sector_driverD(3) [OF drv d1(2) assms(2) lnew] unfolding d1(3) by blast
  have new: "take k ?old @ take (512 - k) input @ drop (k + length input) ?old = ?new"
    using len assms(3) by (simp add: min_def)
  have "write_sector n s (k, input, fs) = Inr (0, drop (512 - k) input, set_cache n ?c (fs\<lparr>ds_drivers := d2\<rparr>))"
    using d1(1) d2(1) by (simp add: write_sector_def Let_def overlay_eq [OF len assms(3)] new)
  moreover have "disk_byte disk d2 = patched (disk_byte disk (ds_drivers fs)) (512 * s + k) (take (512 - k) input)"
    by (rule disk_byte_update [OF len d2(3)]) (use assms(3) in simp)
  ultimately show ?thesis using device_ok_step [OF assms(1) d2(2)] by simp
qed

lemma write_sectors_ok:
  assumes "device_ok ok disk nsect n fs" and "s + m \<le> nsect" and "k \<le> 512" and "length input + k \<le> 512 * m"
  shows "\<exists>k' fs'. rfold (write_sector n) [s..<s + m] (k, input, fs) = Inr (k', [], fs') \<and> device_ok ok disk nsect n fs' \<and>
    same_parts fs fs' \<and> disk_byte disk (ds_drivers fs') = patched (disk_byte disk (ds_drivers fs)) (512 * s + k) input"
  using assms
proof (induction m arbitrary: s k input fs)
  case (Suc m)
  obtain fs1 where fs1: "write_sector n s (k, input, fs) = Inr (0, drop (512 - k) input, fs1)" "device_ok ok disk nsect n fs1"
    "same_parts fs fs1" "disk_byte disk (ds_drivers fs1) = patched (disk_byte disk (ds_drivers fs)) (512 * s + k) (take (512 - k) input)"
    using write_sector_ok [OF Suc.prems(1) _ Suc.prems(3), of s input] Suc.prems(2) by auto
  have s1: "Suc s + m \<le> nsect" using Suc.prems(2) by simp
  have rest: "length (drop (512 - k) input) + 0 \<le> 512 * m" using Suc.prems(3,4) by auto
  obtain k' fs2 where fs2: "rfold (write_sector n) [Suc s..<Suc s + m] (0, drop (512 - k) input, fs1) = Inr (k', [], fs2)"
    "device_ok ok disk nsect n fs2" "same_parts fs1 fs2"
    "disk_byte disk (ds_drivers fs2) = patched (disk_byte disk (ds_drivers fs1)) (512 * Suc s + 0) (drop (512 - k) input)"
    using Suc.IH [OF fs1(2) s1 _ rest] by blast
  have "disk_byte disk (ds_drivers fs2) = patched (disk_byte disk (ds_drivers fs)) (512 * s + k) input"
  proof (cases "length input \<le> 512 - k")
    case False
    then show ?thesis using patched_patched [of "512 * Suc s + 0" "512 * s + k" "take (512 - k) input"] fs2(4) fs1(4) Suc.prems(3)
      by (simp add: min_def)
  qed (use fs2(4) fs1(4) in simp)
  moreover have "[s..<s + Suc m] = s # [Suc s..<Suc s + m]" by (simp add: upt_conv_Cons)
  ultimately show ?case using fs1(1) fs2 same_parts_trans [OF fs1(3) fs2(3)] by auto
qed auto

lemma read_sector_ok:
  assumes "device_ok ok disk nsect n fs" and "s < nsect" and "k \<le> 512"
  shows "\<exists>fs'. read_sector n w s (k, out, fs) = Inr (0, out @ map (disk_byte disk (ds_drivers fs)) [512 * s + k..<512 * s + k + min (512 - k) (w - length out)], fs') \<and>
    device_ok ok disk nsect n fs' \<and> same_parts fs fs' \<and> disk_byte disk (ds_drivers fs') = disk_byte disk (ds_drivers fs)"
proof -
  let ?dev = "ds_block_devices fs ! n" and ?old = "disk (ds_drivers fs) s"
  have drv: "sector_driver (bd_block_read ?dev) (bd_block_write ?dev) ok disk nsect" and ok: "ok (ds_drivers fs)"
    and cache: "sc_is_valid (bd_cache ?dev) \<Longrightarrow> unat (sc_sector_number (bd_cache ?dev)) < nsect \<Longrightarrow>
        sc_data (bd_cache ?dev) = disk (ds_drivers fs) (unat (sc_sector_number (bd_cache ?dev)))"
    using assms(1) by (simp_all add: device_ok_def Let_def)
  have len: "length ?old = 512" by (rule sector_driverD(1) [OF drv ok assms(2)])
  have s: "unat (of_nat s :: u64) = s"
    using assms(1,2) by (simp add: device_ok_def unat_of_nat take_bit_nat_eq_self)
  obtain d1 where d1: "bd_block_read ?dev (of_nat s) (ds_drivers fs) = Inr (?old, d1)" "ok d1" "disk d1 = disk (ds_drivers fs)"
    using sector_driverD(2) [OF drv ok assms(2)] by blast
  have "\<exists>fs'. load_sector n s fs = Inr (?old, fs') \<and> device_ok ok disk nsect n fs' \<and> same_parts fs fs' \<and> disk (ds_drivers fs') = disk (ds_drivers fs)"
  proof (cases "sc_sector_number (bd_cache ?dev) \<noteq> of_nat s \<or> \<not> sc_is_valid (bd_cache ?dev)")
    case True
    let ?c = "\<lparr>sc_data = ?old, sc_sector_number = of_nat s, sc_is_valid = True\<rparr>"
    have "device_ok ok disk nsect n (set_cache n ?c (fs\<lparr>ds_drivers := d1\<rparr>))"
      by (rule device_ok_step [OF assms(1) d1(2)]) (simp add: s d1(3))
    then show ?thesis using True d1(1,3) by (simp add: load_sector_def Let_def)
  next
    case False
    then have "sc_data (bd_cache ?dev) = ?old" using cache assms(2) s by simp
    then show ?thesis using False assms(1) by (simp add: load_sector_def Let_def)
  qed
  moreover have "take_out k (w - length out) ?old = map (disk_byte disk (ds_drivers fs)) [512 * s + k..<512 * s + k + min (512 - k) (w - length out)]"
  proof -
    have "k + min (512 - k) (w - length out) \<le> 512" using assms(3) by simp
    from sector_slice [of disk "ds_drivers fs" s, OF len this] show ?thesis
      using len by (simp add: take_out_eq [OF len] min_def split: if_splits)
  qed
  ultimately show ?thesis by (auto simp: read_sector_def disk_byte_def fun_eq_iff)
qed

lemma read_sectors_ok:
  assumes "device_ok ok disk nsect n fs" and "s + m \<le> nsect" and "k \<le> 512" and "w - length out + k \<le> 512 * m"
  shows "\<exists>k' fs'. rfold (read_sector n w) [s..<s + m] (k, out, fs) =
      Inr (k', out @ map (disk_byte disk (ds_drivers fs)) [512 * s + k..<512 * s + k + (w - length out)], fs') \<and>
    device_ok ok disk nsect n fs' \<and> same_parts fs fs' \<and> disk_byte disk (ds_drivers fs') = disk_byte disk (ds_drivers fs)"
  using assms
proof (induction m arbitrary: s k out fs)
  case (Suc m)
  let ?j = "min (512 - k) (w - length out)"
  let ?out = "out @ map (disk_byte disk (ds_drivers fs)) [512 * s + k..<512 * s + k + ?j]"
  obtain fs1 where fs1: "read_sector n w s (k, out, fs) = Inr (0, ?out, fs1)" "device_ok ok disk nsect n fs1"
    "same_parts fs fs1" "disk_byte disk (ds_drivers fs1) = disk_byte disk (ds_drivers fs)"
    using read_sector_ok [OF Suc.prems(1) _ Suc.prems(3), of s w out] Suc.prems(2) by auto
  have "w - length ?out + 0 \<le> 512 * m" using Suc.prems(3,4) by auto
  then obtain k' fs2 where fs2: "rfold (read_sector n w) [Suc s..<Suc s + m] (0, ?out, fs1) =
      Inr (k', ?out @ map (disk_byte disk (ds_drivers fs)) [512 * Suc s + 0..<512 * Suc s + 0 + (w - length ?out)], fs2)"
    "device_ok ok disk nsect n fs2" "same_parts fs1 fs2" "disk_byte disk (ds_drivers fs2) = disk_byte disk (ds_drivers fs)"
    using Suc.IH [OF fs1(2), of "Suc s" 0 ?out] Suc.prems(2) unfolding fs1(4) by fastforce
  have "[512 * s + k..<512 * s + k + ?j] @ [512 * Suc s + 0..<512 * Suc s + 0 + (w - length ?out)] = [512 * s + k..<512 * s + k + (w - length out)]"
  proof (cases "w - length out \<le> 512 - k")
    case False
    then have j: "512 * s + k + ?j = 512 * Suc s + 0" "w - length ?out = w - length out - (512 - k)"
      "512 * s + k + (w - length out) = 512 * Suc s + (w - length out - (512 - k))"
      using Suc.prems(3) by auto
    show ?thesis unfolding j
      using upt_add_eq_append [of "512 * s + k" "512 * Suc s" "w - length out - (512 - k)"] Suc.prems(3) by simp
  qed simp
  then have "?out @ map (disk_byte disk (ds_drivers fs)) [512 * Suc s + 0..<512 * Suc s + 0 + (w - length ?out)] =
      out @ map (disk_byte disk (ds_drivers fs)) [512 * s + k..<512 * s + k + (w - length out)]"
    by (metis append_assoc map_append)
  moreover have "[s..<s + Suc m] = s # [Suc s..<Suc s + m]" by (simp add: upt_conv_Cons)
  ultimately show ?case using fs1(1) fs2 same_parts_trans [OF fs1(3) fs2(3)] by auto
qed auto

section \<open>Bytes\<close>

text \<open>Partition \<open>v\<close> has \<open>cap\<close> bytes, all of them on the disk.\<close>

definition dev_okay :: "('d \<Rightarrow> bool) \<Rightarrow> ('d \<Rightarrow> nat \<Rightarrow> u8 list) \<Rightarrow> nat \<Rightarrow> VNodeData \<Rightarrow> nat \<Rightarrow> 'd devfs \<Rightarrow> bool" where
  "dev_okay ok disk nsect v cap fs \<longleftrightarrow>
     (case get_block_device v fs of Inl _ \<Rightarrow> False
      | Inr (n, part) \<Rightarrow> device_ok ok disk nsect n fs \<and> unat (bp_byte_offset part) + cap \<le> 512 * nsect)"

definition dev_content :: "('d \<Rightarrow> nat \<Rightarrow> u8 list) \<Rightarrow> VNodeData \<Rightarrow> 'd devfs \<Rightarrow> nat \<Rightarrow> u8" where
  "dev_content disk v fs a =
     (case get_block_device v fs of Inl _ \<Rightarrow> 0
      | Inr (n, part) \<Rightarrow> disk_byte disk (ds_drivers fs) (unat (bp_byte_offset part) + a))"

lemma dev_okay_keep:
  "get_block_device v fs = Inr (n, part) \<Longrightarrow> same_parts fs fs' \<Longrightarrow> device_ok ok disk nsect n fs' \<Longrightarrow>
   unat (bp_byte_offset part) + cap \<le> 512 * nsect \<Longrightarrow> dev_okay ok disk nsect v cap fs'"
  using same_parts_get [of fs fs' v] by (simp add: dev_okay_def)

lemma dev_content_eq:
  "get_block_device v fs = Inr (n, part) \<Longrightarrow> dev_content disk v fs = (\<lambda>a. disk_byte disk (ds_drivers fs) (unat (bp_byte_offset part) + a))"
  by (rule ext) (simp add: dev_content_def)

text \<open>The sectors that the bytes from \<open>p\<close> to \<open>p + n\<close> lie in.\<close>

lemma sector_range_eq:
  fixes off :: u64
  assumes "unat off = p" and "0 < n" and "p + n < 2 ^ 64"
  shows "\<exists>m. sector_range off n = [p div 512..<p div 512 + m] \<and> 512 * (p div 512 + m) < p + n + 512 \<and> n + p mod 512 \<le> 512 * m"
    and "unat (off mod 512) = p mod 512"
proof -
  have "off + of_nat n - 1 = of_nat (p + n - 1)"
    using assms(2) unfolding assms(1) [symmetric] by (simp add: of_nat_diff)
  then have last: "unat ((off + of_nat n - 1) div 512) = (p + n - 1) div 512"
    using assms(3) by (simp add: unat_div unat_of_nat take_bit_nat_eq_self)
  define m where "m = Suc ((p + n - 1) div 512) - p div 512"
  have "p div 512 \<le> (p + n - 1) div 512" using assms(2) by (intro div_le_mono) simp
  then have m: "p div 512 + m = Suc ((p + n - 1) div 512)" by (simp add: m_def)
  have split: "p = 512 * (p div 512) + p mod 512" "p + n - 1 = 512 * ((p + n - 1) div 512) + (p + n - 1) mod 512" "(p + n - 1) mod 512 < 512"
    by simp_all
  have arith: "512 * (a + m) < p + n + 512" "n + b \<le> 512 * m"
    if e: "p = 512 * a + b" "p + n - 1 = 512 * c + d" "d < 512" "a + m = Suc c" for a b c d :: nat
  proof -
    have "p + n = Suc (512 * c + d)" using e(2) assms(2) by linarith
    then show "512 * (a + m) < p + n + 512" and "n + b \<le> 512 * m" using e(1,3,4) by simp_all
  qed
  note arith [OF split m]
  then show "\<exists>m. sector_range off n = [p div 512..<p div 512 + m] \<and> 512 * (p div 512 + m) < p + n + 512 \<and> n + p mod 512 \<le> 512 * m"
    using m last assms(1) by (intro exI [of _ m]) (simp add: sector_range_def unat_div)
  show "unat (off mod 512) = p mod 512" using assms(1) by (simp add: unat_mod)
qed

lemma blockdev_position:
  assumes "get_block_device v fs = Inr (n, part)" and "device_ok ok disk nsect n fs"
    and "unat (bp_byte_offset part) + cap \<le> 512 * nsect" and "0 < k" and "off + k \<le> cap"
  obtains m where "sector_range (of_nat off + bp_byte_offset part) k = [(unat (bp_byte_offset part) + off) div 512..<(unat (bp_byte_offset part) + off) div 512 + m]"
    and "(unat (bp_byte_offset part) + off) div 512 + m \<le> nsect"
    and "k + (unat (bp_byte_offset part) + off) mod 512 \<le> 512 * m"
    and "unat ((of_nat off + bp_byte_offset part) mod 512) = (unat (bp_byte_offset part) + off) mod 512"
proof -
  have bound: "unat (bp_byte_offset part) + off + k < 2 ^ 64" "unat (bp_byte_offset part) + off + k \<le> 512 * nsect"
    using assms(2,3,5) by (simp_all add: device_ok_def)
  then have off: "unat (of_nat off :: u64) = off" by (simp add: unat_of_nat take_bit_nat_eq_self)
  have p: "unat (of_nat off + bp_byte_offset part) = unat (bp_byte_offset part) + off"
    using unat_add64 [of "of_nat off" "bp_byte_offset part"] bound(1) unfolding off by (simp add: add.commute)
  obtain m where "sector_range (of_nat off + bp_byte_offset part) k = [(unat (bp_byte_offset part) + off) div 512..<(unat (bp_byte_offset part) + off) div 512 + m]"
    "512 * ((unat (bp_byte_offset part) + off) div 512 + m) < unat (bp_byte_offset part) + off + k + 512"
    "k + (unat (bp_byte_offset part) + off) mod 512 \<le> 512 * m"
    using sector_range_eq(1) [OF p assms(4) bound(1)] by blast
  moreover have "q \<le> nsect" if "512 * q < b + 512" "b \<le> 512 * nsect" for q b :: nat using that by linarith
  note this [OF calculation(2) bound(2)]
  ultimately show ?thesis using sector_range_eq(2) [OF p assms(4) bound(1)] by (intro that)
qed

lemma dev_okayE:
  assumes "dev_okay ok disk nsect v cap fs"
  obtains n part where "get_block_device v fs = Inr (n, part)" "device_ok ok disk nsect n fs" "unat (bp_byte_offset part) + cap \<le> 512 * nsect"
  using assms that by (auto simp: dev_okay_def split: sum.splits)

lemma blockdev_write_ok:
  assumes "dev_okay ok disk nsect v cap fs" and "xs \<noteq> []" and "off + length xs \<le> cap"
  shows "\<exists>fs'. blockdev_write_file v (of_nat off) xs fs = Inr (length xs, fs') \<and> dev_okay ok disk nsect v cap fs' \<and>
    dev_content disk v fs' = patched (dev_content disk v fs) off xs"
proof -
  obtain n part where g: "get_block_device v fs = Inr (n, part)" "device_ok ok disk nsect n fs" "unat (bp_byte_offset part) + cap \<le> 512 * nsect"
    by (rule dev_okayE [OF assms(1)])
  let ?p = "unat (bp_byte_offset part) + off"
  have pos: "0 < length xs" using assms(2) by simp
  obtain m where m: "sector_range (of_nat off + bp_byte_offset part) (length xs) = [?p div 512..<?p div 512 + m]"
    "?p div 512 + m \<le> nsect" "length xs + ?p mod 512 \<le> 512 * m" "unat ((of_nat off + bp_byte_offset part) mod 512) = ?p mod 512"
    by (rule blockdev_position [OF g pos assms(3)])
  have "?p mod 512 \<le> 512" by simp
  from write_sectors_ok [OF g(2) m(2) this m(3)] obtain k fs' where
    fs': "rfold (write_sector n) [?p div 512..<?p div 512 + m] (?p mod 512, xs, fs) = Inr (k, [], fs')" "device_ok ok disk nsect n fs'"
    "same_parts fs fs'" "disk_byte disk (ds_drivers fs') = patched (disk_byte disk (ds_drivers fs)) (512 * (?p div 512) + ?p mod 512) xs" by blast
  have "get_block_device v fs' = Inr (n, part)" using g(1) same_parts_get [OF fs'(3)] by simp
  then have "dev_content disk v fs' = patched (dev_content disk v fs) off xs"
    using dev_content_eq g(1) fs'(4) by (auto simp: dev_content_eq patched_def fun_eq_iff)
  moreover have "blockdev_write_file v (of_nat off) xs fs = Inr (length xs, fs')"
    using g(1) m(1,4) fs'(1) by (simp add: blockdev_write_file_def)
  ultimately show ?thesis using dev_okay_keep [OF g(1) fs'(3,2) g(3)] by blast
qed

lemma blockdev_read_ok:
  assumes "dev_okay ok disk nsect v cap fs" and "0 < k" and "off + k \<le> cap"
  shows "\<exists>fs'. blockdev_read_file v (of_nat off) k fs = Inr (map (dev_content disk v fs) [off..<off + k], fs') \<and>
    dev_okay ok disk nsect v cap fs' \<and> dev_content disk v fs' = dev_content disk v fs"
proof -
  obtain n part where g: "get_block_device v fs = Inr (n, part)" "device_ok ok disk nsect n fs" "unat (bp_byte_offset part) + cap \<le> 512 * nsect"
    by (rule dev_okayE [OF assms(1)])
  let ?b = "unat (bp_byte_offset part)" let ?p = "?b + off"
  obtain m where m: "sector_range (of_nat off + bp_byte_offset part) k = [?p div 512..<?p div 512 + m]"
    "?p div 512 + m \<le> nsect" "k + ?p mod 512 \<le> 512 * m" "unat ((of_nat off + bp_byte_offset part) mod 512) = ?p mod 512"
    by (rule blockdev_position [OF g assms(2,3)])
  have "?p mod 512 \<le> 512" and "k - length ([] :: u8 list) + ?p mod 512 \<le> 512 * m" using m(3) by simp_all
  from read_sectors_ok [OF g(2) m(2) this] obtain k' fs' where
    fs': "rfold (read_sector n k) [?p div 512..<?p div 512 + m] (?p mod 512, [], fs) =
      Inr (k', map (disk_byte disk (ds_drivers fs)) [512 * (?p div 512) + ?p mod 512..<512 * (?p div 512) + ?p mod 512 + k], fs')"
    "device_ok ok disk nsect n fs'" "same_parts fs fs'" "disk_byte disk (ds_drivers fs') = disk_byte disk (ds_drivers fs)" by auto
  have out: "map (disk_byte disk (ds_drivers fs)) [?p..<?p + k] = map (dev_content disk v fs) [off..<off + k]"
    unfolding dev_content_eq [OF g(1)] by (rule nth_equalityI) (simp_all add: add.assoc)
  have "get_block_device v fs' = Inr (n, part)" using g(1) same_parts_get [OF fs'(3)] by simp
  then have "dev_content disk v fs' = dev_content disk v fs"
    using g(1) fs'(4) by (simp add: dev_content_eq)
  moreover have "blockdev_read_file v (of_nat off) k fs = Inr (map (dev_content disk v fs) [off..<off + k], fs')"
    using g(1) m(1,4) fs'(1) out by (simp add: blockdev_read_file_def)
  ultimately show ?thesis using dev_okay_keep [OF g(1) fs'(3,2) g(3)] by blast
qed

interpretation blk: byte_device "blockdev_read_file v" "blockdev_write_file v" "dev_okay ok disk nsect v cap" "dev_content disk v" cap
  for ok :: "'d \<Rightarrow> bool" and disk nsect v cap
proof unfold_locales
  show "dev_okay ok disk nsect v cap s \<Longrightarrow> cap < 2 ^ 64" for s
    by (erule dev_okayE) (simp add: device_ok_def)
qed (blast intro: blockdev_read_ok blockdev_write_ok)+

section \<open>Registered devices\<close>

lemma dev_inode_parts:
  assumes "n < 26" and "p < 9"
  shows "unat (drop_bit 16 (dev_inode n p) AND 0xFFFF) = n" and "unat (dev_inode n p AND 0xFFFF) = p" and "dev_inode n p \<noteq> - 1"
proof -
  have small: "take_bit 16 (of_nat p :: u64) = of_nat p" "take_bit 16 (of_nat n :: u64) = of_nat n"
    using assms by (simp_all add: take_bit_of_nat_small)
  have "take_bit 16 (drop_bit 16 (dev_inode n p)) = of_nat n" "take_bit 16 (dev_inode n p) = of_nat p"
    unfolding dev_inode_def using packed_fields [OF small] by simp_all
  then show "unat (drop_bit 16 (dev_inode n p) AND 0xFFFF) = n" and p: "unat (dev_inode n p AND 0xFFFF) = p"
    using assms by (simp_all add: and_0xFFFF unat_of_nat take_bit_nat_eq_self)
  show "dev_inode n p \<noteq> - 1"
  proof
    assume "dev_inode n p = - 1"
    with p have "p = 0xFFFF" by simp
    then show False using assms(2) by simp
  qed
qed

lemma read_partitions_ok:
  "length ps + length is \<le> 9 \<Longrightarrow> \<exists>qs. read_partitions mbr is ps = Inr (ps @ qs) \<and> length (ps @ qs) \<le> 9"
proof (induction "is" arbitrary: ps)
  case (Cons i "is")
  let ?p = "\<lparr>bp_byte_offset = ucast (lba_partition_start mbr i * 512 :: u32), bp_byte_length = ucast (partition_sector_count mbr i * 512 :: u32)\<rparr>"
  show ?case using Cons.IH [of "ps @ [?p]"] Cons.prems by auto
qed simp

text \<open>Registration never fails while there is a free slot, and the new device is sound.\<close>

lemma add_block_device_ok:
  assumes "sector_driver rd wr ok disk nsect" and "ok (ds_drivers fs)" and "0 < nsect" and "512 * nsect < 2 ^ 64"
    and "length (ds_block_devices fs) < 26"
  shows "\<exists>fs1 dev. fs_dev_add_block_device rd wr fs = Inr fs1 \<and> ds_block_devices fs1 = ds_block_devices fs @ [dev] \<and>
    device_ok ok disk nsect (length (ds_block_devices fs)) fs1 \<and> disk (ds_drivers fs1) = disk (ds_drivers fs) \<and>
    bd_partitions dev \<noteq> [] \<and> bd_partitions dev ! 0 = \<lparr>bp_byte_offset = 0, bp_byte_length = 0\<rparr> \<and> length (bd_partitions dev) \<le> 9"
proof -
  let ?w = "\<lparr>bp_byte_offset = 0, bp_byte_length = 0\<rparr>"
  obtain d where d: "rd 0 (ds_drivers fs) = Inr (disk (ds_drivers fs) 0, d)" "ok d" "disk d = disk (ds_drivers fs)"
    using sector_driverD(2) [OF assms(1-3)] by auto
  obtain qs where "(if bootsector_signature (disk (ds_drivers fs) 0) = 0xAA55
      then read_partitions (disk (ds_drivers fs) 0) [0..<4] [?w] else Inr [?w]) = Inr (?w # qs)" "length (?w # qs) \<le> 9"
    using read_partitions_ok [of "[?w]" "[0..<4]" "disk (ds_drivers fs) 0"]
    by (cases "bootsector_signature (disk (ds_drivers fs) 0) = 0xAA55") auto
  then show ?thesis using d assms(1,4,5)
    by (simp add: fs_dev_add_block_device_def Let_def device_ok_def nth_append)
qed

lemma registered_okay:
  assumes "ds_block_devices fs1 = devs @ [dev]" and "device_ok ok disk nsect (length devs) fs1" and "length devs < 26"
    and "p < length (bd_partitions dev)" and "length (bd_partitions dev) \<le> 9"
    and "unat (bp_byte_offset (bd_partitions dev ! p)) + cap \<le> 512 * nsect"
  shows "dev_okay ok disk nsect (dev_id (dev_inode (length devs) p)) cap fs1"
    and "dev_content disk (dev_id (dev_inode (length devs) p)) fs1 =
      (\<lambda>a. disk_byte disk (ds_drivers fs1) (unat (bp_byte_offset (bd_partitions dev ! p)) + a))"
proof -
  have "get_block_device (dev_id (dev_inode (length devs) p)) fs1 = Inr (length devs, bd_partitions dev ! p)"
    using assms(1,3-5) dev_inode_parts [of "length devs" p] by (simp add: get_block_device_def dev_id_def Let_def)
  then show "dev_okay ok disk nsect (dev_id (dev_inode (length devs) p)) cap fs1"
    and "dev_content disk (dev_id (dev_inode (length devs) p)) fs1 =
      (\<lambda>a. disk_byte disk (ds_drivers fs1) (unat (bp_byte_offset (bd_partitions dev ! p)) + a))"
    using assms(2,6) by (simp_all add: dev_okay_def dev_content_eq)
qed

section \<open>Properties\<close>

text \<open>C5. A registered block device is an array of bytes. Registering a working driver succeeds while a slot is free; then, on
  the vnode that \<open>/dev\<close> lists for each partition that lies on the disk, any sequence of writes within the
  partition succeeds, and a read returns the bytes of the disk with the writes applied in order, whatever the
  alignment of the accesses and the state of the sector cache.\<close>

theorem block_device_is_byte_array:
  assumes "sector_driver rd wr ok disk nsect" and "ok (ds_drivers fs)" and "0 < nsect" and "512 * nsect < 2 ^ 64"
    and "length (ds_block_devices fs) < 26"
  shows "\<exists>fs1. fs_dev_add_block_device rd wr fs = Inr fs1 \<and>
    (let n = length (ds_block_devices fs); parts = bd_partitions (ds_block_devices fs1 ! n) in
     0 < length parts \<and>
     (\<forall>p < length parts. \<forall>cap ws off k.
        unat (bp_byte_offset (parts ! p)) + cap \<le> 512 * nsect \<and> (\<forall>(o', xs) \<in> set ws. xs \<noteq> [] \<and> o' + length xs \<le> cap) \<and> 0 < k \<and> off + k \<le> cap \<longrightarrow>
        (let v = dev_vnode (dev_inode n p) in
         \<exists>fs2 fs3. rfold (\<lambda>(o', xs) fs. rbind (vn_write_file v (vn_id v) (of_nat o') xs fs) (\<lambda>(_, fs'). Inr fs')) ws fs1 = Inr fs2 \<and>
           vn_read_file v (vn_id v) (of_nat off) k fs2 =
             Inr (map (fold (\<lambda>(o', xs) f. patched f o' xs) ws (\<lambda>a. disk_byte disk (ds_drivers fs) (unat (bp_byte_offset (parts ! p)) + a))) [off..<off + k], fs3))))"
proof -
  obtain fs1 dev where fs1: "fs_dev_add_block_device rd wr fs = Inr fs1" "ds_block_devices fs1 = ds_block_devices fs @ [dev]"
    "device_ok ok disk nsect (length (ds_block_devices fs)) fs1" "disk (ds_drivers fs1) = disk (ds_drivers fs)"
    "bd_partitions dev \<noteq> []" "length (bd_partitions dev) \<le> 9"
    using add_block_device_ok [OF assms] by blast
  have bytes: "disk_byte disk (ds_drivers fs1) = disk_byte disk (ds_drivers fs)" by (simp add: disk_byte_def fs1(4) fun_eq_iff)
  have v: "vn_write_file (dev_vnode i :: 'a devfs VNode) = blockdev_write_file" "vn_read_file (dev_vnode i :: 'a devfs VNode) = blockdev_read_file"
    "vn_id (dev_vnode i :: 'a devfs VNode) = dev_id i" for i
    by (simp_all add: dev_vnode_def)
  have dev: "ds_block_devices fs1 ! length (ds_block_devices fs) = dev" by (simp add: fs1(2))
  show ?thesis unfolding Let_def v
  proof (rule exI [of _ fs1], unfold dev, intro conjI allI impI; (elim conjE)?)
    fix p cap off k and ws :: "(nat \<times> u8 list) list"
    assume p: "p < length (bd_partitions dev)" "unat (bp_byte_offset (bd_partitions dev ! p)) + cap \<le> 512 * nsect"
      and ws: "\<forall>(o', xs) \<in> set ws. xs \<noteq> [] \<and> o' + length xs \<le> cap" and k: "0 < k" "off + k \<le> cap"
    note reg = registered_okay [OF fs1(2,3) assms(5) p(1) fs1(6) p(2)]
    show "\<exists>fs2 fs3. rfold (\<lambda>(o', xs) f. rbind (blockdev_write_file (dev_id (dev_inode (length (ds_block_devices fs)) p)) (of_nat o') xs f) (\<lambda>(_, fs'). Inr fs')) ws fs1 = Inr fs2 \<and>
      blockdev_read_file (dev_id (dev_inode (length (ds_block_devices fs)) p)) (of_nat off) k fs2 =
        Inr (map (fold (\<lambda>(o', xs) f. patched f o' xs) ws (\<lambda>a. disk_byte disk (ds_drivers fs) (unat (bp_byte_offset (bd_partitions dev ! p)) + a))) [off..<off + k], fs3)"
      using blk.read_after_writes [OF reg(1) ws k] unfolding reg(2) bytes .
  qed (use fs1 in simp_all)
qed

text \<open>A zeroed disk in memory.\<close>

definition ram_read :: "u64 \<Rightarrow> (nat \<Rightarrow> u8 list) \<Rightarrow> (u8 list \<times> (nat \<Rightarrow> u8 list)) result" where
  "ram_read s d = Inr (d (unat s), d)"

definition ram_write :: "u64 \<Rightarrow> u8 list \<Rightarrow> (nat \<Rightarrow> u8 list) \<Rightarrow> (nat \<Rightarrow> u8 list) result" where
  "ram_write s xs d = Inr (d(unat s := xs))"

definition ram_fs :: "(nat \<Rightarrow> u8 list) devfs" where
  "ram_fs = \<lparr>ds_block_devices = [], ds_drivers = (\<lambda>_. replicate 512 0)\<rparr>"

lemma ram_driver: "nsect < 2 ^ 64 \<Longrightarrow> sector_driver ram_read ram_write (\<lambda>d. \<forall>s. length (d s) = 512) (\<lambda>d. d) nsect"
  by (auto simp: sector_driver_def ram_read_def ram_write_def unat_of_nat take_bit_nat_eq_self)

theorem block_device_is_byte_array_witness:
  "\<exists>fs1 fs2 fs3. fs_dev_add_block_device ram_read ram_write ram_fs = Inr fs1 \<and>
     rfold (\<lambda>(o', xs) fs. rbind (blockdev_write_file \<lparr>vd_inode = 0, vd_mount_id = 0\<rparr> (of_nat o') xs fs) (\<lambda>(_, fs'). Inr fs')) [(511, [1, 2, 3]), (512, [4])] fs1 = Inr fs2 \<and>
     blockdev_read_file \<lparr>vd_inode = 0, vd_mount_id = 0\<rparr> 510 4 fs2 = Inr ([0, 1, 4, 3], fs3)"
proof -
  have len: "length (ds_block_devices ram_fs) = 0" "ds_drivers ram_fs = (\<lambda>_. replicate 512 0)" by (simp_all add: ram_fs_def)
  have ino: "dev_inode 0 0 = 0" by (simp add: dev_inode_def)
  obtain fs1 where fs1: "fs_dev_add_block_device ram_read ram_write ram_fs = Inr fs1"
    and all: "\<And>cap ws off k. unat (bp_byte_offset (bd_partitions (ds_block_devices fs1 ! 0) ! 0)) + cap \<le> 512 * 8 \<Longrightarrow>
       (\<forall>(o', xs) \<in> set ws. xs \<noteq> [] \<and> o' + length xs \<le> cap) \<Longrightarrow> 0 < k \<Longrightarrow> off + k \<le> cap \<Longrightarrow>
       \<exists>fs2 fs3. rfold (\<lambda>(o', xs) fs. rbind (blockdev_write_file \<lparr>vd_inode = 0, vd_mount_id = 0\<rparr> (of_nat o') xs fs) (\<lambda>(_, fs'). Inr fs')) ws fs1 = Inr fs2 \<and>
         blockdev_read_file \<lparr>vd_inode = 0, vd_mount_id = 0\<rparr> (of_nat off) k fs2 = Inr (map (fold (\<lambda>(o', xs) f. patched f o' xs) ws
           (\<lambda>a. disk_byte (\<lambda>d. d) (\<lambda>_. replicate 512 0) (unat (bp_byte_offset (bd_partitions (ds_block_devices fs1 ! 0) ! 0)) + a))) [off..<off + k], fs3)"
    using block_device_is_byte_array [OF ram_driver [of 8], of ram_fs] by (auto simp: len dev_vnode_def dev_id_def ino Let_def)
  have z: "bp_byte_offset (bd_partitions (ds_block_devices fs1 ! 0) ! 0) = 0"
    using add_block_device_ok [OF ram_driver [of 8], of ram_fs] fs1 by (auto simp: ram_fs_def)
  have "map (fold (\<lambda>(o', xs) f. patched f o' xs) [(511, [1, 2, 3]), (512, [4])] (\<lambda>a. disk_byte (\<lambda>d. d) (\<lambda>_. replicate 512 0) a)) [510..<510 + 4] = ([0, 1, 4, 3] :: u8 list)"
    by (simp add: upt_rec patched_def disk_byte_def)
  with all [of 1000 "[(511, [1, 2, 3]), (512, [4])]" 4 510] fs1 z show ?thesis by simp
qed

end
