(* ===== verification/Fat16.thy ===== *)
theory Fat16
  imports Block_Dev Kern_Libc
begin

text \<open>
  The FAT16 file system (\<open>stuos/src/fs_fat.c\<close>): the on-disk structures, the file allocation table, the chains
  of clusters that hold files and directories, and the operations a mounted volume offers.

  The functions of a volume work on the state \<open>'d\<close> of the block device below it, reached only through the two
  operations of its vnode. The products of 16-bit fields are computed at the type \<open>int\<close>: \<open>c_int\<close> is the
  conversion of such a value to 64 bits, and a value that leaves the range of \<open>int\<close> is a
  \<open>SignedOverflow\<close>. A device that delivers fewer bytes than were asked for leaves part of the buffer
  indeterminate, which is a \<open>WildAccess\<close>. The loop over a directory need not end: \<open>read_dirents\<close> has a bound on
  its number of iterations, and \<open>Diverged\<close> is the result when the bound is used up.
\<close>

section \<open>On-disk structures\<close>

definition bytes16 :: "u16 \<Rightarrow> u8 list" where
  "bytes16 v = [ucast v, ucast (drop_bit 8 v)]"

definition bytes32 :: "u32 \<Rightarrow> u8 list" where
  "bytes32 v = [ucast v, ucast (drop_bit 8 v), ucast (drop_bit 16 v), ucast (drop_bit 24 v)]"

definition bytes64 :: "u64 \<Rightarrow> u8 list" where
  "bytes64 v = map (\<lambda>i. ucast (drop_bit (8 * i) v)) [0..<8]"

text \<open>The fields of the boot sector that are used, at their offsets in the packed structure.\<close>

record Fat16Header =
  hdr_bytes_per_sector :: u16
  hdr_sectors_per_cluster :: u8
  hdr_reserved_sectors :: u16
  hdr_file_allocation_tables_count :: u8
  hdr_number_of_root_directory_entries :: u16
  hdr_number_of_sectors :: u16
  hdr_number_of_sectors_per_fat :: u16
  hdr_large_sector_count :: u32
  hdr_signature :: u8
  hdr_bootable_partition_signature :: u16

definition decode_header :: "u8 list \<Rightarrow> Fat16Header" where
  "decode_header bs = \<lparr>
     hdr_bytes_per_sector = le16 (drop 11 bs), hdr_sectors_per_cluster = bs ! 13, hdr_reserved_sectors = le16 (drop 14 bs),
     hdr_file_allocation_tables_count = bs ! 16, hdr_number_of_root_directory_entries = le16 (drop 17 bs),
     hdr_number_of_sectors = le16 (drop 19 bs), hdr_number_of_sectors_per_fat = le16 (drop 22 bs),
     hdr_large_sector_count = le32 (drop 32 bs), hdr_signature = bs ! 38,
     hdr_bootable_partition_signature = le16 (drop 510 bs)\<rparr>"

abbreviation FILE_ATTRIBUTES_RO :: u8 where "FILE_ATTRIBUTES_RO \<equiv> 0x1"
abbreviation FILE_ATTRIBUTES_HIDDEN :: u8 where "FILE_ATTRIBUTES_HIDDEN \<equiv> 0x2"
abbreviation FILE_ATTRIBUTES_SYSTEM :: u8 where "FILE_ATTRIBUTES_SYSTEM \<equiv> 0x4"
abbreviation FILE_ATTRIBUTES_VOLUMEID :: u8 where "FILE_ATTRIBUTES_VOLUMEID \<equiv> 0x8"
abbreviation FILE_ATTRIBUTES_DIRECTORY :: u8 where "FILE_ATTRIBUTES_DIRECTORY \<equiv> 0x10"
abbreviation FILE_ATTRIBUTES_LFN :: u8 where "FILE_ATTRIBUTES_LFN \<equiv> 0x0F"

text \<open>Times and dates are kept as their 16 bits.\<close>

record Fat16DirectoryEntry =
  de_filename :: "u8 list"
  de_attributes :: u8
  de_reserved :: u8
  de_creation_time_hundredths :: u8
  de_creation_time :: u16
  de_creation_date :: u16
  de_access_date :: u16
  de_zero :: u16
  de_modification_time :: u16
  de_modification_date :: u16
  de_cluster_number :: u16
  de_file_size_bytes :: u32

abbreviation DIRENT_SIZE :: nat where "DIRENT_SIZE \<equiv> 32"

definition decode_entry :: "u8 list \<Rightarrow> Fat16DirectoryEntry" where
  "decode_entry bs = \<lparr>
     de_filename = take 11 bs, de_attributes = bs ! 11, de_reserved = bs ! 12, de_creation_time_hundredths = bs ! 13,
     de_creation_time = le16 (drop 14 bs), de_creation_date = le16 (drop 16 bs), de_access_date = le16 (drop 18 bs),
     de_zero = le16 (drop 20 bs), de_modification_time = le16 (drop 22 bs), de_modification_date = le16 (drop 24 bs),
     de_cluster_number = le16 (drop 26 bs), de_file_size_bytes = le32 (drop 28 bs)\<rparr>"

definition encode_entry :: "Fat16DirectoryEntry \<Rightarrow> u8 list" where
  "encode_entry e = de_filename e @ [de_attributes e, de_reserved e, de_creation_time_hundredths e]
     @ bytes16 (de_creation_time e) @ bytes16 (de_creation_date e) @ bytes16 (de_access_date e) @ bytes16 (de_zero e)
     @ bytes16 (de_modification_time e) @ bytes16 (de_modification_date e) @ bytes16 (de_cluster_number e)
     @ bytes32 (de_file_size_bytes e)"

definition zero_entry :: Fat16DirectoryEntry where
  "zero_entry = \<lparr>de_filename = replicate 11 0, de_attributes = 0, de_reserved = 0, de_creation_time_hundredths = 0,
     de_creation_time = 0, de_creation_date = 0, de_access_date = 0, de_zero = 0, de_modification_time = 0,
     de_modification_date = 0, de_cluster_number = 0, de_file_size_bytes = 0\<rparr>"

abbreviation CHARS_PER_LFN :: nat where "CHARS_PER_LFN \<equiv> 13"
abbreviation MAX_PATH_LEN :: nat where "MAX_PATH_LEN \<equiv> 256"

record Fat16LFNEntry =
  lfn_sequence_number :: u8
  lfn_is_last_in_sequence :: bool
  lfn_unicode_name_1 :: "u16 list"
  lfn_attributes :: u8
  lfn_zero_a :: u8
  lfn_checksum :: u8
  lfn_unicode_name_2 :: "u16 list"
  lfn_zero_b :: u16
  lfn_unicode_name_3 :: "u16 list"

definition units :: "nat \<Rightarrow> u8 list \<Rightarrow> u16 list" where
  "units n bs = map (\<lambda>i. le16 (drop (2 * i) bs)) [0..<n]"

text \<open>The sequence number is a 6-bit field and the flag is the bit above it.\<close>

definition decode_lfn :: "u8 list \<Rightarrow> Fat16LFNEntry" where
  "decode_lfn bs = \<lparr>
     lfn_sequence_number = bs ! 0 AND 0x3F, lfn_is_last_in_sequence = bit (bs ! 0) 6, lfn_unicode_name_1 = units 5 (drop 1 bs),
     lfn_attributes = bs ! 11, lfn_zero_a = bs ! 12, lfn_checksum = bs ! 13, lfn_unicode_name_2 = units 6 (drop 14 bs),
     lfn_zero_b = le16 (drop 26 bs), lfn_unicode_name_3 = units 2 (drop 28 bs)\<rparr>"

definition encode_lfn :: "Fat16LFNEntry \<Rightarrow> u8 list" where
  "encode_lfn e = [(lfn_sequence_number e AND 0x3F) OR (if lfn_is_last_in_sequence e then 0x40 else 0)]
     @ concat (map bytes16 (lfn_unicode_name_1 e)) @ [lfn_attributes e, lfn_zero_a e, lfn_checksum e]
     @ concat (map bytes16 (lfn_unicode_name_2 e)) @ bytes16 (lfn_zero_b e) @ concat (map bytes16 (lfn_unicode_name_3 e))"

definition S_ISDIR :: "u32 \<Rightarrow> bool" where
  "S_ISDIR m \<longleftrightarrow> m AND S_IFMT = S_IFDIR"

definition S_ISREG :: "u32 \<Rightarrow> bool" where
  "S_ISREG m \<longleftrightarrow> m AND S_IFMT = S_IFREG"

definition read_fat_mode :: "u8 \<Rightarrow> u32 result" where
  "read_fat_mode attributes =
     (if attributes AND FILE_ATTRIBUTES_RO \<noteq> 0 \<or> attributes AND FILE_ATTRIBUTES_HIDDEN \<noteq> 0
         \<or> attributes AND FILE_ATTRIBUTES_SYSTEM \<noteq> 0 \<or> attributes AND FILE_ATTRIBUTES_VOLUMEID \<noteq> 0 then Inl HCF
      else if attributes AND FILE_ATTRIBUTES_DIRECTORY \<noteq> 0 then Inr S_IFDIR else Inr S_IFREG)"

definition create_fat_mode :: "u32 \<Rightarrow> u8 result" where
  "create_fat_mode mode =
     (if S_ISDIR mode then Inr FILE_ATTRIBUTES_DIRECTORY else if S_ISREG mode then Inr 0 else Inl HCF)"

definition checksum :: "u8 list \<Rightarrow> u8" where
  "checksum data = foldl (\<lambda>val x. (if val AND 1 \<noteq> 0 then 0x80 else 0) + drop_bit 1 val + x) 0 data"

section \<open>Inode numbers\<close>

abbreviation PARENT_IS_ROOT_DIR :: u16 where "PARENT_IS_ROOT_DIR \<equiv> 0"
abbreviation I_AM_ROOT_DIR :: u16 where "I_AM_ROOT_DIR \<equiv> 1"

definition get_parent_cluster_num :: "u64 \<Rightarrow> u16" where
  "get_parent_cluster_num inode_num = ucast (inode_num AND 0xFFFF)"

definition get_dirent_index_in_parent :: "u64 \<Rightarrow> u16" where
  "get_dirent_index_in_parent inode_num = ucast (drop_bit 16 inode_num AND 0xFFFF)"

text \<open>The shift is done at type \<open>int\<close>: an entry number of \<open>2 ^ 15\<close> or more does not fit.\<close>

definition make_inode :: "u16 \<Rightarrow> u16 \<Rightarrow> u64 result" where
  "make_inode parent_cluster_number parent_dirent_number =
     (if parent_cluster_number = I_AM_ROOT_DIR \<and> parent_dirent_number \<noteq> 0 then Inl HCF
      else if unat parent_dirent_number \<ge> 2 ^ 15 then Inl SignedOverflow
      else Inr (ucast parent_cluster_number OR push_bit 16 (ucast parent_dirent_number)))"

section \<open>Volumes\<close>

abbreviation MAX_FAT_MOUNTS :: nat where "MAX_FAT_MOUNTS \<equiv> 10"

record 'd Fat16Volume =
  fv_block_device :: "'d VNode"
  fv_fats_start_sector :: u16
  fv_number_of_fats :: u8
  fv_number_of_sectors_per_fat :: u16
  fv_bytes_per_sector :: u16
  fv_sectors_per_cluster :: u8
  fv_number_of_sectors_root_directory :: u16

definition c_int :: "nat \<Rightarrow> u64 result" where
  "c_int n = (if n < 2 ^ 31 then Inr (of_nat n) else Inl SignedOverflow)"

lemma c_int_eq_Inr: "c_int n = Inr w \<Longrightarrow> unat w = n \<and> n < 2 ^ 31"
  by (auto simp: c_int_def unat_of_nat take_bit_nat_eq_self split: if_splits)

definition calculate_data_section_start :: "'d Fat16Volume \<Rightarrow> u64 result" where
  "calculate_data_section_start vol =
     (let sector = (of_nat (unat (fv_fats_start_sector vol) + unat (fv_number_of_fats vol) * unat (fv_number_of_sectors_per_fat vol)
                      + unat (fv_number_of_sectors_root_directory vol)) :: u16)
      in c_int (unat sector * unat (fv_bytes_per_sector vol)))"

definition is_invalid_cluster_num :: "u16 \<Rightarrow> bool" where
  "is_invalid_cluster_num n \<longleftrightarrow> n < 2 \<or> n \<ge> 0xFFF7"

definition is_free_cluster_num :: "u16 \<Rightarrow> bool" where
  "is_free_cluster_num n \<longleftrightarrow> n < 2"

definition is_end_of_ll_num :: "u16 \<Rightarrow> bool" where
  "is_end_of_ll_num n \<longleftrightarrow> n \<ge> 0xFFF8"

text \<open>A read of exactly \<open>n\<close> bytes of the device, and a write.\<close>

definition dev_get :: "'d Fat16Volume \<Rightarrow> u64 \<Rightarrow> nat \<Rightarrow> 'd \<Rightarrow> (u8 list \<times> 'd) result" where
  "dev_get vol off n =
     sbind (vn_read_file (fv_block_device vol) (vn_id (fv_block_device vol)) off n)
       (\<lambda>bs. if length bs = n then sret bs else sfail WildAccess)"

definition dev_put :: "'d Fat16Volume \<Rightarrow> u64 \<Rightarrow> u8 list \<Rightarrow> 'd \<Rightarrow> (unit \<times> 'd) result" where
  "dev_put vol off xs = sbind (vn_write_file (fv_block_device vol) (vn_id (fv_block_device vol)) off xs) (\<lambda>_. sret ())"

definition fat_entry_offset :: "'d Fat16Volume \<Rightarrow> u16 \<Rightarrow> u64 result" where
  "fat_entry_offset vol cluster_number =
     c_int (unat (fv_fats_start_sector vol) * unat (fv_bytes_per_sector vol) + 2 * unat cluster_number)"

definition read_fat :: "'d Fat16Volume \<Rightarrow> u16 \<Rightarrow> 'd \<Rightarrow> (u16 \<times> 'd) result" where
  "read_fat vol cluster_number =
     (if is_invalid_cluster_num cluster_number then sfail HCF
      else sbind (slift (fat_entry_offset vol cluster_number)) (\<lambda>off.
           sbind (dev_get vol off 2) (\<lambda>bs. sret (le16 bs))))"

definition write_fat :: "'d Fat16Volume \<Rightarrow> u16 \<Rightarrow> u16 \<Rightarrow> 'd \<Rightarrow> (unit \<times> 'd) result" where
  "write_fat vol cluster_number value =
     (if is_invalid_cluster_num cluster_number then sfail HCF
      else sbind (slift (fat_entry_offset vol cluster_number)) (\<lambda>off. dev_put vol off (bytes16 value)))"

fun first_free :: "'d Fat16Volume \<Rightarrow> u16 list \<Rightarrow> 'd \<Rightarrow> (u16 \<times> 'd) result" where
  "first_free vol [] = sfail HCF"
| "first_free vol (i # is) = sbind (read_fat vol i) (\<lambda>v. if is_free_cluster_num v then sret i else first_free vol is)"

definition find_free_cluster_number :: "'d Fat16Volume \<Rightarrow> 'd \<Rightarrow> (u16 \<times> 'd) result" where
  "find_free_cluster_number vol =
     sbind (slift (c_int (unat (fv_number_of_sectors_per_fat vol) * unat (fv_bytes_per_sector vol)))) (\<lambda>len.
       let num_clusters = (ucast (len div 2) :: u16)
       in first_free vol (map of_nat [2..<unat num_clusters]))"

text \<open>The checks of both root directory accesses, and the byte address they compute.\<close>

definition root_dir_address :: "'d Fat16Volume \<Rightarrow> u64 \<Rightarrow> u64 \<Rightarrow> u64 result" where
  "root_dir_address vol requested_offset num_bytes =
     (if requested_offset mod 32 \<noteq> 0 then Inl HCF
      else if num_bytes mod 32 \<noteq> 0 then Inl HCF
      else rbind (c_int ((unat (fv_fats_start_sector vol) + unat (fv_number_of_sectors_per_fat vol) * unat (fv_number_of_fats vol))
                         * unat (fv_bytes_per_sector vol))) (\<lambda>root_dir_start_byte.
           rbind (c_int (unat (fv_number_of_sectors_root_directory vol) * unat (fv_bytes_per_sector vol))) (\<lambda>size.
           if requested_offset + num_bytes \<ge> size then Inl HCF
           else Inr (root_dir_start_byte + requested_offset))))"

definition write_to_root_dir :: "'d Fat16Volume \<Rightarrow> u64 \<Rightarrow> u8 list \<Rightarrow> 'd \<Rightarrow> (unit \<times> 'd) result" where
  "write_to_root_dir vol requested_offset input_buf =
     sbind (slift (root_dir_address vol requested_offset (of_nat (length input_buf)))) (\<lambda>a. dev_put vol a input_buf)"

definition read_from_root_dir :: "'d Fat16Volume \<Rightarrow> u64 \<Rightarrow> u64 \<Rightarrow> 'd \<Rightarrow> (u8 list \<times> 'd) result" where
  "read_from_root_dir vol requested_offset num_bytes =
     sbind (slift (root_dir_address vol requested_offset num_bytes)) (\<lambda>a. dev_get vol a (unat num_bytes))"

section \<open>Cluster chains\<close>

definition bytes_per_cluster :: "'d Fat16Volume \<Rightarrow> nat" where
  "bytes_per_cluster vol = unat (fv_bytes_per_sector vol) * unat (fv_sectors_per_cluster vol)"

text \<open>The address in cluster number \<open>i\<close> of the chain, and how many bytes follow it in that cluster.\<close>

definition cluster_window :: "'d Fat16Volume \<Rightarrow> u64 \<Rightarrow> nat \<Rightarrow> u16 \<Rightarrow> (u64 \<times> nat) result" where
  "cluster_window vol requested_offset i cluster_number =
     (let bpc = bytes_per_cluster vol;
          required_cluster_number = unat requested_offset div bpc;
          required_offset_in_first_cluster = unat requested_offset mod bpc
      in rbind (calculate_data_section_start vol) (\<lambda>start.
         let src_addr = start + of_nat bpc * (ucast cluster_number - 2)
         in if i = required_cluster_number
            then Inr (src_addr + of_nat required_offset_in_first_cluster, bpc - required_offset_in_first_cluster)
            else Inr (src_addr, bpc)))"

text \<open>One iteration of the write loop: the transfer, if the cluster is one to write to, with the input that is left,
  and then the step to the next cluster.\<close>

definition write_cluster :: "'d Fat16Volume \<Rightarrow> u64 \<Rightarrow> nat \<Rightarrow> u16 \<Rightarrow> u8 list \<Rightarrow> 'd \<Rightarrow> (u8 list \<times> 'd) result" where
  "write_cluster vol requested_offset i cluster_number input_buf =
     (if i \<ge> unat requested_offset div bytes_per_cluster vol
      then sbind (slift (cluster_window vol requested_offset i cluster_number)) (\<lambda>(src_addr, available).
           sbind (dev_put vol src_addr (take available input_buf)) (\<lambda>_. sret (drop available input_buf)))
      else sret input_buf)"

definition write_chain_step :: "'d Fat16Volume \<Rightarrow> u64 \<Rightarrow> nat \<Rightarrow> u16 \<Rightarrow> u8 list \<Rightarrow> 'd \<Rightarrow> ((u8 list \<times> u16) \<times> 'd) result" where
  "write_chain_step vol requested_offset i cluster_number input_buf =
     sbind (write_cluster vol requested_offset i cluster_number input_buf) (\<lambda>rest.
     sbind (read_fat vol cluster_number) (\<lambda>next_cluster_number.
     if is_end_of_ll_num next_cluster_number
     then sbind (find_free_cluster_number vol) (\<lambda>new.
          sbind (write_fat vol new 0xFFF8) (\<lambda>_.
          sbind (write_fat vol cluster_number new) (\<lambda>_. sret (rest, new))))
     else sret (rest, next_cluster_number)))"

definition read_chain_step :: "'d Fat16Volume \<Rightarrow> u64 \<Rightarrow> nat \<Rightarrow> u16 \<Rightarrow> nat \<Rightarrow> 'd \<Rightarrow> ((u8 list \<times> u16) \<times> 'd) result" where
  "read_chain_step vol requested_offset i cluster_number num_bytes =
     sbind (if i \<ge> unat requested_offset div bytes_per_cluster vol
            then sbind (slift (cluster_window vol requested_offset i cluster_number)) (\<lambda>(src_addr, available).
                 dev_get vol src_addr (min num_bytes available))
            else sret []) (\<lambda>bs.
     sbind (read_fat vol cluster_number) (\<lambda>next. sret (bs, next)))"

lemma cluster_window_room:
  "cluster_window vol off i c = Inr (a, n) \<Longrightarrow> 0 < bytes_per_cluster vol \<Longrightarrow> 0 < n"
  by (auto simp: cluster_window_def Let_def rbind_eq_Inr_iff split: if_splits)

lemma write_chain_step_shrinks:
  assumes "write_chain_step vol off i c xs d = Inr ((rest, next'), d')" and "0 < bytes_per_cluster vol" and "xs \<noteq> []"
  shows "if i < unat off div bytes_per_cluster vol then rest = xs else length rest < length xs"
  using assms cluster_window_room [of vol off i c]
  by (fastforce simp: write_chain_step_def write_cluster_def sbind_eq_Inr_iff slift_def rbind_eq_Inr_iff split: if_splits)

lemma read_chain_step_grows:
  assumes "read_chain_step vol off i c n d = Inr ((bs, next'), d')" and "0 < bytes_per_cluster vol" and "0 < n"
  shows "if i < unat off div bytes_per_cluster vol then bs = [] else bs \<noteq> []"
  using assms cluster_window_room [of vol off i c]
  by (fastforce simp: read_chain_step_def dev_get_def sbind_eq_Inr_iff slift_def rbind_eq_Inr_iff split: if_splits)

text \<open>Every iteration either skips a cluster or transfers at least one byte, so both loops end.\<close>

function write_chain :: "'d Fat16Volume \<Rightarrow> u64 \<Rightarrow> nat \<Rightarrow> u16 \<Rightarrow> u8 list \<Rightarrow> 'd \<Rightarrow> (unit \<times> 'd) result" where
  "write_chain vol requested_offset i cluster_number input_buf d =
     (if bytes_per_cluster vol = 0 then Inl DivideByZero
      else if input_buf = [] then Inr ((), d)
      else rbind (write_chain_step vol requested_offset i cluster_number input_buf d) (\<lambda>((rest, next), d').
           write_chain vol requested_offset (Suc i) next rest d'))"
  by pat_completeness auto
termination
proof (relation "measure (\<lambda>(vol, off, i, c, xs, d). (unat off div bytes_per_cluster vol - i) + length xs)", simp, goal_cases)
  case (1 vol off i c xs d x y d' rest n)
  then show ?case using write_chain_step_shrinks [of vol off i c xs d rest n d'] by (auto split: if_splits)
qed

function read_chain :: "'d Fat16Volume \<Rightarrow> u64 \<Rightarrow> nat \<Rightarrow> u16 \<Rightarrow> nat \<Rightarrow> 'd \<Rightarrow> (u8 list \<times> 'd) result" where
  "read_chain vol requested_offset i cluster_number num_bytes d =
     (if bytes_per_cluster vol = 0 then Inl DivideByZero
      else if num_bytes = 0 then Inr ([], d)
      else rbind (read_chain_step vol requested_offset i cluster_number num_bytes d) (\<lambda>((bs, next), d').
           rbind (read_chain vol requested_offset (Suc i) next (num_bytes - length bs) d') (\<lambda>(rest, d'').
           Inr (bs @ rest, d''))))"
  by pat_completeness auto
termination
proof (relation "measure (\<lambda>(vol, off, i, c, n, d). (unat off div bytes_per_cluster vol - i) + n)", simp, goal_cases)
  case (1 vol off i c n d x y d' bs n')
  then show ?case using read_chain_step_grows [of vol off i c n d bs n' d'] by (auto split: if_splits)
qed

declare write_chain.simps [simp del] read_chain.simps [simp del]

definition write_to_cluster_chain :: "'d Fat16Volume \<Rightarrow> u16 \<Rightarrow> u64 \<Rightarrow> u8 list \<Rightarrow> 'd \<Rightarrow> (unit \<times> 'd) result" where
  "write_to_cluster_chain vol cluster_number requested_offset input_buf =
     (if bytes_per_cluster vol = 0 then sfail DivideByZero
      else if is_invalid_cluster_num cluster_number then sfail HCF
      else write_chain vol requested_offset 0 cluster_number input_buf)"

definition read_from_cluster_chain :: "'d Fat16Volume \<Rightarrow> u16 \<Rightarrow> u64 \<Rightarrow> u64 \<Rightarrow> 'd \<Rightarrow> (u8 list \<times> 'd) result" where
  "read_from_cluster_chain vol cluster_number requested_offset num_bytes =
     (if bytes_per_cluster vol = 0 then sfail DivideByZero
      else if num_bytes = 0 then sret []
      else if is_invalid_cluster_num cluster_number then sfail HCF
      else read_chain vol requested_offset 0 cluster_number (unat num_bytes))"

section \<open>Directory entries\<close>

definition read_parent_dirent :: "'d Fat16Volume \<Rightarrow> u64 \<Rightarrow> 'd \<Rightarrow> (Fat16DirectoryEntry \<times> 'd) result" where
  "read_parent_dirent vol inode_num =
     (let parent_cluster_num = get_parent_cluster_num inode_num;
          offset = of_nat (unat (get_dirent_index_in_parent inode_num) * DIRENT_SIZE)
      in if parent_cluster_num = I_AM_ROOT_DIR then sfail HCF
         else sbind (if parent_cluster_num = PARENT_IS_ROOT_DIR then read_from_root_dir vol offset 32
                     else read_from_cluster_chain vol parent_cluster_num offset 32) (\<lambda>bs. sret (decode_entry bs)))"

definition write_parent_dirent :: "'d Fat16Volume \<Rightarrow> u64 \<Rightarrow> Fat16DirectoryEntry \<Rightarrow> 'd \<Rightarrow> (unit \<times> 'd) result" where
  "write_parent_dirent vol inode_num value =
     (let parent_cluster_num = get_parent_cluster_num inode_num;
          offset = of_nat (unat (get_dirent_index_in_parent inode_num) * DIRENT_SIZE)
      in if parent_cluster_num = I_AM_ROOT_DIR then sfail HCF
         else if parent_cluster_num = PARENT_IS_ROOT_DIR then write_to_root_dir vol offset (encode_entry value)
         else write_to_cluster_chain vol parent_cluster_num offset (encode_entry value))"

text \<open>Entries \<open>directory_i\<close> and following of a directory, \<open>n\<close> of them.\<close>

definition read_entries :: "'d Fat16Volume \<Rightarrow> u16 \<Rightarrow> nat \<Rightarrow> nat \<Rightarrow> 'd \<Rightarrow> (u8 list \<times> 'd) result" where
  "read_entries vol cluster_number directory_i n =
     (if cluster_number = PARENT_IS_ROOT_DIR
      then read_from_root_dir vol (of_nat (directory_i * DIRENT_SIZE)) (of_nat (n * DIRENT_SIZE))
      else read_from_cluster_chain vol cluster_number (of_nat (directory_i * DIRENT_SIZE)) (of_nat (n * DIRENT_SIZE)))"

text \<open>The name under construction is the position \<open>cur\<close> in the 256-byte buffer, and the buffer.\<close>

fun copy_units :: "u16 list \<Rightarrow> nat \<times> u8 list \<times> bool \<Rightarrow> (nat \<times> u8 list \<times> bool) result" where
  "copy_units [] st = Inr st"
| "copy_units (c # cs) (cur, file_name, found_zero) =
     (if found_zero then Inr (cur, file_name, found_zero)
      else if c AND 0xFF00 \<noteq> 0 then Inl HCF
      else if cur \<ge> MAX_PATH_LEN then Inl WildAccess
      else copy_units cs (Suc cur, file_name[cur := ucast c], c = 0))"

definition copy_lfn :: "Fat16LFNEntry \<Rightarrow> nat \<times> u8 list \<Rightarrow> (nat \<times> u8 list) result" where
  "copy_lfn e = (\<lambda>(cur, file_name).
     hcf_unless (lfn_zero_a e = 0 \<and> lfn_zero_b e = 0) (
     hcf_unless (lfn_attributes e = FILE_ATTRIBUTES_LFN) (
     rbind (copy_units (lfn_unicode_name_1 e) (cur, file_name, False)) (\<lambda>st1.
     rbind (copy_units (lfn_unicode_name_2 e) st1) (\<lambda>st2.
     rbind (copy_units (lfn_unicode_name_3 e) st2) (\<lambda>(cur', file_name', _).
     Inr (cur', file_name')))))))"

text \<open>\<open>long_file_names\<close> has room for 20 entries; they are visited from the last to the first.\<close>

definition lfn_name :: "nat \<Rightarrow> u8 list \<Rightarrow> u8 list \<Rightarrow> u8 list result" where
  "lfn_name lfn_entries raw file_name =
     (if lfn_entries > 20 then Inl WildAccess
      else rbind (rfold copy_lfn (map (\<lambda>k. decode_lfn (take DIRENT_SIZE (drop (k * DIRENT_SIZE) raw))) (rev [0..<lfn_entries])) (0, file_name))
             (\<lambda>(_, file_name'). Inr file_name'))"

text \<open>\<open>tolower\<close> on a \<open>char\<close>, which is signed.\<close>

definition lower_char :: "u8 \<Rightarrow> u8" where
  "lower_char c = word_of_int (tolower (sint c))"

definition short_name :: "u8 list \<Rightarrow> u8 list \<Rightarrow> u8 list" where
  "short_name filename file_name =
     (let name = map lower_char (takeWhile (\<lambda>c. c \<noteq> 32) (take 8 filename))
                 @ (if filename ! 8 \<noteq> 32 then [46] else [])
                 @ map lower_char (takeWhile (\<lambda>c. c \<noteq> 32) (drop 8 filename))
      in name @ drop (length name) file_name)"

record dirent =
  d_ino :: u64
  d_name :: "u8 list"

text \<open>\<open>strcpy\<close> of the name into a cleared \<open>d_name\<close>.\<close>

definition copy_name :: "u8 list \<Rightarrow> u8 list result" where
  "copy_name file_name =
     (if 0 \<notin> set file_name then Inl WildAccess
      else let s = takeWhile (\<lambda>c. c \<noteq> 0) file_name in Inr (s @ replicate (MAX_PATH_LEN - length s) 0))"

text \<open>The arguments \<open>dirent_buf\<close> and \<open>vnode_buf\<close> say which of the two buffers is not null; the result is the
  entries that were stored in each and the return value.\<close>

record dirents_state =
  rs_directory_i :: nat
  rs_file_name :: "u8 list"
  rs_entries_read :: nat
  rs_entries_written :: nat
  rs_dirents :: "dirent list"
  rs_vnodes :: "VNodeData list"

definition emit_entry :: "u64 \<Rightarrow> u16 \<Rightarrow> bool \<Rightarrow> bool \<Rightarrow> dirents_state \<Rightarrow> dirents_state result" where
  "emit_entry mount_id cluster_number dirent_buf vnode_buf st =
     (let ino = make_inode cluster_number (of_nat (rs_directory_i st)) in
      rbind (if dirent_buf then rbind ino (\<lambda>n. rbind (copy_name (rs_file_name st)) (\<lambda>s. Inr [\<lparr>d_ino = n, d_name = s\<rparr>])) else Inr []) (\<lambda>ds.
      rbind (if vnode_buf then rbind ino (\<lambda>n. Inr [\<lparr>vd_inode = n, vd_mount_id = mount_id\<rparr>]) else Inr []) (\<lambda>vs.
      Inr (st\<lparr>rs_entries_written := Suc (rs_entries_written st), rs_dirents := rs_dirents st @ ds, rs_vnodes := rs_vnodes st @ vs\<rparr>))))"

fun read_dirents_loop :: "nat \<Rightarrow> 'd Fat16Volume \<Rightarrow> u64 \<Rightarrow> u16 \<Rightarrow> nat \<Rightarrow> bool \<Rightarrow> bool \<Rightarrow> nat \<Rightarrow> dirents_state \<Rightarrow> 'd \<Rightarrow> (dirents_state \<times> 'd) result" where
  "read_dirents_loop 0 vol mount_id cluster_number dirent_index dirent_buf vnode_buf dirent_count st = sfail Diverged"
| "read_dirents_loop (Suc fuel) vol mount_id cluster_number dirent_index dirent_buf vnode_buf dirent_count st =
     sbind (read_entries vol cluster_number (rs_directory_i st) 1) (\<lambda>bs.
     let ent = decode_entry bs in
     if de_attributes ent AND 0xC0 \<noteq> 0 then sfail HCF
     else if de_filename ent ! 0 = 0 then sret st
     else if de_filename ent ! 0 = 0xE5
     then read_dirents_loop fuel vol mount_id cluster_number dirent_index dirent_buf vnode_buf dirent_count st
     else if de_attributes ent = FILE_ATTRIBUTES_LFN
     then if rs_file_name st ! 0 \<noteq> 0 then sfail HCF
          else let lfn_entries = unat (lfn_sequence_number (decode_lfn bs)) in
               sbind (read_entries vol cluster_number (rs_directory_i st) lfn_entries) (\<lambda>raw.
               sbind (slift (lfn_name lfn_entries raw (rs_file_name st))) (\<lambda>name.
               read_dirents_loop fuel vol mount_id cluster_number dirent_index dirent_buf vnode_buf dirent_count
                 (st\<lparr>rs_directory_i := rs_directory_i st + lfn_entries, rs_file_name := name\<rparr>)))
     else if de_zero ent \<noteq> 0 then sfail HCF
     else let name = (if rs_file_name st ! 0 = 0 then short_name (de_filename ent) (rs_file_name st) else rs_file_name st);
              st1 = st\<lparr>rs_file_name := name, rs_entries_read := Suc (rs_entries_read st)\<rparr>
          in if rs_entries_read st1 > dirent_index \<and> rs_entries_written st1 \<ge> dirent_count then sret st1
             else sbind (slift (if rs_entries_read st1 > dirent_index then emit_entry mount_id cluster_number dirent_buf vnode_buf st1 else Inr st1)) (\<lambda>st2.
               read_dirents_loop fuel vol mount_id cluster_number dirent_index dirent_buf vnode_buf dirent_count
                 (st2\<lparr>rs_file_name := replicate 256 0, rs_directory_i := Suc (rs_directory_i st2)\<rparr>)))"

section \<open>Operations of a mounted volume\<close>

text \<open>The static variables of the file, and the state of the block devices.\<close>

record 'd fatfs =
  fat_mounts :: "'d Fat16Volume list"
  fat_create_idx :: u32
  fat_dev :: 'd

definition on_dev :: "('d \<Rightarrow> ('a \<times> 'd) result) \<Rightarrow> 'd fatfs \<Rightarrow> ('a \<times> 'd fatfs) result" where
  "on_dev m fs = rbind (m (fat_dev fs)) (\<lambda>(x, d). Inr (x, fs\<lparr>fat_dev := d\<rparr>))"

definition get_volume :: "u64 \<Rightarrow> 'd fatfs \<Rightarrow> ('d Fat16Volume \<times> 'd fatfs) result" where
  "get_volume mount_id fs =
     (if unat mount_id < length (fat_mounts fs) then Inr (fat_mounts fs ! unat mount_id, fs) else Inl WildAccess)"

definition read_dirents :: "nat \<Rightarrow> VNodeData \<Rightarrow> nat \<Rightarrow> bool \<Rightarrow> bool \<Rightarrow> nat \<Rightarrow> 'd fatfs \<Rightarrow> (dirents_state \<times> 'd fatfs) result" where
  "read_dirents fuel inode_num dirent_index dirent_buf vnode_buf dirent_count =
     sbind (get_volume (vd_mount_id inode_num)) (\<lambda>vol.
     sbind (if get_parent_cluster_num (vd_inode inode_num) = I_AM_ROOT_DIR then sret PARENT_IS_ROOT_DIR
            else sbind (on_dev (read_parent_dirent vol (vd_inode inode_num))) (\<lambda>e. sret (de_cluster_number e))) (\<lambda>cluster_number.
     on_dev (read_dirents_loop fuel vol (vd_mount_id inode_num) cluster_number dirent_index dirent_buf vnode_buf dirent_count
       \<lparr>rs_directory_i = 0, rs_file_name = replicate 256 0, rs_entries_read = 0, rs_entries_written = 0, rs_dirents = [], rs_vnodes = []\<rparr>)))"

definition stat_file :: "VNodeData \<Rightarrow> 'd fatfs \<Rightarrow> (stat \<times> 'd fatfs) result" where
  "stat_file inode_num =
     sbind (get_volume (vd_mount_id inode_num)) (\<lambda>vol.
     if get_parent_cluster_num (vd_inode inode_num) = I_AM_ROOT_DIR
     then sbind (slift (c_int (unat (fv_number_of_sectors_root_directory vol) * unat (fv_bytes_per_sector vol)))) (\<lambda>size.
          sret \<lparr>st_ino = vd_inode inode_num, st_mode = S_IFDIR, st_size = size\<rparr>)
     else sbind (on_dev (read_parent_dirent vol (vd_inode inode_num))) (\<lambda>entry_in_parent.
          sbind (slift (read_fat_mode (de_attributes entry_in_parent))) (\<lambda>mode.
          sret \<lparr>st_ino = vd_inode inode_num, st_mode = mode, st_size = ucast (de_file_size_bytes entry_in_parent)\<rparr>)))"

text \<open>The 272 bytes of \<open>struct dirent\<close>: the number, a type that is never set, the name and the padding.\<close>

definition encode_dirent :: "dirent \<Rightarrow> u8 list" where
  "encode_dirent d = bytes64 (d_ino d) @ [0] @ d_name d @ replicate 7 0"

text \<open>The bytes that were stored from the start of \<open>output_buf\<close>.\<close>

definition read_file :: "nat \<Rightarrow> VNodeData \<Rightarrow> u64 \<Rightarrow> u64 \<Rightarrow> 'd fatfs \<Rightarrow> (u8 list \<times> 'd fatfs) result" where
  "read_file fuel inode_num offset num_bytes =
     sbind (stat_file inode_num) (\<lambda>st.
     if S_ISDIR (st_mode st)
     then if offset mod 272 \<noteq> 0 then sfail HCF
          else if num_bytes mod 272 \<noteq> 0 then sfail HCF
          else sbind (read_dirents fuel inode_num (unat (offset div 272)) True False (unat (num_bytes div 272))) (\<lambda>rs.
               sret (concat (map encode_dirent (rs_dirents rs))))
     else sbind (get_volume (vd_mount_id inode_num)) (\<lambda>vol.
          sbind (on_dev (read_parent_dirent vol (vd_inode inode_num))) (\<lambda>entry_in_parent.
          let size = ucast (de_file_size_bytes entry_in_parent) :: u64;
              n = (if offset + num_bytes > size then size - offset else num_bytes)
          in on_dev (read_from_cluster_chain vol (de_cluster_number entry_in_parent) offset n))))"

text \<open>The code that \<open>write_file\<close> and \<open>ftruncate\<close> share: a file without clusters gets its first one.\<close>

definition ensure_first_cluster :: "'d Fat16Volume \<Rightarrow> Fat16DirectoryEntry \<Rightarrow> 'd \<Rightarrow> (Fat16DirectoryEntry \<times> 'd) result" where
  "ensure_first_cluster vol e =
     (if is_invalid_cluster_num (de_cluster_number e)
      then sbind (find_free_cluster_number vol) (\<lambda>first_cluster.
           sbind (write_fat vol first_cluster 0xFFF8) (\<lambda>_. sret (e\<lparr>de_cluster_number := first_cluster\<rparr>)))
      else sret e)"

abbreviation UINT32_MAX :: u64 where "UINT32_MAX \<equiv> 0xFFFFFFFF"

definition write_file :: "VNodeData \<Rightarrow> u64 \<Rightarrow> u8 list \<Rightarrow> 'd fatfs \<Rightarrow> (nat \<times> 'd fatfs) result" where
  "write_file inode_num offset input_buf =
     sbind (get_volume (vd_mount_id inode_num)) (\<lambda>vol.
     sbind (stat_file inode_num) (\<lambda>st.
     if S_ISDIR (st_mode st) then sfail HCF
     else sbind (on_dev (read_parent_dirent vol (vd_inode inode_num))) (\<lambda>e0.
          sbind (on_dev (ensure_first_cluster vol e0)) (\<lambda>e1.
          let end_offset = offset + of_nat (length input_buf) in
          sbind (if end_offset > ucast (de_file_size_bytes e1)
                 then if end_offset > UINT32_MAX then sfail HCF else sret (e1\<lparr>de_file_size_bytes := ucast end_offset\<rparr>)
                 else sret e1) (\<lambda>e2.
          sbind (on_dev (write_parent_dirent vol (vd_inode inode_num) e2)) (\<lambda>_.
          sbind (on_dev (write_to_cluster_chain vol (de_cluster_number e2) offset input_buf)) (\<lambda>_.
          sret (length input_buf))))))))"

text \<open>\<open>name\<close> is the string without its terminator; one run fills the next slots and tells what is left.\<close>

fun fill_units :: "nat \<Rightarrow> bool \<Rightarrow> u8 list \<Rightarrow> u16 list \<times> bool \<times> u8 list" where
  "fill_units 0 done name = ([], done, name)"
| "fill_units (Suc n) done name =
     (if done then (replicate (Suc n) 0xFFFF, done, name)
      else let c = (case name of [] \<Rightarrow> 0 | c # _ \<Rightarrow> c); (us, done', rest) = fill_units n (c = 0) (tl name)
           in (scast c # us, done', rest))"

definition make_lfn :: "u8 \<Rightarrow> nat \<Rightarrow> nat \<Rightarrow> u8 list \<Rightarrow> Fat16LFNEntry \<times> u8 list" where
  "make_lfn ck lfn_entry_count seq name =
     (let (us1, done1, name1) = fill_units 5 False name;
          (us2, done2, name2) = fill_units 6 done1 name1;
          (us3, done3, name3) = fill_units 2 done2 name2
      in (\<lparr>lfn_sequence_number = of_nat (lfn_entry_count - seq) AND 0x3F, lfn_is_last_in_sequence = (seq = 1),
           lfn_unicode_name_1 = us1, lfn_attributes = FILE_ATTRIBUTES_LFN, lfn_zero_a = 0, lfn_checksum = ck,
           lfn_unicode_name_2 = us2, lfn_zero_b = 0, lfn_unicode_name_3 = us3\<rparr>, name3))"

text \<open>The loop runs from the last entry to the first; the result is in the order of the entries.\<close>

fun make_lfns :: "u8 \<Rightarrow> nat \<Rightarrow> nat \<Rightarrow> u8 list \<Rightarrow> u8 list" where
  "make_lfns ck lfn_entry_count 0 name = []"
| "make_lfns ck lfn_entry_count (Suc seq) name =
     (let (e, rest) = make_lfn ck lfn_entry_count seq name in make_lfns ck lfn_entry_count seq rest @ encode_lfn e)"

definition short_file_name :: "u32 \<Rightarrow> u8 list" where
  "short_file_name create_idx =
     [82, 69, 65, 68, 95, 76, 70, 78, ucast (65 + create_idx mod 26), ucast (65 + (create_idx div 26) mod 26),
      ucast (65 + ((create_idx div 26) div 26) mod 26)]"

text \<open>The search for the end of the root directory. It halts at the latest at the end of the directory's area.\<close>

lemma root_dir_address_bound:
  assumes "root_dir_address vol off 32 = Inr a"
  shows "unat (off + 32) < 2 ^ 31"
proof -
  obtain size where "c_int (unat (fv_number_of_sectors_root_directory vol) * unat (fv_bytes_per_sector vol)) = Inr size" "off + 32 < size"
    using assms by (auto simp: root_dir_address_def rbind_eq_Inr_iff not_le split: if_splits)
  moreover from this(1) have "unat size < 2 ^ 31"
    using c_int_eq_Inr by auto
  ultimately show ?thesis by (simp add: word_less_nat_alt)
qed

function root_dir_end :: "'d Fat16Volume \<Rightarrow> u64 \<Rightarrow> 'd \<Rightarrow> (u64 \<times> 'd) result" where
  "root_dir_end vol offset d =
     rbind (read_from_root_dir vol offset 32 d) (\<lambda>(bs, d').
     if de_filename (decode_entry bs) ! 0 = 0 then Inr (offset, d') else root_dir_end vol (offset + 32) d')"
  by pat_completeness auto
termination
proof (relation "measure (\<lambda>(vol, off, d). 2 ^ 32 - unat (off + 32))", simp, goal_cases)
  case (1 vol off d x bs d')
  then have "unat (off + 32) < 2 ^ 31"
    using root_dir_address_bound [of vol off] by (auto simp: read_from_root_dir_def sbind_def slift_def rbind_eq_Inr_iff)
  then have "unat (off + 32 + 32) = unat (off + 32) + 32" by (subst unat_add64) simp_all
  with \<open>unat (off + 32) < 2 ^ 31\<close> show ?case by (simp add: add.assoc)
qed

declare root_dir_end.simps [simp del]

text \<open>\<open>entries_to_insert\<close> has room for 65 entries.\<close>

definition create_inode :: "VNodeData \<Rightarrow> u32 \<Rightarrow> u8 list \<Rightarrow> 'd fatfs \<Rightarrow> (nat \<times> 'd fatfs) result" where
  "create_inode parent_inode_num new_inode_type name =
     sbind (get_volume (vd_mount_id parent_inode_num)) (\<lambda>vol.
     sbind (stat_file parent_inode_num) (\<lambda>st.
     if \<not> S_ISDIR (st_mode st) then sfail HCF else
     (\<lambda>fs. let short_name = short_file_name (fat_create_idx fs) in
     ((if length name \<ge> CHARS_PER_LFN * 65 then sfail HCF else
      let lfn_entry_count = (length name + CHARS_PER_LFN) div CHARS_PER_LFN in
      sbind (if S_ISDIR new_inode_type
             then sbind (on_dev (find_free_cluster_number vol)) (\<lambda>cluster_number.
                  sbind (on_dev (write_fat vol cluster_number 0xFFF8)) (\<lambda>_.
                  sbind (on_dev (write_to_cluster_chain vol cluster_number 0 (encode_entry zero_entry))) (\<lambda>_.
                  sret (cluster_number, 32))))
             else sret (0, 0)) (\<lambda>(cluster_number, file_size_bytes).
      sbind (slift (create_fat_mode new_inode_type)) (\<lambda>mode.
      if lfn_entry_count + 1 \<ge> 65 then sfail WildAccess else
      let new_entry = zero_entry\<lparr>de_filename := short_name, de_attributes := mode, de_cluster_number := cluster_number,
                       de_file_size_bytes := file_size_bytes\<rparr>;
          entries_to_insert = make_lfns (checksum short_name) lfn_entry_count lfn_entry_count name
                              @ encode_entry new_entry @ encode_entry zero_entry
      in if vd_inode parent_inode_num = 1
         then sbind (on_dev (root_dir_end vol 0)) (\<lambda>offset.
              sbind (on_dev (write_to_root_dir vol offset entries_to_insert)) (\<lambda>_. sret 0))
         else sbind (on_dev (read_parent_dirent vol (vd_inode parent_inode_num))) (\<lambda>e.
              let offset = de_file_size_bytes e - 32 in
              sbind (on_dev (write_parent_dirent vol (vd_inode parent_inode_num)
                (e\<lparr>de_file_size_bytes := de_file_size_bytes e + 32 * of_nat (lfn_entry_count + 1)\<rparr>))) (\<lambda>_.
              sbind (on_dev (write_to_cluster_chain vol (de_cluster_number e) (ucast offset) entries_to_insert)) (\<lambda>_. sret 0))))))
     (fs\<lparr>fat_create_idx := fat_create_idx fs + 1\<rparr>)))))"

text \<open>The length is stored before the two lengths are compared, so the first branch is always taken, with nothing to
  write; \<open>malloc\<close> and \<open>free\<close> of the zeroes leave no trace.\<close>

definition ftruncate :: "VNodeData \<Rightarrow> u64 \<Rightarrow> 'd fatfs \<Rightarrow> (unit \<times> 'd fatfs) result" where
  "ftruncate inode_num len =
     sbind (get_volume (vd_mount_id inode_num)) (\<lambda>vol.
     sbind (stat_file inode_num) (\<lambda>st.
     if S_ISDIR (st_mode st) then sfail HCF
     else sbind (on_dev (read_parent_dirent vol (vd_inode inode_num))) (\<lambda>e0.
          sbind (on_dev (ensure_first_cluster vol e0)) (\<lambda>e1.
          if len > UINT32_MAX then sfail HCF else
          let e2 = e1\<lparr>de_file_size_bytes := ucast len\<rparr> in
          sbind (if len \<ge> ucast (de_file_size_bytes e2)
                 then let num_zeroes = (ucast (len - ucast (de_file_size_bytes e2)) :: u32) in
                      on_dev (write_to_cluster_chain vol (de_cluster_number e2) (ucast (de_file_size_bytes e2)) (replicate (unat num_zeroes) 0))
                 else sret ()) (\<lambda>_.
          on_dev (write_parent_dirent vol (vd_inode inode_num) e2))))))"

text \<open>The vnode of a file or directory of a volume.\<close>

definition fat_vnode :: "nat \<Rightarrow> VNodeData \<Rightarrow> 'd fatfs VNode" where
  "fat_vnode fuel v = \<lparr>vn_id = v, vn_write_file = write_file,
     vn_read_file = (\<lambda>v off n. read_file fuel v off (of_nat n))\<rparr>"

section \<open>Mounting\<close>

text \<open>An unused slot: all its fields are zero, so calling its device is a call through a null pointer.\<close>

definition zero_volume :: "'d Fat16Volume" where
  "zero_volume = \<lparr>fv_block_device = \<lparr>vn_id = \<lparr>vd_inode = 0, vd_mount_id = 0\<rparr>,
       vn_write_file = (\<lambda>_ _ _ _. Inl WildAccess), vn_read_file = (\<lambda>_ _ _ _. Inl WildAccess)\<rparr>,
     fv_fats_start_sector = 0, fv_number_of_fats = 0, fv_number_of_sectors_per_fat = 0, fv_bytes_per_sector = 0,
     fv_sectors_per_cluster = 0, fv_number_of_sectors_root_directory = 0\<rparr>"

fun free_mount :: "'d Fat16Volume list \<Rightarrow> nat \<Rightarrow> nat result" where
  "free_mount [] mount_id = Inl HCF"
| "free_mount (v # vs) mount_id = (if fv_number_of_fats v \<noteq> 0 then free_mount vs (Suc mount_id) else Inr mount_id)"

text \<open>The result is the identity of the vnode that is then given to \<open>vfs_add_mount\<close>.\<close>

definition mount_fat16 :: "'d VNode \<Rightarrow> 'd fatfs \<Rightarrow> (VNodeData \<times> 'd fatfs) result" where
  "mount_fat16 block_device =
     sbind (on_dev (dev_get (zero_volume\<lparr>fv_block_device := block_device\<rparr>) 0 512)) (\<lambda>bs.
     let hdr = decode_header bs in
     if hdr_reserved_sectors hdr < 1 then sfail HCF
     else if hdr_number_of_root_directory_entries hdr < 1 then sfail HCF
     else if hdr_number_of_sectors hdr = 0 \<and> hdr_large_sector_count hdr = 0 then sfail HCF
     else if hdr_number_of_sectors_per_fat hdr < 1 then sfail HCF
     else if hdr_signature hdr \<noteq> 0x28 \<and> hdr_signature hdr \<noteq> 0x29 then sfail HCF
     else if hdr_bootable_partition_signature hdr \<noteq> 0xAA55 then sfail HCF
     else (\<lambda>fs. rbind (free_mount (fat_mounts fs) 0) (\<lambda>mount_id.
       if hdr_bytes_per_sector hdr = 0 then Inl DivideByZero else
       let new_vol = \<lparr>fv_block_device = block_device, fv_fats_start_sector = hdr_reserved_sectors hdr,
             fv_number_of_fats = hdr_file_allocation_tables_count hdr,
             fv_number_of_sectors_per_fat = hdr_number_of_sectors_per_fat hdr,
             fv_bytes_per_sector = hdr_bytes_per_sector hdr, fv_sectors_per_cluster = hdr_sectors_per_cluster hdr,
             fv_number_of_sectors_root_directory =
               of_nat ((unat (hdr_number_of_root_directory_entries hdr) * DIRENT_SIZE + unat (hdr_bytes_per_sector hdr) - 1) div unat (hdr_bytes_per_sector hdr))\<rparr>
       in Inr (\<lparr>vd_inode = 1, vd_mount_id = of_nat mount_id\<rparr>, fs\<lparr>fat_mounts := (fat_mounts fs)[mount_id := new_vol]\<rparr>))))"

end
