(* ===== verification/Fat_Chain.thy ===== *)
theory Fat_Chain
  imports Fat16
begin

text \<open>
  Cluster chains of the FAT16 file system as byte sequences.

  \<open>fat_of\<close> and \<open>cluster_data\<close> read the allocation table and a cluster off the contents of the device; \<open>chain\<close>
  says that a list of clusters is linked in the table and ended. In the locale \<open>fat_volume\<close>, a volume on any byte
  device, reading a chain returns a slice of the concatenated clusters, and writing replaces a slice and extends
  the chain by free clusters as needed. The interpretation \<open>bfat\<close> is for volumes on the block devices of
  \<open>fs_dev.c\<close>.
\<close>

section \<open>Geometry\<close>

definition fat_base :: "'d Fat16Volume \<Rightarrow> nat" where
  "fat_base vol = unat (fv_fats_start_sector vol) * unat (fv_bytes_per_sector vol)"

definition data_base :: "'d Fat16Volume \<Rightarrow> nat" where
  "data_base vol = (unat (fv_fats_start_sector vol) + unat (fv_number_of_fats vol) * unat (fv_number_of_sectors_per_fat vol)
     + unat (fv_number_of_sectors_root_directory vol)) * unat (fv_bytes_per_sector vol)"

definition n_clusters :: "'d Fat16Volume \<Rightarrow> nat" where
  "n_clusters vol = unat (fv_number_of_sectors_per_fat vol) * unat (fv_bytes_per_sector vol) div 2"

definition cluster_addr :: "'d Fat16Volume \<Rightarrow> u16 \<Rightarrow> nat" where
  "cluster_addr vol c = data_base vol + bytes_per_cluster vol * (unat c - 2)"

text \<open>The volume fits its device, its fields do not overflow the types the code uses, and every entry of the
  allocation table stands for a cluster.\<close>

definition sound_layout :: "'d Fat16Volume \<Rightarrow> nat \<Rightarrow> bool" where
  "sound_layout vol cap \<longleftrightarrow> 0 < bytes_per_cluster vol \<and> 0 < unat (fv_number_of_fats vol) \<and>
     unat (fv_fats_start_sector vol) + unat (fv_number_of_fats vol) * unat (fv_number_of_sectors_per_fat vol)
       + unat (fv_number_of_sectors_root_directory vol) < 2 ^ 16 \<and>
     data_base vol < 2 ^ 31 \<and> n_clusters vol \<le> 0xFFF7 \<and>
     data_base vol + bytes_per_cluster vol * (n_clusters vol - 2) \<le> cap"

definition is_cluster :: "'d Fat16Volume \<Rightarrow> u16 \<Rightarrow> bool" where
  "is_cluster vol c \<longleftrightarrow> 2 \<le> unat c \<and> unat c < n_clusters vol"

definition fat_of :: "'d Fat16Volume \<Rightarrow> (nat \<Rightarrow> u8) \<Rightarrow> u16 \<Rightarrow> u16" where
  "fat_of vol f c = le16 [f (fat_base vol + 2 * unat c), f (Suc (fat_base vol + 2 * unat c))]"

definition cluster_data :: "'d Fat16Volume \<Rightarrow> (nat \<Rightarrow> u8) \<Rightarrow> u16 \<Rightarrow> u8 list" where
  "cluster_data vol f c = map f [cluster_addr vol c..<cluster_addr vol c + bytes_per_cluster vol]"

definition chain_data :: "'d Fat16Volume \<Rightarrow> (nat \<Rightarrow> u8) \<Rightarrow> u16 list \<Rightarrow> u8 list" where
  "chain_data vol f cs = concat (map (cluster_data vol f) cs)"

text \<open>Each cluster's entry names the next one.\<close>

fun linked :: "'d Fat16Volume \<Rightarrow> (nat \<Rightarrow> u8) \<Rightarrow> u16 list \<Rightarrow> bool" where
  "linked vol f [] \<longleftrightarrow> True"
| "linked vol f [c] \<longleftrightarrow> is_cluster vol c"
| "linked vol f (c # c' # cs) \<longleftrightarrow> is_cluster vol c \<and> fat_of vol f c = c' \<and> linked vol f (c' # cs)"

definition chain :: "'d Fat16Volume \<Rightarrow> (nat \<Rightarrow> u8) \<Rightarrow> u16 list \<Rightarrow> bool" where
  "chain vol f cs \<longleftrightarrow> cs \<noteq> [] \<and> distinct cs \<and> linked vol f cs \<and> is_end_of_ll_num (fat_of vol f (last cs))"

definition free_clusters :: "'d Fat16Volume \<Rightarrow> (nat \<Rightarrow> u8) \<Rightarrow> u16 list" where
  "free_clusters vol f = filter (\<lambda>c. is_free_cluster_num (fat_of vol f c)) (map of_nat [2..<n_clusters vol])"

definition splice :: "nat \<Rightarrow> u8 list \<Rightarrow> u8 list \<Rightarrow> u8 list" where
  "splice k xs ys = take k ys @ xs @ drop (k + length xs) ys"

section \<open>Bytes and words\<close>

lemma le16_bytes16 [simp]: "le16 (bytes16 v) = v"
  by (rule bit_word_eqI) (auto simp: le16_def bytes16_def bit_simps)

lemma length_bytes [simp]: "length (bytes16 v) = 2" "length (bytes32 w) = 4"
  by (simp_all add: bytes16_def bytes32_def)

lemma splice_append:
  "splice k xs (A @ B) = splice k (take (length A - k) xs) A @ splice (k - length A) (drop (length A - k) xs) B"
proof -
  have "take m xs @ drop m xs @ zs = xs @ zs" for m zs by (metis append.assoc append_take_drop_id)
  then show ?thesis
    by (cases "k \<le> length A"; cases "length xs \<le> length A - k") (auto simp: splice_def add.commute)
qed

lemma length_splice: "k + length xs \<le> length ys \<Longrightarrow> length (splice k xs ys) = length ys"
  by (simp add: splice_def)

lemma splice_Nil [simp]: "splice k [] ys = ys"
  by (simp add: splice_def)

lemma patched_slice:
  assumes "k + length xs \<le> n"
  shows "map (patched f (a + k) xs) [a..<a + n] = splice k xs (map f [a..<a + n])"
proof (rule nth_equalityI)
  fix i assume "i < length (map (patched f (a + k) xs) [a..<a + n])"
  then have "i < n" by simp
  then show "map (patched f (a + k) xs) [a..<a + n] ! i = splice k xs (map f [a..<a + n]) ! i"
    using assms by (auto simp: patched_def splice_def nth_append)
qed (use assms in \<open>simp add: length_splice\<close>)

lemma patched_outside: "a + n \<le> p \<or> p + length xs \<le> a \<Longrightarrow> map (patched f p xs) [a..<a + n] = map f [a..<a + n]"
  by (rule nth_equalityI) (auto simp: patched_def)

section \<open>Disjoint regions\<close>

lemma fat_before_data:
  assumes "sound_layout vol cap" and "is_cluster vol c"
  shows "fat_base vol + 2 * unat c + 2 \<le> data_base vol"
proof -
  have "2 * unat c + 2 \<le> unat (fv_number_of_sectors_per_fat vol) * unat (fv_bytes_per_sector vol)"
    using assms(2) by (simp add: is_cluster_def n_clusters_def) linarith
  also have "\<dots> \<le> unat (fv_number_of_fats vol) * unat (fv_number_of_sectors_per_fat vol) * unat (fv_bytes_per_sector vol)"
    using assms(1) by (simp add: sound_layout_def)
  finally show ?thesis by (simp add: fat_base_def data_base_def algebra_simps)
qed

lemma cluster_after: "data_base vol \<le> cluster_addr vol c"
  by (simp add: cluster_addr_def)

lemma cluster_inside:
  assumes "sound_layout vol cap" and "is_cluster vol c"
  shows "cluster_addr vol c + bytes_per_cluster vol \<le> cap"
proof -
  have "bytes_per_cluster vol * (unat c - 2) + bytes_per_cluster vol = bytes_per_cluster vol * Suc (unat c - 2)" by simp
  also have "\<dots> \<le> bytes_per_cluster vol * (n_clusters vol - 2)"
    using assms(2) by (intro mult_le_mono2) (auto simp: is_cluster_def)
  finally show ?thesis using assms(1) by (simp add: sound_layout_def cluster_addr_def)
qed

lemma clusters_disjoint:
  assumes "is_cluster vol c" and "is_cluster vol c'" and "c \<noteq> c'"
  shows "cluster_addr vol c + bytes_per_cluster vol \<le> cluster_addr vol c' \<or> cluster_addr vol c' + bytes_per_cluster vol \<le> cluster_addr vol c"
proof -
  have *: "bytes_per_cluster vol * (m - 2) + bytes_per_cluster vol \<le> bytes_per_cluster vol * (n - 2)" if "2 \<le> m" "m < n" for m n :: nat
  proof -
    have "bytes_per_cluster vol * Suc (m - 2) \<le> bytes_per_cluster vol * (n - 2)" using that by (intro mult_le_mono2) simp
    then show ?thesis by simp
  qed
  have "unat c \<noteq> unat c'" using assms(3) by (simp add: word_unat_eq_iff)
  then show ?thesis using assms(1,2) * [of "unat c" "unat c'"] * [of "unat c'" "unat c"]
    by (cases "unat c" "unat c'" rule: linorder_cases) (auto simp: is_cluster_def cluster_addr_def)
qed

lemma fat_of_patch_fat:
  assumes "is_cluster vol c" and "is_cluster vol c'"
  shows "fat_of vol (patched f (fat_base vol + 2 * unat c) (bytes16 v)) c' = (if c' = c then v else fat_of vol f c')"
proof (cases "c' = c")
  case True
  then show ?thesis by (simp add: fat_of_def patched_def) (simp add: le16_def bytes16_def le16_bytes16 [unfolded le16_def bytes16_def, simplified])
next
  case False
  then have "unat c \<noteq> unat c'" by (simp add: word_unat_eq_iff)
  then have "Suc (2 * unat c) < 2 * unat c' \<or> Suc (2 * unat c') < 2 * unat c" by linarith
  with False show ?thesis by (auto simp: fat_of_def patched_def)
qed

lemma cluster_patch_fat:
  assumes "sound_layout vol cap" and "is_cluster vol c"
  shows "cluster_data vol (patched f (fat_base vol + 2 * unat c) (bytes16 v)) c' = cluster_data vol f c'"
  unfolding cluster_data_def
  by (rule patched_outside) (use fat_before_data [OF assms] cluster_after [of vol c'] in simp)

lemma fat_of_patch_cluster:
  assumes "sound_layout vol cap" and "is_cluster vol c'"
  shows "fat_of vol (patched f (cluster_addr vol c + k) xs) c' = fat_of vol f c'"
  using fat_before_data [OF assms] cluster_after [of vol c] by (simp add: fat_of_def patched_def)

lemma cluster_patch_cluster:
  assumes "is_cluster vol c" and "is_cluster vol c'" and "k + length xs \<le> bytes_per_cluster vol"
  shows "cluster_data vol (patched f (cluster_addr vol c + k) xs) c' =
    (if c' = c then splice k xs (cluster_data vol f c) else cluster_data vol f c')"
proof (cases "c' = c")
  case False
  then have "cluster_addr vol c' + bytes_per_cluster vol \<le> cluster_addr vol c + k \<or> cluster_addr vol c + k + length xs \<le> cluster_addr vol c'"
    using clusters_disjoint [OF assms(1,2)] assms(3) by auto
  from patched_outside [OF this] False show ?thesis by (simp add: cluster_data_def)
qed (simp add: cluster_data_def patched_slice [OF assms(3)])

lemma length_cluster_data [simp]: "length (cluster_data vol f c) = bytes_per_cluster vol"
  by (simp add: cluster_data_def)

lemma length_chain_data [simp]: "length (chain_data vol f cs) = bytes_per_cluster vol * length cs"
  by (induction cs) (simp_all add: chain_data_def)

lemma chain_data_simps [simp]: "chain_data vol f [] = []" "chain_data vol f (c # cs) = cluster_data vol f c @ chain_data vol f cs"
  by (simp_all add: chain_data_def)

lemma linked_clusters: "linked vol f cs \<Longrightarrow> c \<in> set cs \<Longrightarrow> is_cluster vol c"
  by (induction vol f cs rule: linked.induct) auto

lemma linked_Cons: "linked vol f (c # cs) \<longleftrightarrow> is_cluster vol c \<and> (cs \<noteq> [] \<longrightarrow> fat_of vol f c = hd cs) \<and> linked vol f cs"
  by (cases cs) auto

lemma chain_not_free:
  assumes "chain vol f cs" and "c \<in> set cs"
  shows "\<not> is_free_cluster_num (fat_of vol f c)"
proof -
  have "linked vol f cs \<Longrightarrow> is_end_of_ll_num (fat_of vol f (last cs)) \<Longrightarrow> c \<in> set cs \<Longrightarrow> 2 \<le> unat (fat_of vol f c)"
  proof (induction cs)
    case (Cons a cs)
    show ?case
    proof (cases "c = a \<and> cs \<noteq> []")
      case True
      then have "is_cluster vol (fat_of vol f a)" using Cons.prems(1) linked_clusters [of vol f cs "hd cs"] by (simp add: linked_Cons)
      with True show ?thesis by (simp add: is_cluster_def)
    next
      case False
      then show ?thesis using Cons by (auto simp: linked_Cons is_end_of_ll_num_def word_le_nat_alt split: if_splits)
    qed
  qed simp
  with assms show ?thesis by (auto simp: chain_def is_free_cluster_num_def word_less_nat_alt)
qed

section \<open>The effect of writing a chain\<close>

text \<open>A new cluster \<open>n\<close> is appended after \<open>c\<close>.\<close>

definition relinked :: "'d Fat16Volume \<Rightarrow> (nat \<Rightarrow> u8) \<Rightarrow> u16 \<Rightarrow> u16 \<Rightarrow> nat \<Rightarrow> u8" where
  "relinked vol f c n = patched (patched f (fat_base vol + 2 * unat n) (bytes16 0xFFF8)) (fat_base vol + 2 * unat c) (bytes16 n)"

text \<open>Places that belong to no entry of the first table and to no cluster: the boot sector, the other tables and
  the root directory.\<close>

definition elsewhere :: "'d Fat16Volume \<Rightarrow> nat \<Rightarrow> bool" where
  "elsewhere vol a \<longleftrightarrow> a < fat_base vol \<or> fat_base vol + 2 * n_clusters vol \<le> a \<and> a < data_base vol"

text \<open>The chain \<open>cs\<close> of the new contents holds the old bytes of its clusters with \<open>xs\<close> written at position \<open>k\<close>, and
  nothing else has changed.\<close>

definition written :: "'d Fat16Volume \<Rightarrow> (nat \<Rightarrow> u8) \<Rightarrow> (nat \<Rightarrow> u8) \<Rightarrow> u16 list \<Rightarrow> nat \<Rightarrow> u8 list \<Rightarrow> bool" where
  "written vol f f' cs k xs \<longleftrightarrow> chain vol f' cs \<and> chain_data vol f' cs = splice k xs (chain_data vol f cs) \<and>
     (xs \<noteq> [] \<longrightarrow> k + length xs \<le> bytes_per_cluster vol * length cs) \<and>
     (\<forall>c. is_cluster vol c \<and> c \<notin> set cs \<longrightarrow> fat_of vol f' c = fat_of vol f c \<and> cluster_data vol f' c = cluster_data vol f c) \<and>
     (\<forall>a. elsewhere vol a \<longrightarrow> f' a = f a)"

lemma fat_of_relinked:
  assumes "is_cluster vol c" and "is_cluster vol n" and "is_cluster vol c'"
  shows "fat_of vol (relinked vol f c n) c' = (if c' = c then n else if c' = n then 0xFFF8 else fat_of vol f c')"
  using assms by (simp add: relinked_def fat_of_patch_fat)

lemma cluster_data_relinked:
  "sound_layout vol cap \<Longrightarrow> is_cluster vol c \<Longrightarrow> is_cluster vol n \<Longrightarrow> cluster_data vol (relinked vol f c n) c' = cluster_data vol f c'"
  by (simp add: relinked_def cluster_patch_fat)

lemma elsewhere_patch_fat:
  "is_cluster vol c \<Longrightarrow> elsewhere vol a \<Longrightarrow> patched f (fat_base vol + 2 * unat c) (bytes16 v) a = f a"
  by (auto simp: elsewhere_def patched_def is_cluster_def)

lemma elsewhere_patch_cluster:
  assumes "sound_layout vol cap" and "elsewhere vol a"
  shows "patched f (cluster_addr vol c + k) xs a = f a"
proof -
  have "fat_base vol \<le> data_base vol" by (simp add: fat_base_def data_base_def algebra_simps)
  then show ?thesis using assms(2) cluster_after [of vol c] by (auto simp: elsewhere_def patched_def)
qed

lemma free_clusters_are: "n \<in> set (free_clusters vol f) \<Longrightarrow> sound_layout vol cap \<Longrightarrow> is_cluster vol n \<and> is_free_cluster_num (fat_of vol f n)"
  by (auto simp: free_clusters_def is_cluster_def sound_layout_def unat_of_nat take_bit_nat_eq_self)

lemma distinct_free_clusters:
  assumes "sound_layout vol cap"
  shows "distinct (free_clusters vol f)"
proof -
  have "inj_on (of_nat :: nat \<Rightarrow> u16) (set [2..<n_clusters vol])"
  proof (rule inj_onI)
    fix x y assume "x \<in> set [2..<n_clusters vol]" "y \<in> set [2..<n_clusters vol]" and eq: "(of_nat x :: u16) = of_nat y"
    then have "x < 2 ^ 16" "y < 2 ^ 16" using assms by (auto simp: sound_layout_def)
    with arg_cong [OF eq, of unat] show "x = y" by (simp add: unat_of_nat take_bit_nat_eq_self)
  qed
  then show ?thesis by (simp add: free_clusters_def distinct_map)
qed

lemma free_clusters_cong: "(\<And>c. is_cluster vol c \<Longrightarrow> fat_of vol f c = fat_of vol g c) \<Longrightarrow> sound_layout vol cap \<Longrightarrow> free_clusters vol f = free_clusters vol g"
  unfolding free_clusters_def
  by (rule filter_cong) (auto simp: is_cluster_def sound_layout_def unat_of_nat take_bit_nat_eq_self)

lemma free_clusters_relinked:
  assumes "sound_layout vol cap" and "is_cluster vol c" and "\<not> is_free_cluster_num (fat_of vol f c)" and "free_clusters vol f = n # ns"
  shows "free_clusters vol (relinked vol f c n) = ns"
proof -
  have n: "is_cluster vol n" using free_clusters_are [of n vol f cap] assms(1,4) by simp
  have "free_clusters vol (relinked vol f c n) = filter (\<lambda>x. x \<noteq> n) (free_clusters vol f)"
    unfolding free_clusters_def filter_filter
  proof (rule filter_cong)
    fix x :: u16 assume "x \<in> set (map of_nat [2..<n_clusters vol])"
    then have x: "is_cluster vol x" using assms(1) by (auto simp: is_cluster_def sound_layout_def unat_of_nat take_bit_nat_eq_self)
    have "\<not> is_free_cluster_num n" "\<not> is_free_cluster_num 0xFFF8" using n by (simp_all add: is_cluster_def is_free_cluster_num_def word_less_nat_alt)
    then show "is_free_cluster_num (fat_of vol (relinked vol f c n) x) = (is_free_cluster_num (fat_of vol f x) \<and> x \<noteq> n)"
      using fat_of_relinked [OF assms(2) n x] assms(3) by auto
  qed simp
  also have "\<dots> = ns" using distinct_free_clusters [OF assms(1), of f] assms(4) by (auto intro!: filter_True)
  finally show ?thesis .
qed

text \<open>The state between two iterations, when \<open>c\<close> at the head of \<open>cs\<close> has been dealt with and \<open>n\<close> is next: \<open>g\<close> is
  the contents before the tables were changed, and \<open>new\<close> the cluster that was appended, if any.\<close>

definition advanced :: "'d Fat16Volume \<Rightarrow> (nat \<Rightarrow> u8) \<Rightarrow> (nat \<Rightarrow> u8) \<Rightarrow> (nat \<Rightarrow> u8) \<Rightarrow> u16 \<Rightarrow> u16 \<Rightarrow> u16 list \<Rightarrow> u16 list \<Rightarrow> u16 list \<Rightarrow> bool" where
  "advanced vol f g h c n cs cs1 new \<longleftrightarrow> chain vol h cs1 \<and> n = List.hd cs1 \<and> c # cs1 = cs @ new \<and> c \<notin> set cs1 \<and>
     fat_of vol h c = List.hd cs1 \<and> set new \<subseteq> set (free_clusters vol f) \<and>
     set (free_clusters vol h) \<subseteq> set (free_clusters vol f) - set new \<and>
     length cs1 - 1 + length (free_clusters vol h) + 1 = length cs - 1 + length (free_clusters vol f) \<and>
     (\<forall>c'. is_cluster vol c' \<longrightarrow> cluster_data vol h c' = cluster_data vol g c') \<and>
     (\<forall>c'. is_cluster vol c' \<and> c' \<notin> set (c # cs1) \<longrightarrow> fat_of vol h c' = fat_of vol f c') \<and>
     (\<forall>a. elsewhere vol a \<longrightarrow> h a = f a)"

lemma linked_cong: "(\<And>c. is_cluster vol c \<Longrightarrow> fat_of vol g c = fat_of vol f c) \<Longrightarrow> linked vol g cs = linked vol f cs"
  by (induction vol f cs rule: linked.induct) auto

lemma advanced_inside:
  assumes "sound_layout vol cap" and "chain vol f (c # cs)" and "cs \<noteq> []"
    and fat: "\<And>c. is_cluster vol c \<Longrightarrow> fat_of vol g c = fat_of vol f c" and "\<And>a. elsewhere vol a \<Longrightarrow> g a = f a"
  shows "advanced vol f g g c (fat_of vol f c) (c # cs) cs []" and "\<not> is_end_of_ll_num (fat_of vol f c)"
proof -
  have l: "is_cluster vol c" "fat_of vol f c = List.hd cs" "linked vol f cs" "is_cluster vol (List.hd cs)" "is_cluster vol (last cs)"
    using assms(2,3) linked_clusters [of vol f cs] by (auto simp: chain_def linked_Cons)
  then show "advanced vol f g g c (fat_of vol f c) (c # cs) cs []"
    using assms free_clusters_cong [OF fat assms(1)] linked_cong [OF fat] by (auto simp: advanced_def chain_def)
  show "\<not> is_end_of_ll_num (fat_of vol f c)"
    using l(2,4) assms(1) by (auto simp: is_end_of_ll_num_def is_cluster_def sound_layout_def word_le_nat_alt)
qed

lemma advanced_end:
  assumes "sound_layout vol cap" and "chain vol f [c]" and "free_clusters vol f = n # ns"
    and fat: "\<And>c. is_cluster vol c \<Longrightarrow> fat_of vol g c = fat_of vol f c" and other: "\<And>a. elsewhere vol a \<Longrightarrow> g a = f a"
  shows "advanced vol f g (relinked vol g c n) c n [c] [n] [n]"
proof -
  have n: "is_cluster vol n" "is_free_cluster_num (fat_of vol f n)" using free_clusters_are [of n vol f cap] assms(1,3) by simp_all
  have c: "is_cluster vol c" "\<not> is_free_cluster_num (fat_of vol f c)" using assms(2) chain_not_free [OF assms(2), of c] by (simp_all add: chain_def)
  have fr: "free_clusters vol g = n # ns" using free_clusters_cong [OF fat assms(1)] assms(3) by simp
  have "free_clusters vol (relinked vol g c n) = ns"
    by (rule free_clusters_relinked [OF assms(1) c(1) _ fr]) (simp add: fat c)
  moreover have "n \<notin> set ns" using distinct_free_clusters [OF assms(1), of f] assms(3) by simp
  moreover have "relinked vol g c n a = f a" if "elsewhere vol a" for a
    using that c(1) n(1) other by (simp add: relinked_def elsewhere_patch_fat)
  moreover have "n \<noteq> c" using n(2) c(2) by auto
  ultimately show ?thesis
    using assms(3) n(1) c(1) fat fat_of_relinked [OF c(1) n(1)] cluster_data_relinked [OF assms(1) c(1) n(1)]
    by (auto simp: advanced_def chain_def is_end_of_ll_num_def)
qed

lemma written_Cons:
  assumes w: "written vol g f' cs (k - bytes_per_cluster vol) (drop (bytes_per_cluster vol - k) xs)"
    and c: "is_cluster vol c" "c \<notin> set cs" "fat_of vol g c = List.hd cs"
    and data: "\<And>c'. is_cluster vol c' \<Longrightarrow> cluster_data vol g c' =
      (if c' = c then splice k (take (bytes_per_cluster vol - k) xs) (cluster_data vol f c) else cluster_data vol f c')"
    and fat: "\<And>c'. is_cluster vol c' \<Longrightarrow> c' \<notin> set (c # cs) \<Longrightarrow> fat_of vol g c' = fat_of vol f c'"
    and other: "\<And>a. elsewhere vol a \<Longrightarrow> g a = f a"
  shows "written vol f f' (c # cs) k xs"
proof -
  have ch: "chain vol f' cs" and d: "chain_data vol f' cs = splice (k - bytes_per_cluster vol) (drop (bytes_per_cluster vol - k) xs) (chain_data vol g cs)"
    and fr: "\<And>c'. is_cluster vol c' \<Longrightarrow> c' \<notin> set cs \<Longrightarrow> fat_of vol f' c' = fat_of vol g c' \<and> cluster_data vol f' c' = cluster_data vol g c'"
    using w by (simp_all add: written_def)
  have "chain_data vol g cs = chain_data vol f cs"
    unfolding chain_data_def using data linked_clusters [of vol f' cs] ch c(2) by (intro arg_cong [of _ _ concat] map_cong) (auto simp: chain_def)
  then have "chain_data vol f' (c # cs) = splice k xs (chain_data vol f (c # cs))"
    using fr [OF c(1,2)] data [OF c(1)] d by (simp add: splice_append)
  moreover have "chain vol f' (c # cs)" using ch c fr [OF c(1,2)] by (auto simp: chain_def linked_Cons)
  moreover have "k + length xs \<le> bytes_per_cluster vol * length (c # cs)" if "xs \<noteq> []"
  proof (cases "drop (bytes_per_cluster vol - k) xs = []")
    case True
    then have "length xs \<le> bytes_per_cluster vol - k" by simp
    then show ?thesis using that by (cases xs) auto
  next
    case False
    then show ?thesis using w by (auto simp: written_def)
  qed
  ultimately show ?thesis using fr fat data other w by (auto simp: written_def)
qed

section \<open>Volumes on a byte device\<close>

locale fat_volume = byte_device "vn_read_file (fv_block_device vol) (vn_id (fv_block_device vol))"
    "vn_write_file (fv_block_device vol) (vn_id (fv_block_device vol))" okay content cap
  for vol :: "'d Fat16Volume" and okay content cap
begin

abbreviation bpc where "bpc \<equiv> bytes_per_cluster vol"

lemma dev_get_ok:
  assumes "okay s" and "0 < n" and "off + n \<le> cap"
  shows "\<exists>s'. dev_get vol (of_nat off) n s = Inr (map (content s) [off..<off + n], s') \<and> okay s' \<and> content s' = content s"
  using read_ok [OF assms] by (auto simp: dev_get_def sbind_def)

lemma dev_put_ok:
  assumes "okay s" and "xs \<noteq> []" and "off + length xs \<le> cap"
  shows "\<exists>s'. dev_put vol (of_nat off) xs s = Inr ((), s') \<and> okay s' \<and> content s' = patched (content s) off xs"
  using write_ok [OF assms] by (auto simp: dev_put_def sbind_def)

lemma is_cluster_valid: "sound_layout vol cap \<Longrightarrow> is_cluster vol c \<Longrightarrow> \<not> is_invalid_cluster_num c"
  by (auto simp: sound_layout_def is_cluster_def is_invalid_cluster_num_def word_less_nat_alt word_le_nat_alt)

lemma fat_entry_offset_ok:
  assumes "sound_layout vol cap" and "is_cluster vol c"
  shows "fat_entry_offset vol c = Inr (of_nat (fat_base vol + 2 * unat c))" and "fat_base vol + 2 * unat c + 2 \<le> cap"
proof -
  have "fat_base vol + 2 * unat c + 2 \<le> data_base vol" "data_base vol \<le> cap" "data_base vol < 2 ^ 31"
    using fat_before_data [OF assms] assms(1) by (simp_all add: sound_layout_def)
  then show "fat_entry_offset vol c = Inr (of_nat (fat_base vol + 2 * unat c))" and "fat_base vol + 2 * unat c + 2 \<le> cap"
    by (simp_all add: fat_entry_offset_def c_int_def fat_base_def)
qed

lemma read_fat_ok:
  assumes "sound_layout vol cap" and "is_cluster vol c" and "okay s"
  shows "\<exists>s'. read_fat vol c s = Inr (fat_of vol (content s) c, s') \<and> okay s' \<and> content s' = content s"
proof -
  obtain s' where "dev_get vol (of_nat (fat_base vol + 2 * unat c)) 2 s =
      Inr (map (content s) [fat_base vol + 2 * unat c..<fat_base vol + 2 * unat c + 2], s')" "okay s'" "content s' = content s"
    using dev_get_ok [OF assms(3) _ fat_entry_offset_ok(2) [OF assms(1,2)]] by auto
  then show ?thesis using is_cluster_valid [OF assms(1,2)] fat_entry_offset_ok(1) [OF assms(1,2)]
    by (simp add: read_fat_def fat_of_def sbind_def)
qed

lemma write_fat_ok:
  assumes "sound_layout vol cap" and "is_cluster vol c" and "okay s"
  shows "\<exists>s'. write_fat vol c v s = Inr ((), s') \<and> okay s' \<and> content s' = patched (content s) (fat_base vol + 2 * unat c) (bytes16 v)"
proof -
  have "bytes16 v \<noteq> []" and "fat_base vol + 2 * unat c + length (bytes16 v) \<le> cap"
    using fat_entry_offset_ok(2) [OF assms(1,2)] by (simp_all add: bytes16_def)
  from dev_put_ok [OF assms(3) this] show ?thesis
    using is_cluster_valid [OF assms(1,2)] fat_entry_offset_ok(1) [OF assms(1,2)] by (simp add: write_fat_def)
qed

lemma first_free_ok:
  assumes "sound_layout vol cap" and "okay s" and "\<And>c. c \<in> set cs \<Longrightarrow> is_cluster vol c"
    and "filter (\<lambda>c. is_free_cluster_num (fat_of vol (content s) c)) cs = n # ns"
  shows "\<exists>s'. first_free vol cs s = Inr (n, s') \<and> okay s' \<and> content s' = content s"
  using assms(2-)
proof (induction cs arbitrary: s)
  case (Cons c cs)
  obtain s1 where s1: "read_fat vol c s = Inr (fat_of vol (content s) c, s1)" "okay s1" "content s1 = content s"
    using read_fat_ok [OF assms(1) _ Cons.prems(1), of c] Cons.prems(2) by auto
  show ?case
  proof (cases "is_free_cluster_num (fat_of vol (content s) c)")
    case False
    then show ?thesis using Cons.IH [OF s1(2)] Cons.prems(2,3) s1 by (simp add: sbind_def)
  qed (use s1 Cons.prems(3) in \<open>simp add: sbind_def\<close>)
qed simp

lemma find_free_ok:
  assumes "sound_layout vol cap" and "okay s" and "free_clusters vol (content s) = n # ns"
  shows "\<exists>s'. find_free_cluster_number vol s = Inr (n, s') \<and> okay s' \<and> content s' = content s"
proof -
  let ?p = "unat (fv_number_of_sectors_per_fat vol) * unat (fv_bytes_per_sector vol)"
  have n: "?p div 2 = n_clusters vol" "n_clusters vol < 2 ^ 16" "?p < 2 ^ 31"
    using assms(1) by (auto simp: sound_layout_def n_clusters_def)
  then have c: "c_int ?p = Inr (of_nat ?p)" by (simp add: c_int_def)
  have "unat (of_nat ?p div 2 :: u64) = n_clusters vol"
    using n(1,3) by (simp only: unat_div) (simp add: unat_of_nat take_bit_nat_eq_self del: of_nat_mult)
  then have num: "unat (ucast (of_nat ?p div 2 :: u64) :: u16) = n_clusters vol"
    using n(2) by (simp add: unsigned_ucast_eq take_bit_nat_eq_self)
  have "is_cluster vol c" if "c \<in> set (map of_nat [2..<n_clusters vol])" for c
    using that n(2) by (auto simp: is_cluster_def unat_of_nat take_bit_nat_eq_self)
  from first_free_ok [OF assms(1,2) this assms(3) [unfolded free_clusters_def]] show ?thesis
    unfolding find_free_cluster_number_def c by (simp add: num Let_def del: of_nat_mult)
qed

text \<open>Position \<open>off\<close> lies \<open>off - i * bpc\<close> bytes after the start of cluster \<open>i\<close> of the chain, or the cluster is
  past it.\<close>

lemma skip_iff: "0 < bpc \<Longrightarrow> off div bpc \<le> i \<longleftrightarrow> off - i * bpc < bpc"
proof -
  assume b: "0 < bpc"
  then have "off div bpc \<le> i \<longleftrightarrow> off div bpc < Suc i" by linarith
  also have "\<dots> \<longleftrightarrow> off < Suc i * bpc" by (rule div_less_iff_less_mult [OF b])
  also have "\<dots> \<longleftrightarrow> off - i * bpc < bpc" using b by auto
  finally show ?thesis .
qed

lemma cluster_window_ok:
  assumes "sound_layout vol cap" and "is_cluster vol c" and "unat off div bpc \<le> i"
  shows "cluster_window vol off i c = Inr (of_nat (cluster_addr vol c + (unat off - i * bpc)), bpc - (unat off - i * bpc))"
proof -
  have b: "0 < bpc" using assms(1) by (simp add: sound_layout_def)
  let ?sec = "unat (fv_fats_start_sector vol) + unat (fv_number_of_fats vol) * unat (fv_number_of_sectors_per_fat vol)
       + unat (fv_number_of_sectors_root_directory vol)"
  have "unat (of_nat ?sec :: u16) = ?sec"
    using assms(1) by (simp add: sound_layout_def unat_of_nat take_bit_nat_eq_self del: of_nat_add of_nat_mult)
  then have start: "calculate_data_section_start vol = Inr (of_nat (data_base vol))"
    using assms(1) by (simp add: calculate_data_section_start_def c_int_def Let_def sound_layout_def data_base_def del: of_nat_add of_nat_mult)
  have "ucast c - 2 = (of_nat (unat c - 2) :: u64)"
    using assms(2) by (simp add: is_cluster_def of_nat_diff)
  then have src: "of_nat (data_base vol) + of_nat bpc * (ucast c - 2) = (of_nat (cluster_addr vol c) :: u64)"
    by (simp add: cluster_addr_def)
  have "unat off - i * bpc = (if i = unat off div bpc then unat off mod bpc else 0)"
  proof (cases "i = unat off div bpc")
    case True
    then show ?thesis by (simp add: minus_div_mult_eq_mod)
  next
    case False
    then have "unat off div bpc < i" using assms(3) by simp
    then have "unat off < i * bpc" by (simp add: div_less_iff_less_mult [OF b])
    with False show ?thesis by simp
  qed
  then show ?thesis using src by (simp add: cluster_window_def Let_def start)
qed

lemma read_chain_step_ok:
  assumes "sound_layout vol cap" and "is_cluster vol c" and "okay s" and "0 < n"
  shows "\<exists>s'. read_chain_step vol off i c n s =
      Inr ((take n (drop (unat off - i * bpc) (cluster_data vol (content s) c)), fat_of vol (content s) c), s') \<and>
    okay s' \<and> content s' = content s"
proof (cases "unat off div bpc \<le> i")
  case True
  let ?k = "unat off - i * bpc"
  have b: "0 < bpc" using assms(1) by (simp add: sound_layout_def)
  have k: "?k < bpc" using True skip_iff [OF b] by blast
  have "0 < min n (bpc - ?k)" and "cluster_addr vol c + ?k + min n (bpc - ?k) \<le> cap"
    using k assms(4) cluster_inside [OF assms(1,2)] by auto
  from dev_get_ok [OF assms(3) this] obtain s1 where
    s1: "dev_get vol (of_nat (cluster_addr vol c + ?k)) (min n (bpc - ?k)) s =
      Inr (map (content s) [cluster_addr vol c + ?k..<cluster_addr vol c + ?k + min n (bpc - ?k)], s1)" "okay s1" "content s1 = content s"
    by blast
  obtain s2 where s2: "read_fat vol c s1 = Inr (fat_of vol (content s) c, s2)" "okay s2" "content s2 = content s"
    using read_fat_ok [OF assms(1,2) s1(2)] s1(3) by auto
  have "map (content s) [cluster_addr vol c + ?k..<cluster_addr vol c + ?k + min n (bpc - ?k)] = take n (drop ?k (cluster_data vol (content s) c))"
    by (rule nth_equalityI) (auto simp: cluster_data_def add.assoc)
  with s1(1) s2 True show ?thesis
    by (simp add: read_chain_step_def cluster_window_ok [OF assms(1,2) True] sbind_def del: of_nat_add)
next
  case False
  have "bpc \<le> unat off - i * bpc" using False skip_iff [of "unat off" i] assms(1) by (auto simp: sound_layout_def)
  with False read_fat_ok [OF assms(1-3)] show ?thesis by (auto simp: read_chain_step_def sbind_def)
qed

lemma read_chain_ok:
  assumes "sound_layout vol cap" and "okay s" and "linked vol (content s) cs" and "unat off - i * bpc + n \<le> bpc * length cs"
    and "cs \<noteq> [] \<Longrightarrow> c = List.hd cs"
  shows "\<exists>s'. read_chain vol off i c n s = Inr (take n (drop (unat off - i * bpc) (chain_data vol (content s) cs)), s') \<and>
    okay s' \<and> content s' = content s"
  using assms(2-)
proof (induction cs arbitrary: i c n s)
  case Nil
  then show ?case using assms(1) by (simp add: read_chain.simps sound_layout_def)
next
  case (Cons c' cs)
  have b: "0 < bpc" using assms(1) by (simp add: sound_layout_def)
  let ?k = "unat off - i * bpc" and ?bs = "take n (drop (unat off - i * bpc) (cluster_data vol (content s) c'))"
  show ?case
  proof (cases "n = 0")
    case False
    have c: "c = c'" "is_cluster vol c'" using Cons.prems(2,4) by (simp_all add: linked_Cons)
    obtain s1 where s1: "read_chain_step vol off i c n s = Inr ((?bs, fat_of vol (content s) c'), s1)" "okay s1" "content s1 = content s"
      using read_chain_step_ok [OF assms(1) c(2) Cons.prems(1), of n off i] False c(1) by auto
    have k: "unat off - Suc i * bpc = ?k - bpc" by simp
    have l: "linked vol (content s1) cs" and h: "cs \<noteq> [] \<Longrightarrow> fat_of vol (content s) c' = List.hd cs"
      using Cons.prems(2) s1(3) by (simp_all add: linked_Cons)
    have m: "unat off - Suc i * bpc + (n - length ?bs) \<le> bpc * length cs"
      using Cons.prems(3) by (simp add: k)
    obtain s2 where s2: "read_chain vol off (Suc i) (fat_of vol (content s) c') (n - length ?bs) s1 =
        Inr (take (n - length ?bs) (drop (?k - bpc) (chain_data vol (content s) cs)), s2)" "okay s2" "content s2 = content s"
      using Cons.IH [OF s1(2) l m h] unfolding s1(3) k by blast
    have "read_chain vol off i c n s = Inr (?bs @ take (n - length ?bs) (drop (?k - bpc) (chain_data vol (content s) cs)), s2)"
      using s1(1) s2(1) b False by (subst read_chain.simps) simp
    moreover have "?bs @ take (n - length ?bs) (drop (?k - bpc) (chain_data vol (content s) cs)) = take n (drop ?k (chain_data vol (content s) (c' # cs)))"
      by (simp add: min_def)
    ultimately show ?thesis using s2(2,3) by auto
  qed (use Cons.prems b in \<open>simp add: read_chain.simps\<close>)
qed

text \<open>One iteration of the write loop: \<open>g\<close> is the contents once the cluster's share has been stored.\<close>

lemma write_cluster_ok:
  fixes f g :: "nat \<Rightarrow> u8" and off :: u64 and i k :: nat
  assumes "sound_layout vol cap" and "is_cluster vol c" and "okay s" and "xs \<noteq> []"
  defines "k \<equiv> unat off - i * bpc" and "f \<equiv> content s"
  defines "g \<equiv> patched f (cluster_addr vol c + k) (take (bpc - k) xs)"
  shows "\<exists>s'. write_cluster vol off i c xs s = Inr (drop (bpc - k) xs, s') \<and> okay s' \<and> content s' = g"
proof (cases "unat off div bpc \<le> i")
  case True
  have b: "0 < bpc" using assms(1) by (simp add: sound_layout_def)
  have k: "k < bpc" using True skip_iff [OF b] by (simp add: k_def)
  have "take (bpc - k) xs \<noteq> []" and "cluster_addr vol c + k + length (take (bpc - k) xs) \<le> cap"
    using k assms(4) cluster_inside [OF assms(1,2)] by auto
  from dev_put_ok [OF assms(3) this] show ?thesis using True
    by (auto simp: write_cluster_def cluster_window_ok [OF assms(1,2) True] k_def g_def f_def sbind_def simp del: of_nat_add)
next
  case False
  have "bpc \<le> k" using False skip_iff [of "unat off" i] assms(1) by (auto simp: sound_layout_def k_def)
  with False show ?thesis using assms(3) by (simp add: write_cluster_def g_def f_def)
qed

lemma write_chain_step_ok:
  fixes f g :: "nat \<Rightarrow> u8" and off :: u64 and i k :: nat
  assumes "sound_layout vol cap" and "is_cluster vol c" and "okay s" and "xs \<noteq> []"
  defines "k \<equiv> unat off - i * bpc" and "f \<equiv> content s"
  defines "g \<equiv> patched f (cluster_addr vol c + k) (take (bpc - k) xs)"
  shows "\<not> is_end_of_ll_num (fat_of vol f c) \<Longrightarrow>
      \<exists>s'. write_chain_step vol off i c xs s = Inr ((drop (bpc - k) xs, fat_of vol f c), s') \<and> okay s' \<and> content s' = g"
    and "is_end_of_ll_num (fat_of vol f c) \<Longrightarrow> free_clusters vol f = n # ns \<Longrightarrow>
      \<exists>s'. write_chain_step vol off i c xs s = Inr ((drop (bpc - k) xs, n), s') \<and> okay s' \<and> content s' = relinked vol g c n"
proof -
  obtain s1 where s1: "write_cluster vol off i c xs s = Inr (drop (bpc - k) xs, s1)" "okay s1" "content s1 = g"
    using write_cluster_ok [OF assms(1-4), of off i] unfolding k_def g_def f_def by blast
  have fat: "fat_of vol g c' = fat_of vol f c'" if "is_cluster vol c'" for c'
    using fat_of_patch_cluster [OF assms(1) that] by (simp add: g_def)
  obtain s2 where s2: "read_fat vol c s1 = Inr (fat_of vol f c, s2)" "okay s2" "content s2 = g"
    using read_fat_ok [OF assms(1,2) s1(2)] s1(3) fat [OF assms(2)] by auto
  show "\<exists>s'. write_chain_step vol off i c xs s = Inr ((drop (bpc - k) xs, fat_of vol f c), s') \<and> okay s' \<and> content s' = g"
    if "\<not> is_end_of_ll_num (fat_of vol f c)"
    using that s1(1) s2 by (simp add: write_chain_step_def sbind_def)
  show "\<exists>s'. write_chain_step vol off i c xs s = Inr ((drop (bpc - k) xs, n), s') \<and> okay s' \<and> content s' = relinked vol g c n"
    if e: "is_end_of_ll_num (fat_of vol f c)" and fr: "free_clusters vol f = n # ns"
  proof -
    have "free_clusters vol (content s2) = n # ns" using free_clusters_cong [OF fat assms(1)] fr s2(3) by simp
    from find_free_ok [OF assms(1) s2(2) this] obtain s3 where
      s3: "find_free_cluster_number vol s2 = Inr (n, s3)" "okay s3" "content s3 = g" using s2(3) by auto
    have n: "is_cluster vol n" using free_clusters_are [of n vol f cap] fr assms(1) by simp
    obtain s4 where s4: "write_fat vol n 0xFFF8 s3 = Inr ((), s4)" "okay s4" "content s4 = patched g (fat_base vol + 2 * unat n) (bytes16 0xFFF8)"
      using write_fat_ok [OF assms(1) n s3(2)] s3(3) by auto
    obtain s5 where s5: "write_fat vol c n s4 = Inr ((), s5)" "okay s5" "content s5 = relinked vol g c n"
      using write_fat_ok [OF assms(1,2) s4(2)] s4(3) by (auto simp: relinked_def)
    show ?thesis using e s1(1) s2(1) s3(1) s4(1) s5 by (simp add: write_chain_step_def sbind_def)
  qed
qed

lemma write_iteration:
  assumes "sound_layout vol cap" and "okay s" and "chain vol (content s) cs" and cs: "cs = c # cs0" and "xs \<noteq> []"
    and "unat off - i * bpc + length xs \<le> bpc * (length cs - 1 + length (free_clusters vol (content s)))"
  shows "\<exists>s1 n cs1 new. write_chain_step vol off i c xs s = Inr ((drop (bpc - (unat off - i * bpc)) xs, n), s1) \<and> okay s1 \<and>
    advanced vol (content s) (patched (content s) (cluster_addr vol c + (unat off - i * bpc)) (take (bpc - (unat off - i * bpc)) xs)) (content s1) c n cs cs1 new"
proof -
  let ?f = "content s" and ?g = "patched (content s) (cluster_addr vol c + (unat off - i * bpc)) (take (bpc - (unat off - i * bpc)) xs)"
  have c: "is_cluster vol c" using assms(3) cs by (auto simp: chain_def linked_Cons)
  have fat: "fat_of vol ?g c' = fat_of vol ?f c'" if "is_cluster vol c'" for c'
    using fat_of_patch_cluster [OF assms(1) that] .
  have other: "?g a = ?f a" if "elsewhere vol a" for a using elsewhere_patch_cluster [OF assms(1) that] .
  show ?thesis
  proof (cases "cs0 = []")
    case True
    have "0 < length (free_clusters vol ?f)" using assms(5,6) True cs by (cases xs) (auto intro!: Nat.gr0I)
    then obtain n ns where fr: "free_clusters vol ?f = n # ns" by (cases "free_clusters vol ?f") auto
    have ch: "chain vol ?f [c]" and e: "is_end_of_ll_num (fat_of vol ?f c)" using assms(3) cs True by (simp_all add: chain_def)
    from write_chain_step_ok(2) [OF assms(1) c assms(2,5) e fr] advanced_end [OF assms(1) ch fr fat other]
    show ?thesis unfolding cs True by metis
  next
    case False
    note adv = advanced_inside [OF assms(1) assms(3) [unfolded cs] False fat other]
    from write_chain_step_ok(1) [OF assms(1) c assms(2,5) adv(2)] adv(1) show ?thesis unfolding cs by metis
  qed
qed

lemma write_chain_ok:
  assumes "sound_layout vol cap" and "okay s" and "chain vol (content s) cs" and "c = List.hd cs"
    and "unat off - i * bpc + length xs \<le> bpc * (length cs - 1 + length (free_clusters vol (content s)))"
  shows "\<exists>s' new. write_chain vol off i c xs s = Inr ((), s') \<and> okay s' \<and> set new \<subseteq> set (free_clusters vol (content s)) \<and>
    written vol (content s) (content s') (cs @ new) (unat off - i * bpc) xs"
  using assms(2-)
proof (induction "unat off - i * bpc + length xs" arbitrary: i c cs xs s rule: less_induct)
  case less
  have b: "0 < bpc" using assms(1) by (simp add: sound_layout_def)
  let ?f = "content s" and ?k = "unat off - i * bpc"
  show ?case
  proof (cases "xs = []")
    case True
    then have "write_chain vol off i c xs s = Inr ((), s)" using b by (simp add: write_chain.simps)
    with True less.prems show ?thesis by (intro exI [of _ s] exI [of _ "[]"]) (simp add: written_def)
  next
    case False
    let ?g = "patched ?f (cluster_addr vol c + ?k) (take (bpc - ?k) xs)" and ?rest = "drop (bpc - ?k) xs"
    obtain cs0 where cs: "cs = c # cs0" using less.prems(2,3) by (cases cs) (auto simp: chain_def)
    have c: "is_cluster vol c" "c \<notin> set cs0" "distinct cs0" "linked vol ?f cs" using less.prems(2) cs by (auto simp: chain_def linked_Cons)
    have k: "unat off - Suc i * bpc = ?k - bpc" by simp
    have smaller: "?k - bpc + length ?rest < ?k + length xs" using b False by (cases xs) auto
    have fat: "fat_of vol ?g c' = fat_of vol ?f c'" if "is_cluster vol c'" for c'
      using fat_of_patch_cluster [OF assms(1) that] .
    have fit: "?k + length (take (bpc - ?k) xs) \<le> bpc \<or> take (bpc - ?k) xs = []" by auto
    have data: "cluster_data vol ?g c' = (if c' = c then splice ?k (take (bpc - ?k) xs) (cluster_data vol ?f c) else cluster_data vol ?f c')"
      if "is_cluster vol c'" for c'
      using fit cluster_patch_cluster [OF c(1) that] by (auto simp: splice_def)
    obtain s1 n cs1 new0 where s1: "write_chain_step vol off i c xs s = Inr ((?rest, n), s1)" "okay s1"
      and adv: "advanced vol ?f ?g (content s1) c n cs cs1 new0"
      using write_iteration [OF assms(1) less.prems(1,2) cs False less.prems(4)] by blast
    note adv = adv [unfolded advanced_def]
    have ch1: "chain vol (content s1) cs1" and hd1: "n = List.hd cs1" and new0: "set new0 \<subseteq> set (free_clusters vol ?f)"
      "set (free_clusters vol (content s1)) \<subseteq> set (free_clusters vol ?f)" "c # cs1 = cs @ new0" "c \<notin> set cs1"
      using adv by auto
    have data1: "cluster_data vol (content s1) c' = (if c' = c then splice ?k (take (bpc - ?k) xs) (cluster_data vol ?f c) else cluster_data vol ?f c')"
      if "is_cluster vol c'" for c' using adv that data by simp
    have fat1: "fat_of vol (content s1) c' = fat_of vol ?f c'" if "is_cluster vol c'" "c' \<notin> set (c # cs1 @ new)" for c' new
      using adv that by simp
    have other1: "content s1 a = ?f a" if "elsewhere vol a" for a using adv that by simp
    have room: "?k + length xs \<le> bpc * (length cs1 - 1 + length (free_clusters vol (content s1)) + 1)"
      using less.prems(4) adv by simp
    then have room1: "?k - bpc + length ?rest \<le> bpc * (length cs1 - 1 + length (free_clusters vol (content s1)))"
      by (simp add: algebra_simps)
    obtain s' new where s': "write_chain vol off (Suc i) n ?rest s1 = Inr ((), s')" "okay s'" "set new \<subseteq> set (free_clusters vol (content s1))"
      "written vol (content s1) (content s') (cs1 @ new) (?k - bpc) ?rest"
      using less.hyps [OF smaller [folded k] s1(2) ch1 hd1 room1 [folded k]] unfolding k by blast
    have "write_chain vol off i c xs s = Inr ((), s')"
      using s1(1) s'(1) b False by (subst write_chain.simps) simp
    moreover have "written vol ?f (content s') (c # cs1 @ new) ?k xs"
    proof (rule written_Cons [OF s'(4) c(1)])
      have "\<not> is_free_cluster_num (fat_of vol ?f c)" by (rule chain_not_free [OF less.prems(2)]) (simp add: cs)
      then show "c \<notin> set (cs1 @ new)" using new0 s'(3) free_clusters_are [OF _ assms(1)] by auto
      show "fat_of vol (content s1) c = List.hd (cs1 @ new)" using adv by (simp add: chain_def)
    qed (use data1 fat1 other1 in blast)+
    moreover have "c # cs1 @ new = cs @ new0 @ new" using new0(3) by (metis append_Cons append_assoc)
    ultimately show ?thesis using s'(2,3) new0(1,2) by (intro exI [of _ s'] exI [of _ "new0 @ new"]) auto
  qed
qed

end

end
