(* ===== verification/Fat_File.thy ===== *)
theory Fat_File
  imports Fat_Chain
begin

text \<open>
  Files of the FAT16 file system as byte sequences, long file names, and the loop over a directory.

  \<open>holds_file\<close> says which bytes a file of the root directory has: its directory entry gives the length and the
  first cluster of a chain that holds them. In \<open>fat_volume\<close>, \<open>read_file\<close> returns slices of these bytes and
  \<open>write_file\<close> replaces or appends, as \<open>Pipes.overwrite\<close> does, which is what an open file relies on.
\<close>

section \<open>Entries of the root directory\<close>

definition root_base :: "'d Fat16Volume \<Rightarrow> nat" where
  "root_base vol = (unat (fv_fats_start_sector vol) + unat (fv_number_of_sectors_per_fat vol) * unat (fv_number_of_fats vol))
     * unat (fv_bytes_per_sector vol)"

definition root_size :: "'d Fat16Volume \<Rightarrow> nat" where
  "root_size vol = unat (fv_number_of_sectors_root_directory vol) * unat (fv_bytes_per_sector vol)"

definition root_bytes :: "'d Fat16Volume \<Rightarrow> (nat \<Rightarrow> u8) \<Rightarrow> nat \<Rightarrow> u8 list" where
  "root_bytes vol f j = map f [root_base vol + 32 * j..<root_base vol + 32 * j + 32]"

definition root_entry :: "'d Fat16Volume \<Rightarrow> (nat \<Rightarrow> u8) \<Rightarrow> nat \<Rightarrow> Fat16DirectoryEntry" where
  "root_entry vol f j = decode_entry (root_bytes vol f j)"

definition holds_file :: "'d Fat16Volume \<Rightarrow> (nat \<Rightarrow> u8) \<Rightarrow> nat \<Rightarrow> u16 list \<Rightarrow> u8 list \<Rightarrow> bool" where
  "holds_file vol f j cs data \<longleftrightarrow> (let e = root_entry vol f j in
     read_fat_mode (de_attributes e) = Inr S_IFREG \<and> unat (de_file_size_bytes e) = length data \<and>
     (if cs = [] then is_invalid_cluster_num (de_cluster_number e) \<and> data = []
      else de_cluster_number e = List.hd cs \<and> chain vol f cs \<and> length data \<le> bytes_per_cluster vol * length cs \<and>
           take (length data) (chain_data vol f cs) = data))"

text \<open>The vnode of entry \<open>j\<close> of the root directory of the volume in slot \<open>m\<close>.\<close>

definition root_file :: "'d Fat16Volume \<Rightarrow> nat \<Rightarrow> nat \<Rightarrow> 'd fatfs \<Rightarrow> VNodeData \<Rightarrow> bool" where
  "root_file vol m j fs v \<longleftrightarrow> unat (vd_mount_id v) = m \<and> m < length (fat_mounts fs) \<and> fat_mounts fs ! m = vol \<and>
     get_parent_cluster_num (vd_inode v) = 0 \<and> unat (get_dirent_index_in_parent (vd_inode v)) = j"

lemma le32_bytes32 [simp]: "le32 (bytes32 v) = v"
proof (rule bit_word_eqI)
  fix n assume "n < LENGTH(32)"
  then show "bit (le32 (bytes32 v)) n \<longleftrightarrow> bit v n"
    by (cases "n < 8"; cases "n < 16"; cases "n < 24") (auto simp: le32_def bytes32_def bit_simps)
qed

lemma le16_append [simp]: "2 \<le> length xs \<Longrightarrow> le16 (xs @ ys) = le16 xs"
  by (auto simp: le16_def nth_append)

lemma le32_append [simp]: "4 \<le> length xs \<Longrightarrow> le32 (xs @ ys) = le32 xs"
  by (auto simp: le32_def nth_append)

lemma decode_encode_entry: "length (de_filename e) = 11 \<Longrightarrow> decode_entry (encode_entry e) = e"
  by (cases e) (simp add: decode_entry_def encode_entry_def nth_append)

lemma length_encode_entry [simp]: "length (de_filename e) = 11 \<Longrightarrow> length (encode_entry e) = 32"
  by (simp add: encode_entry_def)

lemma length_root_entry [simp]: "length (de_filename (root_entry vol f j)) = 11"
  by (simp add: root_entry_def root_bytes_def decode_entry_def)

lemma root_end: "root_base vol + root_size vol = data_base vol"
  by (simp add: root_base_def root_size_def data_base_def algebra_simps)

lemma root_elsewhere:
  assumes "sound_layout vol cap" and "root_base vol \<le> a" and "a < root_base vol + root_size vol"
  shows "elsewhere vol a"
proof -
  have "2 * n_clusters vol \<le> unat (fv_number_of_sectors_per_fat vol) * unat (fv_bytes_per_sector vol)" by (simp add: n_clusters_def)
  also have "\<dots> \<le> unat (fv_number_of_sectors_per_fat vol) * unat (fv_number_of_fats vol) * unat (fv_bytes_per_sector vol)"
    using assms(1) by (simp add: sound_layout_def)
  finally have "fat_base vol + 2 * n_clusters vol \<le> root_base vol" by (simp add: fat_base_def root_base_def algebra_simps)
  then show ?thesis using assms(2,3) root_end [of vol] by (simp add: elsewhere_def)
qed

lemma root_bytes_elsewhere:
  assumes "sound_layout vol cap" and "32 * j + 32 \<le> root_size vol" and "\<And>a. elsewhere vol a \<Longrightarrow> g a = f a"
  shows "root_bytes vol g j = root_bytes vol f j"
  unfolding root_bytes_def using assms(2) by (intro map_cong refl assms(3) root_elsewhere [OF assms(1)]) auto

text \<open>Storing an entry of the root directory changes neither the table nor any cluster.\<close>

lemma root_patch:
  fixes f g :: "nat \<Rightarrow> u8"
  assumes "sound_layout vol cap" and "32 * j + 32 \<le> root_size vol" and "length bs = 32"
  defines "g \<equiv> patched f (root_base vol + 32 * j) bs"
  shows "root_bytes vol g j = bs" and "is_cluster vol c \<Longrightarrow> fat_of vol g c = fat_of vol f c" and "cluster_data vol g c = cluster_data vol f c"
proof -
  show "root_bytes vol g j = bs"
    unfolding root_bytes_def g_def using assms(3) by (intro nth_equalityI) (auto simp: patched_def)
  have b: "fat_base vol + 2 * n_clusters vol \<le> root_base vol"
    using root_elsewhere [OF assms(1), of "root_base vol"] assms(2) root_end [of vol]
    by (auto simp: elsewhere_def fat_base_def root_base_def algebra_simps)
  show "fat_of vol g c = fat_of vol f c" if "is_cluster vol c"
    using b that by (simp add: fat_of_def g_def patched_def is_cluster_def)
  show "cluster_data vol g c = cluster_data vol f c"
    unfolding cluster_data_def g_def by (rule patched_outside) (use assms(2,3) root_end [of vol] cluster_after [of vol c] in simp)
qed

lemma chain_cong:
  assumes "\<And>c. is_cluster vol c \<Longrightarrow> fat_of vol g c = fat_of vol f c"
  shows "chain vol g cs \<longleftrightarrow> chain vol f cs"
proof (cases "linked vol f cs \<and> cs \<noteq> []")
  case True
  then have "is_cluster vol (last cs)" using linked_clusters [of vol f cs] by simp
  then show ?thesis using True linked_cong [OF assms] assms by (simp add: chain_def)
qed (use linked_cong [OF assms] in \<open>auto simp: chain_def\<close>)

lemma splice_take:
  assumes "k \<le> d" and "d \<le> length D" and "k + length xs \<le> length D"
  shows "take (max d (k + length xs)) (splice k xs D) = splice k xs (take d D)"
proof (cases "xs = []")
  case False
  then have "k < length D" using assms(3) by (cases xs) auto
  then show ?thesis using assms by (auto simp: splice_def max_def min_def drop_take)
qed (use assms(1) in \<open>simp add: max_absorb1\<close>)

lemma splice_overwrite: "k \<le> length data \<Longrightarrow> splice k xs data = overwrite k xs data"
  by (simp add: splice_def overwrite_def)

lemma chain_data_append: "chain_data vol f (cs @ ds) = chain_data vol f cs @ chain_data vol f ds"
  by (simp add: chain_data_def)

lemma holds_file_length:
  assumes "holds_file vol f j cs data"
  shows "length data < 2 ^ 32" and "de_file_size_bytes (root_entry vol f j) = of_nat (length data)"
proof -
  have un: "unat (de_file_size_bytes (root_entry vol f j)) = length data" using assms by (simp add: holds_file_def Let_def)
  show "de_file_size_bytes (root_entry vol f j) = of_nat (length data)" unfolding un [symmetric] by simp
  have "unat (de_file_size_bytes (root_entry vol f j)) < 2 ^ LENGTH(32)" by (rule unsigned_less)
  then show "length data < 2 ^ 32" unfolding un by simp
qed

lemma holds_file_size:
  assumes "holds_file vol f j cs data"
  shows "ucast (de_file_size_bytes (root_entry vol f j)) = (of_nat (length data) :: u64)"
proof -
  have un: "unat (de_file_size_bytes (root_entry vol f j)) = length data" using assms by (simp add: holds_file_def Let_def)
  show ?thesis unfolding un [symmetric] by simp
qed

lemma written_holds_file:
  assumes "sound_layout vol cap" and "32 * j + 32 < root_size vol" and w: "written vol f f' (cs @ new) off xs" and "chain vol f cs"
    and data: "length data \<le> bytes_per_cluster vol * length cs" "take (length data) (chain_data vol f cs) = data"
    and e: "root_entry vol f j = e" and off: "off \<le> length data"
    and "read_fat_mode (de_attributes e) = Inr S_IFREG" and "de_cluster_number e = List.hd cs"
    and "unat (de_file_size_bytes e) = max (length data) (off + length xs)"
  shows "holds_file vol f' j (cs @ new) (overwrite off xs data)"
proof -
  let ?D = "chain_data vol f (cs @ new)" and ?len = "max (length data) (off + length xs)"
  have cs: "cs \<noteq> []" using assms(4) by (simp add: chain_def)
  have D: "take (length data) ?D = data" using data by (simp add: chain_data_append)
  have fits: "off + length xs \<le> length ?D" and lenD: "length data \<le> length ?D"
    using w off data(1) by (cases "xs = []"; auto simp: written_def algebra_simps)+
  have "take ?len (chain_data vol f' (cs @ new)) = overwrite off xs data"
    using w splice_take [OF off lenD fits] D splice_overwrite [OF off] by (simp add: written_def)
  moreover have "length (overwrite off xs data) = ?len" using off by (simp add: overwrite_def max_def)
  moreover have "root_entry vol f' j = e"
    using root_bytes_elsewhere [OF assms(1), of j f' f] assms(2) w e by (simp add: written_def root_entry_def)
  moreover have "?len \<le> bytes_per_cluster vol * length (cs @ new)" using fits lenD by simp
  ultimately show ?thesis using assms(9-11) w cs by (simp add: holds_file_def written_def Let_def)
qed

context fat_volume
begin

lemma root_dir_address_ok:
  assumes "sound_layout vol cap" and "32 * j + 32 < root_size vol"
  shows "root_dir_address vol (of_nat (32 * j)) 32 = Inr (of_nat (root_base vol + 32 * j))"
    and "root_base vol + 32 * j + 32 \<le> cap"
proof -
  have bound: "root_base vol + root_size vol < 2 ^ 31" "data_base vol \<le> cap" using assms(1) root_end [of vol] by (simp_all add: sound_layout_def)
  then have c: "c_int (root_base vol) = Inr (of_nat (root_base vol))" "c_int (root_size vol) = Inr (of_nat (root_size vol))"
    by (simp_all add: c_int_def)
  have u: "unat (of_nat (32 * j) :: u64) = 32 * j" "unat (of_nat (root_size vol) :: u64) = root_size vol"
    using assms(2) bound by (simp_all add: unat_of_nat take_bit_nat_eq_self del: of_nat_mult)
  then have "unat (of_nat (32 * j) + 32 :: u64) = 32 * j + 32" using assms(2) bound by (subst unat_add64) (simp_all del: of_nat_mult)
  then have lt: "(of_nat (32 * j) + 32 :: u64) < of_nat (root_size vol)" using assms(2) u by (simp add: word_less_nat_alt del: of_nat_mult)
  have "unat (of_nat (32 * j) mod 32 :: u64) = 0" by (simp only: unat_mod u) simp
  then have "(of_nat (32 * j) mod 32 :: u64) = 0" by (simp add: unat_eq_zero del: of_nat_mult)
  then show "root_dir_address vol (of_nat (32 * j)) 32 = Inr (of_nat (root_base vol + 32 * j))"
    using c lt unfolding root_dir_address_def root_base_def root_size_def by (simp add: not_le)
  show "root_base vol + 32 * j + 32 \<le> cap" using assms(2) bound(2) root_end [of vol] by simp
qed

lemma read_root_ok:
  assumes "sound_layout vol cap" and "okay s" and "32 * j + 32 < root_size vol"
  shows "\<exists>s'. read_from_root_dir vol (of_nat (32 * j)) 32 s = Inr (root_bytes vol (content s) j, s') \<and> okay s' \<and> content s' = content s"
  using dev_get_ok [OF assms(2) _ root_dir_address_ok(2) [OF assms(1,3)]] root_dir_address_ok(1) [OF assms(1,3)]
  by (auto simp: read_from_root_dir_def root_bytes_def)

lemma write_root_ok:
  assumes "sound_layout vol cap" and "okay s" and "32 * j + 32 < root_size vol" and "length bs = 32"
  shows "\<exists>s'. write_to_root_dir vol (of_nat (32 * j)) bs s = Inr ((), s') \<and> okay s' \<and> content s' = patched (content s) (root_base vol + 32 * j) bs"
proof -
  have "bs \<noteq> []" "root_base vol + 32 * j + length bs \<le> cap" using assms(4) root_dir_address_ok(2) [OF assms(1,3)] by auto
  from dev_put_ok [OF assms(2) this] show ?thesis
    using root_dir_address_ok(1) [OF assms(1,3)] assms(4) by (simp add: write_to_root_dir_def)
qed

lemma write_to_cluster_chain_ok:
  assumes "sound_layout vol cap" and "okay s" and "chain vol (content s) cs"
    and "off + length xs \<le> bpc * (length cs - 1 + length (free_clusters vol (content s)))" and "off < 2 ^ 64"
  shows "\<exists>s' new. write_to_cluster_chain vol (List.hd cs) (of_nat off) xs s = Inr ((), s') \<and> okay s' \<and>
    set new \<subseteq> set (free_clusters vol (content s)) \<and> written vol (content s) (content s') (cs @ new) off xs"
proof -
  have "is_cluster vol (List.hd cs)" using assms(3) linked_clusters [of vol "content s" cs "List.hd cs"] by (simp add: chain_def)
  moreover have u: "unat (of_nat off :: u64) = off" using assms(5) by (simp add: unat_of_nat take_bit_nat_eq_self)
  ultimately show ?thesis
    using write_chain_ok [OF assms(1-3) refl, of "of_nat off" 0 xs] assms(1,4) is_cluster_valid [OF assms(1)]
    by (simp add: write_to_cluster_chain_def sound_layout_def)
qed

lemma read_from_cluster_chain_ok:
  assumes "sound_layout vol cap" and "okay s" and "linked vol (content s) cs" and "cs \<noteq> []"
    and "off + n \<le> bpc * length cs" and "off + n < 2 ^ 64"
  shows "\<exists>s'. read_from_cluster_chain vol (List.hd cs) (of_nat off) (of_nat n) s = Inr (take n (drop off (chain_data vol (content s) cs)), s') \<and>
    okay s' \<and> content s' = content s"
proof -
  have "is_cluster vol (List.hd cs)" using assms(3,4) linked_clusters [of vol "content s" cs "List.hd cs"] by simp
  moreover have u: "unat (of_nat off :: u64) = off" "unat (of_nat n :: u64) = n" using assms(6) by (simp_all add: unat_of_nat take_bit_nat_eq_self)
  moreover have "n = 0" if "(of_nat n :: u64) = 0" using u(2) that by simp
  ultimately show ?thesis
    using read_chain_ok [OF assms(1-3), of "of_nat off" 0 n "List.hd cs"] assms(1,2,5) is_cluster_valid [OF assms(1)]
    by (auto simp: read_from_cluster_chain_def sound_layout_def)
qed

lemma read_parent_ok:
  assumes "sound_layout vol cap" and "okay (fat_dev fs)" and "32 * j + 32 < root_size vol" and "root_file vol m j fs v"
  shows "\<exists>fs'. on_dev (read_parent_dirent vol (vd_inode v)) fs = Inr (root_entry vol (content (fat_dev fs)) j, fs') \<and>
    okay (fat_dev fs') \<and> content (fat_dev fs') = content (fat_dev fs) \<and> root_file vol m j fs' v"
proof -
  obtain s' where "read_from_root_dir vol (of_nat (32 * j)) 32 (fat_dev fs) = Inr (root_bytes vol (content (fat_dev fs)) j, s')"
    "okay s'" "content s' = content (fat_dev fs)" using read_root_ok [OF assms(1-3)] by blast
  then show ?thesis using assms(4)
    by (auto simp: on_dev_def read_parent_dirent_def root_file_def root_entry_def sbind_def Let_def mult.commute)
qed

lemma write_parent_ok:
  assumes "sound_layout vol cap" and "okay (fat_dev fs)" and "32 * j + 32 < root_size vol" and "root_file vol m j fs v"
    and "length (de_filename e) = 11"
  shows "\<exists>fs'. on_dev (write_parent_dirent vol (vd_inode v) e) fs = Inr ((), fs') \<and> okay (fat_dev fs') \<and>
    content (fat_dev fs') = patched (content (fat_dev fs)) (root_base vol + 32 * j) (encode_entry e) \<and> root_file vol m j fs' v"
proof -
  obtain s' where "write_to_root_dir vol (of_nat (32 * j)) (encode_entry e) (fat_dev fs) = Inr ((), s')"
    "okay s'" "content s' = patched (content (fat_dev fs)) (root_base vol + 32 * j) (encode_entry e)"
    using write_root_ok [OF assms(1-3) length_encode_entry [OF assms(5)]] by blast
  then show ?thesis using assms(4)
    by (auto simp: on_dev_def write_parent_dirent_def root_file_def Let_def mult.commute)
qed

lemma stat_file_ok:
  assumes "sound_layout vol cap" and "okay (fat_dev fs)" and "32 * j + 32 < root_size vol" and "root_file vol m j fs v"
    and "holds_file vol (content (fat_dev fs)) j cs data"
  shows "\<exists>fs'. stat_file v fs = Inr (\<lparr>st_ino = vd_inode v, st_mode = S_IFREG, st_size = of_nat (length data)\<rparr>, fs') \<and>
    okay (fat_dev fs') \<and> content (fat_dev fs') = content (fat_dev fs) \<and> root_file vol m j fs' v"
proof -
  obtain fs' where fs': "on_dev (read_parent_dirent vol (vd_inode v)) fs = Inr (root_entry vol (content (fat_dev fs)) j, fs')"
    "okay (fat_dev fs')" "content (fat_dev fs') = content (fat_dev fs)" "root_file vol m j fs' v"
    using read_parent_ok [OF assms(1-4)] by blast
  have "get_volume (vd_mount_id v) fs = Inr (vol, fs)" "get_parent_cluster_num (vd_inode v) = 0"
    using assms(4) by (auto simp: get_volume_def root_file_def)
  moreover have "ucast (de_file_size_bytes (root_entry vol (content (fat_dev fs)) j)) = (of_nat (length data) :: u64)"
    using assms(5) by (metis holds_file_def of_nat_unat)
  ultimately show ?thesis using fs' assms(5) by (simp add: stat_file_def sbind_def holds_file_def Let_def)
qed

lemma read_file_ok:
  assumes "sound_layout vol cap" and "okay (fat_dev fs)" and "32 * j + 32 < root_size vol" and "root_file vol m j fs v"
    and "holds_file vol (content (fat_dev fs)) j cs data" and "off \<le> length data" and "off + n < 2 ^ 64"
  shows "\<exists>fs'. read_file fuel v (of_nat off) (of_nat n) fs = Inr (take n (drop off data), fs') \<and>
    okay (fat_dev fs') \<and> content (fat_dev fs') = content (fat_dev fs) \<and> root_file vol m j fs' v"
proof -
  let ?f = "content (fat_dev fs)" and ?n = "min n (length data - off)"
  obtain fs1 where fs1: "stat_file v fs = Inr (\<lparr>st_ino = vd_inode v, st_mode = S_IFREG, st_size = of_nat (length data)\<rparr>, fs1)"
    "okay (fat_dev fs1)" "content (fat_dev fs1) = ?f" "root_file vol m j fs1 v" using stat_file_ok [OF assms(1-5)] by blast
  obtain fs2 where fs2: "on_dev (read_parent_dirent vol (vd_inode v)) fs1 = Inr (root_entry vol ?f j, fs2)"
    "okay (fat_dev fs2)" "content (fat_dev fs2) = ?f" "root_file vol m j fs2 v" using read_parent_ok [OF assms(1) fs1(2) assms(3) fs1(4)] fs1(3) by auto
  have size: "ucast (de_file_size_bytes (root_entry vol ?f j)) = (of_nat (length data) :: u64)" and len: "length data < 2 ^ 32"
    using holds_file_length [OF assms(5)] holds_file_size [OF assms(5)] by simp_all
  have u: "unat (of_nat off :: u64) = off" "unat (of_nat n :: u64) = n" "unat (of_nat (length data) :: u64) = length data"
    using assms(6,7) len by (simp_all add: unat_of_nat take_bit_nat_eq_self)
  have "unat (of_nat off + of_nat n :: u64) = off + n" using assms(7) u by (subst unat_add64) simp_all
  then have clip: "(if of_nat off + of_nat n > (ucast (de_file_size_bytes (root_entry vol ?f j)) :: u64)
      then ucast (de_file_size_bytes (root_entry vol ?f j)) - of_nat off else of_nat n) = (of_nat ?n :: u64)"
    using assms(6) u unfolding size by (auto simp: word_less_nat_alt of_nat_diff min_def)
  have "\<exists>s'. read_from_cluster_chain vol (de_cluster_number (root_entry vol ?f j)) (of_nat off) (of_nat ?n) (fat_dev fs2) = Inr (take n (drop off data), s') \<and>
      okay s' \<and> content s' = ?f"
  proof (cases "cs = []")
    case True
    then show ?thesis using assms(1,5) fs2(2,3) by (auto simp: holds_file_def Let_def read_from_cluster_chain_def sound_layout_def)
  next
    case False
    then have cs: "de_cluster_number (root_entry vol ?f j) = List.hd cs" "chain vol ?f cs" "length data \<le> bpc * length cs"
      "take (length data) (chain_data vol ?f cs) = data" using assms(5) by (simp_all add: holds_file_def Let_def)
    have "off + ?n \<le> bpc * length cs" "off + ?n < 2 ^ 64" "linked vol (content (fat_dev fs2)) cs" using assms(6,7) cs(2,3) fs2(3) by (auto simp: chain_def)
    moreover have "take ?n (drop off (chain_data vol ?f cs)) = take n (drop off data)"
      by (subst cs(4) [symmetric]) (simp add: drop_take min.commute)
    ultimately show ?thesis using read_from_cluster_chain_ok [OF assms(1) fs2(2) _ False] fs2(3) cs(1) by metis
  qed
  then obtain s' where s': "read_from_cluster_chain vol (de_cluster_number (root_entry vol ?f j)) (of_nat off) (of_nat ?n) (fat_dev fs2) = Inr (take n (drop off data), s')"
    "okay s'" "content s' = ?f" by blast
  have "get_volume (vd_mount_id v) fs1 = Inr (vol, fs1)" using fs1(4) by (auto simp: get_volume_def root_file_def)
  then have "read_file fuel v (of_nat off) (of_nat n) fs = Inr (take n (drop off data), fs2\<lparr>fat_dev := s'\<rparr>)"
    using fs1(1) fs2(1) s'(1) by (simp add: read_file_def sbind_def S_ISDIR_def Let_def clip on_dev_def [of "read_from_cluster_chain _ _ _ _"] split del: if_split)
  then show ?thesis using s' fs2(4) by (simp add: root_file_def)
qed

text \<open>A file without clusters gets a chain of one cluster, which was free.\<close>

lemma ensure_first_cluster_ok:
  assumes "sound_layout vol cap" and "okay s" and "holds_file vol (content s) j cs data"
    and "0 < length cs + length (free_clusters vol (content s))"
  defines "e \<equiv> root_entry vol (content s) j"
  shows "\<exists>s' cs'. ensure_first_cluster vol e s = Inr (e\<lparr>de_cluster_number := List.hd cs'\<rparr>, s') \<and> okay s' \<and>
    chain vol (content s') cs' \<and> length data \<le> bpc * length cs' \<and> take (length data) (chain_data vol (content s') cs') = data \<and>
    length cs' + length (free_clusters vol (content s')) = length cs + length (free_clusters vol (content s)) \<and>
    (\<forall>a. elsewhere vol a \<longrightarrow> content s' a = content s a)"
proof (cases "cs = []")
  case True
  then have inv: "is_invalid_cluster_num (de_cluster_number e)" "data = []" using assms(3) by (simp_all add: holds_file_def e_def Let_def)
  obtain n ns where fr: "free_clusters vol (content s) = n # ns" using assms(4) True by (cases "free_clusters vol (content s)") auto
  have n: "is_cluster vol n" using free_clusters_are [of n vol "content s" cap] fr assms(1) by simp
  obtain s1 where s1: "find_free_cluster_number vol s = Inr (n, s1)" "okay s1" "content s1 = content s"
    using find_free_ok [OF assms(1,2) fr] by blast
  let ?g = "patched (content s) (fat_base vol + 2 * unat n) (bytes16 0xFFF8)"
  obtain s2 where s2: "write_fat vol n 0xFFF8 s1 = Inr ((), s2)" "okay s2" "content s2 = ?g"
    using write_fat_ok [OF assms(1) n s1(2)] s1(3) by auto
  have "chain vol ?g [n]" using n fat_of_patch_fat [OF n n] by (simp add: chain_def is_end_of_ll_num_def)
  moreover have "free_clusters vol ?g = ns"
  proof -
    have "free_clusters vol ?g = filter (\<lambda>x. x \<noteq> n) (free_clusters vol (content s))"
      unfolding free_clusters_def filter_filter
    proof (rule filter_cong)
      fix x :: u16 assume "x \<in> set (map of_nat [2..<n_clusters vol])"
      then have "is_cluster vol x" using assms(1) by (auto simp: is_cluster_def sound_layout_def unat_of_nat take_bit_nat_eq_self)
      from fat_of_patch_fat [OF n this]
      show "is_free_cluster_num (fat_of vol ?g x) = (is_free_cluster_num (fat_of vol (content s) x) \<and> x \<noteq> n)"
        by (auto simp: is_free_cluster_num_def)
    qed simp
    also have "\<dots> = ns" using distinct_free_clusters [OF assms(1), of "content s"] fr by (auto intro!: filter_True)
    finally show ?thesis .
  qed
  ultimately show ?thesis using inv s1(1) s2 fr True n
    by (intro exI [of _ s2] exI [of _ "[n]"]) (simp add: ensure_first_cluster_def sbind_def elsewhere_patch_fat)
next
  case False
  then have cs: "de_cluster_number e = List.hd cs" "chain vol (content s) cs" "length data \<le> bpc * length cs"
    "take (length data) (chain_data vol (content s) cs) = data" using assms(3) by (simp_all add: holds_file_def e_def Let_def)
  have "is_cluster vol (List.hd cs)" using cs(2) False linked_clusters [of vol "content s" cs "List.hd cs"] by (simp add: chain_def)
  then have "\<not> is_invalid_cluster_num (de_cluster_number e)" using is_cluster_valid [OF assms(1)] cs(1) by simp
  with cs assms(2) show ?thesis
    by (intro exI [of _ s] exI [of _ cs]) (simp add: ensure_first_cluster_def)
qed

lemma write_file_ok:
  assumes "sound_layout vol cap" and "okay (fat_dev fs)" and "32 * j + 32 < root_size vol" and "root_file vol m j fs v"
    and "holds_file vol (content (fat_dev fs)) j cs data" and "off \<le> length data" and "off + length xs < 2 ^ 32"
    and "0 < length cs + length (free_clusters vol (content (fat_dev fs)))"
    and "off + length xs \<le> bpc * (length cs + length (free_clusters vol (content (fat_dev fs))) - 1)"
  shows "\<exists>fs' cs'. write_file v (of_nat off) xs fs = Inr (length xs, fs') \<and> okay (fat_dev fs') \<and> root_file vol m j fs' v \<and>
    holds_file vol (content (fat_dev fs')) j cs' (overwrite off xs data)"
proof -
  let ?f = "content (fat_dev fs)" and ?len = "max (length data) (off + length xs)"
  let ?e = "root_entry vol ?f j"
  obtain fs1 where fs1: "stat_file v fs = Inr (\<lparr>st_ino = vd_inode v, st_mode = S_IFREG, st_size = of_nat (length data)\<rparr>, fs1)"
    "okay (fat_dev fs1)" "content (fat_dev fs1) = ?f" "root_file vol m j fs1 v" using stat_file_ok [OF assms(1-5)] by blast
  obtain fs2 where fs2: "on_dev (read_parent_dirent vol (vd_inode v)) fs1 = Inr (?e, fs2)"
    "okay (fat_dev fs2)" "content (fat_dev fs2) = ?f" "root_file vol m j fs2 v" using read_parent_ok [OF assms(1) fs1(2) assms(3) fs1(4)] fs1(3) by auto
  obtain s3 cs1 where s3: "ensure_first_cluster vol ?e (fat_dev fs2) = Inr (?e\<lparr>de_cluster_number := List.hd cs1\<rparr>, s3)" "okay s3"
    "chain vol (content s3) cs1" "length data \<le> bpc * length cs1" "take (length data) (chain_data vol (content s3) cs1) = data"
    "length cs1 + length (free_clusters vol (content s3)) = length cs + length (free_clusters vol ?f)"
    using ensure_first_cluster_ok [OF assms(1) fs2(2), of j cs data] assms(5,8) fs2(3) by auto
  define e2 where "e2 = ?e\<lparr>de_cluster_number := List.hd cs1, de_file_size_bytes := of_nat ?len\<rparr>"
  obtain fs4 where fs4: "on_dev (write_parent_dirent vol (vd_inode v) e2) (fs2\<lparr>fat_dev := s3\<rparr>) = Inr ((), fs4)" "okay (fat_dev fs4)"
    "content (fat_dev fs4) = patched (content s3) (root_base vol + 32 * j) (encode_entry e2)" "root_file vol m j fs4 v"
    using write_parent_ok [OF assms(1) _ assms(3), of "fs2\<lparr>fat_dev := s3\<rparr>" m v e2] s3(2) fs2(4) by (auto simp: root_file_def e2_def)
  have e2: "length (encode_entry e2) = 32" "decode_entry (encode_entry e2) = e2" by (simp_all add: e2_def decode_encode_entry)
  note patch = root_patch [OF assms(1) _ e2(1), where j = j and f = "content s3", folded fs4(3)]
  have data4: "chain_data vol (content (fat_dev fs4)) ds = chain_data vol (content s3) ds" for ds
  proof -
    have "cluster_data vol (content (fat_dev fs4)) = cluster_data vol (content s3)" using patch(3) assms(3) by (intro ext) simp
    then show ?thesis by (simp add: chain_data_def)
  qed
  have ch4: "chain vol (content (fat_dev fs4)) cs1" using chain_cong [of vol "content (fat_dev fs4)" "content s3"] patch(2) s3(3) assms(3) by simp
  have fr4: "free_clusters vol (content (fat_dev fs4)) = free_clusters vol (content s3)"
    by (rule free_clusters_cong [OF _ assms(1)]) (use patch(2) assms(3) in simp)
  have "off + length xs \<le> bpc * (length cs1 - 1 + length (free_clusters vol (content (fat_dev fs4))))" "off < 2 ^ 64"
  proof -
    have "0 < length cs1" using s3(3) by (simp add: chain_def)
    then have "length cs1 - 1 + length (free_clusters vol (content s3)) = length cs + length (free_clusters vol ?f) - 1" using s3(6) by linarith
    then show "off + length xs \<le> bpc * (length cs1 - 1 + length (free_clusters vol (content (fat_dev fs4))))" using assms(9) fr4 by simp
    show "off < 2 ^ 64" using assms(7) by simp
  qed
  from write_to_cluster_chain_ok [OF assms(1) fs4(2) ch4 this] obtain s5 new where
    s5: "write_to_cluster_chain vol (List.hd cs1) (of_nat off) xs (fat_dev fs4) = Inr ((), s5)" "okay s5"
    "written vol (content (fat_dev fs4)) (content s5) (cs1 @ new) off xs" by blast
  have len: "length data < 2 ^ 32" "?len < 2 ^ 32" and size: "de_file_size_bytes ?e = of_nat (length data)"
    using holds_file_length [OF assms(5)] assms(7) by auto
  have "holds_file vol (content s5) j (cs1 @ new) (overwrite off xs data)"
  proof (rule written_holds_file [OF assms(1,3) s5(3) ch4 s3(4) _ _ assms(6)])
    show "take (length data) (chain_data vol (content (fat_dev fs4)) cs1) = data" using s3(5) data4 by simp
    show "root_entry vol (content (fat_dev fs4)) j = e2" using patch(1) e2(2) assms(3) by (simp add: root_entry_def)
    show "read_fat_mode (de_attributes e2) = Inr S_IFREG" using assms(5) by (simp add: holds_file_def Let_def e2_def)
    show "unat (de_file_size_bytes e2) = ?len" using len(2) by (simp add: e2_def unat_of_nat take_bit_nat_eq_self)
  qed (simp add: e2_def)
  moreover have "write_file v (of_nat off) xs fs = Inr (length xs, fs4\<lparr>fat_dev := s5\<rparr>)"
  proof -
    have u: "unat (of_nat off + of_nat (length xs) :: u64) = off + length xs"
      using assms(7) by (subst unat_add64) (simp_all add: unat_of_nat take_bit_nat_eq_self)
    have cmp: "(of_nat off + of_nat (length xs) :: u64) > ucast (de_file_size_bytes ?e) \<longleftrightarrow> length data < off + length xs"
      using u len(1) unfolding holds_file_size [OF assms(5)] by (simp add: word_less_nat_alt unat_of_nat take_bit_nat_eq_self)
    have "(if of_nat off + of_nat (length xs) > (ucast (de_file_size_bytes (?e\<lparr>de_cluster_number := List.hd cs1\<rparr>)) :: u64)
         then if of_nat off + of_nat (length xs) > UINT32_MAX then sfail HCF
              else sret ((?e\<lparr>de_cluster_number := List.hd cs1\<rparr>)\<lparr>de_file_size_bytes := ucast (of_nat off + of_nat (length xs) :: u64)\<rparr>)
         else sret (?e\<lparr>de_cluster_number := List.hd cs1\<rparr>)) = (sret e2 :: 'd fatfs \<Rightarrow> _)"
    proof (cases "length data < off + length xs")
      case True
      have "\<not> UINT32_MAX < (of_nat off + of_nat (length xs) :: u64)" using u assms(7) by (simp add: word_less_nat_alt)
      moreover have "(ucast (of_nat off + of_nat (length xs) :: u64) :: u32) = of_nat (off + length xs)"
        using u assms(7) by (simp add: word_unat_eq_iff unsigned_ucast_eq unat_of_nat take_bit_nat_eq_self del: of_nat_add)
      ultimately show ?thesis using True u cmp by (simp add: e2_def max_def)
    next
      case False
      then have "e2 = ?e\<lparr>de_cluster_number := List.hd cs1\<rparr>" using size by (cases ?e) (simp add: e2_def max_def)
      then show ?thesis using cmp False by simp
    qed
    moreover have "get_volume (vd_mount_id v) fs = Inr (vol, fs)" using assms(4) by (auto simp: get_volume_def root_file_def)
    ultimately show ?thesis
      using fs1(1) fs2(1) s3(1) fs4(1) s5(1)
      by (simp add: write_file_def sbind_def S_ISDIR_def Let_def on_dev_def [of "ensure_first_cluster _ _"] on_dev_def [of "write_to_cluster_chain _ _ _ _"]
          e2_def split del: if_split)
  qed
  ultimately show ?thesis using s5(2) fs4(4) by (auto simp: root_file_def)
qed

end

text \<open>A volume on a partition of a block device.\<close>

interpretation bfat: fat_volume "vol\<lparr>fv_block_device := dev_vnode ino\<rparr>" "dev_okay ok disk nsect (dev_id ino) cap" "dev_content disk (dev_id ino)" cap
  for vol :: "'d devfs Fat16Volume" and ino ok disk nsect cap
  using blk.byte_device_axioms by (simp add: fat_volume_def dev_vnode_def)

section \<open>Properties\<close>

text \<open>C4. A file is a sequence of bytes. On a volume of a block device, writing to a file of the root directory at any
  position up to its end succeeds while there are free clusters for the new bytes and one more; it replaces
  or appends exactly those bytes, and a read at any position returns the file's bytes from there, as many as
  asked for and available.\<close>

theorem fat_file_is_bytes:
  assumes "dev_okay ok disk nsect (dev_id ino) cap (fat_dev fs)" and "fv_block_device vol = dev_vnode ino" and "sound_layout vol cap"
    and "root_file vol m j fs v" and "32 * j + 32 < root_size vol"
    and "holds_file vol (dev_content disk (dev_id ino) (fat_dev fs)) j cs data"
    and "off \<le> length data" and "off + length xs < 2 ^ 32"
    and "0 < length cs + length (free_clusters vol (dev_content disk (dev_id ino) (fat_dev fs)))"
    and "off + length xs \<le> bytes_per_cluster vol * (length cs + length (free_clusters vol (dev_content disk (dev_id ino) (fat_dev fs))) - 1)"
    and "off2 \<le> length (overwrite off xs data)" and "off2 + n < 2 ^ 64"
  shows "\<exists>fs1 fs2 cs'. write_file v (of_nat off) xs fs = Inr (length xs, fs1) \<and>
    holds_file vol (dev_content disk (dev_id ino) (fat_dev fs1)) j cs' (overwrite off xs data) \<and>
    read_file fuel v (of_nat off2) (of_nat n) fs1 = Inr (take n (drop off2 (overwrite off xs data)), fs2)"
proof -
  have vol: "vol\<lparr>fv_block_device := dev_vnode ino\<rparr> = vol" using assms(2) by (cases vol) simp
  note wr = bfat.write_file_ok [where vol = vol and ino = ino, unfolded vol]
  note rd = bfat.read_file_ok [where vol = vol and ino = ino, unfolded vol]
  obtain fs1 cs' where fs1: "write_file v (of_nat off) xs fs = Inr (length xs, fs1)" "dev_okay ok disk nsect (dev_id ino) cap (fat_dev fs1)"
    "root_file vol m j fs1 v" "holds_file vol (dev_content disk (dev_id ino) (fat_dev fs1)) j cs' (overwrite off xs data)"
    using wr [OF assms(3,1,5,4,6-10)] by blast
  from rd [OF assms(3) fs1(2) assms(5) fs1(3,4) assms(11,12)] show ?thesis using fs1 by blast
qed

definition blank_volume :: "(nat \<Rightarrow> u8 list) devfs Fat16Volume" where
  "blank_volume = \<lparr>fv_block_device = dev_vnode 0, fv_fats_start_sector = 1, fv_number_of_fats = 1, fv_number_of_sectors_per_fat = 1,
     fv_bytes_per_sector = 512, fv_sectors_per_cluster = 1, fv_number_of_sectors_root_directory = 1\<rparr>"

lemma blank_volume_layout:
  "sound_layout blank_volume (512 * 300)" "n_clusters blank_volume = 256" "root_size blank_volume = 512" "bytes_per_cluster blank_volume = 512"
  by (simp_all add: sound_layout_def blank_volume_def n_clusters_def bytes_per_cluster_def data_base_def root_size_def)

text \<open>On a zeroed disk the first entry of the root directory is that of an empty file, and all clusters are free.\<close>

lemma blank_disk:
  "holds_file blank_volume (\<lambda>_. 0) 0 [] []" "length (free_clusters blank_volume (\<lambda>_. 0)) = 254"
proof -
  have z: "le16 [0, 0] = 0" by (simp add: le16_def)
  have "free_clusters blank_volume (\<lambda>_. 0) = map of_nat [2..<n_clusters blank_volume]"
    unfolding free_clusters_def by (intro filter_True) (simp add: fat_of_def z is_free_cluster_num_def)
  then show "length (free_clusters blank_volume (\<lambda>_. 0)) = 254"
    by (simp only: length_map length_upt blank_volume_layout)
  have "root_bytes blank_volume (\<lambda>_. 0) 0 = replicate 32 0" by (simp add: root_bytes_def map_replicate_const)
  then show "holds_file blank_volume (\<lambda>_. 0) 0 [] []"
    by (simp add: holds_file_def root_entry_def decode_entry_def read_fat_mode_def is_invalid_cluster_num_def le16_def le32_def Let_def)
qed

lemma ram_device:
  obtains dev where "fs_dev_add_block_device ram_read ram_write ram_fs = Inr dev"
    "dev_okay (\<lambda>d. \<forall>s. length (d s) = 512) (\<lambda>d. d) 300 (dev_id 0) (512 * 300) dev" "dev_content (\<lambda>d. d) (dev_id 0) dev = (\<lambda>_. 0)"
proof -
  let ?ok = "\<lambda>d. \<forall>s. length (d s) = (512 :: nat)"
  have init: "\<forall>s. length (ds_drivers ram_fs s) = 512" "length (ds_block_devices ram_fs) = 0" by (simp_all add: ram_fs_def)
  obtain dev b where dev: "fs_dev_add_block_device ram_read ram_write ram_fs = Inr dev" "ds_block_devices dev = ds_block_devices ram_fs @ [b]"
    "device_ok ?ok (\<lambda>d. d) 300 (length (ds_block_devices ram_fs)) dev" "ds_drivers dev = ds_drivers ram_fs"
    "bd_partitions b \<noteq> []" "bd_partitions b ! 0 = \<lparr>bp_byte_offset = 0, bp_byte_length = 0\<rparr>" "length (bd_partitions b) \<le> 9"
    using add_block_device_ok [OF ram_driver [of 300], of ram_fs] init by auto
  have id: "dev_inode 0 0 = 0" by (simp add: dev_inode_def)
  have "dev_okay ?ok (\<lambda>d. d) 300 (dev_id 0) (512 * 300) dev" "dev_content (\<lambda>d. d) (dev_id 0) dev = (\<lambda>_. 0)"
    using registered_okay [OF dev(2,3), of 0 "512 * 300"] dev(4-7) init(2) by (simp_all add: id ram_fs_def disk_byte_def)
  then show thesis using dev(1) by (rule that [rotated])
qed

theorem fat_file_is_bytes_witness:
  "\<exists>dev fs1 fs2. fs_dev_add_block_device ram_read ram_write ram_fs = Inr dev \<and>
     write_file \<lparr>vd_inode = 0, vd_mount_id = 0\<rparr> 0 [104, 105] \<lparr>fat_mounts = [blank_volume], fat_create_idx = 0, fat_dev = dev\<rparr> = Inr (2, fs1) \<and>
     read_file 1 \<lparr>vd_inode = 0, vd_mount_id = 0\<rparr> 1 5 fs1 = Inr ([105], fs2)"
proof -
  let ?ok = "\<lambda>d. \<forall>s. length (d s) = (512 :: nat)" and ?v = "\<lparr>vd_inode = 0, vd_mount_id = 0\<rparr> :: VNodeData"
  obtain dev where dev: "fs_dev_add_block_device ram_read ram_write ram_fs = Inr dev"
    and ok: "dev_okay ?ok (\<lambda>d. d) 300 (dev_id 0) (512 * 300) dev" and content: "dev_content (\<lambda>d. d) (dev_id 0) dev = (\<lambda>_. 0)" by (rule ram_device)
  let ?fs = "\<lparr>fat_mounts = [blank_volume], fat_create_idx = 0, fat_dev = dev\<rparr>"
  have "root_file blank_volume 0 0 ?fs ?v" by (simp add: root_file_def get_parent_cluster_num_def get_dirent_index_in_parent_def)
  moreover have "fv_block_device blank_volume = dev_vnode 0" by (simp add: blank_volume_def)
  ultimately show ?thesis
    using fat_file_is_bytes [of ?ok "\<lambda>d. d" 300 0 "512 * 300" ?fs blank_volume 0 0 ?v "[]" "[]" 0 "[104, 105]" 1 5 1]
      ok content blank_disk blank_volume_layout dev by (auto simp: overwrite_def)
qed

end
