(* ===== verification/Elf_Loader.thy ===== *)
theory Elf_Loader
  imports Address_Space Fat_File
begin

text \<open>
  The program loader (\<open>stuos/src/elf.c\<close>): \<open>instantiate_ELF\<close> checks an executable, gives it a page table of its own, copies
  its segments, and sets up a stack, the arguments, the environment and the start of the heap.

  The state is the record \<open>loader\<close>: the kernel's heap together with the page tables (\<open>Kernel_Heap\<close>), the bytes of
  the user half of the new address space, the state of the file system that holds the executable, and the linked list of
  \<open>VirtualMemoryRegion\<close> nodes. A node of the list is an element of a HOL list that keeps the node's address, so
  that allocating and freeing nodes are calls of the kernel's \<open>malloc\<close> and \<open>free\<close>. The executable is a \<open>VNode\<close>, whose read
  operation is a parameter. A store of the loader to a user page that is not mapped is a page fault in the
  kernel, \<open>WildAccess\<close>. The messages that \<open>printf\<close> shows are left out.
\<close>

section \<open>Data\<close>

record ElfFile =
  ef_file_header :: "u8 list"
  ef_bit_size_flag :: u8
  ef_endianness :: u8
  ef_header_version :: u8
  ef_os_abi :: u8
  ef_padding :: "u8 list"
  ef_type :: u16
  ef_instruction_set :: u16
  ef_elf_version :: u32
  ef_entry_offset :: u64
  ef_program_header_table_offset :: u64
  ef_section_header_table_offset :: u64
  ef_flags :: u32
  ef_header_size :: u16
  ef_program_header_table_entry_size :: u16
  ef_program_header_table_num_entries :: u16
  ef_section_header_table_entry_size :: u16
  ef_section_header_table_num_entries :: u16
  ef_section_index_header_string_table :: u16

record ElfProgramHeader =
  ph_segment_type :: u32
  ph_flags :: u32
  ph_p_offset :: u64
  ph_p_vaddr :: u64
  ph_ignored :: u64
  ph_p_filesz :: u64
  ph_p_memsz :: u64
  ph_required_alignment :: u64

text \<open>The structures as they lie in the file, 64 and 56 bytes.\<close>

definition le64 :: "u8 list \<Rightarrow> u64" where
  "le64 bs = ucast (le32 bs) OR push_bit 32 (ucast (le32 (drop 4 bs)))"

definition decode_elf_file :: "u8 list \<Rightarrow> ElfFile" where
  "decode_elf_file bs = \<lparr>ef_file_header = take 4 bs, ef_bit_size_flag = bs ! 4, ef_endianness = bs ! 5, ef_header_version = bs ! 6,
     ef_os_abi = bs ! 7, ef_padding = take 8 (drop 8 bs), ef_type = le16 (drop 16 bs), ef_instruction_set = le16 (drop 18 bs),
     ef_elf_version = le32 (drop 20 bs), ef_entry_offset = le64 (drop 24 bs), ef_program_header_table_offset = le64 (drop 32 bs),
     ef_section_header_table_offset = le64 (drop 40 bs), ef_flags = le32 (drop 48 bs), ef_header_size = le16 (drop 52 bs),
     ef_program_header_table_entry_size = le16 (drop 54 bs), ef_program_header_table_num_entries = le16 (drop 56 bs),
     ef_section_header_table_entry_size = le16 (drop 58 bs), ef_section_header_table_num_entries = le16 (drop 60 bs),
     ef_section_index_header_string_table = le16 (drop 62 bs)\<rparr>"

definition decode_program_header :: "u8 list \<Rightarrow> ElfProgramHeader" where
  "decode_program_header bs = \<lparr>ph_segment_type = le32 bs, ph_flags = le32 (drop 4 bs), ph_p_offset = le64 (drop 8 bs),
     ph_p_vaddr = le64 (drop 16 bs), ph_ignored = le64 (drop 24 bs), ph_p_filesz = le64 (drop 32 bs), ph_p_memsz = le64 (drop 40 bs),
     ph_required_alignment = le64 (drop 48 bs)\<rparr>"

definition decode_program_headers :: "nat \<Rightarrow> u8 list \<Rightarrow> ElfProgramHeader list" where
  "decode_program_headers n bs = map (\<lambda>i. decode_program_header (drop (56 * i) bs)) [0..<n]"

record VirtualMemoryRegion =
  vr_address :: u64
  vr_is_free :: bool
  vr_start_addr :: u64
  vr_end_addr :: u64

record ProcessorState =
  ps_r15 :: u64
  ps_r14 :: u64
  ps_r13 :: u64
  ps_r12 :: u64
  ps_r11 :: u64
  ps_r10 :: u64
  ps_r9 :: u64
  ps_r8 :: u64
  ps_rsi :: u64
  ps_rdi :: u64
  ps_rbp :: u64
  ps_rdx :: u64
  ps_rcx :: u64
  ps_rbx :: u64
  ps_rax :: u64
  ps_rip :: u64
  ps_cs :: u64
  ps_rflags :: u64
  ps_rsp :: u64
  ps_ss :: u64

record LoadedProgram =
  lp_heap_start :: u64
  lp_page_table_root :: u64
  lp_initial_state :: ProcessorState

record 'f loader =
  ld_heap :: "mmu allocator"
  ld_user :: mem
  ld_fs :: 'f
  ld_regions :: "VirtualMemoryRegion list"

abbreviation ld_mmu :: "'f loader \<Rightarrow> mmu" where
  "ld_mmu L \<equiv> al_env (ld_heap L)"

definition set_mmu :: "mmu \<Rightarrow> 'f loader \<Rightarrow> 'f loader" where
  "set_mmu st L = L\<lparr>ld_heap := (ld_heap L)\<lparr>al_env := st\<rparr>\<rparr>"

section \<open>Regions of virtual memory\<close>

definition kmalloc :: "u64 \<Rightarrow> 'f loader \<Rightarrow> (u64 \<times> 'f loader) result" where
  "kmalloc bytes L = rbind (malloc malloc_expand_heap bytes (ld_heap L)) (\<lambda>(p, h). Inr (p, L\<lparr>ld_heap := h\<rparr>))"

definition kfree :: "u64 \<Rightarrow> 'f loader \<Rightarrow> 'f loader result" where
  "kfree p L = rbind (free p (ld_heap L)) (\<lambda>h. Inr (L\<lparr>ld_heap := h\<rparr>))"

text \<open>A new list node, which is written at once: a null pointer from \<open>malloc\<close> would be dereferenced.\<close>

definition new_region :: "'f loader \<Rightarrow> (u64 \<times> 'f loader) result" where
  "new_region L = rbind (kmalloc 32 L) (\<lambda>(p, L). if p = 0 then Inl WildAccess else Inr (p, L))"

text \<open>
  The search loop of \<open>allocate_virtual_range\<close>: the nodes before the first node that encloses the range, that node, and
  the nodes after it. The list is never empty.
\<close>

fun enclosing_region :: "u64 \<Rightarrow> u64 \<Rightarrow> VirtualMemoryRegion list \<Rightarrow>
    (VirtualMemoryRegion list \<times> VirtualMemoryRegion \<times> VirtualMemoryRegion list) result" where
  "enclosing_region page_start page_end [] = Inl WildAccess"
| "enclosing_region page_start page_end (r # rs) =
     (if vr_start_addr r \<le> page_start \<and> page_end \<le> vr_end_addr r then Inr ([], r, rs)
      else case rs of
        [] \<Rightarrow> Inl HCF
      | n # _ \<Rightarrow> if vr_is_free r \<and> vr_is_free n then Inl HCF
                 else rbind (enclosing_region page_start page_end rs) (\<lambda>(as, c, bs). Inr (r # as, c, bs)))"

text \<open>The loop over the pages of the range; \<open>None\<close> would be a loop that never ends.\<close>

partial_function (option) allocate_range_loop :: "u64 \<Rightarrow> u64 \<Rightarrow> bool \<Rightarrow> mmu \<Rightarrow> mmu result option" where
  "allocate_range_loop page_ptr page_end can_execute st =
     (if page_ptr < page_end then
        (case allocate_ram_page page_ptr can_execute st of
           Inl f \<Rightarrow> Some (Inl f)
         | Inr st' \<Rightarrow> allocate_range_loop (page_ptr + PAGE_SIZE) page_end can_execute st')
      else Some (Inr st))"

text \<open>\<open>a -> curr -> z\<close> becomes \<open>a -> curr -> allocated_region -> next_free -> z\<close>.\<close>

definition split_region :: "VirtualMemoryRegion \<Rightarrow> u64 \<Rightarrow> u64 \<Rightarrow> u64 \<Rightarrow> u64 \<Rightarrow> VirtualMemoryRegion list" where
  "split_region c page_start page_end allocated_region next_free =
     [c\<lparr>vr_end_addr := page_start\<rparr>,
      \<lparr>vr_address = allocated_region, vr_is_free = False, vr_start_addr = page_start, vr_end_addr = page_end\<rparr>,
      \<lparr>vr_address = next_free, vr_is_free = True, vr_start_addr = page_end, vr_end_addr = vr_end_addr c\<rparr>]"

definition allocate_virtual_range :: "u64 \<Rightarrow> u64 \<Rightarrow> bool \<Rightarrow> 'f loader \<Rightarrow> 'f loader result" where
  "allocate_virtual_range page_start page_end can_execute L =
     (if page_start AND 0xFFF \<noteq> 0 \<or> page_end AND 0xFFF \<noteq> 0 then Inl HCF else
      rbind (enclosing_region page_start page_end (ld_regions L)) (\<lambda>(as, c, bs).
      if \<not> vr_is_free c then Inl HCF else
      rbind (new_region L) (\<lambda>(allocated_region, L).
      rbind (new_region L) (\<lambda>(next_free, L).
      let L1 = L\<lparr>ld_regions := as @ split_region c page_start page_end allocated_region next_free @ bs\<rparr>
      in case allocate_range_loop page_start page_end can_execute (ld_mmu L1) of
           None \<Rightarrow> Inl Diverged
         | Some r \<Rightarrow> rbind r (\<lambda>st. Inr (set_mmu st L1))))))"

text \<open>
  Two free neighbours are merged: \<open>free(curr->next)\<close> and then \<open>curr->next = curr->next->next\<close>. The second statement reads
  the node after it has been freed; \<open>free\<close> leaves the bytes of a block as they are, so the old value is read.
\<close>

fun find_contiguous :: "u64 \<Rightarrow> VirtualMemoryRegion list \<Rightarrow> mmu allocator \<Rightarrow>
    (u64 \<times> VirtualMemoryRegion list \<times> mmu allocator) result" where
  "find_contiguous size_bytes [] h = Inl WildAccess"
| "find_contiguous size_bytes (r # rs) h =
     hcf_unless (vr_end_addr r \<ge> vr_start_addr r)
      (if vr_is_free r \<and> vr_end_addr r - vr_start_addr r \<ge> size_bytes then Inr (vr_start_addr r, r # rs, h)
       else case rs of
         [] \<Rightarrow> Inr (0, [r], h)
       | n # ns \<Rightarrow>
           if vr_end_addr r = vr_start_addr n \<and> vr_is_free r \<and> vr_is_free n
           then rbind (free (vr_address n) h) (find_contiguous size_bytes (r\<lparr>vr_end_addr := vr_end_addr n\<rparr> # ns))
           else rbind (find_contiguous size_bytes rs h) (\<lambda>(p, rs', h'). Inr (p, r # rs', h')))"

definition find_contiguous_virtual_range :: "u64 \<Rightarrow> 'f loader \<Rightarrow> (u64 \<times> 'f loader) result" where
  "find_contiguous_virtual_range size_bytes L =
     rbind (find_contiguous size_bytes (ld_regions L) (ld_heap L)) (\<lambda>(p, rs, h). Inr (p, L\<lparr>ld_regions := rs, ld_heap := h\<rparr>))"

section \<open>Writing to user memory\<close>

definition user_mapped :: "mmu \<Rightarrow> u64 \<Rightarrow> nat \<Rightarrow> bool" where
  "user_mapped st v n \<longleftrightarrow> list_all (\<lambda>i. translate st (v + of_nat i) \<noteq> None) [0..<n]"

definition user_store :: "u64 \<Rightarrow> u8 list \<Rightarrow> 'f loader \<Rightarrow> 'f loader result" where
  "user_store v bs L =
     (if user_mapped (ld_mmu L) v (length bs) then Inr (L\<lparr>ld_user := store_bytes v bs (ld_user L)\<rparr>) else Inl WildAccess)"

definition user_memset :: "u64 \<Rightarrow> u32 \<Rightarrow> u64 \<Rightarrow> 'f loader \<Rightarrow> 'f loader result" where
  "user_memset v c n L =
     (if user_mapped (ld_mmu L) v (unat n) then Inr (L\<lparr>ld_user := snd (memset v c n (ld_user L))\<rparr>) else Inl WildAccess)"

section \<open>Arguments\<close>

text \<open>\<open>& ~PAGE_MASK\<close>, and rounding up to whole pages.\<close>

definition page_floor :: "u64 \<Rightarrow> u64" where
  "page_floor v = v AND NOT 0xFFF"

definition page_ceil :: "u64 \<Rightarrow> u64" where
  "page_ceil v = page_floor (v + PAGE_SIZE - 1)"

definition load64 :: "mem \<Rightarrow> u64 \<Rightarrow> u64" where
  "load64 m p = le64 (mem_bytes m p 8)"

partial_function (option) count_args :: "mem \<Rightarrow> u64 \<Rightarrow> u64 \<Rightarrow> u64 \<Rightarrow> (u64 \<times> u64) option" where
  "count_args m argv argc num_bytes_for_args_and_argc =
     (if load64 m (argv + 8 * argc) \<noteq> 0 then
        (case strlen (load64 m (argv + 8 * argc)) m of
           None \<Rightarrow> None
         | Some n \<Rightarrow> count_args m argv (argc + 1) (num_bytes_for_args_and_argc + 8 + (n + 1)))
      else Some (argc, num_bytes_for_args_and_argc))"

text \<open>One turn of the loop that writes the pointers and the strings; \<open>strcpy\<close> copies from kernel to user memory.\<close>

definition write_arg :: "u64 \<Rightarrow> u64 \<Rightarrow> nat \<Rightarrow> u64 \<times> 'f loader \<Rightarrow> (u64 \<times> 'f loader) result" where
  "write_arg argv output_allocated_argv i = (\<lambda>(curr_offset, L).
     rbind (user_store (output_allocated_argv + 8 * of_nat i) (bytes64 curr_offset) L) (\<lambda>L.
     let m = al_bytes (ld_heap L); arg = load64 m (argv + 8 * of_nat i) in
     case strlen arg m of
       None \<Rightarrow> Inl Diverged
     | Some n \<Rightarrow> rbind (user_store curr_offset (mem_bytes m arg (unat n) @ [0]) L) (\<lambda>L. Inr (curr_offset + (n + 2), L))))"

definition setup_args_for_new_process :: "u64 \<Rightarrow> 'f loader \<Rightarrow> ((u64 \<times> u64) \<times> 'f loader) result" where
  "setup_args_for_new_process argv L =
     (case count_args (al_bytes (ld_heap L)) argv 0 0 of
        None \<Rightarrow> Inl Diverged
      | Some (argc, num_bytes) \<Rightarrow>
          let num_bytes = page_ceil (num_bytes + 8) in
          rbind (find_contiguous_virtual_range num_bytes L) (\<lambda>(args_data_start, L).
          rbind (allocate_virtual_range args_data_start (args_data_start + num_bytes) False L) (\<lambda>L.
          rbind (rfold (write_arg argv args_data_start) [0..<unat argc] (args_data_start + (argc + 1) * 8, L)) (\<lambda>(_, L).
          rbind (user_store (args_data_start + 8 * argc) (bytes64 0) L) (\<lambda>L.
          Inr ((argc, args_data_start), L))))))"

section \<open>Loading\<close>

definition check_header :: "ElfFile \<Rightarrow> unit result" where
  "check_header header =
     (if ef_file_header header \<noteq> [0x7F, 69, 76, 70] then Inl HCF
      else if ef_bit_size_flag header \<noteq> 2 then Inl HCF
      else if ef_endianness header \<noteq> 1 then Inl HCF
      else if ef_header_version header \<noteq> 1 then Inl HCF
      else if ef_os_abi header \<noteq> 0 then Inl HCF
      else if ef_type header \<noteq> 2 then Inl HCF
      else if ef_instruction_set header \<noteq> 0x3E then Inl HCF
      else if ef_elf_version header \<noteq> 1 then Inl HCF
      else if ef_header_size header \<noteq> 64 then Inl HCF
      else if ef_program_header_table_entry_size header \<noteq> 56 then Inl HCF
      else Inr ())"

definition load_segment :: "'f VNode \<Rightarrow> ElfProgramHeader \<Rightarrow> 'f loader \<Rightarrow> 'f loader result" where
  "load_segment exe ph L =
     (let page_alloc_start = page_floor (ph_p_vaddr ph);
          page_alloc_end = page_ceil (ph_p_vaddr ph + ph_p_memsz ph)
      in rbind (allocate_virtual_range page_alloc_start page_alloc_end (bit (ph_flags ph) 0) L) (\<lambda>L.
         rbind (vn_read_file exe (vn_id exe) (ph_p_offset ph) (unat (ph_p_filesz ph)) (ld_fs L)) (\<lambda>(data, fs).
         rbind (user_store (ph_p_vaddr ph) data (L\<lparr>ld_fs := fs\<rparr>)) (\<lambda>L.
         if length data \<noteq> unat (ph_p_filesz ph) then Inl HCF
         else user_memset (ph_p_vaddr ph + ph_p_filesz ph) 0 (ph_p_memsz ph - ph_p_filesz ph) L))))"

text \<open>An interpreter segment always ends in a halt, after up to \<open>p_filesz\<close> bytes were read into a block of 1024.\<close>

definition show_interpreter :: "'f VNode \<Rightarrow> ElfProgramHeader \<Rightarrow> 'f loader \<Rightarrow> 'f loader result" where
  "show_interpreter exe ph L =
     rbind (kmalloc 1024 L) (\<lambda>(data, L).
     rbind (vn_read_file exe (vn_id exe) (ph_p_offset ph) (unat (ph_p_filesz ph)) (ld_fs L)) (\<lambda>(bytes, fs).
     if data = 0 \<or> length bytes > 1024 then Inl WildAccess else Inl HCF))"

definition handle_segment :: "'f VNode \<Rightarrow> ElfFile \<Rightarrow> ElfProgramHeader \<Rightarrow> 'f loader \<Rightarrow> 'f loader result" where
  "handle_segment exe header ph L =
     (if ph_segment_type ph = 6 then
        hcf_unless (ph_flags ph = 4)
        (hcf_unless (ph_p_offset ph = ef_program_header_table_offset header)
        (hcf_unless (ph_p_filesz ph = 56 * ucast (ef_program_header_table_num_entries header))
        (hcf_unless (ph_p_memsz ph = ph_p_filesz ph)
        (load_segment exe ph L))))
      else if ph_segment_type ph = 1 then load_segment exe ph L
      else if ph_segment_type ph = 3 then show_interpreter exe ph L
      else if ph_segment_type ph = 1685382482 \<or> ph_segment_type ph = 1685382481 then Inr L
      else Inl HCF)"

text \<open>The part of \<open>instantiate_ELF\<close> that reads the program headers and handles each segment.\<close>

definition load_segments :: "'f VNode \<Rightarrow> ElfFile \<Rightarrow> 'f loader \<Rightarrow> 'f loader result" where
  "load_segments exe header L =
     (let n = unat (ef_program_header_table_num_entries header); headers_num_bytes = 56 * n in
      rbind (kmalloc (of_nat headers_num_bytes) L) (\<lambda>(prog_headers, L).
      rbind (vn_read_file exe (vn_id exe) (ef_program_header_table_offset header) headers_num_bytes (ld_fs L)) (\<lambda>(bytes, fs).
      if prog_headers = 0 \<and> bytes \<noteq> [] then Inl WildAccess
      else if length bytes \<noteq> headers_num_bytes then Inl HCF
      else rbind (rfold (handle_segment exe header) (decode_program_headers n bytes) (L\<lparr>ld_fs := fs\<rparr>)) (kfree prog_headers))))"

abbreviation STACK_SIZE :: u64 where "STACK_SIZE \<equiv> 16 * PAGE_SIZE"

definition setup_stack :: "'f loader \<Rightarrow> (u64 \<times> 'f loader) result" where
  "setup_stack L =
     rbind (find_contiguous_virtual_range STACK_SIZE L) (\<lambda>(stack_virt_base, L).
     rbind (allocate_virtual_range stack_virt_base (stack_virt_base + STACK_SIZE) False L) (\<lambda>L.
     Inr (stack_virt_base + STACK_SIZE, L)))"

definition initial_state :: "ElfFile \<Rightarrow> u64 \<Rightarrow> u64 \<Rightarrow> u64 \<Rightarrow> u64 \<Rightarrow> ProcessorState" where
  "initial_state header stack_start argc argv_in_userspace envp_in_userspace = \<lparr>ps_r15 = 0, ps_r14 = 0, ps_r13 = 0, ps_r12 = 0,
     ps_r11 = 0, ps_r10 = 0, ps_r9 = 0, ps_r8 = 0, ps_rsi = argv_in_userspace, ps_rdi = argc, ps_rbp = stack_start,
     ps_rdx = envp_in_userspace, ps_rcx = 0, ps_rbx = 0, ps_rax = 0, ps_rip = ef_entry_offset header, ps_cs = 0x1B,
     ps_rflags = 0x202, ps_rsp = stack_start, ps_ss = 0x23\<rparr>"

text \<open>The part of \<open>instantiate_ELF\<close> that makes the page table, switches to it and starts the list of regions.\<close>

definition new_address_space :: "'f loader \<Rightarrow> (u64 \<times> 'f loader) result" where
  "new_address_space L =
     rbind (generate_clean_virtual_addressing (ld_mmu L)) (\<lambda>(new_cr3, st).
     rbind (new_region (set_mmu (st\<lparr>mm_cr3 := new_cr3\<rparr>) L)) (\<lambda>(p, L).
     Inr (new_cr3, L\<lparr>ld_regions := [\<lparr>vr_address = p, vr_is_free = True, vr_start_addr = PAGE_SIZE,
       vr_end_addr = 0x00007FFFFFFFFFFF\<rparr>]\<rparr>)))"

definition instantiate_ELF :: "'f VNode \<Rightarrow> u64 \<Rightarrow> u64 \<Rightarrow> 'f loader \<Rightarrow> (LoadedProgram \<times> 'f loader) result" where
  "instantiate_ELF exe argv envp L =
     rbind (vn_read_file exe (vn_id exe) 0 64 (ld_fs L)) (\<lambda>(bytes, fs).
     if length bytes \<noteq> 64 then Inl HCF else
     let header = decode_elf_file bytes; prev_cr3 = mm_cr3 (ld_mmu L) in
     rbind (check_header header) (\<lambda>_.
     rbind (new_address_space (L\<lparr>ld_fs := fs\<rparr>)) (\<lambda>(new_cr3, L).
     rbind (load_segments exe header L) (\<lambda>L.
     rbind (setup_stack L) (\<lambda>(stack_start, L).
     rbind (setup_args_for_new_process argv L) (\<lambda>((argc, argv_in_userspace), L).
     rbind (setup_args_for_new_process envp L) (\<lambda>((_, envp_in_userspace), L).
     rbind (find_contiguous_virtual_range (ram_size_bytes (mm_slab (ld_mmu L))) L) (\<lambda>(heap_virt_base, L).
     rbind (rfold (\<lambda>r. kfree (vr_address r)) (ld_regions L) L) (\<lambda>L.
     Inr (\<lparr>lp_heap_start = heap_virt_base, lp_page_table_root = new_cr3,
            lp_initial_state = initial_state header stack_start argc argv_in_userspace envp_in_userspace\<rparr>,
          set_mmu ((ld_mmu L)\<lparr>mm_cr3 := prev_cr3\<rparr>) L))))))))))"

end
