(* ===== verification/Elf_Regions.thy ===== *)
theory Elf_Regions
  imports Elf_Loader
begin

text \<open>
  The loader's bookkeeping is right: the region list always tiles the user half of the address space, alternates between
  free and used regions, and agrees with the page tables; a range is only ever taken from free space.
\<close>

section \<open>Statements that return when they have what they need\<close>

text \<open>A statement that returns a result with \<open>P\<close> under the condition \<open>c\<close>, and otherwise returns such a result or halts.\<close>

definition ok_if :: "bool \<Rightarrow> ('a \<Rightarrow> bool) \<Rightarrow> 'a result \<Rightarrow> bool" where
  "ok_if c P r = (case r of Inl f \<Rightarrow> f = HCF \<and> \<not> c | Inr x \<Rightarrow> P x)"

lemma ok_if_simps [simp]: "ok_if c P (Inl f) \<longleftrightarrow> f = HCF \<and> \<not> c" "ok_if c P (Inr x) \<longleftrightarrow> P x"
  by (simp_all add: ok_if_def)

lemma ok_if_rbind:
  assumes "ok_if c Q m" "\<And>x. m = Inr x \<Longrightarrow> Q x \<Longrightarrow> ok_if c P (f x)"
  shows "ok_if c P (rbind m f)"
  using assms by (cases m) simp_all

lemma ok_if_mono: "ok_if c P r \<Longrightarrow> (c' \<Longrightarrow> c) \<Longrightarrow> (\<And>x. P x \<Longrightarrow> Q x) \<Longrightarrow> ok_if c' Q r"
  by (cases r) auto

lemma ok_if_returns: "ok_if c P r \<Longrightarrow> c \<Longrightarrow> returns P r"
  by (cases r) simp_all

lemma ok_if_halts: "ok_if c P r \<Longrightarrow> halts_or P r"
  by (cases r) simp_all

section \<open>Lists of regions\<close>

fun tiles :: "nat \<Rightarrow> VirtualMemoryRegion list \<Rightarrow> nat \<Rightarrow> bool" where
  "tiles a [] b \<longleftrightarrow> a = b"
| "tiles a (r # rs) b \<longleftrightarrow> unat (vr_start_addr r) = a \<and> a \<le> unat (vr_end_addr r) \<and> tiles (unat (vr_end_addr r)) rs b"

fun alternating :: "VirtualMemoryRegion list \<Rightarrow> bool" where
  "alternating [] \<longleftrightarrow> False"
| "alternating [r] \<longleftrightarrow> vr_is_free r"
| "alternating (r # s # rs) \<longleftrightarrow> vr_is_free r \<and> \<not> vr_is_free s \<and> alternating rs"

abbreviation USER_END :: nat where "USER_END \<equiv> 0x7FFFFFFFFFFF"

definition regions_wf :: "VirtualMemoryRegion list \<Rightarrow> bool" where
  "regions_wf rs \<longleftrightarrow> tiles 4096 rs USER_END \<and> alternating rs \<and>
     (\<forall>r \<in> set rs. page_aligned (vr_start_addr r) \<and> (\<not> vr_is_free r \<longrightarrow> page_aligned (vr_end_addr r) \<and> vr_start_addr r < vr_end_addr r))"

definition covers :: "VirtualMemoryRegion \<Rightarrow> u64 \<Rightarrow> bool" where
  "covers r v \<longleftrightarrow> vr_start_addr r \<le> v \<and> v < vr_end_addr r"

definition used :: "VirtualMemoryRegion list \<Rightarrow> u64 \<Rightarrow> bool" where
  "used rs v \<longleftrightarrow> (\<exists>r \<in> set rs. \<not> vr_is_free r \<and> covers r v)"

lemma tiles_append: "tiles a (rs @ ss) b \<longleftrightarrow> (\<exists>m. tiles a rs m \<and> tiles m ss b)"
  by (induction rs arbitrary: a) auto

lemma tiles_le: "tiles a rs b \<Longrightarrow> a \<le> b"
  by (induction rs arbitrary: a) force+

lemma tiles_bounds: "tiles a rs b \<Longrightarrow> r \<in> set rs \<Longrightarrow> a \<le> unat (vr_start_addr r) \<and> unat (vr_start_addr r) \<le> unat (vr_end_addr r) \<and> unat (vr_end_addr r) \<le> b"
proof (induction rs arbitrary: a)
  case (Cons s rs)
  then show ?case using tiles_le [of "unat (vr_end_addr s)" rs b] by fastforce
qed simp

lemma alternating_head: "alternating (r # rs) \<Longrightarrow> vr_is_free s = vr_is_free r \<Longrightarrow> alternating (s # rs)"
  by (cases rs) simp_all

lemma alternating_split:
  "alternating (as @ c # bs) \<Longrightarrow> vr_is_free c \<Longrightarrow> vr_is_free c' \<Longrightarrow> \<not> vr_is_free u \<Longrightarrow> vr_is_free n \<Longrightarrow> alternating (as @ c' # u # n # bs)"
proof (induction as rule: alternating.induct)
  case 1
  then have "alternating (n # bs)" using alternating_head [of c bs n] by simp
  then show ?case using 1 by simp
qed simp_all

lemma alternating_pairs: "alternating rs \<Longrightarrow> successively (\<lambda>r s. \<not> (vr_is_free r \<and> vr_is_free s)) rs"
proof (induction rs rule: alternating.induct)
  case (3 r s rs)
  then show ?case by (cases rs) auto
qed simp_all

lemma alternating_last: "alternating rs \<Longrightarrow> rs \<noteq> [] \<and> vr_is_free (last rs)"
  by (induction rs rule: alternating.induct) auto

text \<open>The search only ever returns a node of the list that encloses the range, and it finds a free one that does.\<close>

lemma enclosing_region_steps:
  "enclosing_region p q [r] = (if vr_start_addr r \<le> p \<and> q \<le> vr_end_addr r then Inr ([], r, []) else Inl HCF)"
  "enclosing_region p q (r # s # rs) = (if vr_start_addr r \<le> p \<and> q \<le> vr_end_addr r then Inr ([], r, s # rs)
     else if vr_is_free r \<and> vr_is_free s then Inl HCF
     else rbind (enclosing_region p q (s # rs)) (\<lambda>(as, c, bs). Inr (r # as, c, bs)))"
  by simp_all

declare enclosing_region.simps(2) [simp del]

lemma enclosing_region_sound:
  "enclosing_region p q rs = Inr (as, c, bs) \<Longrightarrow> rs = as @ c # bs \<and> vr_start_addr c \<le> p \<and> q \<le> vr_end_addr c"
proof (induction rs arbitrary: as rule: induct_list012)
  case (3 r s rs)
  then show ?case by (auto simp: enclosing_region_steps(2) result_simps split: if_splits)
qed (auto simp: enclosing_region_steps(1) split: if_splits)

lemma enclosing_region_fault: "rs \<noteq> [] \<Longrightarrow> enclosing_region p q rs = Inl f \<Longrightarrow> f = HCF"
proof (induction rs rule: induct_list012)
  case (3 r s rs)
  then show ?case by (auto simp: enclosing_region_steps(2) rbind_eq_Inl_iff split: if_splits)
qed (auto simp: enclosing_region_steps(1) split: if_splits)

lemma enclosing_region_finds:
  assumes "successively (\<lambda>r s. \<not> (vr_is_free r \<and> vr_is_free s)) rs" "r \<in> set rs" "vr_start_addr r \<le> p" "q \<le> vr_end_addr r"
  shows "\<exists>x. enclosing_region p q rs = Inr x"
  using assms
proof (induction rs rule: induct_list012)
  case (3 r1 r2 rs)
  show ?case
  proof (cases "vr_start_addr r1 \<le> p \<and> q \<le> vr_end_addr r1")
    case True
    then show ?thesis by (simp add: enclosing_region_steps(2))
  next
    case False
    then have "r \<in> set (r2 # rs)" using "3.prems"(2-4) by auto
    then obtain x where "enclosing_region p q (r2 # rs) = Inr x" using 3 by auto
    then show ?thesis using False "3.prems"(1) by (cases x) (auto simp: enclosing_region_steps(2))
  qed
qed (auto simp: enclosing_region_steps(1))

lemma tiles_unique:
  assumes "tiles a rs b" "r \<in> set rs" "s \<in> set rs" "p < q" "vr_start_addr r \<le> p" "q \<le> vr_end_addr r" "vr_start_addr s \<le> p" "q \<le> vr_end_addr s"
  shows "r = s"
  using assms
proof (induction rs arbitrary: a)
  case (Cons x rs)
  have x: "tiles (unat (vr_end_addr x)) rs b" using Cons.prems(1) by simp
  have "\<not> (vr_start_addr y \<le> p \<and> q \<le> vr_end_addr x)" if "y \<in> set rs" for y
    using tiles_bounds [OF x that] Cons.prems(4) by (auto simp: word_le_nat_alt word_less_nat_alt)
  then show ?case using Cons by auto
qed simp

lemma covers_unique:
  assumes "tiles a rs b" "r \<in> set rs" "s \<in> set rs" "covers r v" "covers s v"
  shows "r = s"
proof (rule tiles_unique [OF assms(1-3), of v "v + 1"])
  have "v < vr_end_addr r" using assms(4) by (simp add: covers_def)
  then have "unat (v + 1) = Suc (unat v)" by (rule unat_plus1_less)
  then show "v < v + 1" "v + 1 \<le> vr_end_addr r" "v + 1 \<le> vr_end_addr s"
    using assms(4,5) by (auto simp: covers_def word_less_nat_alt word_le_nat_alt)
qed (use assms in \<open>auto simp: covers_def\<close>)

text \<open>Taking a range out of a free region.\<close>

lemma regions_wf_split:
  fixes x y :: u64
  assumes wf: "regions_wf (as @ c # bs)" and c: "vr_is_free c" "vr_start_addr c \<le> p" "q \<le> vr_end_addr c"
    and pq: "p < q" "page_aligned p" "page_aligned q"
  defines "rs \<equiv> as @ split_region c p q x y @ bs"
  shows "regions_wf rs" and "used rs v \<longleftrightarrow> used (as @ c # bs) v \<or> p \<le> v \<and> v < q"
    and "p \<le> v \<Longrightarrow> v < q \<Longrightarrow> \<not> used (as @ c # bs) v"
proof -
  have t: "tiles 4096 (as @ c # bs) USER_END" using wf by (simp add: regions_wf_def)
  then have "tiles 4096 rs USER_END" using c pq unfolding rs_def split_region_def by (auto simp: tiles_append word_le_nat_alt word_less_nat_alt)
  moreover have "alternating rs" unfolding rs_def split_region_def append_Cons append_Nil
    using wf c(1) by (intro alternating_split [of as c bs]) (simp_all add: regions_wf_def)
  ultimately show "regions_wf rs" using wf pq c(1) by (auto simp: regions_wf_def rs_def split_region_def)
  show "used rs v \<longleftrightarrow> used (as @ c # bs) v \<or> p \<le> v \<and> v < q" using c(1) by (auto simp: used_def rs_def covers_def split_region_def)
  show "\<not> used (as @ c # bs) v" if "p \<le> v" "v < q"
  proof
    assume "used (as @ c # bs) v"
    then obtain r where r: "r \<in> set (as @ c # bs)" "\<not> vr_is_free r" "covers r v" by (auto simp: used_def)
    have "covers c v" using c that by (auto simp: covers_def)
    with covers_unique [OF t r(1) _ r(3), of c] c(1) r(2) show False by simp
  qed
qed

text \<open>Under the invariant the search for free space merges nothing and leaves the list as it is.\<close>

lemma find_contiguous_steps:
  "find_contiguous n [r] h = hcf_unless (vr_end_addr r \<ge> vr_start_addr r)
     (if vr_is_free r \<and> vr_end_addr r - vr_start_addr r \<ge> n then Inr (vr_start_addr r, [r], h) else Inr (0, [r], h))"
  "\<not> (vr_is_free r \<and> vr_is_free s) \<Longrightarrow> find_contiguous n (r # s # rs) h = hcf_unless (vr_end_addr r \<ge> vr_start_addr r)
     (if vr_is_free r \<and> vr_end_addr r - vr_start_addr r \<ge> n then Inr (vr_start_addr r, r # s # rs, h)
      else rbind (find_contiguous n (s # rs) h) (\<lambda>(p, rs', h'). Inr (p, r # rs', h')))"
  by auto

declare find_contiguous.simps(2) [simp del]

definition found :: "u64 \<Rightarrow> VirtualMemoryRegion list \<Rightarrow> u64 \<Rightarrow> bool" where
  "found n rs p \<longleftrightarrow> (\<exists>r \<in> set rs. vr_is_free r \<and> p = vr_start_addr r \<and> n \<le> vr_end_addr r - vr_start_addr r)"

lemma find_contiguous_ok:
  assumes "successively (\<lambda>r s. \<not> (vr_is_free r \<and> vr_is_free s)) rs" "rs \<noteq> []" "\<forall>r \<in> set rs. vr_start_addr r \<le> vr_end_addr r"
  shows "\<exists>p. find_contiguous n rs h = Inr (p, rs, h) \<and> (p = 0 \<and> (\<nexists>p. found n rs p) \<or> found n rs p)"
  using assms
proof (induction rs rule: induct_list012)
  case (3 r s rs)
  then obtain p where p: "find_contiguous n (s # rs) h = Inr (p, s # rs, h)" "p = 0 \<and> (\<nexists>p. found n (s # rs) p) \<or> found n (s # rs) p" by auto
  have np: "\<not> (vr_is_free r \<and> vr_is_free s)" using "3.prems"(1) by simp
  show ?case
  proof (cases "vr_is_free r \<and> vr_end_addr r - vr_start_addr r \<ge> n")
    case True
    then show ?thesis using "3.prems"(3) by (auto simp: find_contiguous_steps(2) [OF np] found_def)
  next
    case False
    then show ?thesis using "3.prems"(3) p by (auto simp: find_contiguous_steps(2) [OF np] found_def)
  qed
qed (auto simp: find_contiguous_steps(1) found_def)

section \<open>The loop over pages\<close>

lemma rfold_map: "rfold f (map g xs) = rfold (\<lambda>x. f (g x)) xs"
proof
  show "rfold f (map g xs) s = rfold (\<lambda>x. f (g x)) xs s" for s
    by (induction xs arbitrary: s) (simp_all add: rbind_def split: sum.splits)
qed

lemma allocate_range_loop_eq:
  "unat q = unat p + 4096 * n \<Longrightarrow> allocate_range_loop p q x st = Some (allocate_pages p x n st)"
proof (induction n arbitrary: p st)
  case 0
  then show ?case by (subst allocate_range_loop.simps) (simp add: word_less_nat_alt)
next
  case (Suc n)
  have lt: "p < q" using Suc.prems by (simp add: word_less_nat_alt)
  have "unat p + 4096 < 2 ^ 64" using Suc.prems unsigned_less [of q, where ?'a = nat] by simp
  then have u: "unat (p + PAGE_SIZE) = unat p + 4096" by (simp add: unat_word_ariths)
  have up: "[0..<Suc n] = 0 # map Suc [0..<n]" by (simp add: map_Suc_upt upt_conv_Cons)
  have "allocate_pages p x (Suc n) st = rbind (allocate_ram_page p x st) (allocate_pages (p + PAGE_SIZE) x n)"
    unfolding up by (simp add: rfold_map add.assoc distrib_left)
  moreover have "allocate_range_loop (p + PAGE_SIZE) q x st' = Some (allocate_pages (p + PAGE_SIZE) x n st')" for st'
    using Suc.prems u by (intro Suc.IH) simp
  ultimately show ?case using lt by (subst allocate_range_loop.simps) (simp add: rbind_def split: sum.splits)
qed

section \<open>The loader's invariant\<close>

abbreviation ld_free :: "'f loader \<Rightarrow> nat" where
  "ld_free L \<equiv> free_pages (mm_slab (ld_mmu L))"

text \<open>
  \<open>ps\<close> are the heap blocks that the loader holds beside the list nodes. A user address is mapped exactly when
  it lies in a used region.
\<close>

definition loader_ok :: "nat \<Rightarrow> nat \<Rightarrow> u64 list \<Rightarrow> 'f loader \<Rightarrow> bool" where
  "loader_ok lo hi ps L \<longleftrightarrow> kspace lo hi (ld_heap L) \<and> held (ld_heap L) (ps @ map vr_address (ld_regions L)) \<and>
     regions_wf (ld_regions L) \<and>
     (\<forall>v. user_addr v \<longrightarrow> (translate (ld_mmu L) v \<noteq> None \<longleftrightarrow> used (ld_regions L) v) \<and> no_huge (ld_mmu L) v)"

text \<open>Later states of the loader: what was in use stays in use with its contents.\<close>

definition grows :: "'f loader \<Rightarrow> 'f loader \<Rightarrow> bool" where
  "grows L L' \<longleftrightarrow> (\<forall>v. used (ld_regions L) v \<longrightarrow> used (ld_regions L') v \<and> ld_user L' v = ld_user L v) \<and>
     al_bytes (ld_heap L') = al_bytes (ld_heap L) \<and> mm_cr3 (ld_mmu L') = mm_cr3 (ld_mmu L)"

lemma grows_refl [simp]: "grows L L"
  by (simp add: grows_def)

lemma grows_trans [trans]: "grows L L1 \<Longrightarrow> grows L1 L2 \<Longrightarrow> grows L L2"
  by (simp add: grows_def)

lemma used_user: "regions_wf rs \<Longrightarrow> used rs v \<Longrightarrow> user_addr v"
proof -
  assume "regions_wf rs" "used rs v"
  then obtain r where "r \<in> set rs" "v < vr_end_addr r" "tiles 4096 rs USER_END" by (auto simp: used_def covers_def regions_wf_def)
  then show ?thesis using tiles_bounds [of 4096 rs USER_END r] by (auto simp: user_addr_def word_less_nat_alt)
qed

lemma kmalloc_ok:
  assumes ok: "loader_ok lo hi ps L" and b: "bytes \<noteq> 0" "unat bytes \<le> 2 ^ 63"
  shows "ok_if (4 * pages_for bytes \<le> ld_free L)
    (\<lambda>(p, L'). p \<noteq> 0 \<and> loader_ok lo hi (p # ps) L' \<and> grows L L' \<and> ld_regions L' = ld_regions L \<and> ld_user L' = ld_user L \<and>
       ld_fs L' = ld_fs L \<and> ld_free L \<le> ld_free L' + 4 * pages_for bytes) (kmalloc bytes L)"
proof -
  have ks: "kspace lo hi (ld_heap L)" and h: "held (ld_heap L) (ps @ map vr_address (ld_regions L))"
    using ok by (simp_all add: loader_ok_def)
  from kmalloc_cases [OF ks b] show ?thesis
  proof (elim disjE conjE exE)
    fix p h' assume m: "malloc malloc_expand_heap bytes (ld_heap L) = Inr (p, h')" "malloced lo hi bytes (ld_heap L) p h'"
    then have "held h' (p # ps @ map vr_address (ld_regions L))" using h by (simp add: malloced_def)
    moreover have "user_same (ld_mmu L) (al_env h')" "keeps_space (ld_mmu L) (al_env h')" using m(2) by (simp_all add: malloced_def)
    ultimately have "loader_ok lo hi (p # ps) (L\<lparr>ld_heap := h'\<rparr>)" "grows L (L\<lparr>ld_heap := h'\<rparr>)"
      using ok m(2) by (auto simp: loader_ok_def malloced_def user_same_def keeps_space_def grows_def)
    then show ?thesis using m by (simp add: kmalloc_def malloced_def)
  qed (auto simp: kmalloc_def)
qed

lemma kfree_loader:
  assumes ok: "loader_ok lo hi (p # ps) L"
  shows "\<exists>L'. kfree p L = Inr L' \<and> loader_ok lo hi ps L' \<and> grows L L' \<and> ld_regions L' = ld_regions L \<and> ld_user L' = ld_user L \<and>
    ld_fs L' = ld_fs L \<and> ld_mmu L' = ld_mmu L"
proof -
  have ks: "kspace lo hi (ld_heap L)" and h: "held (ld_heap L) (p # ps @ map vr_address (ld_regions L))"
    using ok by (simp_all add: loader_ok_def)
  from kfree_ok [OF ks h, of p] obtain h' where "free p (ld_heap L) = Inr h'" "kspace lo hi h'"
    "held h' (ps @ map vr_address (ld_regions L))" "al_bytes h' = al_bytes (ld_heap L)" "al_env h' = ld_mmu L" by auto
  then show ?thesis using ok by (auto simp: kfree_def loader_ok_def grows_def)
qed

lemma new_region_ok:
  assumes "loader_ok lo hi ps L"
  shows "ok_if (4 \<le> ld_free L)
    (\<lambda>(p, L'). p \<noteq> 0 \<and> loader_ok lo hi (p # ps) L' \<and> grows L L' \<and> ld_regions L' = ld_regions L \<and> ld_user L' = ld_user L \<and>
       ld_fs L' = ld_fs L \<and> ld_free L \<le> ld_free L' + 4) (new_region L)"
  unfolding new_region_def using kmalloc_ok [OF assms, of 32]
  by (intro ok_if_rbind [where Q = "\<lambda>(p, L'). p \<noteq> 0 \<and> loader_ok lo hi (p # ps) L' \<and> grows L L' \<and> ld_regions L' = ld_regions L \<and>
       ld_user L' = ld_user L \<and> ld_fs L' = ld_fs L \<and> ld_free L \<le> ld_free L' + 4"]) (simp_all add: pages_for_def split: prod.splits)

section \<open>Pages of the user half\<close>

lemma user_pages:
  assumes al: "page_aligned p" and le: "unat p + 4096 * n \<le> 2 ^ 47"
  shows "i < n \<Longrightarrow> unat (p + PAGE_SIZE * of_nat i) = unat p + 4096 * i"
    and "i < n \<Longrightarrow> user_addr (p + PAGE_SIZE * of_nat i)"
    and "inj_on (\<lambda>i. vpath (p + PAGE_SIZE * of_nat i)) {..<n}"
    and "user_addr v \<Longrightarrow> (\<exists>i < n. vpath v = vpath (p + PAGE_SIZE * of_nat i)) \<longleftrightarrow> unat p \<le> unat v \<and> unat v < unat p + 4096 * n"
proof -
  show u: "unat (p + PAGE_SIZE * of_nat i) = unat p + 4096 * i" if "i < n" for i
    using le that by (simp add: unat_word_ariths unat_of_nat)
  show ua: "user_addr (p + PAGE_SIZE * of_nat i)" if "i < n" for i
    using u [OF that] le that by (simp add: user_addr_def)
  obtain k where k: "unat p = 4096 * k" using al by (auto simp: page_aligned_def)
  have no: "page_no (p + PAGE_SIZE * of_nat i) = k + i" if "i < n" for i using u [OF that] k by (simp add: page_no_def)
  show "inj_on (\<lambda>i. vpath (p + PAGE_SIZE * of_nat i)) {..<n}"
    by (rule inj_onI) (simp add: user_vpath_iff ua no)
  show "(\<exists>i < n. vpath v = vpath (p + PAGE_SIZE * of_nat i)) \<longleftrightarrow> unat p \<le> unat v \<and> unat v < unat p + 4096 * n" if v: "user_addr v"
  proof -
    have "(\<exists>i < n. vpath v = vpath (p + PAGE_SIZE * of_nat i)) \<longleftrightarrow> (\<exists>i < n. unat v div 4096 = k + i)"
      using user_vpath_iff [OF v ua] no by (auto simp: page_no_def)
    also have "\<dots> \<longleftrightarrow> k \<le> unat v div 4096 \<and> unat v div 4096 < k + n" by (auto simp: le_iff_add)
    also have "\<dots> \<longleftrightarrow> unat p \<le> unat v \<and> unat v < unat p + 4096 * n" unfolding k by (auto simp: less_eq_div_iff_mult_less_eq div_less_iff_less_mult algebra_simps)
    finally show ?thesis .
  qed
qed

text \<open>Mapping user pages leaves the kernel's heap well formed.\<close>

lemma kspace_user_pages:
  assumes ks: "kspace lo hi h" and m: "pages_mapped p n (al_env h) st'" and p: "page_aligned p" "unat p + 4096 * n \<le> 2 ^ 47"
  shows "kspace lo hi (h\<lparr>al_env := st'\<rparr>)"
proof -
  note kb = kspace_bounds [OF ks]
  have k: "keeps_space (al_env h) st'" using m by (simp add: pages_mapped_def)
  have "kernel_okay lo hi st'" using kb(1) k by (simp add: kernel_okay_def keeps_space_def)
  moreover have "unat (al_heap_end h) + kernel_avail st' \<le> hi"
    using kb(3) keeps_space_free [OF k] by (simp add: kernel_avail_def)
  ultimately have "kheap_inv lo hi (h\<lparr>al_env := st'\<rparr>)" using ks by (auto simp: kspace_def kheap_inv_def heap_inv_def)
  moreover have "translate st' w = None" if w: "unat (al_heap_end h) \<le> unat w" "unat w < hi" for w
  proof -
    have "KERNEL_HALF \<le> unat w" using w kb(4,6) by linarith
    then have "\<forall>i < n. vpath w \<noteq> vpath (p + PAGE_SIZE * of_nat i)" using halves_apart user_pages(2) [OF p] by metis
    then have "translate st' w = translate (al_env h) w" using m unfolding pages_mapped_def by blast
    then show ?thesis using ks w by (simp add: kspace_def)
  qed
  ultimately show ?thesis using kb(6) by (simp add: kspace_def)
qed

lemma user_pages_translate:
  assumes m: "pages_mapped p n st st'" and p: "page_aligned p" "unat p + 4096 * n \<le> 2 ^ 47" and v: "user_addr v"
  shows "translate st' v \<noteq> None \<longleftrightarrow> unat p \<le> unat v \<and> unat v < unat p + 4096 * n \<or> translate st v \<noteq> None"
proof (cases "unat p \<le> unat v \<and> unat v < unat p + 4096 * n")
  case True
  then obtain i where i: "i < n" "vpath v = vpath (p + PAGE_SIZE * of_nat i)" using user_pages(4) [OF p v] by blast
  then have "translate st' v = translate st' (p + PAGE_SIZE * of_nat i)" by (simp add: translate_vpath)
  then show ?thesis using m i(1) True by (simp add: pages_mapped_def)
next
  case False
  then have "\<forall>i < n. vpath v \<noteq> vpath (p + PAGE_SIZE * of_nat i)" using user_pages(4) [OF p v] by blast
  then have "translate st' v = translate st v" using m unfolding pages_mapped_def by blast
  then show ?thesis using False by auto
qed

section \<open>Taking a range\<close>

definition frontier :: "'f loader \<Rightarrow> nat" where
  "frontier L = unat (vr_start_addr (last (ld_regions L)))"

definition took :: "u64 \<Rightarrow> nat \<Rightarrow> 'f loader \<Rightarrow> 'f loader \<Rightarrow> bool" where
  "took p n L L' \<longleftrightarrow>
     (\<forall>v. used (ld_regions L') v \<longleftrightarrow> used (ld_regions L) v \<or> unat p \<le> unat v \<and> unat v < unat p + n) \<and>
     (\<forall>v. unat p \<le> unat v \<and> unat v < unat p + n \<longrightarrow> \<not> used (ld_regions L) v) \<and>
     grows L L' \<and> ld_user L' = ld_user L \<and> ld_fs L' = ld_fs L \<and> 4096 \<le> unat p \<and> unat p + n \<le> USER_END \<and>
     frontier L' \<le> max (frontier L) (unat p + n)"

text \<open>The pages of a range inside a free region are mapped and the list is split around it.\<close>

lemma take_range:
  assumes ok: "loader_ok lo hi (y # x # ps) L" and rs: "ld_regions L = as @ c # bs"
    and c: "vr_is_free c" "vr_start_addr c \<le> p" "q \<le> vr_end_addr c" and pq: "p < q" "page_aligned p" "page_aligned q"
    and m: "pages_mapped p ((unat q - unat p) div 4096) (ld_mmu L) st'"
  defines "L' \<equiv> set_mmu st' (L\<lparr>ld_regions := as @ split_region c p q x y @ bs\<rparr>)"
  shows "loader_ok lo hi ps L'"
    and "\<And>v. used (ld_regions L') v \<longleftrightarrow> used (ld_regions L) v \<or> unat p \<le> unat v \<and> unat v < unat q"
    and "\<And>v. unat p \<le> unat v \<and> unat v < unat q \<Longrightarrow> \<not> used (ld_regions L) v"
proof -
  let ?n = "(unat q - unat p) div 4096"
  have wf: "regions_wf (as @ c # bs)" using ok rs by (simp add: loader_ok_def)
  note sp = regions_wf_split(1,2) [OF wf c pq, where x = x and y = y] regions_wf_split(3) [OF wf c pq]
  have t: "tiles 4096 (as @ c # bs) USER_END" using wf by (simp add: regions_wf_def)
  have b: "4096 \<le> unat (vr_start_addr c)" "unat (vr_end_addr c) \<le> USER_END" using tiles_bounds [OF t, of c] by auto
  have n: "unat p + 4096 * ?n = unat q"
  proof -
    have "4096 dvd unat q - unat p" using pq by (intro dvd_diff_nat) (auto simp: page_aligned_def)
    then show ?thesis using pq(1) by (simp add: word_less_nat_alt)
  qed
  then have le: "unat p + 4096 * ?n \<le> 2 ^ 47" using c(3) b by (simp add: word_le_nat_alt)
  show u: "used (ld_regions L') v \<longleftrightarrow> used (ld_regions L) v \<or> unat p \<le> unat v \<and> unat v < unat q" for v
    using sp(2) by (simp add: L'_def set_mmu_def rs word_le_nat_alt word_less_nat_alt)
  show "\<not> used (ld_regions L) v" if "unat p \<le> unat v \<and> unat v < unat q" for v
    using sp(3) [of v] that by (simp add: rs word_le_nat_alt word_less_nat_alt)
  have "kspace lo hi (ld_heap L')"
    using kspace_user_pages [OF _ m pq(2) le, where lo = lo and hi = hi] ok by (simp add: loader_ok_def L'_def set_mmu_def)
  moreover have "held (ld_heap L') (ps @ map vr_address (ld_regions L'))"
    using ok rs by (auto simp: loader_ok_def held_def L'_def set_mmu_def split_region_def blocks_def)
  moreover have "regions_wf (ld_regions L')" using sp(1) by (simp add: L'_def set_mmu_def)
  moreover have "(translate (ld_mmu L') v \<noteq> None \<longleftrightarrow> used (ld_regions L') v) \<and> no_huge (ld_mmu L') v" if v: "user_addr v" for v
  proof -
    have "translate (ld_mmu L') v \<noteq> None \<longleftrightarrow> unat p \<le> unat v \<and> unat v < unat q \<or> translate (ld_mmu L) v \<noteq> None"
      using user_pages_translate [OF m pq(2) le v] unfolding n by (simp add: L'_def set_mmu_def)
    then show ?thesis using ok v u m by (auto simp: loader_ok_def pages_mapped_def keeps_space_def L'_def set_mmu_def)
  qed
  ultimately show "loader_ok lo hi ps L'" by (simp add: loader_ok_def)
qed

definition has_room :: "u64 \<Rightarrow> u64 \<Rightarrow> 'f loader \<Rightarrow> bool" where
  "has_room p q L \<longleftrightarrow> (\<exists>r \<in> set (ld_regions L). vr_is_free r \<and> vr_start_addr r \<le> p \<and> q \<le> vr_end_addr r)"

lemma regions_wfD:
  assumes "regions_wf rs"
  shows "tiles 4096 rs USER_END" "alternating rs" "rs \<noteq> []" "successively (\<lambda>r s. \<not> (vr_is_free r \<and> vr_is_free s)) rs"
    "vr_is_free (last rs)" "r \<in> set rs \<Longrightarrow> page_aligned (vr_start_addr r)"
  using assms alternating_pairs alternating_last by (auto simp: regions_wf_def)

lemma enclosing_region_free:
  assumes wf: "regions_wf rs" and lt: "p < q" and e: "enclosing_region p q rs = Inr (as, c, bs)"
    and r: "r \<in> set rs" "vr_is_free r" "vr_start_addr r \<le> p" "q \<le> vr_end_addr r"
  shows "vr_is_free c"
proof -
  have c: "rs = as @ c # bs" "vr_start_addr c \<le> p" "q \<le> vr_end_addr c" using enclosing_region_sound [OF e] by auto
  then have "r = c" using r lt by (intro tiles_unique [OF regions_wfD(1) [OF wf], of r c p q]) auto
  then show ?thesis using r(2) by simp
qed

lemma whole_pages: "page_aligned p \<Longrightarrow> page_aligned q \<Longrightarrow> p < q \<Longrightarrow> unat q = unat p + 4096 * ((unat q - unat p) div 4096)"
proof -
  assume "page_aligned p" "page_aligned q" and le: "p < q"
  then have "4096 dvd unat q - unat p" by (intro dvd_diff_nat) (auto simp: page_aligned_def)
  then show ?thesis using le by (simp add: word_less_nat_alt)
qed

lemma map_range_ok:
  assumes ok: "loader_ok lo hi (y # x # ps) L" and rs: "ld_regions L = as @ c # bs"
    and c: "vr_is_free c" "vr_start_addr c \<le> p" "q \<le> vr_end_addr c" and pq: "p < q" "page_aligned p" "page_aligned q"
  defines "n \<equiv> (unat q - unat p) div 4096"
  shows "ok_if (4 * n \<le> ld_free L) (\<lambda>L'. loader_ok lo hi ps L' \<and> took p (unat q - unat p) L L' \<and> ld_free L \<le> ld_free L' + 4 * n)
    (let L1 = L\<lparr>ld_regions := as @ split_region c p q x y @ bs\<rparr> in
       case allocate_range_loop p q e (ld_mmu L1) of None \<Rightarrow> Inl Diverged | Some r \<Rightarrow> rbind r (\<lambda>st. Inr (set_mmu st L1)))"
proof -
  have n: "unat q = unat p + 4096 * n" unfolding n_def using whole_pages [OF pq(2,3,1)] .
  have wf: "regions_wf (ld_regions L)" using ok by (simp add: loader_ok_def)
  have "4096 \<le> unat (vr_start_addr c)" "unat (vr_end_addr c) \<le> USER_END"
    using tiles_bounds [OF regions_wfD(1) [OF wf], of c] rs by auto
  then have b: "unat p + 4096 * n \<le> 2 ^ 47" "4096 \<le> unat p" "unat q \<le> USER_END" using c(2,3) n by (auto simp: word_le_nat_alt)
  note up = user_pages [OF pq(2) b(1)]
  have free: "\<not> used (ld_regions L) v" if "p \<le> v" "v < q" for v
    unfolding rs by (rule regions_wf_split(3) [OF wf [unfolded rs] c pq that])
  have "translate (ld_mmu L) (p + PAGE_SIZE * of_nat i) = None" if i: "i < n" for i
  proof -
    have "p \<le> p + PAGE_SIZE * of_nat i" "p + PAGE_SIZE * of_nat i < q"
      using up(1) [OF i] n i by (simp_all add: word_le_nat_alt word_less_nat_alt)
    then show ?thesis using free ok up(2) [OF i] by (auto simp: loader_ok_def)
  qed
  then have pre: "paging_ok (ld_mmu L)" "\<forall>i < n. no_huge (ld_mmu L) (p + PAGE_SIZE * of_nat i)"
      "\<forall>i < n. translate (ld_mmu L) (p + PAGE_SIZE * of_nat i) = None"
    using ok kspace_bounds(7) up(2) by (auto simp: loader_ok_def)
  have loop: "allocate_range_loop p q e (ld_mmu L) = Some (allocate_pages p e n (ld_mmu L))" by (rule allocate_range_loop_eq [OF n])
  from allocate_pages_cases [OF pre(1) pq(2) pre(2,3) up(3), of e] show ?thesis
  proof (elim disjE conjE exE)
    fix st' assume s: "allocate_pages p e n (ld_mmu L) = Inr st'" "pages_mapped p n (ld_mmu L) st'"
    let ?L' = "set_mmu st' (L\<lparr>ld_regions := as @ split_region c p q x y @ bs\<rparr>)"
    note t = take_range [OF ok rs c pq s(2) [unfolded n_def]]
    have "frontier ?L' \<le> max (frontier L) (unat q)"
      using rs by (cases bs) (simp_all add: frontier_def set_mmu_def split_region_def)
    moreover have "grows L ?L'" using t(2) s(2) by (auto simp: grows_def set_mmu_def pages_mapped_def keeps_space_def)
    moreover have "unat p + (unat q - unat p) = unat q" using pq(1) by (simp add: word_less_nat_alt)
    ultimately have "took p (unat q - unat p) L ?L'" using t(2,3) b by (simp add: took_def) (simp add: set_mmu_def)
    then show ?thesis using loop s t(1) by (simp add: pages_mapped_def set_mmu_def)
  qed (use loop in simp)
qed

lemma took_start: "took p n L1 L' \<Longrightarrow> grows L L1 \<Longrightarrow> ld_regions L1 = ld_regions L \<Longrightarrow> ld_user L1 = ld_user L \<Longrightarrow> ld_fs L1 = ld_fs L \<Longrightarrow> took p n L L'"
  by (auto simp: took_def frontier_def intro: grows_trans)

lemma allocate_virtual_range_ok:
  assumes ok: "loader_ok lo hi ps L" and le: "p < q"
  shows "ok_if (page_aligned p \<and> page_aligned q \<and> has_room p q L \<and> 8 + 4 * ((unat q - unat p) div 4096) \<le> ld_free L)
    (\<lambda>L'. loader_ok lo hi ps L' \<and> took p (unat q - unat p) L L' \<and> ld_free L \<le> ld_free L' + (8 + 4 * ((unat q - unat p) div 4096)))
    (allocate_virtual_range p q x L)" (is "ok_if ?c ?P _")
proof (cases "(p AND 0xFFF = 0 \<and> q AND 0xFFF = 0) \<and> is_ok (enclosing_region p q (ld_regions L))")
  case False
  have wf: "regions_wf (ld_regions L)" using ok by (simp add: loader_ok_def)
  show ?thesis
  proof (cases "p AND 0xFFF = 0 \<and> q AND 0xFFF = 0")
    case True
    then obtain f where f: "enclosing_region p q (ld_regions L) = Inl f" using False by (cases "enclosing_region p q (ld_regions L)") auto
    then have "f = HCF" using enclosing_region_fault regions_wfD(3) [OF wf] by blast
    moreover have "\<not> has_room p q L" using enclosing_region_finds [OF regions_wfD(4) [OF wf], of _ p q] f by (auto simp: has_room_def)
    ultimately show ?thesis using True f by (simp add: allocate_virtual_range_def)
  qed (auto simp: allocate_virtual_range_def mask_zero)
next
  case True
  then obtain as c bs where e: "enclosing_region p q (ld_regions L) = Inr (as, c, bs)"
    by (cases "enclosing_region p q (ld_regions L)") auto
  have al: "page_aligned p" "page_aligned q" using True mask_zero by blast+
  have wf: "regions_wf (ld_regions L)" using ok by (simp add: loader_ok_def)
  have c: "ld_regions L = as @ c # bs" "vr_start_addr c \<le> p" "q \<le> vr_end_addr c" using enclosing_region_sound [OF e] by auto
  let ?rest = "\<lambda>a b L. let L1 = L\<lparr>ld_regions := as @ split_region c p q a b @ bs\<rparr> in
      case allocate_range_loop p q x (ld_mmu L1) of None \<Rightarrow> Inl Diverged | Some r \<Rightarrow> rbind r (\<lambda>st. Inr (set_mmu st L1))"
  have eq: "allocate_virtual_range p q x L = (if vr_is_free c then rbind (new_region L) (\<lambda>(a, L). rbind (new_region L) (\<lambda>(b, L). ?rest a b L)) else Inl HCF)"
    using e True by (simp add: allocate_virtual_range_def)
  show ?thesis
  proof (cases "vr_is_free c")
    case False
    then have "\<not> has_room p q L" using enclosing_region_free [OF wf le e] by (auto simp: has_room_def)
    then show ?thesis unfolding eq using False by auto
  next
    case free: True
    let ?Q = "\<lambda>k qs L'. loader_ok lo hi qs L' \<and> grows L L' \<and> ld_regions L' = ld_regions L \<and> ld_user L' = ld_user L \<and>
        ld_fs L' = ld_fs L \<and> ld_free L \<le> ld_free L' + k"
    have step3: "ok_if ?c ?P (?rest a b L2)" if L2: "?Q 8 (b # a # ps) L2" for a b L2
    proof (rule ok_if_mono [OF map_range_ok [OF conjunct1 [OF L2] _ free c(2,3) le al]])
      show "ld_regions L2 = as @ c # bs" using L2 c(1) by simp
    qed (use L2 in \<open>auto intro: took_start\<close>)
    have step2: "ok_if ?c ?P (rbind (new_region L1) (\<lambda>(b, L). ?rest a b L))" if L1: "?Q 4 (a # ps) L1" for a L1
    proof (rule ok_if_rbind [where Q = "\<lambda>(b, L'). ?Q 8 (b # a # ps) L'"])
      show "ok_if ?c (\<lambda>(b, L'). ?Q 8 (b # a # ps) L') (new_region L1)"
        by (rule ok_if_mono [OF new_region_ok [OF conjunct1 [OF L1]]]) (use L1 in \<open>auto intro: grows_trans\<close>)
    qed (use step3 in \<open>auto simp only: split: prod.splits\<close>)
    have "ok_if ?c (\<lambda>(a, L'). ?Q 4 (a # ps) L') (new_region L)" by (rule ok_if_mono [OF new_region_ok [OF ok]]) auto
    then show ?thesis unfolding eq using free step2 by (auto simp only: if_True split: prod.splits intro: ok_if_rbind)
  qed
qed

section \<open>Finding room\<close>

lemma tiles_cover: "tiles a rs b \<Longrightarrow> a \<le> unat v \<Longrightarrow> unat v < b \<Longrightarrow> \<exists>r \<in> set rs. covers r v"
proof (induction rs arbitrary: a)
  case (Cons r rs)
  then show ?case
    by (cases "unat v < unat (vr_end_addr r)") (auto simp: covers_def word_le_nat_alt word_less_nat_alt)
qed simp

text \<open>A range without used addresses lies inside one free region, since used regions separate free ones.\<close>

lemma room_if_unused:
  assumes wf: "regions_wf (ld_regions L)" and pq: "4096 \<le> unat p" "p < q" "unat q \<le> USER_END"
    and free: "\<And>v. p \<le> v \<Longrightarrow> v < q \<Longrightarrow> \<not> used (ld_regions L) v"
  shows "has_room p q L"
proof -
  note t = regions_wfD(1) [OF wf]
  from tiles_cover [OF t pq(1)] pq(2,3) obtain r where r: "r \<in> set (ld_regions L)" "covers r p" by (auto simp: word_less_nat_alt)
  have fr: "vr_is_free r" using free [of p] pq(2) r by (auto simp: used_def)
  have "q \<le> vr_end_addr r"
  proof (rule ccontr)
    let ?e = "vr_end_addr r"
    assume "\<not> q \<le> ?e"
    then have e: "p \<le> ?e" "?e < q" using r(2) by (auto simp: covers_def)
    from r(1) obtain as bs where rs: "ld_regions L = as @ r # bs" by (auto simp: in_set_conv_decomp)
    then have tb: "tiles (unat ?e) bs USER_END" using t by (auto simp: tiles_append)
    have "unat ?e < USER_END" using e(2) pq(3) by (simp add: word_less_nat_alt)
    then obtain s cs where bs: "bs = s # cs" using tb by (cases bs) auto
    then have st: "vr_start_addr s = ?e" using tb by (simp add: word_unat_eq_iff)
    have "\<not> vr_is_free s" using regions_wfD(4) [OF wf] fr unfolding rs bs by (auto simp: successively_append_iff)
    moreover have "s \<in> set (ld_regions L)" by (simp add: rs bs)
    ultimately have "used (ld_regions L) ?e" using wf st by (fastforce simp: used_def covers_def regions_wf_def)
    then show False using free e by blast
  qed
  then show ?thesis using fr r by (auto simp: has_room_def covers_def)
qed

lemma start_le_last: "tiles a rs b \<Longrightarrow> r \<in> set rs \<Longrightarrow> unat (vr_start_addr r) \<le> unat (vr_start_addr (last rs))"
proof (induction rs arbitrary: a r)
  case (Cons s rs)
  show ?case
  proof (cases rs)
    case x: (Cons x xs)
    have t: "tiles (unat (vr_end_addr s)) rs b" using Cons.prems(1) by simp
    have "unat (vr_start_addr s) \<le> unat (vr_start_addr x)" using Cons.prems(1) x by simp
    also have "\<dots> \<le> unat (vr_start_addr (last rs))" using Cons.IH [OF t] x by simp
    finally show ?thesis using Cons.IH [OF t] Cons.prems(2) x by auto
  qed (use Cons.prems in auto)
qed simp

lemma tiles_last: "tiles a rs b \<Longrightarrow> rs \<noteq> [] \<Longrightarrow> unat (vr_end_addr (last rs)) = b"
  by (induction rs arbitrary: a) auto

lemma find_range_ok:
  assumes ok: "loader_ok lo hi ps L"
  shows "\<exists>b. find_contiguous_virtual_range n L = Inr (b, L) \<and>
    (b = 0 \<and> (\<nexists>b. found n (ld_regions L) b) \<and> USER_END < frontier L + unat n \<or> found n (ld_regions L) b)"
proof -
  have wf: "regions_wf (ld_regions L)" using ok by (simp add: loader_ok_def)
  note d = regions_wfD [OF wf]
  have o: "vr_start_addr r \<le> vr_end_addr r" if "r \<in> set (ld_regions L)" for r
    using tiles_bounds [OF d(1) that] by (simp add: word_le_nat_alt)
  let ?l = "last (ld_regions L)"
  have l: "?l \<in> set (ld_regions L)" "vr_is_free ?l" "unat (vr_end_addr ?l) = USER_END" using d(3,5) tiles_last [OF d(1,3)] by simp_all
  have "found n (ld_regions L) (vr_start_addr ?l)" if "frontier L + unat n \<le> USER_END"
    using that l o [OF l(1)] by (auto simp: found_def frontier_def word_le_nat_alt unat_sub64 intro!: bexI [of _ ?l])
  moreover obtain b where "find_contiguous n (ld_regions L) (ld_heap L) = Inr (b, ld_regions L, ld_heap L)"
    "b = 0 \<and> (\<nexists>b. found n (ld_regions L) b) \<or> found n (ld_regions L) b"
    using find_contiguous_ok [OF d(4,3)] o by metis
  ultimately show ?thesis by (auto simp: find_contiguous_virtual_range_def not_le [symmetric])
qed

text \<open>Finding a range and taking it.\<close>

definition reserve :: "u64 \<Rightarrow> 'f loader \<Rightarrow> (u64 \<times> 'f loader) result" where
  "reserve n L = rbind (find_contiguous_virtual_range n L) (\<lambda>(b, L).
     rbind (allocate_virtual_range b (b + n) False L) (\<lambda>L. Inr (b, L)))"

lemma reserve_ok:
  assumes ok: "loader_ok lo hi ps L" and n: "0 < n" "page_aligned n"
  defines "k \<equiv> 8 + 4 * (unat n div 4096)"
  shows "ok_if (frontier L + unat n \<le> USER_END \<and> k \<le> ld_free L)
    (\<lambda>(b, L'). loader_ok lo hi ps L' \<and> took b (unat n) L L' \<and> page_aligned b \<and> frontier L' \<le> frontier L + unat n \<and> ld_free L \<le> ld_free L' + k)
    (reserve n L)" (is "ok_if ?c ?P _")
proof -
  have wf: "regions_wf (ld_regions L)" using ok by (simp add: loader_ok_def)
  note d = regions_wfD [OF wf]
  obtain b where b: "find_contiguous_virtual_range n L = Inr (b, L)"
    "b = 0 \<and> USER_END < frontier L + unat n \<or> found n (ld_regions L) b" using find_range_ok [OF ok] by blast
  show ?thesis
  proof (cases "found n (ld_regions L) b")
    case True
    then obtain r where r: "r \<in> set (ld_regions L)" "vr_is_free r" "b = vr_start_addr r" "n \<le> vr_end_addr r - vr_start_addr r"
      by (auto simp: found_def)
    have o: "vr_start_addr r \<le> vr_end_addr r" using tiles_bounds [OF d(1) r(1)] by (simp add: word_le_nat_alt)
    have e: "unat b + unat n \<le> unat (vr_end_addr r)" using r(3,4) o by (simp add: word_le_nat_alt unat_sub64)
    then have u: "unat (b + n) = unat b + unat n" using unsigned_less [of "vr_end_addr r", where ?'a = nat] by (subst unat_add64) auto
    have al: "page_aligned b" "page_aligned (b + n)" using d(6) [OF r(1)] r(3) n(2) u by (simp_all add: page_aligned_def mod_add_eq [symmetric])
    have lt: "b < b + n" using u n(1) by (simp add: word_less_nat_alt)
    have room: "has_room b (b + n) L" using r u e by (auto simp: has_room_def word_le_nat_alt)
    have fb: "unat b \<le> frontier L" using start_le_last [OF d(1) r(1)] r(3) by (simp add: frontier_def)
    have "ok_if ?c (\<lambda>L'. loader_ok lo hi ps L' \<and> took b (unat n) L L' \<and> ld_free L \<le> ld_free L' + k) (allocate_virtual_range b (b + n) False L)"
      by (rule ok_if_mono [OF allocate_virtual_range_ok [OF ok lt]]) (use al room u in \<open>auto simp: k_def\<close>)
    then show ?thesis
      unfolding reserve_def b(1) rbind_Inr prod.case by (rule ok_if_rbind) (use al fb in \<open>auto simp: took_def\<close>)
  next
    case False
    then have b0: "b = 0" "USER_END < frontier L + unat n" using b(2) by auto
    have "ok_if False (\<lambda>L'. loader_ok lo hi ps L' \<and> took b (unat n) L L') (allocate_virtual_range b (b + n) False L)"
      by (rule ok_if_mono [OF allocate_virtual_range_ok [OF ok, of b "b + n"]]) (use n(1) b0(1) in auto)
    then have "allocate_virtual_range b (b + n) False L = Inl HCF" using b0(1) by (cases "allocate_virtual_range b (b + n) False L") (auto simp: took_def)
    then show ?thesis using b(1) b0(2) by (simp add: reserve_def)
  qed
qed

end
