(* ===== verification/Elf_Image.thy ===== *)
theory Elf_Image
  imports Elf_Regions
begin

text \<open>
  What the loader puts into the new address space: the segments of the executable, and the arguments with their array of pointers.
\<close>

section \<open>Rounding to pages\<close>

lemma page_floor_eq: "page_floor v = push_bit 12 (drop_bit 12 v)"
proof -
  have "(0xFFF :: u64) = mask 12" by (simp add: mask_eq_exp_minus_1)
  then show ?thesis unfolding page_floor_def by (intro bit_word_eqI) (simp only: bit_simps, auto)
qed

lemma unat_page_floor: "unat (page_floor v) = 4096 * (unat v div 4096)"
proof -
  have "unat (drop_bit 12 v) = unat v div 4096" by (simp add: drop_bit_eq_div unat_div)
  moreover have "unat v div 4096 * 4096 \<le> unat v" "unat v < 2 ^ 64" using unsigned_less [of v, where ?'a = nat] by simp_all
  then have "4096 * (unat v div 4096) < 2 ^ 64" by linarith
  ultimately show ?thesis unfolding page_floor_eq push_bit_eq_mult by (simp add: unat_word_ariths)
qed

lemma page_floor_aligned [simp]: "page_aligned (page_floor v)" "page_aligned (page_ceil v)"
  by (simp_all add: page_aligned_def unat_page_floor page_ceil_def)

lemma unat_page_ceil: "unat v + 4095 < 2 ^ 64 \<Longrightarrow> unat (page_ceil v) = 4096 * ((unat v + 4095) div 4096)"
  by (simp add: page_ceil_def unat_page_floor unat_word_ariths)

section \<open>Stores to user memory\<close>

lemma loader_ok_user [simp]:
  "loader_ok lo hi ps (L\<lparr>ld_user := m\<rparr>) = loader_ok lo hi ps L" "loader_ok lo hi ps (L\<lparr>ld_fs := s\<rparr>) = loader_ok lo hi ps L"
  "frontier (L\<lparr>ld_user := m\<rparr>) = frontier L" "frontier (L\<lparr>ld_fs := s\<rparr>) = frontier L"
  by (simp_all add: loader_ok_def frontier_def)

lemma user_mapped_used:
  assumes "loader_ok lo hi ps L" "\<And>i. i < n \<Longrightarrow> used (ld_regions L) (v + of_nat i)"
  shows "user_mapped (ld_mmu L) v n"
proof -
  have "translate (ld_mmu L) (v + of_nat i) \<noteq> None" if "i < n" for i
    using assms(1) assms(2) [OF that] used_user [of "ld_regions L" "v + of_nat i"] by (auto simp: loader_ok_def)
  then show ?thesis by (simp add: user_mapped_def list_all_iff)
qed

lemma user_unmapped:
  assumes "loader_ok lo hi ps L" "i < n" "\<not> used (ld_regions L) (v + of_nat i)" "user_addr (v + of_nat i)"
  shows "\<not> user_mapped (ld_mmu L) v n"
  using assms by (force simp: loader_ok_def user_mapped_def list_all_iff)

lemma store_bytes_nth: "i < length bs \<Longrightarrow> length bs < 2 ^ 64 \<Longrightarrow> store_bytes p bs m (p + of_nat i) = bs ! i"
  by (simp add: store_bytes_def unat_of_nat take_bit_nat_eq_self)

lemma store_bytes_other:
  assumes "unat p + length bs \<le> 2 ^ 64" "unat a < unat p \<or> unat p + length bs \<le> unat a"
  shows "store_bytes p bs m a = m a"
proof -
  have "\<not> unat (a - p) < length bs"
  proof (cases "p \<le> a")
    case True
    then show ?thesis using assms(2) by (auto simp: unat_sub64 word_le_nat_alt)
  next
    case False
    then have "unat (a - p) = 2 ^ 64 + unat a - unat p" by (intro unat_sub64_wrap) simp
    then show ?thesis using assms(1) by simp
  qed
  then show ?thesis by (simp add: store_bytes_def)
qed

lemma memset_outside:
  assumes "unat p + unat n \<le> 2 ^ 64" "unat a < unat p \<or> unat p + unat n \<le> unat a"
  shows "snd (memset p c n m) a = m a"
proof -
  have "snd (memset p c n m) a = store_bytes p (replicate (unat n) (ucast c)) m a"
    by (simp add: memset_eq store_bytes_def word_less_nat_alt)
  then show ?thesis using store_bytes_other [of p "replicate (unat n) (ucast c)" a] assms by simp
qed

section \<open>Segments\<close>

definition loadable :: "ElfProgramHeader \<Rightarrow> bool" where
  "loadable ph \<longleftrightarrow> ph_segment_type ph = 1 \<or> ph_segment_type ph = 6"

definition seg_lo :: "ElfProgramHeader \<Rightarrow> nat" where
  "seg_lo ph = 4096 * (unat (ph_p_vaddr ph) div 4096)"

definition seg_hi :: "ElfProgramHeader \<Rightarrow> nat" where
  "seg_hi ph = 4096 * ((unat (ph_p_vaddr ph) + unat (ph_p_memsz ph) + 4095) div 4096)"

text \<open>A segment that the file holds and that is not empty; its addresses do not wrap around.\<close>

definition segment_wf :: "u8 list \<Rightarrow> ElfProgramHeader \<Rightarrow> bool" where
  "segment_wf data ph \<longleftrightarrow> unat (ph_p_offset ph) + unat (ph_p_filesz ph) \<le> length data \<and> ph_p_filesz ph \<le> ph_p_memsz ph \<and>
     0 < ph_p_memsz ph \<and> unat (ph_p_vaddr ph) + unat (ph_p_memsz ph) + 4095 < 2 ^ 64"

definition holds_segment :: "u8 list \<Rightarrow> ElfProgramHeader \<Rightarrow> 'f loader \<Rightarrow> bool" where
  "holds_segment data ph L \<longleftrightarrow> (\<forall>i < unat (ph_p_memsz ph). used (ld_regions L) (ph_p_vaddr ph + of_nat i) \<and>
     ld_user L (ph_p_vaddr ph + of_nat i) = (if i < unat (ph_p_filesz ph) then data ! (unat (ph_p_offset ph) + i) else 0))"

definition seg_cost :: "ElfProgramHeader \<Rightarrow> nat" where
  "seg_cost ph = 8 + 4 * ((seg_hi ph - seg_lo ph) div 4096)"

lemma holds_segment_grows: "holds_segment data ph L \<Longrightarrow> grows L L' \<Longrightarrow> holds_segment data ph L'"
  by (simp add: holds_segment_def grows_def)

definition seg_unused :: "ElfProgramHeader \<Rightarrow> 'f loader \<Rightarrow> bool" where
  "seg_unused ph L \<longleftrightarrow> (\<forall>v. seg_lo ph \<le> unat v \<and> unat v < seg_hi ph \<longrightarrow> \<not> used (ld_regions L) v)"

definition loaded :: "u8 list \<Rightarrow> ElfProgramHeader \<Rightarrow> 'f loader \<Rightarrow> 'f loader \<Rightarrow> bool" where
  "loaded data ph L L' \<longleftrightarrow> grows L L' \<and> holds_segment data ph L' \<and> ld_free L \<le> ld_free L' + seg_cost ph \<and>
     frontier L' \<le> max (frontier L) (seg_hi ph) \<and> seg_unused ph L \<and>
     (\<forall>v. used (ld_regions L') v \<longleftrightarrow> used (ld_regions L) v \<or> seg_lo ph \<le> unat v \<and> unat v < seg_hi ph)"

definition segment_bytes :: "u8 list \<Rightarrow> ElfProgramHeader \<Rightarrow> mem \<Rightarrow> mem" where
  "segment_bytes data ph m = store_bytes (ph_p_vaddr ph)
     (take (unat (ph_p_filesz ph)) (drop (unat (ph_p_offset ph)) data) @ replicate (unat (ph_p_memsz ph) - unat (ph_p_filesz ph)) 0) m"

lemma segment_geometry:
  assumes "segment_wf data ph"
  defines "p \<equiv> page_floor (ph_p_vaddr ph)" and "q \<equiv> page_ceil (ph_p_vaddr ph + ph_p_memsz ph)"
  shows "unat p = seg_lo ph" "unat q = seg_hi ph" "unat p + (unat q - unat p) = seg_hi ph" "p < q"
    "i < unat (ph_p_memsz ph) \<Longrightarrow> unat p \<le> unat (ph_p_vaddr ph + of_nat i) \<and> unat (ph_p_vaddr ph + of_nat i) < seg_hi ph"
proof -
  let ?v = "unat (ph_p_vaddr ph)" and ?m = "unat (ph_p_memsz ph)"
  have w: "?v + ?m + 4095 < 2 ^ 64" "0 < ?m" using assms(1) by (auto simp: segment_wf_def word_less_nat_alt)
  then have a: "unat (ph_p_vaddr ph + ph_p_memsz ph) = ?v + ?m" by (intro unat_add64) simp
  show l: "unat p = seg_lo ph" by (simp add: p_def seg_lo_def unat_page_floor)
  show h: "unat q = seg_hi ph" unfolding q_def using unat_page_ceil [of "ph_p_vaddr ph + ph_p_memsz ph"] a w by (simp add: seg_hi_def)
  have b: "seg_lo ph \<le> ?v" "?v + ?m \<le> seg_hi ph" unfolding seg_lo_def seg_hi_def by linarith+
  then show "unat p + (unat q - unat p) = seg_hi ph" "p < q" using l h w(2) by (simp_all add: word_less_nat_alt)
  show "unat p \<le> unat (ph_p_vaddr ph + of_nat i) \<and> unat (ph_p_vaddr ph + of_nat i) < seg_hi ph" if "i < ?m"
  proof -
    have "unat (of_nat i :: u64) = i" using that w by (simp add: unat_of_nat take_bit_nat_eq_self)
    then have "unat (ph_p_vaddr ph + of_nat i) = ?v + i" using that w by (subst unat_add64) simp_all
    then show ?thesis using b l that by simp
  qed
qed

lemma segment_bytes_eq:
  assumes "segment_wf data ph"
  shows "snd (memset (ph_p_vaddr ph + ph_p_filesz ph) 0 (ph_p_memsz ph - ph_p_filesz ph)
      (store_bytes (ph_p_vaddr ph) (take (unat (ph_p_filesz ph)) (drop (unat (ph_p_offset ph)) data)) m)) = segment_bytes data ph m"
proof
  fix a
  let ?v = "ph_p_vaddr ph" and ?f = "ph_p_filesz ph" and ?m = "ph_p_memsz ph"
  have w: "unat ?f \<le> unat ?m" "unat (ph_p_offset ph) + unat ?f \<le> length data" using assms by (auto simp: segment_wf_def word_le_nat_alt)
  have s: "a - (?v + ?f) = (a - ?v) - ?f" by simp
  have mf: "unat (?m - ?f) = unat ?m - unat ?f" using w(1) by (simp add: unat_sub64 word_le_nat_alt)
  show "snd (memset (?v + ?f) 0 (?m - ?f) (store_bytes ?v (take (unat ?f) (drop (unat (ph_p_offset ph)) data)) m)) a = segment_bytes data ph m a"
  proof (cases "a - ?v < ?f")
    case True
    then have "unat ((a - ?v) - ?f) = 2 ^ 64 + unat (a - ?v) - unat ?f" by (rule unat_sub64_wrap)
    then have "\<not> unat ((a - ?v) - ?f) < unat ?m - unat ?f" using w(1) unsigned_less [of ?m, where ?'a = nat] by simp
    then show ?thesis using True w by (simp add: memset_eq segment_bytes_def store_bytes_def s word_less_nat_alt mf nth_append)
  next
    case False
    then have "unat ((a - ?v) - ?f) = unat (a - ?v) - unat ?f" by (intro unat_sub64) simp
    then show ?thesis using False w by (auto simp: memset_eq segment_bytes_def store_bytes_def s word_less_nat_alt mf nth_append)
  qed
qed

lemma segment_loaded:
  assumes wf: "segment_wf data ph" and t: "took p n L L1" "unat p = seg_lo ph" "unat p + n = seg_hi ph" and fr: "ld_free L \<le> ld_free L1 + seg_cost ph"
    and L': "ld_heap L' = ld_heap L1" "ld_regions L' = ld_regions L1" "ld_user L' = segment_bytes data ph (ld_user L1)"
  shows "loaded data ph L L'"
proof -
  note g = segment_geometry [OF wf]
  let ?v = "ph_p_vaddr ph" and ?M = "unat (ph_p_memsz ph)"
  have w: "unat ?v + ?M + 4095 < 2 ^ 64" "unat (ph_p_filesz ph) \<le> ?M" "unat (ph_p_offset ph) + unat (ph_p_filesz ph) \<le> length data"
    using wf by (auto simp: segment_wf_def word_le_nat_alt)
  let ?bs = "take (unat (ph_p_filesz ph)) (drop (unat (ph_p_offset ph)) data) @ replicate (?M - unat (ph_p_filesz ph)) 0"
  have len: "length ?bs = ?M" using w by simp
  have in_range: "used (ld_regions L') (?v + of_nat i)" if "i < ?M" for i
    using g(5) [OF that] t g(1) L'(2) by (simp add: took_def)
  have "ld_user L' (?v + of_nat i) = ?bs ! i" if "i < ?M" for i
    unfolding L'(3) segment_bytes_def using that len w by (intro store_bytes_nth) simp_all
  then have "holds_segment data ph L'" using in_range w by (auto simp: holds_segment_def nth_append)
  moreover have "ld_user L' a = ld_user L a" if "used (ld_regions L) a" for a
  proof -
    have "\<not> (seg_lo ph \<le> unat a \<and> unat a < seg_hi ph)" using that t by (auto simp: took_def)
    moreover have "seg_lo ph \<le> unat ?v" "unat ?v + ?M \<le> seg_hi ph" unfolding seg_lo_def seg_hi_def by linarith+
    ultimately have "store_bytes ?v ?bs (ld_user L1) a = ld_user L1 a" using w len by (intro store_bytes_other) auto
    then show ?thesis using t by (simp add: L'(3) segment_bytes_def took_def)
  qed
  ultimately show ?thesis using t fr L'(1,2) by (auto simp: loaded_def took_def grows_def frontier_def seg_unused_def)
qed

text \<open>What makes the segments of a file loadable: known types, page ranges inside the user half that are pairwise disjoint and not in use.\<close>

definition known_segment :: "ElfFile \<Rightarrow> ElfProgramHeader \<Rightarrow> bool" where
  "known_segment header ph \<longleftrightarrow> ph_segment_type ph \<in> {1, 6, 1685382481, 1685382482} \<and>
     (ph_segment_type ph = 6 \<longrightarrow> ph_flags ph = 4 \<and> ph_p_offset ph = ef_program_header_table_offset header \<and>
        ph_p_filesz ph = 56 * ucast (ef_program_header_table_num_entries header) \<and> ph_p_memsz ph = ph_p_filesz ph)"

definition pages_apart :: "ElfProgramHeader \<Rightarrow> ElfProgramHeader \<Rightarrow> bool" where
  "pages_apart a b \<longleftrightarrow> seg_hi a \<le> seg_lo b \<or> seg_hi b \<le> seg_lo a"

definition segments_fit :: "ElfFile \<Rightarrow> ElfProgramHeader list \<Rightarrow> 'f loader \<Rightarrow> bool" where
  "segments_fit header phs L \<longleftrightarrow> (\<forall>ph \<in> set phs. known_segment header ph \<and>
       (loadable ph \<longrightarrow> seg_unused ph L \<and> 4096 \<le> seg_lo ph \<and> seg_hi ph \<le> USER_END)) \<and>
     sorted_wrt pages_apart (filter loadable phs)"

definition segments_cost :: "ElfProgramHeader list \<Rightarrow> nat" where
  "segments_cost phs = sum_list (map seg_cost (filter loadable phs))"

definition image :: "nat \<Rightarrow> u8 list \<Rightarrow> ElfProgramHeader list \<Rightarrow> 'f loader \<Rightarrow> 'f loader \<Rightarrow> bool" where
  "image k data phs L L' \<longleftrightarrow> grows L L' \<and> (\<forall>ph \<in> set phs. loadable ph \<longrightarrow> holds_segment data ph L') \<and>
     ld_free L \<le> ld_free L' + k \<and>
     (\<forall>b. frontier L \<le> b \<and> (\<forall>ph \<in> set phs. loadable ph \<longrightarrow> seg_hi ph \<le> b) \<longrightarrow> frontier L' \<le> b)"

definition readable_segment :: "u8 list \<Rightarrow> ElfProgramHeader \<Rightarrow> bool" where
  "readable_segment data ph \<longleftrightarrow> ph_segment_type ph \<noteq> 3 \<and> (loadable ph \<longrightarrow> segment_wf data ph)"

lemma segments_fit_rest:
  assumes "segments_fit header (ph # phs) L" "loadable ph" "loaded data ph L L'"
  shows "segments_fit header phs L'"
proof -
  have "seg_unused x L'" if "x \<in> set phs" "loadable x" for x
  proof -
    have "pages_apart ph x" "seg_unused x L" using assms(1,2) that by (auto simp: segments_fit_def)
    then show ?thesis using assms(3) by (auto simp: seg_unused_def loaded_def pages_apart_def)
  qed
  then show ?thesis using assms(1,2) by (auto simp: segments_fit_def)
qed

lemma image_step:
  assumes "loadable ph" "loaded data ph L L1" "image k data phs L1 L'"
  shows "image (seg_cost ph + k) data (ph # phs) L L'"
proof -
  have "holds_segment data ph L'" using assms(2,3) holds_segment_grows by (auto simp: loaded_def image_def)
  moreover have "grows L L'" using assms(2,3) grows_trans by (auto simp: loaded_def image_def)
  ultimately show ?thesis using assms by (auto simp: image_def loaded_def)
qed

text \<open>An executable file: reads return its bytes.\<close>

locale file_vnode =
  fixes exe :: "'f VNode" and data :: "u8 list" and okay :: "'f \<Rightarrow> bool"
  assumes read_law: "\<lbrakk>okay s; unat off \<le> length data; unat off + n < 2 ^ 64\<rbrakk> \<Longrightarrow>
    \<exists>s'. vn_read_file exe (vn_id exe) off n s = Inr (take n (drop (unat off) data), s') \<and> okay s'"
begin

lemma load_segment_ok:
  assumes ok: "loader_ok lo hi ps L" "okay (ld_fs L)" and wf: "segment_wf data ph" and len: "length data < 2 ^ 63"
  shows "ok_if (seg_unused ph L \<and> 4096 \<le> seg_lo ph \<and> seg_hi ph \<le> USER_END \<and> seg_cost ph \<le> ld_free L)
    (\<lambda>L'. loader_ok lo hi ps L' \<and> okay (ld_fs L') \<and> loaded data ph L L') (load_segment exe ph L)" (is "ok_if ?c ?P _")
proof -
  define p where "p = page_floor (ph_p_vaddr ph)"
  define q where "q = page_ceil (ph_p_vaddr ph + ph_p_memsz ph)"
  note g = segment_geometry [OF wf, folded p_def q_def]
  let ?F = "unat (ph_p_filesz ph)" and ?v = "ph_p_vaddr ph"
  have fs: "?F \<le> unat (ph_p_memsz ph)" "unat (ph_p_offset ph) + ?F \<le> length data" using wf by (auto simp: segment_wf_def word_le_nat_alt)
  have rest: "ok_if ?c ?P (rbind (vn_read_file exe (vn_id exe) (ph_p_offset ph) ?F (ld_fs L1)) (\<lambda>(d, s).
      rbind (user_store ?v d (L1\<lparr>ld_fs := s\<rparr>)) (\<lambda>L. if length d \<noteq> ?F then Inl HCF
        else user_memset (?v + ph_p_filesz ph) 0 (ph_p_memsz ph - ph_p_filesz ph) L)))"
    if L1: "loader_ok lo hi ps L1" "took p (unat q - unat p) L L1" "ld_free L \<le> ld_free L1 + seg_cost ph" for L1
  proof -
    have "okay (ld_fs L1)" using ok(2) L1(2) by (simp add: took_def)
    from read_law [OF this, of "ph_p_offset ph" ?F] fs len obtain s' where
      r: "vn_read_file exe (vn_id exe) (ph_p_offset ph) ?F (ld_fs L1) = Inr (take ?F (drop (unat (ph_p_offset ph)) data), s')" "okay s'" by auto
    let ?d = "take ?F (drop (unat (ph_p_offset ph)) data)"
    have d: "length ?d = ?F" using fs(2) by simp
    have u: "used (ld_regions L1) (?v + of_nat i)" if "i < unat (ph_p_memsz ph)" for i
      using L1(2) g(5) [OF that] g(3) by (simp add: took_def)
    let ?L2 = "L1\<lparr>ld_fs := s', ld_user := store_bytes ?v ?d (ld_user L1)\<rparr>"
    let ?L' = "?L2\<lparr>ld_user := snd (memset (?v + ph_p_filesz ph) 0 (ph_p_memsz ph - ph_p_filesz ph) (ld_user ?L2))\<rparr>"
    have "user_mapped (ld_mmu L1) ?v (length ?d)" unfolding d by (rule user_mapped_used [OF L1(1)]) (use u fs(1) in simp)
    then have st: "user_store ?v ?d (L1\<lparr>ld_fs := s'\<rparr>) = Inr ?L2" by (simp add: user_store_def)
    have "user_mapped (ld_mmu L1) (?v + ph_p_filesz ph) (unat (ph_p_memsz ph - ph_p_filesz ph))"
    proof (rule user_mapped_used [OF L1(1)])
      fix i assume "i < unat (ph_p_memsz ph - ph_p_filesz ph)"
      then have "?F + i < unat (ph_p_memsz ph)" using fs(1) by (simp add: unat_sub64 word_le_nat_alt)
      from u [OF this] show "used (ld_regions L1) (?v + ph_p_filesz ph + of_nat i)" by (simp add: add.assoc)
    qed
    then have ms: "user_memset (?v + ph_p_filesz ph) 0 (ph_p_memsz ph - ph_p_filesz ph) ?L2 = Inr ?L'" by (simp add: user_memset_def)
    have "ld_user ?L' = segment_bytes data ph (ld_user L1)" using segment_bytes_eq [OF wf] by simp
    then have "loaded data ph L ?L'"
      using segment_loaded [OF wf, of p "unat q - unat p" L L1 ?L'] L1(2,3) g(1-3) by (simp add: frontier_def)
    then show ?thesis using r st ms d L1(1) by simp
  qed
  have c: "?c \<Longrightarrow> page_aligned p \<and> page_aligned q \<and> has_room p q L \<and> 8 + 4 * ((unat q - unat p) div 4096) \<le> ld_free L"
    using g ok(1) by (auto simp: seg_cost_def seg_unused_def p_def q_def loader_ok_def word_le_nat_alt word_less_nat_alt intro!: room_if_unused)
  have "ok_if ?c (\<lambda>L1. loader_ok lo hi ps L1 \<and> took p (unat q - unat p) L L1 \<and> ld_free L \<le> ld_free L1 + seg_cost ph)
      (allocate_virtual_range p q (bit (ph_flags ph) 0) L)"
    by (rule ok_if_mono [OF allocate_virtual_range_ok [OF ok(1) g(4)] c]) (use g(1,2) in \<open>auto simp: seg_cost_def\<close>)
  then show ?thesis
    unfolding load_segment_def Let_def p_def [symmetric] q_def [symmetric] by (rule ok_if_rbind) (use rest in blast)
qed

lemma handle_segment_ok:
  assumes ok: "loader_ok lo hi ps L" "okay (ld_fs L)" and wf: "readable_segment data ph" and len: "length data < 2 ^ 63"
  shows "ok_if (known_segment header ph \<and> (loadable ph \<longrightarrow> seg_unused ph L \<and> 4096 \<le> seg_lo ph \<and> seg_hi ph \<le> USER_END \<and> seg_cost ph \<le> ld_free L))
    (\<lambda>L'. loader_ok lo hi ps L' \<and> okay (ld_fs L') \<and> (if loadable ph then loaded data ph L L' else L' = L)) (handle_segment exe header ph L)"
proof (cases "loadable ph")
  case True
  then have "segment_wf data ph" using wf by (simp add: readable_segment_def)
  note l = load_segment_ok [OF ok this len]
  show ?thesis
  proof (cases "known_segment header ph")
    case known: True
    then have "handle_segment exe header ph L = load_segment exe ph L" using True by (auto simp: handle_segment_def known_segment_def loadable_def)
    then show ?thesis using ok_if_mono [OF l] True by auto
  next
    case False
    then have "handle_segment exe header ph L = Inl HCF" using True by (auto simp: handle_segment_def known_segment_def loadable_def hcf_unless_def)
    then show ?thesis using False by simp
  qed
next
  case False
  then show ?thesis using wf ok by (auto simp: handle_segment_def known_segment_def loadable_def readable_segment_def)
qed

lemma handle_segments_ok:
  assumes "loader_ok lo hi ps L" "okay (ld_fs L)" "\<forall>ph \<in> set phs. readable_segment data ph" and len: "length data < 2 ^ 63"
  shows "ok_if (segments_fit header phs L \<and> segments_cost phs \<le> ld_free L)
    (\<lambda>L'. loader_ok lo hi ps L' \<and> okay (ld_fs L') \<and> image (segments_cost phs) data phs L L') (rfold (handle_segment exe header) phs L)"
  using assms(1-3)
proof (induction phs arbitrary: L)
  case Nil
  then show ?case by (simp add: image_def segments_cost_def)
next
  case (Cons ph phs)
  let ?c = "segments_fit header (ph # phs) L \<and> segments_cost (ph # phs) \<le> ld_free L"
  have "ok_if ?c (\<lambda>L'. loader_ok lo hi ps L' \<and> okay (ld_fs L') \<and> (if loadable ph then loaded data ph L L' else L' = L)) (handle_segment exe header ph L)"
    using Cons.prems(3) by (intro ok_if_mono [OF handle_segment_ok [OF Cons.prems(1,2) _ len, of ph header]])
      (auto simp: segments_fit_def segments_cost_def)
  moreover have "ok_if ?c (\<lambda>L'. loader_ok lo hi ps L' \<and> okay (ld_fs L') \<and> image (segments_cost (ph # phs)) data (ph # phs) L L') (rfold (handle_segment exe header) phs L1)"
    if L1: "loader_ok lo hi ps L1 \<and> okay (ld_fs L1) \<and> (if loadable ph then loaded data ph L L1 else L1 = L)" for L1
  proof (rule ok_if_mono [OF Cons.IH [of L1]])
    show "segments_fit header phs L1 \<and> segments_cost phs \<le> ld_free L1" if ?c
      using that L1 segments_fit_rest [of header ph phs L data L1]
      by (cases "loadable ph") (auto simp: segments_cost_def loaded_def segments_fit_def)
    show "loader_ok lo hi ps L' \<and> okay (ld_fs L') \<and> image (segments_cost (ph # phs)) data (ph # phs) L L'"
      if "loader_ok lo hi ps L' \<and> okay (ld_fs L') \<and> image (segments_cost phs) data phs L1 L'" for L'
      using that L1 image_step [of ph data L L1 "segments_cost phs" phs L'] by (cases "loadable ph") (auto simp: image_def segments_cost_def)
  qed (use L1 Cons.prems(3) in auto)
  ultimately show ?case by (simp only: rfold.simps) (rule ok_if_rbind)
qed

lemma load_segments_ok:
  fixes header
  defines "n \<equiv> unat (ef_program_header_table_num_entries header)" and "off \<equiv> unat (ef_program_header_table_offset header)"
  defines "phs \<equiv> decode_program_headers n (take (56 * n) (drop off data))"
  defines "k \<equiv> 4 * pages_for (of_nat (56 * n)) + segments_cost phs"
  assumes ok: "loader_ok lo hi ps L" "okay (ld_fs L)" and len: "length data < 2 ^ 63"
    and tbl: "0 < n" "off + 56 * n \<le> length data" and wf: "\<forall>ph \<in> set phs. readable_segment data ph"
  shows "ok_if (segments_fit header phs L \<and> k \<le> ld_free L)
    (\<lambda>L'. loader_ok lo hi ps L' \<and> okay (ld_fs L') \<and> image k data phs L L') (load_segments exe header L)" (is "ok_if ?c ?P _")
proof -
  have n: "n < 65536" using unsigned_less [of "ef_program_header_table_num_entries header", where ?'a = nat] by (simp add: n_def)
  then have b: "unat (of_nat (56 * n) :: u64) = 56 * n" by (simp add: unat_of_nat take_bit_nat_eq_self del: of_nat_mult)
  have a1: "ok_if ?c (\<lambda>(p, L1). p \<noteq> 0 \<and> loader_ok lo hi (p # ps) L1 \<and> grows L L1 \<and> ld_regions L1 = ld_regions L \<and> ld_fs L1 = ld_fs L \<and>
      ld_free L \<le> ld_free L1 + 4 * pages_for (of_nat (56 * n))) (kmalloc (of_nat (56 * n)) L)"
    by (rule ok_if_mono [OF kmalloc_ok [OF ok(1)]]) (use b tbl(1) n in \<open>auto simp: k_def word_unat_eq_iff simp del: of_nat_mult\<close>)
  have a2: "ok_if ?c ?P (rbind (vn_read_file exe (vn_id exe) (ef_program_header_table_offset header) (56 * n) (ld_fs L1)) (\<lambda>(bytes, s).
      if p = 0 \<and> bytes \<noteq> [] then Inl WildAccess else if length bytes \<noteq> 56 * n then Inl HCF
      else rbind (rfold (handle_segment exe header) (decode_program_headers n bytes) (L1\<lparr>ld_fs := s\<rparr>)) (kfree p)))"
    if L1: "p \<noteq> 0" "loader_ok lo hi (p # ps) L1" "grows L L1" "ld_regions L1 = ld_regions L" "ld_fs L1 = ld_fs L"
      "ld_free L \<le> ld_free L1 + 4 * pages_for (of_nat (56 * n))" for p L1
  proof -
    obtain s where s: "vn_read_file exe (vn_id exe) (ef_program_header_table_offset header) (56 * n) (ld_fs L1) = Inr (take (56 * n) (drop off data), s)" "okay s"
      using read_law [of "ld_fs L1" "ef_program_header_table_offset header" "56 * n"] ok(2) L1(5) tbl(2) len by (auto simp: off_def)
    have "ok_if ?c (\<lambda>L'. loader_ok lo hi (p # ps) L' \<and> okay (ld_fs L') \<and> image (segments_cost phs) data phs (L1\<lparr>ld_fs := s\<rparr>) L')
        (rfold (handle_segment exe header) phs (L1\<lparr>ld_fs := s\<rparr>))"
      by (rule ok_if_mono [OF handle_segments_ok [OF _ _ wf len]]) (use L1 s(2) in \<open>auto simp: k_def segments_fit_def seg_unused_def\<close>)
    moreover have "ok_if ?c ?P (kfree p L2)"
      if L2: "loader_ok lo hi (p # ps) L2" "okay (ld_fs L2)" "image (segments_cost phs) data phs (L1\<lparr>ld_fs := s\<rparr>) L2" for L2
    proof -
      obtain L' where L': "kfree p L2 = Inr L'" "loader_ok lo hi ps L'" "grows L2 L'" "ld_regions L' = ld_regions L2" "ld_fs L' = ld_fs L2"
        "ld_mmu L' = ld_mmu L2" using kfree_loader [OF L2(1)] by blast
      have "grows L L'" using L1(3) L2(3) L'(3) by (auto simp: grows_def image_def)
      moreover have "\<forall>ph \<in> set phs. loadable ph \<longrightarrow> holds_segment data ph L'"
        using L2(3) holds_segment_grows [OF _ L'(3)] by (simp add: image_def)
      ultimately have "image k data phs L L'" using L2(3) L'(4,6) L1(4,6) by (auto simp: image_def frontier_def k_def)
      then show ?thesis using L' L2(2) by simp
    qed
    ultimately show ?thesis using s L1(1) tbl(2) by (auto simp: phs_def [symmetric] intro: ok_if_rbind)
  qed
  show ?thesis
    unfolding load_segments_def Let_def n_def [symmetric]
    by (rule ok_if_rbind [OF a1]) (use a2 in \<open>auto simp only: split: prod.splits\<close>)
qed

end

end
