(* ===== verification/Elf_Args.thy ===== *)
theory Elf_Args
  imports Elf_Image
begin

text \<open>
  The arguments and the environment of a new process: \<open>setup_args_for_new_process\<close> copies a null-terminated array of strings from
  kernel memory to fresh pages of the new address space.
\<close>

section \<open>Arrays of strings\<close>

text \<open>A null-terminated array of pointers to the given strings.\<close>

definition arg_list :: "mem \<Rightarrow> u64 \<Rightarrow> u8 list list \<Rightarrow> bool" where
  "arg_list m argv xss \<longleftrightarrow> (\<forall>i < length xss. load64 m (argv + 8 * of_nat i) \<noteq> 0 \<and> cstr m (load64 m (argv + 8 * of_nat i)) (xss ! i)) \<and>
     load64 m (argv + 8 * of_nat (length xss)) = 0"

text \<open>The bytes that the code counts for the array and the strings, the pages it takes, and where it puts the strings.\<close>

definition args_bytes :: "u8 list list \<Rightarrow> nat" where
  "args_bytes xss = sum_list (map (\<lambda>xs. 8 + (length xs + 1)) xss) + 8"

definition args_room :: "u8 list list \<Rightarrow> nat" where
  "args_room xss = 4096 * ((args_bytes xss + 4095) div 4096)"

definition arg_off :: "u8 list list \<Rightarrow> nat \<Rightarrow> nat" where
  "arg_off xss i = 8 * (length xss + 1) + sum_list (map (\<lambda>xs. length xs + 2) (take i xss))"

text \<open>The strings, each two bytes after the end of the one before, end inside the pages that were taken.\<close>

definition args_fit :: "u8 list list \<Rightarrow> bool" where
  "args_fit xss \<longleftrightarrow> arg_off xss (length xss) \<le> args_room xss + 1"

lemma arg_off_Suc: "i < length xss \<Longrightarrow> arg_off xss (Suc i) = arg_off xss i + (length (xss ! i) + 2)"
  by (simp add: arg_off_def take_Suc_conv_app_nth)

lemma arg_off_mono: "i \<le> j \<Longrightarrow> j \<le> length xss \<Longrightarrow> arg_off xss i \<le> arg_off xss j"
  by (induction j rule: dec_induct) (simp_all add: arg_off_Suc)

lemma arg_off_after: "i < j \<Longrightarrow> j \<le> length xss \<Longrightarrow> arg_off xss i + (length (xss ! i) + 2) \<le> arg_off xss j"
  using arg_off_mono [of "Suc i" j xss] arg_off_Suc [of i xss] by simp

lemma arg_off_ge: "8 * (length xss + 1) \<le> arg_off xss i"
  by (simp add: arg_off_def)

lemma args_room_ge: "args_bytes xss \<le> args_room xss" "8 * (length xss + 1) \<le> args_bytes xss"
proof -
  show "args_bytes xss \<le> args_room xss" unfolding args_room_def by linarith
  have "8 * length xss \<le> sum_list (map (\<lambda>xs. 8 + (length xs + 1)) xss)" by (induction xss) simp_all
  then show "8 * (length xss + 1) \<le> args_bytes xss" by (simp add: args_bytes_def)
qed

lemma cstr_bytes: "cstr m p xs \<Longrightarrow> mem_bytes m p (length xs) = xs"
  by (intro nth_equalityI) (simp_all add: mem_bytes_def cstr_nth)

lemma bytes_cstr: "mem_bytes m p (length xs + 1) = xs @ [0] \<Longrightarrow> 0 \<notin> set xs \<Longrightarrow> cstr m p xs"
proof (induction xs arbitrary: p)
  case Nil
  then show ?case by (simp add: mem_bytes_def)
next
  case (Cons x xs)
  have "mem_bytes m p (length (x # xs) + 1) = m p # mem_bytes m (p + 1) (length xs + 1)"
    by (simp add: mem_bytes_def map_upt_Suc add.assoc del: upt_Suc)
  then show ?case using Cons by simp
qed

lemma le64_bytes64 [simp]: "le64 (bytes64 v) = v"
proof (rule bit_word_eqI)
  fix n assume n: "n < LENGTH(64)"
  have b: "bytes64 v = map (\<lambda>i. ucast (drop_bit (8 * i) v)) [0, 1, 2, 3, 4, 5, 6, 7]" by (simp add: bytes64_def upt_rec)
  consider "n < 8" | "8 \<le> n" "n < 16" | "16 \<le> n" "n < 24" | "24 \<le> n" "n < 32" | "32 \<le> n" "n < 40" | "40 \<le> n" "n < 48"
    | "48 \<le> n" "n < 56" | "56 \<le> n" "n < 64" using n by force
  then show "bit (le64 (bytes64 v)) n = bit v n"
    by cases (simp_all add: b le64_def le32_def bit_simps less_diff_conv2, auto simp: le_diff_conv2)
qed

lemma length_bytes64 [simp]: "length (bytes64 v) = 8"
  by (simp add: bytes64_def)

lemma count_args_eq:
  assumes "arg_list m argv xss" "i \<le> length xss"
  shows "count_args m argv (of_nat i) acc =
    Some (of_nat (length xss), acc + of_nat (sum_list (map (\<lambda>xs. 8 + (length xs + 1)) (drop i xss))))"
  using assms(2)
proof (induction "length xss - i" arbitrary: i acc)
  case 0
  then show ?case using assms(1) by (subst count_args.simps) (simp add: arg_list_def)
next
  case (Suc k)
  then have i: "i < length xss" by simp
  then have a: "load64 m (argv + 8 * of_nat i) \<noteq> 0" "strlen (load64 m (argv + 8 * of_nat i)) m = Some (of_nat (length (xss ! i)))"
    using assms(1) strlen_cstr by (auto simp: arg_list_def)
  have "count_args m argv (of_nat i) acc = count_args m argv (of_nat (Suc i)) (acc + 8 + (of_nat (length (xss ! i)) + 1))"
    using a by (subst count_args.simps) (simp add: add.commute)
  also have "\<dots> = Some (of_nat (length xss), acc + of_nat (sum_list (map (\<lambda>xs. 8 + (length xs + 1)) (drop i xss))))"
    using Suc.hyps(1) [of "Suc i"] Suc.hyps(2) i by (simp add: Cons_nth_drop_Suc [OF i, symmetric] add.assoc)
  finally show ?case .
qed

section \<open>Writing the block\<close>

text \<open>The block at \<open>b\<close> after \<open>k\<close> turns of the loop.\<close>

definition args_written :: "u8 list list \<Rightarrow> nat \<Rightarrow> u64 \<Rightarrow> mem \<Rightarrow> bool" where
  "args_written xss k b m \<longleftrightarrow> (\<forall>i < k. mem_bytes m (b + of_nat (8 * i)) 8 = bytes64 (b + of_nat (arg_off xss i)) \<and>
     mem_bytes m (b + of_nat (arg_off xss i)) (length (xss ! i) + 1) = xss ! i @ [0])"

lemma mem_bytes_cong: "(\<And>i. i < n \<Longrightarrow> m' (p + of_nat i) = m (p + of_nat i)) \<Longrightarrow> mem_bytes m' p n = mem_bytes m p n"
  by (simp add: mem_bytes_def)

lemma block_addr: "unat (b :: u64) + r \<le> 2 ^ 63 \<Longrightarrow> j \<le> r \<Longrightarrow> unat (b + of_nat j) = unat b + j"
  by (subst unat_add64) (simp_all add: unat_of_nat take_bit_nat_eq_self)

lemma mem_bytes_store_other:
  assumes "unat b + r \<le> 2 ^ 63" "x + length bs \<le> r" "y + n \<le> r" "y + n \<le> x \<or> x + length bs \<le> y"
  shows "mem_bytes (store_bytes (b + of_nat x) bs m) (b + of_nat y) n = mem_bytes m (b + of_nat y) n"
proof (rule mem_bytes_cong)
  fix i assume i: "i < n"
  have a: "b + of_nat y + of_nat i = b + of_nat (y + i)" by (simp add: add.assoc)
  have "unat (b + of_nat x) = unat b + x" "unat (b + of_nat (y + i)) = unat b + (y + i)"
    using block_addr [OF assms(1), of x] block_addr [OF assms(1), of "y + i"] assms(2,3) i by (simp_all del: of_nat_add)
  then show "store_bytes (b + of_nat x) bs m (b + of_nat y + of_nat i) = m (b + of_nat y + of_nat i)"
    unfolding a using assms i by (intro store_bytes_other) auto
qed

lemma args_written_step:
  assumes r: "unat b + r \<le> 2 ^ 63" "8 * (length xss + 1) \<le> r" and k: "k < length xss" "arg_off xss k + (length (xss ! k) + 1) \<le> r"
    and w: "args_written xss k b m"
  shows "args_written xss (Suc k) b (store_bytes (b + of_nat (arg_off xss k)) (xss ! k @ [0])
    (store_bytes (b + of_nat (8 * k)) (bytes64 (b + of_nat (arg_off xss k))) m))" (is "args_written _ _ _ (store_bytes ?s ?t ?m)")
proof -
  have g: "8 * (k + 1) \<le> arg_off xss i" for i using arg_off_ge [of xss i] k(1) by simp
  have t: "length ?t = length (xss ! k) + 1" by simp
  have "mem_bytes (store_bytes ?s ?t ?m) (b + of_nat (8 * i)) 8 = bytes64 (b + of_nat (arg_off xss i)) \<and>
      mem_bytes (store_bytes ?s ?t ?m) (b + of_nat (arg_off xss i)) (length (xss ! i) + 1) = xss ! i @ [0]" if i: "i < Suc k" for i
  proof (cases "i = k")
    case True
    have "mem_bytes (store_bytes ?s ?t ?m) (b + of_nat (8 * k)) 8 = mem_bytes ?m (b + of_nat (8 * k)) 8"
      by (rule mem_bytes_store_other [OF r(1)]) (use g [of k] k(2) t in auto)
    moreover have "length ?t < 2 ^ 64" using k(2) r(1) by simp
    ultimately show ?thesis using True by simp
  next
    case False
    then have ik: "i < k" using i by simp
    have a: "arg_off xss i + (length (xss ! i) + 2) \<le> arg_off xss k" by (rule arg_off_after) (use ik k(1) in auto)
    have "mem_bytes (store_bytes ?s ?t ?m) (b + of_nat (8 * i)) 8 = mem_bytes ?m (b + of_nat (8 * i)) 8"
      by (rule mem_bytes_store_other [OF r(1)]) (use g [of k] k(2) t ik in auto)
    moreover have "mem_bytes ?m (b + of_nat (8 * i)) 8 = mem_bytes m (b + of_nat (8 * i)) 8"
      by (rule mem_bytes_store_other [OF r(1)]) (use ik k(1) r(2) in auto)
    moreover have "mem_bytes (store_bytes ?s ?t ?m) (b + of_nat (arg_off xss i)) (length (xss ! i) + 1) = mem_bytes ?m (b + of_nat (arg_off xss i)) (length (xss ! i) + 1)"
      by (rule mem_bytes_store_other [OF r(1)]) (use a k(2) t in auto)
    moreover have "mem_bytes ?m (b + of_nat (arg_off xss i)) (length (xss ! i) + 1) = mem_bytes m (b + of_nat (arg_off xss i)) (length (xss ! i) + 1)"
      by (rule mem_bytes_store_other [OF r(1)]) (use a g [of i] k in auto)
    ultimately show ?thesis using w ik by (simp add: args_written_def)
  qed
  then show ?thesis unfolding args_written_def by blast
qed

text \<open>A block of pages in use, and stores inside it.\<close>

definition block :: "u64 \<Rightarrow> nat \<Rightarrow> 'f loader \<Rightarrow> bool" where
  "block b r L \<longleftrightarrow> unat b + r \<le> 2 ^ 47 \<and> (\<forall>j < r. used (ld_regions L) (b + of_nat j))"

definition inside :: "u64 \<Rightarrow> nat \<Rightarrow> 'f loader \<Rightarrow> 'f loader \<Rightarrow> bool" where
  "inside b r L L' \<longleftrightarrow> ld_heap L' = ld_heap L \<and> ld_regions L' = ld_regions L \<and> ld_fs L' = ld_fs L \<and>
     (\<forall>a. unat a < unat b \<or> unat b + r \<le> unat a \<longrightarrow> ld_user L' a = ld_user L a)"

lemma inside_refl: "inside b r L L"
  by (simp add: inside_def)

lemma inside_trans: "inside b r L L1 \<Longrightarrow> inside b r L1 L2 \<Longrightarrow> inside b r L L2"
  by (simp add: inside_def)

lemma inside_keeps: "inside b r L L' \<Longrightarrow> loader_ok lo hi ps L \<Longrightarrow> block b r L \<Longrightarrow> loader_ok lo hi ps L' \<and> block b r L'"
  by (simp add: inside_def loader_ok_def block_def)

lemma store_inside:
  assumes "loader_ok lo hi ps L" "block b r L" "x + length bs \<le> r"
  shows "\<exists>L'. user_store (b + of_nat x) bs L = Inr L' \<and> inside b r L L' \<and> ld_user L' = store_bytes (b + of_nat x) bs (ld_user L)"
proof -
  have "used (ld_regions L) (b + of_nat x + of_nat i)" if "i < length bs" for i
  proof -
    have "x + i < r" using that assms(3) by simp
    then show ?thesis using assms(2) unfolding block_def by (metis add.assoc of_nat_add)
  qed
  then have m: "user_mapped (ld_mmu L) (b + of_nat x) (length bs)" by (rule user_mapped_used [OF assms(1)])
  have u: "unat (b + of_nat x) = unat b + x" using assms(2,3) by (intro block_addr [of b r]) (simp_all add: block_def)
  have "store_bytes (b + of_nat x) bs (ld_user L) a = ld_user L a" if "unat a < unat b \<or> unat b + r \<le> unat a" for a
    using that assms(2,3) u by (intro store_bytes_other) (auto simp: block_def)
  then show ?thesis using m by (simp add: user_store_def inside_def)
qed

lemma write_arg_step:
  assumes ok: "loader_ok lo hi ps L" "block b r L" and a: "arg_list (al_bytes (ld_heap L)) argv xss" and k: "k < length xss" "8 * (length xss + 1) \<le> r"
    and w: "args_written xss k b (ld_user L)" and fit: "arg_off xss k + (length (xss ! k) + 1) \<le> r"
  shows "\<exists>L'. write_arg argv b k (b + of_nat (arg_off xss k), L) = Inr (b + of_nat (arg_off xss (Suc k)), L') \<and>
    inside b r L L' \<and> args_written xss (Suc k) b (ld_user L')"
proof -
  let ?p = "load64 (al_bytes (ld_heap L)) (argv + 8 * of_nat k)" and ?o = "b + of_nat (arg_off xss k)"
  have c: "cstr (al_bytes (ld_heap L)) ?p (xss ! k)" using a k(1) by (simp add: arg_list_def)
  have l: "unat (of_nat (length (xss ! k)) :: u64) = length (xss ! k)" using cstr_length [OF c] by (simp add: unat_of_nat take_bit_nat_eq_self)
  have "8 * k + length (bytes64 ?o) \<le> r" using k by simp
  from store_inside [OF ok this] obtain L1 where
    L1: "user_store (b + of_nat (8 * k)) (bytes64 ?o) L = Inr L1" "inside b r L L1" "ld_user L1 = store_bytes (b + of_nat (8 * k)) (bytes64 ?o) (ld_user L)" by blast
  have h: "ld_heap L1 = ld_heap L" using L1(2) by (simp add: inside_def)
  have ok1: "loader_ok lo hi ps L1" "block b r L1" using inside_keeps [OF L1(2) ok] by auto
  have "arg_off xss k + length (xss ! k @ [0]) \<le> r" using fit by simp
  from store_inside [OF ok1 this] obtain L2 where
    L2: "user_store ?o (xss ! k @ [0]) L1 = Inr L2" "inside b r L1 L2" "ld_user L2 = store_bytes ?o (xss ! k @ [0]) (ld_user L1)" by blast
  have "write_arg argv b k (?o, L) = Inr (b + of_nat (arg_off xss (Suc k)), L2)"
    using L1(1) L2(1) strlen_cstr [OF c] cstr_bytes [OF c] l k(1) by (simp add: write_arg_def h Let_def arg_off_Suc algebra_simps)
  moreover have "unat b + r \<le> 2 ^ 63" using ok(2) by (simp add: block_def)
  then have "args_written xss (Suc k) b (ld_user L2)" unfolding L2(3) L1(3) by (rule args_written_step [OF _ k(2,1) fit w])
  ultimately show ?thesis using inside_trans [OF L1(2) L2(2)] by blast
qed

lemma write_args_ok:
  assumes ok: "loader_ok lo hi ps L" "block b r L" and a: "arg_list (al_bytes (ld_heap L)) argv xss" and r: "8 * (length xss + 1) \<le> r"
    and k: "k \<le> length xss" "k = 0 \<or> arg_off xss k \<le> r + 1"
  shows "\<exists>L'. rfold (write_arg argv b) [0..<k] (b + of_nat (arg_off xss 0), L) = Inr (b + of_nat (arg_off xss k), L') \<and>
    inside b r L L' \<and> args_written xss k b (ld_user L')"
  using k
proof (induction k)
  case 0
  then show ?case by (simp add: args_written_def inside_refl)
next
  case (Suc k)
  have s: "arg_off xss (Suc k) = arg_off xss k + (length (xss ! k) + 2)" using Suc.prems(1) by (intro arg_off_Suc) simp
  then obtain L1 where L1: "rfold (write_arg argv b) [0..<k] (b + of_nat (arg_off xss 0), L) = Inr (b + of_nat (arg_off xss k), L1)"
    "inside b r L L1" "args_written xss k b (ld_user L1)" using Suc by auto
  have ok1: "loader_ok lo hi ps L1" "block b r L1" using inside_keeps [OF L1(2) ok] by auto
  have a1: "arg_list (al_bytes (ld_heap L1)) argv xss" using a L1(2) by (simp add: inside_def)
  from write_arg_step [OF ok1 a1 _ r L1(3)] obtain L' where
    "write_arg argv b k (b + of_nat (arg_off xss k), L1) = Inr (b + of_nat (arg_off xss (Suc k)), L')" "inside b r L1 L'" "args_written xss (Suc k) b (ld_user L')"
    using Suc.prems s by auto
  then show ?case using L1(1,2) inside_trans by (auto simp: rfold_append)
qed

section \<open>The whole operation\<close>

text \<open>The finished block: the array, its strings and the terminating null pointer, in pages in use.\<close>

definition args_in_place :: "u8 list list \<Rightarrow> u64 \<Rightarrow> 'f loader \<Rightarrow> bool" where
  "args_in_place xss b L \<longleftrightarrow> block b (args_room xss) L \<and> args_written xss (length xss) b (ld_user L) \<and>
     mem_bytes (ld_user L) (b + of_nat (8 * length xss)) 8 = bytes64 0 \<and> 4096 \<le> unat b"

lemma args_fit_each: "args_fit xss \<Longrightarrow> i < length xss \<Longrightarrow> arg_off xss i + (length (xss ! i) + 1) \<le> args_room xss"
  using arg_off_after [of i "length xss" xss] by (simp add: args_fit_def)

lemma args_in_place_grows:
  assumes p: "args_in_place xss b L" "args_fit xss" and g: "grows L L'"
  shows "args_in_place xss b L'"
proof -
  have same: "mem_bytes (ld_user L') (b + of_nat x) n = mem_bytes (ld_user L) (b + of_nat x) n" if "x + n \<le> args_room xss" for x n
  proof (rule mem_bytes_cong)
    fix i assume "i < n"
    then have "x + i < args_room xss" using that by simp
    then have "used (ld_regions L) (b + of_nat (x + i))" using p(1) unfolding args_in_place_def block_def by blast
    then show "ld_user L' (b + of_nat x + of_nat i) = ld_user L (b + of_nat x + of_nat i)" using g by (simp add: grows_def add.assoc)
  qed
  have r: "8 * (length xss + 1) \<le> args_room xss" using args_room_ge [of xss] by linarith
  have "mem_bytes (ld_user L') (b + of_nat (8 * i)) 8 = mem_bytes (ld_user L) (b + of_nat (8 * i)) 8" if "i \<le> length xss" for i
    using that r by (intro same) simp
  moreover have "mem_bytes (ld_user L') (b + of_nat (arg_off xss i)) (length (xss ! i) + 1) = mem_bytes (ld_user L) (b + of_nat (arg_off xss i)) (length (xss ! i) + 1)"
    if "i < length xss" for i using args_fit_each [OF p(2) that] by (intro same) simp
  ultimately show ?thesis using p(1) g by (auto simp: args_in_place_def block_def args_written_def grows_def)
qed

lemma args_in_place_list:
  assumes p: "args_in_place xss b L" and z: "\<And>xs. xs \<in> set xss \<Longrightarrow> 0 \<notin> set xs" and fit: "args_fit xss"
  shows "arg_list (ld_user L) b xss"
proof -
  have "load64 (ld_user L) (b + 8 * of_nat i) \<noteq> 0 \<and> cstr (ld_user L) (load64 (ld_user L) (b + 8 * of_nat i)) (xss ! i)" if i: "i < length xss" for i
  proof -
    have w: "mem_bytes (ld_user L) (b + of_nat (8 * i)) 8 = bytes64 (b + of_nat (arg_off xss i))"
      "mem_bytes (ld_user L) (b + of_nat (arg_off xss i)) (length (xss ! i) + 1) = xss ! i @ [0]"
      using p i by (auto simp: args_in_place_def args_written_def)
    have l: "load64 (ld_user L) (b + 8 * of_nat i) = b + of_nat (arg_off xss i)" using w(1) by (simp add: load64_def)
    have "unat (b + of_nat (arg_off xss i)) = unat b + arg_off xss i"
      using p args_fit_each [OF fit i] by (intro block_addr [of b "args_room xss"]) (simp_all add: args_in_place_def block_def)
    then have "b + of_nat (arg_off xss i) \<noteq> 0" using p by (auto simp: args_in_place_def)
    then show ?thesis unfolding l using bytes_cstr [OF w(2)] z i by simp
  qed
  moreover have "load64 (ld_user L) (b + 8 * of_nat (length xss)) = 0" using p by (simp add: args_in_place_def load64_def)
  ultimately show ?thesis by (simp add: arg_list_def)
qed

lemma inside_took_grows:
  assumes t: "took b r L L1" and i: "inside b r L1 L'"
  shows "grows L L'"
proof -
  have "ld_user L' v = ld_user L v" if "used (ld_regions L) v" for v
  proof -
    have "\<not> (unat b \<le> unat v \<and> unat v < unat b + r)" using t that by (auto simp: took_def)
    then have "ld_user L' v = ld_user L1 v" using i by (auto simp: inside_def)
    then show ?thesis using t by (simp add: took_def)
  qed
  then show ?thesis using t i by (auto simp: grows_def took_def inside_def)
qed

lemma took_block:
  assumes "took b r L L1"
  shows "block b r L1"
proof -
  have b: "unat b + r \<le> 2 ^ 47" using assms by (simp add: took_def)
  have "used (ld_regions L1) (b + of_nat j)" if "j < r" for j
    using assms block_addr [of b r j] b that by (simp add: took_def)
  then show ?thesis using b by (simp add: block_def)
qed

text \<open>The rounded size, and the search and allocation that \<open>setup_args_for_new_process\<close> shares with the stack.\<close>

lemma setup_args_eq:
  assumes a: "arg_list (al_bytes (ld_heap L)) argv xss" and n: "args_bytes xss < 2 ^ 63"
  defines "r \<equiv> of_nat (args_room xss) :: u64"
  shows "setup_args_for_new_process argv L = rbind (reserve r L) (\<lambda>(b, L).
      rbind (rfold (write_arg argv b) [0..<length xss] (b + of_nat (arg_off xss 0), L)) (\<lambda>(_, L).
      rbind (user_store (b + of_nat (8 * length xss)) (bytes64 0) L) (\<lambda>L. Inr ((of_nat (length xss), b), L))))"
    and "unat r = args_room xss" and "page_aligned r" and "0 < r"
proof -
  have c: "count_args (al_bytes (ld_heap L)) argv 0 0 = Some (of_nat (length xss), of_nat (sum_list (map (\<lambda>xs. 8 + (length xs + 1)) xss)))"
    using count_args_eq [OF a, of 0 0] by simp
  have s: "of_nat (sum_list (map (\<lambda>xs. 8 + (length xs + 1)) xss)) + 8 = (of_nat (args_bytes xss) :: u64)" by (simp add: args_bytes_def)
  have u: "unat (of_nat (args_bytes xss) :: u64) = args_bytes xss" using n by (simp add: unat_of_nat take_bit_nat_eq_self)
  have k: "args_room xss \<le> args_bytes xss + 4095" unfolding args_room_def by linarith
  show ur: "unat r = args_room xss" unfolding r_def using k n by (simp add: unat_of_nat take_bit_nat_eq_self)
  have "unat (page_ceil (of_nat (args_bytes xss))) = args_room xss"
    using unat_page_ceil [of "of_nat (args_bytes xss)"] u n by (simp add: args_room_def)
  then have pc: "page_ceil (of_nat (args_bytes xss)) = r" using ur by (simp add: word_unat_eq_iff)
  show "page_aligned r" using ur by (simp add: page_aligned_def args_room_def)
  show "0 < r" using ur args_room_ge [of xss] by (simp add: word_less_nat_alt)
  have len: "unat (of_nat (length xss) :: u64) = length xss" using n args_room_ge(2) [of xss] by (simp add: unat_of_nat take_bit_nat_eq_self)
  show "setup_args_for_new_process argv L = rbind (reserve r L) (\<lambda>(b, L).
      rbind (rfold (write_arg argv b) [0..<length xss] (b + of_nat (arg_off xss 0), L)) (\<lambda>(_, L).
      rbind (user_store (b + of_nat (8 * length xss)) (bytes64 0) L) (\<lambda>L. Inr ((of_nat (length xss), b), L))))"
    unfolding setup_args_for_new_process_def c option.case prod.case s pc Let_def len reserve_def
    by (cases "find_contiguous_virtual_range r L") (auto simp: rbind_assoc arg_off_def algebra_simps split: prod.splits)
qed

definition args_cost :: "u8 list list \<Rightarrow> nat" where
  "args_cost xss = 8 + 4 * (args_room xss div 4096)"

lemma setup_args_ok:
  assumes ok: "loader_ok lo hi ps L" and a: "arg_list (al_bytes (ld_heap L)) argv xss" and n: "args_bytes xss < 2 ^ 63" and fit: "args_fit xss"
  shows "ok_if (frontier L + args_room xss \<le> USER_END \<and> args_cost xss \<le> ld_free L)
    (\<lambda>((argc, b), L'). loader_ok lo hi ps L' \<and> argc = of_nat (length xss) \<and> args_in_place xss b L' \<and> grows L L' \<and> ld_fs L' = ld_fs L \<and>
       frontier L' \<le> frontier L + args_room xss \<and> ld_free L \<le> ld_free L' + args_cost xss) (setup_args_for_new_process argv L)"
    (is "ok_if ?c ?P _")
proof -
  let ?r = "args_room xss" and ?n = "length xss"
  note e = setup_args_eq [OF a n]
  have r: "8 * (?n + 1) \<le> ?r" using args_room_ge [of xss] by linarith
  have a1: "ok_if ?c (\<lambda>(b, L1). loader_ok lo hi ps L1 \<and> took b ?r L L1 \<and> frontier L1 \<le> frontier L + ?r \<and> ld_free L \<le> ld_free L1 + args_cost xss)
      (reserve (of_nat ?r) L)"
    by (rule ok_if_mono [OF reserve_ok [OF ok e(4,3)]]) (auto simp: e(2) args_cost_def)
  have a2: "ok_if ?c ?P (rbind (rfold (write_arg argv b) [0..<?n] (b + of_nat (arg_off xss 0), L1)) (\<lambda>(_, L).
      rbind (user_store (b + of_nat (8 * ?n)) (bytes64 0) L) (\<lambda>L. Inr ((of_nat ?n, b), L))))"
    if L1: "loader_ok lo hi ps L1 \<and> took b ?r L L1 \<and> frontier L1 \<le> frontier L + ?r \<and> ld_free L \<le> ld_free L1 + args_cost xss" for b L1
  proof -
    have bl: "block b ?r L1" using L1 took_block by blast
    have al: "arg_list (al_bytes (ld_heap L1)) argv xss" using a L1 by (simp add: took_def grows_def)
    from write_args_ok [OF conjunct1 [OF L1] bl al r, of ?n] fit obtain L2 where
      L2: "rfold (write_arg argv b) [0..<?n] (b + of_nat (arg_off xss 0), L1) = Inr (b + of_nat (arg_off xss ?n), L2)" "inside b ?r L1 L2"
      "args_written xss ?n b (ld_user L2)" by (auto simp: args_fit_def)
    have ok2: "loader_ok lo hi ps L2" "block b ?r L2" using inside_keeps [OF L2(2)] L1 bl by auto
    have "8 * ?n + length (bytes64 0) \<le> ?r" using r by simp
    from store_inside [OF ok2 this] obtain L3 where
      L3: "user_store (b + of_nat (8 * ?n)) (bytes64 0) L2 = Inr L3" "inside b ?r L2 L3" "ld_user L3 = store_bytes (b + of_nat (8 * ?n)) (bytes64 0) (ld_user L2)" by blast
    have i: "inside b ?r L1 L3" using inside_trans [OF L2(2) L3(2)] .
    have b63: "unat b + ?r \<le> 2 ^ 63" using bl by (simp add: block_def)
    have "args_written xss ?n b (ld_user L3)"
      unfolding args_written_def L3(3)
    proof (intro allI impI conjI)
      fix j assume j: "j < ?n"
      show "mem_bytes (store_bytes (b + of_nat (8 * ?n)) (bytes64 0) (ld_user L2)) (b + of_nat (8 * j)) 8 = bytes64 (b + of_nat (arg_off xss j))"
        using L2(3) j r by (subst mem_bytes_store_other [OF b63]) (auto simp: args_written_def)
      show "mem_bytes (store_bytes (b + of_nat (8 * ?n)) (bytes64 0) (ld_user L2)) (b + of_nat (arg_off xss j)) (length (xss ! j) + 1) = xss ! j @ [0]"
        using L2(3) j r args_fit_each [OF fit j] arg_off_ge [of xss j] by (subst mem_bytes_store_other [OF b63]) (auto simp: args_written_def)
    qed
    moreover have "mem_bytes (ld_user L3) (b + of_nat (8 * ?n)) 8 = bytes64 0" unfolding L3(3) by simp
    ultimately have "args_in_place xss b L3" using inside_keeps [OF i] L1 bl by (auto simp: args_in_place_def took_def)
    moreover have "grows L L3" using inside_took_grows i L1 by blast
    ultimately show ?thesis using L2(1) L3(1) i L1 inside_keeps [OF i, of lo hi ps] bl by (auto simp: inside_def took_def frontier_def)
  qed
  show ?thesis unfolding e(1) by (rule ok_if_rbind [OF a1]) (use a2 in \<open>auto simp only: split: prod.splits\<close>)
qed

end
