(* ===== verification/Elf_Exec.thy ===== *)
theory Elf_Exec
  imports Elf_Args
begin

text \<open>
  \<open>instantiate_ELF\<close> as a whole: from a well-formed executable it builds an address space that holds the program's segments, its
  stack, its arguments and its environment, and it does so whenever the machine has enough free pages.
\<close>

section \<open>The new address space\<close>

text \<open>The kernel's own page table together with the heap is well formed.\<close>

definition kernel_ready :: "nat \<Rightarrow> nat \<Rightarrow> mmu allocator \<Rightarrow> bool" where
  "kernel_ready lo hi h \<longleftrightarrow> kspace lo hi (h\<lparr>al_env := (al_env h)\<lparr>mm_cr3 := kernel_root (al_env h)\<rparr>\<rparr>) \<and> empty_user_half (al_env h)"

lemma kspace_clean:
  assumes "kernel_ready lo hi h" "clean_space (al_env h) t st"
  shows "kspace lo hi (h\<lparr>al_env := st\<lparr>mm_cr3 := t\<rparr>\<rparr>)"
proof -
  let ?old = "(al_env h)\<lparr>mm_cr3 := kernel_root (al_env h)\<rparr>" and ?new = "st\<lparr>mm_cr3 := t\<rparr>"
  have ks: "kspace lo hi (h\<lparr>al_env := ?old\<rparr>)" using assms(1) by (simp add: kernel_ready_def)
  note kb = kspace_bounds [OF ks]
  have c: "paging_ok ?new" "\<And>w. KERNEL_HALF \<le> unat w \<Longrightarrow> translate ?new w = translate ?old w \<and> (no_huge ?old w \<longrightarrow> no_huge ?new w)"
    "free_pages (mm_slab (al_env h)) = Suc (free_pages (mm_slab st))"
    using assms(2) by (auto simp: clean_space_def Let_def)
  have "no_huge ?new w" if "lo \<le> unat w" "unat w < hi" for w
    using c(2) [of w] kb(1,6) that by (simp add: kernel_okay_def)
  then have "kernel_okay lo hi ?new" using c(1) by (simp add: kernel_okay_def)
  moreover have "unat (al_heap_end h) + kernel_avail ?new \<le> hi" using kb(3) c(3) by (simp add: kernel_avail_def)
  ultimately have "kheap_inv lo hi (h\<lparr>al_env := ?new\<rparr>)" using ks by (auto simp: kspace_def kheap_inv_def heap_inv_def)
  moreover have "translate ?new w = None" if w: "unat (al_heap_end h) \<le> unat w" "unat w < hi" for w
  proof -
    have "KERNEL_HALF \<le> unat w" using w(1) kb(4,6) by simp
    then show ?thesis using c(2) [of w] ks w by (simp add: kspace_def)
  qed
  ultimately show ?thesis using kb(6) by (simp add: kspace_def)
qed

lemma first_region: "regions_wf [\<lparr>vr_address = p, vr_is_free = True, vr_start_addr = PAGE_SIZE, vr_end_addr = 0x00007FFFFFFFFFFF\<rparr>]"
  "\<not> used [\<lparr>vr_address = p, vr_is_free = True, vr_start_addr = s, vr_end_addr = e\<rparr>] v"
  by (simp_all add: regions_wf_def page_aligned_def used_def)

lemma new_address_space_ok:
  assumes r: "kernel_ready lo hi (ld_heap L)"
  shows "ok_if (5 \<le> ld_free L)
    (\<lambda>(t, L'). loader_ok lo hi [] L' \<and> (\<forall>v. \<not> used (ld_regions L') v) \<and> al_bytes (ld_heap L') = al_bytes (ld_heap L) \<and> ld_fs L' = ld_fs L \<and>
       mm_cr3 (ld_mmu L') = t \<and> frontier L' = 4096 \<and> ld_free L \<le> ld_free L' + 5) (new_address_space L)" (is "ok_if ?c ?P _")
proof -
  have ks: "kspace lo hi ((ld_heap L)\<lparr>al_env := (ld_mmu L)\<lparr>mm_cr3 := kernel_root (ld_mmu L)\<rparr>\<rparr>)" and em: "empty_user_half (ld_mmu L)"
    using r by (simp_all add: kernel_ready_def)
  have pok: "paging_ok ((ld_mmu L)\<lparr>mm_cr3 := kernel_root (ld_mmu L)\<rparr>)" using kspace_bounds(7) [OF ks] by simp
  from generate_clean_cases [OF pok em] show ?thesis
  proof (elim disjE conjE exE)
    fix t st assume g: "generate_clean_virtual_addressing (ld_mmu L) = Inr (t, st)" "clean_space (ld_mmu L) t st"
    let ?L1 = "set_mmu (st\<lparr>mm_cr3 := t\<rparr>) L"
    have k1: "kspace lo hi (ld_heap ?L1)" using kspace_clean [OF r g(2)] by (simp add: set_mmu_def)
    have c: "\<And>v. user_addr v \<Longrightarrow> translate (ld_mmu ?L1) v = None \<and> no_huge (ld_mmu ?L1) v" "ld_free L = Suc (ld_free ?L1)"
      using g(2) by (auto simp: clean_space_def Let_def set_mmu_def)
    have pf: "pages_for 32 = 1" by (simp add: pages_for_def)
    have "(32 :: u64) \<noteq> 0" "unat (32 :: u64) \<le> 2 ^ 63" by simp_all
    from kmalloc_cases [OF k1 this] show ?thesis
    proof (elim disjE conjE exE)
      assume "malloc malloc_expand_heap 32 (ld_heap ?L1) = Inl HCF" "free_pages (mm_slab (al_env (ld_heap ?L1))) < 4 * pages_for 32"
      then show ?thesis using g(1) c(2) pf by (simp add: new_address_space_def new_region_def kmalloc_def)
    next
      fix p h assume m: "malloc malloc_expand_heap 32 (ld_heap ?L1) = Inr (p, h)" "malloced lo hi 32 (ld_heap ?L1) p h"
      let ?L2 = "?L1\<lparr>ld_heap := h, ld_regions := [\<lparr>vr_address = p, vr_is_free = True, vr_start_addr = PAGE_SIZE, vr_end_addr = 0x00007FFFFFFFFFFF\<rparr>]\<rparr>"
      have n: "new_address_space L = Inr (t, ?L2)"
        using g(1) m by (simp add: new_address_space_def new_region_def kmalloc_def malloced_def)
      have "held (ld_heap ?L1) []" by (simp add: held_def)
      then have h: "held h [p]" "kspace lo hi h" using m(2) by (auto simp: malloced_def)
      have "translate (al_env h) v = None \<and> no_huge (al_env h) v" if "user_addr v" for v
        using m(2) c(1) [OF that] that by (simp add: malloced_def user_same_def keeps_space_def)
      then have "loader_ok lo hi [] ?L2" using h first_region by (simp add: loader_ok_def)
      then show ?thesis
        unfolding n using m(2) c(2) pf first_region(2) by (simp add: malloced_def keeps_space_def frontier_def set_mmu_def)
    qed
  qed (auto simp: new_address_space_def)
qed

lemma free_nodes_ok:
  assumes "kspace lo hi (ld_heap L)" "held (ld_heap L) (map vr_address rs)"
  shows "\<exists>h. rfold (\<lambda>r. kfree (vr_address r)) rs L = Inr (L\<lparr>ld_heap := h\<rparr>) \<and> kspace lo hi h \<and> al_bytes h = al_bytes (ld_heap L) \<and> al_env h = ld_mmu L"
  using assms
proof (induction rs arbitrary: L)
  case Nil
  then show ?case by (intro exI [of _ "ld_heap L"]) simp
next
  case (Cons r rs)
  from kfree_ok [OF Cons.prems, of "vr_address r"] obtain h where
    h: "free (vr_address r) (ld_heap L) = Inr h" "kspace lo hi h" "held h (map vr_address rs)" "al_bytes h = al_bytes (ld_heap L)" "al_env h = ld_mmu L"
    by auto
  from Cons.IH [of "L\<lparr>ld_heap := h\<rparr>"] h show ?case by (auto simp: kfree_def)
qed

lemma setup_stack_ok:
  assumes ok: "loader_ok lo hi ps L"
  shows "ok_if (frontier L + 65536 \<le> USER_END \<and> 72 \<le> ld_free L)
    (\<lambda>(sp, L'). loader_ok lo hi ps L' \<and> took (sp - STACK_SIZE) 65536 L L' \<and> page_aligned (sp - STACK_SIZE) \<and>
       frontier L' \<le> frontier L + 65536 \<and> ld_free L \<le> ld_free L' + 72) (setup_stack L)" (is "ok_if ?c _ _")
proof -
  have n: "(0 :: u64) < STACK_SIZE" "page_aligned STACK_SIZE" by (simp_all add: page_aligned_def)
  have eq: "setup_stack L = rbind (reserve STACK_SIZE L) (\<lambda>(b, L). Inr (b + STACK_SIZE, L))"
    unfolding setup_stack_def reserve_def
    by (cases "find_contiguous_virtual_range STACK_SIZE L") (auto simp: rbind_assoc split: prod.splits)
  show ?thesis
    unfolding eq by (rule ok_if_rbind [OF ok_if_mono [OF reserve_ok [OF ok n] _, of ?c]]) auto
qed

section \<open>Arguments that do not fit\<close>

lemma write_arg_overruns:
  assumes ok: "loader_ok lo hi ps L" "block b r L" "page_aligned b" "r mod 4096 = 0" "unat b + r \<le> USER_END"
    and a: "arg_list (al_bytes (ld_heap L)) argv xss" and k: "k < length xss" "8 * (length xss + 1) \<le> r" "arg_off xss k \<le> r + 1" "r + 1 < arg_off xss (Suc k)"
    and gap: "\<And>v. unat b + r \<le> unat v \<Longrightarrow> unat v < unat b + r + 4096 \<Longrightarrow> \<not> used (ld_regions L) v"
  shows "write_arg argv b k (b + of_nat (arg_off xss k), L) = Inl WildAccess"
proof -
  let ?p = "load64 (al_bytes (ld_heap L)) (argv + 8 * of_nat k)" and ?o = "b + of_nat (arg_off xss k)"
  have c: "cstr (al_bytes (ld_heap L)) ?p (xss ! k)" using a k(1) by (simp add: arg_list_def)
  have l: "unat (of_nat (length (xss ! k)) :: u64) = length (xss ! k)" using cstr_length [OF c] by (simp add: unat_of_nat take_bit_nat_eq_self)
  have "8 * k + length (bytes64 ?o) \<le> r" using k by simp
  from store_inside [OF ok(1,2) this] obtain L1 where
    L1: "user_store (b + of_nat (8 * k)) (bytes64 ?o) L = Inr L1" "inside b r L L1" by blast
  have ok1: "loader_ok lo hi ps L1" using inside_keeps [OF L1(2) ok(1,2)] by simp
  define i where "i = max r (arg_off xss k) - arg_off xss k"
  have i: "i < length (xss ! k @ [0])" "arg_off xss k + i = max r (arg_off xss k)" using k arg_off_Suc [OF k(1)] by (simp_all add: i_def)
  have "unat (?o + of_nat i) = unat (b + of_nat (arg_off xss k + i))" by (simp add: add.assoc)
  also have "\<dots> = unat b + max r (arg_off xss k)"
    unfolding i(2) using ok(2) k(3) by (intro block_addr [of b "r + 1"]) (simp_all add: block_def)
  finally have u: "unat (?o + of_nat i) = unat b + max r (arg_off xss k)" .
  have "(unat b + r) mod 4096 = 0" using ok(3,4) by (simp add: page_aligned_def mod_add_eq [symmetric])
  then obtain q where q: "unat b + r = 4096 * q" by auto
  then have "q < 2 ^ 35" using ok(5) by simp
  then have "unat b + r + 1 < 2 ^ 47" using q by simp
  then have "user_addr (?o + of_nat i)" using u k(3) by (simp add: user_addr_def)
  moreover have "\<not> used (ld_regions L1) (?o + of_nat i)" using gap [of "?o + of_nat i"] u k(3) L1(2) by (simp add: inside_def)
  ultimately have "\<not> user_mapped (ld_mmu L1) ?o (length (xss ! k @ [0]))" using user_unmapped [OF ok1 i(1)] by blast
  then have "user_store ?o (xss ! k @ [0]) L1 = Inl WildAccess" by (simp add: user_store_def)
  then show ?thesis using L1 strlen_cstr [OF c] cstr_bytes [OF c] l by (simp add: write_arg_def Let_def inside_def)
qed

lemma overrun_index:
  assumes "\<not> args_fit xss"
  obtains k where "k < length xss" "k = 0 \<or> arg_off xss k \<le> args_room xss + 1" "args_room xss + 1 < arg_off xss (Suc k)"
proof -
  define k where "k = (LEAST k. args_room xss + 1 < arg_off xss (Suc k))"
  have z: "arg_off xss 0 \<le> args_room xss" using args_room_ge [of xss] by (simp add: arg_off_def)
  have "xss \<noteq> []" using assms z by (auto simp: args_fit_def)
  then have n: "args_room xss + 1 < arg_off xss (Suc (length xss - 1))" using assms by (simp add: args_fit_def)
  have "k \<le> length xss - 1" unfolding k_def using n by (rule Least_le)
  then have "k < length xss" using \<open>xss \<noteq> []\<close> by (cases xss) auto
  moreover have "args_room xss + 1 < arg_off xss (Suc k)" unfolding k_def using n by (rule LeastI)
  moreover have "arg_off xss k \<le> args_room xss + 1" if "k = Suc j" for j
    using not_less_Least [of j "\<lambda>k. args_room xss + 1 < arg_off xss (Suc k)"] that by (simp add: k_def not_less)
  then have "k = 0 \<or> arg_off xss k \<le> args_room xss + 1" by (cases k) simp_all
  ultimately show thesis by (intro that [of k])
qed

lemma setup_args_overruns:
  assumes ok: "loader_ok lo hi ps L" and a: "arg_list (al_bytes (ld_heap L)) argv xss" and n: "args_bytes xss < 2 ^ 63" and fit: "\<not> args_fit xss"
    and f: "find_contiguous_virtual_range (of_nat (args_room xss)) L = Inr (b, L)"
    and room: "frontier L + args_room xss \<le> USER_END" "args_cost xss \<le> ld_free L"
    and gap: "\<And>v. unat b + args_room xss \<le> unat v \<Longrightarrow> unat v < unat b + args_room xss + 4096 \<Longrightarrow> \<not> used (ld_regions L) v"
  shows "setup_args_for_new_process argv L = Inl WildAccess"
proof -
  let ?r = "args_room xss" and ?w = "write_arg argv b"
  note e = setup_args_eq [OF a n]
  have r: "8 * (length xss + 1) \<le> ?r" "?r mod 4096 = 0" using args_room_ge [of xss] by (simp_all add: args_room_def)
  obtain L1 where L1: "reserve (of_nat ?r) L = Inr (b, L1)" "loader_ok lo hi ps L1" "took b ?r L L1" "page_aligned b"
    using ok_if_returns [OF reserve_ok [OF ok e(4,3)]] room f unfolding e(2)
    by (cases "allocate_virtual_range b (b + of_nat ?r) False L") (auto simp: reserve_def args_cost_def)
  obtain k where k: "k < length xss" "k = 0 \<or> arg_off xss k \<le> ?r + 1" "?r + 1 < arg_off xss (Suc k)" by (rule overrun_index [OF fit])
  have ko: "arg_off xss k \<le> ?r + 1" using k(2) args_room_ge [of xss] by (auto simp: arg_off_def)
  have al: "arg_list (al_bytes (ld_heap L1)) argv xss" using a L1(3) by (simp add: took_def grows_def)
  obtain L2 where L2: "rfold ?w [0..<k] (b + of_nat (arg_off xss 0), L1) = Inr (b + of_nat (arg_off xss k), L2)" "inside b ?r L1 L2"
    using write_args_ok [OF L1(2) took_block [OF L1(3)] al r(1) _ k(2)] k(1) by auto
  have ok2: "loader_ok lo hi ps L2" "block b ?r L2" using inside_keeps [OF L2(2) L1(2) took_block [OF L1(3)]] by auto
  have "arg_list (al_bytes (ld_heap L2)) argv xss" using al L2(2) by (simp add: inside_def)
  moreover have "\<not> used (ld_regions L2) v" if "unat b + ?r \<le> unat v" "unat v < unat b + ?r + 4096" for v
    using gap [OF that] that L1(3) L2(2) by (simp add: took_def inside_def)
  ultimately have w: "?w k (b + of_nat (arg_off xss k), L2) = Inl WildAccess"
    using L1(3) k(1,3) ko r by (intro write_arg_overruns [OF ok2 L1(4)]) (simp_all add: took_def)
  have "[0..<length xss] = [0..<k] @ k # [Suc k..<length xss]" using k(1) by (metis upt_add_eq_append le_add_diff_inverse less_imp_le upt_conv_Cons zero_le)
  then have "rfold ?w [0..<length xss] (b + of_nat (arg_off xss 0), L1) = Inl WildAccess" using L2(1) w by (simp add: rfold_append)
  then show ?thesis unfolding e(1) L1(1) by simp
qed

section \<open>Executables\<close>

definition elf_header :: "u8 list \<Rightarrow> ElfFile" where
  "elf_header data = decode_elf_file (take 64 data)"

definition elf_segments :: "u8 list \<Rightarrow> ElfProgramHeader list" where
  "elf_segments data = (let n = unat (ef_program_header_table_num_entries (elf_header data)) in
     decode_program_headers n (take (56 * n) (drop (unat (ef_program_header_table_offset (elf_header data))) data)))"

text \<open>An executable that the loader accepts and whose tables and segments lie inside the file.\<close>

definition elf_file_ok :: "u8 list \<Rightarrow> bool" where
  "elf_file_ok data \<longleftrightarrow> 64 \<le> length data \<and> length data < 2 ^ 63 \<and> check_header (elf_header data) = Inr () \<and>
     0 < unat (ef_program_header_table_num_entries (elf_header data)) \<and>
     unat (ef_program_header_table_offset (elf_header data)) + 56 * unat (ef_program_header_table_num_entries (elf_header data)) \<le> length data \<and>
     (\<forall>ph \<in> set (elf_segments data). readable_segment data ph)"

text \<open>Its segments have known types and pairwise disjoint pages below \<open>limit\<close>.\<close>

definition elf_placeable :: "nat \<Rightarrow> u8 list \<Rightarrow> bool" where
  "elf_placeable limit data \<longleftrightarrow> (\<forall>ph \<in> set (elf_segments data). known_segment (elf_header data) ph \<and>
       (loadable ph \<longrightarrow> 4096 \<le> seg_lo ph \<and> seg_hi ph \<le> limit)) \<and>
     sorted_wrt pages_apart (filter loadable (elf_segments data))"

definition headers_cost :: "u8 list \<Rightarrow> nat" where
  "headers_cost data = 4 * pages_for (of_nat (56 * unat (ef_program_header_table_num_entries (elf_header data)))) + segments_cost (elf_segments data)"

text \<open>Physical pages that are certainly enough: four for every page that is mapped, and the list nodes.\<close>

definition exec_cost :: "u8 list \<Rightarrow> u8 list list \<Rightarrow> u8 list list \<Rightarrow> nat" where
  "exec_cost data xss ess = 5 + headers_cost data + 72 + args_cost xss + args_cost ess"

definition exec_args_ok :: "mem \<Rightarrow> u64 \<Rightarrow> u8 list list \<Rightarrow> bool" where
  "exec_args_ok m argv xss \<longleftrightarrow> arg_list m argv xss \<and> args_bytes xss < 2 ^ 63 \<and> args_fit xss"

lemma arg_list_nonzero: "arg_list m argv xss \<Longrightarrow> xs \<in> set xss \<Longrightarrow> 0 \<notin> set xs"
  using cstr_nonzero by (fastforce simp: arg_list_def in_set_conv_nth)

text \<open>The state of the loader before it frees its list, with the values it is about to return.\<close>

definition holds_stack :: "u8 list \<Rightarrow> u64 \<Rightarrow> 'f loader \<Rightarrow> bool" where
  "holds_stack data sp L \<longleftrightarrow> page_aligned (sp - STACK_SIZE) \<and> unat (sp - STACK_SIZE) + 65536 = unat sp \<and>
     (\<forall>v. unat (sp - STACK_SIZE) \<le> unat v \<and> unat v < unat sp \<longrightarrow> used (ld_regions L) v \<and>
        (\<forall>ph \<in> set (elf_segments data). loadable ph \<longrightarrow> (\<forall>i < unat (ph_p_memsz ph). v \<noteq> ph_p_vaddr ph + of_nat i)))"

definition holds_program :: "u8 list \<Rightarrow> u64 \<Rightarrow> 'f loader \<Rightarrow> bool" where
  "holds_program data sp L \<longleftrightarrow> (\<forall>ph \<in> set (elf_segments data). loadable ph \<longrightarrow> holds_segment data ph L) \<and> holds_stack data sp L"

definition built :: "nat \<Rightarrow> nat \<Rightarrow> u8 list \<Rightarrow> u8 list list \<Rightarrow> u8 list list \<Rightarrow> u64 \<times> u64 \<times> u64 \<times> u64 \<times> u64 \<times> 'f loader \<Rightarrow> bool" where
  "built lo hi data xss ess = (\<lambda>(t, sp, argc, a, e, L). loader_ok lo hi [] L \<and> mm_cr3 (ld_mmu L) = t \<and> holds_program data sp L \<and>
     argc = of_nat (length xss) \<and> args_in_place xss a L \<and> args_in_place ess e L)"

definition build_process :: "'f VNode \<Rightarrow> ElfFile \<Rightarrow> u64 \<Rightarrow> u64 \<Rightarrow> 'f loader \<Rightarrow> (u64 \<times> u64 \<times> u64 \<times> u64 \<times> u64 \<times> 'f loader) result" where
  "build_process exe header argv envp L =
     rbind (new_address_space L) (\<lambda>(t, L). rbind (load_segments exe header L) (\<lambda>L. rbind (setup_stack L) (\<lambda>(sp, L).
     rbind (setup_args_for_new_process argv L) (\<lambda>((argc, a), L). rbind (setup_args_for_new_process envp L) (\<lambda>((_, e), L).
     Inr (t, sp, argc, a, e, L))))))"

lemma holds_program_grows: "holds_program data sp L \<Longrightarrow> grows L L' \<Longrightarrow> holds_program data sp L'"
  by (auto simp: holds_program_def holds_stack_def grows_def intro: holds_segment_grows)

lemma stack_placed:
  assumes im: "\<forall>ph \<in> set (elf_segments data). loadable ph \<longrightarrow> holds_segment data ph L" and t: "took (sp - STACK_SIZE) 65536 L L'"
    and al: "page_aligned (sp - STACK_SIZE)"
  shows "holds_program data sp L'"
proof -
  let ?b = "sp - STACK_SIZE"
  have g: "grows L L'" "unat ?b + 65536 \<le> USER_END" using t by (auto simp: took_def)
  have "unat (?b + STACK_SIZE) = unat ?b + unat STACK_SIZE" using g(2) by (intro unat_add64) simp
  then have e: "unat ?b + 65536 = unat sp" by simp
  have "v \<noteq> ph_p_vaddr ph + of_nat i" if "unat ?b \<le> unat v" "unat v < unat sp" "ph \<in> set (elf_segments data)" "loadable ph" "i < unat (ph_p_memsz ph)" for v ph i
    using that im t e by (auto simp: took_def holds_segment_def)
  then show ?thesis using im t e al g(1) by (auto simp: holds_program_def holds_stack_def took_def intro: holds_segment_grows)
qed

lemma args_stages_ok:
  assumes ok: "loader_ok lo hi [] L" "holds_program data sp L" "mm_cr3 (ld_mmu L) = t"
    and args: "exec_args_ok (al_bytes (ld_heap L)) argv xss" "exec_args_ok (al_bytes (ld_heap L)) envp ess"
  shows "ok_if (frontier L + args_room xss + args_room ess \<le> USER_END \<and> args_cost xss + args_cost ess \<le> ld_free L) (built lo hi data xss ess)
    (rbind (setup_args_for_new_process argv L) (\<lambda>((argc, a), L). rbind (setup_args_for_new_process envp L) (\<lambda>((_, e), L).
     Inr (t, sp, argc, a, e, L))))" (is "ok_if ?c _ _")
proof -
  have x: "arg_list (al_bytes (ld_heap L)) argv xss" "args_bytes xss < 2 ^ 63" "args_fit xss"
    and y: "arg_list (al_bytes (ld_heap L)) envp ess" "args_bytes ess < 2 ^ 63" "args_fit ess" using args by (auto simp: exec_args_ok_def)
  have a1: "ok_if ?c (\<lambda>((argc, b), L'). loader_ok lo hi [] L' \<and> argc = of_nat (length xss) \<and> args_in_place xss b L' \<and> grows L L' \<and> ld_fs L' = ld_fs L \<and>
       frontier L' \<le> frontier L + args_room xss \<and> ld_free L \<le> ld_free L' + args_cost xss) (setup_args_for_new_process argv L)"
    by (rule ok_if_mono [OF setup_args_ok [OF ok(1) x]]) auto
  have a2: "ok_if ?c (built lo hi data xss ess) (rbind (setup_args_for_new_process envp L1) (\<lambda>((_, e), L). Inr (t, sp, of_nat (length xss), a, e, L)))"
    if L1: "loader_ok lo hi [] L1" "args_in_place xss a L1" "grows L L1" "frontier L1 \<le> frontier L + args_room xss" "ld_free L \<le> ld_free L1 + args_cost xss" for a L1
  proof -
    have y1: "arg_list (al_bytes (ld_heap L1)) envp ess" using y(1) L1(3) by (simp add: grows_def)
    have "ok_if ?c (\<lambda>((argc, b), L'). loader_ok lo hi [] L' \<and> args_in_place ess b L' \<and> grows L1 L') (setup_args_for_new_process envp L1)"
      by (rule ok_if_mono [OF setup_args_ok [OF L1(1) y1 y(2,3)]]) (use L1(4,5) in auto)
    moreover have "built lo hi data xss ess (t, sp, of_nat (length xss), a, e, L')"
      if L': "loader_ok lo hi [] L'" "args_in_place ess e L'" "grows L1 L'" for e L'
    proof -
      have "grows L L'" using grows_trans L1(3) L'(3) .
      then show ?thesis
        using L' ok(3) holds_program_grows [OF ok(2)] args_in_place_grows [OF L1(2) x(3) L'(3)] by (simp add: built_def grows_def)
    qed
    ultimately show ?thesis by (elim ok_if_rbind) auto
  qed
  show ?thesis by (rule ok_if_rbind [OF a1]) (use a2 in \<open>auto simp only: split: prod.splits\<close>)
qed

section \<open>The finished process\<close>

text \<open>
  What the loader promises of a program that it has loaded: the bytes and registers that the program starts with, seen through its
  own page table.
\<close>

definition process_image :: "u8 list \<Rightarrow> u8 list list \<Rightarrow> u8 list list \<Rightarrow> LoadedProgram \<Rightarrow> 'f loader \<Rightarrow> bool" where
  "process_image data xss ess prog L \<longleftrightarrow> (let st = (ld_mmu L)\<lparr>mm_cr3 := lp_page_table_root prog\<rparr>; s = lp_initial_state prog in
     ps_rip s = ef_entry_offset (elf_header data) \<and> ps_rbp s = ps_rsp s \<and> ps_cs s = 0x1B \<and> ps_ss s = 0x23 \<and> ps_rflags s = 0x202 \<and>
     (\<forall>r \<in> {ps_rax, ps_rbx, ps_rcx, ps_r8, ps_r9, ps_r10, ps_r11, ps_r12, ps_r13, ps_r14, ps_r15}. r s = 0) \<and>
     ps_rdi s = of_nat (length xss) \<and> arg_list (ld_user L) (ps_rsi s) xss \<and> user_mapped st (ps_rsi s) (args_room xss) \<and>
     arg_list (ld_user L) (ps_rdx s) ess \<and> user_mapped st (ps_rdx s) (args_room ess) \<and>
     (\<forall>ph \<in> set (elf_segments data). loadable ph \<longrightarrow> user_mapped st (ph_p_vaddr ph) (unat (ph_p_memsz ph)) \<and>
        (\<forall>i < unat (ph_p_memsz ph). ld_user L (ph_p_vaddr ph + of_nat i) =
           (if i < unat (ph_p_filesz ph) then data ! (unat (ph_p_offset ph) + i) else 0))) \<and>
     page_aligned (ps_rsp s) \<and>
     (\<forall>v. unat (ps_rsp s) - 65536 \<le> unat v \<and> unat v < unat (ps_rsp s) \<longrightarrow> translate st v \<noteq> None \<and>
        (\<forall>ph \<in> set (elf_segments data). loadable ph \<longrightarrow> (\<forall>i < unat (ph_p_memsz ph). v \<noteq> ph_p_vaddr ph + of_nat i))) \<and>
     (lp_heap_start prog \<noteq> 0 \<longrightarrow> (\<forall>i < unat (ram_size_bytes (mm_slab st)). translate st (lp_heap_start prog + of_nat i) = None)))"

definition finish_process :: "ElfFile \<Rightarrow> u64 \<Rightarrow> u64 \<times> u64 \<times> u64 \<times> u64 \<times> u64 \<times> 'f loader \<Rightarrow> (LoadedProgram \<times> 'f loader) result" where
  "finish_process header cr3 = (\<lambda>(t, sp, argc, a, e, L).
     rbind (find_contiguous_virtual_range (ram_size_bytes (mm_slab (ld_mmu L))) L) (\<lambda>(heap_virt_base, L).
     rbind (rfold (\<lambda>r. kfree (vr_address r)) (ld_regions L) L) (\<lambda>L.
     Inr (\<lparr>lp_heap_start = heap_virt_base, lp_page_table_root = t, lp_initial_state = initial_state header sp argc a e\<rparr>,
          set_mmu ((ld_mmu L)\<lparr>mm_cr3 := cr3\<rparr>) L))))"

lemma found_unused:
  assumes wf: "regions_wf rs" and f: "found n rs b" and i: "i < unat n"
  shows "user_addr (b + of_nat i) \<and> \<not> used rs (b + of_nat i)"
proof -
  note d = regions_wfD [OF wf]
  from f obtain r where r: "r \<in> set rs" "vr_is_free r" "b = vr_start_addr r" "n \<le> vr_end_addr r - vr_start_addr r" by (auto simp: found_def)
  note t = tiles_bounds [OF d(1) r(1)]
  have e: "unat b + unat n \<le> unat (vr_end_addr r)" using r(3,4) t by (auto simp: word_le_nat_alt unat_sub64)
  then have u: "unat (b + of_nat i) = unat b + i" using t i by (intro block_addr [of b "unat n"]) simp_all
  have c: "covers r (b + of_nat i)" using u e i r(3) by (simp add: covers_def word_le_nat_alt word_less_nat_alt)
  have "\<not> used rs (b + of_nat i)" using covers_unique [OF d(1) r(1) _ c] r(2) by (auto simp: used_def)
  moreover have "user_addr (b + of_nat i)" using u e i t by (simp add: user_addr_def)
  ultimately show ?thesis by simp
qed

lemma finish_process_ok:
  assumes b: "built lo hi data xss ess x"
    and xs: "args_fit xss" "\<And>xs. xs \<in> set xss \<Longrightarrow> 0 \<notin> set xs" and es: "args_fit ess" "\<And>xs. xs \<in> set ess \<Longrightarrow> 0 \<notin> set xs"
  shows "ok_if c (\<lambda>(prog, L'). process_image data xss ess prog L' \<and> mm_cr3 (ld_mmu L') = cr3) (finish_process (elf_header data) cr3 x)"
proof -
  obtain t sp argc a e L where x: "x = (t, sp, argc, a, e, L)" by (metis prod.exhaust)
  have B: "loader_ok lo hi [] L" "mm_cr3 (ld_mmu L) = t" "holds_program data sp L" "argc = of_nat (length xss)" "args_in_place xss a L"
    "args_in_place ess e L" using b by (auto simp: built_def x)
  let ?n = "ram_size_bytes (mm_slab (ld_mmu L))"
  obtain hb where hb: "find_contiguous_virtual_range ?n L = Inr (hb, L)" "hb = 0 \<or> found ?n (ld_regions L) hb" using find_range_ok [OF B(1)] by blast
  have "kspace lo hi (ld_heap L)" "held (ld_heap L) (map vr_address (ld_regions L))" and wf: "regions_wf (ld_regions L)"
    and tr: "\<And>v. user_addr v \<Longrightarrow> translate (ld_mmu L) v \<noteq> None \<longleftrightarrow> used (ld_regions L) v" using B(1) by (auto simp: loader_ok_def)
  from free_nodes_ok [OF this(1,2)] obtain h where h: "rfold (\<lambda>r. kfree (vr_address r)) (ld_regions L) L = Inr (L\<lparr>ld_heap := h\<rparr>)"
    "al_env h = ld_mmu L" by blast
  let ?p = "\<lparr>lp_heap_start = hb, lp_page_table_root = t, lp_initial_state = initial_state (elf_header data) sp argc a e\<rparr>"
  let ?L = "set_mmu ((ld_mmu L)\<lparr>mm_cr3 := cr3\<rparr>) (L\<lparr>ld_heap := h\<rparr>)"
  have fin: "finish_process (elf_header data) cr3 x = Inr (?p, ?L)" using hb(1) h by (simp add: finish_process_def x)
  have st: "(ld_mmu ?L)\<lparr>mm_cr3 := lp_page_table_root ?p\<rparr> = ld_mmu L" using B(2) by (simp add: set_mmu_def)
  have mapped: "translate (ld_mmu L) v \<noteq> None" if "used (ld_regions L) v" for v using tr used_user [OF wf that] that by blast
  have am: "user_mapped (ld_mmu L) a (args_room xss)" "user_mapped (ld_mmu L) e (args_room ess)"
    using B(5,6) by (auto intro!: user_mapped_used [OF B(1)] simp: args_in_place_def block_def)
  have al: "arg_list (ld_user L) a xss" "arg_list (ld_user L) e ess" using args_in_place_list B(5,6) xs es by blast+
  have seg: "user_mapped (ld_mmu L) (ph_p_vaddr ph) (unat (ph_p_memsz ph)) \<and> (\<forall>i < unat (ph_p_memsz ph). ld_user L (ph_p_vaddr ph + of_nat i) =
      (if i < unat (ph_p_filesz ph) then data ! (unat (ph_p_offset ph) + i) else 0))" if "ph \<in> set (elf_segments data)" "loadable ph" for ph
    using B(3) that by (auto intro!: user_mapped_used [OF B(1)] simp: holds_program_def holds_segment_def)
  have stk: "page_aligned (sp - STACK_SIZE)" "unat (sp - STACK_SIZE) + 65536 = unat sp" using B(3) by (auto simp: holds_program_def holds_stack_def)
  have "unat sp mod 4096 = (unat (sp - STACK_SIZE) + 16 * 4096) mod 4096" unfolding stk(2) [symmetric] by simp
  then have sp: "page_aligned sp" using stk(1) unfolding page_aligned_def mod_mult_self1 by simp
  have lo: "unat sp - 65536 = unat (sp - STACK_SIZE)" using stk(2) by simp
  have stack: "translate (ld_mmu L) v \<noteq> None \<and> (\<forall>ph \<in> set (elf_segments data). loadable ph \<longrightarrow> (\<forall>i < unat (ph_p_memsz ph). v \<noteq> ph_p_vaddr ph + of_nat i))"
    if "unat sp - 65536 \<le> unat v \<and> unat v < unat sp" for v
    using B(3) that mapped [of v] unfolding lo holds_program_def holds_stack_def by blast
  have heap: "translate (ld_mmu L) (hb + of_nat i) = None" if "hb \<noteq> 0" "i < unat ?n" for i
    using found_unused [OF wf, of ?n hb i] hb(2) tr [of "hb + of_nat i"] that by blast
  have regs: "ps_rip (lp_initial_state ?p) = ef_entry_offset (elf_header data)" "ps_rdi (lp_initial_state ?p) = of_nat (length xss)"
    "ps_rsi (lp_initial_state ?p) = a" "ps_rdx (lp_initial_state ?p) = e" "ps_rsp (lp_initial_state ?p) = sp" "lp_heap_start ?p = hb" "ld_user ?L = ld_user L"
    "ps_rbp (lp_initial_state ?p) = sp" "ps_cs (lp_initial_state ?p) = 0x1B" "ps_ss (lp_initial_state ?p) = 0x23" "ps_rflags (lp_initial_state ?p) = 0x202"
    by (simp_all add: initial_state_def B(4) set_mmu_def)
  have zero: "r (lp_initial_state ?p) = 0" if "r \<in> {ps_rax, ps_rbx, ps_rcx, ps_r8, ps_r9, ps_r10, ps_r11, ps_r12, ps_r13, ps_r14, ps_r15}" for r
    using that by (auto simp: initial_state_def)
  have "process_image data xss ess ?p ?L" unfolding process_image_def Let_def st regs
    by (intro conjI ballI allI impI refl am al sp; (rule zero)?) (use seg stack heap in blast)+
  then show ?thesis unfolding fin by (simp add: set_mmu_def)
qed

context file_vnode
begin

lemma build_ok:
  fixes L :: "'f loader"
  assumes r: "kernel_ready lo hi (ld_heap L)" and fs: "okay (ld_fs L)" and elf: "elf_file_ok data"
    and args: "exec_args_ok (al_bytes (ld_heap L)) argv xss" "exec_args_ok (al_bytes (ld_heap L)) envp ess"
    and limit: "4096 \<le> limit" "limit + 65536 + args_room xss + args_room ess \<le> USER_END"
  shows "ok_if (elf_placeable limit data \<and> exec_cost data xss ess \<le> ld_free L) (built lo hi data xss ess)
    (build_process exe (elf_header data) argv envp L)" (is "ok_if ?c _ _")
proof -
  let ?phs = "elf_segments data" and ?k = "headers_cost data"
  have e: "length data < 2 ^ 63" "0 < unat (ef_program_header_table_num_entries (elf_header data))"
    "unat (ef_program_header_table_offset (elf_header data)) + 56 * unat (ef_program_header_table_num_entries (elf_header data)) \<le> length data"
    "\<forall>ph \<in> set ?phs. readable_segment data ph" using elf by (simp_all add: elf_file_ok_def)
  note ls = load_segments_ok [OF _ _ e(1-3), folded elf_segments_def [unfolded Let_def], folded headers_cost_def, OF _ _ e(4)]
  have stack: "ok_if ?c (built lo hi data xss ess) (rbind (setup_stack L2) (\<lambda>(sp, L).
      rbind (setup_args_for_new_process argv L) (\<lambda>((argc, a), L). rbind (setup_args_for_new_process envp L) (\<lambda>((_, e), L).
      Inr (t, sp, argc, a, e, L)))))"
    if L2: "loader_ok lo hi [] L2" "image ?k data ?phs L1 L2" "frontier L1 = 4096" "ld_free L \<le> ld_free L1 + 5" "mm_cr3 (ld_mmu L1) = t"
      "al_bytes (ld_heap L1) = al_bytes (ld_heap L)" for t L1 L2
  proof -
    have fr: "frontier L2 \<le> limit" if ?c using that L2(2,3) limit(1) by (auto simp: image_def elf_placeable_def)
    have c2: "?c \<Longrightarrow> frontier L2 + 65536 \<le> USER_END \<and> 72 \<le> ld_free L2"
      using fr L2(2,4) limit(2) by (auto simp: image_def exec_cost_def)
    have s1: "ok_if ?c (\<lambda>(sp, L'). loader_ok lo hi [] L' \<and> took (sp - STACK_SIZE) 65536 L2 L' \<and> page_aligned (sp - STACK_SIZE) \<and>
       frontier L' \<le> frontier L2 + 65536 \<and> ld_free L2 \<le> ld_free L' + 72) (setup_stack L2)"
      by (rule ok_if_mono [OF setup_stack_ok [OF L2(1)] c2])
    have s2: "ok_if ?c (built lo hi data xss ess) (rbind (setup_args_for_new_process argv L3) (\<lambda>((argc, a), L). rbind (setup_args_for_new_process envp L) (\<lambda>((_, e), L).
      Inr (t, sp, argc, a, e, L))))"
      if L3: "loader_ok lo hi [] L3" "took (sp - STACK_SIZE) 65536 L2 L3" "page_aligned (sp - STACK_SIZE)" "frontier L3 \<le> frontier L2 + 65536"
        "ld_free L2 \<le> ld_free L3 + 72" for sp L3
    proof (rule ok_if_mono [OF args_stages_ok [OF L3(1) stack_placed [OF _ L3(2,3)]]])
      show "\<forall>ph \<in> set ?phs. loadable ph \<longrightarrow> holds_segment data ph L2" using L2(2) by (simp add: image_def)
      have "al_bytes (ld_heap L3) = al_bytes (ld_heap L)" using L2(2,6) L3(2) by (simp add: image_def took_def grows_def)
      then show "exec_args_ok (al_bytes (ld_heap L3)) argv xss" "exec_args_ok (al_bytes (ld_heap L3)) envp ess" using args by simp_all
      show "mm_cr3 (ld_mmu L3) = t" using L2(2,5) L3(2) by (simp add: image_def took_def grows_def)
      show "frontier L3 + args_room xss + args_room ess \<le> USER_END \<and> args_cost xss + args_cost ess \<le> ld_free L3" if c: ?c
        using fr [OF c] L2(2,4) L3(4,5) limit(2) c by (auto simp: image_def exec_cost_def)
    qed
    show ?thesis by (rule ok_if_rbind [OF s1]) (use s2 in \<open>auto simp only: split: prod.splits\<close>)
  qed
  have segs: "ok_if ?c (built lo hi data xss ess) (rbind (load_segments exe (elf_header data) L1) (\<lambda>L. rbind (setup_stack L) (\<lambda>(sp, L).
      rbind (setup_args_for_new_process argv L) (\<lambda>((argc, a), L). rbind (setup_args_for_new_process envp L) (\<lambda>((_, e), L).
      Inr (t, sp, argc, a, e, L))))))"
    if L1: "loader_ok lo hi [] L1" "\<forall>v. \<not> used (ld_regions L1) v" "al_bytes (ld_heap L1) = al_bytes (ld_heap L)" "ld_fs L1 = ld_fs L"
       "mm_cr3 (ld_mmu L1) = t" "frontier L1 = 4096" "ld_free L \<le> ld_free L1 + 5" for t L1
  proof -
    have "okay (ld_fs L1)" using fs L1(4) by simp
    then have "ok_if ?c (\<lambda>L'. loader_ok lo hi [] L' \<and> okay (ld_fs L') \<and> image ?k data ?phs L1 L') (load_segments exe (elf_header data) L1)"
      by (rule ok_if_mono [OF ls [OF L1(1)]]) (use L1(2,7) limit in \<open>auto simp: elf_placeable_def segments_fit_def seg_unused_def exec_cost_def\<close>)
    then show ?thesis by (rule ok_if_rbind) (use stack L1 in blast)
  qed
  have "ok_if ?c (\<lambda>(t, L'). loader_ok lo hi [] L' \<and> (\<forall>v. \<not> used (ld_regions L') v) \<and> al_bytes (ld_heap L') = al_bytes (ld_heap L) \<and> ld_fs L' = ld_fs L \<and>
       mm_cr3 (ld_mmu L') = t \<and> frontier L' = 4096 \<and> ld_free L \<le> ld_free L' + 5) (new_address_space L)"
    by (rule ok_if_mono [OF new_address_space_ok [OF r]]) (auto simp: exec_cost_def)
  then show ?thesis unfolding build_process_def by (rule ok_if_rbind) (use segs in \<open>auto simp only: split: prod.splits\<close>)
qed

lemma instantiate_ok:
  fixes L :: "'f loader"
  assumes r: "kernel_ready lo hi (ld_heap L)" and fs: "okay (ld_fs L)" and elf: "elf_file_ok data"
    and args: "exec_args_ok (al_bytes (ld_heap L)) argv xss" "exec_args_ok (al_bytes (ld_heap L)) envp ess"
    and limit: "4096 \<le> limit" "limit + 65536 + args_room xss + args_room ess \<le> USER_END"
  shows "ok_if (elf_placeable limit data \<and> exec_cost data xss ess \<le> ld_free L)
    (\<lambda>(prog, L'). process_image data xss ess prog L' \<and> mm_cr3 (ld_mmu L') = mm_cr3 (ld_mmu L)) (instantiate_ELF exe argv envp L)"
    (is "ok_if ?c ?P _")
proof -
  have d: "64 \<le> length data" "check_header (elf_header data) = Inr ()" using elf by (simp_all add: elf_file_ok_def)
  obtain s where s: "vn_read_file exe (vn_id exe) 0 64 (ld_fs L) = Inr (take 64 data, s)" "okay s"
    using read_law [OF fs, of 0 64] by auto
  have eq: "instantiate_ELF exe argv envp L = rbind (build_process exe (elf_header data) argv envp (L\<lparr>ld_fs := s\<rparr>))
      (finish_process (elf_header data) (mm_cr3 (ld_mmu L)))"
    using s(1) d by (simp add: instantiate_ELF_def build_process_def finish_process_def elf_header_def [symmetric] rbind_assoc Let_def split_def)
  have "ok_if ?c (built lo hi data xss ess) (build_process exe (elf_header data) argv envp (L\<lparr>ld_fs := s\<rparr>))"
    using build_ok [of lo hi "L\<lparr>ld_fs := s\<rparr>", OF _ _ elf _ _ limit] r s(2) args by simp
  moreover have "0 \<notin> set xs" if "xs \<in> set xss \<or> xs \<in> set ess" for xs
    using that args arg_list_nonzero by (auto simp: exec_args_ok_def)
  ultimately show ?thesis
    using args unfolding eq by (elim ok_if_rbind) (auto intro!: finish_process_ok simp: exec_args_ok_def)
qed

end

text \<open>A file in the root directory of a FAT volume on a partition of a block device is such an executable.\<close>

definition fat_executable :: "('d \<Rightarrow> bool) \<Rightarrow> ('d \<Rightarrow> nat \<Rightarrow> u8 list) \<Rightarrow> nat \<Rightarrow> u64 \<Rightarrow> nat \<Rightarrow> 'd devfs Fat16Volume \<Rightarrow> nat \<Rightarrow> nat \<Rightarrow>
    u16 list \<Rightarrow> VNodeData \<Rightarrow> u8 list \<Rightarrow> 'd devfs fatfs \<Rightarrow> bool" where
  "fat_executable ok disk nsect ino cap vol m j cs v data fs \<longleftrightarrow> dev_okay ok disk nsect (dev_id ino) cap (fat_dev fs) \<and>
     fv_block_device vol = dev_vnode ino \<and> sound_layout vol cap \<and> root_file vol m j fs v \<and> 32 * j + 32 < root_size vol \<and>
     holds_file vol (dev_content disk (dev_id ino) (fat_dev fs)) j cs data"

interpretation fexe: file_vnode "fat_vnode fuel v" data "fat_executable ok disk nsect ino cap vol m j cs v data"
  for fuel v data ok disk nsect ino cap and vol :: "'d devfs Fat16Volume" and m j cs
proof
  fix s :: "'d devfs fatfs" and off :: u64 and n
  assume s: "fat_executable ok disk nsect ino cap vol m j cs v data s" and off: "unat off \<le> length data" "unat off + n < 2 ^ 64"
  then have f: "dev_okay ok disk nsect (dev_id ino) cap (fat_dev s)" "fv_block_device vol = dev_vnode ino" "sound_layout vol cap" "root_file vol m j s v"
    "32 * j + 32 < root_size vol" "holds_file vol (dev_content disk (dev_id ino) (fat_dev s)) j cs data" by (auto simp: fat_executable_def)
  have vol: "vol\<lparr>fv_block_device := dev_vnode ino\<rparr> = vol" using f(2) by (cases vol) simp
  from bfat.read_file_ok [where vol = vol and ino = ino, unfolded vol, OF f(3,1,5,4,6) off, of fuel]
  show "\<exists>s'. vn_read_file (fat_vnode fuel v) (vn_id (fat_vnode fuel v)) off n s = Inr (take n (drop (unat off) data), s') \<and>
      fat_executable ok disk nsect ino cap vol m j cs v data s'"
    using f by (auto simp: fat_vnode_def fat_executable_def)
qed

section \<open>Properties\<close>

text \<open>C3. \<open>instantiate_ELF\<close> loads programs. The kernel's heap and page tables are well formed and the kernel's own page table has an empty user half; the executable is
  well formed and lies in the root directory of a FAT volume; and the argument and environment strings fit the pages that \<open>setup_args_for_new_process\<close> takes
  for them even though it puts one byte more between them than it counts (\<open>args_fit\<close>; strings that do not fit are the subject of \<open>args_overrun_faults\<close>). Then
  \<open>instantiate_ELF\<close> returns whenever the segments have known types and pages of their own below a limit that leaves room for the stack and the arguments,
  and enough physical pages are free; otherwise it returns or halts, and never faults or hangs. When it returns, the program starts at its
  entry point with the number of its arguments, the arguments and the environment in \<open>rdi\<close>, \<open>rsi\<close> and \<open>rdx\<close>, user code and stack selectors, interrupts enabled, frame and
  stack pointer equal and the other registers zero; each segment's bytes from the
  file followed by zeros are at their addresses in the new address space, sixteen mapped pages lie below the stack pointer
  that no segment touches, and nothing is mapped in the heap area (if there was room for one as large as the memory); the
  page table that was active before is active again. Which pages may be executed is not part of the statement.\<close>

theorem instantiate_ELF_loads:
  assumes "kernel_ready lo hi (ld_heap L)" and "fat_executable ok disk nsect ino cap vol m j cs v data (ld_fs L)" and "elf_file_ok data"
    and "exec_args_ok (al_bytes (ld_heap L)) argv xss" and "exec_args_ok (al_bytes (ld_heap L)) envp ess"
    and "4096 \<le> limit" and "limit + 65536 + args_room xss + args_room ess \<le> USER_END"
  shows "case instantiate_ELF (fat_vnode fuel v) argv envp L of
      Inl f \<Rightarrow> f = HCF \<and> \<not> (elf_placeable limit data \<and> exec_cost data xss ess \<le> ld_free L)
    | Inr (prog, L') \<Rightarrow> process_image data xss ess prog L' \<and> mm_cr3 (ld_mmu L') = mm_cr3 (ld_mmu L)"
  using fexe.instantiate_ok [OF assms, of fuel] by (auto split: sum.splits)

text \<open>Memory for the witness, with a list of one argument, and a kernel heap in the upper half.\<close>

definition exec_bytes :: mem where
  "exec_bytes = store_bytes 0x500 [115, 104] (store_bytes 0x600 (bytes64 0x500) (\<lambda>_. 0))"

lemma exec_bytes_args: "exec_args_ok exec_bytes 0x600 [[115, 104]]" "exec_args_ok exec_bytes 0x700 []"
  by (simp_all add: exec_args_ok_def arg_list_def exec_bytes_def load64_def mem_bytes_def store_bytes_def upt_rec bytes64_def le64_def le32_def
      args_bytes_def args_fit_def arg_off_def args_room_def)

lemma exec_heap:
  obtains h where "kernel_ready 0xFFFFC00000000000 0xFFFFC00000200000 h" "al_bytes h = m" "al_env h = exec_mmu"
proof -
  let ?b = "0xFFFFC00000000000 :: u64" and ?lo = "0xFFFFC00000000000 :: nat" and ?hi = "0xFFFFC00000200000 :: nat"
  have al: "page_aligned ?b" by (simp add: page_aligned_def)
  obtain st1 where st1: "allocate_ram_page ?b False exec_mmu = Inr st1"
    using allocate_ram_page_cases [OF exec_mmu_ok(1) al exec_mmu_ok(2,3), of False] exec_mmu_ok(4) by cases auto
  have mask: "?b AND 0xFFF = 0" using al mask_zero by blast
  have "malloc_expand_heap ?b 16 exec_mmu = Inr (4096, st1)"
    using st1 mask by (simp add: malloc_expand_heap_def)
  then obtain h where i: "init_memory_allocator malloc_expand_heap ?b m exec_mmu = Inr h" and f: "al_bytes h = m" "al_heap_end h = ?b + 4096"
    by (simp add: init_memory_allocator_def)
  have ok: "kernel_okay ?lo ?hi exec_mmu \<and> ?hi < 2 ^ 64" using exec_mmu_ok by (simp add: kernel_okay_def)
  have "heap_inv kernel_avail (\<lambda>st. kernel_okay ?lo ?hi st \<and> ?hi < 2 ^ 64) ?lo ?hi h \<and>
      live (al_items h) (al_heap_end h) = {} \<and> al_head h = ?b"
    by (rule kheap.init_ok [OF ok _ _ _ _ _ _ i]) (simp_all add: kernel_avail_def exec_mmu_ok)
  then have "kheap_inv ?lo ?hi (h\<lparr>al_env := exec_mmu\<rparr>)" using ok f(2) exec_mmu_ok(4) by (auto simp: kheap_inv_def heap_inv_def kernel_avail_def)
  moreover have "exec_mmu\<lparr>mm_cr3 := kernel_root exec_mmu\<rparr> = exec_mmu" using exec_mmu_ok(5) by (cases exec_mmu) simp
  ultimately have "kernel_ready ?lo ?hi (h\<lparr>al_env := exec_mmu\<rparr>)" using exec_mmu_ok(3,6) by (simp add: kernel_ready_def kspace_def)
  then show thesis using f(1) by (intro that [of "h\<lparr>al_env := exec_mmu\<rparr>"]) simp_all
qed

text \<open>An executable of 122 bytes: one segment of two bytes of code at \<open>0x401078\<close>, followed by two zero bytes.\<close>

definition exec_data :: "u8 list" where
  "exec_data =
     [0x7F, 69, 76, 70, 2, 1, 1, 0, 0, 0, 0, 0, 0, 0, 0, 0, 2, 0, 0x3E, 0, 1, 0, 0, 0, 0x78, 0x10, 0x40, 0, 0, 0, 0, 0,
      64, 0, 0, 0, 0, 0, 0, 0, 0, 0, 0, 0, 0, 0, 0, 0, 0, 0, 0, 0, 64, 0, 56, 0, 1, 0, 0, 0, 0, 0, 0, 0,
      1, 0, 0, 0, 5, 0, 0, 0, 120, 0, 0, 0, 0, 0, 0, 0, 0x78, 0x10, 0x40, 0, 0, 0, 0, 0, 0, 0, 0, 0, 0, 0, 0, 0,
      2, 0, 0, 0, 0, 0, 0, 0, 4, 0, 0, 0, 0, 0, 0, 0, 0, 0x10, 0, 0, 0, 0, 0, 0, 0xEB, 0xFE]"

definition exec_header :: ElfFile where
  "exec_header = \<lparr>ef_file_header = [0x7F, 69, 76, 70], ef_bit_size_flag = 2, ef_endianness = 1, ef_header_version = 1, ef_os_abi = 0,
     ef_padding = [0, 0, 0, 0, 0, 0, 0, 0], ef_type = 2, ef_instruction_set = 0x3E, ef_elf_version = 1, ef_entry_offset = 0x401078,
     ef_program_header_table_offset = 64, ef_section_header_table_offset = 0, ef_flags = 0, ef_header_size = 64,
     ef_program_header_table_entry_size = 56, ef_program_header_table_num_entries = 1, ef_section_header_table_entry_size = 0,
     ef_section_header_table_num_entries = 0, ef_section_index_header_string_table = 0\<rparr>"

definition exec_segment :: ElfProgramHeader where
  "exec_segment = \<lparr>ph_segment_type = 1, ph_flags = 5, ph_p_offset = 120, ph_p_vaddr = 0x401078, ph_ignored = 0, ph_p_filesz = 2,
     ph_p_memsz = 4, ph_required_alignment = 0x1000\<rparr>"

lemma exec_file:
  "elf_header exec_data = exec_header" "elf_segments exec_data = [exec_segment]" "length exec_data = 122" "exec_data ! 120 = 0xEB"
proof -
  show h: "elf_header exec_data = exec_header"
    by (simp add: elf_header_def exec_data_def decode_elf_file_def exec_header_def le64_def le32_def le16_def)
  show "elf_segments exec_data = [exec_segment]"
    unfolding elf_segments_def h
    by (simp add: exec_header_def exec_data_def exec_segment_def decode_program_headers_def decode_program_header_def le64_def le32_def le16_def)
qed (simp_all add: exec_data_def)

lemma exec_file_ok: "elf_file_ok exec_data" "elf_placeable 0x402000 exec_data" "exec_cost exec_data [[115, 104]] [] \<le> 256"
  by (simp_all add: elf_file_ok_def elf_placeable_def exec_file check_header_def exec_header_def readable_segment_def loadable_def segment_wf_def
      known_segment_def seg_lo_def seg_hi_def exec_cost_def headers_cost_def segments_cost_def seg_cost_def args_cost_def args_room_def args_bytes_def
      pages_for_def exec_segment_def word_less_nat_alt)

lemma exec_disk:
  obtains fs :: "(nat \<Rightarrow> u8 list) devfs fatfs" and cs where
    "fat_executable (\<lambda>d. \<forall>s. length (d s) = 512) (\<lambda>d. d) 300 0 (512 * 300) blank_volume 0 0 cs \<lparr>vd_inode = 0, vd_mount_id = 0\<rparr> exec_data fs"
proof -
  let ?ok = "\<lambda>d. \<forall>s. length (d s) = (512 :: nat)" and ?v = "\<lparr>vd_inode = 0, vd_mount_id = 0\<rparr> :: VNodeData"
  obtain dev where ok: "dev_okay ?ok (\<lambda>d. d) 300 (dev_id 0) (512 * 300) dev" and content: "dev_content (\<lambda>d. d) (dev_id 0) dev = (\<lambda>_. 0)"
    by (rule ram_device)
  let ?fs = "\<lparr>fat_mounts = [blank_volume], fat_create_idx = 0, fat_dev = dev\<rparr>"
  have rf: "root_file blank_volume 0 0 ?fs ?v" by (simp add: root_file_def get_parent_cluster_num_def get_dirent_index_in_parent_def)
  have bd: "fv_block_device blank_volume = dev_vnode 0" by (simp add: blank_volume_def)
  have vol: "blank_volume\<lparr>fv_block_device := dev_vnode 0\<rparr> = blank_volume" using bd by (cases blank_volume) simp
  note wr = bfat.write_file_ok [where vol = blank_volume and ino = 0, unfolded vol, of "512 * 300" ?ok "\<lambda>d. d" 300 ?fs 0 0 ?v "[]" "[]" 0 exec_data]
  obtain fs1 cs' where "dev_okay ?ok (\<lambda>d. d) 300 (dev_id 0) (512 * 300) (fat_dev fs1)" "root_file blank_volume 0 0 fs1 ?v"
    "holds_file blank_volume (dev_content (\<lambda>d. d) (dev_id 0) (fat_dev fs1)) 0 cs' (overwrite 0 exec_data [])"
    using wr ok content blank_disk blank_volume_layout rf exec_file(3) by auto
  then show thesis using bd blank_volume_layout by (intro that [of cs' fs1]) (simp add: fat_executable_def overwrite_def)
qed

theorem instantiate_ELF_loads_witness:
  "\<exists>L prog L'. instantiate_ELF (fat_vnode 1 \<lparr>vd_inode = 0, vd_mount_id = 0\<rparr> :: (nat \<Rightarrow> u8 list) devfs fatfs VNode) 0x600 0x700 L = Inr (prog, L') \<and>
     ps_rip (lp_initial_state prog) = 0x401078 \<and> ps_rdi (lp_initial_state prog) = 1 \<and> ld_user L' 0x401078 = 0xEB \<and> ld_user L' 0x40107B = 0"
proof -
  let ?v = "\<lparr>vd_inode = 0, vd_mount_id = 0\<rparr> :: VNodeData"
  obtain h where h: "kernel_ready 0xFFFFC00000000000 0xFFFFC00000200000 h" "al_bytes h = exec_bytes" "al_env h = exec_mmu" by (rule exec_heap)
  obtain fs cs where fs: "fat_executable (\<lambda>d. \<forall>s. length (d s) = 512) (\<lambda>d. d) 300 0 (512 * 300) blank_volume 0 0 cs ?v exec_data fs" by (rule exec_disk)
  let ?L = "\<lparr>ld_heap = h, ld_user = \<lambda>_. 0, ld_fs = fs, ld_regions = []\<rparr>"
  have "case instantiate_ELF (fat_vnode 1 ?v) 0x600 0x700 ?L of
      Inl f \<Rightarrow> f = HCF \<and> \<not> (elf_placeable 0x402000 exec_data \<and> exec_cost exec_data [[115, 104]] [] \<le> ld_free ?L)
    | Inr (prog, L') \<Rightarrow> process_image exec_data [[115, 104]] [] prog L' \<and> mm_cr3 (ld_mmu L') = mm_cr3 (ld_mmu ?L)"
    by (rule instantiate_ELF_loads [OF _ _ exec_file_ok(1)]) (use h fs exec_bytes_args in \<open>simp_all add: args_room_def args_bytes_def\<close>)
  then obtain prog L' where p: "instantiate_ELF (fat_vnode 1 ?v) 0x600 0x700 ?L = Inr (prog, L')" "process_image exec_data [[115, 104]] [] prog L'"
    using exec_file_ok(2,3) h(3) exec_mmu_ok(4) by (auto split: sum.splits)
  have seg: "loadable exec_segment" "ph_p_vaddr exec_segment = 0x401078" "unat (ph_p_memsz exec_segment) = 4" "unat (ph_p_filesz exec_segment) = 2"
    "unat (ph_p_offset exec_segment) = 120" by (simp_all add: exec_segment_def loadable_def)
  have b: "ld_user L' (0x401078 + of_nat i) = (if i < 2 then exec_data ! (120 + i) else 0)" if "i < 4" for i
    using p(2) that seg unfolding process_image_def exec_file(2) Let_def by auto
  have "ps_rip (lp_initial_state prog) = 0x401078" "ps_rdi (lp_initial_state prog) = 1"
    using p(2) by (simp_all add: process_image_def Let_def exec_file(1) exec_header_def)
  then show ?thesis using p(1) b [of 0] b [of 3] exec_file(4) by auto
qed

text \<open>C32. Taking a range of pages. \<open>allocate_virtual_range\<close> keeps the loader's invariant: the list of regions covers the user half without
  gaps or overlaps, free and allocated regions alternate, and exactly the allocated addresses are mapped. It returns
  whenever the range is page-aligned, inside the user half and not mapped, and enough physical pages are free, and
  otherwise returns or halts. Afterwards exactly the addresses of the range are mapped in addition to those before, none of
  them was mapped before.\<close>

theorem allocate_virtual_range_takes:
  assumes "loader_ok lo hi ps L" and "p < q"
  shows "case allocate_virtual_range p q can_execute L of
      Inl f \<Rightarrow> f = HCF \<and> \<not> (page_aligned p \<and> page_aligned q \<and> 4096 \<le> unat p \<and> unat q \<le> USER_END \<and>
        (\<forall>v. p \<le> v \<and> v < q \<longrightarrow> translate (ld_mmu L) v = None) \<and> 8 + 4 * ((unat q - unat p) div 4096) \<le> ld_free L)
    | Inr L' \<Rightarrow> loader_ok lo hi ps L' \<and>
        (\<forall>v. user_addr v \<longrightarrow> (translate (ld_mmu L') v \<noteq> None \<longleftrightarrow> translate (ld_mmu L) v \<noteq> None \<or> p \<le> v \<and> v < q)) \<and>
        (\<forall>v. p \<le> v \<and> v < q \<longrightarrow> translate (ld_mmu L) v = None)"
proof -
  have wf: "regions_wf (ld_regions L)" and tr: "\<And>v. user_addr v \<Longrightarrow> translate (ld_mmu L) v \<noteq> None \<longleftrightarrow> used (ld_regions L) v"
    using assms(1) by (auto simp: loader_ok_def)
  have room: "has_room p q L" if "4096 \<le> unat p" "unat q \<le> USER_END" "\<forall>v. p \<le> v \<and> v < q \<longrightarrow> translate (ld_mmu L) v = None"
  proof (rule room_if_unused [OF wf that(1) assms(2) that(2)])
    show "\<not> used (ld_regions L) v" if "p \<le> v" "v < q" for v
      using \<open>\<forall>v. p \<le> v \<and> v < q \<longrightarrow> translate (ld_mmu L) v = None\<close> tr [of v] used_user [OF wf, of v] that by auto
  qed
  have t: "\<forall>v. user_addr v \<longrightarrow> (translate (ld_mmu L') v \<noteq> None \<longleftrightarrow> translate (ld_mmu L) v \<noteq> None \<or> p \<le> v \<and> v < q)"
    "\<forall>v. p \<le> v \<and> v < q \<longrightarrow> translate (ld_mmu L) v = None" if "loader_ok lo hi ps L'" "took p (unat q - unat p) L L'" for L' :: "'a loader"
  proof -
    have e: "unat p \<le> unat v \<and> unat v < unat p + (unat q - unat p) \<longleftrightarrow> p \<le> v \<and> v < q" for v
      using assms(2) by (auto simp: word_le_nat_alt word_less_nat_alt)
    have u: "used (ld_regions L') v \<longleftrightarrow> used (ld_regions L) v \<or> p \<le> v \<and> v < q" "p \<le> v \<and> v < q \<Longrightarrow> \<not> used (ld_regions L) v \<and> user_addr v" for v
      using that(2) unfolding took_def e by (auto simp: user_addr_def word_less_nat_alt)
    show "\<forall>v. user_addr v \<longrightarrow> (translate (ld_mmu L') v \<noteq> None \<longleftrightarrow> translate (ld_mmu L) v \<noteq> None \<or> p \<le> v \<and> v < q)"
      using that(1) u(1) tr by (auto simp: loader_ok_def)
    show "\<forall>v. p \<le> v \<and> v < q \<longrightarrow> translate (ld_mmu L) v = None" using u(2) tr by blast
  qed
  show ?thesis
  proof (cases "allocate_virtual_range p q can_execute L")
    case (Inl f)
    then show ?thesis using allocate_virtual_range_ok [OF assms, of can_execute] room by auto
  next
    case (Inr L')
    then show ?thesis using allocate_virtual_range_ok [OF assms, of can_execute] t [of L'] by (simp add: took_def)
  qed
qed

text \<open>The loader's state on the machine of the witness, with a new page table.\<close>

lemma exec_space:
  fixes m :: mem
  obtains L :: "unit loader" where "loader_ok 0xFFFFC00000000000 0xFFFFC00000200000 [] L" "\<forall>v. \<not> used (ld_regions L) v" "al_bytes (ld_heap L) = m"
    "frontier L = 4096" "256 \<le> ld_free L + 5"
proof -
  obtain h where h: "kernel_ready 0xFFFFC00000000000 0xFFFFC00000200000 h" "al_bytes h = m" "al_env h = exec_mmu" by (rule exec_heap)
  let ?L = "\<lparr>ld_heap = h, ld_user = \<lambda>_. 0, ld_fs = (), ld_regions = []\<rparr>"
  have r: "kernel_ready 0xFFFFC00000000000 0xFFFFC00000200000 (ld_heap ?L)" "5 \<le> ld_free ?L" "ld_free ?L = 256" using h exec_mmu_ok(4) by simp_all
  then show thesis
    using ok_if_returns [OF new_address_space_ok [OF r(1)] r(2)] h(2) that by (auto simp: returns_def split: sum.splits)
qed

theorem allocate_virtual_range_takes_witness:
  "\<exists>L L' :: unit loader. allocate_virtual_range 0x400000 0x402000 True L = Inr L' \<and>
     (\<forall>v. user_addr v \<longrightarrow> (translate (ld_mmu L') v \<noteq> None \<longleftrightarrow> 0x400000 \<le> v \<and> v < 0x402000))"
proof -
  obtain L :: "unit loader" where L: "loader_ok 0xFFFFC00000000000 0xFFFFC00000200000 [] L" "\<forall>v. \<not> used (ld_regions L) v" "256 \<le> ld_free L + 5"
    by (rule exec_space)
  have n: "translate (ld_mmu L) v = None" if "user_addr v" for v using L(1,2) that by (auto simp: loader_ok_def)
  have "translate (ld_mmu L) v = None" if "0x400000 \<le> v \<and> v < 0x402000" for v
    using that by (intro n) (auto simp: user_addr_def word_less_nat_alt)
  moreover have "page_aligned 0x400000" "page_aligned 0x402000" by (simp_all add: page_aligned_def)
  ultimately show ?thesis
    using allocate_virtual_range_takes [OF L(1), where p = "0x400000" and q = "0x402000" and can_execute = True] L(3) n by (auto split: sum.splits)
qed

text \<open>C39. \<open>setup_args_for_new_process\<close> counts a string and its terminator for each argument but puts the strings two bytes apart after
  their end, so arguments that just fit by the count do not fit when they are written: when the page after the block is
  not in use, writing them is a page fault in the kernel.\<close>

theorem args_overrun_faults:
  assumes "loader_ok lo hi ps L" and "arg_list (al_bytes (ld_heap L)) argv xss" and "args_bytes xss < 2 ^ 63" and "\<not> args_fit xss"
    and "find_contiguous_virtual_range (of_nat (args_room xss)) L = Inr (b, L)"
    and "frontier L + args_room xss \<le> USER_END" and "args_cost xss \<le> ld_free L"
    and "\<forall>v. unat b + args_room xss \<le> unat v \<and> unat v < unat b + args_room xss + 4096 \<longrightarrow> \<not> used (ld_regions L) v"
  shows "setup_args_for_new_process argv L = Inl WildAccess"
  using setup_args_overruns [OF assms(1-7)] assms(8) by blast

text \<open>Three arguments that take 4095 bytes by the count: one of 4058 letters and two of one letter.\<close>

definition long_args :: "u8 list list" where
  "long_args = [replicate 4058 97, [98], [99]]"

definition long_bytes :: mem where
  "long_bytes = store_bytes 0x10000 (replicate 4058 97 @ [0]) (store_bytes 0x500 [98, 0, 99, 0]
     (store_bytes 0x600 (bytes64 0x10000 @ bytes64 0x500 @ bytes64 0x502) (\<lambda>_. 0)))"

lemma long_args_list: "arg_list long_bytes 0x600 long_args"
proof -
  let ?p = "\<lambda>i. load64 long_bytes (0x600 + 8 * of_nat i)"
  have p: "?p 0 = 0x10000" "?p 1 = 0x500" "?p 2 = 0x502" "?p 3 = 0"
    by (simp_all add: long_bytes_def load64_def mem_bytes_def store_bytes_def upt_rec bytes64_def le64_def le32_def)
  have "mem_bytes long_bytes 0x10000 (length (replicate 4058 (97 :: u8)) + 1) = replicate 4058 97 @ [0]" by (simp add: long_bytes_def)
  then have "cstr long_bytes 0x10000 (replicate 4058 97)" by (rule bytes_cstr) simp
  moreover have "cstr long_bytes 0x500 [98]" "cstr long_bytes 0x502 [99]" by (simp_all add: long_bytes_def store_bytes_def)
  ultimately have "?p i \<noteq> 0 \<and> cstr long_bytes (?p i) (long_args ! i)" if "i \<in> {0, 1, 2}" for i
    using that p by (auto simp: long_args_def)
  then have "?p i \<noteq> 0 \<and> cstr long_bytes (?p i) (long_args ! i)" if "i < 3" for i
    using that by (metis insertI1 insertI2 less_Suc0 less_Suc_eq numeral_2_eq_2 numeral_3_eq_3 One_nat_def)
  then show ?thesis using p(4) by (simp add: arg_list_def long_args_def)
qed

lemma long_args_size: "args_bytes long_args = 4095" "args_room long_args = 4096" "\<not> args_fit long_args" "args_cost long_args = 12"
proof -
  show b: "args_bytes long_args = 4095" by (simp add: args_bytes_def long_args_def)
  show r: "args_room long_args = 4096" by (simp add: args_room_def b)
  show "\<not> args_fit long_args" unfolding args_fit_def r by (simp add: arg_off_def long_args_def)
  show "args_cost long_args = 12" by (simp add: args_cost_def r)
qed

theorem args_overrun_faults_witness:
  "\<exists>L :: unit loader. arg_list (al_bytes (ld_heap L)) 0x600 long_args \<and> args_bytes long_args = 4095 \<and>
     setup_args_for_new_process 0x600 L = Inl WildAccess"
proof -
  obtain L :: "unit loader" where L: "loader_ok 0xFFFFC00000000000 0xFFFFC00000200000 [] L" "\<forall>v. \<not> used (ld_regions L) v"
    "al_bytes (ld_heap L) = long_bytes" "frontier L = 4096" "256 \<le> ld_free L + 5" by (rule exec_space)
  obtain b where b: "find_contiguous_virtual_range (of_nat (args_room long_args)) L = Inr (b, L)" using find_range_ok [OF L(1)] by blast
  have a: "arg_list (al_bytes (ld_heap L)) 0x600 long_args" using long_args_list L(3) by simp
  have "setup_args_for_new_process 0x600 L = Inl WildAccess"
    by (rule args_overrun_faults [OF L(1) a _ long_args_size(3) b]) (use L long_args_size in auto)
  then show ?thesis using a long_args_size(1) by blast
qed

end
