(* ===== verification/User_Heap.thy ===== *)
theory User_Heap
  imports Address_Space
begin

text \<open>
  The C library's heap (\<open>custom_libc/init.c\<close>): \<open>_malloc_expand_heap\<close> asks the kernel for one page at a
  time with the \<open>REQUEST_PAGE\<close> system call. Its handler, \<open>syscall_request_page\<close> of \<open>stuos/src/syscall_handlers.rs\<close>, charges the page to
  the process's data limit and maps it with \<open>allocate_ram_page\<close> in the address space of the process. The heap of a program is thus
  an instance of \<open>heap_provider\<close> and of \<open>mapping_provider\<close>, and \<open>malloc\<close> in user space is followed down to the page tables.
  \<open>abort\<close> and a panic of the kernel are the fault \<open>HCF\<close>.
\<close>

section \<open>The expander\<close>

type_synonym 'k request_page = "u64 \<Rightarrow> 'k \<Rightarrow> (u32 \<times> 'k) result"

abbreviation ENOMEM :: u32 where "ENOMEM \<equiv> 12"

function expand_pages :: "'k request_page \<Rightarrow> u64 \<Rightarrow> u64 \<Rightarrow> u64 \<Rightarrow> 'k \<Rightarrow> (u64 \<times> 'k) result" where
  "expand_pages request_page heap_end i rounded_up_pages k =
     (if i < rounded_up_pages then
        (case request_page (heap_end + PAGE_SIZE * i) k of
           Inl f \<Rightarrow> Inl f
         | Inr (err, k') \<Rightarrow>
             if err = 0 then expand_pages request_page heap_end (i + 1) rounded_up_pages k'
             else if err = ENOMEM then Inr (PAGE_SIZE * i, k')
             else Inl HCF)
      else Inr (PAGE_SIZE * i, k))"
  by pat_completeness auto
termination
  by (relation "measure (\<lambda>(r, he, i, n, k). unat n - unat i)") (auto intro: plus1_less_measure)

declare expand_pages.simps [simp del]

definition user_malloc_expand_heap :: "'k request_page \<Rightarrow> 'k expander" where
  "user_malloc_expand_heap request_page heap_end bytes k =
     (if heap_end AND 0xFFF \<noteq> 0 then Inl HCF
      else expand_pages request_page heap_end 0 ((bytes + PAGE_SIZE - 1) div PAGE_SIZE) k)"

section \<open>The system call\<close>

text \<open>The memory of a process: the page tables, and the use and the limit of its data (\<open>LimitData\<close>).\<close>

record process_memory =
  pr_mmu :: mmu
  pr_current_value :: u64
  pr_rlim_cur :: u64

definition syscall_request_page :: "process_memory request_page" where
  "syscall_request_page page_virt_addr p =
     (if 2 ^ 64 \<le> unat (pr_current_value p) + unat PAGE_SIZE then Inl HCF
      else let new_value = pr_current_value p + PAGE_SIZE in
        if new_value > pr_rlim_cur p then Inr (ENOMEM, p)
        else rbind (allocate_ram_page page_virt_addr False (pr_mmu p)) (\<lambda>st.
          Inr (0, p\<lparr>pr_mmu := st, pr_current_value := new_value\<rparr>)))"

abbreviation user_expand :: "process_memory expander" where
  "user_expand \<equiv> user_malloc_expand_heap syscall_request_page"

text \<open>
  What a run of the loop comes to: it maps the pages one after the other, as the kernel's loop does, and charges each; it stops early
  when the limit is reached, and fails when a page cannot be mapped or the count of the use overflows.
\<close>

abbreviation grant_pages :: "u64 \<Rightarrow> nat list \<Rightarrow> mmu \<Rightarrow> mmu result" where
  "grant_pages he \<equiv> rfold (\<lambda>i st. allocate_ram_page (he + PAGE_SIZE * of_nat i) False st)"

definition granted :: "u64 \<Rightarrow> nat \<Rightarrow> nat \<Rightarrow> process_memory \<Rightarrow> u64 \<Rightarrow> process_memory \<Rightarrow> bool" where
  "granted he i n p m p' \<longleftrightarrow> (\<exists>j. i + j \<le> n \<and> m = PAGE_SIZE * of_nat (i + j) \<and> grant_pages he [i..<i + j] (pr_mmu p) = Inr (pr_mmu p') \<and>
     pr_rlim_cur p' = pr_rlim_cur p \<and> unat (pr_current_value p') = unat (pr_current_value p) + 4096 * j \<and>
     (i + j < n \<longrightarrow> unat (pr_rlim_cur p) < unat (pr_current_value p) + 4096 * (n - i)))"

definition denied :: "u64 \<Rightarrow> nat \<Rightarrow> nat \<Rightarrow> process_memory \<Rightarrow> fault \<Rightarrow> bool" where
  "denied he i n p f \<longleftrightarrow> f = HCF \<and> 2 ^ 64 \<le> unat (pr_current_value p) + 4096 * (n - i) \<or>
     (\<exists>j. i + j < n \<and> grant_pages he [i..<i + Suc j] (pr_mmu p) = Inl f)"

lemma expand_pages_runs:
  assumes "unat i \<le> unat n"
  shows "case expand_pages syscall_request_page he i n p of
      Inl f \<Rightarrow> denied he (unat i) (unat n) p f
    | Inr (m, p') \<Rightarrow> granted he (unat i) (unat n) p m p'"
  using assms
proof (induction "unat n - unat i" arbitrary: i p)
  case 0
  then have "\<not> i < n" by (simp add: word_less_nat_alt)
  then show ?case using 0 by (subst expand_pages.simps) (auto simp: granted_def)
next
  case (Suc d)
  have lt: "i < n" "unat i < unat n" using Suc.hyps(2) by (simp_all add: word_less_nat_alt)
  have i1: "unat (i + 1) = Suc (unat i)" using unat_plus1_less [OF lt(1)] by simp
  have up: "[unat i..<unat i + Suc j] = unat i # [Suc (unat i)..<Suc (unat i) + j]" for j by (simp add: upt_conv_Cons)
  let ?v = "he + PAGE_SIZE * i" and ?c = "pr_current_value p"
  have E: "expand_pages syscall_request_page he i n p = (case syscall_request_page ?v p of Inl f \<Rightarrow> Inl f
     | Inr (err, k') \<Rightarrow> if err = 0 then expand_pages syscall_request_page he (i + 1) n k' else if err = ENOMEM then Inr (PAGE_SIZE * i, k') else Inl HCF)"
    using lt by (subst expand_pages.simps) simp
  consider "2 ^ 64 \<le> unat ?c + 4096" | "unat ?c + 4096 < 2 ^ 64" "pr_rlim_cur p < ?c + PAGE_SIZE"
    | "unat ?c + 4096 < 2 ^ 64" "\<not> pr_rlim_cur p < ?c + PAGE_SIZE" by linarith
  then show ?case
  proof cases
    case 1
    moreover have "4096 \<le> 4096 * (unat n - unat i)" using lt(2) by simp
    ultimately have "2 ^ 64 \<le> unat ?c + 4096 * (unat n - unat i)" by linarith
    then show ?thesis using 1 unfolding E by (simp add: syscall_request_page_def denied_def)
  next
    case 2
    then have u: "unat (?c + PAGE_SIZE) = unat ?c + 4096" by (subst unat_add64) simp_all
    have "unat (pr_rlim_cur p) < unat ?c + 4096" using 2 by (simp only: word_less_nat_alt u)
    moreover have "4096 \<le> 4096 * (unat n - unat i)" using lt(2) by simp
    ultimately have "unat (pr_rlim_cur p) < unat ?c + 4096 * (unat n - unat i)" by linarith
    then show ?thesis using 2 lt(2) unfolding E by (auto simp: syscall_request_page_def granted_def Let_def intro!: exI [of _ 0])
  next
    case 3
    then have u: "unat (?c + PAGE_SIZE) = unat ?c + 4096" by (subst unat_add64) simp_all
    show ?thesis
    proof (cases "allocate_ram_page ?v False (pr_mmu p)")
      case (Inl f)
      then show ?thesis using 3 lt(2) unfolding E by (simp add: syscall_request_page_def denied_def) (auto intro!: exI [of _ 0])
    next
      case (Inr st)
      let ?p = "p\<lparr>pr_mmu := st, pr_current_value := ?c + PAGE_SIZE\<rparr>"
      have e: "expand_pages syscall_request_page he i n p = expand_pages syscall_request_page he (i + 1) n ?p"
        using 3 Inr unfolding E by (simp add: syscall_request_page_def Let_def)
      have ih: "case expand_pages syscall_request_page he (i + 1) n ?p of Inl f \<Rightarrow> denied he (unat (i + 1)) (unat n) ?p f
        | Inr (m, p') \<Rightarrow> granted he (unat (i + 1)) (unat n) ?p m p'"
        by (rule Suc.hyps(1)) (use Suc.hyps(2) i1 lt in simp_all)
      have step: "grant_pages he [unat i..<unat i + Suc j] (pr_mmu p) = grant_pages he [Suc (unat i)..<Suc (unat i) + j] st" for j
        unfolding up using Inr by simp
      have "denied he (unat i) (unat n) p f" if d: "denied he (unat (i + 1)) (unat n) ?p f" for f
        using d lt(2) unfolding denied_def i1
      proof (elim disjE exE conjE)
        fix j assume "Suc (unat i) + j < unat n" "grant_pages he [Suc (unat i)..<Suc (unat i) + Suc j] (pr_mmu ?p) = Inl f"
        then show "f = HCF \<and> 2 ^ 64 \<le> unat ?c + 4096 * (unat n - unat i) \<or> (\<exists>j. unat i + j < unat n \<and> grant_pages he [unat i..<unat i + Suc j] (pr_mmu p) = Inl f)"
          using step [of "Suc j"] by (intro disjI2 exI [of _ "Suc j"]) simp
      next
        assume "f = HCF" "2 ^ 64 \<le> unat (pr_current_value ?p) + 4096 * (unat n - Suc (unat i))"
        moreover have "4096 * (unat n - unat i) = 4096 + 4096 * (unat n - Suc (unat i))" using lt(2) by (simp add: algebra_simps)
        ultimately show "f = HCF \<and> 2 ^ 64 \<le> unat ?c + 4096 * (unat n - unat i) \<or> (\<exists>j. unat i + j < unat n \<and> grant_pages he [unat i..<unat i + Suc j] (pr_mmu p) = Inl f)"
          using u by (intro disjI1) simp
      qed
      moreover have "granted he (unat i) (unat n) p m p'" if d: "granted he (unat (i + 1)) (unat n) ?p m p'" for m p'
      proof -
        from d obtain j where j: "Suc (unat i) + j \<le> unat n" "m = PAGE_SIZE * of_nat (Suc (unat i) + j)"
          "grant_pages he [Suc (unat i)..<Suc (unat i) + j] st = Inr (pr_mmu p')" "pr_rlim_cur p' = pr_rlim_cur p"
          "unat (pr_current_value p') = unat ?c + 4096 + 4096 * j"
          "Suc (unat i) + j < unat n \<longrightarrow> unat (pr_rlim_cur p) < unat ?c + 4096 + 4096 * (unat n - Suc (unat i))"
          unfolding granted_def i1 by (auto simp: u)
        then show ?thesis unfolding granted_def using step [of j] lt(2) by (intro exI [of _ "Suc j"]) auto
      qed
      ultimately show ?thesis using ih unfolding e by (auto split: sum.splits)
    qed
  qed
qed

section \<open>The heap of a process\<close>

definition user_okay :: "nat \<Rightarrow> nat \<Rightarrow> process_memory \<Rightarrow> bool" where
  "user_okay lo hi p \<longleftrightarrow> kernel_okay lo hi (pr_mmu p) \<and> hi < 2 ^ 64"

definition user_avail :: "process_memory \<Rightarrow> nat" where
  "user_avail p = kernel_avail (pr_mmu p)"

abbreviation user_present :: "process_memory \<Rightarrow> u64 \<Rightarrow> bool" where
  "user_present p v \<equiv> translate (pr_mmu p) v \<noteq> None"

lemma page_count: "unat n \<le> 2 ^ 63 + 31 \<Longrightarrow> unat ((n + PAGE_SIZE - 1) div PAGE_SIZE :: u64) = (unat n + 4095) div 4096"
proof -
  assume "unat n \<le> 2 ^ 63 + 31"
  then have "unat (n + PAGE_SIZE - 1) = unat n + 4095" by (simp add: unat_word_ariths)
  then show ?thesis by (simp add: unat_div)
qed

lemma user_expand_runs:
  "user_expand he n p = Inr (m, p') \<Longrightarrow> granted he 0 (unat ((n + PAGE_SIZE - 1) div PAGE_SIZE)) p m p'"
  "user_expand he n p = Inl f \<Longrightarrow> page_aligned he \<Longrightarrow> denied he 0 (unat ((n + PAGE_SIZE - 1) div PAGE_SIZE)) p f"
proof -
  have z: "unat (0 :: u64) \<le> unat ((n + PAGE_SIZE - 1) div PAGE_SIZE)" by simp
  note r = expand_pages_runs [OF z, of he p]
  show "user_expand he n p = Inr (m, p') \<Longrightarrow> granted he 0 (unat ((n + PAGE_SIZE - 1) div PAGE_SIZE)) p m p'"
    using r by (auto simp: user_malloc_expand_heap_def split: if_splits)
  show "user_expand he n p = Inl f \<Longrightarrow> page_aligned he \<Longrightarrow> denied he 0 (unat ((n + PAGE_SIZE - 1) div PAGE_SIZE)) p f"
    using r mask_zero [of he] by (auto simp: user_malloc_expand_heap_def split: if_splits)
qed

lemma granted_bytes:
  assumes "granted he 0 (unat ((n + PAGE_SIZE - 1) div PAGE_SIZE :: u64)) p m p'"
  obtains j where "j \<le> unat ((n + PAGE_SIZE - 1) div PAGE_SIZE :: u64)" "unat m = 4096 * j" "grant_pages he [0..<0 + j] (pr_mmu p) = Inr (pr_mmu p')"
    "pr_rlim_cur p' = pr_rlim_cur p" "unat (pr_current_value p') = unat (pr_current_value p) + 4096 * j"
    "j < unat ((n + PAGE_SIZE - 1) div PAGE_SIZE :: u64) \<Longrightarrow> unat (pr_rlim_cur p) < unat (pr_current_value p) + 4096 * unat ((n + PAGE_SIZE - 1) div PAGE_SIZE)"
proof -
  from assms obtain j where j: "j \<le> unat ((n + PAGE_SIZE - 1) div PAGE_SIZE :: u64)" "m = PAGE_SIZE * of_nat j"
    "grant_pages he [0..<0 + j] (pr_mmu p) = Inr (pr_mmu p')" "pr_rlim_cur p' = pr_rlim_cur p"
    "unat (pr_current_value p') = unat (pr_current_value p) + 4096 * j"
    "j < unat ((n + PAGE_SIZE - 1) div PAGE_SIZE :: u64) \<longrightarrow> unat (pr_rlim_cur p) < unat (pr_current_value p) + 4096 * unat ((n + PAGE_SIZE - 1) div PAGE_SIZE)"
    unfolding granted_def by auto
  have "unat ((n + PAGE_SIZE - 1) div PAGE_SIZE :: u64) \<le> (2 ^ 64 - 1) div 4096"
    unfolding unat_div using unsigned_less [of "n + PAGE_SIZE - 1", where ?'a = nat] by (simp add: div_le_mono)
  then have "j < 2 ^ 52" using j(1) by simp
  then have "unat m = 4096 * j" unfolding j(2) by (simp add: unat_word_ariths unat_of_nat)
  then show thesis using j(6) by (intro that [OF j(1) _ j(3-5)]) blast+
qed

interpretation uheap: heap_provider user_expand user_avail "user_okay lo hi" lo hi for lo hi
proof
  fix e he n m e'
  assume a: "user_okay lo hi e" "unat he mod 4096 = 0" "lo \<le> unat he" "unat he + user_avail e \<le> hi" "user_expand he n e = Inr (m, e')"
  obtain j where j: "unat m = 4096 * j" "grant_pages he [0..<0 + j] (pr_mmu e) = Inr (pr_mmu e')"
    using granted_bytes [OF user_expand_runs(1) [OF a(5)]] by metis
  have "kernel_okay lo hi (pr_mmu e')" "j + free_pages (mm_slab (pr_mmu e')) \<le> free_pages (mm_slab (pr_mmu e))"
    using expand_loop_okay [of lo hi "pr_mmu e" he 0, OF _ a(3) _ _ j(2)] a(1,4) by (simp_all add: user_okay_def user_avail_def kernel_avail_def)
  then show "user_okay lo hi e' \<and> unat m mod 4096 = 0 \<and> unat m + user_avail e' \<le> user_avail e"
    using a(1) j(1) by (simp add: user_okay_def user_avail_def kernel_avail_def)
qed

interpretation umap: mapping_provider user_expand user_avail "user_okay lo hi" lo hi user_present for lo hi
proof
  fix e he n m e'
  assume a: "user_okay lo hi e" "unat he mod 4096 = 0" "lo \<le> unat he" "unat he + user_avail e \<le> hi" "user_expand he n e = Inr (m, e')"
  obtain j where j: "unat m = 4096 * j" "grant_pages he [0..<0 + j] (pr_mmu e) = Inr (pr_mmu e')"
    using granted_bytes [OF user_expand_runs(1) [OF a(5)]] by metis
  have x: "\<And>v. user_present e v \<Longrightarrow> user_present e' v" "\<And>i. i < j \<Longrightarrow> user_present e' (he + PAGE_SIZE * of_nat i)"
    using expand_loop_okay [of lo hi "pr_mmu e" he 0, OF _ a(3) _ _ j(2)] a(1,4) by (simp_all add: user_okay_def user_avail_def kernel_avail_def)
  have "user_present e' v" if v: "unat he \<le> unat v" "unat v < unat he + unat m" for v
  proof -
    obtain i where "i < j" "vpath v = vpath (he + PAGE_SIZE * of_nat i)" using page_of_range [OF a(2) v(1)] v(2) j(1) by auto
    then show ?thesis using x(2) [of i] by (simp add: translate_vpath)
  qed
  then show "(\<forall>v. user_present e v \<longrightarrow> user_present e' v) \<and> (\<forall>v. unat he \<le> unat v \<and> unat v < unat he + unat m \<longrightarrow> user_present e' v)"
    using x(1) by blast
qed

text \<open>The heap is well formed, lies in the user half, and no page above its end is mapped yet.\<close>

definition uspace :: "nat \<Rightarrow> nat \<Rightarrow> process_memory allocator \<Rightarrow> bool" where
  "uspace lo hi h \<longleftrightarrow> heap_inv user_avail (user_okay lo hi) lo hi h \<and> hi \<le> 2 ^ 47 \<and>
     (\<forall>w. unat (al_heap_end h) \<le> unat w \<and> unat w < hi \<longrightarrow> \<not> user_present (al_env h) w)"

lemma user_page:
  assumes "unat he mod 4096 = 0" "unat he + 4096 * k \<le> 2 ^ 47"
  shows "i < k \<Longrightarrow> unat (he + PAGE_SIZE * of_nat i) = unat he + 4096 * i"
    and "inj_on (\<lambda>i. vpath (he + PAGE_SIZE * of_nat i)) {..<k}"
    and "i < k \<Longrightarrow> unat he + 4096 * k \<le> unat w \<Longrightarrow> user_addr w \<Longrightarrow> vpath w \<noteq> vpath (he + PAGE_SIZE * of_nat i)"
proof -
  show u: "unat (he + PAGE_SIZE * of_nat i) = unat he + 4096 * i" if "i < k" for i
    using assms(2) that by (simp add: unat_word_ariths unat_of_nat)
  then have half: "user_addr (he + PAGE_SIZE * of_nat i)" if "i < k" for i using assms(2) that by (simp add: user_addr_def)
  have no: "page_no (he + PAGE_SIZE * of_nat i) = unat he div 4096 + i" if "i < k" for i
    using u [OF that] by (simp add: page_no_def)
  show "inj_on (\<lambda>i. vpath (he + PAGE_SIZE * of_nat i)) {..<k}"
    by (rule inj_onI) (simp add: user_vpath_iff half no)
  show "vpath w \<noteq> vpath (he + PAGE_SIZE * of_nat i)" if "i < k" "unat he + 4096 * k \<le> unat w" "user_addr w"
  proof -
    have "unat he div 4096 + k \<le> page_no w" using that(2) unfolding page_no_def by linarith
    then show ?thesis using user_vpath_iff [OF that(3) half [OF that(1)]] no [OF that(1)] that(1) by auto
  qed
qed

lemma user_expand_cases:
  assumes ok: "user_okay lo hi p" "hi \<le> 2 ^ 47" "lo \<le> unat he" "unat he mod 4096 = 0" "unat he + user_avail p \<le> hi"
      "\<forall>w. unat he \<le> unat w \<and> unat w < hi \<longrightarrow> \<not> user_present p w"
    and n: "unat n \<le> 2 ^ 63 + 31"
  defines "k \<equiv> (unat n + 4095) div 4096"
  shows "case user_expand he n p of
      Inl f \<Rightarrow> f = HCF \<and> (free_pages (mm_slab (pr_mmu p)) < 4 * k \<or> 2 ^ 64 \<le> unat (pr_current_value p) + 4096 * k)
    | Inr (m, p') \<Rightarrow> (m < n \<longrightarrow> unat (pr_rlim_cur p) < unat (pr_current_value p) + 4096 * k) \<and>
        (\<forall>w. unat he + unat m \<le> unat w \<and> unat w < hi \<longrightarrow> \<not> user_present p' w)"
proof -
  note pc = page_count [OF n, folded k_def]
  have al: "page_aligned he" using ok(4) by (simp add: page_aligned_def)
  have pok: "paging_ok (pr_mmu p)" "hi < 2 ^ 64" using ok(1) by (simp_all add: user_okay_def kernel_okay_def)
  have fr: "unat he + 4096 * free_pages (mm_slab (pr_mmu p)) \<le> hi" using ok(5) by (simp add: user_avail_def kernel_avail_def)
  have window: "unat he + 4096 * j \<le> hi" if "j \<le> free_pages (mm_slab (pr_mmu p))" for j
    using fr mult_le_mono2 [OF that, of 4096] by linarith
  have fresh: "\<not> user_present p (he + PAGE_SIZE * of_nat i) \<and> no_huge (pr_mmu p) (he + PAGE_SIZE * of_nat i)"
    if "i < j" "unat he + 4096 * j \<le> hi" for i j
  proof -
    have "4096 * i < 4096 * j" using that(1) by simp
    moreover have "unat (he + PAGE_SIZE * of_nat i) = unat he + 4096 * i" using user_page(1) [OF ok(4), of j i] that ok(2) by simp
    ultimately show ?thesis using ok(1,3,6) that(2) by (simp add: user_okay_def kernel_okay_def)
  qed
  show ?thesis
  proof (cases "user_expand he n p")
    case (Inl f)
    from user_expand_runs(2) [OF this al] have d: "denied he 0 k p f" unfolding pc .
    have "f = HCF \<and> free_pages (mm_slab (pr_mmu p)) < 4 * k" if j: "j < k" "grant_pages he [0..<Suc j] (pr_mmu p) = Inl f" for j
    proof (cases "Suc j \<le> free_pages (mm_slab (pr_mmu p))")
      case True
      note w = window [OF True]
      have "\<forall>i < Suc j. no_huge (pr_mmu p) (he + PAGE_SIZE * of_nat i)" "\<forall>i < Suc j. translate (pr_mmu p) (he + PAGE_SIZE * of_nat i) = None"
        using fresh [OF _ w] by blast+
      moreover have "inj_on (\<lambda>i. vpath (he + PAGE_SIZE * of_nat i)) {..<Suc j}" using w ok(2) by (intro user_page(2) [OF ok(4)]) linarith
      ultimately show ?thesis using allocate_pages_cases [OF pok(1) al, of "Suc j" False] j by (auto simp del: upt_Suc)
    next
      case False
      have "good_slab (pr_mmu p)" using pok(1) by (simp add: paging_ok_def)
      then have "halts_or good_slab (grant_pages he [0..<Suc j] (pr_mmu p))" by (intro halts_or_rfold allocate_faults)
      then show ?thesis using False j by (simp del: upt_Suc)
    qed
    then show ?thesis using Inl d unfolding denied_def by auto
  next
    case (Inr r)
    obtain m p' where r: "r = (m, p')" by (cases r)
    obtain j where j: "j \<le> k" "unat m = 4096 * j" "grant_pages he [0..<0 + j] (pr_mmu p) = Inr (pr_mmu p')"
      "j < k \<Longrightarrow> unat (pr_rlim_cur p) < unat (pr_current_value p) + 4096 * k"
      using user_expand_runs(1) [OF Inr [unfolded r]] by (rule granted_bytes) (unfold pc, rule that)
    have l: "j + free_pages (mm_slab (pr_mmu p')) \<le> free_pages (mm_slab (pr_mmu p))"
      "\<And>v. (\<forall>i \<in> {0..<0 + j}. vpath (he + PAGE_SIZE * of_nat i) \<noteq> vpath v) \<Longrightarrow> translate (pr_mmu p') v = translate (pr_mmu p) v"
      using expand_loop_okay [of lo hi "pr_mmu p" he 0, OF _ ok(3) _ pok(2) j(3)] ok(1) fr by (simp_all add: user_okay_def)
    have w: "unat he + 4096 * j \<le> 2 ^ 47" using window [of j] l(1) ok(2) by simp
    have "\<not> user_present p' v" if v: "unat he + unat m \<le> unat v" "unat v < hi" for v
    proof -
      have "user_addr v" using v(2) ok(2) by (simp add: user_addr_def)
      then have "vpath v \<noteq> vpath (he + PAGE_SIZE * of_nat i)" if "i < j" for i using user_page(3) [OF ok(4) w that] v(1) j(2) by simp
      then have "translate (pr_mmu p') v = translate (pr_mmu p) v" using l(2) [of v] by fastforce
      then show ?thesis using ok(6) v by simp
    qed
    moreover have "j < k" if "m < n"
    proof (rule ccontr)
      assume "\<not> j < k"
      then have "unat m = 4096 * k" using j(1,2) by simp
      moreover have "unat n \<le> 4096 * k" unfolding k_def by linarith
      ultimately show False using that by (simp add: word_less_nat_alt)
    qed
    ultimately show ?thesis using Inr r j(4) by auto
  qed
qed

section \<open>Properties\<close>

text \<open>C36. \<open>malloc\<close> in a program, down to the page tables. The heap is well formed, lies in the user half, is mapped up to its end and not beyond. A
  request of at most \<open>2 ^ 63\<close> bytes halts only when fewer than four free physical pages are left for each page that the request can need, or when the
  count of the process's data would overflow. Otherwise it returns, and the heap stays well formed and mapped. It returns null only when the request
  would take the process above its data limit; the live blocks then stay where they are and lose nothing. Any other pointer is 16-byte aligned, and its block has
  at least the requested size, lies inside the heap, overlaps no live block, and is mapped by the page tables at every address.\<close>

theorem user_malloc_sound:
  assumes "uspace lo hi h" and "heap_mapped user_present lo h" and "bytes \<noteq> 0" and "unat bytes \<le> 2 ^ 63"
  shows "case malloc (user_malloc_expand_heap syscall_request_page) bytes h of
      Inl f \<Rightarrow> f = HCF \<and> (free_pages (mm_slab (pr_mmu (al_env h))) < 4 * pages_for bytes \<or>
        2 ^ 64 \<le> unat (pr_current_value (al_env h)) + 4096 * pages_for bytes)
    | Inr (ptr, h') \<Rightarrow> uspace lo hi h' \<and> heap_mapped user_present lo h' \<and> al_bytes h' = al_bytes h \<and>
        (if ptr = 0 then unat (pr_rlim_cur (al_env h)) < unat (pr_current_value (al_env h)) + 4096 * pages_for bytes \<and> grown (blocks h) (blocks h')
         else unat ptr mod 16 = 0 \<and>
           (\<exists>s \<ge> unat bytes. blocks h' = insert (ptr, s) (blocks h) \<and> unat ptr + s \<le> unat (al_heap_end h') \<and>
              (\<forall>b \<in> blocks h. apart (ptr, s) b) \<and> (\<forall>i. unat i < s \<longrightarrow> translate (pr_mmu (al_env h')) (ptr + i) \<noteq> None)))"
proof -
  let ?e = "al_heap_end h" and ?p = "al_env h"
  have inv: "heap_inv user_avail (user_okay lo hi) lo hi h" and hi: "hi \<le> 2 ^ 47"
    and fresh: "\<forall>w. unat ?e \<le> unat w \<and> unat w < hi \<longrightarrow> \<not> user_present ?p w" using assms(1) by (auto simp: uspace_def)
  obtain ps where "wfh h ps" using inv by (auto simp: heap_inv_def)
  then have "unat (al_head h) \<le> unat ?e" by (cases ps) (auto simp: wfl_def gap_def)
  then have b: "user_okay lo hi ?p" "lo \<le> unat ?e" "unat ?e mod 4096 = 0" "unat ?e + user_avail ?p \<le> hi"
    using inv by (auto simp: heap_inv_def)
  note ex = user_expand_cases [OF b(1) hi b(2-4) fresh]
  have mono: "(unat n + 4095) div 4096 \<le> pages_for bytes \<and> unat n \<le> 2 ^ 63 + 31" if "unat (n :: u64) \<le> unat bytes + 31" for n
    using that assms(4) unfolding pages_for_def by (auto intro!: div_le_mono)
  have space: "uspace lo hi h' \<and> heap_mapped user_present lo h'" if "heap_inv user_avail (user_okay lo hi) lo hi h'" "uheap.served (unat bytes + 31) h h'" for h'
  proof -
    have "\<forall>w. unat (al_heap_end h') \<le> unat w \<and> unat w < hi \<longrightarrow> \<not> user_present (al_env h') w"
      using that(2) fresh ex mono unfolding uheap.served_def by (fastforce split: sum.splits)
    then show ?thesis using that(1) hi umap.served_mapped [OF inv assms(2) that(2)] by (simp add: uspace_def)
  qed
  from inv assms(3,4) show ?thesis
  proof (cases rule: uheap.malloc_ok)
    case (1 f)
    then obtain n where n: "unat n \<le> unat bytes + 31" "user_expand ?e n ?p = Inl f" unfolding uheap.refused_def by blast
    have "4096 * ((unat n + 4095) div 4096) \<le> 4096 * pages_for bytes" using mono [OF n(1)] by simp
    then show ?thesis using 1(1) ex [of n] n mono [OF n(1)] by auto
  next
    case (2 h')
    then obtain n m e' where n: "unat n \<le> unat bytes + 31" "user_expand ?e n ?p = Inr (m, e')" "m < n" unfolding uheap.short_def by blast
    have "4096 * ((unat n + 4095) div 4096) \<le> 4096 * pages_for bytes" using mono [OF n(1)] by simp
    then have "unat (pr_rlim_cur ?p) < unat (pr_current_value ?p) + 4096 * pages_for bytes" using ex [of n] n mono [OF n(1)] by auto
    then show ?thesis using 2 space [OF 2(2,6)] grown_blocks [OF 2(3)] by simp
  next
    case (3 ptr h')
    note c = claimed_blocks [OF 3(2)]
    then obtain s where s: "unat bytes \<le> s" "blocks h' = insert (ptr, s) (blocks h)" "unat ptr + s \<le> unat (al_heap_end h')" "\<forall>b \<in> blocks h. apart (ptr, s) b" by blast
    have inv': "heap_inv user_avail (user_okay lo hi) lo hi h'" using c by blast
    have "(ptr - 16, s) \<in> live (al_items h') (al_heap_end h')" using s(2) by (simp add: blocks_iff [symmetric])
    then have "user_present (al_env h') (ptr - 16 + 16 + i)" if "unat i < s" for i
      using umap.block_mapped [OF inv' _ _ that] space [OF inv' 3(3)] by blast
    then show ?thesis using 3(1) c s space [OF inv' 3(3)] by auto
  qed
qed

text \<open>A process whose heap is one page at \<open>0x10000000\<close>, with room for two more pages under its limit.\<close>

lemma user_init:
  obtains h where "init_memory_allocator user_expand 0x10000000 (\<lambda>_. 0) \<lparr>pr_mmu = exec_mmu, pr_current_value = 0, pr_rlim_cur = 12288\<rparr> = Inr h"
    "uspace 0x10000000 0x10200000 h" "heap_mapped user_present 0x10000000 h" "blocks h = {}" "252 \<le> free_pages (mm_slab (pr_mmu (al_env h)))"
    "pr_current_value (al_env h) = 4096" "pr_rlim_cur (al_env h) = 12288"
proof -
  let ?b = "0x10000000 :: u64" and ?lo = "0x10000000 :: nat" and ?hi = "0x10200000 :: nat"
    and ?p = "\<lparr>pr_mmu = exec_mmu, pr_current_value = 0, pr_rlim_cur = 12288\<rparr>"
  have al: "page_aligned ?b" by (simp add: page_aligned_def)
  have ok: "user_okay ?lo ?hi ?p" using exec_mmu_ok by (simp add: user_okay_def kernel_okay_def)
  obtain st where st: "allocate_ram_page ?b False exec_mmu = Inr st" "free_pages (mm_slab exec_mmu) \<le> free_pages (mm_slab st) + 4"
    using allocate_ram_page_cases [OF exec_mmu_ok(1) al exec_mmu_ok(2,3), of False] exec_mmu_ok(4) by cases auto
  let ?p' = "\<lparr>pr_mmu = st, pr_current_value = 4096, pr_rlim_cur = 12288\<rparr>"
  have mask: "?b AND 0xFFF = 0" using al mask_zero by blast
  have sc: "syscall_request_page ?b ?p = Inr (0, ?p')" using st(1) by (simp add: syscall_request_page_def)
  have "expand_pages syscall_request_page ?b 1 1 ?p' = Inr (4096, ?p')" by (subst expand_pages.simps) simp
  then have "expand_pages syscall_request_page ?b 0 1 ?p = Inr (4096, ?p')" using sc by (subst expand_pages.simps) simp
  then have x: "user_expand ?b 16 ?p = Inr (4096, ?p')" using mask by (simp add: user_malloc_expand_heap_def)
  obtain h where i: "init_memory_allocator user_expand ?b (\<lambda>_. 0) ?p = Inr h" and f: "al_heap_end h = ?b + 4096" "al_env h = ?p'"
    using x by (simp add: init_memory_allocator_def)
  have inv: "heap_inv user_avail (user_okay ?lo ?hi) ?lo ?hi h \<and> live (al_items h) (al_heap_end h) = {} \<and> al_head h = ?b"
    by (rule uheap.init_ok [OF ok _ _ _ _ _ _ i]) (simp_all add: user_avail_def kernel_avail_def exec_mmu_ok)
  have "user_avail ?p = 0x100000" by (simp add: user_avail_def kernel_avail_def exec_mmu_ok)
  then have "case user_expand ?b 16 ?p of Inl f \<Rightarrow> True | Inr (m, p') \<Rightarrow> \<forall>w. unat ?b + unat m \<le> unat w \<and> unat w < ?hi \<longrightarrow> \<not> user_present p' w"
    using user_expand_cases [OF ok, of ?b 16] exec_mmu_ok(3) by (auto split: sum.splits)
  then have us: "uspace ?lo ?hi h" using inv f by (simp add: x uspace_def)
  have hm: "heap_mapped user_present ?lo h"
    by (rule umap.init_mapped [OF ok _ _ _ _ i]) (simp_all add: user_avail_def kernel_avail_def exec_mmu_ok)
  have "blocks h = {}" using inv by (simp add: blocks_def)
  then show thesis by (rule that [OF i us hm]) (use f(2) st(2) exec_mmu_ok(4) in simp_all)
qed

theorem user_malloc_sound_witness:
  "\<exists>h ptr h' s. init_memory_allocator user_expand 0x10000000 (\<lambda>_. 0) \<lparr>pr_mmu = exec_mmu, pr_current_value = 0, pr_rlim_cur = 12288\<rparr> = Inr h \<and>
     malloc user_expand 100 h = Inr (ptr, h') \<and> 100 \<le> s \<and> blocks h' = {(ptr, s)} \<and> translate (pr_mmu (al_env h')) (ptr + 99) \<noteq> None"
proof -
  obtain h where h: "init_memory_allocator user_expand 0x10000000 (\<lambda>_. 0) \<lparr>pr_mmu = exec_mmu, pr_current_value = 0, pr_rlim_cur = 12288\<rparr> = Inr h"
    "uspace 0x10000000 0x10200000 h" "heap_mapped user_present 0x10000000 h" "blocks h = {}" "252 \<le> free_pages (mm_slab (pr_mmu (al_env h)))"
    "pr_current_value (al_env h) = 4096" "pr_rlim_cur (al_env h) = 12288" by (rule user_init)
  have b: "(100 :: u64) \<noteq> 0" "unat (100 :: u64) \<le> 2 ^ 63" by simp_all
  from user_malloc_sound [OF h(2,3) b] h(5-7) obtain ptr h' s where m: "malloc user_expand 100 h = Inr (ptr, h')" "100 \<le> s"
    "blocks h' = insert (ptr, s) (blocks h)" "\<forall>i. unat i < s \<longrightarrow> translate (pr_mmu (al_env h')) (ptr + i) \<noteq> None"
    by (auto simp: pages_for_def split: sum.splits if_splits)
  have "unat (99 :: u64) < s" using m(2) by simp
  then have "translate (pr_mmu (al_env h')) (ptr + 99) \<noteq> None" using m(4) by metis
  moreover have "blocks h' = {(ptr, s)}" using m(3) h(4) by simp
  ultimately show ?thesis using h(1) m(1,2) by (intro exI conjI)
qed

end
