(* ===== verification/Ps2.thy ===== *)
theory Ps2
  imports Tty Kern_Libc
begin

text \<open>
  The PS/2 keyboard driver (\<open>stuos/src/ps2_driver.c\<close>, scan code set 2): the decoder that
  \<open>handle_incoming_byte\<close> and \<open>parse_full_buffer\<close> implement over their static variables, and the
  controller's start-up dialogue. The bytes that the controller delivers before its output buffer
  empties are the argument of \<open>handle_incoming_byte\<close>; for the start-up the I/O ports are parameters.
\<close>

section \<open>The decoder\<close>

abbreviation LEFT_SHIFT :: u8 where "LEFT_SHIFT \<equiv> 0x12"
abbreviation RIGHT_SHIFT :: u8 where "RIGHT_SHIFT \<equiv> 0x59"
abbreviation CAPS_LOCK :: u8 where "CAPS_LOCK \<equiv> 0x58"

text \<open>The entries of \<open>lookup_nonextended\<close>; every other element of the array is zero.\<close>

definition scan_table :: "(u8 \<times> u8 \<times> u8) list" where
  "scan_table = [
    (0x1C, 97, 0), (0x32, 98, 0), (0x21, 99, 0), (0x23, 100, 0), (0x24, 101, 0),
    (0x2B, 102, 0), (0x34, 103, 0), (0x33, 104, 0), (0x43, 105, 0), (0x3B, 106, 0),
    (0x42, 107, 0), (0x4B, 108, 0), (0x3A, 109, 0), (0x31, 110, 0), (0x44, 111, 0),
    (0x4D, 112, 0), (0x15, 113, 0), (0x2D, 114, 0), (0x1B, 115, 0), (0x2C, 116, 0),
    (0x3C, 117, 0), (0x2A, 118, 0), (0x1D, 119, 0), (0x22, 120, 0), (0x35, 121, 0),
    (0x1A, 122, 0), (0x16, 49, 33), (0x1E, 50, 34), (0x26, 51, 0), (0x25, 52, 36),
    (0x2E, 53, 37), (0x36, 54, 94), (0x3D, 55, 33), (0x3E, 56, 42), (0x46, 57, 40),
    (0x45, 48, 41), (0x4E, 45, 95), (0x55, 61, 43), (0x5A, 10, 0), (0x66, 8, 0),
    (0x29, 32, 0), (0x4A, 47, 63), (0x49, 46, 62), (0x41, 44, 60), (0x5D, 92, 124),
    (0x4C, 59, 58), (0x52, 39, 64)
  ]"

definition lookup_nonextended :: "u8 \<Rightarrow> bool \<Rightarrow> u8" where
  "lookup_nonextended code shifted =
     (case map_of scan_table code of None \<Rightarrow> 0 | Some (plain, shift) \<Rightarrow> if shifted then shift else plain)"

record ps2 =
  ps_capslock :: bool
  ps_shift :: bool
  ps_expected_number_of_bytes :: int
  ps_buffer :: u64

definition byte_n :: "nat \<Rightarrow> u64 \<Rightarrow> u8" where
  "byte_n n data = ucast (drop_bit (8 * n) data)"

definition classify :: "u64 \<Rightarrow> (bool \<times> bool) result" where
  "classify data =
     (if byte_n 2 data = 0xE0 then
        (if byte_n 1 data \<noteq> 0xF0 then Inl HCF else Inr (True, True))
      else if byte_n 2 data \<noteq> 0 then Inl HCF
      else if byte_n 1 data = 0xF0 then Inr (True, False)
      else if byte_n 1 data = 0xE0 then Inr (False, True)
      else if byte_n 1 data = 0 then Inr (False, False)
      else Inl HCF)"

definition key_value :: "u8 \<Rightarrow> ps2 \<Rightarrow> u8" where
  "key_value code s =
     (let value = lookup_nonextended code (ps_shift s);
          value' = (if value = 0 then lookup_nonextended code False else value)
      in if value' = 0 then 0
         else if ps_shift s \<or> ps_capslock s then word_of_int (toupper (sint value')) else value')"

definition parse_full_buffer :: "u64 \<Rightarrow> ps2 \<Rightarrow> (u8 \<times> ps2) result" where
  "parse_full_buffer data s =
     (if data = 0xE11477E1F014E077 then Inr (0, s)
      else if data = 0xE012E07C then Inr (0, s)
      else if data = 0xE0F07CE0F012 then Inr (0, s)
      else rbind (classify data) (\<lambda>(is_break, is_extended).
        let first_byte = byte_n 0 data in
        if \<not> is_extended \<and> first_byte = CAPS_LOCK then
          Inr (0, if \<not> is_break then s\<lparr>ps_capslock := \<not> ps_capslock s\<rparr> else s)
        else if (first_byte = LEFT_SHIFT \<or> first_byte = RIGHT_SHIFT) \<and> \<not> is_extended then
          Inr (0, s\<lparr>ps_shift := \<not> is_break\<rparr>)
        else if is_break then Inr (0, s)
        else hcf_unless (first_byte < 128) (Inr (key_value first_byte s, s))))"

text \<open>One iteration of the loop of \<open>handle_incoming_byte\<close>: the character given to \<open>tty_provide_stdin\<close>, if any.\<close>

definition accept_byte :: "u8 \<Rightarrow> ps2 \<Rightarrow> (u8 option \<times> ps2) result" where
  "accept_byte first s =
     (let data = push_bit 8 (ps_buffer s) OR ucast first;
          e1 = (if first = 0xE0 \<or> first = 0xF0 then ps_expected_number_of_bytes s + 1 else ps_expected_number_of_bytes s);
          e2 = (if first = 0xE1 then 7 else e1) - 1;
          s1 = s\<lparr>ps_buffer := data, ps_expected_number_of_bytes := e2\<rparr>
      in if e2 = 0 then
           rbind (parse_full_buffer data (s1\<lparr>ps_expected_number_of_bytes := 1\<rparr>)) (\<lambda>(c, s2).
             Inr (Some c, s2\<lparr>ps_buffer := 0\<rparr>))
         else Inr (None, s1))"

definition handle_incoming_byte :: "u8 list \<Rightarrow> ps2 \<times> tty \<Rightarrow> (ps2 \<times> tty) result" where
  "handle_incoming_byte input = rfold (\<lambda>b (s, t).
     rbind (accept_byte b s) (\<lambda>(oc, s').
       case oc of None \<Rightarrow> Inr (s', t)
       | Some c \<Rightarrow> rbind (tty_provide_stdin c t) (\<lambda>t'. Inr (s', t')))) input"

section \<open>Start-up of the controller\<close>

text \<open>
  \<open>in8\<close> and \<open>out8\<close> are the two instructions on a device of type \<open>'d\<close>. A polling loop that never sees the
  status bit it waits for does not return: its value is \<open>None\<close>.
\<close>

type_synonym 'd in8 = "u16 \<Rightarrow> 'd \<Rightarrow> u8 \<times> 'd"
type_synonym 'd out8 = "u16 \<Rightarrow> u8 \<Rightarrow> 'd \<Rightarrow> 'd"

abbreviation DATA_PORT :: u16 where "DATA_PORT \<equiv> 0x60"
abbreviation COMMAND_PORT :: u16 where "COMMAND_PORT \<equiv> 0x64"

datatype ControllerCommand =
    READ_CONTROLLER_CONFIGURATION | WRITE_CONTROLLER_CONFIGURATION | DISABLE_SECOND_PORT | ENABLE_SECOND_PORT
  | DISABLE_FIRST_PORT | ENABLE_FIRST_PORT | TEST_CONTROLLER | TEST_FIRST_PORT | TEST_SECOND_PORT
  | DIVERT_BYTE_TO_SECOND_PORT

fun command_byte :: "ControllerCommand \<Rightarrow> u8" where
  "command_byte READ_CONTROLLER_CONFIGURATION = 0x20"
| "command_byte WRITE_CONTROLLER_CONFIGURATION = 0x60"
| "command_byte DISABLE_SECOND_PORT = 0xA7"
| "command_byte ENABLE_SECOND_PORT = 0xA8"
| "command_byte DISABLE_FIRST_PORT = 0xAD"
| "command_byte ENABLE_FIRST_PORT = 0xAE"
| "command_byte TEST_CONTROLLER = 0xAA"
| "command_byte TEST_FIRST_PORT = 0xAB"
| "command_byte TEST_SECOND_PORT = 0xA9"
| "command_byte DIVERT_BYTE_TO_SECOND_PORT = 0xD4"

datatype KeyboardCommand = KB_SET_GET_SCAN_CODE | KB_ENABLE_SCANNING | KB_RESTART_AND_TEST

fun keyboard_byte :: "KeyboardCommand \<Rightarrow> u8" where
  "keyboard_byte KB_SET_GET_SCAN_CODE = 0xF0"
| "keyboard_byte KB_ENABLE_SCANNING = 0xF4"
| "keyboard_byte KB_RESTART_AND_TEST = 0xFF"

definition output_buffer_status :: "u8 \<Rightarrow> bool" where "output_buffer_status byte = bit byte 0"
definition input_buffer_status :: "u8 \<Rightarrow> bool" where "input_buffer_status byte = bit byte 1"

definition read_status_register :: "'d in8 \<Rightarrow> 'd \<Rightarrow> u8 \<times> 'd" where
  "read_status_register in8 d = in8 COMMAND_PORT d"

partial_function (option) poll_status :: "'d in8 \<Rightarrow> (u8 \<Rightarrow> bool) \<Rightarrow> 'd \<Rightarrow> 'd option" where
  "poll_status in8 ready d =
     (let (st, d') = read_status_register in8 d in if ready st then Some d' else poll_status in8 ready d')"

text \<open>Programs over the device: \<open>None\<close> never returns, \<open>Some (Inl f)\<close> faults.\<close>

type_synonym ('a, 'd) io = "'d \<Rightarrow> ('a \<times> 'd) result option"

definition io_then :: "('a, 'd) io \<Rightarrow> ('a \<Rightarrow> ('b, 'd) io) \<Rightarrow> ('b, 'd) io" where
  "io_then m k d = (case m d of None \<Rightarrow> None | Some (Inl f) \<Rightarrow> Some (Inl f) | Some (Inr (a, d')) \<Rightarrow> k a d')"

definition io_assert :: "bool \<Rightarrow> (unit, 'd) io" where
  "io_assert b d = Some (if b then Inr ((), d) else Inl HCF)"

definition send_command :: "'d in8 \<Rightarrow> 'd out8 \<Rightarrow> ControllerCommand \<Rightarrow> (unit, 'd) io" where
  "send_command in8 out8 command d =
     (let (st, d1) = read_status_register in8 d in
      if input_buffer_status st then Some (Inl HCF) else Some (Inr ((), out8 COMMAND_PORT (command_byte command) d1)))"

definition blocking_read_data :: "'d in8 \<Rightarrow> (u8, 'd) io" where
  "blocking_read_data in8 d =
     (case poll_status in8 output_buffer_status d of None \<Rightarrow> None | Some d1 \<Rightarrow> Some (Inr (in8 DATA_PORT d1)))"

definition blocking_write_data :: "'d in8 \<Rightarrow> 'd out8 \<Rightarrow> u8 \<Rightarrow> (unit, 'd) io" where
  "blocking_write_data in8 out8 data d =
     (case poll_status in8 (\<lambda>s. \<not> input_buffer_status s) d of None \<Rightarrow> None
      | Some d1 \<Rightarrow> Some (Inr ((), out8 DATA_PORT data d1)))"

definition send_byte_to_first_ps2 :: "'d in8 \<Rightarrow> 'd out8 \<Rightarrow> u8 \<Rightarrow> (unit, 'd) io" where
  "send_byte_to_first_ps2 in8 out8 data = blocking_write_data in8 out8 data"

partial_function (option) wait_loop :: "'d in8 \<Rightarrow> bool \<Rightarrow> bool \<Rightarrow> 'd \<Rightarrow> (unit \<times> 'd) result option" where
  "wait_loop in8 first_fa first_aa d =
     (if first_fa \<and> first_aa then Some (Inr ((), d)) else
      case blocking_read_data in8 d of
        None \<Rightarrow> None
      | Some (Inl f) \<Rightarrow> Some (Inl f)
      | Some (Inr (input, d')) \<Rightarrow>
          if input = 0xFA then wait_loop in8 True first_aa d'
          else if input = 0xAA then wait_loop in8 first_fa True d'
          else Some (Inl HCF))"

definition wait_for_fa_aa :: "'d in8 \<Rightarrow> (unit, 'd) io" where
  "wait_for_fa_aa in8 = wait_loop in8 False False"

partial_function (option) flush_output :: "'d in8 \<Rightarrow> 'd \<Rightarrow> (unit \<times> 'd) result option" where
  "flush_output in8 d =
     (let (st, d1) = read_status_register in8 d in
      if output_buffer_status st then
        (case blocking_read_data in8 d1 of
           None \<Rightarrow> None | Some (Inl f) \<Rightarrow> Some (Inl f) | Some (Inr (_, d2)) \<Rightarrow> flush_output in8 d2)
      else Some (Inr ((), d1)))"

definition configure :: "u8 \<Rightarrow> u8" where
  "configure byte = unset_bit 6 (unset_bit 5 (unset_bit 4 (unset_bit 1 (set_bit 0 byte))))"

definition expect :: "'d in8 \<Rightarrow> (u8 \<Rightarrow> bool) \<Rightarrow> (unit, 'd) io" where
  "expect in8 good = io_then (blocking_read_data in8) (\<lambda>b. io_assert (good b))"

definition initialise_ps2 :: "'d in8 \<Rightarrow> 'd out8 \<Rightarrow> (unit, 'd) io" where
  "initialise_ps2 in8 out8 =
     io_then (send_command in8 out8 DISABLE_FIRST_PORT) (\<lambda>_.
     io_then (send_command in8 out8 DISABLE_SECOND_PORT) (\<lambda>_.
     io_then (flush_output in8) (\<lambda>_.
     io_then (send_command in8 out8 READ_CONTROLLER_CONFIGURATION) (\<lambda>_.
     io_then (blocking_read_data in8) (\<lambda>config.
     io_then (send_command in8 out8 WRITE_CONTROLLER_CONFIGURATION) (\<lambda>_.
     io_then (blocking_write_data in8 out8 (configure config)) (\<lambda>_.
     io_then (send_command in8 out8 TEST_CONTROLLER) (\<lambda>_.
     io_then (expect in8 (\<lambda>b. b = 0x55)) (\<lambda>_.
     io_then (send_command in8 out8 TEST_FIRST_PORT) (\<lambda>_.
     io_then (expect in8 (\<lambda>b. b = 0)) (\<lambda>_.
     io_then (send_command in8 out8 TEST_SECOND_PORT) (\<lambda>_.
     io_then (expect in8 (\<lambda>b. b = 0)) (\<lambda>_.
     io_then (send_command in8 out8 ENABLE_FIRST_PORT) (\<lambda>_.
     io_then (send_command in8 out8 ENABLE_SECOND_PORT) (\<lambda>_.
     io_then (send_byte_to_first_ps2 in8 out8 (keyboard_byte KB_RESTART_AND_TEST)) (\<lambda>_.
     io_then (wait_for_fa_aa in8) (\<lambda>_.
     io_then (flush_output in8) (\<lambda>_.
     io_then (send_byte_to_first_ps2 in8 out8 (keyboard_byte KB_SET_GET_SCAN_CODE)) (\<lambda>_.
     io_then (expect in8 (\<lambda>b. b = 0xFA)) (\<lambda>_.
     io_then (blocking_write_data in8 out8 2) (\<lambda>_.
     io_then (expect in8 (\<lambda>b. b = 0xFA)) (\<lambda>_.
     io_then (send_byte_to_first_ps2 in8 out8 (keyboard_byte KB_ENABLE_SCANNING)) (\<lambda>_.
     expect in8 (\<lambda>b. b = 0xFA))))))))))))))))))))))))"

section \<open>The abstract keyboard\<close>

text \<open>
  What the decoder promises: a keyboard is a sequence of key events, each with a scan code, a flag
  for the extended set and a flag for release. An event changes the two modifier states or delivers
  one character; \<open>encode\<close> gives the bytes that scan code set 2 assigns to it.
\<close>

datatype key_event = Key (extended: bool) (release: bool) (code: u8)

definition encode :: "key_event \<Rightarrow> u8 list" where
  "encode e = (if extended e then [0xE0] else []) @ (if release e then [0xF0] else []) @ [code e]"

definition printed :: "u8 \<Rightarrow> bool \<Rightarrow> bool \<Rightarrow> u8" where
  "printed c caps shift =
     (let plain = lookup_nonextended c False; shifted = lookup_nonextended c True;
          v = (if shift \<and> shifted \<noteq> 0 then shifted else plain)
      in if caps \<or> shift then word_of_int (toupper (sint v)) else v)"

definition key_step :: "key_event \<Rightarrow> ps2 \<times> tty \<Rightarrow> (ps2 \<times> tty) result" where
  "key_step e = (\<lambda>(s, t).
     if \<not> extended e \<and> code e = CAPS_LOCK then
       Inr (if release e then s else s\<lparr>ps_capslock := \<not> ps_capslock s\<rparr>, t)
     else if \<not> extended e \<and> code e \<in> {LEFT_SHIFT, RIGHT_SHIFT} then Inr (s\<lparr>ps_shift := \<not> release e\<rparr>, t)
     else if release e then Inr (s, t)
     else rbind (tty_provide_stdin (printed (code e) (ps_capslock s) (ps_shift s)) t) (\<lambda>t'. Inr (s, t')))"

definition idle :: "ps2 \<Rightarrow> bool" where
  "idle s \<longleftrightarrow> ps_expected_number_of_bytes s = 1 \<and> ps_buffer s = 0"

definition known_event :: "key_event \<Rightarrow> bool" where
  "known_event e \<longleftrightarrow> code e < 0x80"

subsection \<open>Shifting bytes into the buffer\<close>

lemma bytes1:
  "byte_n 0 (ucast b) = b" "byte_n 1 (ucast b) = 0" "byte_n 2 (ucast b) = 0" "byte_n 3 (ucast b) = 0"
  unfolding byte_n_def by (intro bit_word_eqI; auto simp: bit_simps dest: bit_imp_le_length)+

lemma bytes2:
  "byte_n 0 (push_bit 8 (ucast a) OR ucast b) = b" "byte_n 1 (push_bit 8 (ucast a) OR ucast b) = a"
  "byte_n 2 (push_bit 8 (ucast a) OR ucast b) = 0" "byte_n 3 (push_bit 8 (ucast a) OR ucast b) = 0"
  unfolding byte_n_def by (intro bit_word_eqI; auto simp: bit_simps dest: bit_imp_le_length)+

lemma bytes3:
  "byte_n 0 (push_bit 8 (push_bit 8 (ucast a) OR ucast b) OR ucast c) = c"
  "byte_n 1 (push_bit 8 (push_bit 8 (ucast a) OR ucast b) OR ucast c) = b"
  "byte_n 2 (push_bit 8 (push_bit 8 (ucast a) OR ucast b) OR ucast c) = a"
  "byte_n 3 (push_bit 8 (push_bit 8 (ucast a) OR ucast b) OR ucast c) = 0"
  unfolding byte_n_def by (intro bit_word_eqI; auto simp: bit_simps dest: bit_imp_le_length)+

lemma short_not_special:
  "byte_n 3 d = 0 \<Longrightarrow> d \<noteq> 0xE11477E1F014E077 \<and> d \<noteq> 0xE012E07C \<and> d \<noteq> 0xE0F07CE0F012"
  by (auto simp: byte_n_def)

lemma key_value_printed: "key_value c s = printed c (ps_capslock s) (ps_shift s)"
proof -
  have "toupper 0 = 0" by (simp add: toupper_def)
  then show ?thesis by (cases "ps_shift s") (auto simp: key_value_def printed_def Let_def)
qed

subsection \<open>Decoding one event\<close>

text \<open>The character that a complete sequence delivers, zero for none, and the new modifiers.\<close>

definition key_effect :: "key_event \<Rightarrow> ps2 \<Rightarrow> u8 \<times> ps2" where
  "key_effect e s =
     (if \<not> extended e \<and> code e = CAPS_LOCK then (0, if release e then s else s\<lparr>ps_capslock := \<not> ps_capslock s\<rparr>)
      else if \<not> extended e \<and> code e \<in> {LEFT_SHIFT, RIGHT_SHIFT} then (0, s\<lparr>ps_shift := \<not> release e\<rparr>)
      else if release e then (0, s)
      else (printed (code e) (ps_capslock s) (ps_shift s), s))"

lemma parse_effect:
  assumes "byte_n 3 d = 0" and "classify d = Inr (release e, extended e)" and "byte_n 0 d = code e" and "known_event e"
  shows "parse_full_buffer d s = Inr (key_effect e s)"
  using assms short_not_special [OF assms(1)]
  by (auto simp: parse_full_buffer_def key_effect_def Let_def key_value_printed known_event_def)

lemma key_step_effect: "key_step e (s, t) = (let (c, s') = key_effect e s in rbind (tty_provide_stdin c t) (\<lambda>t'. Inr (s', t')))"
  by (auto simp: key_step_def key_effect_def tty_provide_stdin_def)

lemma key_effect_buffer:
  "key_effect e (s\<lparr>ps_buffer := d\<rparr>) = map_prod id (\<lambda>s. s\<lparr>ps_buffer := d\<rparr>) (key_effect e s)"
  by (simp add: key_effect_def)

lemma idle_effect: "idle s \<Longrightarrow> idle (snd (key_effect e s))"
  by (auto simp: key_effect_def idle_def)

lemma idle_buffer:
  "idle s \<Longrightarrow> s\<lparr>ps_buffer := 0\<rparr> = s"
  "idle s \<Longrightarrow> s\<lparr>ps_buffer := d, ps_expected_number_of_bytes := 1\<rparr> = s\<lparr>ps_buffer := d\<rparr>"
  by (cases s; simp add: idle_def)+

lemma accept_prefix:
  assumes "idle s" and "b = 0xE0 \<or> b = 0xF0"
  shows "accept_byte b (s\<lparr>ps_buffer := d\<rparr>) = Inr (None, s\<lparr>ps_buffer := push_bit 8 d OR ucast b\<rparr>)"
  using assms by (cases s) (auto simp: accept_byte_def idle_def)

lemma accept_last:
  assumes "idle s" and "d' = push_bit 8 d OR ucast (code e)" and "byte_n 3 d' = 0"
    and "classify d' = Inr (release e, extended e)" and "byte_n 0 d' = code e" and "known_event e"
  shows "accept_byte (code e) (s\<lparr>ps_buffer := d\<rparr>) = Inr (Some (fst (key_effect e s)), snd (key_effect e s))"
proof -
  have c: "code e \<noteq> 0xE0" "code e \<noteq> 0xF0" "code e \<noteq> 0xE1" using assms(6) by (auto simp: known_event_def)
  have "parse_full_buffer d' (s\<lparr>ps_buffer := d'\<rparr>) = Inr (map_prod id (\<lambda>s. s\<lparr>ps_buffer := d'\<rparr>) (key_effect e s))"
    using parse_effect [OF assms(3-6)] by (simp add: key_effect_buffer)
  moreover have "ps_expected_number_of_bytes s = 1" using assms(1) by (simp add: idle_def)
  ultimately show ?thesis
    using c idle_buffer(1) [OF idle_effect [OF assms(1), of e]] assms(2)
    by (cases "key_effect e s") (simp add: accept_byte_def Let_def idle_buffer(2) [OF assms(1)])
qed

lemma rbind_rfold_Nil: "rbind m (rfold f []) = m"
  by (cases m) simp_all

lemma handle_encode:
  assumes "idle s" and "known_event e"
  shows "handle_incoming_byte (encode e) (s, t) = key_step e (s, t)"
proof -
  note acc = accept_prefix [OF assms(1), of _ 0, unfolded idle_buffer [OF assms(1)]]
    accept_prefix [OF assms(1)] accept_last [OF assms(1) refl _ _ _ assms(2), of 0, unfolded idle_buffer [OF assms(1)]]
    accept_last [OF assms(1) refl _ _ _ assms(2)]
  have "code e \<noteq> 0xE0" "code e \<noteq> 0xF0" using assms(2) by (auto simp: known_event_def)
  note b2 = bytes2 [of "0xE0" "code e"] bytes2 [of "0xF0" "code e"] bytes3 [of "0xE0" "0xF0" "code e"]
  show ?thesis
    using assms(2) bytes1 [of "code e"] b2
    by (cases "extended e"; cases "release e")
       (simp_all add: encode_def handle_incoming_byte_def acc classify_def key_step_effect case_prod_beta
         rbind_rfold_Nil)
qed

lemma key_step_idle:
  assumes "idle (fst p)" and "key_step e p = Inr p'"
  shows "idle (fst p')"
proof -
  obtain s t where p: "p = (s, t)" by (cases p)
  then show ?thesis using assms idle_effect [of s e]
    by (auto simp: key_step_effect result_simps case_prod_beta)
qed

lemma handle_append:
  "handle_incoming_byte (xs @ ys) p = rbind (handle_incoming_byte xs p) (handle_incoming_byte ys)"
  by (simp add: handle_incoming_byte_def rfold_append)

lemma handle_events:
  assumes "idle (fst p)" and "\<forall>e \<in> set es. known_event e"
  shows "handle_incoming_byte (concat (map encode es)) p = rfold key_step es p"
  using assms
proof (induction es arbitrary: p)
  case Nil
  show ?case by (simp add: handle_incoming_byte_def)
next
  case (Cons e es)
  obtain s t where p: "p = (s, t)" by (cases p)
  have e: "handle_incoming_byte (encode e) p = key_step e p" using handle_encode [of s e t] Cons.prems p by simp
  show ?case
  proof (cases "key_step e p")
    case (Inr p')
    then show ?thesis using Cons.IH [of p'] key_step_idle [OF Cons.prems(1) Inr] Cons.prems(2) e
      by (simp add: handle_append)
  qed (simp add: handle_append e)
qed

lemma handle_chunks:
  "rfold handle_incoming_byte chunks p = handle_incoming_byte (concat chunks) p"
proof (induction chunks arbitrary: p)
  case Nil
  show ?case by (simp add: handle_incoming_byte_def)
next
  case (Cons c cs)
  then show ?case by (cases "handle_incoming_byte c p") (simp_all add: handle_append)
qed

section \<open>Properties\<close>

definition fresh_ps2 :: ps2 where
  "fresh_ps2 = \<lparr>ps_capslock = False, ps_shift = False, ps_expected_number_of_bytes = 1, ps_buffer = 0\<rparr>"

text \<open>C14. The byte decoder refines the abstract keyboard. From an idle decoder, the bytes of any sequence of
  key events with scan codes below 128, however the controller splits them over interrupts, drive the
  terminal and the modifiers exactly as the sequence of events does: one character for each key
  press, none for a release, shift held down and caps lock toggled.\<close>

theorem ps2_refines_keyboard:
  assumes "idle s" and "\<forall>e \<in> set es. known_event e" and "concat chunks = concat (map encode es)"
  shows "rfold handle_incoming_byte chunks (s, t) = rfold key_step es (s, t)"
  using handle_events [of "(s, t)" es] assms by (simp add: handle_chunks)

theorem ps2_refines_keyboard_witness:
  "idle fresh_ps2 \<and>
   rfold handle_incoming_byte [[0x12, 0x1C, 0xF0], [0x12, 0xE0], [0xF0, 0x75]] (fresh_ps2, small_tty) =
   rfold key_step [Key False False 0x12, Key False False 0x1C, Key False True 0x12, Key True True 0x75] (fresh_ps2, small_tty) \<and>
   printed 0x1C False True = 65"
  using ps2_refines_keyboard [of fresh_ps2 "[Key False False 0x12, Key False False 0x1C, Key False True 0x12, Key True True 0x75]"
      "[[0x12, 0x1C, 0xF0], [0x12, 0xE0], [0xF0, 0x75]]" small_tty]
  by (simp add: idle_def fresh_ps2_def known_event_def encode_def printed_def lookup_nonextended_def scan_table_def toupper_def)

text \<open>Keys that stop the kernel. The F7 key (scan code \<open>0x83\<close>) fails the range assertion, and the bytes of the
  Pause key leave an idle decoder waiting for four more bytes, so the three ordinary presses and
  releases of a key that follow it end in a halt as well.\<close>

theorem ps2_halting_keys:
  "handle_incoming_byte [0x83] (fresh_ps2, t) = Inl HCF \<and>
   handle_incoming_byte [0xE1, 0x14, 0x77, 0xE1, 0xF0, 0x14, 0xF0, 0x77] (fresh_ps2, t) =
     Inr (fresh_ps2\<lparr>ps_expected_number_of_bytes := 4, ps_buffer := 0xE11477E1F014F077\<rparr>, t) \<and>
   handle_incoming_byte ([0xE1, 0x14, 0x77, 0xE1, 0xF0, 0x14, 0xF0, 0x77] @ [0x1C, 0xF0, 0x1C, 0x1C, 0xF0, 0x1C]) (fresh_ps2, t) = Inl HCF"
  by (simp add: handle_incoming_byte_def accept_byte_def fresh_ps2_def parse_full_buffer_def classify_def byte_n_def Let_def)

end
