(* ===== verification/Libc_String.thy ===== *)
theory Libc_String
  imports Kern_Libc
begin

text \<open>
  The string, memory and character routines of the C library (\<open>custom_libc/string.c\<close>, \<open>strings.c\<close>,
  \<open>ctype.c\<close>). The routines that have the same loops as the kernel's are built from the loops of
  \<open>Kern_Libc\<close> and carry the prefix \<open>libc\<close>. A pointer that is returned is a 64-bit address, 0 the null
  pointer; \<open>None\<close> is a scan that never meets the byte it looks for. Plain \<open>char\<close> is signed: a byte is
  compared with an \<open>int\<close> argument as \<open>sint\<close>.
\<close>

section \<open>Memory\<close>

definition libc_memcpy :: "u64 \<Rightarrow> u64 \<Rightarrow> u64 \<Rightarrow> mem \<Rightarrow> u64 \<times> mem" where
  "libc_memcpy dest src n m = (dest, memcpy_loop 0 n dest src m)"

definition mempcpy :: "u64 \<Rightarrow> u64 \<Rightarrow> u64 \<Rightarrow> mem \<Rightarrow> u64 \<times> mem" where
  "mempcpy dest src n m = (dest + n, memcpy_loop 0 n dest src m)"

definition libc_memset :: "u64 \<Rightarrow> u32 \<Rightarrow> u64 \<Rightarrow> mem \<Rightarrow> u64 \<times> mem" where
  "libc_memset s c n m = (s, memset_loop 0 n s (ucast c) m)"

definition libc_memmove :: "u64 \<Rightarrow> u64 \<Rightarrow> u64 \<Rightarrow> mem \<Rightarrow> u64 \<times> mem" where
  "libc_memmove dest src n m =
     (dest, if src > dest then memcpy_loop 0 n dest src m
            else if src < dest then memmove_down n dest src m
            else m)"

definition libc_memcmp :: "u64 \<Rightarrow> u64 \<Rightarrow> u64 \<Rightarrow> mem \<Rightarrow> int" where
  "libc_memcmp s1 s2 n m = memcmp_loop 0 n s1 s2 m"

section \<open>Strings\<close>

definition libc_strlen :: "u64 \<Rightarrow> mem \<Rightarrow> u64 option" where
  "libc_strlen str m = strlen_loop str 0 m"

definition libc_strcmp :: "u64 \<Rightarrow> u64 \<Rightarrow> mem \<Rightarrow> int result" where
  "libc_strcmp str1 str2 m = strcmp_loop 0 str1 str2 m"

function libc_strncmp :: "u64 \<Rightarrow> u64 \<Rightarrow> u64 \<Rightarrow> mem \<Rightarrow> int" where
  "libc_strncmp s1 s2 n m =
     (if n > 0 then
        (if m s1 \<noteq> m s2 then sint (m s1) - sint (m s2)
         else if m s1 = 0 then 0
         else libc_strncmp (s1 + 1) (s2 + 1) (n - 1) m)
      else 0)"
  by pat_completeness auto
termination
  by (relation "measure (\<lambda>(_, _, n, _). unat n)") (auto intro: minus1_less_measure)

declare libc_strncmp.simps [simp del]

definition libc_strcpy :: "u64 \<Rightarrow> u64 \<Rightarrow> mem \<Rightarrow> (u64 \<times> mem) option" where
  "libc_strcpy dest src m = map_option (\<lambda>m'. (dest, m')) (strcpy_loop dest src m)"

partial_function (option) stpcpy_loop :: "u64 \<Rightarrow> u64 \<Rightarrow> mem \<Rightarrow> (u64 \<times> mem) option" where
  "stpcpy_loop dest src m =
     (let m' = m(dest := m src) in
      if m src \<noteq> 0 then stpcpy_loop (dest + 1) (src + 1) m' else Some (dest + 1, m'))"

definition stpcpy :: "u64 \<Rightarrow> u64 \<Rightarrow> mem \<Rightarrow> (u64 \<times> mem) option" where
  "stpcpy dest src m = map_option (\<lambda>(d, m'). (d - 1, m')) (stpcpy_loop dest src m)"

text \<open>
  The two loops of \<open>stpncpy\<close>. Both decrement \<open>n\<close> in their condition, also when it is zero and the
  loop ends, where it wraps to \<open>2 ^ 64 - 1\<close>.
\<close>

function stpncpy_copy :: "u64 \<Rightarrow> u64 \<Rightarrow> u64 \<Rightarrow> mem \<Rightarrow> u64 \<times> u64 \<times> mem" where
  "stpncpy_copy dest src n m =
     (if n > 0 then
        (if m src = 0 then (dest + 1, n - 1, m(dest := m src))
         else stpncpy_copy (dest + 1) (src + 1) (n - 1) (m(dest := m src)))
      else (dest, n - 1, m))"
  by pat_completeness auto
termination
  by (relation "measure (\<lambda>(_, _, n, _). unat n)") (auto intro: minus1_less_measure)

function stpncpy_pad :: "u64 \<Rightarrow> u64 \<Rightarrow> mem \<Rightarrow> u64 \<times> mem" where
  "stpncpy_pad dest n m =
     (if n > 0 then stpncpy_pad (dest + 1) (n - 1) (m(dest := 0)) else (dest, m))"
  by pat_completeness auto
termination
  by (relation "measure (\<lambda>(_, n, _). unat n)") (auto intro: minus1_less_measure)

declare stpncpy_copy.simps [simp del] stpncpy_pad.simps [simp del]

definition stpncpy :: "u64 \<Rightarrow> u64 \<Rightarrow> u64 \<Rightarrow> mem \<Rightarrow> u64 \<times> mem" where
  "stpncpy dest src n m = (let (dest', n', m') = stpncpy_copy dest src n m in stpncpy_pad dest' n' m')"

function strncpy_copy :: "u64 \<Rightarrow> u64 \<Rightarrow> u64 \<Rightarrow> u64 \<Rightarrow> mem \<Rightarrow> u64 \<times> mem" where
  "strncpy_copy i n dest src m =
     (if i < n \<and> m (src + i) \<noteq> 0 then strncpy_copy (i + 1) n dest src (m(dest + i := m (src + i))) else (i, m))"
  by pat_completeness auto
termination
  by (relation "measure (\<lambda>(i, n, _). unat n - unat i)") (auto intro: plus1_less_measure)

declare strncpy_copy.simps [simp del]

definition strncpy :: "u64 \<Rightarrow> u64 \<Rightarrow> u64 \<Rightarrow> mem \<Rightarrow> u64 \<times> mem" where
  "strncpy dest src n m =
     (let (i, m') = strncpy_copy 0 n dest src m in (dest, memset_loop i n dest 0 m'))"

partial_function (option) strchr :: "u64 \<Rightarrow> int \<Rightarrow> mem \<Rightarrow> u64 option" where
  "strchr s c m =
     (if sint (m s) = c then Some s else if m s = 0 then Some 0 else strchr (s + 1) c m)"

partial_function (option) strchrnul :: "u64 \<Rightarrow> int \<Rightarrow> mem \<Rightarrow> u64 option" where
  "strchrnul s c m =
     (if sint (m s) = c then Some s else if m s = 0 then Some s else strchrnul (s + 1) c m)"

partial_function (option) strspn_loop :: "u64 \<Rightarrow> u64 \<Rightarrow> u64 \<Rightarrow> mem \<Rightarrow> u64 option" where
  "strspn_loop s result accept m =
     (case strchr accept (sint (m s)) m of
        None \<Rightarrow> None
      | Some p \<Rightarrow> if p = 0 then Some result else strspn_loop (s + 1) (result + 1) accept m)"

definition strspn :: "u64 \<Rightarrow> u64 \<Rightarrow> mem \<Rightarrow> u64 option" where
  "strspn s accept m = strspn_loop s 0 accept m"

partial_function (option) strcspn_loop :: "u64 \<Rightarrow> u64 \<Rightarrow> u64 \<Rightarrow> mem \<Rightarrow> u64 option" where
  "strcspn_loop s result reject m =
     (case strchr reject (sint (m s)) m of
        None \<Rightarrow> None
      | Some p \<Rightarrow> if p \<noteq> 0 then Some result else strcspn_loop (s + 1) (result + 1) reject m)"

definition strcspn :: "u64 \<Rightarrow> u64 \<Rightarrow> mem \<Rightarrow> u64 option" where
  "strcspn s reject m = strcspn_loop s 0 reject m"

text \<open>\<open>malloc\<close> is the argument \<open>alloc\<close>: the address it returns for a size.\<close>

definition strdup :: "(u64 \<Rightarrow> u64) \<Rightarrow> u64 \<Rightarrow> mem \<Rightarrow> (u64 \<times> mem) option" where
  "strdup alloc s m =
     (case libc_strlen s m of
        None \<Rightarrow> None
      | Some l \<Rightarrow> (case libc_strcpy (alloc (l + 1)) s m of
                     None \<Rightarrow> None | Some (_, m') \<Rightarrow> Some (alloc (l + 1), m')))"

partial_function (option) skip_delimiters :: "u64 \<Rightarrow> u64 \<Rightarrow> mem \<Rightarrow> u64 option" where
  "skip_delimiters p delimiters m =
     (if m p \<noteq> 0 then
        (case strchr delimiters (sint (m p)) m of
           None \<Rightarrow> None
         | Some q \<Rightarrow> if q = 0 then Some p else skip_delimiters (p + 1) delimiters m)
      else Some 0)"

partial_function (option) token_end :: "u64 \<Rightarrow> u64 \<Rightarrow> mem \<Rightarrow> u64 option" where
  "token_end e delimiters m =
     (if m e \<noteq> 0 then
        (case strchr delimiters (sint (m e)) m of
           None \<Rightarrow> None
         | Some q \<Rightarrow> if q = 0 then token_end (e + 1) delimiters m else Some e)
      else Some e)"

text \<open>The static variable \<open>strtok_next\<close> is threaded through; the result is the token, \<open>strtok_next\<close> and the memory.\<close>

definition strtok :: "u64 \<Rightarrow> u64 \<Rightarrow> u64 \<Rightarrow> mem \<Rightarrow> (u64 \<times> u64 \<times> mem) option" where
  "strtok str delimiters strtok_next m =
     (let nxt = (if str \<noteq> 0 then str else strtok_next) in
      if nxt = 0 \<or> m nxt = 0 then Some (0, nxt, m) else
      case skip_delimiters nxt delimiters m of
        None \<Rightarrow> None
      | Some start \<Rightarrow>
          if start = 0 then Some (0, 0, m) else
          (case token_end start delimiters m of
             None \<Rightarrow> None
           | Some e \<Rightarrow> if m e = 0 then Some (start, 0, m) else Some (start, e + 1, m(e := 0))))"

partial_function (option) in_accept :: "u8 \<Rightarrow> u64 \<Rightarrow> u64 \<Rightarrow> mem \<Rightarrow> bool option" where
  "in_accept c i accept m =
     (if m (accept + i) \<noteq> 0 then
        (if c = m (accept + i) then Some True else in_accept c (i + 1) accept m)
      else Some False)"

partial_function (option) strpbrk :: "u64 \<Rightarrow> u64 \<Rightarrow> mem \<Rightarrow> u64 option" where
  "strpbrk s accept m =
     (if m s \<noteq> 0 then
        (case in_accept (m s) 0 accept m of
           None \<Rightarrow> None
         | Some found \<Rightarrow> if found then Some s else strpbrk (s + 1) accept m)
      else Some 0)"

partial_function (option) strstr_loop :: "u64 \<Rightarrow> u64 \<Rightarrow> u64 \<Rightarrow> mem \<Rightarrow> u64 option" where
  "strstr_loop haystack needle needle_size m =
     (if m haystack \<noteq> 0 then
        (if libc_strncmp needle haystack needle_size m = 0 then Some haystack
         else strstr_loop (haystack + 1) needle needle_size m)
      else Some 0)"

definition strstr :: "u64 \<Rightarrow> u64 \<Rightarrow> mem \<Rightarrow> u64 option" where
  "strstr haystack needle m =
     (case libc_strlen needle m of None \<Rightarrow> None | Some n \<Rightarrow> strstr_loop haystack needle n m)"

text \<open>\<open>sys_errlist\<close> is empty and \<open>sys_nerr\<close> is 0 (\<open>errno.c\<close>): a negative number indexes before the array.\<close>

definition strerror :: "int \<Rightarrow> string result" where
  "strerror errnum = (if errnum \<ge> 0 then Inr ''unknown error number!'' else Inl WildAccess)"

definition strcoll :: "u64 \<Rightarrow> u64 \<Rightarrow> mem \<Rightarrow> int result" where
  "strcoll s1 s2 m = libc_strcmp s1 s2 m"

section \<open>Characters\<close>

text \<open>The classification functions return 0 or 1 as an \<open>int\<close>; here they are predicates on the \<open>int\<close> argument.\<close>

definition isupper :: "int \<Rightarrow> bool" where "isupper c \<longleftrightarrow> c \<ge> 65 \<and> c \<le> 90"
definition islower :: "int \<Rightarrow> bool" where "islower c \<longleftrightarrow> c \<ge> 97 \<and> c \<le> 122"
definition isdigit :: "int \<Rightarrow> bool" where "isdigit c \<longleftrightarrow> c \<ge> 48 \<and> c \<le> 57"
definition isalpha :: "int \<Rightarrow> bool" where "isalpha c \<longleftrightarrow> isupper c \<or> islower c"
definition isalnum :: "int \<Rightarrow> bool" where "isalnum c \<longleftrightarrow> isalpha c \<or> isdigit c"
definition isascii :: "int \<Rightarrow> bool" where "isascii c \<longleftrightarrow> c \<ge> 0 \<and> c \<le> 127"
definition isblank :: "int \<Rightarrow> bool" where "isblank c \<longleftrightarrow> c = 32 \<or> c = 9"
definition iscntrl :: "int \<Rightarrow> bool" where "iscntrl c \<longleftrightarrow> (let uc = c mod 2 ^ 32 in uc \<le> 0x1F \<or> uc = 0x7F)"
definition isgraph :: "int \<Rightarrow> bool" where "isgraph c \<longleftrightarrow> c > 0x20 \<and> c \<le> 0x7E"
definition isprint :: "int \<Rightarrow> bool" where "isprint c \<longleftrightarrow> c \<ge> 0x20 \<and> c \<le> 0x7E"
definition ispunct :: "int \<Rightarrow> bool" where "ispunct c \<longleftrightarrow> isprint c \<and> c \<noteq> 32 \<and> \<not> isalnum c"
definition isspace :: "int \<Rightarrow> bool" where "isspace c \<longleftrightarrow> c = 32 \<or> c = 12 \<or> c = 10 \<or> c = 13 \<or> c = 9 \<or> c = 11"
definition isxdigit :: "int \<Rightarrow> bool" where
  "isxdigit c \<longleftrightarrow> isdigit c \<or> (c \<ge> 97 \<and> c \<le> 102) \<or> (c \<ge> 65 \<and> c \<le> 70)"

definition libc_tolower :: "int \<Rightarrow> int" where
  "libc_tolower c = (let uc = c mod 256 in if 65 \<le> uc \<and> uc \<le> 90 then uc + 32 else c)"

definition lower_byte :: "u8 \<Rightarrow> u8" where
  "lower_byte c = word_of_int (libc_tolower (uint c))"

partial_function (option) strcasecmp :: "u64 \<Rightarrow> u64 \<Rightarrow> mem \<Rightarrow> int option" where
  "strcasecmp s1 s2 m =
     (if m s1 \<noteq> 0 \<and> m s2 \<noteq> 0 then
        (let c1 = lower_byte (m s1); c2 = lower_byte (m s2)
         in if c1 \<noteq> c2 then Some (uint c1 - uint c2) else strcasecmp (s1 + 1) (s2 + 1) m)
      else Some (uint (m s1) - uint (m s2)))"

section \<open>Searching\<close>

text \<open>A C string whose bytes, terminator included, do not lie at address 0.\<close>

definition str_at :: "mem \<Rightarrow> u64 \<Rightarrow> u8 list \<Rightarrow> bool" where
  "str_at m p xs \<longleftrightarrow> cstr m p xs \<and> (\<forall>k \<le> length xs. p + of_nat k \<noteq> 0)"

lemma str_at_Nil [simp]: "str_at m p [] \<longleftrightarrow> m p = 0 \<and> p \<noteq> 0"
  by (auto simp: str_at_def)

lemma all_le_Suc: "(\<forall>k \<le> Suc n. P k) \<longleftrightarrow> P 0 \<and> (\<forall>k \<le> n. P (Suc k))"
  by (metis Suc_le_mono le0 not0_implies_Suc)

lemma str_at_Cons [simp]: "str_at m p (x # xs) \<longleftrightarrow> m p = x \<and> x \<noteq> 0 \<and> p \<noteq> 0 \<and> str_at m (p + 1) xs"
  by (auto simp: str_at_def all_le_Suc algebra_simps)

lemma str_atD: "str_at m p xs \<Longrightarrow> cstr m p xs"
  by (simp add: str_at_def)

lemma strchr_str:
  "str_at m p xs \<Longrightarrow> strchr p (sint x) m =
     Some (if x \<in> set xs \<or> x = 0 then p + of_nat (length (takeWhile (\<lambda>y. y \<noteq> x) xs)) else 0)"
  by (induction xs arbitrary: p) (subst strchr.simps; auto simp: algebra_simps)+

lemma strchr_nonnull:
  assumes "str_at m p xs"
  shows "\<exists>q. strchr p (sint x) m = Some q \<and> (q = 0 \<longleftrightarrow> x \<notin> set xs \<and> x \<noteq> 0)"
proof -
  have "length (takeWhile (\<lambda>y. y \<noteq> x) xs) \<le> length xs" by (rule length_takeWhile_le)
  then have "p + of_nat (length (takeWhile (\<lambda>y. y \<noteq> x) xs)) \<noteq> 0" using assms by (auto simp: str_at_def)
  with strchr_str [OF assms, of x] show ?thesis by auto
qed

lemma skip_delimiters_str:
  assumes "str_at m d ds"
  shows "str_at m p xs \<Longrightarrow> skip_delimiters p d m =
    Some (if set xs \<subseteq> set ds then 0 else p + of_nat (length (takeWhile (\<lambda>c. c \<in> set ds) xs)))"
proof (induction xs arbitrary: p)
  case (Cons x xs)
  obtain q where "strchr d (sint x) m = Some q" "q = 0 \<longleftrightarrow> x \<notin> set ds \<and> x \<noteq> 0" using strchr_nonnull [OF assms] by blast
  with Cons show ?case by (subst skip_delimiters.simps) (auto simp: algebra_simps)
qed (simp add: skip_delimiters.simps)

lemma token_end_str:
  assumes "str_at m d ds"
  shows "str_at m p xs \<Longrightarrow> token_end p d m = Some (p + of_nat (length (takeWhile (\<lambda>c. c \<notin> set ds) xs)))"
proof (induction xs arbitrary: p)
  case (Cons x xs)
  obtain q where "strchr d (sint x) m = Some q" "q = 0 \<longleftrightarrow> x \<notin> set ds \<and> x \<noteq> 0" using strchr_nonnull [OF assms] by blast
  with Cons show ?case by (subst token_end.simps) (auto simp: algebra_simps)
qed (simp add: token_end.simps)

lemma str_at_append: "str_at m p (xs @ ys) \<Longrightarrow> str_at m (p + of_nat (length xs)) ys"
  by (induction xs arbitrary: p) (simp_all flip: add.assoc)

lemma str_at_cut:
  "str_at m p (xs @ y # ys) \<Longrightarrow> str_at (m(p + of_nat (length xs) := 0)) p xs"
proof (induction xs arbitrary: p)
  case (Cons x xs)
  have c: "cstr m p (x # xs @ y # ys)" using Cons.prems by (simp add: str_at_def)
  have "p \<noteq> p + of_nat (Suc (length xs))"
  proof
    assume "p = p + of_nat (Suc (length xs))"
    then have z: "of_nat (Suc (length xs)) = (0 :: u64)" by simp
    have "Suc (length xs) < 2 ^ 64" using cstr_length [OF c] by simp
    with z show False by (simp add: word_unat_eq_iff unat_of_nat take_bit_nat_eq_self del: of_nat_Suc)
  qed
  then show ?case using Cons.IH [of "p + 1"] Cons.prems by (auto simp: algebra_simps)
qed simp

lemma index_inj:
  assumes "cstr m p xs" and "i \<le> length xs" and "j \<le> length xs" and "p + of_nat i = p + of_nat j"
  shows "i = j"
proof -
  have "i < 2 ^ 64" "j < 2 ^ 64" using cstr_length [OF assms(1)] assms(2,3) by auto
  moreover have "unat (of_nat i :: u64) = unat (of_nat j :: u64)" using assms(4) by simp
  ultimately show ?thesis by (simp add: unat_of_nat take_bit_nat_eq_self)
qed

lemma str_at_frame:
  "str_at m p xs \<Longrightarrow> (\<And>k. k \<le> length xs \<Longrightarrow> m' (p + of_nat k) = m (p + of_nat k)) \<Longrightarrow> str_at m' p xs"
  using cstr_frame [of xs m' p m] by (simp add: str_at_def)

subsection \<open>Tokens\<close>

text \<open>The tokens of a string: cut it at every delimiter and leave out the empty pieces.\<close>

fun fields :: "'a set \<Rightarrow> 'a list \<Rightarrow> 'a list list" where
  "fields D [] = [[]]"
| "fields D (x # xs) = (if x \<in> D then [] # fields D xs else (x # List.hd (fields D xs)) # tl (fields D xs))"

definition tokens :: "'a set \<Rightarrow> 'a list \<Rightarrow> 'a list list" where
  "tokens D xs = filter (\<lambda>f. f \<noteq> []) (fields D xs)"

lemma tokens_skip: "set sk \<subseteq> D \<Longrightarrow> tokens D (sk @ xs) = tokens D xs"
  by (induction sk) (auto simp: tokens_def)

lemma fields_word: "set tok \<inter> D = {} \<Longrightarrow> fields D (tok @ ys) = (tok @ List.hd (fields D ys)) # tl (fields D ys)"
proof (induction tok)
  case Nil
  show ?case by (cases ys) auto
qed auto

lemma tokens_word:
  assumes "set tok \<inter> D = {}" and "tok \<noteq> []"
  shows "tokens D tok = [tok]" and "r \<in> D \<Longrightarrow> tokens D (tok @ r # rs) = tok # tokens D rs"
  using fields_word [OF assms(1), of "[]"] fields_word [OF assms(1), of "r # rs"] assms(2) by (simp_all add: tokens_def)

text \<open>
  The first call with \<open>str\<close>, then calls with the null pointer until the null pointer is returned; the
  number bounds the calls.
\<close>

fun strtok_run :: "nat \<Rightarrow> u64 \<Rightarrow> u64 \<Rightarrow> u64 \<Rightarrow> mem \<Rightarrow> (u64 list \<times> mem) option" where
  "strtok_run 0 str d nxt m = None"
| "strtok_run (Suc k) str d nxt m =
     (case strtok str d nxt m of
        None \<Rightarrow> None
      | Some (p, nxt', m') \<Rightarrow>
          if p = 0 then Some ([], m')
          else (case strtok_run k 0 d nxt' m' of None \<Rightarrow> None | Some (ps, m'') \<Rightarrow> Some (p # ps, m'')))"

definition apart_strs :: "u64 \<Rightarrow> nat \<Rightarrow> u64 \<Rightarrow> nat \<Rightarrow> bool" where
  "apart_strs p n d k \<longleftrightarrow> (\<forall>i \<le> n. \<forall>j \<le> k. p + of_nat i \<noteq> d + of_nat j)"

lemma apart_strs_below:
  assumes "p + n < d" and "d + k < 2 ^ 64"
  shows "apart_strs (of_nat p) n (of_nat d) k"
  unfolding apart_strs_def
proof (intro allI impI)
  fix i j assume "i \<le> n" "j \<le> k"
  then have "p + i < 2 ^ 64" "d + j < 2 ^ 64" "p + i \<noteq> d + j" using assms by auto
  then have "(of_nat (p + i) :: u64) \<noteq> of_nat (d + j)"
    by (simp add: word_unat_eq_iff unat_of_nat take_bit_nat_eq_self del: of_nat_add)
  then show "(of_nat p + of_nat i :: u64) \<noteq> of_nat d + of_nat j" by simp
qed

lemma dropWhile_Nil_iff: "dropWhile P xs = [] \<longleftrightarrow> (\<forall>x \<in> set xs. P x)"
  by (induction xs) auto

text \<open>One call that finds a token: \<open>xs\<close> is skipped delimiters, the token and the rest.\<close>

lemma strtok_call:
  assumes s: "str_at m nxt xs" and d: "str_at m d ds" and nx: "nxt = (if str \<noteq> 0 then str else n0)"
    and ys: "dropWhile (\<lambda>c. c \<in> set ds) xs \<noteq> []"
  defines "sk \<equiv> takeWhile (\<lambda>c. c \<in> set ds) xs" and "tok \<equiv> takeWhile (\<lambda>c. c \<notin> set ds) (dropWhile (\<lambda>c. c \<in> set ds) xs)"
    and "rest \<equiv> dropWhile (\<lambda>c. c \<notin> set ds) (dropWhile (\<lambda>c. c \<in> set ds) xs)"
  defines "p \<equiv> nxt + of_nat (length sk)"
  shows "strtok str d n0 m = Some (if rest = [] then (p, 0, m)
      else (p, p + of_nat (length tok) + 1, m(p + of_nat (length tok) := 0)))"
    and "xs = sk @ tok @ rest" and "str_at m p (tok @ rest)"
proof -
  show x: "xs = sk @ tok @ rest" by (simp add: sk_def tok_def rest_def)
  show t: "str_at m p (tok @ rest)" using str_at_append [of m nxt sk] s x by (simp add: p_def)
  have "\<not> set xs \<subseteq> set ds" using ys by (auto simp: dropWhile_Nil_iff)
  then have sk: "skip_delimiters nxt d m = Some p" using skip_delimiters_str [OF d s] by (simp add: p_def sk_def)
  have tk: "takeWhile (\<lambda>c. c \<notin> set ds) (tok @ rest) = tok" by (simp add: tok_def rest_def)
  have te: "token_end p d m = Some (p + of_nat (length tok))" using token_end_str [OF d t] tk by simp
  have "str_at m (p + of_nat (length tok)) rest" using str_at_append [OF t] .
  then have e: "m (p + of_nat (length tok)) = 0 \<longleftrightarrow> rest = []" by (cases rest) auto
  have nz: "nxt \<noteq> 0" "m nxt \<noteq> 0" "p \<noteq> 0" using s t ys by (cases xs; auto simp: str_at_def dest: spec [of _ 0])+
  show "strtok str d n0 m = Some (if rest = [] then (p, 0, m)
      else (p, p + of_nat (length tok) + 1, m(p + of_nat (length tok) := 0)))"
    using nz sk te e by (simp add: strtok_def Let_def flip: nx)
qed

lemma strtok_run_tokens:
  assumes "str_at m nxt xs" and "str_at m d ds" and "apart_strs nxt (length xs) d (length ds)"
    and "nxt = (if str \<noteq> 0 then str else n0)"
  shows "\<exists>ps m'. strtok_run (Suc (length (tokens (set ds) xs))) str d n0 m = Some (ps, m') \<and>
    list_all2 (str_at m') ps (tokens (set ds) xs) \<and> (\<forall>a. (\<forall>k \<le> length xs. a \<noteq> nxt + of_nat k) \<longrightarrow> m' a = m a)"
  using assms
proof (induction "length xs" arbitrary: xs nxt str n0 m rule: less_induct)
  case less
  note s = less.prems(1) and d = less.prems(2) and ap = less.prems(3) and nx = less.prems(4)
  define sk where "sk = takeWhile (\<lambda>c. c \<in> set ds) xs"
  define tok where "tok = takeWhile (\<lambda>c. c \<notin> set ds) (dropWhile (\<lambda>c. c \<in> set ds) xs)"
  define rest where "rest = dropWhile (\<lambda>c. c \<notin> set ds) (dropWhile (\<lambda>c. c \<in> set ds) xs)"
  define p where "p = nxt + of_nat (length sk)"
  have sks: "set sk \<subseteq> set ds" by (auto simp: sk_def dest: set_takeWhileD)
  have toks: "set tok \<inter> set ds = {}" by (auto simp: tok_def dest: set_takeWhileD)
  show ?case
  proof (cases "dropWhile (\<lambda>c. c \<in> set ds) xs = []")
    case True
    then have "tokens (set ds) xs = []" using tokens_skip [of xs "set ds" "[]"] by (auto simp: dropWhile_Nil_iff tokens_def)
    moreover have "skip_delimiters nxt d m = Some 0"
      using skip_delimiters_str [OF d s] True by (auto simp: dropWhile_Nil_iff)
    then have "\<exists>n'. strtok str d n0 m = Some (0, n', m)" by (simp add: strtok_def Let_def flip: nx)
    ultimately show ?thesis by auto
  next
    case False
    note call = strtok_call [OF s d nx False, folded sk_def tok_def rest_def p_def]
    obtain y ys where ys: "dropWhile (\<lambda>c. c \<in> set ds) xs = y # ys" using False by (cases "dropWhile (\<lambda>c. c \<in> set ds) xs") auto
    then have "y \<notin> set ds" using hd_dropWhile [OF False] by simp
    then have tne: "tok \<noteq> []" by (simp add: tok_def ys)
    show ?thesis
    proof (cases rest)
      case Nil
      have "tokens (set ds) xs = [tok]"
        using tokens_skip [OF sks, of tok] tokens_word(1) [OF toks tne] call(2) Nil by simp
      moreover have "p \<noteq> 0" using call(3) by (auto simp: str_at_def dest: spec [of _ 0])
      moreover have "strtok 0 d 0 m = Some (0, 0, m)" by (simp add: strtok_def)
      ultimately show ?thesis using call(1,3) Nil by auto
    next
      case (Cons r rs)
      let ?e = "p + of_nat (length tok)" let ?m1 = "m(?e := 0)" let ?n1 = "?e + 1"
      have x: "xs = sk @ tok @ r # rs" using call(2) Cons by simp
      have "r \<in> set ds" using hd_dropWhile [of "\<lambda>c. c \<notin> set ds" "dropWhile (\<lambda>c. c \<in> set ds) xs", folded rest_def] Cons by simp
      then have tk: "tokens (set ds) xs = tok # tokens (set ds) rs"
        using tokens_skip [OF sks] tokens_word(2) [OF toks tne] x by simp
      have pstr: "cstr m p (tok @ r # rs)" using call(3) Cons by (simp add: str_at_def)
      have off: "?n1 + of_nat k = p + of_nat (length tok + 1 + k)" for k by (simp add: algebra_simps)
      have ne: "p + of_nat i \<noteq> ?n1 + of_nat j" if "i \<le> length tok" "j \<le> length rs" for i j
        using index_inj [OF pstr, of i "length tok + 1 + j"] that off by auto
      have n1: "str_at m ?n1 rs"
        using str_at_append [of m p "tok @ [r]" rs] call(3) Cons by (simp add: algebra_simps)
      have "str_at ?m1 ?n1 rs" by (rule str_at_frame [OF n1]) (use ne [of "length tok"] in auto)
      moreover have addr: "nxt + of_nat (length sk + i) = p + of_nat i" for i by (simp add: p_def)
      have "str_at ?m1 d ds"
      proof (rule str_at_frame [OF d])
        fix k assume "k \<le> length ds"
        then have "?e \<noteq> d + of_nat k"
          using ap [unfolded apart_strs_def, rule_format, of "length sk + length tok" k, unfolded addr] x by simp
        then show "?m1 (d + of_nat k) = m (d + of_nat k)" by auto
      qed
      moreover have "apart_strs ?n1 (length rs) d (length ds)"
        unfolding apart_strs_def
      proof (intro allI impI)
        fix i j assume "i \<le> length rs" "j \<le> length ds"
        then show "?n1 + of_nat i \<noteq> d + of_nat j"
          using ap [unfolded apart_strs_def, rule_format, of "length sk + (length tok + 1 + i)" j, unfolded addr, folded off] x by simp
      qed
      ultimately obtain ps m' where ih: "strtok_run (Suc (length (tokens (set ds) rs))) 0 d ?n1 ?m1 = Some (ps, m')"
        "list_all2 (str_at m') ps (tokens (set ds) rs)" "\<forall>a. (\<forall>k \<le> length rs. a \<noteq> ?n1 + of_nat k) \<longrightarrow> m' a = ?m1 a"
        using less.hyps [of rs ?m1 ?n1 0 ?n1] x by auto
      have "str_at m' p tok"
      proof (rule str_at_frame)
        show "str_at ?m1 p tok" using str_at_cut call(3) Cons by blast
      qed (use ih(3) ne in auto)
      moreover have "p \<noteq> 0" using call(3) by (auto simp: str_at_def dest: spec [of _ 0])
      moreover have "m' a = m a" if "\<forall>k \<le> length xs. a \<noteq> nxt + of_nat k" for a
      proof -
        have "a \<noteq> ?n1 + of_nat k" if "k \<le> length rs" for k
          using \<open>\<forall>k \<le> length xs. a \<noteq> nxt + of_nat k\<close> [rule_format, of "length sk + (length tok + 1 + k)", unfolded addr, folded off] that x by simp
        moreover have "a \<noteq> ?e" using \<open>\<forall>k \<le> length xs. a \<noteq> nxt + of_nat k\<close> [rule_format, of "length sk + length tok", unfolded addr] x by simp
        ultimately show ?thesis using ih(3) by simp
      qed
      ultimately show ?thesis using call(1) Cons ih tk by auto
    qed
  qed
qed

section \<open>Substrings, spans and bounded copies\<close>

lemma libc_strncmp_eq: "libc_strncmp a b n m = strncmp a b n m"
  by (induction a b n m rule: libc_strncmp.induct) (subst libc_strncmp.simps, subst strncmp.simps, simp)

lemma strncmp_prefix:
  assumes "cstr m a ys" and "cstr m b xs"
  shows "libc_strncmp a b (of_nat (length ys)) m = 0 \<longleftrightarrow> take (length ys) xs = ys"
proof -
  have n: "unat (of_nat (length ys) :: u64) = length ys" using cstr_length [OF assms(1)] by (simp add: unat_of_nat take_bit_nat_eq_self)
  have "0 \<notin> set ys" "0 \<notin> set (take (length ys) xs)"
    using cstr_nonzero [OF assms(1)] cstr_nonzero [OF assms(2)] by (auto dest: in_set_takeD)
  then show ?thesis using strncmp_cstr [OF assms, of "of_nat (length ys)"] by (auto simp: libc_strncmp_eq n scmp_eq_0)
qed

lemma strstr_loop_str:
  assumes "cstr m nd ys"
  shows "str_at m h xs \<Longrightarrow> strstr_loop h nd (of_nat (length ys)) m =
    Some (if \<exists>i < length xs. take (length ys) (drop i xs) = ys
          then h + of_nat (LEAST i. take (length ys) (drop i xs) = ys) else 0)"
proof (induction xs arbitrary: h)
  case Nil
  then show ?case by (simp add: strstr_loop.simps)
next
  case (Cons x xs)
  let ?P = "\<lambda>i. take (length ys) (drop i (x # xs)) = ys"
  have p: "libc_strncmp nd h (of_nat (length ys)) m = 0 \<longleftrightarrow> ?P 0"
    using strncmp_prefix [OF assms, of h "x # xs"] Cons.prems by (auto simp: str_at_def)
  show ?case
  proof (cases "?P 0")
    case True
    then have "(LEAST i. ?P i) = 0" by (rule Least_eq_0)
    with True p Cons.prems show ?thesis by (subst strstr_loop.simps) (auto intro: exI [of _ 0])
  next
    case False
    have ex: "(\<exists>i < length (x # xs). ?P i) \<longleftrightarrow> (\<exists>i < length xs. take (length ys) (drop i xs) = ys)"
      using False by (auto simp: Ex_less_Suc2)
    have least: "(LEAST i. ?P i) = Suc (LEAST i. take (length ys) (drop i xs) = ys)" if occ: "\<exists>i < length xs. take (length ys) (drop i xs) = ys"
    proof -
      obtain i where "take (length ys) (drop i xs) = ys" using occ by blast
      then have "?P (Suc i)" by simp
      from Least_Suc [of ?P, OF this False] show ?thesis by simp
    qed
    have "strstr_loop h nd (of_nat (length ys)) m = strstr_loop (h + 1) nd (of_nat (length ys)) m"
      using False p Cons.prems by (subst strstr_loop.simps) auto
    moreover have "str_at m (h + 1) xs" using Cons.prems by simp
    ultimately show ?thesis using Cons.IH [of "h + 1"]
      by (cases "\<exists>i < length xs. take (length ys) (drop i xs) = ys") (simp_all only: ex if_True if_False least of_nat_Suc add.assoc)
  qed
qed

lemma strspn_loop_str:
  assumes "str_at m accept acc"
  shows "str_at m s xs \<Longrightarrow> strspn_loop s r accept m =
    (if set xs \<subseteq> set acc then strspn_loop (s + of_nat (length xs) + 1) (r + of_nat (length xs) + 1) accept m
     else Some (r + of_nat (length (takeWhile (\<lambda>c. c \<in> set acc) xs))))"
proof (induction xs arbitrary: s r)
  case Nil
  obtain q where "strchr accept (sint (0 :: u8)) m = Some q" "q \<noteq> 0" using strchr_nonnull [OF assms, of 0] by auto
  with Nil show ?case by (subst strspn_loop.simps) simp
next
  case (Cons x xs)
  obtain q where "strchr accept (sint x) m = Some q" "q = 0 \<longleftrightarrow> x \<notin> set acc \<and> x \<noteq> 0" using strchr_nonnull [OF assms] by blast
  with Cons show ?case by (subst strspn_loop.simps) (auto simp: algebra_simps)
qed

lemma strcspn_str:
  assumes "str_at m reject rej"
  shows "str_at m s xs \<Longrightarrow> strcspn_loop s r reject m = Some (r + of_nat (length (takeWhile (\<lambda>c. c \<notin> set rej) xs)))"
proof (induction xs arbitrary: s r)
  case Nil
  obtain q where "strchr reject (sint (0 :: u8)) m = Some q" "q \<noteq> 0" using strchr_nonnull [OF assms, of 0] by auto
  with Nil show ?case by (subst strcspn_loop.simps) simp
next
  case (Cons x xs)
  obtain q where "strchr reject (sint x) m = Some q" "q = 0 \<longleftrightarrow> x \<notin> set rej \<and> x \<noteq> 0" using strchr_nonnull [OF assms] by blast
  with Cons show ?case by (subst strcspn_loop.simps) (auto simp: algebra_simps)
qed

lemma word_pred_less:
  fixes x n :: u64
  assumes "x \<noteq> 0" and "n \<noteq> 0"
  shows "x - 1 < n - 1 \<longleftrightarrow> x < n"
proof -
  have "0 < unat x" "0 < unat n" using assms by (simp_all add: unat_gt_0)
  then show ?thesis using assms by (auto simp: word_less_nat_alt unat_minus_one)
qed

lemma stpncpy_pad_eq: "stpncpy_pad d n m = (d + n, \<lambda>a. if a - d < n then 0 else m a)"
proof (induction d n m rule: stpncpy_pad.induct)
  case (1 d n m)
  show ?case
  proof (cases "0 < n")
    case True
    have eqv: "(a - (d + 1) < n - 1 \<or> a = d) \<longleftrightarrow> a - d < n" for a
    proof (cases "a = d")
      case False
      then have "a - d \<noteq> 0" by simp
      then have "a - d - 1 < n - 1 \<longleftrightarrow> a - d < n" using True by (intro word_pred_less) auto
      then show ?thesis using False by (simp add: algebra_simps)
    qed (use True in simp)
    have "(\<lambda>a. if a - (d + 1) < n - 1 then 0 else (m(d := 0)) a) = (\<lambda>a. if a - d < n then 0 else m a)"
    proof
      fix a show "(if a - (d + 1) < n - 1 then 0 else (m(d := 0)) a) = (if a - d < n then 0 else m a)"
        using eqv [of a] by auto
    qed
    then show ?thesis using 1 [OF True] True by (subst stpncpy_pad.simps) (simp del: fun_upd_apply)
  next
    case False
    then have "n = 0" by (simp add: word_less_nat_alt unat_eq_zero)
    then show ?thesis by (subst stpncpy_pad.simps) simp
  qed
qed

lemma stpncpy_copy_unterminated:
  "(\<And>i. i < n \<Longrightarrow> m (src + i) \<noteq> 0) \<Longrightarrow> (\<And>i j. i < n \<Longrightarrow> j < n \<Longrightarrow> dest + i \<noteq> src + j) \<Longrightarrow>
     \<exists>m'. stpncpy_copy dest src n m = (dest + n, - 1, m')"
proof (induction dest src n m rule: stpncpy_copy.induct)
  case (1 dest src n m)
  show ?case
  proof (cases "0 < n")
    case True
    let ?m = "m(dest := m src)"
    have nz: "m src \<noteq> 0" using 1(2) [of 0] True by simp
    have up: "i + 1 < n" if "i < n - 1" for i
    proof -
      have "n \<noteq> 0" "0 < unat n" using True by (auto simp: word_less_nat_alt)
      then have "unat (n - 1) = unat n - 1" "0 < unat n" by (simp_all add: unat_minus_one)
      then show ?thesis using that unat_plus1_less [OF that] by (simp add: word_less_nat_alt)
    qed
    have "?m (src + 1 + i) \<noteq> 0" if "i < n - 1" for i
      using 1(2) [OF up [OF that]] nz by (simp add: algebra_simps)
    moreover have "dest + 1 + i \<noteq> src + 1 + j" if "i < n - 1" "j < n - 1" for i j
      using 1(3) [OF up [OF that(1)] up [OF that(2)]] by (simp add: algebra_simps)
    ultimately have "\<exists>m'. stpncpy_copy (dest + 1) (src + 1) (n - 1) ?m = (dest + 1 + (n - 1), - 1, m')"
      by (rule 1(1) [OF True nz])
    then show ?thesis using True nz by (subst stpncpy_copy.simps) simp
  next
    case False
    then have "n = 0" by (simp add: word_less_nat_alt unat_eq_zero)
    then show ?thesis by (subst stpncpy_copy.simps) simp
  qed
qed

section \<open>Properties\<close>

text \<open>A memory that holds the two given strings, each with its terminator, at addresses 16 and 64.\<close>

definition two_strings :: "u8 list \<Rightarrow> u8 list \<Rightarrow> mem" where
  "two_strings xs ys a =
     (if a \<ge> 16 \<and> unat a - 16 < length xs then xs ! (unat a - 16)
      else if a \<ge> 64 \<and> unat a - 64 < length ys then ys ! (unat a - 64) else 0)"

text \<open>C21. \<open>strtok\<close> splits a string. Calling it with the string and then with the null pointer until it returns null
  takes one call more than there are tokens; the pointers returned are C strings, and together they
  are the maximal runs of characters without a delimiter, in order.\<close>

theorem strtok_tokenises:
  assumes "str_at m str xs" and "str_at m d ds" and "apart_strs str (length xs) d (length ds)"
  shows "\<exists>ps m'. strtok_run (Suc (length (tokens (set ds) xs))) str d n0 m = Some (ps, m') \<and>
    list_all2 (str_at m') ps (tokens (set ds) xs)"
proof -
  have "str = (if str \<noteq> 0 then str else n0)" using assms(1) by (auto simp: str_at_def dest: spec [of _ 0])
  from strtok_run_tokens [OF assms this] show ?thesis by blast
qed

theorem strtok_tokenises_witness:
  "\<exists>ps m'. strtok_run 3 16 64 0 (two_strings [44, 97, 98, 44, 44, 99] [44]) = Some (ps, m') \<and>
     list_all2 (str_at m') ps [[97, 98], [99]]"
proof -
  have s: "str_at (two_strings [44, 97, 98, 44, 44, 99] [44]) 16 [44, 97, 98, 44, 44, 99]" by (simp add: two_strings_def)
  have d: "str_at (two_strings [44, 97, 98, 44, 44, 99] [44]) 64 [44]" by (simp add: two_strings_def)
  have "apart_strs 16 6 64 1" using apart_strs_below [of 16 6 64 1] by simp
  moreover have "tokens (set [44]) [44, 97, 98, 44, 44, 99 :: u8] = [[97, 98], [99]]" by (simp add: tokens_def)
  ultimately show ?thesis using strtok_tokenises [OF s d, of 0] by (simp add: eval_nat_numeral)
qed

text \<open>\<open>strstr\<close> finds the first occurrence. It returns the address of the first position of the haystack at
  which the needle occurs, and null when there is none; positions are those of the characters, so an
  empty needle is not found in an empty haystack.\<close>

theorem strstr_first:
  assumes "str_at m h xs" and "cstr m nd ys"
  shows "strstr h nd m = Some (if \<exists>i < length xs. take (length ys) (drop i xs) = ys
      then h + of_nat (LEAST i. take (length ys) (drop i xs) = ys) else 0)"
  using strlen_cstr [OF assms(2)] strstr_loop_str [OF assms(2,1)]
  by (simp add: strstr_def libc_strlen_def strlen_def)

theorem strstr_first_witness:
  "strstr 16 64 (two_strings [97, 98, 97, 99] [97, 99]) = Some 18 \<and> strstr 16 64 (two_strings [] []) = Some 0"
proof -
  have l: "(LEAST i. take 2 (drop i [97, 98, 97, 99 :: u8]) = [97, 99]) = 2"
  proof (rule Least_equality)
    fix y assume y: "take 2 (drop y [97, 98, 97, 99 :: u8]) = [97, 99]"
    then have "y \<noteq> 0" "y \<noteq> 1" by (intro notI; simp)+
    then show "2 \<le> y" by simp
  qed simp
  let ?m = "two_strings [97, 98, 97, 99] [97, 99]"
  have "str_at ?m 16 [97, 98, 97, 99]" "cstr ?m 64 [97, 99]" by (simp_all add: two_strings_def)
  note * = strstr_first [OF this]
  have ex: "\<exists>i < length [97, 98, 97, 99 :: u8]. take (length [97, 99 :: u8]) (drop i [97, 98, 97, 99 :: u8]) = [97, 99]"
    by (rule exI [of _ 2]) simp
  have "str_at (two_strings [] []) 16 []" "cstr (two_strings [] []) 64 []" by (simp_all add: two_strings_def)
  from strstr_first [OF this] have "strstr 16 64 (two_strings [] []) = Some 0" by simp
  moreover have "strstr 16 64 ?m = Some 18" unfolding * if_P [OF ex] using l by (simp add: numeral_2_eq_2)
  ultimately show ?thesis by blast
qed

text \<open>\<open>strspn\<close> does not stop at the end of a string. When some character of the string is not accepted the result
  is the length of the accepted prefix; when all are accepted the scan goes on behind the terminator,
  because \<open>strchr\<close> finds the terminator of the accepted set.\<close>

theorem strspn_passes_terminator:
  assumes "str_at m s xs" and "str_at m accept acc"
  shows "strspn s accept m =
    (if set xs \<subseteq> set acc then strspn_loop (s + of_nat (length xs) + 1) (of_nat (length xs) + 1) accept m
     else Some (of_nat (length (takeWhile (\<lambda>c. c \<in> set acc) xs))))"
  using strspn_loop_str [OF assms(2,1), of 0] by (simp add: strspn_def)

theorem strspn_passes_terminator_witness:
  "strspn 16 64 (two_strings [97, 98] [97]) = Some 1 \<and>
   strspn 16 64 (two_strings [97] [97]) = strspn_loop 18 2 64 (two_strings [97] [97])"
  using strspn_passes_terminator [of "two_strings [97, 98] [97]" 16 "[97, 98]" 64 "[97]"]
    strspn_passes_terminator [of "two_strings [97] [97]" 16 "[97]" 64 "[97]"]
  by (simp add: two_strings_def)

text \<open>\<open>stpncpy\<close> clears the memory when the source does not end within the bound. The counter wraps when the copying
  loop runs out, and the padding loop then writes a zero to every address but the last one copied to.\<close>

theorem stpncpy_unterminated_clears_memory:
  assumes "\<And>i. i < n \<Longrightarrow> m (src + i) \<noteq> 0" and "no_overlap dest src n" and "a \<noteq> dest + n - 1"
  shows "snd (stpncpy dest src n m) a = 0"
proof -
  obtain m' where c: "stpncpy_copy dest src n m = (dest + n, - 1, m')"
    using stpncpy_copy_unterminated [of n m src dest] assms(1,2) by (auto simp: no_overlap_def)
  have "a - (dest + n) \<noteq> - 1" using assms(3) by (simp add: diff_eq_eq)
  then have "a - (dest + n) < - 1" by (metis word_order.not_eq_extremum)
  then show ?thesis by (simp add: stpncpy_def c stpncpy_pad_eq)
qed

theorem stpncpy_unterminated_clears_memory_witness:
  "snd (stpncpy 64 16 2 (two_strings [97, 98] [])) 1000 = 0 \<and> snd (stpncpy 64 16 2 (\<lambda>_. 7)) 1000 = 0"
proof -
  have i: "i < (2 :: u64) \<Longrightarrow> i = 0 \<or> i = 1" for i by unat_arith
  have "no_overlap 64 16 2" unfolding no_overlap_def
  proof (intro allI impI)
    fix j k :: u64 assume "j < 2 \<and> k < 2"
    then have "(j = 0 \<or> j = 1) \<and> (k = 0 \<or> k = 1)" using i by blast
    then show "64 + j \<noteq> 16 + k" by (elim conjE disjE) simp_all
  qed
  moreover have "two_strings [97, 98] [] (16 + i) \<noteq> 0" if "i < 2" for i
    using i [OF that] by (elim disjE) (simp_all add: two_strings_def)
  ultimately show ?thesis
    using stpncpy_unterminated_clears_memory [of 2 "two_strings [97, 98] []" 16 64 1000]
      stpncpy_unterminated_clears_memory [of 2 "\<lambda>_. 7" 16 64 1000] by simp
qed

end
