(* ===== verification/Libc_Stdlib.thy ===== *)
theory Libc_Stdlib
  imports Libc_String "HOL-Library.Multiset"
begin

text \<open>
  Number parsing, sorting and the small routines of the C library (\<open>custom_libc/strtol.c\<close>, \<open>qsort.c\<close>,
  \<open>stdlib.c\<close>). \<open>long\<close> and \<open>long long\<close> are 64 bits wide; a \<open>long\<close> result is given as the 64-bit word that
  holds it, to be read by \<open>sint\<close>. \<open>qsort\<close> moves whole elements, so its array is a list of elements and the
  comparison function a function of their contents.
\<close>

section \<open>\<open>strtol.c\<close>\<close>

definition digit_value :: "u8 \<Rightarrow> int" where
  "digit_value c =
     (let c = libc_tolower (sint c) in
      if c \<ge> 48 \<and> c \<le> 57 then c - 48
      else if c \<ge> 97 \<and> c \<le> 122 then c - 97 + 10
      else -1)"

record StrToResult =
  sr_overflow :: bool
  sr_sign :: bool
  sr_magnitude :: u64

abbreviation ULONG_MAX :: u64 where "ULONG_MAX \<equiv> - 1"
abbreviation LONG_MAX :: u64 where "LONG_MAX \<equiv> 0x7FFFFFFFFFFFFFFF"
abbreviation LONG_MIN :: u64 where "LONG_MIN \<equiv> 0x8000000000000000"
abbreviation EINVAL :: int where "EINVAL \<equiv> 22"
abbreviation ERANGE :: int where "ERANGE \<equiv> 34"

partial_function (option) skip_spaces :: "u64 \<Rightarrow> mem \<Rightarrow> u64 option" where
  "skip_spaces current m = (if isspace (sint (m current)) then skip_spaces (current + 1) m else Some current)"

definition eat_sign :: "u64 \<Rightarrow> mem \<Rightarrow> bool \<times> u64" where
  "eat_sign current m =
     (if m current = 43 then (False, current + 1)
      else if m current = 45 then (True, current + 1)
      else (False, current))"

definition default_base :: "int \<Rightarrow> u64 \<Rightarrow> mem \<Rightarrow> int \<times> u64" where
  "default_base base current m =
     (if base = 0 then
        (if m current = 48 \<and> libc_tolower (sint (m (current + 1))) = 120 then (16, current + 2)
         else if m current = 48 then (8, current)
         else (10, current))
      else (base, current))"

definition add_digit :: "int \<Rightarrow> int \<Rightarrow> StrToResult \<Rightarrow> StrToResult" where
  "add_digit base d r =
     (if sr_overflow r then r
      else if sr_magnitude r > (ULONG_MAX - of_int d) div of_int base then r\<lparr>sr_overflow := True\<rparr>
      else r\<lparr>sr_magnitude := sr_magnitude r * of_int base + of_int d\<rparr>)"

partial_function (option) digits_loop :: "u64 \<Rightarrow> int \<Rightarrow> StrToResult \<Rightarrow> mem \<Rightarrow> (u64 \<times> StrToResult) option" where
  "digits_loop current base r m =
     (if m current \<noteq> 0 then
        (let d = digit_value (m current) in
         if d < 0 \<or> d \<ge> base then Some (current + 1, r)
         else digits_loop (current + 1) base (add_digit base d r) m)
      else Some (current, r))"

text \<open>The second component is what is stored through \<open>endptr\<close>.\<close>

definition strto :: "u64 \<Rightarrow> int \<Rightarrow> mem \<Rightarrow> (StrToResult \<times> u64) option" where
  "strto nptr base m =
     (case skip_spaces nptr m of None \<Rightarrow> None | Some c1 \<Rightarrow>
        (let (sign, c2) = eat_sign c1 m; (b, c3) = default_base base c2 m in
         case digits_loop c3 b \<lparr>sr_overflow = False, sr_sign = sign, sr_magnitude = 0\<rparr> m of
           None \<Rightarrow> None
         | Some (c4, r) \<Rightarrow> Some (r, if c4 = c3 then nptr else c4)))"

text \<open>The results: the value, the new \<open>errno\<close> if it is set, and the pointer stored through \<open>endptr\<close>, if one is.\<close>

definition strtol :: "u64 \<Rightarrow> int \<Rightarrow> mem \<Rightarrow> (u64 \<times> int option \<times> u64 option) option" where
  "strtol nptr base m =
     (if base > 36 then Some (0, Some EINVAL, None)
      else case strto nptr base m of None \<Rightarrow> None | Some (r, e) \<Rightarrow>
        Some (if sr_sign r then
                (if sr_magnitude r > LONG_MAX + 1 \<or> sr_overflow r then (LONG_MIN, Some ERANGE, Some e)
                 else (- sr_magnitude r, None, Some e))
              else
                (if sr_magnitude r > LONG_MAX \<or> sr_overflow r then (LONG_MAX, Some ERANGE, Some e)
                 else (sr_magnitude r, None, Some e))))"

definition strtoll :: "u64 \<Rightarrow> int \<Rightarrow> mem \<Rightarrow> (u64 \<times> int option \<times> u64 option) option" where
  "strtoll nptr base m = strtol nptr base m"

definition strtoul :: "u64 \<Rightarrow> int \<Rightarrow> mem \<Rightarrow> (u64 \<times> int option \<times> u64 option) option" where
  "strtoul nptr base m =
     (if base > 36 then Some (0, Some EINVAL, None)
      else case strto nptr base m of None \<Rightarrow> None | Some (r, e) \<Rightarrow>
        Some (if sr_sign r then
                (if sr_overflow r then (ULONG_MAX, Some ERANGE, Some e) else (- sr_magnitude r, None, Some e))
              else
                (if sr_overflow r then (ULONG_MAX, Some ERANGE, Some e) else (sr_magnitude r, None, Some e))))"

definition strtoull :: "u64 \<Rightarrow> int \<Rightarrow> mem \<Rightarrow> (u64 \<times> int option \<times> u64 option) option" where
  "strtoull nptr base m = strtoul nptr base m"

section \<open>\<open>qsort.c\<close>\<close>

text \<open>The inner loop, from \<open>j\<close> downwards, and the copy of \<open>tmp\<close> that follows it.\<close>

fun qsort_insert :: "('a \<Rightarrow> 'a \<Rightarrow> int) \<Rightarrow> nat \<Rightarrow> 'a \<Rightarrow> 'a list \<Rightarrow> 'a list" where
  "qsort_insert compar 0 tmp arr = arr[0 := tmp]"
| "qsort_insert compar (Suc j) tmp arr =
     (if compar (arr ! j) tmp > 0 then qsort_insert compar j tmp (arr[Suc j := arr ! j])
      else arr[Suc j := tmp])"

definition qsort :: "('a \<Rightarrow> 'a \<Rightarrow> int) \<Rightarrow> 'a list \<Rightarrow> 'a list" where
  "qsort compar arr = fold (\<lambda>i arr. qsort_insert compar i (arr ! i) arr) [1..<length arr] arr"

section \<open>\<open>stdlib.c\<close>\<close>

text \<open>\<open>alloc\<close> is \<open>malloc\<close> on the allocator's state: the address it returns and the new state.\<close>

definition calloc :: "(u64 \<Rightarrow> 's \<Rightarrow> u64 \<times> 's) \<Rightarrow> u64 \<Rightarrow> u64 \<Rightarrow> 's \<times> mem \<Rightarrow> u64 \<times> 's \<times> mem" where
  "calloc alloc nmemb sz = (\<lambda>(s, m).
     let (region, s') = alloc (nmemb * sz) s in
     if region = 0 then (0, s', m) else (region, s', snd (libc_memset region 0 (nmemb * sz) m)))"

definition atoi :: "u64 \<Rightarrow> mem \<Rightarrow> u32 option" where
  "atoi nptr m = map_option (\<lambda>(v, _, _). ucast v) (strtol nptr 10 m)"

text \<open>The negation of the least value of the type overflows.\<close>

definition libc_abs :: "u32 \<Rightarrow> int result" where
  "libc_abs j = (if sint j < 0 then (if sint j = - (2 ^ 31) then Inl SignedOverflow else Inr (- sint j)) else Inr (sint j))"

definition labs :: "u64 \<Rightarrow> int result" where
  "labs j = (if sint j < 0 then (if sint j = - (2 ^ 63) then Inl SignedOverflow else Inr (- sint j)) else Inr (sint j))"

definition llabs :: "u64 \<Rightarrow> int result" where
  "llabs j = (if sint j < 0 then (if sint j = - (2 ^ 63) then Inl SignedOverflow else Inr (- sint j)) else Inr (sint j))"

text \<open>\<open>environ\<close> is the list of pointers before the null pointer that ends it.\<close>

fun getenv_loop :: "u64 list \<Rightarrow> u64 \<Rightarrow> u64 \<Rightarrow> mem \<Rightarrow> u64" where
  "getenv_loop [] name len m = 0"
| "getenv_loop (e # es) name len m =
     (if libc_strncmp e name len m = 0 \<and> m (e + len) = 61 then e + len + 1 else getenv_loop es name len m)"

definition getenv :: "u64 list \<Rightarrow> u64 \<Rightarrow> mem \<Rightarrow> u64 result option" where
  "getenv environ name m =
     (if name = 0 then Some (Inl HCF)
      else case strchr name 61 m of None \<Rightarrow> None | Some q \<Rightarrow>
        if q \<noteq> 0 then Some (Inl HCF)
        else case libc_strlen name m of None \<Rightarrow> None | Some len \<Rightarrow> Some (Inr (getenv_loop environ name len m)))"

section \<open>Sorting\<close>

text \<open>Insertion into the reversed prefix, which is how the inner loop meets it.\<close>

fun insert_desc :: "('a \<Rightarrow> 'a \<Rightarrow> int) \<Rightarrow> 'a \<Rightarrow> 'a list \<Rightarrow> 'a list" where
  "insert_desc compar x [] = [x]"
| "insert_desc compar x (y # ys) = (if compar y x > 0 then y # insert_desc compar x ys else x # y # ys)"

lemma qsort_insert_prefix:
  "qsort_insert compar (length ys) x (rev ys @ z # rest) = rev (insert_desc compar x ys) @ rest"
proof (induction ys arbitrary: z rest)
  case (Cons y ys)
  have "(rev (y # ys) @ z # rest)[Suc (length ys) := v] = rev ys @ y # v # rest" for v
    by (simp add: list_update_append)
  moreover have "(rev (y # ys) @ z # rest) ! length ys = y" by (simp add: nth_append)
  ultimately show ?case using Cons.IH [of y "y # rest"] by simp
qed simp

lemma set_insert_desc [simp]: "mset (insert_desc compar x ys) = add_mset x (mset ys)"
  by (induction ys) auto

text \<open>\<open>by_key compar key\<close>: the comparison function orders elements by the given key.\<close>

definition by_key :: "('a \<Rightarrow> 'a \<Rightarrow> int) \<Rightarrow> ('a \<Rightarrow> 'k::linorder) \<Rightarrow> bool" where
  "by_key compar key \<longleftrightarrow> (\<forall>a b. compar a b > 0 \<longleftrightarrow> key b < key a)"

lemma insert_desc_sorted:
  "by_key compar key \<Longrightarrow> sorted (rev (map key ys)) \<Longrightarrow> sorted (rev (map key (insert_desc compar x ys)))"
  by (induction ys) (auto simp: by_key_def sorted_append not_less simp flip: set_mset_mset)

lemma insert_desc_filter:
  "by_key compar key \<Longrightarrow> filter (\<lambda>a. k = key a) (insert_desc compar x ys) =
     (if k = key x then x # filter (\<lambda>a. k = key a) ys else filter (\<lambda>a. k = key a) ys)"
  by (induction ys) (auto simp: by_key_def)

definition sorted_part :: "('a \<Rightarrow> 'k::linorder) \<Rightarrow> 'a list \<Rightarrow> nat \<Rightarrow> 'a list \<Rightarrow> bool" where
  "sorted_part key arr i res \<longleftrightarrow> (\<exists>P. res = rev P @ drop i arr \<and> mset P = mset (take i arr) \<and> sorted (rev (map key P)) \<and>
     (\<forall>k. filter (\<lambda>a. k = key a) (rev P) = filter (\<lambda>a. k = key a) (take i arr)))"

lemma sorted_part_step:
  assumes "by_key compar key" and "sorted_part key arr i res" and "i < length arr"
  shows "sorted_part key arr (Suc i) (qsort_insert compar i (res ! i) res)"
proof -
  obtain P where P: "res = rev P @ drop i arr" "mset P = mset (take i arr)" "sorted (rev (map key P))"
    "\<And>k. filter (\<lambda>a. k = key a) (rev P) = filter (\<lambda>a. k = key a) (take i arr)"
    using assms(2) by (auto simp: sorted_part_def)
  have len: "length P = i" using arg_cong [OF P(2), of size] assms(3) by simp
  have d: "drop i arr = arr ! i # drop (Suc i) arr" using assms(3) by (simp add: Cons_nth_drop_Suc)
  have x: "res ! i = arr ! i" using len d by (simp add: P(1) nth_append)
  have "qsort_insert compar i (res ! i) res = rev (insert_desc compar (arr ! i) P) @ drop (Suc i) arr"
    using qsort_insert_prefix [of compar P "arr ! i" "arr ! i" "drop (Suc i) arr"] len d x P(1) by simp
  moreover have t: "take (Suc i) arr = take i arr @ [arr ! i]" using assms(3) by (rule take_Suc_conv_app_nth)
  ultimately show ?thesis
    unfolding sorted_part_def using insert_desc_sorted [OF assms(1) P(3)] P(2,4) insert_desc_filter [OF assms(1)]
    by (intro exI [of _ "insert_desc compar (arr ! i) P"]) (auto simp: rev_filter [symmetric])
qed

lemma qsort_stable_sort:
  assumes "by_key compar key"
  shows "qsort compar arr = sort_key key arr"
proof (cases "arr = []")
  case False
  have "i \<le> length arr \<Longrightarrow> 1 \<le> i \<Longrightarrow> sorted_part key arr i (fold (\<lambda>i arr. qsort_insert compar i (arr ! i) arr) [1..<i] arr)" for i
  proof (induction i)
    case (Suc i)
    show ?case
    proof (cases "i = 0")
      case True
      then show ?thesis using False unfolding sorted_part_def
        by (intro exI [of _ "[List.hd arr]"]) (auto simp: neq_Nil_conv)
    next
      case i: False
      then show ?thesis using Suc sorted_part_step [OF assms, of arr i] by simp
    qed
  qed simp
  from this [of "length arr"] False obtain P where "qsort compar arr = rev P" "mset P = mset arr" "sorted (rev (map key P))"
    "\<And>k. filter (\<lambda>a. k = key a) (rev P) = filter (\<lambda>a. k = key a) arr"
    by (auto simp: qsort_def sorted_part_def Suc_le_eq)
  then show ?thesis by (intro sym [OF properties_for_sort_key]) (simp_all add: rev_map)
qed (simp add: qsort_def)

section \<open>Parsing numbers\<close>

text \<open>The value of a digit string, most significant digit first.\<close>

definition digits_value :: "nat \<Rightarrow> nat list \<Rightarrow> nat" where
  "digits_value b ds = foldl (\<lambda>v d. v * b + d) 0 ds"

text \<open>The state of the digit loop after the value \<open>v\<close> has been read, and what it says about \<open>v\<close>.\<close>

definition holds_value :: "StrToResult \<Rightarrow> nat \<Rightarrow> bool" where
  "holds_value r v \<longleftrightarrow> (if sr_overflow r then 2 ^ 64 \<le> v else v < 2 ^ 64 \<and> unat (sr_magnitude r) = v)"

lemma add_digit_value:
  assumes "holds_value r v" and "d < b" and "b \<le> 36"
  shows "holds_value (add_digit (int b) (int d) r) (v * b + d)" and "sr_sign (add_digit b' d' r) = sr_sign r"
proof -
  have b: "0 < b" using assms(2) by simp
  have ub: "unat (of_nat b :: u64) = b" "unat (of_nat d :: u64) = d" using assms(2,3) by (auto simp: unat_of_nat take_bit_nat_eq_self)
  have bw: "(of_int (int b) :: u64) = of_nat b" "(of_int (int d) :: u64) = of_nat d" by simp_all
  have mx: "unat (ULONG_MAX - of_nat d) = 2 ^ 64 - 1 - d"
    using ub(2) by (subst unat_sub) (simp_all add: unsigned_minus_1_eq_mask mask_eq_exp_minus_1)
  have dv: "unat ((ULONG_MAX - of_nat d) div of_nat b) = (2 ^ 64 - 1 - d) div b" by (simp add: unat_div mx ub)
  show "holds_value (add_digit (int b) (int d) r) (v * b + d)"
  proof (cases "sr_overflow r")
    case True
    then have "2 ^ 64 \<le> v" using assms(1) by (simp add: holds_value_def)
    moreover have "v \<le> v * b" using b by simp
    ultimately have "2 ^ 64 \<le> v * b + d" by linarith
    with True show ?thesis by (simp add: holds_value_def add_digit_def)
  next
    case False
    then have v: "v < 2 ^ 64" "unat (sr_magnitude r) = v" using assms(1) by (auto simp: holds_value_def)
    have big: "(2 ^ 64 - 1 - d) div b < v \<longleftrightarrow> 2 ^ 64 \<le> v * b + d"
    proof -
      have "(2 ^ 64 - 1 - d) div b < v \<longleftrightarrow> 2 ^ 64 - 1 - d < v * b" using b by (rule div_less_iff_less_mult)
      then show ?thesis using assms(2,3) by auto
    qed
    have cmp: "(ULONG_MAX - of_nat d) div of_nat b < sr_magnitude r \<longleftrightarrow> 2 ^ 64 \<le> v * b + d"
      using big by (simp add: word_less_nat_alt dv v(2))
    show ?thesis
    proof (cases "2 ^ 64 \<le> v * b + d")
      case True
      then show ?thesis using False cmp by (simp add: add_digit_def holds_value_def bw)
    next
      case small: False
      have "unat (sr_magnitude r * of_nat b + of_nat d) = v * b + d"
        using small by (simp add: unat_word_ariths ub v(2))
      then show ?thesis using False cmp small by (simp add: add_digit_def holds_value_def bw)
    qed
  qed
  show "sr_sign (add_digit b' d' r) = sr_sign r" by (simp add: add_digit_def)
qed


text \<open>\<open>digit_string b cs ds\<close>: the characters \<open>cs\<close> are digits of base \<open>b\<close> with the values \<open>ds\<close>.\<close>

definition digit_string :: "nat \<Rightarrow> u8 list \<Rightarrow> nat list \<Rightarrow> bool" where
  "digit_string b cs ds \<longleftrightarrow> map digit_value cs = map int ds \<and> (\<forall>d \<in> set ds. d < b)"

lemma foldl_digits: "foldl (\<lambda>v d. v * b + d) v ds = v * b ^ length ds + digits_value b ds"
proof (induction ds arbitrary: v)
  case (Cons d ds)
  show ?case using Cons [of "v * b + d"] Cons [of d] by (simp add: digits_value_def algebra_simps)
qed (simp add: digits_value_def)

lemma digits_loop_str:
  assumes "b \<le> 36" and "holds_value r v" and "cstr m p (cs @ rest)" and "digit_string b cs ds"
    and "rest \<noteq> [] \<Longrightarrow> digit_value (List.hd rest) < 0 \<or> int b \<le> digit_value (List.hd rest)"
  shows "\<exists>r'. digits_loop p (int b) r m = Some (p + of_nat (length cs) + (if rest = [] then 0 else 1), r') \<and>
    holds_value r' (foldl (\<lambda>v d. v * b + d) v ds) \<and> sr_sign r' = sr_sign r"
  using assms(2-)
proof (induction cs arbitrary: p r v ds)
  case Nil
  then show ?case by (cases rest) (auto simp: digits_loop.simps digit_string_def)
next
  case (Cons c cs)
  obtain d ds' where ds: "ds = d # ds'" "digit_value c = int d" "d < b" "digit_string b cs ds'"
    using Cons.prems(3) by (auto simp: digit_string_def Cons_eq_map_conv)
  let ?r = "add_digit (int b) (int d) r"
  have r: "holds_value ?r (v * b + d)" "sr_sign ?r = sr_sign r"
    using add_digit_value [OF Cons.prems(1) ds(3) assms(1)] by auto
  have "digits_loop p (int b) r m = digits_loop (p + 1) (int b) ?r m"
    using Cons.prems(2) ds(2,3) by (subst digits_loop.simps) (auto simp: Let_def)
  moreover have "cstr m (p + 1) (cs @ rest)" using Cons.prems(2) by simp
  note Cons.IH [OF r(1) this ds(4) Cons.prems(4)]
  ultimately show ?case using r(2) ds(1) by (auto simp: add.assoc)
qed

lemma skip_spaces_str:
  "cstr m p (ws @ xs) \<Longrightarrow> \<forall>w \<in> set ws. isspace (sint w) \<Longrightarrow> xs = [] \<or> \<not> isspace (sint (List.hd xs)) \<Longrightarrow>
     skip_spaces p m = Some (p + of_nat (length ws))"
  by (induction ws arbitrary: p; subst skip_spaces.simps; cases xs) (auto simp: isspace_def algebra_simps)


definition sign_string :: "bool \<Rightarrow> u8 list \<Rightarrow> bool" where
  "sign_string neg sg \<longleftrightarrow> (if neg then sg = [45] else sg = [] \<or> sg = [43])"

text \<open>The parts of a number: white space, a sign, digits of the base, and a rest that starts with no digit.\<close>

definition number_at :: "mem \<Rightarrow> u64 \<Rightarrow> nat \<Rightarrow> u8 list \<Rightarrow> bool \<Rightarrow> u8 list \<Rightarrow> nat list \<Rightarrow> u8 list \<Rightarrow> bool" where
  "number_at m p b pre neg cs ds rest \<longleftrightarrow> (\<exists>ws sg. pre = ws @ sg \<and> cstr m p (ws @ sg @ cs @ rest) \<and>
     (\<forall>w \<in> set ws. isspace (sint w)) \<and> sign_string neg sg \<and> digit_string b cs ds \<and> cs \<noteq> [] \<and>
     (rest \<noteq> [] \<longrightarrow> digit_value (List.hd rest) < 0 \<or> int b \<le> digit_value (List.hd rest)))"

lemma cstr_drop: "cstr m p (xs @ ys) \<Longrightarrow> cstr m (p + of_nat (length xs)) ys"
  by (induction xs arbitrary: p) (simp_all flip: add.assoc)

lemma digit_not_special:
  "digit_value c \<ge> 0 \<Longrightarrow> c \<noteq> 43 \<and> c \<noteq> 45 \<and> \<not> isspace (sint c)"
  by (auto simp: digit_value_def libc_tolower_def isspace_def Let_def split: if_splits)

lemma strto_number:
  assumes n: "number_at m p b pre neg cs ds rest" and b: "2 \<le> b" "b \<le> 36"
  shows "\<exists>r. strto p (int b) m = Some (r, p + of_nat (length pre + length cs) + (if rest = [] then 0 else 1)) \<and>
    holds_value r (digits_value b ds) \<and> sr_sign r = neg"
proof -
  obtain ws sg where w: "pre = ws @ sg" "cstr m p (ws @ sg @ cs @ rest)" "\<forall>w \<in> set ws. isspace (sint w)"
    "sign_string neg sg" "digit_string b cs ds" "cs \<noteq> []"
    "rest \<noteq> [] \<longrightarrow> digit_value (List.hd rest) < 0 \<or> int b \<le> digit_value (List.hd rest)"
    using n by (auto simp: number_at_def)
  obtain c cs' where c: "cs = c # cs'" using w(6) by (cases cs) auto
  have cd: "c \<noteq> 43" "c \<noteq> 45" "\<not> isspace (sint c)"
    using w(5) digit_not_special [of c] by (auto simp: c digit_string_def Cons_eq_map_conv)
  have "skip_spaces p m = Some (p + of_nat (length ws))"
    using skip_spaces_str [OF w(2,3)] w(4) cd c by (auto simp: sign_string_def isspace_def split: if_splits)
  moreover let ?c1 = "p + of_nat (length ws)"
  have c1: "cstr m ?c1 (sg @ cs @ rest)" using cstr_drop [OF w(2)] .
  have "eat_sign ?c1 m = (neg, ?c1 + of_nat (length sg))"
    using c1 w(4) cd c by (auto simp: sign_string_def eat_sign_def split: if_splits)
  moreover let ?c3 = "?c1 + of_nat (length sg)"
  have c3: "cstr m ?c3 (cs @ rest)" using cstr_drop [OF c1] .
  have "default_base (int b) ?c3 m = (int b, ?c3)" using b by (simp add: default_base_def)
  moreover obtain r where r: "digits_loop ?c3 (int b) \<lparr>sr_overflow = False, sr_sign = neg, sr_magnitude = 0\<rparr> m =
      Some (?c3 + of_nat (length cs) + (if rest = [] then 0 else 1), r)"
    "holds_value r (digits_value b ds)" "sr_sign r = neg"
    using digits_loop_str [OF b(2) _ c3 w(5), of "\<lparr>sr_overflow = False, sr_sign = neg, sr_magnitude = 0\<rparr>" 0] w(7)
    by (auto simp: holds_value_def digits_value_def)
  moreover have "?c3 + of_nat (length cs) + (if rest = [] then 0 else 1) \<noteq> ?c3"
  proof -
    have "0 < length cs + (if rest = [] then 0 else 1)" "length cs + (if rest = [] then 0 else 1) < 2 ^ 64"
      using cstr_length [OF c3] c by (auto simp: neq_Nil_conv)
    then have "of_nat (length cs + (if rest = [] then 0 else 1)) \<noteq> (0 :: u64)"
      by (simp add: word_unat_eq_iff unat_of_nat take_bit_nat_eq_self del: of_nat_add)
    then show ?thesis by (auto simp: add.assoc split: if_splits)
  qed
  ultimately show ?thesis using w(1) by (auto simp: strto_def add.assoc)
qed

section \<open>Properties\<close>

lemma sint_word_of_int: "- (2 ^ 63) \<le> k \<Longrightarrow> k < 2 ^ 63 \<Longrightarrow> sint (word_of_int k :: u64) = k"
  unfolding sint_sbintrunc' by (rule signed_take_bit_int_eq_self) simp_all

text \<open>C22. \<open>strtol\<close> reads the number and clamps it. On white space, an optional sign and digits of a base from 2 to 36,
  whatever follows, the result is the value of the digits with the sign, cut to the range of \<open>long\<close>;
  \<open>errno\<close> is set to \<open>ERANGE\<close> exactly when the value is out of range, however many digits there are.\<close>

theorem strtol_clamps:
  assumes "number_at m p b pre neg cs ds rest" and "2 \<le> b" and "b \<le> 36"
  defines "v \<equiv> (if neg then - int (digits_value b ds) else int (digits_value b ds))"
  shows "\<exists>w err e. strtol p (int b) m = Some (w, err, e) \<and> sint w = max (- (2 ^ 63)) (min (2 ^ 63 - 1) v) \<and>
    err = (if v < - (2 ^ 63) \<or> 2 ^ 63 - 1 < v then Some ERANGE else None)"
proof -
  obtain r where r: "\<exists>e. strto p (int b) m = Some (r, e)" "holds_value r (digits_value b ds)" "sr_sign r = neg"
    using strto_number [OF assms(1-3)] by blast
  let ?n = "digits_value b ds" let ?w = "sr_magnitude r"
  have o: "sr_overflow r \<Longrightarrow> 2 ^ 64 \<le> ?n" "\<not> sr_overflow r \<Longrightarrow> unat ?w = ?n" using r(2) by (auto simp: holds_value_def split: if_splits)
  have neg: "?w > LONG_MAX + 1 \<longleftrightarrow> 2 ^ 63 < ?n" and pos: "?w > LONG_MAX \<longleftrightarrow> 2 ^ 63 \<le> ?n" if "\<not> sr_overflow r"
    using o(2) [OF that] by (auto simp: word_less_nat_alt)
  have w: "?w = word_of_int (int ?n)" if "\<not> sr_overflow r" 
    using o(2) [OF that] unsigned_less [of ?w, where ?'a = nat] by (auto simp: word_unat_eq_iff unat_of_nat take_bit_nat_eq_self)
  have lim: "sint LONG_MIN = - (2 ^ 63)" "sint LONG_MAX = 2 ^ 63 - 1" by simp_all
  show ?thesis
  proof (cases neg)
    case True
    show ?thesis
    proof (cases "sr_overflow r \<or> 2 ^ 63 < ?n")
      case big: True
      then have "2 ^ 63 < ?n" using o(1) by auto
      then have "v < - (2 ^ 63)" using True by (simp add: v_def)
      then show ?thesis using r big True neg assms(3) lim by (auto simp: strtol_def)
    next
      case small: False
      then have "sint (- ?w) = v" using w True sint_word_of_int [of v] by (simp add: v_def)
      then show ?thesis using r small True neg assms(3) by (auto simp: strtol_def v_def)
    qed
  next
    case False
    show ?thesis
    proof (cases "sr_overflow r \<or> 2 ^ 63 \<le> ?n")
      case big: True
      then have "2 ^ 63 \<le> ?n" using o(1) by auto
      then have "2 ^ 63 - 1 < v" using False by (simp add: v_def)
      then show ?thesis using r big False pos assms(3) lim by (auto simp: strtol_def)
    next
      case small: False
      then have "sint ?w = v" using w False sint_word_of_int [of v] by (simp add: v_def)
      then show ?thesis using r small False pos assms(3) by (auto simp: strtol_def v_def)
    qed
  qed
qed

lemma number_example: "number_at (two_strings [32, 45, 49, 50, 97, 98] []) 16 10 [32, 45] True [49, 50] [1, 2] [97, 98]"
  unfolding number_at_def
  by (intro exI [of _ "[32]"] exI [of _ "[45]"])
     (simp add: two_strings_def isspace_def sign_string_def digit_string_def digit_value_def libc_tolower_def)

theorem strtol_clamps_witness:
  "\<exists>w err e. strtol 16 10 (two_strings [32, 45, 49, 50, 97, 98] []) = Some (w, err, e) \<and> sint w = -12 \<and> err = None"
  using strtol_clamps [OF number_example] by (simp add: digits_value_def)

text \<open>The end pointer is one too far. When the digits are followed by something else, the pointer that \<open>strtol\<close> stores
  through \<open>endptr\<close> is the address after the first character that is not a digit.\<close>

theorem strtol_endptr_skips_a_character:
  assumes "number_at m p b pre neg cs ds rest" and "2 \<le> b" and "b \<le> 36"
  shows "\<exists>w err. strtol p (int b) m = Some (w, err, Some (p + of_nat (length pre + length cs) + (if rest = [] then 0 else 1)))"
  using strto_number [OF assms] assms(3) by (auto simp: strtol_def)

theorem strtol_endptr_skips_a_character_witness:
  "\<exists>w err. strtol 16 10 (two_strings [32, 45, 49, 50, 97, 98] []) = Some (w, err, Some 21)"
  using strtol_endptr_skips_a_character [OF number_example] by simp

text \<open>C23. \<open>qsort\<close> is a stable sort. For a comparison function that orders the elements by some key, the result is the
  stable sort by that key of the library: a permutation in ascending order in which elements with the
  same key keep their order, although the C standard does not ask for that.\<close>

theorem qsort_is_stable_sort:
  fixes key :: "'a \<Rightarrow> 'k::linorder"
  assumes "\<And>a b. compar a b > 0 \<longleftrightarrow> key b < key a"
  shows "qsort compar arr = sort_key key arr"
  using qsort_stable_sort [of compar key] assms by (simp add: by_key_def)

theorem qsort_is_stable_sort_witness:
  "qsort (\<lambda>a b. a - b) [3, 1, 2 :: int] = [1, 2, 3]"
  using qsort_is_stable_sort [of "\<lambda>a b. a - b" "\<lambda>x. x" "[3, 1, 2 :: int]"] by simp

end
