(* ===== verification/Libc_Wide.thy ===== *)
theory Libc_Wide
  imports Libc_String
begin

text \<open>
  Multibyte characters of the C library (\<open>custom_libc/wchar.c\<close>, \<open>wctype.c\<close>): the restartable UTF-8 decoder \<open>mbrtowc\<close>, the
  conversion of strings \<open>mbsrtowcs\<close>, and the classification of wide characters. The tables of musl (\<open>alpha.h\<close>, \<open>punct.h\<close>,
  \<open>casemap.h\<close>) are arguments of the functions that look characters up in them.

  A call of the decoder returns the value of the C function, the character that it stores through \<open>output\<close> (if any), the new
  \<open>mbstate_t\<close>, and whether it sets \<open>errno\<close> to \<open>EILSEQ\<close>. Where the caller passes no state the code uses a static one; here the
  state is always an argument. The destination of \<open>mbsrtowcs\<close> is the list of characters written to it.
\<close>

section \<open>Decoding one character\<close>

record mbstate =
  mb_buffer :: u32
  mb_expected_length :: u32
  mb_expected_remaining_bytes :: u32

definition initial_mbstate :: mbstate where
  "initial_mbstate = \<lparr>mb_buffer = 0, mb_expected_length = 0, mb_expected_remaining_bytes = 0\<rparr>"

definition bad_character :: "mbstate \<Rightarrow> bool" where
  "bad_character s = (let b = sint (mb_buffer s) in
     if mb_expected_length s = 1 then b > 0x7F
     else if mb_expected_length s = 2 then b < 0x80 \<or> b > 0x7FF
     else if mb_expected_length s = 3 then b < 0x800 \<or> b > 0xFFFF
     else if mb_expected_length s = 4 then b < 0x10000 \<or> b > 0x10FFFF
     else True)"

lemma unat_pred_less: "0 < w \<Longrightarrow> unat (w - 1) < unat (w :: u32)"
  by (cases "w = 0") (auto simp: unat_minus_one unat_gt_0)

text \<open>The loop of \<open>handle_continuation_bytes\<close>, with its index.\<close>

function continuation_loop :: "mem \<Rightarrow> u64 \<Rightarrow> u64 \<Rightarrow> u64 \<Rightarrow> mbstate \<Rightarrow> u64 \<times> u32 option \<times> mbstate \<times> bool" where
  "continuation_loop m input input_bytes i s =
     (if i < input_bytes \<and> mb_expected_remaining_bytes s > 0 then
        let next = m (input + i) in
        if next AND 0xC0 \<noteq> 0x80 then (-1, None, s, True)
        else
          let s' = s\<lparr>mb_buffer := push_bit 6 (mb_buffer s) OR ucast (next AND 0x3F),
                     mb_expected_remaining_bytes := mb_expected_remaining_bytes s - 1\<rparr> in
          if mb_expected_remaining_bytes s' = 0
          then if bad_character s' then (-1, None, s', True) else (i + 1, Some (mb_buffer s'), s', False)
          else continuation_loop m input input_bytes (i + 1) s'
      else (-2, None, s, False))"
  by pat_completeness auto
termination
  by (relation "measure (\<lambda>(m, input, n, i, s). unat (mb_expected_remaining_bytes s))") (auto simp: Let_def intro: unat_pred_less)

declare continuation_loop.simps [simp del]

definition handle_continuation_bytes :: "mem \<Rightarrow> u64 \<Rightarrow> u64 \<Rightarrow> mbstate \<Rightarrow> u64 \<times> u32 option \<times> mbstate \<times> bool" where
  "handle_continuation_bytes m input input_bytes s = continuation_loop m input input_bytes 0 s"

text \<open>The number of leading ones of a byte.\<close>

function leading_ones :: "u8 \<Rightarrow> nat \<Rightarrow> nat" where
  "leading_ones next count = (if next AND drop_bit count 0x80 \<noteq> 0 then leading_ones next (count + 1) else count)"
  by pat_completeness auto
termination
proof (relation "measure (\<lambda>(next, count). 8 - count)")
  fix "next" :: u8 and count :: nat
  assume a: "next AND drop_bit count 0x80 \<noteq> 0"
  have "count < 8"
  proof (rule ccontr)
    assume "\<not> count < 8"
    then have "drop_bit count (0x80 :: u8) = 0" by (intro bit_word_eqI) (auto simp: bit_simps dest: bit_imp_le_length)
    with a show False by simp
  qed
  then show "((next, count + 1), (next, count)) \<in> measure (\<lambda>(next, count). 8 - count)" by simp
qed simp

declare leading_ones.simps [simp del]

definition mbrtowc :: "mem \<Rightarrow> u64 \<Rightarrow> u64 \<Rightarrow> mbstate \<Rightarrow> u64 \<times> u32 option \<times> mbstate \<times> bool" where
  "mbrtowc m input input_bytes s =
     (if input = 0 then
        if mb_expected_remaining_bytes s = 0 then (0, None, initial_mbstate, False) else (-1, None, s, True)
      else if input_bytes = 0 then (-2, None, s, False)
      else if mb_expected_remaining_bytes s > 0 then handle_continuation_bytes m input input_bytes s
      else
        let next = m input in
        if next AND 0x80 \<noteq> 0 then
          let count = leading_ones next 0 in
          if count < 2 \<or> count > 4 then (-1, None, initial_mbstate, True)
          else
            let s' = \<lparr>mb_buffer = ucast (next AND (drop_bit count 0x80 - 1)), mb_expected_length = of_nat count,
                      mb_expected_remaining_bytes = of_nat (count - 1)\<rparr>;
                (rem, out, s'', e) = handle_continuation_bytes m (input + 1) (input_bytes - 1) s'
            in (if sint rem > 0 then rem + 1 else rem, out, s'', e)
        else (if next \<noteq> 0 then 1 else 0, Some (ucast next), s, False))"

definition mbrlen :: "mem \<Rightarrow> u64 \<Rightarrow> u64 \<Rightarrow> mbstate \<Rightarrow> u64 \<times> mbstate \<times> bool" where
  "mbrlen m input n s = (let (r, out, s', e) = mbrtowc m input n s in (r, s', e))"

section \<open>Converting strings\<close>

text \<open>What \<open>mbsrtowcs\<close> does: it returns a value, the characters it has written, the new \<open>*src\<close>, the state and whether it has
  set \<open>errno\<close>; or it calls \<open>abort\<close>.\<close>

datatype mbs_outcome = Returned u64 "u32 list" u64 mbstate bool | Aborted

function mbsrtowcs_loop :: "mem \<Rightarrow> bool \<Rightarrow> u64 \<Rightarrow> u64 \<Rightarrow> u64 \<Rightarrow> u64 \<Rightarrow> u32 list \<Rightarrow> mbstate \<Rightarrow> mbs_outcome" where
  "mbsrtowcs_loop m has_dest src len i ptr out s =
     (if i < len then
        let (res, w, s', e) = mbrtowc m ptr (-1) s;
            out' = (if has_dest then out @ (case w of None \<Rightarrow> [] | Some c \<Rightarrow> [c]) else out) in
        if res = -1 then Returned (-1) out' ptr initial_mbstate True
        else if res = -2 then Aborted
        else if res = 0 then Returned i out' (if has_dest then 0 else src) s' e
        else mbsrtowcs_loop m has_dest src len (i + 1) (ptr + res) out' s'
      else Returned len out (if has_dest then ptr else src) s False)"
  by pat_completeness auto
termination
proof (relation "measure (\<lambda>(m, has_dest, src, len, i, ptr, out, s). unat len - unat i)")
  fix i len :: u64 assume "i < len"
  then have "unat (i + 1) = Suc (unat i)" "unat i < unat len" by (rule unat_plus1_less, simp add: word_less_nat_alt)
  then show "((m, b, src, len, i + 1, ptr + res, out', s'), m, b, src, len, i, ptr, out, s) \<in> measure (\<lambda>(m, has_dest, src, len, i, ptr, out, s). unat len - unat i)"
    for m b src ptr res out' s' out s by simp
qed simp

declare mbsrtowcs_loop.simps [simp del]

definition mbsrtowcs :: "mem \<Rightarrow> bool \<Rightarrow> u64 \<Rightarrow> u64 \<Rightarrow> mbstate \<Rightarrow> mbs_outcome" where
  "mbsrtowcs m has_dest src len s = mbsrtowcs_loop m has_dest src (if has_dest then len else -1) 0 src [] s"

section \<open>Wide strings\<close>

text \<open>Memory that holds wide characters, by the addresses of the characters.\<close>

type_synonym wmem = "u64 \<Rightarrow> u32"

partial_function (option) wcslen_loop :: "wmem \<Rightarrow> u64 \<Rightarrow> u64 \<Rightarrow> u64 option" where
  "wcslen_loop m s n = (if m s \<noteq> 0 then wcslen_loop m (s + 4) (n + 1) else Some n)"

definition wcslen :: "wmem \<Rightarrow> u64 \<Rightarrow> u64 option" where
  "wcslen m s = wcslen_loop m s 0"

partial_function (option) wcschr_loop :: "wmem \<Rightarrow> u64 \<Rightarrow> u32 \<Rightarrow> u64 option" where
  "wcschr_loop m s c = (if m s \<noteq> 0 \<and> m s \<noteq> c then wcschr_loop m (s + 4) c else Some (if m s \<noteq> 0 then s else 0))"

definition wcschr :: "wmem \<Rightarrow> u64 \<Rightarrow> u32 \<Rightarrow> u64 option" where
  "wcschr m s c = (if c = 0 then map_option (\<lambda>n. s + 4 * n) (wcslen m s) else wcschr_loop m s c)"

section \<open>Classification\<close>

definition iswblank :: "u32 \<Rightarrow> bool" where
  "iswblank wc = list_ex (\<lambda>v. wc = v) [0x9, 0x20, 0x1680, 0x180E, 0x2000, 0x2006, 0x2008, 0x200A, 0x205F, 0x3000]"

definition iswcntrl :: "u32 \<Rightarrow> bool" where
  "iswcntrl wc \<longleftrightarrow> wc < 32 \<or> wc - 0x7F < 33 \<or> wc - 0x2028 < 2 \<or> wc - 0xFFF9 < 3"

definition iswdigit :: "u32 \<Rightarrow> bool" where
  "iswdigit wc \<longleftrightarrow> wc - 48 < 10"

definition iswxdigit :: "u32 \<Rightarrow> bool" where
  "iswxdigit wc \<longleftrightarrow> wc - 48 < 10 \<or> (wc OR 32) - 97 < 6"

definition iswprint :: "u32 \<Rightarrow> bool" where
  "iswprint wc =
     (if wc < 0xFF then (wc + 1) AND 0x7F \<ge> 0x21
      else if wc < 0x2028 \<or> wc - 0x202A < 0xD800 - 0x202A \<or> wc - 0xE000 < 0xFFF9 - 0xE000 then True
      else if wc - 0xFFFC > 0x10FFFF - 0xFFFC \<or> wc AND 0xFFFE = 0xFFFE then False
      else True)"

text \<open>\<open>wcschr(spaces, wc)\<close> on the constant array.\<close>

definition iswspace :: "u32 \<Rightarrow> bool" where
  "iswspace wc \<longleftrightarrow> wc \<noteq> 0 \<and> wc \<in> set [32, 9, 10, 13, 11, 12, 0x85, 0x2000, 0x2001, 0x2002, 0x2003, 0x2004, 0x2005, 0x2006, 0x2008, 0x2009,
     0x200A, 0x2028, 0x2029, 0x205F, 0x3000]"

definition iswgraph :: "u32 \<Rightarrow> bool" where
  "iswgraph wc \<longleftrightarrow> \<not> iswspace wc \<and> iswprint wc"

text \<open>The lookups in the two-level bit tables and the case tables of musl, which are arguments here.\<close>

definition table_bit :: "(nat \<Rightarrow> u8) \<Rightarrow> u32 \<Rightarrow> bool" where
  "table_bit t wc = bit (t (unat (t (unat (drop_bit 8 wc))) * 32 + unat (drop_bit 3 (wc AND 255)))) (unat (wc AND 7))"

definition iswalpha :: "(nat \<Rightarrow> u8) \<Rightarrow> u32 \<Rightarrow> bool" where
  "iswalpha alpha_table wc = (if wc < 0x20000 then table_bit alpha_table wc else wc < 0x2FFFE)"

definition iswalnum :: "(nat \<Rightarrow> u8) \<Rightarrow> u32 \<Rightarrow> bool" where
  "iswalnum alpha_table wc \<longleftrightarrow> iswdigit wc \<or> iswalpha alpha_table wc"

definition iswpunct :: "(nat \<Rightarrow> u8) \<Rightarrow> u32 \<Rightarrow> bool" where
  "iswpunct punct_table wc \<longleftrightarrow> wc < 0x20000 \<and> table_bit punct_table wc"

record case_tables =
  ct_tab :: "nat \<Rightarrow> u8"
  ct_rulebases :: "nat \<Rightarrow> u8"
  ct_rules :: "nat \<Rightarrow> u32"
  ct_exceptions :: "nat \<Rightarrow> u8 \<times> u8"

text \<open>The binary search of \<open>casemap\<close>: the rule of the entry for \<open>c\<close>, if there is one. It may not end.\<close>

partial_function (option) casemap_search :: "case_tables \<Rightarrow> u32 \<Rightarrow> nat \<Rightarrow> nat \<Rightarrow> u8 option option" where
  "casemap_search T c xb xn =
     (if xn = 0 then Some None
      else let e = ct_exceptions T (xb + xn div 2) in
        if ucast (fst e) = c then Some (Some (snd e))
        else if ucast (fst e) > c then casemap_search T c xb (xn div 2)
        else casemap_search T c (xb + xn div 2) (xn - xn div 2))"

definition apply_rule :: "u32 \<Rightarrow> u32 \<Rightarrow> u32 \<Rightarrow> u32" where
  "apply_rule c0 r dir = c0 + (signed_drop_bit 8 r AND - ((r AND 255) XOR dir))"

definition casemap :: "case_tables \<Rightarrow> u32 \<Rightarrow> u32 \<Rightarrow> u32 option" where
  "casemap T c0 dir =
     (if c0 \<ge> 0x20000 then Some c0
      else
        let b = unat (drop_bit 8 c0); c = c0 AND 255; x = unat (c div 3); y = unat (c mod 3);
            v = unat (ct_tab T (unat (ct_tab T b) * 86 + x));
            v = (v * ([2048, 342, 57] ! y) div 2048) mod 6;
            r = ct_rules T (unat (ct_rulebases T b) + v);
            rd = signed_drop_bit 8 r
        in if r AND 255 < 2 then Some (apply_rule c0 r dir)
           else map_option (\<lambda>found. case found of
                  None \<Rightarrow> c0
                | Some rule \<Rightarrow> let r = ct_rules T (unat rule) in
                    if r AND 255 < 2 then apply_rule c0 r dir else c0 + (if dir \<noteq> 0 then -1 else 1))
                (casemap_search T c (unat (drop_bit 8 rd)) (unat (rd AND 0xFF))))"

definition towlower :: "case_tables \<Rightarrow> u32 \<Rightarrow> u32 option" where
  "towlower T wc = casemap T wc 0"

definition towupper :: "case_tables \<Rightarrow> u32 \<Rightarrow> u32 option" where
  "towupper T wc = casemap T wc 1"

definition iswlower :: "case_tables \<Rightarrow> u32 \<Rightarrow> bool option" where
  "iswlower T wc = map_option (\<lambda>u. u \<noteq> wc) (towupper T wc)"

definition iswupper :: "case_tables \<Rightarrow> u32 \<Rightarrow> bool option" where
  "iswupper T wc = map_option (\<lambda>l. l \<noteq> wc) (towlower T wc)"

text \<open>The functions that \<open>wctype\<close> returns pointers to. The names it compares with are constants of the program: \<open>match\<close> has their addresses.\<close>

datatype wctype_t = Iswalnum | Iswalpha | Iswblank | Iswcntrl | Iswdigit | Iswgraph | Iswlower | Iswprint | Iswpunct | Iswspace | Iswupper | Iswxdigit

fun wctype_loop :: "u64 \<Rightarrow> mem \<Rightarrow> (u64 \<times> wctype_t) list \<Rightarrow> wctype_t option result" where
  "wctype_loop input m [] = Inr None"
| "wctype_loop input m ((name, f) # rest) = rbind (libc_strcmp input name m) (\<lambda>c. if c = 0 then Inr (Some f) else wctype_loop input m rest)"

definition wctype :: "u64 list \<Rightarrow> u64 \<Rightarrow> mem \<Rightarrow> wctype_t option result" where
  "wctype match input m = wctype_loop input m (zip match
     [Iswalnum, Iswalpha, Iswblank, Iswcntrl, Iswdigit, Iswgraph, Iswlower, Iswprint, Iswpunct, Iswspace, Iswupper, Iswxdigit])"

fun call_wctype :: "(nat \<Rightarrow> u8) \<Rightarrow> (nat \<Rightarrow> u8) \<Rightarrow> case_tables \<Rightarrow> wctype_t \<Rightarrow> u32 \<Rightarrow> bool option" where
  "call_wctype A P T Iswalnum wc = Some (iswalnum A wc)"
| "call_wctype A P T Iswalpha wc = Some (iswalpha A wc)"
| "call_wctype A P T Iswblank wc = Some (iswblank wc)"
| "call_wctype A P T Iswcntrl wc = Some (iswcntrl wc)"
| "call_wctype A P T Iswdigit wc = Some (iswdigit wc)"
| "call_wctype A P T Iswgraph wc = Some (iswgraph wc)"
| "call_wctype A P T Iswlower wc = iswlower T wc"
| "call_wctype A P T Iswprint wc = Some (iswprint wc)"
| "call_wctype A P T Iswpunct wc = Some (iswpunct P wc)"
| "call_wctype A P T Iswspace wc = Some (iswspace wc)"
| "call_wctype A P T Iswupper wc = iswupper T wc"
| "call_wctype A P T Iswxdigit wc = Some (iswxdigit wc)"

definition iswctype :: "(nat \<Rightarrow> u8) \<Rightarrow> (nat \<Rightarrow> u8) \<Rightarrow> case_tables \<Rightarrow> u32 \<Rightarrow> wctype_t \<Rightarrow> bool option" where
  "iswctype A P T wc desc = (if wc = 0xFFFFFFFF then Some False else call_wctype A P T desc wc)"

text \<open>The wrap-around comparisons are range tests.\<close>

lemma range_test: "w - a < n \<longleftrightarrow> (a \<le> w \<and> unat w < unat a + unat n)" if "unat a + unat n \<le> 2 ^ 32" for w a n :: u32
proof (cases "a \<le> w")
  case True
  then have "unat (w - a) = unat w - unat a" by (simp add: unat_sub_if_size word_le_nat_alt)
  then show ?thesis using True by (auto simp: word_less_nat_alt word_le_nat_alt)
next
  case False
  then have "unat (w - a) = 2 ^ 32 + unat w - unat a" by (simp add: unat_sub_if_size word_le_nat_alt word_size)
  then show ?thesis using False that by (auto simp: word_less_nat_alt word_le_nat_alt)
qed

lemma isw_ranges:
  "iswdigit wc \<longleftrightarrow> 48 \<le> wc \<and> wc \<le> 57"
  "iswcntrl wc \<longleftrightarrow> wc \<le> 0x1F \<or> 0x7F \<le> wc \<and> wc \<le> 0x9F \<or> 0x2028 \<le> wc \<and> wc \<le> 0x2029 \<or> 0xFFF9 \<le> wc \<and> wc \<le> 0xFFFB"
proof -
  have r: "wc - 48 < 10 \<longleftrightarrow> 48 \<le> wc \<and> unat wc < 58" "wc - 0x7F < 33 \<longleftrightarrow> 0x7F \<le> wc \<and> unat wc < 0xA0"
    "wc - 0x2028 < 2 \<longleftrightarrow> 0x2028 \<le> wc \<and> unat wc < 0x202A" "wc - 0xFFF9 < 3 \<longleftrightarrow> 0xFFF9 \<le> wc \<and> unat wc < 0xFFFC"
    using range_test [of 48 10 wc] range_test [of "0x7F" 33 wc] range_test [of "0x2028" 2 wc] range_test [of "0xFFF9" 3 wc] by simp_all
  show "iswdigit wc \<longleftrightarrow> 48 \<le> wc \<and> wc \<le> 57" unfolding iswdigit_def r by (auto simp: word_le_nat_alt)
  show "iswcntrl wc \<longleftrightarrow> wc \<le> 0x1F \<or> 0x7F \<le> wc \<and> wc \<le> 0x9F \<or> 0x2028 \<le> wc \<and> wc \<le> 0x2029 \<or> 0xFFF9 \<le> wc \<and> wc \<le> 0xFFFB"
    unfolding iswcntrl_def r by (auto simp: word_le_nat_alt word_less_nat_alt)
qed

text \<open>On a sorted range that has an entry for \<open>c\<close> the search finds its rule; on a range whose only key is smaller it does not end.\<close>

lemma casemap_search_finds:
  assumes "\<And>i j. xb \<le> i \<Longrightarrow> i < j \<Longrightarrow> j < xb + xn \<Longrightarrow> fst (ct_exceptions T i) < fst (ct_exceptions T j)"
    and "xb \<le> k" "k < xb + xn" "ucast (fst (ct_exceptions T k)) = c"
  shows "casemap_search T c xb xn = Some (Some (snd (ct_exceptions T k)))"
  using assms
proof (induction xn arbitrary: xb rule: less_induct)
  case (less xn)
  let ?m = "xb + xn div 2" and ?key = "\<lambda>i. fst (ct_exceptions T i)"
  have n0: "xn \<noteq> 0" using less.prems(2,3) by auto
  have inj: "(ucast a :: u32) < ucast b \<longleftrightarrow> a < b" "(ucast a :: u32) = ucast b \<longleftrightarrow> a = b" for a b :: u8
  proof -
    have u: "unat (ucast a :: u32) = unat a" for a :: u8
      using unsigned_less [of a, where ?'a = nat] by (simp add: unsigned_ucast_eq take_bit_nat_eq_self)
    show "(ucast a :: u32) < ucast b \<longleftrightarrow> a < b" "(ucast a :: u32) = ucast b \<longleftrightarrow> a = b" by (simp_all only: word_less_nat_alt word_unat_eq_iff u)
  qed
  consider "k = ?m" | "k < ?m" | "?m < k" by linarith
  then show ?case
  proof cases
    case 1
    then show ?thesis using less.prems(4) n0 by (subst casemap_search.simps) (simp add: Let_def)
  next
    case 2
    have "?key k < ?key ?m" using less.prems(1) [of k ?m] less.prems(2) 2 n0 by auto
    then have "ucast (?key ?m) \<noteq> c" "ucast (?key ?m) > c" using less.prems(4) inj by (metis less_irrefl)+
    then have "casemap_search T c xb xn = casemap_search T c xb (xn div 2)" using n0 by (subst casemap_search.simps) (simp add: Let_def)
    moreover have "casemap_search T c xb (xn div 2) = Some (Some (snd (ct_exceptions T k)))"
      using less.prems 2 n0 by (intro less.IH) auto
    ultimately show ?thesis by simp
  next
    case 3
    have "?key ?m < ?key k" using less.prems(1) [of ?m k] less.prems(3) 3 by auto
    then have "ucast (?key ?m) \<noteq> c" "\<not> ucast (?key ?m) > c" using less.prems(4) inj by (metis less_irrefl less_asym)+
    then have "casemap_search T c xb xn = casemap_search T c ?m (xn - xn div 2)" using n0 by (subst casemap_search.simps) (simp add: Let_def)
    moreover have "casemap_search T c ?m (xn - xn div 2) = Some (Some (snd (ct_exceptions T k)))"
      using less.prems 3 n0 by (intro less.IH) auto
    ultimately show ?thesis by simp
  qed
qed

lemma casemap_search_hangs:
  assumes "ucast (fst (ct_exceptions T xb)) < c"
  shows "casemap_search T c xb 1 = None"
proof (cases "casemap_search T c xb 1")
  case (Some y)
  have "\<not> (xn = 1 \<and> ucast (fst (ct_exceptions T xb)) < c)" if "casemap_search T c xb xn = Some z" for T c xb xn z
  proof (rule casemap_search.raw_induct [of "\<lambda>T c xb xn z. \<not> (xn = 1 \<and> ucast (fst (ct_exceptions T xb)) < c)", OF _ that])
    fix f :: "case_tables \<Rightarrow> u32 \<Rightarrow> nat \<Rightarrow> nat \<Rightarrow> u8 option option" and T c xb xn z
    assume IH: "\<And>T c xb xn z. f T c xb xn = Some z \<Longrightarrow> \<not> (xn = 1 \<and> ucast (fst (ct_exceptions T xb)) < c)"
      and run: "(if xn = 0 then Some None else let e = ct_exceptions T (xb + xn div 2) in if ucast (fst e) = c then Some (Some (snd e))
        else if ucast (fst e) > c then f T c xb (xn div 2) else f T c (xb + xn div 2) (xn - xn div 2)) = Some z"
    show "\<not> (xn = 1 \<and> ucast (fst (ct_exceptions T xb)) < c)"
    proof
      assume stuck: "xn = 1 \<and> ucast (fst (ct_exceptions T xb)) < c"
      then have "f T c xb 1 = Some z" using run by (auto simp: Let_def split: if_splits)
      then show False using IH stuck by blast
    qed
  qed
  from this [OF Some] show ?thesis using assms by simp
qed

section \<open>UTF-8\<close>

text \<open>The encoding of a code point: the bits of a continuation byte, and the lead byte before them.\<close>

definition cont_byte :: "u32 \<Rightarrow> nat \<Rightarrow> u8" where
  "cont_byte c k = 0x80 OR (ucast (drop_bit (6 * k) c) AND 0x3F)"

definition utf8_length :: "u32 \<Rightarrow> nat" where
  "utf8_length c = (if c < 0x80 then 1 else if c < 0x800 then 2 else if c < 0x10000 then 3 else 4)"

definition lead_byte :: "nat \<Rightarrow> u32 \<Rightarrow> u8" where
  "lead_byte n c = (if n = 1 then ucast c else NOT (drop_bit n 0xFF) OR ucast (drop_bit (6 * (n - 1)) c))"

definition utf8 :: "u32 \<Rightarrow> u8 list" where
  "utf8 c = lead_byte (utf8_length c) c # map (cont_byte c) (rev [0..<utf8_length c - 1])"

lemma byte_bits: "bit (0x80 :: int) n \<longleftrightarrow> n = 7" "bit (0x3F :: int) n \<longleftrightarrow> n < 6" "bit (0xC0 :: int) n \<longleftrightarrow> n = 6 \<or> n = 7"
  "bit (0xFF :: int) n \<longleftrightarrow> n < 8"
proof -
  have "(0x80 :: int) = push_bit 7 1" "(0x3F :: int) = mask 6" "(0xC0 :: int) = push_bit 6 (mask 2)" "(0xFF :: int) = mask 8"
    by (simp_all add: mask_eq_exp_minus_1)
  then show "bit (0x80 :: int) n \<longleftrightarrow> n = 7" "bit (0x3F :: int) n \<longleftrightarrow> n < 6" "bit (0xC0 :: int) n \<longleftrightarrow> n = 6 \<or> n = 7"
    "bit (0xFF :: int) n \<longleftrightarrow> n < 8"
    by (auto simp only: bit_simps) auto
qed

lemma cont_step: "push_bit 6 (drop_bit (6 * Suc k) c) OR ucast (cont_byte c k AND 0x3F) = drop_bit (6 * k) c"
proof (rule bit_word_eqI)
  fix n assume n: "n < LENGTH(32)"
  show "bit (push_bit 6 (drop_bit (6 * Suc k) c) OR ucast (cont_byte c k AND 0x3F)) n = bit (drop_bit (6 * k) c) n"
    using n by (cases "n < 6") (auto simp: cont_byte_def bit_simps byte_bits algebra_simps)
qed

lemma cont_byte_high [simp]: "cont_byte c k AND 0xC0 = 0x80"
  unfolding cont_byte_def by (rule bit_word_eqI) (auto simp: bit_simps byte_bits)

lemma cont_byte_unique:
  assumes b: "b AND 0xC0 = 0x80" and c: "drop_bit (6 * k) c = push_bit 6 d OR ucast (b AND 0x3F)"
  shows "b = cont_byte c k" "d < 2 ^ 26 \<Longrightarrow> drop_bit (6 * Suc k) c = d"
proof -
  have cb: "bit c (6 * k + n) \<longleftrightarrow> (if n < 6 then bit b n else n < 32 \<and> bit d (n - 6))" for n
    using arg_cong [OF c, of "\<lambda>x. bit x n"] by (auto simp: bit_simps byte_bits dest: bit_imp_le_length split: if_splits)
  have bb: "bit b 7" "\<not> bit b 6" using arg_cong [OF b, of "\<lambda>x. bit x 7"] arg_cong [OF b, of "\<lambda>x. bit x 6"] by (simp_all add: bit_simps byte_bits)
  show "b = cont_byte c k"
  proof (rule bit_word_eqI)
    fix n assume n: "n < LENGTH(8)"
    then consider "n < 6" | "n = 6" | "n = 7" by force
    then show "bit b n = bit (cont_byte c k) n" using cb [of n] bb by cases (simp_all add: cont_byte_def bit_simps byte_bits)
  qed
  assume "d < 2 ^ 26"
  then have "unat (drop_bit 26 d) = 0" by (simp add: drop_bit_eq_div unat_div word_less_nat_alt)
  then have z: "drop_bit 26 d = 0" by (simp add: unat_eq_0)
  have dz: "n < 26" if "bit d n" for n
    using arg_cong [OF z, of "\<lambda>x. bit x (n - 26)"] that by (cases "n < 26") (simp_all add: bit_simps)
  show "drop_bit (6 * Suc k) c = d"
    using cb [of "6 + n" for n] dz by (intro bit_word_eqI) (auto simp: bit_simps algebra_simps)
qed

text \<open>The lead byte.\<close>

lemma leading_ones_bits:
  "leading_ones b 0 = (if bit b 7 then if bit b 6 then if bit b 5 then if bit b 4 then if bit b 3 then if bit b 2 then if bit b 1 then if bit b 0 then 8
     else 7 else 6 else 5 else 4 else 3 else 2 else 1 else 0)"
proof -
  have e: "drop_bit k (0x80 :: u8) = 2 ^ (7 - k)" if "k \<le> 7" for k
    using that by (intro bit_word_eqI) (auto simp: bit_simps byte_bits)
  have t: "b AND drop_bit k (0x80 :: u8) \<noteq> 0 \<longleftrightarrow> bit b (7 - k)" if "k \<le> 7" for k
    unfolding e [OF that] by (simp add: and_exp_eq_0_iff_not_bit)
  have z: "drop_bit 8 (0x80 :: u8) = 0" by simp
  have step: "leading_ones b k = (if bit b j then leading_ones b k' else k)" if "k \<le> 7" "j = 7 - k" "k' = Suc k" for k k' j
    using t [OF that(1)] that(2,3) by (subst leading_ones.simps) simp
  have "leading_ones b 0 = (if bit b 7 then leading_ones b 1 else 0)" "leading_ones b 1 = (if bit b 6 then leading_ones b 2 else 1)"
    "leading_ones b 2 = (if bit b 5 then leading_ones b 3 else 2)" "leading_ones b 3 = (if bit b 4 then leading_ones b 4 else 3)"
    "leading_ones b 4 = (if bit b 3 then leading_ones b 5 else 4)" "leading_ones b 5 = (if bit b 2 then leading_ones b 6 else 5)"
    "leading_ones b 6 = (if bit b 1 then leading_ones b 7 else 6)" "leading_ones b 7 = (if bit b 0 then leading_ones b 8 else 7)"
    by (rule step; simp)+
  moreover have "leading_ones b 8 = 8" using z by (subst leading_ones.simps) simp
  ultimately show ?thesis by (simp only:)
qed

lemma bits_below:
  assumes "unat (w :: 'a :: len word) < 2 ^ k"
  shows "bit w n \<Longrightarrow> n < k"
proof -
  assume "bit w n"
  then have "bit (unat w) n" by (simp add: bit_unsigned_iff)
  moreover have "take_bit k (unat w) = unat w" using assms by (rule take_bit_nat_eq_self)
  ultimately have "bit (take_bit k (unat w)) n" by simp
  then show "n < k" by (simp add: bit_take_bit_iff)
qed

lemma unat_below:
  assumes "\<And>n. bit (w :: 'a :: len word) n \<Longrightarrow> n < k"
  shows "unat w < 2 ^ k"
proof -
  have "take_bit k w = w" by (rule bit_word_eqI) (use assms in \<open>auto simp: bit_simps\<close>)
  then have "take_bit k (unat w) = unat w" by (metis unsigned_take_bit_eq)
  then show ?thesis by (metis take_bit_nat_less_exp)
qed

lemma lead_mask: "n \<in> {2, 3, 4} \<Longrightarrow> bit (drop_bit n (0x80 :: u8) - 1) k \<longleftrightarrow> k < 7 - n"
proof -
  assume n: "n \<in> {2, 3, 4}"
  then have "drop_bit n (0x80 :: u8) - 1 = mask (7 - n)" by (auto simp: mask_eq_exp_minus_1)
  then show ?thesis using n by (auto simp: bit_simps)
qed

lemma lead_byte_bits:
  assumes "n \<in> {2, 3, 4}" "k < 8"
  shows "bit (lead_byte n c) k \<longleftrightarrow> 8 - n \<le> k \<or> bit c (6 * (n - 1) + k)"
  using assms by (auto simp: lead_byte_def bit_simps byte_bits)

lemma leading_ones_cases:
  "leading_ones b 0 = 2 \<longleftrightarrow> bit b 7 \<and> bit b 6 \<and> \<not> bit b 5" "leading_ones b 0 = 3 \<longleftrightarrow> bit b 7 \<and> bit b 6 \<and> bit b 5 \<and> \<not> bit b 4"
  "leading_ones b 0 = 4 \<longleftrightarrow> bit b 7 \<and> bit b 6 \<and> bit b 5 \<and> bit b 4 \<and> \<not> bit b 3"
  unfolding leading_ones_bits by (cases "bit b 7"; cases "bit b 6"; cases "bit b 5"; cases "bit b 4"; cases "bit b 3"; simp)+

lemma leading_ones_iff:
  assumes "n \<in> {2, 3, 4}"
  shows "leading_ones b 0 = n \<longleftrightarrow> (\<forall>k. 8 - n \<le> k \<and> k < 8 \<longrightarrow> bit b k) \<and> \<not> bit b (7 - n)"
proof -
  have r: "(\<forall>k. 8 - m \<le> k \<and> k < 8 \<longrightarrow> P k) \<longleftrightarrow> (\<forall>k \<in> {8 - m..<8}. P k)" for P :: "nat \<Rightarrow> bool" and m by auto
  have s: "{8 - 2..<8} = {7, 6 :: nat}" "{8 - 3..<8} = {7, 6, 5 :: nat}" "{8 - 4..<8} = {7, 6, 5, 4 :: nat}" by auto
  consider "n = 2" | "n = 3" | "n = 4" using assms by auto
  then show ?thesis by cases (simp_all only: r s leading_ones_cases, simp_all)
qed

lemma lead_byte_decodes:
  assumes n: "n \<in> {2, 3, 4}" and c: "unat (drop_bit (6 * (n - 1)) c) < 2 ^ (7 - n)"
  shows "lead_byte n c AND 0x80 \<noteq> 0" "leading_ones (lead_byte n c) 0 = n" "ucast (lead_byte n c AND (drop_bit n 0x80 - 1)) = drop_bit (6 * (n - 1)) c"
proof -
  have z: "k < 7 - n" if "bit c (6 * (n - 1) + k)" for k using bits_below [OF c, of k] that by (simp add: bit_simps)
  show l: "leading_ones (lead_byte n c) 0 = n"
    unfolding leading_ones_iff [OF n] using z [of "7 - n"] n lead_byte_bits [OF n, of _ c] by auto
  have "bit (lead_byte n c) 7" using lead_byte_bits [OF n, of 7 c] n by auto
  then show "lead_byte n c AND 0x80 \<noteq> 0" using and_exp_eq_0_iff_not_bit [of "lead_byte n c" 7] by simp
  show "ucast (lead_byte n c AND (drop_bit n 0x80 - 1)) = drop_bit (6 * (n - 1)) c"
  proof (rule bit_word_eqI)
    fix k
    show "bit (ucast (lead_byte n c AND (drop_bit n 0x80 - 1)) :: u32) k = bit (drop_bit (6 * (n - 1)) c) k"
      using z [of k] lead_byte_bits [OF n, of k c] n by (auto simp: bit_simps lead_mask [OF n] simp del: drop_bit_numeral_minus_bit1)
  qed
qed

lemma lead_byte_unique:
  assumes n: "n \<in> {2, 3, 4}" and b: "leading_ones b 0 = n" and c: "drop_bit (6 * (n - 1)) c = ucast (b AND (drop_bit n 0x80 - 1))"
  shows "b = lead_byte n c" "unat (drop_bit (6 * (n - 1)) c) < 2 ^ (7 - n)"
proof -
  have cb: "bit c (6 * (n - 1) + k) \<longleftrightarrow> k < 7 - n \<and> bit b k" for k
    using arg_cong [OF c, of "\<lambda>x. bit x k"] n by (auto simp: bit_simps lead_mask [OF n])
  show "b = lead_byte n c"
  proof (rule bit_word_eqI)
    fix k assume k: "k < LENGTH(8)"
    then consider "8 - n \<le> k" | "k < 7 - n" | "k = 7 - n" by force
    then show "bit b k = bit (lead_byte n c) k" using b k n cb [of k] lead_byte_bits [OF n, of k c] unfolding leading_ones_iff [OF n] by cases auto
  qed
  show "unat (drop_bit (6 * (n - 1)) c) < 2 ^ (7 - n)" by (rule unat_below) (simp only: bit_drop_bit_eq comp_def cb)
qed

section \<open>Continuation bytes\<close>

text \<open>The state of the decoder when \<open>r\<close> bytes of the encoding of \<open>c\<close> are missing.\<close>

definition partial_state :: "u32 \<Rightarrow> nat \<Rightarrow> mbstate" where
  "partial_state c r = \<lparr>mb_buffer = drop_bit (6 * r) c, mb_expected_length = of_nat (utf8_length c), mb_expected_remaining_bytes = of_nat r\<rparr>"

definition code_point :: "u32 \<Rightarrow> bool" where
  "code_point c \<longleftrightarrow> c < 0x110000"

lemma sint_small: "unat (c :: u32) < 2 ^ 31 \<Longrightarrow> sint c = uint c"
proof -
  assume a: "unat c < 2 ^ 31"
  have "c < 0x80000000" using a by (simp add: word_less_nat_alt)
  then have "uint c < 2 ^ 31" by (simp add: word_less_def)
  moreover have "- (2 ^ 31) \<le> uint c" by (rule order_trans [OF _ uint_ge_0]) simp
  ultimately show ?thesis by (simp add: sint_uint signed_take_bit_int_eq_self)
qed

lemma bad_character_iff:
  assumes n: "n \<in> {2, 3, 4}" and c: "unat c < 2 ^ 31"
  shows "bad_character \<lparr>mb_buffer = c, mb_expected_length = of_nat n, mb_expected_remaining_bytes = r\<rparr> \<longleftrightarrow> \<not> (code_point c \<and> utf8_length c = n)"
  using n sint_small [OF c] by (auto simp: bad_character_def Let_def code_point_def utf8_length_def word_less_def)

lemma utf8_length_range: "0x80 \<le> c \<Longrightarrow> utf8_length c \<in> {2, 3, 4}"
  by (auto simp: utf8_length_def)

lemma partial_not_bad: "code_point c \<Longrightarrow> 0x80 \<le> c \<Longrightarrow> \<not> bad_character (partial_state c 0)"
  using bad_character_iff [OF utf8_length_range, of c c 0] by (auto simp: partial_state_def code_point_def word_less_nat_alt)

lemma cont_complete:
  assumes c: "code_point c" "0x80 \<le> c" and r: "0 < r" "r \<le> 3" and k: "unat i + k = unat n"
    and b: "\<And>j. j < r \<Longrightarrow> j < k \<Longrightarrow> m (p + i + of_nat j) = cont_byte c (r - 1 - j)"
  shows "continuation_loop m p n i (partial_state c r) =
    (if r \<le> k then (i + of_nat r, Some c, partial_state c 0, False) else (-2, None, partial_state c (r - k), False))"
  using r k b
proof (induction r arbitrary: i k)
  case (Suc r)
  have rem: "mb_expected_remaining_bytes (partial_state c (Suc r)) > 0"
    using Suc.prems(2) by (simp add: partial_state_def word_less_nat_alt unat_word_ariths unat_of_nat take_bit_nat_eq_self)
  show ?case
  proof (cases k)
    case 0
    then show ?thesis using Suc.prems(3) by (subst continuation_loop.simps) (simp add: word_less_nat_alt)
  next
    case (Suc k')
    have i: "i < n" using Suc.prems(3) Suc by (simp add: word_less_nat_alt)
    have b0: "m (p + i) = cont_byte c r" using Suc.prems(4) [of 0] Suc by simp
    let ?s = "partial_state c (Suc r)"
    have s': "?s\<lparr>mb_buffer := push_bit 6 (mb_buffer ?s) OR ucast (cont_byte c r AND 0x3F), mb_expected_remaining_bytes := mb_expected_remaining_bytes ?s - 1\<rparr> =
        partial_state c r" unfolding partial_state_def using cont_step [of r c] by simp
    have z: "mb_expected_remaining_bytes (partial_state c r) = 0 \<longleftrightarrow> r = 0"
      using Suc.prems(2) by (simp add: partial_state_def word_unat_eq_iff unat_of_nat take_bit_nat_eq_self)
    have st: "continuation_loop m p n i ?s = (if r = 0 then (i + 1, Some c, partial_state c 0, False) else continuation_loop m p n (i + 1) (partial_state c r))"
      using i rem b0 partial_not_bad [OF c]
      by (subst continuation_loop.simps) (auto simp: Let_def s' z simp del: of_nat_Suc, simp add: partial_state_def)
    show ?thesis
    proof (cases "r = 0")
      case True
      then show ?thesis using st Suc by simp
    next
      case False
      have u: "unat (i + 1) = Suc (unat i)" using i by (rule unat_plus1_less)
      have "continuation_loop m p n (i + 1) (partial_state c r) =
          (if r \<le> k' then (i + 1 + of_nat r, Some c, partial_state c 0, False) else (-2, None, partial_state c (r - k'), False))"
      proof (rule Suc.IH)
        show "m (p + (i + 1) + of_nat j) = cont_byte c (r - 1 - j)" if "j < r" "j < k'" for j
          using Suc.prems(4) [of "Suc j"] that Suc by (simp add: algebra_simps)
      qed (use False Suc.prems Suc u in auto)
      then show ?thesis using st False Suc by (simp add: algebra_simps)
    qed
  qed
qed simp

lemma cont_sound:
  assumes "0 < r" "r \<le> 3" "mb_expected_remaining_bytes s = of_nat r" "unat (mb_buffer s) < 2 ^ (26 - 6 * r)"
    and "continuation_loop m p n i s = (ret, out, s', e)"
  shows "case out of None \<Rightarrow> ret = -1 \<and> e \<or> ret = -2 \<and> \<not> e | Some c \<Rightarrow> ret = i + of_nat r \<and> unat i + r \<le> unat n \<and> \<not> e \<and>
      s' = s\<lparr>mb_buffer := c, mb_expected_remaining_bytes := 0\<rparr> \<and> \<not> bad_character s' \<and>
      drop_bit (6 * r) c = mb_buffer s \<and> (\<forall>j < r. m (p + i + of_nat j) = cont_byte c (r - 1 - j))"
  using assms
proof (induction r arbitrary: i s)
  case (Suc r)
  let ?b = "m (p + i)"
  define s1 where "s1 = s\<lparr>mb_buffer := push_bit 6 (mb_buffer s) OR ucast (?b AND 0x3F), mb_expected_remaining_bytes := of_nat r\<rparr>"
  have rem: "mb_expected_remaining_bytes s > 0" "mb_expected_remaining_bytes s - 1 = of_nat r"
    using Suc.prems(2,3) by (simp_all add: word_less_nat_alt unat_word_ariths unat_of_nat take_bit_nat_eq_self)
  have z: "mb_expected_remaining_bytes s1 = 0 \<longleftrightarrow> r = 0"
    using Suc.prems(2) by (simp add: s1_def word_unat_eq_iff unat_of_nat take_bit_nat_eq_self)
  have loop: "continuation_loop m p n i s = (if \<not> i < n then (-2, None, s, False) else if ?b AND 0xC0 \<noteq> 0x80 then (-1, None, s, True)
      else if r = 0 then if bad_character s1 then (-1, None, s1, True) else (i + 1, Some (mb_buffer s1), s1, False) else continuation_loop m p n (i + 1) s1)"
    using rem z by (subst continuation_loop.simps) (simp add: Let_def s1_def)
  show ?case
  proof (cases "i < n \<and> ?b AND 0xC0 = 0x80")
    case False
    then show ?thesis using Suc.prems(5) loop by (auto split: if_splits)
  next
    case True
    have u: "unat (i + 1) = Suc (unat i)" "unat i < unat n" using True by (auto intro: unat_plus1_less simp: word_less_nat_alt)
    have d: "mb_buffer s < 2 ^ 26"
      using less_le_trans [OF Suc.prems(4) power_increasing [of "26 - 6 * Suc r" 26 "2 :: nat"]] by (simp add: word_less_nat_alt)
    show ?thesis
    proof (cases "r = 0")
      case r: True
      show ?thesis
      proof (cases "bad_character s1")
        case True
        then show ?thesis using Suc.prems(5) loop r \<open>i < n \<and> _\<close> by simp
      next
        case False
        then have o: "out = Some (mb_buffer s1)" "ret = i + 1" "s' = s1" "\<not> e" using Suc.prems(5) loop r True by auto
        have c: "drop_bit (6 * 0) (mb_buffer s1) = push_bit 6 (mb_buffer s) OR ucast (?b AND 0x3F)" by (simp add: s1_def)
        from cont_byte_unique [OF conjunct2 [OF True] c] d show ?thesis using o r u False by (simp add: s1_def)
      qed
    next
      case False
      have "continuation_loop m p n (i + 1) s1 = (ret, out, s', e)" using Suc.prems(5) loop True False by simp
      moreover have "unat (mb_buffer s1) < 2 ^ (26 - 6 * r)"
      proof (rule unat_below)
        fix k assume "bit (mb_buffer s1) k"
        then show "k < 26 - 6 * r" using bits_below [OF Suc.prems(4), of "k - 6"] Suc.prems(2) by (auto simp: s1_def bit_simps byte_bits)
      qed
      ultimately have IH: "case out of None \<Rightarrow> ret = -1 \<and> e \<or> ret = -2 \<and> \<not> e | Some c \<Rightarrow> ret = i + 1 + of_nat r \<and> unat (i + 1) + r \<le> unat n \<and> \<not> e \<and>
        s' = s1\<lparr>mb_buffer := c, mb_expected_remaining_bytes := 0\<rparr> \<and> \<not> bad_character s' \<and>
        drop_bit (6 * r) c = mb_buffer s1 \<and> (\<forall>j < r. m (p + (i + 1) + of_nat j) = cont_byte c (r - 1 - j))"
        using Suc.IH [of s1 "i + 1"] Suc.prems(2) False by (simp add: s1_def)
      show ?thesis
      proof (cases out)
        case None
        then show ?thesis using IH by simp
      next
        case (Some c)
        then have c: "drop_bit (6 * r) c = push_bit 6 (mb_buffer s) OR ucast (?b AND 0x3F)" using IH by (simp add: s1_def)
        have "m (p + i + of_nat j) = cont_byte c (Suc r - 1 - j)" if "j < Suc r" for j
          using cont_byte_unique(1) [OF conjunct2 [OF True] c] IH Some that by (cases j) (simp_all add: algebra_simps)
        moreover have "drop_bit (6 * Suc r) c = mb_buffer s" by (rule cont_byte_unique(2) [OF conjunct2 [OF True] c d])
        ultimately show ?thesis using IH Some u by (auto simp: s1_def algebra_simps)
      qed
    qed
  qed
qed simp

section \<open>Characters\<close>

lemma length_utf8: "length (utf8 c) = utf8_length c"
  by (simp add: utf8_def utf8_length_def)

lemma utf8_nth: "j < utf8_length c \<Longrightarrow> utf8 c ! j = (if j = 0 then lead_byte (utf8_length c) c else cont_byte c (utf8_length c - 1 - j))"
  by (cases j) (simp_all add: utf8_def rev_nth)

lemma lead_fits:
  assumes c: "code_point c" "0x80 \<le> c"
  shows "unat (drop_bit (6 * (utf8_length c - 1)) c) < 2 ^ (7 - utf8_length c)"
  using c by (auto simp: utf8_length_def code_point_def drop_bit_eq_div unat_div word_less_nat_alt word_le_nat_alt less_mult_imp_div_less)

text \<open>One call on the first \<open>k\<close> bytes of an encoding, or on more.\<close>

lemma mbrtowc_first:
  assumes c: "code_point c" "c \<noteq> 0" and s: "mb_expected_remaining_bytes s = 0" and p: "p \<noteq> 0" and k: "0 < unat k"
    and b: "\<And>j. j < utf8_length c \<Longrightarrow> j < unat k \<Longrightarrow> m (p + of_nat j) = utf8 c ! j"
  shows "mbrtowc m p k s = (if utf8_length c \<le> unat k then (of_nat (utf8_length c), Some c, if c < 0x80 then s else partial_state c 0, False)
     else (-2, None, partial_state c (utf8_length c - unat k), False))"
proof (cases "c < 0x80")
  case True
  then have "m p = ucast c" using b [of 0] k by (simp add: utf8_def utf8_length_def lead_byte_def)
  moreover have "unat c < 2 ^ 7" using True by (simp add: word_less_nat_alt)
  note below = bits_below [OF this]
  then have z: "\<not> bit c 7" by auto
  have "(ucast c :: u8) AND 0x80 = 0" using z and_exp_eq_0_iff_not_bit [of "ucast c :: u8" 7] by (simp add: bit_simps)
  moreover have u: "(ucast (ucast c :: u8) :: u32) = c" by (rule bit_word_eqI) (auto simp: bit_simps dest: below)
  moreover have "(ucast c :: u8) \<noteq> 0" using u c(2) by auto
  ultimately show ?thesis using True s p k by (auto simp: mbrtowc_def utf8_length_def Let_def)
next
  case False
  then have ge: "0x80 \<le> c" by simp
  define n where "n = utf8_length c"
  have n: "n \<in> {2, 3, 4}" using utf8_length_range [OF ge] by (simp add: n_def)
  note l = lead_byte_decodes [OF n, of c] lead_fits [OF c(1) ge, folded n_def]
  have lead: "m p = lead_byte n c" using b [of 0] k n by (auto simp: utf8_nth n_def [symmetric])
  have st: "\<lparr>mb_buffer = drop_bit (6 * (n - 1)) c, mb_expected_length = of_nat n, mb_expected_remaining_bytes = of_nat (n - 1)\<rparr> = partial_state c (n - 1)"
    by (simp add: partial_state_def n_def)
  have k0: "k \<noteq> 0" "unat (k - 1) = unat k - 1" using k by (auto simp: unat_gt_0 unat_minus_one)
  have "continuation_loop m (p + 1) (k - 1) 0 (partial_state c (n - 1)) = (if n - 1 \<le> unat k - 1 then (0 + of_nat (n - 1), Some c, partial_state c 0, False)
      else (-2, None, partial_state c (n - 1 - (unat k - 1)), False))"
  proof (rule cont_complete [OF c(1) ge])
    show "m (p + 1 + 0 + of_nat j) = cont_byte c (n - 1 - 1 - j)" if "j < n - 1" "j < unat k - 1" for j
      using b [of "Suc j"] that by (simp add: utf8_nth n_def [symmetric] algebra_simps)
  qed (use n k0 in auto)
  moreover have "0 < sint (of_nat (n - 1) :: u64)" "(of_nat (n - 1) :: u64) + 1 = of_nat n" "\<not> 0 < sint (-2 :: u64)" using n by auto
  moreover have "mbrtowc m p k s = (let (rem, out, s'', e) = continuation_loop m (p + 1) (k - 1) 0 (partial_state c (n - 1)) in
      (if sint rem > 0 then rem + 1 else rem, out, s'', e))"
  proof -
    have "\<not> (n < 2 \<or> 4 < n)" using n by auto
    then show ?thesis using s p k0(1) unfolding mbrtowc_def lead handle_continuation_bytes_def Let_def l(2) l(3) [OF l(4)] l(2) [OF l(4)] st
      by (simp add: l(1) [OF l(4)])
  qed
  moreover have "n - 1 \<le> unat k - 1 \<longleftrightarrow> n \<le> unat k" "n - 1 - (unat k - 1) = n - unat k" using n k by auto
  ultimately show ?thesis
    using False unfolding n_def [symmetric] by (cases "n \<le> unat k") (simp_all del: of_nat_diff)
qed

lemma mbrtowc_next:
  assumes c: "code_point c" "0x80 \<le> c" and r: "0 < r" "r < utf8_length c" and p: "p \<noteq> 0"
    and b: "\<And>j. j < r \<Longrightarrow> j < unat k \<Longrightarrow> m (p + of_nat j) = cont_byte c (r - 1 - j)"
  shows "mbrtowc m p k (partial_state c r) = (if r \<le> unat k then (of_nat r, Some c, partial_state c 0, False) else (-2, None, partial_state c (r - unat k), False))"
proof (cases "k = 0")
  case True
  then show ?thesis using r p by (simp add: mbrtowc_def)
next
  case False
  have r3: "r \<le> 3" using r utf8_length_range [OF c(2)] by auto
  then have "mb_expected_remaining_bytes (partial_state c r) > 0" using r(1) by (simp add: partial_state_def word_less_nat_alt unat_of_nat take_bit_nat_eq_self)
  then show ?thesis using False p cont_complete [OF c r(1) r3, of 0 "unat k" k m p] b by (simp add: mbrtowc_def handle_continuation_bytes_def)
qed

text \<open>A character that was decoded is the one whose encoding was read.\<close>

lemma mbrtowc_sound:
  assumes s: "mb_expected_remaining_bytes s = 0" and p: "p \<noteq> 0" and call: "mbrtowc m p k s = (ret, out, s', e)"
  shows "case out of None \<Rightarrow> ret = -1 \<and> e \<or> ret = -2 \<and> \<not> e
    | Some c \<Rightarrow> code_point c \<and> utf8_length c \<le> unat k \<and> (\<forall>j < utf8_length c. m (p + of_nat j) = utf8 c ! j) \<and>
        ret = (if c = 0 then 0 else of_nat (utf8_length c)) \<and> \<not> e \<and> mb_expected_remaining_bytes s' = 0"
proof -
  let ?b = "m p"
  consider "k = 0" | "k \<noteq> 0" "\<not> bit ?b 7" | "k \<noteq> 0" "bit ?b 7" "leading_ones ?b 0 \<notin> {2, 3, 4}" | "k \<noteq> 0" "bit ?b 7" "leading_ones ?b 0 \<in> {2, 3, 4}" by blast
  then show ?thesis
  proof cases
    case 1
    then show ?thesis using call s p by (simp add: mbrtowc_def)
  next
    case 2
    have a: "?b AND 0x80 = 0" using 2(2) and_exp_eq_0_iff_not_bit [of ?b 7] by simp
    then have o: "out = Some (ucast ?b)" "ret = (if ?b \<noteq> 0 then 1 else 0)" "s' = s" "\<not> e" using call s p 2(1) by (auto simp: mbrtowc_def Let_def)
    have "unat (ucast ?b :: u32) < 2 ^ 7"
    proof (rule unat_below)
      fix n assume "bit (ucast ?b :: u32) n"
      then have "bit ?b n" by (simp add: bit_simps)
      moreover from this have "n < 8" by (auto dest: bit_imp_le_length)
      ultimately have "bit ?b n" "n < 8" by simp_all
      then show "n < 7" using 2(2) by (cases "n = 7") auto
    qed
    then have lt: "(ucast ?b :: u32) < 0x80" by (simp add: word_less_nat_alt)
    have u: "(ucast (ucast ?b :: u32) :: u8) = ?b" by (rule bit_word_eqI) (simp add: bit_simps)
    then have z: "(ucast ?b :: u32) = 0 \<longleftrightarrow> ?b = 0" by (metis unsigned_0)
    have "0 < unat k" using 2(1) by (simp add: unat_gt_0)
    then show ?thesis using o lt z s by (auto simp: code_point_def utf8_length_def utf8_def lead_byte_def word_less_nat_alt u)
  next
    case 3
    have "?b AND 0x80 \<noteq> 0" using 3(2) and_exp_eq_0_iff_not_bit [of ?b 7] by simp
    moreover have "leading_ones ?b 0 < 2 \<or> leading_ones ?b 0 > 4" using 3(3) by force
    ultimately show ?thesis using call s p 3(1) by (auto simp: mbrtowc_def Let_def)
  next
    case 4
    define n where "n = leading_ones ?b 0"
    have n: "n \<in> {2, 3, 4}" using 4(3) by (simp add: n_def)
    let ?s = "\<lparr>mb_buffer = ucast (?b AND (drop_bit n 0x80 - 1)), mb_expected_length = of_nat n, mb_expected_remaining_bytes = of_nat (n - 1)\<rparr>"
    obtain r0 out0 s0 e0 where l: "continuation_loop m (p + 1) (k - 1) 0 ?s = (r0, out0, s0, e0)" by (metis prod_cases4)
    have hi: "?b AND 0x80 \<noteq> 0" using 4(2) and_exp_eq_0_iff_not_bit [of ?b 7] by simp
    have o: "ret = (if sint r0 > 0 then r0 + 1 else r0)" "out = out0" "s' = s0" "e = e0"
      using call s p 4(1) hi n l by (auto simp: mbrtowc_def Let_def handle_continuation_bytes_def n_def [symmetric])
    have fits: "unat (mb_buffer ?s) < 2 ^ (7 - n)"
      using lead_mask [OF n] n by (intro unat_below) (auto simp: bit_simps)
    then have "unat (mb_buffer ?s) < 2 ^ (26 - 6 * (n - 1))"
      by (rule less_le_trans) (use n in \<open>auto intro!: power_increasing\<close>)
    note snd = cont_sound [OF _ _ _ this l, simplified]
    show ?thesis
    proof (cases out0)
      case None
      have "\<not> 0 < sint (-1 :: u64)" "\<not> 0 < sint (-2 :: u64)" by simp_all
      then show ?thesis using snd n o None by auto
    next
      case (Some c)
      have c: "r0 = of_nat (n - 1)" "n - 1 \<le> unat (k - 1)" "\<not> e0" "s0 = ?s\<lparr>mb_buffer := c, mb_expected_remaining_bytes := 0\<rparr>" "\<not> bad_character s0"
        "drop_bit (6 * (n - 1)) c = ucast (?b AND (drop_bit n 0x80 - 1))" "\<forall>j < n - 1. m (p + 1 + of_nat j) = cont_byte c (n - 1 - 1 - j)"
        using snd n Some by auto
      note l = lead_byte_unique [OF n n_def [symmetric] c(6)]
      have "unat c < 2 ^ 31"
      proof (rule unat_below)
        fix i assume i: "bit c i"
        show "i < 31"
        proof (cases "i < 6 * (n - 1)")
          case False
          then have "bit (drop_bit (6 * (n - 1)) c) (i - 6 * (n - 1))" using i by (simp add: bit_simps)
          then show ?thesis using bits_below [OF l(2)] n by force
        qed (use n in auto)
      qed
      then have cp: "code_point c" "utf8_length c = n" using c(4,5) bad_character_iff [OF n, of c 0] by auto
      have "m (p + of_nat j) = utf8 c ! j" if "j < n" for j
        using c(7) l(1) that cp(2) by (cases j) (simp_all add: utf8_nth algebra_simps)
      moreover have "n \<le> unat k" using c(2) n 4(1) by (auto simp: unat_minus_one)
      moreover have "sint r0 > 0" "r0 + 1 = of_nat n" using c(1) n by auto
      moreover have "c \<noteq> 0" using cp(2) n by (auto simp: utf8_length_def)
      ultimately show ?thesis using cp o c(3,4) Some by simp
    qed
  qed
qed

section \<open>Sequences of calls\<close>

text \<open>The bytes of a character may be handed to the decoder in pieces of any lengths.\<close>

fun mbrtowc_calls :: "mem \<Rightarrow> u64 \<Rightarrow> u64 list \<Rightarrow> mbstate \<Rightarrow> u64 \<times> u32 option \<times> mbstate \<times> bool" where
  "mbrtowc_calls m p [] s = (-2, None, s, False)"
| "mbrtowc_calls m p (n # ns) s = (let (ret, out, s', e) = mbrtowc m p n s in
     if ret = -2 then mbrtowc_calls m (p + n) ns s' else (ret, out, s', e))"

lemma small_ret: "k \<le> 4 \<Longrightarrow> (of_nat k :: u64) \<noteq> -2 \<and> (of_nat k :: u64) \<noteq> -1"
  by (auto simp: word_unat_eq_iff unat_of_nat take_bit_nat_eq_self unsigned_minus_1_eq_mask mask_eq_exp_minus_1)

lemma partial_zero [simp]: "mb_expected_remaining_bytes (partial_state c 0) = 0"
  by (simp add: partial_state_def)

lemma calls_partial:
  assumes "code_point c" "0x80 \<le> c" "0 < r" "r < utf8_length c" "p \<noteq> 0" "unat p + r \<le> 2 ^ 64" "r \<le> sum_list (map unat ns)"
    "\<And>j. j < r \<Longrightarrow> m (p + of_nat j) = cont_byte c (r - 1 - j)"
  shows "\<exists>k. mbrtowc_calls m p ns (partial_state c r) = (of_nat k, Some c, partial_state c 0, False) \<and> 0 < k \<and> k \<le> r"
  using assms(3-8)
proof (induction ns arbitrary: p r)
  case (Cons n ns)
  have one: "mbrtowc m p n (partial_state c r) = (if r \<le> unat n then (of_nat r, Some c, partial_state c 0, False) else (-2, None, partial_state c (r - unat n), False))"
    by (rule mbrtowc_next [OF assms(1,2) Cons.prems(1,2,3)]) (use Cons.prems(6) in auto)
  have r4: "r \<le> 4" using Cons.prems(2) utf8_length_range [OF assms(2)] by auto
  show ?case
  proof (cases "r \<le> unat n")
    case True
    then show ?thesis using one small_ret [OF r4] Cons.prems(1) by auto
  next
    case False
    then have u: "unat (p + n) = unat p + unat n" using Cons.prems(4) by (intro unat_add64) simp
    have "\<exists>k. mbrtowc_calls m (p + n) ns (partial_state c (r - unat n)) = (of_nat k, Some c, partial_state c 0, False) \<and> 0 < k \<and> k \<le> r - unat n"
    proof (rule Cons.IH)
      show "p + n \<noteq> 0" using u Cons.prems(3) by (auto simp: word_unat_eq_iff)
      show "m (p + n + of_nat j) = cont_byte c (r - unat n - 1 - j)" if "j < r - unat n" for j
        using Cons.prems(6) [of "unat n + j"] that by (simp add: algebra_simps)
    qed (use False Cons.prems u in auto)
    then show ?thesis using one False by auto
  qed
qed simp

lemma calls_first:
  assumes c: "code_point c" "c \<noteq> 0" and s: "mb_expected_remaining_bytes s = 0" and p: "p \<noteq> 0" "unat p + utf8_length c \<le> 2 ^ 64"
    and b: "\<And>j. j < utf8_length c \<Longrightarrow> m (p + of_nat j) = utf8 c ! j" and ns: "utf8_length c \<le> sum_list (map unat ns)"
  shows "\<exists>k s'. mbrtowc_calls m p ns s = (of_nat k, Some c, s', False) \<and> 0 < k \<and> k \<le> utf8_length c \<and> mb_expected_remaining_bytes s' = 0"
  using ns
proof (induction ns)
  case Nil
  then show ?case by (simp add: utf8_length_def split: if_splits)
next
  case (Cons n ns)
  have l: "0 < utf8_length c" "utf8_length c \<le> 4" by (simp_all add: utf8_length_def)
  show ?case
  proof (cases "n = 0")
    case True
    then have "mbrtowc m p n s = (-2, None, s, False)" using p(1) by (simp add: mbrtowc_def)
    then show ?thesis using Cons True by simp
  next
    case False
    then have one: "mbrtowc m p n s = (if utf8_length c \<le> unat n then (of_nat (utf8_length c), Some c, if c < 0x80 then s else partial_state c 0, False)
       else (-2, None, partial_state c (utf8_length c - unat n), False))" using b by (intro mbrtowc_first [OF c s p(1)]) (auto simp: unat_gt_0)
    show ?thesis
    proof (cases "utf8_length c \<le> unat n")
      case True
      then show ?thesis using one small_ret [OF l(2)] l(1) s by auto
    next
      case less: False
      then have ge: "0x80 \<le> c" using False by (auto simp: utf8_length_def unat_gt_0 Suc_le_eq split: if_splits)
      have u: "unat (p + n) = unat p + unat n" using less p(2) by (intro unat_add64) simp
      have "\<exists>k. mbrtowc_calls m (p + n) ns (partial_state c (utf8_length c - unat n)) = (of_nat k, Some c, partial_state c 0, False) \<and> 0 < k \<and>
          k \<le> utf8_length c - unat n"
      proof (rule calls_partial [OF c(1) ge])
        show "p + n \<noteq> 0" using u p(1) by (auto simp: word_unat_eq_iff)
        show "m (p + n + of_nat j) = cont_byte c (utf8_length c - unat n - 1 - j)" if "j < utf8_length c - unat n" for j
          using b [of "unat n + j"] that False by (simp add: utf8_nth algebra_simps unat_eq_0)
      qed (use less False Cons.prems p u in \<open>auto simp: unat_gt_0\<close>)
      then obtain k where "mbrtowc_calls m (p + n) ns (partial_state c (utf8_length c - unat n)) = (of_nat k, Some c, partial_state c 0, False)" "0 < k"
        "k \<le> utf8_length c - unat n" by blast
      then show ?thesis using one less by (intro exI [of _ k] exI [of _ "partial_state c 0"]) simp
    qed
  qed
qed

lemma utf8_at: "mem_bytes m p (length (utf8 c)) = utf8 c \<longleftrightarrow> (\<forall>j < utf8_length c. m (p + of_nat j) = utf8 c ! j)"
  by (auto simp: list_eq_iff_nth_eq mem_bytes_def length_utf8)

section \<open>Strings\<close>

lemma utf8_nonzero: "code_point c \<Longrightarrow> c \<noteq> 0 \<Longrightarrow> b \<in> set (utf8 c) \<Longrightarrow> b \<noteq> 0"
proof (cases "c < 0x80")
  case True
  assume c: "c \<noteq> 0" "b \<in> set (utf8 c)"
  then have b: "b = ucast c" using True by (simp add: utf8_def utf8_length_def lead_byte_def)
  have "unat c < 2 ^ 7" using True by (simp add: word_less_nat_alt)
  note below = bits_below [OF this]
  have "(ucast (ucast c :: u8) :: u32) = c" by (intro bit_word_eqI) (auto simp: bit_simps dest: below)
  then show "b \<noteq> 0" using b c(1) by auto
next
  case False
  assume c: "code_point c" "b \<in> set (utf8 c)"
  have n: "utf8_length c \<in> {2, 3, 4}" using False by (intro utf8_length_range) simp
  have "bit (cont_byte c k) 7" for k by (simp add: cont_byte_def bit_simps byte_bits)
  moreover have "bit (lead_byte (utf8_length c) c) 7" using n lead_byte_bits [OF n, of 7 c] by auto
  ultimately have "bit b 7" using c(2) by (auto simp: utf8_def)
  then show "b \<noteq> 0" by auto
qed

text \<open>A call of \<open>mbrtowc\<close> with all the bytes that there are never runs out of them.\<close>

lemma loop_not_short:
  assumes "mb_expected_remaining_bytes s > 0" "unat i + unat (mb_expected_remaining_bytes s) \<le> unat n" "unat i + unat (mb_expected_remaining_bytes s) < 2 ^ 33"
  shows "fst (continuation_loop m p n i s) \<noteq> -2 \<and> fst (continuation_loop m p n i s) + 1 \<noteq> -2"
  using assms
proof (induction m p n i s rule: continuation_loop.induct)
  case (1 m p n i s)
  define r where "r = mb_expected_remaining_bytes s"
  define s1 where "s1 = s\<lparr>mb_buffer := push_bit 6 (mb_buffer s) OR ucast (m (p + i) AND 0x3F), mb_expected_remaining_bytes := r - 1\<rparr>"
  have r: "0 < unat r" "unat i + unat r \<le> unat n" "unat i + unat r < 2 ^ 33" using "1.prems" by (simp_all add: r_def word_less_nat_alt)
  then have i: "i < n" by (simp add: word_less_nat_alt)
  then have u: "unat (i + 1) = Suc (unat i)" by (rule unat_plus1_less)
  have r1: "unat (r - 1) = unat r - 1" using r(1) by (intro unat_minus_one) auto
  have loop: "continuation_loop m p n i s = (if m (p + i) AND 0xC0 \<noteq> 0x80 then (-1, None, s, True)
      else if r - 1 = 0 then if bad_character s1 then (-1, None, s1, True) else (i + 1, Some (mb_buffer s1), s1, False) else continuation_loop m p n (i + 1) s1)"
    using i "1.prems"(1) by (subst continuation_loop.simps) (simp add: Let_def s1_def r_def)
  have "unat (i + 1) < 2 ^ 33 + 1" using u r by simp
  then have "i + 1 \<noteq> -2" "i + 1 + 1 \<noteq> -2" using u r by (auto simp: word_unat_eq_iff unat_word_ariths)
  moreover have "fst (continuation_loop m p n (i + 1) s1) \<noteq> -2 \<and> fst (continuation_loop m p n (i + 1) s1) + 1 \<noteq> -2"
    if "m (p + i) AND 0xC0 = 0x80" "r - 1 \<noteq> 0"
  proof -
    have "unat r \<noteq> 1" using that(2) by (metis diff_self unat_1 word_unat_eq_iff)
    then have "1 < unat r" using r(1) by simp
    then show ?thesis using "1.IH" [of "m (p + i)" s1] i "1.prems"(1) that r r1 u by (auto simp: s1_def r_def word_less_nat_alt)
  qed
  ultimately show ?case unfolding loop by simp
qed

lemma mbrtowc_not_short: "fst (mbrtowc m p (-1) s) \<noteq> -2"
proof -
  have big: "unat (-1 :: u64) = 2 ^ 64 - 1" "unat (-1 - 1 :: u64) = 2 ^ 64 - 2" by (simp_all add: unsigned_minus_1_eq_mask mask_eq_exp_minus_1)
  have l32: "unat (w :: u32) < 2 ^ 32" for w using unsigned_less [of w, where ?'a = nat] by simp
  have a: "fst (continuation_loop m p (-1) 0 s) \<noteq> -2" if "mb_expected_remaining_bytes s > 0"
    using loop_not_short [OF that, of 0 "-1" m p] l32 [of "mb_expected_remaining_bytes s"] big by simp
  have b: "fst (continuation_loop m (p + 1) (-1 - 1) 0 s') \<noteq> -2 \<and> fst (continuation_loop m (p + 1) (-1 - 1) 0 s') + 1 \<noteq> -2"
    if "mb_expected_remaining_bytes s' = of_nat (k - 1)" "2 \<le> k" "k \<le> 4" for s' k
  proof -
    have "k \<in> {2, 3, 4}" using that(2,3) by force
    then show ?thesis using that(1) big by (intro loop_not_short) (auto simp: word_less_nat_alt)
  qed
  show ?thesis
  proof (cases "p = 0 \<or> mb_expected_remaining_bytes s > 0 \<or> m p AND 0x80 = 0 \<or> leading_ones (m p) 0 < 2 \<or> 4 < leading_ones (m p) 0")
    case True
    then show ?thesis using a by (auto simp: mbrtowc_def handle_continuation_bytes_def Let_def)
  next
    case False
    define k where "k = leading_ones (m p) 0"
    define s' where "s' = \<lparr>mb_buffer = ucast (m p AND (drop_bit k 0x80 - 1)), mb_expected_length = of_nat k, mb_expected_remaining_bytes = of_nat (k - 1)\<rparr>"
    have k: "2 \<le> k" "k \<le> 4" using False by (auto simp: k_def not_less)
    have "fst (mbrtowc m p (-1) s) = (let r = fst (continuation_loop m (p + 1) (-1 - 1) 0 s') in if sint r > 0 then r + 1 else r)"
      using False k unfolding mbrtowc_def handle_continuation_bytes_def Let_def k_def [symmetric] s'_def [symmetric] by (auto split: prod.splits)
    then show ?thesis using b [OF _ k, of s'] by (simp add: s'_def Let_def)
  qed
qed

lemma mbsrtowcs_loop_returns: "mbsrtowcs_loop m d src len i ptr out s \<noteq> Aborted"
proof (induction m d src len i ptr out s rule: mbsrtowcs_loop.induct)
  case (1 m d src len i ptr out s)
  then show ?case using mbrtowc_not_short [of m ptr s]
    by (subst mbsrtowcs_loop.simps) (auto simp: Let_def split: prod.splits, blast+)
qed

lemma cstr_append: "cstr m p (xs @ ys) \<longleftrightarrow> 0 \<notin> set xs \<and> (\<forall>j < length xs. m (p + of_nat j) = xs ! j) \<and> cstr m (p + of_nat (length xs)) ys"
proof (induction xs arbitrary: p)
  case (Cons x xs)
  have "(\<forall>j < length (x # xs). m (p + of_nat j) = (x # xs) ! j) \<longleftrightarrow> m p = x \<and> (\<forall>j < length xs. m (p + 1 + of_nat j) = xs ! j)"
    by (auto simp: less_Suc_eq_0_disj algebra_simps)
  then show ?case using Cons [of "p + 1"] by (auto simp: algebra_simps)
qed simp

definition utf8_string :: "u32 list \<Rightarrow> u8 list" where
  "utf8_string cs = concat (map utf8 cs)"

lemma mbsrtowcs_loop_string:
  assumes "\<forall>c \<in> set cs. code_point c \<and> c \<noteq> 0" "cstr m ptr (utf8_string cs)" "ptr \<noteq> 0" "unat ptr + length (utf8_string cs) < 2 ^ 64"
    "mb_expected_remaining_bytes s = 0" "unat i \<le> unat len"
  shows "\<exists>s'. mb_expected_remaining_bytes s' = 0 \<and> mbsrtowcs_loop m True src len i ptr out s =
    (if unat i + length cs < unat len then Returned (i + of_nat (length cs)) (out @ cs @ [0]) 0 s' False
     else Returned len (out @ take (unat len - unat i) cs) (ptr + of_nat (length (utf8_string (take (unat len - unat i) cs)))) s' False)"
  using assms
proof (induction cs arbitrary: i ptr out s)
  case Nil
  then have "m ptr = 0" by (simp add: utf8_string_def)
  then have "mbrtowc m ptr (-1) s = (0, Some 0, s, False)" using Nil by (simp add: mbrtowc_def Let_def)
  then show ?case using Nil by (intro exI [of _ s]) (subst mbsrtowcs_loop.simps, auto simp: word_less_nat_alt utf8_string_def)
next
  case (Cons c cs)
  show ?case
  proof (cases "i < len")
    case False
    then have "unat len = unat i" using Cons.prems(6) by (simp add: word_less_nat_alt)
    then show ?thesis using False Cons.prems by (intro exI [of _ s]) (subst mbsrtowcs_loop.simps, simp add: utf8_string_def)
  next
    case True
    have c: "code_point c" "c \<noteq> 0" using Cons.prems(1) by auto
    have str: "utf8_string (c # cs) = utf8 c @ utf8_string cs" by (simp add: utf8_string_def)
    have m: "\<forall>j < utf8_length c. m (ptr + of_nat j) = utf8 c ! j" "cstr m (ptr + of_nat (utf8_length c)) (utf8_string cs)"
      using Cons.prems(2) unfolding str cstr_append length_utf8 by simp_all
    have l: "0 < utf8_length c" "utf8_length c \<le> 4" by (simp_all add: utf8_length_def)
    obtain s1 where s1: "mbrtowc m ptr (-1) s = (of_nat (utf8_length c), Some c, s1, False)" "mb_expected_remaining_bytes s1 = 0"
      using mbrtowc_first [OF c Cons.prems(5,3), of "-1" m] m(1) Cons.prems(5) l(2) by (force simp: unsigned_minus_1_eq_mask mask_eq_exp_minus_1 split: if_splits)
    have n0: "(of_nat (utf8_length c) :: u64) \<noteq> 0" using l by (simp add: word_unat_eq_iff unat_of_nat take_bit_nat_eq_self)
    have u: "unat (i + 1) = Suc (unat i)" using True by (rule unat_plus1_less)
    have up: "unat (ptr + of_nat (utf8_length c)) = unat ptr + utf8_length c"
      using Cons.prems(4) l(2) unfolding str by (subst unat_add64) (simp_all add: unat_of_nat take_bit_nat_eq_self length_utf8)
    have step: "mbsrtowcs_loop m True src len i ptr out s = mbsrtowcs_loop m True src len (i + 1) (ptr + of_nat (utf8_length c)) (out @ [c]) s1"
      using True s1(1) n0 small_ret [OF l(2)] by (subst mbsrtowcs_loop.simps) simp
    have "ptr + of_nat (utf8_length c) \<noteq> 0" using up Cons.prems(3) by (auto simp: word_unat_eq_iff)
    from Cons.IH [OF _ m(2) this _ s1(2), of "i + 1" "out @ [c]"] obtain s' where s': "mb_expected_remaining_bytes s' = 0"
      "mbsrtowcs_loop m True src len (i + 1) (ptr + of_nat (utf8_length c)) (out @ [c]) s1 =
       (if unat (i + 1) + length cs < unat len then Returned (i + 1 + of_nat (length cs)) ((out @ [c]) @ cs @ [0]) 0 s' False
        else Returned len ((out @ [c]) @ take (unat len - unat (i + 1)) cs) (ptr + of_nat (utf8_length c) + of_nat (length (utf8_string (take (unat len - unat (i + 1)) cs)))) s' False)"
      using Cons.prems(1,4) up True u unfolding str by (auto simp: length_utf8 word_less_nat_alt)
    obtain k where k: "unat len - unat i = Suc k" "unat len - unat (i + 1) = k" using True u by (cases "unat len - unat i") (auto simp: word_less_nat_alt)
    have "utf8_string (take (Suc k) (c # cs)) = utf8 c @ utf8_string (take k cs)" by (simp add: utf8_string_def)
    then show ?thesis using step s' u k by (intro exI [of _ s']) (simp add: length_utf8 algebra_simps)
  qed
qed

section \<open>Input that ends too early\<close>

text \<open>
  The length that the first byte announces (zero when it cannot start a character of several bytes), and an input of \<open>k\<close> bytes that is too short: it is empty, or it has fewer
  bytes than the first one announces and all the others are continuation bytes.
\<close>

definition announced :: "u8 \<Rightarrow> nat" where
  "announced b = (if b AND 0xE0 = 0xC0 then 2 else if b AND 0xF0 = 0xE0 then 3 else if b AND 0xF8 = 0xF0 then 4 else 0)"

definition cut_short :: "mem \<Rightarrow> u64 \<Rightarrow> nat \<Rightarrow> bool" where
  "cut_short m p k \<longleftrightarrow> k = 0 \<or> k < announced (m p) \<and> (\<forall>j. 0 < j \<and> j < k \<longrightarrow> m (p + of_nat j) AND 0xC0 = 0x80)"

lemma u8_eq_iff: "(a :: u8) = b \<longleftrightarrow> (\<forall>n \<in> {0, 1, 2, 3, 4, 5, 6, 7}. bit a n = bit b n)"
proof
  assume h: "\<forall>n \<in> {0, 1, 2, 3, 4, 5, 6, 7}. bit a n = bit b n"
  show "a = b"
  proof (rule bit_word_eqI)
    fix n assume "n < LENGTH(8)"
    then have "n \<in> {0, 1, 2, 3, 4, 5, 6, 7}" by auto
    then show "bit a n = bit b n" using h by blast
  qed
qed simp

lemma announced_ones: "announced b = (if leading_ones b 0 \<in> {2, 3, 4} then leading_ones b 0 else 0)"
proof -
  have "b AND 0xE0 = 0xC0 \<longleftrightarrow> leading_ones b 0 = 2" "b AND 0xF0 = 0xE0 \<longleftrightarrow> leading_ones b 0 = 3" "b AND 0xF8 = 0xF0 \<longleftrightarrow> leading_ones b 0 = 4"
    unfolding leading_ones_cases u8_eq_iff by (auto simp: bit_and_iff)
  then show ?thesis by (simp add: announced_def)
qed

lemma loop_short_iff:
  assumes "mb_expected_remaining_bytes s > 0" "unat i + unat (mb_expected_remaining_bytes s) < 2 ^ 33"
  shows "fst (continuation_loop m p n i s) = -2 \<longleftrightarrow> unat n < unat i + unat (mb_expected_remaining_bytes s) \<and>
    (\<forall>j. unat i \<le> j \<and> j < unat n \<longrightarrow> m (p + of_nat j) AND 0xC0 = 0x80)"
  using assms
proof (induction m p n i s rule: continuation_loop.induct)
  case (1 m p n i s)
  define r where "r = mb_expected_remaining_bytes s"
  define s1 where "s1 = s\<lparr>mb_buffer := push_bit 6 (mb_buffer s) OR ucast (m (p + i) AND 0x3F), mb_expected_remaining_bytes := r - 1\<rparr>"
  have r: "0 < unat r" "unat i + unat r < 2 ^ 33" using "1.prems" by (simp_all add: r_def word_less_nat_alt)
  have r1: "unat (r - 1) = unat r - 1" using r(1) by (intro unat_minus_one) auto
  show ?case
  proof (cases "i < n")
    case False
    then have "continuation_loop m p n i s = (-2, None, s, False)" by (subst continuation_loop.simps) simp
    then show ?thesis using False r by (auto simp: word_less_nat_alt r_def [symmetric])
  next
    case True
    then have u: "unat (i + 1) = Suc (unat i)" "unat i < unat n" by (simp_all add: unat_plus1_less word_less_nat_alt)
    have loop: "continuation_loop m p n i s = (if m (p + i) AND 0xC0 \<noteq> 0x80 then (-1, None, s, True)
        else if r - 1 = 0 then if bad_character s1 then (-1, None, s1, True) else (i + 1, Some (mb_buffer s1), s1, False) else continuation_loop m p n (i + 1) s1)"
      using True "1.prems"(1) by (subst continuation_loop.simps) (simp add: Let_def s1_def r_def)
    consider "m (p + i) AND 0xC0 \<noteq> 0x80" | "m (p + i) AND 0xC0 = 0x80" "r - 1 = 0" | "m (p + i) AND 0xC0 = 0x80" "r - 1 \<noteq> 0" by blast
    then show ?thesis
    proof cases
      case 1
      have "p + of_nat (unat i) = p + i" by simp
      then show ?thesis using 1 u(2) unfolding loop by (auto intro!: exI [of _ "unat i"])
    next
      case 2
      have "unat (i + 1) < 2 ^ 33 + 1" using u r by simp
      then have "i + 1 \<noteq> -2" by (auto simp: word_unat_eq_iff)
      moreover have "unat r = 1" using r1 2(2) r(1) by simp
      ultimately show ?thesis using 2 u(2) unfolding loop r_def [symmetric] by simp
    next
      case 3
      have "0 < unat (r - 1)" using 3(2) by (simp add: unat_gt_0)
      then have "fst (continuation_loop m p n (i + 1) s1) = -2 \<longleftrightarrow> unat n < unat (i + 1) + unat (r - 1) \<and>
          (\<forall>j. unat (i + 1) \<le> j \<and> j < unat n \<longrightarrow> m (p + of_nat j) AND 0xC0 = 0x80)"
        using "1.IH" [of "m (p + i)" s1] True "1.prems"(1) 3 r r1 u by (auto simp: s1_def r_def word_less_nat_alt)
      moreover have "(\<forall>j. unat i \<le> j \<and> j < unat n \<longrightarrow> m (p + of_nat j) AND 0xC0 = 0x80) \<longleftrightarrow>
          (\<forall>j. unat (i + 1) \<le> j \<and> j < unat n \<longrightarrow> m (p + of_nat j) AND 0xC0 = 0x80)"
      proof (intro iffI allI impI)
        fix j assume h: "\<forall>j. unat (i + 1) \<le> j \<and> j < unat n \<longrightarrow> m (p + of_nat j) AND 0xC0 = 0x80" "unat i \<le> j \<and> j < unat n"
        show "m (p + of_nat j) AND 0xC0 = 0x80" using h 3(1) u(1) by (cases "j = unat i") auto
      qed (use u(1) in auto)
      ultimately show ?thesis using 3 r r1 u unfolding loop r_def [symmetric] by simp
    qed
  qed
qed

lemma mbrtowc_short_iff:
  assumes s: "mb_expected_remaining_bytes s = 0" and p: "p \<noteq> 0"
  shows "fst (mbrtowc m p k s) = -2 \<longleftrightarrow> cut_short m p (unat k)"
proof (cases "k \<noteq> 0 \<and> leading_ones (m p) 0 \<in> {2, 3, 4}")
  case False
  have "leading_ones (m p) 0 \<notin> {2, 3, 4} \<Longrightarrow> leading_ones (m p) 0 < 2 \<or> leading_ones (m p) 0 > 4" by force
  then show ?thesis using False s p by (auto simp: mbrtowc_def cut_short_def announced_ones Let_def unat_eq_zero)
next
  case True
  define n where "n = leading_ones (m p) 0"
  have n: "n \<in> {2, 3, 4}" using True by (simp add: n_def)
  let ?s = "\<lparr>mb_buffer = ucast (m p AND (drop_bit n 0x80 - 1)), mb_expected_length = of_nat n, mb_expected_remaining_bytes = of_nat (n - 1)\<rparr> :: mbstate"
  let ?r = "fst (continuation_loop m (p + 1) (k - 1) 0 ?s)"
  have "bit (m p) 7" using n unfolding n_def leading_ones_bits by (auto split: if_splits)
  then have hi: "m p AND 0x80 \<noteq> 0" using and_exp_eq_0_iff_not_bit [of "m p" 7] by simp
  have "fst (mbrtowc m p k s) = (if sint ?r > 0 then ?r + 1 else ?r)"
    using s p True hi n by (auto simp: mbrtowc_def Let_def handle_continuation_bytes_def n_def [symmetric] split: prod.splits)
  moreover have "?r + 1 = -2 \<Longrightarrow> ?r = -3" by (simp add: eq_neg_iff_add_eq_0 add.assoc)
  then have "sint ?r > 0 \<Longrightarrow> ?r + 1 \<noteq> -2" by fastforce
  moreover have "sint ?r > 0 \<Longrightarrow> ?r \<noteq> -2" by fastforce
  ultimately have a: "fst (mbrtowc m p k s) = -2 \<longleftrightarrow> ?r = -2" by presburger
  have pos: "mb_expected_remaining_bytes ?s > 0" "unat (mb_expected_remaining_bytes ?s) = n - 1" using n by (auto simp: word_less_nat_alt)
  have k: "unat (k - 1) = unat k - 1" "0 < unat k" using True by (auto simp: unat_minus_one unat_gt_0)
  have e: "(\<forall>j. j < unat k - 1 \<longrightarrow> m (p + 1 + of_nat j) AND 0xC0 = 0x80) \<longleftrightarrow> (\<forall>j. 0 < j \<and> j < unat k \<longrightarrow> m (p + of_nat j) AND 0xC0 = 0x80)"
  proof (intro iffI allI impI)
    fix j assume h: "\<forall>j. j < unat k - 1 \<longrightarrow> m (p + 1 + of_nat j) AND 0xC0 = 0x80" "0 < j \<and> j < unat k"
    then obtain i where i: "j = Suc i" by (cases j) auto
    then show "m (p + of_nat j) AND 0xC0 = 0x80" using h(1) [rule_format, of i] h(2) by (simp add: add.assoc)
  next
    fix j assume h: "\<forall>j. 0 < j \<and> j < unat k \<longrightarrow> m (p + of_nat j) AND 0xC0 = 0x80" "j < unat k - 1"
    then show "m (p + 1 + of_nat j) AND 0xC0 = 0x80" using h(1) [rule_format, of "Suc j"] by (simp add: add.assoc)
  qed
  have "?r = -2 \<longleftrightarrow> unat (k - 1) < n - 1 \<and> (\<forall>j. j < unat k - 1 \<longrightarrow> m (p + 1 + of_nat j) AND 0xC0 = 0x80)"
    using loop_short_iff [OF pos(1), of 0 m "p + 1" "k - 1"] pos(2) n k(1) by auto
  moreover have "announced (m p) = n" using n by (simp add: announced_ones n_def)
  ultimately show ?thesis using n k unfolding a e by (auto simp: cut_short_def)
qed

section \<open>Properties\<close>

text \<open>C24. \<open>mbrtowc\<close> is a decoder of UTF-8. Between characters, a call stores a character exactly when the bytes start with the shortest
  encoding of a code point below \<open>0x110000\<close>; it then stores that code point and returns the length of the encoding, zero for the null
  character. When it stores nothing, it returns \<open>-2\<close> exactly when the input is empty, or has fewer bytes than its first byte announces and
  all of those after the first are continuation bytes; in every other case it returns \<open>-1\<close> and sets \<open>EILSEQ\<close>. (The first byte alone does not show whether
  the character will be a legal one: \<open>0xC0\<close>, which starts no encoding, gives \<open>-2\<close>.)\<close>

theorem mbrtowc_decodes_utf8:
  assumes "mb_expected_remaining_bytes s = 0" and "p \<noteq> 0"
  shows "case mbrtowc m p k s of (ret, out, s', e) \<Rightarrow>
    (\<forall>c. out = Some c \<longleftrightarrow> code_point c \<and> length (utf8 c) \<le> unat k \<and> mem_bytes m p (length (utf8 c)) = utf8 c) \<and>
    (case out of
       None \<Rightarrow> if cut_short m p (unat k) then ret = -2 \<and> \<not> e else ret = -1 \<and> e
     | Some c \<Rightarrow> ret = (if c = 0 then 0 else of_nat (length (utf8 c))) \<and> \<not> e)"
proof -
  obtain ret out s' e where call: "mbrtowc m p k s = (ret, out, s', e)" by (metis prod_cases4)
  have short: "ret = -2 \<longleftrightarrow> cut_short m p (unat k)" using mbrtowc_short_iff [OF assms, of m k] call by simp
  note snd = mbrtowc_sound [OF assms call]
  have complete: "out = Some c" if c: "code_point c" "utf8_length c \<le> unat k" "\<forall>j < utf8_length c. m (p + of_nat j) = utf8 c ! j" for c
  proof (cases "c = 0")
    case True
    then have "m p = 0" "k \<noteq> 0" using c(2,3) by (auto simp: utf8_def utf8_length_def lead_byte_def)
    then show ?thesis using call assms True by (simp add: mbrtowc_def)
  next
    case False
    have "0 < unat k" using c(2) by (auto simp: utf8_length_def split: if_splits)
    then show ?thesis using mbrtowc_first [OF c(1) False assms, of k m] c(2,3) call by simp
  qed
  have "out = Some c \<longleftrightarrow> code_point c \<and> length (utf8 c) \<le> unat k \<and> mem_bytes m p (length (utf8 c)) = utf8 c" for c
  proof
    assume "out = Some c"
    then show "code_point c \<and> length (utf8 c) \<le> unat k \<and> mem_bytes m p (length (utf8 c)) = utf8 c" using snd unfolding utf8_at by (simp add: length_utf8)
  next
    assume "code_point c \<and> length (utf8 c) \<le> unat k \<and> mem_bytes m p (length (utf8 c)) = utf8 c"
    then show "out = Some c" using complete [of c] unfolding utf8_at by (simp add: length_utf8)
  qed
  moreover have "case out of None \<Rightarrow> if cut_short m p (unat k) then ret = -2 \<and> \<not> e else ret = -1 \<and> e
      | Some c \<Rightarrow> ret = (if c = 0 then 0 else of_nat (length (utf8 c))) \<and> \<not> e"
  proof (cases out)
    case None
    have "(-1 :: u64) \<noteq> -2" by simp
    then show ?thesis using snd None short by auto
  qed (use snd in \<open>simp add: length_utf8\<close>)
  ultimately show ?thesis unfolding call by simp
qed

definition euro_bytes :: mem where
  "euro_bytes = store_bytes 0x1000 [0xE2, 0x82, 0xAC] (\<lambda>_. 0)"

lemma euro: "utf8 0x20AC = [0xE2, 0x82, 0xAC]" "code_point 0x20AC" "utf8 0xE9 = [0xC3, 0xA9]" "code_point 0xE9" "utf8 0x41 = [0x41]" "code_point 0x41"
  by (simp_all add: utf8_def utf8_length_def lead_byte_def cont_byte_def upt_rec code_point_def)

theorem mbrtowc_decodes_utf8_witness:
  "fst (snd (mbrtowc euro_bytes 0x1000 8 initial_mbstate)) = Some 0x20AC \<and> fst (mbrtowc euro_bytes 0x1000 2 initial_mbstate) = -2"
proof -
  have b: "mem_bytes euro_bytes 0x1000 (length (utf8 0x20AC)) = utf8 0x20AC" "length (utf8 0x20AC) \<le> 8" by (simp_all add: euro euro_bytes_def)
  have i: "mb_expected_remaining_bytes initial_mbstate = 0" by (simp add: initial_mbstate_def)
  note d = mbrtowc_decodes_utf8 [OF i, where p = "0x1000" and m = euro_bytes, simplified]
  have a: "fst (snd (mbrtowc euro_bytes 0x1000 8 initial_mbstate)) = Some 0x20AC"
    using d [where k = 8] b euro(2) by (auto split: prod.splits)
  have none: "\<exists>ret s e. mbrtowc euro_bytes 0x1000 2 initial_mbstate = (ret, None, s, e)"
  proof -
    have "out \<noteq> Some c" if "mbrtowc euro_bytes 0x1000 2 initial_mbstate = (ret, out, s, e)" for ret out s e c
    proof
      assume "out = Some c"
      then have c: "code_point c" "length (utf8 c) \<le> 2" "mem_bytes euro_bytes 0x1000 (length (utf8 c)) = utf8 c" using d [where k = 2] that by auto
      then have "fst (snd (mbrtowc euro_bytes 0x1000 8 initial_mbstate)) = Some c" using d [where k = 8] by (auto split: prod.splits)
      then have "c = 0x20AC" using a by simp
      then show False using c(2) euro(1) by simp
    qed
    then show ?thesis by (metis option.exhaust prod_cases4)
  qed
  have m: "euro_bytes 0x1000 = 0xE2" "euro_bytes 0x1001 = 0x82" by (simp_all add: euro_bytes_def store_bytes_def)
  have "euro_bytes (0x1000 + of_nat j) AND 0xC0 = 0x80" if "0 < j" "j < 2" for j
  proof -
    have "j = 1" using that by simp
    then show ?thesis using m(2) by simp
  qed
  then have "cut_short euro_bytes 0x1000 2" using m(1) by (simp add: cut_short_def announced_def)
  then have "fst (mbrtowc euro_bytes 0x1000 2 initial_mbstate) = -2" using none d [where k = 2] by auto
  then show ?thesis using a by simp
qed

text \<open>C26. \<open>mbrtowc\<close> is restartable. When the bytes of the encoding of a code point are handed to it in pieces of any lengths, one call after
  the other, all calls but the last return \<open>-2\<close>; the last one stores the code point and leaves the state between
  characters.\<close>

theorem mbrtowc_restartable:
  assumes "code_point c" and "c \<noteq> 0" and "mb_expected_remaining_bytes s = 0" and "p \<noteq> 0" and "unat p + length (utf8 c) \<le> 2 ^ 64"
    and "mem_bytes m p (length (utf8 c)) = utf8 c" and "length (utf8 c) \<le> sum_list (map unat ns)"
  shows "\<exists>k s'. mbrtowc_calls m p ns s = (of_nat k, Some c, s', False) \<and> 0 < k \<and> k \<le> length (utf8 c) \<and> mb_expected_remaining_bytes s' = 0"
  using calls_first [OF assms(1-4), of m ns] assms(5-7) unfolding utf8_at by (simp add: length_utf8)

theorem mbrtowc_restartable_witness:
  "\<exists>k s'. mbrtowc_calls euro_bytes 0x1000 [1, 0, 1, 5] initial_mbstate = (of_nat k, Some 0x20AC, s', False) \<and> 0 < k \<and> mb_expected_remaining_bytes s' = 0"
proof -
  have "mem_bytes euro_bytes 0x1000 (length (utf8 0x20AC)) = utf8 0x20AC" by (simp add: euro euro_bytes_def)
  then show ?thesis
    using mbrtowc_restartable [of "0x20AC" initial_mbstate "0x1000" euro_bytes "[1, 0, 1, 5]"] euro(1,2) by (auto simp: initial_mbstate_def)
qed

text \<open>C25. \<open>mbsrtowcs\<close> converts strings and never aborts. From a string with the encodings of code points it writes these code points: all of them
  and a null character, with \<open>*src\<close> set to null, when the destination has room for more than their number; otherwise as many
  as there is room for, with \<open>*src\<close> behind the last one converted.\<close>

theorem mbsrtowcs_decodes:
  assumes "\<forall>c \<in> set cs. code_point c \<and> c \<noteq> 0" and "cstr m src (utf8_string cs)" and "src \<noteq> 0" and "unat src + length (utf8_string cs) < 2 ^ 64"
    and "mb_expected_remaining_bytes s = 0"
  shows "(\<exists>s'. mbsrtowcs m True src len s =
      (if length cs < unat len then Returned (of_nat (length cs)) (cs @ [0]) 0 s' False
       else Returned len (take (unat len) cs) (src + of_nat (length (utf8_string (take (unat len) cs)))) s' False)) \<and>
    mbsrtowcs m' has_dest src' len' s'' \<noteq> Aborted"
proof -
  obtain s' where "mbsrtowcs_loop m True src len 0 src [] s =
      (if unat (0 :: u64) + length cs < unat len then Returned (0 + of_nat (length cs)) ([] @ cs @ [0]) 0 s' False
       else Returned len ([] @ take (unat len - unat (0 :: u64)) cs) (src + of_nat (length (utf8_string (take (unat len - unat (0 :: u64)) cs)))) s' False)"
    using mbsrtowcs_loop_string [OF assms, of 0 len src "[]"] by auto
  then show ?thesis using mbsrtowcs_loop_returns by (auto simp: mbsrtowcs_def)
qed

theorem mbsrtowcs_decodes_witness:
  "\<exists>s'. mbsrtowcs (store_bytes 0x1000 [0x41, 0xC3, 0xA9, 0xE2, 0x82, 0xAC] (\<lambda>_. 0)) True 0x1000 10 initial_mbstate = Returned 3 [0x41, 0xE9, 0x20AC, 0] 0 s' False"
proof -
  have u: "utf8_string [0x41, 0xE9, 0x20AC] = [0x41, 0xC3, 0xA9, 0xE2, 0x82, 0xAC]" by (simp add: utf8_string_def euro)
  have "cstr (store_bytes 0x1000 [0x41, 0xC3, 0xA9, 0xE2, 0x82, 0xAC] (\<lambda>_. 0)) 0x1000 (utf8_string [0x41, 0xE9, 0x20AC])"
    unfolding u by (simp add: store_bytes_def)
  then show ?thesis
    using mbsrtowcs_decodes [of "[0x41, 0xE9, 0x20AC]" "store_bytes 0x1000 [0x41, 0xC3, 0xA9, 0xE2, 0x82, 0xAC] (\<lambda>_. 0)" "0x1000" initial_mbstate 10]
    by (simp add: u euro initial_mbstate_def)
qed

end
