(* ===== verification/Fat_Names.thy ===== *)
theory Fat_Names
  imports Fat_File
begin

text \<open>
  Long file names: what \<open>create_inode\<close> stores for a name and what \<open>read_dirents\<close> makes of it; and the end of the
  loop over a directory.
\<close>

section \<open>Encoding of a long name\<close>

lemma units_Suc: "units (Suc n) bs = le16 bs # units n (drop 2 bs)"
proof -
  have "[0..<Suc n] = 0 # map Suc [0..<n]" by (simp add: upt_conv_Cons map_Suc_upt)
  then show ?thesis by (simp add: units_def add.commute comp_def)
qed

lemma units_bytes: "length us = n \<Longrightarrow> units n (concat (map bytes16 us) @ zs) = us"
proof (induction us arbitrary: n)
  case (Cons u us)
  then show ?case by (cases n) (simp_all add: units_Suc del: upt_Suc)
qed (simp add: units_def)

lemma length_concat_bytes16 [simp]: "length (concat (map bytes16 us)) = 2 * length us"
  by (induction us) simp_all

definition lfn_shape :: "Fat16LFNEntry \<Rightarrow> bool" where
  "lfn_shape e \<longleftrightarrow> length (lfn_unicode_name_1 e) = 5 \<and> length (lfn_unicode_name_2 e) = 6 \<and> length (lfn_unicode_name_3 e) = 2"

lemma length_encode_lfn: "lfn_shape e \<Longrightarrow> length (encode_lfn e) = 32"
  by (simp add: encode_lfn_def lfn_shape_def)

lemma decode_encode_lfn:
  assumes "lfn_shape e"
  shows "lfn_unicode_name_1 (decode_lfn (encode_lfn e)) = lfn_unicode_name_1 e"
    and "lfn_unicode_name_2 (decode_lfn (encode_lfn e)) = lfn_unicode_name_2 e"
    and "lfn_unicode_name_3 (decode_lfn (encode_lfn e)) = lfn_unicode_name_3 e"
    and "lfn_attributes (decode_lfn (encode_lfn e)) = lfn_attributes e" and "lfn_zero_a (decode_lfn (encode_lfn e)) = lfn_zero_a e"
    and "lfn_zero_b (decode_lfn (encode_lfn e)) = lfn_zero_b e"
  using assms units_bytes [of "lfn_unicode_name_3 e" 2 "[]"]
  by (simp_all add: decode_lfn_def encode_lfn_def lfn_shape_def units_bytes nth_append)

section \<open>The name buffer\<close>

definition name_buffer :: "u8 list \<Rightarrow> u8 list" where
  "name_buffer p = p @ replicate (256 - length p) 0"

lemma name_buffer_update: "length p < 256 \<Longrightarrow> (name_buffer p)[length p := c] = name_buffer (p @ [c])"
proof -
  assume "length p < 256"
  then have "replicate (256 - length p) (0 :: u8) = 0 # replicate (256 - Suc (length p)) 0"
    by (metis Suc_diff_Suc replicate_Suc)
  then show ?thesis by (simp add: name_buffer_def)
qed

definition plain_char :: "u8 \<Rightarrow> bool" where
  "plain_char c \<longleftrightarrow> 0 < c \<and> c < 0x80"

lemma plain_char_unit: "c = 0 \<or> plain_char c \<Longrightarrow> (scast c :: u16) AND 0xFF00 = 0 \<and> ucast (scast c :: u16) = c \<and> ((scast c :: u16) = 0 \<longleftrightarrow> c = 0)"
proof -
  assume "c = 0 \<or> plain_char c"
  then have "unat c < 128" by (auto simp: plain_char_def word_less_nat_alt)
  then have "unat c \<in> set [0..<128]" by simp
  moreover have "\<forall>n \<in> set [0..<128]. let c = of_nat n :: u8 in (scast c :: u16) AND 0xFF00 = 0 \<and> ucast (scast c :: u16) = c \<and> ((scast c :: u16) = 0 \<longleftrightarrow> c = 0)"
    by code_simp
  ultimately have "let c = of_nat (unat c) :: u8 in (scast c :: u16) AND 0xFF00 = 0 \<and> ucast (scast c :: u16) = c \<and> ((scast c :: u16) = 0 \<longleftrightarrow> c = 0)" by blast
  then show ?thesis by (simp add: Let_def)
qed

lemma fill_units_done: "fill_units n True name = (replicate n 0xFFFF, True, name)"
  by (cases n) simp_all

lemma copy_units_done: "copy_units us (cur, buf, True) = Inr (cur, buf, True)"
  by (cases us) simp_all

lemma copy_fill_units:
  assumes "\<forall>c \<in> set name. plain_char c" and "fill_units n False name = (us, d, rest)" and "length p + min n (Suc (length name)) \<le> 256"
  shows "copy_units us (length p, name_buffer p, False) =
      Inr (length (p @ take n (name @ [0])), name_buffer (p @ take n (name @ [0])), d) \<and>
    d = (length name < n) \<and> (\<not> d \<longrightarrow> rest = drop n name) \<and> length us = n"
  using assms
proof (induction n arbitrary: name us d rest p)
  case (Suc n)
  show ?case
  proof (cases name)
    case Nil
    then show ?thesis using Suc.prems(2,3) plain_char_unit [of 0] name_buffer_update [of p 0]
      by (auto simp: fill_units_done copy_units_done Let_def)
  next
    case (Cons c cs)
    obtain us' d' rest' where f: "fill_units n False cs = (us', d', rest')" by (metis prod_cases3)
    have c: "plain_char c" "c \<noteq> 0" using Suc.prems(1) Cons by (auto simp: plain_char_def)
    have "length (p @ [c]) + min n (Suc (length cs)) \<le> 256" and "\<forall>x \<in> set cs. plain_char x" using Suc.prems(1,3) Cons by auto
    from Suc.IH [OF this(2) f this(1)] show ?thesis
      using Suc.prems(2,3) Cons f c plain_char_unit [of c] name_buffer_update [of p c] by (auto simp: Let_def)
  qed
qed (simp add: name_buffer_def)

lemma take_more: "take m xs @ take n (drop m xs) = take (m + n) xs"
  by (simp add: take_add)

text \<open>One entry carries the next 13 characters, the terminator included.\<close>

lemma copy_make_lfn:
  assumes "\<forall>c \<in> set name. plain_char c" and "make_lfn ck cnt seq name = (e, rest)"
    and "length p + min 13 (Suc (length name)) \<le> 256"
  shows "lfn_shape e" and "13 \<le> length name \<Longrightarrow> rest = drop 13 name"
    and "copy_lfn (decode_lfn (encode_lfn e)) (length p, name_buffer p) =
      Inr (length (p @ take 13 (name @ [0])), name_buffer (p @ take 13 (name @ [0])))"
proof -
  let ?s = "name @ [0]"
  obtain us1 d1 n1 where f1: "fill_units 5 False name = (us1, d1, n1)" by (metis prod_cases3)
  obtain us2 d2 n2 where f2: "fill_units 6 d1 n1 = (us2, d2, n2)" by (metis prod_cases3)
  obtain us3 d3 n3 where f3: "fill_units 2 d2 n2 = (us3, d3, n3)" by (metis prod_cases3)
  have e: "e = \<lparr>lfn_sequence_number = of_nat (cnt - seq) AND 0x3F, lfn_is_last_in_sequence = (seq = 1),
           lfn_unicode_name_1 = us1, lfn_attributes = FILE_ATTRIBUTES_LFN, lfn_zero_a = 0, lfn_checksum = ck,
           lfn_unicode_name_2 = us2, lfn_zero_b = 0, lfn_unicode_name_3 = us3\<rparr>" and rest: "rest = n3"
    using assms(2) f1 f2 f3 by (simp_all add: make_lfn_def)
  have c1: "copy_units us1 (length p, name_buffer p, False) = Inr (length (p @ take 5 ?s), name_buffer (p @ take 5 ?s), d1)"
    "d1 = (length name < 5)" "\<not> d1 \<Longrightarrow> n1 = drop 5 name" "length us1 = 5"
    using copy_fill_units [OF assms(1) f1, of p] assms(3) by auto
  have c2: "copy_units us2 (length (p @ take 5 ?s), name_buffer (p @ take 5 ?s), d1) = Inr (length (p @ take 11 ?s), name_buffer (p @ take 11 ?s), d2)
    \<and> d2 = (length name < 11) \<and> (\<not> d2 \<longrightarrow> n2 = drop 11 name) \<and> length us2 = 6"
  proof (cases d1)
    case True
    then show ?thesis using f2 c1(2) by (auto simp: fill_units_done copy_units_done)
  next
    case False
    have n1: "n1 @ [0] = drop 5 ?s" "\<forall>c \<in> set n1. plain_char c" using False c1(2,3) assms(1) by (auto dest: in_set_dropD)
    have "length (p @ take 5 ?s) + min 6 (Suc (length n1)) \<le> 256" using assms(3) c1(2,3) False by auto
    moreover have "fill_units 6 False n1 = (us2, d2, n2)" using f2 False by simp
    moreover have eq: "(p @ take 5 ?s) @ take 6 (drop 5 ?s) = p @ take 11 ?s" using take_more [of 5 ?s 6] by simp
    ultimately have "copy_units us2 (length (p @ take 5 ?s), name_buffer (p @ take 5 ?s), False) =
        Inr (length (p @ take 11 ?s), name_buffer (p @ take 11 ?s), d2) \<and>
      d2 = (length n1 < 6) \<and> (\<not> d2 \<longrightarrow> n2 = drop 6 n1) \<and> length us2 = 6"
      using copy_fill_units [OF n1(2), of 6 us2 d2 n2 "p @ take 5 ?s"] unfolding n1(1) eq by blast
    moreover have "length n1 < 6 \<longleftrightarrow> length name < 11" "drop 6 n1 = drop 11 name" using c1(2,3) False by auto
    ultimately show ?thesis using False by simp
  qed
  have c3: "copy_units us3 (length (p @ take 11 ?s), name_buffer (p @ take 11 ?s), d2) = Inr (length (p @ take 13 ?s), name_buffer (p @ take 13 ?s), d3)
    \<and> d3 = (length name < 13) \<and> (\<not> d3 \<longrightarrow> n3 = drop 13 name) \<and> length us3 = 2"
  proof (cases d2)
    case True
    then show ?thesis using f3 c2 by (auto simp: fill_units_done copy_units_done)
  next
    case False
    have n2: "n2 @ [0] = drop 11 ?s" "\<forall>c \<in> set n2. plain_char c" using False c2 assms(1) by (auto dest: in_set_dropD)
    have "length (p @ take 11 ?s) + min 2 (Suc (length n2)) \<le> 256" using assms(3) c2 False by auto
    moreover have "fill_units 2 False n2 = (us3, d3, n3)" using f3 False by simp
    moreover have eq: "(p @ take 11 ?s) @ take 2 (drop 11 ?s) = p @ take 13 ?s" using take_more [of 11 ?s 2] by simp
    ultimately have "copy_units us3 (length (p @ take 11 ?s), name_buffer (p @ take 11 ?s), False) =
        Inr (length (p @ take 13 ?s), name_buffer (p @ take 13 ?s), d3) \<and>
      d3 = (length n2 < 2) \<and> (\<not> d3 \<longrightarrow> n3 = drop 2 n2) \<and> length us3 = 2"
      using copy_fill_units [OF n2(2), of 2 us3 d3 n3 "p @ take 11 ?s"] unfolding n2(1) eq by blast
    moreover have "length n2 < 2 \<longleftrightarrow> length name < 13" "drop 2 n2 = drop 13 name" using c2 False by auto
    ultimately show ?thesis using False by simp
  qed
  show shape: "lfn_shape e" using c1(4) c2 c3 by (simp add: e lfn_shape_def)
  show "rest = drop 13 name" if "13 \<le> length name" using c3 rest that by simp
  show "copy_lfn (decode_lfn (encode_lfn e)) (length p, name_buffer p) = Inr (length (p @ take 13 ?s), name_buffer (p @ take 13 ?s))"
    unfolding copy_lfn_def using c1(1) c2 c3 by (simp add: decode_encode_lfn [OF shape]) (simp add: e)
qed

lemma length_make_lfns:
  "\<forall>c \<in> set name. plain_char c \<Longrightarrow> n \<noteq> 0 \<longrightarrow> 13 * (n - 1) \<le> length name \<Longrightarrow> length name < 256 \<Longrightarrow> length (make_lfns ck cnt n name) = 32 * n"
proof (induction n arbitrary: name)
  case (Suc n)
  obtain e rest where m: "make_lfn ck cnt n name = (e, rest)" by (metis prod.exhaust)
  note c = copy_make_lfn [OF Suc.prems(1) m, of "[]"]
  have "length (make_lfns ck cnt n rest) = 32 * n"
  proof (cases n)
    case (Suc k)
    have rest: "rest = drop 13 name" using c(2) Suc.prems(2) Suc by simp
    show ?thesis by (rule Suc.IH) (use Suc.prems Suc rest in \<open>auto dest: in_set_dropD\<close>)
  qed simp
  with m length_encode_lfn [OF c(1)] show ?case by simp
qed simp

lemma copy_make_lfns:
  assumes "\<forall>c \<in> set name. plain_char c" and "13 * n \<le> length name" and "length name < 13 * Suc n" and "length p + length name < 256"
  shows "rfold copy_lfn (map (\<lambda>k. decode_lfn (take DIRENT_SIZE (drop (k * DIRENT_SIZE) (make_lfns ck cnt (Suc n) name)))) (rev [0..<Suc n])) (length p, name_buffer p) =
    Inr (length (p @ name @ [0]), name_buffer (p @ name @ [0]))"
  using assms
proof (induction n arbitrary: name p)
  case 0
  obtain e rest where m: "make_lfn ck cnt 0 name = (e, rest)" by (metis prod.exhaust)
  have "length p + min 13 (Suc (length name)) \<le> 256" using 0(4) by auto
  note c = copy_make_lfn [OF 0(1) m this]
  show ?case using m c(3) 0(3) length_encode_lfn [OF c(1)] by simp
next
  case (Suc n)
  obtain e rest where m: "make_lfn ck cnt (Suc n) name = (e, rest)" by (metis prod.exhaust)
  have "length p + min 13 (Suc (length name)) \<le> 256" using Suc.prems(4) by auto
  note c = copy_make_lfn [OF Suc.prems(1) m this]
  have rest: "rest = drop 13 name" using c(2) Suc.prems(2) by simp
  let ?R = "make_lfns ck cnt (Suc n) rest" and ?p = "p @ take 13 name"
  have R: "length ?R = 32 * Suc n"
    by (rule length_make_lfns) (use Suc.prems rest in \<open>auto dest: in_set_dropD\<close>)
  have all: "make_lfns ck cnt (Suc (Suc n)) name = ?R @ encode_lfn e" using m by simp
  have parts: "map (\<lambda>k. decode_lfn (take DIRENT_SIZE (drop (k * DIRENT_SIZE) (?R @ encode_lfn e)))) (rev [0..<Suc (Suc n)]) =
      decode_lfn (encode_lfn e) # map (\<lambda>k. decode_lfn (take DIRENT_SIZE (drop (k * DIRENT_SIZE) ?R))) (rev [0..<Suc n])"
  proof -
    have "take DIRENT_SIZE (drop (k * DIRENT_SIZE) (?R @ encode_lfn e)) = take DIRENT_SIZE (drop (k * DIRENT_SIZE) ?R)" if "k < Suc n" for k
      using that R by simp
    then show ?thesis using R length_encode_lfn [OF c(1)] by simp
  qed
  have "rfold copy_lfn (map (\<lambda>k. decode_lfn (take DIRENT_SIZE (drop (k * DIRENT_SIZE) ?R))) (rev [0..<Suc n])) (length ?p, name_buffer ?p) =
      Inr (length (?p @ rest @ [0]), name_buffer (?p @ rest @ [0]))"
    by (rule Suc.IH) (use Suc.prems rest in \<open>auto dest: in_set_dropD\<close>)
  moreover have "take 13 (name @ [0]) = take 13 name" "?p @ rest @ [0] = p @ name @ [0]" using Suc.prems(2) rest by simp_all
  ultimately show ?case unfolding all parts rfold.simps c(3) by (simp only: rbind_Inr)
qed

text \<open>Reading back the entries that are stored for a name gives the name, in a buffer padded with zeroes.\<close>

definition lfn_count :: "u8 list \<Rightarrow> nat" where
  "lfn_count name = (length name + CHARS_PER_LFN) div CHARS_PER_LFN"

lemma lfn_count_bounds: "13 * lfn_count name \<le> length name + 13" "length name < 13 * lfn_count name" "0 < lfn_count name"
  "length name < 256 \<Longrightarrow> lfn_count name \<le> 20"
  by (simp_all add: lfn_count_def)

lemma lfn_name_make_lfns:
  assumes "\<forall>c \<in> set name. plain_char c" and "length name < 256"
  shows "lfn_name (lfn_count name) (make_lfns ck cnt (lfn_count name) name) (replicate 256 0) = Inr (name_buffer name)"
proof -
  obtain m where n: "lfn_count name = Suc m" using lfn_count_bounds(3) [of name] gr0_implies_Suc by blast
  then have m: "13 * m \<le> length name" "length name < 13 * Suc m" "Suc m \<le> 20" using lfn_count_bounds [of name] assms(2) by simp_all
  have "replicate 256 0 = name_buffer []" by (simp add: name_buffer_def)
  moreover have "name_buffer (name @ [0]) = name_buffer name"
    using assms(2) by (simp add: name_buffer_def Suc_diff_Suc flip: replicate_Suc)
  ultimately show ?thesis unfolding n Let_def lfn_name_def
    using copy_make_lfns [OF assms(1) m(1,2), of "[]"] assms(2) m(3) by (simp del: upt_Suc make_lfns.simps)
qed

section \<open>The loop over a directory\<close>

text \<open>An entry in use that is not part of a long name.\<close>

definition live_entry :: "u8 list \<Rightarrow> bool" where
  "live_entry bs \<longleftrightarrow> bs ! 0 \<noteq> 0 \<and> bs ! 0 \<noteq> 0xE5 \<and> bs ! 11 AND 0xC0 = 0 \<and> bs ! 11 \<noteq> FILE_ATTRIBUTES_LFN \<and> le16 (drop 20 bs) = 0"

definition short_text :: "u8 list \<Rightarrow> u8 list" where
  "short_text filename = map lower_char (takeWhile (\<lambda>c. c \<noteq> 32) (take 8 filename))
     @ (if filename ! 8 \<noteq> 32 then [46] else []) @ map lower_char (takeWhile (\<lambda>c. c \<noteq> 32) (drop 8 filename))"

text \<open>What is listed for entry \<open>j\<close> of the root directory.\<close>

definition listed :: "'d Fat16Volume \<Rightarrow> (nat \<Rightarrow> u8) \<Rightarrow> nat \<Rightarrow> dirent" where
  "listed vol f j = \<lparr>d_ino = push_bit 16 (of_nat j),
     d_name = name_buffer (takeWhile (\<lambda>c. c \<noteq> 0) (short_text (take 11 (root_bytes vol f j))))\<rparr>"

lemma short_text_length: "length filename = 11 \<Longrightarrow> length (short_text filename) \<le> 12"
  using length_takeWhile_le [of "\<lambda>c. c \<noteq> 32" "take 8 filename"] length_takeWhile_le [of "\<lambda>c. c \<noteq> 32" "drop 8 filename"]
  by (simp add: short_text_def)

lemma copy_short_name:
  assumes "length filename = 11"
  shows "copy_name (short_name filename (replicate 256 0)) = Inr (name_buffer (takeWhile (\<lambda>c. c \<noteq> 0) (short_text filename)))"
proof -
  have n: "short_name filename (replicate 256 0) = name_buffer (short_text filename)"
    by (simp add: short_name_def short_text_def name_buffer_def Let_def)
  have l: "length (short_text filename) < 256" using short_text_length [OF assms] by simp
  then have z: "0 \<in> set (name_buffer (short_text filename))" by (simp add: name_buffer_def)
  have "takeWhile (\<lambda>c. c \<noteq> 0) (name_buffer (short_text filename)) = takeWhile (\<lambda>c. c \<noteq> 0) (short_text filename)"
  proof -
    have "takeWhile (\<lambda>c. c \<noteq> 0) (replicate m 0) = ([] :: u8 list)" for m by (cases m) simp_all
    then show ?thesis by (cases "0 \<in> set (short_text filename)")
        (auto simp: name_buffer_def takeWhile_append takeWhile_eq_all_conv [THEN iffD2])
  qed
  then show ?thesis unfolding n using z by (simp add: copy_name_def name_buffer_def Let_def)
qed

lemma take_drop_upt_Suc:
  "take cnt (drop idx [0..<Suc i]) = (if idx \<le> i \<and> i - idx < cnt then take cnt (drop idx [0..<i]) @ [i] else take cnt (drop idx [0..<i]))"
  by auto

lemma take_drop_upt_full: "cnt \<le> i - idx \<Longrightarrow> i \<le> k \<Longrightarrow> take cnt (drop idx [0..<k]) = take cnt (drop idx [0..<i])"
  by (rule nth_equalityI) auto

lemma make_inode_root: "i < 2 ^ 15 \<Longrightarrow> make_inode 0 (of_nat i) = Inr (push_bit 16 (of_nat i))"
proof -
  assume i: "i < 2 ^ 15"
  then have u: "unat (of_nat i :: u16) = i" by (simp add: unat_of_nat take_bit_nat_eq_self)
  then have "(ucast (of_nat i :: u16) :: u64) = of_nat i" by (metis of_nat_unat)
  with u i show ?thesis by (simp add: make_inode_def)
qed

context fat_volume
begin

lemma read_entry_ok:
  assumes "sound_layout vol cap" and "okay s" and "32 * j + 32 < root_size vol"
  shows "\<exists>s'. read_entries vol 0 j 1 s = Inr (root_bytes vol (content s) j, s') \<and> okay s' \<and> content s' = content s"
  using read_root_ok [OF assms] by (simp add: read_entries_def mult.commute)

lemma root_bytes_nth: "i < 11 \<Longrightarrow> take 11 (root_bytes vol f j) ! i = root_bytes vol f j ! i"
  by simp

text \<open>A deleted entry is read again and again.\<close>

lemma deleted_entry_loop:
  assumes "sound_layout vol cap" and "okay s" and "32 * rs_directory_i st + 32 < root_size vol"
    and "root_bytes vol (content s) (rs_directory_i st) ! 0 = 0xE5" and "root_bytes vol (content s) (rs_directory_i st) ! 11 AND 0xC0 = 0"
  shows "read_dirents_loop fuel vol mt 0 idx db vb cnt st s = Inl Diverged"
  using assms(2,4,5)
proof (induction fuel arbitrary: s)
  case (Suc fuel)
  obtain s1 where s1: "read_entries vol 0 (rs_directory_i st) 1 s = Inr (root_bytes vol (content s) (rs_directory_i st), s1)"
    "okay s1" "content s1 = content s" using read_entry_ok [OF assms(1) Suc.prems(1) assms(3)] by blast
  then show ?case using Suc.IH [of s1] Suc.prems by (simp add: sbind_def decode_entry_def Let_def)
qed simp

text \<open>Live entries are listed one by one up to the end marker.\<close>

lemma listing_loop:
  assumes "sound_layout vol cap" and "okay s" and "32 * k + 32 < root_size vol" and "k \<le> 2 ^ 15"
    and "\<And>j. j < k \<Longrightarrow> live_entry (root_bytes vol (content s) j)"
    and "root_bytes vol (content s) k ! 0 = 0" and "root_bytes vol (content s) k ! 11 AND 0xC0 = 0"
    and "rs_directory_i st + r = k" and "rs_entries_read st = rs_directory_i st" and "rs_file_name st = replicate 256 0"
    and "rs_dirents st = map (listed vol (content s)) (take cnt (drop idx [0..<rs_directory_i st]))" and "rs_entries_written st = length (rs_dirents st)"
  shows "\<exists>st' s'. read_dirents_loop (Suc r) vol mt 0 idx True vb cnt st s = Inr (st', s') \<and>
    rs_dirents st' = map (listed vol (content s)) (take cnt (drop idx [0..<k])) \<and> rs_entries_written st' = length (rs_dirents st') \<and>
    okay s' \<and> content s' = content s"
  using assms(2,5-)
proof (induction r arbitrary: st s)
  case 0
  obtain s1 where s1: "read_entries vol 0 k 1 s = Inr (root_bytes vol (content s) k, s1)" "okay s1" "content s1 = content s"
    using read_entry_ok [OF assms(1) 0(1) assms(3)] by blast
  with 0 show ?case by (auto simp: sbind_def decode_entry_def Let_def)
next
  case (Suc r)
  let ?i = "rs_directory_i st" let ?bs = "root_bytes vol (content s) ?i"
  have i: "?i < k" "32 * ?i + 32 < root_size vol" using Suc.prems(5) assms(3) by auto
  obtain s1 where s1: "read_entries vol 0 ?i 1 s = Inr (?bs, s1)" "okay s1" "content s1 = content s"
    using read_entry_ok [OF assms(1) Suc.prems(1) i(2)] by blast
  have live: "live_entry ?bs" by (rule Suc.prems(2) [OF i(1)])
  let ?st1 = "st\<lparr>rs_file_name := short_name (take 11 ?bs) (replicate 256 0), rs_entries_read := Suc ?i\<rparr>"
  have step: "read_dirents_loop (Suc (Suc r)) vol mt 0 idx True vb cnt st s =
     (if Suc ?i > idx \<and> rs_entries_written st \<ge> cnt then Inr (?st1, s1)
      else sbind (slift (if Suc ?i > idx then emit_entry mt 0 True vb ?st1 else Inr ?st1)) (\<lambda>st2.
        read_dirents_loop (Suc r) vol mt 0 idx True vb cnt (st2\<lparr>rs_file_name := replicate 256 0, rs_directory_i := Suc (rs_directory_i st2)\<rparr>)) s1)"
    using live s1(1) Suc.prems(6,7) 
    by (subst read_dirents_loop.simps(2)) (simp add: sbind_def decode_entry_def live_entry_def Let_def del: read_dirents_loop.simps)
  have nm: "copy_name (short_name (take 11 ?bs) (replicate 256 0)) = Inr (d_name (listed vol (content s) ?i))"
    using copy_short_name [of "take 11 ?bs"] by (simp add: listed_def root_bytes_def)
  have ino: "make_inode 0 (of_nat ?i) = Inr (d_ino (listed vol (content s) ?i))"
    using make_inode_root [of ?i] i(1) assms(4) by (simp add: listed_def)
  have len: "rs_entries_written st = min cnt (?i - idx)" using Suc.prems(8,9) by simp
  show ?case
  proof (cases "Suc ?i > idx \<and> rs_entries_written st \<ge> cnt")
    case True
    then have "take cnt (drop idx [0..<k]) = take cnt (drop idx [0..<?i])" using len i(1) by (intro take_drop_upt_full) auto
    then show ?thesis using step True s1(2,3) Suc.prems(8,9) by simp
  next
    case False
    define st2 where "st2 = (if Suc ?i > idx then ?st1\<lparr>rs_entries_written := Suc (rs_entries_written st), rs_dirents := rs_dirents st @ [listed vol (content s) ?i],
         rs_vnodes := rs_vnodes st @ (if vb then [\<lparr>vd_inode = d_ino (listed vol (content s) ?i), vd_mount_id = mt\<rparr>] else [])\<rparr> else ?st1)"
    define st3 where "st3 = st2\<lparr>rs_file_name := replicate 256 0, rs_directory_i := Suc ?i\<rparr>"
    have "(if Suc ?i > idx then emit_entry mt 0 True vb ?st1 else Inr ?st1) = Inr st2"
      using nm ino by (simp add: emit_entry_def st2_def Let_def)
    moreover have "rs_directory_i st2 = ?i" by (simp add: st2_def)
    ultimately have "read_dirents_loop (Suc (Suc r)) vol mt 0 idx True vb cnt st s = read_dirents_loop (Suc r) vol mt 0 idx True vb cnt st3 s1"
      using step False by (simp add: st3_def del: read_dirents_loop.simps)
    moreover have "rs_dirents st3 = map (listed vol (content s1)) (take cnt (drop idx [0..<Suc ?i]))" "rs_entries_written st3 = length (rs_dirents st3)"
      using False len Suc.prems(8,9) s1(3) by (auto simp: st3_def st2_def take_drop_upt_Suc upt_Suc_append simp del: upt_Suc)
    moreover have "rs_directory_i st3 = Suc ?i" "rs_entries_read st3 = Suc ?i" "rs_file_name st3 = replicate 256 0" by (simp_all add: st3_def st2_def)
    ultimately show ?thesis using Suc.IH [of s1 st3] s1(2,3) Suc.prems by (simp del: read_dirents_loop.simps upt_Suc)
  qed
qed

end

section \<open>Properties\<close>

text \<open>C16. Listing a directory. If the first \<open>k\<close> entries of the root directory are in use and have short names, and the next
  one marks the end, then \<open>read_dirents\<close> returns after at most \<open>k + 1\<close> iterations, with the entries from
  \<open>dirent_index\<close> on, at most \<open>dirent_count\<close> of them, in order.\<close>

theorem read_dirents_lists:
  assumes "dev_okay ok disk nsect (dev_id ino) cap (fat_dev fs)" and "fv_block_device vol = dev_vnode ino" and "sound_layout vol cap"
    and "unat (vd_mount_id v) < length (fat_mounts fs)" and "fat_mounts fs ! unat (vd_mount_id v) = vol" and "get_parent_cluster_num (vd_inode v) = 1"
    and "32 * k + 32 < root_size vol" and "k \<le> 2 ^ 15"
    and "\<forall>j < k. live_entry (root_bytes vol (dev_content disk (dev_id ino) (fat_dev fs)) j)"
    and "root_bytes vol (dev_content disk (dev_id ino) (fat_dev fs)) k ! 0 = 0"
    and "root_bytes vol (dev_content disk (dev_id ino) (fat_dev fs)) k ! 11 AND 0xC0 = 0"
  shows "\<exists>rs fs'. read_dirents (Suc k) v dirent_index True vnode_buf dirent_count fs = Inr (rs, fs') \<and>
    rs_dirents rs = map (listed vol (dev_content disk (dev_id ino) (fat_dev fs))) (take dirent_count (drop dirent_index [0..<k])) \<and>
    rs_entries_written rs = length (rs_dirents rs)"
proof -
  have vol: "vol\<lparr>fv_block_device := dev_vnode ino\<rparr> = vol" using assms(2) by (cases vol) simp
  let ?st = "\<lparr>rs_directory_i = 0, rs_file_name = replicate 256 0, rs_entries_read = 0, rs_entries_written = 0, rs_dirents = [], rs_vnodes = []\<rparr>"
  have "\<exists>st' s'. read_dirents_loop (Suc k) vol (vd_mount_id v) 0 dirent_index True vnode_buf dirent_count ?st (fat_dev fs) = Inr (st', s') \<and>
    rs_dirents st' = map (listed vol (dev_content disk (dev_id ino) (fat_dev fs))) (take dirent_count (drop dirent_index [0..<k])) \<and>
    rs_entries_written st' = length (rs_dirents st') \<and> dev_okay ok disk nsect (dev_id ino) cap s' \<and>
    dev_content disk (dev_id ino) s' = dev_content disk (dev_id ino) (fat_dev fs)"
    by (rule bfat.listing_loop [where vol = vol and ino = ino, unfolded vol, OF assms(3,1,7,8) _ assms(10,11)]) (use assms(9) in simp_all)
  then show ?thesis using assms(4-6)
    by (auto simp: read_dirents_def get_volume_def sbind_def on_dev_def simp del: read_dirents_loop.simps upt_Suc)
qed

text \<open>A disk that holds nothing but the bytes that \<open>f\<close> gives for its third sector, the root directory of \<open>blank_volume\<close>.\<close>

definition root_disk :: "u8 list \<Rightarrow> (nat \<Rightarrow> u8 list) devfs" where
  "root_disk bs = ram_fs\<lparr>ds_drivers := (\<lambda>_. replicate 512 0)(2 := bs @ replicate (512 - length bs) 0)\<rparr>"

lemma root_disk_ok:
  assumes "length bs \<le> 512"
  shows "\<exists>dev. fs_dev_add_block_device ram_read ram_write (root_disk bs) = Inr dev \<and>
    dev_okay (\<lambda>d. \<forall>s. length (d s) = 512) (\<lambda>d. d) 300 (dev_id 0) (512 * 300) dev \<and>
    (\<forall>j < 16. root_bytes blank_volume (dev_content (\<lambda>d. d) (dev_id 0) dev) j = take 32 (drop (32 * j) (bs @ replicate (512 - length bs) 0)))"
proof -
  let ?ok = "\<lambda>d. \<forall>s. length (d s) = (512 :: nat)"
  have init: "?ok (ds_drivers (root_disk bs))" "ds_block_devices (root_disk bs) = []" using assms by (simp_all add: root_disk_def ram_fs_def)
  obtain dev b where dev: "fs_dev_add_block_device ram_read ram_write (root_disk bs) = Inr dev" "ds_block_devices dev = ds_block_devices (root_disk bs) @ [b]"
    "device_ok ?ok (\<lambda>d. d) 300 (length (ds_block_devices (root_disk bs))) dev" "ds_drivers dev = ds_drivers (root_disk bs)"
    "bd_partitions b \<noteq> []" "bd_partitions b ! 0 = \<lparr>bp_byte_offset = 0, bp_byte_length = 0\<rparr>" "length (bd_partitions b) \<le> 9"
    using add_block_device_ok [OF ram_driver [of 300], of "root_disk bs"] init by auto
  have id: "dev_inode 0 0 = 0" by (simp add: dev_inode_def)
  have ok: "dev_okay ?ok (\<lambda>d. d) 300 (dev_id 0) (512 * 300) dev"
    and content: "dev_content (\<lambda>d. d) (dev_id 0) dev = disk_byte (\<lambda>d. d) (ds_drivers (root_disk bs))"
    using registered_okay [OF dev(2,3), of 0 "512 * 300"] dev(4-7) init(2) by (simp_all add: id)
  have "root_bytes blank_volume (dev_content (\<lambda>d. d) (dev_id 0) dev) j = take 32 (drop (32 * j) (bs @ replicate (512 - length bs) 0))" if "j < 16" for j
  proof -
    have base: "root_base blank_volume + 32 * j = 512 * 2 + 32 * j" by (simp add: root_base_def blank_volume_def)
    have "take 32 (drop (32 * j) (ds_drivers (root_disk bs) 2)) = map (disk_byte (\<lambda>d. d) (ds_drivers (root_disk bs))) [512 * 2 + 32 * j..<512 * 2 + 32 * j + 32]"
      by (rule sector_slice [of "\<lambda>d. d"]) (use init(1) that in simp_all)
    then show ?thesis unfolding root_bytes_def content base by (simp add: root_disk_def)
  qed
  with dev(1) ok show ?thesis by blast
qed

text \<open>C40. A deleted file blocks its directory. If the first entry of the root directory is marked as deleted, listing the
  directory never ends.\<close>

theorem read_dirents_deleted_hangs:
  assumes "dev_okay ok disk nsect (dev_id ino) cap (fat_dev fs)" and "fv_block_device vol = dev_vnode ino" and "sound_layout vol cap"
    and "unat (vd_mount_id v) < length (fat_mounts fs)" and "fat_mounts fs ! unat (vd_mount_id v) = vol" and "get_parent_cluster_num (vd_inode v) = 1"
    and "32 < root_size vol"
    and "root_bytes vol (dev_content disk (dev_id ino) (fat_dev fs)) 0 ! 0 = 0xE5"
    and "root_bytes vol (dev_content disk (dev_id ino) (fat_dev fs)) 0 ! 11 AND 0xC0 = 0"
  shows "read_dirents fuel v dirent_index dirent_buf vnode_buf dirent_count fs = Inl Diverged"
proof -
  have vol: "vol\<lparr>fv_block_device := dev_vnode ino\<rparr> = vol" using assms(2) by (cases vol) simp
  let ?st = "\<lparr>rs_directory_i = 0, rs_file_name = replicate 256 0, rs_entries_read = 0, rs_entries_written = 0, rs_dirents = [], rs_vnodes = []\<rparr>"
  have "read_dirents_loop fuel vol (vd_mount_id v) 0 dirent_index dirent_buf vnode_buf dirent_count ?st (fat_dev fs) = Inl Diverged"
    by (rule bfat.deleted_entry_loop [where vol = vol and ino = ino, unfolded vol, OF assms(3,1)]) (use assms(7-9) in simp_all)
  then show ?thesis using assms(4-6) by (simp add: read_dirents_def get_volume_def sbind_def on_dev_def)
qed

lemma blank_volume_device: "fv_block_device blank_volume = dev_vnode 0"
  by (simp add: blank_volume_def)

theorem read_dirents_lists_witness:
  "\<exists>dev rs fs'. fs_dev_add_block_device ram_read ram_write (root_disk ([72, 73] @ replicate 6 32 @ [84, 88, 84])) = Inr dev \<and>
     read_dirents 2 \<lparr>vd_inode = 1, vd_mount_id = 0\<rparr> 0 True True 10 \<lparr>fat_mounts = [blank_volume], fat_create_idx = 0, fat_dev = dev\<rparr> = Inr (rs, fs') \<and>
     rs_dirents rs = [\<lparr>d_ino = 0, d_name = [104, 105, 46, 116, 120, 116] @ replicate 250 0\<rparr>]"
proof -
  let ?bs = "[72, 73] @ replicate 6 32 @ [84, 88, 84] :: u8 list" and ?v = "\<lparr>vd_inode = 1, vd_mount_id = 0\<rparr> :: VNodeData"
  obtain dev where dev: "fs_dev_add_block_device ram_read ram_write (root_disk ?bs) = Inr dev"
    "dev_okay (\<lambda>d. \<forall>s. length (d s) = 512) (\<lambda>d. d) 300 (dev_id 0) (512 * 300) dev"
    and root: "\<forall>j < 16. root_bytes blank_volume (dev_content (\<lambda>d. d) (dev_id 0) dev) j = take 32 (drop (32 * j) (?bs @ replicate (512 - length ?bs) 0))"
    using root_disk_ok [of ?bs] by auto
  have r0: "root_bytes blank_volume (dev_content (\<lambda>d. d) (dev_id 0) dev) 0 = ?bs @ replicate 21 0"
    and r1: "root_bytes blank_volume (dev_content (\<lambda>d. d) (dev_id 0) dev) 1 = replicate 32 0"
    using root [rule_format, of 0] root [rule_format, of 1] by simp_all
  have "live_entry (?bs @ replicate 21 0)" by (simp add: live_entry_def le16_def nth_append)
  moreover have "listed blank_volume (dev_content (\<lambda>d. d) (dev_id 0) dev) 0 = \<lparr>d_ino = 0, d_name = [104, 105, 46, 116, 120, 116] @ replicate 250 0\<rparr>"
    unfolding listed_def r0 by (simp add: short_text_def lower_char_def tolower_def name_buffer_def nth_append)
  moreover have "get_parent_cluster_num 1 = 1" by (simp add: get_parent_cluster_num_def)
  ultimately show ?thesis
    using read_dirents_lists [OF _ blank_volume_device blank_volume_layout(1), of "\<lambda>d. \<forall>s. length (d s) = 512" "\<lambda>d. d" 300 "\<lparr>fat_mounts = [blank_volume], fat_create_idx = 0, fat_dev = dev\<rparr>" ?v 1 0 True 10]
      dev r0 r1 blank_volume_layout(3) by (auto simp: numeral_2_eq_2)
qed

theorem read_dirents_deleted_hangs_witness:
  "\<exists>dev. fs_dev_add_block_device ram_read ram_write (root_disk [0xE5]) = Inr dev \<and>
     read_dirents 1000 \<lparr>vd_inode = 1, vd_mount_id = 0\<rparr> 0 True True 10 \<lparr>fat_mounts = [blank_volume], fat_create_idx = 0, fat_dev = dev\<rparr> = Inl Diverged"
proof -
  obtain dev where dev: "fs_dev_add_block_device ram_read ram_write (root_disk [0xE5]) = Inr dev"
    "dev_okay (\<lambda>d. \<forall>s. length (d s) = 512) (\<lambda>d. d) 300 (dev_id 0) (512 * 300) dev"
    and root: "\<forall>j < 16. root_bytes blank_volume (dev_content (\<lambda>d. d) (dev_id 0) dev) j = take 32 (drop (32 * j) ([0xE5] @ replicate (512 - length [0xE5 :: u8]) 0))"
    using root_disk_ok [of "[0xE5]"] by auto
  have "root_bytes blank_volume (dev_content (\<lambda>d. d) (dev_id 0) dev) 0 = 0xE5 # replicate 31 0" using root [rule_format, of 0] by simp
  moreover have "get_parent_cluster_num 1 = 1" by (simp add: get_parent_cluster_num_def)
  ultimately show ?thesis
    using read_dirents_deleted_hangs [OF _ blank_volume_device blank_volume_layout(1), of "\<lambda>d. \<forall>s. length (d s) = 512" "\<lambda>d. d" 300 "\<lparr>fat_mounts = [blank_volume], fat_create_idx = 0, fat_dev = dev\<rparr>" "\<lparr>vd_inode = 1, vd_mount_id = 0\<rparr>" 1000 0 True True 10]
      dev blank_volume_layout(3) by auto
qed

end
