(* ===== verification/Fat_Directory.thy ===== *)
theory Fat_Directory
  imports Fat_Names
begin

text \<open>
  The root directory as a list of names: what \<open>create_inode\<close> adds to it, and what \<open>read_dirents\<close> makes of the result. The entries in use come
  first; a long name takes a block of consecutive entries, the parts of the name and then the entry of the file; an entry of zeroes marks the end.
\<close>

declare read_dirents_loop.simps [simp del]

section \<open>Several entries at once\<close>

definition root_slice :: "'d Fat16Volume \<Rightarrow> (nat \<Rightarrow> u8) \<Rightarrow> nat \<Rightarrow> nat \<Rightarrow> u8 list" where
  "root_slice vol f j n = map f [root_base vol + 32 * j..<root_base vol + 32 * j + 32 * n]"

lemma length_root_slice [simp]: "length (root_slice vol f j n) = 32 * n"
  by (simp add: root_slice_def)

lemma root_bytes_slice: "i < n \<Longrightarrow> root_bytes vol f (j + i) = take 32 (drop (32 * i) (root_slice vol f j n))"
  unfolding root_bytes_def root_slice_def by (rule nth_equalityI) (auto simp: algebra_simps)

lemma root_slice_add: "root_slice vol f j (m + n) = root_slice vol f j m @ root_slice vol f (j + m) n"
  unfolding root_slice_def
  by (rule nth_equalityI) (auto simp: nth_append algebra_simps)

lemma root_bytes_one: "root_bytes vol f j = root_slice vol f j 1"
  by (simp add: root_bytes_def root_slice_def)

lemma root_slice_patched:
  assumes "length bs = 32 * n"
  shows "root_slice vol (patched f (root_base vol + 32 * j) bs) j n = bs"
    and "i + m \<le> j \<Longrightarrow> root_slice vol (patched f (root_base vol + 32 * j) bs) i m = root_slice vol f i m"
  using assms by (auto simp: root_slice_def patched_def intro!: nth_equalityI)

context fat_volume
begin

lemma root_dir_address_many:
  assumes "sound_layout vol cap" and "32 * j + 32 * n < root_size vol"
  shows "root_dir_address vol (of_nat (32 * j)) (of_nat (32 * n)) = Inr (of_nat (root_base vol + 32 * j))"
    and "root_base vol + 32 * j + 32 * n \<le> cap" and "unat (of_nat (32 * n) :: u64) = 32 * n"
proof -
  have bound: "root_base vol + root_size vol < 2 ^ 31" "data_base vol \<le> cap" using assms(1) root_end [of vol] by (simp_all add: sound_layout_def)
  then have c: "c_int (root_base vol) = Inr (of_nat (root_base vol))" "c_int (root_size vol) = Inr (of_nat (root_size vol))"
    by (simp_all add: c_int_def)
  have u: "unat (of_nat (32 * j) :: u64) = 32 * j" "unat (of_nat (32 * n) :: u64) = 32 * n" "unat (of_nat (root_size vol) :: u64) = root_size vol"
    using assms(2) bound by (simp_all add: unat_of_nat take_bit_nat_eq_self del: of_nat_mult)
  show "unat (of_nat (32 * n) :: u64) = 32 * n" by (rule u)
  have "unat (of_nat (32 * j) + of_nat (32 * n) :: u64) = 32 * j + 32 * n"
    using assms(2) bound u by (subst unat_add64) (simp_all del: of_nat_mult)
  then have lt: "(of_nat (32 * j) + of_nat (32 * n) :: u64) < of_nat (root_size vol)" using assms(2) u by (simp add: word_less_nat_alt del: of_nat_mult)
  have "unat (of_nat (32 * j) mod 32 :: u64) = 0" "unat (of_nat (32 * n) mod 32 :: u64) = 0" by (simp_all only: unat_mod u) simp_all
  then have "(of_nat (32 * j) mod 32 :: u64) = 0" "(of_nat (32 * n) mod 32 :: u64) = 0" by (simp_all add: unat_eq_zero del: of_nat_mult)
  then show "root_dir_address vol (of_nat (32 * j)) (of_nat (32 * n)) = Inr (of_nat (root_base vol + 32 * j))"
    using c lt unfolding root_dir_address_def root_base_def root_size_def by (simp add: not_le del: of_nat_mult)
  show "root_base vol + 32 * j + 32 * n \<le> cap" using assms(2) bound(2) root_end [of vol] by simp
qed

lemma read_entries_ok:
  assumes "sound_layout vol cap" and "okay s" and "32 * j + 32 * n < root_size vol" and "0 < n"
  shows "\<exists>s'. read_entries vol 0 j n s = Inr (root_slice vol (content s) j n, s') \<and> okay s' \<and> content s' = content s"
proof -
  note a = root_dir_address_many [OF assms(1,3)]
  have "0 < 32 * n" using assms(4) by simp
  from dev_get_ok [OF assms(2) this a(2)] show ?thesis
    using a(1,3) by (auto simp: read_entries_def read_from_root_dir_def root_slice_def mult.commute)
qed

lemma write_entries_ok:
  assumes "sound_layout vol cap" and "okay s" and "32 * j + 32 * n < root_size vol" and "0 < n" and "length bs = 32 * n"
  shows "\<exists>s'. write_to_root_dir vol (of_nat (32 * j)) bs s = Inr ((), s') \<and> okay s' \<and> content s' = patched (content s) (root_base vol + 32 * j) bs"
proof -
  have "bs \<noteq> []" "root_base vol + 32 * j + length bs \<le> cap" using assms(4,5) root_dir_address_many(2) [OF assms(1,3)] by auto
  from dev_put_ok [OF assms(2) this] show ?thesis
    using root_dir_address_many(1) [OF assms(1,3)] assms(5) by (simp add: write_to_root_dir_def)
qed

text \<open>The search for the end stops at the first entry that starts with a zero.\<close>

lemma root_dir_end_ok:
  assumes "sound_layout vol cap" and "okay s" and "j \<le> k" and "32 * k + 32 < root_size vol"
    and "\<And>i. j \<le> i \<Longrightarrow> i < k \<Longrightarrow> root_bytes vol (content s) i ! 0 \<noteq> 0" and "root_bytes vol (content s) k ! 0 = 0"
  shows "\<exists>s'. root_dir_end vol (of_nat (32 * j)) s = Inr (of_nat (32 * k), s') \<and> okay s' \<and> content s' = content s"
  using assms(2,3,5,6)
proof (induction "k - j" arbitrary: j s)
  case 0
  then have "j = k" by simp
  with read_root_ok [OF assms(1) 0(2) assms(4)] 0 show ?case by (subst root_dir_end.simps) (auto simp: decode_entry_def)
next
  case (Suc n)
  then have jk: "j < k" "32 * j + 32 < root_size vol" using assms(4) by auto
  obtain s1 where s1: "read_from_root_dir vol (of_nat (32 * j)) 32 s = Inr (root_bytes vol (content s) j, s1)" "okay s1" "content s1 = content s"
    using read_root_ok [OF assms(1) Suc.prems(1) jk(2)] by blast
  have "(of_nat (32 * j) + 32 :: u64) = of_nat (32 * Suc j)" by simp
  moreover have "root_bytes vol (content s) j ! 0 \<noteq> 0" using Suc.prems(3) jk(1) by simp
  ultimately have "root_dir_end vol (of_nat (32 * j)) s = root_dir_end vol (of_nat (32 * Suc j)) s1"
    using s1(1) by (subst root_dir_end.simps) (simp add: decode_entry_def add.commute)
  moreover have "\<exists>s'. root_dir_end vol (of_nat (32 * Suc j)) s1 = Inr (of_nat (32 * k), s') \<and> okay s' \<and> content s' = content s1"
    by (rule Suc.hyps(1)) (use Suc s1 jk in auto)
  ultimately show ?case using s1(3) by metis
qed

end

section \<open>Blocks\<close>

definition long_block :: "'d Fat16Volume \<Rightarrow> (nat \<Rightarrow> u8) \<Rightarrow> nat \<Rightarrow> u8 list \<Rightarrow> bool" where
  "long_block vol f p name \<longleftrightarrow> (\<exists>ck e. root_slice vol f p (Suc (lfn_count name)) = make_lfns ck (lfn_count name) (lfn_count name) name @ encode_entry e \<and>
     length (de_filename e) = 11 \<and> de_filename e ! 0 \<noteq> 0 \<and> de_filename e ! 0 \<noteq> 0xE5 \<and> de_attributes e = 0 \<and> de_zero e = 0)"

fun long_blocks :: "'d Fat16Volume \<Rightarrow> (nat \<Rightarrow> u8) \<Rightarrow> nat \<Rightarrow> u8 list list \<Rightarrow> bool" where
  "long_blocks vol f p [] \<longleftrightarrow> True"
| "long_blocks vol f p (name # names) \<longleftrightarrow> long_block vol f p name \<and> long_blocks vol f (p + Suc (lfn_count name)) names"

definition entries_of :: "u8 list list \<Rightarrow> nat" where
  "entries_of names = (\<Sum>name \<leftarrow> names. Suc (lfn_count name))"

text \<open>What is listed for the names whose blocks start at entry \<open>p\<close>.\<close>

fun long_dirents :: "nat \<Rightarrow> u8 list list \<Rightarrow> dirent list" where
  "long_dirents p [] = []"
| "long_dirents p (name # names) = \<lparr>d_ino = push_bit 16 (of_nat (p + lfn_count name)), d_name = name @ replicate (256 - length name) 0\<rparr>
     # long_dirents (p + Suc (lfn_count name)) names"

definition file_name :: "u8 list \<Rightarrow> bool" where
  "file_name name \<longleftrightarrow> name \<noteq> [] \<and> length name < 256 \<and> (\<forall>c \<in> set name. plain_char c)"

lemma entries_of_simps [simp]: "entries_of [] = 0" "entries_of (name # names) = Suc (lfn_count name) + entries_of names"
  "entries_of (names @ [name]) = entries_of names + Suc (lfn_count name)"
  by (simp_all add: entries_of_def)

lemma long_blocks_append: "long_blocks vol f p (names @ [name]) \<longleftrightarrow> long_blocks vol f p names \<and> long_block vol f (p + entries_of names) name"
  by (induction names arbitrary: p) (auto simp: add.assoc)

lemma long_blocks_cong:
  assumes "\<And>i m. i + m \<le> p + entries_of names \<Longrightarrow> root_slice vol g i m = root_slice vol f i m"
  shows "long_blocks vol g p names = long_blocks vol f p names"
  using assms by (induction names arbitrary: p) (simp_all add: long_block_def add.assoc)

lemma length_name_lfns: "file_name name \<Longrightarrow> length (make_lfns ck cnt (lfn_count name) name) = 32 * lfn_count name"
  using lfn_count_bounds [of name] by (intro length_make_lfns) (auto simp: file_name_def)

text \<open>The first byte of a part of a name is its sequence number, counted from the end.\<close>

lemma sequence_byte:
  assumes "0 < k" "k \<le> 20"
  shows "((of_nat k AND 0x3F) AND 0x3F) OR (if b then 0x40 else 0) \<noteq> (0 :: u8)" "((of_nat k AND 0x3F) AND 0x3F) OR 0 \<noteq> (0xE5 :: u8)"
    "unat (((of_nat k AND 0x3F) AND 0x3F OR 0) AND 0x3F :: u8) = k"
proof -
  have "k \<in> set [1..<21]" using assms by auto
  moreover have "\<forall>k \<in> set [1..<21]. ((of_nat k AND 0x3F) AND 0x3F) OR 0x40 \<noteq> (0 :: u8) \<and> ((of_nat k AND 0x3F) AND 0x3F) OR 0 \<noteq> (0 :: u8) \<and>
      ((of_nat k AND 0x3F) AND 0x3F) OR 0 \<noteq> (0xE5 :: u8) \<and> unat (((of_nat k AND 0x3F) AND 0x3F OR 0) AND 0x3F :: u8) = k" by code_simp
  ultimately have "((of_nat k AND 0x3F) AND 0x3F) OR 0x40 \<noteq> (0 :: u8) \<and> ((of_nat k AND 0x3F) AND 0x3F) OR 0 \<noteq> (0 :: u8) \<and>
      ((of_nat k AND 0x3F) AND 0x3F) OR 0 \<noteq> (0xE5 :: u8) \<and> unat (((of_nat k AND 0x3F) AND 0x3F OR 0) AND 0x3F :: u8) = k" by (rule bspec [rotated])
  then have "((of_nat k AND 0x3F) AND 0x3F) OR 0x40 \<noteq> (0 :: u8)" "((of_nat k AND 0x3F) AND 0x3F) OR 0 \<noteq> (0 :: u8)"
    and "((of_nat k AND 0x3F) AND 0x3F) OR 0 \<noteq> (0xE5 :: u8)" "unat (((of_nat k AND 0x3F) AND 0x3F OR 0) AND 0x3F :: u8) = k" by blast+
  then show "((of_nat k AND 0x3F) AND 0x3F) OR (if b then 0x40 else 0) \<noteq> (0 :: u8)" "((of_nat k AND 0x3F) AND 0x3F) OR 0 \<noteq> (0xE5 :: u8)"
    "unat (((of_nat k AND 0x3F) AND 0x3F OR 0) AND 0x3F :: u8) = k" by (cases b; simp only: if_True if_False simp_thms)+
qed

lemma make_lfn_head:
  assumes "make_lfn ck cnt seq name = (e, rest)"
  shows "encode_lfn e ! 0 = ((of_nat (cnt - seq) AND 0x3F) AND 0x3F) OR (if seq = 1 then 0x40 else 0)" and "lfn_attributes e = FILE_ATTRIBUTES_LFN"
  using assms by (auto simp: make_lfn_def encode_lfn_def split: prod.splits)

lemma make_lfns_heads:
  assumes "\<forall>c \<in> set name. plain_char c" and "n \<noteq> 0 \<longrightarrow> 13 * (n - 1) \<le> length name" and "length name < 256" and "n \<le> cnt" and "cnt \<le> 20" and "i < n"
  shows "make_lfns ck cnt n name ! (32 * i) = ((of_nat (cnt - i) AND 0x3F) AND 0x3F) OR (if i = 1 then 0x40 else 0) \<and>
    make_lfns ck cnt n name ! (32 * i + 11) = FILE_ATTRIBUTES_LFN"
  using assms
proof (induction n arbitrary: name)
  case (Suc n)
  obtain e rest where m: "make_lfn ck cnt n name = (e, rest)" by (metis prod.exhaust)
  note c = copy_make_lfn [OF Suc.prems(1) m, of "[]"]
  have shape: "lfn_shape e" and rest: "0 < n \<Longrightarrow> rest = drop 13 name" using c(1,2) Suc.prems(2,3) by (auto simp: min_def)
  have R: "length (make_lfns ck cnt n rest) = 32 * n"
  proof (cases n)
    case (Suc k)
    then show ?thesis by (intro length_make_lfns) (use Suc.prems rest in \<open>auto dest: in_set_dropD\<close>)
  qed simp
  have "encode_lfn e ! 11 = lfn_attributes e" using shape by (simp add: encode_lfn_def lfn_shape_def nth_append)
  then have last: "encode_lfn e ! 11 = FILE_ATTRIBUTES_LFN" using make_lfn_head(2) [OF m] by simp
  have IH: "make_lfns ck cnt n rest ! (32 * i) = ((of_nat (cnt - i) AND 0x3F) AND 0x3F) OR (if i = 1 then 0x40 else 0) \<and>
    make_lfns ck cnt n rest ! (32 * i + 11) = FILE_ATTRIBUTES_LFN" if "i < n"
    using that Suc.prems rest by (intro Suc.IH) (auto dest: in_set_dropD)
  show ?case using m R IH last make_lfn_head(1) [OF m] Suc.prems(6) by (cases "i < n") (simp_all add: nth_append less_Suc_eq)
qed simp

text \<open>A block read entry by entry: its first entry tells how many parts there are, and none of its entries marks the end.\<close>

lemma long_block_entries:
  assumes "long_block vol f p name" and "file_name name"
  defines "c \<equiv> lfn_count name"
  shows "root_bytes vol f p ! 11 = FILE_ATTRIBUTES_LFN" "root_bytes vol f p ! 0 \<noteq> 0xE5"
    "unat (lfn_sequence_number (decode_lfn (root_bytes vol f p))) = c"
    "lfn_name c (root_slice vol f p c) (replicate 256 0) = Inr (name_buffer name)"
    "\<exists>e. root_bytes vol f (p + c) = encode_entry e \<and> length (de_filename e) = 11 \<and> de_filename e ! 0 \<noteq> 0 \<and> de_filename e ! 0 \<noteq> 0xE5 \<and>
       de_attributes e = 0 \<and> de_zero e = 0"
    "i \<le> c \<Longrightarrow> root_bytes vol f (p + i) ! 0 \<noteq> 0"
proof -
  obtain ck e where s: "root_slice vol f p (Suc c) = make_lfns ck c c name @ encode_entry e"
    and e: "length (de_filename e) = 11" "de_filename e ! 0 \<noteq> 0" "de_filename e ! 0 \<noteq> 0xE5" "de_attributes e = 0" "de_zero e = 0"
    using assms(1) unfolding long_block_def c_def by blast
  have nm: "\<forall>x \<in> set name. plain_char x" "length name < 256" using assms(2) by (simp_all add: file_name_def)
  have c: "0 < c" "c \<le> 20" "13 * (c - 1) \<le> length name" using lfn_count_bounds [of name] nm(2) by (simp_all add: c_def)
  have len: "length (make_lfns ck c c name) = 32 * c" unfolding c_def by (rule length_name_lfns [OF assms(2)])
  have heads: "make_lfns ck c c name ! (32 * i) = ((of_nat (c - i) AND 0x3F) AND 0x3F) OR (if i = 1 then 0x40 else 0)"
    "make_lfns ck c c name ! (32 * i + 11) = FILE_ATTRIBUTES_LFN" if "i < c" for i
    using make_lfns_heads [of name c c i ck] nm c that by simp_all
  have lfn: "root_bytes vol f (p + i) ! x = make_lfns ck c c name ! (32 * i + x)" if "i < c" "x < 32" for i x
    using that len by (simp add: root_bytes_slice [of i "Suc c"] s nth_append)
  have b0: "root_bytes vol f (p + i) ! 0 = ((of_nat (c - i) AND 0x3F) AND 0x3F) OR (if i = 1 then 0x40 else 0)" if "i < c" for i
    using lfn [OF that, of 0] heads(1) [OF that] by simp
  show "root_bytes vol f p ! 11 = FILE_ATTRIBUTES_LFN" using lfn [of 0 11] heads(2) [of 0] c(1) by simp
  have first: "root_bytes vol f p ! 0 = ((of_nat c AND 0x3F) AND 0x3F) OR 0" using b0 [of 0] c(1) by simp
  show "root_bytes vol f p ! 0 \<noteq> 0xE5" unfolding first by (rule sequence_byte(2) [OF c(1,2)])
  show "unat (lfn_sequence_number (decode_lfn (root_bytes vol f p))) = c"
    unfolding decode_lfn_def Fat16LFNEntry.simps first by (rule sequence_byte(3) [OF c(1,2)])
  have "root_slice vol f p c @ root_slice vol f (p + c) 1 = make_lfns ck c c name @ encode_entry e" using s root_slice_add [of vol f p c 1] by simp
  then have parts: "root_slice vol f p c = make_lfns ck c c name" "root_slice vol f (p + c) 1 = encode_entry e" using len by (auto simp: append_eq_append_conv)
  show "lfn_name c (root_slice vol f p c) (replicate 256 0) = Inr (name_buffer name)"
    unfolding parts unfolding c_def by (rule lfn_name_make_lfns [OF nm])
  show "\<exists>e. root_bytes vol f (p + c) = encode_entry e \<and> length (de_filename e) = 11 \<and> de_filename e ! 0 \<noteq> 0 \<and> de_filename e ! 0 \<noteq> 0xE5 \<and>
       de_attributes e = 0 \<and> de_zero e = 0" using parts(2) e by (auto simp: root_bytes_one)
  have last: "root_bytes vol f (p + c) ! 0 = de_filename e ! 0" using parts(2) e(1) by (simp add: root_bytes_one encode_entry_def nth_append)
  show "root_bytes vol f (p + i) ! 0 \<noteq> 0" if "i \<le> c"
  proof (cases "i < c")
    case True
    then show ?thesis unfolding b0 [OF True] using c(2) by (intro sequence_byte(1)) auto
  next
    case False
    with that last e(2) show ?thesis by simp
  qed
qed

lemma long_blocks_no_end:
  assumes "long_blocks vol f p names" and "\<forall>name \<in> set names. file_name name" and "p \<le> i" and "i < p + entries_of names"
  shows "root_bytes vol f i ! 0 \<noteq> 0"
  using assms
proof (induction names arbitrary: p)
  case (Cons name names)
  show ?case
  proof (cases "i < p + Suc (lfn_count name)")
    case True
    then show ?thesis using long_block_entries(6) [of vol f p name "i - p"] Cons.prems by auto
  next
    case False
    then show ?thesis using Cons.prems by (intro Cons.IH [of "p + Suc (lfn_count name)"]) simp_all
  qed
qed simp

section \<open>Creating\<close>

text \<open>The names \<open>names\<close> follow \<open>k\<close> entries in use, and the end marker follows them.\<close>

definition directory :: "'d Fat16Volume \<Rightarrow> (nat \<Rightarrow> u8) \<Rightarrow> nat \<Rightarrow> u8 list list \<Rightarrow> bool" where
  "directory vol f k names \<longleftrightarrow> (\<forall>j < k. live_entry (root_bytes vol f j)) \<and> long_blocks vol f k names \<and>
     root_bytes vol f (k + entries_of names) ! 0 = 0 \<and> root_bytes vol f (k + entries_of names) ! 11 AND 0xC0 = 0"

text \<open>The vnode is the root directory of \<open>vol\<close>.\<close>

definition root_vnode :: "'d Fat16Volume \<Rightarrow> 'd fatfs \<Rightarrow> VNodeData \<Rightarrow> bool" where
  "root_vnode vol fs v \<longleftrightarrow> unat (vd_mount_id v) < length (fat_mounts fs) \<and> fat_mounts fs ! unat (vd_mount_id v) = vol \<and> vd_inode v = 1"

lemma encode_zero: "encode_entry zero_entry = replicate 32 0"
  by (simp add: encode_entry_def zero_entry_def bytes16_def bytes32_def numeral_eq_Suc)

context fat_volume
begin

lemma create_inode_ok:
  assumes "sound_layout vol cap" and "okay (fat_dev fs)" and v: "root_vnode vol fs v" and name: "file_name name" and names: "\<forall>name \<in> set names. file_name name"
    and dir: "directory vol (content (fat_dev fs)) k names" and room: "32 * (k + entries_of (names @ [name])) + 32 < root_size vol"
  shows "\<exists>fs'. create_inode v S_IFREG name fs = Inr (0, fs') \<and> okay (fat_dev fs') \<and> root_vnode vol fs' v \<and>
    directory vol (content (fat_dev fs')) k (names @ [name]) \<and> (\<forall>j < k. root_bytes vol (content (fat_dev fs')) j = root_bytes vol (content (fat_dev fs)) j)"
proof -
  let ?f = "content (fat_dev fs)" and ?c = "lfn_count name" and ?K = "k + entries_of names"
  have len: "length name < 256" and c: "0 < ?c" "?c \<le> 20" using lfn_count_bounds [of name] name by (simp_all add: file_name_def)
  define short where "short = short_file_name (fat_create_idx fs)"
  define e where "e = zero_entry\<lparr>de_filename := short, de_attributes := 0, de_cluster_number := 0, de_file_size_bytes := 0\<rparr>"
  define xs where "xs = make_lfns (checksum short) ?c ?c name @ encode_entry e @ encode_entry zero_entry"
  have e: "length (de_filename e) = 11" "de_filename e ! 0 = 82" "de_attributes e = 0" "de_zero e = 0" by (simp_all add: e_def short_def short_file_name_def zero_entry_def)
  have lx: "length xs = 32 * (?c + 2)" using length_name_lfns [OF name] e(1) by (simp add: xs_def encode_zero)
  have end_room: "32 * ?K + 32 * (?c + 2) < root_size vol" "32 * ?K + 32 < root_size vol" using room by simp_all
  have used: "root_bytes vol ?f i ! 0 \<noteq> 0" if "i < ?K" for i
  proof (cases "i < k")
    case True
    then show ?thesis using dir by (simp add: directory_def live_entry_def)
  next
    case False
    then show ?thesis using dir names that by (intro long_blocks_no_end [of vol ?f k names]) (simp_all add: directory_def)
  qed
  have "root_bytes vol ?f ?K ! 0 = 0" using dir by (simp add: directory_def)
  from root_dir_end_ok [OF assms(1,2) le0 end_room(2) used this]
  obtain s1 where s1: "root_dir_end vol 0 (fat_dev fs) = Inr (of_nat (32 * ?K), s1)" "okay s1" "content s1 = ?f" by auto
  obtain s2 where s2: "write_to_root_dir vol (of_nat (32 * ?K)) xs s1 = Inr ((), s2)" "okay s2" "content s2 = patched ?f (root_base vol + 32 * ?K) xs"
    using write_entries_ok [OF assms(1) s1(2) end_room(1) _ lx] s1(3) by auto
  let ?fs = "fs\<lparr>fat_create_idx := fat_create_idx fs + 1, fat_dev := s2\<rparr>"
  have "c_int (root_size vol) = Inr (of_nat (root_size vol))" using assms(1) root_end [of vol] by (simp add: c_int_def sound_layout_def)
  then have st: "stat_file v fs = Inr (\<lparr>st_ino = 1, st_mode = S_IFDIR, st_size = of_nat (root_size vol)\<rparr>, fs)"
    using v by (simp add: stat_file_def get_volume_def root_vnode_def get_parent_cluster_num_def sbind_def root_size_def)
  have cnt: "(length name + CHARS_PER_LFN) div CHARS_PER_LFN = ?c" by (simp add: lfn_count_def)
  have "create_inode v S_IFREG name fs = Inr (0, ?fs)"
    using v st s1(1) s2(1) [unfolded xs_def e_def short_def] len c unfolding create_inode_def cnt Let_def
    by (simp add: get_volume_def root_vnode_def sbind_def S_ISDIR_def S_ISREG_def create_fat_mode_def on_dev_def)
  moreover have "root_vnode vol ?fs v" using v by (simp add: root_vnode_def)
  moreover have before: "root_slice vol (content s2) i m = root_slice vol ?f i m" if "i + m \<le> ?K" for i m
    unfolding s2(3) by (rule root_slice_patched(2) [OF lx that])
  moreover have same: "root_bytes vol (content s2) j = root_bytes vol ?f j" if "j < ?K" for j
    using before [of j 1] that by (simp add: root_bytes_one)
  moreover have "directory vol (content s2) k (names @ [name])"
  proof -
    have new: "root_slice vol (content s2) ?K (?c + 2) = xs" unfolding s2(3) by (rule root_slice_patched(1) [OF lx])
    moreover have "root_slice vol (content s2) ?K (?c + 2) = root_slice vol (content s2) ?K (Suc ?c) @ root_slice vol (content s2) (?K + Suc ?c) 1"
      using root_slice_add [of vol "content s2" ?K "Suc ?c" 1] by simp
    ultimately have "root_slice vol (content s2) ?K (Suc ?c) @ root_slice vol (content s2) (?K + Suc ?c) 1 =
        (make_lfns (checksum short) ?c ?c name @ encode_entry e) @ encode_entry zero_entry" by (simp add: xs_def)
    moreover have "length (root_slice vol (content s2) ?K (Suc ?c)) = length (make_lfns (checksum short) ?c ?c name @ encode_entry e)"
      using length_name_lfns [OF name] e(1) by simp
    ultimately have parts: "root_slice vol (content s2) ?K (Suc ?c) = make_lfns (checksum short) ?c ?c name @ encode_entry e"
      "root_slice vol (content s2) (?K + Suc ?c) 1 = encode_entry zero_entry" by (metis append_eq_append_conv)+
    have "long_block vol (content s2) ?K name" unfolding long_block_def using parts(1) e by fastforce
    moreover have "long_blocks vol (content s2) k names" using dir long_blocks_cong [of k names vol "content s2" ?f] before by (simp add: directory_def)
    moreover have "root_bytes vol (content s2) (?K + Suc ?c) = replicate 32 0" using parts(2) by (simp only: root_bytes_one encode_zero)
    ultimately show ?thesis using dir same by (simp add: directory_def long_blocks_append add.assoc)
  qed
  ultimately show ?thesis using s2(2) by (intro exI [of _ ?fs]) simp
qed

text \<open>One after the other.\<close>

lemma create_names_ok:
  assumes "sound_layout vol cap" and "okay (fat_dev fs)" and "root_vnode vol fs v" and "\<forall>name \<in> set (old @ names). file_name name"
    and "directory vol (content (fat_dev fs)) k old" and "32 * (k + entries_of (old @ names)) + 32 < root_size vol"
  shows "\<exists>fs'. rfold (\<lambda>name fs. rbind (create_inode v S_IFREG name fs) (\<lambda>(_, fs'). Inr fs')) names fs = Inr fs' \<and> okay (fat_dev fs') \<and>
    root_vnode vol fs' v \<and> directory vol (content (fat_dev fs')) k (old @ names) \<and>
    (\<forall>j < k. root_bytes vol (content (fat_dev fs')) j = root_bytes vol (content (fat_dev fs)) j)"
  using assms(2-)
proof (induction names arbitrary: old fs)
  case (Cons name names)
  have names: "file_name name" "\<forall>name \<in> set old. file_name name" "\<forall>name \<in> set ((old @ [name]) @ names). file_name name" using Cons.prems(3) by auto
  have "entries_of (old @ name # names) = entries_of ((old @ [name]) @ names)" by simp
  then have room: "32 * (k + entries_of ((old @ [name]) @ names)) + 32 < root_size vol" using Cons.prems(5) by simp
  have "entries_of ((old @ [name]) @ names) = entries_of (old @ [name]) + entries_of names" by (simp add: entries_of_def)
  then have "32 * (k + entries_of (old @ [name])) + 32 < root_size vol" using room by (simp only: add_mult_distrib2)
  from create_inode_ok [OF assms(1) Cons.prems(1,2) names(1,2) Cons.prems(4) this]
  obtain fs1 where fs1: "create_inode v S_IFREG name fs = Inr (0, fs1)" "okay (fat_dev fs1)" "root_vnode vol fs1 v"
    "directory vol (content (fat_dev fs1)) k (old @ [name])" "\<forall>j < k. root_bytes vol (content (fat_dev fs1)) j = root_bytes vol (content (fat_dev fs)) j" by blast
  from Cons.IH [OF fs1(2,3) names(3) fs1(4) room] fs1(1,5) show ?case by auto
qed auto

end

section \<open>Listing\<close>

definition listing_at :: "dirents_state \<Rightarrow> nat \<Rightarrow> dirent list \<Rightarrow> bool" where
  "listing_at st i ds \<longleftrightarrow> rs_directory_i st = i \<and> rs_file_name st = replicate 256 0 \<and> rs_dirents st = ds \<and> rs_entries_written st = length ds"

lemma live_encode_entry:
  assumes "length (de_filename e) = 11" "de_filename e ! 0 \<noteq> 0" "de_filename e ! 0 \<noteq> 0xE5" "de_attributes e = 0" "de_zero e = 0"
  shows "live_entry (encode_entry e)"
proof -
  have "de_zero (decode_entry (encode_entry e)) = 0" using assms(1,5) decode_encode_entry [of e] by simp
  then have "le16 (drop 20 (encode_entry e)) = 0" by (simp add: decode_entry_def)
  then show ?thesis using assms by (simp add: live_entry_def encode_entry_def nth_append)
qed

lemma copy_name_buffer:
  assumes "file_name name"
  shows "copy_name (name_buffer name) = Inr (name @ replicate (256 - length name) 0)" and "name_buffer name ! 0 \<noteq> 0"
proof -
  have nz: "\<forall>c \<in> set name. c \<noteq> 0" and len: "length name < 256" "name \<noteq> []" using assms by (auto simp: file_name_def plain_char_def)
  obtain m where m: "256 - length name = Suc m" using len(1) Suc_diff_Suc by metis
  have "takeWhile (\<lambda>c. c \<noteq> 0) (name_buffer name) = name" using nz by (simp add: name_buffer_def m takeWhile_append2)
  then show "copy_name (name_buffer name) = Inr (name @ replicate (256 - length name) 0)"
    by (simp add: copy_name_def) (simp add: name_buffer_def m)
  show "name_buffer name ! 0 \<noteq> 0" using nz len by (cases name) (auto simp: name_buffer_def)
qed

context fat_volume
begin

text \<open>An iteration for an entry that is not part of a name.\<close>

lemma entry_step:
  assumes "sound_layout vol cap" and "okay s" and "32 * i + 32 < root_size vol" and "i < 2 ^ 15" and "rs_directory_i st = i"
    and live: "live_entry (root_bytes vol (content s) i)" and "rs_entries_written st < cnt"
    and name: "copy_name (if rs_file_name st ! 0 = 0 then short_name (take 11 (root_bytes vol (content s) i)) (rs_file_name st) else rs_file_name st) = Inr d"
    and st: "rs_dirents st = ds" "rs_entries_written st = length ds"
  shows "\<exists>st' s'. read_dirents_loop (Suc fuel) vol mt 0 0 True vb cnt st s = read_dirents_loop fuel vol mt 0 0 True vb cnt st' s' \<and>
    listing_at st' (Suc i) (ds @ [\<lparr>d_ino = push_bit 16 (of_nat i), d_name = d\<rparr>]) \<and> okay s' \<and> content s' = content s"
proof -
  let ?bs = "root_bytes vol (content s) i"
  obtain s1 where s1: "read_entries vol 0 i 1 s = Inr (?bs, s1)" "okay s1" "content s1 = content s"
    using read_entry_ok [OF assms(1-3)] by blast
  let ?st1 = "st\<lparr>rs_file_name := if rs_file_name st ! 0 = 0 then short_name (take 11 ?bs) (rs_file_name st) else rs_file_name st,
    rs_entries_read := Suc (rs_entries_read st)\<rparr>"
  let ?st2 = "?st1\<lparr>rs_entries_written := Suc (rs_entries_written st), rs_dirents := ds @ [\<lparr>d_ino = push_bit 16 (of_nat i), d_name = d\<rparr>],
    rs_vnodes := rs_vnodes st @ (if vb then [\<lparr>vd_inode = push_bit 16 (of_nat i), vd_mount_id = mt\<rparr>] else [])\<rparr>"
  let ?st3 = "?st2\<lparr>rs_file_name := replicate 256 0, rs_directory_i := Suc i\<rparr>"
  have "emit_entry mt 0 True vb ?st1 = Inr ?st2"
    using make_inode_root [OF assms(4)] assms(5) name st by (simp add: emit_entry_def Let_def)
  then have "read_dirents_loop (Suc fuel) vol mt 0 0 True vb cnt st s = read_dirents_loop fuel vol mt 0 0 True vb cnt ?st3 s1"
    using live s1(1) assms(5,7)
    by (subst read_dirents_loop.simps(2), cases "rs_file_name st ! 0 = 0") (simp_all add: sbind_def decode_entry_def live_entry_def Let_def)
  moreover have "listing_at ?st3 (Suc i) (ds @ [\<lparr>d_ino = push_bit 16 (of_nat i), d_name = d\<rparr>])" using st by (simp add: listing_at_def)
  ultimately show ?thesis using s1(2,3) by blast
qed

text \<open>Two iterations for a long name: its parts, as many as the first of them says, and its entry.\<close>

lemma long_step:
  assumes "sound_layout vol cap" and "okay s" and "32 * (p + lfn_count name) + 32 < root_size vol" and "p + lfn_count name < 2 ^ 15"
    and block: "long_block vol (content s) p name" and name: "file_name name" and at: "listing_at st p ds" and "length ds < cnt"
  shows "\<exists>st' s'. read_dirents_loop (Suc (Suc fuel)) vol mt 0 0 True vb cnt st s = read_dirents_loop fuel vol mt 0 0 True vb cnt st' s' \<and>
    listing_at st' (p + Suc (lfn_count name)) (ds @ [\<lparr>d_ino = push_bit 16 (of_nat (p + lfn_count name)), d_name = name @ replicate (256 - length name) 0\<rparr>]) \<and>
    okay s' \<and> content s' = content s"
proof -
  let ?c = "lfn_count name" and ?f = "content s"
  note b = long_block_entries [OF block name]
  obtain e where e: "root_bytes vol ?f (p + ?c) = encode_entry e" "length (de_filename e) = 11" "de_filename e ! 0 \<noteq> 0" "de_filename e ! 0 \<noteq> 0xE5"
    "de_attributes e = 0" "de_zero e = 0" using b(5) by blast
  have "32 * p + 32 < root_size vol" "32 * p + 32 * ?c < root_size vol" using assms(3) by simp_all
  obtain s1 where s1: "read_entries vol 0 p 1 s = Inr (root_bytes vol ?f p, s1)" "okay s1" "content s1 = ?f"
    using read_entry_ok [OF assms(1,2) \<open>32 * p + 32 < root_size vol\<close>] by blast
  obtain s2 where s2: "read_entries vol 0 p ?c s1 = Inr (root_slice vol ?f p ?c, s2)" "okay s2" "content s2 = ?f"
    using read_entries_ok [OF assms(1) s1(2) \<open>32 * p + 32 * ?c < root_size vol\<close>] lfn_count_bounds(3) [of name] s1(3) by auto
  let ?st1 = "st\<lparr>rs_directory_i := p + ?c, rs_file_name := name_buffer name\<rparr>"
  have "root_bytes vol ?f p ! 0 \<noteq> 0" using b(6) [of 0] by simp
  then have one: "read_dirents_loop (Suc (Suc fuel)) vol mt 0 0 True vb cnt st s = read_dirents_loop (Suc fuel) vol mt 0 0 True vb cnt ?st1 s2"
    using at s1(1) s2(1) b(1-4)
    by (subst read_dirents_loop.simps(2)) (simp add: listing_at_def sbind_def decode_entry_def Let_def slift_def)
  have "\<exists>st' s'. read_dirents_loop (Suc fuel) vol mt 0 0 True vb cnt ?st1 s2 = read_dirents_loop fuel vol mt 0 0 True vb cnt st' s' \<and>
    listing_at st' (Suc (p + ?c)) (ds @ [\<lparr>d_ino = push_bit 16 (of_nat (p + ?c)), d_name = name @ replicate (256 - length name) 0\<rparr>]) \<and> okay s' \<and> content s' = content s2"
    by (rule entry_step [OF assms(1) s2(2) assms(3,4)])
      (use at live_encode_entry [OF e(2-)] e(1) s2(3) assms(8) copy_name_buffer [OF name] in \<open>simp_all add: listing_at_def\<close>)
  then show ?thesis unfolding one s2(3) by simp
qed

lemma short_steps:
  assumes "sound_layout vol cap" and "okay s" and "32 * k + 32 < root_size vol" and "k \<le> 2 ^ 15" and "k \<le> cnt"
    and live: "\<And>j. j < k \<Longrightarrow> live_entry (root_bytes vol (content s) j)" and at: "listing_at st 0 []"
  shows "\<exists>st' s'. read_dirents_loop (k + fuel) vol mt 0 0 True vb cnt st s = read_dirents_loop fuel vol mt 0 0 True vb cnt st' s' \<and>
    listing_at st' k (map (listed vol (content s)) [0..<k]) \<and> okay s' \<and> content s' = content s"
  using assms(3-6)
proof (induction k arbitrary: fuel)
  case 0
  then show ?case using at assms(2) by auto
next
  case (Suc k)
  have "k \<le> 2 ^ 15" "32 * k + 32 < root_size vol" "k \<le> cnt" using Suc.prems by simp_all
  then obtain st1 s1 where s1: "read_dirents_loop (k + Suc fuel) vol mt 0 0 True vb cnt st s = read_dirents_loop (Suc fuel) vol mt 0 0 True vb cnt st1 s1"
    "listing_at st1 k (map (listed vol (content s)) [0..<k])" "okay s1" "content s1 = content s" using Suc.IH [of "Suc fuel"] Suc.prems(4) by auto
  have nm: "copy_name (short_name (take 11 (root_bytes vol (content s) k)) (replicate 256 0)) = Inr (d_name (listed vol (content s) k))"
    using copy_short_name [of "take 11 (root_bytes vol (content s) k)"] by (simp add: listed_def root_bytes_def)
  have "\<exists>st' s'. read_dirents_loop (Suc fuel) vol mt 0 0 True vb cnt st1 s1 = read_dirents_loop fuel vol mt 0 0 True vb cnt st' s' \<and>
    listing_at st' (Suc k) (map (listed vol (content s)) [0..<k] @ [\<lparr>d_ino = push_bit 16 (of_nat k), d_name = d_name (listed vol (content s) k)\<rparr>]) \<and>
    okay s' \<and> content s' = content s1"
    by (rule entry_step [OF assms(1) s1(3) \<open>32 * k + 32 < root_size vol\<close>]) (use s1(2,4) nm Suc.prems in \<open>simp_all add: listing_at_def\<close>)
  moreover have "\<lparr>d_ino = push_bit 16 (of_nat k), d_name = d_name (listed vol (content s) k)\<rparr> = listed vol (content s) k" by (simp add: listed_def)
  ultimately show ?case using s1(1,4) by simp
qed

lemma long_steps:
  assumes "sound_layout vol cap" and "okay s" and "32 * (p + entries_of names) + 32 < root_size vol" and "p + entries_of names \<le> 2 ^ 15"
    and "long_blocks vol (content s) p names" and "\<forall>name \<in> set names. file_name name" and "listing_at st p ds" and "length ds + length names \<le> cnt"
  shows "\<exists>st' s'. read_dirents_loop (2 * length names + fuel) vol mt 0 0 True vb cnt st s = read_dirents_loop fuel vol mt 0 0 True vb cnt st' s' \<and>
    listing_at st' (p + entries_of names) (ds @ long_dirents p names) \<and> okay s' \<and> content s' = content s"
  using assms(2-)
proof (induction names arbitrary: p ds st s)
  case (Cons name names)
  have a: "32 * (p + lfn_count name) + 32 < root_size vol" "p + lfn_count name < 2 ^ 15" "long_block vol (content s) p name" "file_name name" "length ds < cnt"
    using Cons.prems by simp_all
  from long_step [OF assms(1) Cons.prems(1) a(1-4) Cons.prems(6) a(5), of "2 * length names + fuel" mt vb]
  obtain st1 s1 where s1: "read_dirents_loop (2 * length (name # names) + fuel) vol mt 0 0 True vb cnt st s = read_dirents_loop (2 * length names + fuel) vol mt 0 0 True vb cnt st1 s1"
    "listing_at st1 (p + Suc (lfn_count name)) (ds @ [\<lparr>d_ino = push_bit 16 (of_nat (p + lfn_count name)), d_name = name @ replicate (256 - length name) 0\<rparr>])"
    "okay s1" "content s1 = content s" by auto
  have "\<exists>st' s'. read_dirents_loop (2 * length names + fuel) vol mt 0 0 True vb cnt st1 s1 = read_dirents_loop fuel vol mt 0 0 True vb cnt st' s' \<and>
    listing_at st' (p + Suc (lfn_count name) + entries_of names) ((ds @ [\<lparr>d_ino = push_bit 16 (of_nat (p + lfn_count name)), d_name = name @ replicate (256 - length name) 0\<rparr>])
      @ long_dirents (p + Suc (lfn_count name)) names) \<and> okay s' \<and> content s' = content s1"
    by (rule Cons.IH [OF s1(3) _ _ _ _ s1(2)]) (use Cons.prems s1(4) in \<open>simp_all add: add.assoc\<close>)
  then show ?case unfolding s1(1) using s1(4) by (simp add: add.assoc)
qed auto

lemma directory_listed:
  assumes "sound_layout vol cap" and "okay s" and "directory vol (content s) k names" and "\<forall>name \<in> set names. file_name name"
    and "32 * (k + entries_of names) + 32 < root_size vol" and "k + entries_of names \<le> 2 ^ 15" and "k + length names \<le> cnt" and "listing_at st 0 []"
  shows "\<exists>st' s'. read_dirents_loop (k + 2 * length names + 1) vol mt 0 0 True vb cnt st s = Inr (st', s') \<and>
    rs_dirents st' = map (listed vol (content s)) [0..<k] @ long_dirents k names \<and> rs_entries_written st' = k + length names"
proof -
  have dir: "\<And>j. j < k \<Longrightarrow> live_entry (root_bytes vol (content s) j)" "long_blocks vol (content s) k names"
    "root_bytes vol (content s) (k + entries_of names) ! 0 = 0" "root_bytes vol (content s) (k + entries_of names) ! 11 AND 0xC0 = 0"
    using assms(3) by (simp_all add: directory_def)
  have k: "32 * k + 32 < root_size vol" "k \<le> 2 ^ 15" "k \<le> cnt" using assms(5-7) by simp_all
  obtain st1 s1 where s1: "read_dirents_loop (k + (2 * length names + 1)) vol mt 0 0 True vb cnt st s = read_dirents_loop (2 * length names + 1) vol mt 0 0 True vb cnt st1 s1"
    "listing_at st1 k (map (listed vol (content s)) [0..<k])" "okay s1" "content s1 = content s"
    using short_steps [OF assms(1,2) k dir(1) assms(8)] by blast
  obtain st2 s2 where s2: "read_dirents_loop (2 * length names + 1) vol mt 0 0 True vb cnt st1 s1 = read_dirents_loop 1 vol mt 0 0 True vb cnt st2 s2"
    "listing_at st2 (k + entries_of names) (map (listed vol (content s)) [0..<k] @ long_dirents k names)" "okay s2" "content s2 = content s"
    using long_steps [OF assms(1) s1(3) assms(5,6) _ assms(4) s1(2), where fuel = 1 and cnt = cnt and mt = mt and vb = vb] dir(2) assms(7) s1(4) by auto
  obtain s3 where s3: "read_entries vol 0 (k + entries_of names) 1 s2 = Inr (root_bytes vol (content s) (k + entries_of names), s3)"
    using read_entry_ok [OF assms(1) s2(3) assms(5)] s2(4) by auto
  have "read_dirents_loop 1 vol mt 0 0 True vb cnt st2 s2 = Inr (st2, s3)"
    using s2(2) s3 dir(3,4) by (simp add: read_dirents_loop.simps listing_at_def sbind_def decode_entry_def Let_def)
  moreover have "length (long_dirents k names) = length names" by (induction names arbitrary: k) simp_all
  ultimately show ?thesis using s1(1) s2(1,2) by (simp add: listing_at_def add.assoc)
qed

end

section \<open>Properties\<close>

text \<open>C15. What is created is listed. The root directory of a volume on a block device has \<open>k\<close> entries in use, none of them part of a long name, and
  then the end marker. Creating regular files with any non-empty names of at most 255 ASCII characters, for which there is room, succeeds; listing the
  directory afterwards ends, after two iterations for each new file, and returns the old entries and then the new names, in order, each in full, with
  the number of its entry: the parts of a name on the disk say themselves how many they are.\<close>

theorem created_names_are_listed:
  assumes "dev_okay ok disk nsect (dev_id ino) cap (fat_dev fs)" and "fv_block_device vol = dev_vnode ino" and "sound_layout vol cap"
    and "root_vnode vol fs v" and "directory vol (dev_content disk (dev_id ino) (fat_dev fs)) k []" and "\<forall>name \<in> set names. file_name name"
    and "32 * (k + entries_of names) + 32 < root_size vol" and "k + entries_of names \<le> 2 ^ 15" and "k + length names \<le> dirent_count"
  shows "\<exists>fs1 rs fs2. rfold (\<lambda>name fs. rbind (create_inode v S_IFREG name fs) (\<lambda>(_, fs'). Inr fs')) names fs = Inr fs1 \<and>
    read_dirents (k + 2 * length names + 1) v 0 True vnode_buf dirent_count fs1 = Inr (rs, fs2) \<and>
    rs_dirents rs = map (listed vol (dev_content disk (dev_id ino) (fat_dev fs))) [0..<k] @ long_dirents k names \<and>
    rs_entries_written rs = k + length names"
proof -
  have vol: "vol\<lparr>fv_block_device := dev_vnode ino\<rparr> = vol" using assms(2) by (cases vol) simp
  let ?content = "dev_content disk (dev_id ino)"
  let ?st = "\<lparr>rs_directory_i = 0, rs_file_name = replicate 256 0, rs_entries_read = 0, rs_entries_written = 0, rs_dirents = [], rs_vnodes = []\<rparr>"
  obtain fs1 where fs1: "rfold (\<lambda>name fs. rbind (create_inode v S_IFREG name fs) (\<lambda>(_, fs'). Inr fs')) names fs = Inr fs1"
    "dev_okay ok disk nsect (dev_id ino) cap (fat_dev fs1)" "root_vnode vol fs1 v" "directory vol (?content (fat_dev fs1)) k names"
    "\<forall>j < k. root_bytes vol (?content (fat_dev fs1)) j = root_bytes vol (?content (fat_dev fs)) j"
    using bfat.create_names_ok [where vol = vol and ino = ino and old = "[]" and names = names, unfolded vol, OF assms(3,1,4) _ assms(5)] assms(6,7)
    by (simp only: append_Nil) blast
  have "\<exists>st' s'. read_dirents_loop (k + 2 * length names + 1) vol (vd_mount_id v) 0 0 True vnode_buf dirent_count ?st (fat_dev fs1) = Inr (st', s') \<and>
    rs_dirents st' = map (listed vol (?content (fat_dev fs1))) [0..<k] @ long_dirents k names \<and> rs_entries_written st' = k + length names"
    by (rule bfat.directory_listed [where vol = vol and ino = ino, unfolded vol, OF assms(3) fs1(2,4) assms(6-9)]) (simp add: listing_at_def)
  moreover have "map (listed vol (?content (fat_dev fs1))) [0..<k] = map (listed vol (?content (fat_dev fs))) [0..<k]"
    using fs1(5) by (simp add: listed_def)
  ultimately show ?thesis using fs1(1,3)
    by (auto simp: read_dirents_def get_volume_def sbind_def on_dev_def root_vnode_def get_parent_cluster_num_def simp del: upt_Suc)
qed

text \<open>A directory with one short name, and two files with names that the short form cannot hold, the second in two parts.\<close>

theorem created_names_are_listed_witness:
  "\<exists>dev fs1 rs fs2. fs_dev_add_block_device ram_read ram_write (root_disk ([72, 73] @ replicate 6 32 @ [84, 88, 84])) = Inr dev \<and>
     rfold (\<lambda>name fs. rbind (create_inode \<lparr>vd_inode = 1, vd_mount_id = 0\<rparr> S_IFREG name fs) (\<lambda>(_, fs'). Inr fs'))
       [[97, 46, 98, 46, 99], [97, 98, 99, 100, 101, 102, 103, 104, 105, 106, 107, 108, 46, 116]]
       \<lparr>fat_mounts = [blank_volume], fat_create_idx = 0, fat_dev = dev\<rparr> = Inr fs1 \<and>
     read_dirents 6 \<lparr>vd_inode = 1, vd_mount_id = 0\<rparr> 0 True True 10 fs1 = Inr (rs, fs2) \<and>
     rs_dirents rs = [\<lparr>d_ino = 0, d_name = [104, 105, 46, 116, 120, 116] @ replicate 250 0\<rparr>,
       \<lparr>d_ino = push_bit 16 2, d_name = [97, 46, 98, 46, 99] @ replicate 251 0\<rparr>,
       \<lparr>d_ino = push_bit 16 5, d_name = [97, 98, 99, 100, 101, 102, 103, 104, 105, 106, 107, 108, 46, 116] @ replicate 242 0\<rparr>]"
proof -
  let ?bs = "[72, 73] @ replicate 6 32 @ [84, 88, 84] :: u8 list" and ?v = "\<lparr>vd_inode = 1, vd_mount_id = 0\<rparr> :: VNodeData"
  let ?names = "[[97, 46, 98, 46, 99], [97, 98, 99, 100, 101, 102, 103, 104, 105, 106, 107, 108, 46, 116]] :: u8 list list"
  obtain dev where dev: "fs_dev_add_block_device ram_read ram_write (root_disk ?bs) = Inr dev"
    "dev_okay (\<lambda>d. \<forall>s. length (d s) = 512) (\<lambda>d. d) 300 (dev_id 0) (512 * 300) dev"
    and root: "\<forall>j < 16. root_bytes blank_volume (dev_content (\<lambda>d. d) (dev_id 0) dev) j = take 32 (drop (32 * j) (?bs @ replicate (512 - length ?bs) 0))"
    using root_disk_ok [of ?bs] by auto
  let ?fs = "\<lparr>fat_mounts = [blank_volume], fat_create_idx = 0, fat_dev = dev\<rparr>" and ?f = "dev_content (\<lambda>d. d) (dev_id 0) dev"
  have r0: "root_bytes blank_volume ?f 0 = ?bs @ replicate 21 0" and r1: "root_bytes blank_volume ?f 1 = replicate 32 0"
    using root [rule_format, of 0] root [rule_format, of 1] by simp_all
  have "live_entry (?bs @ replicate 21 0)" by (simp add: live_entry_def le16_def nth_append)
  then have dir: "directory blank_volume (dev_content (\<lambda>d. d) (dev_id 0) (fat_dev ?fs)) 1 []" using r0 r1 by (simp add: directory_def)
  have l: "listed blank_volume ?f 0 = \<lparr>d_ino = 0, d_name = [104, 105, 46, 116, 120, 116] @ replicate 250 0\<rparr>"
    unfolding listed_def r0 by (simp add: short_text_def lower_char_def tolower_def name_buffer_def nth_append)
  have c: "entries_of ?names = 5" "\<forall>name \<in> set ?names. file_name name" "1 + entries_of ?names \<le> 2 ^ 15" "1 + length ?names \<le> 10"
    "32 * (1 + entries_of ?names) + 32 < root_size blank_volume"
    by (simp_all add: lfn_count_def file_name_def plain_char_def blank_volume_layout)
  have v: "root_vnode blank_volume ?fs ?v" by (simp add: root_vnode_def)
  have "long_dirents 1 ?names = [\<lparr>d_ino = push_bit 16 2, d_name = [97, 46, 98, 46, 99] @ replicate 251 0\<rparr>,
       \<lparr>d_ino = push_bit 16 5, d_name = [97, 98, 99, 100, 101, 102, 103, 104, 105, 106, 107, 108, 46, 116] @ replicate 242 0\<rparr>]"
    by (simp add: lfn_count_def)
  then show ?thesis
    using created_names_are_listed [OF _ blank_volume_device blank_volume_layout(1) v dir c(2,5,3,4), of "\<lambda>d. \<forall>s. length (d s) = 512" 300 True]
      dev l by auto
qed

end
