(* ===== verification/Xhci_Ring.thy ===== *)
theory Xhci_Ring
  imports Phys_Slab
begin

text \<open>
  The rings of the USB host controller (\<open>stuos/src/xhci_trb.c\<close>): a page of 16-byte request blocks that the
  driver and the controller share, in which a cycle bit tells blocks that are new from old ones.

  A block is kept as its two 64-bit words. The page that \<open>trbs\<close> points to is part of the ring; the empty
  list is the null pointer. Two locales state the two ends of such a ring: \<open>trb_producer\<close> stamps the next slot
  with the bit of the current lap, \<open>trb_consumer\<close> takes the next slot if its bit is that of the lap. Their
  interpretations are \<open>enqueue_ring\<close>, with 255 slots before the link block, and \<open>dequeue_ring\<close> with 256.
\<close>

section \<open>Data and operations\<close>

record TRB =
  trb_parameter :: u64
  trb_status :: u64

abbreviation TRB_TYPE_NORMAL :: u64 where "TRB_TYPE_NORMAL \<equiv> 1"
abbreviation TRB_TYPE_LINK :: u64 where "TRB_TYPE_LINK \<equiv> 6"
abbreviation TRB_TYPE_TRANSFER :: u64 where "TRB_TYPE_TRANSFER \<equiv> 32"

text \<open>The bit fields of the status word: the cycle bit is bit 32, the type bits 42 to 47.\<close>

definition cycle_bit :: "TRB \<Rightarrow> u8" where
  "cycle_bit trb = (if bit (trb_status trb) 32 then 1 else 0)"

definition set_cycle_bit :: "u8 \<Rightarrow> TRB \<Rightarrow> TRB" where
  "set_cycle_bit c trb = trb\<lparr>trb_status := (if bit c 0 then set_bit 32 (trb_status trb) else unset_bit 32 (trb_status trb))\<rparr>"

definition trb_type :: "TRB \<Rightarrow> u64" where
  "trb_type trb = drop_bit 42 (trb_status trb) AND 0x3F"

record Ring =
  rg_count :: u64
  rg_idx :: u64
  rg_trbs_phys :: u64
  rg_trbs :: "TRB list"
  rg_ring_cycle_state :: u8

text \<open>The ring over a fresh page at \<open>trb_phys\<close>: its blocks are zero but the last, which is a link to the first.\<close>

definition ring_page :: "u64 \<Rightarrow> Ring" where
  "ring_page trb_phys =
     (let count = PAGE_SIZE div 16;
          zeroed = replicate (unat count) \<lparr>trb_parameter = 0, trb_status = 0\<rparr>;
          link = \<lparr>trb_parameter = trb_phys, trb_status = push_bit 42 TRB_TYPE_LINK OR push_bit 33 1\<rparr>
      in \<lparr>rg_count = count, rg_idx = 0, rg_trbs_phys = trb_phys, rg_trbs = zeroed[unat (count - 1) := link],
          rg_ring_cycle_state = 1\<rparr>)"

definition create_ring :: "slab \<Rightarrow> (Ring \<times> slab) result" where
  "create_ring s = rbind (malloc4k_phys s) (\<lambda>(trb_phys, s'). Inr (ring_page trb_phys, s'))"

definition enqueue_ring :: "TRB \<Rightarrow> Ring \<Rightarrow> Ring result" where
  "enqueue_ring trb ring =
     (if rg_trbs ring = [] then Inl HCF
      else if unat (rg_idx ring) \<ge> length (rg_trbs ring) then Inl WildAccess
      else let trbs = (rg_trbs ring)[unat (rg_idx ring) := set_cycle_bit (rg_ring_cycle_state ring) trb];
               idx = rg_idx ring + 1
           in if idx = rg_count ring - 1
              then if unat idx \<ge> length trbs then Inl WildAccess
                   else Inr (ring\<lparr>rg_trbs := trbs[unat idx := set_cycle_bit (cycle_bit (trbs ! unat idx) XOR 1) (trbs ! unat idx)],
                          rg_idx := 0, rg_ring_cycle_state := rg_ring_cycle_state ring XOR 1\<rparr>)
              else Inr (ring\<lparr>rg_trbs := trbs, rg_idx := idx\<rparr>))"

text \<open>\<open>None\<close> is the return value -1, and \<open>Some\<close> the block that was stored in \<open>trb_out\<close>.\<close>

definition dequeue_ring :: "Ring \<Rightarrow> (TRB option \<times> Ring) result" where
  "dequeue_ring ring =
     (if unat (rg_idx ring) \<ge> length (rg_trbs ring) then Inl WildAccess
      else let trb = rg_trbs ring ! unat (rg_idx ring) in
           if cycle_bit trb \<noteq> rg_ring_cycle_state ring then Inr (None, ring)
           else if rg_idx ring + 1 = rg_count ring
                then Inr (Some trb, ring\<lparr>rg_idx := 0, rg_ring_cycle_state := rg_ring_cycle_state ring XOR 1\<rparr>)
                else Inr (Some trb, ring\<lparr>rg_idx := rg_idx ring + 1\<rparr>))"

section \<open>Laps and cycle bits\<close>

text \<open>The cycle bit of block number \<open>k\<close> in a ring of \<open>n\<close> slots: 1 in the first lap, then alternating.\<close>

definition lap_bit :: "nat \<Rightarrow> nat \<Rightarrow> u8" where
  "lap_bit n k = (if even (k div n) then 1 else 0)"

text \<open>The slots after the blocks \<open>evs\<close> have been put into a fresh ring one after the other: the last \<open>n\<close> of them
  are there, and a slot that was never used has cycle bit 0.\<close>

definition ring_holds :: "nat \<Rightarrow> TRB list \<Rightarrow> TRB list \<Rightarrow> bool" where
  "ring_holds n evs slots \<longleftrightarrow> n \<le> length slots \<and>
     (\<forall>i < length evs. length evs \<le> i + n \<longrightarrow> slots ! (i mod n) = set_cycle_bit (lap_bit n i) (evs ! i)) \<and>
     (\<forall>j < n. length evs \<le> j \<longrightarrow> cycle_bit (slots ! j) = 0)"

lemma cycle_bit_set: "cycle_bit (set_cycle_bit c trb) = (if bit c 0 then 1 else 0)"
  by (simp add: cycle_bit_def set_cycle_bit_def bit_set_bit_iff bit_unset_bit_iff)

lemma parameter_set_cycle [simp]: "trb_parameter (set_cycle_bit c trb) = trb_parameter trb"
  by (simp add: set_cycle_bit_def)

lemma lap_bit_0 [simp]: "bit (lap_bit n k) 0 \<longleftrightarrow> even (k div n)"
  by (simp add: lap_bit_def)

lemma cycle_bit_lap [simp]: "cycle_bit (set_cycle_bit (lap_bit n k) trb) = lap_bit n k"
  by (simp add: lap_bit_def cycle_bit_set)

lemma lap_bit_next: "0 < n \<Longrightarrow> lap_bit n (k + n) \<noteq> lap_bit n k"
  by (simp add: lap_bit_def div_add_self2)

lemma lap_bit_Suc: "0 < n \<Longrightarrow> lap_bit n (Suc k) = (if Suc (k mod n) = n then lap_bit n k XOR 1 else lap_bit n k)"
  by (simp add: lap_bit_def div_Suc mod_Suc)

lemma mod_neq_window: "i < k \<Longrightarrow> k < i + n \<Longrightarrow> i mod n \<noteq> k mod (n :: nat)"
proof
  assume lt: "i < k" "k < i + n" and eq: "i mod n = k mod n"
  then have "n dvd k - i" by (metis less_imp_le mod_eq_dvd_iff_nat)
  then show False using lt by (auto dest: dvd_imp_le)
qed

lemma ring_holds_put:
  assumes "ring_holds n evs slots" and "0 < n"
  shows "ring_holds n (evs @ [t]) (slots[length evs mod n := set_cycle_bit (lap_bit n (length evs)) t])"
proof -
  let ?k = "length evs" and ?s = "slots[length evs mod n := set_cycle_bit (lap_bit n (length evs)) t]"
  have len: "?k mod n < length slots" using assms by (auto simp: ring_holds_def intro: less_le_trans [OF mod_less_divisor])
  have "?s ! (i mod n) = set_cycle_bit (lap_bit n i) ((evs @ [t]) ! i)" if "i < Suc ?k" "Suc ?k \<le> i + n" for i
  proof (cases "i = ?k")
    case False
    then have i: "i < ?k" "?k < i + n" using that by auto
    then show ?thesis using assms(1) mod_neq_window [OF i] by (simp add: ring_holds_def nth_append)
  qed (use len in simp)
  moreover have "cycle_bit (?s ! j) = 0" if "j < n" "Suc ?k \<le> j" for j
    using assms(1) that by (simp add: ring_holds_def)
  ultimately show ?thesis using assms(1) by (simp add: ring_holds_def)
qed

text \<open>What the two ends see: the next block to take, or a bit of the other lap.\<close>

lemma ring_holds_next:
  "ring_holds n evs slots \<Longrightarrow> c < length evs \<Longrightarrow> length evs \<le> c + n \<Longrightarrow> slots ! (c mod n) = set_cycle_bit (lap_bit n c) (evs ! c)"
  by (simp add: ring_holds_def)

lemma ring_holds_none:
  assumes "ring_holds n evs slots" and "0 < n"
  shows "cycle_bit (slots ! (length evs mod n)) \<noteq> lap_bit n (length evs)"
proof (cases "length evs < n")
  case True
  then show ?thesis using assms by (simp add: ring_holds_def lap_bit_def)
next
  case False
  define i where "i = length evs - n"
  have i: "length evs = i + n" "i < length evs" using False assms(2) by (auto simp: i_def)
  then have "slots ! (length evs mod n) = set_cycle_bit (lap_bit n i) (evs ! i)"
    using ring_holds_next [OF assms(1) i(2)] by simp
  then show ?thesis using lap_bit_next [OF assms(2), of i] i(1) by simp
qed

section \<open>The two ends\<close>

locale trb_producer =
  fixes put :: "TRB \<Rightarrow> 'r \<Rightarrow> 'r result" and slots :: "'r \<Rightarrow> TRB list" and at :: "nat \<Rightarrow> 'r \<Rightarrow> bool" and n :: nat
  assumes n_pos: "0 < n"
    and put_ok: "at k r \<Longrightarrow> \<exists>r'. put t r = Inr r' \<and> at (Suc k) r' \<and> n \<le> length (slots r') \<and>
      take n (slots r') = (take n (slots r))[k mod n := set_cycle_bit (lap_bit n k) t]"
begin

lemma put_all:
  "at (length evs) r \<Longrightarrow> ring_holds n evs (take n (slots r)) \<Longrightarrow>
   \<exists>r'. rfold put ts r = Inr r' \<and> at (length (evs @ ts)) r' \<and> ring_holds n (evs @ ts) (take n (slots r'))"
proof (induction ts arbitrary: evs r)
  case (Cons t ts)
  obtain r' where r': "put t r = Inr r'" "at (Suc (length evs)) r'"
    "take n (slots r') = (take n (slots r))[length evs mod n := set_cycle_bit (lap_bit n (length evs)) t]"
    using put_ok [OF Cons.prems(1)] by blast
  have "ring_holds n (evs @ [t]) (take n (slots r'))"
    using ring_holds_put [OF Cons.prems(2) n_pos] r'(3) by simp
  with Cons.IH [of "evs @ [t]" r'] r' show ?case by simp
qed auto

end

locale trb_consumer =
  fixes get :: "'r \<Rightarrow> (TRB option \<times> 'r) result" and slots :: "'r \<Rightarrow> TRB list" and at :: "nat \<Rightarrow> 'r \<Rightarrow> bool" and n :: nat
  assumes n_pos: "0 < n"
    and get_none: "at c r \<Longrightarrow> cycle_bit (slots r ! (c mod n)) \<noteq> lap_bit n c \<Longrightarrow> get r = Inr (None, r)"
    and get_some: "at c r \<Longrightarrow> cycle_bit (slots r ! (c mod n)) = lap_bit n c \<Longrightarrow>
      \<exists>r'. get r = Inr (Some (slots r ! (c mod n)), r') \<and> at (Suc c) r' \<and> slots r' = slots r"
begin

lemma get_empty: "at (length evs) r \<Longrightarrow> ring_holds n evs (slots r) \<Longrightarrow> get r = Inr (None, r)"
  by (rule get_none [OF _ ring_holds_none [OF _ n_pos]])

text \<open>Repeated calls return the waiting blocks in order.\<close>

lemma get_all:
  "at c r \<Longrightarrow> ring_holds n evs (slots r) \<Longrightarrow> c + length ds = length evs \<Longrightarrow> length ds \<le> n \<Longrightarrow> drop c evs = ds \<Longrightarrow>
   \<exists>r'. rfold (\<lambda>_ (out, r). rbind (get r) (\<lambda>(t, r'). Inr (out @ [t], r'))) ds (out, r) =
     Inr (out @ map (\<lambda>i. Some (set_cycle_bit (lap_bit n i) (evs ! i))) [c..<length evs], r') \<and> at (length evs) r' \<and> slots r' = slots r"
proof (induction ds arbitrary: c r out)
  case (Cons d ds)
  have c: "c < length evs" "length evs \<le> c + n" using Cons.prems(3,4) by auto
  note slot = ring_holds_next [OF Cons.prems(2) c]
  obtain r' where r': "get r = Inr (Some (slots r ! (c mod n)), r')" "at (Suc c) r'" "slots r' = slots r"
    using get_some [OF Cons.prems(1)] slot by auto
  have "drop (Suc c) evs = ds" using Cons.prems(5) by (metis drop_Suc list.sel(3) tl_drop)
  with Cons.IH [OF r'(2), of "out @ [Some (slots r ! (c mod n))]"] Cons.prems(2-4) r'(3)
  obtain r'' where "rfold (\<lambda>_ (out, r). rbind (get r) (\<lambda>(t, r'). Inr (out @ [t], r'))) ds (out @ [Some (slots r ! (c mod n))], r') =
      Inr ((out @ [Some (slots r ! (c mod n))]) @ map (\<lambda>i. Some (set_cycle_bit (lap_bit n i) (evs ! i))) [Suc c..<length evs], r'')"
    "at (length evs) r''" "slots r'' = slots r" by auto
  moreover have "[c..<length evs] = c # [Suc c..<length evs]" using c(1) by (simp add: upt_conv_Cons)
  ultimately show ?case using r'(1) slot by auto
qed auto

end

text \<open>The last block of a ring that the driver fills leads back to the start of the page and makes the controller
  toggle the bit it waits for.\<close>

definition leads_to :: "u64 \<Rightarrow> TRB \<Rightarrow> bool" where
  "leads_to p link \<longleftrightarrow> trb_parameter link = p \<and> trb_type link = TRB_TYPE_LINK \<and> bit (trb_status link) 33"

lemma leads_to_set_cycle [simp]: "leads_to p (set_cycle_bit c link) = leads_to p link"
proof -
  have "drop_bit 42 (set_bit 32 w) = drop_bit 42 w" "drop_bit 42 (unset_bit 32 w) = drop_bit 42 w" for w :: u64
    by (auto intro!: bit_word_eqI simp: bit_simps)
  then show ?thesis by (simp add: leads_to_def trb_type_def set_cycle_bit_def bit_simps)
qed

text \<open>The driver's end after \<open>k\<close> blocks were put in: the link block has the bit of the lap that ends with it.\<close>

definition producer_at :: "u64 \<Rightarrow> nat \<Rightarrow> Ring \<Rightarrow> bool" where
  "producer_at p k r \<longleftrightarrow> rg_count r = 256 \<and> length (rg_trbs r) = 256 \<and> rg_trbs_phys r = p \<and> rg_idx r = of_nat (k mod 255) \<and>
     rg_ring_cycle_state r = lap_bit 255 k \<and> cycle_bit (rg_trbs r ! 255) = lap_bit 255 k XOR 1 \<and> leads_to p (rg_trbs r ! 255)"

definition consumer_at :: "nat \<Rightarrow> Ring \<Rightarrow> bool" where
  "consumer_at c r \<longleftrightarrow> rg_count r = 256 \<and> length (rg_trbs r) = 256 \<and> rg_idx r = of_nat (c mod 256) \<and> rg_ring_cycle_state r = lap_bit 256 c"

lemma unat_mod_index: "m < 1000 \<Longrightarrow> unat (of_nat m :: u64) = m" "m < 1000 \<Longrightarrow> (of_nat m :: u64) + 1 = of_nat (Suc m)"
  by (simp_all add: unat_of_nat take_bit_nat_eq_self)

lemma enqueue_ring_step:
  assumes "producer_at p k r"
  shows "\<exists>r'. enqueue_ring t r = Inr r' \<and> producer_at p (Suc k) r' \<and>
    take 255 (rg_trbs r') = (take 255 (rg_trbs r))[k mod 255 := set_cycle_bit (lap_bit 255 k) t]"
proof -
  define m where "m = k mod 255"
  have m: "m < 255" by (simp add: m_def)
  have idx: "rg_idx r = of_nat m" "unat (of_nat m :: u64) = m" "(of_nat m :: u64) + 1 = of_nat (Suc m)"
    using assms m unat_mod_index [of m] by (simp_all add: producer_at_def m_def)
  have eq: "(of_nat (Suc m) :: u64) = 256 - 1 \<longleftrightarrow> Suc m = 255"
    using unat_mod_index(1) [of "Suc m"] m by (auto simp del: of_nat_Suc simp: word_unat_eq_iff)
  have xor: "(lap_bit 255 k XOR 1) XOR 1 = lap_bit 255 k" by (simp add: lap_bit_def)
  show ?thesis
  proof (cases "Suc m = 255")
    case True
    have m254: "m = 254" using True by simp
    have "lap_bit 255 (Suc k) = lap_bit 255 k XOR 1" "Suc k mod 255 = 0" using True by (simp_all add: lap_bit_Suc m_def mod_Suc)
    then show ?thesis using assms True idx eq m254
      by (auto simp: enqueue_ring_def producer_at_def Let_def take_update_swap xor list_update_beyond simp flip: m_def)
  next
    case False
    have "lap_bit 255 (Suc k) = lap_bit 255 k" "Suc k mod 255 = Suc m" using False by (simp_all add: lap_bit_Suc m_def mod_Suc)
    then show ?thesis using assms False idx eq m
      by (auto simp: enqueue_ring_def producer_at_def Let_def take_update_swap simp flip: m_def)
  qed
qed

interpretation prod: trb_producer enqueue_ring rg_trbs "producer_at p" 255 for p
proof unfold_locales
  show "producer_at p k r \<Longrightarrow> \<exists>r'. enqueue_ring t r = Inr r' \<and> producer_at p (Suc k) r' \<and> 255 \<le> length (rg_trbs r') \<and>
      take 255 (rg_trbs r') = (take 255 (rg_trbs r))[k mod 255 := set_cycle_bit (lap_bit 255 k) t]" for k r t
    using enqueue_ring_step [of p k r t] by (auto simp: producer_at_def)
qed simp

interpretation cons: trb_consumer dequeue_ring rg_trbs consumer_at 256
proof unfold_locales
  fix c r
  assume at: "consumer_at c r"
  define m where "m = c mod 256"
  have m: "m < 256" by (simp add: m_def)
  have idx: "rg_idx r = of_nat m" "unat (of_nat m :: u64) = m" "(of_nat m :: u64) + 1 = of_nat (Suc m)"
    using at m unat_mod_index [of m] by (simp_all add: consumer_at_def m_def)
  have eq: "(of_nat (Suc m) :: u64) = 256 \<longleftrightarrow> Suc m = 256"
    using unat_mod_index(1) [of "Suc m"] m by (auto simp del: of_nat_Suc simp: word_unat_eq_iff)
  show "cycle_bit (rg_trbs r ! (c mod 256)) \<noteq> lap_bit 256 c \<Longrightarrow> dequeue_ring r = Inr (None, r)"
    using at idx m by (simp add: dequeue_ring_def consumer_at_def Let_def flip: m_def)
  show "cycle_bit (rg_trbs r ! (c mod 256)) = lap_bit 256 c \<Longrightarrow>
      \<exists>r'. dequeue_ring r = Inr (Some (rg_trbs r ! (c mod 256)), r') \<and> consumer_at (Suc c) r' \<and> rg_trbs r' = rg_trbs r"
    using at idx m eq by (auto simp: dequeue_ring_def consumer_at_def Let_def lap_bit_Suc mod_Suc simp flip: m_def simp del: of_nat_Suc)
qed simp

lemma ring_page_fresh:
  "producer_at p 0 (ring_page p)" "consumer_at 0 (ring_page p)" "ring_holds 255 [] (take 255 (rg_trbs (ring_page p)))"
  "ring_holds 256 [] (rg_trbs (ring_page p))" "rg_trbs_phys (ring_page p) = p"
proof -
  have ring: "ring_page p = \<lparr>rg_count = 256, rg_idx = 0, rg_trbs_phys = p,
      rg_trbs = (replicate 256 \<lparr>trb_parameter = 0, trb_status = 0\<rparr>)[255 := \<lparr>trb_parameter = p, trb_status = push_bit 42 TRB_TYPE_LINK OR push_bit 33 1\<rparr>],
      rg_ring_cycle_state = 1\<rparr>"
    by (simp add: ring_page_def Let_def)
  have link: "cycle_bit \<lparr>trb_parameter = p, trb_status = push_bit 42 TRB_TYPE_LINK OR push_bit 33 1\<rparr> = 0"
    and zero: "cycle_bit \<lparr>trb_parameter = 0, trb_status = 0\<rparr> = 0"
    by (simp_all add: cycle_bit_def bit_simps)
  have "leads_to p \<lparr>trb_parameter = p, trb_status = push_bit 42 TRB_TYPE_LINK OR push_bit 33 1\<rparr>"
    by (simp add: leads_to_def trb_type_def bit_simps drop_bit_or)
  then show "producer_at p 0 (ring_page p)" "consumer_at 0 (ring_page p)"
    using link by (simp_all add: ring producer_at_def consumer_at_def lap_bit_def)
  show "ring_holds 255 [] (take 255 (rg_trbs (ring_page p)))" "ring_holds 256 [] (rg_trbs (ring_page p))" "rg_trbs_phys (ring_page p) = p"
    using link zero by (auto simp: ring ring_holds_def nth_list_update)
qed

section \<open>Properties\<close>

text \<open>C12. The transfer and command rings: after \<open>create_ring\<close>, any number of blocks can be queued. Whatever block number \<open>c\<close>
  the controller has reached, if it is at most 255 blocks behind, the slot it looks at holds block \<open>c\<close> with the cycle bit of
  its lap, or, when nothing is left, a block with the other cycle bit; the link block leads back to the start of the page
  and carries the bit of the lap that it ends. So the controller sees the blocks once each, in order, and stops at the last.\<close>

theorem enqueue_ring_protocol:
  assumes "create_ring s = Inr (ring, s')"
  shows "\<exists>r. rfold enqueue_ring ts ring = Inr r \<and> leads_to (rg_trbs_phys ring) (rg_trbs r ! 255) \<and>
     cycle_bit (rg_trbs r ! 255) = lap_bit 255 (length ts) XOR 1 \<and>
     (\<forall>c \<le> length ts. length ts \<le> c + 255 \<longrightarrow>
        (if c < length ts then rg_trbs r ! (c mod 255) = set_cycle_bit (lap_bit 255 c) (ts ! c)
         else cycle_bit (rg_trbs r ! (c mod 255)) \<noteq> lap_bit 255 c))"
proof -
  have ring: "ring = ring_page (rg_trbs_phys ring)" using assms ring_page_fresh(5) by (auto simp: create_ring_def rbind_eq_Inr_iff)
  have fresh: "producer_at (rg_trbs_phys ring) 0 ring" "ring_holds 255 [] (take 255 (rg_trbs ring))"
    using ring_page_fresh(1,3) [of "rg_trbs_phys ring"] by (simp_all flip: ring)
  obtain r where r: "rfold enqueue_ring ts ring = Inr r" "producer_at (rg_trbs_phys ring) (length ts) r" "ring_holds 255 ts (take 255 (rg_trbs r))"
    using prod.put_all [of "rg_trbs_phys ring" "[]" ring ts] fresh by auto
  have "if c < length ts then rg_trbs r ! (c mod 255) = set_cycle_bit (lap_bit 255 c) (ts ! c)
         else cycle_bit (rg_trbs r ! (c mod 255)) \<noteq> lap_bit 255 c" if "c \<le> length ts" "length ts \<le> c + 255" for c
    using ring_holds_next [OF r(3), of c] ring_holds_none [OF r(3)] that by (cases "c = length ts") auto
  then show ?thesis using r(1,2) by (auto simp: producer_at_def)
qed

theorem enqueue_ring_protocol_witness:
  "\<exists>ring s' r. create_ring \<lparr>physical_memory_base = 0x100000, physical_memory_pages = 2, slab_flags = [True, False]\<rparr> = Inr (ring, s') \<and>
     rfold enqueue_ring (replicate 300 \<lparr>trb_parameter = 7, trb_status = 0\<rparr>) ring = Inr r \<and>
     rg_trbs r ! 44 = set_cycle_bit 0 \<lparr>trb_parameter = 7, trb_status = 0\<rparr> \<and> cycle_bit (rg_trbs r ! 45) \<noteq> 0"
proof -
  obtain ring s' where c: "create_ring \<lparr>physical_memory_base = 0x100000, physical_memory_pages = 2, slab_flags = [True, False]\<rparr> = Inr (ring, s')"
    by (simp add: create_ring_def malloc4k_phys_def malloc4k_loop.simps flag_read_def flag_write_def Let_def)
  from enqueue_ring_protocol [OF c, of "replicate 300 \<lparr>trb_parameter = 7, trb_status = 0\<rparr>"]
  obtain r where r: "rfold enqueue_ring (replicate 300 \<lparr>trb_parameter = 7, trb_status = 0\<rparr>) ring = Inr r"
    "\<forall>c \<le> 300. 300 \<le> c + 255 \<longrightarrow>
        (if c < 300 then rg_trbs r ! (c mod 255) = set_cycle_bit (lap_bit 255 c) (replicate 300 \<lparr>trb_parameter = 7, trb_status = 0\<rparr> ! c)
         else cycle_bit (rg_trbs r ! (c mod 255)) \<noteq> lap_bit 255 c)" by auto
  have "lap_bit 255 299 = 0" "lap_bit 255 300 = 0" by (simp_all add: lap_bit_def)
  then show ?thesis using c r(1) r(2) [rule_format, of 299] r(2) [rule_format, of 300] by auto
qed

text \<open>C17. The event ring: when the controller has put the events \<open>evs\<close> into the ring and the driver has taken \<open>c\<close> of them,
  at most one page of events behind, repeated calls of \<open>dequeue_ring\<close> return all waiting events in order, across the end of
  the page, and the call after them reports that nothing is there without changing the ring.\<close>

theorem dequeue_ring_delivers:
  assumes "consumer_at c ring" and "ring_holds 256 evs (rg_trbs ring)" and "c \<le> length evs" and "length evs \<le> c + 256"
  shows "\<exists>r. rfold (\<lambda>_ (out, r). rbind (dequeue_ring r) (\<lambda>(t, r'). Inr (out @ [t], r'))) (drop c evs) ([], ring) =
      Inr (map (\<lambda>i. Some (set_cycle_bit (lap_bit 256 i) (evs ! i))) [c..<length evs], r) \<and> dequeue_ring r = Inr (None, r)"
proof -
  obtain r where r: "rfold (\<lambda>_ (out, r). rbind (dequeue_ring r) (\<lambda>(t, r'). Inr (out @ [t], r'))) (drop c evs) ([], ring) =
      Inr (map (\<lambda>i. Some (set_cycle_bit (lap_bit 256 i) (evs ! i))) [c..<length evs], r)" "consumer_at (length evs) r" "rg_trbs r = rg_trbs ring"
    using cons.get_all [OF assms(1,2), of "drop c evs" "[]"] assms(3,4) le_diff_conv [of "length evs" c 256]
    by (auto simp: add.commute)
  then show ?thesis using cons.get_empty [OF r(2)] assms(2) by auto
qed

theorem dequeue_ring_delivers_witness:
  "\<exists>r. rfold (\<lambda>_ (out, r). rbind (dequeue_ring r) (\<lambda>(t, r'). Inr (out @ [t], r'))) [\<lparr>trb_parameter = 9, trb_status = 0\<rparr>]
      ([], \<lparr>rg_count = 256, rg_idx = 0, rg_trbs_phys = 0, rg_trbs = (replicate 256 \<lparr>trb_parameter = 0, trb_status = 0\<rparr>)
        [0 := set_cycle_bit 1 \<lparr>trb_parameter = 9, trb_status = 0\<rparr>], rg_ring_cycle_state = 1\<rparr>) =
      Inr ([Some (set_cycle_bit 1 \<lparr>trb_parameter = 9, trb_status = 0\<rparr>)], r) \<and> dequeue_ring r = Inr (None, r)"
proof -
  let ?ring = "\<lparr>rg_count = 256, rg_idx = 0, rg_trbs_phys = 0, rg_trbs = (replicate 256 \<lparr>trb_parameter = 0, trb_status = 0\<rparr>)
        [0 := set_cycle_bit 1 \<lparr>trb_parameter = 9, trb_status = 0\<rparr>], rg_ring_cycle_state = 1\<rparr>"
  have "consumer_at 0 ?ring" by (simp add: consumer_at_def lap_bit_def)
  moreover have "ring_holds 256 [\<lparr>trb_parameter = 9, trb_status = 0\<rparr>] (rg_trbs ?ring)"
    by (auto simp: ring_holds_def nth_list_update cycle_bit_def lap_bit_def)
  ultimately show ?thesis
    using dequeue_ring_delivers [of 0 ?ring "[\<lparr>trb_parameter = 9, trb_status = 0\<rparr>]"] by (simp add: lap_bit_def)
qed

end
