(* ===== verification/Xhci_State.thy ===== *)
theory Xhci_State
  imports Xhci_Ring Tty Kern_Libc
begin

text \<open>
  The state of the USB host controller driver (\<open>stuos/src/xhci_driver.h\<close>) and its smallest operations: register
  access (\<open>read_bar_32\<close>, \<open>write_bar_32\<close> of \<open>pci.c\<close>), doorbells, the event pointer and the handler that hands a
  received block to a waiting caller (\<open>xhci_driver.c\<close>).

  The host controller and the devices behind it are hardware: a value of type \<open>'h controller\<close>, over their own
  state \<open>'h\<close>, is an argument of every operation that reaches them. It answers register reads, takes register
  writes, and says in \<open>hc_run\<close> what the controller does next when the processor waits: the new contents of the
  event ring, of memory and of the device contexts, or that nothing happens any more.

  \<open>x_mem\<close> is physical memory, which the code reads and writes through its direct map; ring pages, contexts and
  the device table are kept as values of their own. A pointer to a stack variable or a heap object of the driver
  is the object itself, \<open>DeadFrame\<close> when the function that owned it has returned.
\<close>

section \<open>Data\<close>

record EndpointContext =
  ec_ep_state :: u8
  ec_mult :: u8
  ec_max_p_streams :: u8
  ec_lsa :: bool
  ec_interval :: u8
  ec_max_esit_payload_hi :: u8
  ec_cerr :: u8
  ec_ep_type :: u8
  ec_hid :: bool
  ec_max_burst_size :: u8
  ec_max_packet_size :: u16
  ec_dcs :: bool
  ec_tr_dequeue_pointer_lo :: u32
  ec_tr_dequeue_pointer_hi :: u32
  ec_average_trb_length :: u16
  ec_max_esit_payload_lo :: u16

text \<open>The fields of the slot context that the driver reads or writes, and the 31 endpoint contexts.\<close>

record DeviceContext =
  dc_speed :: u8
  dc_context_entries :: u8
  dc_root_hub_port_num :: u8
  dc_interrupt_target :: u16
  dc_device_address :: u8
  dc_slot_state :: u8
  dc_endpoint_context :: "EndpointContext list"

record InputContext =
  ic_drop_flags :: u32
  ic_add_flags :: u32
  ic_device_context :: DeviceContext

record FetchAndCopyData =
  fc_result :: TRB
  fc_done :: bool

text \<open>The keyboard driver's data (\<open>xhci_keyboard.c\<close>).\<close>

record InputReport =
  ir_modifier_keys :: u8
  ir_reserved_0 :: u8
  ir_keycodes :: "u8 list"

record PacketRecvState =
  pr_rep_phys :: u64
  pr_in_index :: nat
  pr_previous_report :: InputReport
  pr_shift_currently_pressed :: bool
  pr_capslock_on :: bool

datatype trb_handler = FetchAndCopy | FetchAndCopyToSlot0 | PacketRecv

datatype handler_data = NullData | FetchData FetchAndCopyData | KeyboardData PacketRecvState | DeadFrame

record XHCIDevice =
  dv_endpoint_rings :: "Ring list"
  dv_input_context_phys :: u64
  dv_input_context :: "InputContext option"
  dv_device_context :: "DeviceContext option"
  dv_interrupt_trb_handler :: "trb_handler option"
  dv_interrupt_handler_data :: handler_data

record BarInfo =
  bi_bar_size :: u64
  bi_address :: u64
  bi_is_io_bar :: bool

text \<open>\<open>slots\<close> has 256 entries and is indexed by a byte. \<open>x_controller_found\<close> says that \<open>controller_i_found\<close> is not null. \<open>x_next_free_tag\<close> is the static variable of \<open>send_bbb\<close>
  (\<open>xhci_msd.c\<close>). The components the driver calls follow: the page allocator, memory and the terminal.\<close>

record 'h usb =
  x_command_ring :: Ring
  x_event_ring :: Ring
  x_bar :: BarInfo
  x_cap_length :: u8
  x_rts_offset :: u32
  x_db_offset :: u32
  x_dcbaa :: "u64 list"
  x_slots :: "u8 \<Rightarrow> XHCIDevice"
  x_port_is_usb3 :: "bool list"
  x_next_free_tag :: u32
  x_controller_found :: bool
  x_slab :: slab
  x_mem :: mem
  x_tty :: tty
  x_hw :: 'h

record 'h dma =
  dm_event_trbs :: "TRB list"
  dm_mem :: mem
  dm_contexts :: "u8 \<Rightarrow> DeviceContext"
  dm_hw :: 'h

record 'h controller =
  hc_read :: "u64 \<Rightarrow> 'h \<Rightarrow> u32 \<times> 'h"
  hc_write :: "u64 \<Rightarrow> u32 \<Rightarrow> 'h \<Rightarrow> 'h"
  hc_config_write :: "u32 \<Rightarrow> u32 \<Rightarrow> 'h \<Rightarrow> 'h"
  hc_run :: "'h usb \<Rightarrow> 'h dma option"

text \<open>A controller whose registers read as zero and that never does anything.\<close>

definition idle_controller :: "unit controller" where
  "idle_controller = \<lparr>hc_read = (\<lambda>_ h. (0, h)), hc_write = (\<lambda>_ _ h. h), hc_config_write = (\<lambda>_ _ h. h), hc_run = (\<lambda>_. None)\<rparr>"

definition zero_ring :: Ring where
  "zero_ring = \<lparr>rg_count = 0, rg_idx = 0, rg_trbs_phys = 0, rg_trbs = [], rg_ring_cycle_state = 0\<rparr>"

definition zero_endpoint :: EndpointContext where
  "zero_endpoint = \<lparr>ec_ep_state = 0, ec_mult = 0, ec_max_p_streams = 0, ec_lsa = False, ec_interval = 0, ec_max_esit_payload_hi = 0,
     ec_cerr = 0, ec_ep_type = 0, ec_hid = False, ec_max_burst_size = 0, ec_max_packet_size = 0, ec_dcs = False,
     ec_tr_dequeue_pointer_lo = 0, ec_tr_dequeue_pointer_hi = 0, ec_average_trb_length = 0, ec_max_esit_payload_lo = 0\<rparr>"

definition zero_device_context :: DeviceContext where
  "zero_device_context = \<lparr>dc_speed = 0, dc_context_entries = 0, dc_root_hub_port_num = 0, dc_interrupt_target = 0,
     dc_device_address = 0, dc_slot_state = 0, dc_endpoint_context = replicate 31 zero_endpoint\<rparr>"

definition zero_device :: XHCIDevice where
  "zero_device = \<lparr>dv_endpoint_rings = replicate 15 zero_ring, dv_input_context_phys = 0, dv_input_context = None, dv_device_context = None,
     dv_interrupt_trb_handler = None, dv_interrupt_handler_data = NullData\<rparr>"

definition set_slot :: "u8 \<Rightarrow> XHCIDevice \<Rightarrow> 'h usb \<Rightarrow> 'h usb" where
  "set_slot i dev s = s\<lparr>x_slots := (x_slots s)(i := dev)\<rparr>"

section \<open>Bit fields of a request block\<close>

text \<open>A field of \<open>n\<close> bits at position \<open>i\<close>, as it is written in a designated initialiser and as it is read.\<close>

definition field :: "nat \<Rightarrow> nat \<Rightarrow> u64 \<Rightarrow> u64" where
  "field i n v = push_bit i (take_bit n v)"

definition get_field :: "nat \<Rightarrow> nat \<Rightarrow> u64 \<Rightarrow> u64" where
  "get_field i n w = take_bit n (drop_bit i w)"

definition completion_code :: "TRB \<Rightarrow> u64" where
  "completion_code trb = get_field 24 8 (trb_status trb)"

definition slot_id :: "TRB \<Rightarrow> u8" where
  "slot_id trb = ucast (get_field 56 8 (trb_status trb))"

definition event_transfer_length :: "TRB \<Rightarrow> u64" where
  "event_transfer_length trb = get_field 0 24 (trb_status trb)"

definition is_event_data :: "TRB \<Rightarrow> bool" where
  "is_event_data trb = bit (trb_status trb) 34"

definition normal_trb :: "u64 \<Rightarrow> u64 \<Rightarrow> bool \<Rightarrow> TRB" where
  "normal_trb phys len on_short_packet = \<lparr>trb_parameter = phys,
     trb_status = field 0 17 len OR field 34 1 (if on_short_packet then 1 else 0) OR field 37 1 1 OR field 42 6 TRB_TYPE_NORMAL\<rparr>"

abbreviation TRB_TYPE_CMD_COMPLETION :: u64 where "TRB_TYPE_CMD_COMPLETION \<equiv> 33"
abbreviation TRB_TYPE_PORT_STS_CHANGE :: u64 where "TRB_TYPE_PORT_STS_CHANGE \<equiv> 34"

section \<open>Registers\<close>

definition read_bar_32 :: "'h controller \<Rightarrow> u64 \<Rightarrow> 'h usb \<Rightarrow> (u32 \<times> 'h usb) result" where
  "read_bar_32 hc offset s =
     (if offset mod 4 \<noteq> 0 then Inl HCF
      else if bi_is_io_bar (x_bar s) \<and> bi_address (x_bar s) + offset > 0xFFFF then Inl HCF
      else let (v, h) = hc_read hc offset (x_hw s) in Inr (v, s\<lparr>x_hw := h\<rparr>))"

definition write_bar_32 :: "'h controller \<Rightarrow> u32 \<Rightarrow> u64 \<Rightarrow> 'h usb \<Rightarrow> (unit \<times> 'h usb) result" where
  "write_bar_32 hc src offset s =
     (if offset mod 4 \<noteq> 0 then Inl HCF
      else if bi_is_io_bar (x_bar s) \<and> bi_address (x_bar s) + offset > 0xFFFF then Inl HCF
      else Inr ((), s\<lparr>x_hw := hc_write hc offset src (x_hw s)\<rparr>))"

text \<open>Offsets from the start of the registers: the capability length is a byte added to an \<open>int\<close>, the two others are
  32-bit sums.\<close>

definition op_reg :: "u32 \<Rightarrow> 'h usb \<Rightarrow> u64" where
  "op_reg offset s = ucast (ucast (x_cap_length s) + offset :: u32)"

definition run_reg :: "u32 \<Rightarrow> 'h usb \<Rightarrow> u64" where
  "run_reg offset s = ucast (x_rts_offset s + offset)"

definition doorbell_reg :: "u8 \<Rightarrow> 'h usb \<Rightarrow> u64" where
  "doorbell_reg i s = ucast (x_db_offset s + 4 * ucast i)"

abbreviation USBSTS_OFFSET :: u32 where "USBSTS_OFFSET \<equiv> 4"
abbreviation IR_IMAN_OFFSET :: u32 where "IR_IMAN_OFFSET \<equiv> 0x20"
abbreviation IR_ERDP_OFFSET :: u32 where "IR_ERDP_OFFSET \<equiv> 0x38"

definition ack_irq :: "'h controller \<Rightarrow> 'h usb \<Rightarrow> (unit \<times> 'h usb) result" where
  "ack_irq hc =
     sbind (\<lambda>s. read_bar_32 hc (op_reg USBSTS_OFFSET s) s) (\<lambda>usbsts.
     sbind (\<lambda>s. write_bar_32 hc (usbsts OR 8) (op_reg USBSTS_OFFSET s) s) (\<lambda>_.
     sbind (\<lambda>s. read_bar_32 hc (run_reg IR_IMAN_OFFSET s) s) (\<lambda>iman.
     (\<lambda>s. write_bar_32 hc (iman OR 1) (run_reg IR_IMAN_OFFSET s) s))))"

definition erdp :: "bool \<Rightarrow> Ring \<Rightarrow> u64" where
  "erdp clear_ehb ring = (if clear_ehb then 8 else 0) OR (rg_trbs_phys ring + 16 * rg_idx ring)"

definition update_erdp :: "'h controller \<Rightarrow> bool \<Rightarrow> 'h usb \<Rightarrow> (unit \<times> 'h usb) result" where
  "update_erdp hc clear_ehb =
     sbind (\<lambda>s. write_bar_32 hc (ucast (erdp clear_ehb (x_event_ring s) AND 0xFFFFFFFF)) (run_reg IR_ERDP_OFFSET s) s) (\<lambda>_.
     (\<lambda>s. write_bar_32 hc (ucast (drop_bit 32 (erdp clear_ehb (x_event_ring s)))) (run_reg (IR_ERDP_OFFSET + 4) s) s))"

definition calculate_endpoint_index :: "u8 \<Rightarrow> bool \<Rightarrow> u8 result" where
  "calculate_endpoint_index endpoint_num is_in =
     hcf_unless (endpoint_num \<noteq> 0) (hcf_unless (endpoint_num \<le> 15)
       (Inr (2 * endpoint_num + (if is_in then 1 else 0) - 1)))"

definition ring_doorbell :: "'h controller \<Rightarrow> u8 \<Rightarrow> u8 \<Rightarrow> 'h usb \<Rightarrow> (unit \<times> 'h usb) result" where
  "ring_doorbell hc port endpoint_index s =
     hcf_unless (endpoint_index < 31) (write_bar_32 hc (ucast endpoint_index + 1) (doorbell_reg port s) s)"

definition ring_command_doorbell :: "'h controller \<Rightarrow> 'h usb \<Rightarrow> (unit \<times> 'h usb) result" where
  "ring_command_doorbell hc s = write_bar_32 hc 0 (doorbell_reg 0 s) s"

section \<open>Rings of a device and waiting callers\<close>

definition enqueue_endpoint :: "u8 \<Rightarrow> nat \<Rightarrow> TRB \<Rightarrow> 'h usb \<Rightarrow> (unit \<times> 'h usb) result" where
  "enqueue_endpoint slot idx trb s =
     (let dev = x_slots s slot in
      if idx \<ge> length (dv_endpoint_rings dev) then Inl WildAccess
      else rbind (enqueue_ring trb (dv_endpoint_rings dev ! idx)) (\<lambda>r.
        Inr ((), set_slot slot (dev\<lparr>dv_endpoint_rings := (dv_endpoint_rings dev)[idx := r]\<rparr>) s)))"

definition deliver :: "u8 \<Rightarrow> TRB \<Rightarrow> 'h usb \<Rightarrow> (unit \<times> 'h usb) result" where
  "deliver slot trb s =
     (case dv_interrupt_handler_data (x_slots s slot) of
        FetchData _ \<Rightarrow> Inr ((), set_slot slot ((x_slots s slot)\<lparr>dv_interrupt_handler_data := FetchData \<lparr>fc_result = trb, fc_done = True\<rparr>\<rparr>) s)
      | _ \<Rightarrow> Inl WildAccess)"

definition fetch_and_copy :: "TRB \<Rightarrow> 'h usb \<Rightarrow> (unit \<times> 'h usb) result" where
  "fetch_and_copy trb s =
     (if trb_type trb = TRB_TYPE_CMD_COMPLETION \<or> trb_type trb = TRB_TYPE_TRANSFER then deliver (slot_id trb) trb s
      else Inl HCF)"

definition fetch_and_copy_to_slot_0 :: "TRB \<Rightarrow> 'h usb \<Rightarrow> (unit \<times> 'h usb) result" where
  "fetch_and_copy_to_slot_0 trb s = deliver 0 trb s"

section \<open>Aligned registers\<close>

text \<open>The controller's registers are mapped into memory and its register groups start at multiples of four.\<close>

definition mmio_ok :: "'h usb \<Rightarrow> bool" where
  "mmio_ok s \<longleftrightarrow> \<not> bi_is_io_bar (x_bar s) \<and> 4 dvd unat (x_cap_length s) \<and> 4 dvd unat (x_rts_offset s) \<and> 4 dvd unat (x_db_offset s)"

lemma mod4_dvd: "(w :: u64) mod 4 = 0 \<longleftrightarrow> 4 dvd unat w"
  by (auto simp: word_unat_eq_iff unat_mod mod_eq_0_iff_dvd)

lemma add_dvd4: "4 dvd unat (a :: u32) \<Longrightarrow> 4 dvd unat b \<Longrightarrow> 4 dvd unat (ucast (a + b) :: u64)"
  by (simp add: unat_word_ariths unsigned_ucast_eq take_bit_nat_eq_self dvd_mod)

lemma doorbell_reg_aligned: "mmio_ok s \<Longrightarrow> doorbell_reg i s mod 4 = 0"
  unfolding doorbell_reg_def mmio_ok_def mod4_dvd by (rule add_dvd4) (auto simp: unat_word_ariths dvd_mod)

lemma run_reg_aligned: "mmio_ok s \<Longrightarrow> 4 dvd unat offset \<Longrightarrow> run_reg offset s mod 4 = 0"
  unfolding run_reg_def mmio_ok_def mod4_dvd by (rule add_dvd4) auto

lemma op_reg_aligned: "mmio_ok s \<Longrightarrow> 4 dvd unat offset \<Longrightarrow> op_reg offset s mod 4 = 0"
  unfolding op_reg_def mmio_ok_def mod4_dvd by (rule add_dvd4) (auto simp: unsigned_ucast_eq take_bit_eq_mod dvd_mod)

lemma write_bar_ok: "mmio_ok s \<Longrightarrow> offset mod 4 = 0 \<Longrightarrow> write_bar_32 hc v offset s = Inr ((), s\<lparr>x_hw := hc_write hc offset v (x_hw s)\<rparr>)"
  by (simp add: write_bar_32_def mmio_ok_def)

lemma read_bar_ok: "mmio_ok s \<Longrightarrow> offset mod 4 = 0 \<Longrightarrow>
    read_bar_32 hc offset s = Inr (fst (hc_read hc offset (x_hw s)), s\<lparr>x_hw := snd (hc_read hc offset (x_hw s))\<rparr>)"
  by (simp add: read_bar_32_def mmio_ok_def case_prod_unfold Let_def)

lemma ring_doorbell_ok: "mmio_ok s \<Longrightarrow> i < 31 \<Longrightarrow>
    ring_doorbell hc slot i s = Inr ((), s\<lparr>x_hw := hc_write hc (doorbell_reg slot s) (ucast i + 1) (x_hw s)\<rparr>)"
  by (simp add: ring_doorbell_def write_bar_ok doorbell_reg_aligned)

text \<open>Queueing on an endpoint of a device: the block goes into the ring as \<open>Xhci_Ring\<close> describes.\<close>

definition ring_at :: "u8 \<Rightarrow> nat \<Rightarrow> u64 \<Rightarrow> nat \<Rightarrow> 'h usb \<Rightarrow> bool" where
  "ring_at slot i p k s \<longleftrightarrow> i < length (dv_endpoint_rings (x_slots s slot)) \<and> producer_at p k (dv_endpoint_rings (x_slots s slot) ! i)"

lemma x_slots_set_slot [simp]: "x_slots (set_slot i d s) j = (if j = i then d else x_slots s j)"
  by (simp add: set_slot_def)

lemma set_slot_fields [simp]: "x_tty (set_slot i d s) = x_tty s" "x_mem (set_slot i d s) = x_mem s" "x_slab (set_slot i d s) = x_slab s"
    "x_hw (set_slot i d s) = x_hw s" "x_event_ring (set_slot i d s) = x_event_ring s" "x_command_ring (set_slot i d s) = x_command_ring s"
    "x_bar (set_slot i d s) = x_bar s" "x_cap_length (set_slot i d s) = x_cap_length s" "x_rts_offset (set_slot i d s) = x_rts_offset s"
    "x_db_offset (set_slot i d s) = x_db_offset s" "x_dcbaa (set_slot i d s) = x_dcbaa s"
    "x_next_free_tag (set_slot i d s) = x_next_free_tag s"
  by (simp_all add: set_slot_def)

lemma mmio_ok_upd [simp]: "mmio_ok (set_slot i d s) = mmio_ok s" "mmio_ok (s\<lparr>x_hw := h\<rparr>) = mmio_ok s" "mmio_ok (s\<lparr>x_tty := t\<rparr>) = mmio_ok s"
    "mmio_ok (s\<lparr>x_mem := m\<rparr>) = mmio_ok s" "mmio_ok (s\<lparr>x_slab := sl\<rparr>) = mmio_ok s" "mmio_ok (s\<lparr>x_event_ring := r\<rparr>) = mmio_ok s"
    "mmio_ok (s\<lparr>x_command_ring := r\<rparr>) = mmio_ok s" "mmio_ok (s\<lparr>x_next_free_tag := tag\<rparr>) = mmio_ok s" "mmio_ok (s\<lparr>x_slots := d'\<rparr>) = mmio_ok s"
  by (simp_all add: mmio_ok_def)

lemma enqueue_endpoint_ok:
  assumes "ring_at slot i p k s"
  shows "\<exists>r. enqueue_endpoint slot i trb s =
      Inr ((), set_slot slot ((x_slots s slot)\<lparr>dv_endpoint_rings := (dv_endpoint_rings (x_slots s slot))[i := r]\<rparr>) s) \<and>
    producer_at p (Suc k) r \<and> rg_trbs r ! (k mod 255) = set_cycle_bit (lap_bit 255 k) trb"
proof -
  let ?ring = "dv_endpoint_rings (x_slots s slot) ! i"
  have at: "i < length (dv_endpoint_rings (x_slots s slot))" "producer_at p k ?ring" using assms by (auto simp: ring_at_def)
  obtain r where r: "enqueue_ring trb ?ring = Inr r" "producer_at p (Suc k) r"
    "take 255 (rg_trbs r) = (take 255 (rg_trbs ?ring))[k mod 255 := set_cycle_bit (lap_bit 255 k) trb]"
    using enqueue_ring_step [OF at(2), of trb] by blast
  have "take 255 (rg_trbs r) ! (k mod 255) = set_cycle_bit (lap_bit 255 k) trb"
    unfolding r(3) by (rule nth_list_update_eq) (use at(2) in \<open>simp add: producer_at_def\<close>)
  then show ?thesis using at(1) r(1,2) by (auto simp: enqueue_endpoint_def Let_def)
qed

end
