(* ===== verification/Usb_Keyboard.thy ===== *)
theory Usb_Keyboard
  imports Xhci_State
begin

text \<open>
  The USB keyboard's interrupt handler (\<open>stuos/src/xhci_keyboard.c\<close>): the key map, the handling of one key, and
  \<open>packet_recv\<close>, which compares an input report with the previous one, types the keys that are new into the terminal
  and queues the transfer of the next report. \<open>initialise_keyboard\<close> is in \<open>Xhci_Init\<close>.
\<close>

section \<open>Keys and reports\<close>

definition key_entries :: "(u8 \<times> u8 \<times> u8) list" where
  "key_entries = [
    (0x04, 97, 65), (0x05, 98, 66), (0x06, 99, 67), (0x07, 100, 68), (0x08, 101, 69),
    (0x09, 102, 70), (0x0A, 103, 71), (0x0B, 104, 72), (0x0C, 105, 73), (0x0D, 106, 74),
    (0x0E, 107, 75), (0x0F, 108, 76), (0x10, 109, 77), (0x11, 110, 78), (0x12, 111, 79),
    (0x13, 112, 80), (0x14, 113, 81), (0x15, 114, 82), (0x16, 115, 83), (0x17, 116, 84),
    (0x18, 117, 85), (0x19, 118, 86), (0x1A, 119, 87), (0x1B, 120, 88), (0x1C, 121, 89),
    (0x1D, 122, 90), (0x1E, 49, 33), (0x1F, 50, 64), (0x20, 51, 35), (0x21, 52, 36),
    (0x22, 53, 37), (0x23, 54, 94), (0x24, 55, 38), (0x25, 56, 42), (0x26, 57, 40),
    (0x27, 48, 41), (0x28, 10, 10), (0x2A, 8, 8), (0x2B, 9, 9), (0x2C, 32, 32),
    (0x2D, 45, 95), (0x2E, 61, 43), (0x2F, 91, 123), (0x30, 93, 125), (0x31, 92, 124),
    (0x32, 35, 126), (0x33, 59, 58), (0x34, 39, 34), (0x35, 96, 126), (0x36, 44, 60),
    (0x37, 46, 62), (0x38, 47, 63)
  ]"

definition key_map :: "u8 \<Rightarrow> bool \<Rightarrow> u8" where
  "key_map keycode shifted =
     (case map_of key_entries keycode of None \<Rightarrow> 0 | Some (plain, shift) \<Rightarrow> if shifted then shift else plain)"

text \<open>\<open>toupper\<close> takes and returns an \<open>int\<close>; the argument is a signed \<open>char\<close>.\<close>

definition handle_keypress :: "u8 \<Rightarrow> bool \<Rightarrow> PacketRecvState \<Rightarrow> u8 \<times> PacketRecvState" where
  "handle_keypress keycode is_break s =
     (let s1 = (if keycode = 0xE1 \<or> keycode = 0xE5 then s\<lparr>pr_shift_currently_pressed := \<not> is_break\<rparr> else s);
          s2 = (if keycode = 0x39 then s1\<lparr>pr_capslock_on := \<not> is_break\<rparr> else s1)
      in if is_break then (0, s2)
         else let character = key_map keycode (pr_shift_currently_pressed s2)
              in (if pr_capslock_on s2 then word_of_int (Kern_Libc.toupper (sint character)) else character, s2))"

text \<open>The three loops over the six key codes; \<open>codes_sparse\<close> is the local array of 256 bytes.\<close>

definition mark_new :: "u8 list \<Rightarrow> (u8 \<Rightarrow> u8)" where
  "mark_new keycodes = fold (\<lambda>k codes. if k = 0 then codes else codes(k := 1)) keycodes (\<lambda>_. 0)"

fun release_old :: "u8 list \<Rightarrow> (u8 \<Rightarrow> u8) \<Rightarrow> PacketRecvState \<Rightarrow> tty \<Rightarrow> ((u8 \<Rightarrow> u8) \<times> PacketRecvState \<times> tty) result" where
  "release_old [] codes s t = Inr (codes, s, t)"
| "release_old (k # ks) codes s t =
     (if k = 0 then release_old ks codes s t
      else if codes k = 0 then
        (let (c, s') = handle_keypress k True s in
         rbind (tty_provide_stdin c t) (\<lambda>t'. release_old ks (codes(k := 2)) s' t'))
      else release_old ks (codes(k := 2)) s t)"

fun press_new :: "u8 list \<Rightarrow> (u8 \<Rightarrow> u8) \<Rightarrow> PacketRecvState \<Rightarrow> tty \<Rightarrow> (PacketRecvState \<times> tty) result" where
  "press_new [] codes s t = Inr (s, t)"
| "press_new (k # ks) codes s t =
     (if k = 0 then press_new ks codes s t
      else if codes k = 1 then
        (let (c, s') = handle_keypress k False s in
         rbind (tty_provide_stdin c t) (\<lambda>t'. press_new ks codes s' t'))
      else press_new ks codes s t)"

text \<open>The report that the controller has stored in the keyboard's page.\<close>

definition input_report :: "mem \<Rightarrow> u64 \<Rightarrow> InputReport" where
  "input_report m p = \<lparr>ir_modifier_keys = m p, ir_reserved_0 = m (p + 1), ir_keycodes = map (\<lambda>i. m (p + 2 + of_nat i)) [0..<6]\<rparr>"

definition packet_recv :: "'h controller \<Rightarrow> TRB \<Rightarrow> 'h usb \<Rightarrow> (unit \<times> 'h usb) result" where
  "packet_recv hc recv s =
     hcf_unless (trb_type recv = TRB_TYPE_TRANSFER) (hcf_unless (completion_code recv = 1) (hcf_unless (event_transfer_length recv = 0)
     (let slot_number = slot_id recv in
      case dv_interrupt_handler_data (x_slots s slot_number) of
        KeyboardData state \<Rightarrow>
          (let rep = input_report (x_mem s) (pr_rep_phys state) in
           rbind (release_old (ir_keycodes (pr_previous_report state)) (mark_new (ir_keycodes rep)) state (x_tty s)) (\<lambda>(codes, state1, t1).
           rbind (press_new (ir_keycodes rep) codes state1 t1) (\<lambda>(state2, t2).
           let s2 = set_slot slot_number ((x_slots s slot_number)\<lparr>dv_interrupt_handler_data := KeyboardData (state2\<lparr>pr_previous_report := rep\<rparr>)\<rparr>)
                      (s\<lparr>x_tty := t2\<rparr>)
           in sbind (enqueue_endpoint slot_number (pr_in_index state2) (normal_trb (pr_rep_phys state2) 8 False)) (\<lambda>_.
              ring_doorbell hc slot_number (of_nat (pr_in_index state2))) s2)))
      | _ \<Rightarrow> Inl WildAccess)))"

section \<open>What a report types\<close>

definition is_shift :: "u8 \<Rightarrow> bool" where
  "is_shift k \<longleftrightarrow> k = 0xE1 \<or> k = 0xE5"

definition newly :: "u8 list \<Rightarrow> u8 list \<Rightarrow> u8 list" where
  "newly before ks = filter (\<lambda>k. k \<noteq> 0 \<and> k \<notin> set before) ks"

definition key_char :: "bool \<Rightarrow> bool \<Rightarrow> u8 \<Rightarrow> u8" where
  "key_char shift caps k = (if caps then word_of_int (Kern_Libc.toupper (sint (key_map k shift))) else key_map k shift)"

text \<open>The characters of the keys that go down, in the order of the report; a shift key counts from its own position on.\<close>

fun typed :: "bool \<Rightarrow> bool \<Rightarrow> u8 list \<Rightarrow> u8 list" where
  "typed shift caps [] = []"
| "typed shift caps (k # ks) =
     (let shift' = (shift \<or> is_shift k); caps' = (caps \<or> k = 0x39); c = key_char shift' caps' k
      in (if c = 0 then [] else [c]) @ typed shift' caps' ks)"

lemma mark_new_eq: "mark_new ks = (\<lambda>k. if k \<noteq> 0 \<and> k \<in> set ks then 1 else 0)"
proof -
  have "fold (\<lambda>k codes. if k = 0 then codes else codes(k := 1)) ks f = (\<lambda>k. if k \<noteq> 0 \<and> k \<in> set ks then 1 else f k)" for f :: "u8 \<Rightarrow> u8"
    by (induction ks arbitrary: f) (auto simp: fun_eq_iff)
  then show ?thesis by (simp add: mark_new_def)
qed

text \<open>A key that goes up types nothing.\<close>

lemma release_old_eq:
  "release_old ps codes st t = Inr (\<lambda>k. if k \<noteq> 0 \<and> k \<in> set ps then 2 else codes k,
     st\<lparr>pr_shift_currently_pressed := pr_shift_currently_pressed st \<and> (\<forall>k \<in> set ps. is_shift k \<longrightarrow> codes k \<noteq> 0),
        pr_capslock_on := pr_capslock_on st \<and> (0x39 \<in> set ps \<longrightarrow> codes 0x39 \<noteq> 0)\<rparr>, t)"
proof (induction ps arbitrary: codes st)
  case (Cons k ks)
  have "(\<lambda>j. if j \<noteq> 0 \<and> j \<in> set ks then 2 else (codes(k := 2)) j) = (\<lambda>j. if j \<noteq> 0 \<and> j \<in> set (k # ks) then 2 else codes j)" if "k \<noteq> 0"
    using that by auto
  then show ?case
    by (auto simp: Cons.IH handle_keypress_def tty_provide_stdin_def Let_def is_shift_def)
qed simp

text \<open>
  The terminal's input queue after the characters \<open>cs\<close>: a backspace takes the last character back in canonical mode, and a character that
  finds the queue full halts the kernel (\<open>None\<close>).
\<close>

fun after_typing :: "bool \<Rightarrow> u8 list \<Rightarrow> u8 list \<Rightarrow> u8 list option" where
  "after_typing canon q [] = Some q"
| "after_typing canon q (c # cs) =
     (if c = BS \<and> canon then after_typing canon (butlast q) cs
      else if length q = INPUT_BUF_LENGTH then None
      else after_typing canon (q @ [c]) cs)"

lemma press_new_ok:
  "tty_wf t \<Longrightarrow> ns = filter (\<lambda>k. k \<noteq> 0 \<and> codes k = 1) ks \<Longrightarrow>
   cs = typed (pr_shift_currently_pressed st) (pr_capslock_on st) ns \<Longrightarrow>
   case after_typing (canonical t) (queue t) cs of
     None \<Rightarrow> press_new ks codes st t = Inl HCF
   | Some q \<Rightarrow> \<exists>t'. press_new ks codes st t = Inr (st\<lparr>pr_shift_currently_pressed := pr_shift_currently_pressed st \<or> (\<exists>k \<in> set ns. is_shift k),
          pr_capslock_on := pr_capslock_on st \<or> 0x39 \<in> set ns\<rparr>, t') \<and> tty_wf t' \<and> queue t' = q \<and> canonical t' = canonical t"
proof (induction ks arbitrary: st t ns cs)
  case (Cons k ks)
  show ?case
  proof (cases "k \<noteq> 0 \<and> codes k = 1")
    case True
    define st' where "st' = st\<lparr>pr_shift_currently_pressed := pr_shift_currently_pressed st \<or> is_shift k, pr_capslock_on := pr_capslock_on st \<or> k = 0x39\<rparr>"
    define c where "c = key_char (pr_shift_currently_pressed st') (pr_capslock_on st') k"
    have key: "handle_keypress k False st = (c, st')"
      by (auto simp: handle_keypress_def Let_def st'_def c_def key_char_def is_shift_def)
    let ?ns = "filter (\<lambda>k. k \<noteq> 0 \<and> codes k = 1) ks" and ?cs = "if c = 0 then [] else [c]"
    let ?rest = "typed (pr_shift_currently_pressed st') (pr_capslock_on st') ?ns"
    have ns: "ns = k # ?ns" using True Cons.prems(2) by simp
    have cs: "cs = ?cs @ ?rest" using ns Cons.prems(3) by (simp add: c_def st'_def Let_def)
    have step: "press_new (k # ks) codes st t = rbind (tty_provide_stdin c t) (press_new ks codes st')" using True key by simp
    have go: "case after_typing (canonical t) q ?rest of
       None \<Rightarrow> press_new (k # ks) codes st t = Inl HCF
     | Some q' \<Rightarrow> \<exists>t'. press_new (k # ks) codes st t = Inr (st\<lparr>pr_shift_currently_pressed := pr_shift_currently_pressed st \<or> (\<exists>k \<in> set ns. is_shift k),
          pr_capslock_on := pr_capslock_on st \<or> 0x39 \<in> set ns\<rparr>, t') \<and> tty_wf t' \<and> queue t' = q' \<and> canonical t' = canonical t"
      if "tty_provide_stdin c t = Inr t1" "tty_wf t1" "queue t1 = q" "canonical t1 = canonical t" for q t1
      using Cons.IH [OF that(2) refl refl, of st'] that(1,3,4) unfolding step ns by (auto simp: st'_def split: option.splits)
    show ?thesis
    proof (cases "c = 0")
      case True
      then show ?thesis using go [of t] Cons.prems(1) cs by (simp add: tty_provide_stdin_def)
    next
      case False
      note pr = provide_returns [OF Cons.prems(1) False]
      consider "c = BS \<and> canonical t" | "\<not> (c = BS \<and> canonical t)" "length (queue t) = INPUT_BUF_LENGTH"
        | "\<not> (c = BS \<and> canonical t)" "length (queue t) \<noteq> INPUT_BUF_LENGTH" by blast
      then show ?thesis
      proof cases
        case 1
        then obtain t1 where "tty_provide_stdin c t = Inr t1" "tty_wf t1" "queue t1 = butlast (queue t)" "canonical t1 = canonical t"
          using pr by (auto simp: returns_def split: sum.splits)
        from go [OF this] show ?thesis using 1 False cs by simp
      next
        case 2
        then have "after_typing (canonical t) (queue t) cs = None" using False cs by auto
        moreover have "tty_provide_stdin c t = Inl HCF" using pr 2 by metis
        ultimately show ?thesis unfolding step by simp
      next
        case 3
        then obtain t1 where "tty_provide_stdin c t = Inr t1" "tty_wf t1" "queue t1 = queue t @ [c]" "canonical t1 = canonical t"
          using pr by (auto simp: returns_def split: sum.splits)
        moreover have "after_typing (canonical t) (queue t) cs = after_typing (canonical t) (queue t @ [c]) ?rest" using 3 False cs by auto
        ultimately show ?thesis using go [of t1 "queue t @ [c]"] by simp
      qed
    qed
  next
    case False
    then have p: "press_new (k # ks) codes st t = press_new ks codes st t" and "ns = filter (\<lambda>k. k \<noteq> 0 \<and> codes k = 1) ks"
      using Cons.prems(2) by auto
    from Cons.IH [OF Cons.prems(1) this(2) Cons.prems(3)] show ?thesis unfolding p .
  qed
qed simp

section \<open>Properties\<close>

text \<open>C13. A keyboard report is turned into typing correctly. When a report has arrived, the keys in it that were not in the
  previous report are typed into the terminal, in order, with the shift and caps state of the moment, and
  nothing else is (a key that is held is typed once, a key that is released types nothing). The terminal's input queue is afterwards the one that
  these characters give: each is appended, except that a backspace takes the last one back in canonical mode; when a character finds the queue full the
  kernel halts, and only then. The report becomes the
  previous one, a shift or caps key counts exactly while it is down, the rest of the keyboard's state is unchanged, and a transfer of the next report is queued and the
  doorbell rung.\<close>

theorem report_types_new_keys:
  assumes "trb_type recv = TRB_TYPE_TRANSFER" and "completion_code recv = 1" and "event_transfer_length recv = 0"
    and "dv_interrupt_handler_data (x_slots s (slot_id recv)) = KeyboardData st"
    and "ring_at (slot_id recv) (pr_in_index st) p k s" and "pr_in_index st < 31" and "mmio_ok s" and "tty_wf (x_tty s)"
    and "before = ir_keycodes (pr_previous_report st)" and "rep = input_report (x_mem s) (pr_rep_phys st)"
    and "up = newly (ir_keycodes rep) before" and "down = newly before (ir_keycodes rep)"
    and "cs = typed (pr_shift_currently_pressed st \<and> (\<forall>k \<in> set up. \<not> is_shift k)) (pr_capslock_on st \<and> 0x39 \<notin> set up) down"
  shows "case after_typing (canonical (x_tty s)) (queue (x_tty s)) cs of None \<Rightarrow> packet_recv hc recv s = Inl HCF | Some q \<Rightarrow>
    \<exists>s'. packet_recv hc recv s = Inr ((), s') \<and> tty_wf (x_tty s') \<and> queue (x_tty s') = q \<and>
     dv_interrupt_handler_data (x_slots s' (slot_id recv)) = KeyboardData (st\<lparr>pr_previous_report := rep,
       pr_shift_currently_pressed := pr_shift_currently_pressed st \<and> (\<forall>k \<in> set up. \<not> is_shift k) \<or> (\<exists>k \<in> set down. is_shift k),
       pr_capslock_on := pr_capslock_on st \<and> 0x39 \<notin> set up \<or> 0x39 \<in> set down\<rparr>) \<and>
     ring_at (slot_id recv) (pr_in_index st) p (Suc k) s' \<and>
     rg_trbs (dv_endpoint_rings (x_slots s' (slot_id recv)) ! pr_in_index st) ! (k mod 255) =
       set_cycle_bit (lap_bit 255 k) (normal_trb (pr_rep_phys st) 8 False) \<and>
     x_hw s' = hc_write hc (doorbell_reg (slot_id recv) s) (of_nat (pr_in_index st) + 1) (x_hw s)"
proof -
  let ?sl = "slot_id recv" and ?ks = "ir_keycodes rep" and ?codes = "mark_new (ir_keycodes rep)"
  let ?codes' = "\<lambda>k. if k \<noteq> 0 \<and> k \<in> set before then 2 else ?codes k"
  let ?sh = "pr_shift_currently_pressed st \<and> (\<forall>k \<in> set up. \<not> is_shift k)" and ?cp = "pr_capslock_on st \<and> 0x39 \<notin> set up"
  define st1 where "st1 = st\<lparr>pr_shift_currently_pressed := ?sh, pr_capslock_on := ?cp\<rparr>"
  have sh: "(\<forall>k \<in> set before. is_shift k \<longrightarrow> ?codes k \<noteq> 0) \<longleftrightarrow> (\<forall>k \<in> set up. \<not> is_shift k)"
    "(0x39 \<in> set before \<longrightarrow> ?codes 0x39 \<noteq> 0) \<longleftrightarrow> 0x39 \<notin> set up"
    using assms(11) by (auto simp: mark_new_eq newly_def is_shift_def)
  have rel: "release_old before ?codes st (x_tty s) = Inr (?codes', st1, x_tty s)"
    unfolding release_old_eq sh st1_def by simp
  have down: "down = filter (\<lambda>k. k \<noteq> 0 \<and> ?codes' k = 1) ?ks"
    unfolding assms(12) newly_def by (rule filter_cong) (auto simp: mark_new_eq)
  have cs: "cs = typed (pr_shift_currently_pressed st1) (pr_capslock_on st1) down" using assms(13) by (simp add: st1_def)
  note press = press_new_ok [OF assms(8) down cs]
  show ?thesis
  proof (cases "after_typing (canonical (x_tty s)) (queue (x_tty s)) cs")
    case None
    then show ?thesis using press assms(1-4) rel assms(9,10) by (simp add: packet_recv_def Let_def)
  next
    case (Some q)
    then obtain t where t: "press_new ?ks ?codes' st1 (x_tty s) = Inr (st1\<lparr>pr_shift_currently_pressed := ?sh \<or> (\<exists>k \<in> set down. is_shift k),
        pr_capslock_on := ?cp \<or> 0x39 \<in> set down\<rparr>, t)" "tty_wf t" "queue t = q"
      using press by (auto simp: st1_def)
    define st2 where "st2 = st1\<lparr>pr_shift_currently_pressed := ?sh \<or> (\<exists>k \<in> set down. is_shift k),
        pr_capslock_on := ?cp \<or> 0x39 \<in> set down, pr_previous_report := rep\<rparr>"
    define s2 where "s2 = set_slot ?sl ((x_slots s ?sl)\<lparr>dv_interrupt_handler_data := KeyboardData st2\<rparr>) (s\<lparr>x_tty := t\<rparr>)"
    have st2: "pr_in_index st2 = pr_in_index st" "pr_rep_phys st2 = pr_rep_phys st" by (simp_all add: st2_def st1_def)
    have "ring_at ?sl (pr_in_index st) p k s2" using assms(5) by (simp add: ring_at_def s2_def)
    from enqueue_endpoint_ok [OF this, of "normal_trb (pr_rep_phys st) 8 False"]
    obtain r where r: "enqueue_endpoint ?sl (pr_in_index st) (normal_trb (pr_rep_phys st) 8 False) s2 =
        Inr ((), set_slot ?sl ((x_slots s2 ?sl)\<lparr>dv_endpoint_rings := (dv_endpoint_rings (x_slots s2 ?sl))[pr_in_index st := r]\<rparr>) s2)"
      "producer_at p (Suc k) r" "rg_trbs r ! (k mod 255) = set_cycle_bit (lap_bit 255 k) (normal_trb (pr_rep_phys st) 8 False)" by blast
    define s3 where "s3 = set_slot ?sl ((x_slots s2 ?sl)\<lparr>dv_endpoint_rings := (dv_endpoint_rings (x_slots s2 ?sl))[pr_in_index st := r]\<rparr>) s2"
    have idx: "(of_nat (pr_in_index st) :: u8) < 31" "ucast (of_nat (pr_in_index st) :: u8) = (of_nat (pr_in_index st) :: u32)"
      using assms(6) by (simp_all add: word_less_nat_alt word_unat_eq_iff unsigned_ucast_eq unat_of_nat take_bit_nat_eq_self)
    have bell: "ring_doorbell hc ?sl (of_nat (pr_in_index st)) s3 = Inr ((), s3\<lparr>x_hw := hc_write hc (doorbell_reg ?sl s) (of_nat (pr_in_index st) + 1) (x_hw s)\<rparr>)"
      using ring_doorbell_ok [of s3 "of_nat (pr_in_index st)" hc ?sl] assms(7) idx by (simp add: s3_def s2_def doorbell_reg_def)
    have "packet_recv hc recv s = Inr ((), s3\<lparr>x_hw := hc_write hc (doorbell_reg ?sl s) (of_nat (pr_in_index st) + 1) (x_hw s)\<rparr>)"
      using assms(1-4) rel t(1) r(1) bell st2 assms(9,10)
      by (simp add: packet_recv_def Let_def sbind_def s2_def s3_def st2_def st1_def)
    moreover have "pr_in_index st < length (dv_endpoint_rings (x_slots s ?sl))" using assms(5) by (simp add: ring_at_def)
    ultimately show ?thesis using t(2,3) r(2,3) st2 Some
      by (auto simp: s3_def s2_def ring_at_def st2_def st1_def)
  qed
qed

definition example_keyboard :: PacketRecvState where
  "example_keyboard = \<lparr>pr_rep_phys = 0x2000, pr_in_index = 2,
     pr_previous_report = \<lparr>ir_modifier_keys = 0, ir_reserved_0 = 0, ir_keycodes = [5, 0, 0, 0, 0, 0]\<rparr>,
     pr_shift_currently_pressed = True, pr_capslock_on = False\<rparr>"

definition example_usb :: "'h \<Rightarrow> 'h usb" where
  "example_usb h = \<lparr>x_command_ring = ring_page 0x3000, x_event_ring = ring_page 0x4000,
     x_bar = \<lparr>bi_bar_size = 0x10000, bi_address = 0xFE000000, bi_is_io_bar = False\<rparr>, x_cap_length = 0x40, x_rts_offset = 0x1000,
     x_db_offset = 0x2000, x_dcbaa = replicate 512 0,
     x_slots = (\<lambda>_. zero_device\<lparr>dv_endpoint_rings := (replicate 15 zero_ring)[2 := ring_page 0x5000],
                  dv_interrupt_handler_data := KeyboardData example_keyboard\<rparr>),
     x_port_is_usb3 = replicate 64 False, x_next_free_tag = 69, x_controller_found = True, x_slab = \<lparr>physical_memory_base = 0, physical_memory_pages = 0, slab_flags = []\<rparr>,
     x_mem = (\<lambda>a. if a = 0x2002 then 4 else if a = 0x2003 then 5 else 0), x_tty = small_tty, x_hw = h\<rparr>"

definition example_event :: TRB where
  "example_event = \<lparr>trb_parameter = 0x5000, trb_status = field 24 8 1 OR field 42 6 32 OR field 56 8 3\<rparr>"

lemma example_event_fields: "trb_type example_event = 32" "completion_code example_event = 1" "event_transfer_length example_event = 0"
    "slot_id example_event = 3"
  by (simp_all add: example_event_def trb_type_def completion_code_def event_transfer_length_def slot_id_def field_def get_field_def)

lemma example_report: "input_report (x_mem (example_usb h)) 0x2000 = \<lparr>ir_modifier_keys = 0, ir_reserved_0 = 0, ir_keycodes = [4, 5, 0, 0, 0, 0]\<rparr>"
  by (simp add: input_report_def example_usb_def upt_rec)

text \<open>With shift down and the B key held, the A key arrives: a capital A is typed.\<close>

theorem report_types_new_keys_witness:
  "\<exists>s'. packet_recv idle_controller example_event (example_usb ()) = Inr ((), s') \<and> queue (x_tty s') = [65]"
proof -
  let ?s = "example_usb ()" and ?rep = "\<lparr>ir_modifier_keys = 0, ir_reserved_0 = 0, ir_keycodes = [4, 5, 0, 0, 0, 0]\<rparr>"
  have "ring_at (slot_id example_event) (pr_in_index example_keyboard) 0x5000 0 ?s"
    using ring_page_fresh(1) [of "0x5000"] by (simp add: ring_at_def example_usb_def example_keyboard_def zero_device_def)
  moreover have "mmio_ok ?s" by (simp add: mmio_ok_def example_usb_def)
  moreover have "tty_wf (x_tty ?s)" "queue (x_tty ?s) = []" using small_tty_ok by (simp_all add: example_usb_def)
  moreover have "dv_interrupt_handler_data (x_slots ?s (slot_id example_event)) = KeyboardData example_keyboard" by (simp add: example_usb_def)
  moreover have "typed True False [4] = [65]"
    by (simp add: example_keyboard_def key_char_def key_map_def key_entries_def Let_def)
  moreover have "newly [4, 5, 0, 0, 0, 0] [5, 0, 0, 0, 0, 0] = []"
      "newly [5, 0, 0, 0, 0, 0] [4, 5, 0, 0, 0, 0] = [4]"
    by (simp_all add: newly_def example_keyboard_def)
  ultimately show ?thesis
    using report_types_new_keys [of example_event ?s example_keyboard "0x5000" 0 _ ?rep "[]" "[4]" "[65]" idle_controller] example_event_fields example_report [of "()"]
    by (auto simp: example_keyboard_def)
qed

text \<open>The modifier byte of a report has no effect on what is typed: a shift key that the keyboard reports there is not seen.\<close>

lemma modifier_keys_ignored:
  assumes "dv_interrupt_handler_data (x_slots s (slot_id recv)) = KeyboardData st"
    and "packet_recv hc recv s = Inr ((), a)" and "packet_recv hc recv (s\<lparr>x_mem := (x_mem s)(pr_rep_phys st := m)\<rparr>) = Inr ((), b)"
  shows "x_tty a = x_tty b"
proof -
  have "ir_keycodes (input_report ((x_mem s)(pr_rep_phys st := m)) (pr_rep_phys st)) = ir_keycodes (input_report (x_mem s) (pr_rep_phys st))"
    by (simp add: input_report_def upt_rec)
  then show ?thesis using assms
    by (auto simp: packet_recv_def Let_def result_simps sbind_def set_slot_def enqueue_endpoint_def ring_doorbell_def write_bar_32_def split: if_splits)
qed

end
