(* ===== verification/Usb_Descriptors.thy ===== *)
theory Usb_Descriptors
  imports Block_Dev
begin

text \<open>
  The configuration descriptor of a USB device and its parser (\<open>read_configuration_descriptor\<close> of
  \<open>stuos/src/xhci_driver.c\<close>): a sequence of interface descriptors, each followed by its endpoint descriptors and
  by others that are skipped. A descriptor begins with its length and type. Both loops advance by the length byte
  and may run forever, so they are partial functions. \<open>encode\<close> writes such a sequence; the parser reads it back.
\<close>

section \<open>The parser\<close>

record ExternEpDesc =
  ep_endpoint_num :: u8
  ep_is_in :: bool
  ep_transfer_type :: u8
  ep_max_packet_size :: u16
  ep_interval :: u8

record ExternIfDesc =
  if_num_endpoints :: u8
  if_class_code :: u8
  if_sub_class :: u8
  if_protocol :: u8
  if_endpoints :: "ExternEpDesc list"

record ExternConfigDesc =
  cf_num_interfaces :: u8
  cf_configuration_value :: u8
  cf_interfaces :: "u8 \<Rightarrow> ExternIfDesc"

definition zero_ep :: ExternEpDesc where
  "zero_ep = \<lparr>ep_endpoint_num = 0, ep_is_in = False, ep_transfer_type = 0, ep_max_packet_size = 0, ep_interval = 0\<rparr>"

definition zero_if :: ExternIfDesc where
  "zero_if = \<lparr>if_num_endpoints = 0, if_class_code = 0, if_sub_class = 0, if_protocol = 0, if_endpoints = replicate 16 zero_ep\<rparr>"

text \<open>A byte of the descriptor buffer, which was allocated with its total length.\<close>

definition byte_at :: "u8 list \<Rightarrow> nat \<Rightarrow> u8 result" where
  "byte_at data i = (if i < length data then Inr (data ! i) else Inl WildAccess)"

text \<open>The fields of an \<open>InterfaceDescriptor\<close> (number, class, sub class, protocol are bytes 2, 5, 6 and 7; byte 4 counts the
  endpoints) and of an \<open>EndpointDescriptor\<close>, at position \<open>pos\<close> of the buffer.\<close>

definition read_interface :: "u8 list \<Rightarrow> nat \<Rightarrow> (u8 \<times> ExternIfDesc) result" where
  "read_interface data pos =
     rbind (byte_at data (pos + 4)) (\<lambda>num_endpoints. hcf_unless (num_endpoints \<le> 16)
     (rbind (byte_at data (pos + 2)) (\<lambda>interface_num.
      rbind (byte_at data (pos + 5)) (\<lambda>class_code.
      rbind (byte_at data (pos + 6)) (\<lambda>sub_class.
      rbind (byte_at data (pos + 7)) (\<lambda>protocol.
      Inr (interface_num, zero_if\<lparr>if_num_endpoints := num_endpoints, if_class_code := class_code, if_sub_class := sub_class,
        if_protocol := protocol\<rparr>)))))))"

definition read_endpoint :: "u8 list \<Rightarrow> nat \<Rightarrow> ExternEpDesc result" where
  "read_endpoint data pos =
     rbind (byte_at data (pos + 2)) (\<lambda>b2.
     rbind (byte_at data (pos + 3)) (\<lambda>b3.
     rbind (byte_at data (pos + 4)) (\<lambda>b4.
     rbind (byte_at data (pos + 5)) (\<lambda>b5.
     rbind (byte_at data (pos + 6)) (\<lambda>b6.
     Inr \<lparr>ep_endpoint_num = take_bit 4 b2, ep_is_in = bit b2 7, ep_transfer_type = take_bit 2 b3,
          ep_max_packet_size = le16 [b4, b5], ep_interval = b6\<rparr>)))))"

text \<open>One round of the inner loop at an endpoint or unknown descriptor, then the two loops.\<close>

definition endpoint_round :: "u8 list \<Rightarrow> nat \<Rightarrow> nat \<Rightarrow> ExternIfDesc \<Rightarrow> (nat \<times> ExternIfDesc) result" where
  "endpoint_round data pos idx i =
     (if data ! (pos + 1) = 5
      then hcf_unless (idx < unat (if_num_endpoints i)) (rbind (read_endpoint data pos) (\<lambda>ep.
             Inr (Suc idx, i\<lparr>if_endpoints := (if_endpoints i)[idx := ep]\<rparr>)))
      else Inr (idx, i))"

partial_function (option) read_endpoints :: "u8 list \<Rightarrow> nat \<Rightarrow> nat \<Rightarrow> ExternIfDesc \<Rightarrow> (nat \<times> ExternIfDesc) result option" where
  "read_endpoints data pos idx i =
     (if pos + 2 < length data \<and> data ! (pos + 1) \<noteq> 4
      then (case endpoint_round data pos idx i of
              Inl e \<Rightarrow> Some (Inl e)
            | Inr (idx', i') \<Rightarrow> read_endpoints data (pos + unat (data ! pos)) idx' i')
      else Some (Inr (pos, i)))"

partial_function (option) read_interfaces :: "u8 list \<Rightarrow> nat \<Rightarrow> (u8 \<Rightarrow> ExternIfDesc) \<Rightarrow> (u8 \<Rightarrow> ExternIfDesc) result option" where
  "read_interfaces data pos ifs =
     (if pos + 2 < length data
      then if data ! (pos + 1) \<noteq> 4 then Some (Inl HCF)
           else (case read_interface data pos of
                   Inl e \<Rightarrow> Some (Inl e)
                 | Inr (n, i) \<Rightarrow>
                     (case read_endpoints data (pos + unat (data ! pos)) 0 i of
                        None \<Rightarrow> None
                      | Some (Inl e) \<Rightarrow> Some (Inl e)
                      | Some (Inr (pos', i')) \<Rightarrow> read_interfaces data pos' (ifs(n := i'))))
      else Some (Inr ifs))"

section \<open>Termination\<close>

text \<open>The positions at which the parser looks for a descriptor.\<close>

inductive desc_at :: "u8 list \<Rightarrow> nat \<Rightarrow> bool" for data where
  first_desc: "desc_at data 9"
| next_desc: "desc_at data p \<Longrightarrow> p + 2 < length data \<Longrightarrow> desc_at data (p + unat (data ! p))"

definition no_empty_desc :: "u8 list \<Rightarrow> bool" where
  "no_empty_desc data \<longleftrightarrow> (\<forall>p. desc_at data p \<longrightarrow> p + 2 < length data \<longrightarrow> data ! p \<noteq> 0)"

lemma no_empty_descD: "no_empty_desc data \<Longrightarrow> desc_at data p \<Longrightarrow> p + 2 < length data \<Longrightarrow> 0 < unat (data ! p)"
  by (auto simp: no_empty_desc_def unat_gt_0)

lemma read_endpoints_returns:
  assumes "no_empty_desc data"
  shows "desc_at data pos \<Longrightarrow> \<exists>r. read_endpoints data pos idx i = Some r \<and> (\<forall>pos' i'. r = Inr (pos', i') \<longrightarrow> desc_at data pos' \<and> pos \<le> pos')"
proof (induction "length data - pos" arbitrary: pos idx i rule: less_induct)
  case less
  show ?case
  proof (cases "pos + 2 < length data \<and> data ! (pos + 1) \<noteq> 4")
    case True
    then have step: "desc_at data (pos + unat (data ! pos))" "0 < unat (data ! pos)"
      using less.prems no_empty_descD [OF assms] by (auto intro: next_desc)
    show ?thesis
    proof (cases "endpoint_round data pos idx i")
      case (Inr r)
      obtain idx' i' where r: "r = (idx', i')" by (cases r)
      obtain out where "read_endpoints data (pos + unat (data ! pos)) idx' i' = Some out"
        "\<forall>pos' i'. out = Inr (pos', i') \<longrightarrow> desc_at data pos' \<and> pos + unat (data ! pos) \<le> pos'"
        using less.hyps [OF diff_less_mono2 step(1), of idx' i'] step(2) True by auto
      then show ?thesis using True Inr r by (auto simp: read_endpoints.simps [of data pos])
    qed (use True in \<open>simp add: read_endpoints.simps [of data pos]\<close>)
  qed (use less.prems in \<open>auto simp: read_endpoints.simps [of data pos]\<close>)
qed

lemma read_interfaces_returns:
  assumes "no_empty_desc data"
  shows "desc_at data pos \<Longrightarrow> \<exists>r. read_interfaces data pos ifs = Some r"
proof (induction "length data - pos" arbitrary: pos ifs rule: less_induct)
  case less
  show ?case
  proof (cases "pos + 2 < length data \<and> data ! (pos + 1) = 4")
    case True
    then have step: "desc_at data (pos + unat (data ! pos))" "0 < unat (data ! pos)"
      using less.prems no_empty_descD [OF assms] by (auto intro: next_desc)
    show ?thesis
    proof (cases "read_interface data pos")
      case (Inr r)
      obtain n i where r: "r = (n, i)" by (cases r)
      obtain out where out: "read_endpoints data (pos + unat (data ! pos)) 0 i = Some out"
        "\<forall>pos' i'. out = Inr (pos', i') \<longrightarrow> desc_at data pos' \<and> pos + unat (data ! pos) \<le> pos'"
        using read_endpoints_returns [OF assms step(1), of 0 i] by auto
      show ?thesis
      proof (cases out)
        case (Inr q)
        obtain pos' i' where q: "q = (pos', i')" by (cases q)
        then have "desc_at data pos'" "pos < pos'" using out(2) Inr step(2) by auto
        then obtain v where "read_interfaces data pos' (ifs(n := i')) = Some v" using less.hyps [OF diff_less_mono2, of pos'] True by auto
        then show ?thesis using True \<open>read_interface data pos = Inr r\<close> r out(1) Inr q by (auto simp: read_interfaces.simps [of data pos])
      qed (use True Inr r out(1) in \<open>simp add: read_interfaces.simps [of data pos]\<close>)
    qed (use True in \<open>simp add: read_interfaces.simps [of data pos]\<close>)
  qed (use less.prems in \<open>auto simp: read_interfaces.simps [of data pos]\<close>)
qed

lemma read_endpoints_stuck:
  assumes "read_endpoints data pos idx i = Some r"
  shows "\<not> (pos + 2 < length data \<and> data ! pos = 0 \<and> data ! (pos + 1) \<notin> {4, 5})"
proof (rule read_endpoints.raw_induct
    [of "\<lambda>data pos idx i r. \<not> (pos + 2 < length data \<and> data ! pos = 0 \<and> data ! (pos + 1) \<notin> {4, 5})", OF _ assms])
  fix f :: "u8 list \<Rightarrow> nat \<Rightarrow> nat \<Rightarrow> ExternIfDesc \<Rightarrow> (nat \<times> ExternIfDesc) result option" and data :: "u8 list" and pos idx i r
  assume IH: "\<And>data pos idx i r. f data pos idx i = Some r \<Longrightarrow> \<not> (pos + 2 < length data \<and> data ! pos = 0 \<and> data ! (pos + 1) \<notin> {4, 5})"
    and run: "(if pos + 2 < length data \<and> data ! (pos + 1) \<noteq> 4
      then (case endpoint_round data pos idx i of Inl e \<Rightarrow> Some (Inl e) | Inr (idx', i') \<Rightarrow> f data (pos + unat (data ! pos)) idx' i')
      else Some (Inr (pos, i))) = Some r"
  show "\<not> (pos + 2 < length data \<and> data ! pos = 0 \<and> data ! (pos + 1) \<notin> {4, 5})"
  proof
    assume stuck: "pos + 2 < length data \<and> data ! pos = 0 \<and> data ! (pos + 1) \<notin> {4, 5}"
    then have "f data pos idx i = Some r" using run by (simp add: endpoint_round_def)
    then show False using IH stuck by blast
  qed
qed

section \<open>Reading back what was written\<close>

text \<open>The descriptors after an interface: an endpoint, or one of another type with its payload.\<close>

datatype desc_item = Endpoint ExternEpDesc | OtherDesc u8 "u8 list"

fun encode_item :: "desc_item \<Rightarrow> u8 list" where
  "encode_item (Endpoint ep) = [7, 5, ep_endpoint_num ep OR (if ep_is_in ep then 0x80 else 0), ep_transfer_type ep,
     ucast (ep_max_packet_size ep), ucast (drop_bit 8 (ep_max_packet_size ep)), ep_interval ep]"
| "encode_item (OtherDesc t bs) = of_nat (2 + length bs) # t # bs"

definition encode_interface :: "u8 \<times> ExternIfDesc \<times> desc_item list \<Rightarrow> u8 list" where
  "encode_interface = (\<lambda>(n, i, items). [9, 4, n, 0, if_num_endpoints i, if_class_code i, if_sub_class i, if_protocol i, 0] @ concat (map encode_item items))"

fun item_wf :: "desc_item \<Rightarrow> bool" where
  "item_wf (Endpoint ep) \<longleftrightarrow> ep_endpoint_num ep < 16 \<and> ep_transfer_type ep < 4"
| "item_wf (OtherDesc t bs) \<longleftrightarrow> t \<noteq> 4 \<and> t \<noteq> 5 \<and> bs \<noteq> [] \<and> length bs < 254"

fun item_endpoints :: "desc_item list \<Rightarrow> ExternEpDesc list" where
  "item_endpoints [] = []"
| "item_endpoints (Endpoint ep # items) = ep # item_endpoints items"
| "item_endpoints (OtherDesc t bs # items) = item_endpoints items"

text \<open>An interface as the parser returns it lists its endpoints and pads the array with zeros.\<close>

definition interface_wf :: "u8 \<times> ExternIfDesc \<times> desc_item list \<Rightarrow> bool" where
  "interface_wf = (\<lambda>(n, i, items). list_all item_wf items \<and> if_num_endpoints i \<le> 16 \<and> length (item_endpoints items) \<le> unat (if_num_endpoints i) \<and>
     if_endpoints i = item_endpoints items @ replicate (16 - length (item_endpoints items)) zero_ep)"

lemma replicate_first_update: "0 < n \<Longrightarrow> (replicate n x)[0 := y] = y # replicate (n - 1) x"
  by (cases n) simp_all

lemma small_take_bit: "(x :: u8) < 16 \<Longrightarrow> take_bit 4 x = x" "(x :: u8) < 4 \<Longrightarrow> take_bit 2 x = x"
  by (simp_all add: take_bit_eq_mod mod_word_less)

lemma small_bit7: "(x :: u8) < 16 \<Longrightarrow> \<not> bit x 7"
  using arg_cong [OF small_take_bit(1) [of x], of "\<lambda>w. bit w 7"] by (simp add: bit_simps)

lemma le16_bytes: "le16 [ucast w, ucast (drop_bit 8 w)] = w"
  by (rule bit_word_eqI) (auto simp: le16_def bit_simps)

lemma read_endpoint_encode:
  assumes "ep_endpoint_num ep < 16" and "ep_transfer_type ep < 4"
  shows "read_endpoint (pre @ encode_item (Endpoint ep) @ rest) (length pre) = Inr ep"
proof -
  have "take_bit 4 (ep_endpoint_num ep OR (if ep_is_in ep then 0x80 else 0)) = ep_endpoint_num ep"
    using small_take_bit(1) [OF assms(1)] by (simp add: take_bit_or)
  moreover have "bit (ep_endpoint_num ep OR (if ep_is_in ep then 0x80 else 0)) 7 = ep_is_in ep"
    using small_bit7 [OF assms(1)] by (simp add: bit_simps)
  ultimately show ?thesis using small_take_bit(2) [OF assms(2)] le16_bytes
    by (simp add: read_endpoint_def byte_at_def nth_append)
qed

lemma encode_item_head: "item_wf it \<Longrightarrow> 2 < length (encode_item it) \<and> unat (encode_item it ! 0) = length (encode_item it) \<and> encode_item it ! 1 \<noteq> 4"
  by (cases it) (auto simp: unat_word_ariths unat_of_nat take_bit_nat_eq_self)

lemma read_endpoints_encode:
  "list_all item_wf items \<Longrightarrow> length done' + length (item_endpoints items) \<le> unat (if_num_endpoints i) \<Longrightarrow> if_num_endpoints i \<le> 16 \<Longrightarrow>
   if_endpoints i = done' @ replicate (16 - length done') zero_ep \<Longrightarrow> (rest = [] \<or> 2 < length rest \<and> rest ! 1 = 4) \<Longrightarrow>
   data = pre @ concat (map encode_item items) @ rest \<Longrightarrow>
   read_endpoints data (length pre) (length done') i =
     Some (Inr (length pre + length (concat (map encode_item items)),
       i\<lparr>if_endpoints := done' @ item_endpoints items @ replicate (16 - (length done' + length (item_endpoints items))) zero_ep\<rparr>))"
proof (induction items arbitrary: done' i pre)
  case Nil
  have "i\<lparr>if_endpoints := done' @ replicate (16 - length done') zero_ep\<rparr> = i" using Nil.prems(4) by (cases i) simp
  moreover have "\<not> (length pre + 2 < length data \<and> data ! (length pre + 1) \<noteq> 4)" using Nil.prems(5,6) by (auto simp: nth_append)
  ultimately show ?case unfolding read_endpoints.simps [of data "length pre"] by auto
next
  case (Cons it items)
  let ?pre = "pre @ encode_item it" and ?tail = "concat (map encode_item items) @ rest"
  have wf: "item_wf it" using Cons.prems(1) by simp
  have data: "data = ?pre @ ?tail" using Cons.prems(6) by simp
  have head: "length pre + 2 < length data" "data ! length pre = encode_item it ! 0" "data ! (length pre + 1) = encode_item it ! 1"
    using encode_item_head [OF wf] data by (auto simp: nth_append)
  have next_pos: "length pre + unat (data ! length pre) = length ?pre" using encode_item_head [OF wf] head(2) by simp
  have go: "read_endpoints data (length pre) (length done') i = (case endpoint_round data (length pre) (length done') i of
      Inl e \<Rightarrow> Some (Inl e) | Inr (idx', i') \<Rightarrow> read_endpoints data (length ?pre) idx' i')"
    using head encode_item_head [OF wf] unfolding read_endpoints.simps [of data "length pre"] next_pos by simp
  show ?case
  proof (cases it)
    case (Endpoint ep)
    let ?i = "i\<lparr>if_endpoints := (if_endpoints i)[length done' := ep]\<rparr>"
    have room: "length done' < unat (if_num_endpoints i)" "length done' < 16" using Cons.prems(2,3) Endpoint by (auto simp: word_le_nat_alt)
    have "endpoint_round data (length pre) (length done') i = Inr (Suc (length done'), ?i)"
      using room(1) head(3) read_endpoint_encode [of ep pre ?tail] wf data Endpoint by (simp add: endpoint_round_def)
    moreover have "if_endpoints ?i = (done' @ [ep]) @ replicate (16 - length (done' @ [ep])) zero_ep"
      using Cons.prems(4) room(2) by (simp add: list_update_append replicate_first_update)
    ultimately show ?thesis
      using go Cons.IH [of "done' @ [ep]" ?i ?pre] Cons.prems data Endpoint by simp
  next
    case (OtherDesc t bs)
    then have "endpoint_round data (length pre) (length done') i = Inr (length done', i)" using head(3) wf by (simp add: endpoint_round_def)
    then show ?thesis using go Cons.IH [of done' i ?pre] Cons.prems data OtherDesc by simp
  qed
qed

lemma encode_interface_head: "2 < length (encode_interface f)" "encode_interface f ! 0 = 9" "encode_interface f ! 1 = 4"
  by (cases f; simp add: encode_interface_def)+

lemma read_interfaces_encode:
  "list_all interface_wf fs \<Longrightarrow> data = pre @ concat (map encode_interface fs) \<Longrightarrow>
   read_interfaces data (length pre) ifs = Some (Inr (fold (\<lambda>(n, i, items) ifs. ifs(n := i)) fs ifs))"
proof (induction fs arbitrary: pre ifs)
  case Nil
  then show ?case unfolding read_interfaces.simps [of data "length pre"] by simp
next
  case (Cons f fs)
  obtain n i items where f: "f = (n, i, items)" by (cases f)
  let ?pre = "pre @ take 9 (encode_interface f)" and ?rest = "concat (map encode_interface fs)"
  let ?i = "zero_if\<lparr>if_num_endpoints := if_num_endpoints i, if_class_code := if_class_code i, if_sub_class := if_sub_class i, if_protocol := if_protocol i\<rparr>"
  have wf: "list_all item_wf items" "if_num_endpoints i \<le> 16" "length (item_endpoints items) \<le> unat (if_num_endpoints i)"
    "if_endpoints i = item_endpoints items @ replicate (16 - length (item_endpoints items)) zero_ep"
    using Cons.prems(1) f by (auto simp: interface_wf_def)
  have data: "data = pre @ [9, 4, n, 0, if_num_endpoints i, if_class_code i, if_sub_class i, if_protocol i, 0] @ concat (map encode_item items) @ ?rest"
    using Cons.prems(2) f by (simp add: encode_interface_def)
  have data2: "data = ?pre @ concat (map encode_item items) @ ?rest" using data f by (simp add: encode_interface_def)
  have rest: "?rest = [] \<or> 2 < length ?rest \<and> ?rest ! 1 = 4"
  proof (cases fs)
    case (Cons g gs)
    then show ?thesis using encode_interface_head [of g] by (simp add: nth_append)
  qed simp
  have lp: "length ?pre = length pre + 9" by (simp add: f encode_interface_def)
  have i: "?i\<lparr>if_endpoints := item_endpoints items @ replicate (16 - length (item_endpoints items)) zero_ep\<rparr> = i"
    using wf(4) by (cases i) (simp add: zero_if_def)
  have eps: "read_endpoints data (length ?pre) 0 ?i = Some (Inr (length ?pre + length (concat (map encode_item items)), i))"
    using read_endpoints_encode [of items "[]" ?i ?rest data ?pre] wf(1-3) rest data2 i by (simp add: zero_if_def)
  have "read_interface data (length pre) = Inr (n, ?i)"
    using wf(2) by (simp add: read_interface_def byte_at_def data nth_append)
  moreover have "length pre + 2 < length data" "data ! (length pre + 1) = 4" "data ! length pre = 9" by (simp_all add: data nth_append)
  ultimately have go: "read_interfaces data (length pre) ifs = read_interfaces data (length (?pre @ concat (map encode_item items))) (ifs(n := i))"
    using eps lp by (simp add: read_interfaces.simps [of data "length pre"] add.assoc)
  have "data = (?pre @ concat (map encode_item items)) @ ?rest" using data2 by simp
  from Cons.IH [OF _ this, of "ifs(n := i)"] Cons.prems(1)
  have "read_interfaces data (length (?pre @ concat (map encode_item items))) (ifs(n := i)) =
      Some (Inr (fold (\<lambda>(n, i, items) ifs. ifs(n := i)) fs (ifs(n := i))))" by (simp only: list.pred_inject)
  with go show ?case by (simp add: f fun_upd_def)
qed

section \<open>Properties\<close>

text \<open>C18. The parser of configuration descriptors reads back every well-formed configuration: the interfaces with their
  class codes and endpoints (number, direction, type, packet size, interval), whatever other descriptors stand between the
  endpoints.\<close>

theorem configuration_roundtrip:
  assumes "list_all interface_wf fs" and "length header = 9"
  shows "read_interfaces (header @ concat (map encode_interface fs)) 9 (\<lambda>_. zero_if) =
    Some (Inr (fold (\<lambda>(n, i, items) ifs. ifs(n := i)) fs (\<lambda>_. zero_if)))"
  using read_interfaces_encode [OF assms(1) refl, of header "\<lambda>_. zero_if"] assms(2) by simp

definition example_endpoint :: ExternEpDesc where
  "example_endpoint = \<lparr>ep_endpoint_num = 1, ep_is_in = True, ep_transfer_type = 3, ep_max_packet_size = 8, ep_interval = 10\<rparr>"

definition example_interface :: "u8 \<times> ExternIfDesc \<times> desc_item list" where
  "example_interface = (0, \<lparr>if_num_endpoints = 1, if_class_code = 3, if_sub_class = 1, if_protocol = 1,
     if_endpoints = example_endpoint # replicate 15 zero_ep\<rparr>, [OtherDesc 0x21 [0x11, 1, 0, 1, 0x22, 0x3F, 0], Endpoint example_endpoint])"

theorem configuration_roundtrip_witness:
  "read_interfaces ([9, 2, 34, 0, 1, 1, 0, 0xA0, 50] @ [9, 4, 0, 0, 1, 3, 1, 1, 0] @ [9, 0x21, 0x11, 1, 0, 1, 0x22, 0x3F, 0] @
      [7, 5, 0x81, 3, 8, 0, 10]) 9 (\<lambda>_. zero_if) = Some (Inr ((\<lambda>_. zero_if)(0 := fst (snd example_interface))))"
proof -
  have "list_all interface_wf [example_interface]" by (simp add: interface_wf_def example_interface_def example_endpoint_def)
  from configuration_roundtrip [OF this, of "[9, 2, 34, 0, 1, 1, 0, 0xA0, 50]"] show ?thesis
    by (simp add: encode_interface_def example_interface_def example_endpoint_def)
qed

text \<open>C19. The parser returns (a configuration, or a fault) on every buffer in which no descriptor that it visits has length
  zero.\<close>

theorem configuration_parser_terminates:
  assumes "no_empty_desc data"
  shows "\<exists>r. read_interfaces data 9 (\<lambda>_. zero_if) = Some r"
  by (rule read_interfaces_returns [OF assms first_desc])

theorem configuration_parser_terminates_witness:
  "\<exists>r. read_interfaces [9, 2, 18, 0, 1, 1, 0, 0xA0, 50, 9, 4, 0, 0, 0, 3, 1, 1, 0] 9 (\<lambda>_. zero_if) = Some r"
proof (rule configuration_parser_terminates)
  let ?d = "[9, 2, 18, 0, 1, 1, 0, 0xA0, 50, 9, 4, 0, 0, 0, 3, 1, 1, 0] :: u8 list"
  have pos: "p = 9 \<or> p = 18" if "desc_at ?d p" for p using that by induction auto
  have "?d ! p \<noteq> 0" if "desc_at ?d p" "p + 2 < length ?d" for p using pos [OF that(1)] that(2) by auto
  then show "no_empty_desc ?d" by (simp only: no_empty_desc_def) blast
qed

text \<open>A device can hang the kernel: when the descriptor after an interface has length zero and is neither an interface nor
  an endpoint, the parser stays at it forever.\<close>

theorem zero_length_descriptor_hangs:
  assumes "length header = 9" and "num_endpoints \<le> 16" and "t \<notin> {4, 5}"
  shows "read_interfaces (header @ [9, 4, n, alt, num_endpoints, cls, sub', proto, str] @ [0, t, x] @ rest) 9 ifs = None"
proof -
  let ?d = "header @ [9, 4, n, alt, num_endpoints, cls, sub', proto, str] @ [0, t, x] @ rest"
  have "read_endpoints ?d 18 0 i = None" for i
    using read_endpoints_stuck [of ?d 18 0 i] assms(1,3) by (cases "read_endpoints ?d 18 0 i") (auto simp: nth_append)
  then show ?thesis
    using assms by (simp add: read_interfaces.simps [of _ 9] read_interface_def byte_at_def nth_append)
qed

theorem zero_length_descriptor_hangs_witness:
  "read_interfaces ([9, 2, 24, 0, 1, 1, 0, 0xA0, 50] @ [9, 4, 0, 0, 1, 3, 1, 1, 0] @ [0, 0, 0] @ [0, 0, 0]) 9 (\<lambda>_. zero_if) = None"
  by (rule zero_length_descriptor_hangs) simp_all

end
