(* ===== verification/Xhci_Driver.thy ===== *)
theory Xhci_Driver
  imports Usb_Keyboard Usb_Descriptors
begin

text \<open>
  Events, commands and control transfers of the USB host controller driver (\<open>stuos/src/xhci_driver.c\<close>).

  While the driver waits for an event, the controller acts as \<open>hc_run\<close> says and its interrupt runs
  \<open>handle_incoming_event\<close>; a wait that never ends is the fault \<open>Diverged\<close>. Interrupts are taken at the waits.
\<close>

section \<open>Events\<close>

definition call_handler :: "'h controller \<Rightarrow> TRB \<Rightarrow> 'h usb \<Rightarrow> (unit \<times> 'h usb) result" where
  "call_handler hc recv s =
     (case dv_interrupt_trb_handler (x_slots s (slot_id recv)) of
        None \<Rightarrow> Inl HCF
      | Some FetchAndCopy \<Rightarrow> fetch_and_copy recv s
      | Some FetchAndCopyToSlot0 \<Rightarrow> fetch_and_copy_to_slot_0 recv s
      | Some PacketRecv \<Rightarrow> packet_recv hc recv s)"

definition handle_incoming_event :: "'h controller \<Rightarrow> 'h usb \<Rightarrow> (unit \<times> 'h usb) result" where
  "handle_incoming_event hc s =
     rbind (dequeue_ring (x_event_ring s)) (\<lambda>(trb, ring).
     case trb of None \<Rightarrow> Inr ((), s)
     | Some recv \<Rightarrow>
         sbind (update_erdp hc True) (\<lambda>_.
         sbind (\<lambda>s. if trb_type recv = TRB_TYPE_TRANSFER \<or> trb_type recv = TRB_TYPE_CMD_COMPLETION then call_handler hc recv s
                     else if trb_type recv = TRB_TYPE_PORT_STS_CHANGE then Inr ((), s)
                     else Inl HCF) (\<lambda>_.
         ack_irq hc)) (s\<lparr>x_event_ring := ring\<rparr>))"

text \<open>What the controller has done becomes visible, and its interrupt is handled.\<close>

definition dma_seen :: "'h dma \<Rightarrow> 'h usb \<Rightarrow> 'h usb" where
  "dma_seen d s =
      s\<lparr>x_event_ring := (x_event_ring s)\<lparr>rg_trbs := dm_event_trbs d\<rparr>, x_mem := dm_mem d,
        x_slots := (\<lambda>i. (x_slots s i)\<lparr>dv_device_context := map_option (\<lambda>_. dm_contexts d i) (dv_device_context (x_slots s i))\<rparr>),
        x_hw := dm_hw d\<rparr>"

definition interrupt :: "'h controller \<Rightarrow> 'h dma \<Rightarrow> 'h usb \<Rightarrow> (unit \<times> 'h usb) result" where
  "interrupt hc d s = handle_incoming_event hc (dma_seen d s)"

text \<open>The loop \<open>while(!handler_data.done) {}\<close> of a caller that waits for an event of the given slot.\<close>

partial_function (option) spin :: "'h controller \<Rightarrow> u8 \<Rightarrow> 'h usb \<Rightarrow> (TRB \<times> 'h usb) result option" where
  "spin hc slot s =
     (case dv_interrupt_handler_data (x_slots s slot) of
        FetchData d \<Rightarrow>
          if fc_done d then Some (Inr (fc_result d, s))
          else (case hc_run hc s of
                  None \<Rightarrow> Some (Inl Diverged)
                | Some act \<Rightarrow> (case interrupt hc act s of Inl e \<Rightarrow> Some (Inl e) | Inr (_, s') \<Rightarrow> spin hc slot s'))
      | _ \<Rightarrow> Some (Inl WildAccess))"

definition wait_done :: "'h controller \<Rightarrow> u8 \<Rightarrow> 'h usb \<Rightarrow> (TRB \<times> 'h usb) result" where
  "wait_done hc slot s = (case spin hc slot s of None \<Rightarrow> Inl Diverged | Some r \<Rightarrow> r)"

definition zero_trb :: TRB where
  "zero_trb = \<lparr>trb_parameter = 0, trb_status = 0\<rparr>"

text \<open>A local \<open>FetchAndCopyData\<close> is installed before the wait and is gone when its function has returned.\<close>

definition set_handler_data :: "u8 \<Rightarrow> handler_data \<Rightarrow> 'h usb \<Rightarrow> (unit \<times> 'h usb) result" where
  "set_handler_data slot d s = Inr ((), set_slot slot ((x_slots s slot)\<lparr>dv_interrupt_handler_data := d\<rparr>) s)"

definition set_handler :: "u8 \<Rightarrow> trb_handler option \<Rightarrow> 'h usb \<Rightarrow> (unit \<times> 'h usb) result" where
  "set_handler slot h s = Inr ((), set_slot slot ((x_slots s slot)\<lparr>dv_interrupt_trb_handler := h\<rparr>) s)"

definition install_fetch :: "u8 \<Rightarrow> 'h usb \<Rightarrow> (unit \<times> 'h usb) result" where
  "install_fetch slot = sbind (set_handler_data slot (FetchData \<lparr>fc_result = zero_trb, fc_done = False\<rparr>)) (\<lambda>_.
     set_handler slot (Some FetchAndCopy))"

definition sassert :: "bool \<Rightarrow> 's \<Rightarrow> (unit \<times> 's) result" where
  "sassert c = (if c then sret () else sfail HCF)"

section \<open>Commands\<close>

definition enqueue_command :: "TRB \<Rightarrow> 'h usb \<Rightarrow> (unit \<times> 'h usb) result" where
  "enqueue_command trb s = rbind (enqueue_ring trb (x_command_ring s)) (\<lambda>r. Inr ((), s\<lparr>x_command_ring := r\<rparr>))"

definition send_command_ring_trb :: "'h controller \<Rightarrow> u8 \<Rightarrow> TRB \<Rightarrow> 'h usb \<Rightarrow> (unit \<times> 'h usb) result" where
  "send_command_ring_trb hc slot trb =
     sbind (enqueue_command trb) (\<lambda>_.
     sbind (install_fetch slot) (\<lambda>_.
     sbind (ring_command_doorbell hc) (\<lambda>_.
     sbind (wait_done hc slot) (\<lambda>result.
     sbind (sassert (trb_type result = TRB_TYPE_CMD_COMPLETION)) (\<lambda>_.
     sbind (sassert (completion_code result = 1)) (\<lambda>_.
     set_handler_data slot DeadFrame))))))"

definition set_input_context :: "'h controller \<Rightarrow> u8 \<Rightarrow> bool \<Rightarrow> 'h usb \<Rightarrow> (unit \<times> 'h usb) result" where
  "set_input_context hc slot block_set_address_request s =
     send_command_ring_trb hc slot \<lparr>trb_parameter = dv_input_context_phys (x_slots s slot),
       trb_status = field 41 1 (if block_set_address_request then 1 else 0) OR field 42 6 11 OR field 56 8 (ucast slot)\<rparr> s"

definition update_input_context :: "'h controller \<Rightarrow> u8 \<Rightarrow> bool \<Rightarrow> 'h usb \<Rightarrow> (unit \<times> 'h usb) result" where
  "update_input_context hc slot am_modifying_existing_endpoints s =
     send_command_ring_trb hc slot \<lparr>trb_parameter = dv_input_context_phys (x_slots s slot),
       trb_status = field 42 6 (if am_modifying_existing_endpoints then 13 else 12) OR field 56 8 (ucast slot)\<rparr> s"

section \<open>Control transfers\<close>

record RequestTemplate =
  rq_slot_number :: u8
  rq_direction :: bool
  rq_request_type :: u8
  rq_recipient :: u8
  rq_request :: u8
  rq_value :: u16
  rq_index :: u16
  rq_length :: u16
  rq_setup_transfer_type :: u8

definition of_flag :: "bool \<Rightarrow> u64" where
  "of_flag b = (if b then 1 else 0)"

definition setup_trb :: "RequestTemplate \<Rightarrow> TRB" where
  "setup_trb rq = \<lparr>
     trb_parameter = field 0 5 (ucast (rq_recipient rq)) OR field 5 2 (ucast (rq_request_type rq)) OR field 7 1 (of_flag (rq_direction rq)) OR
       field 8 8 (ucast (rq_request rq)) OR field 16 16 (ucast (rq_value rq)) OR field 32 16 (ucast (rq_index rq)) OR
       field 48 16 (ucast (rq_length rq)),
     trb_status = field 0 17 8 OR field 38 1 1 OR field 42 6 2 OR field 48 2 (ucast (rq_setup_transfer_type rq))\<rparr>"

definition data_stage_trb :: "u64 \<Rightarrow> RequestTemplate \<Rightarrow> TRB" where
  "data_stage_trb phys rq = \<lparr>trb_parameter = phys,
     trb_status = field 0 17 (ucast (rq_length rq)) OR field 33 1 1 OR field 36 1 1 OR field 42 6 3 OR field 48 1 (of_flag (rq_direction rq))\<rparr>"

definition status_stage_trb :: "RequestTemplate \<Rightarrow> TRB" where
  "status_stage_trb rq = (let status_direction = (if rq_setup_transfer_type rq = 0 then True else \<not> rq_direction rq) in
     \<lparr>trb_parameter = 0, trb_status = field 36 1 1 OR field 42 6 4 OR field 48 1 (of_flag status_direction)\<rparr>)"

definition event_data_trb :: TRB where
  "event_data_trb = \<lparr>trb_parameter = 0xBEEFBEEFBEEFBEEF, trb_status = field 37 1 1 OR field 42 6 7\<rparr>"

definition alloc_contiguous :: "u64 \<Rightarrow> 'h usb \<Rightarrow> (u64 \<times> 'h usb) result" where
  "alloc_contiguous pages s = rbind (malloc_contiguous_phys pages (x_slab s)) (\<lambda>(p, sl). Inr (p, s\<lparr>x_slab := sl\<rparr>))"

definition free_contiguous :: "u64 \<Rightarrow> u64 \<Rightarrow> 'h usb \<Rightarrow> (unit \<times> 'h usb) result" where
  "free_contiguous p pages s = rbind (free_contiguous_phys p pages (x_slab s)) (\<lambda>sl. Inr ((), s\<lparr>x_slab := sl\<rparr>))"

definition alloc_page :: "'h usb \<Rightarrow> (u64 \<times> 'h usb) result" where
  "alloc_page s = rbind (malloc4k_phys (x_slab s)) (\<lambda>(p, sl). Inr (p, s\<lparr>x_slab := sl\<rparr>))"

definition free_page :: "u64 \<Rightarrow> 'h usb \<Rightarrow> (unit \<times> 'h usb) result" where
  "free_page p s = rbind (free4k_phys p (x_slab s)) (\<lambda>sl. Inr ((), s\<lparr>x_slab := sl\<rparr>))"

definition clear_memory :: "u64 \<Rightarrow> u64 \<Rightarrow> 'h usb \<Rightarrow> (unit \<times> 'h usb) result" where
  "clear_memory p n s = Inr ((), s\<lparr>x_mem := snd (Kern_Libc.memset p 0 n (x_mem s))\<rparr>)"

text \<open>A copy between memory that the controller shares and a variable of the driver.\<close>

definition copy_out :: "u64 \<Rightarrow> nat \<Rightarrow> 'h usb \<Rightarrow> (u8 list \<times> 'h usb) result" where
  "copy_out p n s = Inr (mem_bytes (x_mem s) p n, s)"

definition copy_in :: "u64 \<Rightarrow> u8 list \<Rightarrow> 'h usb \<Rightarrow> (unit \<times> 'h usb) result" where
  "copy_in p bs s = Inr ((), s\<lparr>x_mem := store_bytes p bs (x_mem s)\<rparr>)"

text \<open>\<open>wants\<close> says that \<open>output\<close> is not null; the bytes that are stored there are the result.\<close>

definition make_request :: "'h controller \<Rightarrow> bool \<Rightarrow> RequestTemplate \<Rightarrow> 'h usb \<Rightarrow> (u8 list \<times> 'h usb) result" where
  "make_request hc wants rq =
     (let slot = rq_slot_number rq; num_pages = round_up_pages (ucast (rq_length rq)) in
     sbind (enqueue_endpoint slot 0 (setup_trb rq)) (\<lambda>_.
     sbind (if wants then
              sbind (sassert (rq_length rq \<noteq> 0)) (\<lambda>_.
              sbind (sassert (rq_setup_transfer_type rq \<noteq> 0)) (\<lambda>_.
              sbind (alloc_contiguous num_pages) (\<lambda>phys.
              sbind (clear_memory phys (PAGE_SIZE * num_pages)) (\<lambda>_.
              sbind (enqueue_endpoint slot 0 (data_stage_trb phys rq)) (\<lambda>_. sret phys)))))
            else sret 0) (\<lambda>data_buffer_phys.
     sbind (enqueue_endpoint slot 0 (status_stage_trb rq)) (\<lambda>_.
     sbind (enqueue_endpoint slot 0 event_data_trb) (\<lambda>_.
     sbind (install_fetch slot) (\<lambda>_.
     sbind (ring_doorbell hc slot 0) (\<lambda>_.
     sbind (wait_done hc slot) (\<lambda>result.
     sbind (sassert (trb_type result \<noteq> 0)) (\<lambda>_.
     sbind (sassert (completion_code result = 1)) (\<lambda>_.
     sbind (sassert (slot_id result = slot)) (\<lambda>_.
     sbind (sassert (is_event_data result)) (\<lambda>_.
     sbind (sassert (trb_parameter result = 0xBEEFBEEFBEEFBEEF)) (\<lambda>_.
     sbind (if wants then
              sbind (copy_out data_buffer_phys (unat (rq_length rq))) (\<lambda>out.
              sbind (free_contiguous data_buffer_phys num_pages) (\<lambda>_. sret out))
            else sret []) (\<lambda>out.
     sbind (set_handler_data slot DeadFrame) (\<lambda>_. sret out)))))))))))))))"

text \<open>The descriptor index and type are the low and high byte of the request's value; the length is cut to 16 bits.\<close>

definition send_control_transfer :: "'h controller \<Rightarrow> u8 \<Rightarrow> u8 \<Rightarrow> u8 \<Rightarrow> u64 \<Rightarrow> 'h usb \<Rightarrow> (u8 list \<times> 'h usb) result" where
  "send_control_transfer hc slot descriptor_type descriptor_index num_bytes =
     make_request hc True \<lparr>rq_slot_number = slot, rq_direction = True, rq_request_type = 0, rq_recipient = 0, rq_request = 6,
       rq_value = ucast descriptor_index OR push_bit 8 (ucast descriptor_type), rq_index = 0, rq_length = ucast num_bytes,
       rq_setup_transfer_type = 3\<rparr>"

section \<open>Contexts\<close>

fun last_valid_entry :: "EndpointContext list \<Rightarrow> nat \<Rightarrow> nat result" where
  "last_valid_entry eps 0 = (if ec_max_packet_size (eps ! 0) = 0 then Inl HCF else Inr 0)"
| "last_valid_entry eps (Suc i) = (if ec_max_packet_size (eps ! Suc i) = 0 then last_valid_entry eps i else Inr (Suc i))"

definition set_context_entries :: "DeviceContext \<Rightarrow> DeviceContext result" where
  "set_context_entries dc = rbind (last_valid_entry (dc_endpoint_context dc) 30) (\<lambda>i. Inr (dc\<lparr>dc_context_entries := of_nat (Suc i)\<rparr>))"

section \<open>The configuration of a device\<close>

definition read_configuration_descriptor :: "'h controller \<Rightarrow> u8 \<Rightarrow> u8 \<Rightarrow> 'h usb \<Rightarrow> (ExternConfigDesc \<times> 'h usb) result" where
  "read_configuration_descriptor hc slot configuration_index =
     sbind (send_control_transfer hc slot 2 configuration_index 9) (\<lambda>initial.
     let total_length = le16 (drop 2 initial) in
     sbind (sassert (initial ! 0 = 9)) (\<lambda>_.
     sbind (sassert (initial ! 1 = 2)) (\<lambda>_.
     sbind (sassert (total_length \<ge> 9)) (\<lambda>_.
     sbind (send_control_transfer hc slot 2 configuration_index (ucast total_length)) (\<lambda>data.
     case read_interfaces data 9 (\<lambda>_. zero_if) of
       None \<Rightarrow> sfail Diverged
     | Some (Inl e) \<Rightarrow> sfail e
     | Some (Inr ifs) \<Rightarrow> sret \<lparr>cf_num_interfaces = initial ! 4, cf_configuration_value = initial ! 5, cf_interfaces = ifs\<rparr>)))))"

section \<open>Waiting for an event\<close>

text \<open>The registers that are written when an event is handled. A view \<open>\<alpha>\<close> of the hardware is \<open>quiet\<close> if reading registers and
  acknowledging events leaves it alone.\<close>

definition event_regs :: "'h usb \<Rightarrow> u64 set" where
  "event_regs s = {run_reg 0x38 s, run_reg 0x3C s, op_reg 4 s, run_reg 0x20 s}"

definition quiet :: "'h controller \<Rightarrow> ('h \<Rightarrow> 'b) \<Rightarrow> 'h usb \<Rightarrow> bool" where
  "quiet hc \<alpha> s \<longleftrightarrow> (\<forall>a h. \<alpha> (snd (hc_read hc a h)) = \<alpha> h) \<and> (\<forall>a v h. a \<in> event_regs s \<longrightarrow> \<alpha> (hc_write hc a v h) = \<alpha> h)"

lemma reg_upd [simp]: "run_reg a (set_slot i d s) = run_reg a s" "op_reg a (set_slot i d s) = op_reg a s"
    "doorbell_reg j (set_slot i d s) = doorbell_reg j s"
    "run_reg a (s\<lparr>x_hw := h\<rparr>) = run_reg a s" "op_reg a (s\<lparr>x_hw := h\<rparr>) = op_reg a s" "doorbell_reg j (s\<lparr>x_hw := h\<rparr>) = doorbell_reg j s"
    "run_reg a (s\<lparr>x_event_ring := r\<rparr>) = run_reg a s" "op_reg a (s\<lparr>x_event_ring := r\<rparr>) = op_reg a s"
    "doorbell_reg j (s\<lparr>x_event_ring := r\<rparr>) = doorbell_reg j s"
    "run_reg a (dma_seen d' s) = run_reg a s" "op_reg a (dma_seen d' s) = op_reg a s" "doorbell_reg j (dma_seen d' s) = doorbell_reg j s"
  by (simp_all add: run_reg_def op_reg_def doorbell_reg_def dma_seen_def)

lemma mmio_ok_dma [simp]: "mmio_ok (dma_seen d s) = mmio_ok s"
  by (simp add: mmio_ok_def dma_seen_def)

lemma update_erdp_ok:
  assumes "mmio_ok s"
  shows "\<exists>h. update_erdp hc b s = Inr ((), s\<lparr>x_hw := h\<rparr>) \<and> (quiet hc \<alpha> s \<longrightarrow> \<alpha> h = \<alpha> (x_hw s))"
  using assms run_reg_aligned [OF assms, of "0x38"] run_reg_aligned [OF assms, of "0x3C"]
  by (auto simp: update_erdp_def sbind_def write_bar_ok quiet_def event_regs_def)

lemma ack_irq_ok:
  assumes "mmio_ok s"
  shows "\<exists>h. ack_irq hc s = Inr ((), s\<lparr>x_hw := h\<rparr>) \<and> (quiet hc \<alpha> s \<longrightarrow> \<alpha> h = \<alpha> (x_hw s))"
  using assms run_reg_aligned [OF assms, of "0x20"] op_reg_aligned [OF assms, of 4]
  by (auto simp: ack_irq_def sbind_def write_bar_ok read_bar_ok quiet_def event_regs_def)

definition waiting :: "u8 \<Rightarrow> 'h usb \<Rightarrow> bool" where
  "waiting slot s \<longleftrightarrow> dv_interrupt_trb_handler (x_slots s slot) = Some FetchAndCopy \<and>
     dv_interrupt_handler_data (x_slots s slot) = FetchData \<lparr>fc_result = zero_trb, fc_done = False\<rparr>"

text \<open>The controller posts event number \<open>c\<close> for a waiting caller: the caller gets it, and the driver is ready for the next.\<close>

lemma wait_fetch:
  assumes "mmio_ok s" and "consumer_at c (x_event_ring s)" and "waiting slot s" and "hc_run hc s = Some d"
    and "dm_event_trbs d = (rg_trbs (x_event_ring s))[c mod 256 := set_cycle_bit (lap_bit 256 c) trb]"
    and "trb_type (set_cycle_bit (lap_bit 256 c) trb) \<in> {TRB_TYPE_TRANSFER, TRB_TYPE_CMD_COMPLETION}"
    and "slot_id (set_cycle_bit (lap_bit 256 c) trb) = slot"
  shows "\<exists>ring h. wait_done hc slot s = Inr (set_cycle_bit (lap_bit 256 c) trb,
      set_slot slot ((x_slots (dma_seen d s) slot)\<lparr>dv_interrupt_handler_data := FetchData \<lparr>fc_result = set_cycle_bit (lap_bit 256 c) trb, fc_done = True\<rparr>\<rparr>)
        ((dma_seen d s)\<lparr>x_event_ring := ring, x_hw := h\<rparr>)) \<and>
    consumer_at (Suc c) ring \<and> (quiet hc \<alpha> s \<longrightarrow> \<alpha> h = \<alpha> (dm_hw d))"
proof -
  let ?t = "set_cycle_bit (lap_bit 256 c) trb" and ?ring = "(x_event_ring s)\<lparr>rg_trbs := dm_event_trbs d\<rparr>"
  let ?s = "dma_seen d s"
  have at: "consumer_at c ?ring" using assms(2,5) by (simp add: consumer_at_def)
  have slot: "rg_trbs ?ring ! (c mod 256) = ?t" using assms(2,5) by (simp add: consumer_at_def)
  then obtain r where r: "dequeue_ring ?ring = Inr (Some ?t, r)" "consumer_at (Suc c) r"
    using cons.get_some [OF at] by auto
  define s1 where "s1 = ?s\<lparr>x_event_ring := r\<rparr>"
  have m1: "mmio_ok s1" using assms(1) by (simp add: s1_def)
  obtain h1 where h1: "update_erdp hc True s1 = Inr ((), s1\<lparr>x_hw := h1\<rparr>)" "quiet hc \<alpha> s1 \<longrightarrow> \<alpha> h1 = \<alpha> (x_hw s1)"
    using update_erdp_ok [OF m1] by blast
  define s2 where "s2 = set_slot slot ((x_slots ?s slot)\<lparr>dv_interrupt_handler_data := FetchData \<lparr>fc_result = ?t, fc_done = True\<rparr>\<rparr>) (s1\<lparr>x_hw := h1\<rparr>)"
  have call: "call_handler hc ?t (s1\<lparr>x_hw := h1\<rparr>) = Inr ((), s2)"
    using assms(3,6,7) by (auto simp: call_handler_def fetch_and_copy_def deliver_def waiting_def s2_def s1_def dma_seen_def)
  have m2: "mmio_ok s2" using m1 by (simp add: s2_def)
  obtain h2 where h2: "ack_irq hc s2 = Inr ((), s2\<lparr>x_hw := h2\<rparr>)" "quiet hc \<alpha> s2 \<longrightarrow> \<alpha> h2 = \<alpha> (x_hw s2)"
    using ack_irq_ok [OF m2] by blast
  have "interrupt hc d s = Inr ((), s2\<lparr>x_hw := h2\<rparr>)"
    using r(1) h1(1) call h2(1) assms(6)
    by (auto simp: interrupt_def handle_incoming_event_def sbind_def s1_def dma_seen_def)
  moreover have "dv_interrupt_handler_data (x_slots (s2\<lparr>x_hw := h2\<rparr>) slot) = FetchData \<lparr>fc_result = ?t, fc_done = True\<rparr>" by (simp add: s2_def)
  ultimately have "spin hc slot s = Some (Inr (?t, s2\<lparr>x_hw := h2\<rparr>))"
    using assms(3,4) by (simp add: spin.simps [of hc slot s] spin.simps [of hc slot "s2\<lparr>x_hw := h2\<rparr>"] waiting_def)
  moreover have "s2\<lparr>x_hw := h2\<rparr> = set_slot slot ((x_slots ?s slot)\<lparr>dv_interrupt_handler_data := FetchData \<lparr>fc_result = ?t, fc_done = True\<rparr>\<rparr>)
      (?s\<lparr>x_event_ring := r, x_hw := h2\<rparr>)" by (simp add: s2_def s1_def set_slot_def)
  moreover have "\<alpha> h2 = \<alpha> (dm_hw d)" if "quiet hc \<alpha> s"
  proof -
    have "quiet hc \<alpha> s1" "quiet hc \<alpha> s2" using that by (simp_all add: quiet_def event_regs_def s1_def s2_def)
    then show ?thesis using h1(2) h2(2) by (simp add: s1_def s2_def dma_seen_def)
  qed
  ultimately show ?thesis using r(2) by (auto simp: wait_done_def)
qed

section \<open>Properties\<close>

lemma last_valid_entry_eq:
  "last_valid_entry eps k = (if \<exists>i \<le> k. ec_max_packet_size (eps ! i) \<noteq> 0
     then Inr (Max {i. i \<le> k \<and> ec_max_packet_size (eps ! i) \<noteq> 0}) else Inl HCF)"
proof (induction k)
  case 0
  have "{i. i \<le> 0 \<and> ec_max_packet_size (eps ! i) \<noteq> 0} = (if ec_max_packet_size (eps ! 0) = 0 then {} else {0})"
    by (auto intro: gr0I)
  then show ?case by auto
next
  case (Suc k)
  show ?case
  proof (cases "ec_max_packet_size (eps ! Suc k) = 0")
    case True
    then have "{i. i \<le> Suc k \<and> ec_max_packet_size (eps ! i) \<noteq> 0} = {i. i \<le> k \<and> ec_max_packet_size (eps ! i) \<noteq> 0}" by (auto simp: le_Suc_eq)
    then show ?thesis using True Suc.IH by (auto simp: le_Suc_eq)
  next
    case False
    then have "Max {i. i \<le> Suc k \<and> ec_max_packet_size (eps ! i) \<noteq> 0} = Suc k" by (intro Max_eqI) auto
    then show ?thesis using False by auto
  qed
qed

text \<open>\<open>set_context_entries\<close> always returns or stops with the assertion: it counts the endpoint contexts up to the last one in
  use, the one with the highest index whose packet size is not zero, and stops exactly when none is in use.\<close>

theorem set_context_entries_counts:
  "set_context_entries dc = (let used = {i. i \<le> 30 \<and> ec_max_packet_size (dc_endpoint_context dc ! i) \<noteq> 0} in
     if used = {} then Inl HCF else Inr (dc\<lparr>dc_context_entries := of_nat (Suc (Max used))\<rparr>))"
  by (auto simp: set_context_entries_def last_valid_entry_eq Let_def)

end
