(* ===== verification/Page_Memory.thy ===== *)
theory Page_Memory
  imports Phys_Slab Kern_Libc
begin

text \<open>
  Pages that a driver shares with a device: single pages taken from and given back to the physical page allocator, and the bytes
  that are stored in them. Pages with different numbers are \<open>apart\<close>, so a store into one of them leaves the others as they are.
\<close>

section \<open>Pages and bytes\<close>

text \<open>Two pages are apart if no address in the first is within a page length after the start of the second.\<close>

definition apart :: "u64 \<Rightarrow> u64 \<Rightarrow> bool" where
  "apart p q \<longleftrightarrow> (\<forall>i < 4096. 4096 \<le> unat (p + of_nat i - q))"

lemma page_apart:
  assumes "slab_wf sl" and "i < length (slab_flags sl)" and "j < length (slab_flags sl)" and "i \<noteq> j"
  shows "apart (page_addr sl i) (page_addr sl j)"
  unfolding apart_def
proof (intro allI impI)
  fix k :: nat assume k: "k < 4096"
  let ?b = "unat (physical_memory_base sl)" and ?a = "page_addr sl i + of_nat k" and ?q = "page_addr sl j"
  have u: "unat (page_addr sl i) = ?b + i * 4096" "unat ?q = ?b + j * 4096"
    using unat_page_addr [OF assms(1)] assms(2,3) by simp_all
  have top: "?b + length (slab_flags sl) * 4096 < 2 ^ 64" using assms(1) by (simp add: slab_wf_def)
  have le: "i * 4096 + 4096 \<le> length (slab_flags sl) * 4096" "j * 4096 + 4096 \<le> length (slab_flags sl) * 4096" using assms(2,3) by auto
  have a: "unat ?a = ?b + i * 4096 + k"
    using u(1) top le(1) k unat_add64 [of "page_addr sl i" "of_nat k"] by (simp add: unat_of_nat take_bit_nat_eq_self)
  show "4096 \<le> unat (?a - ?q)"
  proof (cases "j < i")
    case True
    then have "j * 4096 + 4096 \<le> i * 4096" by auto
    then show ?thesis using a u(2) unat_sub64 [of ?q ?a] by (simp add: word_le_nat_alt)
  next
    case False
    then have "i * 4096 + 4096 \<le> j * 4096" using assms(4) by auto
    then have "unat (?a - ?q) = 2 ^ 64 + (?b + i * 4096 + k) - (?b + j * 4096)"
      using a u(2) k unat_sub64_wrap [of ?a ?q] by (simp add: word_less_nat_alt)
    then show ?thesis using top le(2) by linarith
  qed
qed

lemma mem_bytes_apart: "apart p q \<Longrightarrow> length bs \<le> 4096 \<Longrightarrow> n \<le> 4096 \<Longrightarrow> mem_bytes (store_bytes q bs m) p n = mem_bytes m p n"
  by (auto simp: mem_bytes_def store_bytes_def apart_def) (meson leD le_less_trans less_le_trans)

definition free_indices :: "slab \<Rightarrow> nat set" where
  "free_indices sl = {i. i < length (slab_flags sl) \<and> \<not> slab_flags sl ! i}"

definition mark :: "slab \<Rightarrow> nat \<Rightarrow> bool \<Rightarrow> slab" where
  "mark sl i b = sl\<lparr>slab_flags := (slab_flags sl)[i := b]\<rparr>"

lemma mark_facts [simp]: "slab_wf (mark sl i b) = slab_wf sl" "page_addr (mark sl i b) j = page_addr sl j"
    "length (slab_flags (mark sl i b)) = length (slab_flags sl)"
  by (simp_all add: mark_def slab_wf_def)

lemma free_indices_mark: "i < length (slab_flags sl) \<Longrightarrow> free_indices (mark sl i True) = free_indices sl - {i}"
  by (auto simp: free_indices_def mark_def nth_list_update)

lemma alloc_one:
  assumes "slab_wf sl" and "free_indices sl \<noteq> {}"
  shows "\<exists>i \<in> free_indices sl. malloc4k_phys sl = Inr (page_addr sl i, mark sl i True)"
    and "\<exists>i \<in> free_indices sl. malloc_contiguous_phys 1 sl = Inr (page_addr sl i, mark sl i True)"
proof -
  show "\<exists>i \<in> free_indices sl. malloc4k_phys sl = Inr (page_addr sl i, mark sl i True)"
    using malloc4k_phys_cases [OF assms(1)] assms(2) by (cases rule: malloc4k_phys_cases [OF assms(1)]) (auto simp: free_indices_def mark_def)
  have "\<exists>i. free_run sl i 1" using assms(2) by (auto simp: free_indices_def free_run_def) (metis Suc_leI less_Suc_eq_le le_antisym)
  then obtain p sl' where f: "first_run sl 1 = Inr (p, sl')" by (auto simp: first_run_def Let_def)
  then obtain i where i: "free_run sl i 1" "p = page_addr sl i" "sl' = mark_pages sl i 1 True" by (rule first_run_found)
  have "i \<in> free_indices sl" using i(1) by (simp add: free_run_def free_indices_def)
  moreover have "mark_pages sl i 1 True = mark sl i True"
    using i(1) by (simp add: mark_pages_def mark_def free_run_def upd_conv_take_nth_drop)
  ultimately show "\<exists>i \<in> free_indices sl. malloc_contiguous_phys 1 sl = Inr (page_addr sl i, mark sl i True)"
    using malloc_contiguous_phys_eq [of sl 1] f i(2,3) assms(1) by (auto simp: slab_wf_def)
qed

lemma free_one:
  assumes "slab_wf sl" and "i < length (slab_flags sl)"
  shows "free4k_phys (page_addr sl i) sl = Inr (mark sl i False)" and "free_contiguous_phys (page_addr sl i) 1 sl = Inr (mark sl i False)"
  using free4k_phys_page [OF assms] free_contiguous_phys_eq [OF assms(1), of i 1] assms(2)
  by (simp_all add: mark_def mark_pages_def upd_conv_take_nth_drop)

end
