(* ===== verification/Usb_Storage.thy ===== *)
theory Usb_Storage
  imports Xhci_Driver Page_Memory
begin

text \<open>
  USB mass storage (\<open>stuos/src/xhci_msd.c\<close>): the bulk-only transport \<open>send_bbb\<close>, the sector operations built on it and
  the registration of the drive as a block device.

  The drive is hardware. \<open>bot_write\<close> and \<open>bot_run\<close> say how a drive that follows the bulk-only transport and obeys the
  SCSI commands READ(10) and WRITE(10) reacts to doorbells and to the blocks in its rings; a controller for which
  \<open>bulk_disk\<close> holds is a parameter of the theorem, which shows that the driver provides the \<open>sector_driver\<close> contract
  on which the block layer and the file system rest.
\<close>

section \<open>Command and status wrappers\<close>

record MassStorageDeviceXHCI =
  md_size_class :: u8
  md_slot_number :: u8
  md_in_index :: nat
  md_out_index :: nat
  md_last_lba :: u32

record CommandBlockWrapper =
  cb_signature :: u32
  cb_tag :: u32
  cb_transfer_length :: u32
  cb_direction :: bool
  cb_lun :: u8
  cb_command_len :: u8
  cb_command :: "u8 list"

definition bytes32 :: "u32 \<Rightarrow> u8 list" where
  "bytes32 w = [ucast w, ucast (drop_bit 8 w), ucast (drop_bit 16 w), ucast (drop_bit 24 w)]"

text \<open>The packed structure as it is stored in memory, 31 bytes.\<close>

definition cbw_bytes :: "CommandBlockWrapper \<Rightarrow> u8 list" where
  "cbw_bytes c = bytes32 (cb_signature c) @ bytes32 (cb_tag c) @ bytes32 (cb_transfer_length c) @
     [if cb_direction c then 0x80 else 0, cb_lun c, cb_command_len c] @ cb_command c"

definition flip_endianness :: "u32 \<Rightarrow> u32" where
  "flip_endianness val = push_bit 24 (ucast (ucast val :: u8)) OR push_bit 16 (ucast (ucast (drop_bit 8 val) :: u8)) OR
     push_bit 8 (ucast (ucast (drop_bit 16 val) :: u8)) OR ucast (ucast (drop_bit 24 val) :: u8)"

section \<open>The bulk-only transport\<close>

text \<open>One of the three transfers: queue a block on an endpoint, ring its doorbell, wait for the event and check it.
  \<open>prepare\<close> is what is done between the installation of the event's destination and the doorbell.\<close>

definition bulk_transfer :: "'h controller \<Rightarrow> u8 \<Rightarrow> nat \<Rightarrow> TRB \<Rightarrow> ('h usb \<Rightarrow> (unit \<times> 'h usb) result) \<Rightarrow> 'h usb \<Rightarrow> (unit \<times> 'h usb) result" where
  "bulk_transfer hc slot idx trb prepare =
     sbind (enqueue_endpoint slot idx trb) (\<lambda>_.
     sbind (set_handler_data slot (FetchData \<lparr>fc_result = zero_trb, fc_done = False\<rparr>)) (\<lambda>_.
     sbind prepare (\<lambda>_.
     sbind (ring_doorbell hc slot (of_nat idx)) (\<lambda>_.
     sbind (wait_done hc slot) (\<lambda>result.
     sbind (sassert (trb_type result = TRB_TYPE_TRANSFER)) (\<lambda>_.
     sbind (sassert (completion_code result = 1)) (\<lambda>_.
     sassert (event_transfer_length result = 0))))))))"

definition take_tag :: "'h usb \<Rightarrow> (u32 \<times> 'h usb) result" where
  "take_tag s = Inr (x_next_free_tag s, s\<lparr>x_next_free_tag := x_next_free_tag s + 1\<rparr>)"

text \<open>The result is the return value and the bytes that are stored in \<open>response_out\<close>, which has room for \<open>response_len\<close>
  bytes; in a write \<open>response_out\<close> is the argument \<open>input\<close>.\<close>

definition send_bbb ::
  "'h controller \<Rightarrow> u8 \<Rightarrow> nat \<Rightarrow> nat \<Rightarrow> CommandBlockWrapper \<Rightarrow> u8 list \<Rightarrow> u32 \<Rightarrow> bool \<Rightarrow> 'h usb \<Rightarrow> ((u32 \<times> u8 list) \<times> 'h usb) result" where
  "send_bbb hc slot in_index out_index cbw input response_len is_read =
     (let response_num_pages = round_up_pages (ucast response_len) in
     sbind alloc_page (\<lambda>command_phys.
     sbind take_tag (\<lambda>tag.
     sbind (copy_in command_phys (cbw_bytes (cbw\<lparr>cb_tag := tag\<rparr>))) (\<lambda>_.
     sbind (sassert (response_len > 0)) (\<lambda>_.
     sbind (alloc_contiguous response_num_pages) (\<lambda>response_phys.
     sbind (if is_read then sret () else copy_in response_phys input) (\<lambda>_.
     sbind alloc_page (\<lambda>status_phys.
     sbind (bulk_transfer hc slot out_index (normal_trb command_phys 31 False) (set_handler slot (Some FetchAndCopy))) (\<lambda>_.
     sbind (bulk_transfer hc slot (if is_read then in_index else out_index) (normal_trb response_phys (ucast response_len) True) (sret ())) (\<lambda>_.
     sbind (bulk_transfer hc slot in_index (normal_trb status_phys 13 False) (sret ())) (\<lambda>_.
     sbind (copy_out status_phys 13) (\<lambda>status.
     sbind (copy_out command_phys 31) (\<lambda>command.
     sbind (sassert (le32 status = 0x53425355)) (\<lambda>_.
     sbind (sassert (le32 (drop 4 status) = le32 (drop 4 command))) (\<lambda>_.
     sbind (sassert (status ! 12 = 0)) (\<lambda>_.
     let received = response_len - le32 (drop 8 status) in
     sbind (if \<not> is_read then sret [] else if received > response_len then sfail WildAccess
            else copy_out response_phys (unat received)) (\<lambda>response.
     sbind (free_page command_phys) (\<lambda>_.
     sbind (free_contiguous response_phys response_num_pages) (\<lambda>_.
     sbind (free_page status_phys) (\<lambda>_.
     sbind (set_handler slot None) (\<lambda>_.
     sbind (set_handler_data slot DeadFrame) (\<lambda>_.
     sret (received, response)))))))))))))))))))))))"

section \<open>Sectors\<close>

text \<open>A ten-byte command for one sector: the operation code and the sector number in big-endian order.\<close>

definition cdb10 :: "u8 \<Rightarrow> u64 \<Rightarrow> u8 list" where
  "cdb10 operation sector_number =
     [operation, 0, ucast (drop_bit 24 sector_number), ucast (drop_bit 16 sector_number), ucast (drop_bit 8 sector_number),
      ucast sector_number, 0, 0, 1, 0, 0, 0, 0, 0, 0, 0]"

definition sector_cbw :: "bool \<Rightarrow> u64 \<Rightarrow> CommandBlockWrapper" where
  "sector_cbw is_read sector_number = \<lparr>cb_signature = 0x43425355, cb_tag = 0, cb_transfer_length = 512, cb_direction = is_read, cb_lun = 0,
     cb_command_len = 10, cb_command = cdb10 (if is_read then 0x28 else 0x2A) sector_number\<rparr>"

definition block_read :: "'h controller \<Rightarrow> MassStorageDeviceXHCI \<Rightarrow> u64 \<Rightarrow> 'h usb \<Rightarrow> (u8 list \<times> 'h usb) result" where
  "block_read hc msd sector_number =
     sbind (sassert (sector_number \<le> ucast (md_last_lba msd))) (\<lambda>_.
     sbind (sassert (md_size_class msd = 10)) (\<lambda>_.
     sbind (sassert (sector_number \<le> 0xFFFFFFFF)) (\<lambda>_.
     sbind (send_bbb hc (md_slot_number msd) (md_in_index msd) (md_out_index msd) (sector_cbw True sector_number) [] 512 True) (\<lambda>(n, output).
     sbind (sassert (n = 512)) (\<lambda>_. sret output)))))"

definition block_write :: "'h controller \<Rightarrow> MassStorageDeviceXHCI \<Rightarrow> u64 \<Rightarrow> u8 list \<Rightarrow> 'h usb \<Rightarrow> 'h usb result" where
  "block_write hc msd sector_number input s =
     rbind (sbind (sassert (sector_number \<le> ucast (md_last_lba msd))) (\<lambda>_.
            sbind (sassert (md_size_class msd = 10)) (\<lambda>_.
            sbind (sassert (sector_number \<le> 0xFFFFFFFF)) (\<lambda>_.
            sbind (send_bbb hc (md_slot_number msd) (md_in_index msd) (md_out_index msd) (sector_cbw False sector_number) input 512 False) (\<lambda>(n, _).
            sassert (n = 512))))) s) (\<lambda>(_, s'). Inr s')"

section \<open>A drive that follows the protocol\<close>

datatype bot_stage = Ready | ReadPhase u32 nat | WritePhase u32 nat | StatusPhase u32

text \<open>The state of the drive and its endpoints: the phase of the transport, the sectors, the doorbell that was rung, the
  number of blocks taken from each ring and the number of events posted.\<close>

record bot =
  bt_stage :: bot_stage
  bt_sectors :: "nat \<Rightarrow> u8 list"
  bt_rung :: "nat option"
  bt_taken :: "nat \<Rightarrow> nat"
  bt_posted :: nat

definition be32 :: "u8 list \<Rightarrow> u32" where
  "be32 bs = push_bit 24 (ucast (bs ! 0)) OR push_bit 16 (ucast (bs ! 1)) OR push_bit 8 (ucast (bs ! 2)) OR ucast (bs ! 3)"

text \<open>The one-sector commands READ(10) and WRITE(10) in a command wrapper.\<close>

definition asks_sector :: "bool \<Rightarrow> u8 list \<Rightarrow> bool" where
  "asks_sector is_read c \<longleftrightarrow> le32 c = 0x43425355 \<and> le32 (drop 8 c) = 512 \<and> c ! 12 = (if is_read then 0x80 else 0) \<and> c ! 13 = 0 \<and> c ! 14 = 10 \<and>
     c ! 15 = (if is_read then 0x28 else 0x2A) \<and> c ! 22 = 0 \<and> c ! 23 = 1"

definition csw_bytes :: "u32 \<Rightarrow> u8 list" where
  "csw_bytes tag = bytes32 0x53425355 @ bytes32 tag @ bytes32 0 @ [0]"

text \<open>What the drive does with a block of \<open>len\<close> bytes at address \<open>a\<close> on endpoint \<open>ep\<close>: a command, then data, then status.\<close>

definition bot_step :: "nat \<Rightarrow> nat \<Rightarrow> nat \<Rightarrow> u64 \<Rightarrow> nat \<Rightarrow> mem \<Rightarrow> bot_stage \<Rightarrow> (nat \<Rightarrow> u8 list) \<Rightarrow> (mem \<times> bot_stage \<times> (nat \<Rightarrow> u8 list)) option" where
  "bot_step ini outi ep a len m stage sectors =
     (case stage of
        Ready \<Rightarrow> (let c = mem_bytes m a 31; tag = le32 (drop 4 c); n = unat (be32 (drop 17 c)) in
          if ep = outi \<and> len = 31 \<and> asks_sector True c then Some (m, ReadPhase tag n, sectors)
          else if ep = outi \<and> len = 31 \<and> asks_sector False c then Some (m, WritePhase tag n, sectors)
          else None)
      | ReadPhase tag n \<Rightarrow> if ep = ini \<and> len = 512 then Some (store_bytes a (sectors n) m, StatusPhase tag, sectors) else None
      | WritePhase tag n \<Rightarrow> if ep = outi \<and> len = 512 then Some (m, StatusPhase tag, sectors(n := mem_bytes m a 512)) else None
      | StatusPhase tag \<Rightarrow> if ep = ini \<and> len = 13 then Some (store_bytes a (csw_bytes tag) m, Ready, sectors) else None)"

definition bot_write :: "u64 \<Rightarrow> u64 \<Rightarrow> u32 \<Rightarrow> bot \<Rightarrow> bot" where
  "bot_write db a v b = (if a = db then b\<lparr>bt_rung := Some (unat v - 1)\<rparr> else b)"

text \<open>The controller takes the next block of the endpoint whose doorbell was rung, if its cycle bit is that of the lap.\<close>

definition bot_run :: "u8 \<Rightarrow> nat \<Rightarrow> nat \<Rightarrow> 'h usb \<Rightarrow> bot \<Rightarrow> (mem \<times> bot) option" where
  "bot_run slot ini outi s b =
     (case bt_rung b of None \<Rightarrow> None
      | Some ep \<Rightarrow>
          let k = bt_taken b ep; t = rg_trbs (dv_endpoint_rings (x_slots s slot) ! ep) ! (k mod 255) in
          if cycle_bit t \<noteq> lap_bit 255 k then None
          else (case bot_step ini outi ep (trb_parameter t) (unat (get_field 0 17 (trb_status t))) (x_mem s) (bt_stage b) (bt_sectors b) of
                  None \<Rightarrow> None
                | Some (m, stage, sectors) \<Rightarrow>
                    Some (m, \<lparr>bt_stage = stage, bt_sectors = sectors, bt_rung = None, bt_taken = (bt_taken b)(ep := Suc k),
                              bt_posted = Suc (bt_posted b)\<rparr>)))"

definition good_event :: "u8 \<Rightarrow> TRB \<Rightarrow> bool" where
  "good_event slot e \<longleftrightarrow> trb_type e = TRB_TYPE_TRANSFER \<and> completion_code e = 1 \<and> event_transfer_length e = 0 \<and> slot_id e = slot"

text \<open>The controller \<open>hc\<close> with a drive on the given slot, doorbell register and endpoints; \<open>\<alpha>\<close> is the drive in its state.\<close>

definition bulk_disk :: "'h controller \<Rightarrow> ('h \<Rightarrow> bot) \<Rightarrow> u64 \<Rightarrow> u8 \<Rightarrow> nat \<Rightarrow> nat \<Rightarrow> bool" where
  "bulk_disk hc \<alpha> db slot ini outi \<longleftrightarrow>
     (\<forall>a v h. \<alpha> (hc_write hc a v h) = bot_write db a v (\<alpha> h)) \<and> (\<forall>a h. \<alpha> (snd (hc_read hc a h)) = \<alpha> h) \<and>
     (\<forall>s m b. bot_run slot ini outi s (\<alpha> (x_hw s)) = Some (m, b) \<longrightarrow>
        (\<exists>d e c. hc_run hc s = Some d \<and> good_event slot e \<and> c = bt_posted (\<alpha> (x_hw s)) \<and>
           dm_event_trbs d = (rg_trbs (x_event_ring s))[c mod 256 := set_cycle_bit (lap_bit 256 c) e] \<and> dm_mem d = m \<and> \<alpha> (dm_hw d) = b))"

section \<open>One transfer\<close>

lemma get_field_set_cycle: "32 < i \<or> i + n \<le> 32 \<Longrightarrow> get_field i n (trb_status (set_cycle_bit c t)) = get_field i n (trb_status t)"
  by (auto intro!: bit_word_eqI simp: get_field_def set_cycle_bit_def bit_simps)

lemma trb_type_set_cycle [simp]: "trb_type (set_cycle_bit c t) = trb_type t"
proof -
  have "(0x3F :: u64) = mask 6" by (simp add: mask_eq_exp_minus_1)
  then have "trb_type t = get_field 42 6 (trb_status t)" for t by (simp add: trb_type_def get_field_def take_bit_eq_mask)
  then show ?thesis by (simp add: get_field_set_cycle)
qed

lemma good_event_set_cycle [simp]: "good_event slot (set_cycle_bit c e) = good_event slot e"
  by (simp add: good_event_def completion_code_def event_transfer_length_def slot_id_def get_field_set_cycle)

lemma normal_trb_length: "n < 2 ^ 17 \<Longrightarrow> unat (get_field 0 17 (trb_status (normal_trb p (of_nat n) b))) = n"
proof -
  assume n: "n < 2 ^ 17"
  have "get_field 0 17 (trb_status (normal_trb p (of_nat n) b)) = take_bit 17 (of_nat n)"
    by (auto intro!: bit_word_eqI simp: get_field_def normal_trb_def field_def bit_simps)
  also have "\<dots> = of_nat n" by (rule take_bit_of_nat_small [OF n])
  finally show ?thesis using n by (simp add: unat_of_nat take_bit_nat_eq_self)
qed

text \<open>The driver and the drive agree on the rings, the event ring and the registers.\<close>

definition linked :: "('h \<Rightarrow> bot) \<Rightarrow> u64 \<Rightarrow> u8 \<Rightarrow> nat \<Rightarrow> nat \<Rightarrow> 'h usb \<Rightarrow> bool" where
  "linked \<alpha> db slot ini outi s \<longleftrightarrow> mmio_ok s \<and> doorbell_reg slot s = db \<and> db \<notin> event_regs s \<and> ini < 15 \<and> outi < 15 \<and> ini \<noteq> outi \<and>
     consumer_at (bt_posted (\<alpha> (x_hw s))) (x_event_ring s) \<and> bt_rung (\<alpha> (x_hw s)) = None \<and>
     (\<exists>p. ring_at slot ini p (bt_taken (\<alpha> (x_hw s)) ini) s) \<and> (\<exists>p. ring_at slot outi p (bt_taken (\<alpha> (x_hw s)) outi) s)"

lemma bulk_transfer_ok:
  assumes disk: "bulk_disk hc \<alpha> db slot ini outi" and link: "linked \<alpha> db slot ini outi s" and ep: "ep = ini \<or> ep = outi"
    and prep: "(prepare = set_handler slot (Some FetchAndCopy)) \<or> (prepare = sret () \<and> dv_interrupt_trb_handler (x_slots s slot) = Some FetchAndCopy)"
    and step: "bot_step ini outi ep (trb_parameter trb) (unat (get_field 0 17 (trb_status trb))) (x_mem s) (bt_stage (\<alpha> (x_hw s))) (bt_sectors (\<alpha> (x_hw s))) =
       Some (m, stage, sectors)"
  shows "\<exists>s'. bulk_transfer hc slot ep trb prepare s = Inr ((), s') \<and> linked \<alpha> db slot ini outi s' \<and> x_mem s' = m \<and> x_slab s' = x_slab s \<and>
     bt_stage (\<alpha> (x_hw s')) = stage \<and> bt_sectors (\<alpha> (x_hw s')) = sectors \<and> dv_interrupt_trb_handler (x_slots s' slot) = Some FetchAndCopy"
proof -
  let ?b = "\<alpha> (x_hw s)" and ?k = "bt_taken (\<alpha> (x_hw s)) ep" and ?c = "bt_posted (\<alpha> (x_hw s))"
  have L: "mmio_ok s" "doorbell_reg slot s = db" "db \<notin> event_regs s" "ep < 15" "consumer_at ?c (x_event_ring s)"
    using link ep by (auto simp: linked_def)
  obtain p where at: "ring_at slot ep p ?k s" using link ep by (auto simp: linked_def)
  obtain r where r: "enqueue_endpoint slot ep trb s = Inr ((), set_slot slot ((x_slots s slot)\<lparr>dv_endpoint_rings := (dv_endpoint_rings (x_slots s slot))[ep := r]\<rparr>) s)"
    "producer_at p (Suc ?k) r" "rg_trbs r ! (?k mod 255) = set_cycle_bit (lap_bit 255 ?k) trb"
    using enqueue_endpoint_ok [OF at] by blast
  define dev where "dev = (x_slots s slot)\<lparr>dv_endpoint_rings := (dv_endpoint_rings (x_slots s slot))[ep := r],
      dv_interrupt_handler_data := FetchData \<lparr>fc_result = zero_trb, fc_done = False\<rparr>, dv_interrupt_trb_handler := Some FetchAndCopy\<rparr>"
  define s1 where "s1 = (set_slot slot dev s)\<lparr>x_hw := hc_write hc db (ucast (of_nat ep :: u8) + 1) (x_hw s)\<rparr>"
  have idx: "(of_nat ep :: u8) < 31" "unat (ucast (of_nat ep :: u8) + 1 :: u32) - 1 = ep"
    using L(4) by (simp_all add: word_less_nat_alt unat_of_nat take_bit_nat_eq_self unat_word_ariths unsigned_ucast_eq)
  have w: "\<alpha> (x_hw s1) = ?b\<lparr>bt_rung := Some ep\<rparr>" using disk idx(2) by (simp add: bulk_disk_def bot_write_def s1_def)
  have ring: "dv_endpoint_rings (x_slots s1 slot) ! ep = r" using at by (simp add: s1_def dev_def ring_at_def)
  have run: "bot_run slot ini outi s1 (\<alpha> (x_hw s1)) = Some (m, \<lparr>bt_stage = stage, bt_sectors = sectors, bt_rung = None,
      bt_taken = (bt_taken ?b)(ep := Suc ?k), bt_posted = Suc ?c\<rparr>)"
    using step ring r(3) w by (simp add: bot_run_def get_field_set_cycle) (simp add: s1_def)
  have "bt_posted (\<alpha> (x_hw s1)) = ?c" using w by simp
  with disk [unfolded bulk_disk_def, THEN conjunct2, THEN conjunct2, rule_format, OF run]
  obtain d e where d: "hc_run hc s1 = Some d" "good_event slot e"
      "dm_event_trbs d = (rg_trbs (x_event_ring s1))[?c mod 256 := set_cycle_bit (lap_bit 256 ?c) e]" "dm_mem d = m"
      "\<alpha> (dm_hw d) = \<lparr>bt_stage = stage, bt_sectors = sectors, bt_rung = None, bt_taken = (bt_taken ?b)(ep := Suc ?k), bt_posted = Suc ?c\<rparr>"
    by auto
  let ?t = "set_cycle_bit (lap_bit 256 ?c) e"
  have t: "trb_type ?t = TRB_TYPE_TRANSFER" "completion_code ?t = 1" "event_transfer_length ?t = 0" "slot_id ?t = slot"
    using d(2) good_event_set_cycle [of slot "lap_bit 256 ?c" e] unfolding good_event_def by auto
  have regs: "event_regs s1 = event_regs s" by (simp add: event_regs_def s1_def)
  have q: "quiet hc \<alpha> s1" using disk L(3) unfolding quiet_def bulk_disk_def bot_write_def regs by auto
  have "waiting slot s1" "mmio_ok s1" "consumer_at ?c (x_event_ring s1)" using L(1,5) by (simp_all add: waiting_def s1_def dev_def)
  from wait_fetch [OF this(2,3,1) d(1,3), of \<alpha>] t q obtain ring h where wait: "wait_done hc slot s1 = Inr (?t,
      set_slot slot ((x_slots (dma_seen d s1) slot)\<lparr>dv_interrupt_handler_data := FetchData \<lparr>fc_result = ?t, fc_done = True\<rparr>\<rparr>)
        ((dma_seen d s1)\<lparr>x_event_ring := ring, x_hw := h\<rparr>))" "consumer_at (Suc ?c) ring" "\<alpha> h = \<alpha> (dm_hw d)" by auto
  define s' where "s' = set_slot slot ((x_slots (dma_seen d s1) slot)\<lparr>dv_interrupt_handler_data := FetchData \<lparr>fc_result = ?t, fc_done = True\<rparr>\<rparr>)
        ((dma_seen d s1)\<lparr>x_event_ring := ring, x_hw := h\<rparr>)"
  have bell: "ring_doorbell hc slot (of_nat ep) (set_slot slot dev s) = Inr ((), s1)"
    using ring_doorbell_ok [of "set_slot slot dev s" "of_nat ep" hc slot] L(1,2) idx(1) by (simp add: s1_def)
  have dev': "set_slot slot ((x_slots s slot)\<lparr>dv_endpoint_rings := (dv_endpoint_rings (x_slots s slot))[ep := r],
      dv_interrupt_handler_data := FetchData \<lparr>fc_result = zero_trb, fc_done = False\<rparr>\<rparr>) s = set_slot slot dev s"
    if "dv_interrupt_trb_handler (x_slots s slot) = Some FetchAndCopy" using that by (cases "x_slots s slot") (simp add: dev_def)
  have sofar: "sbind (enqueue_endpoint slot ep trb) (\<lambda>_. sbind (set_handler_data slot (FetchData \<lparr>fc_result = zero_trb, fc_done = False\<rparr>)) (\<lambda>_.
      sbind prepare K)) s = K () (set_slot slot dev s)" for K :: "unit \<Rightarrow> 'a usb \<Rightarrow> (unit \<times> 'a usb) result"
    using r(1) prep dev' by (auto simp: sbind_def set_handler_data_def set_handler_def set_slot_def dev_def)
  have "bulk_transfer hc slot ep trb prepare s = Inr ((), s')"
    unfolding bulk_transfer_def sofar using bell wait(1) t by (simp add: sbind_def sassert_def s'_def)
  moreover have slots: "x_slots s' slot = dev\<lparr>dv_interrupt_handler_data := FetchData \<lparr>fc_result = ?t, fc_done = True\<rparr>,
      dv_device_context := map_option (\<lambda>_. dm_contexts d slot) (dv_device_context (x_slots s slot))\<rparr>"
    by (simp add: s'_def s1_def dma_seen_def dev_def)
  moreover have "linked \<alpha> db slot ini outi s'"
  proof -
    have hw: "\<alpha> (x_hw s') = \<lparr>bt_stage = stage, bt_sectors = sectors, bt_rung = None, bt_taken = (bt_taken ?b)(ep := Suc ?k), bt_posted = Suc ?c\<rparr>"
      using wait(3) d(5) by (simp add: s'_def)
    have "ring_at slot ep p (Suc ?k) s'" using at r(2) slots by (simp add: ring_at_def dev_def)
    moreover have "ring_at slot i q k s'" if "ring_at slot i q k s" "i \<noteq> ep" for i q k using that slots by (simp add: ring_at_def dev_def)
    moreover have "mmio_ok s'" "doorbell_reg slot s' = db" "event_regs s' = event_regs s" "x_event_ring s' = ring"
      using L(1,2) regs by (simp_all add: s'_def s1_def event_regs_def)
    ultimately show ?thesis using link ep hw wait(2) unfolding linked_def by auto
  qed
  ultimately show ?thesis using d(4,5) wait(3) by (auto simp: s'_def dma_seen_def s1_def dev_def)
qed

section \<open>One sector\<close>

lemma le32_of_bytes: "le32 (bytes32 w @ xs) = w"
proof -
  have "w = ucast (ucast w :: u8) OR push_bit 8 (ucast (ucast (drop_bit 8 w) :: u8)) OR push_bit 16 (ucast (ucast (drop_bit 16 w) :: u8)) OR
      push_bit 24 (ucast (ucast (drop_bit 24 w) :: u8))" (is "_ = ?v")
  proof (rule bit_word_eqI)
    fix n assume "n < LENGTH(32)"
    then consider "n < 8" | "8 \<le> n" "n < 16" | "16 \<le> n" "n < 24" | "24 \<le> n" "n < 32" by fastforce
    then show "bit w n = bit ?v n" by cases (auto simp: bit_simps)
  qed
  then show ?thesis by (simp add: le32_def bytes32_def)
qed

lemma be32_cdb10: "be32 (drop 2 (cdb10 operation x)) = ucast x"
proof -
  have "(ucast x :: u32) = push_bit 24 (ucast (ucast (drop_bit 24 x) :: u8)) OR push_bit 16 (ucast (ucast (drop_bit 16 x) :: u8)) OR
      push_bit 8 (ucast (ucast (drop_bit 8 x) :: u8)) OR ucast (ucast x :: u8)" (is "_ = ?v")
  proof (rule bit_word_eqI)
    fix n assume "n < LENGTH(32)"
    then consider "n < 8" | "8 \<le> n" "n < 16" | "16 \<le> n" "n < 24" | "24 \<le> n" "n < 32" by fastforce
    then show "bit (ucast x :: u32) n = bit ?v n" by cases (auto simp: bit_simps)
  qed
  then show ?thesis by (simp add: be32_def cdb10_def)
qed

lemma length_bytes32 [simp]: "length (bytes32 w) = 4"
  by (simp add: bytes32_def)

lemma sector_cbw_bytes:
  fixes n :: nat and is_read :: bool and tag :: u32
  assumes "n < 2 ^ 32"
  defines "c \<equiv> cbw_bytes ((sector_cbw is_read (of_nat n))\<lparr>cb_tag := tag\<rparr>)"
  shows "length c = 31" "asks_sector is_read c" "\<not> asks_sector (\<not> is_read) c" "le32 (drop 4 c) = tag" "unat (be32 (drop 17 c)) = n"
proof -
  show "length c = 31" "asks_sector is_read c" "\<not> asks_sector (\<not> is_read) c" "le32 (drop 4 c) = tag"
    by (simp_all add: c_def cbw_bytes_def sector_cbw_def cdb10_def asks_sector_def le32_of_bytes nth_append)
  have "be32 (drop 17 c) = ucast (of_nat n :: u64)"
    using be32_cdb10 by (simp add: c_def cbw_bytes_def sector_cbw_def)
  then show "unat (be32 (drop 17 c)) = n"
    using assms(1) by (simp add: unsigned_ucast_eq unat_of_nat take_bit_nat_eq_self)
qed

lemma csw_bytes_fields: "length (csw_bytes tag) = 13" "le32 (csw_bytes tag) = 0x53425355" "le32 (drop 4 (csw_bytes tag)) = tag"
    "le32 (drop 8 (csw_bytes tag)) = 0" "csw_bytes tag ! 12 = 0"
  by (simp_all add: csw_bytes_def le32_of_bytes nth_append)

lemma linked_upd [simp]: "linked \<alpha> db slot ini outi (s\<lparr>x_slab := sl\<rparr>) = linked \<alpha> db slot ini outi s"
    "linked \<alpha> db slot ini outi (s\<lparr>x_mem := m\<rparr>) = linked \<alpha> db slot ini outi s"
    "linked \<alpha> db slot ini outi (s\<lparr>x_next_free_tag := tag\<rparr>) = linked \<alpha> db slot ini outi s"
    "linked \<alpha> db slot ini outi (set_slot slot ((x_slots s slot)\<lparr>dv_interrupt_trb_handler := h, dv_interrupt_handler_data := hd'\<rparr>) s) = linked \<alpha> db slot ini outi s"
  by (simp_all add: linked_def ring_at_def event_regs_def doorbell_reg_def run_reg_def op_reg_def)

text \<open>Three pages are taken from a well-formed allocator with three free pages, one of them as a run of one page, and given back.\<close>

lemma three_pages:
  assumes wf: "slab_wf sl" and room: "3 \<le> card (free_indices sl)"
  obtains a b c sl1 sl2 sl3 sl4 sl5 where "malloc4k_phys sl = Inr (a, sl1)" "malloc_contiguous_phys 1 sl1 = Inr (b, sl2)" "malloc4k_phys sl2 = Inr (c, sl3)"
    "free4k_phys a sl3 = Inr sl4" "free_contiguous_phys b 1 sl4 = Inr sl5" "free4k_phys c sl5 = Inr sl"
    "apart a b" "apart b a" "apart a c" "apart c a" "apart b c" "apart c b"
proof -
  have fin: "finite (free_indices sl)" by (simp add: free_indices_def)
  have "free_indices sl \<noteq> {}" using room by auto
  then obtain i where i: "i \<in> free_indices sl" "malloc4k_phys sl = Inr (page_addr sl i, mark sl i True)" using alloc_one(1) [OF wf] by blast
  have il: "i < length (slab_flags sl)" "\<not> slab_flags sl ! i" using i(1) by (auto simp: free_indices_def)
  let ?s1 = "mark sl i True"
  have f1: "free_indices ?s1 = free_indices sl - {i}" by (rule free_indices_mark [OF il(1)])
  then have c1: "2 \<le> card (free_indices ?s1)" using room i(1) fin by simp
  then have "free_indices ?s1 \<noteq> {}" by auto
  then obtain j where j: "j \<in> free_indices ?s1" "malloc_contiguous_phys 1 ?s1 = Inr (page_addr sl j, mark ?s1 j True)"
    using alloc_one(2) [of ?s1] wf by auto
  have jl: "j < length (slab_flags sl)" "\<not> slab_flags sl ! j" "j \<noteq> i" using j(1) f1 by (auto simp: free_indices_def)
  let ?s2 = "mark ?s1 j True"
  have f2: "free_indices ?s2 = free_indices sl - {i} - {j}" using free_indices_mark [of j ?s1] jl(1) f1 by simp
  have "card (free_indices ?s2) = card (free_indices ?s1) - 1" unfolding f2 using card_Diff_singleton [OF j(1)] f1 by simp
  then have "free_indices ?s2 \<noteq> {}" using c1 by auto
  then obtain k where k: "k \<in> free_indices ?s2" "malloc4k_phys ?s2 = Inr (page_addr sl k, mark ?s2 k True)"
    using alloc_one(1) [of ?s2] wf by auto
  have kl: "k < length (slab_flags sl)" "\<not> slab_flags sl ! k" "k \<noteq> i" "k \<noteq> j" using k(1) f2 by (auto simp: free_indices_def)
  let ?s3 = "mark ?s2 k True"
  have restored: "mark (mark (mark ?s3 i False) j False) k False = sl"
  proof -
    have "(slab_flags sl)[i := True, j := True, k := True, i := False, j := False, k := False] = slab_flags sl"
      using il jl kl by (intro nth_equalityI) (auto simp: nth_list_update split: if_splits)
    then show ?thesis by (cases sl) (simp add: mark_def)
  qed
  show thesis
  proof (rule that [OF i(2) j(2) k(2)])
    show "free4k_phys (page_addr sl i) ?s3 = Inr (mark ?s3 i False)" using free_one(1) [of ?s3 i] wf il by simp
    show "free_contiguous_phys (page_addr sl j) 1 (mark ?s3 i False) = Inr (mark (mark ?s3 i False) j False)"
      using free_one(2) [of "mark ?s3 i False" j] wf jl by simp
    show "free4k_phys (page_addr sl k) (mark (mark ?s3 i False) j False) = Inr sl"
      using free_one(1) [of "mark (mark ?s3 i False) j False" k] wf kl restored by simp
  qed (use page_apart [OF wf] il(1) jl kl in auto)
qed

lemma normal_trb_parameter [simp]: "trb_parameter (normal_trb p len b) = p"
  by (simp add: normal_trb_def)

lemma send_bbb_sector:
  assumes disk: "bulk_disk hc \<alpha> db slot ini outi" and link: "linked \<alpha> db slot ini outi s" and ready: "bt_stage (\<alpha> (x_hw s)) = Ready"
    and wf: "slab_wf (x_slab s)" and room: "3 \<le> card (free_indices (x_slab s))" and n: "n < 2 ^ 32"
    and sec: "length (bt_sectors (\<alpha> (x_hw s)) n) = 512" and inp: "\<not> is_read \<Longrightarrow> length input = 512"
  shows "\<exists>s'. send_bbb hc slot ini outi (sector_cbw is_read (of_nat n)) input 512 is_read s =
      Inr ((512, if is_read then bt_sectors (\<alpha> (x_hw s)) n else []), s') \<and> linked \<alpha> db slot ini outi s' \<and> bt_stage (\<alpha> (x_hw s')) = Ready \<and>
    x_slab s' = x_slab s \<and> bt_sectors (\<alpha> (x_hw s')) = (if is_read then bt_sectors (\<alpha> (x_hw s)) else (bt_sectors (\<alpha> (x_hw s)))(n := input))"
proof -
  let ?sectors = "bt_sectors (\<alpha> (x_hw s))"
  obtain a b c sl1 sl2 sl3 sl4 sl5 where al: "malloc4k_phys (x_slab s) = Inr (a, sl1)" "malloc_contiguous_phys 1 sl1 = Inr (b, sl2)"
      "malloc4k_phys sl2 = Inr (c, sl3)"
    and fr: "free4k_phys a sl3 = Inr sl4" "free_contiguous_phys b 1 sl4 = Inr sl5" "free4k_phys c sl5 = Inr (x_slab s)"
    and ap: "apart a b" "apart b a" "apart a c" "apart c a" "apart b c" "apart c b"
    by (rule three_pages [OF wf room])
  define tag where "tag = x_next_free_tag s"
  define w where "w = cbw_bytes ((sector_cbw is_read (of_nat n))\<lparr>cb_tag := tag\<rparr>)"
  note w = sector_cbw_bytes [OF n, where is_read = is_read and tag = tag, folded w_def]
  define m1 where "m1 = (if is_read then store_bytes a w (x_mem s) else store_bytes b input (store_bytes a w (x_mem s)))"
  define s1 where "s1 = s\<lparr>x_next_free_tag := tag + 1, x_mem := m1, x_slab := sl3\<rparr>"
  have m1: "mem_bytes m1 a 31 = w" "\<not> is_read \<Longrightarrow> mem_bytes m1 b 512 = input"
    using w(1) inp ap(1) by (simp_all add: m1_def mem_bytes_apart)
  have L1: "linked \<alpha> db slot ini outi s1" "x_hw s1 = x_hw s" "x_mem s1 = m1" using link by (simp_all add: s1_def)
  \<comment> \<open>the command\<close>
  have "bot_step ini outi outi a 31 m1 Ready ?sectors = Some (m1, if is_read then ReadPhase tag n else WritePhase tag n, ?sectors)"
    using w m1(1) by (cases is_read) (simp_all add: bot_step_def)
  then obtain s2 where s2: "bulk_transfer hc slot outi (normal_trb a 31 False) (set_handler slot (Some FetchAndCopy)) s1 = Inr ((), s2)"
      "linked \<alpha> db slot ini outi s2" "x_mem s2 = m1" "x_slab s2 = sl3" "bt_stage (\<alpha> (x_hw s2)) = (if is_read then ReadPhase tag n else WritePhase tag n)"
      "bt_sectors (\<alpha> (x_hw s2)) = ?sectors" "dv_interrupt_trb_handler (x_slots s2 slot) = Some FetchAndCopy"
    using bulk_transfer_ok [OF disk L1(1), of outi _ "normal_trb a 31 False"] normal_trb_length [of 31 a False] ready L1(2,3)
    by (auto simp: s1_def)
  \<comment> \<open>the data\<close>
  define m2 where "m2 = (if is_read then store_bytes b (?sectors n) m1 else m1)"
  have ep: "(if is_read then ini else outi) = ini \<or> (if is_read then ini else outi) = outi" by simp
  define sectors' where "sectors' = (if is_read then ?sectors else ?sectors(n := input))"
  have "bot_step ini outi (if is_read then ini else outi) b 512 m1 (bt_stage (\<alpha> (x_hw s2))) ?sectors = Some (m2, StatusPhase tag, sectors')"
    using s2(5) m1(2) by (simp add: bot_step_def m2_def sectors'_def)
  then obtain s3 where s3: "bulk_transfer hc slot (if is_read then ini else outi) (normal_trb b 512 True) (sret ()) s2 = Inr ((), s3)"
      "linked \<alpha> db slot ini outi s3" "x_mem s3 = m2" "x_slab s3 = sl3" "bt_stage (\<alpha> (x_hw s3)) = StatusPhase tag"
      "bt_sectors (\<alpha> (x_hw s3)) = sectors'" "dv_interrupt_trb_handler (x_slots s3 slot) = Some FetchAndCopy"
    using bulk_transfer_ok [OF disk s2(2) ep, of "sret ()" "normal_trb b 512 True"] normal_trb_length [of 512 b True] s2(3,4,6,7)
    by auto
  \<comment> \<open>the status\<close>
  define m3 where "m3 = store_bytes c (csw_bytes tag) m2"
  have "bot_step ini outi ini c 13 m2 (StatusPhase tag) sectors' = Some (m3, Ready, sectors')" by (simp add: bot_step_def m3_def)
  then obtain s4 where s4: "bulk_transfer hc slot ini (normal_trb c 13 False) (sret ()) s3 = Inr ((), s4)"
      "linked \<alpha> db slot ini outi s4" "x_mem s4 = m3" "x_slab s4 = sl3" "bt_stage (\<alpha> (x_hw s4)) = Ready" "bt_sectors (\<alpha> (x_hw s4)) = sectors'"
    using bulk_transfer_ok [OF disk s3(2), of ini "sret ()" "normal_trb c 13 False"] normal_trb_length [of 13 c False] s3(3-7) by auto
  have m3: "mem_bytes m3 c 13 = csw_bytes tag" "mem_bytes m3 a 31 = w" "is_read \<Longrightarrow> mem_bytes m3 b 512 = ?sectors n"
    using ap m1(1) sec by (simp_all add: m3_def m2_def csw_bytes_fields(1) mem_bytes_apart)
  define s' where "s' = set_slot slot ((x_slots s4 slot)\<lparr>dv_interrupt_trb_handler := None, dv_interrupt_handler_data := DeadFrame\<rparr>) (s4\<lparr>x_slab := x_slab s\<rparr>)"
  have pages: "round_up_pages (ucast (512 :: u32)) = 1" by (simp add: round_up_pages_def)
  have "send_bbb hc slot ini outi (sector_cbw is_read (of_nat n)) input 512 is_read s = Inr ((512, if is_read then ?sectors n else []), s')"
    using al fr s2(1) s3(1) s4(1,3,4) m3 pages w(4) csw_bytes_fields
    by (cases is_read) (simp_all add: send_bbb_def Let_def sbind_def sassert_def alloc_page_def alloc_contiguous_def take_tag_def copy_in_def copy_out_def
      free_page_def free_contiguous_def set_handler_def set_handler_data_def s1_def m1_def w_def tag_def s'_def set_slot_def)
  moreover have "linked \<alpha> db slot ini outi s'"
    using s4(2) linked_upd(4) [where s = "s4\<lparr>x_slab := x_slab s\<rparr>"] by (simp add: s'_def)
  ultimately show ?thesis using s4(5,6) by (auto simp: s'_def sectors'_def)
qed

section \<open>Properties\<close>

definition disk_ready :: "('h \<Rightarrow> bot) \<Rightarrow> u64 \<Rightarrow> MassStorageDeviceXHCI \<Rightarrow> 'h usb \<Rightarrow> bool" where
  "disk_ready \<alpha> db msd s \<longleftrightarrow> linked \<alpha> db (md_slot_number msd) (md_in_index msd) (md_out_index msd) s \<and> bt_stage (\<alpha> (x_hw s)) = Ready \<and>
     slab_wf (x_slab s) \<and> 3 \<le> card (free_indices (x_slab s)) \<and> (\<forall>n \<le> unat (md_last_lba msd). length (bt_sectors (\<alpha> (x_hw s)) n) = 512)"

lemma sector_number_ok:
  assumes "n \<le> unat (lba :: u32)"
  shows "n < 2 ^ 32" and "(of_nat n :: u64) \<le> ucast lba" and "(of_nat n :: u64) \<le> 0xFFFFFFFF"
proof -
  show n: "n < 2 ^ 32" using assms unsigned_less [where 'a = nat, of lba] by simp
  then show "(of_nat n :: u64) \<le> ucast lba" "(of_nat n :: u64) \<le> 0xFFFFFFFF"
    using assms by (simp_all add: word_le_nat_alt unat_ucast_up unat_of_nat take_bit_nat_eq_self)
qed

text \<open>C6. A USB drive is a disk of sectors for the block layer: if the controller and the drive follow the bulk-only protocol and
  obey READ(10) and WRITE(10), then \<open>block_read\<close> of any sector up to the last returns what the drive holds there and changes
  nothing, \<open>block_write\<close> changes exactly that sector, both return, give back every page they allocated and leave the rings,
  the event ring and the drive ready for the next call. This is the contract \<open>sector_driver\<close> on which the block devices and
  the file system rest.\<close>

theorem usb_disk_is_sector_driver:
  assumes "bulk_disk hc \<alpha> db (md_slot_number msd) (md_in_index msd) (md_out_index msd)" and "md_size_class msd = 10"
  shows "sector_driver (block_read hc msd) (block_write hc msd) (disk_ready \<alpha> db msd) (\<lambda>s. bt_sectors (\<alpha> (x_hw s))) (Suc (unat (md_last_lba msd)))"
  unfolding sector_driver_def
proof (intro conjI allI impI; elim conjE)
  fix s n assume ok: "disk_ready \<alpha> db msd s" and "n < Suc (unat (md_last_lba msd))"
  then have n: "n \<le> unat (md_last_lba msd)" by simp
  note lba = sector_number_ok [OF n]
  show len: "length (bt_sectors (\<alpha> (x_hw s)) n) = 512" using ok n by (simp add: disk_ready_def)
  obtain s' where "send_bbb hc (md_slot_number msd) (md_in_index msd) (md_out_index msd) (sector_cbw True (of_nat n)) [] 512 True s =
        Inr ((512, bt_sectors (\<alpha> (x_hw s)) n), s')"
      "disk_ready \<alpha> db msd s'" "bt_sectors (\<alpha> (x_hw s')) = bt_sectors (\<alpha> (x_hw s))"
    using send_bbb_sector [OF assms(1), of s n True "[]"] ok len lba(1) by (auto simp: disk_ready_def)
  then show "\<exists>s'. block_read hc msd (of_nat n) s = Inr (bt_sectors (\<alpha> (x_hw s)) n, s') \<and> disk_ready \<alpha> db msd s' \<and> bt_sectors (\<alpha> (x_hw s')) = bt_sectors (\<alpha> (x_hw s))"
    using assms(2) lba(2,3) by (auto simp: block_read_def sassert_def sbind_def)
next
  fix s n and xs :: "u8 list" assume ok: "disk_ready \<alpha> db msd s" and "n < Suc (unat (md_last_lba msd))" and xs: "length xs = 512"
  then have n: "n \<le> unat (md_last_lba msd)" by simp
  note lba = sector_number_ok [OF n]
  have len: "length (bt_sectors (\<alpha> (x_hw s)) n) = 512" using ok n by (simp add: disk_ready_def)
  obtain s' where "send_bbb hc (md_slot_number msd) (md_in_index msd) (md_out_index msd) (sector_cbw False (of_nat n)) xs 512 False s = Inr ((512, []), s')"
      "disk_ready \<alpha> db msd s'" "bt_sectors (\<alpha> (x_hw s')) = (bt_sectors (\<alpha> (x_hw s)))(n := xs)"
    using send_bbb_sector [OF assms(1), of s n False xs] ok len lba(1) xs by (auto simp: disk_ready_def)
  then show "\<exists>s'. block_write hc msd (of_nat n) xs s = Inr s' \<and> disk_ready \<alpha> db msd s' \<and> bt_sectors (\<alpha> (x_hw s')) = (bt_sectors (\<alpha> (x_hw s)))(n := xs)"
    using assms(2) lba(2,3) by (auto simp: block_write_def sassert_def sbind_def)
qed

definition bot_controller :: "u64 \<Rightarrow> u8 \<Rightarrow> nat \<Rightarrow> nat \<Rightarrow> bot controller" where
  "bot_controller db slot ini outi = \<lparr>hc_read = (\<lambda>_ b. (0, b)), hc_write = bot_write db, hc_config_write = (\<lambda>_ _ b. b),
     hc_run = (\<lambda>s. case bot_run slot ini outi s (x_hw s) of None \<Rightarrow> None
       | Some (m, b) \<Rightarrow> Some \<lparr>dm_event_trbs = (rg_trbs (x_event_ring s))[bt_posted (x_hw s) mod 256 := set_cycle_bit (lap_bit 256 (bt_posted (x_hw s)))
             \<lparr>trb_parameter = 0, trb_status = field 24 8 1 OR field 42 6 32 OR field 56 8 (ucast slot)\<rparr>],
           dm_mem = m, dm_contexts = (\<lambda>_. zero_device_context), dm_hw = b\<rparr>)\<rparr>"

definition example_msd :: MassStorageDeviceXHCI where
  "example_msd = \<lparr>md_size_class = 10, md_slot_number = 3, md_in_index = 2, md_out_index = 1, md_last_lba = 99\<rparr>"

definition example_disk :: "bot usb" where
  "example_disk = (example_usb \<lparr>bt_stage = Ready, bt_sectors = (\<lambda>n. replicate 512 (of_nat n)), bt_rung = None, bt_taken = (\<lambda>_. 0), bt_posted = 0\<rparr>)
     \<lparr>x_slots := (\<lambda>_. zero_device\<lparr>dv_endpoint_rings := (replicate 15 zero_ring)[1 := ring_page 0x6000, 2 := ring_page 0x5000]\<rparr>),
      x_slab := \<lparr>physical_memory_base = 0x100000, physical_memory_pages = 4, slab_flags = [False, True, False, False]\<rparr>\<rparr>"

lemma bot_controller_is_disk: "bulk_disk (bot_controller db 3 ini outi) (\<lambda>b. b) db 3 ini outi"
proof -
  have "good_event 3 \<lparr>trb_parameter = 0, trb_status = field 24 8 1 OR field 42 6 32 OR field 56 8 (ucast (3 :: u8))\<rparr>"
    by (simp add: good_event_def trb_type_def completion_code_def event_transfer_length_def slot_id_def field_def get_field_def)
  then show ?thesis by (auto simp: bulk_disk_def bot_controller_def)
qed

lemma example_disk_ready: "disk_ready (\<lambda>b. b) 0x200C example_msd example_disk"
proof -
  have "free_indices (x_slab example_disk) = {0, 2, 3}"
    by (auto simp: free_indices_def example_disk_def less_Suc_eq numeral_eq_Suc)
  moreover have "ring_at 3 1 0x6000 0 example_disk" "ring_at 3 2 0x5000 0 example_disk" "consumer_at 0 (x_event_ring example_disk)"
    using ring_page_fresh(1) [of "0x6000"] ring_page_fresh(1) [of "0x5000"] ring_page_fresh(2) [of "0x4000"]
    by (simp_all add: ring_at_def example_disk_def example_usb_def zero_device_def)
  ultimately show ?thesis
    by (auto simp: disk_ready_def linked_def example_msd_def mmio_ok_def slab_wf_def doorbell_reg_def event_regs_def run_reg_def op_reg_def)
       (auto simp: example_disk_def example_usb_def)
qed

theorem usb_disk_is_sector_driver_witness:
  "\<exists>s'. block_read (bot_controller 0x200C 3 2 1) example_msd 7 example_disk = Inr (replicate 512 7, s') \<and>
     (\<exists>s''. block_write (bot_controller 0x200C 3 2 1) example_msd 8 (replicate 512 1) s' = Inr s'' \<and>
        bt_sectors (x_hw s'') 8 = replicate 512 1 \<and> bt_sectors (x_hw s'') 9 = replicate 512 9)"
proof -
  let ?hc = "bot_controller 0x200C 3 2 1"
  have drv: "sector_driver (block_read ?hc example_msd) (block_write ?hc example_msd) (disk_ready (\<lambda>b. b) 0x200C example_msd) (\<lambda>s. bt_sectors (x_hw s)) 100"
    using usb_disk_is_sector_driver [of ?hc "\<lambda>b. b" "0x200C" example_msd] bot_controller_is_disk by (simp add: example_msd_def)
  have init: "bt_sectors (x_hw example_disk) = (\<lambda>n. replicate 512 (of_nat n))" by (simp add: example_disk_def example_usb_def)
  obtain s' where s': "block_read ?hc example_msd 7 example_disk = Inr (replicate 512 7, s')" "disk_ready (\<lambda>b. b) 0x200C example_msd s'"
      "bt_sectors (x_hw s') = (\<lambda>n. replicate 512 (of_nat n))"
    using sector_driverD(2) [OF drv example_disk_ready, of 7] init by auto
  then show ?thesis using sector_driverD(3) [OF drv s'(2), of 8 "replicate 512 1"] by auto
qed

end
