(* ===== verification/Xhci_Init.thy ===== *)
theory Xhci_Init
  imports Usb_Storage
begin

text \<open>
  Bringing up the USB host controller and the devices on its ports: \<open>initialise_xhci\<close> and \<open>set_up_port\<close>
  (\<open>stuos/src/xhci_driver.c\<close>), \<open>initialise_msd\<close> (\<open>xhci_msd.c\<close>) and \<open>initialise_keyboard\<close> (\<open>xhci_keyboard.c\<close>).

  A drive is registered as a block device whose driver state is the USB state itself, so these operations
  act on \<open>'h usb devfs\<close>. A loop that polls a register until the hardware changes it is the partial function \<open>poll\<close>.
  Objects that the code takes from the kernel heap are values; the registration of the interrupt handler with
  the processor is outside this state.
\<close>

section \<open>Endpoints of a device\<close>

definition on_usb :: "('h usb \<Rightarrow> ('a \<times> 'h usb) result) \<Rightarrow> 'h usb devfs \<Rightarrow> ('a \<times> 'h usb devfs) result" where
  "on_usb f fs = rbind (f (ds_drivers fs)) (\<lambda>(x, u). Inr (x, fs\<lparr>ds_drivers := u\<rparr>))"

definition create_endpoint_ring :: "u8 \<Rightarrow> nat \<Rightarrow> 'h usb \<Rightarrow> (u64 \<times> 'h usb) result" where
  "create_endpoint_ring slot idx s =
     rbind (create_ring (x_slab s)) (\<lambda>(ring, sl).
     let dev = x_slots s slot in
     if idx \<ge> length (dv_endpoint_rings dev) then Inl WildAccess
     else Inr (rg_trbs_phys ring, set_slot slot (dev\<lparr>dv_endpoint_rings := (dv_endpoint_rings dev)[idx := ring]\<rparr>) (s\<lparr>x_slab := sl\<rparr>)))"

definition endpoint_for :: "u8 \<Rightarrow> u16 \<Rightarrow> u64 \<Rightarrow> EndpointContext" where
  "endpoint_for ep_type max_packet_size trbs_phys = zero_endpoint\<lparr>ec_ep_type := ep_type, ec_cerr := 3, ec_max_packet_size := max_packet_size,
     ec_tr_dequeue_pointer_lo := take_bit 28 (ucast (drop_bit 4 trbs_phys)), ec_tr_dequeue_pointer_hi := ucast (drop_bit 32 trbs_phys),
     ec_dcs := True, ec_average_trb_length := 8\<rparr>"

definition change_input :: "u8 \<Rightarrow> (InputContext \<Rightarrow> InputContext result) \<Rightarrow> 'h usb \<Rightarrow> (unit \<times> 'h usb) result" where
  "change_input slot f s =
     (case dv_input_context (x_slots s slot) of
        None \<Rightarrow> Inl WildAccess
      | Some ic \<Rightarrow> rbind (f ic) (\<lambda>ic'. Inr ((), set_slot slot ((x_slots s slot)\<lparr>dv_input_context := Some ic'\<rparr>) s)))"

definition set_endpoint :: "nat \<Rightarrow> EndpointContext \<Rightarrow> InputContext \<Rightarrow> InputContext" where
  "set_endpoint i ep ic = ic\<lparr>ic_device_context := (ic_device_context ic)\<lparr>dc_endpoint_context := (dc_endpoint_context (ic_device_context ic))[i := ep]\<rparr>\<rparr>"

definition count_entries :: "InputContext \<Rightarrow> InputContext result" where
  "count_entries ic = rbind (set_context_entries (ic_device_context ic)) (\<lambda>dc. Inr (ic\<lparr>ic_device_context := dc\<rparr>))"

definition device_context :: "u8 \<Rightarrow> 'h usb \<Rightarrow> (DeviceContext \<times> 'h usb) result" where
  "device_context slot s = (case dv_device_context (x_slots s slot) of None \<Rightarrow> Inl WildAccess | Some dc \<Rightarrow> Inr (dc, s))"

definition assert_running :: "u8 \<Rightarrow> nat \<Rightarrow> 'h usb \<Rightarrow> (unit \<times> 'h usb) result" where
  "assert_running slot i = sbind (device_context slot) (\<lambda>dc.
     sbind (sassert (ec_ep_state (dc_endpoint_context dc ! i) = 1)) (\<lambda>_. sassert (ec_dcs (dc_endpoint_context dc ! i))))"

definition set_configuration_rq :: "u8 \<Rightarrow> u8 \<Rightarrow> RequestTemplate" where
  "set_configuration_rq slot configuration_value = \<lparr>rq_slot_number = slot, rq_direction = False, rq_request_type = 0, rq_recipient = 0, rq_request = 9,
     rq_value = ucast configuration_value, rq_index = 0, rq_length = 0, rq_setup_transfer_type = 0\<rparr>"

definition class_rq :: "u8 \<Rightarrow> u8 \<Rightarrow> u8 \<Rightarrow> RequestTemplate" where
  "class_rq slot request interface_num = \<lparr>rq_slot_number = slot, rq_direction = False, rq_request_type = 1, rq_recipient = 1, rq_request = request,
     rq_value = 0, rq_index = ucast interface_num, rq_length = 0, rq_setup_transfer_type = 0\<rparr>"

section \<open>Keyboards and drives\<close>

definition initialise_keyboard :: "'h controller \<Rightarrow> u8 \<Rightarrow> ExternConfigDesc \<Rightarrow> u8 \<Rightarrow> 'h usb \<Rightarrow> (unit \<times> 'h usb) result" where
  "initialise_keyboard hc slot cfg interface_num =
     (let if_descriptor = cf_interfaces cfg interface_num; inp = if_endpoints if_descriptor ! 0 in
     sbind (make_request hc False (set_configuration_rq slot (cf_configuration_value cfg))) (\<lambda>_.
     sbind (make_request hc False (class_rq slot 0xA interface_num)) (\<lambda>_.
     sbind (make_request hc False (class_rq slot 0xB interface_num)) (\<lambda>_.
     sbind (sassert (if_num_endpoints if_descriptor = 1)) (\<lambda>_.
     sbind (slift (calculate_endpoint_index (ep_endpoint_num inp) True)) (\<lambda>index.
     let in_index = unat index in
     sbind (create_endpoint_ring slot in_index) (\<lambda>phys.
     sbind (change_input slot (\<lambda>ic. count_entries (set_endpoint in_index (endpoint_for 6 (ep_max_packet_size inp) phys)
              (ic\<lparr>ic_add_flags := 1 OR push_bit (in_index + 1) 1\<rparr>)))) (\<lambda>_.
     sbind (update_input_context hc slot False) (\<lambda>_.
     sbind (assert_running slot in_index) (\<lambda>_.
     sbind alloc_page (\<lambda>rep_phys.
     sbind (set_handler_data slot (KeyboardData \<lparr>pr_rep_phys = rep_phys, pr_in_index = in_index,
              pr_previous_report = \<lparr>ir_modifier_keys = 0, ir_reserved_0 = 0, ir_keycodes = replicate 6 0\<rparr>,
              pr_shift_currently_pressed = False, pr_capslock_on = False\<rparr>)) (\<lambda>_.
     sbind (set_handler slot (Some PacketRecv)) (\<lambda>_.
     sbind (enqueue_endpoint slot in_index (normal_trb rep_phys 8 False)) (\<lambda>_.
     ring_doorbell hc slot index))))))))))))))"

text \<open>The two checks \<open>assert(in.transfer_type = EpTransferBulk)\<close> are assignments of a value that is not zero, and always hold.\<close>

definition bulk_endpoints :: "ExternIfDesc \<Rightarrow> (ExternEpDesc \<times> ExternEpDesc) result" where
  "bulk_endpoints if_descriptor =
     hcf_unless (if_num_endpoints if_descriptor = 2) (hcf_unless (if_protocol if_descriptor = 0x50) (hcf_unless (if_class_code if_descriptor = 8)
     (hcf_unless (if_sub_class if_descriptor = 6)
     (let e0 = if_endpoints if_descriptor ! 0; e1 = if_endpoints if_descriptor ! 1; (inp, out) = (if ep_is_in e0 then (e0, e1) else (e1, e0)) in
      hcf_unless (ep_is_in inp) (hcf_unless (\<not> ep_is_in out) (hcf_unless (ep_interval inp = 0) (hcf_unless (ep_interval out = 0) (Inr (inp, out)))))))))"

definition configure_drive :: "'h controller \<Rightarrow> u8 \<Rightarrow> ExternEpDesc \<Rightarrow> ExternEpDesc \<Rightarrow> 'h usb \<Rightarrow> ((nat \<times> nat) \<times> 'h usb) result" where
  "configure_drive hc slot inp out =
     sbind (slift (calculate_endpoint_index (ep_endpoint_num inp) True)) (\<lambda>i. let in_index = unat i in
     sbind (create_endpoint_ring slot in_index) (\<lambda>in_phys.
     sbind (slift (calculate_endpoint_index (ep_endpoint_num out) False)) (\<lambda>j. let out_index = unat j in
     sbind (create_endpoint_ring slot out_index) (\<lambda>out_phys.
     sbind (change_input slot (\<lambda>ic. count_entries (set_endpoint out_index (endpoint_for 2 (ep_max_packet_size inp) out_phys)
              (set_endpoint in_index (endpoint_for 6 (ep_max_packet_size inp) in_phys)
              (ic\<lparr>ic_add_flags := 1 OR push_bit (in_index + 1) 1 OR push_bit (out_index + 1) 1\<rparr>))))) (\<lambda>_.
     sbind (update_input_context hc slot False) (\<lambda>_.
     sbind (assert_running slot in_index) (\<lambda>_.
     sbind (assert_running slot out_index) (\<lambda>_. sret (in_index, out_index)))))))))"

definition read_capacity_cbw :: CommandBlockWrapper where
  "read_capacity_cbw = \<lparr>cb_signature = 0x43425355, cb_tag = 0, cb_transfer_length = 8, cb_direction = True, cb_lun = 0, cb_command_len = 10,
     cb_command = 0x25 # replicate 15 0\<rparr>"

definition get_max_lun_rq :: "u8 \<Rightarrow> RequestTemplate" where
  "get_max_lun_rq slot = \<lparr>rq_slot_number = slot, rq_direction = True, rq_request_type = 1, rq_recipient = 1, rq_request = 0xFE,
     rq_value = 0, rq_index = 0, rq_length = 1, rq_setup_transfer_type = 3\<rparr>"

definition initialise_msd :: "'h controller \<Rightarrow> u8 \<Rightarrow> ExternConfigDesc \<Rightarrow> u8 \<Rightarrow> 'h usb devfs \<Rightarrow> (unit \<times> 'h usb devfs) result" where
  "initialise_msd hc slot cfg interface_num fs =
     rbind (on_usb (
       sbind (slift (bulk_endpoints (cf_interfaces cfg interface_num))) (\<lambda>(inp, out).
       sbind (configure_drive hc slot inp out) (\<lambda>(in_index, out_index).
       sbind (make_request hc False (set_configuration_rq slot (cf_configuration_value cfg))) (\<lambda>_.
       sbind (make_request hc True (get_max_lun_rq slot)) (\<lambda>lun.
       let max_lun = (if lun ! 0 = 0xFF then 0 else lun ! 0) in
       sbind (sassert (max_lun \<le> 15)) (\<lambda>_.
       sbind (sassert (max_lun + 1 = 1)) (\<lambda>_.
       sbind (send_bbb hc slot in_index out_index read_capacity_cbw [] 8 True) (\<lambda>(n, capacity).
       sbind (sassert (n = 8)) (\<lambda>_.
       sbind (sassert (le32 capacity \<noteq> 0xFFFFFFFF)) (\<lambda>_.
       sbind (sassert (flip_endianness (le32 (drop 4 capacity)) = 512)) (\<lambda>_.
       sbind (set_handler slot None) (\<lambda>_.
       sret \<lparr>md_size_class = 10, md_slot_number = slot, md_in_index = in_index, md_out_index = out_index,
             md_last_lba = flip_endianness (le32 capacity)\<rparr>)))))))))))) fs) (\<lambda>(msd, fs').
     rbind (fs_dev_add_block_device (block_read hc msd) (block_write hc msd) fs') (\<lambda>fs''. Inr ((), fs'')))"

section \<open>Ports\<close>

partial_function (option) poll :: "'h controller \<Rightarrow> u64 \<Rightarrow> (u32 \<Rightarrow> bool) \<Rightarrow> 'h usb \<Rightarrow> (u32 \<times> 'h usb) result option" where
  "poll hc offset P s =
     (case read_bar_32 hc offset s of
        Inl e \<Rightarrow> Some (Inl e)
      | Inr (v, s') \<Rightarrow> if P v then Some (Inr (v, s')) else poll hc offset P s')"

definition poll_until :: "'h controller \<Rightarrow> u64 \<Rightarrow> (u32 \<Rightarrow> bool) \<Rightarrow> 'h usb \<Rightarrow> (u32 \<times> 'h usb) result" where
  "poll_until hc offset P s = (case poll hc offset P s of None \<Rightarrow> Inl Diverged | Some r \<Rightarrow> r)"

definition PORTSC_OFFSET :: "u8 \<Rightarrow> u32" where
  "PORTSC_OFFSET port_index = 0x400 + 0x10 * ucast port_index"

definition PORTSC_speed :: "u32 \<Rightarrow> u8" where
  "PORTSC_speed portsc = ucast (take_bit 4 (drop_bit 10 portsc))"

definition read_op :: "'h controller \<Rightarrow> u32 \<Rightarrow> 'h usb \<Rightarrow> (u32 \<times> 'h usb) result" where
  "read_op hc offset s = read_bar_32 hc (op_reg offset s) s"

definition write_op :: "'h controller \<Rightarrow> u32 \<Rightarrow> u32 \<Rightarrow> 'h usb \<Rightarrow> (unit \<times> 'h usb) result" where
  "write_op hc v offset s = write_bar_32 hc v (op_reg offset s) s"

definition write_run :: "'h controller \<Rightarrow> u32 \<Rightarrow> u32 \<Rightarrow> 'h usb \<Rightarrow> (unit \<times> 'h usb) result" where
  "write_run hc v offset s = write_bar_32 hc v (run_reg offset s) s"

text \<open>Resetting a port whose device has just been connected; the result is the last value of its status register, \<open>None\<close> if
  the port is empty. The bits are CCS 0, PED 1, PR 4, PP 9, CSC 17, PEC 18, WRC 19, PRC 21 and WPR 31.\<close>

definition reset_port :: "'h controller \<Rightarrow> u8 \<Rightarrow> 'h usb \<Rightarrow> (u32 option \<times> 'h usb) result" where
  "reset_port hc port_idx =
     sbind (read_op hc (PORTSC_OFFSET port_idx)) (\<lambda>portsc.
     sbind (sassert (bit portsc 9)) (\<lambda>_.
     if \<not> (bit portsc 0 \<and> bit portsc 17) then sret None
     else sbind (\<lambda>s. if unat port_idx < length (x_port_is_usb3 s) then Inr (x_port_is_usb3 s ! unat port_idx, s) else Inl WildAccess) (\<lambda>is_usb3.
       let portsc1 = portsc OR push_bit 17 1 OR push_bit 18 1 OR push_bit 21 1 OR (if is_usb3 then push_bit 31 1 else push_bit 4 1) in
       sbind (write_op hc portsc1 (PORTSC_OFFSET port_idx)) (\<lambda>_.
       sbind (\<lambda>s. poll_until hc (op_reg (PORTSC_OFFSET port_idx) s) (\<lambda>v. if is_usb3 then bit v 19 else bit v 21) s) (\<lambda>portsc2.
       let portsc3 = (portsc2 OR push_bit 21 1 OR push_bit 19 1 OR push_bit 17 1 OR push_bit 18 1) AND NOT 2 in
       sbind (write_op hc portsc3 (PORTSC_OFFSET port_idx)) (\<lambda>_.
       sbind (read_op hc (PORTSC_OFFSET port_idx)) (\<lambda>portsc4.
       sbind (sassert (bit portsc4 1)) (\<lambda>_. sret (Some portsc4))))))))) "

text \<open>A device slot is requested with the handlers of all unused slots pointing to slot 0.\<close>

definition enable_slot :: "'h controller \<Rightarrow> 'h usb \<Rightarrow> (u8 \<times> 'h usb) result" where
  "enable_slot hc =
     sbind (enqueue_command \<lparr>trb_parameter = 0, trb_status = field 42 6 9\<rparr>) (\<lambda>_.
     sbind (set_handler_data 0 (FetchData \<lparr>fc_result = zero_trb, fc_done = False\<rparr>)) (\<lambda>_.
     sbind (ring_command_doorbell hc) (\<lambda>_.
     sbind (wait_done hc 0) (\<lambda>result.
     sbind (set_handler_data 0 NullData) (\<lambda>_.
     sbind (sassert (trb_type result = TRB_TYPE_CMD_COMPLETION)) (\<lambda>_.
     sbind (sassert (completion_code result = 1)) (\<lambda>_.
     sbind (sassert (slot_id result \<noteq> 0)) (\<lambda>_. sret (slot_id result)))))))))"

text \<open>The packet size of the control endpoint by port speed, an array of six entries.\<close>

definition default_packet_size :: "u8 \<Rightarrow> u16 result" where
  "default_packet_size speed = (if unat speed < 6 then Inr ([8, 64, 8, 64, 512, 512] ! unat speed) else Inl WildAccess)"

definition create_contexts :: "u8 \<Rightarrow> u8 \<Rightarrow> u32 \<Rightarrow> 'h usb \<Rightarrow> (unit \<times> 'h usb) result" where
  "create_contexts slot port_idx portsc =
     sbind (create_endpoint_ring slot 0) (\<lambda>ring_phys.
     sbind alloc_page (\<lambda>device_context_phys.
     sbind (\<lambda>s. Inr ((), (set_slot slot ((x_slots s slot)\<lparr>dv_device_context := Some zero_device_context\<rparr>) s)
              \<lparr>x_dcbaa := (x_dcbaa s)[unat slot := device_context_phys]\<rparr>)) (\<lambda>_.
     sbind alloc_page (\<lambda>input_context_phys.
     sbind (slift (default_packet_size (PORTSC_speed portsc))) (\<lambda>packet_size.
     sbind (\<lambda>s. Inr ((), set_slot slot ((x_slots s slot)\<lparr>dv_input_context_phys := input_context_phys,
              dv_input_context := Some \<lparr>ic_drop_flags = 0, ic_add_flags = 3,
                ic_device_context = zero_device_context\<lparr>dc_speed := PORTSC_speed portsc, dc_root_hub_port_num := port_idx + 1, dc_interrupt_target := 0\<rparr>\<rparr>\<rparr>) s)) (\<lambda>_.
     change_input slot (\<lambda>ic. count_entries (set_endpoint 0 (endpoint_for 4 packet_size ring_phys) ic))))))))"

text \<open>The packet size in a device descriptor; since USB 3 it is an exponent, and a shift past bit 30 leaves the \<open>int\<close>.\<close>

definition control_packet_size :: "u8 list \<Rightarrow> u16 result" where
  "control_packet_size d = (if d ! 3 \<ge> 3 then if unat (d ! 7) > 30 then Inl SignedOverflow else Inr (push_bit (unat (d ! 7)) 1) else Inr (ucast (d ! 7)))"

definition address_device :: "'h controller \<Rightarrow> u8 \<Rightarrow> 'h usb \<Rightarrow> (unit \<times> 'h usb) result" where
  "address_device hc slot =
     sbind (set_input_context hc slot True) (\<lambda>_.
     sbind (device_context slot) (\<lambda>dc.
     sbind (sassert (dc_slot_state dc = 1)) (\<lambda>_.
     sbind (sassert (dc_device_address dc = 0)) (\<lambda>_.
     sbind (sassert (ec_ep_state (dc_endpoint_context dc ! 0) = 1)) (\<lambda>_.
     sbind (set_input_context hc slot False) (\<lambda>_.
     sbind (device_context slot) (\<lambda>dc2.
     sassert (dc_slot_state dc2 = 2))))))))"

definition describe_device :: "'h controller \<Rightarrow> u8 \<Rightarrow> 'h usb \<Rightarrow> (ExternConfigDesc \<times> 'h usb) result" where
  "describe_device hc slot =
     sbind (send_control_transfer hc slot 1 0 8) (\<lambda>d.
     sbind (device_context slot) (\<lambda>dc.
     sbind (slift (control_packet_size d)) (\<lambda>packet_size.
     sbind (change_input slot (\<lambda>ic. Inr (set_endpoint 0 ((dc_endpoint_context dc ! 0)\<lparr>ec_max_packet_size := packet_size\<rparr>) (ic\<lparr>ic_add_flags := 2\<rparr>)))) (\<lambda>_.
     sbind (update_input_context hc slot True) (\<lambda>_.
     sbind (sassert (d ! 0 = 18)) (\<lambda>_.
     sbind (send_control_transfer hc slot 1 0 18) (\<lambda>full.
     sbind (sassert (full ! 4 = 0)) (\<lambda>_.
     sbind (sassert (full ! 17 = 1)) (\<lambda>_.
     sbind (read_configuration_descriptor hc slot 0) (\<lambda>cfg.
     sbind (sassert (cf_num_interfaces cfg > 0)) (\<lambda>_. sret cfg)))))))))))"

text \<open>The loop over the interfaces starts the first driver that fits and stops.\<close>

fun start_driver :: "'h controller \<Rightarrow> u8 \<Rightarrow> ExternConfigDesc \<Rightarrow> nat list \<Rightarrow> 'h usb devfs \<Rightarrow> (unit \<times> 'h usb devfs) result" where
  "start_driver hc slot cfg [] fs = Inr ((), fs)"
| "start_driver hc slot cfg (i # is) fs =
     (let desc = cf_interfaces cfg (of_nat i) in
      if if_protocol desc = 0x50 \<and> if_sub_class desc = 6 then initialise_msd hc slot cfg (of_nat i) fs
      else if if_protocol desc = 1 \<and> if_class_code desc = 3 \<and> if_sub_class desc = 1 then on_usb (initialise_keyboard hc slot cfg (of_nat i)) fs
      else start_driver hc slot cfg is fs)"

definition set_up_port :: "'h controller \<Rightarrow> u8 \<Rightarrow> 'h usb devfs \<Rightarrow> (unit \<times> 'h usb devfs) result" where
  "set_up_port hc port_idx =
     sbind (on_usb (reset_port hc port_idx)) (\<lambda>connected.
     case connected of None \<Rightarrow> sret ()
     | Some portsc \<Rightarrow>
         sbind (on_usb (enable_slot hc)) (\<lambda>slot.
         sbind (on_usb (create_contexts slot port_idx portsc)) (\<lambda>_.
         sbind (on_usb (address_device hc slot)) (\<lambda>_.
         sbind (on_usb (describe_device hc slot)) (\<lambda>cfg.
         start_driver hc slot cfg [0..<unat (cf_num_interfaces cfg)])))))"

section \<open>The controller\<close>

definition CAPLENGTH_CAPLENGTH :: "u32 \<Rightarrow> u8" where
  "CAPLENGTH_CAPLENGTH caplength_and_version = ucast (caplength_and_version AND 0xFF)"

definition HCSPARAMS1_MAXPORTS :: "u32 \<Rightarrow> u8" where
  "HCSPARAMS1_MAXPORTS hcsparams1 = ucast (drop_bit 24 hcsparams1 AND 0xFF)"

definition HCSPARAMS2_required_scratchpad_buffers :: "u32 \<Rightarrow> u16" where
  "HCSPARAMS2_required_scratchpad_buffers hcsparams2 = ucast ((drop_bit 27 hcsparams2 AND 0x1F) OR (drop_bit 21 hcsparams2 AND 0x3E0))"

definition HCCPARAMS1_xecp :: "u32 \<Rightarrow> u32" where
  "HCCPARAMS1_xecp hccparams1 = push_bit 2 (drop_bit 16 hccparams1)"

definition HCCPARAMS1_64BIT :: "u32 \<Rightarrow> bool" where
  "HCCPARAMS1_64BIT hccparams1 = bit hccparams1 0"

definition HCCPARAMS1_csz :: "u32 \<Rightarrow> bool" where
  "HCCPARAMS1_csz hccparams1 = bit hccparams1 2"

definition USBSTS_hchalted :: "u32 \<Rightarrow> bool" where
  "USBSTS_hchalted usbsts = bit usbsts 0"

definition USBSTS_cnr :: "u32 \<Rightarrow> bool" where
  "USBSTS_cnr usbsts = bit usbsts 11"

text \<open>The structure that \<open>initialise_xhci\<close> allocates and fills; its other fields are zero, and every slot hands its first event
  to slot 0.\<close>

definition blank_xhci :: "BarInfo \<Rightarrow> u8 \<Rightarrow> u32 \<Rightarrow> u32 \<Rightarrow> 'h usb \<Rightarrow> 'h usb" where
  "blank_xhci bar cap_length rts_offset db_offset s = s\<lparr>x_command_ring := zero_ring, x_event_ring := zero_ring, x_bar := bar,
     x_cap_length := cap_length, x_rts_offset := rts_offset, x_db_offset := db_offset, x_dcbaa := [],
     x_slots := (\<lambda>_. zero_device\<lparr>dv_interrupt_trb_handler := Some FetchAndCopyToSlot0\<rparr>),
     x_port_is_usb3 := replicate 64 False, x_controller_found := True\<rparr>"

text \<open>The extended capability with identifier 2 tells which ports speak USB 3; the port number in it starts at one.\<close>

definition set_port_range :: "u32 \<Rightarrow> u32 \<Rightarrow> 'h usb \<Rightarrow> (unit \<times> 'h usb) result" where
  "set_port_range dat third_dword s =
     (let usb_maj = drop_bit 24 dat; port_index = unat (ucast (third_dword AND 0xFF) - 1 :: u8); port_count = unat (drop_bit 8 third_dword AND 0xFF) in
      rbind (rfold (\<lambda>i ps. if i < length ps then Inr (ps[i := (usb_maj = 3)]) else Inl WildAccess) [port_index..<port_index + port_count] (x_port_is_usb3 s))
        (\<lambda>ps. Inr ((), s\<lparr>x_port_is_usb3 := ps\<rparr>)))"

definition extended_capability :: "'h controller \<Rightarrow> u32 \<Rightarrow> u32 \<Rightarrow> 'h usb \<Rightarrow> (unit \<times> 'h usb) result" where
  "extended_capability hc xecp dat =
     (if dat AND 0xFF = 1 then
        (if bit dat 16 then
           sbind (write_bar_32 hc (dat OR push_bit 24 1) (ucast xecp)) (\<lambda>_.
           sbind (poll_until hc (ucast xecp) (\<lambda>v. \<not> bit v 16)) (\<lambda>_. sret ()))
         else sret ())
      else if dat AND 0xFF = 2 then
        sbind (read_bar_32 hc (ucast (xecp + 4))) (\<lambda>second_dword.
        sbind (read_bar_32 hc (ucast (xecp + 8))) (\<lambda>third_dword.
        sbind (sassert (second_dword = 0x20425355)) (\<lambda>_.
        set_port_range dat third_dword)))
      else sret ())"

text \<open>The list of extended capabilities is followed until a next pointer is zero.\<close>

partial_function (option) walk_capabilities :: "'h controller \<Rightarrow> u32 \<Rightarrow> 'h usb \<Rightarrow> (unit \<times> 'h usb) result option" where
  "walk_capabilities hc xecp s =
     (if xecp = 0 then Some (Inr ((), s))
      else (case sbind (read_bar_32 hc (ucast xecp)) (\<lambda>dat. sbind (extended_capability hc xecp dat) (\<lambda>_. sret dat)) s of
              Inl e \<Rightarrow> Some (Inl e)
            | Inr (dat, s') \<Rightarrow> walk_capabilities hc (push_bit 2 (drop_bit 8 dat AND 0xFF)) s'))"

definition extended_capabilities :: "'h controller \<Rightarrow> u32 \<Rightarrow> 'h usb \<Rightarrow> (unit \<times> 'h usb) result" where
  "extended_capabilities hc xecp s = (case walk_capabilities hc xecp s of None \<Rightarrow> Inl Diverged | Some r \<Rightarrow> r)"

definition bytes64 :: "u64 \<Rightarrow> u8 list" where
  "bytes64 w = bytes32 (ucast w) @ bytes32 (ucast (drop_bit 32 w))"

definition write_op_64 :: "'h controller \<Rightarrow> u64 \<Rightarrow> u32 \<Rightarrow> u32 \<Rightarrow> 'h usb \<Rightarrow> (unit \<times> 'h usb) result" where
  "write_op_64 hc v flags offset = sbind (write_op hc (ucast (v AND 0xFFFFFFFF) OR flags) offset) (\<lambda>_. write_op hc (ucast (drop_bit 32 v)) (offset + 4))"

definition halt_and_reset :: "'h controller \<Rightarrow> u8 \<Rightarrow> 'h usb \<Rightarrow> (unit \<times> 'h usb) result" where
  "halt_and_reset hc max_ports =
     sbind (write_op hc 0 0) (\<lambda>_.
     sbind (\<lambda>s. poll_until hc (op_reg 4 s) USBSTS_hchalted s) (\<lambda>_.
     sbind (write_op hc 2 0) (\<lambda>_.
     sbind (\<lambda>s. poll_until hc (op_reg 0 s) (\<lambda>v. \<not> bit v 1) s) (\<lambda>_.
     sbind (write_op hc 2 0x14) (\<lambda>_.
     write_op hc (ucast max_ports) 0x38)))))"

definition add_scratchpad :: "u64 \<Rightarrow> nat \<Rightarrow> 'h usb \<Rightarrow> 'h usb result" where
  "add_scratchpad pointers i s =
     rbind (sbind alloc_page (\<lambda>scratchpad.
            sbind (clear_memory scratchpad PAGE_SIZE) (\<lambda>_.
            copy_in (pointers + 8 * of_nat i) (bytes64 scratchpad))) s) (\<lambda>(_, s'). Inr s')"

text \<open>The array of device contexts, whose entry 0 points to the array of scratchpad pages.\<close>

definition device_table :: "'h controller \<Rightarrow> u8 \<Rightarrow> u16 \<Rightarrow> 'h usb \<Rightarrow> (unit \<times> 'h usb) result" where
  "device_table hc max_ports scratchpad_required =
     sbind (sassert (unat max_ports * 8 < 4096)) (\<lambda>_.
     sbind alloc_page (\<lambda>dcbaa_phys.
     sbind (\<lambda>s. Inr ((), s\<lparr>x_dcbaa := replicate 512 0\<rparr>)) (\<lambda>_.
     sbind (if scratchpad_required \<noteq> 0 then
              sbind (sassert (unat scratchpad_required * 8 < 4096)) (\<lambda>_.
              sbind alloc_page (\<lambda>pointers.
              sbind (clear_memory pointers PAGE_SIZE) (\<lambda>_.
              sbind (\<lambda>s. rbind (rfold (add_scratchpad pointers) [0..<unat scratchpad_required] s) (\<lambda>s'. Inr ((), s'))) (\<lambda>_.
              sret pointers))))
            else sret 0) (\<lambda>first.
     sbind (\<lambda>s. Inr ((), s\<lparr>x_dcbaa := (x_dcbaa s)[0 := first]\<rparr>)) (\<lambda>_.
     write_op_64 hc dcbaa_phys 0 0x30)))))"

definition new_ring :: "'h usb \<Rightarrow> (Ring \<times> 'h usb) result" where
  "new_ring s = rbind (create_ring (x_slab s)) (\<lambda>(r, sl). Inr (r, s\<lparr>x_slab := sl\<rparr>))"

text \<open>The command ring, the event ring and the table of its one segment.\<close>

definition start_rings :: "'h controller \<Rightarrow> 'h usb \<Rightarrow> (unit \<times> 'h usb) result" where
  "start_rings hc =
     sbind new_ring (\<lambda>command_ring.
     sbind (\<lambda>s. Inr ((), s\<lparr>x_command_ring := command_ring\<rparr>)) (\<lambda>_.
     sbind (write_op_64 hc (rg_trbs_phys command_ring) (ucast (rg_ring_cycle_state command_ring)) 0x18) (\<lambda>_.
     sbind (\<lambda>s. read_bar_32 hc (run_reg IR_IMAN_OFFSET s) s) (\<lambda>iman.
     sbind (write_run hc (iman OR 2) IR_IMAN_OFFSET) (\<lambda>_.
     sbind (write_run hc 0 0x24) (\<lambda>_.
     sbind new_ring (\<lambda>event_ring.
     sbind (\<lambda>s. Inr ((), s\<lparr>x_event_ring := event_ring\<rparr>)) (\<lambda>_.
     sbind alloc_page (\<lambda>table.
     sbind (clear_memory table PAGE_SIZE) (\<lambda>_.
     sbind (copy_in table (bytes64 (rg_trbs_phys event_ring) @ [ucast (rg_count event_ring), ucast (drop_bit 8 (rg_count event_ring))])) (\<lambda>_.
     sbind (write_run hc 1 0x28) (\<lambda>_.
     sbind (update_erdp hc True) (\<lambda>_.
     sbind (write_run hc (ucast (table AND 0xFFFFFFFF)) 0x30) (\<lambda>_.
     write_run hc (ucast (drop_bit 32 table)) 0x34))))))))))))))"

definition config_address :: "u16 \<Rightarrow> u8 \<Rightarrow> u32" where
  "config_address device register_offset = ucast register_offset OR push_bit 8 (ucast device) OR push_bit 31 1"

definition config_write :: "'h controller \<Rightarrow> u32 \<Rightarrow> u32 \<Rightarrow> 'h usb \<Rightarrow> (unit \<times> 'h usb) result" where
  "config_write hc address val s = Inr ((), s\<lparr>x_hw := hc_config_write hc address val (x_hw s)\<rparr>)"

definition start_controller :: "'h controller \<Rightarrow> u16 \<Rightarrow> 'h usb \<Rightarrow> (unit \<times> 'h usb) result" where
  "start_controller hc dev =
     sbind (ack_irq hc) (\<lambda>_.
     sbind (config_write hc (config_address dev 0xD0) 0xFFFFFFFF) (\<lambda>_.
     sbind (config_write hc (config_address dev 0xD8) 0xFFFFFFFF) (\<lambda>_.
     sbind (write_op hc 5 0) (\<lambda>_.
     sbind (\<lambda>s. poll_until hc (op_reg 4 s) (\<lambda>v. \<not> USBSTS_hchalted v \<and> \<not> USBSTS_cnr v) s) (\<lambda>_. sret ())))))"

definition initialise_xhci :: "'h controller \<Rightarrow> u16 \<Rightarrow> BarInfo \<Rightarrow> 'h usb devfs \<Rightarrow> (unit \<times> 'h usb devfs) result" where
  "initialise_xhci hc dev bar =
     sbind (on_usb (
       sbind (\<lambda>s. Inr ((), s\<lparr>x_bar := bar\<rparr>)) (\<lambda>_.
       sbind (read_bar_32 hc 0) (\<lambda>caplength.
       sbind (read_bar_32 hc 0x18) (\<lambda>rts_offset.
       sbind (read_bar_32 hc 0x14) (\<lambda>db_offset.
       sbind (read_bar_32 hc 0x10) (\<lambda>hccparams1.
       sbind (read_bar_32 hc 4) (\<lambda>hcsparams1.
       sbind (read_bar_32 hc 8) (\<lambda>hcsparams2.
       let max_ports = HCSPARAMS1_MAXPORTS hcsparams1 in
       sbind (\<lambda>s. hcf_unless (\<not> x_controller_found s) (Inr ((), blank_xhci bar (CAPLENGTH_CAPLENGTH caplength) rts_offset db_offset s))) (\<lambda>_.
       sbind (extended_capabilities hc (HCCPARAMS1_xecp hccparams1)) (\<lambda>_.
       sbind (sassert (HCCPARAMS1_64BIT hccparams1)) (\<lambda>_.
       sbind (sassert (\<not> HCCPARAMS1_csz hccparams1)) (\<lambda>_.
       sbind (halt_and_reset hc max_ports) (\<lambda>_.
       sbind (device_table hc max_ports (HCSPARAMS2_required_scratchpad_buffers hcsparams2)) (\<lambda>_.
       sbind (start_rings hc) (\<lambda>_.
       sbind (start_controller hc dev) (\<lambda>_. sret max_ports))))))))))))))))) (\<lambda>max_ports.
     (\<lambda>fs. rbind (rfold (\<lambda>i fs. rbind (set_up_port hc (of_nat i) fs) (\<lambda>(_, fs'). Inr fs')) [0..<unat max_ports] fs) (\<lambda>fs'. Inr ((), fs'))))"

section \<open>Properties\<close>

lemma endpoint_index_value:
  assumes "calculate_endpoint_index n is_in = Inr i"
  shows "1 \<le> unat n" "unat n \<le> 15" "unat i = 2 * unat n - (if is_in then 0 else 1)"
proof -
  have n: "n \<noteq> 0" "n \<le> 15" and i: "i = 2 * n + (if is_in then 1 else 0) - 1"
    using assms by (auto simp: calculate_endpoint_index_def result_simps)
  show b: "1 \<le> unat n" "unat n \<le> 15" using n by (auto simp: word_le_nat_alt unat_gt_0 Suc_le_eq)
  have "unat (2 * n) = 2 * unat n" using b by (simp add: unat_word_ariths)
  moreover have "1 \<le> 2 * n" using b calculation by (simp add: word_le_nat_alt)
  ultimately show "unat i = 2 * unat n - (if is_in then 0 else 1)" using i b by (auto simp: unat_sub)
qed

text \<open>C37. An endpoint's index is below 31, so that its doorbell value is valid and different endpoints have different indices; but the
  array of rings has 15 entries, and creating the ring of an endpoint writes past its end exactly when the endpoint number is
  8 or more (a device may have endpoints up to 15).\<close>

theorem endpoint_rings_overflow:
  assumes "calculate_endpoint_index n is_in = Inr i" and "length (dv_endpoint_rings (x_slots s slot)) = 15"
    and "create_ring (x_slab s) = Inr (ring, sl)"
  shows "unat i < 31 \<and> (\<forall>m b. calculate_endpoint_index m b = Inr i \<longrightarrow> m = n \<and> b = is_in) \<and>
    create_endpoint_ring slot (unat i) s = (if unat n \<le> 7
      then Inr (rg_trbs_phys ring, set_slot slot ((x_slots s slot)\<lparr>dv_endpoint_rings := (dv_endpoint_rings (x_slots s slot))[unat i := ring]\<rparr>) (s\<lparr>x_slab := sl\<rparr>))
      else Inl WildAccess)"
proof (intro conjI allI impI)
  note v = endpoint_index_value [OF assms(1)]
  show "unat i < 31" using v by auto
  show "create_endpoint_ring slot (unat i) s = (if unat n \<le> 7
      then Inr (rg_trbs_phys ring, set_slot slot ((x_slots s slot)\<lparr>dv_endpoint_rings := (dv_endpoint_rings (x_slots s slot))[unat i := ring]\<rparr>) (s\<lparr>x_slab := sl\<rparr>))
      else Inl WildAccess)"
    using v assms(2,3) by (auto simp: create_endpoint_ring_def Let_def split: if_splits)
  fix m b assume m: "calculate_endpoint_index m b = Inr i"
  note w = endpoint_index_value [OF m]
  have "2 * unat m - (if b then 0 else 1) = 2 * unat n - (if is_in then 0 else 1)" using v(3) w(3) by simp
  then show "b = is_in" using v(1) w(1) by (cases b; cases is_in) (simp_all, presburger+)
  with v(1,3) w(1,3) have "unat m = unat n" by (auto split: if_splits)
  then show "m = n" by (simp add: word_unat_eq_iff)
qed

theorem endpoint_rings_overflow_witness:
  "\<exists>ring sl. create_ring (x_slab example_disk) = Inr (ring, sl) \<and> calculate_endpoint_index 8 False = Inr 15 \<and>
     create_endpoint_ring 3 15 example_disk = Inl WildAccess"
proof -
  have sl: "slab_wf (x_slab example_disk)" "3 \<le> card (free_indices (x_slab example_disk))" using example_disk_ready by (simp_all add: disk_ready_def)
  then have "free_indices (x_slab example_disk) \<noteq> {}" by auto
  from alloc_one(1) [OF sl(1) this] obtain ring sl where r: "create_ring (x_slab example_disk) = Inr (ring, sl)" by (auto simp: create_ring_def)
  have c: "calculate_endpoint_index 8 False = Inr 15" by (simp add: calculate_endpoint_index_def)
  have "length (dv_endpoint_rings (x_slots example_disk 3)) = 15" by (simp add: example_disk_def zero_device_def)
  from endpoint_rings_overflow [OF c this r, THEN conjunct2, THEN conjunct2]
  have "create_endpoint_ring 3 15 example_disk = Inl WildAccess" by simp
  with r c show ?thesis by blast
qed

end
