(* ===== verification/Pci.thy ===== *)
theory Pci
  imports Paging Fat_File
begin

text \<open>
  The PCI bus (\<open>stuos/src/pci.c\<close>) and the interrupt vectors it allocates (\<open>stuos/src/idt.c\<close>): reading and writing a
  configuration header through the two I/O ports, measuring the base address registers, walking the list of capabilities, and
  setting up message-signalled interrupts.

  The ports and device memory are a parameter, the record \<open>port_io\<close> of functions on an abstract hardware state. What the
  properties use of it is the documented behaviour of configuration space, \<open>pci_config\<close>: a register holds a value of which
  some bits can be written.
\<close>

section \<open>Interrupt vectors\<close>

text \<open>An entry of \<open>general_purpose_interrupt_handlers\<close>.\<close>

datatype 'h slot = NullSlot | UnusedSlot | AllocatedSlot | Handler 'h

record InterruptDescriptor =
  id_address_low :: u16
  id_selector :: u16
  id_ist :: u8
  id_flags :: u8
  id_address_mid :: u16
  id_address_high :: u32
  id_reserved :: u32

definition set_idt_entry :: "u64 \<Rightarrow> InterruptDescriptor" where
  "set_idt_entry h = \<lparr>id_address_low = ucast (h AND 0xFFFF), id_selector = 8, id_ist = 0, id_flags = 0x8E,
     id_address_mid = ucast (drop_bit 16 h AND 0xFFFF), id_address_high = ucast (drop_bit 32 h AND 0xFFFFFFFF), id_reserved = 0\<rparr>"

text \<open>\<open>setup_idt\<close> fills the descriptor table from the 256 entry points and frees the vectors from 33 on.\<close>

definition setup_idt :: "(nat \<Rightarrow> u64) \<Rightarrow> 'h slot list \<Rightarrow> InterruptDescriptor list \<times> 'h slot list" where
  "setup_idt vector_n_handlers handlers =
     (map (\<lambda>i. set_idt_entry (vector_n_handlers i)) [0..<256], fold (\<lambda>i hs. hs[i := UnusedSlot]) [33..<256] handlers)"

fun allocate_idt_loop :: "nat list \<Rightarrow> 'h slot list \<Rightarrow> (nat \<times> 'h slot list) result" where
  "allocate_idt_loop [] hs = Inl HCF"
| "allocate_idt_loop (i # is) hs =
     (case hs ! i of
        NullSlot \<Rightarrow> Inl HCF
      | UnusedSlot \<Rightarrow> Inr (i, hs[i := AllocatedSlot])
      | _ \<Rightarrow> allocate_idt_loop is hs)"

definition allocate_free_idt_entry :: "'h slot list \<Rightarrow> (nat \<times> 'h slot list) result" where
  "allocate_free_idt_entry hs = allocate_idt_loop [33..<256] hs"

definition initialise_idt_entry :: "nat \<Rightarrow> 'h \<Rightarrow> 'h slot list \<Rightarrow> 'h slot list result" where
  "initialise_idt_entry free_idt_entry handler hs =
     (if \<not> free_idt_entry > 32 then Inl HCF
      else if \<not> free_idt_entry < 256 then Inl HCF
      else case hs ! free_idt_entry of AllocatedSlot \<Rightarrow> Inr (hs[free_idt_entry := Handler handler]) | _ \<Rightarrow> Inl HCF)"

section \<open>Configuration space\<close>

record 'p port_io =
  io_out32 :: "u16 \<Rightarrow> u32 \<Rightarrow> 'p \<Rightarrow> 'p"
  io_in32 :: "u16 \<Rightarrow> 'p \<Rightarrow> u32 \<times> 'p"
  io_store32 :: "u64 \<Rightarrow> u32 \<Rightarrow> 'p \<Rightarrow> 'p"

record PciDevice =
  pd_function_number :: u8
  pd_device_number :: u8
  pd_bus_number :: u8

text \<open>The union \<open>ConfigAddress\<close> with the enable bit set.\<close>

definition config_address :: "PciDevice \<Rightarrow> u8 \<Rightarrow> u32" where
  "config_address d register_offset = ucast register_offset OR push_bit 8 (ucast (pd_function_number d AND 7)) OR
     push_bit 11 (ucast (pd_device_number d AND 31)) OR push_bit 16 (ucast (pd_bus_number d)) OR 0x80000000"

definition config_read :: "'p port_io \<Rightarrow> u32 \<Rightarrow> 'p \<Rightarrow> u32 \<times> 'p" where
  "config_read io address p = io_in32 io 0xCFC (io_out32 io 0xCF8 address p)"

definition config_write :: "'p port_io \<Rightarrow> u32 \<Rightarrow> u32 \<Rightarrow> 'p \<Rightarrow> 'p" where
  "config_write io address value p = io_out32 io 0xCFC value (io_out32 io 0xCF8 address p)"

fun read_dwords :: "'p port_io \<Rightarrow> PciDevice \<Rightarrow> nat list \<Rightarrow> 'p \<Rightarrow> u8 list \<times> 'p" where
  "read_dwords io d [] p = ([], p)"
| "read_dwords io d (i # is) p =
     (let (v, p) = config_read io (config_address d (of_nat i)) p; (bs, p) = read_dwords io d is p in (bytes32 v @ bs, p))"

definition read_header :: "'p port_io \<Rightarrow> PciDevice \<Rightarrow> 'p \<Rightarrow> u8 list \<times> 'p" where
  "read_header io d p = read_dwords io d (map (\<lambda>k. 4 * k) [0..<64]) p"

definition write_header :: "'p port_io \<Rightarrow> PciDevice \<Rightarrow> u8 list \<Rightarrow> 'p \<Rightarrow> 'p" where
  "write_header io d buf p = fold (\<lambda>i. config_write io (config_address d (of_nat i)) (le32 (drop i buf))) (map (\<lambda>k. 4 * k) [0..<64]) p"

text \<open>The fields of \<open>PciConfigurationHeader\<close> that are used.\<close>

record PciConfigurationHeader =
  hd_vendor_id :: u16
  hd_device_id :: u16
  hd_status :: u16
  hd_revision_id :: u8
  hd_prog_if :: u8
  hd_subclass :: u8
  hd_class_code :: u8
  hd_header_type :: u8
  hd_BAR :: "u32 list"
  hd_subsystem_id :: u16

definition decode_pci_header :: "u8 list \<Rightarrow> PciConfigurationHeader" where
  "decode_pci_header b = \<lparr>hd_vendor_id = le16 b, hd_device_id = le16 (drop 2 b), hd_status = le16 (drop 6 b), hd_revision_id = b ! 8,
     hd_prog_if = b ! 9, hd_subclass = b ! 10, hd_class_code = b ! 11, hd_header_type = b ! 14,
     hd_BAR = map (\<lambda>i. le32 (drop (0x10 + 4 * i) b)) [0..<6], hd_subsystem_id = le16 (drop 0x2E b)\<rparr>"

section \<open>Base address registers\<close>

record BarInfo =
  bi_bar_size :: u64
  bi_address :: u64
  bi_virtual_address :: u64
  bi_is_io_bar :: bool

definition no_bar :: BarInfo where
  "no_bar = \<lparr>bi_bar_size = 0, bi_address = 0, bi_virtual_address = 0, bi_is_io_bar = False\<rparr>"

definition get_bar_size_32 :: "'p port_io \<Rightarrow> u32 \<Rightarrow> u32 \<Rightarrow> 'p \<Rightarrow> u32 \<times> 'p" where
  "get_bar_size_32 io original_bar addr p =
     (let p = config_write io addr (NOT 0) p; (bar_size, p) = config_read io addr p
      in (NOT bar_size + 1, config_write io addr original_bar p))"

definition get_bar_size_64 :: "'p port_io \<Rightarrow> u32 \<Rightarrow> u32 \<Rightarrow> u32 \<Rightarrow> u32 \<Rightarrow> 'p \<Rightarrow> u64 \<times> 'p" where
  "get_bar_size_64 io original_bar_low original_bar_high addr_low addr_high p =
     (let p = config_write io addr_high (NOT 0) (config_write io addr_low (NOT 0) p);
          (high, p) = config_read io addr_high p; (low, p) = config_read io addr_low p;
          bar_size = push_bit 32 (ucast high) OR ucast low :: u64
      in (NOT bar_size + 1, config_write io addr_high original_bar_high (config_write io addr_low original_bar_low p)))"

text \<open>\<open>handle_bar\<close> on the hardware and the page tables. The last register cannot be the lower half of a 64-bit one: reading
  \<open>BAR[6]\<close> leaves the array.\<close>

function handle_bar_loop :: "'p port_io \<Rightarrow> PciDevice \<Rightarrow> u32 list \<Rightarrow> nat \<Rightarrow> BarInfo list \<Rightarrow> 'p \<times> mmu \<Rightarrow> (BarInfo list \<times> 'p \<times> mmu) result" where
  "handle_bar_loop io d BAR i out (p, st) =
     (if i < 6 then
        let addr_low = config_address d (of_nat (0x10 + 4 * i)); addr_high = config_address d (of_nat (0x14 + 4 * i)); bar_val_low = BAR ! i in
        if bar_val_low AND 1 \<noteq> 0 then
          let (bar_size, p) = get_bar_size_32 io bar_val_low addr_low p in
          handle_bar_loop io d BAR (i + 1) (out[i := \<lparr>bi_bar_size = ucast bar_size, bi_address = ucast bar_val_low AND NOT 0xF,
            bi_virtual_address = 0, bi_is_io_bar = True\<rparr>]) (p, st)
        else if drop_bit 1 bar_val_low AND 3 = 0 then
          let (bar_size, p) = get_bar_size_32 io bar_val_low addr_low p; address = ucast bar_val_low AND NOT 0xF in
          rbind (setup_mmio address (ucast bar_size) st) (\<lambda>(virtual_address, st).
          handle_bar_loop io d BAR (i + 1) (out[i := \<lparr>bi_bar_size = ucast bar_size, bi_address = address,
            bi_virtual_address = virtual_address, bi_is_io_bar = False\<rparr>]) (p, st))
        else if drop_bit 1 bar_val_low AND 3 = 2 then
          if i = 5 then Inl WildAccess else
          let bar_val_high = BAR ! (i + 1);
              (bar_size, p) = get_bar_size_64 io bar_val_low bar_val_high addr_low addr_high p;
              address = push_bit 32 (ucast bar_val_high) OR (ucast bar_val_low AND NOT 0xF) in
          rbind (setup_mmio address bar_size st) (\<lambda>(virtual_address, st).
          let bar = \<lparr>bi_bar_size = bar_size, bi_address = address, bi_virtual_address = virtual_address, bi_is_io_bar = False\<rparr> in
          handle_bar_loop io d BAR (i + 2) (out[i := bar, i + 1 := bar]) (p, st))
        else Inl HCF
      else Inr (out, p, st))"
  by pat_completeness auto
termination
  by (relation "measure (\<lambda>(io, d, BAR, i, out, s). 6 - i)") auto

declare handle_bar_loop.simps [simp del]

definition handle_bar :: "'p port_io \<Rightarrow> PciDevice \<Rightarrow> PciConfigurationHeader \<Rightarrow> 'p \<times> mmu \<Rightarrow> (BarInfo list \<times> 'p \<times> mmu) result" where
  "handle_bar io d header s = handle_bar_loop io d (hd_BAR header) 0 (replicate 6 no_bar) s"

definition write_bar_32 :: "'p port_io \<Rightarrow> BarInfo \<Rightarrow> u32 \<Rightarrow> u64 \<Rightarrow> 'p \<Rightarrow> 'p result" where
  "write_bar_32 io bar src offset p =
     hcf_unless (offset mod 4 = 0)
      (if bi_is_io_bar bar
       then if bi_address bar + offset > 0xFFFF then Inl HCF else Inr (io_out32 io (ucast (bi_address bar + offset)) src p)
       else Inr (io_store32 io (bi_virtual_address bar + offset) src p))"

section \<open>Capabilities\<close>

text \<open>The indices behind the headers of the MSI and MSI-X capabilities, 0 where there is none. \<open>None\<close> is a walk that never ends.\<close>

partial_function (option) walk_capability_list :: "u8 list \<Rightarrow> u8 \<Rightarrow> u8 \<Rightarrow> u8 \<Rightarrow> (u8 \<times> u8) result option" where
  "walk_capability_list buf capability_pointer msi_idx msix_idx =
     (if capability_pointer = 0 then Some (Inr (msi_idx, msix_idx))
      else
        let capability_id = buf ! unat capability_pointer;
            msi_idx = (if capability_id = 0x05 then capability_pointer + 2 else msi_idx);
            msix_idx = (if capability_id = 0x11 then capability_pointer + 2 else msix_idx)
        in if unat capability_pointer + 1 < 256
           then walk_capability_list buf (buf ! (unat capability_pointer + 1)) msi_idx msix_idx
           else Some (Inl WildAccess))"

text \<open>Storing into the header buffer, and the two message interrupt structures in it.\<close>

definition put_bytes :: "nat \<Rightarrow> u8 list \<Rightarrow> u8 list \<Rightarrow> u8 list result" where
  "put_bytes i bs buf = (if i + length bs \<le> length buf then Inr (take i buf @ bs @ drop (i + length bs) buf) else Inl WildAccess)"

definition get_bytes :: "nat \<Rightarrow> nat \<Rightarrow> u8 list \<Rightarrow> u8 list result" where
  "get_bytes i n buf = (if i + n \<le> length buf then Inr (take n (drop i buf)) else Inl WildAccess)"

definition set_msi_message :: "nat \<Rightarrow> bool \<Rightarrow> u64 \<Rightarrow> nat \<Rightarrow> u8 list \<Rightarrow> u8 list result" where
  "set_msi_message msi_idx is_64_bit message_address allocated_vec buf =
     (if is_64_bit
      then rbind (put_bytes (msi_idx + 2) (bytes64 message_address) buf) (put_bytes (msi_idx + 10) [of_nat allocated_vec])
      else hcf_unless (message_address AND 0xFFFFFFFF00000000 = 0)
           (rbind (put_bytes (msi_idx + 2) (bytes32 (ucast message_address)) buf) (put_bytes (msi_idx + 6) [of_nat allocated_vec])))"

definition enable_msi :: "nat \<Rightarrow> u64 \<Rightarrow> u8 list \<Rightarrow> 'h slot list \<Rightarrow> (nat \<times> u8 list \<times> 'h slot list) result" where
  "enable_msi msi_idx message_address buf hs =
     rbind (get_bytes msi_idx 2 buf) (\<lambda>cs.
     let control = le16 cs in
     hcf_unless (\<not> bit control 0)
     (rbind (put_bytes msi_idx (bytes16 ((control AND NOT 0x70) OR 1)) buf) (\<lambda>buf.
      rbind (allocate_free_idt_entry hs) (\<lambda>(allocated_vec, hs).
      rbind (set_msi_message msi_idx (bit control 7) message_address allocated_vec buf) (\<lambda>buf.
      Inr (allocated_vec, buf, hs))))))"

definition set_msix_table :: "'p port_io \<Rightarrow> BarInfo \<Rightarrow> u64 \<Rightarrow> nat \<Rightarrow> u64 \<Rightarrow> nat \<Rightarrow> 'p \<Rightarrow> 'p result" where
  "set_msix_table io bar table_addr table_size message_address allocated_vec p =
     rbind (write_bar_32 io bar (ucast message_address) table_addr p) (\<lambda>p.
     rbind (write_bar_32 io bar (ucast (drop_bit 32 message_address)) (table_addr + 4) p) (\<lambda>p.
     rbind (write_bar_32 io bar (of_nat allocated_vec) (table_addr + 8) p) (\<lambda>p.
     rbind (write_bar_32 io bar 0 (table_addr + 12) p) (\<lambda>p.
     rfold (\<lambda>i. write_bar_32 io bar 1 (table_addr + of_nat i * 16 + 12)) [1..<table_size] p))))"

definition enable_msix :: "'p port_io \<Rightarrow> nat \<Rightarrow> u64 \<Rightarrow> BarInfo list \<Rightarrow> u8 list \<Rightarrow> 'p \<times> 'h slot list \<Rightarrow> (nat \<times> u8 list \<times> 'p \<times> 'h slot list) result" where
  "enable_msix io msix_idx message_address bar_list buf = (\<lambda>(p, hs).
     rbind (get_bytes msix_idx 6 buf) (\<lambda>cs.
     let control = le16 cs; table_address = le32 (drop 2 cs); bar_number = unat (table_address AND 7) in
     hcf_unless (\<not> bit control 15)
     (rbind (put_bytes msix_idx (bytes16 (control OR 0x8000)) buf) (\<lambda>buf.
      rbind (allocate_free_idt_entry hs) (\<lambda>(allocated_vec, hs).
      if bar_number \<ge> length bar_list then Inl WildAccess
      else rbind (set_msix_table io (bar_list ! bar_number) (ucast (table_address AND NOT 7)) (unat (control AND 0x7FF) + 1)
             message_address allocated_vec p) (\<lambda>p. Inr (allocated_vec, buf, p, hs)))))))"

section \<open>Probing\<close>

record PciData =
  pc_bar_list :: "BarInfo list"
  pc_allocated_interrupt :: nat

text \<open>One turn of the three loops of \<open>initialise_pci\<close>, up to the drivers: the header and the data of the device, if there is one.\<close>

definition setup_interrupt :: "'p port_io \<Rightarrow> u64 \<Rightarrow> PciDevice \<Rightarrow> BarInfo list \<Rightarrow> u8 list \<Rightarrow> 'p \<times> 'h slot list \<Rightarrow> (nat \<times> 'p \<times> 'h slot list) result" where
  "setup_interrupt io lapic d bars buf = (\<lambda>(p, hs).
     case walk_capability_list buf (buf ! 0x34) 0 0 of
       None \<Rightarrow> Inl Diverged
     | Some r \<Rightarrow> rbind r (\<lambda>(msi_idx, msix_idx).
         if msix_idx \<noteq> 0 then
           rbind (enable_msix io (unat msix_idx) lapic bars buf (p, hs)) (\<lambda>(vec, buf, p, hs).
           Inr (vec, write_header io d buf p, hs))
         else if msi_idx \<noteq> 0 then
           rbind (enable_msi (unat msi_idx) lapic buf hs) (\<lambda>(vec, buf, hs).
           Inr (vec, write_header io d buf p, hs))
         else Inr (0, p, hs)))"

definition probe_function :: "'p port_io \<Rightarrow> u64 \<Rightarrow> PciDevice \<Rightarrow> 'p \<times> mmu \<times> 'h slot list \<Rightarrow>
    ((PciConfigurationHeader \<times> PciData) option \<times> 'p \<times> mmu \<times> 'h slot list) result" where
  "probe_function io lapic d = (\<lambda>(p, st, hs).
     let (buf, p) = read_header io d p; header = decode_pci_header buf in
     if hd_vendor_id header = 0xFFFF then Inr (None, p, st, hs)
     else if hd_header_type header \<noteq> 0 then Inr (None, p, st, hs)
     else rbind (handle_bar io d header (p, st)) (\<lambda>(bars, p, st).
          if bit (hd_status header) 4
          then rbind (setup_interrupt io lapic d bars buf (p, hs)) (\<lambda>(vec, p, hs).
               Inr (Some (header, \<lparr>pc_bar_list = bars, pc_allocated_interrupt = vec\<rparr>), p, st, hs))
          else Inr (Some (header, \<lparr>pc_bar_list = bars, pc_allocated_interrupt = 0\<rparr>), p, st, hs)))"

text \<open>The drivers are arguments; they work on the whole state.\<close>

definition start_drivers :: "(PciConfigurationHeader \<Rightarrow> BarInfo list \<Rightarrow> 's \<Rightarrow> 's result) \<Rightarrow> (PciDevice \<Rightarrow> PciData \<Rightarrow> 's \<Rightarrow> 's result) \<Rightarrow>
    PciDevice \<Rightarrow> PciConfigurationHeader \<times> PciData \<Rightarrow> 's \<Rightarrow> 's result" where
  "start_drivers initialise_virtio initialise_xhci d = (\<lambda>(header, dev) s.
     rbind (if hd_vendor_id header = 0x1AF4 then initialise_virtio header (pc_bar_list dev) s else Inr s) (\<lambda>s.
     if hd_class_code header = 0x0C \<and> hd_subclass header = 3 \<and> hd_prog_if header = 0x30 then initialise_xhci d dev s else Inr s))"

definition pci_functions :: "PciDevice list" where
  "pci_functions = concat (map (\<lambda>bus. concat (map (\<lambda>dev. map (\<lambda>fn.
     \<lparr>pd_function_number = of_nat fn, pd_device_number = of_nat dev, pd_bus_number = of_nat bus\<rparr>) [0..<8]) [0..<32])) [0..<256])"

definition initialise_pci :: "'p port_io \<Rightarrow> u64 \<Rightarrow> (PciConfigurationHeader \<Rightarrow> BarInfo list \<Rightarrow> 'p \<times> mmu \<times> 'h slot list \<Rightarrow> ('p \<times> mmu \<times> 'h slot list) result) \<Rightarrow>
    (PciDevice \<Rightarrow> PciData \<Rightarrow> 'p \<times> mmu \<times> 'h slot list \<Rightarrow> ('p \<times> mmu \<times> 'h slot list) result) \<Rightarrow> 'p \<times> mmu \<times> 'h slot list \<Rightarrow> ('p \<times> mmu \<times> 'h slot list) result" where
  "initialise_pci io lapic initialise_virtio initialise_xhci = rfold (\<lambda>d s.
     rbind (probe_function io lapic d s) (\<lambda>(found, s). case found of
       None \<Rightarrow> Inr s
     | Some dev \<Rightarrow> start_drivers initialise_virtio initialise_xhci d dev s)) pci_functions"

section \<open>The behaviour of configuration space\<close>

text \<open>
  Configuration space as the bus defines it: after an address was written to the first port, the second one reads and writes the
  register at that address; a register keeps the bits that cannot be written.
\<close>

definition pci_config :: "'p port_io \<Rightarrow> ('p \<Rightarrow> u32 \<Rightarrow> u32) \<Rightarrow> (u32 \<Rightarrow> u32) \<Rightarrow> bool" where
  "pci_config io cfg w \<longleftrightarrow>
     (\<forall>p a. fst (io_in32 io 0xCFC (io_out32 io 0xCF8 a p)) = cfg p a \<and> cfg (snd (io_in32 io 0xCFC (io_out32 io 0xCF8 a p))) = cfg p) \<and>
     (\<forall>p a v. cfg (io_out32 io 0xCFC v (io_out32 io 0xCF8 a p)) = (cfg p)(a := (cfg p a AND NOT (w a)) OR (v AND w a)))"

lemma config_access:
  assumes "pci_config io cfg w"
  shows "config_read io a p = (v, p') \<Longrightarrow> v = cfg p a \<and> cfg p' = cfg p"
    "cfg (config_write io a v p) = (cfg p)(a := (cfg p a AND NOT (w a)) OR (v AND w a))"
  using assms unfolding pci_config_def config_read_def config_write_def by (metis fst_conv snd_conv)+

lemma masked_bits: "(x AND NOT m) OR (x AND m) = (x :: 'a :: len word)" "((x AND NOT m) OR y AND m) AND NOT m = x AND NOT m"
  by (auto intro: bit_word_eqI simp: bit_simps)

lemma rewrite_same: "pci_config io cfg w \<Longrightarrow> cfg p a = v \<Longrightarrow> cfg (config_write io a v p) = cfg p"
  by (auto simp: config_access(2) masked_bits)

lemma bar_size_32:
  assumes c: "pci_config io cfg w" and v: "cfg p a = v" and g: "get_bar_size_32 io v a p = (s, p')"
  shows "s = - (w a OR (v AND NOT (w a)))" "cfg p' = cfg p"
proof -
  obtain r p1 where r: "config_read io a (config_write io a (NOT 0) p) = (r, p1)" by force
  note r' = config_access(1) [OF c r]
  have c1: "cfg p1 = (cfg p)(a := (v AND NOT (w a)) OR w a)" using r' v by (simp add: config_access(2) [OF c])
  have gs: "s = NOT r + 1" "p' = config_write io a v p1" using g r by (auto simp: get_bar_size_32_def Let_def)
  have "r = w a OR (v AND NOT (w a))" using r' v by (simp add: config_access(2) [OF c] or.commute)
  then show "s = - (w a OR (v AND NOT (w a)))" by (simp only: gs(1) minus_eq_not_plus_1)
  show "cfg p' = cfg p" using v by (auto simp: gs(2) config_access(2) [OF c] c1 fun_eq_iff intro!: bit_word_eqI simp: bit_simps)
qed

lemma bar_size_64:
  assumes c: "pci_config io cfg w" and v: "cfg p al = vl" "cfg p ah = vh" "al \<noteq> ah" and g: "get_bar_size_64 io vl vh al ah p = (s, p')"
  shows "s = - (push_bit 32 (ucast (w ah OR (vh AND NOT (w ah)))) OR ucast (w al OR (vl AND NOT (w al))))" "cfg p' = cfg p"
proof -
  let ?p = "config_write io ah (NOT 0) (config_write io al (NOT 0) p)"
  have c0: "cfg ?p = (cfg p)(al := (vl AND NOT (w al)) OR w al, ah := (vh AND NOT (w ah)) OR w ah)"
    using v by (auto simp: config_access(2) [OF c])
  obtain h p1 where h: "config_read io ah ?p = (h, p1)" by force
  obtain l p2 where l: "config_read io al p1 = (l, p2)" by force
  note h' = config_access(1) [OF c h] and l' = config_access(1) [OF c l]
  have gs: "s = NOT (push_bit 32 (ucast h) OR ucast l) + 1" "p' = config_write io ah vh (config_write io al vl p2)"
    using g h l by (auto simp: get_bar_size_64_def Let_def)
  have hl: "h = w ah OR (vh AND NOT (w ah))" "l = w al OR (vl AND NOT (w al))" using h' l' c0 v(3) by (simp_all add: or.commute)
  show "s = - (push_bit 32 (ucast (w ah OR (vh AND NOT (w ah)))) OR ucast (w al OR (vl AND NOT (w al))))"
    by (simp only: gs(1) hl minus_eq_not_plus_1)
  show "cfg p' = cfg p" using v h' l' c0 by (auto simp: gs(2) config_access(2) [OF c] fun_eq_iff intro!: bit_word_eqI simp: bit_simps)
qed

text \<open>A mask of the writable bits \<open>- sz\<close> and flags in the other bits: the size that the code computes is short by the flags.\<close>

lemma or_disjoint: "m AND f = 0 \<Longrightarrow> - (m OR f) = - m - (f :: 'a :: len word)"
proof -
  assume a: "m AND f = 0"
  have "\<not> bit m n \<or> \<not> bit f n" for n using arg_cong [OF a, of "\<lambda>x. bit x n"] by (simp add: bit_simps)
  then have "m + f = m OR f" by (rule disjunctive_add)
  then have "- (m OR f) = - (m + f)" by simp
  then show ?thesis by simp
qed

lemma join_and: "(push_bit 32 (ucast (a :: u32)) OR ucast (b :: u32)) AND (push_bit 32 (ucast c) OR ucast d) = (push_bit 32 (ucast (a AND c)) OR ucast (b AND d) :: u64)"
  by (rule bit_word_eqI) (auto simp: bit_simps dest: bit_imp_le_length)

lemma join_or: "(push_bit 32 (ucast (a OR c)) OR ucast (b OR d) :: u64) = (push_bit 32 (ucast (a :: u32)) OR ucast (b :: u32)) OR (push_bit 32 (ucast c) OR ucast d)"
  by (rule bit_word_eqI) (auto simp: bit_simps)

section \<open>Headers\<close>

lemma config_address_inj: "config_address d r = config_address d r' \<Longrightarrow> r = r'"
proof -
  have "(ucast (config_address d r) :: u8) = r" for r
  proof -
    have "(0x80000000 :: int) = 2 ^ 31" by simp
    then have "bit (0x80000000 :: int) n \<longleftrightarrow> n = 31" for n by (metis bit_exp_iff possible_bit_int)
    then show ?thesis unfolding config_address_def by (intro bit_word_eqI) (auto simp: bit_simps)
  qed
  then show "config_address d r = config_address d r' \<Longrightarrow> r = r'" by metis
qed

lemma read_dwords_eq:
  assumes "pci_config io cfg w"
  shows "read_dwords io d is p = (bs, p') \<Longrightarrow> bs = concat (map (\<lambda>i. bytes32 (cfg p (config_address d (of_nat i)))) is) \<and> cfg p' = cfg p"
proof (induction "is" arbitrary: p bs p')
  case (Cons i "is")
  obtain v p1 where v: "config_read io (config_address d (of_nat i)) p = (v, p1)" by force
  obtain bs1 p2 where bs: "read_dwords io d is p1 = (bs1, p2)" by force
  show ?case using Cons.prems Cons.IH [OF bs] config_access(1) [OF assms v] v bs by auto
qed simp

lemma concat_bytes32: "k < length vs \<Longrightarrow> take 4 (drop (4 * k) (concat (map bytes32 vs))) = bytes32 (vs ! k)"
proof (induction vs arbitrary: k)
  case (Cons v vs)
  have "length (bytes32 v) = 4" by (simp add: bytes32_def)
  then show ?case using Cons by (cases k) simp_all
qed simp

lemma le32_take: "le32 (take 4 bs) = le32 bs"
  by (simp add: le32_def)

lemma status_bit: "6 < length buf \<Longrightarrow> bit (le16 (drop 6 buf)) 4 = bit (le32 (drop 4 buf)) 20"
proof -
  have "\<not> bit (x :: u8) 12" "\<not> bit (x :: u8) 20" for x by (auto dest: bit_imp_le_length)
  then show "6 < length buf \<Longrightarrow> bit (le16 (drop 6 buf)) 4 = bit (le32 (drop 4 buf)) 20" by (simp add: le16_def le32_def bit_simps)
qed

text \<open>The bytes that \<open>read_header\<close> returns are the registers, and writing them back leaves the registers as they are.\<close>

lemma read_header_eq:
  assumes c: "pci_config io cfg w" and r: "read_header io d p = (buf, p')"
  shows "cfg p' = cfg p" "length buf = 256" "k < 64 \<Longrightarrow> le32 (drop (4 * k) buf) = cfg p (config_address d (of_nat (4 * k)))"
proof -
  let ?vs = "map (\<lambda>k. cfg p (config_address d (of_nat (4 * k)))) [0..<64]"
  have b: "buf = concat (map bytes32 ?vs)" "cfg p' = cfg p"
    using read_dwords_eq [OF c r [unfolded read_header_def]] by (simp_all add: comp_def)
  show "cfg p' = cfg p" by (rule b(2))
  have "length (concat (map bytes32 vs)) = 4 * length vs" for vs by (induction vs) (simp_all add: bytes32_def)
  then show "length buf = 256" unfolding b(1) by (simp only: length_map length_upt)
  show "le32 (drop (4 * k) buf) = cfg p (config_address d (of_nat (4 * k)))" if "k < 64"
  proof -
    have "le32 (drop (4 * k) buf) = le32 (take 4 (drop (4 * k) buf))" by (simp only: le32_take)
    also have "\<dots> = le32 (bytes32 (?vs ! k))" unfolding b(1) using that by (subst concat_bytes32) simp_all
    finally show ?thesis using that by simp
  qed
qed

lemma header_byte:
  assumes c: "pci_config io cfg w" and r: "read_header io d p = (buf, p')" and k: "k < 64" and j: "j < 4"
  shows "buf ! (4 * k + j) = bytes32 (cfg p (config_address d (of_nat (4 * k)))) ! j"
proof -
  let ?vs = "map (\<lambda>k. cfg p (config_address d (of_nat (4 * k)))) [0..<64]"
  have b: "buf = concat (map bytes32 ?vs)" using read_dwords_eq [OF c r [unfolded read_header_def]] by (simp add: comp_def)
  have "bytes32 (?vs ! k) ! j = take 4 (drop (4 * k) buf) ! j" unfolding b using k by (subst concat_bytes32) simp_all
  also have "\<dots> = buf ! (4 * k + j)" using read_header_eq(2) [OF c r] k j by simp
  finally show ?thesis using k by simp
qed

lemma write_header_same:
  assumes c: "pci_config io cfg w" and b: "\<And>k. k < 64 \<Longrightarrow> le32 (drop (4 * k) buf) = cfg p (config_address d (of_nat (4 * k)))"
  shows "cfg (write_header io d buf p) = cfg p"
proof -
  have "cfg (fold (\<lambda>i. config_write io (config_address d (of_nat i)) (le32 (drop i buf))) (map (\<lambda>k. 4 * k) ks) q) = cfg q"
    if "\<forall>k \<in> set ks. k < 64" "cfg q = cfg p" for ks q
    using that
  proof (induction ks arbitrary: q)
    case (Cons k ks)
    have "cfg (config_write io (config_address d (of_nat (4 * k))) (le32 (drop (4 * k) buf)) q) = cfg q"
      using b [of k] Cons.prems by (intro rewrite_same [OF c]) simp
    then show ?case using Cons by simp
  qed simp
  then show ?thesis unfolding write_header_def by simp
qed

lemma handle_bar_loop_keeps:
  assumes c: "pci_config io cfg w"
  shows "handle_bar_loop io d BAR i out (p, st) = Inr (out', p', st') \<Longrightarrow> (\<And>k. k < 6 \<Longrightarrow> BAR ! k = cfg p (config_address d (of_nat (0x10 + 4 * k)))) \<Longrightarrow>
    cfg p' = cfg p"
proof (induction "6 - i" arbitrary: i out p st rule: less_induct)
  case less
  note step = less.prems(1) [unfolded handle_bar_loop.simps [of io d BAR i out p st] Let_def]
  show ?case
  proof (cases "i < 6")
    case True
    let ?al = "config_address d (of_nat (0x10 + 4 * i))" and ?ah = "config_address d (of_nat (0x14 + 4 * i))" and ?v = "BAR ! i"
    have v: "cfg p ?al = ?v" using less.prems(2) [OF True] by simp
    obtain s1 p1 where g: "get_bar_size_32 io ?v ?al p = (s1, p1)" by force
    note k1 = bar_size_32(2) [OF c v g]
    consider "?v AND 1 \<noteq> 0 \<or> drop_bit 1 ?v AND 3 = 0" | "?v AND 1 = 0" "drop_bit 1 ?v AND 3 \<noteq> 0" "drop_bit 1 ?v AND 3 = 2" "i \<noteq> 5"
      using step True by (auto split: if_splits)
    then show ?thesis
    proof cases
      case 1
      then obtain out1 st1 where "handle_bar_loop io d BAR (i + 1) out1 (p1, st1) = Inr (out', p', st')"
        using step True g by (auto simp: rbind_eq_Inr_iff split: if_splits)
      then have "cfg p' = cfg p1" using less.prems(2) k1 True by (intro less.hyps [of "i + 1"]) auto
      then show ?thesis using k1 by simp
    next
      case 2
      have h: "cfg p ?ah = BAR ! (i + 1)" using less.prems(2) [of "i + 1"] 2(4) True by (simp add: algebra_simps)
      have "(of_nat (0x10 + 4 * i) :: u8) \<noteq> of_nat (0x14 + 4 * i)" by simp
      then have ne: "?al \<noteq> ?ah" using config_address_inj by blast
      obtain s2 p2 where g2: "get_bar_size_64 io ?v (BAR ! (i + 1)) ?al ?ah p = (s2, p2)" by force
      note k2 = bar_size_64(2) [OF c v h ne g2]
      obtain out1 st1 where "handle_bar_loop io d BAR (i + 2) out1 (p2, st1) = Inr (out', p', st')"
        using step True g2 2 by (auto simp: rbind_eq_Inr_iff split: if_splits)
      then have "cfg p' = cfg p2" using less.prems(2) k2 True by (intro less.hyps [of "i + 2"]) auto
      then show ?thesis using k2 by simp
    qed
  qed (use step in simp)
qed

section \<open>Walking the capabilities\<close>

text \<open>The pointers of a list of capabilities, from the one at the start on.\<close>

fun capability_chain :: "u8 list \<Rightarrow> u8 \<Rightarrow> u8 list \<Rightarrow> bool" where
  "capability_chain buf c [] \<longleftrightarrow> c = 0"
| "capability_chain buf c (q # qs) \<longleftrightarrow> c = q \<and> q \<noteq> 0 \<and> unat q < 255 \<and> capability_chain buf (buf ! (unat q + 1)) qs"

definition last_capability :: "u8 list \<Rightarrow> u8 \<Rightarrow> u8 list \<Rightarrow> u8 \<Rightarrow> u8" where
  "last_capability buf kind qs d = fold (\<lambda>q i. if buf ! unat q = kind then q + 2 else i) qs d"

lemma walk_chain:
  "capability_chain buf c qs \<Longrightarrow> walk_capability_list buf c a b = Some (Inr (last_capability buf 0x05 qs a, last_capability buf 0x11 qs b))"
proof (induction qs arbitrary: c a b)
  case Nil
  then show ?case by (subst walk_capability_list.simps) (simp add: last_capability_def)
next
  case (Cons q qs)
  then show ?case by (subst walk_capability_list.simps) (simp add: last_capability_def Let_def)
qed

lemma walk_stuck:
  assumes "walk_capability_list buf c a b = Some r"
  shows "\<not> (\<exists>S. c \<in> S \<and> (\<forall>q \<in> S. q \<noteq> 0 \<and> unat q < 255 \<and> buf ! (unat q + 1) \<in> S))"
proof (rule walk_capability_list.raw_induct [of "\<lambda>buf c a b r. \<not> (\<exists>S. c \<in> S \<and> (\<forall>q \<in> S. q \<noteq> 0 \<and> unat q < 255 \<and> buf ! (unat q + 1) \<in> S))", OF _ assms])
  fix f :: "u8 list \<Rightarrow> u8 \<Rightarrow> u8 \<Rightarrow> u8 \<Rightarrow> (u8 \<times> u8) result option" and buf c a b r
  assume IH: "\<And>buf c a b r. f buf c a b = Some r \<Longrightarrow> \<not> (\<exists>S. c \<in> S \<and> (\<forall>q \<in> S. q \<noteq> 0 \<and> unat q < 255 \<and> buf ! (unat q + 1) \<in> S))"
    and run: "(if c = 0 then Some (Inr (a, b)) else let capability_id = buf ! unat c; a = if capability_id = 0x05 then c + 2 else a;
      b = if capability_id = 0x11 then c + 2 else b in if unat c + 1 < 256 then f buf (buf ! (unat c + 1)) a b else Some (Inl WildAccess)) = Some r"
  show "\<not> (\<exists>S. c \<in> S \<and> (\<forall>q \<in> S. q \<noteq> 0 \<and> unat q < 255 \<and> buf ! (unat q + 1) \<in> S))"
  proof
    assume "\<exists>S. c \<in> S \<and> (\<forall>q \<in> S. q \<noteq> 0 \<and> unat q < 255 \<and> buf ! (unat q + 1) \<in> S)"
    then obtain S where S: "c \<in> S" "\<forall>q \<in> S. q \<noteq> 0 \<and> unat q < 255 \<and> buf ! (unat q + 1) \<in> S" by blast
    then obtain a' b' where "f buf (buf ! (unat c + 1)) a' b' = Some r" using run by (auto simp: Let_def)
    from IH [OF this] S show False by blast
  qed
qed

section \<open>Vectors\<close>

lemma allocate_idt_loop_spec:
  "(\<forall>i \<in> set is. hs ! i \<noteq> NullSlot) \<Longrightarrow> allocate_idt_loop is hs =
    (case find (\<lambda>i. hs ! i = UnusedSlot) is of None \<Rightarrow> Inl HCF | Some i \<Rightarrow> Inr (i, hs[i := AllocatedSlot]))"
  by (induction "is") (auto split: slot.splits)

lemma fold_update: "i < length hs \<Longrightarrow> fold (\<lambda>i hs. hs[i := x]) is hs ! i = (if i \<in> set is then x else hs ! i)"
  "length (fold (\<lambda>i hs. hs[i := x]) is hs) = length hs"
  by (induction "is" arbitrary: hs) (auto simp: nth_list_update)

lemma setup_idt_slots: "length hs = 256 \<Longrightarrow> length (snd (setup_idt f hs)) = 256 \<and> (\<forall>i. 33 \<le> i \<and> i < 256 \<longrightarrow> snd (setup_idt f hs) ! i = UnusedSlot)"
proof (intro conjI allI impI)
  assume n: "length hs = 256"
  show "length (snd (setup_idt f hs)) = 256" unfolding setup_idt_def snd_conv fold_update(2) by (rule n)
  fix i :: nat assume i: "33 \<le> i \<and> i < 256"
  then have "i \<in> set [33..<256]" unfolding set_upt by simp
  then show "snd (setup_idt f hs) ! i = UnusedSlot"
    unfolding setup_idt_def snd_conv using fold_update(1) [of i hs UnusedSlot "[33..<256]"] i n by (simp only: if_True)
qed

text \<open>Each allocation takes the first vector that is still free.\<close>

fun allocate_vectors :: "nat \<Rightarrow> 'h slot list \<Rightarrow> (nat list \<times> 'h slot list) result" where
  "allocate_vectors 0 hs = Inr ([], hs)"
| "allocate_vectors (Suc n) hs = rbind (allocate_free_idt_entry hs) (\<lambda>(v, hs). rbind (allocate_vectors n hs) (\<lambda>(vs, hs). Inr (v # vs, hs)))"

lemma find_upt: "a \<le> k \<Longrightarrow> k < b \<Longrightarrow> P k \<Longrightarrow> (\<forall>i. a \<le> i \<and> i < k \<longrightarrow> \<not> P i) \<Longrightarrow> find P [a..<b] = Some k"
  by (auto simp: find_Some_iff intro!: exI [of _ "k - a"])

lemma allocate_vectors_eq:
  assumes "length hs = 256" "\<forall>i. 33 \<le> i \<and> i < k \<longrightarrow> hs ! i = AllocatedSlot" "\<forall>i. k \<le> i \<and> i < 256 \<longrightarrow> hs ! i = UnusedSlot" "33 \<le> k" "k \<le> 256"
  shows "case allocate_vectors n hs of Inl f \<Rightarrow> f = HCF \<and> 256 < k + n | Inr (vs, hs') \<Rightarrow> vs = [k..<k + n] \<and> k + n \<le> 256"
  using assms
proof (induction n arbitrary: hs k)
  case (Suc n)
  have ok: "\<forall>i \<in> set [33..<256]. hs ! i \<noteq> NullSlot"
  proof
    fix i :: nat assume "i \<in> set [33..<256]"
    then have "33 \<le> i \<and> i < 256" unfolding set_upt by simp
    then show "hs ! i \<noteq> NullSlot" using Suc.prems(2,3) by (cases "i < k") auto
  qed
  show ?case
  proof (cases "k < 256")
    case True
    have "find (\<lambda>i. hs ! i = UnusedSlot) [33..<256] = Some k" using Suc.prems True by (intro find_upt) auto
    then have a: "allocate_free_idt_entry hs = Inr (k, hs[k := AllocatedSlot])" unfolding allocate_free_idt_entry_def allocate_idt_loop_spec [OF ok] by (simp only: option.case)
    have "case allocate_vectors n (hs[k := AllocatedSlot]) of Inl f \<Rightarrow> f = HCF \<and> 256 < Suc k + n | Inr (vs, hs') \<Rightarrow> vs = [Suc k..<Suc k + n] \<and> Suc k + n \<le> 256"
      using Suc.prems True by (intro Suc.IH) (auto simp: nth_list_update less_Suc_eq)
    then show ?thesis using a by (auto simp: upt_conv_Cons split: sum.splits)
  next
    case False
    then have "find (\<lambda>i. hs ! i = UnusedSlot) [33..<256] = None" using Suc.prems(2,5) unfolding find_None_iff set_upt by auto
    then have "allocate_free_idt_entry hs = Inl HCF" unfolding allocate_free_idt_entry_def allocate_idt_loop_spec [OF ok] by (simp only: option.case)
    then show ?thesis using False by simp
  qed
qed simp

lemma set_idt_entry_address:
  "ucast (id_address_low (set_idt_entry h)) OR push_bit 16 (ucast (id_address_mid (set_idt_entry h))) OR
     push_bit 32 (ucast (id_address_high (set_idt_entry h))) = (h :: u64)"
proof (rule bit_word_eqI)
  fix n :: nat assume "n < LENGTH(64)"
  then have n: "n < 64" by simp
  have m: "bit (0xFFFF :: int) k = (k < 16)" "bit (0xFFFFFFFF :: int) k = (k < 32)" for k
    using bit_mask_iff [where 'a = int, of 16 k] bit_mask_iff [where 'a = int, of 32 k] by (auto simp: mask_eq_exp_minus_1)
  consider "n < 16" | "16 \<le> n" "n < 32" | "32 \<le> n" by linarith
  then show "bit (ucast (id_address_low (set_idt_entry h)) OR push_bit 16 (ucast (id_address_mid (set_idt_entry h))) OR
     push_bit 32 (ucast (id_address_high (set_idt_entry h))) :: u64) n = bit h n"
    by cases (use n in \<open>auto simp: set_idt_entry_def bit_simps m\<close>)
qed

text \<open>Configuration space as a latched address and the registers, and the mask of a 64-bit register for an area of 16 KiB.\<close>

definition test_io :: "(u32 \<Rightarrow> u32) \<Rightarrow> (u32 \<times> (u32 \<Rightarrow> u32)) port_io" where
  "test_io w = \<lparr>io_out32 = (\<lambda>port v (a, r). if port = 0xCF8 then (v, r)
       else if port = 0xCFC then (a, r(a := (r a AND NOT (w a)) OR (v AND w a))) else (a, r)),
     io_in32 = (\<lambda>port (a, r). (if port = 0xCFC then r a else 0, a, r)), io_store32 = (\<lambda>_ _ p. p)\<rparr>"

lemma test_config: "pci_config (test_io w) snd w"
  by (auto simp: pci_config_def test_io_def)

definition test_mask :: "u32 \<Rightarrow> u32" where
  "test_mask a = (if a = 0x80000010 then 0xFFFFC000 else if a = 0x80000014 then 0xFFFFFFFF else 0)"

text \<open>A device with six I/O areas of 32 bytes and no capabilities.\<close>

definition test_regs :: "u32 \<Rightarrow> u32" where
  "test_regs a = (if a = 0x80000000 then 0x12348086 else if 0x80000010 \<le> a \<and> a \<le> 0x80000024 then 0xC001 else 0)"

definition test_device :: PciDevice where
  "test_device = \<lparr>pd_function_number = 0, pd_device_number = 0, pd_bus_number = 0\<rparr>"

lemma test_status: "\<not> bit (test_regs (config_address test_device 4)) 20"
  by (simp add: test_regs_def config_address_def test_device_def)

lemma test_header:
  assumes r: "read_header (test_io w) test_device (0, test_regs) = (buf, p1)"
  shows "hd_vendor_id (decode_pci_header buf) = 0x8086" "hd_header_type (decode_pci_header buf) = 0" "\<not> bit (hd_status (decode_pci_header buf)) 4"
    "hd_BAR (decode_pci_header buf) = replicate 6 0xC001"
proof -
  note e = read_header_eq [OF test_config r] and b = header_byte [OF test_config r]
  note defs = test_regs_def config_address_def test_device_def
  show "hd_vendor_id (decode_pci_header buf) = 0x8086" "hd_header_type (decode_pci_header buf) = 0"
    using b [of 0 0] b [of 0 1] b [of 3 2] by (simp_all add: decode_pci_header_def le16_def bytes32_def defs)
  show "\<not> bit (hd_status (decode_pci_header buf)) 4" using e(3) [of 1] e(2) test_status by (simp add: decode_pci_header_def status_bit)
  have "le32 (drop (0x10 + 4 * i) buf) = 0xC001" if "i < 6" for i
  proof -
    have "i \<in> {0, 1, 2, 3, 4, 5}" using that by auto
    then have "test_regs (config_address test_device (of_nat (4 * (i + 4)))) = 0xC001" by (auto simp: defs)
    then show ?thesis using e(3) [of "i + 4"] that by (simp add: algebra_simps)
  qed
  then show "hd_BAR (decode_pci_header buf) = replicate 6 0xC001" by (intro nth_equalityI) (simp_all add: decode_pci_header_def)
qed

lemma test_probe:
  "\<exists>found p'. probe_function (test_io (\<lambda>_. 0xFFFFFFE0)) 0xFEE00000 test_device ((0, test_regs), st, []) = Inr (Some found, p', st, [] :: unit slot list)"
proof -
  obtain buf p1 where h: "read_header (test_io (\<lambda>_. 0xFFFFFFE0)) test_device (0, test_regs) = (buf, p1)" by (metis surj_pair)
  show ?thesis
    by (simp add: probe_function_def h test_header [OF h] handle_bar_def handle_bar_loop.simps Let_def split: prod.splits)
qed

section \<open>Properties\<close>

text \<open>C27. Interrupt vectors. After \<open>setup_idt\<close>, whatever the table of handlers held before, the requests for vectors are answered with 33, 34 and so on, each once;
  the kernel halts exactly at the request for which none of the 223 vectors is left.\<close>

theorem vectors_are_distinct:
  assumes "length hs = 256"
  shows "case allocate_vectors n (snd (setup_idt vector_n_handlers hs)) of
    Inl f \<Rightarrow> f = HCF \<and> 223 < n | Inr (vs, hs') \<Rightarrow> vs = [33..<33 + n] \<and> distinct vs \<and> n \<le> 223"
proof -
  note s = setup_idt_slots [OF assms, of vector_n_handlers]
  have "case allocate_vectors n (snd (setup_idt vector_n_handlers hs)) of Inl f \<Rightarrow> f = HCF \<and> 256 < 33 + n | Inr (vs, hs') \<Rightarrow> vs = [33..<33 + n] \<and> 33 + n \<le> 256"
    using s by (intro allocate_vectors_eq) auto
  then show ?thesis by (auto split: sum.splits)
qed

theorem vectors_are_distinct_witness:
  "\<exists>hs'. allocate_vectors 2 (snd (setup_idt (\<lambda>_. 0) (replicate 256 NullSlot))) = Inr ([33, 34], hs' :: unit slot list)"
  using vectors_are_distinct [of "replicate 256 NullSlot :: unit slot list" 2 "\<lambda>_. 0"]
  by (simp del: upt_rec_numeral add: upt_rec split: sum.splits prod.splits)

text \<open>C28. Probing. On a device with documented configuration space that does not announce a list of capabilities, probing a function
  leaves every register of every device as it was, measured base address registers included, and takes no interrupt vector.\<close>

theorem probe_keeps_config:
  assumes c: "pci_config io cfg w" and r: "probe_function io lapic d (p, st, hs) = Inr (found, p', st', hs')"
    and s: "\<not> bit (cfg p (config_address d 4)) 20"
  shows "cfg p' = cfg p \<and> hs' = hs"
proof -
  obtain buf p1 where h: "read_header io d p = (buf, p1)" by force
  note e = read_header_eq [OF c h]
  have st: "\<not> bit (hd_status (decode_pci_header buf)) 4"
    using s e(3) [of 1] e(2) by (simp add: decode_pci_header_def status_bit)
  have "hd_BAR (decode_pci_header buf) ! k = cfg p1 (config_address d (of_nat (0x10 + 4 * k)))" if "k < 6" for k
    using that e(3) [of "k + 4"] e(1) by (simp add: decode_pci_header_def algebra_simps)
  note k = handle_bar_loop_keeps [OF c _ this]
  show ?thesis
    using r h st e(1) k by (auto simp: probe_function_def Let_def handle_bar_def rbind_eq_Inr_iff split: if_splits) 
qed

theorem probe_keeps_config_witness:
  "\<forall>st. \<exists>found p'. probe_function (test_io (\<lambda>_. 0xFFFFFFE0)) 0xFEE00000 test_device ((0, test_regs), st, []) =
     Inr (Some found, p', st, [] :: unit slot list) \<and> snd p' = test_regs"
  using test_probe probe_keeps_config [OF test_config, of "\<lambda>_. 0xFFFFFFE0" "0xFEE00000" test_device "(0, test_regs)"] test_status
  by (metis snd_conv)

text \<open>C38. Measuring base address registers. On a device with documented configuration space whose writable bits are those of a
  naturally aligned area of \<open>sz\<close> bytes, and whose other bits are flags, the size that the code computes is \<open>sz\<close>
  minus the flags: exactly the size for a register without flags, and 4 or 12 bytes too few for a 64-bit one. Afterwards every register has
  its old value.\<close>

theorem bar_size_is_short_by_flags:
  assumes "pci_config io cfg w" and "al \<noteq> ah"
  shows "(w al = - sz \<longrightarrow> (case get_bar_size_32 io (cfg p al) al p of (s, p') \<Rightarrow> s = sz - (cfg p al AND NOT (w al)) \<and> cfg p' = cfg p)) \<and>
    (push_bit 32 (ucast (w ah)) OR ucast (w al) = - sz64 \<and> cfg p ah AND NOT (w ah) = 0 \<longrightarrow>
      (case get_bar_size_64 io (cfg p al) (cfg p ah) al ah p of (s, p') \<Rightarrow> s = sz64 - ucast (cfg p al AND NOT (w al)) \<and> cfg p' = cfg p))"
proof (intro conjI impI)
  assume wm: "w al = - sz"
  obtain s p' where g: "get_bar_size_32 io (cfg p al) al p = (s, p')" by force
  have "w al AND (cfg p al AND NOT (w al)) = 0" by (rule bit_word_eqI) (auto simp: bit_simps)
  then show "case get_bar_size_32 io (cfg p al) al p of (s, p') \<Rightarrow> s = sz - (cfg p al AND NOT (w al)) \<and> cfg p' = cfg p"
    using bar_size_32 [OF assms(1) refl g] g wm by (simp add: or_disjoint)
next
  let ?f = "cfg p al AND NOT (w al)"
  assume wm: "push_bit 32 (ucast (w ah)) OR ucast (w al) = - sz64 \<and> cfg p ah AND NOT (w ah) = 0"
  obtain s p' where g: "get_bar_size_64 io (cfg p al) (cfg p ah) al ah p = (s, p')" by force
  have z: "w al AND ?f = 0" by (rule bit_word_eqI) (auto simp: bit_simps)
  have d: "(push_bit 32 (ucast (w ah)) OR ucast (w al)) AND (push_bit 32 (ucast (0 :: u32)) OR ucast ?f) = (0 :: u64)" unfolding join_and z by simp
  have "s = - ((push_bit 32 (ucast (w ah)) OR ucast (w al)) OR (push_bit 32 (ucast (0 :: u32)) OR ucast ?f))"
    using bar_size_64(1) [OF assms(1) refl refl assms(2) g] wm unfolding join_or [symmetric] by simp
  also have "\<dots> = sz64 - ucast ?f" unfolding or_disjoint [OF d] using wm by simp
  finally show "case get_bar_size_64 io (cfg p al) (cfg p ah) al ah p of (s, p') \<Rightarrow> s = sz64 - ucast ?f \<and> cfg p' = cfg p"
    using bar_size_64(2) [OF assms(1) refl refl assms(2) g] g by simp
qed

theorem bar_size_is_short_by_flags_witness:
  "\<exists>p'. get_bar_size_64 (test_io test_mask) 0xFEBF0004 0 0x80000010 0x80000014 (0, (\<lambda>_. 0)(0x80000010 := 0xFEBF0004)) = (0x3FFC, p') \<and>
     snd p' = (\<lambda>_. 0)(0x80000010 := 0xFEBF0004)"
  using bar_size_is_short_by_flags [OF test_config [of test_mask], of "0x80000010" "0x80000014" "0x4000" "(0, (\<lambda>_. 0)(0x80000010 := 0xFEBF0004))" "0x4000"]
  by (auto simp: test_mask_def split: prod.splits)

text \<open>C29. The list of capabilities. The walk of \<open>initialise_pci\<close> returns on every list that ends: with the positions behind the last MSI and the last
  MSI-X capability in it, or zero. It never returns when the pointers run into a cycle, which the device decides.\<close>

theorem capability_walk:
  "(capability_chain buf c qs \<longrightarrow>
      walk_capability_list buf c 0 0 = Some (Inr (last_capability buf 0x05 qs 0, last_capability buf 0x11 qs 0))) \<and>
   (c \<in> S \<and> (\<forall>q \<in> S. q \<noteq> 0 \<and> unat q < 255 \<and> buf ! (unat q + 1) \<in> S) \<longrightarrow> walk_capability_list buf c 0 0 = None)"
  using walk_chain [of buf c qs 0 0] walk_stuck [of buf c 0 0] by (cases "walk_capability_list buf c 0 0") auto

theorem capability_walk_witness:
  "walk_capability_list ((replicate 256 0)[0x40 := 0x05, 0x41 := 0x50, 0x50 := 0x11, 0x51 := 0]) 0x40 0 0 = Some (Inr (0x42, 0x52)) \<and>
   walk_capability_list ((replicate 256 0)[0x41 := 0x40]) 0x40 0 0 = None"
  using capability_walk [of "(replicate 256 0)[0x40 := 0x05, 0x41 := 0x50, 0x50 := 0x11, 0x51 := 0]" "0x40" "[0x40, 0x50]" "{}"]
    capability_walk [of "(replicate 256 0)[0x41 := 0x40]" "0x40" "[]" "{0x40}"]
  by (simp add: last_capability_def nth_list_update)

end
