(* ===== verification/Virtio.thy ===== *)
theory Virtio
  imports Pci Elf_Args Page_Memory
begin

text \<open>
  The virtio block device driver (\<open>stuos/src/virtio_driver.c\<close>): setting up the request queue, reading and writing a sector, and the
  registration of the disk.

  The device is hardware behind I/O ports that works on the memory the driver shares with it. It is a parameter, the record
  \<open>virtio_io\<close>: what the ports do, and what the device does to its state and to memory while the driver waits. \<open>virtio_disk\<close> and
  \<open>virtio_config\<close> state the documented behaviour of a device with the legacy interface, in terms of the memory layout of the queue: it serves
  requests once the driver has set \<open>DRIVER_OK\<close> in the status. What the driver's 32-bit write to the notification register does is not part of them:
  the register has 16 bits and the status lies behind it, so there are two kinds of device, \<open>dword_notifies\<close> and \<open>dword_resets\<close>. With the first
  kind the result is the contract \<open>sector_driver\<close>, on which the block layer and the file system rest; with the second the first request never ends.
\<close>

section \<open>State\<close>

text \<open>\<open>vi_step\<close> is what the device does during one \<open>spin_wait\<close>.\<close>

record 'h virtio_io =
  vi_in8 :: "u16 \<Rightarrow> 'h \<Rightarrow> u8 \<times> 'h"
  vi_in16 :: "u16 \<Rightarrow> 'h \<Rightarrow> u16 \<times> 'h"
  vi_out8 :: "u16 \<Rightarrow> u8 \<Rightarrow> 'h \<Rightarrow> 'h"
  vi_out16 :: "u16 \<Rightarrow> u16 \<Rightarrow> 'h \<Rightarrow> 'h"
  vi_out32 :: "u16 \<Rightarrow> u32 \<Rightarrow> 'h \<Rightarrow> 'h"
  vi_step :: "'h \<times> mem \<Rightarrow> 'h \<times> mem"

text \<open>Physical memory, the offset of the direct map through which the driver reaches it, the page allocator and the hardware.\<close>

record 'h vio =
  v_mem :: mem
  v_hhdm_offset :: u64
  v_slab :: slab
  v_hw :: 'h

definition v_hhdm :: "'h vio \<Rightarrow> u64 \<Rightarrow> u64" where
  "v_hhdm s p = p + v_hhdm_offset s"

definition v_store :: "u64 \<Rightarrow> u8 list \<Rightarrow> 'h vio \<Rightarrow> 'h vio" where
  "v_store p bs s = s\<lparr>v_mem := store_bytes (p - v_hhdm_offset s) bs (v_mem s)\<rparr>"

definition v_load :: "u64 \<Rightarrow> nat \<Rightarrow> 'h vio \<Rightarrow> u8 list" where
  "v_load p n s = mem_bytes (v_mem s) (p - v_hhdm_offset s) n"

definition v_spin :: "'h virtio_io \<Rightarrow> 'h vio \<Rightarrow> 'h vio" where
  "v_spin io s = (let (h, m) = vi_step io (v_hw s, v_mem s) in s\<lparr>v_hw := h, v_mem := m\<rparr>)"

section \<open>Structures\<close>

record VQBuffer =
  vq_Address :: u64
  vq_Length :: u32
  vq_Flags :: u16
  vq_Next :: u16

definition vqbuffer_bytes :: "VQBuffer \<Rightarrow> u8 list" where
  "vqbuffer_bytes b = bytes64 (vq_Address b) @ bytes32 (vq_Length b) @ bytes16 (vq_Flags b) @ bytes16 (vq_Next b)"

record VirtioQueueMetadata =
  vm_queue_size :: u16
  vm_buffers_arr :: u64
  vm_available_flags :: u64
  vm_available_index :: u64
  vm_available_ring_arr :: u64
  vm_used_flags :: u64
  vm_used_index :: u64
  vm_used_ring_arr :: u64

record VirtioBlockDevice =
  vb_bar_port :: u16
  vb_queue :: VirtioQueueMetadata

record BlockDevicePacket =
  bk_Type :: u32
  bk_Reserved :: u32
  bk_Sector :: u64
  bk_Data :: "u8 list"
  bk_Status :: u8

definition packet_bytes :: "BlockDevicePacket \<Rightarrow> u8 list" where
  "packet_bytes p = bytes32 (bk_Type p) @ bytes32 (bk_Reserved p) @ bytes64 (bk_Sector p) @ bk_Data p @ [bk_Status p]"

abbreviation PACKET_SIZE :: nat where "PACKET_SIZE \<equiv> 529"
abbreviation PLACEHOLDER_STATUS :: u8 where "PLACEHOLDER_STATUS \<equiv> 69"
abbreviation VQBufferFlagsWrite :: u16 where "VQBufferFlagsWrite \<equiv> 2"
abbreviation VQBufferFlagsNotLast :: u16 where "VQBufferFlagsNotLast \<equiv> 1"
abbreviation VQTypeRead :: u32 where "VQTypeRead \<equiv> 0"
abbreviation VQTypeWrite :: u32 where "VQTypeWrite \<equiv> 1"

section \<open>The queue\<close>

definition no_queue :: VirtioQueueMetadata where
  "no_queue = \<lparr>vm_queue_size = 0, vm_buffers_arr = 0, vm_available_flags = 0, vm_available_index = 0, vm_available_ring_arr = 0,
     vm_used_flags = 0, vm_used_index = 0, vm_used_ring_arr = 0\<rparr>"

definition first_part_pages :: "u16 \<Rightarrow> u64" where
  "first_part_pages sz = round_up_pages (16 * ucast sz + 2 + 2 + 2 * ucast sz + 2)"

definition second_part_pages :: "u16 \<Rightarrow> u64" where
  "second_part_pages sz = round_up_pages (2 + 2 + 8 * ucast sz + 2)"

definition initialise_queue :: "'h virtio_io \<Rightarrow> u64 \<Rightarrow> u32 \<Rightarrow> 'h vio \<Rightarrow> (VirtioQueueMetadata \<times> 'h vio) result" where
  "initialise_queue io bar_port queue_number s =
     (let h = vi_out16 io (ucast (bar_port + 14)) (ucast queue_number) (v_hw s);
          (sz, h) = vi_in16 io (ucast (bar_port + 12)) h;
          s = s\<lparr>v_hw := h\<rparr> in
      if sz = 0 then Inr (no_queue, s)
      else
        let total_pages = first_part_pages sz + second_part_pages sz in
        rbind (malloc_contiguous_phys total_pages (v_slab s)) (\<lambda>(first_part_phys, sl).
        let second_part_phys = first_part_phys + PAGE_SIZE * first_part_pages sz;
            s = s\<lparr>v_slab := sl, v_mem := snd (memset first_part_phys 0 (total_pages * PAGE_SIZE) (v_mem s))\<rparr>;
            s = s\<lparr>v_hw := vi_out32 io (ucast (bar_port + 8)) (ucast (first_part_phys div PAGE_SIZE)) (v_hw s)\<rparr>;
            flags = first_part_phys + 16 * ucast sz;
            r = \<lparr>vm_queue_size = sz, vm_buffers_arr = v_hhdm s first_part_phys, vm_available_flags = v_hhdm s flags,
                 vm_available_index = v_hhdm s (flags + 2), vm_available_ring_arr = v_hhdm s (flags + 4),
                 vm_used_flags = v_hhdm s second_part_phys, vm_used_index = v_hhdm s (second_part_phys + 2),
                 vm_used_ring_arr = v_hhdm s (second_part_phys + 4)\<rparr>
        in Inr (r, v_store (vm_available_flags r) (bytes16 1) s)))"

section \<open>Sectors\<close>

text \<open>The three buffers of a request for the packet, its place in the ring and the notification. \<open>data_flags\<close> are the flags of the buffer for the data.\<close>

definition queue_packet :: "'h virtio_io \<Rightarrow> VirtioBlockDevice \<Rightarrow> u64 \<Rightarrow> u16 \<Rightarrow> 'h vio \<Rightarrow> 'h vio" where
  "queue_packet io block_device packet_phys data_flags s =
     (let md = vb_queue block_device;
          s = v_store (vm_buffers_arr md) (vqbuffer_bytes \<lparr>vq_Address = packet_phys, vq_Length = 16, vq_Flags = VQBufferFlagsNotLast, vq_Next = 1\<rparr>) s;
          s = v_store (vm_buffers_arr md + 16) (vqbuffer_bytes \<lparr>vq_Address = packet_phys + 16, vq_Length = 512, vq_Flags = data_flags, vq_Next = 2\<rparr>) s;
          s = v_store (vm_buffers_arr md + 32) (vqbuffer_bytes \<lparr>vq_Address = packet_phys + 528, vq_Length = 1, vq_Flags = VQBufferFlagsWrite, vq_Next = 0\<rparr>) s;
          index = le16 (v_load (vm_available_index md) 2 s);
          ring_slot = index mod vm_queue_size md;
          s = v_store (vm_available_ring_arr md + 2 * ucast ring_slot) (bytes16 0) s;
          s = v_store (vm_available_index md) (bytes16 (index + 1)) s
      in s\<lparr>v_hw := vi_out32 io (vb_bar_port block_device + 16) 0 (v_hw s)\<rparr>)"

partial_function (option) wait_status :: "'h virtio_io \<Rightarrow> u64 \<Rightarrow> 'h vio \<Rightarrow> 'h vio option" where
  "wait_status io status s = (if v_load status 1 s = [PLACEHOLDER_STATUS] then wait_status io status (v_spin io s) else Some s)"

text \<open>From the notification to the check of the status.\<close>

definition finish_packet :: "'h virtio_io \<Rightarrow> u64 \<Rightarrow> 'h vio \<Rightarrow> 'h vio result" where
  "finish_packet io packet_hhdm s =
     (case wait_status io (packet_hhdm + 528) s of
        None \<Rightarrow> Inl Diverged
      | Some s \<Rightarrow> hcf_unless (v_load (packet_hhdm + 528) 1 s = [0]) (Inr s))"

definition free_packet :: "u64 \<Rightarrow> 'h vio \<Rightarrow> 'h vio result" where
  "free_packet packet_phys s = rbind (free4k_phys packet_phys (v_slab s)) (\<lambda>sl. Inr (s\<lparr>v_slab := sl\<rparr>))"

definition virtio_block_read :: "'h virtio_io \<Rightarrow> VirtioBlockDevice \<Rightarrow> u64 \<Rightarrow> 'h vio \<Rightarrow> (u8 list \<times> 'h vio) result" where
  "virtio_block_read io block_device sector_number s =
     hcf_unless (vm_queue_size (vb_queue block_device) \<noteq> 0)
      (rbind (malloc4k_phys (v_slab s)) (\<lambda>(packet_phys, sl).
       let packet_hhdm = v_hhdm s packet_phys;
           s = v_store packet_hhdm (packet_bytes \<lparr>bk_Type = VQTypeRead, bk_Reserved = 0, bk_Sector = sector_number,
                 bk_Data = replicate 512 0, bk_Status = PLACEHOLDER_STATUS\<rparr>) (s\<lparr>v_slab := sl\<rparr>) in
       rbind (finish_packet io packet_hhdm (queue_packet io block_device packet_phys (VQBufferFlagsNotLast OR VQBufferFlagsWrite) s)) (\<lambda>s.
       let data = v_load (packet_hhdm + 16) BLOCK_DEVICE_READ_SIZE s in
       rbind (free_packet packet_phys s) (\<lambda>s. Inr (data, s)))))"

definition virtio_block_write :: "'h virtio_io \<Rightarrow> VirtioBlockDevice \<Rightarrow> u64 \<Rightarrow> u8 list \<Rightarrow> 'h vio \<Rightarrow> 'h vio result" where
  "virtio_block_write io block_device sector_number input s =
     hcf_unless (vm_queue_size (vb_queue block_device) \<noteq> 0)
      (rbind (malloc4k_phys (v_slab s)) (\<lambda>(packet_phys, sl).
       let packet_hhdm = v_hhdm s packet_phys;
           s = v_store packet_hhdm (packet_bytes \<lparr>bk_Type = VQTypeWrite, bk_Reserved = 0, bk_Sector = sector_number,
                 bk_Data = replicate 512 0, bk_Status = PLACEHOLDER_STATUS\<rparr>) (s\<lparr>v_slab := sl\<rparr>);
           s = v_store (packet_hhdm + 16) input s in
       rbind (finish_packet io packet_hhdm (queue_packet io block_device packet_phys VQBufferFlagsNotLast s)) (free_packet packet_phys)))"

section \<open>Registration\<close>

definition out_status :: "'h virtio_io \<Rightarrow> u16 \<Rightarrow> u8 \<Rightarrow> 'h vio \<Rightarrow> 'h vio" where
  "out_status io bar_port v s = v_spin io (s\<lparr>v_hw := vi_out8 io (bar_port + 18) v (v_hw s)\<rparr>)"

definition in_status :: "'h virtio_io \<Rightarrow> u16 \<Rightarrow> 'h vio \<Rightarrow> 'h vio" where
  "in_status io bar_port s = s\<lparr>v_hw := snd (vi_in8 io (bar_port + 18) (v_hw s))\<rparr>"

text \<open>The structure that \<open>malloc\<close> provides for the device is the value that the two operations are given.\<close>

definition initialise_virtio :: "'h virtio_io \<Rightarrow> PciConfigurationHeader \<Rightarrow> BarInfo list \<Rightarrow> 'h vio devfs \<Rightarrow> 'h vio devfs result" where
  "initialise_virtio io header bar_list fs =
     hcf_unless (hd_vendor_id header = 0x1AF4) (hcf_unless (\<not> (hd_device_id header < 0x1000 \<or> hd_device_id header > 0x103F))
     (hcf_unless (hd_revision_id header = 0) (hcf_unless (bi_is_io_bar (bar_list ! 0))
      (let bar_port = ucast (bi_address (bar_list ! 0));
           s = in_status io bar_port (out_status io bar_port 0 (ds_drivers fs));
           s = in_status io bar_port (out_status io bar_port 3 s) in
       if hd_subsystem_id header = 2 then
         rbind (initialise_queue io (ucast bar_port) 0 s) (\<lambda>(queue, s).
         hcf_unless (vm_queue_size queue \<noteq> 0)
         (let s = in_status io bar_port (v_spin io s);
              dev_data = \<lparr>vb_bar_port = bar_port, vb_queue = queue\<rparr>;
              s = out_status io bar_port 7 s
          in fs_dev_add_block_device (virtio_block_read io dev_data) (virtio_block_write io dev_data) (fs\<lparr>ds_drivers := s\<rparr>)))
       else Inr (fs\<lparr>ds_drivers := s\<rparr>)))))"

section \<open>The device\<close>

text \<open>
  A disk with the legacy interface: the place and the size of its queue, the number of requests it has taken from the ring so far,
  whether it has been notified, its status register, and its sectors. The used ring starts at the first page boundary behind the available ring.
\<close>

record vblk =
  vk_base :: u64
  vk_size :: u16
  vk_seen :: u16
  vk_notified :: bool
  vk_status :: u8
  vk_sectors :: "nat \<Rightarrow> u8 list"

text \<open>The driver has set the bit \<open>DEVICE_STATUS_DRIVER_OK\<close>; and what a write of zero to the status does.\<close>

definition driver_ok :: "vblk \<Rightarrow> bool" where
  "driver_ok b \<longleftrightarrow> bit (vk_status b) 2"

definition reset_device :: "vblk \<Rightarrow> vblk" where
  "reset_device b = b\<lparr>vk_base := 0, vk_seen := 0, vk_notified := False, vk_status := 0\<rparr>"

definition in_used_ring :: "vblk \<Rightarrow> u64 \<Rightarrow> bool" where
  "in_used_ring b a \<longleftrightarrow> unat (a - (vk_base b + PAGE_SIZE * first_part_pages (vk_size b))) < 6 + 8 * unat (vk_size b)"

text \<open>The next request in the ring is a chain of these three buffers, and it is the only new one.\<close>

definition vq_chain :: "vblk \<Rightarrow> mem \<Rightarrow> VQBuffer \<Rightarrow> VQBuffer \<Rightarrow> VQBuffer \<Rightarrow> bool" where
  "vq_chain b m d0 d1 d2 \<longleftrightarrow> (let z = unat (vk_size b) in
     mem_bytes m (vk_base b + of_nat (16 * z + 2)) 2 = bytes16 (vk_seen b + 1) \<and>
     (\<exists>head. mem_bytes m (vk_base b + of_nat (16 * z + 4 + 2 * (unat (vk_seen b) mod z))) 2 = bytes16 head \<and>
        mem_bytes m (vk_base b + of_nat (16 * unat head)) 16 = vqbuffer_bytes d0) \<and>
     mem_bytes m (vk_base b + of_nat (16 * unat (vq_Next d0))) 16 = vqbuffer_bytes d1 \<and>
     mem_bytes m (vk_base b + of_nat (16 * unat (vq_Next d1))) 16 = vqbuffer_bytes d2)"

text \<open>The buffers ask for sector \<open>n\<close>: the header, the data and the status, of which the device writes the last and, in a read, the data.\<close>

definition blk_request :: "mem \<Rightarrow> VQBuffer \<Rightarrow> VQBuffer \<Rightarrow> VQBuffer \<Rightarrow> bool \<Rightarrow> nat \<Rightarrow> bool" where
  "blk_request m d0 d1 d2 is_read n \<longleftrightarrow> vq_Flags d0 = 1 \<and> vq_Length d0 = 16 \<and> vq_Flags d1 = (if is_read then 3 else 1) \<and> vq_Length d1 = 512 \<and>
     vq_Flags d2 = 2 \<and> vq_Length d2 = 1 \<and>
     mem_bytes m (vq_Address d0) 16 = bytes32 (if is_read then 0 else 1) @ bytes32 0 @ bytes64 (of_nat n)"

definition serve :: "bool \<Rightarrow> nat \<Rightarrow> VQBuffer \<Rightarrow> VQBuffer \<Rightarrow> vblk \<Rightarrow> mem \<Rightarrow> vblk \<times> mem" where
  "serve is_read n d1 d2 b m =
     (b\<lparr>vk_seen := vk_seen b + 1, vk_notified := False,
        vk_sectors := (if is_read then vk_sectors b else (vk_sectors b)(n := mem_bytes m (vq_Address d1) 512))\<rparr>,
      store_bytes (vq_Address d2) [0] (if is_read then store_bytes (vq_Address d1) (vk_sectors b n) m else m))"

text \<open>
  After a notification, and with \<open>DRIVER_OK\<close> set, the device serves the request, sooner or later: it moves the data, stores a status of zero
  and notes the request in the used ring. The status changes last.
\<close>

definition virtio_disk :: "'h virtio_io \<Rightarrow> ('h \<Rightarrow> vblk) \<Rightarrow> nat \<Rightarrow> bool" where
  "virtio_disk io \<alpha> nsect \<longleftrightarrow>
     (\<forall>h m d0 d1 d2 is_read n. vk_notified (\<alpha> h) \<and> driver_ok (\<alpha> h) \<and> vq_chain (\<alpha> h) m d0 d1 d2 \<and> blk_request m d0 d1 d2 is_read n \<and> n < nsect \<longrightarrow>
        (\<exists>k. (\<forall>j < k. snd ((vi_step io ^^ j) (h, m)) (vq_Address d2) = m (vq_Address d2)) \<and>
          (let (h', m') = (vi_step io ^^ k) (h, m); (b, served) = serve is_read n d1 d2 (\<alpha> h) m
           in \<alpha> h' = b \<and> (\<forall>a. \<not> in_used_ring (\<alpha> h) a \<longrightarrow> m' a = served a))))"

text \<open>
  The driver's notification is a 32-bit write of zero at offset 16. The virtio specification gives the register 16 bits, followed by the status
  register at offset 18. A device that selects the register by the address of the access takes the write as the notification of queue 0; one that
  takes it byte by byte is reset by it.
\<close>

definition dword_notifies :: "'h virtio_io \<Rightarrow> ('h \<Rightarrow> vblk) \<Rightarrow> u16 \<Rightarrow> bool" where
  "dword_notifies io \<alpha> port \<longleftrightarrow> (\<forall>h. \<alpha> (vi_out32 io (port + 16) 0 h) = (\<alpha> h)\<lparr>vk_notified := True\<rparr>)"

definition dword_resets :: "'h virtio_io \<Rightarrow> ('h \<Rightarrow> vblk) \<Rightarrow> u16 \<Rightarrow> bool" where
  "dword_resets io \<alpha> port \<longleftrightarrow> (\<forall>h. \<alpha> (vi_out32 io (port + 16) 0 h) = reset_device (\<alpha> h))"

lemma virtio_diskD:
  assumes "virtio_disk io \<alpha> nsect" "vk_notified (\<alpha> h)" "driver_ok (\<alpha> h)" "vq_chain (\<alpha> h) m d0 d1 d2" "blk_request m d0 d1 d2 is_read n" "n < nsect"
  shows "\<exists>k. (\<forall>j < k. snd ((vi_step io ^^ j) (h, m)) (vq_Address d2) = m (vq_Address d2)) \<and>
          (let (h', m') = (vi_step io ^^ k) (h, m); (b, served) = serve is_read n d1 d2 (\<alpha> h) m
           in \<alpha> h' = b \<and> (\<forall>a. \<not> in_used_ring (\<alpha> h) a \<longrightarrow> m' a = served a))"
  using assms unfolding virtio_disk_def by blast

section \<open>Waiting\<close>

lemma v_spin_pow: "(v_spin io ^^ k) s = (let (h, m) = (vi_step io ^^ k) (v_hw s, v_mem s) in s\<lparr>v_hw := h, v_mem := m\<rparr>)"
  by (induction k) (auto simp: v_spin_def Let_def split: prod.splits)

lemma wait_status_pow:
  assumes "\<And>j. j < k \<Longrightarrow> v_load p 1 ((v_spin io ^^ j) s) = [PLACEHOLDER_STATUS]" and "v_load p 1 ((v_spin io ^^ k) s) \<noteq> [PLACEHOLDER_STATUS]"
  shows "wait_status io p s = Some ((v_spin io ^^ k) s)"
  using assms
proof (induction k arbitrary: s)
  case 0
  then show ?case by (subst wait_status.simps) simp
next
  case (Suc k)
  have "wait_status io p (v_spin io s) = Some ((v_spin io ^^ k) (v_spin io s))"
  proof (rule Suc.IH)
    show "v_load p 1 ((v_spin io ^^ j) (v_spin io s)) = [PLACEHOLDER_STATUS]" if "j < k" for j
      using Suc.prems(1) [of "Suc j"] that by (simp add: funpow_Suc_right del: funpow.simps)
    show "v_load p 1 ((v_spin io ^^ k) (v_spin io s)) \<noteq> [PLACEHOLDER_STATUS]" using Suc.prems(2) by (simp add: funpow_Suc_right del: funpow.simps)
  qed
  moreover have "v_load p 1 s = [PLACEHOLDER_STATUS]" using Suc.prems(1) [of 0] by simp
  ultimately show ?case by (subst wait_status.simps) (simp add: funpow_Suc_right del: funpow.simps)
qed

section \<open>Bytes in the queue\<close>

lemma mem_bytes_other:
  assumes "unat q + length bs \<le> 2 ^ 64" "unat p + n \<le> 2 ^ 64" "unat p + n \<le> unat q \<or> unat q + length bs \<le> unat p"
  shows "mem_bytes (store_bytes q bs m) p n = mem_bytes m p n"
proof (rule mem_bytes_cong)
  fix i assume i: "i < n"
  then have "unat (p + of_nat i) = unat p + i"
    using assms(2) by (subst unat_add64) (simp_all add: unat_of_nat take_bit_nat_eq_self)
  then show "store_bytes q bs m (p + of_nat i) = m (p + of_nat i)" using assms i by (intro store_bytes_other) auto
qed

lemma unat_base: "unat (b :: u64) + x < 2 ^ 64 \<Longrightarrow> unat (b + of_nat x) = unat b + x"
  by (subst unat_add64) (simp_all add: unat_of_nat take_bit_nat_eq_self)

text \<open>The memory that \<open>queue_packet\<close> leaves.\<close>

definition desc :: "u64 \<Rightarrow> u32 \<Rightarrow> u16 \<Rightarrow> u16 \<Rightarrow> VQBuffer" where
  "desc a l f n = \<lparr>vq_Address = a, vq_Length = l, vq_Flags = f, vq_Next = n\<rparr>"

definition queue_mem :: "u64 \<Rightarrow> nat \<Rightarrow> u64 \<Rightarrow> u16 \<Rightarrow> u16 \<Rightarrow> mem \<Rightarrow> mem" where
  "queue_mem b z P f k m =
     store_bytes (b + of_nat (16 * z + 2)) (bytes16 (k + 1)) (store_bytes (b + of_nat (16 * z + 4 + 2 * (unat k mod z))) (bytes16 0)
     (store_bytes (b + of_nat 32) (vqbuffer_bytes (desc (P + 528) 1 2 0)) (store_bytes (b + of_nat 16) (vqbuffer_bytes (desc (P + 16) 512 f 2))
     (store_bytes (b + of_nat 0) (vqbuffer_bytes (desc P 16 1 1)) m))))"

lemma length_vq [simp]: "length (vqbuffer_bytes d) = 16" "length (bytes16 v) = 2" "length (bytes32 w) = 4"
  by (simp_all add: vqbuffer_bytes_def bytes16_def bytes32_def)

lemma queue_mem_reads:
  assumes r: "unat b + (18 * z + 6) \<le> 2 ^ 64" and z: "3 \<le> z"
  shows "mem_bytes (queue_mem b z P f k m) (b + of_nat (16 * z + 2)) 2 = bytes16 (k + 1)"
    "mem_bytes (queue_mem b z P f k m) (b + of_nat (16 * z + 4 + 2 * (unat k mod z))) 2 = bytes16 0"
    "mem_bytes (queue_mem b z P f k m) (b + of_nat 0) 16 = vqbuffer_bytes (desc P 16 1 1)"
    "mem_bytes (queue_mem b z P f k m) (b + of_nat 16) 16 = vqbuffer_bytes (desc (P + 16) 512 f 2)"
    "mem_bytes (queue_mem b z P f k m) (b + of_nat 32) 16 = vqbuffer_bytes (desc (P + 528) 1 2 0)"
proof -
  define j where "j = unat k mod z"
  have km: "j < z" using z by (simp add: j_def)
  have u: "unat (b + of_nat x) = unat b + x" if "x < 18 * z + 6" for x using that r by (intro unat_base) linarith
  note o = mem_bytes_other [of "b + of_nat x" bs "b + of_nat y" n for x bs y n]
  show "mem_bytes (queue_mem b z P f k m) (b + of_nat (16 * z + 2)) 2 = bytes16 (k + 1)" unfolding queue_mem_def by (subst mem_bytes_store) simp_all
  show "mem_bytes (queue_mem b z P f k m) (b + of_nat (16 * z + 4 + 2 * (unat k mod z))) 2 = bytes16 0"
    unfolding queue_mem_def j_def [symmetric] using u [of "16 * z + 2"] u [of "16 * z + 4 + 2 * j"] r z km
    by (subst o) (simp_all del: of_nat_add of_nat_mult of_nat_numeral)
  have lo: "mem_bytes (queue_mem b z P f k m) (b + of_nat y) 16 = mem_bytes (store_bytes (b + of_nat 32) (vqbuffer_bytes (desc (P + 528) 1 2 0))
     (store_bytes (b + of_nat 16) (vqbuffer_bytes (desc (P + 16) 512 f 2)) (store_bytes (b + of_nat 0) (vqbuffer_bytes (desc P 16 1 1)) m))) (b + of_nat y) 16"
    if "y \<le> 32" for y
    unfolding queue_mem_def j_def [symmetric] using u [of y] u [of "16 * z + 2"] u [of "16 * z + 4 + 2 * j"] r z km that
    by (subst o; (subst o)?) (simp_all del: of_nat_add of_nat_mult of_nat_numeral)
  show "mem_bytes (queue_mem b z P f k m) (b + of_nat 32) 16 = vqbuffer_bytes (desc (P + 528) 1 2 0)" by (subst lo) simp_all
  show "mem_bytes (queue_mem b z P f k m) (b + of_nat 16) 16 = vqbuffer_bytes (desc (P + 16) 512 f 2)"
    using u [of 16] u [of 32] r z by (subst lo; (subst o)?) (simp_all del: of_nat_add of_nat_mult of_nat_numeral)
  show "mem_bytes (queue_mem b z P f k m) (b + of_nat 0) 16 = vqbuffer_bytes (desc P 16 1 1)"
    using u [of 0] u [of 16] u [of 32] r z by (subst lo; (subst o)?; (subst o)?) (simp_all del: of_nat_add of_nat_mult of_nat_numeral of_nat_0)
qed

lemma queue_mem_outside:
  assumes r: "unat b + (18 * z + 6) \<le> 2 ^ 64" and z: "3 \<le> z" and a: "unat a < unat b \<or> unat b + (18 * z + 6) \<le> unat a"
  shows "queue_mem b z P f k m a = m a"
proof -
  define j where "j = unat k mod z"
  have km: "j < z" using z by (simp add: j_def)
  have u: "unat (b + of_nat x) = unat b + x" if "x < 18 * z + 6" for x using that r by (intro unat_base) linarith
  have o: "store_bytes (b + of_nat x) bs m' a = m' a" if "x + length bs \<le> 18 * z + 6" "bs \<noteq> []" for x bs m'
    using u [of x] that r a by (intro store_bytes_other) (cases bs; auto)+
  have ne: "vqbuffer_bytes d \<noteq> []" "bytes16 v \<noteq> []" for d v by (simp_all add: vqbuffer_bytes_def bytes16_def)
  show ?thesis unfolding queue_mem_def j_def [symmetric] using z km ne by (subst o; (subst o)?; (subst o)?; (subst o)?; (subst o)?) simp_all
qed

section \<open>Where the queue and the packet lie\<close>

text \<open>The queue of the device starts at page \<open>q\<close> of the pool.\<close>

definition queue_at :: "VirtioBlockDevice \<Rightarrow> nat \<Rightarrow> 'h vio \<Rightarrow> bool" where
  "queue_at dev q s \<longleftrightarrow> (let md = vb_queue dev; sz = vm_queue_size md; b = page_addr (v_slab s) q;
       n = unat (first_part_pages sz) + unat (second_part_pages sz) in
     3 \<le> unat sz \<and> q + n \<le> length (slab_flags (v_slab s)) \<and> (\<forall>j. q \<le> j \<and> j < q + n \<longrightarrow> slab_flags (v_slab s) ! j) \<and>
     vm_buffers_arr md = v_hhdm s b \<and> vm_available_index md = v_hhdm s (b + of_nat (16 * unat sz + 2)) \<and>
     vm_available_ring_arr md = v_hhdm s (b + of_nat (16 * unat sz + 4)))"

definition queue_ready :: "('h \<Rightarrow> vblk) \<Rightarrow> VirtioBlockDevice \<Rightarrow> nat \<Rightarrow> nat \<Rightarrow> 'h vio \<Rightarrow> bool" where
  "queue_ready \<alpha> dev nsect q s \<longleftrightarrow> (let b = \<alpha> (v_hw s); sz = vm_queue_size (vb_queue dev) in
     slab_wf (v_slab s) \<and> free_indices (v_slab s) \<noteq> {} \<and> queue_at dev q s \<and> vk_base b = page_addr (v_slab s) q \<and> vk_size b = sz \<and>
     mem_bytes (v_mem s) (page_addr (v_slab s) q + of_nat (16 * unat sz + 2)) 2 = bytes16 (vk_seen b) \<and>
     (\<forall>n < nsect. length (vk_sectors b n) = 512))"

definition virtio_ready :: "('h \<Rightarrow> vblk) \<Rightarrow> VirtioBlockDevice \<Rightarrow> nat \<Rightarrow> nat \<Rightarrow> 'h vio \<Rightarrow> bool" where
  "virtio_ready \<alpha> dev nsect q s \<longleftrightarrow> queue_ready \<alpha> dev nsect q s \<and> driver_ok (\<alpha> (v_hw s))"

lemma part_pages:
  "unat (first_part_pages sz) = (18 * unat sz + 6 + 4095) div 4096" "unat (second_part_pages sz) = (8 * unat sz + 6 + 4095) div 4096"
proof -
  have sz: "unat sz < 65536" using unsigned_less [where 'a = nat, of sz] by simp
  have "unat (ucast sz :: u64) = unat sz"
    by (simp add: unsigned_ucast_eq take_bit_nat_eq_self_iff order_less_le_trans [OF unsigned_less])
  then have "unat (16 * ucast sz + 2 + 2 + 2 * ucast sz + 2 :: u64) = 18 * unat sz + 6" "unat (2 + 2 + 8 * ucast sz + 2 :: u64) = 8 * unat sz + 6"
    using sz by (simp_all add: unat_word_ariths)
  then show "unat (first_part_pages sz) = (18 * unat sz + 6 + 4095) div 4096" "unat (second_part_pages sz) = (8 * unat sz + 6 + 4095) div 4096"
    using sz by (simp_all add: first_part_pages_def second_part_pages_def round_up_pages_unat)
qed

lemma queue_geometry:
  fixes s :: "'h vio"
  assumes wf: "slab_wf (v_slab s)" and q: "queue_at dev q s" and i: "i \<in> free_indices (v_slab s)"
  defines "B \<equiv> unat (page_addr (v_slab s) q)" and "A \<equiv> unat (page_addr (v_slab s) i)"
    and "F \<equiv> 4096 * unat (first_part_pages (vm_queue_size (vb_queue dev)))" and "G \<equiv> 4096 * unat (second_part_pages (vm_queue_size (vb_queue dev)))"
    and "z \<equiv> unat (vm_queue_size (vb_queue dev))"
  shows "3 \<le> z" "18 * z + 6 \<le> F" "8 * z + 6 \<le> G" "B + F + G < 2 ^ 64" "A + 4096 < 2 ^ 64" "A + 4096 \<le> B \<or> B + F + G \<le> A"
proof -
  let ?sl = "v_slab s"
  define N where "N = unat (first_part_pages (vm_queue_size (vb_queue dev))) + unat (second_part_pages (vm_queue_size (vb_queue dev)))"
  have n: "q + N \<le> length (slab_flags ?sl)" "\<forall>j. q \<le> j \<and> j < q + N \<longrightarrow> slab_flags ?sl ! j" and z: "3 \<le> z"
    using q by (simp_all add: queue_at_def Let_def z_def N_def)
  show "3 \<le> z" by (rule z)
  show "18 * z + 6 \<le> F" "8 * z + 6 \<le> G" unfolding F_def G_def z_def part_pages by linarith+
  have il: "i < length (slab_flags ?sl)" "\<not> slab_flags ?sl ! i" using i by (auto simp: free_indices_def)
  have u: "B = unat (physical_memory_base ?sl) + q * 4096" "A = unat (physical_memory_base ?sl) + i * 4096"
    using unat_page_addr [OF wf, of q] unat_page_addr [OF wf, of i] n(1) il(1) by (simp_all add: A_def B_def)
  have top: "unat (physical_memory_base ?sl) + length (slab_flags ?sl) * 4096 < 2 ^ 64" using wf by (simp add: slab_wf_def)
  have FG: "F + G = N * 4096" by (simp add: F_def G_def N_def algebra_simps)
  have "(q + N) * 4096 \<le> length (slab_flags ?sl) * 4096" "(i + 1) * 4096 \<le> length (slab_flags ?sl) * 4096" using n(1) il(1) by simp_all
  then show "B + F + G < 2 ^ 64" "A + 4096 < 2 ^ 64" using u top FG by (simp_all add: algebra_simps)
  have "i < q \<or> q + N \<le> i" using n(2) il(2) not_le by blast
  then have "(i + 1) * 4096 \<le> q * 4096 \<or> (q + N) * 4096 \<le> i * 4096" by auto
  then show "A + 4096 \<le> B \<or> B + F + G \<le> A" using u FG by (auto simp: algebra_simps)
qed

lemma in_used_ring_bounds:
  assumes "in_used_ring b a" "unat (vk_base b) + 4096 * unat (first_part_pages (vk_size b)) + g < 2 ^ 64" "6 + 8 * unat (vk_size b) \<le> g"
  shows "unat (vk_base b) + 4096 * unat (first_part_pages (vk_size b)) \<le> unat a \<and> unat a < unat (vk_base b) + 4096 * unat (first_part_pages (vk_size b)) + g"
proof -
  let ?f = "first_part_pages (vk_size b)" and ?u = "vk_base b + PAGE_SIZE * first_part_pages (vk_size b)"
  have "unat (PAGE_SIZE * ?f) = 4096 * unat ?f" using assms(2) by (simp add: unat_word_ariths)
  then have u: "unat ?u = unat (vk_base b) + 4096 * unat ?f" using assms(2) by (simp add: unat_add64)
  have d: "unat (a - ?u) < 6 + 8 * unat (vk_size b)" using assms(1) by (simp add: in_used_ring_def)
  then have "unat (?u + (a - ?u)) = unat ?u + unat (a - ?u)" using assms(2,3) u by (intro unat_add64) linarith
  then show ?thesis using d u assms(3) by simp
qed

section \<open>One request\<close>

lemma v_hhdm_cancel: "v_hhdm s p + k - v_hhdm_offset s = p + k" "v_hhdm s p - v_hhdm_offset s = p"
  by (simp_all add: v_hhdm_def)

lemma queue_packet_eq:
  assumes q: "queue_at dev q s0" "v_hhdm_offset s = v_hhdm_offset s0" and b: "b = page_addr (v_slab s0) q" and z: "z = unat (vm_queue_size (vb_queue dev))"
    and r: "unat b + (18 * z + 6) \<le> 2 ^ 64" "3 \<le> z" and k: "mem_bytes (v_mem s) (b + of_nat (16 * z + 2)) 2 = bytes16 k"
  shows "queue_packet io dev P f s = s\<lparr>v_mem := queue_mem b z P f k (v_mem s), v_hw := vi_out32 io (vb_bar_port dev + 16) 0 (v_hw s)\<rparr>"
proof -
  let ?md = "vb_queue dev"
  have hh: "v_hhdm s0 = v_hhdm s" using q(2) by (simp add: v_hhdm_def fun_eq_iff)
  have md: "vm_buffers_arr ?md = v_hhdm s b" "vm_available_index ?md = v_hhdm s (b + of_nat (16 * z + 2))" "vm_available_ring_arr ?md = v_hhdm s (b + of_nat (16 * z + 4))"
    using q(1) b z hh by (simp_all add: queue_at_def Let_def)
  define m3 where "m3 = store_bytes (b + 32) (vqbuffer_bytes (desc (P + 528) 1 2 0)) (store_bytes (b + 16) (vqbuffer_bytes (desc (P + 16) 512 f 2))
     (store_bytes b (vqbuffer_bytes (desc P 16 1 1)) (v_mem s)))"
  have u: "unat (b + of_nat x) = unat b + x" if "x < 18 * z + 6" for x using that r by (intro unat_base) linarith
  have "mem_bytes m3 (b + of_nat (16 * z + 2)) 2 = bytes16 k"
    unfolding m3_def k [symmetric] using u [of "16 * z + 2"] u [of 32] u [of 16] r
    by (subst mem_bytes_other; (subst mem_bytes_other)?; (subst mem_bytes_other)?) (simp_all del: of_nat_add of_nat_mult)
  then have idx: "le16 (v_load (vm_available_index ?md) 2 (s\<lparr>v_mem := m3\<rparr>)) = k" unfolding md by (simp add: v_load_def v_hhdm_cancel)
  have ring: "v_hhdm s (b + of_nat (16 * z + 4)) + 2 * ucast (k mod vm_queue_size ?md) - v_hhdm_offset s = b + of_nat (16 * z + 4 + 2 * (unat k mod z))"
    unfolding v_hhdm_cancel z by (simp add: unat_mod [symmetric] del: of_nat_mult of_nat_add) (simp add: algebra_simps)
  show ?thesis unfolding queue_packet_def Let_def
    using idx ring md by (simp add: v_store_def v_load_def v_hhdm_cancel m3_def queue_mem_def desc_def add.assoc)
qed

text \<open>The packet lies in a free page, and memory elsewhere is as it was: queueing it changes the queue only.\<close>

lemma packet_queued:
  fixes s s1 :: "'h vio" and f :: u16
  assumes ready: "queue_ready \<alpha> dev nsect q s" and i: "i \<in> free_indices (v_slab s)"
  defines "P \<equiv> page_addr (v_slab s) i" and "b \<equiv> \<alpha> (v_hw s)" and "z \<equiv> unat (vm_queue_size (vb_queue dev))"
  assumes s1: "v_hw s1 = v_hw s" "v_hhdm_offset s1 = v_hhdm_offset s" "\<And>a. unat a < unat P \<or> unat P + 4096 \<le> unat a \<Longrightarrow> v_mem s1 a = v_mem s a"
  defines "m \<equiv> queue_mem (vk_base b) z P f (vk_seen b) (v_mem s1)"
  shows "queue_packet io dev P f s1 = s1\<lparr>v_mem := m, v_hw := vi_out32 io (vb_bar_port dev + 16) 0 (v_hw s)\<rparr>"
    and "x < 4096 \<Longrightarrow> m (P + of_nat x) = v_mem s1 (P + of_nat x)"
proof -
  have wf: "slab_wf (v_slab s)" and qa: "queue_at dev q s" and base: "vk_base b = page_addr (v_slab s) q" and size: "vk_size b = vm_queue_size (vb_queue dev)"
    and seen: "mem_bytes (v_mem s) (vk_base b + of_nat (16 * z + 2)) 2 = bytes16 (vk_seen b)"
    using ready by (simp_all add: queue_ready_def Let_def b_def z_def)
  let ?B = "vk_base b"
  note geo = queue_geometry [OF wf qa i, folded z_def base size P_def]
  have rng: "unat ?B + (18 * z + 6) \<le> 2 ^ 64" using geo(2,4) by linarith
  have bu: "unat (?B + of_nat x) = unat ?B + x" if "x < 18 * z + 6" for x using that geo(2,4) by (intro unat_base) linarith
  have k: "mem_bytes (v_mem s1) (?B + of_nat (16 * z + 2)) 2 = bytes16 (vk_seen b)"
    unfolding seen [symmetric]
  proof (rule mem_bytes_cong)
    fix j :: nat assume j: "j < 2"
    have "?B + of_nat (16 * z + 2) + of_nat j = ?B + of_nat (16 * z + 2 + j)" by (simp add: add.assoc)
    moreover have "unat (?B + of_nat (16 * z + 2 + j)) = unat ?B + (16 * z + 2 + j)" using j geo(1) by (intro bu) linarith
    ultimately show "v_mem s1 (?B + of_nat (16 * z + 2) + of_nat j) = v_mem s (?B + of_nat (16 * z + 2) + of_nat j)"
      using j geo(1,2,6) by (intro s1(3)) (simp only:, linarith)
  qed
  show "queue_packet io dev P f s1 = s1\<lparr>v_mem := m, v_hw := vi_out32 io (vb_bar_port dev + 16) 0 (v_hw s)\<rparr>"
    using queue_packet_eq [OF qa s1(2) base z_def [THEN meta_eq_to_obj_eq] rng geo(1) k] by (simp add: m_def s1(1))
  assume x: "x < 4096"
  then have "unat (P + of_nat x) = unat P + x" using geo(5) by (intro unat_base) linarith
  then show "m (P + of_nat x) = v_mem s1 (P + of_nat x)"
    unfolding m_def using x geo(2,6) by (intro queue_mem_outside [OF rng geo(1)]) linarith
qed

text \<open>Then the request is served, and the driver sees it.\<close>

lemma request_served:
  fixes s s1 :: "'h vio" and i n :: nat and is_read :: bool
  assumes law: "virtio_disk io \<alpha> nsect" and bell: "dword_notifies io \<alpha> (vb_bar_port dev)" and ready: "virtio_ready \<alpha> dev nsect q s"
    and i: "i \<in> free_indices (v_slab s)" and n: "n < nsect"
  defines "P \<equiv> page_addr (v_slab s) i" and "b \<equiv> \<alpha> (v_hw s)"
  defines "b' \<equiv> b\<lparr>vk_seen := vk_seen b + 1, vk_notified := False,
      vk_sectors := (if is_read then vk_sectors b else (vk_sectors b)(n := mem_bytes (v_mem s1) (P + 16) 512))\<rparr>"
  assumes s1: "v_hw s1 = v_hw s" "v_hhdm_offset s1 = v_hhdm_offset s" "\<And>a. unat a < unat P \<or> unat P + 4096 \<le> unat a \<Longrightarrow> v_mem s1 a = v_mem s a"
    and packet: "mem_bytes (v_mem s1) P 16 = bytes32 (if is_read then 0 else 1) @ bytes32 0 @ bytes64 (of_nat n)" "v_mem s1 (P + 528) = PLACEHOLDER_STATUS"
  shows "\<exists>s2. finish_packet io (v_hhdm s P) (queue_packet io dev P (if is_read then 3 else 1) s1) = Inr s2 \<and> v_slab s2 = v_slab s1 \<and>
    v_hhdm_offset s2 = v_hhdm_offset s \<and> \<alpha> (v_hw s2) = b' \<and>
    mem_bytes (v_mem s2) (vk_base b + of_nat (16 * unat (vk_size b) + 2)) 2 = bytes16 (vk_seen b + 1) \<and>
    (is_read \<longrightarrow> mem_bytes (v_mem s2) (P + 16) 512 = vk_sectors b n)"
proof -
  define z where "z = unat (vm_queue_size (vb_queue dev))"
  define f :: u16 where "f = (if is_read then 3 else 1)"
  have qr: "queue_ready \<alpha> dev nsect q s" and dok: "driver_ok b" using ready by (simp_all add: virtio_ready_def b_def)
  have wf: "slab_wf (v_slab s)" and qa: "queue_at dev q s" and base: "vk_base b = page_addr (v_slab s) q" and size: "vk_size b = vm_queue_size (vb_queue dev)"
    and sect: "length (vk_sectors b n) = 512"
    using qr n by (simp_all add: queue_ready_def Let_def b_def)
  let ?B = "vk_base b" and ?F = "4096 * unat (first_part_pages (vk_size b))" and ?G = "4096 * unat (second_part_pages (vk_size b))"
  note geo = queue_geometry [OF wf qa i, folded z_def base size P_def]
  have rng: "unat ?B + (18 * z + 6) \<le> 2 ^ 64" using geo(2,4) by linarith
  have pu: "unat (P + of_nat x) = unat P + x" if "x < 4096" for x using that geo(5) by (intro unat_base) linarith
  have bu: "unat (?B + of_nat x) = unat ?B + x" if "x < 18 * z + 6" for x using that geo(2,4) by (intro unat_base) linarith
  define m where "m = queue_mem ?B z P f (vk_seen b) (v_mem s1)"
  define h where "h = vi_out32 io (vb_bar_port dev + 16) 0 (v_hw s)"
  note queued = packet_queued [where f = f, OF qr i s1 [unfolded P_def], folded P_def b_def z_def, folded m_def]
  have qp: "queue_packet io dev P f s1 = s1\<lparr>v_mem := m, v_hw := h\<rparr>" using queued(1) by (simp add: h_def)
  have ah: "\<alpha> h = b\<lparr>vk_notified := True\<rparr>" using bell by (simp add: dword_notifies_def h_def b_def)
  let ?d0 = "desc P 16 1 1" and ?d1 = "desc (P + 16) 512 f 2" and ?d2 = "desc (P + 528) 1 2 0"
  have chain: "vq_chain (\<alpha> h) m ?d0 ?d1 ?d2"
    using queue_mem_reads [OF rng geo(1), of P f "vk_seen b" "v_mem s1"] unfolding vq_chain_def ah Let_def
    by (simp add: size z_def [symmetric] m_def desc_def del: of_nat_add of_nat_mult) (auto intro!: exI [of _ 0])
  \<comment> \<open>the packet\<close>
  note pm = queued(2)
  have pbytes: "mem_bytes m (P + of_nat x) l = mem_bytes (v_mem s1) (P + of_nat x) l" if "x + l \<le> 4096" for x l
  proof (rule mem_bytes_cong)
    fix j assume "j < l"
    then show "m (P + of_nat x + of_nat j) = v_mem s1 (P + of_nat x + of_nat j)" using pm [of "x + j"] that by (simp add: add.assoc)
  qed
  have req: "blk_request m ?d0 ?d1 ?d2 is_read n"
    using pbytes [of 0 16] packet(1) by (simp add: blk_request_def desc_def f_def)
  have "vk_notified (\<alpha> h)" "driver_ok (\<alpha> h)" using dok by (simp_all add: ah driver_ok_def)
  from virtio_diskD [OF law this chain req n] obtain t where t: "\<forall>j < t. snd ((vi_step io ^^ j) (h, m)) (P + 528) = m (P + 528)"
    "let (h', m') = (vi_step io ^^ t) (h, m); (b2, served) = serve is_read n ?d1 ?d2 (\<alpha> h) m
       in \<alpha> h' = b2 \<and> (\<forall>a. \<not> in_used_ring (\<alpha> h) a \<longrightarrow> m' a = served a)"
    by (auto simp: desc_def)
  obtain h' m' where hm: "(vi_step io ^^ t) (h, m) = (h', m')" by (metis surj_pair)
  define sm where "sm = store_bytes (P + 528) [0] (if is_read then store_bytes (P + 16) (vk_sectors b n) m else m)"
  have b': "\<alpha> h' = b'" and m': "\<And>a. \<not> in_used_ring b a \<Longrightarrow> m' a = sm a"
    using t(2) pbytes [of 16 512] unfolding hm by (simp_all add: serve_def ah sm_def b'_def desc_def in_used_ring_def)
  have free: "\<not> in_used_ring b a" if "unat a < unat ?B + ?F \<or> unat ?B + ?F + ?G \<le> unat a" for a
    using in_used_ring_bounds [of b a ?G] geo(3,4) that size by (auto simp: z_def)
  \<comment> \<open>what the driver sees\<close>
  have view: "m' (P + of_nat x) = sm (P + of_nat x)" if "x < 4096" for x using pu [OF that] that geo(6) by (intro m' free) linarith
  have st: "m' (P + 528) = 0" using view [of 528] by (simp add: sm_def store_bytes_def)
  let ?s = "s1\<lparr>v_mem := m, v_hw := h\<rparr>" and ?s2 = "s1\<lparr>v_mem := m', v_hw := h'\<rparr>"
  have pw: "(v_spin io ^^ j) ?s = s1\<lparr>v_mem := snd ((vi_step io ^^ j) (h, m)), v_hw := fst ((vi_step io ^^ j) (h, m))\<rparr>" for j
    by (simp add: v_spin_pow Let_def split: prod.splits)
  have ld: "v_load (v_hhdm s P + 528) (Suc 0) (s1\<lparr>v_mem := x, v_hw := y\<rparr>) = [x (P + 528)]" for x y
    by (simp add: v_load_def v_hhdm_def s1(2) mem_bytes_def)
  have "m (P + 528) = PLACEHOLDER_STATUS" using pm [of 528] packet(2) by simp
  then have "wait_status io (v_hhdm s P + 528) ?s = Some ((v_spin io ^^ t) ?s)"
    using t(1) st hm by (intro wait_status_pow) (simp_all add: pw ld)
  then have fin: "finish_packet io (v_hhdm s P) ?s = Inr ?s2" using hm st by (simp add: finish_packet_def pw ld hcf_unless_def)
  have "mem_bytes m' (?B + of_nat (16 * z + 2)) 2 = mem_bytes m (?B + of_nat (16 * z + 2)) 2"
  proof (rule mem_bytes_cong)
    fix j :: nat assume j: "j < 2"
    let ?a = "?B + of_nat (16 * z + 2) + of_nat j"
    have "?a = ?B + of_nat (16 * z + 2 + j)" by (simp add: add.assoc)
    moreover have "unat (?B + of_nat (16 * z + 2 + j)) = unat ?B + (16 * z + 2 + j)" using j geo(1) by (intro bu) linarith
    ultimately have a: "unat ?a = unat ?B + (16 * z + 2 + j)" by (simp only:)
    then have "m' ?a = sm ?a" using j geo(1,2) by (intro m' free) linarith
    also have "\<dots> = m ?a"
    proof -
      have p: "unat (P + 528) = unat P + 528" "unat (P + 16) = unat P + 16" using pu [of 528] pu [of 16] by simp_all
      have "unat ?a < unat P \<or> unat P + 4096 \<le> unat ?a" unfolding a using j geo(1,2,6) by linarith
      then have "store_bytes (P + 528) [0] x ?a = x ?a" "store_bytes (P + 16) (vk_sectors b n) x ?a = x ?a" for x
        using p geo(5) sect by (intro store_bytes_other; force)+
      then show ?thesis unfolding sm_def by (simp only: if_split) simp
    qed
    finally show "m' ?a = m ?a" .
  qed
  then have idx: "mem_bytes m' (?B + of_nat (16 * z + 2)) 2 = bytes16 (vk_seen b + 1)"
    using queue_mem_reads(1) [OF rng geo(1)] by (simp add: m_def)
  have data: "mem_bytes m' (P + 16) 512 = vk_sectors b n" if "is_read"
  proof (rule nth_equalityI)
    fix j assume j: "j < length (mem_bytes m' (P + 16) 512)"
    then have "unat (of_nat j :: u64) \<noteq> unat (512 :: u64)" by (simp add: unat_of_nat take_bit_nat_eq_self)
    then have nat_neq: "unat (of_nat j - 512 :: u64) \<noteq> 0" by (metis eq_iff_diff_eq_0 unat_eq_zero)
    have "m' (P + of_nat (16 + j)) = sm (P + of_nat (16 + j))" using j by (intro view) simp
    also have "\<dots> = vk_sectors b n ! j"
      using j that sect nat_neq by (simp add: sm_def store_bytes_def unat_of_nat take_bit_nat_eq_self)
    finally show "mem_bytes m' (P + 16) 512 ! j = vk_sectors b n ! j" using j by (simp add: mem_bytes_def add.assoc)
  qed (simp add: sect)
  show ?thesis
    by (rule exI [of _ ?s2]) (use fin qp b' idx data size in \<open>simp add: f_def s1(2) z_def\<close>)
qed

section \<open>Reading and writing\<close>

lemma store_prefix: "length bs < 2 ^ 64 \<Longrightarrow> n \<le> length bs \<Longrightarrow> mem_bytes (store_bytes p bs m) p n = take n bs"
  by (auto intro!: nth_equalityI simp: mem_bytes_def store_bytes_def unat_of_nat take_bit_nat_eq_self)

lemma mark_unmark: "i \<in> free_indices sl \<Longrightarrow> mark (mark sl i True) i False = sl"
  by (simp add: mark_def free_indices_def list_update_same_conv)

lemma ready_page:
  assumes "queue_ready \<alpha> dev nsect q s"
  obtains i where "i \<in> free_indices (v_slab s)" "malloc4k_phys (v_slab s) = Inr (page_addr (v_slab s) i, mark (v_slab s) i True)"
    "free4k_phys (page_addr (v_slab s) i) (mark (v_slab s) i True) = Inr (v_slab s)" "unat (page_addr (v_slab s) i) + 4096 < 2 ^ 64"
    "vm_queue_size (vb_queue dev) \<noteq> 0"
proof -
  have wf: "slab_wf (v_slab s)" and ne: "free_indices (v_slab s) \<noteq> {}" and qa: "queue_at dev q s"
    using assms by (simp_all add: queue_ready_def Let_def)
  obtain i where i: "i \<in> free_indices (v_slab s)" and al: "malloc4k_phys (v_slab s) = Inr (page_addr (v_slab s) i, mark (v_slab s) i True)"
    using alloc_one(1) [OF wf ne] by blast
  note geo = queue_geometry [OF wf qa i]
  have "free4k_phys (page_addr (v_slab s) i) (mark (v_slab s) i True) = Inr (v_slab s)"
    using free_one(1) [of "mark (v_slab s) i True" i] wf i mark_unmark [OF i] by (simp add: free_indices_def)
  moreover have "vm_queue_size (vb_queue dev) \<noteq> 0" using geo(1) by auto
  ultimately show thesis using that i al geo(5) by blast
qed

text \<open>The packet as the driver stores it in its page.\<close>

lemma stored_packet:
  fixes m :: mem and P n :: u64 and input :: "u8 list"
  assumes P: "unat P + 4096 < 2 ^ 64" and d: "length input = 512"
  defines "pk t \<equiv> packet_bytes \<lparr>bk_Type = t, bk_Reserved = 0, bk_Sector = n, bk_Data = replicate 512 0, bk_Status = PLACEHOLDER_STATUS\<rparr>"
  defines "m1 t \<equiv> store_bytes P (pk t) m"
  defines "m2 t \<equiv> store_bytes (P + 16) input (m1 t)"
  shows "unat a < unat P \<or> unat P + 4096 \<le> unat a \<Longrightarrow> m1 t a = m a \<and> m2 t a = m a"
    and "mem_bytes (m1 t) P 16 = bytes32 t @ bytes32 0 @ bytes64 n" "mem_bytes (m2 t) P 16 = bytes32 t @ bytes32 0 @ bytes64 n"
    and "m1 t (P + 528) = PLACEHOLDER_STATUS" "m2 t (P + 528) = PLACEHOLDER_STATUS" "mem_bytes (m2 t) (P + 16) 512 = input"
proof -
  have len: "length (pk t) = 529" for t by (simp add: pk_def packet_bytes_def)
  have u: "unat (P + 16) = unat P + 16" "unat (P + 528) = unat P + 528" using unat_base [of P 16] unat_base [of P 528] P by simp_all
  show "m1 t a = m a \<and> m2 t a = m a" if "unat a < unat P \<or> unat P + 4096 \<le> unat a"
  proof
    show "m1 t a = m a" unfolding m1_def using that P len [of t] by (intro store_bytes_other) auto
    then show "m2 t a = m a" unfolding m2_def using that P d u by (subst store_bytes_other) auto
  qed
  show one: "mem_bytes (m1 t) P 16 = bytes32 t @ bytes32 0 @ bytes64 n"
    unfolding m1_def using len [of t] by (subst store_prefix) (simp_all add: pk_def packet_bytes_def)
  show "mem_bytes (m2 t) P 16 = bytes32 t @ bytes32 0 @ bytes64 n"
    unfolding m2_def one [symmetric] using u P d by (intro mem_bytes_other) simp_all
  have "m1 t (P + of_nat 528) = pk t ! 528" unfolding m1_def using len [of t] by (intro store_bytes_nth) simp_all
  then show st: "m1 t (P + 528) = PLACEHOLDER_STATUS" by (simp add: pk_def packet_bytes_def nth_append)
  show "m2 t (P + 528) = PLACEHOLDER_STATUS" unfolding m2_def st [symmetric] using u P d by (intro store_bytes_other) auto
  show "mem_bytes (m2 t) (P + 16) 512 = input" unfolding m2_def using d by (simp add: mem_bytes_store)
qed

lemma ready_again:
  assumes "virtio_ready \<alpha> dev nsect q s" and "v_slab s' = v_slab s" "v_hhdm_offset s' = v_hhdm_offset s"
    and "\<alpha> (v_hw s') = (\<alpha> (v_hw s))\<lparr>vk_seen := vk_seen (\<alpha> (v_hw s)) + 1, vk_notified := False, vk_sectors := d\<rparr>"
    and "mem_bytes (v_mem s') (vk_base (\<alpha> (v_hw s)) + of_nat (16 * unat (vk_size (\<alpha> (v_hw s))) + 2)) 2 = bytes16 (vk_seen (\<alpha> (v_hw s)) + 1)"
    and "\<forall>n < nsect. length (d n) = 512"
  shows "virtio_ready \<alpha> dev nsect q s'"
  using assms by (simp add: virtio_ready_def queue_ready_def driver_ok_def queue_at_def v_hhdm_def Let_def)

text \<open>A virtio disk is a disk of sectors for the block layer: if the device follows the virtio protocol, however long it takes over a
  request, then \<open>virtio_block_read\<close> returns the sector and changes nothing, \<open>virtio_block_write\<close> replaces exactly that sector, both return, give back the page
  of their request and leave the queue ready for the next one, across the wrap-around of the ring and of its 16-bit index.\<close>

lemma virtio_sector_driver:
  assumes law: "virtio_disk io \<alpha> nsect" "dword_notifies io \<alpha> (vb_bar_port dev)"
  shows "sector_driver (virtio_block_read io dev) (virtio_block_write io dev) (virtio_ready \<alpha> dev nsect q) (\<lambda>s. vk_sectors (\<alpha> (v_hw s))) nsect"
  unfolding sector_driver_def
proof (intro conjI allI impI; elim conjE)
  fix s n assume ok: "virtio_ready \<alpha> dev nsect q s" and n: "n < nsect"
  have sec: "\<forall>n < nsect. length (vk_sectors (\<alpha> (v_hw s)) n) = 512" and qr: "queue_ready \<alpha> dev nsect q s"
    using ok by (simp_all add: virtio_ready_def queue_ready_def Let_def)
  show "length (vk_sectors (\<alpha> (v_hw s)) n) = 512" using sec n by simp
  obtain i where i: "i \<in> free_indices (v_slab s)" and al: "malloc4k_phys (v_slab s) = Inr (page_addr (v_slab s) i, mark (v_slab s) i True)"
    and fr: "free4k_phys (page_addr (v_slab s) i) (mark (v_slab s) i True) = Inr (v_slab s)" and top: "unat (page_addr (v_slab s) i) + 4096 < 2 ^ 64"
    and sz: "vm_queue_size (vb_queue dev) \<noteq> 0" using qr by (rule ready_page)
  let ?P = "page_addr (v_slab s) i"
  note sp = stored_packet [OF top length_replicate, where n = "of_nat n" and m = "v_mem s" and t = 0]
  let ?s1 = "v_store (v_hhdm s ?P) (packet_bytes \<lparr>bk_Type = VQTypeRead, bk_Reserved = 0, bk_Sector = of_nat n,
                 bk_Data = replicate 512 0, bk_Status = PLACEHOLDER_STATUS\<rparr>) (s\<lparr>v_slab := mark (v_slab s) i True\<rparr>)"
  have m1: "v_mem ?s1 = store_bytes ?P (packet_bytes \<lparr>bk_Type = VQTypeRead, bk_Reserved = 0, bk_Sector = of_nat n,
                 bk_Data = replicate 512 0, bk_Status = PLACEHOLDER_STATUS\<rparr>) (v_mem s)" by (simp add: v_store_def v_hhdm_cancel)
  obtain s2 where s2: "finish_packet io (v_hhdm s ?P) (queue_packet io dev ?P 3 ?s1) = Inr s2" "v_slab s2 = mark (v_slab s) i True"
    "v_hhdm_offset s2 = v_hhdm_offset s"
    "\<alpha> (v_hw s2) = (\<alpha> (v_hw s))\<lparr>vk_seen := vk_seen (\<alpha> (v_hw s)) + 1, vk_notified := False, vk_sectors := vk_sectors (\<alpha> (v_hw s))\<rparr>"
    "mem_bytes (v_mem s2) (vk_base (\<alpha> (v_hw s)) + of_nat (16 * unat (vk_size (\<alpha> (v_hw s))) + 2)) 2 = bytes16 (vk_seen (\<alpha> (v_hw s)) + 1)"
    "mem_bytes (v_mem s2) (?P + 16) 512 = vk_sectors (\<alpha> (v_hw s)) n"
    using request_served [OF law ok i n, of ?s1 True] sp(1,2,4) unfolding m1 by (auto simp: v_store_def)
  have "virtio_block_read io dev (of_nat n) s = Inr (vk_sectors (\<alpha> (v_hw s)) n, s2\<lparr>v_slab := v_slab s\<rparr>)"
    using al s2(1,2,3,6) fr sz by (simp add: virtio_block_read_def hcf_unless_def Let_def free_packet_def v_load_def v_hhdm_def)
  moreover have "virtio_ready \<alpha> dev nsect q (s2\<lparr>v_slab := v_slab s\<rparr>)" using s2 sec by (intro ready_again [OF ok]) simp_all
  ultimately show "\<exists>s'. virtio_block_read io dev (of_nat n) s = Inr (vk_sectors (\<alpha> (v_hw s)) n, s') \<and> virtio_ready \<alpha> dev nsect q s' \<and>
      vk_sectors (\<alpha> (v_hw s')) = vk_sectors (\<alpha> (v_hw s))" using s2(4) by auto
next
  fix s n and xs :: "u8 list" assume ok: "virtio_ready \<alpha> dev nsect q s" and n: "n < nsect" and xs: "length xs = 512"
  have sec: "\<forall>n < nsect. length (vk_sectors (\<alpha> (v_hw s)) n) = 512" and qr: "queue_ready \<alpha> dev nsect q s"
    using ok by (simp_all add: virtio_ready_def queue_ready_def Let_def)
  obtain i where i: "i \<in> free_indices (v_slab s)" and al: "malloc4k_phys (v_slab s) = Inr (page_addr (v_slab s) i, mark (v_slab s) i True)"
    and fr: "free4k_phys (page_addr (v_slab s) i) (mark (v_slab s) i True) = Inr (v_slab s)" and top: "unat (page_addr (v_slab s) i) + 4096 < 2 ^ 64"
    and sz: "vm_queue_size (vb_queue dev) \<noteq> 0" using qr by (rule ready_page)
  let ?P = "page_addr (v_slab s) i"
  note sp = stored_packet [OF top xs, where n = "of_nat n" and m = "v_mem s" and t = 1]
  let ?s1 = "v_store (v_hhdm s ?P + 16) xs (v_store (v_hhdm s ?P) (packet_bytes \<lparr>bk_Type = VQTypeWrite, bk_Reserved = 0, bk_Sector = of_nat n,
                 bk_Data = replicate 512 0, bk_Status = PLACEHOLDER_STATUS\<rparr>) (s\<lparr>v_slab := mark (v_slab s) i True\<rparr>))"
  have m1: "v_mem ?s1 = store_bytes (?P + 16) xs (store_bytes ?P (packet_bytes \<lparr>bk_Type = VQTypeWrite, bk_Reserved = 0, bk_Sector = of_nat n,
                 bk_Data = replicate 512 0, bk_Status = PLACEHOLDER_STATUS\<rparr>) (v_mem s))" by (simp add: v_store_def v_hhdm_cancel)
  obtain s2 where s2: "finish_packet io (v_hhdm s ?P) (queue_packet io dev ?P 1 ?s1) = Inr s2" "v_slab s2 = mark (v_slab s) i True"
    "v_hhdm_offset s2 = v_hhdm_offset s"
    "\<alpha> (v_hw s2) = (\<alpha> (v_hw s))\<lparr>vk_seen := vk_seen (\<alpha> (v_hw s)) + 1, vk_notified := False, vk_sectors := (vk_sectors (\<alpha> (v_hw s)))(n := xs)\<rparr>"
    "mem_bytes (v_mem s2) (vk_base (\<alpha> (v_hw s)) + of_nat (16 * unat (vk_size (\<alpha> (v_hw s))) + 2)) 2 = bytes16 (vk_seen (\<alpha> (v_hw s)) + 1)"
    using request_served [OF law ok i n, of ?s1 False] sp(1,3,5,6) unfolding m1 by (auto simp: v_store_def)
  have "virtio_block_write io dev (of_nat n) xs s = Inr (s2\<lparr>v_slab := v_slab s\<rparr>)"
    using al s2(1,2) fr sz by (simp add: virtio_block_write_def hcf_unless_def Let_def free_packet_def)
  moreover have "virtio_ready \<alpha> dev nsect q (s2\<lparr>v_slab := v_slab s\<rparr>)" using s2 sec xs by (intro ready_again [OF ok, where d = "(vk_sectors (\<alpha> (v_hw s)))(n := xs)"]) simp_all
  ultimately show "\<exists>s'. virtio_block_write io dev (of_nat n) xs s = Inr s' \<and> virtio_ready \<alpha> dev nsect q s' \<and>
      vk_sectors (\<alpha> (v_hw s')) = (vk_sectors (\<alpha> (v_hw s)))(n := xs)" using s2(4) by auto
qed

section \<open>Start-up\<close>

text \<open>
  The registers of the legacy interface: writing the status sets it, and writing zero resets the device; the queue has a fixed size and is placed by its
  page number; a device that has not been notified, or whose driver has not set \<open>DRIVER_OK\<close>, does nothing.
\<close>

definition virtio_config :: "'h virtio_io \<Rightarrow> ('h \<Rightarrow> vblk) \<Rightarrow> u16 \<Rightarrow> bool" where
  "virtio_config io \<alpha> port \<longleftrightarrow>
     (\<forall>h v. \<alpha> (vi_out8 io (port + 18) v h) = (if v = 0 then reset_device (\<alpha> h) else (\<alpha> h)\<lparr>vk_status := v\<rparr>)) \<and>
     (\<forall>h. \<alpha> (snd (vi_in8 io (port + 18) h)) = \<alpha> h) \<and> (\<forall>h. \<alpha> (vi_out16 io (port + 14) 0 h) = \<alpha> h) \<and>
     (\<forall>h. fst (vi_in16 io (port + 12) h) = vk_size (\<alpha> h) \<and> \<alpha> (snd (vi_in16 io (port + 12) h)) = \<alpha> h) \<and>
     (\<forall>h v. \<alpha> (vi_out32 io (port + 8) v h) = (\<alpha> h)\<lparr>vk_base := ucast v * PAGE_SIZE\<rparr>) \<and>
     (\<forall>h m. \<not> (vk_notified (\<alpha> h) \<and> driver_ok (\<alpha> h)) \<longrightarrow> \<alpha> (fst (vi_step io (h, m))) = \<alpha> h \<and> snd (vi_step io (h, m)) = m)"

lemma port_cast: "ucast (ucast (p :: u16) + of_nat k :: u64) = (p + of_nat k :: u16)"
  by transfer (simp add: take_bit_eq_mod mod_mod_cancel mod_add_left_eq)

lemma page_number_roundtrip:
  assumes "unat (p :: u64) mod 4096 = 0" "unat p < 2 ^ 44"
  shows "ucast (ucast (p div PAGE_SIZE) :: u32) * PAGE_SIZE = p"
proof -
  have e: "unat p div 4096 * 4096 = unat p" using div_mult_mod_eq [of "unat p" 4096] assms(1) by linarith
  have d: "unat (p div PAGE_SIZE) = unat p div 4096" by (simp add: unat_div)
  then have "unat (ucast (p div PAGE_SIZE) :: u32) = unat p div 4096" using assms(2) by (simp add: unat_ucast_down)
  then have "unat (ucast (ucast (p div PAGE_SIZE) :: u32) :: u64) = unat p div 4096" by (simp add: unat_ucast_up)
  then have "unat (ucast (ucast (p div PAGE_SIZE) :: u32) * PAGE_SIZE :: u64) = unat p"
    using e assms(2) by (simp add: unat_word_ariths)
  then show ?thesis by (simp add: word_unat_eq_iff)
qed

abbreviation queue_pages :: "u16 \<Rightarrow> nat" where
  "queue_pages sz \<equiv> unat (first_part_pages sz) + unat (second_part_pages sz)"

lemma total_pages: "unat (first_part_pages sz + second_part_pages sz) = queue_pages sz" "first_part_pages sz + second_part_pages sz \<noteq> 0"
  "unat ((first_part_pages sz + second_part_pages sz) * PAGE_SIZE) = queue_pages sz * 4096"
proof -
  have sz: "unat sz < 65536" using unsigned_less [where 'a = nat, of sz] by simp
  then have "queue_pages sz \<le> 1000" unfolding part_pages by simp
  then show u: "unat (first_part_pages sz + second_part_pages sz) = queue_pages sz" by (intro unat_add64) simp
  then show "unat ((first_part_pages sz + second_part_pages sz) * PAGE_SIZE) = queue_pages sz * 4096"
    using \<open>queue_pages sz \<le> 1000\<close> by (simp add: unat_word_ariths)
  have "0 < queue_pages sz" unfolding part_pages by linarith
  then show "first_part_pages sz + second_part_pages sz \<noteq> 0" using u by (metis less_numeral_extra(3) unat_0)
qed

lemma initialise_queue_ready:
  fixes s :: "'h vio"
  assumes cfg: "virtio_config io \<alpha> port" and wf: "slab_wf (v_slab s)" and b: "\<alpha> (v_hw s) = b" "3 \<le> unat (vk_size b)" "vk_seen b = 0" "\<forall>n < nsect. length (vk_sectors b n) = 512"
    and room: "\<exists>j. free_run (v_slab s) j (queue_pages (vk_size b))" "queue_pages (vk_size b) < card (free_indices (v_slab s))"
    and small: "unat (physical_memory_base (v_slab s)) + length (slab_flags (v_slab s)) * 4096 < 2 ^ 44"
  shows "\<exists>queue s' q. initialise_queue io (ucast port) 0 s = Inr (queue, s') \<and> vm_queue_size queue = vk_size b \<and>
    \<alpha> (v_hw s') = b\<lparr>vk_base := page_addr (v_slab s) q\<rparr> \<and> queue_ready \<alpha> \<lparr>vb_bar_port = port, vb_queue = queue\<rparr> nsect q s'"
proof -
  let ?sl = "v_slab s" and ?sz = "vk_size b" and ?z = "unat (vk_size b)"
  obtain p sl' where f: "first_run ?sl (queue_pages ?sz) = Inr (p, sl')" using room(1) by (auto simp: first_run_def Let_def)
  then obtain q where q: "free_run ?sl q (queue_pages ?sz)" "p = page_addr ?sl q" "sl' = mark_pages ?sl q (queue_pages ?sz) True" by (rule first_run_found)
  have al: "malloc_contiguous_phys (first_part_pages ?sz + second_part_pages ?sz) ?sl = Inr (p, sl')"
    using malloc_contiguous_phys_eq [of ?sl "first_part_pages ?sz + second_part_pages ?sz"] wf total_pages [of ?sz] f by (simp add: slab_wf_def)
  have ql: "q + queue_pages ?sz \<le> length (slab_flags ?sl)" using q(1) by (simp add: free_run_def)
  have up: "unat p = unat (physical_memory_base ?sl) + q * 4096" using unat_page_addr [OF wf, of q] ql q(2) by simp
  have "(q + queue_pages ?sz) * 4096 \<le> length (slab_flags ?sl) * 4096" using ql by simp
  then have top: "unat p + queue_pages ?sz * 4096 < 2 ^ 44" using up small by (simp add: algebra_simps)
  have "q < length (slab_flags ?sl)" using ql b(2) part_pages [of ?sz] by auto
  then have "unat p mod 4096 = 0" using arg_cong [OF page_addr_aligned [OF wf], of q unat] q(2) by (simp add: unat_mod)
  then have pn: "ucast (ucast (p div PAGE_SIZE) :: u32) * PAGE_SIZE = p" using top by (intro page_number_roundtrip) simp_all
  have fi: "free_indices sl' = free_indices ?sl - {q..<q + queue_pages ?sz}"
    using nth_mark_pages [OF ql] length_mark_pages [OF ql] unfolding q(3) free_indices_def by (auto split: if_splits)
  have "queue_pages ?sz < card (free_indices ?sl)" by (rule room(2))
  then have ne: "free_indices sl' \<noteq> {}" unfolding fi
    by (metis Diff_eq_empty_iff card_atLeastLessThan card_mono diff_add_inverse finite_atLeastLessThan not_le)
  obtain sz' h0 where in16': "vi_in16 io (port + 12) (vi_out16 io (port + 14) 0 (v_hw s)) = (sz', h0)" by (metis surj_pair)
  have "fst (vi_in16 io (port + 12) (vi_out16 io (port + 14) 0 (v_hw s))) = ?sz \<and> \<alpha> (snd (vi_in16 io (port + 12) (vi_out16 io (port + 14) 0 (v_hw s)))) = b"
    using cfg b(1) by (simp add: virtio_config_def)
  then have in16: "vi_in16 io (port + 12) (vi_out16 io (port + 14) 0 (v_hw s)) = (?sz, h0)" and h0: "\<alpha> h0 = b" using in16' by simp_all
  define h where "h = vi_out32 io (port + 8) (ucast (p div PAGE_SIZE)) h0"
  have h: "\<alpha> h = b\<lparr>vk_base := p\<rparr>" using cfg h0 pn by (simp add: virtio_config_def h_def)
  define m where "m = store_bytes (p + 16 * ucast ?sz) (bytes16 1) (snd (memset p 0 ((first_part_pages ?sz + second_part_pages ?sz) * PAGE_SIZE) (v_mem s)))"
  define s' where "s' = s\<lparr>v_slab := sl', v_mem := m, v_hw := h\<rparr>"
  define r where "r = \<lparr>vm_queue_size = ?sz, vm_buffers_arr = v_hhdm s p, vm_available_flags = v_hhdm s (p + 16 * ucast ?sz),
                 vm_available_index = v_hhdm s (p + 16 * ucast ?sz + 2), vm_available_ring_arr = v_hhdm s (p + 16 * ucast ?sz + 4),
                 vm_used_flags = v_hhdm s (p + PAGE_SIZE * first_part_pages ?sz), vm_used_index = v_hhdm s (p + PAGE_SIZE * first_part_pages ?sz + 2),
                 vm_used_ring_arr = v_hhdm s (p + PAGE_SIZE * first_part_pages ?sz + 4)\<rparr>"
  have ports: "ucast (ucast port + 14 :: u64) = port + 14" "ucast (ucast port + 12 :: u64) = port + 12" "ucast (ucast port + 8 :: u64) = port + 8"
    using port_cast [of port 14] port_cast [of port 12] port_cast [of port 8] by simp_all
  have "?sz \<noteq> 0" using b(2) by auto
  then have run: "initialise_queue io (ucast port) 0 s = Inr (r, s')"
    using al in16 ports by (simp add: initialise_queue_def Let_def v_store_def v_hhdm_def r_def s'_def m_def h_def)
  have idx: "mem_bytes m (p + of_nat (16 * ?z + 2)) 2 = bytes16 0"
  proof -
    have "18 * ?z + 6 \<le> 4096 * unat (first_part_pages ?sz)" unfolding part_pages by linarith
    then have bound: "18 * ?z + 6 \<le> queue_pages ?sz * 4096" by (simp add: algebra_simps)
    have u: "unat (p + of_nat x) = unat p + x" if "x < queue_pages ?sz * 4096" for x using that top by (intro unat_base) simp
    have a: "p + 16 * ucast ?sz = p + of_nat (16 * ?z)" by simp
    have "mem_bytes m (p + of_nat (16 * ?z + 2)) 2 = mem_bytes (snd (memset p 0 ((first_part_pages ?sz + second_part_pages ?sz) * PAGE_SIZE) (v_mem s))) (p + of_nat (16 * ?z + 2)) 2"
      unfolding m_def a using u [of "16 * ?z"] u [of "16 * ?z + 2"] bound top
      by (intro mem_bytes_other) (simp_all del: of_nat_add of_nat_mult)
    also have "\<dots> = [0, 0]"
    proof -
      have "p + of_nat (16 * ?z + 2 + j) - p < (first_part_pages ?sz + second_part_pages ?sz) * PAGE_SIZE" if "j < 2" for j
      proof -
        have "?z < 65536" using unsigned_less [where 'a = nat, of ?sz] by simp
        then have "16 * ?z + 2 + j < 2 ^ 64" using that by simp
        then have "unat (of_nat (16 * ?z + 2 + j) :: u64) = 16 * ?z + 2 + j" using unat_base [of 0 "16 * ?z + 2 + j"] by (simp only: unat_0 add_0)
        then show ?thesis unfolding word_less_nat_alt total_pages(3) add_diff_cancel_left' using that bound by linarith
      qed
      from this [of 0] this [of 1] show ?thesis by (simp add: mem_bytes_def memset_eq upt_rec add.assoc)
    qed
    finally show ?thesis by (simp add: bytes16_def)
  qed
  have len': "length (slab_flags sl') = length (slab_flags ?sl)" "page_addr sl' = page_addr ?sl" "slab_wf sl'"
    "\<forall>j. q \<le> j \<and> j < q + queue_pages ?sz \<longrightarrow> slab_flags sl' ! j"
    using ql wf nth_mark_pages [OF ql, of _ True] by (auto simp: q(3) length_mark_pages mark_pages_wf fun_eq_iff)
  have "queue_ready \<alpha> \<lparr>vb_bar_port = port, vb_queue = r\<rparr> nsect q s'"
    using ne len' idx b(2,3,4) h q(2) ql by (simp add: queue_ready_def queue_at_def Let_def s'_def r_def v_hhdm_def add.assoc)
  then show ?thesis using run h q(2) by (intro exI [of _ r] exI [of _ s'] exI [of _ q]) (simp add: s'_def r_def)
qed

lemma ready_cong:
  assumes "queue_ready \<alpha> dev nsect q s" "v_mem s' = v_mem s" "v_hhdm_offset s' = v_hhdm_offset s" "v_slab s' = v_slab s" "\<alpha> (v_hw s') = (\<alpha> (v_hw s))\<lparr>vk_status := v\<rparr>"
  shows "queue_ready \<alpha> dev nsect q s'"
  using assms by (simp add: queue_ready_def queue_at_def v_hhdm_def Let_def)

lemma status_access:
  assumes cfg: "virtio_config io \<alpha> port"
  shows "\<not> vk_notified (\<alpha> (v_hw s)) \<Longrightarrow> \<alpha> (v_hw (v_spin io s)) = \<alpha> (v_hw s) \<and> v_mem (v_spin io s) = v_mem s"
    "\<not> vk_notified (\<alpha> (v_hw s)) \<Longrightarrow> v \<noteq> 0 \<Longrightarrow> \<alpha> (v_hw (out_status io port v s)) = (\<alpha> (v_hw s))\<lparr>vk_status := v\<rparr> \<and> v_mem (out_status io port v s) = v_mem s"
    "\<alpha> (v_hw (out_status io port 0 s)) = reset_device (\<alpha> (v_hw s)) \<and> v_mem (out_status io port 0 s) = v_mem s"
    "\<alpha> (v_hw (in_status io port s)) = \<alpha> (v_hw s)" "v_mem (in_status io port s) = v_mem s"
    "v_slab (v_spin io s) = v_slab s" "v_hhdm_offset (v_spin io s) = v_hhdm_offset s"
    "v_slab (out_status io port v s) = v_slab s" "v_hhdm_offset (out_status io port v s) = v_hhdm_offset s"
    "v_slab (in_status io port s) = v_slab s" "v_hhdm_offset (in_status io port s) = v_hhdm_offset s"
proof -
  have idle: "\<alpha> (v_hw (v_spin io s)) = \<alpha> (v_hw s) \<and> v_mem (v_spin io s) = v_mem s" if "\<not> vk_notified (\<alpha> (v_hw s))" for s
  proof -
    obtain h m where hm: "vi_step io (v_hw s, v_mem s) = (h, m)" by (metis surj_pair)
    have "\<alpha> (fst (vi_step io (v_hw s, v_mem s))) = \<alpha> (v_hw s) \<and> snd (vi_step io (v_hw s, v_mem s)) = v_mem s"
      using cfg that by (simp add: virtio_config_def)
    then show ?thesis by (simp add: v_spin_def hm)
  qed
  show "\<not> vk_notified (\<alpha> (v_hw s)) \<Longrightarrow> \<alpha> (v_hw (v_spin io s)) = \<alpha> (v_hw s) \<and> v_mem (v_spin io s) = v_mem s" by (rule idle)
  have out: "\<alpha> (vi_out8 io (port + 18) v h) = (if v = 0 then reset_device (\<alpha> h) else (\<alpha> h)\<lparr>vk_status := v\<rparr>)" for v h
    using cfg by (simp add: virtio_config_def)
  then show "\<not> vk_notified (\<alpha> (v_hw s)) \<Longrightarrow> v \<noteq> 0 \<Longrightarrow> \<alpha> (v_hw (out_status io port v s)) = (\<alpha> (v_hw s))\<lparr>vk_status := v\<rparr> \<and> v_mem (out_status io port v s) = v_mem s"
    "\<alpha> (v_hw (out_status io port 0 s)) = reset_device (\<alpha> (v_hw s)) \<and> v_mem (out_status io port 0 s) = v_mem s"
    using idle [of "s\<lparr>v_hw := vi_out8 io (port + 18) v (v_hw s)\<rparr>"] idle [of "s\<lparr>v_hw := vi_out8 io (port + 18) 0 (v_hw s)\<rparr>"]
    by (simp_all add: out_status_def reset_device_def)
  show "\<alpha> (v_hw (in_status io port s)) = \<alpha> (v_hw s)" using cfg by (simp add: in_status_def virtio_config_def)
  show "v_mem (in_status io port s) = v_mem s" "v_slab (in_status io port s) = v_slab s" "v_hhdm_offset (in_status io port s) = v_hhdm_offset s"
    by (simp_all add: in_status_def)
  show "v_slab (v_spin io s) = v_slab s" "v_hhdm_offset (v_spin io s) = v_hhdm_offset s"
    "v_slab (out_status io port v s) = v_slab s" "v_hhdm_offset (out_status io port v s) = v_hhdm_offset s"
    by (simp_all add: out_status_def v_spin_def Let_def split: prod.splits)
qed

text \<open>A function of the bus that is a virtio block device, and the memory its queue and one request need.\<close>

definition virtio_function :: "PciConfigurationHeader \<Rightarrow> BarInfo list \<Rightarrow> bool" where
  "virtio_function header bars \<longleftrightarrow> hd_vendor_id header = 0x1AF4 \<and> 0x1000 \<le> hd_device_id header \<and> hd_device_id header \<le> 0x103F \<and>
     hd_revision_id header = 0 \<and> bi_is_io_bar (bars ! 0) \<and> hd_subsystem_id header = 2"

definition queue_room :: "u16 \<Rightarrow> slab \<Rightarrow> bool" where
  "queue_room sz sl \<longleftrightarrow> slab_wf sl \<and> (\<exists>j. free_run sl j (queue_pages sz)) \<and> queue_pages sz < card (free_indices sl) \<and>
     unat (physical_memory_base sl) + length (slab_flags sl) * 4096 < 2 ^ 44"

text \<open>The status is written three times: zero, the driver's presence, and \<open>DRIVER_OK\<close> once the queue is in place. Then the disk is registered.\<close>

lemma initialise_virtio_reaches:
  fixes fs :: "'h vio devfs"
  assumes cfg: "virtio_config io \<alpha> port" and hdr: "virtio_function header bars" "port = ucast (bi_address (bars ! 0))"
    and b: "b = \<alpha> (v_hw (ds_drivers fs))" "3 \<le> unat (vk_size b)" "\<forall>n < nsect. length (vk_sectors b n) = 512" and room: "queue_room (vk_size b) (v_slab (ds_drivers fs))"
  shows "\<exists>dev q s. vb_bar_port dev = port \<and> virtio_ready \<alpha> dev nsect q s \<and> vk_sectors (\<alpha> (v_hw s)) = vk_sectors b \<and>
    initialise_virtio io header bars fs = fs_dev_add_block_device (virtio_block_read io dev) (virtio_block_write io dev) (fs\<lparr>ds_drivers := s\<rparr>)"
proof -
  note st = status_access [OF cfg]
  define s1 where "s1 = in_status io port (out_status io port 3 (in_status io port (out_status io port 0 (ds_drivers fs))))"
  define b0 where "b0 = (reset_device b)\<lparr>vk_status := 3\<rparr>"
  have s1: "\<alpha> (v_hw s1) = b0" "v_slab s1 = v_slab (ds_drivers fs)"
    using st(2) [of "in_status io port (out_status io port 0 (ds_drivers fs))" 3] st(3) [of "ds_drivers fs"]
    by (simp_all add: s1_def st(4-11) b0_def b(1) reset_device_def)
  obtain queue s2 q where s2: "initialise_queue io (ucast port) 0 s1 = Inr (queue, s2)" "vm_queue_size queue = vk_size b"
      "\<alpha> (v_hw s2) = b0\<lparr>vk_base := page_addr (v_slab s1) q\<rparr>" "queue_ready \<alpha> \<lparr>vb_bar_port = port, vb_queue = queue\<rparr> nsect q s2"
    using initialise_queue_ready [OF cfg, of s1 b0 nsect] s1 b room by (auto simp: b0_def reset_device_def queue_room_def)
  let ?dev = "\<lparr>vb_bar_port = port, vb_queue = queue\<rparr>"
  define s3 where "s3 = out_status io port 7 (in_status io port (v_spin io s2))"
  have idle: "\<not> vk_notified (\<alpha> (v_hw s2))" by (simp add: s2(3) b0_def reset_device_def)
  have s3: "v_mem s3 = v_mem s2" "v_hhdm_offset s3 = v_hhdm_offset s2" "v_slab s3 = v_slab s2" "\<alpha> (v_hw s3) = (\<alpha> (v_hw s2))\<lparr>vk_status := 7\<rparr>"
    using st(1) [OF idle] st(2) [of "in_status io port (v_spin io s2)" 7] idle by (simp_all add: s3_def st(4-11))
  have "virtio_ready \<alpha> ?dev nsect q s3" using ready_cong [OF s2(4) s3] s3(4) by (simp add: virtio_ready_def driver_ok_def bit_iff_odd)
  moreover have "vm_queue_size queue \<noteq> 0" using s2(2) b(2) by auto
  moreover have "\<not> (hd_device_id header < 0x1000 \<or> hd_device_id header > 0x103F)" using hdr(1) by (simp add: virtio_function_def not_less)
  ultimately have "virtio_ready \<alpha> ?dev nsect q s3 \<and> initialise_virtio io header bars fs =
      fs_dev_add_block_device (virtio_block_read io ?dev) (virtio_block_write io ?dev) (fs\<lparr>ds_drivers := s3\<rparr>)"
    using hdr s2(1) by (simp add: initialise_virtio_def virtio_function_def hcf_unless_def Let_def s1_def s3_def)
  moreover have "vk_sectors (\<alpha> (v_hw s3)) = vk_sectors b" using s3(4) s2(3) by (simp add: b0_def reset_device_def)
  ultimately show ?thesis by (intro exI [of _ ?dev] exI [of _ q] exI [of _ s3]) simp
qed

lemma initialise_virtio_registers:
  fixes fs :: "'h vio devfs"
  assumes law: "virtio_disk io \<alpha> nsect" "dword_notifies io \<alpha> port" and cfg: "virtio_config io \<alpha> port"
    and hdr: "virtio_function header bars" "port = ucast (bi_address (bars ! 0))"
    and b: "b = \<alpha> (v_hw (ds_drivers fs))" "3 \<le> unat (vk_size b)" "\<forall>n < nsect. length (vk_sectors b n) = 512" and room: "queue_room (vk_size b) (v_slab (ds_drivers fs))"
    and n: "0 < nsect" "512 * nsect < 2 ^ 64" "length (ds_block_devices fs) < 26"
  shows "\<exists>fs1 dev ok. initialise_virtio io header bars fs = Inr fs1 \<and> ds_block_devices fs1 = ds_block_devices fs @ [dev] \<and>
    device_ok ok (\<lambda>s. vk_sectors (\<alpha> (v_hw s))) nsect (length (ds_block_devices fs)) fs1 \<and> vk_sectors (\<alpha> (v_hw (ds_drivers fs1))) = vk_sectors b \<and>
    bd_partitions dev \<noteq> [] \<and> bd_partitions dev ! 0 = \<lparr>bp_byte_offset = 0, bp_byte_length = 0\<rparr> \<and> length (bd_partitions dev) \<le> 9"
proof -
  obtain vdev q s where r: "vb_bar_port vdev = port" "virtio_ready \<alpha> vdev nsect q s" "vk_sectors (\<alpha> (v_hw s)) = vk_sectors b"
    "initialise_virtio io header bars fs = fs_dev_add_block_device (virtio_block_read io vdev) (virtio_block_write io vdev) (fs\<lparr>ds_drivers := s\<rparr>)"
    using initialise_virtio_reaches [OF cfg hdr b room] by blast
  have bell: "dword_notifies io \<alpha> (vb_bar_port vdev)" using law(2) r(1) by simp
  have ready: "virtio_ready \<alpha> vdev nsect q (ds_drivers (fs\<lparr>ds_drivers := s\<rparr>))" using r(2) by simp
  show ?thesis using add_block_device_ok [OF virtio_sector_driver [OF law(1) bell, of q] ready n(1,2)] n(3) unfolding r(4) by (auto simp: r(3))
qed

text \<open>A device that takes the notification for a reset never answers, and the driver waits for ever.\<close>

lemma wait_status_idle:
  assumes cfg: "virtio_config io \<alpha> port" and idle: "\<not> (vk_notified (\<alpha> (v_hw s)) \<and> driver_ok (\<alpha> (v_hw s)))" and st: "v_load p 1 s = [PLACEHOLDER_STATUS]"
  shows "wait_status io p s = None"
proof -
  let ?quiet = "\<lambda>s. \<not> (vk_notified (\<alpha> (v_hw s)) \<and> driver_ok (\<alpha> (v_hw s))) \<and> v_load p 1 s = [PLACEHOLDER_STATUS]"
  have step: "?quiet (v_spin io s)" if "?quiet s" for s
  proof -
    obtain h m where hm: "vi_step io (v_hw s, v_mem s) = (h, m)" by (metis surj_pair)
    have "\<alpha> (fst (vi_step io (v_hw s, v_mem s))) = \<alpha> (v_hw s) \<and> snd (vi_step io (v_hw s, v_mem s)) = v_mem s"
      using cfg that by (simp add: virtio_config_def)
    then show ?thesis using that by (simp add: v_spin_def hm v_load_def)
  qed
  have "io' = io \<and> p' = p \<longrightarrow> \<not> ?quiet s" if "wait_status io' p' s = Some r" for io' p' s r
  proof (rule wait_status.raw_induct [of "\<lambda>io' p' s r. io' = io \<and> p' = p \<longrightarrow> \<not> ?quiet s", OF _ that])
    fix f :: "'a virtio_io \<Rightarrow> u64 \<Rightarrow> 'a vio \<Rightarrow> 'a vio option" and io' p' s r
    assume IH: "\<And>io' p' s r. f io' p' s = Some r \<Longrightarrow> io' = io \<and> p' = p \<longrightarrow> \<not> ?quiet s"
      and run: "(if v_load p' 1 s = [PLACEHOLDER_STATUS] then f io' p' (v_spin io' s) else Some s) = Some r"
    show "io' = io \<and> p' = p \<longrightarrow> \<not> ?quiet s"
    proof (intro impI notI)
      assume eq: "io' = io \<and> p' = p" and q: "?quiet s"
      then have "f io p (v_spin io s) = Some r" using run eq by simp
      then have "\<not> ?quiet (v_spin io s)" using IH by blast
      then show False using step [OF q] by contradiction
    qed
  qed
  then show ?thesis using idle st by (cases "wait_status io p s") auto
qed

lemma reset_read_diverges:
  fixes s :: "'h vio"
  assumes cfg: "virtio_config io \<alpha> (vb_bar_port dev)" and rst: "dword_resets io \<alpha> (vb_bar_port dev)" and ready: "queue_ready \<alpha> dev nsect q s"
  shows "virtio_block_read io dev n s = Inl Diverged"
proof -
  obtain i where i: "i \<in> free_indices (v_slab s)" and al: "malloc4k_phys (v_slab s) = Inr (page_addr (v_slab s) i, mark (v_slab s) i True)"
    and top: "unat (page_addr (v_slab s) i) + 4096 < 2 ^ 64" and sz: "vm_queue_size (vb_queue dev) \<noteq> 0" using ready by (rule ready_page)
  let ?P = "page_addr (v_slab s) i"
  note sp = stored_packet [OF top length_replicate, where n = n and m = "v_mem s" and t = 0]
  let ?s1 = "v_store (v_hhdm s ?P) (packet_bytes \<lparr>bk_Type = VQTypeRead, bk_Reserved = 0, bk_Sector = n,
                 bk_Data = replicate 512 0, bk_Status = PLACEHOLDER_STATUS\<rparr>) (s\<lparr>v_slab := mark (v_slab s) i True\<rparr>)"
  have m1: "v_mem ?s1 = store_bytes ?P (packet_bytes \<lparr>bk_Type = VQTypeRead, bk_Reserved = 0, bk_Sector = n,
                 bk_Data = replicate 512 0, bk_Status = PLACEHOLDER_STATUS\<rparr>) (v_mem s)" by (simp add: v_store_def v_hhdm_cancel)
  have s1: "v_hw ?s1 = v_hw s" "v_hhdm_offset ?s1 = v_hhdm_offset s" by (simp_all add: v_store_def)
  have out: "v_mem ?s1 a = v_mem s a" if "unat a < unat ?P \<or> unat ?P + 4096 \<le> unat a" for a using sp(1) [OF that] unfolding m1 by simp
  note queued = packet_queued [where f = 3, OF ready i s1 out]
  let ?s2 = "queue_packet io dev ?P 3 ?s1"
  have eq: "?s2 = ?s1\<lparr>v_mem := queue_mem (vk_base (\<alpha> (v_hw s))) (unat (vm_queue_size (vb_queue dev))) ?P 3 (vk_seen (\<alpha> (v_hw s))) (v_mem ?s1),
      v_hw := vi_out32 io (vb_bar_port dev + 16) 0 (v_hw s)\<rparr>"
    by (rule queued(1))
  have hw: "\<alpha> (v_hw ?s2) = reset_device (\<alpha> (v_hw s))" using rst unfolding eq by (simp add: dword_resets_def)
  have "v_load (v_hhdm s ?P + 528) 1 ?s2 = [PLACEHOLDER_STATUS]"
    using queued(2) [of 528] sp(4) unfolding eq by (simp add: v_load_def v_hhdm_def v_store_def mem_bytes_def)
  then have "wait_status io (v_hhdm s ?P + 528) ?s2 = None" using hw by (intro wait_status_idle [OF cfg]) (simp_all add: reset_device_def)
  then show ?thesis using al sz by (simp add: virtio_block_read_def hcf_unless_def Let_def finish_packet_def)
qed

section \<open>Properties\<close>

text \<open>C7. From the bus to the bytes. Suppose \<open>initialise_pci\<close> finds a virtio block device whose registers and whose service of requests are the documented
  ones, with a queue of at least three entries (the driver uses three descriptors), and memory for its queue and one page more are free. What follows
  depends on the one thing the specification does not promise, the effect of the driver's 32-bit write to the 16-bit notification register. If the
  device takes it as the notification, then \<open>initialise_virtio\<close> returns and registers the disk: afterwards any sequence of writes through the vnode of
  the whole disk succeeds, and a read returns the bytes of the disk with the writes applied in order, however long the device takes over each request,
  across the wrap-around of the ring and of its 16-bit index. If the write reaches the status register behind it and resets the device, then
  \<open>initialise_virtio\<close> never returns: it waits for the partition table.\<close>

theorem virtio_disk_is_byte_array:
  assumes "virtio_disk io \<alpha> nsect" and "virtio_config io \<alpha> port" and "virtio_function header bars" and "port = ucast (bi_address (bars ! 0))"
    and "b = \<alpha> (v_hw (ds_drivers fs))" and "3 \<le> unat (vk_size b)" and "\<forall>n < nsect. length (vk_sectors b n) = 512"
    and "queue_room (vk_size b) (v_slab (ds_drivers fs))" and "0 < nsect" and "512 * nsect < 2 ^ 64" and "length (ds_block_devices fs) < 26"
  shows "(dword_notifies io \<alpha> port \<longrightarrow> (\<exists>fs1. initialise_virtio io header bars fs = Inr fs1 \<and>
    (\<forall>ws off k. (\<forall>(o', xs) \<in> set ws. xs \<noteq> [] \<and> o' + length xs \<le> 512 * nsect) \<and> 0 < k \<and> off + k \<le> 512 * nsect \<longrightarrow>
       (let v = dev_vnode (dev_inode (length (ds_block_devices fs)) 0) in
        \<exists>fs2 fs3. rfold (\<lambda>(o', xs) fs. rbind (vn_write_file v (vn_id v) (of_nat o') xs fs) (\<lambda>(_, fs'). Inr fs')) ws fs1 = Inr fs2 \<and>
          vn_read_file v (vn_id v) (of_nat off) k fs2 =
            Inr (map (fold (\<lambda>(o', xs) f. patched f o' xs) ws (\<lambda>a. vk_sectors b (a div 512) ! (a mod 512))) [off..<off + k], fs3))))) \<and>
    (dword_resets io \<alpha> port \<longrightarrow> initialise_virtio io header bars fs = Inl Diverged)"
proof (intro conjI impI)
  assume "dword_notifies io \<alpha> port"
  from initialise_virtio_registers [OF assms(1) this assms(2-)]
  obtain fs1 dev ok where fs1: "initialise_virtio io header bars fs = Inr fs1" "ds_block_devices fs1 = ds_block_devices fs @ [dev]"
    "device_ok ok (\<lambda>s. vk_sectors (\<alpha> (v_hw s))) nsect (length (ds_block_devices fs)) fs1" "vk_sectors (\<alpha> (v_hw (ds_drivers fs1))) = vk_sectors b"
    "bd_partitions dev \<noteq> []" "bd_partitions dev ! 0 = \<lparr>bp_byte_offset = 0, bp_byte_length = 0\<rparr>" "length (bd_partitions dev) \<le> 9"
    by blast
  let ?d = "\<lambda>s. vk_sectors (\<alpha> (v_hw s))" and ?v = "dev_id (dev_inode (length (ds_block_devices fs)) 0)"
  have p: "0 < length (bd_partitions dev)" "unat (bp_byte_offset (bd_partitions dev ! 0)) + 512 * nsect \<le> 512 * nsect" using fs1(5,6) by simp_all
  note reg = registered_okay [OF fs1(2,3) assms(11) p(1) fs1(7) p(2)]
  have c: "dev_content ?d ?v fs1 = (\<lambda>a. vk_sectors b (a div 512) ! (a mod 512))" unfolding reg(2) by (simp add: disk_byte_def fs1(4,6))
  have "\<exists>fs2 fs3. rfold (\<lambda>(o', xs) f. rbind (blockdev_write_file ?v (of_nat o') xs f) (\<lambda>(_, fs'). Inr fs')) ws fs1 = Inr fs2 \<and>
      blockdev_read_file ?v (of_nat off) k fs2 = Inr (map (fold (\<lambda>(o', xs) f. patched f o' xs) ws (\<lambda>a. vk_sectors b (a div 512) ! (a mod 512))) [off..<off + k], fs3)"
    if "\<forall>(o', xs) \<in> set ws. xs \<noteq> [] \<and> o' + length xs \<le> 512 * nsect" "0 < k" "off + k \<le> 512 * nsect" for ws off k
    using blk.read_after_writes [OF reg(1) that] unfolding c .
  then show "\<exists>fs1. initialise_virtio io header bars fs = Inr fs1 \<and>
    (\<forall>ws off k. (\<forall>(o', xs) \<in> set ws. xs \<noteq> [] \<and> o' + length xs \<le> 512 * nsect) \<and> 0 < k \<and> off + k \<le> 512 * nsect \<longrightarrow>
       (let v = dev_vnode (dev_inode (length (ds_block_devices fs)) 0) in
        \<exists>fs2 fs3. rfold (\<lambda>(o', xs) fs. rbind (vn_write_file v (vn_id v) (of_nat o') xs fs) (\<lambda>(_, fs'). Inr fs')) ws fs1 = Inr fs2 \<and>
          vn_read_file v (vn_id v) (of_nat off) k fs2 =
            Inr (map (fold (\<lambda>(o', xs) f. patched f o' xs) ws (\<lambda>a. vk_sectors b (a div 512) ! (a mod 512))) [off..<off + k], fs3)))"
    using fs1(1) by (simp add: dev_vnode_def Let_def)
next
  assume rst: "dword_resets io \<alpha> port"
  obtain dev q s where r: "vb_bar_port dev = port" "virtio_ready \<alpha> dev nsect q s"
    "initialise_virtio io header bars fs = fs_dev_add_block_device (virtio_block_read io dev) (virtio_block_write io dev) (fs\<lparr>ds_drivers := s\<rparr>)"
    using initialise_virtio_reaches [OF assms(2-8)] by blast
  have "virtio_block_read io dev 0 s = Inl Diverged"
    using r(2) by (intro reset_read_diverges [of io \<alpha> dev nsect q] assms(2) [folded r(1)] rst [folded r(1)]) (simp add: virtio_ready_def)
  then show "initialise_virtio io header bars fs = Inl Diverged" unfolding r(3) using assms(11) by (simp add: fs_dev_add_block_device_def)
qed

text \<open>Devices that serve each request at once, by the memory that they find: one that takes the 32-bit write as the notification, and one that is reset by it.\<close>

definition decode_buffer :: "u8 list \<Rightarrow> VQBuffer" where
  "decode_buffer bs = \<lparr>vq_Address = le64 bs, vq_Length = le32 (drop 8 bs), vq_Flags = le16 (drop 12 bs), vq_Next = le16 (drop 14 bs)\<rparr>"

definition test_serve :: "vblk \<Rightarrow> mem \<Rightarrow> vblk \<times> mem" where
  "test_serve b m =
     (let z = unat (vk_size b); head = le16 (mem_bytes m (vk_base b + of_nat (16 * z + 4 + 2 * (unat (vk_seen b) mod z))) 2);
          d0 = decode_buffer (mem_bytes m (vk_base b + of_nat (16 * unat head)) 16);
          d1 = decode_buffer (mem_bytes m (vk_base b + of_nat (16 * unat (vq_Next d0))) 16);
          d2 = decode_buffer (mem_bytes m (vk_base b + of_nat (16 * unat (vq_Next d1))) 16);
          hdr = mem_bytes m (vq_Address d0) 16
      in serve (le32 hdr = 0) (unat (le64 (drop 8 hdr))) d1 d2 b m)"

definition test_virtio :: "(vblk \<Rightarrow> vblk) \<Rightarrow> vblk virtio_io" where
  "test_virtio bell = \<lparr>vi_in8 = (\<lambda>_ h. (0, h)), vi_in16 = (\<lambda>_ h. (vk_size h, h)),
     vi_out8 = (\<lambda>_ v h. if v = 0 then reset_device h else h\<lparr>vk_status := v\<rparr>), vi_out16 = (\<lambda>_ _ h. h),
     vi_out32 = (\<lambda>p v h. if p = 0xC008 then h\<lparr>vk_base := ucast v * PAGE_SIZE\<rparr> else if p = 0xC010 then bell h else h),
     vi_step = (\<lambda>(h, m). if vk_notified h \<and> driver_ok h then test_serve h m else (h, m))\<rparr>"

lemma le_append: "le64 (bytes64 a @ xs) = a" "le32 (bytes32 c @ xs) = c" "le16 (bytes16 e @ xs) = e"
proof -
  have "le64 (bytes64 a @ xs) = le64 (bytes64 a)" "le32 (bytes32 c @ xs) = le32 (bytes32 c)" "le16 (bytes16 e @ xs) = le16 (bytes16 e)"
    by (simp_all add: le64_def le32_def le16_def nth_append)
  then show "le64 (bytes64 a @ xs) = a" "le32 (bytes32 c @ xs) = c" "le16 (bytes16 e @ xs) = e" by simp_all
qed

lemma decode_buffer_bytes: "decode_buffer (vqbuffer_bytes d) = d"
  using le_append(1) [of "vq_Address d"] le_append(2) [of "vq_Length d"] le_append(3) [of "vq_Flags d"]
  by (simp add: decode_buffer_def vqbuffer_bytes_def)

lemma test_virtio_laws: "virtio_disk (test_virtio bell) (\<lambda>h. h) 100" "virtio_config (test_virtio bell) (\<lambda>h. h) 0xC000"
  "dword_notifies (test_virtio (\<lambda>h. h\<lparr>vk_notified := True\<rparr>)) (\<lambda>h. h) 0xC000" "dword_resets (test_virtio reset_device) (\<lambda>h. h) 0xC000"
proof -
  show "dword_notifies (test_virtio (\<lambda>h. h\<lparr>vk_notified := True\<rparr>)) (\<lambda>h. h) 0xC000" "dword_resets (test_virtio reset_device) (\<lambda>h. h) 0xC000"
    by (simp_all add: dword_notifies_def dword_resets_def test_virtio_def)
  show "virtio_config (test_virtio bell) (\<lambda>h. h) 0xC000" by (auto simp: virtio_config_def test_virtio_def)
  have "\<exists>k. (\<forall>j < k. snd ((vi_step (test_virtio bell) ^^ j) (h, m)) (vq_Address d2) = m (vq_Address d2)) \<and>
      (let (h', m') = (vi_step (test_virtio bell) ^^ k) (h, m); (b, served) = serve is_read n d1 d2 h m in h' = b \<and> (\<forall>a. \<not> in_used_ring h a \<longrightarrow> m' a = served a))"
    if r: "vk_notified h \<and> driver_ok h" "vq_chain h m d0 d1 d2" "blk_request m d0 d1 d2 is_read n" "n < 100" for h m d0 d1 d2 is_read n
  proof (intro exI [of _ 1] conjI)
    have hdr: "mem_bytes m (vq_Address d0) 16 = bytes32 (if is_read then 0 else 1) @ bytes32 0 @ bytes64 (of_nat n)" using r(3) by (simp add: blk_request_def)
    have "(le32 (mem_bytes m (vq_Address d0) 16) = 0) = is_read" "unat (le64 (drop 8 (mem_bytes m (vq_Address d0) 16))) = n"
      unfolding hdr using r(4) le_append(2) [of "if is_read then 0 else 1"] by (simp_all add: unat_of_nat take_bit_nat_eq_self)
    then have "test_serve h m = serve is_read n d1 d2 h m"
      using r(2) by (auto simp: test_serve_def vq_chain_def Let_def decode_buffer_bytes)
    then show "let (h', m') = (vi_step (test_virtio bell) ^^ 1) (h, m); (b, served) = serve is_read n d1 d2 h m in h' = b \<and> (\<forall>a. \<not> in_used_ring h a \<longrightarrow> m' a = served a)"
      using r(1) by (simp add: test_virtio_def split: prod.splits)
  qed simp
  then show "virtio_disk (test_virtio bell) (\<lambda>h. h) 100" by (auto simp: virtio_disk_def test_virtio_def)
qed

definition test_virtio_fs :: "vblk vio devfs" where
  "test_virtio_fs = \<lparr>ds_block_devices = [], ds_drivers = \<lparr>v_mem = (\<lambda>_. 0xAA), v_hhdm_offset = 0xFFFF800000000000,
     v_slab = \<lparr>physical_memory_base = 0x100000, physical_memory_pages = 4, slab_flags = [True, False, False, False]\<rparr>,
     v_hw = \<lparr>vk_base = 0, vk_size = 4, vk_seen = 0, vk_notified = False, vk_status = 0, vk_sectors = (\<lambda>n. replicate 512 (of_nat n))\<rparr>\<rparr>\<rparr>"

definition virtio_header :: PciConfigurationHeader where
  "virtio_header = \<lparr>hd_vendor_id = 0x1AF4, hd_device_id = 0x1001, hd_status = 0, hd_revision_id = 0, hd_prog_if = 0, hd_subclass = 0, hd_class_code = 1,
     hd_header_type = 0, hd_BAR = [0xC001, 0, 0, 0, 0, 0], hd_subsystem_id = 2\<rparr>"

lemma test_virtio_room: "queue_room 4 (v_slab (ds_drivers test_virtio_fs))"
proof -
  let ?sl = "v_slab (ds_drivers test_virtio_fs)"
  have "free_indices ?sl = {1, 2, 3}" by (auto simp: free_indices_def test_virtio_fs_def less_Suc_eq numeral_eq_Suc)
  moreover have "queue_pages 4 = 2" by (simp add: part_pages)
  moreover have "free_run ?sl 1 2" by (auto simp: free_run_def test_virtio_fs_def less_Suc_eq numeral_eq_Suc)
  moreover have "slab_wf ?sl" by (simp add: slab_wf_def test_virtio_fs_def)
  ultimately show ?thesis unfolding queue_room_def by (auto simp: test_virtio_fs_def)
qed

theorem virtio_disk_is_byte_array_witness:
  "(\<exists>fs1 w fs2 fs3. initialise_virtio (test_virtio (\<lambda>h. h\<lparr>vk_notified := True\<rparr>)) virtio_header [no_bar\<lparr>bi_is_io_bar := True, bi_address := 0xC000\<rparr>] test_virtio_fs = Inr fs1 \<and>
     blockdev_write_file \<lparr>vd_inode = 0, vd_mount_id = 0\<rparr> 1535 [0xFE, 0xFF] fs1 = Inr (w, fs2) \<and>
     blockdev_read_file \<lparr>vd_inode = 0, vd_mount_id = 0\<rparr> 1534 4 fs2 = Inr ([2, 0xFE, 0xFF, 3], fs3)) \<and>
   initialise_virtio (test_virtio reset_device) virtio_header [no_bar\<lparr>bi_is_io_bar := True, bi_address := 0xC000\<rparr>] test_virtio_fs = Inl Diverged"
proof -
  let ?bars = "[no_bar\<lparr>bi_is_io_bar := True, bi_address := 0xC000\<rparr>]" and ?b = "v_hw (ds_drivers test_virtio_fs)"
  have v: "vn_id (dev_vnode 0 :: vblk vio devfs VNode) = \<lparr>vd_inode = 0, vd_mount_id = 0\<rparr>"
    "vn_write_file (dev_vnode 0 :: vblk vio devfs VNode) = blockdev_write_file" "vn_read_file (dev_vnode 0 :: vblk vio devfs VNode) = blockdev_read_file"
    by (simp_all add: dev_vnode_def dev_id_def)
  have "dev_inode 0 0 = 0" by (simp add: dev_inode_def)
  moreover have "virtio_function virtio_header ?bars" by (simp add: virtio_function_def virtio_header_def)
  moreover have "vk_size ?b = 4" "ds_block_devices test_virtio_fs = []" by (simp_all add: test_virtio_fs_def)
  moreover have sec: "vk_sectors ?b = (\<lambda>n. replicate 512 (of_nat n))" by (simp add: test_virtio_fs_def)
  ultimately have args: "virtio_function virtio_header ?bars" "0xC000 = ucast (bi_address (?bars ! 0))" "?b = v_hw (ds_drivers test_virtio_fs)" "3 \<le> unat (vk_size ?b)"
    "\<forall>n < 100. length (vk_sectors ?b n) = 512" "queue_room (vk_size ?b) (v_slab (ds_drivers test_virtio_fs))" "(0 :: nat) < 100" "512 * (100 :: nat) < 2 ^ 64"
    "length (ds_block_devices test_virtio_fs) < 26" and i0: "dev_inode (length (ds_block_devices test_virtio_fs)) 0 = 0" using test_virtio_room by simp_all
  note whole = virtio_disk_is_byte_array [OF test_virtio_laws(1,2) args]
  obtain fs1 where fs1: "initialise_virtio (test_virtio (\<lambda>h. h\<lparr>vk_notified := True\<rparr>)) virtio_header ?bars test_virtio_fs = Inr fs1"
    "\<forall>ws off k. (\<forall>(o', xs) \<in> set ws. xs \<noteq> [] \<and> o' + length xs \<le> 51200) \<and> 0 < k \<and> off + k \<le> 51200 \<longrightarrow>
       (\<exists>fs2 fs3. rfold (\<lambda>(o', xs) fs. rbind (blockdev_write_file \<lparr>vd_inode = 0, vd_mount_id = 0\<rparr> (of_nat o') xs fs) (\<lambda>(_, fs'). Inr fs')) ws fs1 = Inr fs2 \<and>
          blockdev_read_file \<lparr>vd_inode = 0, vd_mount_id = 0\<rparr> (of_nat off) k fs2 =
            Inr (map (fold (\<lambda>(o', xs) f. patched f o' xs) ws (\<lambda>a. replicate 512 (of_nat (a div 512)) ! (a mod 512))) [off..<off + k], fs3))"
    using mp [OF conjunct1 [OF whole] test_virtio_laws(3)] by (auto simp: Let_def v i0 sec)
  from fs1(2) [rule_format, of "[(1535, [0xFE, 0xFF])]" 4 1534] fs1(1)
  have "\<exists>w fs2 fs3. blockdev_write_file \<lparr>vd_inode = 0, vd_mount_id = 0\<rparr> 1535 [0xFE, 0xFF] fs1 = Inr (w, fs2) \<and>
     blockdev_read_file \<lparr>vd_inode = 0, vd_mount_id = 0\<rparr> 1534 4 fs2 = Inr ([2, 0xFE, 0xFF, 3], fs3)" by (auto simp: upt_rec patched_def rbind_eq_Inr_iff)
  then show ?thesis using fs1(1) mp [OF conjunct2 [OF whole] test_virtio_laws(4)] by blast
qed

end
