(* ===== verification/Spec2Isabelle.thy ===== *)
theory Spec2Isabelle
  imports Elf_Exec User_Heap Ps2 Pipes Libc_Stdlib Libc_Wide Fat_Directory Xhci_Init Virtio
begin

text \<open>
  \<^bold>\<open>Verification of the stuos kernel and its C library.\<close>

  stuos is a small 64-bit kernel in C, with drivers for USB, PCI, virtio and the PS/2 keyboard, a FAT16 file system, and a C library for its programs.
  At boot, \<open>memory_init\<close> takes a range of physical memory, builds the page allocator and the kernel's page tables, and
  \<open>initialise_pci\<close> finds the devices and starts their drivers. A disk registers itself with \<open>fs_dev.c\<close> as a pair of sector operations; the file system
  \<open>fs_fat.c\<close> works on the resulting byte device; \<open>elf.c\<close> loads programs from its files into new page tables. Keyboards deliver
  characters to the terminal \<open>tty.c\<close>, which programs read and write through the open files of \<open>pipes_and_files.c\<close>. The same
  heap allocator, \<open>custom_malloc\<close>, serves the kernel and the programs.

  \<^bold>\<open>How the code is modelled.\<close> A C function is a HOL function of the same name from its arguments and the state it uses to its result and the new state.
  A struct is a record (or, where its layout in memory or on disk matters, a record with its encoding into bytes), a
  static variable a field of the state record of its component. Integers have their width (\<open>u8\<close> to \<open>u64\<close>, words that wrap). Every way
  to stop is a value of the type \<open>result\<close> of \<open>Kernel_Prelude\<close>: \<open>HCF\<close> for the halting macro and for failed assertions, \<open>WildAccess\<close> for an access outside an array
  or to an unmapped address, \<open>SignedOverflow\<close>, and \<open>Diverged\<close> for a loop that never ends. Loops are total functions with a
  termination proof where they end on every input, and \<open>partial_function (option)\<close> where they may not; then that they end is part of the theorems. Hardware
  is a parameter: a record of functions on an abstract state, with a predicate that states the documented behaviour of the device. Where the driver relies on more than
  that (\<open>virtio_driver.c\<close> writes 32 bits to a register of 16), the theorem says what follows for either kind of device. Blocks from the kernel heap that hold a driver's
  own data are values: \<open>malloc\<close> of the virtio device data, of the sector cache, of pipes and of USB contexts, and its possible halt, are left out.

  \<^bold>\<open>Theories\<close>, in the order in which they build on each other:

  \<^item> \<open>Kernel_Prelude\<close>: results, words, lists and bytes; the collection \<open>result_simps\<close>.
  \<^item> \<open>Phys_Slab\<close> (\<open>physical_slab_allocation.c\<close>): the flag array \<open>slab\<close>. Its runs refine a set of live pages
    (\<open>slab_step\<close>, \<open>spec_step\<close>); the locale \<open>page_allocator\<close> is what clients use, interpreted as \<open>slab\<close>. \<open>Page_Memory\<close>: pages that are shared with devices.
  \<^item> \<open>Kern_Libc\<close> (\<open>kern_libc.c\<close>): memory and string routines over a byte memory.
  \<^item> \<open>Heap_Malloc\<close> (\<open>custom_malloc\<close>): the block list, with the operations of \<open>linked_list_item.c\<close> and \<open>library.c\<close>. The locale \<open>heap_provider\<close> is the contract
    of \<open>_malloc_expand_heap\<close>; under it \<open>malloc\<close>, \<open>free\<close> and \<open>realloc\<close> keep the heap well formed and the blocks disjoint; \<open>mapping_provider\<close> extends it: the bytes that are granted are
    mapped, and then so is every block. \<open>Kernel_Heap\<close> interprets both on the kernel's page tables (\<open>kheap\<close>, \<open>kmap\<close>) and has \<open>memory_init\<close>; \<open>User_Heap\<close> (\<open>custom_libc/init.c\<close>)
    on the page system call (\<open>uheap\<close>, \<open>umap\<close>), whose handler in \<open>syscall_handlers.rs\<close> it models over the page tables and the data limit of the process.
  \<^item> \<open>Paging\<close> (\<open>memory.c\<close>): four-level page tables in physical memory, mapping, unmapping, cloning and removing address
    spaces, segment descriptors. The abstraction \<open>translate\<close> follows an address through the tables; \<open>paging_ok\<close> is the invariant. \<open>Address_Space\<close>: the
    two halves of an address space, switching between page tables, new page tables, and where the blocks of the kernel's heap are mapped.
  \<^item> \<open>Display\<close>, \<open>Tty\<close> (\<open>display.c\<close>, \<open>font8x8_basic.h\<close>, \<open>tty.c\<close>): the frame buffer, the character grid with its cursor, and the line discipline.
  \<^item> \<open>Ps2\<close> (\<open>ps2_driver.c\<close>): the byte decoder, which refines a keyboard of press and release events.
  \<^item> \<open>Pipes\<close> (\<open>pipes_and_files.c\<close>): pipe ends, terminal streams and open files over a store of heap objects.
  \<^item> \<open>Block_Dev\<close> (\<open>fs_dev.c\<close>): registration, partitions, byte access through cached sectors. \<open>sector_driver\<close> is what a driver provides, the
    locale \<open>byte_device\<close> what a file system needs; the interpretation \<open>blk\<close> gives the second from the first.
  \<^item> \<open>Fat16\<close> (\<open>fs_fat.c\<close>): the structures on disk and all operations; \<open>Fat_Chain\<close>: cluster chains, in the locale \<open>fat_volume\<close>,
    which extends \<open>byte_device\<close>; \<open>Fat_File\<close>: files are byte sequences, with the interpretation \<open>bfat\<close> on block devices; \<open>Fat_Names\<close>: the encoding of
    long names and the loop over a directory; \<open>Fat_Directory\<close>: what is created is listed.
  \<^item> \<open>Elf_Loader\<close> (\<open>elf.c\<close>): \<open>instantiate_ELF\<close> and everything below it, over the kernel heap and the page tables. \<open>Elf_Regions\<close>: the region list tiles the user half and agrees
    with the page tables; \<open>Elf_Image\<close> and \<open>Elf_Args\<close>: what the new address space holds, over the locale \<open>file_vnode\<close> of a readable file; \<open>Elf_Exec\<close>: the
    loader as a whole, with the interpretation \<open>fexe\<close> on files of the FAT file system.
  \<^item> \<open>Xhci_Ring\<close> (\<open>xhci_trb.c\<close>): request rings, with the locales \<open>trb_producer\<close> and \<open>trb_consumer\<close> and their interpretations \<open>prod\<close> and \<open>cons\<close>;
    \<open>Xhci_State\<close>, \<open>Xhci_Driver\<close>, \<open>Usb_Descriptors\<close>, \<open>Xhci_Init\<close> (\<open>xhci_driver.c\<close>): contexts and registers, events and transfers, the descriptor parser, start-up;
    \<open>Usb_Keyboard\<close> and \<open>Usb_Storage\<close> (\<open>xhci_keyboard.c\<close>, \<open>xhci_msd.c\<close>): the two classes of devices. A USB drive provides \<open>sector_driver\<close>.
  \<^item> \<open>Pci\<close> (\<open>pci.c\<close>, \<open>idt.c\<close>): configuration space, base address registers, capabilities, message-signalled interrupts, interrupt vectors, and the enumeration of the bus.
  \<^item> \<open>Virtio\<close> (\<open>virtio_driver.c\<close>): the request queue in shared memory, sector access and registration; on a device that takes its notification as one, the
    driver provides \<open>sector_driver\<close> as well.
  \<^item> \<open>Libc_String\<close>, \<open>Libc_Stdlib\<close>, \<open>Libc_Wide\<close> (\<open>custom_libc\<close>: \<open>string.c\<close>, \<open>strings.c\<close>, \<open>ctype.c\<close>, \<open>strtol.c\<close>, \<open>qsort.c\<close>, \<open>stdlib.c\<close>, \<open>wchar.c\<close>, \<open>wctype.c\<close>).

  \<^bold>\<open>What is shown.\<close> Memory: a page is never handed out twice, mapping installs exactly one translation, a new page table
  repeats the kernel's, heap blocks never overlap and are mapped. Storage: a disk behind the drivers, through sectors, cache and partitions, is an array of bytes; a file is a byte
  sequence on it; files that are created are listed under their long names. Programs: the loader returns for every well-formed executable that fits, and the new address
  space holds segments, stack, arguments and environment. Devices: the rings follow the protocol across their wrap-around, keyboards type the keys that were
  pressed, probing leaves the bus as it was. Library: string routines, number parsing, sorting and UTF-8 decoding do what the C standard asks. Theorems on error
  behaviour state where the code halts, hangs or leaves its buffers.

  \<^bold>\<open>Bounds and fuel.\<close> Chains on a FAT volume may be cyclic on disk, so \<open>read_file\<close> and the directory loop take fuel; the theorems give the number of steps that is
  enough: the length of the chain, and one more than the number of entries, where a long name counts twice. All other loops need none. Where an \<open>int\<close> counts (\<open>strcmp\<close>), passing its maximum is an error value. Hypotheses such as
  \<open>512 * nsect < 2 ^ 64\<close> are limits of the address types of the code.

  \<^bold>\<open>Not modelled.\<close> The two copies of \<open>printf.c\<close> are third-party code, and so are the tables \<open>alpha.h\<close>, \<open>punct.h\<close>, \<open>casemap.h\<close> and the headers of openlibm and limine. \<open>strto.c\<close> is floating-point
  arithmetic, for which no library theory is available here. Scheduling, processes, the mount table and the system call dispatcher are written in Rust and, but for the page request, not modelled; \<open>syscall_handlers.c\<close> and \<open>main.c\<close> only call
  them. \<open>fs.c\<close> is a leftover that is superseded by the Rust file system layer. The wrappers of the C library (\<open>unistd.c\<close>, \<open>stdio.c\<close>, \<open>fcntl.c\<close> and others) fill a structure and enter the kernel. \<open>apic.c\<close> programs the interrupt controller. Assembly
  routines have no model beyond the state they change.
\<close>

end
